(* ===== verification/Prelude.thy ===== *)
theory Prelude
  imports Main "HOL-Library.Word" "HOL-Library.Sublist" "HOL-Library.Code_Target_Numeral"
begin

text \<open>
  Shared vocabulary of the development: the machine types of the C code, the
  big-endian reading and writing of numbers as byte lists, and the generic
  lemmas on words and lists that the component theories use.

  Target: 64-bit iOS. An 8-bit octet is \<open>byte\<close>, \<open>unsigned\<close> and
  \<open>uint32_t\<close> are \<open>uint32\<close>, \<open>uint64_t\<close> is \<open>uint64\<close>. A
  \<open>size_t\<close> is a natural number below \<open>size_max1\<close> (that is, below
  \<open>2 ^ 64\<close>); every place where the C code computes a \<open>size_t\<close> that may
  wrap is written with \<open>size_add\<close> or \<open>size_mul\<close>, which wrap.
\<close>

unbundle bit_operations_syntax

type_synonym byte = "8 word"
type_synonym uint16 = "16 word"
type_synonym uint32 = "32 word"
type_synonym uint64 = "64 word"
type_synonym int64 = "64 word"

named_theorems word_read \<open>unsigned readings of word expressions\<close>
named_theorems mem_simps \<open>equations of the memory primitives\<close>

section \<open>\<open>size_t\<close> arithmetic\<close>

definition size_max1 :: nat where
  "size_max1 = 2 ^ 64"

definition size_add :: "nat \<Rightarrow> nat \<Rightarrow> nat" where
  "size_add a b = (a + b) mod size_max1"

definition size_mul :: "nat \<Rightarrow> nat \<Rightarrow> nat" where
  "size_mul a b = (a * b) mod size_max1"

definition int_max :: nat where
  "int_max = 2 ^ 31 - 1"

lemma size_max1_pos [simp]: "0 < size_max1"
  by (simp add: size_max1_def)

lemma size_add_lt [simp]: "size_add a b < size_max1"
  by (simp add: size_add_def)

lemma size_mul_lt [simp]: "size_mul a b < size_max1"
  by (simp add: size_mul_def)

lemma size_add_noover: "a + b < size_max1 \<Longrightarrow> size_add a b = a + b"
  by (simp add: size_add_def)

text \<open>
  The C idiom \<open>a + b < a\<close> detects exactly the sums that wrap.
\<close>

lemma size_add_overflow_iff:
  assumes "a < size_max1" and "b < size_max1"
  shows "size_add a b < a \<longleftrightarrow> size_max1 \<le> a + b"
proof (cases "a + b < size_max1")
  case True
  then show ?thesis by (simp add: size_add_def)
next
  case False
  then have "(a + b) mod size_max1 = a + b - size_max1"
    using assms by (simp add: mod_if)
  then show ?thesis using False assms by (simp add: size_add_def)
qed

lemma size_add_overflow_iff':
  assumes "a < size_max1" and "b < size_max1"
  shows "size_add a b < b \<longleftrightarrow> size_max1 \<le> a + b"
  using size_add_overflow_iff [OF assms(2,1)] by (simp add: size_add_def add.commute)

text \<open>The C idiom \<open>(a * k) / k != a\<close> detects exactly the products that wrap.\<close>

lemma size_mul_div_eq_iff:
  assumes "0 < k" and "a < size_max1"
  shows "size_mul a k div k = a \<longleftrightarrow> a * k < size_max1"
proof
  assume "a * k < size_max1"
  then show "size_mul a k div k = a" using assms by (simp add: size_mul_def)
next
  assume eq: "size_mul a k div k = a"
  have "a * k \<le> size_mul a k"
    using eq by (metis div_times_less_eq_dividend)
  then show "a * k < size_max1"
    by (rule le_less_trans) simp
qed

section \<open>Big-endian numbers\<close>

definition be_val :: "byte list \<Rightarrow> nat" where
  "be_val bs = foldl (\<lambda>acc b. acc * 256 + unat b) 0 bs"

fun be_bytes :: "nat \<Rightarrow> nat \<Rightarrow> byte list" where
  "be_bytes 0 v = []"
| "be_bytes (Suc n) v = be_bytes n (v div 256) @ [of_nat v]"

lemma be_val_foldl: "foldl (\<lambda>acc b. acc * 256 + unat b) a bs = a * 256 ^ length bs + be_val bs"
  unfolding be_val_def
proof (induction bs arbitrary: a)
  case Nil
  then show ?case by simp
next
  case (Cons b bs)
  show ?case
    using Cons.IH [of "a * 256 + unat b"] Cons.IH [of "unat b"]
    by (simp add: algebra_simps)
qed

lemma be_val_Nil [simp]: "be_val [] = 0"
  by (simp add: be_val_def)

lemma be_val_Cons: "be_val (b # bs) = unat b * 256 ^ length bs + be_val bs"
  using be_val_foldl [of "unat b" bs] by (simp add: be_val_def)

lemma be_val_append: "be_val (xs @ ys) = be_val xs * 256 ^ length ys + be_val ys"
  using be_val_foldl [of "be_val xs" ys] by (simp add: be_val_def)

lemma be_val_snoc: "be_val (xs @ [b]) = be_val xs * 256 + unat b"
  by (simp add: be_val_append be_val_Cons)

lemma byte_lt [simp]: "unat (b :: byte) < 256"
  using unsigned_less [of b, where ?'a = nat] by simp

lemma be_val_lt: "be_val bs < 256 ^ length bs"
proof (induction bs rule: rev_induct)
  case Nil
  then show ?case by simp
next
  case (snoc b bs)
  have "be_val bs * 256 + unat b < (be_val bs + 1) * 256" by simp
  also have "\<dots> \<le> 256 ^ length bs * 256" using snoc by (intro mult_right_mono) auto
  finally show ?case by (simp add: be_val_snoc mult.commute)
qed

lemma length_be_bytes [simp]: "length (be_bytes n v) = n"
  by (induction n arbitrary: v) auto

lemma unat_of_nat_byte [simp]: "unat (of_nat v :: byte) = v mod 256"
  by (simp add: unat_of_nat)

lemma be_val_be_bytes: "be_val (be_bytes n v) = v mod 256 ^ n"
proof (induction n arbitrary: v)
  case 0
  then show ?case by simp
next
  case (Suc n)
  have "be_val (be_bytes (Suc n) v) = (v div 256 mod 256 ^ n) * 256 + v mod 256"
    by (simp add: be_val_snoc Suc)
  also have "\<dots> = v mod (256 * 256 ^ n)"
    by (simp add: mod_mult2_eq mult.commute)
  finally show ?case by simp
qed

lemma be_bytes_be_val: "be_bytes (length bs) (be_val bs) = bs"
proof (induction bs rule: rev_induct)
  case Nil
  then show ?case by simp
next
  case (snoc b bs)
  have "(be_val bs * 256 + unat b) div 256 = be_val bs" by simp
  moreover have "of_nat (be_val bs * 256 + unat b) = (b :: byte)"
    by (rule word_unat_eq_iff [THEN iffD2]) (simp only: unat_of_nat_byte, simp)
  ultimately show ?case using snoc by (simp add: be_val_snoc)
qed

lemma be_val_inj: "length xs = length ys \<Longrightarrow> be_val xs = be_val ys \<Longrightarrow> xs = ys"
  by (metis be_bytes_be_val)

section \<open>Words\<close>

lemma unat_ucast_up [word_read]:
  "LENGTH('a::len) \<le> LENGTH('b::len) \<Longrightarrow> unat (ucast (w :: 'a word) :: 'b word) = unat w"
  by (simp add: unsigned_ucast_eq take_bit_nat_eq_self less_le_trans [OF unsigned_less])

lemma unat_eq_of_nat: "unat (w :: 'a::len word) = n \<Longrightarrow> w = of_nat n"
  by auto

lemma nat_push_or: "w < 2 ^ n \<Longrightarrow> push_bit n (v :: nat) OR w = v * 2 ^ n + w"
proof -
  assume "w < 2 ^ n"
  then have w: "take_bit n w = w" by (simp add: take_bit_nat_eq_self)
  have "push_bit n v AND take_bit n w = 0"
    by (rule bit_eqI) (auto simp: bit_simps)
  then show ?thesis
    using w by (simp add: disjunctive_add_eq_or push_bit_eq_mult)
qed

lemma unat_push_or [word_read]:
  fixes v w :: "'a::len word"
  assumes "unat w < 2 ^ n" and "unat v * 2 ^ n < 2 ^ LENGTH('a)"
  shows "unat (push_bit n v OR w) = unat v * 2 ^ n + unat w"
proof -
  have "unat (push_bit n v) = push_bit n (unat v)"
    by (subst unsigned_push_bit_eq, rule take_bit_nat_eq_self)
      (use assms(2) in \<open>simp add: push_bit_eq_mult\<close>)
  then show ?thesis
    using nat_push_or [OF assms(1), of "unat v"] by (simp add: unsigned_or_eq)
qed

lemma unat_and_low [word_read]:
  "unat ((w :: 'a::len word) AND mask n) = unat w mod 2 ^ n"
  by (simp only: take_bit_eq_mask [symmetric] unsigned_take_bit_eq) (simp only: take_bit_eq_mod)

lemma unat_drop_bit [word_read]: "unat (drop_bit n (w :: 'a::len word)) = unat w div 2 ^ n"
  by (simp only: unat_drop_bit_eq) (simp only: drop_bit_eq_div)

lemma drop_bit_eq_0_iff_unat:
  "drop_bit n (w :: 'a::len word) = 0 \<longleftrightarrow> unat w < 2 ^ n"
  by (simp add: word_unat_eq_iff unat_drop_bit div_eq_0_iff)

lemma mask_lits:
  "(0x7f :: 'a::len word) = mask 7" "(0x3f :: 'a::len word) = mask 6"
  "(0x1f :: 'a::len word) = mask 5" "(0xf :: 'a::len word) = mask 4"
  "(0x7 :: 'a::len word) = mask 3" "(0xff :: 'a::len word) = mask 8"
  by (simp_all add: mask_eq_exp_minus_1)

lemma byte_high_bit: "(b :: byte) AND 0x80 = 0 \<longleftrightarrow> unat b < 128"
proof -
  have "b AND 0x80 = 0 \<longleftrightarrow> \<not> bit b 7"
    using and_exp_eq_0_iff_not_bit [of b 7] by simp
  also have "\<dots> \<longleftrightarrow> unat b < 128"
  proof -
    have "bit b 7 \<longleftrightarrow> bit (unat b) 7"
      by (simp add: bit_unsigned_iff)
    then have "bit b 7 \<longleftrightarrow> odd (unat b div 2 ^ 7)"
      by (simp only: bit_iff_odd)
    moreover have "n < 256 \<Longrightarrow> odd (n div 2 ^ 7) \<longleftrightarrow> \<not> n < 128" for n :: nat
      by (cases "n < 128") (auto simp: div_nat_eqI [of 128 1 n])
    ultimately show ?thesis using byte_lt [of b] by blast
  qed
  finally show ?thesis .
qed

section \<open>Lists\<close>

lemma foldl_invariant:
  assumes "P a" and "\<And>a x. P a \<Longrightarrow> x \<in> set xs \<Longrightarrow> P (f a x)"
  shows "P (foldl f a xs)"
  using assms by (induction xs arbitrary: a) auto

end
