(* ===== verification/Mem.thy ===== *)
theory Mem
  imports Prelude
begin

text \<open>
  BoringSSL's memory layer (\<open>crypto/mem.c\<close>) and the wrappers of the C memory
  primitives in \<open>crypto/internal.h\<close>.

  A non-NULL pointer to \<open>n\<close> bytes is the list of those bytes, NULL is \<open>None\<close>.
  The C library's \<open>malloc\<close> is not part of the repository: it is the record
  \<open>allocator\<close>, which says for the \<open>k\<close>-th request whether a block of the requested
  size is handed out (\<open>malloc_ok\<close>) and what the fresh, uninitialised block holds
  (\<open>fresh\<close>). Nothing is assumed of either, so every statement holds for every
  pattern of allocation failures.
\<close>

record allocator =
  clock :: nat
  malloc_ok :: "nat \<Rightarrow> nat \<Rightarrow> bool"
  fresh :: "nat \<Rightarrow> nat \<Rightarrow> byte"

definition libc_malloc :: "allocator \<Rightarrow> nat \<Rightarrow> byte list option \<times> allocator" where
  "libc_malloc al n =
     ((if malloc_ok al (clock al) n then Some (map (fresh al (clock al)) [0..<n]) else None),
      al\<lparr>clock := Suc (clock al)\<rparr>)"

definition OPENSSL_MALLOC_PREFIX :: nat where
  "OPENSSL_MALLOC_PREFIX = 8"

text \<open>The size is recorded in the prefix; the pointer handed out is past it.\<close>

definition OPENSSL_malloc :: "allocator \<Rightarrow> nat \<Rightarrow> byte list option \<times> allocator" where
  "OPENSSL_malloc al sz =
     (if size_add sz OPENSSL_MALLOC_PREFIX < sz then (None, al)
      else case libc_malloc al (size_add sz OPENSSL_MALLOC_PREFIX) of
        (None, al') \<Rightarrow> (None, al')
      | (Some ptr, al') \<Rightarrow> (Some (drop OPENSSL_MALLOC_PREFIX ptr), al'))"

definition OPENSSL_realloc ::
  "allocator \<Rightarrow> byte list option \<Rightarrow> nat \<Rightarrow> byte list option \<times> allocator" where
  "OPENSSL_realloc al orig_ptr new_size =
     (case orig_ptr of
        None \<Rightarrow> OPENSSL_malloc al new_size
      | Some orig \<Rightarrow>
          (let old_size = length orig in
           case OPENSSL_malloc al new_size of
             (None, al') \<Rightarrow> (None, al')
           | (Some ret, al') \<Rightarrow>
               (let to_copy = (if old_size < new_size then old_size else new_size)
                in (Some (take to_copy orig @ drop to_copy ret), al'))))"

definition OPENSSL_memdup :: "allocator \<Rightarrow> byte list \<Rightarrow> byte list option \<times> allocator" where
  "OPENSSL_memdup al data =
     (if length data = 0 then (None, al)
      else case OPENSSL_malloc al (length data) of
        (None, al') \<Rightarrow> (None, al')
      | (Some ret, al') \<Rightarrow> (Some (data @ drop (length data) ret), al'))"

section \<open>Comparison and searching\<close>

definition OPENSSL_memchr :: "byte list \<Rightarrow> byte \<Rightarrow> nat option" where
  "OPENSSL_memchr s c =
     (let pre = takeWhile (\<lambda>b. b \<noteq> c) s in if length pre < length s then Some (length pre) else None)"

text \<open>
  \<open>memcmp\<close> compares as unsigned bytes, up to the first difference; the standard
  fixes only the sign of the result, which is what the callers use.
\<close>

fun OPENSSL_memcmp :: "byte list \<Rightarrow> byte list \<Rightarrow> int" where
  "OPENSSL_memcmp (a # as) (b # bs) =
     (if a < b then -1 else if b < a then 1 else OPENSSL_memcmp as bs)"
| "OPENSSL_memcmp _ _ = 0"

definition CRYPTO_memcmp :: "byte list \<Rightarrow> byte list \<Rightarrow> byte" where
  "CRYPTO_memcmp a b = foldl (\<lambda>x (p, q). x OR (p XOR q)) 0 (zip a b)"

definition OPENSSL_hash32 :: "byte list \<Rightarrow> uint32" where
  "OPENSSL_hash32 ptr = foldl (\<lambda>h b. (h XOR ucast b) * 16777619) 2166136261 ptr"

section \<open>C strings\<close>

text \<open>A C string is the memory from its first character on, read up to a NUL.\<close>

definition c_strlen :: "byte list \<Rightarrow> nat" where
  "c_strlen s = length (takeWhile (\<lambda>b. b \<noteq> 0) s)"

definition OPENSSL_strhash :: "byte list \<Rightarrow> uint32" where
  "OPENSSL_strhash s = OPENSSL_hash32 (take (c_strlen s) s)"

text \<open>
  The loop over the characters from index \<open>i\<close> on. The caller owns \<open>len\<close> bytes or a
  NUL among them, so the end of the memory is only reached with \<open>i = len\<close>.
\<close>

fun strnlen_loop :: "byte list \<Rightarrow> nat \<Rightarrow> nat \<Rightarrow> nat" where
  "strnlen_loop [] i len = len"
| "strnlen_loop (c # s) i len = (if i < len then (if c = 0 then i else strnlen_loop s (Suc i) len) else len)"

definition OPENSSL_strnlen :: "byte list \<Rightarrow> nat \<Rightarrow> nat" where
  "OPENSSL_strnlen s len = strnlen_loop s 0 len"

definition OPENSSL_strdup :: "allocator \<Rightarrow> byte list option \<Rightarrow> byte list option \<times> allocator" where
  "OPENSSL_strdup al s =
     (case s of
        None \<Rightarrow> (None, al)
      | Some s \<Rightarrow>
          (let len = c_strlen s + 1 in
           case OPENSSL_malloc al len of
             (None, al') \<Rightarrow> (None, al')
           | (Some ret, al') \<Rightarrow> (Some (take len s @ drop len ret), al')))"

definition OPENSSL_strndup :: "allocator \<Rightarrow> byte list \<Rightarrow> nat \<Rightarrow> byte list option \<times> allocator" where
  "OPENSSL_strndup al str size0 =
     (let sz = OPENSSL_strnlen str size0;
          alloc_size = size_add sz 1 in
      if alloc_size < sz then (None, al)
      else case OPENSSL_malloc al alloc_size of
        (None, al') \<Rightarrow> (None, al')
      | (Some ret, al') \<Rightarrow> (Some ((take sz str @ drop sz ret)[sz := 0]), al'))"

text \<open>\<open>char\<close> is signed on the target, so characters are compared by \<open>sint\<close>.\<close>

definition OPENSSL_tolower :: "int \<Rightarrow> int" where
  "OPENSSL_tolower c = (if 65 \<le> c \<and> c \<le> 90 then c + (97 - 65) else c)"

text \<open>\<open>None\<close>: the loop has read past the memory of an unterminated string.\<close>

fun OPENSSL_strcasecmp :: "byte list \<Rightarrow> byte list \<Rightarrow> int option" where
  "OPENSSL_strcasecmp (a # as) (b # bs) =
     (let aa = OPENSSL_tolower (sint a); bb = OPENSSL_tolower (sint b) in
      if aa < bb then Some (-1) else if aa > bb then Some 1
      else if aa = 0 then Some 0 else OPENSSL_strcasecmp as bs)"
| "OPENSSL_strcasecmp _ _ = None"

fun OPENSSL_strncasecmp :: "byte list \<Rightarrow> byte list \<Rightarrow> nat \<Rightarrow> int option" where
  "OPENSSL_strncasecmp _ _ 0 = Some 0"
| "OPENSSL_strncasecmp (a # as) (b # bs) (Suc n) =
     (let aa = OPENSSL_tolower (sint a); bb = OPENSSL_tolower (sint b) in
      if aa < bb then Some (-1) else if aa > bb then Some 1
      else if aa = 0 then Some 0 else OPENSSL_strncasecmp as bs n)"
| "OPENSSL_strncasecmp _ _ (Suc n) = None"

text \<open>
  \<open>strlcpy\<close> returns what it wrote to the destination, in order (the bytes of the
  destination beyond are untouched), and its result.
\<close>

fun strlcpy_loop :: "byte list \<Rightarrow> nat \<Rightarrow> byte list \<times> byte list \<times> nat" where
  "strlcpy_loop [] dst_size = ([], [], dst_size)"
| "strlcpy_loop (c # src) dst_size =
     (if dst_size > 1 \<and> c \<noteq> 0
      then (case strlcpy_loop src (dst_size - 1) of (w, src', d) \<Rightarrow> (c # w, src', d))
      else ([], c # src, dst_size))"

definition OPENSSL_strlcpy :: "byte list \<Rightarrow> byte list \<Rightarrow> nat \<Rightarrow> byte list \<times> nat" where
  "OPENSSL_strlcpy dst src dst_size =
     (case strlcpy_loop src dst_size of
        (w, src', d) \<Rightarrow>
          (let written = (if d \<noteq> 0 then w @ [0] else w)
           in (written @ drop (length written) dst, length w + c_strlen src')))"

definition OPENSSL_strlcat :: "byte list \<Rightarrow> byte list \<Rightarrow> nat \<Rightarrow> byte list \<times> nat" where
  "OPENSSL_strlcat dst src dst_size =
     (let l = length (takeWhile (\<lambda>b. b \<noteq> 0) (take dst_size dst)) in
      case OPENSSL_strlcpy (drop l dst) src (dst_size - l) of
        (dst', r) \<Rightarrow> (take l dst @ dst', l + r))"

text \<open>\<open>strcmp\<close> of the C library, of which the callers use whether it is zero.\<close>

fun c_strcmp :: "byte list \<Rightarrow> byte list \<Rightarrow> int" where
  "c_strcmp (a # as) (b # bs) =
     (if a < b then - 1 else if b < a then 1 else if a = 0 then 0 else c_strcmp as bs)"
| "c_strcmp _ _ = 0"

definition c_str :: "byte list \<Rightarrow> byte list" where
  "c_str s = takeWhile (\<lambda>b. b \<noteq> 0) s"

text \<open>\<open>memcpy\<close> into a buffer; a copy that does not fit is the result \<open>None\<close>.\<close>

definition mem_store :: "byte list \<Rightarrow> nat \<Rightarrow> byte list \<Rightarrow> byte list option" where
  "mem_store d off bs = (if off + length bs \<le> length d then Some (take off d @ bs @ drop (off + length bs) d) else None)"

section \<open>Lemmas\<close>

lemma c_strcmp_eq_0_iff: "0 \<in> set a \<Longrightarrow> 0 \<in> set b \<Longrightarrow> c_strcmp a b = 0 \<longleftrightarrow> c_str a = c_str b"
  by (induction a b rule: c_strcmp.induct) (auto simp: c_str_def)

lemma take_c_strlen: "take (c_strlen s) s = c_str s"
  by (simp add: c_strlen_def c_str_def takeWhile_eq_take [symmetric])

lemma OPENSSL_strhash_c_str: "OPENSSL_strhash s = OPENSSL_hash32 (c_str s)"
  by (simp add: OPENSSL_strhash_def take_c_strlen)

lemma libc_malloc_length: "libc_malloc al n = (Some p, al') \<Longrightarrow> length p = n"
  by (auto simp: libc_malloc_def split: if_splits)

lemma OPENSSL_malloc_length:
  assumes "OPENSSL_malloc al sz = (Some p, al')" and "sz < size_max1"
  shows "length p = sz"
proof -
  have no: "\<not> size_add sz 8 < sz"
    using assms(1) by (auto simp: OPENSSL_malloc_def OPENSSL_MALLOC_PREFIX_def split: if_splits)
  then have "size_add sz 8 = sz + 8"
    using size_add_overflow_iff [of sz 8] assms(2)
    by (intro size_add_noover) (simp add: size_max1_def)
  then show ?thesis
    using assms(1) no
    by (auto simp: OPENSSL_malloc_def OPENSSL_MALLOC_PREFIX_def
        split: prod.splits option.splits if_splits dest!: libc_malloc_length)
qed

text \<open>A block that was handed out always fits the address space with its prefix.\<close>

lemma OPENSSL_malloc_bound:
  assumes "OPENSSL_malloc al sz = (Some p, al')" and "sz < size_max1"
  shows "sz + OPENSSL_MALLOC_PREFIX < size_max1"
  using assms size_add_overflow_iff [of sz 8]
  by (auto simp: OPENSSL_malloc_def OPENSSL_MALLOC_PREFIX_def size_max1_def split: if_splits)

text \<open>An allocator that never refuses.\<close>

definition never_fails :: "allocator \<Rightarrow> bool" where
  "never_fails al \<longleftrightarrow> (\<forall>k n. malloc_ok al k n)"

definition plentiful :: allocator where
  "plentiful = \<lparr>clock = 0, malloc_ok = (\<lambda>_ _. True), fresh = (\<lambda>_ _. 0xa5)\<rparr>"

lemma plentiful_never_fails: "never_fails plentiful"
  by (simp add: never_fails_def plentiful_def)

lemma OPENSSL_malloc_total:
  assumes "never_fails al" and "sz + 8 < size_max1"
  obtains p al' where "OPENSSL_malloc al sz = (Some p, al')" and "never_fails al'"
  using assms by (auto simp: OPENSSL_malloc_def libc_malloc_def never_fails_def
      OPENSSL_MALLOC_PREFIX_def size_add_noover)

lemma OPENSSL_realloc_total:
  assumes "never_fails al" and "sz + 8 < size_max1"
  obtains p al' where "OPENSSL_realloc al q sz = (Some p, al')" and "never_fails al'"
proof -
  obtain p al' where "OPENSSL_malloc al sz = (Some p, al')" "never_fails al'"
    using OPENSSL_malloc_total [OF assms] by blast
  then show thesis using that by (cases q) (auto simp: OPENSSL_realloc_def Let_def)
qed

lemma OPENSSL_realloc_length:
  assumes "OPENSSL_realloc al q n = (Some p, al')" and "n < size_max1"
  shows "length p = n"
proof (cases q)
  case None
  then show ?thesis using assms by (simp add: OPENSSL_realloc_def OPENSSL_malloc_length)
next
  case (Some orig)
  then show ?thesis using assms
    by (auto simp: OPENSSL_realloc_def Let_def split: prod.splits option.splits if_splits
        dest!: OPENSSL_malloc_length)
qed

lemma OPENSSL_realloc_take:
  assumes "OPENSSL_realloc al (Some orig) n = (Some p, al')" and "n < size_max1"
    and "k \<le> length orig" and "k \<le> n"
  shows "take k p = take k orig"
  using assms
  by (auto simp: OPENSSL_realloc_def Let_def split: prod.splits option.splits if_splits
      dest!: OPENSSL_malloc_length)

lemma OPENSSL_memdup_Some:
  assumes "OPENSSL_memdup al d = (Some p, al')" and "length d < size_max1"
  shows "p = d"
  using assms
  by (auto simp: OPENSSL_memdup_def split: if_splits prod.splits option.splits
      dest!: OPENSSL_malloc_length)

lemma OPENSSL_memdup_total:
  assumes "never_fails al" and "d \<noteq> []" and "length d + 8 < size_max1"
  obtains al' where "OPENSSL_memdup al d = (Some d, al')" and "never_fails al'"
proof -
  obtain p al' where m: "OPENSSL_malloc al (length d) = (Some p, al')" "never_fails al'"
    using OPENSSL_malloc_total [OF assms(1,3)] by blast
  have "length p = length d" using OPENSSL_malloc_length [OF m(1)] assms(3) by simp
  then show thesis using m assms(2) that [of al'] by (simp add: OPENSSL_memdup_def)
qed

lemma strnlen_loop_eq:
  "i \<le> len \<Longrightarrow> len \<le> i + length s \<Longrightarrow>
     strnlen_loop s i len = i + length (takeWhile (\<lambda>b. b \<noteq> 0) (take (len - i) s))"
proof (induction s i len rule: strnlen_loop.induct)
  case (1 i len)
  then show ?case by simp
next
  case (2 c s i len)
  show ?case
  proof (cases "i < len")
    case True
    then have "len - i = Suc (len - Suc i)" by simp
    with True 2 show ?thesis by auto
  next
    case False
    with 2 show ?thesis by simp
  qed
qed

lemma OPENSSL_strnlen_eq:
  "len \<le> length s \<Longrightarrow> OPENSSL_strnlen s len = length (takeWhile (\<lambda>b. b \<noteq> 0) (take len s))"
  by (simp add: OPENSSL_strnlen_def strnlen_loop_eq)

lemma OPENSSL_memchr_split:
  assumes "OPENSSL_memchr s c = Some i"
  obtains pre post where "s = pre @ c # post" and "c \<notin> set pre" and "i = length pre"
proof -
  let ?pre = "takeWhile (\<lambda>b. b \<noteq> c) s"
  have i: "i = length ?pre" "length ?pre < length s"
    using assms by (auto simp: OPENSSL_memchr_def Let_def split: if_splits)
  then have "dropWhile (\<lambda>b. b \<noteq> c) s \<noteq> []"
    by (metis append_Nil2 less_irrefl takeWhile_dropWhile_id)
  then obtain post where "dropWhile (\<lambda>b. b \<noteq> c) s = c # post"
    by (metis (mono_tags) hd_dropWhile list.collapse)
  then have "s = ?pre @ c # post" by (metis takeWhile_dropWhile_id)
  moreover have "c \<notin> set ?pre" by (auto dest: set_takeWhileD)
  ultimately show thesis using i that by blast
qed

lemma OPENSSL_memchr_append:
  "c \<notin> set pre \<Longrightarrow> OPENSSL_memchr (pre @ c # post) c = Some (length pre)"
proof -
  assume "c \<notin> set pre"
  then have "takeWhile (\<lambda>b. b \<noteq> c) (pre @ c # post) = pre"
    by (subst takeWhile_append2) auto
  then show ?thesis by (simp add: OPENSSL_memchr_def)
qed

lemma OPENSSL_memchr_None: "OPENSSL_memchr s c = None \<longleftrightarrow> c \<notin> set s"
proof
  assume "OPENSSL_memchr s c = None"
  then show "c \<notin> set s" by (auto dest!: split_list_first simp: OPENSSL_memchr_append)
next
  assume "c \<notin> set s"
  then show "OPENSSL_memchr s c = None"
    by (cases "OPENSSL_memchr s c") (auto elim: OPENSSL_memchr_split)
qed

lemma word_or_eq_0_iff: "(a :: 'a::len word) OR b = 0 \<longleftrightarrow> a = 0 \<and> b = 0"
  by (rule or_eq_0_iff)

lemma word_xor_eq_0_iff: "(a :: 'a::len word) XOR b = 0 \<longleftrightarrow> a = b"
  by (auto simp: bit_eq_iff bit_simps)

lemma CRYPTO_memcmp_foldl:
  "foldl (\<lambda>x (p, q). x OR (p XOR q)) x (zip a b) = 0 \<longleftrightarrow>
     x = 0 \<and> (\<forall>(p, q) \<in> set (zip a b). p = q)" for x :: byte
proof (induction a b arbitrary: x rule: list_induct2')
  case (4 p a q b)
  then show ?case by (auto simp: word_or_eq_0_iff word_xor_eq_0_iff)
qed auto

lemma CRYPTO_memcmp_eq_0_iff:
  "length a = length b \<Longrightarrow> CRYPTO_memcmp a b = 0 \<longleftrightarrow> a = b"
  unfolding CRYPTO_memcmp_def CRYPTO_memcmp_foldl
  by (induction a b rule: list_induct2) auto

lemma OPENSSL_memcmp_eq_0_iff:
  "length a = length b \<Longrightarrow> OPENSSL_memcmp a b = 0 \<longleftrightarrow> a = b"
  by (induction a b rule: OPENSSL_memcmp.induct) auto

lemma OPENSSL_strndup_Some:
  assumes "OPENSSL_strndup al str n = (Some p, al')" and "n \<le> length str" and "n < size_max1"
  shows "p = takeWhile (\<lambda>b. b \<noteq> 0) (take n str) @ [0]"
proof -
  let ?w = "takeWhile (\<lambda>b. b \<noteq> 0) (take n str)"
  have sl: "OPENSSL_strnlen str n = length ?w" using assms(2) by (rule OPENSSL_strnlen_eq)
  have le: "length ?w \<le> n"
    by (metis length_take length_takeWhile_le min.cobounded2 order_trans)
  have tk: "take (length ?w) str = ?w"
    by (metis le min.absorb1 take_take takeWhile_eq_take)
  have no: "\<not> size_add (length ?w) 1 < length ?w"
    using assms(1) by (auto simp: OPENSSL_strndup_def Let_def sl split: if_splits)
  then have sa: "size_add (length ?w) 1 = Suc (length ?w)"
    using size_add_overflow_iff [of "length ?w" 1] le assms(3)
    by (subst size_add_noover) (auto simp: size_max1_def)
  then show ?thesis
    using assms(1) no le size_add_lt [of "length ?w" 1]
    by (auto simp: OPENSSL_strndup_def Let_def sl tk list_update_append drop_Suc
        split: if_splits prod.splits option.splits dest!: OPENSSL_malloc_length)
      (metis Cons_nth_drop_Suc drop_all le_refl less_Suc_eq list_update_code(2))
qed

end
