(* ===== verification/Cbs.thy ===== *)
theory Cbs
  imports Mem
begin

text \<open>
  \<open>CBS\<close>, the byte-string reader of BoringSSL: \<open>crypto/bytestring/cbs.c\<close> up to the
  ASN.1 functions (those are in \<open>Asn1\<close>).

  The C struct is a pointer and a length into memory that nobody writes while it is
  read. The model of a \<open>CBS\<close> is the window itself, the list of its \<open>len\<close> bytes:
  \<open>CBS_data\<close> is the list and \<open>CBS_len\<close> its length. A C function that returns 1 or 0
  and advances \<open>*cbs\<close> is a function that returns the value it stored (\<open>Some\<close>, or
  \<open>None\<close> for 0) together with the new \<open>*cbs\<close>. The new \<open>*cbs\<close> is given for failing
  calls too: some of them have already consumed bytes.
\<close>

type_synonym cbs = "byte list"

definition CBS_init :: "byte list \<Rightarrow> nat \<Rightarrow> cbs" where
  "CBS_init data len = take len data"

definition CBS_data :: "cbs \<Rightarrow> byte list" where
  "CBS_data cbs = cbs"

definition CBS_len :: "cbs \<Rightarrow> nat" where
  "CBS_len cbs = length cbs"

definition cbs_get :: "cbs \<Rightarrow> nat \<Rightarrow> byte list option \<times> cbs" where
  "cbs_get cbs n = (if CBS_len cbs < n then (None, cbs) else (Some (take n cbs), drop n cbs))"

definition CBS_skip :: "cbs \<Rightarrow> nat \<Rightarrow> bool \<times> cbs" where
  "CBS_skip cbs len = (case cbs_get cbs len of (p, cbs') \<Rightarrow> (p \<noteq> None, cbs'))"

text \<open>The old \<open>*out_ptr\<close> is freed; the result is the new \<open>(*out_ptr, *out_len)\<close>.\<close>

definition CBS_stow :: "allocator \<Rightarrow> cbs \<Rightarrow> bool \<times> byte list option \<times> nat \<times> allocator" where
  "CBS_stow al cbs =
     (if CBS_len cbs = 0 then (True, None, 0, al)
      else case OPENSSL_memdup al (CBS_data cbs) of
        (None, al') \<Rightarrow> (False, None, 0, al')
      | (Some p, al') \<Rightarrow> (True, Some p, CBS_len cbs, al'))"

definition CBS_strdup :: "allocator \<Rightarrow> cbs \<Rightarrow> byte list option \<times> allocator" where
  "CBS_strdup al cbs = OPENSSL_strndup al (CBS_data cbs) (CBS_len cbs)"

definition CBS_contains_zero_byte :: "cbs \<Rightarrow> bool" where
  "CBS_contains_zero_byte cbs = (OPENSSL_memchr (CBS_data cbs) 0 \<noteq> None)"

definition CBS_mem_equal :: "cbs \<Rightarrow> byte list \<Rightarrow> bool" where
  "CBS_mem_equal cbs data =
     (if length data \<noteq> CBS_len cbs then False else CRYPTO_memcmp (CBS_data cbs) data = 0)"

definition cbs_get_u :: "cbs \<Rightarrow> nat \<Rightarrow> uint64 option \<times> cbs" where
  "cbs_get_u cbs len =
     (case cbs_get cbs len of
        (None, cbs') \<Rightarrow> (None, cbs')
      | (Some data, cbs') \<Rightarrow> (Some (foldl (\<lambda>result b. push_bit 8 result OR ucast b) 0 data), cbs'))"

definition CBS_get_u8 :: "cbs \<Rightarrow> byte option \<times> cbs" where
  "CBS_get_u8 cbs =
     (case cbs_get cbs 1 of (None, cbs') \<Rightarrow> (None, cbs') | (Some v, cbs') \<Rightarrow> (Some (v ! 0), cbs'))"

definition CBS_get_u16 :: "cbs \<Rightarrow> uint16 option \<times> cbs" where
  "CBS_get_u16 cbs = (case cbs_get_u cbs 2 of (v, cbs') \<Rightarrow> (map_option ucast v, cbs'))"

definition CRYPTO_bswap2 :: "uint16 \<Rightarrow> uint16" where
  "CRYPTO_bswap2 x = (drop_bit 8 x) OR (push_bit 8 x)"

definition CRYPTO_bswap4 :: "uint32 \<Rightarrow> uint32" where
  "CRYPTO_bswap4 x =
     (let x1 = (drop_bit 16 x) OR (push_bit 16 x) in
      (drop_bit 8 (x1 AND 0xff00ff00)) OR (push_bit 8 (x1 AND 0x00ff00ff)))"

definition CRYPTO_bswap8 :: "uint64 \<Rightarrow> uint64" where
  "CRYPTO_bswap8 x =
     ucast (CRYPTO_bswap4 (ucast (drop_bit 32 x))) OR push_bit 32 (ucast (CRYPTO_bswap4 (ucast x)))"

definition CBS_get_u16le :: "cbs \<Rightarrow> uint16 option \<times> cbs" where
  "CBS_get_u16le cbs = (case CBS_get_u16 cbs of (v, cbs') \<Rightarrow> (map_option CRYPTO_bswap2 v, cbs'))"

definition CBS_get_u24 :: "cbs \<Rightarrow> uint32 option \<times> cbs" where
  "CBS_get_u24 cbs = (case cbs_get_u cbs 3 of (v, cbs') \<Rightarrow> (map_option ucast v, cbs'))"

definition CBS_get_u32 :: "cbs \<Rightarrow> uint32 option \<times> cbs" where
  "CBS_get_u32 cbs = (case cbs_get_u cbs 4 of (v, cbs') \<Rightarrow> (map_option ucast v, cbs'))"

definition CBS_get_u32le :: "cbs \<Rightarrow> uint32 option \<times> cbs" where
  "CBS_get_u32le cbs = (case CBS_get_u32 cbs of (v, cbs') \<Rightarrow> (map_option CRYPTO_bswap4 v, cbs'))"

definition CBS_get_u64 :: "cbs \<Rightarrow> uint64 option \<times> cbs" where
  "CBS_get_u64 cbs = cbs_get_u cbs 8"

definition CBS_get_u64le :: "cbs \<Rightarrow> uint64 option \<times> cbs" where
  "CBS_get_u64le cbs = (case cbs_get_u cbs 8 of (v, cbs') \<Rightarrow> (map_option CRYPTO_bswap8 v, cbs'))"

definition CBS_get_last_u8 :: "cbs \<Rightarrow> byte option \<times> cbs" where
  "CBS_get_last_u8 cbs =
     (if CBS_len cbs = 0 then (None, cbs)
      else (Some (cbs ! (CBS_len cbs - 1)), take (CBS_len cbs - 1) cbs))"

definition CBS_get_bytes :: "cbs \<Rightarrow> nat \<Rightarrow> cbs option \<times> cbs" where
  "CBS_get_bytes cbs len =
     (case cbs_get cbs len of
        (None, cbs') \<Rightarrow> (None, cbs')
      | (Some v, cbs') \<Rightarrow> (Some (CBS_init v len), cbs'))"

definition CBS_copy_bytes :: "cbs \<Rightarrow> nat \<Rightarrow> byte list option \<times> cbs" where
  "CBS_copy_bytes cbs len =
     (case cbs_get cbs len of
        (None, cbs') \<Rightarrow> (None, cbs')
      | (Some v, cbs') \<Rightarrow> (Some (take len v), cbs'))"

definition cbs_get_length_prefixed :: "cbs \<Rightarrow> nat \<Rightarrow> cbs option \<times> cbs" where
  "cbs_get_length_prefixed cbs len_len =
     (case cbs_get_u cbs len_len of
        (None, cbs') \<Rightarrow> (None, cbs')
      | (Some len, cbs') \<Rightarrow> CBS_get_bytes cbs' (unat len))"

definition CBS_get_u8_length_prefixed :: "cbs \<Rightarrow> cbs option \<times> cbs" where
  "CBS_get_u8_length_prefixed cbs = cbs_get_length_prefixed cbs 1"

definition CBS_get_u16_length_prefixed :: "cbs \<Rightarrow> cbs option \<times> cbs" where
  "CBS_get_u16_length_prefixed cbs = cbs_get_length_prefixed cbs 2"

definition CBS_get_u24_length_prefixed :: "cbs \<Rightarrow> cbs option \<times> cbs" where
  "CBS_get_u24_length_prefixed cbs = cbs_get_length_prefixed cbs 3"

definition CBS_get_until_first :: "cbs \<Rightarrow> byte \<Rightarrow> cbs option \<times> cbs" where
  "CBS_get_until_first cbs c =
     (case OPENSSL_memchr (CBS_data cbs) c of
        None \<Rightarrow> (None, cbs)
      | Some split_at \<Rightarrow> CBS_get_bytes cbs split_at)"

section \<open>Readers\<close>

text \<open>
  The contract every reading function keeps: it leaves a suffix of the window, never
  touches the bytes behind it, and does not look at bytes it does not consume when it
  succeeds.
\<close>

locale reader =
  fixes get :: "cbs \<Rightarrow> 'a option \<times> cbs"
  assumes get_suffix: "get cbs = (r, cbs') \<Longrightarrow> suffix cbs' cbs"
begin

lemma get_length: "get cbs = (r, cbs') \<Longrightarrow> length cbs' \<le> length cbs"
  using get_suffix [THEN suffix_length_le] .

lemma get_consumed: "get cbs = (r, cbs') \<Longrightarrow> cbs = take (length cbs - length cbs') cbs @ cbs'"
  using get_suffix by (metis suffix_def append_eq_conv_conj append_take_drop_id diff_add_inverse2
      length_append)

lemma get_bound: "get cbs = (r, cbs') \<Longrightarrow> length cbs < n \<Longrightarrow> length cbs' < n"
  using get_length by (meson le_less_trans)

end

lemma cbs_get_cases:
  "cbs_get cbs n = (if length cbs < n then (None, cbs) else (Some (take n cbs), drop n cbs))"
  by (simp add: cbs_get_def CBS_len_def)

lemma cbs_get_append [simp]: "length p = n \<Longrightarrow> cbs_get (p @ rest) n = (Some p, rest)"
  by (simp add: cbs_get_cases)

lemma CBS_get_u8_eq:
  "CBS_get_u8 cbs = (case cbs of [] \<Rightarrow> (None, []) | b # rest \<Rightarrow> (Some b, rest))"
  by (auto simp: CBS_get_u8_def cbs_get_cases split: list.splits)

lemma CBS_get_u8_Nil [simp]: "CBS_get_u8 [] = (None, [])"
  and CBS_get_u8_Cons [simp]: "CBS_get_u8 (b # rest) = (Some b, rest)"
  by (simp_all add: CBS_get_u8_eq)

lemma CBS_skip_eq: "CBS_skip cbs n = (if length cbs < n then (False, cbs) else (True, drop n cbs))"
  by (simp add: CBS_skip_def cbs_get_cases)

lemma CBS_get_bytes_eq:
  "CBS_get_bytes cbs n = (if length cbs < n then (None, cbs) else (Some (take n cbs), drop n cbs))"
  by (simp add: CBS_get_bytes_def cbs_get_cases CBS_init_def)

lemma CBS_get_last_u8_snoc [simp]: "CBS_get_last_u8 (bs @ [b]) = (Some b, bs)"
  by (simp add: CBS_get_last_u8_def CBS_len_def)

text \<open>Reading up to eight bytes computes their big-endian value without overflow.\<close>

lemma foldl_be_word:
  fixes r :: uint64
  assumes "unat r * 256 ^ length bs + 256 ^ length bs \<le> 2 ^ 64"
  shows "unat (foldl (\<lambda>result b. push_bit 8 result OR ucast b) r bs)
         = unat r * 256 ^ length bs + be_val bs"
  using assms
proof (induction bs arbitrary: r)
  case Nil
  then show ?case by simp
next
  case (Cons b bs)
  have small: "unat r * 256 + 256 \<le> 2 ^ 64 div 256 ^ length bs"
    using Cons.prems by (simp add: less_eq_div_iff_mult_less_eq algebra_simps)
  then have lt: "unat r * 2 ^ 8 < 2 ^ LENGTH(64)"
    using order_trans [OF small div_le_dividend] by simp
  have step: "unat (push_bit 8 r OR ucast b) = unat r * 256 + unat b"
    using unat_push_or [of "ucast b :: uint64" 8 r] lt by (simp add: unat_ucast_up)
  have "(unat r * 256 + unat b) * 256 ^ length bs + 256 ^ length bs
        \<le> (unat r * 256 + 256) * 256 ^ length bs"
    using byte_lt [of b] by (simp add: algebra_simps del: byte_lt)
  also have "\<dots> \<le> 2 ^ 64"
    using Cons.prems by (simp add: algebra_simps)
  finally show ?case
    using Cons.IH [of "push_bit 8 r OR ucast b"]
    by (simp add: step be_val_Cons algebra_simps)
qed

lemma cbs_get_u_eq:
  assumes "n \<le> 8"
  shows "cbs_get_u cbs n =
    (if length cbs < n then (None, cbs) else (Some (of_nat (be_val (take n cbs))), drop n cbs))"
proof (cases "length cbs < n")
  case True
  then show ?thesis by (simp add: cbs_get_u_def cbs_get_cases)
next
  case False
  have "(256 :: nat) ^ n \<le> 256 ^ 8" using assms by (intro power_increasing) auto
  then have "unat (foldl (\<lambda>result b. push_bit 8 result OR ucast b) (0 :: uint64) (take n cbs))
      = be_val (take n cbs)"
    using False by (subst foldl_be_word) auto
  then have "foldl (\<lambda>result b. push_bit 8 result OR ucast b) (0 :: uint64) (take n cbs)
      = of_nat (be_val (take n cbs))"
    by (rule unat_eq_of_nat)
  then show ?thesis using False by (simp add: cbs_get_u_def cbs_get_cases)
qed

lemma unat_of_nat_be_val:
  assumes "length bs \<le> 8"
  shows "unat (of_nat (be_val bs) :: uint64) = be_val bs"
proof -
  have "be_val bs < 256 ^ length bs" by (rule be_val_lt)
  also have "\<dots> \<le> 256 ^ 8" using assms by (intro power_increasing) auto
  finally show ?thesis by (simp add: unat_of_nat)
qed

end
