(* ===== verification/Asn1.thy ===== *)
theory Asn1
  imports Cbs
begin

text \<open>
  The ASN.1 half of \<open>crypto/bytestring/cbs.c\<close>: reading tags, lengths and elements in
  DER (or, where asked, the BER length forms), the typed readers for INTEGER, BOOLEAN
  and optional fields, and the checks on INTEGER and BIT STRING contents.
\<close>

section \<open>Constants of \<open>bytestring.h\<close>\<close>

definition CBS_ASN1_TAG_SHIFT :: nat where "CBS_ASN1_TAG_SHIFT = 24"
definition CBS_ASN1_CONSTRUCTED :: uint32 where
  "CBS_ASN1_CONSTRUCTED = push_bit CBS_ASN1_TAG_SHIFT 0x20"
definition CBS_ASN1_TAG_NUMBER_MASK :: uint32 where
  "CBS_ASN1_TAG_NUMBER_MASK = push_bit (5 + CBS_ASN1_TAG_SHIFT) 1 - 1"
definition CBS_ASN1_BOOLEAN :: uint32 where "CBS_ASN1_BOOLEAN = 0x1"
definition CBS_ASN1_INTEGER :: uint32 where "CBS_ASN1_INTEGER = 0x2"
definition CBS_ASN1_OCTETSTRING :: uint32 where "CBS_ASN1_OCTETSTRING = 0x4"

lemmas asn1_consts =
  CBS_ASN1_TAG_SHIFT_def CBS_ASN1_CONSTRUCTED_def CBS_ASN1_TAG_NUMBER_MASK_def
  CBS_ASN1_BOOLEAN_def CBS_ASN1_INTEGER_def CBS_ASN1_OCTETSTRING_def

section \<open>Base-128 integers, tags and elements\<close>

text \<open>The loop body of \<open>parse_base128_integer\<close>, with \<open>v\<close> the value read so far.\<close>

fun parse_base128_loop :: "uint64 \<Rightarrow> cbs \<Rightarrow> uint64 option \<times> cbs" where
  "parse_base128_loop v [] = (None, [])"
| "parse_base128_loop v (b # cbs) =
     (if drop_bit (64 - 7) v \<noteq> 0 then (None, cbs)
      else if v = 0 \<and> b = 0x80 then (None, cbs)
      else let v' = push_bit 7 v OR ucast (b AND 0x7f) in
           if b AND 0x80 \<noteq> 0 then parse_base128_loop v' cbs else (Some v', cbs))"

definition parse_base128_integer :: "cbs \<Rightarrow> uint64 option \<times> cbs" where
  "parse_base128_integer cbs = parse_base128_loop 0 cbs"

definition parse_asn1_tag :: "cbs \<Rightarrow> uint32 option \<times> cbs" where
  "parse_asn1_tag cbs =
     (case CBS_get_u8 cbs of
        (None, cbs1) \<Rightarrow> (None, cbs1)
      | (Some tag_byte, cbs1) \<Rightarrow>
          (let tag = push_bit CBS_ASN1_TAG_SHIFT (ucast tag_byte AND 0xe0);
               tag_number = (ucast tag_byte AND 0x1f :: uint32) in
           if tag_number = 0x1f then
             (case parse_base128_integer cbs1 of
                (None, cbs2) \<Rightarrow> (None, cbs2)
              | (Some v, cbs2) \<Rightarrow>
                  if v > ucast CBS_ASN1_TAG_NUMBER_MASK \<or> v < 0x1f then (None, cbs2)
                  else (Some (tag OR ucast v), cbs2))
           else (Some (tag OR tag_number), cbs1)))"

text \<open>
  The result of reading an element: the element with its header, its tag, the length of
  the header, and whether a form was met that only BER allows.
\<close>

record asn1_element =
  elem_out :: cbs
  elem_tag :: uint32
  elem_header_len :: nat
  elem_ber_found :: bool

definition asn1_take_element ::
  "cbs \<Rightarrow> nat \<Rightarrow> uint32 \<Rightarrow> nat \<Rightarrow> bool \<Rightarrow> asn1_element option \<times> cbs" where
  "asn1_take_element cbs len tag header_len ber_found =
     (case CBS_get_bytes cbs len of
        (None, cbs') \<Rightarrow> (None, cbs')
      | (Some out, cbs') \<Rightarrow>
          (Some \<lparr>elem_out = out, elem_tag = tag, elem_header_len = header_len,
                 elem_ber_found = ber_found\<rparr>, cbs'))"

definition cbs_get_any_asn1_element :: "cbs \<Rightarrow> bool \<Rightarrow> asn1_element option \<times> cbs" where
  "cbs_get_any_asn1_element cbs ber_ok =
     (case parse_asn1_tag cbs of
        (None, _) \<Rightarrow> (None, cbs)
      | (Some tag, header) \<Rightarrow>
     (case CBS_get_u8 header of
        (None, _) \<Rightarrow> (None, cbs)
      | (Some length_byte, header) \<Rightarrow>
     (let header_len = CBS_len cbs - CBS_len header in
      if length_byte AND 0x80 = 0 then
        asn1_take_element cbs (size_add (unat length_byte) header_len) tag header_len False
      else
        let num_bytes = unat (length_byte AND 0x7f) in
        if ber_ok \<and> tag AND CBS_ASN1_CONSTRUCTED \<noteq> 0 \<and> num_bytes = 0 then
          asn1_take_element cbs header_len tag header_len True
        else if num_bytes = 0 \<or> num_bytes > 4 then (None, cbs)
        else
     (case cbs_get_u header num_bytes of
        (None, _) \<Rightarrow> (None, cbs)
      | (Some len64, _) \<Rightarrow>
          (let short_form = (len64 < 128);
               not_minimal = (drop_bit ((num_bytes - 1) * 8) len64 = 0) in
           if (short_form \<or> not_minimal) \<and> \<not> ber_ok then (None, cbs)
           else
             let len = unat len64 in
             if size_add len (header_len + num_bytes) < len then (None, cbs)
             else asn1_take_element cbs (size_add len (header_len + num_bytes)) tag
                    (header_len + num_bytes) (short_form \<or> not_minimal))))))"

definition CBS_get_any_asn1_element :: "cbs \<Rightarrow> asn1_element option \<times> cbs" where
  "CBS_get_any_asn1_element cbs = cbs_get_any_asn1_element cbs False"

definition CBS_get_any_ber_asn1_element :: "cbs \<Rightarrow> asn1_element option \<times> cbs" where
  "CBS_get_any_ber_asn1_element cbs = cbs_get_any_asn1_element cbs True"

definition CBS_get_any_asn1 :: "cbs \<Rightarrow> (cbs \<times> uint32) option \<times> cbs" where
  "CBS_get_any_asn1 cbs =
     (case CBS_get_any_asn1_element cbs of
        (None, cbs') \<Rightarrow> (None, cbs')
      | (Some e, cbs') \<Rightarrow>
          (case CBS_skip (elem_out e) (elem_header_len e) of
             (False, _) \<Rightarrow> (None, cbs')
           | (True, out) \<Rightarrow> (Some (out, elem_tag e), cbs')))"

definition cbs_get_asn1 :: "cbs \<Rightarrow> uint32 \<Rightarrow> bool \<Rightarrow> cbs option \<times> cbs" where
  "cbs_get_asn1 cbs tag_value skip_header =
     (case CBS_get_any_asn1_element cbs of
        (None, cbs') \<Rightarrow> (None, cbs')
      | (Some e, cbs') \<Rightarrow>
          if elem_tag e \<noteq> tag_value then (None, cbs')
          else if skip_header then
            (case CBS_skip (elem_out e) (elem_header_len e) of
               (False, _) \<Rightarrow> (None, cbs')
             | (True, out) \<Rightarrow> (Some out, cbs'))
          else (Some (elem_out e), cbs'))"

definition CBS_get_asn1 :: "cbs \<Rightarrow> uint32 \<Rightarrow> cbs option \<times> cbs" where
  "CBS_get_asn1 cbs tag_value = cbs_get_asn1 cbs tag_value True"

definition CBS_get_asn1_element :: "cbs \<Rightarrow> uint32 \<Rightarrow> cbs option \<times> cbs" where
  "CBS_get_asn1_element cbs tag_value = cbs_get_asn1 cbs tag_value False"

definition CBS_peek_asn1_tag :: "cbs \<Rightarrow> uint32 \<Rightarrow> bool" where
  "CBS_peek_asn1_tag cbs tag_value =
     (if CBS_len cbs < 1 then False else fst (parse_asn1_tag cbs) = Some tag_value)"

section \<open>Typed readers\<close>

text \<open>\<open>(valid, is_negative)\<close>; the sign is only defined for non-empty contents.\<close>

definition CBS_is_valid_asn1_integer :: "cbs \<Rightarrow> bool \<times> bool" where
  "CBS_is_valid_asn1_integer cbs =
     (case CBS_get_u8 cbs of
        (None, _) \<Rightarrow> (False, False)
      | (Some first_byte, copy) \<Rightarrow>
          (let is_negative = (first_byte AND 0x80 \<noteq> 0) in
           case CBS_get_u8 copy of
             (None, _) \<Rightarrow> (True, is_negative)
           | (Some second_byte, _) \<Rightarrow>
               (\<not> ((first_byte = 0x00 \<and> second_byte AND 0x80 = 0) \<or>
                   (first_byte = 0xff \<and> second_byte AND 0x80 \<noteq> 0)), is_negative)))"

definition CBS_is_unsigned_asn1_integer :: "cbs \<Rightarrow> bool" where
  "CBS_is_unsigned_asn1_integer cbs =
     (case CBS_is_valid_asn1_integer cbs of (valid, is_negative) \<Rightarrow> valid \<and> \<not> is_negative)"

fun asn1_uint64_loop :: "uint64 \<Rightarrow> byte list \<Rightarrow> uint64 option" where
  "asn1_uint64_loop out [] = Some out"
| "asn1_uint64_loop out (b # data) =
     (if drop_bit 56 out \<noteq> 0 then None else asn1_uint64_loop (push_bit 8 out OR ucast b) data)"

definition CBS_get_asn1_uint64 :: "cbs \<Rightarrow> uint64 option \<times> cbs" where
  "CBS_get_asn1_uint64 cbs =
     (case CBS_get_asn1 cbs CBS_ASN1_INTEGER of
        (None, cbs') \<Rightarrow> (None, cbs')
      | (Some bytes, cbs') \<Rightarrow>
          if \<not> CBS_is_unsigned_asn1_integer bytes then (None, cbs')
          else (asn1_uint64_loop 0 (CBS_data bytes), cbs'))"

text \<open>
  The union of an \<open>int64_t\<close> with its eight bytes, on the little-endian target: byte
  \<open>i\<close> weighs \<open>256 ^ i\<close>.
\<close>

definition le_int64 :: "byte list \<Rightarrow> int64" where
  "le_int64 bytes = of_nat (be_val (rev bytes))"

definition CBS_get_asn1_int64 :: "cbs \<Rightarrow> int64 option \<times> cbs" where
  "CBS_get_asn1_int64 cbs =
     (case CBS_get_asn1 cbs CBS_ASN1_INTEGER of
        (None, cbs') \<Rightarrow> (None, cbs')
      | (Some bytes, cbs') \<Rightarrow>
          (case CBS_is_valid_asn1_integer bytes of
             (False, _) \<Rightarrow> (None, cbs')
           | (True, is_negative) \<Rightarrow>
               (let data = CBS_data bytes; len = CBS_len bytes in
                if len > 8 then (None, cbs')
                else
                  let u0 = replicate 8 (if is_negative then 0xff else 0);
                      u = foldl (\<lambda>u i. u[i := data ! (len - i - 1)]) u0 [0..<len]
                  in (Some (le_int64 u), cbs'))))"

definition CBS_get_asn1_bool :: "cbs \<Rightarrow> bool option \<times> cbs" where
  "CBS_get_asn1_bool cbs =
     (case CBS_get_asn1 cbs CBS_ASN1_BOOLEAN of
        (None, cbs') \<Rightarrow> (None, cbs')
      | (Some bytes, cbs') \<Rightarrow>
          if CBS_len bytes \<noteq> 1 then (None, cbs')
          else let value = CBS_data bytes ! 0 in
            if value \<noteq> 0 \<and> value \<noteq> 0xff then (None, cbs') else (Some (value \<noteq> 0), cbs'))"

text \<open>\<open>Some None\<close>: the call succeeded and the field is absent.\<close>

definition CBS_get_optional_asn1 :: "cbs \<Rightarrow> uint32 \<Rightarrow> cbs option option \<times> cbs" where
  "CBS_get_optional_asn1 cbs tag =
     (if CBS_peek_asn1_tag cbs tag then
        (case CBS_get_asn1 cbs tag of
           (None, cbs') \<Rightarrow> (None, cbs')
         | (Some out, cbs') \<Rightarrow> (Some (Some out), cbs'))
      else (Some None, cbs))"

definition CBS_get_optional_asn1_octet_string :: "cbs \<Rightarrow> uint32 \<Rightarrow> (cbs \<times> bool) option \<times> cbs" where
  "CBS_get_optional_asn1_octet_string cbs tag =
     (case CBS_get_optional_asn1 cbs tag of
        (None, cbs') \<Rightarrow> (None, cbs')
      | (Some (Some child), cbs') \<Rightarrow>
          (case CBS_get_asn1 child CBS_ASN1_OCTETSTRING of
             (None, _) \<Rightarrow> (None, cbs')
           | (Some out, child') \<Rightarrow>
               if CBS_len child' \<noteq> 0 then (None, cbs') else (Some (out, True), cbs'))
      | (Some None, cbs') \<Rightarrow> (Some ([], False), cbs'))"

definition CBS_get_optional_asn1_uint64 :: "cbs \<Rightarrow> uint32 \<Rightarrow> uint64 \<Rightarrow> uint64 option \<times> cbs" where
  "CBS_get_optional_asn1_uint64 cbs tag default_value =
     (case CBS_get_optional_asn1 cbs tag of
        (None, cbs') \<Rightarrow> (None, cbs')
      | (Some (Some child), cbs') \<Rightarrow>
          (case CBS_get_asn1_uint64 child of
             (None, _) \<Rightarrow> (None, cbs')
           | (Some out, child') \<Rightarrow>
               if CBS_len child' \<noteq> 0 then (None, cbs') else (Some out, cbs'))
      | (Some None, cbs') \<Rightarrow> (Some default_value, cbs'))"

text \<open>\<open>*out\<close> is an \<open>int\<close>: \<open>default_value\<close> is passed through unchanged.\<close>

definition CBS_get_optional_asn1_bool :: "cbs \<Rightarrow> uint32 \<Rightarrow> int \<Rightarrow> int option \<times> cbs" where
  "CBS_get_optional_asn1_bool cbs tag default_value =
     (case CBS_get_optional_asn1 cbs tag of
        (None, cbs') \<Rightarrow> (None, cbs')
      | (Some (Some child), cbs') \<Rightarrow>
          (case CBS_get_asn1 child CBS_ASN1_BOOLEAN of
             (None, _) \<Rightarrow> (None, cbs')
           | (Some child2, child') \<Rightarrow>
               if CBS_len child2 \<noteq> 1 \<or> CBS_len child' \<noteq> 0 then (None, cbs')
               else let boolean = CBS_data child2 ! 0 in
                 if boolean = 0 then (Some 0, cbs')
                 else if boolean = 0xff then (Some 1, cbs') else (None, cbs'))
      | (Some None, cbs') \<Rightarrow> (Some default_value, cbs'))"

definition CBS_is_valid_asn1_bitstring :: "cbs \<Rightarrow> bool" where
  "CBS_is_valid_asn1_bitstring cbs =
     (case CBS_get_u8 cbs of
        (None, _) \<Rightarrow> False
      | (Some num_unused_bits, rest) \<Rightarrow>
          if num_unused_bits > 7 then False
          else if num_unused_bits = 0 then True
          else (case CBS_get_last_u8 rest of
                  (None, _) \<Rightarrow> False
                | (Some lst, _) \<Rightarrow>
                    (ucast lst :: uint32) AND (push_bit (unat num_unused_bits) 1 - 1) = 0))"

definition CBS_asn1_bitstring_has_bit :: "cbs \<Rightarrow> uint32 \<Rightarrow> bool" where
  "CBS_asn1_bitstring_has_bit cbs bitn =
     (if \<not> CBS_is_valid_asn1_bitstring cbs then False
      else
        let byte_num = unat (drop_bit 3 bitn + 1);
            bit_num = unat (7 - (bitn AND 7)) in
        byte_num < CBS_len cbs \<and>
        (ucast (CBS_data cbs ! byte_num) :: uint32) AND push_bit bit_num 1 \<noteq> 0)"

end
