(* ===== verification/Der.thy ===== *)
theory Der
  imports Asn1
begin

text \<open>
  The distinguished encoding itself, as a reference: the tag, the length and the element
  as functions into byte lists, written from X.690 and over natural numbers, and the proof
  that the parser of \<open>Asn1\<close> accepts exactly these bytes.
\<close>

section \<open>Prefix codes\<close>

text \<open>
  What a parser promises of an encoding: it reads every encoded value back whatever
  follows, and accepts nothing else.
\<close>

locale codec =
  fixes valid :: "'a \<Rightarrow> bool"
    and enc :: "'a \<Rightarrow> byte list"
    and dec :: "cbs \<Rightarrow> 'a option \<times> cbs"
  assumes dec_enc: "valid a \<Longrightarrow> dec (enc a @ rest) = (Some a, rest)"
    and enc_dec: "dec cbs = (Some a, rest) \<Longrightarrow> valid a \<and> cbs = enc a @ rest"
begin

lemma dec_enc_Nil: "valid a \<Longrightarrow> dec (enc a) = (Some a, [])"
  using dec_enc [of a "[]"] by simp

lemma enc_inj: "valid a \<Longrightarrow> valid b \<Longrightarrow> enc a = enc b \<Longrightarrow> a = b"
  using dec_enc_Nil by (metis option.inject prod.inject)

lemma enc_append_inj:
  assumes "valid a" and "valid b" and "enc a @ xs = enc b @ ys"
  shows "a = b \<and> xs = ys"
proof -
  have "dec (enc a @ xs) = dec (enc b @ ys)" by (rule arg_cong [OF assms(3)])
  then have "(Some a, xs) = (Some b, ys)"
    unfolding dec_enc [OF assms(1)] dec_enc [OF assms(2)] .
  then show ?thesis by simp
qed

lemma prefix_free: "valid a \<Longrightarrow> valid b \<Longrightarrow> prefix (enc a) (enc b) \<Longrightarrow> a = b"
  using enc_append_inj [of a b _ "[]"] by (auto simp: prefix_def)

lemma dec_stable: "dec cbs = (Some a, rest) \<Longrightarrow> dec (cbs @ post) = (Some a, rest @ post)"
  using enc_dec [of cbs a rest] dec_enc [of a "rest @ post"] by auto

lemma dec_consumes: "dec cbs = (Some a, rest) \<Longrightarrow> length cbs = length (enc a) + length rest"
  using enc_dec [of cbs a rest] by simp

text \<open>Sequences of non-empty codewords are uniquely decodable.\<close>

lemma concat_enc_inj:
  assumes "\<forall>a \<in> set as. valid a" and "\<forall>b \<in> set bs. valid b"
    and "\<And>a. valid a \<Longrightarrow> enc a \<noteq> []"
    and "concat (map enc as) = concat (map enc bs)"
  shows "as = bs"
  using assms(1,2,4)
proof (induction as arbitrary: bs)
  case Nil
  show ?case
  proof (rule ccontr)
    assume "[] \<noteq> bs"
    then obtain b bs' where "bs = b # bs'" by (cases bs) simp_all
    then show False using Nil.prems(2,3) assms(3) [of b] by simp
  qed
next
  case (Cons a as)
  have "enc a \<noteq> []" using Cons.prems(1) assms(3) by simp
  then have "bs \<noteq> []" using Cons.prems(3) by force
  then obtain b bs' where bs: "bs = b # bs'" by (cases bs) simp_all
  have "a = b \<and> concat (map enc as) = concat (map enc bs')"
  proof (rule enc_append_inj)
    show "valid a" "valid b" using Cons.prems(1,2) bs by auto
    show "enc a @ concat (map enc as) = enc b @ concat (map enc bs')"
      using Cons.prems(3) bs by simp
  qed
  moreover from this have "as = bs'" using Cons.prems(1,2) bs by (intro Cons.IH) auto
  ultimately show ?case using bs by simp
qed

end

section \<open>Base-128 integers\<close>

fun base128_hi :: "nat \<Rightarrow> byte list" where
  "base128_hi v = (if v = 0 then [] else base128_hi (v div 128) @ [of_nat (128 + v mod 128)])"

declare base128_hi.simps [simp del]

definition base128_bytes :: "nat \<Rightarrow> byte list" where
  "base128_bytes v = base128_hi (v div 128) @ [of_nat (v mod 128)]"

lemma base128_hi_0 [simp]: "base128_hi 0 = []"
  by (simp add: base128_hi.simps)

lemma base128_hi_step:
  assumes "v * 128 + r \<noteq> 0" and "r < 128"
  shows "base128_hi (v * 128 + r) = base128_hi v @ [of_nat (128 + r)]"
  using assms by (subst base128_hi.simps) auto

lemma length_base128_hi: "length (base128_hi v) \<le> v"
proof (induction v rule: base128_hi.induct)
  case (1 v)
  show ?case
  proof (cases "v = 0")
    case False
    then have "length (base128_hi (v div 128)) \<le> v div 128" by (rule 1)
    also have "v div 128 < v" using False by simp
    finally show ?thesis using False by (subst base128_hi.simps) simp
  qed simp
qed

lemma base128_step_word:
  fixes v :: uint64
  assumes "drop_bit 57 v = 0"
  shows "unat (push_bit 7 v OR ucast (b AND 0x7f :: byte)) = unat v * 128 + unat b mod 128"
proof -
  have v: "unat v < 2 ^ 57" using assms by (simp add: drop_bit_eq_0_iff_unat)
  have u: "unat (ucast (b AND 0x7f) :: uint64) = unat b mod 128"
    by (simp only: unat_ucast_up [where ?'a = 8 and ?'b = 64, simplified] mask_lits unat_and_low) simp
  have "unat (push_bit 7 v OR ucast (b AND 0x7f)) = unat v * 2 ^ 7 + unat (ucast (b AND 0x7f) :: uint64)"
    by (rule unat_push_or) (use v u in simp_all)
  then show ?thesis by (simp add: u)
qed

lemma parse_base128_hi:
  "u < 2 ^ 64 \<Longrightarrow> parse_base128_loop 0 (base128_hi u @ rest) = parse_base128_loop (of_nat u) rest"
proof (induction u arbitrary: rest rule: base128_hi.induct)
  case (1 u)
  show ?case
  proof (cases "u = 0")
    case False
    define w b where "w = (of_nat (u div 128) :: uint64)" and "b = (of_nat (128 + u mod 128) :: byte)"
    have w: "unat w = u div 128" using "1.prems" by (simp add: w_def unat_of_nat)
    have b: "unat b = 128 + u mod 128" unfolding b_def unat_of_nat_byte by simp
    have d: "drop_bit 57 w = 0" using "1.prems" by (simp add: drop_bit_eq_0_iff_unat w)
    have nz: "\<not> (w = 0 \<and> b = 0x80)"
    proof
      assume "w = 0 \<and> b = 0x80"
      then have "u div 128 = 0" "u mod 128 = 0" using w b by simp_all
      then show False using False div_mult_mod_eq [of u 128] by simp
    qed
    have step: "push_bit 7 w OR ucast (b AND 0x7f) = of_nat u"
      by (rule unat_eq_of_nat) (simp add: base128_step_word [OF d] w b)
    have hi: "b AND 0x80 \<noteq> 0" by (simp add: byte_high_bit b)
    have "parse_base128_loop 0 (base128_hi u @ rest)
        = parse_base128_loop 0 (base128_hi (u div 128) @ b # rest)"
      using False by (subst base128_hi.simps) (simp add: b_def)
    also have "\<dots> = parse_base128_loop w (b # rest)"
      using "1.IH" [OF False] "1.prems" by (simp add: w_def)
    also have "\<dots> = parse_base128_loop (of_nat u) rest"
      using d nz step hi by (auto simp: Let_def)
    finally show ?thesis .
  qed simp
qed

lemma parse_base128_bytes:
  assumes "v < 2 ^ 64"
  shows "parse_base128_integer (base128_bytes v @ rest) = (Some (of_nat v), rest)"
proof -
  define w b where "w = (of_nat (v div 128) :: uint64)" and "b = (of_nat (v mod 128) :: byte)"
  have w: "unat w = v div 128" using assms by (simp add: w_def unat_of_nat)
  have b: "unat b = v mod 128" unfolding b_def unat_of_nat_byte by simp
  have d: "drop_bit 57 w = 0" using assms by (simp add: drop_bit_eq_0_iff_unat w)
  have nz: "b \<noteq> 0x80" using b by (auto dest: arg_cong [of _ _ unat])
  have lo: "b AND 0x80 = 0" by (simp add: byte_high_bit b)
  have step: "push_bit 7 w OR ucast (b AND 0x7f) = of_nat v"
    by (rule unat_eq_of_nat) (simp add: base128_step_word [OF d] w b)
  have "parse_base128_integer (base128_bytes v @ rest) = parse_base128_loop w (b # rest)"
    using parse_base128_hi [of "v div 128" "b # rest"] assms
    by (simp add: parse_base128_integer_def base128_bytes_def w_def b_def)
  then show ?thesis using d nz lo step by simp
qed

text \<open>Conversely, only the minimal encoding is accepted.\<close>

lemma parse_base128_canonical:
  "parse_base128_loop v cbs = (Some w, rest) \<Longrightarrow>
     \<exists>pre. cbs = pre @ rest \<and> base128_hi (unat v) @ pre = base128_bytes (unat w)"
proof (induction v cbs rule: parse_base128_loop.induct)
  case (2 v b cbs)
  let ?v = "push_bit 7 v OR ucast (b AND 0x7f) :: uint64"
  have d: "drop_bit 57 v = 0" and nz: "\<not> (v = 0 \<and> b = 0x80)"
    using "2.prems" by (auto split: if_splits)
  have v': "unat ?v = unat v * 128 + unat b mod 128" by (rule base128_step_word [OF d])
  show ?case
  proof (cases "b AND 0x80 = 0")
    case True
    then have w: "w = ?v" and r: "rest = cbs" using "2.prems" d nz by (auto simp: Let_def split: if_splits)
    have "unat b mod 128 = unat b" using True by (simp add: byte_high_bit)
    then have "base128_bytes (unat w) = base128_hi (unat v) @ [b]"
      unfolding w v' base128_bytes_def by simp
    then show ?thesis using r by (intro exI [of _ "[b]"]) simp
  next
    case False
    then have "parse_base128_loop ?v cbs = (Some w, rest)"
      using "2.prems" d nz by (auto simp: Let_def split: if_splits)
    then obtain pre where pre: "cbs = pre @ rest" "base128_hi (unat ?v) @ pre = base128_bytes (unat w)"
      using "2.IH" d nz False by (auto simp: Let_def)
    have bb: "unat b = 128 + unat b mod 128"
      using False byte_lt [of b] mod_if [of "unat b" 128] by (simp add: byte_high_bit del: byte_lt)
    have "unat v * 128 + unat b mod 128 \<noteq> 0"
    proof
      assume z: "unat v * 128 + unat b mod 128 = 0"
      then have "v = 0" and "unat b = unat (0x80 :: byte)"
        using bb by (simp_all add: unat_eq_0 [symmetric] del: unat_eq_0)
      then show False using nz by (simp only: word_unat_eq_iff) simp
    qed
    then have "base128_hi (unat ?v) = base128_hi (unat v) @ [of_nat (unat b)]"
      unfolding v' by (subst base128_hi_step) (simp_all only: bb [symmetric], simp)
    then show ?thesis using pre by (intro exI [of _ "b # pre"]) simp
  qed
qed simp

interpretation base128: codec "\<lambda>v :: uint64. True" "\<lambda>v. base128_bytes (unat v)" parse_base128_integer
proof
  show "parse_base128_integer (base128_bytes (unat v) @ rest) = (Some v, rest)" for v :: uint64 and rest
    using parse_base128_bytes [of "unat v" rest] unsigned_less [of v, where ?'a = nat] by simp
next
  fix cbs rest and w :: uint64
  assume "parse_base128_integer cbs = (Some w, rest)"
  then show "True \<and> cbs = base128_bytes (unat w) @ rest"
    using parse_base128_canonical [of 0 cbs w rest] by (auto simp: parse_base128_integer_def)
qed

section \<open>Tags\<close>

definition der_tag_bytes :: "uint32 \<Rightarrow> byte list" where
  "der_tag_bytes t =
     (let hi = unat t div 2 ^ 29; num = unat t mod 2 ^ 29 in
      if num < 31 then [of_nat (hi * 32 + num)] else of_nat (hi * 32 + 31) # base128_bytes num)"

lemma tag_class_bits:
  "push_bit 24 (ucast b AND 0xe0 :: uint32) = push_bit 29 (ucast (drop_bit 5 b))" for b :: byte
proof -
  have "(0xe0 :: uint32) = push_bit 5 (mask 3)" by (simp add: mask_eq_exp_minus_1)
  then have e0: "bit (0xe0 :: uint32) n \<longleftrightarrow> 5 \<le> n \<and> n < 8" for n
    by (simp only: bit_push_bit_iff bit_mask_iff) auto
  have b8: "bit b n \<Longrightarrow> n < 8" for n using bit_imp_le_length [of b n] by simp
  show ?thesis
    by (rule bit_word_eqI)
      (auto simp only: bit_push_bit_iff bit_and_iff e0 bit_ucast_iff bit_drop_bit_eq o_def
         le_add_diff_inverse dest: b8, auto dest: b8 simp: algebra_simps)
qed

lemma unat_tag_join:
  fixes b :: byte and n :: uint32
  assumes "unat n < 2 ^ 29"
  shows "unat (push_bit 24 (ucast b AND 0xe0) OR n) = unat b div 32 * 2 ^ 29 + unat n"
proof -
  have u: "unat (ucast (drop_bit 5 b) :: uint32) = unat b div 32"
    by (simp add: unat_ucast_up unat_drop_bit)
  have "unat b div 32 < 8" using byte_lt [of b] by (simp add: less_mult_imp_div_less del: byte_lt)
  then show ?thesis
    unfolding tag_class_bits by (subst unat_push_or) (use assms u in simp_all)
qed

lemma tag_number_bits: "unat (ucast b AND 0x1f :: uint32) = unat b mod 32" for b :: byte
  unfolding mask_lits unat_and_low by (simp add: unat_ucast_up)

lemma tag_number_mask: "(ucast CBS_ASN1_TAG_NUMBER_MASK :: uint64) = of_nat (2 ^ 29 - 1)"
  by (simp add: asn1_consts)

lemma div_mod_29: "t div 2 ^ 29 * 2 ^ 29 + t mod 2 ^ 29 = (t :: nat)"
  by (rule div_mult_mod_eq)

lemma parse_asn1_tag_low:
  assumes "unat b mod 32 \<noteq> 31"
  shows "parse_asn1_tag (b # cbs) = (Some (of_nat (unat b div 32 * 2 ^ 29 + unat b mod 32)), cbs)"
proof -
  have ne: "(ucast b AND 0x1f :: uint32) \<noteq> 0x1f"
    using assms tag_number_bits [of b] by (auto dest: arg_cong [of _ _ unat])
  have "unat (push_bit 24 (ucast b AND 0xe0) OR (ucast b AND 0x1f) :: uint32)
      = unat b div 32 * 2 ^ 29 + unat b mod 32"
    by (subst unat_tag_join) (simp_all add: tag_number_bits less_trans [OF mod_less_divisor])
  then have eq: "push_bit 24 (ucast b AND 0xe0) OR (ucast b AND 0x1f :: uint32)
      = of_nat (unat b div 32 * 2 ^ 29 + unat b mod 32)"
    by (rule unat_eq_of_nat)
  show ?thesis
    unfolding parse_asn1_tag_def CBS_ASN1_TAG_SHIFT_def Let_def CBS_get_u8_Cons prod.case option.case
      eq using ne by (simp only: if_False)
qed

lemma parse_asn1_tag_high:
  assumes "unat b mod 32 = 31"
  shows "parse_asn1_tag (b # cbs) =
    (case parse_base128_integer cbs of
       (None, cbs2) \<Rightarrow> (None, cbs2)
     | (Some v, cbs2) \<Rightarrow>
         if 31 \<le> unat v \<and> unat v < 2 ^ 29
         then (Some (of_nat (unat b div 32 * 2 ^ 29 + unat v)), cbs2) else (None, cbs2))"
proof -
  have eq: "(ucast b AND 0x1f :: uint32) = 0x1f"
    using assms tag_number_bits [of b] by (simp add: word_unat_eq_iff)
  have rng: "(v > ucast CBS_ASN1_TAG_NUMBER_MASK \<or> v < 0x1f) \<longleftrightarrow> \<not> (31 \<le> unat v \<and> unat v < 2 ^ 29)"
    for v :: uint64
    unfolding tag_number_mask by (auto simp: word_less_nat_alt)
  have join: "push_bit 24 (ucast b AND 0xe0) OR (ucast v :: uint32)
      = of_nat (unat b div 32 * 2 ^ 29 + unat v)" if "unat v < 2 ^ 29" for v :: uint64
  proof (rule unat_eq_of_nat)
    have "unat (ucast v :: uint32) = unat v"
      using that by (simp add: unsigned_ucast_eq take_bit_nat_eq_self)
    then show "unat (push_bit 24 (ucast b AND 0xe0) OR (ucast v :: uint32))
        = unat b div 32 * 2 ^ 29 + unat v"
      using that by (subst unat_tag_join) simp_all
  qed
  obtain r cbs2 where p: "parse_base128_integer cbs = (r, cbs2)" by fastforce
  show ?thesis
    unfolding parse_asn1_tag_def CBS_ASN1_TAG_SHIFT_def Let_def CBS_get_u8_Cons prod.case option.case
      eq rng p
    by (cases r) (auto simp only: prod.case option.case join simp_thms if_True if_False split: if_split)
qed

lemma unat_tag_byte:
  assumes "hi < 8" and "x < 32"
  shows "unat (of_nat (hi * 32 + x) :: byte) div 32 = hi"
    and "unat (of_nat (hi * 32 + x) :: byte) mod 32 = x"
proof -
  have "hi * 32 + x < 256" using assms by simp
  then have u: "unat (of_nat (hi * 32 + x) :: byte) = hi * 32 + x"
    unfolding unat_of_nat_byte by simp
  show "unat (of_nat (hi * 32 + x) :: byte) div 32 = hi"
    and "unat (of_nat (hi * 32 + x) :: byte) mod 32 = x"
    unfolding u using assms by simp_all
qed

lemma unat_uint32_hi: "unat (t :: uint32) div 2 ^ 29 < 8"
  using unsigned_less [of t, where ?'a = nat] by (simp add: less_mult_imp_div_less)

lemma parse_der_tag: "parse_asn1_tag (der_tag_bytes t @ rest) = (Some t, rest)"
proof -
  define hi num where "hi = unat t div 2 ^ 29" and "num = unat t mod 2 ^ 29"
  have hi: "hi < 8" and num: "num < 2 ^ 29" unfolding hi_def num_def by (rule unat_uint32_hi) simp
  have t: "of_nat (hi * 2 ^ 29 + num) = t"
    unfolding hi_def num_def div_mod_29 by simp
  show ?thesis
  proof (cases "num < 31")
    case True
    then have dt: "der_tag_bytes t = [of_nat (hi * 32 + num)]"
      by (simp only: der_tag_bytes_def Let_def hi_def num_def if_True)
    have x: "num < 32" using True by simp
    have "parse_asn1_tag (of_nat (hi * 32 + num) # rest) = (Some t, rest)"
      using True by (subst parse_asn1_tag_low) (simp_all only: unat_tag_byte [OF hi x] t)
    then show ?thesis by (simp only: dt append.simps)
  next
    case False
    then have dt: "der_tag_bytes t = of_nat (hi * 32 + 31) # base128_bytes num"
      by (simp only: der_tag_bytes_def Let_def hi_def num_def if_False)
    have un: "unat (of_nat num :: uint64) = num" using num by (simp add: unat_of_nat)
    have pb: "parse_base128_integer (base128_bytes num @ rest) = (Some (of_nat num), rest)"
      by (rule parse_base128_bytes) (use num in simp)
    have rng: "31 \<le> num" "num < 2 ^ 29" using False num by simp_all
    have x: "unat (of_nat (hi * 32 + 31) :: byte) div 32 = hi" "unat (of_nat (hi * 32 + 31) :: byte) mod 32 = 31"
      by (rule unat_tag_byte; use hi in simp)+
    have "parse_asn1_tag (of_nat (hi * 32 + 31) # (base128_bytes num @ rest)) = (Some t, rest)"
      unfolding parse_asn1_tag_high [OF x(2)] pb prod.case option.case un x(1) t
      using rng by (simp only: simp_thms if_True)
    then show ?thesis by (simp only: dt append.simps)
  qed
qed

lemma der_tag_bytes_join:
  assumes "h < 8" and "n < 2 ^ 29"
  shows "der_tag_bytes (of_nat (h * 2 ^ 29 + n)) =
    (if n < 31 then [of_nat (h * 32 + n)] else of_nat (h * 32 + 31) # base128_bytes n)"
proof -
  have "unat (of_nat (h * 2 ^ 29 + n) :: uint32) = h * 2 ^ 29 + n"
    using assms by (simp only: unat_of_nat) simp
  then show ?thesis
    using assms unfolding der_tag_bytes_def Let_def by (simp only: div_mult_self3 mod_mult_self3) simp
qed

lemma parse_asn1_tag_canonical:
  assumes "parse_asn1_tag cbs = (Some t, rest)"
  shows "cbs = der_tag_bytes t @ rest"
proof -
  obtain b cbs1 where cbs: "cbs = b # cbs1"
    using assms by (cases cbs) (auto simp: parse_asn1_tag_def)
  have b8: "unat b div 32 < 8" using byte_lt [of b] by (simp add: less_mult_imp_div_less del: byte_lt)
  have bk: "of_nat (unat b div 32 * 32 + unat b mod 32) = b" by (simp only: div_mult_mod_eq) simp
  show ?thesis
  proof (cases "unat b mod 32 = 31")
    case False
    then have t: "t = of_nat (unat b div 32 * 2 ^ 29 + unat b mod 32)" and "rest = cbs1"
      using assms parse_asn1_tag_low [OF False, of cbs1] unfolding cbs by simp_all
    moreover have lt: "unat b mod 32 < 31" using False mod_less_divisor [of 32 "unat b"] by simp
    have "der_tag_bytes t = [b]"
      unfolding t by (subst der_tag_bytes_join [OF b8]) (use lt in simp, simp only: lt bk if_True)
    ultimately show ?thesis by (simp add: cbs)
  next
    case True
    obtain v where v: "parse_base128_integer cbs1 = (Some v, rest)" "31 \<le> unat v" "unat v < 2 ^ 29"
      and t: "t = of_nat (unat b div 32 * 2 ^ 29 + unat v)"
      using assms unfolding cbs parse_asn1_tag_high [OF True]
      by (auto simp del: of_nat_add of_nat_mult split: prod.splits option.splits if_splits)
    have "cbs1 = base128_bytes (unat v) @ rest" using base128.enc_dec [OF v(1)] by simp
    moreover have "\<not> unat v < 31" using v(2) by simp
    then have "der_tag_bytes t = b # base128_bytes (unat v)"
      using bk unfolding t True by (simp only: der_tag_bytes_join [OF b8 v(3)] if_False)
    ultimately show ?thesis by (simp add: cbs)
  qed
qed

interpretation asn1_tag: codec "\<lambda>_. True" der_tag_bytes parse_asn1_tag
  by unfold_locales (simp_all add: parse_der_tag parse_asn1_tag_canonical)

lemma length_der_tag_bytes: "0 < length (der_tag_bytes t)" "length (der_tag_bytes t) \<le> 2 ^ 29 + 1"
proof -
  show "0 < length (der_tag_bytes t)" by (simp add: der_tag_bytes_def Let_def)
  have "unat t mod 2 ^ 29 div 128 < 2 ^ 29 - 1"
    by (rule le_less_trans [OF div_le_mono [of _ "2 ^ 29 - 1"]]) simp_all
  then show "length (der_tag_bytes t) \<le> 2 ^ 29 + 1"
    using length_base128_hi [of "unat t mod 2 ^ 29 div 128"]
    by (simp add: der_tag_bytes_def Let_def base128_bytes_def)
qed

section \<open>Lengths and elements\<close>

definition der_len_len :: "nat \<Rightarrow> nat" where
  "der_len_len n = (if n < 256 then 1 else if n < 256 ^ 2 then 2 else if n < 256 ^ 3 then 3 else 4)"

definition der_len_bytes :: "nat \<Rightarrow> byte list" where
  "der_len_bytes n =
     (if n < 128 then [of_nat n] else of_nat (128 + der_len_len n) # be_bytes (der_len_len n) n)"

definition der_header :: "uint32 \<Rightarrow> nat \<Rightarrow> byte list" where
  "der_header t n = der_tag_bytes t @ der_len_bytes n"

definition der_element :: "byte list \<times> uint32 \<Rightarrow> byte list" where
  "der_element e = (case e of (contents, t) \<Rightarrow> der_header t (length contents) @ contents)"

definition der_valid :: "byte list \<times> uint32 \<Rightarrow> bool" where
  "der_valid e = (length (fst e) < 2 ^ 32)"

lemma der_len_len_bounds:
  assumes "128 \<le> n" and "n < 2 ^ 32"
  shows "1 \<le> der_len_len n" "der_len_len n \<le> 4" "n < 256 ^ der_len_len n"
    "256 ^ (der_len_len n - 1) \<le> n"
  using assms by (auto simp: der_len_len_def split: if_splits)

lemma der_len_len_unique:
  assumes "1 \<le> k" and "k \<le> 4" and "n < 256 ^ k" and "256 ^ (k - 1) \<le> n"
  shows "der_len_len n = k"
proof -
  have "k = 1 \<or> k = 2 \<or> k = 3 \<or> k = 4" using assms(1,2) by linarith
  then show ?thesis using assms(3,4) by (elim disjE) (simp_all add: der_len_len_def)
qed

lemma length_der_header: "length (der_header t n) \<le> 2 ^ 29 + 6"
  using length_der_tag_bytes(2) [of t]
  by (auto simp: der_header_def der_len_bytes_def der_len_len_def)

lemma asn1_take_element_append:
  "length p = n \<Longrightarrow> asn1_take_element (p @ rest) n t h f =
     (Some \<lparr>elem_out = p, elem_tag = t, elem_header_len = h, elem_ber_found = f\<rparr>, rest)"
  by (simp add: asn1_take_element_def CBS_get_bytes_eq)

lemma asn1_take_element_Some:
  "asn1_take_element cbs n t h f = (Some e, rest) \<longleftrightarrow>
     n \<le> length cbs \<and> rest = drop n cbs \<and>
     e = \<lparr>elem_out = take n cbs, elem_tag = t, elem_header_len = h, elem_ber_found = f\<rparr>"
  by (auto simp: asn1_take_element_def CBS_get_bytes_eq)

text \<open>
  The reader after the tag, as a function of the octets that encode the length: the DER
  reading of \<open>cbs_get_any_asn1_element\<close> in one equation for each form of the length.
\<close>

lemma get_element_short:
  assumes "parse_asn1_tag cbs = (Some t, lb # body)" and "unat lb < 128"
  shows "cbs_get_any_asn1_element cbs ber_ok =
    asn1_take_element cbs (size_add (unat lb) (length cbs - length body)) t (length cbs - length body) False"
  using assms by (simp add: cbs_get_any_asn1_element_def byte_high_bit CBS_len_def Let_def)

lemma get_element_long:
  assumes "parse_asn1_tag cbs = (Some t, lb # body)" and "128 \<le> unat lb"
  shows "CBS_get_any_asn1_element cbs =
    (let k = unat lb - 128; n = be_val (take k body); h = length cbs - length body in
     if k = 0 \<or> 4 < k \<or> length body < k \<or> n < 128 \<or> n < 256 ^ (k - 1)
        \<or> size_add n (h + k) < n then (None, cbs)
     else asn1_take_element cbs (size_add n (h + k)) t (h + k) False)"
proof -
  define k where "k = unat lb - 128"
  have "unat lb = 128 + k" and "k < 128" using assms(2) byte_lt [of lb] by (simp_all add: k_def del: byte_lt)
  then have nb: "unat (lb AND 0x7f) = k" by (simp only: mask_lits unat_and_low) simp
  have hb: "lb AND 0x80 \<noteq> 0" using assms(2) by (simp add: byte_high_bit)
  show ?thesis
  proof (cases "k = 0 \<or> 4 < k \<or> length body < k")
    case True
    then show ?thesis
      using assms(1) hb nb
      by (auto simp: CBS_get_any_asn1_element_def cbs_get_any_asn1_element_def Let_def k_def [symmetric]
          cbs_get_u_eq)
  next
    case False
    define w where "w = (of_nat (be_val (take k body)) :: uint64)"
    have g: "cbs_get_u body k = (Some w, drop k body)" using False by (simp add: cbs_get_u_eq w_def)
    have uw: "unat w = be_val (take k body)" using False by (simp add: w_def unat_of_nat_be_val)
    have sf: "w < 128 \<longleftrightarrow> be_val (take k body) < 128" by (simp add: word_less_nat_alt uw)
    have nm: "drop_bit ((k - 1) * 8) w = 0 \<longleftrightarrow> be_val (take k body) < 256 ^ (k - 1)"
      unfolding drop_bit_eq_0_iff_unat uw by (subst mult.commute, subst power_mult) simp
    show ?thesis
      using assms(1) hb nb g uw sf nm False
      by (auto simp: CBS_get_any_asn1_element_def cbs_get_any_asn1_element_def Let_def k_def [symmetric]
          CBS_len_def)
  qed
qed

lemma get_element_der:
  assumes "der_valid (c, t)"
  shows "CBS_get_any_asn1_element (der_element (c, t) @ rest) =
    (Some \<lparr>elem_out = der_element (c, t), elem_tag = t,
           elem_header_len = length (der_header t (length c)), elem_ber_found = False\<rparr>, rest)"
proof -
  define n where "n = length c"
  have n: "n < 2 ^ 32" using assms by (simp add: der_valid_def n_def)
  have el: "der_element (c, t) = der_tag_bytes t @ der_len_bytes n @ c"
    by (simp add: der_element_def der_header_def n_def)
  have lt: "length (der_tag_bytes t) \<le> 2 ^ 29 + 1" by (rule length_der_tag_bytes)
  have tag: "parse_asn1_tag (der_element (c, t) @ rest) = (Some t, der_len_bytes n @ c @ rest)"
    by (simp add: el parse_der_tag)
  show ?thesis
  proof (cases "n < 128")
    case True
    define lb where "lb = (of_nat n :: byte)"
    have lb: "unat lb = n" using True by (simp add: lb_def)
    have dl: "der_len_bytes n = [lb]" using True by (simp add: der_len_bytes_def lb_def)
    have h: "length (der_element (c, t)) - n = Suc (length (der_tag_bytes t))"
      by (simp add: el dl n_def [symmetric])
    have sa: "size_add n (Suc (length (der_tag_bytes t))) = length (der_element (c, t))"
      using n lt by (subst size_add_noover) (simp_all add: el dl n_def [symmetric] size_max1_def)
    show ?thesis
      using get_element_short [of "der_element (c, t) @ rest" t lb "c @ rest" False] tag True
      by (simp add: dl lb h sa asn1_take_element_append CBS_get_any_asn1_element_def der_header_def
          n_def [symmetric])
  next
    case False
    define k lb where "k = der_len_len n" and "lb = (of_nat (128 + k) :: byte)"
    have k: "1 \<le> k" "k \<le> 4" "n < 256 ^ k" "256 ^ (k - 1) \<le> n"
      using der_len_len_bounds [of n] False n by (simp_all add: k_def)
    have lb: "unat lb = 128 + k" unfolding lb_def unat_of_nat_byte using k by simp
    have dl: "der_len_bytes n = lb # be_bytes k n" using False by (simp add: der_len_bytes_def lb_def k_def)
    have bv: "be_val (be_bytes k n) = n" using k by (simp add: be_val_be_bytes)
    have h: "length (der_element (c, t)) - (k + n) = Suc (length (der_tag_bytes t))"
      by (simp add: el dl n_def [symmetric])
    have sa: "size_add n (Suc (length (der_tag_bytes t)) + k) = length (der_element (c, t))"
      using n lt k by (subst size_add_noover) (simp_all add: el dl n_def [symmetric] size_max1_def)
    have hl: "length (der_header t n) = Suc (length (der_tag_bytes t)) + k" by (simp add: der_header_def dl)
    have le: "\<not> length (der_element (c, t)) < n" by (simp add: el n_def [symmetric])
    show ?thesis
      using get_element_long [of "der_element (c, t) @ rest" t lb "be_bytes k n @ c @ rest"] tag k False
      by (simp add: dl lb h sa bv hl le asn1_take_element_append n_def [symmetric] Let_def
          del: add_Suc)
  qed
qed

lemma get_element_canonical:
  assumes "CBS_get_any_asn1_element cbs = (Some e, rest)"
  obtains c where "der_valid (c, elem_tag e)" and "cbs = der_element (c, elem_tag e) @ rest"
    and "elem_out e = der_element (c, elem_tag e)"
    and "elem_header_len e = length (der_header (elem_tag e) (length c))" and "\<not> elem_ber_found e"
proof -
  obtain t header where tag: "parse_asn1_tag cbs = (Some t, header)"
    using assms
    by (auto simp: CBS_get_any_asn1_element_def cbs_get_any_asn1_element_def split: prod.splits option.splits)
  obtain lb body where hd: "header = lb # body"
    using assms tag
    by (cases header) (auto simp: CBS_get_any_asn1_element_def cbs_get_any_asn1_element_def)
  have cbs: "cbs = der_tag_bytes t @ lb # body" using parse_asn1_tag_canonical [OF tag] hd by simp
  have lt: "length (der_tag_bytes t) \<le> 2 ^ 29 + 1" by (rule length_der_tag_bytes)
  define h where "h = Suc (length (der_tag_bytes t))"
  have h: "length cbs - length body = h" by (simp add: cbs h_def)
  have h_lt: "h \<le> 2 ^ 29 + 2" using lt by (simp add: h_def)
  show thesis
  proof (cases "unat lb < 128")
    case True
    have sa: "size_add (unat lb) h = h + unat lb"
      using True h_lt by (subst size_add_noover) (simp_all add: size_max1_def)
    have e: "h + unat lb \<le> length cbs" "rest = drop (h + unat lb) cbs"
      "e = \<lparr>elem_out = take (h + unat lb) cbs, elem_tag = t, elem_header_len = h, elem_ber_found = False\<rparr>"
      using assms True tag hd unfolding CBS_get_any_asn1_element_def
      by (simp_all add: get_element_short h sa asn1_take_element_Some)
    have "der_len_bytes (unat lb) = [lb]" using True by (simp add: der_len_bytes_def)
    then have "der_element (take (unat lb) body, t) = take (h + unat lb) cbs"
      and "length (der_header t (length (take (unat lb) body))) = h"
      using e(1) by (simp_all add: der_element_def der_header_def cbs h_def)
    then show thesis
      using e True by (intro that [of "take (unat lb) body"]) (simp_all add: der_valid_def)
  next
    case False
    define k n where "k = unat lb - 128" and "n = be_val (take k body)"
    have el: "CBS_get_any_asn1_element cbs =
      (if k = 0 \<or> 4 < k \<or> length body < k \<or> n < 128 \<or> n < 256 ^ (k - 1) \<or> size_add n (h + k) < n
       then (None, cbs) else asn1_take_element cbs (size_add n (h + k)) t (h + k) False)"
      using get_element_long [of cbs t lb body] tag hd False by (simp add: h k_def n_def Let_def)
    then have k: "k \<noteq> 0" "k \<le> 4" "k \<le> length body" "128 \<le> n" "256 ^ (k - 1) \<le> n"
      using assms by (auto split: if_splits)
    have nk: "n < 256 ^ k" using be_val_lt [of "take k body"] k by (simp add: n_def)
    also have "\<dots> \<le> 256 ^ 4" using k by (intro power_increasing) auto
    finally have n: "n < 2 ^ 32" by simp
    have sa: "size_add n (h + k) = h + k + n"
      using n h_lt k by (subst size_add_noover) (simp_all add: size_max1_def)
    have e: "h + k + n \<le> length cbs" "rest = drop (h + k + n) cbs"
      "e = \<lparr>elem_out = take (h + k + n) cbs, elem_tag = t, elem_header_len = h + k, elem_ber_found = False\<rparr>"
      using assms el by (auto simp: sa asn1_take_element_Some split: if_splits)
    have "lb = of_nat (128 + k)" using False by (intro unat_eq_of_nat) (simp add: k_def)
    moreover have "be_bytes k n = take k body"
      using be_bytes_be_val [of "take k body"] k by (simp add: n_def)
    ultimately have dl: "der_len_bytes n = lb # take k body"
      using der_len_len_unique [of k n] k nk by (simp add: der_len_bytes_def)
    let ?c = "take n (drop k body)"
    have lc: "length ?c = n" using e(1) k by (simp add: cbs h_def)
    then have "der_element (?c, t) = take (h + k + n) cbs" and "length (der_header t (length ?c)) = h + k"
      using k by (simp_all add: der_element_def der_header_def cbs h_def dl take_add)
    then show thesis
      using e n lc by (intro that [of ?c]) (simp_all add: der_valid_def)
  qed
qed

lemma CBS_get_any_asn1_der:
  "der_valid (c, t) \<Longrightarrow> CBS_get_any_asn1 (der_element (c, t) @ rest) = (Some (c, t), rest)"
  by (simp add: CBS_get_any_asn1_def get_element_der CBS_skip_eq) (simp add: der_element_def)

interpretation der: codec der_valid der_element CBS_get_any_asn1
proof
  fix a :: "byte list \<times> uint32" and rest
  assume "der_valid a"
  then show "CBS_get_any_asn1 (der_element a @ rest) = (Some a, rest)"
    by (cases a) (simp add: CBS_get_any_asn1_der)
next
  fix cbs rest and a :: "byte list \<times> uint32"
  assume "CBS_get_any_asn1 cbs = (Some a, rest)"
  then obtain e where e: "CBS_get_any_asn1_element cbs = (Some e, rest)"
    by (auto simp: CBS_get_any_asn1_def split: prod.splits option.splits bool.splits)
  then obtain c where "der_valid (c, elem_tag e)" "cbs = der_element (c, elem_tag e) @ rest"
    by (rule get_element_canonical)
  then show "der_valid a \<and> cbs = der_element a @ rest"
    using \<open>CBS_get_any_asn1 cbs = (Some a, rest)\<close> by (simp add: CBS_get_any_asn1_der)
qed

end
