(* ===== verification/Cbb.thy ===== *)
theory Cbb
  imports Der
begin

text \<open>
  \<open>CBB\<close>, the byte-string builder of BoringSSL (\<open>crypto/bytestring/cbb.c\<close>): a
  growable or fixed buffer with nested, length-prefixed children whose length is written
  when the parent is used again.

  State. \<open>cbb_buffer_st\<close> is the C struct of the same name; \<open>buf\<close> is the block itself
  (its \<open>cap\<close> bytes, \<open>None\<close> for NULL), so bytes beyond \<open>len\<close> are what the allocator left
  there. The allocator it draws from is carried along. A \<open>CBB\<close> has at most one child,
  that child at most one, and so on: all the objects writing to one buffer form a chain,
  the top-level object first. \<open>cbb_state\<close> is the shared \<open>base\<close> with this chain, and
  an operation names the object it is called on by its position \<open>d\<close> in the chain. An
  object that has been flushed away (its \<open>base\<close> pointer is NULL in C) is no longer in
  the chain; calls on such a position fail as the NULL checks make them fail.
\<close>

record cbb_buffer_st =
  buf :: "byte list option"
  len :: nat
  cap :: nat
  can_resize :: bool
  err :: bool
  alloc :: allocator

record cbb =
  offset :: nat
  pending_len_len :: nat
  pending_is_asn1 :: bool
  is_child :: bool

record cbb_state =
  base :: "cbb_buffer_st option"
  chain :: "cbb list"

definition cbb_zero :: cbb where
  "cbb_zero = \<lparr>offset = 0, pending_len_len = 0, pending_is_asn1 = False, is_child = False\<rparr>"

definition CBB_zero :: cbb_state where
  "CBB_zero = \<lparr>base = None, chain = [cbb_zero]\<rparr>"

definition buf_bytes :: "cbb_buffer_st \<Rightarrow> byte list" where
  "buf_bytes b = (case buf b of None \<Rightarrow> [] | Some d \<Rightarrow> d)"

text \<open>\<open>memcpy\<close>, \<open>memset\<close> or stores to the block at position \<open>i\<close>.\<close>

definition buf_store :: "cbb_buffer_st \<Rightarrow> nat \<Rightarrow> byte list \<Rightarrow> cbb_buffer_st" where
  "buf_store b i bs =
     b\<lparr>buf := map_option (\<lambda>d. take i d @ bs @ drop (i + length bs) d) (buf b)\<rparr>"

section \<open>Initialisation\<close>

text \<open>The size of \<open>struct cbb_buffer_st\<close> on the target.\<close>

definition sizeof_cbb_buffer :: nat where
  "sizeof_cbb_buffer = 32"

definition cbb_init :: "allocator \<Rightarrow> byte list option \<Rightarrow> nat \<Rightarrow> bool \<times> cbb_state \<times> allocator" where
  "cbb_init al bf cp =
     (case OPENSSL_malloc al sizeof_cbb_buffer of
        (None, al') \<Rightarrow> (False, CBB_zero, al')
      | (Some _, al') \<Rightarrow>
          (True, CBB_zero\<lparr>base := Some \<lparr>buf = bf, len = 0, cap = cp, can_resize = True,
                                       err = False, alloc = al'\<rparr>\<rparr>, al'))"

definition CBB_init :: "allocator \<Rightarrow> nat \<Rightarrow> bool \<times> cbb_state \<times> allocator" where
  "CBB_init al initial_capacity =
     (case OPENSSL_malloc al initial_capacity of
        (bf, al1) \<Rightarrow>
          if initial_capacity > 0 \<and> bf = None then (False, CBB_zero, al1)
          else cbb_init al1 bf initial_capacity)"

definition CBB_init_fixed :: "allocator \<Rightarrow> byte list \<Rightarrow> bool \<times> cbb_state \<times> allocator" where
  "CBB_init_fixed al bf =
     (case cbb_init al (Some bf) (length bf) of
        (False, s, al') \<Rightarrow> (False, s, al')
      | (True, s, al') \<Rightarrow>
          (True, s\<lparr>base := map_option (\<lambda>b. b\<lparr>can_resize := False\<rparr>) (base s)\<rparr>, al'))"

definition CBB_cleanup :: "cbb_state \<Rightarrow> nat \<Rightarrow> cbb_state" where
  "CBB_cleanup s d = (if is_child (chain s ! d) then s else s\<lparr>base := None\<rparr>)"

section \<open>The buffer\<close>

definition cbb_buffer_reserve :: "cbb_buffer_st option \<Rightarrow> nat \<Rightarrow> bool \<times> cbb_buffer_st option" where
  "cbb_buffer_reserve base0 n =
     (case base0 of
        None \<Rightarrow> (False, None)
      | Some b \<Rightarrow>
          (let newlen = size_add (len b) n in
           if newlen < len b then (False, Some (b\<lparr>err := True\<rparr>))
           else if newlen > cap b then
             (let newcap0 = size_mul (cap b) 2 in
              if \<not> can_resize b then (False, Some (b\<lparr>err := True\<rparr>))
              else
                let newcap = (if newcap0 < cap b \<or> newcap0 < newlen then newlen else newcap0) in
                case OPENSSL_realloc (alloc b) (buf b) newcap of
                  (None, al') \<Rightarrow> (False, Some (b\<lparr>err := True, alloc := al'\<rparr>))
                | (Some newbuf, al') \<Rightarrow>
                    (True, Some (b\<lparr>buf := Some newbuf, cap := newcap, alloc := al'\<rparr>)))
           else (True, Some b)))"

definition cbb_buffer_add :: "cbb_buffer_st option \<Rightarrow> nat \<Rightarrow> bool \<times> cbb_buffer_st option" where
  "cbb_buffer_add base0 n =
     (case cbb_buffer_reserve base0 n of
        (False, b) \<Rightarrow> (False, b)
      | (True, b) \<Rightarrow> (True, map_option (\<lambda>b. b\<lparr>len := size_add (len b) n\<rparr>) b))"

text \<open>
  The descending store loop shared by \<open>cbb_buffer_add_u\<close> and \<open>CBB_flush\<close>: byte
  \<open>k - 1\<close> down to byte \<open>0\<close> receive the low octets of \<open>v\<close>, which is shifted along. The
  octets stored and what is left of \<open>v\<close>:
\<close>

fun store_be :: "nat \<Rightarrow> nat \<Rightarrow> byte list \<Rightarrow> byte list \<times> nat" where
  "store_be 0 v acc = (acc, v)"
| "store_be (Suc i) v acc = store_be i (v div 256) (of_nat v # acc)"

definition cbb_buffer_add_u :: "cbb_buffer_st option \<Rightarrow> uint64 \<Rightarrow> nat \<Rightarrow> bool \<times> cbb_buffer_st option" where
  "cbb_buffer_add_u base0 v len_len =
     (if len_len = 0 then (True, base0)
      else case cbb_buffer_add base0 len_len of
        (False, b) \<Rightarrow> (False, b)
      | (True, None) \<Rightarrow> (False, None)
      | (True, Some b) \<Rightarrow>
          (case store_be len_len (unat v) [] of
             (bs, v') \<Rightarrow>
               (let b' = buf_store b (len b - len_len) bs in
                if v' \<noteq> 0 then (False, Some (b'\<lparr>err := True\<rparr>)) else (True, Some b'))))"

section \<open>Flushing\<close>

text \<open>Writing the pending length prefix of child \<open>c\<close>, whose own children are flushed.\<close>

definition asn1_length_form :: "nat \<Rightarrow> (nat \<times> byte \<times> nat) option" where
  "asn1_length_form l =
     (if l > 0xfffffffe then None
      else if l > 0xffffff then Some (5, 0x80 OR 4, l)
      else if l > 0xffff then Some (4, 0x80 OR 3, l)
      else if l > 0xff then Some (3, 0x80 OR 2, l)
      else if l > 0x7f then Some (2, 0x80 OR 1, l)
      else Some (1, of_nat l, 0))"

definition cbb_put_length :: "cbb_buffer_st \<Rightarrow> nat \<Rightarrow> nat \<Rightarrow> nat \<Rightarrow> bool \<times> cbb_buffer_st" where
  "cbb_put_length b off len_len l =
     (case store_be len_len l [] of
        (bs, l') \<Rightarrow>
          (let b' = buf_store b off bs in
           if l' \<noteq> 0 then (False, b'\<lparr>err := True\<rparr>) else (True, b')))"

definition cbb_flush_child :: "cbb_buffer_st \<Rightarrow> cbb \<Rightarrow> nat \<Rightarrow> bool \<times> cbb_buffer_st" where
  "cbb_flush_child b c child_start =
     (let l0 = len b - child_start in
      if pending_is_asn1 c then
        (case asn1_length_form l0 of
           None \<Rightarrow> (False, b\<lparr>err := True\<rparr>)
         | Some (len_len, initial_length_byte, l) \<Rightarrow>
             (let moved =
                (if len_len \<noteq> 1 then
                   (case cbb_buffer_add (Some b) (len_len - 1) of
                      (True, Some b') \<Rightarrow>
                        (True, buf_store b' (child_start + (len_len - 1))
                                 (take l (drop child_start (buf_bytes b'))))
                    | (_, Some b') \<Rightarrow> (False, b'\<lparr>err := True\<rparr>)
                    | (_, None) \<Rightarrow> (False, b\<lparr>err := True\<rparr>))
                 else (True, b)) in
              case moved of
                (False, b') \<Rightarrow> (False, b')
              | (True, b') \<Rightarrow>
                  cbb_put_length (buf_store b' (offset c) [initial_length_byte])
                    (offset c + 1) (len_len - 1) l))
      else cbb_put_length b (offset c) (pending_len_len c) l0)"

text \<open>
  \<open>CBB_flush\<close> of the object whose descendants are the given list: success, the buffer
  and the descendants left.
\<close>

fun cbb_flush_chain :: "cbb_buffer_st \<Rightarrow> cbb list \<Rightarrow> bool \<times> cbb_buffer_st \<times> cbb list" where
  "cbb_flush_chain b [] = (\<not> err b, b, [])"
| "cbb_flush_chain b (c # cs) =
     (if err b then (False, b, c # cs)
      else if pending_len_len c = 0 then (True, b, c # cs)
      else
        let child_start = size_add (offset c) (pending_len_len c) in
        case cbb_flush_chain b cs of
          (ok, b1, cs1) \<Rightarrow>
            if \<not> ok \<or> child_start < offset c \<or> len b1 < child_start
            then (False, b1\<lparr>err := True\<rparr>, c # cs1)
            else (case cbb_flush_child b1 c child_start of
                    (False, b2) \<Rightarrow> (False, b2, c # cs1)
                  | (True, b2) \<Rightarrow> (True, b2, [])))"

definition CBB_flush :: "cbb_state \<Rightarrow> nat \<Rightarrow> bool \<times> cbb_state" where
  "CBB_flush s d =
     (case base s of
        None \<Rightarrow> (False, s)
      | Some b \<Rightarrow>
          if length (chain s) \<le> d then (False, s)
          else (case cbb_flush_chain b (drop (Suc d) (chain s)) of
                  (ok, b', cs) \<Rightarrow> (ok, s\<lparr>base := Some b', chain := take (Suc d) (chain s) @ cs\<rparr>)))"

text \<open>
  The result is \<open>(*out_data, *out_len)\<close>; \<open>out_null\<close> says that one of the two
  out-pointers is NULL.
\<close>

definition CBB_finish :: "cbb_state \<Rightarrow> nat \<Rightarrow> bool \<Rightarrow> (byte list option \<times> nat) option \<times> cbb_state" where
  "CBB_finish s d out_null =
     (if d < length (chain s) \<and> is_child (chain s ! d) then (None, s)
      else case CBB_flush s d of
        (False, s') \<Rightarrow> (None, s')
      | (True, s') \<Rightarrow>
          (case base s' of
             None \<Rightarrow> (None, s')
           | Some b \<Rightarrow>
               if can_resize b \<and> out_null then (None, s')
               else (Some (buf b, len b), CBB_cleanup s' d)))"

definition CBB_data :: "cbb_state \<Rightarrow> nat \<Rightarrow> byte list" where
  "CBB_data s d =
     (case base s of
        None \<Rightarrow> []
      | Some b \<Rightarrow> drop (offset (chain s ! d) + pending_len_len (chain s ! d)) (take (len b) (buf_bytes b)))"

definition CBB_len :: "cbb_state \<Rightarrow> nat \<Rightarrow> nat" where
  "CBB_len s d =
     (case base s of
        None \<Rightarrow> 0
      | Some b \<Rightarrow> len b - offset (chain s ! d) - pending_len_len (chain s ! d))"

section \<open>Adding\<close>

text \<open>
  Most operations flush the object and then work on the buffer: \<open>with_flush\<close> is that
  common prologue.
\<close>

definition with_flush ::
  "cbb_state \<Rightarrow> nat \<Rightarrow> (cbb_buffer_st option \<Rightarrow> bool \<times> cbb_buffer_st option) \<Rightarrow> bool \<times> cbb_state" where
  "with_flush s d f =
     (case CBB_flush s d of
        (False, s') \<Rightarrow> (False, s')
      | (True, s') \<Rightarrow> (case f (base s') of (ok, b) \<Rightarrow> (ok, s'\<lparr>base := b\<rparr>)))"

definition cbb_add_length_prefixed :: "cbb_state \<Rightarrow> nat \<Rightarrow> nat \<Rightarrow> bool \<times> cbb_state" where
  "cbb_add_length_prefixed s d len_len =
     (case CBB_flush s d of
        (False, s') \<Rightarrow> (False, s')
      | (True, s') \<Rightarrow>
          (case base s' of
             None \<Rightarrow> (False, s')
           | Some b \<Rightarrow>
               (let off = len b in
                case cbb_buffer_add (Some b) len_len of
                  (True, Some b') \<Rightarrow>
                    (True, s'\<lparr>base := Some (buf_store b' off (replicate len_len 0)),
                              chain := take (Suc d) (chain s') @
                                [\<lparr>offset = off, pending_len_len = len_len,
                                  pending_is_asn1 = False, is_child = True\<rparr>]\<rparr>)
                | (_, b') \<Rightarrow> (False, s'\<lparr>base := b'\<rparr>))))"

definition CBB_add_u8_length_prefixed :: "cbb_state \<Rightarrow> nat \<Rightarrow> bool \<times> cbb_state" where
  "CBB_add_u8_length_prefixed s d = cbb_add_length_prefixed s d 1"

definition CBB_add_u16_length_prefixed :: "cbb_state \<Rightarrow> nat \<Rightarrow> bool \<times> cbb_state" where
  "CBB_add_u16_length_prefixed s d = cbb_add_length_prefixed s d 2"

definition CBB_add_u24_length_prefixed :: "cbb_state \<Rightarrow> nat \<Rightarrow> bool \<times> cbb_state" where
  "CBB_add_u24_length_prefixed s d = cbb_add_length_prefixed s d 3"

definition CBB_add_u8 :: "cbb_state \<Rightarrow> nat \<Rightarrow> byte \<Rightarrow> bool \<times> cbb_state" where
  "CBB_add_u8 s d v = with_flush s d (\<lambda>b. cbb_buffer_add_u b (ucast v) 1)"

definition CBB_add_u16 :: "cbb_state \<Rightarrow> nat \<Rightarrow> uint16 \<Rightarrow> bool \<times> cbb_state" where
  "CBB_add_u16 s d v = with_flush s d (\<lambda>b. cbb_buffer_add_u b (ucast v) 2)"

definition CBB_add_u16le :: "cbb_state \<Rightarrow> nat \<Rightarrow> uint16 \<Rightarrow> bool \<times> cbb_state" where
  "CBB_add_u16le s d v = CBB_add_u16 s d (CRYPTO_bswap2 v)"

definition CBB_add_u24 :: "cbb_state \<Rightarrow> nat \<Rightarrow> uint32 \<Rightarrow> bool \<times> cbb_state" where
  "CBB_add_u24 s d v = with_flush s d (\<lambda>b. cbb_buffer_add_u b (ucast v) 3)"

definition CBB_add_u32 :: "cbb_state \<Rightarrow> nat \<Rightarrow> uint32 \<Rightarrow> bool \<times> cbb_state" where
  "CBB_add_u32 s d v = with_flush s d (\<lambda>b. cbb_buffer_add_u b (ucast v) 4)"

definition CBB_add_u32le :: "cbb_state \<Rightarrow> nat \<Rightarrow> uint32 \<Rightarrow> bool \<times> cbb_state" where
  "CBB_add_u32le s d v = CBB_add_u32 s d (CRYPTO_bswap4 v)"

definition CBB_add_u64 :: "cbb_state \<Rightarrow> nat \<Rightarrow> uint64 \<Rightarrow> bool \<times> cbb_state" where
  "CBB_add_u64 s d v = with_flush s d (\<lambda>b. cbb_buffer_add_u b v 8)"

definition CBB_add_u64le :: "cbb_state \<Rightarrow> nat \<Rightarrow> uint64 \<Rightarrow> bool \<times> cbb_state" where
  "CBB_add_u64le s d v = CBB_add_u64 s d (CRYPTO_bswap8 v)"

text \<open>The position of the new space in the block is its old length.\<close>

definition CBB_add_space :: "cbb_state \<Rightarrow> nat \<Rightarrow> nat \<Rightarrow> bool \<times> cbb_state" where
  "CBB_add_space s d n = with_flush s d (\<lambda>b. cbb_buffer_add b n)"

definition fill_last :: "byte list \<Rightarrow> cbb_buffer_st \<Rightarrow> cbb_buffer_st" where
  "fill_last bs b = buf_store b (len b - length bs) bs"

definition CBB_add_bytes :: "cbb_state \<Rightarrow> nat \<Rightarrow> byte list \<Rightarrow> bool \<times> cbb_state" where
  "CBB_add_bytes s d data =
     with_flush s d (\<lambda>b. case cbb_buffer_add b (length data) of
       (False, b') \<Rightarrow> (False, b')
     | (True, b') \<Rightarrow> (True, map_option (fill_last data) b'))"

definition CBB_add_zeros :: "cbb_state \<Rightarrow> nat \<Rightarrow> nat \<Rightarrow> bool \<times> cbb_state" where
  "CBB_add_zeros s d n =
     (case CBB_add_space s d n of
        (False, s') \<Rightarrow> (False, s')
      | (True, s') \<Rightarrow> (True, s'\<lparr>base := map_option (fill_last (replicate n 0)) (base s')\<rparr>))"

definition CBB_reserve :: "cbb_state \<Rightarrow> nat \<Rightarrow> nat \<Rightarrow> bool \<times> cbb_state" where
  "CBB_reserve s d n = with_flush s d (\<lambda>b. cbb_buffer_reserve b n)"

definition CBB_did_write :: "cbb_state \<Rightarrow> nat \<Rightarrow> nat \<Rightarrow> bool \<times> cbb_state" where
  "CBB_did_write s d n =
     (case base s of
        None \<Rightarrow> (False, s)
      | Some b \<Rightarrow>
          (let newlen = size_add (len b) n in
           if Suc d \<noteq> length (chain s) \<or> newlen < len b \<or> newlen > cap b then (False, s)
           else (True, s\<lparr>base := Some (b\<lparr>len := newlen\<rparr>)\<rparr>)))"

definition CBB_discard_child :: "cbb_state \<Rightarrow> nat \<Rightarrow> cbb_state" where
  "CBB_discard_child s d =
     (if length (chain s) \<le> Suc d then s
      else s\<lparr>base := map_option (\<lambda>b. b\<lparr>len := offset (chain s ! Suc d)\<rparr>) (base s),
             chain := take (Suc d) (chain s)\<rparr>)"

section \<open>The buffer invariant\<close>

definition buffer_ok :: "cbb_buffer_st \<Rightarrow> bool" where
  "buffer_ok b \<longleftrightarrow> length (buf_bytes b) = cap b \<and> len b \<le> cap b \<and> cap b < size_max1"

text \<open>The bytes written so far.\<close>

definition content :: "cbb_buffer_st \<Rightarrow> byte list" where
  "content b = take (len b) (buf_bytes b)"

text \<open>The buffer differs from \<open>b\<close> in its bytes and its block only.\<close>

definition same_kind :: "cbb_buffer_st \<Rightarrow> cbb_buffer_st \<Rightarrow> bool" where
  "same_kind b b' \<longleftrightarrow> buffer_ok b' \<and> err b' = err b \<and> can_resize b' = can_resize b"

lemma same_kindD [dest]:
  "same_kind b b' \<Longrightarrow> buffer_ok b'" "same_kind b b' \<Longrightarrow> err b' = err b"
  "same_kind b b' \<Longrightarrow> can_resize b' = can_resize b"
  by (auto simp: same_kind_def)

lemma same_kind_trans [trans]: "same_kind a b \<Longrightarrow> same_kind b c \<Longrightarrow> same_kind a c"
  by (auto simp: same_kind_def)

lemma length_content: "buffer_ok b \<Longrightarrow> length (content b) = len b"
  by (simp add: buffer_ok_def content_def)

lemma store_be_eq: "store_be k v acc = (be_bytes k v @ acc, v div 256 ^ k)"
  by (induction k v acc rule: store_be.induct) (auto simp: div_mult2_eq mult.commute)

lemma buf_bytes_store:
  "buffer_ok b \<Longrightarrow> i + length bs \<le> cap b \<Longrightarrow>
     buf_bytes (buf_store b i bs) = take i (buf_bytes b) @ bs @ drop (i + length bs) (buf_bytes b)"
  by (auto simp: buf_bytes_def buf_store_def buffer_ok_def split: option.splits)

lemma buf_store_simps [simp]:
  "len (buf_store b i bs) = len b" "cap (buf_store b i bs) = cap b" "err (buf_store b i bs) = err b"
  "can_resize (buf_store b i bs) = can_resize b" "alloc (buf_store b i bs) = alloc b"
  by (simp_all add: buf_store_def)

lemma buf_store_same_kind:
  assumes "buffer_ok b" and "i + length bs \<le> cap b"
  shows "same_kind b (buf_store b i bs)"
  using assms by (auto simp: same_kind_def buffer_ok_def buf_bytes_store)

lemma content_store:
  assumes "buffer_ok b" and "i + length bs \<le> len b"
  shows "content (buf_store b i bs) = take i (content b) @ bs @ drop (i + length bs) (content b)"
proof -
  have "i + length bs \<le> cap b" using assms by (simp add: buffer_ok_def)
  moreover have "i \<le> len b" "length bs \<le> len b - i" "i \<le> length (buf_bytes b)"
    using assms by (auto simp: buffer_ok_def)
  ultimately show ?thesis
    using assms(1) by (simp add: content_def buf_bytes_store min.absorb1 min.absorb2 drop_take)
qed

lemma cbb_buffer_reserve_True:
  assumes ok: "buffer_ok b" and n: "n < size_max1"
    and r: "cbb_buffer_reserve (Some b) n = (True, ob)"
  obtains b' where "ob = Some b'" and "same_kind b b'" and "len b' = len b" and "content b' = content b"
    and "len b + n \<le> cap b'"
proof -
  define newlen where "newlen = size_add (len b) n"
  have lt: "len b < size_max1" using ok by (simp add: buffer_ok_def)
  have "\<not> newlen < len b"
    using r by (auto simp: cbb_buffer_reserve_def Let_def newlen_def split: if_splits)
  then have "len b + n < size_max1"
    using size_add_overflow_iff [OF lt n] by (simp add: newlen_def)
  then have nl: "newlen = len b + n" by (simp add: newlen_def size_add_noover)
  show thesis
  proof (cases "newlen > cap b")
    case False
    then have "ob = Some b"
      using r \<open>\<not> newlen < len b\<close> by (auto simp: cbb_buffer_reserve_def Let_def newlen_def split: if_splits)
    then show thesis using ok False nl by (intro that) (auto simp: same_kind_def)
  next
    case True
    define newcap where
      "newcap = (if size_mul (cap b) 2 < cap b \<or> size_mul (cap b) 2 < newlen then newlen else size_mul (cap b) 2)"
    have nc: "newlen \<le> newcap" "newcap < size_max1"
      using nl \<open>len b + n < size_max1\<close> by (auto simp: newcap_def)
    obtain nb al' where re: "OPENSSL_realloc (alloc b) (buf b) newcap = (Some nb, al')"
      and ob: "ob = Some (b\<lparr>buf := Some nb, cap := newcap, alloc := al'\<rparr>)"
      using r True \<open>\<not> newlen < len b\<close>
      by (auto simp: cbb_buffer_reserve_def Let_def newlen_def [symmetric] newcap_def
          split: if_splits prod.splits option.splits)
    have ln: "length nb = newcap" by (rule OPENSSL_realloc_length [OF re nc(2)])
    have tk: "take (len b) nb = content b"
    proof (cases "buf b")
      case None
      then show ?thesis using ok by (simp add: buffer_ok_def buf_bytes_def content_def)
    next
      case (Some d)
      then have "take (len b) nb = take (len b) d"
        using re ok True nl nc by (intro OPENSSL_realloc_take [of "alloc b"]) (auto simp: buffer_ok_def buf_bytes_def)
      then show ?thesis using Some by (simp add: content_def buf_bytes_def)
    qed
    show thesis
      using ob ln tk nc nl True ok
      by (intro that [OF ob]) (auto simp: same_kind_def buffer_ok_def buf_bytes_def content_def)
  qed
qed

lemma cbb_buffer_add_True:
  assumes ok: "buffer_ok b" and n: "n < size_max1"
    and r: "cbb_buffer_add (Some b) n = (True, ob)"
  obtains b' where "ob = Some b'" and "same_kind b b'" and "len b' = len b + n"
    and "take (len b) (content b') = content b"
proof -
  obtain ob1 where r1: "cbb_buffer_reserve (Some b) n = (True, ob1)"
    and ob: "ob = map_option (\<lambda>b. b\<lparr>len := size_add (len b) n\<rparr>) ob1"
    using r by (auto simp: cbb_buffer_add_def split: prod.splits bool.splits)
  obtain b1 where b1: "ob1 = Some b1" "same_kind b b1" "len b1 = len b" "content b1 = content b" "len b + n \<le> cap b1"
    using cbb_buffer_reserve_True [OF ok n r1] by blast
  have sa: "size_add (len b) n = len b + n"
    using b1(2,5) by (intro size_add_noover) (auto simp: same_kind_def buffer_ok_def)
  show thesis
    using b1 ob sa
    by (intro that [of "b1\<lparr>len := len b + n\<rparr>"])
      (auto simp: same_kind_def buffer_ok_def content_def buf_bytes_def min_def split: option.splits)
qed

text \<open>Space that was added and then filled is an append.\<close>

lemma content_fill_last:
  assumes "same_kind b b'" and "len b' = len b + length bs" and "take (len b) (content b') = content b"
  shows "content (fill_last bs b') = content b @ bs" and "same_kind b (fill_last bs b')"
proof -
  have ok: "buffer_ok b'" using assms(1) by auto
  show "content (fill_last bs b') = content b @ bs"
    using content_store [OF ok, of "len b" bs] assms length_content [OF ok]
    by (simp add: fill_last_def)
  have "same_kind b' (fill_last bs b')"
    using ok assms(2) by (auto simp: fill_last_def buffer_ok_def intro!: buf_store_same_kind)
  with assms(1) show "same_kind b (fill_last bs b')" by (rule same_kind_trans)
qed

section \<open>What flushing writes\<close>

text \<open>
  The meaning of a chain of open children over the bytes written so far: each child's
  contents, from behind its prefix to the end, get their length in front, the innermost
  first. \<open>None\<close>: some length does not fit its prefix.
\<close>

definition prefix_bytes :: "cbb \<Rightarrow> nat \<Rightarrow> byte list option" where
  "prefix_bytes c n =
     (if pending_is_asn1 c then (if n \<le> 0xfffffffe then Some (der_len_bytes n) else None)
      else if n < 256 ^ pending_len_len c then Some (be_bytes (pending_len_len c) n) else None)"

fun close_chain :: "cbb list \<Rightarrow> byte list \<Rightarrow> byte list option" where
  "close_chain [] bs = Some bs"
| "close_chain (c # cs) bs =
     (case close_chain cs bs of
        None \<Rightarrow> None
      | Some bs' \<Rightarrow>
          (let body = drop (offset c + pending_len_len c) bs' in
           map_option (\<lambda>p. take (offset c) bs' @ p @ body) (prefix_bytes c (length body))))"

text \<open>A child as the code makes them: one octet is set aside for an ASN.1 length.\<close>

definition child_ok :: "cbb \<Rightarrow> bool" where
  "child_ok c \<longleftrightarrow> pending_len_len c < 256 \<and> (pending_is_asn1 c \<longrightarrow> pending_len_len c = 1)
     \<and> 0 < pending_len_len c \<and> offset c < size_max1"

lemma asn1_length_form_der:
  assumes "asn1_length_form n = Some (len_len, ib, l)"
  shows "n \<le> 0xfffffffe" and "1 \<le> len_len" and "len_len \<le> 5"
    and "der_len_bytes n = ib # be_bytes (len_len - 1) l" and "l div 256 ^ (len_len - 1) = 0"
    and "len_len \<noteq> 1 \<Longrightarrow> l = n"
  using assms
  by (auto simp: asn1_length_form_def der_len_bytes_def der_len_len_def split: if_splits)

lemma asn1_length_form_None: "asn1_length_form n = None \<longleftrightarrow> 0xfffffffe < n"
  by (auto simp: asn1_length_form_def)

lemma cbb_put_length_True:
  assumes "buffer_ok b" and "off + k \<le> len b" and "cbb_put_length b off k l = (ok, b')"
  shows "ok \<longleftrightarrow> l < 256 ^ k"
    and "ok \<Longrightarrow> same_kind b b' \<and> len b' = len b \<and>
           content b' = take off (content b) @ be_bytes k l @ drop (off + k) (content b)"
  using assms buf_store_same_kind [of b off "be_bytes k l"] content_store [of b off "be_bytes k l"]
  by (auto simp: cbb_put_length_def store_be_eq Let_def buffer_ok_def div_eq_0_iff split: if_splits)

lemma cbb_flush_child_moved:
  assumes ok: "buffer_ok b" and cs: "child_start \<le> len b" and k: "k < size_max1"
    and add: "cbb_buffer_add (Some b) k = (True, Some b1)"
  defines "b2 \<equiv> buf_store b1 (child_start + k) (take (len b - child_start) (drop child_start (buf_bytes b1)))"
  shows "same_kind b b2" and "len b2 = len b + k"
    and "take child_start (content b2) = take child_start (content b)"
    and "drop (child_start + k) (content b2) = drop child_start (content b)"
proof -
  have b1: "same_kind b b1" "len b1 = len b + k" "take (len b) (content b1) = content b"
    using cbb_buffer_add_True [OF ok k add] by auto
  have ok1: "buffer_ok b1" using b1(1) by auto
  let ?bs = "take (len b - child_start) (drop child_start (buf_bytes b1))"
  have "take (len b) (buf_bytes b1) = content b"
    using b1(2,3) by (simp add: content_def min_def)
  then have bs: "?bs = drop child_start (content b)" by (metis drop_take)
  have lbs: "length ?bs = len b - child_start"
    unfolding bs by (simp add: length_content [OF ok])
  have c2: "content b2 = take (child_start + k) (content b1) @ ?bs"
    using content_store [OF ok1, of "child_start + k" ?bs] length_content [OF ok1] b1(2) cs lbs
    by (simp add: b2_def)
  show "same_kind b b2"
    unfolding b2_def
    using b1 ok1 cs lbs by (intro same_kind_trans [OF b1(1)] buf_store_same_kind) (auto simp: buffer_ok_def)
  show "len b2 = len b + k" by (simp add: b2_def b1)
  have "take child_start (content b2) = take child_start (content b1)"
    using c2 length_content [OF ok1] b1(2) cs by simp
  also have "\<dots> = take child_start (content b)"
    using cs by (metis b1(3) min.absorb1 take_take)
  finally show "take child_start (content b2) = take child_start (content b)" .
  show "drop (child_start + k) (content b2) = drop child_start (content b)"
    using c2 length_content [OF ok1] b1(2) cs bs by simp
qed

lemma cbb_flush_child_True:
  assumes ok: "buffer_ok b" and c: "child_ok c" and cs: "offset c + pending_len_len c \<le> len b"
    and r: "cbb_flush_child b c (offset c + pending_len_len c) = (True, b')"
  shows "same_kind b b'"
    and "\<exists>p. prefix_bytes c (len b - (offset c + pending_len_len c)) = Some p \<and>
           content b' = take (offset c) (content b) @ p @ drop (offset c + pending_len_len c) (content b)"
proof -
  let ?cs = "offset c + pending_len_len c"
  have "same_kind b b' \<and> (\<exists>p. prefix_bytes c (len b - ?cs) = Some p \<and>
           content b' = take (offset c) (content b) @ p @ drop ?cs (content b))"
  proof (cases "pending_is_asn1 c")
    case False
    then have "cbb_put_length b (offset c) (pending_len_len c) (len b - ?cs) = (True, b')"
      using r by (simp add: cbb_flush_child_def Let_def)
    from cbb_put_length_True [OF ok cs this] show ?thesis
      using False by (auto simp: prefix_bytes_def)
  next
    case True
    have p1: "pending_len_len c = 1" using c True by (simp add: child_ok_def)
    obtain len_len ib l where f: "asn1_length_form (len b - ?cs) = Some (len_len, ib, l)"
      using r True by (auto simp: cbb_flush_child_def Let_def split: option.splits)
    note form = asn1_length_form_der [OF f]
    define k where "k = len_len - 1"
    have kk: "k < size_max1" using form(3) by (simp add: k_def size_max1_def)
    obtain b2 where b2: "same_kind b b2" "len b2 = len b + k"
      "take (offset c) (content b2) = take (offset c) (content b)"
      "drop (?cs + k) (content b2) = drop ?cs (content b)"
      and put: "cbb_put_length (buf_store b2 (offset c) [ib]) (offset c + 1) k l = (True, b')"
    proof (cases "len_len = 1")
      case True
      then show thesis
        using r f \<open>pending_is_asn1 c\<close> ok
        by (intro that [of b]) (auto simp: cbb_flush_child_def Let_def k_def same_kind_def)
    next
      case False
      then obtain b1 where add: "cbb_buffer_add (Some b) k = (True, Some b1)"
        and put: "cbb_put_length (buf_store (buf_store b1 (?cs + k) (take l (drop ?cs (buf_bytes b1))))
                    (offset c) [ib]) (offset c + 1) k l = (True, b')"
        using r f \<open>pending_is_asn1 c\<close>
        by (auto simp: cbb_flush_child_def Let_def k_def split: prod.splits bool.splits option.splits)
      have l: "l = len b - ?cs" by (rule form(6) [OF False])
      note m = cbb_flush_child_moved [OF ok cs kk add, folded l]
      have t: "take (offset c) (take ?cs xs) = take (offset c) xs" for xs :: "byte list" by simp
      show thesis by (rule that [OF m(1,2) _ m(4) put]) (metis m(3) t)
    qed
    have ok2: "buffer_ok b2" using b2(1) by auto
    let ?b3 = "buf_store b2 (offset c) [ib]"
    have s3: "same_kind b2 ?b3" using ok2 b2(2) cs p1 by (intro buf_store_same_kind) (auto simp: buffer_ok_def)
    have c3: "content ?b3 = take (offset c) (content b2) @ [ib] @ drop (offset c + 1) (content b2)"
      using content_store [OF ok2, of "offset c" "[ib]"] b2(2) cs p1 by simp
    have pl: "same_kind ?b3 b'"
      "content b' = take (offset c + 1) (content ?b3) @ be_bytes k l @ drop (offset c + 1 + k) (content ?b3)"
      using cbb_put_length_True [OF _ _ put] s3 b2(2) cs p1 by auto
    have "content b' = take (offset c) (content b) @ (ib # be_bytes k l) @ drop ?cs (content b)"
      using pl(2) b2 cs p1 length_content [OF ok] length_content [OF ok2] unfolding c3
      by (simp add: min_def add.commute)
    then show ?thesis
      using same_kind_trans [OF b2(1) same_kind_trans [OF s3 pl(1)]] form True
      by (auto simp: prefix_bytes_def k_def)
  qed
  then show "same_kind b b'" and "\<exists>p. prefix_bytes c (len b - ?cs) = Some p \<and>
      content b' = take (offset c) (content b) @ p @ drop ?cs (content b)" by auto
qed

theorem cbb_flush_chain_refines:
  assumes "buffer_ok b" and "\<forall>c \<in> set cs. child_ok c"
    and "cbb_flush_chain b cs = (True, b', cs')"
  shows "cs' = [] \<and> \<not> err b \<and> same_kind b b' \<and> close_chain cs (content b) = Some (content b')"
  using assms
proof (induction cs arbitrary: b' cs')
  case Nil
  then show ?case by (auto simp: same_kind_def)
next
  case (Cons c cs)
  have c: "child_ok c" and cs: "\<forall>c \<in> set cs. child_ok c" using Cons.prems(2) by auto
  have pl: "0 < pending_len_len c" "pending_len_len c < size_max1" "offset c < size_max1"
    using c by (auto simp: child_ok_def size_max1_def)
  define start where "start = size_add (offset c) (pending_len_len c)"
  obtain b1 cs1 where f: "cbb_flush_chain b cs = (True, b1, cs1)" and nw: "\<not> start < offset c"
    and le: "start \<le> len b1" and fc: "cbb_flush_child b1 c start = (True, b')" and cs': "cs' = []"
    using Cons.prems(3) pl(1)
    by (auto simp: Let_def start_def split: if_splits prod.splits bool.splits)
  note IH = Cons.IH [OF Cons.prems(1) cs f]
  have st: "start = offset c + pending_len_len c"
    using nw size_add_overflow_iff [OF pl(3,2)] unfolding start_def by (intro size_add_noover) simp
  have ok1: "buffer_ok b1" using IH by auto
  from cbb_flush_child_True [OF ok1 c le [unfolded st] fc [unfolded st]]
  obtain p where "same_kind b1 b'"
    and "prefix_bytes c (len b1 - (offset c + pending_len_len c)) = Some p"
    and "content b' = take (offset c) (content b1) @ p @ drop (offset c + pending_len_len c) (content b1)"
    by blast
  then show ?case
    using IH cs' by (auto simp: length_content [OF ok1] intro: same_kind_trans)
qed

section \<open>Operations on an object without children\<close>

text \<open>A state whose deepest object is at position \<open>d\<close>, in working order.\<close>

definition ready :: "cbb_state \<Rightarrow> nat \<Rightarrow> cbb_buffer_st \<Rightarrow> bool" where
  "ready s d b \<longleftrightarrow> base s = Some b \<and> length (chain s) = Suc d \<and> buffer_ok b \<and> \<not> err b"

lemma ready_flush: "ready s d b \<Longrightarrow> CBB_flush s d = (True, s)"
  by (simp add: ready_def CBB_flush_def)

lemma ready_with_flush:
  "ready s d b \<Longrightarrow> with_flush s d f = (case f (Some b) of (ok, ob) \<Rightarrow> (ok, s\<lparr>base := ob\<rparr>))"
  by (simp add: with_flush_def ready_flush) (simp add: ready_def)

definition put_bytes :: "cbb_buffer_st \<Rightarrow> byte list \<Rightarrow> cbb_buffer_st option" where
  "put_bytes b bs =
     (case cbb_buffer_add (Some b) (length bs) of
        (True, Some b') \<Rightarrow> Some (fill_last bs b')
      | _ \<Rightarrow> None)"

lemma put_bytes_Some:
  assumes "buffer_ok b" and "length bs < size_max1" and "put_bytes b bs = Some b'"
  shows "same_kind b b'" and "content b' = content b @ bs"
proof -
  obtain b1 where a: "cbb_buffer_add (Some b) (length bs) = (True, Some b1)" and b': "b' = fill_last bs b1"
    using assms(3) by (auto simp: put_bytes_def split: prod.splits bool.splits option.splits)
  have "same_kind b b1" "len b1 = len b + length bs" "take (len b) (content b1) = content b"
    using cbb_buffer_add_True [OF assms(1,2) a] by auto
  from content_fill_last [OF this] show "same_kind b b'" and "content b' = content b @ bs"
    by (simp_all add: b')
qed

lemma cbb_buffer_add_option:
  "cbb_buffer_add (Some b) n = (ok, ob) \<Longrightarrow> ob \<noteq> None"
  by (auto simp: cbb_buffer_add_def cbb_buffer_reserve_def Let_def
      split: if_splits prod.splits option.splits bool.splits)

lemma ready_put:
  assumes "ready s d b" and "put_bytes b bs = Some b'" and "length bs < size_max1"
  shows "ready (s\<lparr>base := Some b'\<rparr>) d b'"
  using assms put_bytes_Some(1) [of b bs b'] by (auto simp: ready_def)

lemma CBB_add_bytes_ready:
  assumes "ready s d b"
  shows "CBB_add_bytes s d bs = (True, s') \<longleftrightarrow> (\<exists>b'. put_bytes b bs = Some b' \<and> s' = s\<lparr>base := Some b'\<rparr>)"
proof -
  obtain ok ob where a: "cbb_buffer_add (Some b) (length bs) = (ok, ob)" by fastforce
  obtain b1 where "ob = Some b1" using cbb_buffer_add_option [OF a] by auto
  then show ?thesis
    using assms a by (cases ok) (auto simp: CBB_add_bytes_def ready_with_flush put_bytes_def)
qed

lemma cbb_buffer_add_u_ready:
  assumes "ready s d b" and "0 < n" and "unat v < 256 ^ n"
  shows "with_flush s d (\<lambda>b. cbb_buffer_add_u b v n) = (True, s') \<longleftrightarrow>
    (\<exists>b'. put_bytes b (be_bytes n (unat v)) = Some b' \<and> s' = s\<lparr>base := Some b'\<rparr>)"
proof -
  obtain ok ob where a: "cbb_buffer_add (Some b) n = (ok, ob)" by fastforce
  obtain b1 where "ob = Some b1" using cbb_buffer_add_option [OF a] by auto
  then show ?thesis
    using assms a
    by (cases ok) (auto simp: ready_with_flush put_bytes_def cbb_buffer_add_u_def store_be_eq Let_def
        fill_last_def)
qed

lemma CBB_add_u8_ready:
  assumes "ready s d b"
  shows "CBB_add_u8 s d v = (True, s') \<longleftrightarrow> (\<exists>b'. put_bytes b [v] = Some b' \<and> s' = s\<lparr>base := Some b'\<rparr>)"
proof -
  have "unat (ucast v :: uint64) = unat v" by (simp add: unat_ucast_up)
  then show ?thesis
    using cbb_buffer_add_u_ready [OF assms, of 1 "ucast v"] by (simp add: CBB_add_u8_def)
qed

section \<open>Operations that write\<close>

text \<open>
  \<open>extends s d bs s'\<close>: from \<open>s\<close> to \<open>s'\<close> exactly the bytes \<open>bs\<close> were appended through
  the object at position \<open>d\<close>, which has no child before or after. \<open>roomy s n\<close>: the buffer
  may grow, allocation does not fail and \<open>n\<close> more bytes stay far from the end of the
  address space.
\<close>

definition extends :: "cbb_state \<Rightarrow> nat \<Rightarrow> byte list \<Rightarrow> cbb_state \<Rightarrow> bool" where
  "extends s d bs s' \<longleftrightarrow>
     (\<exists>b b'. ready s d b \<and> ready s' d b' \<and> same_kind b b' \<and> content b' = content b @ bs \<and>
        s' = s\<lparr>base := Some b'\<rparr>)"

definition roomy :: "cbb_state \<Rightarrow> nat \<Rightarrow> bool" where
  "roomy s n \<longleftrightarrow>
     (\<exists>b. base s = Some b \<and> can_resize b \<and> never_fails (alloc b) \<and> len b + n < 2 ^ 62)"

definition writes :: "(cbb_state \<Rightarrow> bool \<times> cbb_state) \<Rightarrow> nat \<Rightarrow> byte list \<Rightarrow> bool" where
  "writes f d bs \<longleftrightarrow>
     (\<forall>s b. ready s d b \<longrightarrow>
        (\<forall>s'. f s = (True, s') \<longrightarrow> extends s d bs s') \<and>
        (\<forall>n. length bs \<le> n \<longrightarrow> roomy s n \<longrightarrow> fst (f s) \<and> roomy (snd (f s)) (n - length bs)))"

definition then_op ::
  "(cbb_state \<Rightarrow> bool \<times> cbb_state) \<Rightarrow> (cbb_state \<Rightarrow> bool \<times> cbb_state) \<Rightarrow> cbb_state \<Rightarrow> bool \<times> cbb_state" where
  "then_op f g s = (case f s of (False, s') \<Rightarrow> (False, s') | (True, s') \<Rightarrow> g s')"

lemma extends_trans:
  "extends s d xs s1 \<Longrightarrow> extends s1 d ys s2 \<Longrightarrow> extends s d (xs @ ys) s2"
  unfolding extends_def ready_def by (auto intro: same_kind_trans)

lemma writesI:
  assumes "\<And>s b s'. ready s d b \<Longrightarrow> f s = (True, s') \<Longrightarrow> extends s d bs s'"
    and "\<And>s b n. ready s d b \<Longrightarrow> length bs \<le> n \<Longrightarrow> roomy s n \<Longrightarrow> \<exists>s'. f s = (True, s') \<and> roomy s' (n - length bs)"
  shows "writes f d bs"
  unfolding writes_def using assms by (metis fst_conv snd_conv)

lemma writes_extends: "writes f d bs \<Longrightarrow> ready s d b \<Longrightarrow> f s = (True, s') \<Longrightarrow> extends s d bs s'"
  by (auto simp: writes_def)

lemma writes_succeeds:
  assumes "writes f d bs" and "ready s d b" and "length bs \<le> n" and "roomy s n"
  obtains s' where "f s = (True, s')" and "extends s d bs s'" and "roomy s' (n - length bs)"
proof -
  have "fst (f s)" and r: "roomy (snd (f s)) (n - length bs)"
    using assms by (auto simp: writes_def)
  then have f: "f s = (True, snd (f s))" by (simp add: prod_eq_iff)
  show thesis by (rule that [OF f writes_extends [OF assms(1,2) f] r])
qed

lemma extends_ready: "extends s d bs s' \<Longrightarrow> \<exists>b'. ready s' d b'"
  by (auto simp: extends_def)

lemma writes_Nil: "writes (\<lambda>s. (True, s)) d []"
  by (rule writesI) (auto simp: extends_def same_kind_def ready_def)

lemma writes_then:
  assumes "writes f d xs" and "writes g d ys"
  shows "writes (then_op f g) d (xs @ ys)"
proof (rule writesI)
  fix s b s' assume r: "ready s d b" and "then_op f g s = (True, s')"
  then obtain s1 where f: "f s = (True, s1)" and g: "g s1 = (True, s')"
    by (auto simp: then_op_def split: prod.splits bool.splits)
  have e1: "extends s d xs s1" using writes_extends [OF assms(1) r f] .
  then obtain b1 where "ready s1 d b1" using extends_ready by blast
  then have "extends s1 d ys s'" using writes_extends [OF assms(2) _ g] by blast
  with e1 show "extends s d (xs @ ys) s'" by (rule extends_trans)
next
  fix s b n assume r: "ready s d b" and n: "length (xs @ ys) \<le> n" "roomy s n"
  then obtain s1 where f: "f s = (True, s1)" "extends s d xs s1" "roomy s1 (n - length xs)"
    using writes_succeeds [OF assms(1) r, of n] by (metis add_leD1 length_append)
  then obtain b1 where "ready s1 d b1" using extends_ready by blast
  moreover have "length ys \<le> n - length xs" using n(1) by simp
  ultimately obtain s2 where "g s1 = (True, s2)" "roomy s2 (n - length xs - length ys)"
    using writes_succeeds [OF assms(2) _ _ f(3)] by blast
  then show "\<exists>s'. then_op f g s = (True, s') \<and> roomy s' (n - length (xs @ ys))"
    using f(1) by (auto simp: then_op_def)
qed

lemma cbb_buffer_add_roomy:
  assumes "buffer_ok b" and "can_resize b" and "never_fails (alloc b)" and "len b + n < 2 ^ 62"
  obtains b' where "cbb_buffer_add (Some b) n = (True, Some b')" and "never_fails (alloc b')"
proof -
  have sa: "size_add (len b) n = len b + n" using assms(4) by (intro size_add_noover) (simp add: size_max1_def)
  show thesis
  proof (cases "len b + n > cap b")
    case False
    then show thesis using assms(3) sa
      by (intro that [of "b\<lparr>len := len b + n\<rparr>"]) (auto simp: cbb_buffer_add_def cbb_buffer_reserve_def)
  next
    case True
    define newcap where
      "newcap = (if size_mul (cap b) 2 < cap b \<or> size_mul (cap b) 2 < len b + n then len b + n else size_mul (cap b) 2)"
    have "size_mul (cap b) 2 \<le> cap b * 2" by (simp add: size_mul_def)
    then have "newcap + 8 < size_max1" using True assms(4) by (simp add: newcap_def size_max1_def)
    then obtain p al' where "OPENSSL_realloc (alloc b) (buf b) newcap = (Some p, al')" "never_fails al'"
      using OPENSSL_realloc_total [OF assms(3)] by blast
    then show thesis
      using True assms(2) sa
      by (intro that [of "b\<lparr>buf := Some p, cap := newcap, alloc := al', len := len b + n\<rparr>"])
        (auto simp: cbb_buffer_add_def cbb_buffer_reserve_def Let_def newcap_def)
  qed
qed

lemma put_bytes_roomy:
  assumes "buffer_ok b" and "can_resize b" and "never_fails (alloc b)" and "len b + length bs < 2 ^ 62"
  obtains b' where "put_bytes b bs = Some b'" and "never_fails (alloc b')"
proof -
  obtain b1 where "cbb_buffer_add (Some b) (length bs) = (True, Some b1)" "never_fails (alloc b1)"
    using cbb_buffer_add_roomy [OF assms] by blast
  then show thesis by (intro that [of "fill_last bs b1"]) (auto simp: put_bytes_def fill_last_def)
qed

text \<open>An operation that amounts to \<open>put_bytes\<close> writes those bytes.\<close>

lemma writes_put:
  assumes "length bs < size_max1"
    and "\<And>s s' b. ready s d b \<Longrightarrow> f s = (True, s') \<longleftrightarrow> (\<exists>b'. put_bytes b bs = Some b' \<and> s' = s\<lparr>base := Some b'\<rparr>)"
  shows "writes f d bs"
proof (rule writesI)
  fix s b s' assume r: "ready s d b" and "f s = (True, s')"
  then obtain b' where b': "put_bytes b bs = Some b'" "s' = s\<lparr>base := Some b'\<rparr>" using assms(2) by blast
  then show "extends s d bs s'"
    using r ready_put [OF r b'(1) assms(1)] put_bytes_Some [OF _ assms(1) b'(1)]
    by (auto simp: extends_def ready_def)
next
  fix s b n assume r: "ready s d b" and n: "length bs \<le> n" "roomy s n"
  then have b: "buffer_ok b" "can_resize b" "never_fails (alloc b)" "len b + n < 2 ^ 62"
    by (auto simp: ready_def roomy_def)
  then obtain b' where b': "put_bytes b bs = Some b'" "never_fails (alloc b')"
    using put_bytes_roomy [of b bs] n(1) by auto
  have "len b' = len b + length bs" and "can_resize b'"
    using put_bytes_Some [OF b(1) assms(1) b'(1)] b length_content [of b] length_content [of b']
    by (auto dest: same_kindD)
  then show "\<exists>s'. f s = (True, s') \<and> roomy s' (n - length bs)"
    using assms(2) [OF r] b' b(4) n(1) by (auto simp: roomy_def)
qed

lemma writes_u8: "writes (\<lambda>s. CBB_add_u8 s d v) d [v]"
  by (rule writes_put) (auto simp: CBB_add_u8_ready size_max1_def)

lemma writes_bytes: "length bs < size_max1 \<Longrightarrow> writes (\<lambda>s. CBB_add_bytes s d bs) d bs"
  by (rule writes_put) (auto simp: CBB_add_bytes_ready)

lemma writes_add_u:
  assumes "0 < n" and "n \<le> 8" and "unat v < 256 ^ n"
  shows "writes (\<lambda>s. with_flush s d (\<lambda>b. cbb_buffer_add_u b v n)) d (be_bytes n (unat v))"
  using assms by (intro writes_put) (auto simp: cbb_buffer_add_u_ready size_max1_def)

end
