(* ===== verification/Cbb_Asn1.thy ===== *)
theory Cbb_Asn1
  imports Cbb
begin

text \<open>
  The ASN.1 half of \<open>crypto/bytestring/cbb.c\<close>: base-128 integers, tagged children, the
  INTEGER, OCTET STRING and BOOLEAN writers, object identifiers from text (and, from
  \<open>cbs.c\<close>, to text) and the sorting of a SET OF; with the proof that each writer appends
  the DER encoding of its value.
\<close>

section \<open>Tags and children\<close>

text \<open>How often \<open>copy\<close> can be shifted right by 7 before it is zero.\<close>

fun base128_len :: "nat \<Rightarrow> nat" where
  "base128_len copy = (if copy = 0 then 0 else Suc (base128_len (copy div 128)))"

declare base128_len.simps [simp del]

text \<open>The loop over \<open>i\<close>, from \<open>len_len - 1\<close> down to 0; \<open>Suc i\<close> octets are left.\<close>

fun add_base128_loop :: "nat \<Rightarrow> uint64 \<Rightarrow> nat \<Rightarrow> cbb_state \<Rightarrow> bool \<times> cbb_state" where
  "add_base128_loop d v 0 s = (True, s)"
| "add_base128_loop d v (Suc i) s =
     (let b0 = ucast (drop_bit (7 * i) v AND 0x7f) :: byte;
          b = (if i \<noteq> 0 then b0 OR 0x80 else b0) in
      case CBB_add_u8 s d b of
        (False, s') \<Rightarrow> (False, s')
      | (True, s') \<Rightarrow> add_base128_loop d v i s')"

definition add_base128_integer :: "cbb_state \<Rightarrow> nat \<Rightarrow> uint64 \<Rightarrow> bool \<times> cbb_state" where
  "add_base128_integer s d v =
     (let len_len0 = base128_len (unat v);
          len_len = (if len_len0 = 0 then 1 else len_len0)
      in add_base128_loop d v len_len s)"

definition CBB_add_asn1 :: "cbb_state \<Rightarrow> nat \<Rightarrow> uint32 \<Rightarrow> bool \<times> cbb_state" where
  "CBB_add_asn1 s d tag =
     (case CBB_flush s d of
        (False, s0) \<Rightarrow> (False, s0)
      | (True, s0) \<Rightarrow>
          (let tag_bits = ucast (drop_bit CBS_ASN1_TAG_SHIFT tag AND 0xe0) :: byte;
               tag_number = tag AND CBS_ASN1_TAG_NUMBER_MASK;
               r = (if tag_number \<ge> 0x1f
                    then then_op (\<lambda>s. CBB_add_u8 s d (tag_bits OR 0x1f))
                           (\<lambda>s. add_base128_integer s d (ucast tag_number)) s0
                    else CBB_add_u8 s0 d (tag_bits OR ucast tag_number)) in
           case r of
             (False, s1) \<Rightarrow> (False, s1)
           | (True, s1) \<Rightarrow>
               (case base s1 of
                  None \<Rightarrow> (False, s1)
                | Some b \<Rightarrow>
                    (let off = len b in
                     case CBB_add_u8 s1 d 0 of
                       (False, s2) \<Rightarrow> (False, s2)
                     | (True, s2) \<Rightarrow>
                         (True, s2\<lparr>chain := take (Suc d) (chain s2) @
                            [\<lparr>offset = off, pending_len_len = 1, pending_is_asn1 = True,
                              is_child = True\<rparr>]\<rparr>)))))"

section \<open>Values\<close>

text \<open>
  The loop of \<open>CBB_add_asn1_uint64\<close> over \<open>i\<close> from 0 to 7, with \<open>r = 8 - i\<close> octets to
  go; the \<open>child\<close> is at position \<open>Suc d\<close>. The first component is \<open>started\<close>.
\<close>

fun add_uint64_loop :: "nat \<Rightarrow> uint64 \<Rightarrow> nat \<Rightarrow> bool \<Rightarrow> cbb_state \<Rightarrow> bool \<times> bool \<times> cbb_state" where
  "add_uint64_loop d v 0 started s = (started, True, s)"
| "add_uint64_loop d v (Suc r) started s =
     (let b = ucast (drop_bit (8 * r) v AND 0xff) :: byte in
      if \<not> started then
        (if b = 0 then add_uint64_loop d v r started s
         else
           case (if b AND 0x80 \<noteq> 0 then CBB_add_u8 s (Suc d) 0 else (True, s)) of
             (False, s') \<Rightarrow> (started, False, s')
           | (True, s') \<Rightarrow>
               (case CBB_add_u8 s' (Suc d) b of
                  (False, s'') \<Rightarrow> (True, False, s'')
                | (True, s'') \<Rightarrow> add_uint64_loop d v r True s''))
      else
        (case CBB_add_u8 s (Suc d) b of
           (False, s') \<Rightarrow> (started, False, s')
         | (True, s') \<Rightarrow> add_uint64_loop d v r started s'))"

definition CBB_add_asn1_uint64 :: "cbb_state \<Rightarrow> nat \<Rightarrow> uint64 \<Rightarrow> bool \<times> cbb_state" where
  "CBB_add_asn1_uint64 s d v =
     (case CBB_add_asn1 s d CBS_ASN1_INTEGER of
        (False, s') \<Rightarrow> (False, s')
      | (True, s') \<Rightarrow>
          (case add_uint64_loop d v 8 False s' of
             (_, False, s'') \<Rightarrow> (False, s'')
           | (started, True, s'') \<Rightarrow>
               (case (if \<not> started then CBB_add_u8 s'' (Suc d) 0 else (True, s'')) of
                  (False, s3) \<Rightarrow> (False, s3)
                | (True, s3) \<Rightarrow> CBB_flush s3 d)))"

text \<open>\<open>u.bytes\<close>, the little-endian octets of an \<open>int64_t\<close>.\<close>

definition int64_bytes :: "int64 \<Rightarrow> byte list" where
  "int64_bytes v = rev (be_bytes 8 (unat v))"

fun int64_start :: "byte list \<Rightarrow> nat \<Rightarrow> nat" where
  "int64_start u 0 = 0"
| "int64_start u (Suc i) =
     (if u ! Suc i = 0xff \<and> u ! i AND 0x80 \<noteq> 0 then int64_start u i else Suc i)"

fun add_octets_down :: "nat \<Rightarrow> byte list \<Rightarrow> nat \<Rightarrow> cbb_state \<Rightarrow> bool \<times> cbb_state" where
  "add_octets_down d u 0 s = (True, s)"
| "add_octets_down d u (Suc i) s =
     (case CBB_add_u8 s d (u ! i) of
        (False, s') \<Rightarrow> (False, s')
      | (True, s') \<Rightarrow> add_octets_down d u i s')"

definition CBB_add_asn1_int64 :: "cbb_state \<Rightarrow> nat \<Rightarrow> int64 \<Rightarrow> bool \<times> cbb_state" where
  "CBB_add_asn1_int64 s d v =
     (if sint v \<ge> 0 then CBB_add_asn1_uint64 s d v
      else
        let u = int64_bytes v; start = int64_start u 7 in
        case CBB_add_asn1 s d CBS_ASN1_INTEGER of
          (False, s') \<Rightarrow> (False, s')
        | (True, s') \<Rightarrow>
            (case add_octets_down (Suc d) u (Suc start) s' of
               (False, s'') \<Rightarrow> (False, s'')
             | (True, s'') \<Rightarrow> CBB_flush s'' d))"

definition CBB_add_asn1_octet_string :: "cbb_state \<Rightarrow> nat \<Rightarrow> byte list \<Rightarrow> bool \<times> cbb_state" where
  "CBB_add_asn1_octet_string s d data =
     then_op (\<lambda>s. CBB_add_asn1 s d CBS_ASN1_OCTETSTRING)
       (then_op (\<lambda>s. CBB_add_bytes s (Suc d) data) (\<lambda>s. CBB_flush s d)) s"

definition CBB_add_asn1_bool :: "cbb_state \<Rightarrow> nat \<Rightarrow> int \<Rightarrow> bool \<times> cbb_state" where
  "CBB_add_asn1_bool s d v =
     then_op (\<lambda>s. CBB_add_asn1 s d CBS_ASN1_BOOLEAN)
       (then_op (\<lambda>s. CBB_add_u8 s (Suc d) (if v \<noteq> 0 then 0xff else 0)) (\<lambda>s. CBB_flush s d)) s"

section \<open>What they write\<close>

fun digits128 :: "nat \<Rightarrow> nat \<Rightarrow> byte list" where
  "digits128 w 0 = []"
| "digits128 w (Suc i) = of_nat (128 + w div 128 ^ i mod 128) # digits128 w i"

lemma digits128_snoc: "digits128 w (Suc m) = digits128 (w div 128) m @ [of_nat (128 + w mod 128)]"
proof (induction m)
  case (Suc m)
  have "w div 128 ^ Suc m = w div 128 div 128 ^ m" by (simp add: div_mult2_eq)
  then show ?case using Suc by (simp only: digits128.simps(2) [of w "Suc m"]) simp
qed simp

lemma digits128_hi: "digits128 w (base128_len w) = base128_hi w"
proof (induction w rule: base128_len.induct)
  case (1 w)
  show ?case
  proof (cases "w = 0")
    case True
    then show ?thesis by (simp add: base128_len.simps)
  next
    case False
    then have "digits128 w (base128_len w) = digits128 (w div 128) (base128_len (w div 128)) @ [of_nat (128 + w mod 128)]"
      by (subst base128_len.simps) (simp only: if_False digits128_snoc)
    then show ?thesis using 1 [OF False] False by (simp only: base128_hi.simps [of w] if_False)
  qed
qed

lemma base128_octet:
  fixes v :: uint64
  shows "ucast (drop_bit k v AND 0x7f) = (of_nat (unat v div 2 ^ k mod 128) :: byte)"
    and "ucast (drop_bit k v AND 0x7f) OR 0x80 = (of_nat (128 + unat v div 2 ^ k mod 128) :: byte)"
proof -
  let ?x = "ucast (drop_bit k v AND 0x7f) :: byte"
  have "unat (drop_bit k v AND 0x7f) = unat v div 2 ^ k mod 128"
    by (simp only: mask_lits unat_and_low unat_drop_bit) simp
  then have x: "unat ?x = unat v div 2 ^ k mod 128"
    by (simp add: unsigned_ucast_eq take_bit_eq_mod)
  then show "?x = of_nat (unat v div 2 ^ k mod 128)" by (rule unat_eq_of_nat)
  have "unat (?x OR 0x80) = 128 + unat v div 2 ^ k mod 128"
  proof -
    have "?x OR 0x80 = push_bit 7 1 OR ?x" by (simp add: or.commute)
    then show ?thesis using unat_push_or [of ?x 7 1] x by simp
  qed
  then show "?x OR 0x80 = of_nat (128 + unat v div 2 ^ k mod 128)" by (rule unat_eq_of_nat)
qed

lemma writes_Cons:
  assumes "writes g d bs"
  shows "writes (\<lambda>s. case CBB_add_u8 s d v of (False, s') \<Rightarrow> (False, s') | (True, s') \<Rightarrow> g s') d (v # bs)"
  using writes_then [OF writes_u8 [of d v] assms] by (simp add: then_op_def [abs_def])

lemma writes_base128_loop:
  "writes (add_base128_loop d v (Suc m)) d
     (digits128 (unat v div 128) m @ [of_nat (unat v mod 128)])"
proof (induction m)
  case 0
  have "add_base128_loop d v 0 = (\<lambda>s. (True, s))" by (rule ext) simp
  then have "writes (add_base128_loop d v 0) d []" by (simp only: writes_Nil)
  from writes_Cons [OF this, of "of_nat (unat v mod 128)"] show ?case
    by (simp only: add_base128_loop.simps(2) [abs_def] Let_def base128_octet) simp
next
  case (Suc m)
  have e: "unat v div 2 ^ (7 * Suc m) mod 128 = unat v div 128 div 128 ^ m mod 128"
    by (simp add: power_add power_mult div_mult2_eq)
  have "writes (\<lambda>s. add_base128_loop d v (Suc (Suc m)) s) d
      (of_nat (128 + unat v div 128 div 128 ^ m mod 128) # (digits128 (unat v div 128) m @ [of_nat (unat v mod 128)]))"
    unfolding add_base128_loop.simps(2) [of d v "Suc m"] Let_def
    using writes_Cons [OF Suc, of "of_nat (128 + unat v div 128 div 128 ^ m mod 128)"]
    by (simp only: base128_octet(2) e nat.distinct if_True simp_thms)
  then show ?case by simp
qed

lemma writes_base128: "writes (\<lambda>s. add_base128_integer s d v) d (base128_bytes (unat v))"
proof (cases "v = 0")
  case True
  then have "(\<lambda>s. add_base128_integer s d v) = add_base128_loop d v (Suc 0)"
    by (intro ext) (simp add: add_base128_integer_def base128_len.simps [of 0] del: add_base128_loop.simps)
  then show ?thesis
    using writes_base128_loop [of d v 0] True by (simp add: base128_bytes_def del: add_base128_loop.simps)
next
  case False
  then have "base128_len (unat v) = Suc (base128_len (unat v div 128))"
    by (subst base128_len.simps) (simp add: unat_eq_0)
  then show ?thesis
    using writes_base128_loop [of d v "base128_len (unat v div 128)"]
    by (simp add: add_base128_integer_def digits128_hi base128_bytes_def del: add_base128_loop.simps)
qed

lemma tag_bits_octet:
  fixes tag :: uint32
  shows "ucast (drop_bit 24 tag AND 0xe0) = (push_bit 5 (of_nat (unat tag div 2 ^ 29)) :: byte)"
proof -
  have "(0xe0 :: uint32) = push_bit 5 (mask 3)" by (simp add: mask_eq_exp_minus_1)
  then have e0: "bit (0xe0 :: uint32) n \<longleftrightarrow> 5 \<le> n \<and> n < 8" for n
    by (simp only: bit_push_bit_iff bit_mask_iff) auto
  have t32: "bit tag n \<Longrightarrow> n < 32" for n using bit_imp_le_length [of tag n] by simp
  have "of_nat (unat tag div 2 ^ 29) = (ucast (drop_bit 29 tag) :: byte)"
    by (rule unat_eq_of_nat [symmetric])
      (use unat_uint32_hi [of tag] in \<open>simp add: unsigned_ucast_eq take_bit_nat_eq_self unat_drop_bit\<close>)
  then show ?thesis
    by (simp only:) (rule bit_word_eqI, auto simp only: bit_ucast_iff bit_and_iff bit_push_bit_iff
        bit_drop_bit_eq o_def e0 dest: t32, auto dest: t32 simp: algebra_simps)
qed

lemma tag_octet:
  fixes tag :: uint32 and x :: byte
  assumes "unat x < 32"
  shows "ucast (drop_bit 24 tag AND 0xe0) OR x = of_nat (unat tag div 2 ^ 29 * 32 + unat x)"
proof (rule unat_eq_of_nat)
  have h: "unat tag div 2 ^ 29 < 8" by (rule unat_uint32_hi)
  then have u: "unat (of_nat (unat tag div 2 ^ 29) :: byte) = unat tag div 2 ^ 29"
    unfolding unat_of_nat_byte by simp
  show "unat (ucast (drop_bit 24 tag AND 0xe0) OR x) = unat tag div 2 ^ 29 * 32 + unat x"
    unfolding tag_bits_octet by (subst unat_push_or) (use assms h u in simp_all)
qed

lemma tag_number:
  fixes tag :: uint32
  shows "unat (tag AND CBS_ASN1_TAG_NUMBER_MASK) = unat tag mod 2 ^ 29"
proof -
  have "CBS_ASN1_TAG_NUMBER_MASK = mask 29" by (simp add: asn1_consts mask_eq_exp_minus_1)
  show ?thesis unfolding \<open>CBS_ASN1_TAG_NUMBER_MASK = mask 29\<close> by (rule unat_and_low)
qed

text \<open>The identifier octets, as \<open>CBB_add_asn1\<close> writes them.\<close>

definition add_tag :: "nat \<Rightarrow> uint32 \<Rightarrow> cbb_state \<Rightarrow> bool \<times> cbb_state" where
  "add_tag d tag s =
     (let tag_bits = ucast (drop_bit CBS_ASN1_TAG_SHIFT tag AND 0xe0) :: byte;
          tag_number = tag AND CBS_ASN1_TAG_NUMBER_MASK in
      if tag_number \<ge> 0x1f
      then then_op (\<lambda>s. CBB_add_u8 s d (tag_bits OR 0x1f))
             (\<lambda>s. add_base128_integer s d (ucast tag_number)) s
      else CBB_add_u8 s d (tag_bits OR ucast tag_number))"

lemma writes_add_tag: "writes (add_tag d tag) d (der_tag_bytes tag)"
proof (cases "unat tag mod 2 ^ 29 < 31")
  case True
  let ?n = "tag AND CBS_ASN1_TAG_NUMBER_MASK"
  have lt: "\<not> ?n \<ge> 0x1f" using True by (simp add: word_le_nat_alt tag_number)
  have x: "unat (ucast ?n :: byte) = unat tag mod 2 ^ 29"
    using True by (simp add: unsigned_ucast_eq tag_number take_bit_nat_eq_self)
  have o: "ucast (drop_bit 24 tag AND 0xe0) OR ucast ?n
      = (of_nat (unat tag div 2 ^ 29 * 32 + unat tag mod 2 ^ 29) :: byte)"
    using tag_octet [of "ucast ?n" tag] True by (simp only: x)
  have "add_tag d tag = (\<lambda>s. CBB_add_u8 s d (of_nat (unat tag div 2 ^ 29 * 32 + unat tag mod 2 ^ 29)))"
    using lt by (intro ext) (simp only: add_tag_def Let_def CBS_ASN1_TAG_SHIFT_def o if_False)
  moreover have "der_tag_bytes tag = [of_nat (unat tag div 2 ^ 29 * 32 + unat tag mod 2 ^ 29)]"
    using True by (simp only: der_tag_bytes_def Let_def if_True)
  ultimately show ?thesis by (simp only: writes_u8)
next
  case False
  let ?n = "tag AND CBS_ASN1_TAG_NUMBER_MASK"
  have ge: "?n \<ge> 0x1f" using False by (simp add: word_le_nat_alt tag_number)
  have x: "unat (ucast ?n :: uint64) = unat tag mod 2 ^ 29"
    by (simp add: unat_ucast_up tag_number)
  have o: "ucast (drop_bit 24 tag AND 0xe0) OR 0x1f = (of_nat (unat tag div 2 ^ 29 * 32 + 31) :: byte)"
    using tag_octet [of "0x1f" tag] by simp
  have "add_tag d tag = then_op (\<lambda>s. CBB_add_u8 s d (of_nat (unat tag div 2 ^ 29 * 32 + 31)))
             (\<lambda>s. add_base128_integer s d (ucast ?n))"
    using ge by (intro ext) (simp only: add_tag_def Let_def CBS_ASN1_TAG_SHIFT_def o if_True)
  moreover have "der_tag_bytes tag = [of_nat (unat tag div 2 ^ 29 * 32 + 31)] @ base128_bytes (unat (ucast ?n :: uint64))"
    using False by (simp only: der_tag_bytes_def Let_def if_False x) simp
  ultimately show ?thesis by (simp only: writes_then [OF writes_u8 writes_base128])
qed

lemma CBB_add_asn1_eq:
  assumes "ready s d b"
  shows "CBB_add_asn1 s d tag =
    (case add_tag d tag s of
       (False, s1) \<Rightarrow> (False, s1)
     | (True, s1) \<Rightarrow>
         (case base s1 of
            None \<Rightarrow> (False, s1)
          | Some b \<Rightarrow>
              (case CBB_add_u8 s1 d 0 of
                 (False, s2) \<Rightarrow> (False, s2)
               | (True, s2) \<Rightarrow>
                   (True, s2\<lparr>chain := take (Suc d) (chain s2) @
                      [\<lparr>offset = len b, pending_len_len = 1, pending_is_asn1 = True, is_child = True\<rparr>]\<rparr>))))"
  unfolding CBB_add_asn1_def add_tag_def ready_flush [OF assms] prod.case bool.case Let_def ..

section \<open>Opening and closing a child\<close>

definition asn1_child :: "nat \<Rightarrow> cbb" where
  "asn1_child off = \<lparr>offset = off, pending_len_len = 1, pending_is_asn1 = True, is_child = True\<rparr>"

definition with_child :: "cbb_state \<Rightarrow> cbb_buffer_st \<Rightarrow> nat \<Rightarrow> cbb_state" where
  "with_child s b off = s\<lparr>base := Some b, chain := chain s @ [asn1_child off]\<rparr>"

lemma ready_with_child:
  "length (chain s) = Suc d \<Longrightarrow> buffer_ok b \<Longrightarrow> \<not> err b \<Longrightarrow> ready (with_child s b off) (Suc d) b"
  by (simp add: ready_def with_child_def)

lemma CBB_add_asn1_opens:
  assumes r: "ready s d b" and a: "CBB_add_asn1 s d tag = (True, s3)"
  obtains b2 where "same_kind b b2" and "content b2 = content b @ der_tag_bytes tag @ [0]"
    and "s3 = with_child s b2 (len b + length (der_tag_bytes tag))"
proof -
  obtain s1 b1 s2 where t: "add_tag d tag s = (True, s1)" and b1: "base s1 = Some b1"
    and z: "CBB_add_u8 s1 d 0 = (True, s2)"
    and s3: "s3 = s2\<lparr>chain := take (Suc d) (chain s2) @ [asn1_child (len b1)]\<rparr>"
    using a unfolding CBB_add_asn1_eq [OF r] asn1_child_def
    by (auto split: prod.splits bool.splits option.splits)
  obtain b1' where e1: "ready s1 d b1'" "same_kind b b1'" "content b1' = content b @ der_tag_bytes tag"
    "s1 = s\<lparr>base := Some b1'\<rparr>"
    using writes_extends [OF writes_add_tag r t] r by (auto simp: extends_def ready_def)
  have b1': "b1' = b1" using e1(1) b1 by (simp add: ready_def)
  obtain b2 where e2: "same_kind b1 b2" "content b2 = content b1 @ [0]" "s2 = s1\<lparr>base := Some b2\<rparr>"
    using writes_extends [OF writes_u8 e1(1) z] b1 by (auto simp: extends_def ready_def)
  have "len b1 = len b + length (der_tag_bytes tag)"
    using e1 b1' r length_content [of b] length_content [of b1]
    by (auto simp: ready_def)
  then show thesis
    using e1 e2 b1' s3 r by (intro that [of b2]) (auto simp: with_child_def ready_def intro: same_kind_trans)
qed

lemma CBB_flush_closes:
  assumes l: "length (chain s) = Suc d" and ok: "buffer_ok b" and ne: "\<not> err b"
    and c: "content b = pre @ [0] @ body"
    and f: "CBB_flush (with_child s b (length pre)) d = (True, s')"
  obtains b' where "same_kind b b'" and "content b' = pre @ der_len_bytes (length body) @ body"
    and "s' = s\<lparr>base := Some b'\<rparr>" and "length body \<le> 0xfffffffe"
proof -
  have "length pre < size_max1" using length_content [OF ok] ok c by (simp add: buffer_ok_def)
  then have cok: "child_ok (asn1_child (length pre))" by (simp add: child_ok_def asn1_child_def)
  obtain b' cs where fc: "cbb_flush_chain b [asn1_child (length pre)] = (True, b', cs)"
    and s': "s' = s\<lparr>base := Some b', chain := chain s @ cs\<rparr>"
    using f l by (auto simp: CBB_flush_def with_child_def simp del: cbb_flush_chain.simps split: prod.splits)
  have fr: "cs = []" "same_kind b b'" "close_chain [asn1_child (length pre)] (content b) = Some (content b')"
    using cbb_flush_chain_refines [OF ok _ fc] cok by auto
  show thesis
    using fr s' c by (intro that [of b'])
      (auto simp: asn1_child_def prefix_bytes_def Let_def split: if_splits)
qed

lemma cbb_flush_child_roomy:
  assumes ok: "buffer_ok b" and cr: "can_resize b" and nf: "never_fails (alloc b)"
    and c: "content b = pre @ [0] @ body" and lb: "length body \<le> 0xfffffffe"
    and n: "len b + (length (der_len_bytes (length body)) - 1) < 2 ^ 62"
  obtains b' where "cbb_flush_child b (asn1_child (length pre)) (length pre + 1) = (True, b')"
    and "never_fails (alloc b')"
proof -
  have lenb: "len b = length pre + 1 + length body" using length_content [OF ok] c by simp
  obtain len_len ib l where f: "asn1_length_form (length body) = Some (len_len, ib, l)"
    using lb asn1_length_form_None [of "length body"] by (cases "asn1_length_form (length body)") auto
  note form = asn1_length_form_der [OF f]
  have put: "cbb_put_length b0 off (len_len - 1) l = (True, buf_store b0 off (be_bytes (len_len - 1) l))" for b0 off
    using form(5) by (simp add: cbb_put_length_def store_be_eq)
  show thesis
  proof (cases "len_len = 1")
    case True
    then show thesis
      using f lenb nf put [of _ "length pre + 1"]
        that [of "buf_store (buf_store b (length pre) [ib]) (length pre + 1) (be_bytes (len_len - 1) l)"]
      by (simp add: cbb_flush_child_def asn1_child_def)
  next
    case False
    have "length (der_len_bytes (length body)) = len_len" using form by simp
    then have "len b + (len_len - 1) < 2 ^ 62" using n by simp
    then obtain b1 where "cbb_buffer_add (Some b) (len_len - 1) = (True, Some b1)" "never_fails (alloc b1)"
      using cbb_buffer_add_roomy [OF ok cr nf] by blast
    then show thesis
      using False f lenb put [of _ "length pre + 1"]
        that [of "buf_store (buf_store (buf_store b1 (length pre + 1 + (len_len - 1))
               (take l (drop (length pre + 1) (buf_bytes b1)))) (length pre) [ib]) (length pre + 1)
               (be_bytes (len_len - 1) l)"]
      by (simp add: cbb_flush_child_def asn1_child_def Let_def)
  qed
qed

lemma CBB_flush_closes_roomy:
  assumes l: "length (chain s) = Suc d" and ok: "buffer_ok b" and ne: "\<not> err b"
    and c: "content b = pre @ [0] @ body" and lb: "length body \<le> 0xfffffffe"
    and rm: "roomy (with_child s b (length pre)) n" and n: "length (der_len_bytes (length body)) \<le> n + 1"
  shows "\<exists>s'. CBB_flush (with_child s b (length pre)) d = (True, s') \<and>
           roomy s' (n + 1 - length (der_len_bytes (length body)))"
proof -
  have cr: "can_resize b" and nf: "never_fails (alloc b)" and ln: "len b + n < 2 ^ 62"
    using rm by (auto simp: roomy_def with_child_def)
  have lenb: "len b = length pre + 1 + length body" using length_content [OF ok] c by simp
  have "len b + (length (der_len_bytes (length body)) - 1) < 2 ^ 62" using n ln by linarith
  then obtain b' where fc: "cbb_flush_child b (asn1_child (length pre)) (length pre + 1) = (True, b')"
    and nf': "never_fails (alloc b')"
    using cbb_flush_child_roomy [OF ok cr nf c lb] by blast
  have "length pre + 1 < size_max1" using lenb ln by (simp add: size_max1_def)
  then have sa: "size_add (length pre) 1 = length pre + 1" by (rule size_add_noover)
  have fl: "CBB_flush (with_child s b (length pre)) d = (True, s\<lparr>base := Some b'\<rparr>)"
    using l ne fc sa lenb
    by (simp add: CBB_flush_def with_child_def asn1_child_def)
  obtain b'' where b'': "same_kind b b''" "content b'' = pre @ der_len_bytes (length body) @ body"
      "s\<lparr>base := Some b'\<rparr> = s\<lparr>base := Some b''\<rparr>"
    using CBB_flush_closes [OF l ok ne c fl] by metis
  have "b'' = b'" using b''(3) by (metis cbb_state.select_convs(1) cbb_state.surjective cbb_state.update_convs(1) option.inject)
  then have "len b' = length pre + length (der_len_bytes (length body)) + length body" "can_resize b'"
    using b''(1,2) cr length_content [of b'] by (auto simp: same_kind_def)
  then have "roomy (s\<lparr>base := Some b'\<rparr>) (n + 1 - length (der_len_bytes (length body)))"
    using nf' ln lenb n by (simp add: roomy_def)
  with fl show ?thesis by blast
qed

lemma CBB_add_asn1_roomy:
  assumes r: "ready s d b" and n: "length (der_tag_bytes tag) + 1 \<le> n" and rm: "roomy s n"
  shows "\<exists>s3. CBB_add_asn1 s d tag = (True, s3) \<and> roomy s3 (n - (length (der_tag_bytes tag) + 1))"
proof -
  obtain s1 where s1: "add_tag d tag s = (True, s1)" "extends s d (der_tag_bytes tag) s1"
    "roomy s1 (n - length (der_tag_bytes tag))"
    using writes_succeeds [OF writes_add_tag r _ rm, of tag] n by auto
  obtain b1 where r1: "ready s1 d b1" using s1(2) extends_ready by blast
  have "length [0 :: byte] \<le> n - length (der_tag_bytes tag)" using n by simp
  then obtain s2 where s2: "CBB_add_u8 s1 d 0 = (True, s2)" "roomy s2 (n - length (der_tag_bytes tag) - length [0 :: byte])"
    using writes_succeeds [OF writes_u8 r1 _ s1(3)] by blast
  have "base s1 = Some b1" using r1 by (simp add: ready_def)
  then show ?thesis
    unfolding CBB_add_asn1_eq [OF r] using s1(1) s2 by (auto simp: roomy_def)
qed

lemma length_der_element:
  "length (der_element (body, tag)) = length (der_tag_bytes tag) + length (der_len_bytes (length body)) + length body"
  by (simp add: der_element_def der_header_def)

text \<open>
  A tagged element: open a child, let \<open>g\<close> write the contents into it, flush the parent.
\<close>

lemma writes_asn1:
  assumes g: "writes g (Suc d) body" and lb: "length body \<le> 0xfffffffe"
  shows "writes (then_op (\<lambda>s. CBB_add_asn1 s d tag) (then_op g (\<lambda>s. CBB_flush s d))) d (der_element (body, tag))"
proof (rule writesI)
  fix s b s' assume r: "ready s d b"
    and op: "then_op (\<lambda>s. CBB_add_asn1 s d tag) (then_op g (\<lambda>s. CBB_flush s d)) s = (True, s')"
  obtain s3 s4 where o: "CBB_add_asn1 s d tag = (True, s3)" and gs: "g s3 = (True, s4)"
    and fl: "CBB_flush s4 d = (True, s')"
    using op by (auto simp: then_op_def split: prod.splits bool.splits)
  let ?pre = "content b @ der_tag_bytes tag"
  have lpre: "len b + length (der_tag_bytes tag) = length ?pre"
    using r by (simp add: ready_def length_content)
  obtain b2 where b2: "same_kind b b2" "content b2 = content b @ der_tag_bytes tag @ [0]"
    and s3: "s3 = with_child s b2 (length ?pre)"
    using CBB_add_asn1_opens [OF r o] unfolding lpre by metis
  have l: "length (chain s) = Suc d" and ne: "\<not> err b2" and ok2: "buffer_ok b2"
    using r b2(1) by (auto simp: ready_def same_kind_def)
  have r3: "ready s3 (Suc d) b2" unfolding s3 by (rule ready_with_child [OF l ok2 ne])
  obtain b4 where b4: "same_kind b2 b4" "content b4 = content b2 @ body" and s4: "s4 = s3\<lparr>base := Some b4\<rparr>"
    using writes_extends [OF g r3 gs] r3 by (auto simp: extends_def ready_def)
  have s4': "s4 = with_child s b4 (length ?pre)" by (simp add: s4 s3 with_child_def)
  have "content b4 = ?pre @ [0] @ body" using b4 b2 by simp
  then obtain b5 where "same_kind b4 b5" "content b5 = ?pre @ der_len_bytes (length body) @ body"
    "s' = s\<lparr>base := Some b5\<rparr>"
    using CBB_flush_closes [OF l _ _ _ fl [unfolded s4'], of body] b4(1) ne by (metis same_kindD)
  then show "extends s d (der_element (body, tag)) s'"
    using r b2 b4 unfolding extends_def ready_def
    by (auto simp: der_element_def der_header_def intro: same_kind_trans)
next
  fix s b n assume r: "ready s d b" and n: "length (der_element (body, tag)) \<le> n" and rm: "roomy s n"
  show "\<exists>s'. then_op (\<lambda>s. CBB_add_asn1 s d tag) (then_op g (\<lambda>s. CBB_flush s d)) s = (True, s') \<and>
          roomy s' (n - length (der_element (body, tag)))"
  proof -
    let ?T = "length (der_tag_bytes tag)" and ?L = "length (der_len_bytes (length body))"
    have L: "1 \<le> ?L" by (simp add: der_len_bytes_def)
    have nn: "?T + ?L + length body \<le> n" using n by (simp add: length_der_element)
    have "?T + 1 \<le> n" using nn L by linarith
    then obtain s3 where o: "CBB_add_asn1 s d tag = (True, s3)" and rm3: "roomy s3 (n - (?T + 1))"
      using CBB_add_asn1_roomy [OF r _ rm] by blast
    let ?pre = "content b @ der_tag_bytes tag"
    have lpre: "len b + ?T = length ?pre" using r by (simp add: ready_def length_content)
    obtain b2 where b2: "same_kind b b2" "content b2 = content b @ der_tag_bytes tag @ [0]"
      and s3: "s3 = with_child s b2 (length ?pre)"
      using CBB_add_asn1_opens [OF r o] unfolding lpre by metis
    have l: "length (chain s) = Suc d" and ne: "\<not> err b2" and ok2: "buffer_ok b2"
      using r b2(1) by (auto simp: ready_def same_kind_def)
    have r3: "ready s3 (Suc d) b2" unfolding s3 by (rule ready_with_child [OF l ok2 ne])
    have "length body \<le> n - (?T + 1)" using nn L by linarith
    then obtain s4 where gs: "g s3 = (True, s4)" and e4: "extends s3 (Suc d) body s4"
      and rm4: "roomy s4 (n - (?T + 1) - length body)"
      using writes_succeeds [OF g r3 _ rm3] by blast
    obtain b4 where b4: "same_kind b2 b4" "content b4 = content b2 @ body" and s4: "s4 = s3\<lparr>base := Some b4\<rparr>"
      using e4 r3 by (auto simp: extends_def ready_def)
    have s4': "s4 = with_child s b4 (length ?pre)" by (simp add: s4 s3 with_child_def)
    have "content b4 = ?pre @ [0] @ body" "buffer_ok b4" "\<not> err b4" using b4 b2 ne by auto
    then obtain s' where "CBB_flush s4 d = (True, s')" "roomy s' (n - (?T + 1) - length body + 1 - ?L)"
      using CBB_flush_closes_roomy [OF l _ _ _ lb rm4 [unfolded s4']] nn L s4' by fastforce
    moreover have "n - (?T + 1) - length body + 1 - ?L = n - length (der_element (body, tag))"
      using nn L by (simp add: length_der_element)
    ultimately show ?thesis using o gs by (auto simp: then_op_def)
  qed
qed

end
