(* ===== verification/Asn1_Int.thy ===== *)
theory Asn1_Int
  imports Cbb_Asn1
begin

text \<open>
  INTEGER, BOOLEAN and OCTET STRING from both sides. \<open>int_content\<close> is the reference: the
  shortest two's complement octets of an integer. The typed readers of \<open>cbs.c\<close> accept
  exactly the DER element with these contents, and the typed writers of \<open>cbb.c\<close> emit it.
\<close>

section \<open>Two's complement contents\<close>

function int_content :: "int \<Rightarrow> byte list" where
  "int_content i =
     (if - 128 \<le> i \<and> i < 128 then [of_int i] else int_content (i div 256) @ [of_int i])"
  by pat_completeness auto
termination by (relation "measure (\<lambda>i. nat \<bar>i\<bar>)") auto

declare int_content.simps [simp del]

definition int_val :: "byte list \<Rightarrow> int" where
  "int_val bs = (case bs of [] \<Rightarrow> 0 | b # r \<Rightarrow> sint b * 256 ^ length r + int (be_val r))"

definition minimal :: "byte list \<Rightarrow> bool" where
  "minimal bs = fst (CBS_is_valid_asn1_integer bs)"

lemma sint_unat:
  fixes w :: "'a::len word"
  shows "sint w = (if unat w < 2 ^ (LENGTH('a) - 1) then int (unat w) else int (unat w) - 2 ^ LENGTH('a))"
proof -
  define n where "n = LENGTH('a) - 1"
  have n: "LENGTH('a) = Suc n" by (simp add: n_def)
  have r: "- (2 ^ n) \<le> sint w" "sint w < 2 ^ n"
    using sint_ge [of w] sint_lt [of w] by (simp_all add: n_def)
  have u: "int (unat w) = sint w mod 2 ^ Suc n"
    by (simp only: uint_nat [symmetric] uint_sint take_bit_eq_mod n)
  have p: "(0 :: int) < 2 ^ n" by simp
  show ?thesis
  proof (cases "0 \<le> sint w")
    case True
    then have "sint w mod 2 ^ Suc n = sint w" using r p by (intro mod_pos_pos_trivial) auto
    then have "int (unat w) = sint w" using u by simp
    moreover from this have "unat w < 2 ^ n" using r by (metis of_nat_less_iff of_nat_numeral of_nat_power)
    ultimately show ?thesis by (simp add: n)
  next
    case False
    have "sint w mod 2 ^ Suc n = (sint w + 2 ^ Suc n) mod 2 ^ Suc n" by simp
    also have "\<dots> = sint w + 2 ^ Suc n" using False r p by (intro mod_pos_pos_trivial) auto
    finally have "int (unat w) = sint w + 2 ^ Suc n" using u by simp
    moreover from this have "2 ^ n \<le> int (unat w)" using r(1) by simp
    then have "\<not> unat w < 2 ^ n" by (metis not_le of_nat_le_iff of_nat_numeral of_nat_power)
    ultimately show ?thesis by (simp add: n)
  qed
qed

lemma sint_byte: "sint (b :: byte) = (if unat b < 128 then int (unat b) else int (unat b) - 256)"
  using sint_unat [of b] by simp

lemma sint_byte_neg: "\<not> unat (b :: byte) < 128 \<Longrightarrow> sint b \<le> - 1"
proof -
  assume "\<not> unat b < 128"
  then have "sint b = int (unat b) - 256" by (simp only: sint_byte if_False)
  moreover have "unat b < 256" by (rule byte_lt)
  ultimately show ?thesis by linarith
qed

lemma int_val_simps [simp]:
  "int_val [] = 0" "int_val (b # r) = sint b * 256 ^ length r + int (be_val r)"
  by (simp_all add: int_val_def)

lemma int_val_snoc: "bs \<noteq> [] \<Longrightarrow> int_val (bs @ [b]) = int_val bs * 256 + int (unat b)"
  by (cases bs) (auto simp: be_val_snoc algebra_simps)

lemma minimal_simps:
  "\<not> minimal []" "minimal [b]"
  "minimal (b # c # r) \<longleftrightarrow> \<not> (b = 0 \<and> unat c < 128) \<and> \<not> (b = 0xff \<and> 128 \<le> unat c)"
  by (auto simp: minimal_def CBS_is_valid_asn1_integer_def byte_high_bit Let_def)

lemma int_val_bounds: "bs \<noteq> [] \<Longrightarrow> - (128 * 256 ^ (length bs - 1)) \<le> int_val bs"
  "bs \<noteq> [] \<Longrightarrow> int_val bs < 128 * 256 ^ (length bs - 1)"
proof -
  have "- (128 * 256 ^ (length bs - 1)) \<le> int_val bs \<and> int_val bs < 128 * 256 ^ (length bs - 1)"
    if ne: "bs \<noteq> []"
  proof -
    obtain b r where bs: "bs = b # r" using ne by (cases bs) auto
    define P :: int where "P = 256 ^ length r"
    have v: "int (be_val r) < P" using be_val_lt [of r] unfolding P_def
      by (metis of_nat_less_iff of_nat_numeral of_nat_power)
    have "- 128 \<le> sint b" "sint b \<le> 127" using sint_ge [of b] sint_lt [of b] by auto
    then have "- 128 * P \<le> sint b * P" "sint b * P \<le> 127 * P"
      unfolding P_def by (intro mult_right_mono, simp_all)+
    moreover have "int_val bs = sint b * P + int (be_val r)" "256 ^ (length bs - 1) = P"
      by (simp_all add: bs P_def)
    ultimately show ?thesis using v by linarith
  qed
  then show "bs \<noteq> [] \<Longrightarrow> - (128 * 256 ^ (length bs - 1)) \<le> int_val bs"
    and "bs \<noteq> [] \<Longrightarrow> int_val bs < 128 * 256 ^ (length bs - 1)" by auto
qed

lemma minimal_outside:
  assumes "minimal (b # c # r)"
  shows "int_val (b # c # r) < - (128 * 256 ^ length r) \<or> 128 * 256 ^ length r \<le> int_val (b # c # r)"
proof -
  define P :: int where "P = 256 ^ length r"
  have P: "0 < P" by (simp add: P_def)
  have v: "int (be_val r) < P" using be_val_lt [of r] unfolding P_def
    by (metis of_nat_less_iff of_nat_numeral of_nat_power)
  have val: "int_val (b # c # r) = sint b * 256 * P + int (unat c) * P + int (be_val r)"
    by (simp add: P_def be_val_Cons)
  have "unat c < 256" by (rule byte_lt)
  then have c: "int (unat c) \<le> 255" by linarith
  consider "1 \<le> sint b" | "b = 0" "128 \<le> unat c" | "b = 0xff" "unat c < 128" | "sint b \<le> - 2"
  proof -
    have "sint b = 0 \<Longrightarrow> b = 0" by (simp only: signed_eq_0_iff)
    moreover have "sint b = sint (0xff :: byte) \<Longrightarrow> b = 0xff" by (rule signed_word_eqI)
    then have "sint b = - 1 \<Longrightarrow> b = 0xff" by simp
    moreover have "1 \<le> sint b \<or> sint b = 0 \<or> sint b = - 1 \<or> sint b \<le> - 2" by linarith
    moreover have "\<not> (b = 0 \<and> unat c < 128)" "\<not> (b = 0xff \<and> 128 \<le> unat c)"
      using assms unfolding minimal_simps by blast+
    ultimately show thesis using that not_le by metis
  qed
  then show ?thesis
  proof cases
    case 1
    then have "1 * (256 * P) \<le> sint b * (256 * P)" using P by (intro mult_right_mono) auto
    moreover have "0 \<le> int (unat c) * P" using P by simp
    ultimately show ?thesis using val P unfolding P_def [symmetric] by linarith
  next
    case 2
    then have "128 * P \<le> int (unat c) * P" using P by (intro mult_right_mono) (auto simp del: of_nat_unat)
    then show ?thesis using val 2 unfolding P_def [symmetric] by simp
  next
    case 3
    then have "int (unat c) * P \<le> 127 * P" using P by (intro mult_right_mono) (auto simp del: of_nat_unat)
    moreover have "int_val (b # c # r) = - 256 * P + int (unat c) * P + int (be_val r)"
      using val 3 by (simp add: sint_byte)
    ultimately show ?thesis using v P unfolding P_def [symmetric] by linarith
  next
    case 4
    then have "sint b * (256 * P) \<le> - 2 * (256 * P)" using P by (intro mult_right_mono) auto
    moreover have "int (unat c) * P \<le> 255 * P" using P c by (intro mult_right_mono) auto
    ultimately show ?thesis using val v P unfolding P_def [symmetric] by linarith
  qed
qed

lemma minimal_length_le:
  assumes "minimal xs" and "minimal ys" and "int_val xs = int_val ys"
  shows "length ys \<le> length xs"
proof (rule ccontr)
  assume n: "\<not> ?thesis"
  have "xs \<noteq> []" using assms(1) by (auto simp: minimal_simps)
  with n obtain b c r where ys: "ys = b # c # r" and l: "length xs \<le> Suc (length r)"
    by (cases ys; cases "tl ys"; cases xs) auto
  have "(256 :: int) ^ (length xs - 1) \<le> 256 ^ length r" using l by (intro power_increasing) auto
  then show False
    using minimal_outside [OF assms(2) [unfolded ys]] assms(3) int_val_bounds [OF \<open>xs \<noteq> []\<close>]
    unfolding ys by linarith
qed

lemma int_val_inj_length:
  assumes "length xs = length ys" and "int_val xs = int_val ys"
  shows "xs = ys"
proof (cases xs)
  case Nil
  then show ?thesis using assms(1) by simp
next
  case (Cons b r)
  then obtain c t where ys: "ys = c # t" and l: "length r = length t" using assms(1) by (cases ys) auto
  define P :: int where "P = 256 ^ length t"
  have v: "int (be_val r) < P" "int (be_val t) < P" using be_val_lt [of r] be_val_lt [of t] l unfolding P_def
    by (metis of_nat_less_iff of_nat_numeral of_nat_power)+
  have e: "sint b * P + int (be_val r) = sint c * P + int (be_val t)"
    using assms(2) Cons ys l by (simp add: P_def)
  have "(sint b * P + int (be_val r)) div P = sint b" "(sint c * P + int (be_val t)) div P = sint c"
    using v by (simp_all add: P_def)
  then have "sint b = sint c" using e by simp
  moreover from this have "be_val r = be_val t" using e by simp
  moreover have "b = c" if "sint b = sint c" using that signed_word_eqI by blast
  ultimately show ?thesis using be_val_inj [OF l] Cons ys by simp
qed

theorem minimal_unique: "minimal xs \<Longrightarrow> minimal ys \<Longrightarrow> int_val xs = int_val ys \<Longrightarrow> xs = ys"
  using minimal_length_le [of xs ys] minimal_length_le [of ys xs] int_val_inj_length [of xs ys] by auto

lemma int_content_spec: "int_val (int_content i) = i \<and> minimal (int_content i)"
proof (induction i rule: int_content.induct)
  case (1 i)
  show ?case
  proof (cases "- 128 \<le> i \<and> i < 128")
    case True
    then have "sint (of_int i :: byte) = i"
      by (simp add: signed_of_int signed_take_bit_int_eq_self)
    then show ?thesis using True by (simp add: int_content.simps [of i] minimal_simps)
  next
    case False
    let ?c = "int_content (i div 256)"
    have IH: "int_val ?c = i div 256" "minimal ?c" using 1 [OF False] by auto
    have c: "int_content i = ?c @ [of_int i]" by (simp only: int_content.simps [of i] if_not_P [OF False])
    have ne: "?c \<noteq> []" using IH(2) by (auto simp: minimal_simps)
    have "int (unat (of_int i :: byte)) = i mod 256"
      by (simp only: uint_nat [symmetric]) (simp add: unsigned_of_int take_bit_eq_mod)
    then have v: "int_val (int_content i) = i"
      unfolding c int_val_snoc [OF ne] IH(1) by simp
    have "minimal (int_content i)"
    proof (cases "tl ?c")
      case Nil
      then obtain b where b: "?c = [b]" using ne by (cases ?c) auto
      have sb: "sint b = i div 256" using IH(1) b by simp
      let ?l = "of_int i :: byte"
      have ul: "int (unat ?l) = i mod 256" by fact
      show ?thesis unfolding c b append.simps minimal_simps
      proof (intro conjI notI)
        assume "b = 0 \<and> unat ?l < 128"
        then have "i div 256 = 0" "i mod 256 < 128" using sb ul by (auto simp del: of_nat_unat)
        then show False using False by presburger
      next
        assume "b = 0xff \<and> 128 \<le> unat ?l"
        then have "i div 256 = - 1" "128 \<le> i mod 256" using sb ul by (auto simp del: of_nat_unat)
        then show False using False by presburger
      qed
    next
      case (Cons x r)
      then obtain b where "?c = b # x # r" by (cases ?c) auto
      then show ?thesis using IH(2) unfolding c by (simp add: minimal_simps)
    qed
    with v show ?thesis by simp
  qed
qed

lemma minimal_iff_int_content: "minimal bs \<and> int_val bs = i \<longleftrightarrow> bs = int_content i"
  using int_content_spec [of i] minimal_unique [of bs "int_content i"] by auto

lemma length_int_content_le:
  assumes "1 \<le> k" and "- (128 * 256 ^ (k - 1)) \<le> i" and "i < 128 * 256 ^ (k - 1)"
  shows "length (int_content i) \<le> k"
proof (rule ccontr)
  assume n: "\<not> ?thesis"
  obtain b c r where l: "int_content i = b # c # r"
    using n assms(1) by (cases "int_content i"; cases "tl (int_content i)") auto
  have m: "minimal (b # c # r)" "int_val (b # c # r) = i" using int_content_spec [of i] l by auto
  have "k - 1 \<le> length r" using n l by simp
  then have "(256 :: int) ^ (k - 1) \<le> 256 ^ length r" by (intro power_increasing) auto
  then show False using minimal_outside [OF m(1)] m(2) assms(2,3) by linarith
qed

lemma length_int_content:
  assumes "- (2 ^ 63) \<le> i" and "i < 2 ^ 64"
  shows "length (int_content i) \<le> 9"
  by (rule length_int_content_le) (use assms in auto)

section \<open>The readers\<close>

lemma get_asn1_iff:
  "CBS_get_asn1 cbs t = (Some c, rest) \<longleftrightarrow> length c < 2 ^ 32 \<and> cbs = der_element (c, t) @ rest"
proof
  assume a: "CBS_get_asn1 cbs t = (Some c, rest)"
  then obtain e cbs' where e: "CBS_get_any_asn1_element cbs = (Some e, cbs')" "elem_tag e = t"
    and sk: "CBS_skip (elem_out e) (elem_header_len e) = (True, c)" "cbs' = rest"
    by (auto simp: CBS_get_asn1_def cbs_get_asn1_def split: prod.splits option.splits if_splits bool.splits)
  obtain c' where "der_valid (c', t)" "cbs = der_element (c', t) @ cbs'" "elem_out e = der_element (c', t)"
    "elem_header_len e = length (der_header t (length c'))"
    using get_element_canonical [OF e(1)] e(2) by metis
  then show "length c < 2 ^ 32 \<and> cbs = der_element (c, t) @ rest"
    using sk by (auto simp: CBS_skip_eq der_element_def der_valid_def)
next
  assume "length c < 2 ^ 32 \<and> cbs = der_element (c, t) @ rest"
  then show "CBS_get_asn1 cbs t = (Some c, rest)"
    using get_element_der [of c t rest]
    by (simp add: CBS_get_asn1_def cbs_get_asn1_def der_valid_def CBS_skip_eq) (simp add: der_element_def)
qed

lemma asn1_uint64_loop_iff:
  "asn1_uint64_loop out bs = Some v \<longleftrightarrow>
     unat out * 256 ^ length bs + be_val bs < 2 ^ 64 \<and> unat v = unat out * 256 ^ length bs + be_val bs"
proof (induction bs arbitrary: out)
  case Nil
  show ?case using unsigned_less [of out, where ?'a = nat] by (auto simp: word_unat_eq_iff)
next
  case (Cons b bs)
  show ?case
  proof (cases "drop_bit 56 out = 0")
    case True
    then have "unat out < 2 ^ 56" by (simp add: drop_bit_eq_0_iff_unat)
    then have "unat (push_bit 8 out OR ucast b) = unat out * 256 + unat b"
      using unat_push_or [of "ucast b :: uint64" 8 out] by (simp add: unat_ucast_up)
    then show ?thesis using True Cons [of "push_bit 8 out OR ucast b"]
      by (simp add: be_val_Cons algebra_simps)
  next
    case False
    then have "2 ^ 56 \<le> unat out" by (simp add: drop_bit_eq_0_iff_unat)
    then have "2 ^ 56 * (256 * 1) \<le> unat out * (256 * 256 ^ length bs)" by (intro mult_le_mono) auto
    then show ?thesis using False by simp
  qed
qed

lemma int_val_sign: "0 \<le> int_val (b # r) \<longleftrightarrow> unat b < 128"
proof (cases "unat b < 128")
  case False
  then have "sint b * 256 ^ length r \<le> - 1 * 256 ^ length r" by (intro mult_right_mono sint_byte_neg) auto
  moreover have "int (be_val r) < 256 ^ length r"
    using be_val_lt [of r] by (metis of_nat_less_iff of_nat_numeral of_nat_power)
  ultimately show ?thesis using False unfolding int_val_simps by linarith
qed (simp add: sint_byte)

lemma is_unsigned_iff: "CBS_is_unsigned_asn1_integer c \<longleftrightarrow> minimal c \<and> 0 \<le> int_val c"
proof (cases c)
  case (Cons b r)
  have "\<not> snd (CBS_is_valid_asn1_integer c) \<longleftrightarrow> unat b < 128"
    by (auto simp: CBS_is_valid_asn1_integer_def Cons byte_high_bit Let_def split: prod.splits option.splits)
  moreover have "0 \<le> int_val c \<longleftrightarrow> unat b < 128" unfolding Cons by (rule int_val_sign)
  ultimately show ?thesis
    by (simp add: CBS_is_unsigned_asn1_integer_def minimal_def split_beta)
qed (simp add: CBS_is_unsigned_asn1_integer_def minimal_def CBS_is_valid_asn1_integer_def)

lemma int_val_nonneg: "0 \<le> int_val c \<Longrightarrow> int_val c = int (be_val c)"
proof (cases c)
  case (Cons b r)
  assume "0 \<le> int_val c"
  then have "unat b < 128" unfolding Cons int_val_sign .
  then show ?thesis by (simp add: Cons sint_byte be_val_Cons)
qed simp

lemma get_asn1_uint64_iff:
  "CBS_get_asn1_uint64 cbs = (Some v, rest) \<longleftrightarrow>
     cbs = der_element (int_content (uint v), CBS_ASN1_INTEGER) @ rest"
proof -
  have v64: "unat v < 2 ^ 64" using unsigned_less [of v, where ?'a = nat] by simp
  have "CBS_get_asn1_uint64 cbs = (Some v, rest) \<longleftrightarrow>
      (\<exists>c. CBS_get_asn1 cbs CBS_ASN1_INTEGER = (Some c, rest) \<and> CBS_is_unsigned_asn1_integer c \<and>
           asn1_uint64_loop 0 c = Some v)"
    by (auto simp: CBS_get_asn1_uint64_def CBS_data_def split: prod.splits option.splits)
  also have "\<dots> \<longleftrightarrow> (\<exists>c. CBS_get_asn1 cbs CBS_ASN1_INTEGER = (Some c, rest) \<and> minimal c \<and> int_val c = uint v)"
  proof -
    have "CBS_is_unsigned_asn1_integer c \<and> asn1_uint64_loop 0 c = Some v \<longleftrightarrow> minimal c \<and> int_val c = uint v" for c
      using int_val_nonneg [of c] v64 unsigned_greater_eq [of v, where ?'a = int]
      by (auto simp: is_unsigned_iff asn1_uint64_loop_iff uint_nat simp del: of_nat_unat)
    then show ?thesis by auto
  qed
  also have "\<dots> \<longleftrightarrow> CBS_get_asn1 cbs CBS_ASN1_INTEGER = (Some (int_content (uint v)), rest)"
    by (auto simp: minimal_iff_int_content)
  also have "\<dots> \<longleftrightarrow> cbs = der_element (int_content (uint v), CBS_ASN1_INTEGER) @ rest"
  proof -
    have "- (2 ^ 63) \<le> uint v" by (rule order_trans [OF _ unsigned_greater_eq]) simp
    then have "length (int_content (uint v)) \<le> 9"
      by (rule length_int_content) (use unsigned_less [of v, where ?'a = int] in simp)
    then show ?thesis by (auto simp: get_asn1_iff)
  qed
  finally show ?thesis .
qed

lemma be_val_replicate_ff: "be_val (replicate k 0xff @ bs) + 256 ^ length bs = 256 ^ (k + length bs) + be_val bs"
  by (induction k) (simp_all add: be_val_Cons)

lemma be_val_replicate_0: "be_val (replicate k 0 @ bs) = be_val bs"
  by (induction k) (simp_all add: be_val_Cons)

lemma int64_fill:
  assumes "length c \<le> 8"
  shows "foldl (\<lambda>u i. u[i := c ! (length c - i - 1)]) (replicate 8 x) [0..<length c]
     = rev (replicate (8 - length c) x @ c)"
proof -
  have "k \<le> length c \<Longrightarrow> foldl (\<lambda>u i. u[i := c ! (length c - i - 1)]) (replicate 8 x) [0..<k]
     = take k (rev c) @ replicate (8 - k) x" for k
  proof (induction k)
    case (Suc k)
    then have "take (Suc k) (rev c) = take k (rev c) @ [c ! (length c - k - 1)]"
      by (simp add: take_Suc_conv_app_nth rev_nth)
    moreover have "replicate (8 - k) x = x # replicate (8 - Suc k) x"
      using Suc assms by (simp flip: replicate_Suc)
    ultimately show ?case using Suc by (simp add: list_update_append)
  qed simp
  from this [of "length c"] show ?thesis by simp
qed

lemma le_int64_fill:
  assumes m: "minimal c" and l: "length c \<le> 8"
  shows "sint (le_int64 (rev (replicate (8 - length c) (if int_val c < 0 then 0xff else 0) @ c))) = int_val c"
proof -
  let ?f = "if int_val c < 0 then 0xff else 0 :: byte"
  have ne: "c \<noteq> []" using m by (auto simp: minimal_simps)
  have "int (be_val (replicate (8 - length c) ?f @ c)) mod 2 ^ 64 = int_val c mod 2 ^ 64"
  proof (cases "int_val c < 0")
    case True
    obtain b r where c: "c = b # r" using ne by (cases c) auto
    have "int_val c = int (be_val c) - 256 ^ length c"
      using True int_val_sign [of b r] unfolding c by (simp add: sint_byte be_val_Cons algebra_simps)
    moreover have "be_val (replicate (8 - length c) 0xff @ c) + 256 ^ length c = 256 ^ 8 + be_val c"
      using be_val_replicate_ff [of "8 - length c" c] l by simp
    then have "int (be_val (replicate (8 - length c) 0xff @ c)) = 2 ^ 64 + (int (be_val c) - 256 ^ length c)"
      by (auto dest: arg_cong [of _ _ int])
    ultimately have "int (be_val (replicate (8 - length c) 0xff @ c)) = int_val c + 2 ^ 64" by simp
    then show ?thesis using True by (simp only: if_True mod_add_self2)
  next
    case False
    then show ?thesis using int_val_nonneg [of c] by (simp add: be_val_replicate_0)
  qed
  then have "le_int64 (rev (replicate (8 - length c) ?f @ c)) = of_int (int_val c)"
    unfolding le_int64_def rev_rev_ident
    using word_of_int_eq_iff [of "int (be_val (replicate (8 - length c) ?f @ c))" "int_val c", where ?'a = 64]
    by (simp add: take_bit_eq_mod)
  moreover have "(256 :: int) ^ (length c - 1) \<le> 256 ^ 7" using l by (intro power_increasing) auto
  then have "- (2 ^ 63) \<le> int_val c" "int_val c < 2 ^ 63" using int_val_bounds [OF ne] by auto
  ultimately show ?thesis by (simp add: signed_of_int signed_take_bit_int_eq_self)
qed

lemma get_asn1_int64_iff:
  "CBS_get_asn1_int64 cbs = (Some v, rest) \<longleftrightarrow>
     cbs = der_element (int_content (sint v), CBS_ASN1_INTEGER) @ rest"
proof -
  have neg: "snd (CBS_is_valid_asn1_integer c) \<longleftrightarrow> int_val c < 0" for c
  proof (cases c)
    case (Cons b r)
    then show ?thesis using int_val_sign [of b r]
      by (auto simp: CBS_is_valid_asn1_integer_def byte_high_bit Let_def simp del: int_val_simps
          split: prod.splits option.splits)
  qed (simp add: CBS_is_valid_asn1_integer_def)
  have "CBS_get_asn1_int64 cbs = (Some v, rest) \<longleftrightarrow>
      (\<exists>c. CBS_get_asn1 cbs CBS_ASN1_INTEGER = (Some c, rest) \<and> minimal c \<and> length c \<le> 8 \<and>
           le_int64 (rev (replicate (8 - length c) (if int_val c < 0 then 0xff else 0) @ c)) = v)"
  proof -
    have ok: "CBS_is_valid_asn1_integer c = (minimal c, int_val c < 0)" for c
      using neg [of c] by (simp add: minimal_def prod_eq_iff)
    obtain r cbs' where r: "CBS_get_asn1 cbs CBS_ASN1_INTEGER = (r, cbs')" by fastforce
    show ?thesis
    proof (cases r)
      case None
      then show ?thesis using r by (simp add: CBS_get_asn1_int64_def)
    next
      case (Some c)
      show ?thesis
      proof (cases "minimal c \<and> length c \<le> 8")
        case True
        then have "CBS_get_asn1_int64 cbs =
            (Some (le_int64 (rev (replicate (8 - length c) (if int_val c < 0 then 0xff else 0) @ c))), cbs')"
          using r Some int64_fill [of c]
          by (simp only: CBS_get_asn1_int64_def ok prod.case option.case bool.case Let_def
              CBS_data_def CBS_len_def not_less [THEN iffD2] if_False simp_thms)
        then show ?thesis using r Some True by auto
      next
        case False
        then show ?thesis using r Some
          by (auto simp: CBS_get_asn1_int64_def ok CBS_len_def Let_def split: bool.splits)
      qed
    qed
  qed
  also have "\<dots> \<longleftrightarrow> (\<exists>c. CBS_get_asn1 cbs CBS_ASN1_INTEGER = (Some c, rest) \<and> minimal c \<and> int_val c = sint v)"
  proof -
    have "minimal c \<and> length c \<le> 8 \<and>
          le_int64 (rev (replicate (8 - length c) (if int_val c < 0 then 0xff else 0) @ c)) = v
        \<longleftrightarrow> minimal c \<and> int_val c = sint v" (is "?L \<longleftrightarrow> ?R") for c
    proof
      assume ?L
      then show ?R using le_int64_fill [of c] by auto
    next
      assume R: ?R
      then have "length c \<le> 8"
        using length_int_content_le [of 8 "sint v"] sint_ge [of v] sint_lt [of v]
          minimal_iff_int_content [of c "sint v"] by auto
      then show ?L using R le_int64_fill [of c] signed_word_eqI by metis
    qed
    then show ?thesis by simp
  qed
  also have "\<dots> \<longleftrightarrow> cbs = der_element (int_content (sint v), CBS_ASN1_INTEGER) @ rest"
    using length_int_content_le [of 8 "sint v"] sint_ge [of v] sint_lt [of v]
    by (auto simp: minimal_iff_int_content get_asn1_iff)
  finally show ?thesis .
qed

lemma get_asn1_bool_iff:
  "CBS_get_asn1_bool cbs = (Some v, rest) \<longleftrightarrow>
     cbs = der_element ([if v then 0xff else 0], CBS_ASN1_BOOLEAN) @ rest"
proof -
  have "CBS_get_asn1_bool cbs = (Some v, rest) \<longleftrightarrow>
      (\<exists>c. CBS_get_asn1 cbs CBS_ASN1_BOOLEAN = (Some c, rest) \<and> c = [if v then 0xff else 0])"
    by (auto simp: CBS_get_asn1_bool_def CBS_data_def CBS_len_def Let_def length_Suc_conv
        split: prod.splits option.splits if_splits)
  then show ?thesis by (simp add: get_asn1_iff)
qed

section \<open>The writers\<close>

text \<open>The octets the loop of \<open>CBB_add_asn1_uint64\<close> sends to its child, and the closing zero.\<close>

fun uint64_octets :: "uint64 \<Rightarrow> nat \<Rightarrow> bool \<Rightarrow> byte list" where
  "uint64_octets v 0 started = (if started then [] else [0])"
| "uint64_octets v (Suc r) started =
     (let b = ucast (drop_bit (8 * r) v AND 0xff) :: byte in
      if started then b # uint64_octets v r True
      else if b = 0 then uint64_octets v r False
      else (if b AND 0x80 \<noteq> 0 then [0] else []) @ b # uint64_octets v r True)"

definition uint64_body :: "nat \<Rightarrow> uint64 \<Rightarrow> nat \<Rightarrow> bool \<Rightarrow> cbb_state \<Rightarrow> bool \<times> cbb_state" where
  "uint64_body d v r started s =
     (case add_uint64_loop d v r started s of
        (_, False, s') \<Rightarrow> (False, s')
      | (started', True, s') \<Rightarrow> if \<not> started' then CBB_add_u8 s' (Suc d) 0 else (True, s'))"

lemma writes_uint64_body: "writes (uint64_body d v r started) (Suc d) (uint64_octets v r started)"
proof (induction r arbitrary: started)
  case 0
  show ?case
  proof (cases started)
    case True
    then have "uint64_body d v 0 started = (\<lambda>s. (True, s))" by (intro ext) (simp add: uint64_body_def)
    then show ?thesis using True by (simp add: writes_Nil)
  next
    case False
    then have "uint64_body d v 0 started = (\<lambda>s. CBB_add_u8 s (Suc d) 0)" by (intro ext) (simp add: uint64_body_def)
    then show ?thesis using False by (simp add: writes_u8)
  qed
next
  case (Suc r)
  define b :: byte where "b = ucast (drop_bit (8 * r) v AND 0xff)"
  have w: "writes (then_op (\<lambda>s. CBB_add_u8 s (Suc d) b) (uint64_body d v r True)) (Suc d) (b # uint64_octets v r True)"
    using writes_then [OF writes_u8 Suc] by simp
  consider "started" | "\<not> started" "b = 0" | "\<not> started" "b \<noteq> 0" "b AND 0x80 = 0"
    | "\<not> started" "b AND 0x80 \<noteq> 0" by blast
  then show ?case
  proof cases
    case 1
    then have "uint64_body d v (Suc r) started = then_op (\<lambda>s. CBB_add_u8 s (Suc d) b) (uint64_body d v r True)"
      by (intro ext) (simp add: uint64_body_def then_op_def Let_def b_def [symmetric] split: prod.splits bool.splits)
    then show ?thesis using w 1 by (simp add: Let_def b_def [symmetric])
  next
    case 2
    then have "uint64_body d v (Suc r) started = uint64_body d v r False"
      by (intro ext) (simp add: uint64_body_def Let_def b_def [symmetric])
    then show ?thesis using Suc [of False] 2 by (simp add: Let_def b_def [symmetric])
  next
    case 3
    then have "uint64_body d v (Suc r) started = then_op (\<lambda>s. CBB_add_u8 s (Suc d) b) (uint64_body d v r True)"
      by (intro ext) (simp add: uint64_body_def then_op_def Let_def b_def [symmetric] split: prod.splits bool.splits)
    then show ?thesis using w 3 by (simp add: Let_def b_def [symmetric])
  next
    case 4
    then have "b \<noteq> 0" by auto
    then have "uint64_body d v (Suc r) started = then_op (\<lambda>s. CBB_add_u8 s (Suc d) 0)
        (then_op (\<lambda>s. CBB_add_u8 s (Suc d) b) (uint64_body d v r True))"
      using 4 by (intro ext) (simp add: uint64_body_def then_op_def Let_def b_def [symmetric] split: prod.splits bool.splits)
    then show ?thesis using writes_then [OF writes_u8 w] 4 \<open>b \<noteq> 0\<close> by (simp add: Let_def b_def [symmetric])
  qed
qed

lemma be_bytes_Cons: "be_bytes (Suc r) n = of_nat (n div 256 ^ r) # be_bytes r n"
proof (induction r arbitrary: n)
  case (Suc r)
  have "be_bytes (Suc (Suc r)) n = be_bytes (Suc r) (n div 256) @ [of_nat n]" by simp
  also have "\<dots> = of_nat (n div 256 ^ Suc r) # be_bytes r (n div 256) @ [of_nat n]"
    unfolding Suc [of "n div 256"] by (simp add: div_mult2_eq)
  finally show ?case by simp
qed simp

lemma octet_of_uint64:
  fixes v :: uint64
  shows "ucast (drop_bit (8 * r) v AND 0xff) = (of_nat (unat v div 256 ^ r) :: byte)"
proof (rule word_unat_eq_iff [THEN iffD2])
  have "unat (drop_bit (8 * r) v AND 0xff) = unat v div 256 ^ r mod 256"
    unfolding mask_lits unat_and_low unat_drop_bit by (simp add: power_mult)
  then show "unat (ucast (drop_bit (8 * r) v AND 0xff) :: byte) = unat (of_nat (unat v div 256 ^ r) :: byte)"
    unfolding unat_of_nat_byte by (simp add: unsigned_ucast_eq take_bit_eq_mod)
qed

lemma uint64_octets_started: "uint64_octets v r True = be_bytes r (unat v)"
  by (induction r) (simp_all only: uint64_octets.simps Let_def octet_of_uint64 be_bytes_Cons if_True, simp)

lemma uint64_octets_spec:
  "unat v < 256 ^ r \<Longrightarrow>
     minimal (uint64_octets v r False) \<and> be_val (uint64_octets v r False) = unat v \<and>
     unat (hd (uint64_octets v r False)) < 128"
proof (induction r)
  case (Suc r)
  define b :: byte where "b = of_nat (unat v div 256 ^ r)"
  have "unat v div 256 ^ r < 256" using Suc.prems by (simp add: less_mult_imp_div_less)
  then have b: "unat b = unat v div 256 ^ r" unfolding b_def unat_of_nat_byte by simp
  show ?case
  proof (cases "b = 0")
    case True
    then have "unat v < 256 ^ r" using b by (simp add: div_eq_0_iff)
    moreover have "uint64_octets v (Suc r) False = uint64_octets v r False"
      using True by (simp only: uint64_octets.simps Let_def octet_of_uint64 b_def [symmetric]) simp
    ultimately show ?thesis using Suc.IH by simp
  next
    case False
    let ?c = "b # be_bytes r (unat v)"
    have o: "uint64_octets v (Suc r) False = (if unat b < 128 then ?c else 0 # ?c)"
      using False
      by (simp only: uint64_octets.simps Let_def octet_of_uint64 b_def [symmetric] uint64_octets_started)
        (simp add: byte_high_bit)
    have v: "be_val ?c = unat v" 
      by (simp only: be_val_Cons be_val_be_bytes b length_be_bytes div_mult_mod_eq)
    have "b \<noteq> 0xff" if "unat b < 128" using that by auto
    then have "minimal ?c" if "unat b < 128" using that False
      by (cases "be_bytes r (unat v)") (auto simp: minimal_simps)
    then show ?thesis unfolding o using v by (auto simp: minimal_simps be_val_Cons)
  qed
qed (simp add: minimal_simps be_val_Cons)

lemma uint64_octets_eq: "uint64_octets v 8 False = int_content (uint v)"
proof -
  have "unat v < 256 ^ 8" using unsigned_less [of v, where ?'a = nat] by simp
  from uint64_octets_spec [OF this] obtain b r where o: "uint64_octets v 8 False = b # r"
    and m: "minimal (b # r)" "be_val (b # r) = unat v" "unat b < 128"
    by (cases "uint64_octets v 8 False") (auto simp: minimal_simps)
  have "int_val (b # r) = int (unat v)" using int_val_nonneg [of "b # r"] m int_val_sign [of b r] by metis
  then show ?thesis using minimal_iff_int_content [of "b # r" "uint v"] m(1) o by (simp add: uint_nat del: of_nat_unat)
qed

lemma writes_uint64:
  "writes (\<lambda>s. CBB_add_asn1_uint64 s d v) d (der_element (int_content (uint v), CBS_ASN1_INTEGER))"
proof -
  have "CBB_add_asn1_uint64 s d v = then_op (\<lambda>s. CBB_add_asn1 s d CBS_ASN1_INTEGER)
      (then_op (uint64_body d v 8 False) (\<lambda>s. CBB_flush s d)) s" for s
    by (simp add: CBB_add_asn1_uint64_def then_op_def uint64_body_def del: add_uint64_loop.simps
        split: prod.splits bool.splits)
  moreover have "length (int_content (uint v)) \<le> 9"
    by (rule length_int_content)
      (use unsigned_less [of v, where ?'a = int] in \<open>auto intro: order_trans [OF _ unsigned_greater_eq]\<close>)
  then have "writes (then_op (\<lambda>s. CBB_add_asn1 s d CBS_ASN1_INTEGER)
      (then_op (uint64_body d v 8 False) (\<lambda>s. CBB_flush s d))) d
      (der_element (int_content (uint v), CBS_ASN1_INTEGER))"
    using writes_asn1 [OF writes_uint64_body [of d v 8 False, unfolded uint64_octets_eq]] by simp
  ultimately show ?thesis by simp
qed

lemma writes_octets_down: "n \<le> length u \<Longrightarrow> writes (add_octets_down d u n) d (rev (take n u))"
proof (induction n)
  case 0
  have "add_octets_down d u 0 = (\<lambda>s. (True, s))" by (intro ext) simp
  then show ?case by (simp add: writes_Nil)
next
  case (Suc n)
  have "add_octets_down d u (Suc n) = then_op (\<lambda>s. CBB_add_u8 s d (u ! n)) (add_octets_down d u n)"
    by (intro ext) (simp add: then_op_def)
  moreover have "rev (take (Suc n) u) = [u ! n] @ rev (take n u)"
    using Suc.prems by (simp add: take_Suc_conv_app_nth)
  ultimately show ?case using writes_then [OF writes_u8 Suc.IH] Suc.prems by simp
qed

lemma int_val_ff: "128 \<le> unat b \<Longrightarrow> int_val (0xff # b # r) = int_val (b # r)"
proof -
  assume "128 \<le> unat b"
  moreover have "sint (0xff :: byte) = - 1" by simp
  ultimately show ?thesis unfolding int_val_simps be_val_Cons sint_byte [of b]
    by (simp add: algebra_simps)
qed

lemma int64_start_spec:
  assumes "i < length u" and "128 \<le> unat (u ! i)"
  shows "int64_start u i \<le> i \<and> minimal (rev (take (Suc (int64_start u i)) u)) \<and>
    int_val (rev (take (Suc (int64_start u i)) u)) = int_val (rev (take (Suc i) u))"
  using assms
proof (induction i)
  case 0
  then show ?case by (cases u) (simp_all add: minimal_simps)
next
  case (Suc i)
  have t: "rev (take (Suc (Suc i)) u) = u ! Suc i # u ! i # rev (take i u)"
    "rev (take (Suc i) u) = u ! i # rev (take i u)"
    using Suc.prems by (simp_all add: take_Suc_conv_app_nth)
  show ?case
  proof (cases "u ! Suc i = 0xff \<and> 128 \<le> unat (u ! i)")
    case True
    then have "int64_start u (Suc i) = int64_start u i" by (simp add: byte_high_bit)
    moreover have "int_val (rev (take (Suc (Suc i)) u)) = int_val (rev (take (Suc i) u))"
      using True int_val_ff unfolding t by metis
    ultimately show ?thesis using Suc True by simp
  next
    case False
    then have "int64_start u (Suc i) = Suc i" by (auto simp: byte_high_bit)
    moreover have "minimal (rev (take (Suc (Suc i)) u))"
      using False Suc.prems(2) unfolding t minimal_simps by auto
    ultimately show ?thesis by simp
  qed
qed

lemma int64_content_eq:
  assumes "sint v < 0"
  shows "rev (take (Suc (int64_start (int64_bytes v) 7)) (int64_bytes v)) = int_content (sint v)"
proof -
  let ?u = "int64_bytes v"
  have ru: "rev (take 8 ?u) = be_bytes (Suc 7) (unat v)" by (simp add: int64_bytes_def)
  have neg: "\<not> unat v < 2 ^ 63" using assms sint_unat [of v] by (auto split: if_splits)
  have v64: "unat v < 2 ^ 64" using unsigned_less [of v, where ?'a = nat] by simp
  define b :: byte where "b = of_nat (unat v div 256 ^ 7)"
  have "unat v div 256 ^ 7 < 256" using v64 by (simp add: less_mult_imp_div_less)
  then have ub: "unat b = unat v div 256 ^ 7" unfolding b_def unat_of_nat_byte by simp
  then have b: "128 \<le> unat b" using neg by (simp add: less_eq_div_iff_mult_less_eq)
  have "?u = rev (be_bytes 7 (unat v)) @ [b]"
    unfolding int64_bytes_def b_def using be_bytes_Cons [of 7 "unat v"] by simp
  then have "?u ! 7 = b" by (simp add: nth_append)
  then have s: "minimal (rev (take (Suc (int64_start ?u 7)) ?u))"
      "int_val (rev (take (Suc (int64_start ?u 7)) ?u)) = int_val (rev (take 8 ?u))"
    using int64_start_spec [of 7 ?u] b by (auto simp: int64_bytes_def)
  have "int_val (rev (take 8 ?u)) = sint b * 256 ^ 7 + int (unat v mod 256 ^ 7)"
    unfolding ru be_bytes_Cons b_def [symmetric] int_val_simps be_val_be_bytes length_be_bytes ..
  also have "\<dots> = int (unat v div 256 ^ 7 * 256 ^ 7 + unat v mod 256 ^ 7) - 2 ^ 64"
    using b unfolding of_nat_add of_nat_mult ub [symmetric] by (simp add: sint_byte algebra_simps)
  also have "\<dots> = sint v" unfolding div_mult_mod_eq using neg sint_unat [of v] by simp
  finally show ?thesis using s minimal_iff_int_content by metis
qed

lemma writes_int64:
  "writes (\<lambda>s. CBB_add_asn1_int64 s d v) d (der_element (int_content (sint v), CBS_ASN1_INTEGER))"
proof (cases "0 \<le> sint v")
  case True
  then have "sint v = uint v"
  proof -
    have "unat v < 2 ^ LENGTH(64)" by (rule unsigned_less)
    then have "unat v < 2 ^ (LENGTH(64) - 1)" using True sint_unat [of v] by (cases "unat v < 2 ^ (LENGTH(64) - 1)") (auto simp del: of_nat_unat)
    then show ?thesis using sint_unat [of v] by (simp only: if_True uint_nat)
  qed
  then show ?thesis using True writes_uint64 [of d v] by (simp add: CBB_add_asn1_int64_def)
next
  case False
  let ?u = "int64_bytes v"
  have "int64_start u i \<le> i" for u i by (induction i) (auto split: if_splits)
  then have "Suc (int64_start ?u 7) \<le> length ?u" by (simp add: int64_bytes_def le_imp_less_Suc)
  then have w: "writes (add_octets_down (Suc d) ?u (Suc (int64_start ?u 7))) (Suc d) (int_content (sint v))"
    using writes_octets_down [of "Suc (int64_start ?u 7)" ?u "Suc d"] int64_content_eq [of v] False by simp
  have "length (int_content (sint v)) \<le> 8"
    using length_int_content_le [of 8 "sint v"] sint_ge [of v] sint_lt [of v] by simp
  then have "writes (then_op (\<lambda>s. CBB_add_asn1 s d CBS_ASN1_INTEGER)
      (then_op (add_octets_down (Suc d) ?u (Suc (int64_start ?u 7))) (\<lambda>s. CBB_flush s d))) d
      (der_element (int_content (sint v), CBS_ASN1_INTEGER))"
    using writes_asn1 [OF w] by simp
  moreover have "CBB_add_asn1_int64 s d v = then_op (\<lambda>s. CBB_add_asn1 s d CBS_ASN1_INTEGER)
      (then_op (add_octets_down (Suc d) ?u (Suc (int64_start ?u 7))) (\<lambda>s. CBB_flush s d)) s" for s
    using False by (simp add: CBB_add_asn1_int64_def then_op_def Let_def del: add_octets_down.simps
        split: prod.splits bool.splits)
  ultimately show ?thesis by simp
qed

lemma writes_bool:
  "writes (\<lambda>s. CBB_add_asn1_bool s d v) d (der_element ([if v \<noteq> 0 then 0xff else 0], CBS_ASN1_BOOLEAN))"
  unfolding CBB_add_asn1_bool_def
  by (rule writes_asn1 [OF writes_u8]) simp

lemma writes_octet_string:
  assumes "length data \<le> 0xfffffffe"
  shows "writes (\<lambda>s. CBB_add_asn1_octet_string s d data) d (der_element (data, CBS_ASN1_OCTETSTRING))"
  unfolding CBB_add_asn1_octet_string_def
  by (rule writes_asn1 [OF writes_bytes]) (use assms in \<open>simp_all add: size_max1_def\<close>)

section \<open>From \<open>CBB_init\<close> to \<open>CBB_finish\<close>\<close>

text \<open>
  The way a client uses a builder: \<open>CBB_init\<close>, some operations on the top-level object,
  \<open>CBB_finish\<close> with both out-pointers. \<open>None\<close> when one of the calls fails, else the
  \<open>*out_len\<close> bytes at \<open>*out_data\<close>.
\<close>

definition build_with :: "allocator \<Rightarrow> nat \<Rightarrow> (cbb_state \<Rightarrow> bool \<times> cbb_state) \<Rightarrow> byte list option" where
  "build_with al initial_capacity f =
     (case CBB_init al initial_capacity of
        (False, _, _) \<Rightarrow> None
      | (True, s, _) \<Rightarrow>
          (case f s of
             (False, _) \<Rightarrow> None
           | (True, s') \<Rightarrow>
               (case CBB_finish s' 0 False of
                  (None, _) \<Rightarrow> None
                | (Some (p, n), _) \<Rightarrow> Some (take n (case p of None \<Rightarrow> [] | Some d \<Rightarrow> d)))))"

lemma CBB_init_ready:
  assumes "CBB_init al n = (True, s, al')" and "n < size_max1"
  obtains b where "ready s 0 b" and "content b = []" and "can_resize b"
    and "never_fails al \<Longrightarrow> never_fails (alloc b)" and "chain s = [cbb_zero]" and "len b = 0"
proof -
  obtain bf al1 where m: "OPENSSL_malloc al n = (bf, al1)" by fastforce
  have nn: "\<not> (n > 0 \<and> bf = None)" using assms(1) m by (auto simp: CBB_init_def split: if_splits)
  then have i: "cbb_init al1 bf n = (True, s, al')" using assms(1) m by (auto simp: CBB_init_def split: if_splits)
  obtain q al2 where m2: "OPENSSL_malloc al1 sizeof_cbb_buffer = (Some q, al2)"
    using i by (auto simp: cbb_init_def split: prod.splits option.splits)
  let ?b = "\<lparr>buf = bf, len = 0, cap = n, can_resize = True, err = False, alloc = al2\<rparr>"
  have s: "s = CBB_zero\<lparr>base := Some ?b\<rparr>" using i m2 by (auto simp: cbb_init_def)
  have "length (buf_bytes ?b) = n"
    using nn m OPENSSL_malloc_length [of al n _ al1] assms(2)
    by (cases bf) (auto simp: buf_bytes_def)
  then have "buffer_ok ?b" using assms(2) by (simp add: buffer_ok_def)
  moreover have "never_fails al2" if "never_fails al"
    using that m m2 by (auto simp: never_fails_def OPENSSL_malloc_def libc_malloc_def split: if_splits prod.splits)
  ultimately show thesis
    using s by (intro that [of ?b]) (auto simp: ready_def CBB_zero_def content_def)
qed

lemma CBB_init_total:
  assumes "never_fails al" and "n + 8 < size_max1"
  obtains s al' where "CBB_init al n = (True, s, al')"
proof -
  obtain p al1 where m: "OPENSSL_malloc al n = (Some p, al1)" "never_fails al1"
    using OPENSSL_malloc_total [OF assms] by blast
  moreover obtain q al2 where "OPENSSL_malloc al1 sizeof_cbb_buffer = (Some q, al2)"
  proof -
    have "sizeof_cbb_buffer + 8 < size_max1" by (simp add: sizeof_cbb_buffer_def size_max1_def)
    then show ?thesis using OPENSSL_malloc_total [OF m(2)] that by blast
  qed
  ultimately show thesis using that by (simp add: CBB_init_def cbb_init_def)
qed

lemma CBB_finish_ready:
  assumes "ready s 0 b" and "chain s = [cbb_zero]"
  shows "CBB_finish s 0 False = (Some (buf b, len b), s\<lparr>base := None\<rparr>)"
  using assms by (simp add: CBB_finish_def ready_flush) (simp add: ready_def CBB_cleanup_def cbb_zero_def)

lemma build_with_Some:
  assumes w: "writes f 0 bs" and n: "n < size_max1" and r: "build_with al n f = Some out"
  shows "out = bs"
proof -
  obtain s al' s' where i: "CBB_init al n = (True, s, al')" and f: "f s = (True, s')"
    using r by (auto simp: build_with_def split: prod.splits bool.splits)
  obtain b where b: "ready s 0 b" "content b = []" "chain s = [cbb_zero]" using CBB_init_ready [OF i n] by metis
  obtain b' where b': "ready s' 0 b'" "content b' = bs" "chain s' = [cbb_zero]"
    using writes_extends [OF w b(1) f] b by (auto simp: extends_def ready_def)
  show ?thesis
    using r b' by (simp add: build_with_def i f CBB_finish_ready [OF b'(1,3)] content_def buf_bytes_def)
qed

lemma build_with_total:
  assumes w: "writes f 0 bs" and n: "n + 8 < size_max1" and a: "never_fails al" and l: "length bs < 2 ^ 62"
  shows "build_with al n f = Some bs"
proof -
  obtain s al' where i: "CBB_init al n = (True, s, al')" using CBB_init_total [OF a n] by blast
  obtain b where b: "ready s 0 b" "content b = []" "chain s = [cbb_zero]" "can_resize b" "never_fails (alloc b)" "len b = 0"
    using CBB_init_ready [OF i] n a by (metis add_lessD1)
  have "roomy s (length bs)" using b l by (auto simp: roomy_def ready_def)
  then obtain s' where f: "f s = (True, s')" "extends s 0 bs s'"
    using writes_succeeds [OF w b(1) order_refl] by blast
  obtain b' where b': "ready s' 0 b'" "content b' = bs" "chain s' = [cbb_zero]"
    using f(2) b by (auto simp: extends_def ready_def)
  show ?thesis
    using b' by (simp add: build_with_def i f(1) CBB_finish_ready [OF b'(1,3)] content_def buf_bytes_def)
qed

lemma length_der_element_le: "length (der_element (c, t)) \<le> 2 ^ 29 + 6 + length c"
  using length_der_header [of t "length c"] by (simp add: der_element_def)

lemma length_int64_element: "length (der_element (int_content (sint (v :: int64)), t)) < 2 ^ 62"
  using length_der_element_le [of "int_content (sint v)" t] length_int_content_le [of 8 "sint v"]
    sint_ge [of v] sint_lt [of v] by simp

lemma length_uint64_element: "length (der_element (int_content (uint (v :: uint64)), t)) < 2 ^ 62"
proof -
  have "length (int_content (uint v)) \<le> 9"
    by (rule length_int_content)
      (use unsigned_less [of v, where ?'a = int] in \<open>auto intro: order_trans [OF _ unsigned_greater_eq]\<close>)
  then show ?thesis using length_der_element_le [of "int_content (uint v)" t] by simp
qed

section \<open>Properties\<close>

text \<open>whatever signed 64-bit value is written by \<open>CBB_add_asn1_int64\<close> into a fresh builder, the
  builder succeeds when allocation does, yields the DER INTEGER with the shortest two's complement
  contents, and \<open>CBS_get_asn1_int64\<close> reads the value back, leaving what follows.\<close>

theorem int64_roundtrip:
  assumes "never_fails al" and "k + 8 < size_max1"
  shows "\<exists>der. build_with al k (\<lambda>s. CBB_add_asn1_int64 s 0 v) = Some der \<and>
           der = der_element (int_content (sint v), CBS_ASN1_INTEGER) \<and>
           CBS_get_asn1_int64 (der @ rest) = (Some v, rest)"
  using build_with_total [OF writes_int64 assms(2,1) length_int64_element] by (simp add: get_asn1_int64_iff)

theorem int64_roundtrip_witness:
  "build_with plentiful 4 (\<lambda>s. CBB_add_asn1_int64 s 0 (- 129)) = Some [2, 2, 0xff, 0x7f] \<and>
   CBS_get_asn1_int64 [2, 2, 0xff, 0x7f, 7] = (Some (- 129), [7])"
proof -
  have "der_element (int_content (sint (- 129 :: int64)), CBS_ASN1_INTEGER) = [2, 2, 0xff, 0x7f]"
    by (simp add: int_content.simps der_element_def der_header_def der_tag_bytes_def der_len_bytes_def
        CBS_ASN1_INTEGER_def)
  then show ?thesis
    using int64_roundtrip [OF plentiful_never_fails, of 4 "- 129" "[7]"] by (simp add: size_max1_def)
qed

text \<open>C1: the same for unsigned 64-bit values with \<open>CBB_add_asn1_uint64\<close> and
  \<open>CBS_get_asn1_uint64\<close>; a value with its top bit set is preceded by a zero octet.\<close>

theorem uint64_roundtrip:
  assumes "never_fails al" and "k + 8 < size_max1"
  shows "\<exists>der. build_with al k (\<lambda>s. CBB_add_asn1_uint64 s 0 v) = Some der \<and>
           der = der_element (int_content (uint v), CBS_ASN1_INTEGER) \<and>
           CBS_get_asn1_uint64 (der @ rest) = (Some v, rest)"
  using build_with_total [OF writes_uint64 assms(2,1) length_uint64_element] by (simp add: get_asn1_uint64_iff)

theorem uint64_roundtrip_witness:
  "build_with plentiful 0 (\<lambda>s. CBB_add_asn1_uint64 s 0 0x80) = Some [2, 2, 0, 0x80] \<and>
   CBS_get_asn1_uint64 [2, 2, 0, 0x80, 7] = (Some 0x80, [7])"
  using uint64_roundtrip [OF plentiful_never_fails, of 0 "0x80" "[7]"]
  by (simp add: size_max1_def int_content.simps der_element_def der_header_def der_tag_bytes_def
      der_len_bytes_def CBS_ASN1_INTEGER_def)

text \<open>C2: \<open>CBS_get_asn1_int64\<close> and \<open>CBS_get_asn1_uint64\<close> accept exactly the DER encoding of a
  value in their range: no other tag, length form or padded contents, for any input.\<close>

theorem integer_readers_exact:
  "(CBS_get_asn1_int64 cbs = (Some i, rest) \<longleftrightarrow> cbs = der_element (int_content (sint i), CBS_ASN1_INTEGER) @ rest) \<and>
   (CBS_get_asn1_uint64 cbs = (Some u, rest) \<longleftrightarrow> cbs = der_element (int_content (uint u), CBS_ASN1_INTEGER) @ rest)"
  by (simp add: get_asn1_int64_iff get_asn1_uint64_iff)

end
