(* ===== verification/Oid.thy ===== *)
theory Oid
  imports Asn1_Int
begin

text \<open>
  OBJECT IDENTIFIER contents and their dotted text: \<open>parse_dotted_decimal\<close> and
  \<open>CBB_add_asn1_oid_from_text\<close> of \<open>crypto/bytestring/cbb.c\<close>, \<open>add_decimal\<close> and
  \<open>CBS_asn1_oid_to_text\<close> of \<open>cbs.c\<close>. The two are shown to be inverse to each other, and
  each is shown to accept canonical input only.
\<close>

section \<open>The code\<close>

definition UINT64_MAX :: uint64 where
  "UINT64_MAX = 0xffffffffffffffff"

text \<open>The loop of \<open>parse_dotted_decimal\<close> with \<open>*out\<close> and \<open>seen_digit\<close>; \<open>0x2e\<close> is the dot.\<close>

fun dotted_decimal_loop :: "uint64 \<Rightarrow> bool \<Rightarrow> cbs \<Rightarrow> uint64 option \<times> cbs" where
  "dotted_decimal_loop out seen_digit [] = ((if seen_digit then Some out else None), [])"
| "dotted_decimal_loop out seen_digit (u # cbs) =
     (if u = 0x2e \<and> CBS_len cbs > 0 then ((if seen_digit then Some out else None), cbs)
      else if u < 0x30 \<or> u > 0x39 \<or> (seen_digit \<and> out = 0) \<or> out > UINT64_MAX div 10 \<or>
              out * 10 > UINT64_MAX - ucast (u - 0x30)
      then (None, cbs)
      else dotted_decimal_loop (out * 10 + ucast (u - 0x30)) True cbs)"

definition parse_dotted_decimal :: "cbs \<Rightarrow> uint64 option \<times> cbs" where
  "parse_dotted_decimal cbs = dotted_decimal_loop 0 False cbs"

lemma dotted_decimal_loop_length:
  "dotted_decimal_loop out seen cbs = (Some v, cbs') \<Longrightarrow> cbs \<noteq> [] \<Longrightarrow> length cbs' < length cbs"
proof (induction out seen cbs rule: dotted_decimal_loop.induct)
  case (2 out seen u cbs)
  show ?case
  proof (cases "cbs = []")
    case True
    then show ?thesis using "2.prems" by (auto split: if_splits)
  next
    case False
    then show ?thesis using 2 by (auto split: if_splits)
  qed
qed simp

function oid_text_loop :: "nat \<Rightarrow> cbs \<Rightarrow> cbb_state \<Rightarrow> bool \<times> cbb_state" where
  "oid_text_loop d cbs s =
     (if CBS_len cbs = 0 then (True, s)
      else case parse_dotted_decimal cbs of
        (None, _) \<Rightarrow> (False, s)
      | (Some a, cbs') \<Rightarrow>
          (case add_base128_integer s d a of
             (False, s') \<Rightarrow> (False, s')
           | (True, s') \<Rightarrow> oid_text_loop d cbs' s'))"
  by pat_completeness auto
termination
  by (relation "measure (\<lambda>(d, cbs, s). length cbs)")
    (auto simp: parse_dotted_decimal_def CBS_len_def dest: dotted_decimal_loop_length [OF sym])

declare oid_text_loop.simps [simp del]

definition CBB_add_asn1_oid_from_text :: "cbb_state \<Rightarrow> nat \<Rightarrow> byte list \<Rightarrow> nat \<Rightarrow> bool \<times> cbb_state" where
  "CBB_add_asn1_oid_from_text s d text text_len =
     (case CBB_flush s d of
        (False, s') \<Rightarrow> (False, s')
      | (True, s') \<Rightarrow>
     (case parse_dotted_decimal (CBS_init text text_len) of
        (None, _) \<Rightarrow> (False, s')
      | (Some a, cbs) \<Rightarrow>
     (case parse_dotted_decimal cbs of
        (None, _) \<Rightarrow> (False, s')
      | (Some b, cbs) \<Rightarrow>
          if a > 2 \<or> (a < 2 \<and> b > 39) \<or> b > UINT64_MAX - 80 then (False, s')
          else (case add_base128_integer s' d (40 * a + b) of
                  (False, s'') \<Rightarrow> (False, s'')
                | (True, s'') \<Rightarrow> oid_text_loop d cbs s''))))"

text \<open>
  The decimal digits that \<open>snprintf\<close> prints for \<open>%PRIu64\<close>, and the size of the local
  buffer, \<open>DECIMAL_SIZE(uint64_t) + 1\<close>, of which the last byte is for the NUL.
\<close>

fun decimal :: "nat \<Rightarrow> byte list" where
  "decimal n = (if n < 10 then [of_nat (0x30 + n)] else decimal (n div 10) @ [of_nat (0x30 + n mod 10)])"

declare decimal.simps [simp del]

definition DECIMAL_SIZE_uint64 :: nat where
  "DECIMAL_SIZE_uint64 = (8 * 8 + 2) div 3 + 1"

definition add_decimal :: "cbb_state \<Rightarrow> nat \<Rightarrow> uint64 \<Rightarrow> bool \<times> cbb_state" where
  "add_decimal s d v = CBB_add_bytes s d (take DECIMAL_SIZE_uint64 (decimal (unat v)))"

lemma base128_bytes_ne: "base128_bytes n \<noteq> []"
  by (simp add: base128_bytes_def)

lemma parse_base128_length:
  "parse_base128_integer cbs = (Some v, cbs') \<Longrightarrow> length cbs' < length cbs"
  using base128.enc_dec [of cbs v cbs'] by (auto simp: base128_bytes_def)

function oid_der_loop :: "cbs \<Rightarrow> cbb_state \<Rightarrow> bool \<times> cbb_state" where
  "oid_der_loop copy s =
     (if CBS_len copy = 0 then (True, s)
      else case parse_base128_integer copy of
        (None, _) \<Rightarrow> (False, s)
      | (Some v, copy') \<Rightarrow>
          (case then_op (\<lambda>s. CBB_add_u8 s 0 0x2e) (\<lambda>s. add_decimal s 0 v) s of
             (False, s') \<Rightarrow> (False, s')
           | (True, s') \<Rightarrow> oid_der_loop copy' s'))"
  by pat_completeness auto
termination
  by (relation "measure (\<lambda>(copy, s). length copy)") (auto dest: parse_base128_length [OF sym])

declare oid_der_loop.simps [simp del]

text \<open>What is written between \<open>CBB_init\<close> and \<open>CBB_finish\<close>.\<close>

definition oid_text_body :: "cbs \<Rightarrow> cbb_state \<Rightarrow> bool \<times> cbb_state" where
  "oid_text_body cbs s =
     (case parse_base128_integer cbs of
        (None, _) \<Rightarrow> (False, s)
      | (Some v, copy) \<Rightarrow>
          then_op
            (if v \<ge> 80 then then_op (\<lambda>s. CBB_add_bytes s 0 [0x32, 0x2e]) (\<lambda>s. add_decimal s 0 (v - 80))
             else then_op (\<lambda>s. add_decimal s 0 (v div 40))
                    (then_op (\<lambda>s. CBB_add_u8 s 0 0x2e) (\<lambda>s. add_decimal s 0 (v mod 40))))
            (then_op (oid_der_loop copy) (\<lambda>s. CBB_add_u8 s 0 0)) s)"

text \<open>The string returned, as the \<open>txt_len\<close> bytes of its block; \<open>None\<close> is NULL.\<close>

definition CBS_asn1_oid_to_text :: "allocator \<Rightarrow> cbs \<Rightarrow> byte list option" where
  "CBS_asn1_oid_to_text al cbs =
     (case CBB_init al 32 of
        (False, _, _) \<Rightarrow> None
      | (True, s, _) \<Rightarrow>
          (case oid_text_body cbs s of
             (False, _) \<Rightarrow> None
           | (True, s') \<Rightarrow>
               (case CBB_finish s' 0 False of
                  (None, _) \<Rightarrow> None
                | (Some (txt, txt_len), _) \<Rightarrow> map_option (take txt_len) txt)))"

section \<open>Text\<close>

text \<open>
  The reference: the components of an identifier, their text, and their contents octets.
\<close>

definition dot_join :: "byte list \<Rightarrow> byte list \<Rightarrow> byte list" where
  "dot_join p rest = (if rest = [] then p else p @ 0x2e # rest)"

fun oid_text :: "uint64 list \<Rightarrow> byte list" where
  "oid_text [] = []"
| "oid_text (n # ns) = dot_join (decimal (unat n)) (oid_text ns)"

fun oid_contents :: "uint64 list \<Rightarrow> byte list" where
  "oid_contents (a # b # ns) = base128_bytes (unat (40 * a + b)) @ concat (map (\<lambda>n. base128_bytes (unat n)) ns)"
| "oid_contents _ = []"

definition oid_valid :: "uint64 list \<Rightarrow> bool" where
  "oid_valid ns = (case ns of a # b # _ \<Rightarrow> a \<le> 2 \<and> (a < 2 \<longrightarrow> b \<le> 39) \<and> b \<le> UINT64_MAX - 80 | _ \<Rightarrow> False)"

lemma decimal_ne [simp]: "decimal n \<noteq> []"
  by (subst decimal.simps) simp

lemma dot_join_eq_Nil [simp]: "dot_join p rest = [] \<longleftrightarrow> p = [] \<and> rest = []"
  by (simp add: dot_join_def)

lemma oid_text_eq_Nil [simp]: "oid_text ns = [] \<longleftrightarrow> ns = []"
  by (cases ns) simp_all

lemma UINT64_MAX_unat: "unat UINT64_MAX = 2 ^ 64 - 1" "unat (UINT64_MAX div 10) = (2 ^ 64 - 1) div 10"
  by (simp_all add: UINT64_MAX_def unat_div)

lemma digit_no_overflow:
  fixes out :: uint64 and u :: byte
  assumes "0x30 \<le> u" and "u \<le> 0x39"
  shows "\<not> (out > UINT64_MAX div 10 \<or> out * 10 > UINT64_MAX - ucast (u - 0x30)) \<longleftrightarrow>
      unat out * 10 + (unat u - 0x30) < 2 ^ 64"
    and "unat out * 10 + (unat u - 0x30) < 2 ^ 64 \<Longrightarrow>
      unat (out * 10 + ucast (u - 0x30)) = unat out * 10 + (unat u - 0x30)"
proof -
  have uu: "0x30 \<le> unat u" "unat u \<le> 0x39" using assms by (simp_all add: word_le_nat_alt)
  have k: "unat (ucast (u - 0x30) :: uint64) = unat u - 0x30"
    using assms(1) by (simp add: unat_ucast_up unat_sub)
  have le: "ucast (u - 0x30) \<le> UINT64_MAX" by (simp add: UINT64_MAX_def word_le_nat_alt k) (use uu in linarith)
  have m: "unat (UINT64_MAX - ucast (u - 0x30)) = 2 ^ 64 - 1 - (unat u - 0x30)"
    using unat_sub [OF le] by (simp add: UINT64_MAX_unat k)
  have t: "unat (out * 10) = unat out * 10" if "unat out * 10 < 2 ^ 64"
    using that by (simp add: unat_word_ariths)
  show "\<not> (out > UINT64_MAX div 10 \<or> out * 10 > UINT64_MAX - ucast (u - 0x30)) \<longleftrightarrow>
      unat out * 10 + (unat u - 0x30) < 2 ^ 64"
  proof (cases "out > UINT64_MAX div 10")
    case True
    then have "(2 ^ 64 - 1) div 10 < unat out" by (simp only: word_less_nat_alt UINT64_MAX_unat)
    then have "\<not> unat out * 10 < 2 ^ 64" by simp
    then show ?thesis using True by simp
  next
    case False
    then have "unat out \<le> (2 ^ 64 - 1) div 10" by (simp only: word_less_nat_alt UINT64_MAX_unat not_less)
    then have lt: "unat out * 10 < 2 ^ 64" by simp
    then have "out * 10 > UINT64_MAX - ucast (u - 0x30) \<longleftrightarrow> 2 ^ 64 - 1 - (unat u - 0x30) < unat out * 10"
      by (simp only: word_less_nat_alt m t)
    then show ?thesis using False uu by (simp, linarith)
  qed
  show "unat (out * 10 + ucast (u - 0x30)) = unat out * 10 + (unat u - 0x30)"
    if "unat out * 10 + (unat u - 0x30) < 2 ^ 64"
  proof -
    have "unat (out * 10) = unat out * 10" using that t by linarith
    then show ?thesis using that k by (simp add: unat_word_ariths)
  qed
qed

lemma digit_byte:
  assumes "k < 10"
  shows "\<not> (of_nat (0x30 + k) :: byte) < 0x30" "\<not> (of_nat (0x30 + k) :: byte) > 0x39"
    "(of_nat (0x30 + k) :: byte) \<noteq> 0x2e" "unat (of_nat (0x30 + k) :: byte) - 0x30 = k"
proof -
  have u: "unat (of_nat (0x30 + k) :: byte) = 0x30 + k" unfolding unat_of_nat_byte using assms by simp
  show "\<not> (of_nat (0x30 + k) :: byte) < 0x30" "\<not> (of_nat (0x30 + k) :: byte) > 0x39"
    "(of_nat (0x30 + k) :: byte) \<noteq> 0x2e" "unat (of_nat (0x30 + k) :: byte) - 0x30 = k"
    using assms unfolding word_less_nat_alt word_unat_eq_iff u by simp_all
qed

lemma dotted_decimal_digit:
  assumes "k < 10" and "seen \<longrightarrow> out \<noteq> 0" and "unat out * 10 + k < 2 ^ 64"
  shows "dotted_decimal_loop out seen (of_nat (0x30 + k) # rest) =
    dotted_decimal_loop (of_nat (unat out * 10 + k)) True rest"
proof -
  define u where "u = (of_nat (0x30 + k) :: byte)"
  note d = digit_byte [OF assms(1), folded u_def]
  have le: "0x30 \<le> u" "u \<le> 0x39" using d(1,2) by (simp_all only: not_less)
  have n: "\<not> (out > UINT64_MAX div 10 \<or> out * 10 > UINT64_MAX - ucast (u - 0x30))"
    and s: "unat (out * 10 + ucast (u - 0x30)) = unat out * 10 + k"
    using digit_no_overflow [OF le, of out] assms(3) unfolding d(4) by blast+
  have "out * 10 + ucast (u - 0x30) = of_nat (unat out * 10 + k)" by (rule unat_eq_of_nat [OF s])
  moreover have "dotted_decimal_loop out seen (u # rest) = dotted_decimal_loop (out * 10 + ucast (u - 0x30)) True rest"
    using d(1-3) n assms(2) by auto
  ultimately show ?thesis unfolding u_def by metis
qed

lemma dotted_decimal_decimal:
  "n < 2 ^ 64 \<Longrightarrow> dotted_decimal_loop 0 False (decimal n @ rest) = dotted_decimal_loop (of_nat n) True rest"
proof (induction n arbitrary: rest rule: decimal.induct)
  case (1 n)
  show ?case
  proof (cases "n < 10")
    case True
    then show ?thesis using dotted_decimal_digit [of n False 0 rest]
      by (simp only: decimal.simps [of n] if_True append.simps) simp
  next
    case False
    let ?m = "of_nat (n div 10) :: uint64"
    have m: "unat ?m = n div 10" using "1.prems" by (simp add: unat_of_nat)
    have d: "decimal n = decimal (n div 10) @ [of_nat (0x30 + n mod 10)]"
      using False by (simp only: decimal.simps [of n] if_False)
    have "?m \<noteq> 0" using False m by (auto simp: word_unat_eq_iff)
    then have "dotted_decimal_loop ?m True (of_nat (0x30 + n mod 10) # rest) = dotted_decimal_loop (of_nat n) True rest"
      using dotted_decimal_digit [of "n mod 10" True ?m rest] "1.prems" unfolding m by simp
    moreover have "n div 10 < 2 ^ 64" using "1.prems" by linarith
    ultimately show ?thesis using "1.IH" [OF False] unfolding d by simp
  qed
qed

lemma dotted_decimal_canonical:
  "dotted_decimal_loop out seen cbs = (Some v, rest) \<Longrightarrow> seen \<or> out = 0 \<Longrightarrow>
     \<exists>p. cbs = dot_join p rest \<and> (if seen then decimal (unat out) else []) @ p = decimal (unat v)"
proof (induction out seen cbs rule: dotted_decimal_loop.induct)
  case (1 out seen)
  then show ?case by (auto simp: dot_join_def split: if_splits)
next
  case (2 out seen u cbs)
  show ?case
  proof (cases "u = 0x2e \<and> CBS_len cbs > 0")
    case True
    then show ?thesis using "2.prems" by (auto simp: dot_join_def CBS_len_def split: if_splits)
  next
    case False
    let ?o = "out * 10 + ucast (u - 0x30) :: uint64"
    have g: "\<not> u < 0x30" "\<not> u > 0x39" "\<not> (seen \<and> out = 0)"
      "\<not> (out > UINT64_MAX div 10 \<or> out * 10 > UINT64_MAX - ucast (u - 0x30))"
      and r: "dotted_decimal_loop ?o True cbs = (Some v, rest)"
      using "2.prems"(1) False by (simp_all only: dotted_decimal_loop.simps if_False split: if_splits) auto
    obtain p where p: "cbs = dot_join p rest" "decimal (unat ?o) @ p = decimal (unat v)"
      using "2.IH" [OF False _ r] g by (metis (full_types))
    have le: "0x30 \<le> u" "u \<le> 0x39" using g(1,2) by (simp_all only: not_less)
    define k where "k = unat u - 0x30"
    have k: "k < 10" "u = of_nat (0x30 + k)"
      using le unfolding k_def word_le_nat_alt by (auto simp: word_unat_eq_iff)
    have o: "unat ?o = unat out * 10 + k" using digit_no_overflow [OF le, of out] g(4) k_def by blast
    have "decimal (unat ?o) = (if seen then decimal (unat out) else []) @ [u]"
    proof (cases seen)
      case True
      then have "0 < unat out" using g(3) by (auto simp: unat_gt_0)
      then have "\<not> unat ?o < 10" "unat ?o div 10 = unat out" "unat ?o mod 10 = k" using k(1) unfolding o by auto
      then have "decimal (unat ?o) = decimal (unat out) @ [of_nat (0x30 + k)]"
        by (simp only: decimal.simps [of "unat ?o"] if_False)
      then show ?thesis using True k(2) by metis
    next
      case False
      then have "unat ?o = k" using "2.prems"(2) o by simp
      then have "decimal (unat ?o) = [of_nat (0x30 + k)]"
        using k(1) by (simp only: decimal.simps [of k] if_True)
      then show ?thesis using False k(2) by (metis append_Nil)
    qed
    then show ?thesis using p by (intro exI [of _ "u # p"]) (auto simp: dot_join_def)
  qed
qed

lemma parse_dotted_decimal_iff:
  "parse_dotted_decimal cbs = (Some v, rest) \<longleftrightarrow> cbs = dot_join (decimal (unat v)) rest"
proof
  assume "parse_dotted_decimal cbs = (Some v, rest)"
  from dotted_decimal_canonical [OF this [unfolded parse_dotted_decimal_def]]
  show "cbs = dot_join (decimal (unat v)) rest" by auto
next
  assume c: "cbs = dot_join (decimal (unat v)) rest"
  have v: "unat v < 2 ^ 64" using unsigned_less [of v, where ?'a = nat] by simp
  show "parse_dotted_decimal cbs = (Some v, rest)"
  proof (cases "rest = []")
    case True
    then show ?thesis using dotted_decimal_decimal [OF v, of "[]"] c by (simp add: dot_join_def parse_dotted_decimal_def)
  next
    case False
    then show ?thesis using dotted_decimal_decimal [OF v, of "0x2e # rest"] c
      by (simp add: dot_join_def parse_dotted_decimal_def CBS_len_def)
  qed
qed

section \<open>From text to contents\<close>

lemma writes_flush: "writes (\<lambda>s. CBB_flush s d) d []"
proof -
  have "extends s d [] s" if "ready s d b" for s b
    using that by (auto simp: extends_def same_kind_def ready_def)
  then show ?thesis by (intro writesI) (auto simp: ready_flush)
qed

lemma oid_text_loop_step:
  assumes "cbs = dot_join (decimal (unat n)) rest"
  shows "oid_text_loop d cbs = then_op (\<lambda>s. add_base128_integer s d n) (oid_text_loop d rest)"
proof -
  have "cbs \<noteq> []" "parse_dotted_decimal cbs = (Some n, rest)"
    using assms parse_dotted_decimal_iff by auto
  then show ?thesis
    by (intro ext) (simp add: oid_text_loop.simps [of d cbs] CBS_len_def then_op_def)
qed

lemma writes_oid_text_loop:
  "writes (oid_text_loop d (oid_text ns)) d (concat (map (\<lambda>n. base128_bytes (unat n)) ns))"
proof (induction ns)
  case Nil
  have "oid_text_loop d (oid_text []) = (\<lambda>s. (True, s))"
    by (intro ext) (simp add: oid_text_loop.simps CBS_len_def)
  then show ?case by (simp add: writes_Nil)
next
  case (Cons n ns)
  show ?case
    using writes_then [OF writes_base128 Cons, of n] by (simp add: oid_text_loop_step)
qed

lemma oid_text_loop_canonical: "oid_text_loop d cbs s = (True, s') \<Longrightarrow> \<exists>ns. cbs = oid_text ns"
proof (induction d cbs s rule: oid_text_loop.induct)
  case (1 d cbs s)
  show ?case
  proof (cases "cbs = []")
    case True
    then show ?thesis by (intro exI [of _ "[]"]) simp
  next
    case False
    then obtain a rest s1 where p: "parse_dotted_decimal cbs = (Some a, rest)"
      and a: "add_base128_integer s d a = (True, s1)" and r: "oid_text_loop d rest s1 = (True, s')"
      using "1.prems" by (auto simp: oid_text_loop.simps [of d cbs s] CBS_len_def
          split: prod.splits option.splits bool.splits)
    then obtain ns where "rest = oid_text ns" using "1.IH" [OF _ p [symmetric] _ a [symmetric]] False
      by (auto simp: CBS_len_def)
    then show ?thesis using p parse_dotted_decimal_iff by (intro exI [of _ "a # ns"]) simp
  qed
qed

lemma oid_valid_iff:
  "oid_valid (a # b # ns) \<longleftrightarrow> \<not> (a > 2 \<or> (a < 2 \<and> b > 39) \<or> b > UINT64_MAX - 80)"
  by (auto simp: oid_valid_def not_less)

lemma oid_from_text_step:
  "CBB_add_asn1_oid_from_text s d (oid_text (a # b # ns)) (length (oid_text (a # b # ns))) =
     then_op (\<lambda>s. CBB_flush s d)
       (if oid_valid (a # b # ns)
        then then_op (\<lambda>s. add_base128_integer s d (40 * a + b)) (oid_text_loop d (oid_text ns))
        else (\<lambda>s. (False, s))) s"
proof -
  have "parse_dotted_decimal (oid_text (a # b # ns)) = (Some a, oid_text (b # ns))"
    "parse_dotted_decimal (oid_text (b # ns)) = (Some b, oid_text ns)"
    by (simp_all add: parse_dotted_decimal_iff)
  then show ?thesis
    unfolding oid_valid_iff
    by (auto simp: CBB_add_asn1_oid_from_text_def CBS_init_def then_op_def simp del: oid_text.simps
        split: prod.splits bool.splits)
qed

lemma writes_oid_from_text:
  assumes "oid_valid ns"
  shows "writes (\<lambda>s. CBB_add_asn1_oid_from_text s d (oid_text ns) (length (oid_text ns))) d (oid_contents ns)"
proof -
  obtain a b cs where ns: "ns = a # b # cs" using assms by (auto simp: oid_valid_def split: list.splits)
  have "writes (then_op (\<lambda>s. CBB_flush s d)
      (then_op (\<lambda>s. add_base128_integer s d (40 * a + b)) (oid_text_loop d (oid_text cs)))) d
      ([] @ base128_bytes (unat (40 * a + b)) @ concat (map (\<lambda>n. base128_bytes (unat n)) cs))"
    by (rule writes_then [OF writes_flush writes_then [OF writes_base128 writes_oid_text_loop]])
  then show ?thesis using assms unfolding ns oid_from_text_step oid_contents.simps by simp
qed

lemma oid_from_text_canonical:
  assumes "CBB_add_asn1_oid_from_text s d text n = (True, s')"
  shows "\<exists>ns. oid_valid ns \<and> take n text = oid_text ns"
proof -
  obtain s1 a cbs1 b cbs2 s2 where p: "parse_dotted_decimal (take n text) = (Some a, cbs1)"
      "parse_dotted_decimal cbs1 = (Some b, cbs2)"
    and v: "\<not> (a > 2 \<or> (a < 2 \<and> b > 39) \<or> b > UINT64_MAX - 80)"
    and l: "oid_text_loop d cbs2 s2 = (True, s')"
    using assms by (auto simp: CBB_add_asn1_oid_from_text_def CBS_init_def
        split: prod.splits option.splits bool.splits if_splits)
  obtain ns where "cbs2 = oid_text ns" using oid_text_loop_canonical [OF l] by blast
  then show ?thesis using p v unfolding parse_dotted_decimal_iff
    by (intro exI [of _ "a # b # ns"]) (simp add: oid_valid_iff)
qed

section \<open>From contents to text\<close>

lemma length_decimal: "n < 10 ^ Suc k \<Longrightarrow> length (decimal n) \<le> Suc k"
proof (induction k arbitrary: n)
  case 0
  then show ?case by (subst decimal.simps) simp
next
  case (Suc k)
  then have "n div 10 < 10 ^ Suc k" by (simp add: less_mult_imp_div_less)
  from Suc.IH [OF this] show ?case by (subst decimal.simps) simp
qed

lemma writes_decimal: "writes (\<lambda>s. add_decimal s d v) d (decimal (unat v))"
proof -
  have "unat v < 10 ^ Suc 19"
    using unsigned_less [of v, where ?'a = nat] by simp
  then have l: "length (decimal (unat v)) \<le> 20" using length_decimal [of "unat v" 19] by simp
  then have "writes (\<lambda>s. CBB_add_bytes s d (decimal (unat v))) d (decimal (unat v))"
    by (intro writes_bytes) (simp add: size_max1_def)
  moreover have "take DECIMAL_SIZE_uint64 (decimal (unat v)) = decimal (unat v)"
    using l by (simp add: DECIMAL_SIZE_uint64_def)
  ultimately show ?thesis by (simp add: add_decimal_def)
qed

lemma oid_text_Cons:
  "oid_text (n # ns) = decimal (unat n) @ concat (map (\<lambda>n. 0x2e # decimal (unat n)) ns)"
  by (induction ns arbitrary: n) (simp_all add: dot_join_def)

lemma writes_oid_der_loop:
  fixes ns :: "uint64 list"
  shows "writes (oid_der_loop (concat (map (\<lambda>n. base128_bytes (unat n)) ns))) 0
     (concat (map (\<lambda>n. 0x2e # decimal (unat n)) ns))"
proof (induction ns)
  case Nil
  have "oid_der_loop [] = (\<lambda>s. (True, s))" by (intro ext) (simp add: oid_der_loop.simps CBS_len_def)
  then show ?case by (simp add: writes_Nil)
next
  case (Cons n ns)
  let ?r = "concat (map (\<lambda>n. base128_bytes (unat n)) ns)"
  have "parse_base128_integer (base128_bytes (unat n) @ ?r) = (Some n, ?r)"
    by (rule base128.dec_enc) simp
  then have "oid_der_loop (base128_bytes (unat n) @ ?r) =
      then_op (then_op (\<lambda>s. CBB_add_u8 s 0 0x2e) (\<lambda>s. add_decimal s 0 n)) (oid_der_loop ?r)"
    using base128_bytes_ne [of "unat n"]
    by (intro ext) (simp add: oid_der_loop.simps [of "base128_bytes (unat n) @ ?r"] CBS_len_def then_op_def)
  then show ?case
    using writes_then [OF writes_then [OF writes_u8 writes_decimal] Cons, of "0x2e" n] by simp
qed

lemma oid_der_loop_canonical:
  "oid_der_loop cbs s = (True, s') \<Longrightarrow> \<exists>ns. cbs = concat (map (\<lambda>n. base128_bytes (unat n)) (ns :: uint64 list))"
proof (induction cbs s rule: oid_der_loop.induct)
  case (1 cbs s)
  show ?case
  proof (cases "cbs = []")
    case True
    then show ?thesis by (intro exI [of _ "[]"]) simp
  next
    case False
    then obtain v rest s1 where p: "parse_base128_integer cbs = (Some v, rest)"
      and a: "then_op (\<lambda>s. CBB_add_u8 s 0 0x2e) (\<lambda>s. add_decimal s 0 v) s = (True, s1)"
      and r: "oid_der_loop rest s1 = (True, s')"
      using "1.prems" by (auto simp: oid_der_loop.simps [of cbs s] CBS_len_def
          split: prod.splits option.splits bool.splits)
    then obtain ns :: "uint64 list" where "rest = concat (map (\<lambda>n. base128_bytes (unat n)) ns)"
      using "1.IH" [OF _ p [symmetric] _ a [symmetric]] False by (auto simp: CBS_len_def)
    then show ?thesis using base128.enc_dec [OF p] by (intro exI [of _ "v # ns"]) simp
  qed
qed

lemma oid_first_arcs:
  assumes "oid_valid (a # b # ns)"
  shows "unat (40 * a + b) = 40 * unat a + unat b" "unat a \<le> 2" "unat a < 2 \<Longrightarrow> unat b < 40"
proof -
  have m: "unat (UINT64_MAX - 80) = 2 ^ 64 - 81" by (simp add: UINT64_MAX_def)
  have "a \<le> 2" "a < 2 \<longrightarrow> b \<le> 39" "b \<le> UINT64_MAX - 80" using assms by (auto simp: oid_valid_def)
  then show a: "unat a \<le> 2" and "unat a < 2 \<Longrightarrow> unat b < 40"
    and "unat (40 * a + b) = 40 * unat a + unat b"
  proof -
    assume "a \<le> 2" "a < 2 \<longrightarrow> b \<le> 39" "b \<le> UINT64_MAX - 80"
    then have b: "unat b \<le> 2 ^ 64 - 81" and "unat a < 2 \<longrightarrow> unat b \<le> 39" and a: "unat a \<le> 2"
      by (simp_all add: word_le_nat_alt word_less_nat_alt m)
    then show "unat a \<le> 2" "unat a < 2 \<Longrightarrow> unat b < 40" by auto
    have "unat (40 * a) = 40 * unat a" using a by (simp add: unat_word_ariths)
    then show "unat (40 * a + b) = 40 * unat a + unat b" using a b by (simp add: unat_word_ariths)
  qed
qed

lemma oid_split_first:
  assumes "v = (if w \<ge> 80 then [2, w - 80] else [w div 40, w mod 40])"
  shows "oid_valid (v @ ns) \<and> 40 * hd v + hd (tl v) = (w :: uint64)"
proof (cases "w \<ge> 80")
  case True
  then have "w - 80 \<le> UINT64_MAX - 80"
    by (simp add: word_le_nat_alt unat_sub UINT64_MAX_def) (use unsigned_less [of w, where ?'a = nat] in simp)
  then show ?thesis using True assms by (simp add: oid_valid_def)
next
  case False
  then have w: "unat w < 80" by (simp add: word_le_nat_alt)
  have d: "unat (w div 40) = unat w div 40" "unat (w mod 40) = unat w mod 40"
    by (simp_all add: unat_div unat_mod)
  have "w div 40 < 2" using w by (simp add: word_less_nat_alt d less_mult_imp_div_less)
  moreover have "w mod 40 \<le> 39" by (simp add: word_le_nat_alt d)
  moreover have "w mod 40 \<le> UINT64_MAX - 80"
    by (rule order_trans [OF \<open>w mod 40 \<le> 39\<close>]) (simp add: UINT64_MAX_def)
  moreover have "40 * (w div 40) + w mod 40 = w" by (rule mult_div_mod_eq)
  ultimately show ?thesis using False assms by (simp add: oid_valid_def order_less_imp_le)
qed

lemma writes_oid_text_body:
  assumes "oid_valid ns"
  shows "writes (oid_text_body (oid_contents ns)) 0 (oid_text ns @ [0])"
proof -
  obtain a b cs where ns: "ns = a # b # cs" using assms by (auto simp: oid_valid_def split: list.splits)
  note f = oid_first_arcs [OF assms [unfolded ns]]
  let ?v = "40 * a + b" and ?r = "concat (map (\<lambda>n. base128_bytes (unat n)) cs)"
  let ?T = "\<lambda>n :: uint64. decimal (unat n)"
  let ?F = "if ?v \<ge> 80 then then_op (\<lambda>s. CBB_add_bytes s 0 [0x32, 0x2e]) (\<lambda>s. add_decimal s 0 (?v - 80))
             else then_op (\<lambda>s. add_decimal s 0 (?v div 40))
                    (then_op (\<lambda>s. CBB_add_u8 s 0 0x2e) (\<lambda>s. add_decimal s 0 (?v mod 40)))"
  have p: "parse_base128_integer (oid_contents ns) = (Some ?v, ?r)"
    unfolding ns oid_contents.simps by (rule base128.dec_enc) simp
  have F: "writes ?F 0 (?T a @ 0x2e # ?T b)"
  proof (cases "unat a = 2")
    case True
    then have "?v \<ge> 80" using f by (simp add: word_le_nat_alt)
    moreover from this have "?v - 80 = b" using True f by (simp only: word_unat_eq_iff unat_sub) simp
    moreover have "?T a = [0x32]" using True by (simp add: decimal.simps)
    moreover have "writes (\<lambda>s. CBB_add_bytes s 0 [0x32, 0x2e]) 0 [0x32, 0x2e]"
      by (rule writes_bytes) (simp add: size_max1_def)
    ultimately show ?thesis using writes_then [OF _ writes_decimal] by fastforce
  next
    case False
    then have lt: "unat a < 2" "unat b < 40" using f(2,3) by auto
    then have "\<not> ?v \<ge> 80" unfolding word_le_nat_alt f(1) by simp
    moreover have "?v div 40 = a" "?v mod 40 = b"
      using lt unfolding word_unat_eq_iff unat_div unat_mod f(1) by simp_all
    ultimately show ?thesis
      using writes_then [OF writes_decimal writes_then [OF writes_u8 writes_decimal], of 0 a "0x2e" b] by simp
  qed
  have "oid_text_body (oid_contents ns) = then_op ?F (then_op (oid_der_loop ?r) (\<lambda>s. CBB_add_u8 s 0 0))"
    using p by (intro ext) (simp add: oid_text_body_def)
  moreover have "writes (then_op ?F (then_op (oid_der_loop ?r) (\<lambda>s. CBB_add_u8 s 0 0))) 0
      ((?T a @ 0x2e # ?T b) @ concat (map (\<lambda>n. 0x2e # ?T n) cs) @ [0])"
    by (rule writes_then [OF F writes_then [OF writes_oid_der_loop writes_u8]])
  ultimately show ?thesis by (simp add: ns oid_text_Cons del: oid_text.simps)
qed

lemma oid_text_body_canonical:
  assumes "oid_text_body cbs s = (True, s')"
  shows "\<exists>ns. oid_valid ns \<and> cbs = oid_contents ns"
proof -
  obtain v rest s1 s2 where p: "parse_base128_integer cbs = (Some v, rest)" and l: "oid_der_loop rest s1 = (True, s2)"
    using assms by (auto simp: oid_text_body_def then_op_def split: prod.splits option.splits bool.splits)
  obtain ns :: "uint64 list" where ns: "rest = concat (map (\<lambda>n. base128_bytes (unat n)) ns)"
    using oid_der_loop_canonical [OF l] by blast
  let ?f = "if v \<ge> 80 then [2, v - 80] else [v div 40, v mod 40]"
  have "oid_valid (?f @ ns)" "40 * hd ?f + hd (tl ?f) = v" using oid_split_first [OF refl] by blast+
  moreover from this have "oid_contents (?f @ ns) = cbs"
    using base128.enc_dec [OF p] ns by (auto split: if_splits)
  ultimately show ?thesis by metis
qed

lemma oid_to_text_build: "CBS_asn1_oid_to_text al cbs = Some t \<Longrightarrow> build_with al 32 (oid_text_body cbs) = Some t"
  by (auto simp: CBS_asn1_oid_to_text_def build_with_def split: prod.splits bool.splits option.splits)

lemma oid_to_text_build_rev:
  "build_with al 32 (oid_text_body cbs) = Some t \<Longrightarrow> t \<noteq> [] \<Longrightarrow> CBS_asn1_oid_to_text al cbs = Some t"
  by (auto simp: CBS_asn1_oid_to_text_def build_with_def split: prod.splits bool.splits option.splits)

lemma oid_to_text_exact:
  assumes "CBS_asn1_oid_to_text al cbs = Some t"
  shows "\<exists>ns. oid_valid ns \<and> cbs = oid_contents ns \<and> t = oid_text ns @ [0]"
proof -
  have b: "build_with al 32 (oid_text_body cbs) = Some t" using assms by (rule oid_to_text_build)
  then obtain s s' where "oid_text_body cbs s = (True, s')"
    by (auto simp: build_with_def split: prod.splits bool.splits)
  then obtain ns where ns: "oid_valid ns" "cbs = oid_contents ns" using oid_text_body_canonical by blast
  have "t = oid_text ns @ [0]"
    by (rule build_with_Some [OF writes_oid_text_body [OF ns(1)] _ b [unfolded ns(2)]]) (simp add: size_max1_def)
  then show ?thesis using ns by blast
qed

section \<open>Properties\<close>

text \<open>C5: Text and contents of an object identifier determine each other: for the components of a valid
  identifier \<open>CBB_add_asn1_oid_from_text\<close> builds the contents octets from the dotted text, and
  \<open>CBS_asn1_oid_to_text\<close> prints the NUL-terminated text from the contents, when memory is available.\<close>

theorem oid_text_roundtrip:
  assumes "never_fails al" and "oid_valid ns" and "k + 8 < size_max1"
    and "length (oid_contents ns) < 2 ^ 62" and "length (oid_text ns) < 2 ^ 62 - 1"
  shows "build_with al k (\<lambda>s. CBB_add_asn1_oid_from_text s 0 (oid_text ns) (length (oid_text ns))) =
           Some (oid_contents ns) \<and>
         CBS_asn1_oid_to_text al (oid_contents ns) = Some (oid_text ns @ [0])"
proof
  show "build_with al k (\<lambda>s. CBB_add_asn1_oid_from_text s 0 (oid_text ns) (length (oid_text ns))) = Some (oid_contents ns)"
    by (rule build_with_total [OF writes_oid_from_text [OF assms(2)] assms(3,1,4)])
  have "build_with al 32 (oid_text_body (oid_contents ns)) = Some (oid_text ns @ [0])"
    by (rule build_with_total [OF writes_oid_text_body [OF assms(2)] _ assms(1)])
      (use assms(5) in \<open>simp_all add: size_max1_def\<close>)
  then show "CBS_asn1_oid_to_text al (oid_contents ns) = Some (oid_text ns @ [0])"
    by (rule oid_to_text_build_rev) simp
qed

theorem oid_text_roundtrip_witness:
  "build_with plentiful 4 (\<lambda>s. CBB_add_asn1_oid_from_text s 0 [0x31, 0x2e, 0x32, 0x2e, 0x38, 0x34, 0x30] 7) =
     Some [0x2a, 0x86, 0x48] \<and>
   CBS_asn1_oid_to_text plentiful [0x2a, 0x86, 0x48] = Some [0x31, 0x2e, 0x32, 0x2e, 0x38, 0x34, 0x30, 0]"
proof -
  have t: "oid_text [1, 2, 840] = [0x31, 0x2e, 0x32, 0x2e, 0x38, 0x34, 0x30]"
    by (simp add: decimal.simps dot_join_def)
  have l: "length [0x31, 0x2e, 0x32, 0x2e, 0x38, 0x34, 0x30 :: byte] = 7" by simp
  have c: "oid_contents [1, 2, 840] = [0x2a, 0x86, 0x48]"
    by (simp add: base128_bytes_def base128_hi.simps)
  have "oid_valid [1, 2, 840]" by (simp add: oid_valid_def UINT64_MAX_def)
  from oid_text_roundtrip [OF plentiful_never_fails this, of 4] show ?thesis
    unfolding t c l by (simp add: size_max1_def)
qed

text \<open>Neither direction accepts anything else: text that \<open>CBB_add_asn1_oid_from_text\<close> accepts (no
  leading zeros, no empty component, no trailing dot, every component within 64 bits, the first two in
  range) and contents that \<open>CBS_asn1_oid_to_text\<close> accepts are those of a valid identifier.\<close>

theorem oid_canonical:
  "(CBB_add_asn1_oid_from_text s d text n = (True, s') \<longrightarrow> (\<exists>ns. oid_valid ns \<and> take n text = oid_text ns)) \<and>
   (CBS_asn1_oid_to_text al cbs = Some t \<longrightarrow>
      (\<exists>ns. oid_valid ns \<and> cbs = oid_contents ns \<and> t = oid_text ns @ [0]))"
  using oid_from_text_canonical oid_to_text_exact by blast

theorem oid_canonical_witness:
  "(\<exists>ns. oid_valid ns \<and> [0x2a] = oid_contents ns \<and> [0x31, 0x2e, 0x32, 0] = oid_text ns @ [0])"
proof -
  have "oid_valid [1, 2]" by (simp add: oid_valid_def UINT64_MAX_def)
  then have "build_with plentiful 32 (oid_text_body (oid_contents [1, 2])) = Some (oid_text [1, 2] @ [0])"
    by (intro build_with_total [OF writes_oid_text_body] plentiful_never_fails)
      (simp_all add: size_max1_def decimal.simps dot_join_def)
  then have "CBS_asn1_oid_to_text plentiful (oid_contents [1, 2]) = Some (oid_text [1, 2] @ [0])"
    by (rule oid_to_text_build_rev) simp
  then have "CBS_asn1_oid_to_text plentiful [0x2a] = Some [0x31, 0x2e, 0x32, 0]"
    by (simp add: decimal.simps dot_join_def base128_bytes_def base128_hi.simps)
  then show ?thesis using oid_canonical by blast
qed

end
