(* ===== verification/Sorting.thy ===== *)
theory Sorting
  imports Mem "HOL-Library.Multiset"
begin

text \<open>
  \<open>qsort\<close> of the C library, which \<open>CBB_flush_asn1_set_of\<close> and \<open>sk_sort\<close> call, and the
  contract of the comparison functions they hand to it. The C standard leaves open in
  which order elements that compare equal end up; the model fixes one order (a stable
  insertion sort), and the clients' statements are about the sorted permutation only.
\<close>

fun qsort_insert :: "('a \<Rightarrow> 'a \<Rightarrow> int) \<Rightarrow> 'a \<Rightarrow> 'a list \<Rightarrow> 'a list" where
  "qsort_insert cmp x [] = [x]"
| "qsort_insert cmp x (y # ys) = (if cmp x y \<le> 0 then x # y # ys else y # qsort_insert cmp x ys)"

definition libc_qsort :: "('a \<Rightarrow> 'a \<Rightarrow> int) \<Rightarrow> 'a list \<Rightarrow> 'a list" where
  "libc_qsort cmp xs = foldr (qsort_insert cmp) xs []"

lemma mset_qsort_insert [simp]: "mset (qsort_insert cmp x xs) = add_mset x (mset xs)"
  by (induction xs) auto

lemma mset_libc_qsort [simp]: "mset (libc_qsort cmp xs) = mset xs"
  by (induction xs) (simp_all add: libc_qsort_def)

lemma set_libc_qsort [simp]: "set (libc_qsort cmp xs) = set xs"
  by (metis mset_libc_qsort set_mset_mset)

lemma length_libc_qsort [simp]: "length (libc_qsort cmp xs) = length xs"
  by (metis mset_libc_qsort size_mset)

lemma length_concat_perm: "mset xs = mset ys \<Longrightarrow> length (concat xs) = length (concat ys)"
  by (metis length_concat mset_map sum_mset_sum_list)

lemma mset_eq_map: "mset ys = mset (map f xs) \<Longrightarrow> \<exists>gs. ys = map f gs \<and> mset gs = mset xs"
proof (induction ys arbitrary: xs)
  case (Cons y ys)
  have "y \<in> set (map f xs)" using Cons.prems by (metis list.set_intros(1) mset_eq_setD)
  then obtain x where x: "x \<in> set xs" "y = f x" by auto
  have "mset ys = mset (map f (remove1 x xs))"
    using Cons.prems x by (simp add: image_mset_Diff) (metis add_mset_remove_trivial)
  then obtain gs where "ys = map f gs" "mset gs = mset (remove1 x xs)" using Cons.IH by blast
  then show ?case using x by (intro exI [of _ "x # gs"]) simp
qed simp

text \<open>
  What \<open>qsort\<close> requires of a comparison function on the values in \<open>P\<close>: its sign is a
  total preorder.
\<close>

locale cmp_order =
  fixes cmp :: "'a \<Rightarrow> 'a \<Rightarrow> int" and P :: "'a \<Rightarrow> bool"
  assumes cmp_sym: "P a \<Longrightarrow> P b \<Longrightarrow> cmp a b < 0 \<longleftrightarrow> 0 < cmp b a"
    and cmp_trans: "P a \<Longrightarrow> P b \<Longrightarrow> P c \<Longrightarrow> cmp a b \<le> 0 \<Longrightarrow> cmp b c \<le> 0 \<Longrightarrow> cmp a c \<le> 0"
begin

lemma cmp_le_iff: "P a \<Longrightarrow> P b \<Longrightarrow> cmp a b \<le> 0 \<longleftrightarrow> 0 \<le> cmp b a"
  using cmp_sym [of a b] cmp_sym [of b a] by linarith

lemma cmp_refl: "P a \<Longrightarrow> cmp a a = 0"
  using cmp_sym [of a a] by linarith

lemma sorted_qsort_insert:
  assumes "sorted_wrt (\<lambda>a b. cmp a b \<le> 0) ys" and "P x" and "\<forall>y \<in> set ys. P y"
  shows "sorted_wrt (\<lambda>a b. cmp a b \<le> 0) (qsort_insert cmp x ys)"
  using assms
proof (induction ys)
  case (Cons y ys)
  show ?case
  proof (cases "cmp x y \<le> 0")
    case True
    then have "\<forall>z \<in> set ys. cmp x z \<le> 0" using Cons.prems cmp_trans [of x y] by auto
    then show ?thesis using Cons.prems True by simp
  next
    case False
    then have "cmp y x \<le> 0" using Cons.prems cmp_le_iff [of y x] by auto
    moreover have "set (qsort_insert cmp x ys) = insert x (set ys)"
      by (metis mset_qsort_insert set_mset_add_mset_insert set_mset_mset)
    ultimately show ?thesis using Cons False by auto
  qed
qed simp

lemma sorted_libc_qsort: "\<forall>x \<in> set xs. P x \<Longrightarrow> sorted_wrt (\<lambda>a b. cmp a b \<le> 0) (libc_qsort cmp xs)"
proof (induction xs)
  case (Cons x xs)
  then have "sorted_wrt (\<lambda>a b. cmp a b \<le> 0) (libc_qsort cmp xs)" "\<forall>y \<in> set (libc_qsort cmp xs). P y" by simp_all
  then show ?case using sorted_qsort_insert [of "libc_qsort cmp xs" x] Cons.prems by (simp add: libc_qsort_def)
qed (simp add: libc_qsort_def)

end

text \<open>Where only equal values compare equal, there is just one sorted order.\<close>

locale cmp_linear = cmp_order +
  assumes cmp_eq: "P a \<Longrightarrow> P b \<Longrightarrow> cmp a b = 0 \<Longrightarrow> a = b"
begin

lemma sorted_unique:
  assumes "mset xs = mset ys" and "\<forall>x \<in> set xs. P x"
    and "sorted_wrt (\<lambda>a b. cmp a b \<le> 0) xs" and "sorted_wrt (\<lambda>a b. cmp a b \<le> 0) ys"
  shows "xs = ys"
  using assms
proof (induction xs arbitrary: ys)
  case (Cons x xs)
  then obtain y zs where ys: "ys = y # zs" by (cases ys) auto
  have set: "set (y # zs) = set (x # xs)" using Cons.prems(1) ys by (metis set_mset_mset)
  have y: "P y" "y \<in> set (x # xs)" and x: "P x" "x \<in> set (y # zs)" using Cons.prems(2) set by auto
  have "cmp x y \<le> 0" using Cons.prems(3) y cmp_refl by auto
  moreover have "cmp y x \<le> 0" using Cons.prems(4) x cmp_refl unfolding ys by auto
  ultimately have "cmp x y = 0" using cmp_le_iff [OF y(1) x(1)] by linarith
  then have "x = y" using cmp_eq x y by blast
  then show ?case using Cons unfolding ys by auto
qed simp

lemma libc_qsort_perm:
  "mset xs = mset ys \<Longrightarrow> \<forall>x \<in> set xs. P x \<Longrightarrow> libc_qsort cmp xs = libc_qsort cmp ys"
  by (rule sorted_unique) (auto intro!: sorted_libc_qsort dest: mset_eq_setD)

lemma libc_qsort_sorted:
  "sorted_wrt (\<lambda>a b. cmp a b \<le> 0) xs \<Longrightarrow> \<forall>x \<in> set xs. P x \<Longrightarrow> libc_qsort cmp xs = xs"
  by (rule sorted_unique) (auto intro!: sorted_libc_qsort)

end

end
