(* ===== verification/Set_Of.thy ===== *)
theory Set_Of
  imports Asn1_Int Sorting
begin

text \<open>
  SET OF: \<open>compare_set_of_element\<close> and \<open>CBB_flush_asn1_set_of\<close> of
  \<open>crypto/bytestring/cbb.c\<close>, and \<open>CBB_finish_i2d\<close> of \<open>asn1_compat.c\<close>. The flush puts
  the elements of a SET OF into the one order DER allows, whatever order they were
  written in.
\<close>

section \<open>The code\<close>

definition compare_set_of_element :: "cbs \<Rightarrow> cbs \<Rightarrow> int" where
  "compare_set_of_element a b =
     (let a_len = CBS_len a; b_len = CBS_len b;
          min_len = (if a_len < b_len then a_len else b_len);
          ret = OPENSSL_memcmp (take min_len (CBS_data a)) (take min_len (CBS_data b)) in
      if ret \<noteq> 0 then ret
      else if a_len = b_len then 0
      else if a_len < b_len then - 1 else 1)"

lemma get_element_length:
  assumes "CBS_get_any_asn1_element cbs = (Some e, cbs')"
  shows "length cbs' < length cbs"
proof -
  obtain c where "cbs = der_element (c, elem_tag e) @ cbs'"
    using get_element_canonical [OF assms] by metis
  then show ?thesis using length_der_tag_bytes(1) [of "elem_tag e"] by (simp add: der_element_def der_header_def)
qed

text \<open>The counting loop; \<open>None\<close> where an element does not parse.\<close>

function count_children :: "cbs \<Rightarrow> nat \<Rightarrow> nat option" where
  "count_children cbs num_children =
     (if CBS_len cbs = 0 then Some num_children
      else case CBS_get_any_asn1_element cbs of
        (None, _) \<Rightarrow> None
      | (Some _, cbs') \<Rightarrow> count_children cbs' (Suc num_children))"
  by pat_completeness auto
termination
  by (relation "measure (\<lambda>(cbs, n). length cbs)") (auto dest: get_element_length [OF sym])

declare count_children.simps [simp del]

fun parse_children :: "cbs \<Rightarrow> nat \<Rightarrow> cbs list option" where
  "parse_children cbs 0 = Some []"
| "parse_children cbs (Suc i) =
     (case CBS_get_any_asn1_element cbs of
        (None, _) \<Rightarrow> None
      | (Some e, cbs') \<Rightarrow> map_option ((#) (elem_out e)) (parse_children cbs' i))"

fun add_children :: "nat \<Rightarrow> cbs list \<Rightarrow> cbb_state \<Rightarrow> bool \<times> cbb_state" where
  "add_children d [] s = (True, s)"
| "add_children d (c # cs) s =
     (case CBB_add_bytes s d (CBS_data c) of
        (False, s') \<Rightarrow> (False, s')
      | (True, s') \<Rightarrow> add_children d cs s')"

definition sizeof_CBS :: nat where
  "sizeof_CBS = 16"

definition CBB_flush_asn1_set_of :: "cbb_state \<Rightarrow> nat \<Rightarrow> bool \<times> cbb_state" where
  "CBB_flush_asn1_set_of s d =
     (case CBB_flush s d of
        (False, s1) \<Rightarrow> (False, s1)
      | (True, s1) \<Rightarrow>
     (case count_children (CBS_init (CBB_data s1 d) (CBB_len s1 d)) 0 of
        None \<Rightarrow> (False, s1)
      | Some num_children \<Rightarrow>
          if num_children < 2 then (True, s1)
          else if num_children > (size_max1 - 1) div sizeof_CBS then (False, s1)
          else
     (case base s1 of
        None \<Rightarrow> (False, s1)
      | Some b1 \<Rightarrow>
          (let buf_len = CBB_len s1 d in
           case OPENSSL_memdup (alloc b1) (take buf_len (CBB_data s1 d)) of
             (bf, al1) \<Rightarrow>
           (case OPENSSL_malloc al1 (size_mul num_children sizeof_CBS) of
             (children, al2) \<Rightarrow>
               let s2 = s1\<lparr>base := Some (b1\<lparr>alloc := al2\<rparr>)\<rparr> in
               if bf = None \<or> children = None then (False, s2)
               else
           (case parse_children (CBS_init (the bf) buf_len) num_children of
              None \<Rightarrow> (False, s2)
            | Some cs \<Rightarrow>
                let start = size_add (offset (chain s2 ! d)) (pending_len_len (chain s2 ! d)) in
                add_children d (libc_qsort compare_set_of_element cs)
                  (s2\<lparr>base := Some (b1\<lparr>alloc := al2, len := start\<rparr>)\<rparr>)))))))"

text \<open>
  \<open>outp\<close>: \<open>None\<close> for a NULL \<open>outp\<close>, \<open>Some None\<close> where \<open>*outp\<close> is NULL, and else the memory
  at \<open>*outp\<close>. It comes back as the memory and how far \<open>*outp\<close> has moved into it.
\<close>

definition CBB_finish_i2d ::
  "cbb_state \<Rightarrow> nat \<Rightarrow> byte list option option \<Rightarrow> int \<times> (byte list option \<times> nat) option \<times> cbb_state" where
  "CBB_finish_i2d s d outp =
     (let unchanged = map_option (\<lambda>p. (p, 0)) outp in
      case CBB_finish s d False of
        (None, s') \<Rightarrow> (- 1, unchanged, CBB_cleanup s' d)
      | (Some (der, der_len), s') \<Rightarrow>
          if der_len > int_max then (- 1, unchanged, s')
          else
            (int der_len,
             (case outp of
                None \<Rightarrow> None
              | Some None \<Rightarrow> Some (der, 0)
              | Some (Some mem) \<Rightarrow>
                  Some (Some (take der_len (case der of None \<Rightarrow> [] | Some p \<Rightarrow> p) @ drop der_len mem), der_len)),
             s'))"

section \<open>The order\<close>

lemma compare_set_of_rec:
  "compare_set_of_element [] [] = 0"
  "compare_set_of_element [] (b # bs) = - 1"
  "compare_set_of_element (a # as) [] = 1"
  "compare_set_of_element (a # as) (b # bs) =
     (if a < b then - 1 else if b < a then 1 else compare_set_of_element as bs)"
  by (simp_all add: compare_set_of_element_def CBS_len_def CBS_data_def Let_def)

lemma compare_set_of_sym: "compare_set_of_element a b = - compare_set_of_element b a"
proof (induction a arbitrary: b)
  case Nil
  then show ?case by (cases b) (simp_all add: compare_set_of_rec)
next
  case (Cons x a)
  then show ?case by (cases b) (auto simp: compare_set_of_rec)
qed

lemma compare_set_of_trans:
  "compare_set_of_element a b \<le> 0 \<Longrightarrow> compare_set_of_element b c \<le> 0 \<Longrightarrow> compare_set_of_element a c \<le> 0"
proof (induction a arbitrary: b c)
  case Nil
  then show ?case by (cases c) (simp_all add: compare_set_of_rec)
next
  case (Cons x a)
  then obtain y b' where b: "b = y # b'" by (cases b) (auto simp: compare_set_of_rec)
  with Cons obtain z c' where c: "c = z # c'" by (cases c) (auto simp: compare_set_of_rec)
  show ?case using Cons unfolding b c by (auto simp: compare_set_of_rec split: if_splits)
qed

lemma compare_set_of_eq: "compare_set_of_element a b = 0 \<Longrightarrow> a = b"
proof (induction a arbitrary: b)
  case Nil
  then show ?case by (cases b) (simp_all add: compare_set_of_rec)
next
  case (Cons x a)
  then show ?case by (cases b) (auto simp: compare_set_of_rec split: if_splits)
qed

interpretation set_of: cmp_linear compare_set_of_element "\<lambda>_. True"
proof
  show "compare_set_of_element a b < 0 \<longleftrightarrow> 0 < compare_set_of_element b a" for a b
    using compare_set_of_sym [of a b] by linarith
qed (auto intro: compare_set_of_trans compare_set_of_eq)

section \<open>Parsing the children\<close>

lemma get_element_encoding:
  assumes "der_valid e"
  shows "\<exists>x. CBS_get_any_asn1_element (der_element e @ rest) = (Some x, rest) \<and> elem_out x = der_element e"
  using assms get_element_der [of "fst e" "snd e" rest] by auto

lemma der_element_ne: "der_element e \<noteq> []"
  using length_der_tag_bytes(1) [of "snd e"] by (auto simp: der_element_def der_header_def split: prod.splits)

lemma count_children_der:
  "\<forall>e \<in> set es. der_valid e \<Longrightarrow> count_children (concat (map der_element es)) n = Some (n + length es)"
proof (induction es arbitrary: n)
  case (Cons e es)
  then obtain x where "CBS_get_any_asn1_element (der_element e @ concat (map der_element es)) =
      (Some x, concat (map der_element es))"
    using get_element_encoding [of e "concat (map der_element es)"] by auto
  then show ?case
    using Cons der_element_ne [of e]
    by (simp add: count_children.simps [of "der_element e @ concat (map der_element es)"] CBS_len_def)
qed (simp add: count_children.simps CBS_len_def)

lemma parse_children_der:
  "\<forall>e \<in> set es. der_valid e \<Longrightarrow>
     parse_children (concat (map der_element es)) (length es) = Some (map der_element es)"
proof (induction es)
  case (Cons e es)
  then show ?case
    using get_element_encoding [of e "concat (map der_element es)"] by auto
qed simp

lemma count_children_canonical:
  "count_children cbs n = Some m \<Longrightarrow> \<exists>es. cbs = concat (map der_element es) \<and> (\<forall>e \<in> set es. der_valid e)"
proof (induction cbs n rule: count_children.induct)
  case (1 cbs n)
  show ?case
  proof (cases "cbs = []")
    case True
    then show ?thesis by (intro exI [of _ "[]"]) simp
  next
    case False
    then obtain e cbs' where e: "CBS_get_any_asn1_element cbs = (Some e, cbs')" "count_children cbs' (Suc n) = Some m"
      using "1.prems" by (auto simp: count_children.simps [of cbs] CBS_len_def split: prod.splits option.splits)
    then obtain es where es: "cbs' = concat (map der_element es)" "\<forall>e \<in> set es. der_valid e"
      using "1.IH" [OF _ e(1) [symmetric]] False by (auto simp: CBS_len_def)
    obtain c where "der_valid (c, elem_tag e)" "cbs = der_element (c, elem_tag e) @ cbs'"
      using get_element_canonical [OF e(1)] by metis
    then show ?thesis using es by (intro exI [of _ "(c, elem_tag e) # es"]) simp
  qed
qed

section \<open>Writing them back\<close>

lemma cbb_buffer_add_within:
  assumes "buffer_ok b" and "len b + n \<le> cap b"
  shows "cbb_buffer_add (Some b) n = (True, Some (b\<lparr>len := len b + n\<rparr>))"
proof -
  have "len b + n < size_max1" using assms by (simp add: buffer_ok_def)
  then have "size_add (len b) n = len b + n" by (rule size_add_noover)
  then show ?thesis using assms by (simp add: cbb_buffer_add_def cbb_buffer_reserve_def Let_def)
qed

lemma put_bytes_within:
  assumes "buffer_ok b" and "len b + length bs \<le> cap b"
  obtains b' where "put_bytes b bs = Some b'" and "cap b' = cap b"
  using cbb_buffer_add_within [OF assms] by (simp add: put_bytes_def fill_last_def)

lemma add_children_within:
  assumes "ready s d b" and "len b + length (concat cs) \<le> cap b"
  shows "\<exists>b'. add_children d cs s = (True, s\<lparr>base := Some b'\<rparr>) \<and> ready (s\<lparr>base := Some b'\<rparr>) d b' \<and>
    content b' = content b @ concat cs \<and> same_kind b b'"
  using assms
proof (induction cs arbitrary: s b)
  case Nil
  then have "s = s\<lparr>base := Some b\<rparr>" "same_kind b b" by (simp_all add: ready_def same_kind_def)
  then show ?case using Nil by (intro exI [of _ b]) simp
next
  case (Cons c cs)
  have ok: "buffer_ok b" using Cons.prems by (simp add: ready_def)
  have l: "len b + length c \<le> cap b" using Cons.prems by simp
  obtain b1 where p: "put_bytes b c = Some b1" "cap b1 = cap b" using put_bytes_within [OF ok l] by blast
  have lc: "length c < size_max1" using l ok by (simp add: buffer_ok_def)
  note b1 = put_bytes_Some [OF ok lc p(1)]
  have "len b1 = len b + length c"
    using b1 ok length_content [of b] length_content [of b1] by (auto simp: same_kind_def)
  then have "len b1 + length (concat cs) \<le> cap b1" using Cons.prems p(2) by simp
  moreover have r1: "ready (s\<lparr>base := Some b1\<rparr>) d b1" using ready_put [OF Cons.prems(1) p(1) lc] .
  ultimately obtain b' where "add_children d cs (s\<lparr>base := Some b1\<rparr>) = (True, s\<lparr>base := Some b'\<rparr>)"
    "ready (s\<lparr>base := Some b'\<rparr>) d b'" "content b' = content b1 @ concat cs" "same_kind b1 b'"
    using Cons.IH [OF r1] by auto
  moreover have "CBB_add_bytes s d (CBS_data c) = (True, s\<lparr>base := Some b1\<rparr>)"
    unfolding CBS_data_def using CBB_add_bytes_ready [OF Cons.prems(1)] p(1) by blast
  ultimately show ?case using b1 by (auto intro: same_kind_trans)
qed

section \<open>The flush\<close>

text \<open>The object at position \<open>d\<close> holds, after its prefix, exactly the encodings \<open>es\<close>.\<close>

definition holds_set :: "cbb_state \<Rightarrow> nat \<Rightarrow> cbb_buffer_st \<Rightarrow> byte list \<Rightarrow> (byte list \<times> uint32) list \<Rightarrow> bool" where
  "holds_set s d b pre es \<longleftrightarrow>
     ready s d b \<and> length pre = offset (chain s ! d) + pending_len_len (chain s ! d) \<and>
     content b = pre @ concat (map der_element es) \<and> list_all der_valid es"

lemma holds_set_data:
  assumes "holds_set s d b pre es"
  shows "CBB_flush s d = (True, s)" "base s = Some b" "CBB_data s d = concat (map der_element es)"
    "CBB_len s d = length (concat (map der_element es))" "buffer_ok b" "len b = length pre + CBB_len s d"
proof -
  have r: "ready s d b" and c: "content b = pre @ concat (map der_element es)"
    and p: "length pre = offset (chain s ! d) + pending_len_len (chain s ! d)"
    using assms by (auto simp: holds_set_def)
  show "CBB_flush s d = (True, s)" by (rule ready_flush [OF r])
  show b: "base s = Some b" and ok: "buffer_ok b" using r by (auto simp: ready_def)
  have l: "len b = length pre + length (concat (map der_element es))"
    using length_content [OF ok] c by simp
  show "CBB_data s d = concat (map der_element es)" using b c p by (simp add: CBB_data_def content_def)
  show "CBB_len s d = length (concat (map der_element es))" using b l p by (simp add: CBB_len_def)
  then show "len b = length pre + CBB_len s d" using l by simp
qed

lemma flush_set_of_sorts:
  assumes h: "holds_set s d b pre es" and a: "never_fails (alloc b)" and n: "16 * length es + 8 < size_max1"
    and room: "cap b + 8 < size_max1"
  shows "\<exists>s' b'. CBB_flush_asn1_set_of s d = (True, s') \<and> ready s' d b' \<and>
     content b' = pre @ concat (libc_qsort compare_set_of_element (map der_element es)) \<and> chain s' = chain s"
proof -
  note hd = holds_set_data [OF h]
  let ?D = "concat (map der_element es)"
  have v: "\<forall>e \<in> set es. der_valid e" using h by (simp add: holds_set_def list_all_iff)
  have cc: "count_children (CBS_init (CBB_data s d) (CBB_len s d)) 0 = Some (length es)"
    using count_children_der [OF v, of 0] by (simp add: CBS_init_def hd)
  show ?thesis
  proof (cases "length es < 2")
    case True
    then have "libc_qsort compare_set_of_element (map der_element es) = map der_element es"
      by (cases es; cases "tl es") (simp_all add: libc_qsort_def)
    moreover have "CBB_flush_asn1_set_of s d = (True, s)"
      using cc True by (simp add: CBB_flush_asn1_set_of_def hd(1))
    ultimately show ?thesis using h by (auto simp: holds_set_def)
  next
    case False
    have le: "length ?D \<le> len b" using hd(4,6) by simp
    then have room': "length ?D + 8 < size_max1" using room hd(5) by (simp add: buffer_ok_def)
    have ne: "?D \<noteq> []" using False der_element_ne by (cases es) auto
    obtain al1 where m1: "OPENSSL_memdup (alloc b) ?D = (Some ?D, al1)" "never_fails al1"
      using OPENSSL_memdup_total [OF a ne room'] by blast
    have sm: "size_mul (length es) sizeof_CBS = 16 * length es" using n by (simp add: size_mul_def sizeof_CBS_def mult.commute)
    obtain ch al2 where m2: "OPENSSL_malloc al1 (size_mul (length es) sizeof_CBS) = (Some ch, al2)"
      using OPENSSL_malloc_total [OF m1(2) n] unfolding sm by blast
    have ov: "\<not> (size_max1 - 1) div sizeof_CBS < length es"
      using n by (simp add: sizeof_CBS_def not_less less_eq_div_iff_mult_less_eq)
    have lp: "length pre \<le> cap b" using hd(5,6) by (simp add: buffer_ok_def)
    have start: "size_add (offset (chain s ! d)) (pending_len_len (chain s ! d)) = length pre"
      using h lp hd(5) by (simp add: holds_set_def buffer_ok_def size_add_def)
    let ?b2 = "b\<lparr>alloc := al2, len := length pre\<rparr>"
    let ?cs = "libc_qsort compare_set_of_element (map der_element es)"
    have e: "CBB_flush_asn1_set_of s d = add_children d ?cs (s\<lparr>base := Some ?b2\<rparr>)"
      using False ov m1(1) m2 start parse_children_der [OF v] cc
      by (simp add: CBB_flush_asn1_set_of_def hd(1,2,3,4) Let_def CBS_init_def not_less)
    have r2: "ready (s\<lparr>base := Some ?b2\<rparr>) d ?b2"
      using h lp hd(5) by (simp add: holds_set_def ready_def buffer_ok_def buf_bytes_def)
    have lc: "length (concat ?cs) = length ?D" by (rule length_concat_perm [OF mset_libc_qsort])
    then have "len ?b2 + length (concat ?cs) \<le> cap ?b2" using hd(4,5,6) by (simp add: buffer_ok_def)
    from add_children_within [OF r2 this] obtain b' where
      "add_children d ?cs (s\<lparr>base := Some ?b2\<rparr>) = (True, s\<lparr>base := Some b'\<rparr>)"
      "ready (s\<lparr>base := Some b'\<rparr>) d b'" "content b' = content ?b2 @ concat ?cs" by auto
    moreover have "content ?b2 = pre"
    proof -
      have "take (length pre) (content b) = pre" using h by (simp add: holds_set_def)
      then show ?thesis using hd(6) by (simp add: content_def buf_bytes_def min_def split: if_splits)
    qed
    ultimately show ?thesis unfolding e by auto
  qed
qed

section \<open>Properties\<close>

text \<open>A top-level object in a full buffer, for concrete runs.\<close>

definition full_buffer :: "byte list \<Rightarrow> cbb_buffer_st" where
  "full_buffer bs = \<lparr>buf = Some bs, len = length bs, cap = length bs, can_resize = False, err = False, alloc = plentiful\<rparr>"

definition full_cbb :: "byte list \<Rightarrow> cbb_state" where
  "full_cbb bs = \<lparr>base = Some (full_buffer bs), chain = [cbb_zero]\<rparr>"

lemma full_cbb_ready: "length bs < size_max1 \<Longrightarrow> ready (full_cbb bs) 0 (full_buffer bs)"
  by (simp add: ready_def full_cbb_def full_buffer_def buffer_ok_def buf_bytes_def)

lemma full_cbb_holds:
  "concat (map der_element es) = bs \<Longrightarrow> list_all der_valid es \<Longrightarrow> length bs < size_max1 \<Longrightarrow>
     holds_set (full_cbb bs) 0 (full_buffer bs) [] es"
  by (simp add: holds_set_def full_cbb_ready)
    (simp add: full_cbb_def cbb_zero_def full_buffer_def content_def buf_bytes_def)

lemmas der_eval = der_element_def der_header_def der_tag_bytes_def der_len_bytes_def der_valid_def



text \<open>The order in which a SET OF was written does not matter: two builders that hold the same
  elements in different order end with the same bytes, and these bytes hold the same multiset of
  elements for no other multiset, so the result is the canonical DER form.\<close>

theorem set_of_canonical:
  assumes "holds_set s d b pre es" and "holds_set t d c pre fs"
    and "never_fails (alloc b)" and "never_fails (alloc c)"
    and "16 * length es + 8 < size_max1" and "16 * length fs + 8 < size_max1"
    and "cap b + 8 < size_max1" and "cap c + 8 < size_max1"
  shows "mset es = mset fs \<longleftrightarrow>
    CBB_data (snd (CBB_flush_asn1_set_of s d)) d = CBB_data (snd (CBB_flush_asn1_set_of t d)) d"
proof -
  have data: "CBB_data (snd (CBB_flush_asn1_set_of s d)) d =
      concat (libc_qsort compare_set_of_element (map der_element es))"
    if hs: "holds_set s d b pre es" "never_fails (alloc b)" "16 * length es + 8 < size_max1" "cap b + 8 < size_max1"
    for s b es
  proof -
    obtain s' b' where "CBB_flush_asn1_set_of s d = (True, s')" "ready s' d b'" "chain s' = chain s"
      "content b' = pre @ concat (libc_qsort compare_set_of_element (map der_element es))"
      using flush_set_of_sorts [OF hs] by blast
    then show ?thesis using hs(1)
      by (simp add: CBB_data_def ready_def content_def [symmetric] holds_set_def)
  qed
  have enc: "\<exists>gs. libc_qsort compare_set_of_element (map der_element es) = map der_element gs \<and>
      mset gs = mset es \<and> (\<forall>g \<in> set gs. der_valid g)" if "list_all der_valid es" for es
  proof -
    obtain gs where gs: "libc_qsort compare_set_of_element (map der_element es) = map der_element gs" "mset gs = mset es"
      using mset_eq_map [OF mset_libc_qsort] by blast
    moreover have "\<forall>g \<in> set gs. der_valid g"
      using that gs(2) by (metis list_all_iff set_mset_mset)
    ultimately show ?thesis by blast
  qed
  have v: "list_all der_valid es" "list_all der_valid fs" using assms(1,2) by (auto simp: holds_set_def)
  note de = data [OF assms(1,3,5,7)] and df = data [OF assms(2,4,6,8)]
  show ?thesis
  proof
    assume "mset es = mset fs"
    then have "libc_qsort compare_set_of_element (map der_element es) =
        libc_qsort compare_set_of_element (map der_element fs)"
      by (intro set_of.libc_qsort_perm) auto
    then show "CBB_data (snd (CBB_flush_asn1_set_of s d)) d = CBB_data (snd (CBB_flush_asn1_set_of t d)) d"
      using de df by simp
  next
    assume eq: "CBB_data (snd (CBB_flush_asn1_set_of s d)) d = CBB_data (snd (CBB_flush_asn1_set_of t d)) d"
    obtain gs where gs: "libc_qsort compare_set_of_element (map der_element es) = map der_element gs"
      "mset gs = mset es" "\<forall>g \<in> set gs. der_valid g" using enc [OF v(1)] by blast
    obtain hs where hs: "libc_qsort compare_set_of_element (map der_element fs) = map der_element hs"
      "mset hs = mset fs" "\<forall>h \<in> set hs. der_valid h" using enc [OF v(2)] by blast
    have "gs = hs"
      by (rule der.concat_enc_inj [OF gs(3) hs(3)]) (use eq de df gs(1) hs(1) der_element_ne in auto)
    then show "mset es = mset fs" using gs(2) hs(2) by simp
  qed
qed

theorem set_of_canonical_witness:
  "CBB_data (snd (CBB_flush_asn1_set_of (full_cbb [2, 1, 5, 2, 1, 3]) 0)) 0 =
   CBB_data (snd (CBB_flush_asn1_set_of (full_cbb [2, 1, 3, 2, 1, 5]) 0)) 0"
proof -
  let ?es = "[([5], 2), ([3], 2)] :: (byte list \<times> uint32) list"
  let ?fs = "[([3], 2), ([5], 2)] :: (byte list \<times> uint32) list"
  have "holds_set (full_cbb [2, 1, 5, 2, 1, 3]) 0 (full_buffer [2, 1, 5, 2, 1, 3]) [] ?es"
    "holds_set (full_cbb [2, 1, 3, 2, 1, 5]) 0 (full_buffer [2, 1, 3, 2, 1, 5]) [] ?fs"
    by (rule full_cbb_holds; simp add: der_eval size_max1_def)+
  from set_of_canonical [OF this] show ?thesis
    by (simp add: full_buffer_def plentiful_never_fails size_max1_def)
qed

text \<open>\<open>CBB_finish_i2d\<close>, called with a buffer of the caller, stores exactly the finished bytes, leaves
  the rest of the caller's memory alone, moves \<open>*outp\<close> behind them and returns their number; with a
  NULL \<open>*outp\<close> it hands out the block itself.\<close>

theorem finish_i2d_stores:
  assumes "ready s 0 b" and "chain s = [cbb_zero]" and "len b \<le> int_max" and "len b \<le> length mem"
  shows "CBB_finish_i2d s 0 (Some (Some mem)) =
      (int (len b), Some (Some (content b @ drop (len b) mem), len b), s\<lparr>base := None\<rparr>) \<and>
    CBB_finish_i2d s 0 (Some None) = (int (len b), Some (buf b, 0), s\<lparr>base := None\<rparr>) \<and>
    CBB_finish_i2d s 0 None = (int (len b), None, s\<lparr>base := None\<rparr>)"
  using assms CBB_finish_ready [OF assms(1,2)]
  by (simp add: CBB_finish_i2d_def Let_def content_def buf_bytes_def)

theorem finish_i2d_stores_witness:
  "CBB_finish_i2d (full_cbb [2, 1, 5]) 0 (Some (Some [9, 9, 9, 9])) =
     (3, Some (Some [2, 1, 5, 9], 3), (full_cbb [2, 1, 5])\<lparr>base := None\<rparr>)"
proof -
  have "ready (full_cbb [2, 1, 5]) 0 (full_buffer [2, 1, 5])" by (rule full_cbb_ready) (simp add: size_max1_def)
  moreover have "chain (full_cbb [2, 1, 5]) = [cbb_zero]" by (simp add: full_cbb_def)
  ultimately show ?thesis
    using finish_i2d_stores [of "full_cbb [2, 1, 5]" "full_buffer [2, 1, 5]" "[9, 9, 9, 9]"]
    by (simp add: full_buffer_def int_max_def content_def buf_bytes_def)
qed

end
