(* ===== verification/Unicode.thy ===== *)
theory Unicode
  imports Asn1_Int
begin

text \<open>
  \<open>crypto/bytestring/unicode.c\<close>: reading and writing characters in UTF-8, Latin-1,
  UCS-2 and UTF-32. The contract of an encoding is the locale \<open>char_codec\<close>; the four
  reader/writer pairs of the file interpret it.
\<close>

section \<open>The code\<close>

definition is_valid_code_point :: "uint32 \<Rightarrow> bool" where
  "is_valid_code_point v =
     (if v > 0x10ffff \<or> v AND 0xfffe = 0xfffe \<or> (v \<ge> 0xfdd0 \<and> v \<le> 0xfdef) \<or> (v \<ge> 0xd800 \<and> v \<le> 0xdfff)
      then False else True)"

definition BOTTOM_BITS :: "nat \<Rightarrow> byte" where
  "BOTTOM_BITS n = ucast (push_bit n 1 - 1 :: uint32)"

definition TOP_BITS :: "nat \<Rightarrow> byte" where
  "TOP_BITS n = NOT (BOTTOM_BITS (8 - n))"

text \<open>The loop over the \<open>len\<close> continuation bytes.\<close>

fun utf8_continuation :: "uint32 \<Rightarrow> nat \<Rightarrow> cbs \<Rightarrow> uint32 option \<times> cbs" where
  "utf8_continuation v 0 cbs = (Some v, cbs)"
| "utf8_continuation v (Suc i) cbs =
     (case CBS_get_u8 cbs of
        (None, cbs') \<Rightarrow> (None, cbs')
      | (Some c, cbs') \<Rightarrow>
          if c AND TOP_BITS 2 \<noteq> TOP_BITS 1 then (None, cbs')
          else utf8_continuation (push_bit 6 v OR ucast (c AND BOTTOM_BITS 6)) i cbs')"

definition utf8_finish :: "uint32 \<Rightarrow> nat \<Rightarrow> uint32 \<Rightarrow> cbs \<Rightarrow> uint32 option \<times> cbs" where
  "utf8_finish v n lower_bound cbs =
     (case utf8_continuation v n cbs of
        (None, cbs') \<Rightarrow> (None, cbs')
      | (Some v', cbs') \<Rightarrow>
          if \<not> is_valid_code_point v' \<or> v' < lower_bound then (None, cbs') else (Some v', cbs'))"

definition cbs_get_utf8 :: "cbs \<Rightarrow> uint32 option \<times> cbs" where
  "cbs_get_utf8 cbs =
     (case CBS_get_u8 cbs of
        (None, cbs') \<Rightarrow> (None, cbs')
      | (Some c, cbs') \<Rightarrow>
          if c \<le> 0x7f then (Some (ucast c), cbs')
          else if c AND TOP_BITS 3 = TOP_BITS 2 then utf8_finish (ucast (c AND BOTTOM_BITS 5)) 1 0x80 cbs'
          else if c AND TOP_BITS 4 = TOP_BITS 3 then utf8_finish (ucast (c AND BOTTOM_BITS 4)) 2 0x800 cbs'
          else if c AND TOP_BITS 5 = TOP_BITS 4 then utf8_finish (ucast (c AND BOTTOM_BITS 3)) 3 0x10000 cbs'
          else (None, cbs'))"

definition cbs_get_latin1 :: "cbs \<Rightarrow> uint32 option \<times> cbs" where
  "cbs_get_latin1 cbs =
     (case CBS_get_u8 cbs of (None, cbs') \<Rightarrow> (None, cbs') | (Some c, cbs') \<Rightarrow> (Some (ucast c), cbs'))"

definition cbs_get_ucs2_be :: "cbs \<Rightarrow> uint32 option \<times> cbs" where
  "cbs_get_ucs2_be cbs =
     (case CBS_get_u16 cbs of
        (None, cbs') \<Rightarrow> (None, cbs')
      | (Some c, cbs') \<Rightarrow> if \<not> is_valid_code_point (ucast c) then (None, cbs') else (Some (ucast c), cbs'))"

definition cbs_get_utf32_be :: "cbs \<Rightarrow> uint32 option \<times> cbs" where
  "cbs_get_utf32_be cbs =
     (case CBS_get_u32 cbs of
        (None, cbs') \<Rightarrow> (None, cbs')
      | (Some u, cbs') \<Rightarrow> if is_valid_code_point u then (Some u, cbs') else (None, cbs'))"

definition cbb_get_utf8_len :: "uint32 \<Rightarrow> nat" where
  "cbb_get_utf8_len u = (if u \<le> 0x7f then 1 else if u \<le> 0x7ff then 2 else if u \<le> 0xffff then 3 else 4)"

text \<open>\<open>int\<close> expressions passed as a \<open>uint8_t\<close>.\<close>

definition top_or :: "nat \<Rightarrow> uint32 \<Rightarrow> byte" where
  "top_or n x = ucast (ucast (TOP_BITS n) OR x)"

definition bottom6 :: "uint32 \<Rightarrow> uint32" where
  "bottom6 x = x AND ucast (BOTTOM_BITS 6)"

definition cbb_add_utf8 :: "cbb_state \<Rightarrow> nat \<Rightarrow> uint32 \<Rightarrow> bool \<times> cbb_state" where
  "cbb_add_utf8 s d u =
     (if \<not> is_valid_code_point u then (False, s)
      else if u \<le> 0x7f then CBB_add_u8 s d (ucast u)
      else if u \<le> 0x7ff then
        then_op (\<lambda>s. CBB_add_u8 s d (top_or 2 (drop_bit 6 u)))
          (\<lambda>s. CBB_add_u8 s d (top_or 1 (bottom6 u))) s
      else if u \<le> 0xffff then
        then_op (\<lambda>s. CBB_add_u8 s d (top_or 3 (drop_bit 12 u)))
          (then_op (\<lambda>s. CBB_add_u8 s d (top_or 1 (bottom6 (drop_bit 6 u))))
            (\<lambda>s. CBB_add_u8 s d (top_or 1 (bottom6 u)))) s
      else if u \<le> 0x10ffff then
        then_op (\<lambda>s. CBB_add_u8 s d (top_or 4 (drop_bit 18 u)))
          (then_op (\<lambda>s. CBB_add_u8 s d (top_or 1 (bottom6 (drop_bit 12 u))))
            (then_op (\<lambda>s. CBB_add_u8 s d (top_or 1 (bottom6 (drop_bit 6 u))))
              (\<lambda>s. CBB_add_u8 s d (top_or 1 (bottom6 u))))) s
      else (False, s))"

definition cbb_add_latin1 :: "cbb_state \<Rightarrow> nat \<Rightarrow> uint32 \<Rightarrow> bool \<times> cbb_state" where
  "cbb_add_latin1 s d u = (if u \<le> 0xff then CBB_add_u8 s d (ucast u) else (False, s))"

definition cbb_add_ucs2_be :: "cbb_state \<Rightarrow> nat \<Rightarrow> uint32 \<Rightarrow> bool \<times> cbb_state" where
  "cbb_add_ucs2_be s d u =
     (if u \<le> 0xffff \<and> is_valid_code_point u then CBB_add_u16 s d (ucast u) else (False, s))"

definition cbb_add_utf32_be :: "cbb_state \<Rightarrow> nat \<Rightarrow> uint32 \<Rightarrow> bool \<times> cbb_state" where
  "cbb_add_utf32_be s d u = (if is_valid_code_point u then CBB_add_u32 s d u else (False, s))"

section \<open>The contract of an encoding\<close>

text \<open>Writing and reading whole strings, one character after the other.\<close>

fun add_code_points :: "(cbb_state \<Rightarrow> nat \<Rightarrow> uint32 \<Rightarrow> bool \<times> cbb_state) \<Rightarrow> nat \<Rightarrow> uint32 list \<Rightarrow> cbb_state \<Rightarrow> bool \<times> cbb_state" where
  "add_code_points add d [] s = (True, s)"
| "add_code_points add d (u # us) s = then_op (\<lambda>s. add s d u) (add_code_points add d us) s"

fun get_code_points :: "(cbs \<Rightarrow> uint32 option \<times> cbs) \<Rightarrow> nat \<Rightarrow> cbs \<Rightarrow> uint32 list option \<times> cbs" where
  "get_code_points get 0 cbs = (Some [], cbs)"
| "get_code_points get (Suc n) cbs =
     (case get cbs of
        (None, cbs') \<Rightarrow> (None, cbs')
      | (Some u, cbs') \<Rightarrow> (case get_code_points get n cbs' of (us, cbs'') \<Rightarrow> (map_option ((#) u) us, cbs'')))"

locale char_codec = codec valid enc get
  for valid :: "uint32 \<Rightarrow> bool" and enc :: "uint32 \<Rightarrow> byte list" and get :: "cbs \<Rightarrow> uint32 option \<times> cbs" +
  fixes add :: "cbb_state \<Rightarrow> nat \<Rightarrow> uint32 \<Rightarrow> bool \<times> cbb_state"
  assumes add_writes: "valid u \<Longrightarrow> writes (\<lambda>s. add s d u) d (enc u)"
    and add_invalid: "\<not> valid u \<Longrightarrow> add s d u = (False, s)"
begin

lemma add_code_points_writes: "\<forall>u \<in> set us. valid u \<Longrightarrow> writes (add_code_points add d us) d (concat (map enc us))"
proof (induction us)
  case Nil
  have "add_code_points add d [] = (\<lambda>s. (True, s))" by (intro ext) simp
  then show ?case by (simp add: writes_Nil)
next
  case (Cons u us)
  have "add_code_points add d (u # us) = then_op (\<lambda>s. add s d u) (add_code_points add d us)" by (intro ext) simp
  then show ?case using Cons writes_then [OF add_writes Cons.IH] by simp
qed

lemma add_code_points_valid: "fst (add_code_points add d us s) \<Longrightarrow> \<forall>u \<in> set us. valid u"
proof (induction us arbitrary: s)
  case (Cons u us)
  then have "valid u" using add_invalid [of u s d] by (auto simp: then_op_def split: prod.splits bool.splits)
  with Cons show ?case by (auto simp: then_op_def split: prod.splits bool.splits)
qed simp

lemma get_code_points_enc:
  "\<forall>u \<in> set us. valid u \<Longrightarrow> get_code_points get (length us) (concat (map enc us) @ rest) = (Some us, rest)"
  by (induction us) (simp_all add: dec_enc)

lemma string_roundtrip:
  assumes "build_with al k (add_code_points add 0 us) = Some bs" and "k < size_max1"
  shows "get_code_points get (length us) bs = (Some us, [])"
proof -
  obtain s s' where "add_code_points add 0 us s = (True, s')"
    using assms(1) by (auto simp: build_with_def split: prod.splits bool.splits)
  then have v: "\<forall>u \<in> set us. valid u" by (intro add_code_points_valid [of 0 us s]) simp
  have "bs = concat (map enc us)" by (rule build_with_Some [OF add_code_points_writes [OF v] assms(2,1)])
  then show ?thesis using get_code_points_enc [OF v, of "[]"] by simp
qed

end

section \<open>Bit patterns\<close>

lemma BOTTOM_BITS_mask: "n \<le> 8 \<Longrightarrow> BOTTOM_BITS n = mask n"
proof -
  assume "n \<le> 8"
  have "BOTTOM_BITS n = ucast (mask n :: uint32)" by (simp add: BOTTOM_BITS_def mask_eq_exp_minus_1 push_bit_eq_mult)
  also have "\<dots> = mask n" using \<open>n \<le> 8\<close> by (intro bit_word_eqI) (auto simp: bit_ucast_iff bit_mask_iff)
  finally show ?thesis .
qed

lemma unat_and_top: "unat ((w :: 'a::len word) AND NOT (mask n)) = unat w div 2 ^ n * 2 ^ n"
proof -
  have "w AND NOT (mask n) = push_bit n (drop_bit n w)"
    by (rule bit_word_eqI) (auto simp: bit_simps)
  moreover have "unat (drop_bit n w) * 2 ^ n < 2 ^ LENGTH('a)"
    unfolding unat_drop_bit by (rule le_less_trans [OF div_times_less_eq_dividend unsigned_less])
  ultimately show ?thesis using unat_push_or [of 0 n "drop_bit n w"] by (simp add: unat_drop_bit)
qed

lemma TOP_BITS_values:
  "TOP_BITS 1 = 0x80" "TOP_BITS (Suc 0) = 0x80" "TOP_BITS 2 = 0xc0" "TOP_BITS 3 = 0xe0" "TOP_BITS 4 = 0xf0"
  by (simp_all add: TOP_BITS_def BOTTOM_BITS_def)

lemma and_TOP_BITS: "n \<le> 8 \<Longrightarrow> unat (c AND TOP_BITS n) = unat c div 2 ^ (8 - n) * 2 ^ (8 - n)"
  unfolding TOP_BITS_def by (simp add: BOTTOM_BITS_mask unat_and_top)

lemma and_BOTTOM_BITS: "n \<le> 8 \<Longrightarrow> unat (c AND BOTTOM_BITS n) = unat c mod 2 ^ n"
  by (simp add: BOTTOM_BITS_mask unat_and_low)

lemma utf8_lead_bytes:
  "c AND TOP_BITS 2 = TOP_BITS 1 \<longleftrightarrow> unat c div 64 = 2"
  "c AND TOP_BITS 2 = TOP_BITS (Suc 0) \<longleftrightarrow> unat c div 64 = 2"
  "c AND TOP_BITS 3 = TOP_BITS 2 \<longleftrightarrow> unat c div 32 = 6"
  "c AND TOP_BITS 4 = TOP_BITS 3 \<longleftrightarrow> unat c div 16 = 14"
  "c AND TOP_BITS 5 = TOP_BITS 4 \<longleftrightarrow> unat c div 8 = 30"
proof -
  have eq: "c AND TOP_BITS n = x \<longleftrightarrow> unat c div 2 ^ (8 - n) = m"
    if "n \<le> 8" and "unat x = m * 2 ^ (8 - n)" for n x m
    using that by (simp add: word_unat_eq_iff and_TOP_BITS)
  show "c AND TOP_BITS 2 = TOP_BITS 1 \<longleftrightarrow> unat c div 64 = 2"
    and "c AND TOP_BITS 2 = TOP_BITS (Suc 0) \<longleftrightarrow> unat c div 64 = 2"
    using eq [of 2 "TOP_BITS 1" 2] by (simp_all add: TOP_BITS_values)
  show "c AND TOP_BITS 3 = TOP_BITS 2 \<longleftrightarrow> unat c div 32 = 6"
    using eq [of 3 "TOP_BITS 2" 6] by (simp add: TOP_BITS_values)
  show "c AND TOP_BITS 4 = TOP_BITS 3 \<longleftrightarrow> unat c div 16 = 14"
    using eq [of 4 "TOP_BITS 3" 14] by (simp add: TOP_BITS_values)
  show "c AND TOP_BITS 5 = TOP_BITS 4 \<longleftrightarrow> unat c div 8 = 30"
    using eq [of 5 "TOP_BITS 4" 30] by (simp add: TOP_BITS_values)
qed

section \<open>UTF-8\<close>

text \<open>The reference: the octets by arithmetic on the code point.\<close>

definition utf8_cont :: "nat \<Rightarrow> nat \<Rightarrow> byte" where
  "utf8_cont k u = of_nat (0x80 + u div 64 ^ k mod 64)"

definition utf8_bytes :: "uint32 \<Rightarrow> byte list" where
  "utf8_bytes v =
     (let u = unat v in
      if u < 0x80 then [of_nat u]
      else if u < 0x800 then [of_nat (0xc0 + u div 64), utf8_cont 0 u]
      else if u < 0x10000 then [of_nat (0xe0 + u div 64 ^ 2), utf8_cont 1 u, utf8_cont 0 u]
      else [of_nat (0xf0 + u div 64 ^ 3), utf8_cont 2 u, utf8_cont 1 u, utf8_cont 0 u])"

lemma unat_utf8_cont: "unat (utf8_cont k u) div 64 = 2" "unat (utf8_cont k u) mod 64 = u div 64 ^ k mod 64"
proof -
  have "u div 64 ^ k mod 64 < 64" by simp
  then have "0x80 + u div 64 ^ k mod 64 < 256" by linarith
  then have x: "unat (utf8_cont k u) = 0x80 + u div 64 ^ k mod 64"
    unfolding utf8_cont_def unat_of_nat_byte by (rule mod_less)
  show "unat (utf8_cont k u) div 64 = 2" unfolding x by (rule div_nat_eqI) auto
  have "(0x80 :: nat) + u div 64 ^ k mod 64 = u div 64 ^ k mod 64 + 64 * 2" by simp
  then show "unat (utf8_cont k u) mod 64 = u div 64 ^ k mod 64" unfolding x by (simp only: mod_mult_self2 mod_mod_trivial)
qed

lemma utf8_continuation_step:
  assumes "unat v < 2 ^ 26"
  shows "utf8_continuation v (Suc i) (c # cbs) =
    (if unat c div 64 = 2 then utf8_continuation (of_nat (unat v * 64 + unat c mod 64)) i cbs else (None, cbs))"
proof -
  have "unat (ucast (c AND BOTTOM_BITS 6) :: uint32) = unat c mod 64"
    by (simp add: unat_ucast_up and_BOTTOM_BITS)
  then have "unat (push_bit 6 v OR ucast (c AND BOTTOM_BITS 6)) = unat v * 64 + unat c mod 64"
    using assms unat_push_or [of "ucast (c AND BOTTOM_BITS 6) :: uint32" 6 v] by simp
  then have "push_bit 6 v OR ucast (c AND BOTTOM_BITS 6) = of_nat (unat v * 64 + unat c mod 64)"
    by (rule unat_eq_of_nat)
  then show ?thesis by (simp only: utf8_continuation.simps CBS_get_u8_Cons prod.case option.case utf8_lead_bytes) simp
qed

lemma utf8_continuation_enc:
  assumes "k \<le> 3" and "u < 2 ^ 26" and "unat v = u div 64 ^ k"
  shows "utf8_continuation v k (map (\<lambda>i. utf8_cont i u) (rev [0..<k]) @ rest) = (Some (of_nat u), rest)"
  using assms
proof (induction k arbitrary: v)
  case 0
  then have "v = of_nat u" by (intro unat_eq_of_nat) simp
  then show ?case by simp
next
  case (Suc k)
  have v26: "unat v < 2 ^ 26" using Suc.prems by (metis div_le_dividend le_less_trans)
  let ?w = "of_nat (unat v * 64 + unat (utf8_cont k u) mod 64) :: uint32"
  have e: "unat v * 64 + unat (utf8_cont k u) mod 64 = u div 64 ^ k"
  proof -
    have "u div 64 ^ Suc k = u div 64 ^ k div 64" by (simp only: power_Suc2 div_mult2_eq)
    then show ?thesis unfolding unat_utf8_cont Suc.prems(3) by (simp only: div_mult_mod_eq)
  qed
  have "u div 64 ^ k < 2 ^ 32" by (rule le_less_trans [OF div_le_dividend]) (use Suc.prems(2) in simp)
  then have "unat ?w = u div 64 ^ k" unfolding e by (simp add: unat_of_nat)
  from Suc.IH [OF _ Suc.prems(2) this] Suc.prems(1) show ?case
    by (simp add: utf8_continuation_step [OF v26] unat_utf8_cont(1) del: utf8_continuation.simps)
qed

lemma utf8_continuation_canonical:
  assumes "(unat v + 1) * 64 ^ k \<le> 2 ^ 26" and "utf8_continuation v k cbs = (Some w, rest)"
  shows "cbs = map (\<lambda>i. utf8_cont i (unat w)) (rev [0..<k]) @ rest \<and> unat w div 64 ^ k = unat v"
  using assms
proof (induction k arbitrary: v cbs)
  case (Suc k)
  have "(unat v + 1) * (64 * 1) \<le> (unat v + 1) * (64 * 64 ^ k)" by (intro mult_le_mono) auto
  then have v64: "(unat v + 1) * 64 \<le> 2 ^ 26" using Suc.prems(1) by simp
  then have v26: "unat v < 2 ^ 26" by simp
  obtain c cbs' where cbs: "cbs = c # cbs'" using Suc.prems(2) by (cases cbs) auto
  let ?v = "of_nat (unat v * 64 + unat c mod 64) :: uint32"
  have c: "unat c div 64 = 2" and r: "utf8_continuation ?v k cbs' = (Some w, rest)"
    using Suc.prems(2) unfolding cbs utf8_continuation_step [OF v26] by (auto split: if_splits)
  have m: "unat c mod 64 < 64" by simp
  have "unat v * 64 + unat c mod 64 < 2 ^ 32" using v64 m by simp
  then have v: "unat ?v = unat v * 64 + unat c mod 64" by (simp only: unat_of_nat) simp
  have "(unat v * 64 + unat c mod 64 + 1) * 64 ^ k \<le> ((unat v + 1) * 64) * 64 ^ k"
    using m by (intro mult_le_mono1) (simp add: Suc_le_eq)
  moreover have "((unat v + 1) * 64) * 64 ^ k \<le> 2 ^ 26" using Suc.prems(1) by (simp only: power_Suc mult.assoc)
  ultimately have "(unat ?v + 1) * 64 ^ k \<le> 2 ^ 26" unfolding v by (rule order_trans)
  from Suc.IH [OF this r] have IH: "cbs' = map (\<lambda>i. utf8_cont i (unat w)) (rev [0..<k]) @ rest"
    "unat w div 64 ^ k = unat v * 64 + unat c mod 64" unfolding v by auto
  have "unat c = 0x80 + unat w div 64 ^ k mod 64" using c IH(2) div_mult_mod_eq [of "unat c" 64] by simp
  then have "c = utf8_cont k (unat w)" unfolding utf8_cont_def by (rule unat_eq_of_nat)
  moreover have "unat w div 64 ^ Suc k = unat v"
    using IH(2) by (simp only: power_Suc2 div_mult2_eq)
  ultimately show ?case using IH(1) cbs by simp
qed simp

lemma cbs_get_utf8_lead:
  "cbs_get_utf8 (c # cbs) =
     (if unat c < 0x80 then (Some (of_nat (unat c)), cbs)
      else if unat c div 32 = 6 then utf8_finish (of_nat (unat c mod 32)) 1 0x80 cbs
      else if unat c div 16 = 14 then utf8_finish (of_nat (unat c mod 16)) 2 0x800 cbs
      else if unat c div 8 = 30 then utf8_finish (of_nat (unat c mod 8)) 3 0x10000 cbs
      else (None, cbs))"
proof -
  have b: "ucast (c AND BOTTOM_BITS n) = (of_nat (unat c mod 2 ^ n) :: uint32)" if "n \<le> 8" for n
    by (rule unat_eq_of_nat) (simp add: unat_ucast_up and_BOTTOM_BITS that)
  have u: "ucast c = (of_nat (unat c) :: uint32)" by (rule unat_eq_of_nat) (simp add: unat_ucast_up)
  have le: "c \<le> 0x7f \<longleftrightarrow> unat c < 0x80" by (auto simp: word_le_nat_alt)
  show ?thesis
    using b [of 5] b [of 4] b [of 3]
    by (simp only: cbs_get_utf8_def CBS_get_u8_Cons prod.case option.case le u utf8_lead_bytes) simp
qed

lemma is_valid_small: "unat u < 0x80 \<Longrightarrow> is_valid_code_point u"
proof -
  assume u: "unat u < 0x80"
  have "u AND 0xfffe \<le> u" by (rule word_and_le2)
  then have "unat (u AND 0xfffe) < 0x80" using u by (simp add: word_le_nat_alt)
  then have "u AND 0xfffe \<noteq> 0xfffe" by (auto simp: word_unat_eq_iff)
  then show ?thesis using u by (simp add: is_valid_code_point_def word_le_nat_alt word_less_nat_alt)
qed

lemma valid_bound: "is_valid_code_point u \<Longrightarrow> unat u \<le> 0x10ffff"
  by (auto simp: is_valid_code_point_def word_le_nat_alt word_less_nat_alt split: if_splits)

lemma unat_lead:
  assumes "x < 2 ^ n" and "m * 2 ^ n + 2 ^ n \<le> 256"
  shows "unat (of_nat (m * 2 ^ n + x) :: byte) = m * 2 ^ n + x"
    and "unat (of_nat (m * 2 ^ n + x) :: byte) div 2 ^ n = m"
    and "unat (of_nat (m * 2 ^ n + x) :: byte) mod 2 ^ n = x"
proof -
  have "m * 2 ^ n + x < 256" using assms by linarith
  then show u: "unat (of_nat (m * 2 ^ n + x) :: byte) = m * 2 ^ n + x" unfolding unat_of_nat_byte by (rule mod_less)
  show "unat (of_nat (m * 2 ^ n + x) :: byte) div 2 ^ n = m"
    and "unat (of_nat (m * 2 ^ n + x) :: byte) mod 2 ^ n = x"
    unfolding u using assms(1) by simp_all
qed

lemma utf8_finish_enc:
  assumes "is_valid_code_point u" and "k \<le> 3" and "unat v = unat u div 64 ^ k" and "lb \<le> u"
  shows "utf8_finish v k lb (map (\<lambda>i. utf8_cont i (unat u)) (rev [0..<k]) @ rest) = (Some u, rest)"
proof -
  have "unat u < 2 ^ 26" using valid_bound [OF assms(1)] by simp
  from utf8_continuation_enc [OF assms(2) this assms(3)] show ?thesis
    using assms(1,4) by (simp add: utf8_finish_def)
qed

lemma cbs_get_utf8_bytes:
  assumes "is_valid_code_point u"
  shows "cbs_get_utf8 (utf8_bytes u @ rest) = (Some u, rest)"
proof -
  define n where "n = unat u"
  have n: "n \<le> 0x10ffff" using valid_bound [OF assms] by (simp add: n_def)
  consider "n < 0x80" | "0x80 \<le> n" "n < 0x800" | "0x800 \<le> n" "n < 0x10000" | "0x10000 \<le> n" by linarith
  then show ?thesis
  proof cases
    case 1
    then have "unat (of_nat n :: byte) = n" by (simp only: unat_of_nat_byte)  simp
    moreover have "of_nat n = u" by (simp add: n_def)
    ultimately show ?thesis using 1 by (simp add: utf8_bytes_def n_def [symmetric] cbs_get_utf8_lead del: unat_of_nat_byte)
  next
    case 2
    let ?c = "of_nat (6 * 2 ^ 5 + n div 64) :: byte"
    have "n div 64 < 2 ^ 5" using 2 by (simp add: less_mult_imp_div_less)
    note c = unat_lead [OF this, of 6, simplified]
    have "utf8_bytes u = ?c # map (\<lambda>i. utf8_cont i n) (rev [0..<1])"
      using 2 by (simp add: utf8_bytes_def n_def [symmetric])
    moreover have "0x80 \<le> u" using 2 by (simp add: word_le_nat_alt n_def)
    moreover have "unat (of_nat (n div 64) :: uint32) = n div 64 ^ 1" using 2 by (simp add: unat_of_nat)
    ultimately show ?thesis
      using utf8_finish_enc [OF assms, of 1 "of_nat (n div 64)" "0x80" rest] c
      by (simp add: cbs_get_utf8_lead n_def)
  next
    case 3
    let ?c = "of_nat (14 * 2 ^ 4 + n div 64 ^ 2) :: byte"
    have "n div 64 ^ 2 < 2 ^ 4" using 3 by (simp add: less_mult_imp_div_less)
    note c = unat_lead [OF this, of 14, simplified]
    have "utf8_bytes u = ?c # map (\<lambda>i. utf8_cont i n) (rev [0..<2])"
      using 3 by (simp add: utf8_bytes_def n_def [symmetric] upt_rec)
    moreover have "0x800 \<le> u" using 3 by (simp add: word_le_nat_alt n_def)
    moreover have "unat (of_nat (n div 64 ^ 2) :: uint32) = n div 64 ^ 2"
      unfolding unat_of_nat by (rule mod_less) (rule le_less_trans [OF div_le_dividend], use n in simp)
    moreover have "unat ?c div 32 = 7" using \<open>n div 64 ^ 2 < 2 ^ 4\<close> c(1) by (intro div_nat_eqI) simp_all
    ultimately show ?thesis
      using utf8_finish_enc [OF assms, of 2 "of_nat (n div 64 ^ 2)" "0x800" rest] c
      by (simp add: cbs_get_utf8_lead n_def)
  next
    case 4
    let ?c = "of_nat (30 * 2 ^ 3 + n div 64 ^ 3) :: byte"
    have x: "n div 64 ^ 3 < 2 ^ 3" using n by (simp add: less_mult_imp_div_less)
    note c = unat_lead [OF this, of 30, simplified]
    have r: "rev [0..<3] = [2, 1, 0 :: nat]" by (simp add: upt_rec numeral_2_eq_2)
    have "utf8_bytes u = ?c # map (\<lambda>i. utf8_cont i n) (rev [0..<3])"
      using 4 unfolding r by (simp add: utf8_bytes_def n_def [symmetric])
    moreover have "0x10000 \<le> u" using 4 by (simp add: word_le_nat_alt n_def)
    moreover have "unat (of_nat (n div 64 ^ 3) :: uint32) = n div 64 ^ 3"
      unfolding unat_of_nat by (rule mod_less) (rule le_less_trans [OF div_le_dividend], use n in simp)
    moreover have "unat ?c div 32 = 7" "unat ?c div 16 = 15" using x c(1) by (intro div_nat_eqI; simp)+
    ultimately show ?thesis
      using utf8_finish_enc [OF assms, of 3 "of_nat (n div 64 ^ 3)" "0x10000" rest] c
      by (simp add: cbs_get_utf8_lead n_def)
  qed
qed

lemma utf8_finish_canonical:
  assumes "utf8_finish v k lb cbs = (Some u, rest)" and "(unat v + 1) * 64 ^ k \<le> 2 ^ 26"
  shows "is_valid_code_point u" "lb \<le> u" "unat u div 64 ^ k = unat v"
    "cbs = map (\<lambda>i. utf8_cont i (unat u)) (rev [0..<k]) @ rest"
proof -
  have r: "utf8_continuation v k cbs = (Some u, rest)" "is_valid_code_point u" "lb \<le> u"
    using assms(1) by (auto simp: utf8_finish_def not_less split: prod.splits option.splits if_splits)
  then show "is_valid_code_point u" "lb \<le> u" by auto
  show "unat u div 64 ^ k = unat v" "cbs = map (\<lambda>i. utf8_cont i (unat u)) (rev [0..<k]) @ rest"
    using utf8_continuation_canonical [OF assms(2) r(1)] by auto
qed

lemma lead_split: "unat (c :: byte) div 2 ^ n = m \<Longrightarrow> c = of_nat (m * 2 ^ n + unat c mod 2 ^ n)"
  by (intro unat_eq_of_nat) (metis div_mult_mod_eq)

lemma cbs_get_utf8_canonical:
  assumes "cbs_get_utf8 cbs = (Some u, rest)"
  shows "is_valid_code_point u \<and> cbs = utf8_bytes u @ rest"
proof -
  obtain c cbs' where cbs: "cbs = c # cbs'" using assms by (cases cbs) (auto simp: cbs_get_utf8_def)
  have w: "unat (of_nat x :: uint32) = x" if "x < 256" for x using that by (simp add: unat_of_nat)
  consider (1) "unat c < 0x80" "u = of_nat (unat c)" "cbs' = rest"
    | (2) "unat c div 2 ^ 5 = 6" "utf8_finish (of_nat (unat c mod 2 ^ 5)) 1 0x80 cbs' = (Some u, rest)"
    | (3) "unat c div 2 ^ 4 = 14" "utf8_finish (of_nat (unat c mod 2 ^ 4)) 2 0x800 cbs' = (Some u, rest)"
    | (4) "unat c div 2 ^ 3 = 30" "utf8_finish (of_nat (unat c mod 2 ^ 3)) 3 0x10000 cbs' = (Some u, rest)"
    using assms unfolding cbs cbs_get_utf8_lead by (auto split: if_splits)
  then show ?thesis
  proof cases
    case 1
    then have "unat u = unat c" by (simp only: w byte_lt)
    then show ?thesis using 1 is_valid_small [of u] by (simp add: cbs utf8_bytes_def)
  next
    case 2
    let ?v = "of_nat (unat c mod 2 ^ 5) :: uint32"
    have "unat c mod 2 ^ 5 < 2 ^ 5" by simp
    then have v: "unat ?v = unat c mod 2 ^ 5" and b: "(unat ?v + 1) * 64 ^ 1 \<le> 2 ^ 26" by (simp_all add: unat_of_nat)
    note f = utf8_finish_canonical [OF 2(2) b, unfolded v]
    have "unat u < 0x800" using f(3) \<open>unat c mod 2 ^ 5 < 2 ^ 5\<close> by (simp add: div_less_iff_less_mult)
    moreover have "0x80 \<le> unat u" using f(2) by (simp add: word_le_nat_alt)
    ultimately show ?thesis
      using f lead_split [OF 2(1)] unfolding cbs f(3) [symmetric] by (simp add: utf8_bytes_def Let_def)
  next
    case 3
    let ?v = "of_nat (unat c mod 2 ^ 4) :: uint32"
    have "unat c mod 2 ^ 4 < 2 ^ 4" by simp
    then have v: "unat ?v = unat c mod 2 ^ 4" and b: "(unat ?v + 1) * 64 ^ 2 \<le> 2 ^ 26" by (simp_all add: unat_of_nat)
    note f = utf8_finish_canonical [OF 3(2) b, unfolded v]
    have "unat u < 0x10000" using f(3) \<open>unat c mod 2 ^ 4 < 2 ^ 4\<close> by (simp add: div_less_iff_less_mult)
    moreover have "0x800 \<le> unat u" using f(2) by (simp add: word_le_nat_alt)
    ultimately show ?thesis
      using f lead_split [OF 3(1)] unfolding cbs f(3) [symmetric] by (simp add: utf8_bytes_def Let_def upt_rec)
  next
    case 4
    let ?v = "of_nat (unat c mod 2 ^ 3) :: uint32"
    have r: "rev [0..<3] = [2, 1, 0 :: nat]" by (simp add: upt_rec numeral_2_eq_2)
    have "unat c mod 2 ^ 3 < 2 ^ 3" by simp
    then have v: "unat ?v = unat c mod 2 ^ 3" and b: "(unat ?v + 1) * 64 ^ 3 \<le> 2 ^ 26" by (simp_all add: unat_of_nat)
    note f = utf8_finish_canonical [OF 4(2) b, unfolded v r]
    have "0x10000 \<le> unat u" using f(2) by (simp add: word_le_nat_alt)
    then show ?thesis
      using f lead_split [OF 4(1)] unfolding cbs f(3) [symmetric] by (simp add: utf8_bytes_def Let_def)
  qed
qed

lemma top_or_value:
  assumes "unat x < 2 ^ k" and "(ucast (TOP_BITS n) :: uint32) = push_bit k (of_nat m)" and "m * 2 ^ k + 2 ^ k \<le> 256"
  shows "top_or n x = of_nat (m * 2 ^ k + unat x)"
proof -
  have "m * 1 \<le> m * 2 ^ k" by (rule mult_le_mono2) simp
  then have "m < 256" using assms(3) by (metis add_lessD1 le_less_trans less_le_trans mult.right_neutral
        nat_less_le not_add_less1 zero_less_power zero_less_numeral less_add_same_cancel1)
  then have m: "unat (of_nat m :: uint32) = m" by (simp add: unat_of_nat)
  have "m * 2 ^ k \<le> 256" using assms(3) by linarith
  then have "m * 2 ^ k < 2 ^ 32" by simp
  then have "unat (ucast (TOP_BITS n) OR x) = m * 2 ^ k + unat x"
    unfolding assms(2) using unat_push_or [of x k "of_nat m"] assms(1) m by simp
  moreover have "m * 2 ^ k + unat x < 256" using assms by linarith
  ultimately have "unat (top_or n x) = m * 2 ^ k + unat x"
    by (simp add: top_or_def unsigned_ucast_eq take_bit_nat_eq_self)
  then show ?thesis by (rule unat_eq_of_nat)
qed

lemma unat_bottom6: "unat (bottom6 x) = unat x mod 64"
proof -
  have "ucast (BOTTOM_BITS 6) = (mask 6 :: uint32)" by (simp add: BOTTOM_BITS_def mask_eq_exp_minus_1)
  then show ?thesis by (simp add: bottom6_def unat_and_low)
qed

lemma top_or_1: "top_or 1 (bottom6 (drop_bit (6 * k) u)) = utf8_cont k (unat u)"
  using top_or_value [of "bottom6 (drop_bit (6 * k) u)" 6 1 2]
  by (simp add: TOP_BITS_values unat_bottom6 unat_drop_bit utf8_cont_def power_mult)

lemma top_or_1s:
  "top_or 1 (bottom6 u) = utf8_cont 0 (unat u)" "top_or 1 (bottom6 (drop_bit 6 u)) = utf8_cont 1 (unat u)"
  "top_or 1 (bottom6 (drop_bit 12 u)) = utf8_cont 2 (unat u)"
  using top_or_1 [of 0 u] top_or_1 [of 1 u] top_or_1 [of 2 u] by simp_all

lemma utf8_cont_shift:
  "utf8_cont 0 (unat (drop_bit 6 u)) = utf8_cont 1 (unat (u :: uint32))"
  "utf8_cont 0 (unat (drop_bit 12 u)) = utf8_cont 2 (unat (u :: uint32))"
  by (simp_all add: utf8_cont_def unat_drop_bit)

lemma top_or_leads:
  "unat u < 0x800 \<Longrightarrow> top_or 2 (drop_bit 6 u) = of_nat (0xc0 + unat u div 64)"
  "unat u < 0x10000 \<Longrightarrow> top_or 3 (drop_bit 12 u) = of_nat (0xe0 + unat u div 64 ^ 2)"
  "unat u \<le> 0x10ffff \<Longrightarrow> top_or 4 (drop_bit 18 u) = of_nat (0xf0 + unat u div 64 ^ 3)"
proof -
  show "top_or 2 (drop_bit 6 u) = of_nat (0xc0 + unat u div 64)" if "unat u < 0x800"
    using top_or_value [of "drop_bit 6 u" 5 2 6] that
    by (simp add: TOP_BITS_values unat_drop_bit less_mult_imp_div_less)
  show "top_or 3 (drop_bit 12 u) = of_nat (0xe0 + unat u div 64 ^ 2)" if "unat u < 0x10000"
    using top_or_value [of "drop_bit 12 u" 4 3 14] that
    by (simp add: TOP_BITS_values unat_drop_bit less_mult_imp_div_less)
  show "top_or 4 (drop_bit 18 u) = of_nat (0xf0 + unat u div 64 ^ 3)" if "unat u \<le> 0x10ffff"
    using top_or_value [of "drop_bit 18 u" 3 4 30] that
    by (simp add: TOP_BITS_values unat_drop_bit less_mult_imp_div_less)
qed

lemma writes_utf8:
  assumes "is_valid_code_point u"
  shows "writes (\<lambda>s. cbb_add_utf8 s d u) d (utf8_bytes u)"
proof -
  have n: "unat u \<le> 0x10ffff" using valid_bound [OF assms] .
  have le: "u \<le> 0x7f \<longleftrightarrow> unat u < 0x80" "u \<le> 0x7ff \<longleftrightarrow> unat u < 0x800" "u \<le> 0xffff \<longleftrightarrow> unat u < 0x10000"
    "u \<le> 0x10ffff \<longleftrightarrow> unat u \<le> 0x10ffff" by (auto simp: word_le_nat_alt)
  note c = top_or_1s top_or_1s [unfolded One_nat_def] top_or_leads utf8_cont_shift utf8_cont_shift [unfolded One_nat_def]
  consider "unat u < 0x80" | "0x80 \<le> unat u" "unat u < 0x800" | "0x800 \<le> unat u" "unat u < 0x10000"
    | "0x10000 \<le> unat u" by linarith
  then show ?thesis
  proof cases
    case 1
    moreover have "(ucast u :: byte) = of_nat (unat u)" by (rule word_unat_eq_iff [THEN iffD2]) (simp add: unsigned_ucast_eq unat_of_nat take_bit_eq_mod)
    ultimately show ?thesis using assms by (simp add: cbb_add_utf8_def le utf8_bytes_def writes_u8)
  next
    case 2
    then show ?thesis
      using assms writes_then [OF writes_u8 [of d "top_or 2 (drop_bit 6 u)"] writes_u8 [of d "top_or 1 (bottom6 u)"]]
      by (simp add: cbb_add_utf8_def le utf8_bytes_def Let_def c)
  next
    case 3
    then show ?thesis
      using assms writes_then [OF writes_u8 [of d "top_or 3 (drop_bit 12 u)"]
          writes_then [OF writes_u8 [of d "top_or 1 (bottom6 (drop_bit 6 u))"] writes_u8 [of d "top_or 1 (bottom6 u)"]]]
      by (simp add: cbb_add_utf8_def le utf8_bytes_def Let_def c)
  next
    case 4
    then show ?thesis
      using assms n writes_then [OF writes_u8 [of d "top_or 4 (drop_bit 18 u)"]
          writes_then [OF writes_u8 [of d "top_or 1 (bottom6 (drop_bit 12 u))"]
          writes_then [OF writes_u8 [of d "top_or 1 (bottom6 (drop_bit 6 u))"] writes_u8 [of d "top_or 1 (bottom6 u)"]]]]
      by (simp add: cbb_add_utf8_def le utf8_bytes_def Let_def c)
  qed
qed

interpretation utf8: char_codec is_valid_code_point utf8_bytes cbs_get_utf8 cbb_add_utf8
proof
  show "cbs_get_utf8 cbs = (Some a, rest) \<Longrightarrow> is_valid_code_point a \<and> cbs = utf8_bytes a @ rest" for cbs a rest
    by (rule cbs_get_utf8_canonical)
  show "\<not> is_valid_code_point u \<Longrightarrow> cbb_add_utf8 s d u = (False, s)" for u s d
    by (simp add: cbb_add_utf8_def)
qed (simp_all only: cbs_get_utf8_bytes writes_utf8)

section \<open>Fixed-width encodings\<close>

definition latin1_valid :: "uint32 \<Rightarrow> bool" where
  "latin1_valid u \<longleftrightarrow> u \<le> 0xff"

definition ucs2_valid :: "uint32 \<Rightarrow> bool" where
  "ucs2_valid u \<longleftrightarrow> u \<le> 0xffff \<and> is_valid_code_point u"

lemma unat_ucast_down:
  fixes w :: "'b::len word"
  assumes "unat w < 2 ^ LENGTH('a)"
  shows "unat (ucast w :: 'a::len word) = unat w"
  using assms by (simp add: unsigned_ucast_eq take_bit_nat_eq_self)

lemma unat_of_unat_64: "unat (of_nat (unat (u :: uint32)) :: uint64) = unat u"
  unfolding unat_of_nat by (rule mod_less) (rule less_trans [OF unsigned_less], simp)

interpretation latin1: char_codec latin1_valid "\<lambda>u. be_bytes 1 (unat u)" cbs_get_latin1 cbb_add_latin1
proof
  fix u :: uint32 and rest assume "latin1_valid u"
  then have "unat u < 256" by (simp add: latin1_valid_def word_le_nat_alt)
  then have "unat (of_nat (unat u) :: byte) = unat u" by (simp only: unat_of_nat_byte mod_less)
  then have "ucast (of_nat (unat u) :: byte) = u" by (simp only: word_unat_eq_iff) (simp add: unat_ucast_up)
  then show "cbs_get_latin1 (be_bytes 1 (unat u) @ rest) = (Some u, rest)" by (simp add: cbs_get_latin1_def)
next
  fix cbs u rest assume "cbs_get_latin1 cbs = (Some u, rest)"
  then obtain c where cbs: "cbs = c # rest" and u: "u = ucast c" by (cases cbs) (auto simp: cbs_get_latin1_def)
  have "unat u = unat c" by (simp add: u unat_ucast_up)
  moreover have "unat c < 256" by (rule byte_lt)
  ultimately show "latin1_valid u \<and> cbs = be_bytes 1 (unat u) @ rest"
    using cbs by (simp add: latin1_valid_def word_le_nat_alt del: byte_lt)
next
  fix u :: uint32 and d assume v: "latin1_valid u"
  have "(ucast u :: byte) = of_nat (unat u)"
    by (simp only: word_unat_eq_iff unat_of_nat_byte) (simp add: unsigned_ucast_eq take_bit_eq_mod)
  then show "writes (\<lambda>s. cbb_add_latin1 s d u) d (be_bytes 1 (unat u))"
    using v writes_u8 [of d "ucast u"] by (simp add: cbb_add_latin1_def latin1_valid_def)
qed (simp add: latin1_valid_def cbb_add_latin1_def)

lemma get_fixed:
  assumes "n \<le> 8" and "unat u < 256 ^ n"
  shows "cbs_get_u (be_bytes n (unat u) @ rest) n = (Some (of_nat (unat (u :: uint32))), rest)"
  using assms by (simp add: cbs_get_u_eq be_val_be_bytes)

lemma get_fixed_canonical:
  assumes "cbs_get_u cbs n = (Some v, rest)" and "n \<le> 8"
  shows "cbs = be_bytes n (unat v) @ rest" and "unat v < 256 ^ n"
proof -
  have l: "n \<le> length cbs" and v: "v = of_nat (be_val (take n cbs))" and r: "rest = drop n cbs"
    using assms by (auto simp: cbs_get_u_eq split: if_splits)
  have u: "unat v = be_val (take n cbs)" unfolding v by (rule unat_of_nat_be_val) (use assms(2) in simp)
  have t: "length (take n cbs) = n" using l by simp
  show "cbs = be_bytes n (unat v) @ rest"
    using be_bytes_be_val [of "take n cbs"] r u unfolding t by simp
  show "unat v < 256 ^ n" unfolding u using be_val_lt [of "take n cbs"] unfolding t .
qed

interpretation ucs2: char_codec ucs2_valid "\<lambda>u. be_bytes 2 (unat u)" cbs_get_ucs2_be cbb_add_ucs2_be
proof
  fix u :: uint32 and rest assume v: "ucs2_valid u"
  then have u: "unat u < 2 ^ 16" by (simp add: ucs2_valid_def word_le_nat_alt)
  define x where "x = (ucast (of_nat (unat u) :: uint64) :: uint16)"
  have "unat x = unat u"
    using unat_ucast_down [of "of_nat (unat u) :: uint64", where ?'a = 16] u unfolding unat_of_unat_64 x_def by simp
  then have "ucast x = u" by (intro word_unat_eq_iff [THEN iffD2]) (simp add: unat_ucast_up)
  then have "ucast (ucast (of_nat (unat u) :: uint64) :: uint16) = u" unfolding x_def .
  then show "cbs_get_ucs2_be (be_bytes 2 (unat u) @ rest) = (Some u, rest)"
    using get_fixed [of 2 u rest] u v by (simp add: cbs_get_ucs2_be_def CBS_get_u16_def ucs2_valid_def)
next
  fix cbs u rest assume "cbs_get_ucs2_be cbs = (Some u, rest)"
  then obtain v where v: "cbs_get_u cbs 2 = (Some v, rest)" and u: "u = ucast (ucast v :: uint16)"
    and ok: "is_valid_code_point u"
    by (auto simp: cbs_get_ucs2_be_def CBS_get_u16_def split: prod.splits option.splits if_splits)
  have v16: "unat v < 2 ^ 16" using get_fixed_canonical(2) [OF v] by simp
  define x where "x = (ucast v :: uint16)"
  have "unat x = unat v" unfolding x_def by (rule unat_ucast_down) (use v16 in simp)
  then have "unat u = unat v" unfolding u x_def [symmetric] by (simp add: unat_ucast_up)
  then show "ucs2_valid u \<and> cbs = be_bytes 2 (unat u) @ rest"
    using get_fixed_canonical(1) [OF v] v16 ok by (simp add: ucs2_valid_def word_le_nat_alt)
next
  fix u :: uint32 and d assume v: "ucs2_valid u"
  then have u: "unat u < 2 ^ 16" by (simp add: ucs2_valid_def word_le_nat_alt)
  define x where "x = (ucast u :: uint16)"
  have "unat x = unat u" unfolding x_def by (rule unat_ucast_down) (use u in simp)
  then have "unat (ucast x :: uint64) = unat u" by (simp add: unat_ucast_up)
  then show "writes (\<lambda>s. cbb_add_ucs2_be s d u) d (be_bytes 2 (unat u))"
    using v writes_add_u [of 2 "ucast x" d] u
    by (simp add: cbb_add_ucs2_be_def ucs2_valid_def CBB_add_u16_def x_def [symmetric])
qed (auto simp: ucs2_valid_def cbb_add_ucs2_be_def)

interpretation utf32: char_codec is_valid_code_point "\<lambda>u. be_bytes 4 (unat u)" cbs_get_utf32_be cbb_add_utf32_be
proof
  fix u :: uint32 and rest assume v: "is_valid_code_point u"
  have u: "unat u < 2 ^ 32" using unsigned_less [of u, where ?'a = nat] by simp
  have "unat (ucast (of_nat (unat u) :: uint64) :: uint32) = unat u"
    using unat_ucast_down [of "of_nat (unat u) :: uint64", where ?'a = 32] u unfolding unat_of_unat_64 by simp
  then have "ucast (of_nat (unat u) :: uint64) = u" by (rule word_unat_eq_iff [THEN iffD2])
  then show "cbs_get_utf32_be (be_bytes 4 (unat u) @ rest) = (Some u, rest)"
    using get_fixed [of 4 u rest] u v by (simp add: cbs_get_utf32_be_def CBS_get_u32_def)
next
  fix cbs u rest assume "cbs_get_utf32_be cbs = (Some u, rest)"
  then obtain v where v: "cbs_get_u cbs 4 = (Some v, rest)" and u: "u = ucast v" and ok: "is_valid_code_point u"
    by (auto simp: cbs_get_utf32_be_def CBS_get_u32_def split: prod.splits option.splits if_splits)
  have "unat v < 2 ^ 32" using get_fixed_canonical(2) [OF v] by simp
  then have "unat u = unat v" by (simp add: u unsigned_ucast_eq take_bit_nat_eq_self)
  then show "is_valid_code_point u \<and> cbs = be_bytes 4 (unat u) @ rest"
    using get_fixed_canonical(1) [OF v] ok by simp
next
  fix u :: uint32 and d assume v: "is_valid_code_point u"
  have "unat (ucast u :: uint64) = unat u" by (simp add: unat_ucast_up)
  moreover have "unat u < 256 ^ 4" using unsigned_less [of u, where ?'a = nat] by simp
  ultimately show "writes (\<lambda>s. cbb_add_utf32_be s d u) d (be_bytes 4 (unat u))"
    using v writes_add_u [of 4 "ucast u" d] by (simp add: cbb_add_utf32_be_def CBB_add_u32_def)
qed (simp add: cbb_add_utf32_be_def)

section \<open>Properties\<close>

text \<open>C7: UTF-8 reading is exact: \<open>cbs_get_utf8\<close> returns a character just when the input begins with the
  shortest UTF-8 form of a valid code point, which it consumes; overlong forms, surrogates,
  non-characters and stray continuation bytes are all refused.\<close>

theorem utf8_exact:
  "cbs_get_utf8 cbs = (Some u, rest) \<longleftrightarrow> is_valid_code_point u \<and> cbs = utf8_bytes u @ rest"
  using utf8.enc_dec utf8.dec_enc by blast

text \<open>A string written character by character with one of the four writers into a builder, in UTF-8,
  Latin-1, UCS-2 or UTF-32, is read back by the reader of the same encoding.\<close>

theorem unicode_string_roundtrip:
  assumes "k < size_max1"
  shows "(build_with al k (add_code_points cbb_add_utf8 0 us) = Some bs \<longrightarrow> get_code_points cbs_get_utf8 (length us) bs = (Some us, [])) \<and>
    (build_with al k (add_code_points cbb_add_latin1 0 us) = Some bs \<longrightarrow> get_code_points cbs_get_latin1 (length us) bs = (Some us, [])) \<and>
    (build_with al k (add_code_points cbb_add_ucs2_be 0 us) = Some bs \<longrightarrow> get_code_points cbs_get_ucs2_be (length us) bs = (Some us, [])) \<and>
    (build_with al k (add_code_points cbb_add_utf32_be 0 us) = Some bs \<longrightarrow> get_code_points cbs_get_utf32_be (length us) bs = (Some us, []))"
  using utf8.string_roundtrip latin1.string_roundtrip ucs2.string_roundtrip utf32.string_roundtrip assms by blast

theorem unicode_string_roundtrip_witness:
  "get_code_points cbs_get_utf8 2 [0x41, 0xe2, 0x82, 0xac] = (Some [0x41, 0x20ac], [])"
proof -
  have v: "\<forall>u \<in> set [0x41, 0x20ac]. is_valid_code_point u" by (simp add: is_valid_code_point_def)
  have b: "concat (map utf8_bytes [0x41, 0x20ac]) = [0x41, 0xe2, 0x82, 0xac]"
    by (simp add: utf8_bytes_def utf8_cont_def)
  have "build_with plentiful 0 (add_code_points cbb_add_utf8 0 [0x41, 0x20ac]) = Some [0x41, 0xe2, 0x82, 0xac]"
    by (rule build_with_total [OF utf8.add_code_points_writes [OF v], unfolded b])
      (simp_all add: plentiful_never_fails size_max1_def)
  then show ?thesis
    using unicode_string_roundtrip [of 0 plentiful "[0x41, 0x20ac]" "[0x41, 0xe2, 0x82, 0xac]"]
    by (simp add: size_max1_def numeral_2_eq_2)
qed

text \<open>\<open>cbb_add_utf8\<close> writes as many bytes as \<open>cbb_get_utf8_len\<close> announces, and \<open>cbb_add_utf8\<close> fails
  without touching the builder on everything that is not a valid code point.\<close>

theorem utf8_length:
  "(is_valid_code_point u \<longrightarrow> writes (\<lambda>s. cbb_add_utf8 s d u) d (utf8_bytes u) \<and>
      length (utf8_bytes u) = cbb_get_utf8_len u) \<and>
   (\<not> is_valid_code_point u \<longrightarrow> cbb_add_utf8 s d u = (False, s))"
  using writes_utf8 utf8.add_invalid
  by (auto simp: utf8_bytes_def cbb_get_utf8_len_def Let_def word_le_nat_alt)

theorem utf8_length_witness:
  "length (utf8_bytes 0x20ac) = 3 \<and> cbb_add_utf8 CBB_zero 0 0xd800 = (False, CBB_zero)"
proof -
  have "is_valid_code_point 0x20ac" "\<not> is_valid_code_point 0xd800" by (simp_all add: is_valid_code_point_def)
  then show ?thesis
    using utf8_length [of "0x20ac"] utf8_length [of "0xd800"] by (simp add: cbb_get_utf8_len_def)
qed

end
