(* ===== verification/Ber.thy ===== *)
theory Ber
  imports Asn1_Int
begin

text \<open>
  \<open>crypto/bytestring/ber.c\<close>: finding BER constructs, converting BER to DER, and
  implicitly tagged strings.

  \<open>cbs_convert_ber\<close> calls itself on the rest of its own input and goes on from where that
  call stopped, so its model carries fuel and returns \<open>None\<close> only when it runs out; one
  more than the length of the input is always enough (\<open>convert_ber_total\<close>).
\<close>

section \<open>The code\<close>

definition kMaxDepth :: nat where
  "kMaxDepth = 2048"

definition CBS_ASN1_STRING_TYPES :: "uint32 list" where
  "CBS_ASN1_STRING_TYPES = [CBS_ASN1_OCTETSTRING, 0xc, 0x12, 0x13, 0x14, 0x15, 0x16, 0x19, 0x1a, 0x1b, 0x1c, 0x1e]"

definition is_string_type :: "uint32 \<Rightarrow> bool" where
  "is_string_type tag \<longleftrightarrow> tag AND NOT CBS_ASN1_CONSTRUCTED \<in> set CBS_ASN1_STRING_TYPES"

lemma ber_element_split:
  assumes "cbs_get_any_asn1_element cbs ber_ok = (Some e, cbs')"
  shows "cbs = elem_out e @ cbs'" "2 \<le> elem_header_len e" "elem_header_len e \<le> length (elem_out e)"
    "length (elem_out e) < size_max1"
proof -
  obtain t header where tag: "parse_asn1_tag cbs = (Some t, header)"
    using assms by (auto simp: cbs_get_any_asn1_element_def split: prod.splits option.splits)
  obtain lb body where h: "header = lb # body"
    using assms tag by (cases header) (auto simp: cbs_get_any_asn1_element_def)
  have cbs: "cbs = der_tag_bytes t @ lb # body" using asn1_tag.enc_dec [OF tag] h by simp
  define hl where "hl = length (der_tag_bytes t) + 1"
  have hl: "2 \<le> hl" "hl \<le> 2 ^ 29 + 2" and hlen: "CBS_len cbs - CBS_len body = hl"
    using length_der_tag_bytes [of t] by (auto simp: hl_def cbs CBS_len_def Suc_le_eq)
  have "\<exists>n h f. asn1_take_element cbs n t h f = (Some e, cbs') \<and> hl \<le> h \<and> h \<le> n \<and> n < size_max1"
  proof (cases "lb AND 0x80 = 0")
    case True
    have "unat lb < 256" by (rule byte_lt)
    then have "unat lb + hl < size_max1" using hl by (simp add: size_max1_def del: byte_lt)
    then have n: "size_add (unat lb) hl = unat lb + hl" "unat lb + hl < size_max1" by (simp_all add: size_add_noover)
    then have "asn1_take_element cbs (unat lb + hl) t hl False = (Some e, cbs')"
      using assms tag h True by (simp add: cbs_get_any_asn1_element_def hlen Let_def)
    then show ?thesis using n(2) by (intro exI [of _ "unat lb + hl"] exI [of _ hl]) auto
  next
    case False
    let ?nb = "unat (lb AND 0x7f)"
    show ?thesis
    proof (cases "ber_ok \<and> t AND CBS_ASN1_CONSTRUCTED \<noteq> 0 \<and> ?nb = 0")
      case True
      then have "asn1_take_element cbs hl t hl True = (Some e, cbs')"
        using assms tag h False by (simp add: cbs_get_any_asn1_element_def hlen Let_def)
      moreover have "hl < size_max1" using hl(2) by (simp add: size_max1_def)
      ultimately show ?thesis by blast
    next
      case ind: False
      then obtain len64 r where u: "cbs_get_u body ?nb = (Some len64, r)" and nb: "0 < ?nb" "?nb \<le> 4"
        and take: "asn1_take_element cbs (size_add (unat len64) (hl + ?nb)) t (hl + ?nb)
           (len64 < 128 \<or> drop_bit ((?nb - 1) * 8) len64 = 0) = (Some e, cbs')"
        using assms tag h False
        by (auto simp: cbs_get_any_asn1_element_def hlen Let_def split: prod.splits option.splits if_splits)
      have le: "?nb \<le> length body" and v: "len64 = of_nat (be_val (take ?nb body))"
        using u nb by (auto simp: cbs_get_u_eq split: if_splits)
      have "unat len64 = be_val (take ?nb body)" unfolding v by (rule unat_of_nat_be_val) (use nb in simp)
      moreover have "be_val (take ?nb body) < 256 ^ ?nb" using be_val_lt [of "take ?nb body"] le by simp
      moreover have "(256 :: nat) ^ ?nb \<le> 256 ^ 4" using nb(2) by (intro power_increasing) auto
      ultimately have "unat len64 < 2 ^ 32" by simp
      then have n: "unat len64 + (hl + ?nb) < size_max1" using hl nb by (simp add: size_max1_def)
      then have "size_add (unat len64) (hl + ?nb) = unat len64 + (hl + ?nb)" by (rule size_add_noover)
      then show ?thesis using take n by (metis le_add1 le_add2)
    qed
  qed
  then show "cbs = elem_out e @ cbs'" "2 \<le> elem_header_len e" "elem_header_len e \<le> length (elem_out e)"
    "length (elem_out e) < size_max1"
    using hl by (auto simp: asn1_take_element_Some)
qed

lemma ber_element_lengths:
  assumes "CBS_get_any_ber_asn1_element cbs = (Some e, cbs')"
  shows "length cbs' < length cbs \<and> length (drop (elem_header_len e) (elem_out e)) < length cbs"
proof -
  note s = ber_element_split [OF assms [unfolded CBS_get_any_ber_asn1_element_def]]
  have "length cbs = length (elem_out e) + length cbs'" using s(1) by simp
  then show ?thesis using s(2,3) by auto
qed

text \<open>
  The loop of \<open>cbs_find_ber\<close>, with the value \<open>*ber_found\<close> has when the next element is
  reached; \<open>None\<close> is the return value 0, \<open>Some\<close> the final \<open>*ber_found\<close>. Reading an
  element sets \<open>*ber_found\<close> afresh.
\<close>

function find_ber_loop :: "cbs \<Rightarrow> bool \<Rightarrow> nat \<Rightarrow> bool option" where
  "find_ber_loop inp ber_found depth =
     (if depth > kMaxDepth then None
      else if CBS_len inp = 0 then Some ber_found
      else case CBS_get_any_ber_asn1_element inp of
        (None, _) \<Rightarrow> None
      | (Some e, inp') \<Rightarrow>
          if elem_ber_found e then Some True
          else if elem_tag e AND CBS_ASN1_CONSTRUCTED \<noteq> 0 then
            (if is_string_type (elem_tag e) then Some True
             else case CBS_skip (elem_out e) (elem_header_len e) of
               (False, _) \<Rightarrow> None
             | (True, contents) \<Rightarrow>
                 (case find_ber_loop contents False (depth + 1) of
                    None \<Rightarrow> None
                  | Some found \<Rightarrow> find_ber_loop inp' found depth))
          else find_ber_loop inp' False depth)"
  by pat_completeness auto
termination
  by (relation "measure (\<lambda>(inp, f, d). length inp)")
    (auto simp: CBS_skip_eq dest!: ber_element_lengths [OF sym] split: if_splits)

declare find_ber_loop.simps [simp del]

definition cbs_find_ber :: "cbs \<Rightarrow> nat \<Rightarrow> bool option" where
  "cbs_find_ber orig_in depth = find_ber_loop (CBS_init (CBS_data orig_in) (CBS_len orig_in)) False depth"

definition is_eoc :: "nat \<Rightarrow> cbs \<Rightarrow> bool" where
  "is_eoc header_len contents \<longleftrightarrow>
     header_len = 2 \<and> CBS_len contents = 2 \<and> OPENSSL_memcmp (CBS_data contents) [0, 0] = 0"

text \<open>
  \<open>out\<close> is the object at position \<open>d\<close>; the child that \<open>CBB_add_asn1\<close> opens for the
  contents is at \<open>Suc d\<close>. The result is the return value, \<open>*in\<close> and the builder.
\<close>

primrec cbs_convert_ber :: "nat \<Rightarrow> cbs \<Rightarrow> nat \<Rightarrow> uint32 \<Rightarrow> bool \<Rightarrow> nat \<Rightarrow> cbb_state \<Rightarrow> (bool \<times> cbs \<times> cbb_state) option" where
  "cbs_convert_ber 0 inp d string_tag looking_for_eoc depth s = None"
| "cbs_convert_ber (Suc fuel) inp d string_tag looking_for_eoc depth s =
     (if depth > kMaxDepth then Some (False, inp, s)
      else if CBS_len inp = 0 then Some (\<not> looking_for_eoc, inp, s)
      else case CBS_get_any_ber_asn1_element inp of
        (None, inp1) \<Rightarrow> Some (False, inp1, s)
      | (Some e, inp1) \<Rightarrow>
     (let tag = elem_tag e; header_len = elem_header_len e; contents = elem_out e in
      if is_eoc header_len contents then Some (looking_for_eoc, inp1, s)
      else if string_tag \<noteq> 0 \<and> tag AND NOT CBS_ASN1_CONSTRUCTED \<noteq> string_tag then Some (False, inp1, s)
      else
        let constructed_string = (string_tag = 0 \<and> tag AND CBS_ASN1_CONSTRUCTED \<noteq> 0 \<and> is_string_type tag);
            out_tag = (if constructed_string then tag AND NOT CBS_ASN1_CONSTRUCTED else tag);
            child_string_tag = (if constructed_string then out_tag else string_tag);
            d' = (if string_tag \<noteq> 0 then d else Suc d) in
        case (if string_tag \<noteq> 0 then (True, s) else CBB_add_asn1 s d out_tag) of
          (False, s1) \<Rightarrow> Some (False, inp1, s1)
        | (True, s1) \<Rightarrow>
            if CBS_len contents = header_len \<and> header_len > 0 \<and> CBS_data contents ! (header_len - 1) = 0x80 then
              (case cbs_convert_ber fuel inp1 d' child_string_tag True (depth + 1) s1 of
                 None \<Rightarrow> None
               | Some (False, inp2, s2) \<Rightarrow> Some (False, inp2, s2)
               | Some (True, inp2, s2) \<Rightarrow>
                   (case CBB_flush s2 d of
                      (False, s3) \<Rightarrow> Some (False, inp2, s3)
                    | (True, s3) \<Rightarrow> cbs_convert_ber fuel inp2 d string_tag looking_for_eoc depth s3))
            else
              (case CBS_skip contents header_len of
                 (False, _) \<Rightarrow> Some (False, inp1, s1)
               | (True, contents) \<Rightarrow>
                   (case (if tag AND CBS_ASN1_CONSTRUCTED \<noteq> 0
                          then map_option (\<lambda>(ok, _, s2). (ok, s2))
                                 (cbs_convert_ber fuel contents d' child_string_tag False (depth + 1) s1)
                          else Some (CBB_add_bytes s1 d' (CBS_data contents))) of
                      None \<Rightarrow> None
                    | Some (False, s2) \<Rightarrow> Some (False, inp1, s2)
                    | Some (True, s2) \<Rightarrow>
                        (case CBB_flush s2 d of
                           (False, s3) \<Rightarrow> Some (False, inp1, s3)
                         | (True, s3) \<Rightarrow> cbs_convert_ber fuel inp1 d string_tag looking_for_eoc depth s3)))))"

declare cbs_convert_ber.simps [simp del]

text \<open>The result: \<open>Some (*out, *out_storage)\<close> or \<open>None\<close> for 0, and \<open>*in\<close>.\<close>

definition CBS_asn1_ber_to_der :: "allocator \<Rightarrow> cbs \<Rightarrow> (cbs \<times> byte list option) option \<times> cbs" where
  "CBS_asn1_ber_to_der al inp =
     (case cbs_find_ber inp 0 of
        None \<Rightarrow> (None, inp)
      | Some False \<Rightarrow>
          (case CBS_get_any_asn1_element inp of
             (None, inp') \<Rightarrow> (None, inp')
           | (Some e, inp') \<Rightarrow> (Some (elem_out e, None), inp'))
      | Some True \<Rightarrow>
          (case CBB_init al (CBS_len inp) of
             (False, _, _) \<Rightarrow> (None, inp)
           | (True, s, _) \<Rightarrow>
               (case cbs_convert_ber (Suc (CBS_len inp)) inp 0 0 False 0 s of
                  None \<Rightarrow> (None, inp)
                | Some (False, inp', _) \<Rightarrow> (None, inp')
                | Some (True, inp', s') \<Rightarrow>
                    (case CBB_finish s' 0 False of
                       (None, _) \<Rightarrow> (None, inp')
                     | (Some (storage, n), _) \<Rightarrow>
                         (Some (CBS_init (case storage of None \<Rightarrow> [] | Some p \<Rightarrow> p) n, storage), inp')))))"

lemma CBS_get_asn1_length: "CBS_get_asn1 cbs t = (Some c, cbs') \<Longrightarrow> length cbs' < length cbs"
  using length_der_tag_bytes(1) [of t] by (auto simp: get_asn1_iff der_element_def der_header_def)

function implicit_string_loop :: "uint32 \<Rightarrow> cbs \<Rightarrow> cbb_state \<Rightarrow> bool \<times> cbb_state" where
  "implicit_string_loop inner_tag child s =
     (if CBS_len child = 0 then (True, s)
      else case CBS_get_asn1 child inner_tag of
        (None, _) \<Rightarrow> (False, s)
      | (Some chunk, child') \<Rightarrow>
          (case CBB_add_bytes s 0 (CBS_data chunk) of
             (False, s') \<Rightarrow> (False, s')
           | (True, s') \<Rightarrow> implicit_string_loop inner_tag child' s'))"
  by pat_completeness auto
termination
  by (relation "measure (\<lambda>(t, child, s). length child)") (auto dest: CBS_get_asn1_length [OF sym])

declare implicit_string_loop.simps [simp del]

definition CBS_get_asn1_implicit_string ::
  "allocator \<Rightarrow> cbs \<Rightarrow> uint32 \<Rightarrow> uint32 \<Rightarrow> (cbs \<times> byte list option) option \<times> cbs" where
  "CBS_get_asn1_implicit_string al inp outer_tag inner_tag =
     (if CBS_peek_asn1_tag inp outer_tag then
        (case CBS_get_asn1 inp outer_tag of
           (None, inp') \<Rightarrow> (None, inp')
         | (Some out, inp') \<Rightarrow> (Some (out, None), inp'))
      else
        case CBB_init al (CBS_len inp) of
          (False, _, _) \<Rightarrow> (None, inp)
        | (True, s, _) \<Rightarrow>
            (case CBS_get_asn1 inp (outer_tag OR CBS_ASN1_CONSTRUCTED) of
               (None, inp') \<Rightarrow> (None, inp')
             | (Some child, inp') \<Rightarrow>
                 (case implicit_string_loop inner_tag child s of
                    (False, _) \<Rightarrow> (None, inp')
                  | (True, s') \<Rightarrow>
                      (case CBB_finish s' 0 False of
                         (None, _) \<Rightarrow> (None, inp')
                       | (Some (data, n), _) \<Rightarrow>
                           (Some (CBS_init (case data of None \<Rightarrow> [] | Some p \<Rightarrow> p) n, data), inp')))))"

section \<open>Conversion terminates\<close>

lemma ber_element_fails: "CBS_get_any_ber_asn1_element cbs = (None, cbs') \<Longrightarrow> cbs' = cbs"
  by (auto simp: CBS_get_any_ber_asn1_element_def cbs_get_any_asn1_element_def asn1_take_element_def
      CBS_get_bytes_eq Let_def split: prod.splits option.splits if_splits)

lemma convert_ber_total:
  "length inp < fuel \<Longrightarrow>
     \<exists>ok inp' s'. cbs_convert_ber fuel inp d st eoc depth s = Some (ok, inp', s') \<and> length inp' \<le> length inp"
proof (induction fuel arbitrary: inp d st eoc depth s)
  case (Suc fuel)
  have rec: "\<exists>ok i' t'. cbs_convert_ber fuel i d st eoc depth t = Some (ok, i', t') \<and> length i' \<le> length i"
    if "length i < length inp" for i d st eoc depth t
    using Suc that by simp
  obtain r inp1 where r: "CBS_get_any_ber_asn1_element inp = (r, inp1)" by fastforce
  show ?case
  proof (cases "depth > kMaxDepth \<or> CBS_len inp = 0 \<or> r = None")
    case True
    then show ?thesis using r ber_element_fails [of inp inp1] by (auto simp: cbs_convert_ber.simps)
  next
    case False
    then obtain e where e: "r = Some e" by auto
    have l: "length inp1 < length inp" "length (drop (elem_header_len e) (elem_out e)) < length inp"
      using ber_element_lengths r e by blast+
    define cs where "cs = (st = 0 \<and> elem_tag e AND CBS_ASN1_CONSTRUCTED \<noteq> 0 \<and> is_string_type (elem_tag e))"
    define out_tag where "out_tag = (if cs then elem_tag e AND NOT CBS_ASN1_CONSTRUCTED else elem_tag e)"
    define d' where "d' = (if st \<noteq> 0 then d else Suc d)"
    define cst where "cst = (if cs then out_tag else st)"
    note eq = cbs_convert_ber.simps(2) [of fuel inp d st eoc depth s, unfolded Let_def r e prod.case option.case
        cs_def [symmetric] out_tag_def [symmetric] d'_def [symmetric] cst_def [symmetric]]
    obtain ok1 s1 where o: "(if st \<noteq> 0 then (True, s) else CBB_add_asn1 s d out_tag) = (ok1, s1)" by fastforce
    let ?stop = "is_eoc (elem_header_len e) (elem_out e) \<or> (st \<noteq> 0 \<and> elem_tag e AND NOT CBS_ASN1_CONSTRUCTED \<noteq> st) \<or> \<not> ok1"
    let ?ind = "CBS_len (elem_out e) = elem_header_len e \<and> elem_header_len e > 0 \<and>
      CBS_data (elem_out e) ! (elem_header_len e - 1) = 0x80"
    note eq' = eq [unfolded o prod.case]
    consider ?stop | "\<not> ?stop" ?ind | "\<not> ?stop" "\<not> ?ind" by blast
    then show ?thesis
    proof cases
      case 1
      then show ?thesis unfolding eq' using False e l(1) by (cases ok1) auto
    next
      case 2
      obtain ok2 i2 s2 where n: "cbs_convert_ber fuel inp1 d' cst True (depth + 1) s1 = Some (ok2, i2, s2)"
        "length i2 \<le> length inp1" using rec [OF l(1)] by blast
      obtain ok3 s3 where f: "CBB_flush s2 d = (ok3, s3)" by fastforce
      have "length i2 < length inp" using n(2) l(1) by simp
      from rec [OF this, of d st eoc depth s3] show ?thesis
        unfolding eq' using False e 2 n f l(1) by (cases ok1; cases ok2; cases ok3) auto
    next
      case 3
      obtain ok4 contents where sk: "CBS_skip (elem_out e) (elem_header_len e) = (ok4, contents)" by fastforce
      then have "length contents < length inp" if ok4
        using that l(2) by (auto simp: CBS_skip_eq split: if_splits)
      then obtain ok2 i2 s2 where n: "ok4 \<Longrightarrow> cbs_convert_ber fuel contents d' cst False (depth + 1) s1 = Some (ok2, i2, s2)"
        using rec [of contents d' cst False "depth + 1" s1] by (cases ok4) auto
      obtain b where b: "ok4 \<Longrightarrow> (if elem_tag e AND CBS_ASN1_CONSTRUCTED \<noteq> 0
                 then map_option (\<lambda>(ok, _, s2). (ok, s2)) (cbs_convert_ber fuel contents d' cst False (depth + 1) s1)
                 else Some (CBB_add_bytes s1 d' (CBS_data contents))) = Some b"
        using n by (cases "elem_tag e AND CBS_ASN1_CONSTRUCTED \<noteq> 0") auto
      obtain ok5 s5 where b5: "b = (ok5, s5)" by (cases b)
      obtain ok3 s3 where f: "CBB_flush s5 d = (ok3, s3)" by fastforce
      from rec [OF l(1), of d st eoc depth s3] l(1) show ?thesis
        unfolding eq' sk prod.case
        using False e 3 f b [unfolded b5] by (cases ok1; cases ok4; cases ok5; cases ok3) (auto simp del: map_option_eq_Some)
    qed
  qed
qed simp

section \<open>Success, case by case\<close>

definition ber_open :: "uint32 \<Rightarrow> nat \<Rightarrow> uint32 \<Rightarrow> cbb_state \<Rightarrow> cbb_state \<Rightarrow> bool" where
  "ber_open st d out_tag s s1 \<longleftrightarrow> (if st \<noteq> 0 then s1 = s else CBB_add_asn1 s d out_tag = (True, s1))"

lemma convert_ber_success:
  assumes "cbs_convert_ber (Suc fuel) inp d st eoc depth s = Some (True, inp', s')"
  obtains (stop) "s' = s" "depth \<le> kMaxDepth"
  | (elem) e inp1 cs out_tag s1 s2 i2 s3 where "depth \<le> kMaxDepth"
      "CBS_get_any_ber_asn1_element inp = (Some e, inp1)"
      "cs = (st = 0 \<and> elem_tag e AND CBS_ASN1_CONSTRUCTED \<noteq> 0 \<and> is_string_type (elem_tag e))"
      "out_tag = (if cs then elem_tag e AND NOT CBS_ASN1_CONSTRUCTED else elem_tag e)"
      "ber_open st d out_tag s s1"
      "(\<exists>i eoc' i'. cbs_convert_ber fuel i (if st \<noteq> 0 then d else Suc d) (if cs then out_tag else st) eoc' (depth + 1) s1
            = Some (True, i', s2)) \<or>
       (\<exists>data. elem_tag e AND CBS_ASN1_CONSTRUCTED = 0 \<and> CBB_add_bytes s1 (if st \<noteq> 0 then d else Suc d) data = (True, s2)
          \<and> length data < size_max1)"
      "CBB_flush s2 d = (True, s3)"
      "cbs_convert_ber fuel i2 d st eoc depth s3 = Some (True, inp', s')"
proof -
  have dep: "depth \<le> kMaxDepth" using assms by (auto simp: cbs_convert_ber.simps split: if_splits)
  show thesis
  proof (cases "s' = s")
    case True
    then show ?thesis using dep by (rule stop)
  next
    case False
    then obtain e inp1 where e: "CBS_get_any_ber_asn1_element inp = (Some e, inp1)"
      and le: "CBS_len inp \<noteq> 0" and ne: "\<not> is_eoc (elem_header_len e) (elem_out e)"
      using assms by (auto simp: cbs_convert_ber.simps Let_def split: prod.splits option.splits if_splits)
    define cs where "cs = (st = 0 \<and> elem_tag e AND CBS_ASN1_CONSTRUCTED \<noteq> 0 \<and> is_string_type (elem_tag e))"
    define out_tag where "out_tag = (if cs then elem_tag e AND NOT CBS_ASN1_CONSTRUCTED else elem_tag e)"
    define d' where "d' = (if st \<noteq> 0 then d else Suc d)"
    define cst where "cst = (if cs then out_tag else st)"
    note a = assms [unfolded cbs_convert_ber.simps Let_def e prod.case option.case cs_def [symmetric]
        out_tag_def [symmetric] d'_def [symmetric] cst_def [symmetric]]
    obtain s1 where o: "(if st \<noteq> 0 then (True, s) else CBB_add_asn1 s d out_tag) = (True, s1)"
      using a dep le ne by (auto split: prod.splits bool.splits if_splits)
    have op: "ber_open st d out_tag s s1" using o by (auto simp: ber_open_def split: if_splits)
    note a' = a [unfolded o prod.case bool.case]
    let ?ind = "CBS_len (elem_out e) = elem_header_len e \<and> elem_header_len e > 0 \<and>
      CBS_data (elem_out e) ! (elem_header_len e - 1) = 0x80"
    show ?thesis
    proof (cases ?ind)
      case True
      then obtain i2 s2 s3 where "cbs_convert_ber fuel inp1 d' cst True (depth + 1) s1 = Some (True, i2, s2)"
        "CBB_flush s2 d = (True, s3)" "cbs_convert_ber fuel i2 d st eoc depth s3 = Some (True, inp', s')"
        using a' dep le ne by (auto split: prod.splits bool.splits if_splits option.splits)
      then show ?thesis using elem [OF dep e cs_def out_tag_def op] unfolding d'_def cst_def by blast
    next
      case False
      then obtain contents s2 s3 where sk: "CBS_skip (elem_out e) (elem_header_len e) = (True, contents)"
        and b: "(if elem_tag e AND CBS_ASN1_CONSTRUCTED \<noteq> 0
                 then map_option (\<lambda>(ok, _, s2). (ok, s2)) (cbs_convert_ber fuel contents d' cst False (depth + 1) s1)
                 else Some (CBB_add_bytes s1 d' (CBS_data contents))) = Some (True, s2)"
        and f: "CBB_flush s2 d = (True, s3)" "cbs_convert_ber fuel inp1 d st eoc depth s3 = Some (True, inp', s')"
        using a' dep le ne by (auto split: prod.splits bool.splits if_splits option.splits)
      show ?thesis
      proof (cases "elem_tag e AND CBS_ASN1_CONSTRUCTED \<noteq> 0")
        case True
        then obtain i' where "cbs_convert_ber fuel contents d' cst False (depth + 1) s1 = Some (True, i', s2)"
          using b by auto
        then show ?thesis using elem [OF dep e cs_def out_tag_def op _ f] unfolding d'_def cst_def by blast
      next
        case prim: False
        have "contents = drop (elem_header_len e) (elem_out e)" using sk by (auto simp: CBS_skip_eq split: if_splits)
        then have "length contents < size_max1"
          using ber_element_split(4) [OF e [unfolded CBS_get_any_ber_asn1_element_def]] by simp
        moreover have "CBB_add_bytes s1 d' contents = (True, s2)" using b prim by (simp add: CBS_data_def)
        ultimately show ?thesis using elem [OF dep e cs_def out_tag_def op _ f] prim unfolding d'_def by blast
      qed
    qed
  qed
qed

section \<open>The output is DER\<close>

text \<open>
  \<open>der_forest n bs\<close>: \<open>bs\<close> is a sequence of DER elements in which constructed elements are
  not strings and hold such sequences themselves, nested at most \<open>n\<close> deep.
\<close>

inductive der_forest :: "nat \<Rightarrow> byte list \<Rightarrow> bool" where
  forest_Nil: "der_forest n []"
| forest_prim: "der_valid (c, t) \<Longrightarrow> t AND CBS_ASN1_CONSTRUCTED = 0 \<Longrightarrow> der_forest n rest \<Longrightarrow>
    der_forest n (der_element (c, t) @ rest)"
| forest_cons: "der_valid (c, t) \<Longrightarrow> t AND CBS_ASN1_CONSTRUCTED \<noteq> 0 \<Longrightarrow> \<not> is_string_type t \<Longrightarrow>
    der_forest n c \<Longrightarrow> der_forest (Suc n) rest \<Longrightarrow> der_forest (Suc n) (der_element (c, t) @ rest)"

lemma child_closed:
  assumes r: "ready s d b" and o: "CBB_add_asn1 s d tag = (True, s1)"
    and e: "extends s1 (Suc d) body s2" and f: "CBB_flush s2 d = (True, s3)"
  shows "extends s d (der_element (body, tag)) s3" "der_valid (body, tag)"
proof -
  let ?pre = "content b @ der_tag_bytes tag"
  have lpre: "len b + length (der_tag_bytes tag) = length ?pre" using r by (simp add: ready_def length_content)
  obtain b2 where b2: "same_kind b b2" "content b2 = content b @ der_tag_bytes tag @ [0]"
    and s1: "s1 = with_child s b2 (length ?pre)"
    using CBB_add_asn1_opens [OF r o] unfolding lpre by metis
  have l: "length (chain s) = Suc d" using r by (simp add: ready_def)
  have bs1: "base s1 = Some b2" by (simp add: s1 with_child_def)
  obtain b4 where b4: "same_kind b2 b4" "content b4 = content b2 @ body" and s2: "s2 = s1\<lparr>base := Some b4\<rparr>"
    using e bs1 by (auto simp: extends_def ready_def)
  have s2': "s2 = with_child s b4 (length ?pre)" by (simp add: s2 s1 with_child_def)
  have "\<not> err b4" "buffer_ok b4" "content b4 = ?pre @ [0] @ body"
    using r b2 b4 by (auto simp: ready_def same_kind_def)
  then obtain b5 where "same_kind b4 b5" "content b5 = ?pre @ der_len_bytes (length body) @ body"
    "s3 = s\<lparr>base := Some b5\<rparr>" "length body \<le> 0xfffffffe"
    using CBB_flush_closes [OF l _ _ _ f [unfolded s2']] by metis
  then show "extends s d (der_element (body, tag)) s3" "der_valid (body, tag)"
    using r b2 b4 unfolding extends_def ready_def
    by (auto simp: der_element_def der_header_def der_valid_def intro: same_kind_trans)
qed

lemma child_ready:
  assumes "ready s d b" and "CBB_add_asn1 s d tag = (True, s1)"
  obtains b1 where "ready s1 (Suc d) b1"
proof -
  obtain b2 where b2: "same_kind b b2" and s1: "s1 = with_child s b2 (len b + length (der_tag_bytes tag))"
    using CBB_add_asn1_opens [OF assms] by metis
  have "ready s1 (Suc d) b2" unfolding s1
    by (rule ready_with_child) (use assms(1) b2 in \<open>auto simp: ready_def same_kind_def\<close>)
  then show thesis by (rule that)
qed

lemma constructed_cleared: "(t AND NOT CBS_ASN1_CONSTRUCTED) AND CBS_ASN1_CONSTRUCTED = (0 :: uint32)"
  by (rule bit_word_eqI) (simp add: bit_simps)

lemma convert_ber_der:
  assumes "cbs_convert_ber fuel inp d st eoc depth s = Some (True, inp', s')" and "ready s d b"
  shows "\<exists>bs. extends s d bs s' \<and> (st = 0 \<longrightarrow> der_forest (kMaxDepth - depth) bs)"
  using assms
proof (induction fuel arbitrary: inp d st eoc depth s b inp' s')
  case (Suc fuel)
  show ?case
  proof (rule convert_ber_success [OF Suc.prems(1)])
    assume "s' = s"
    then have "extends s d [] s'" using Suc.prems(2) by (auto simp: extends_def ready_def same_kind_def)
    then show ?thesis using forest_Nil by blast
  next
    fix e inp1 cs out_tag s1 s2 i2 s3
    assume dep: "depth \<le> kMaxDepth" and el: "CBS_get_any_ber_asn1_element inp = (Some e, inp1)"
      and cs: "cs = (st = 0 \<and> elem_tag e AND CBS_ASN1_CONSTRUCTED \<noteq> 0 \<and> is_string_type (elem_tag e))"
      and out_tag: "out_tag = (if cs then elem_tag e AND NOT CBS_ASN1_CONSTRUCTED else elem_tag e)"
      and op: "ber_open st d out_tag s s1"
      and body: "(\<exists>i eoc' i'. cbs_convert_ber fuel i (if st \<noteq> 0 then d else Suc d) (if cs then out_tag else st) eoc' (depth + 1) s1
            = Some (True, i', s2)) \<or>
       (\<exists>data. elem_tag e AND CBS_ASN1_CONSTRUCTED = 0 \<and> CBB_add_bytes s1 (if st \<noteq> 0 then d else Suc d) data = (True, s2)
          \<and> length data < size_max1)"
      and fl: "CBB_flush s2 d = (True, s3)"
      and rest: "cbs_convert_ber fuel i2 d st eoc depth s3 = Some (True, inp', s')"
    let ?d = "if st \<noteq> 0 then d else Suc d" and ?cst = "if cs then out_tag else st"
    obtain b1 where r1: "ready s1 ?d b1"
      using op Suc.prems(2) child_ready [of s d b out_tag s1] by (cases "st = 0") (auto simp: ber_open_def)
    obtain body where ext: "extends s1 ?d body s2"
      and forest: "elem_tag e AND CBS_ASN1_CONSTRUCTED \<noteq> 0 \<Longrightarrow> st = 0 \<Longrightarrow> \<not> cs \<Longrightarrow>
        depth + 1 \<le> kMaxDepth \<and> der_forest (kMaxDepth - (depth + 1)) body"
    proof -
      consider i eoc' i' where "cbs_convert_ber fuel i ?d ?cst eoc' (depth + 1) s1 = Some (True, i', s2)"
        | data where "elem_tag e AND CBS_ASN1_CONSTRUCTED = 0" "CBB_add_bytes s1 ?d data = (True, s2)" "length data < size_max1"
        using body by blast
      then show thesis
      proof cases
        case 1
        then obtain bs where "extends s1 ?d bs s2" "?cst = 0 \<longrightarrow> der_forest (kMaxDepth - (depth + 1)) bs"
          using Suc.IH [OF 1 r1] by blast
        moreover have "depth + 1 \<le> kMaxDepth"
          using 1 by (cases fuel) (auto simp: cbs_convert_ber.simps split: if_splits)
        ultimately show ?thesis using that by simp
      next
        case 2
        then show ?thesis using that writes_extends [OF writes_bytes r1] by blast
      qed
    qed
    have step: "\<exists>bs. extends s d bs s3 \<and> (st = 0 \<longrightarrow> bs = der_element (body, out_tag) \<and> der_valid (body, out_tag))"
    proof (cases "st = 0")
      case True
      then show ?thesis
        using child_closed [OF Suc.prems(2) _ _ fl, of out_tag s1 body] op ext by (auto simp: ber_open_def)
    next
      case False
      then have "extends s d body s2" using op ext by (simp add: ber_open_def)
      moreover from this obtain b2 where "ready s2 d b2" using extends_ready by blast
      then have "s3 = s2" using fl ready_flush [of s2 d b2] by simp
      ultimately show ?thesis using False by blast
    qed
    then obtain bs where bs: "extends s d bs s3" "st = 0 \<Longrightarrow> bs = der_element (body, out_tag) \<and> der_valid (body, out_tag)"
      by blast
    obtain b3 where "ready s3 d b3" using extends_ready [OF bs(1)] by blast
    then obtain rs where rs: "extends s3 d rs s'" "st = 0 \<Longrightarrow> der_forest (kMaxDepth - depth) rs"
      using Suc.IH [OF rest] by blast
    have "der_forest (kMaxDepth - depth) (bs @ rs)" if st: "st = 0"
    proof (cases "out_tag AND CBS_ASN1_CONSTRUCTED = 0")
      case True
      then show ?thesis using bs(2) [OF st] rs(2) [OF st] forest_prim by auto
    next
      case False
      then have ncs: "\<not> cs" using out_tag constructed_cleared by auto
      then have t: "out_tag = elem_tag e" "\<not> is_string_type out_tag" using False out_tag cs st by auto
      have f: "depth + 1 \<le> kMaxDepth" "der_forest (kMaxDepth - (depth + 1)) body" using forest [OF _ st ncs] False t by auto
      have k: "kMaxDepth - depth = Suc (kMaxDepth - (depth + 1))" using f(1) by simp
      show ?thesis
        using bs(2) [OF st] rs(2) [OF st] f(2) t(2) False forest_cons unfolding k by auto
    qed
    then show ?thesis using extends_trans [OF bs(1) rs(1)] by blast
  qed
qed (simp add: cbs_convert_ber.simps)

section \<open>DER is left alone\<close>

lemma ber_reads_der:
  assumes "CBS_get_any_asn1_element cbs = (Some e, rest)"
  shows "CBS_get_any_ber_asn1_element cbs = (Some e, rest)"
  using assms unfolding CBS_get_any_asn1_element_def CBS_get_any_ber_asn1_element_def cbs_get_any_asn1_element_def
  by (auto simp: Let_def split: prod.splits option.splits if_splits)

lemma find_ber_forest:
  "der_forest n bs \<Longrightarrow> depth + n \<le> kMaxDepth \<Longrightarrow> find_ber_loop bs False depth = Some False"
proof (induction arbitrary: depth rule: der_forest.induct)
  case (forest_Nil n)
  then show ?case by (simp add: find_ber_loop.simps CBS_len_def)
next
  case (forest_prim c t n rest)
  have g: "CBS_get_any_ber_asn1_element (der_element (c, t) @ rest) =
      (Some \<lparr>elem_out = der_element (c, t), elem_tag = t,
         elem_header_len = length (der_header t (length c)), elem_ber_found = False\<rparr>, rest)"
    by (rule ber_reads_der [OF get_element_der [OF forest_prim.hyps(1)]])
  have ne: "CBS_len (der_element (c, t) @ rest) \<noteq> 0"
    using length_der_tag_bytes(1) [of t] by (simp add: CBS_len_def der_element_def der_header_def)
  show ?case
    using forest_prim by (simp add: find_ber_loop.simps [of "der_element (c, t) @ rest"] g ne)
next
  case (forest_cons c t n rest)
  have g: "CBS_get_any_ber_asn1_element (der_element (c, t) @ rest) =
      (Some \<lparr>elem_out = der_element (c, t), elem_tag = t,
         elem_header_len = length (der_header t (length c)), elem_ber_found = False\<rparr>, rest)"
    by (rule ber_reads_der [OF get_element_der [OF forest_cons.hyps(1)]])
  have sk: "CBS_skip (der_element (c, t)) (length (der_header t (length c))) = (True, c)"
    by (simp add: CBS_skip_eq der_element_def)
  have ne: "CBS_len (der_element (c, t) @ rest) \<noteq> 0"
    using length_der_tag_bytes(1) [of t] by (simp add: CBS_len_def der_element_def der_header_def)
  have "find_ber_loop c False (depth + 1) = Some False" "find_ber_loop rest False depth = Some False"
    using forest_cons by simp_all
  then show ?case
    using forest_cons.hyps forest_cons.prems
    by (simp add: find_ber_loop.simps [of "der_element (c, t) @ rest"] g sk ne)
qed

lemma forest_first:
  assumes "der_forest n bs" and "bs \<noteq> []"
  shows "\<exists>c t rest. CBS_get_any_asn1 bs = (Some (c, t), rest) \<and> der_forest n rest \<and>
    (t AND CBS_ASN1_CONSTRUCTED \<noteq> 0 \<longrightarrow> \<not> is_string_type t \<and> (\<exists>m. der_forest m c))"
  using assms
proof (cases rule: der_forest.cases)
  case (forest_prim c t rest)
  then show ?thesis using der.dec_enc [of "(c, t)" rest] by auto
next
  case (forest_cons c t m rest)
  then show ?thesis using der.dec_enc [of "(c, t)" rest] by auto
qed simp

section \<open>Implicitly tagged strings\<close>

lemma implicit_string_loop_writes:
  assumes "\<forall>c \<in> set cs. length c < 2 ^ 32"
  shows "writes (implicit_string_loop t (concat (map (\<lambda>c. der_element (c, t)) cs))) 0 (concat cs)"
  using assms
proof (induction cs)
  case Nil
  have "implicit_string_loop t [] = (\<lambda>s. (True, s))" by (intro ext) (simp add: implicit_string_loop.simps CBS_len_def)
  then show ?case by (simp add: writes_Nil)
next
  case (Cons c cs)
  let ?r = "concat (map (\<lambda>c. der_element (c, t)) cs)"
  have g: "CBS_get_asn1 (der_element (c, t) @ ?r) t = (Some c, ?r)" using Cons.prems by (simp add: get_asn1_iff)
  have ne: "CBS_len (der_element (c, t) @ ?r) \<noteq> 0"
    using length_der_tag_bytes(1) [of t] by (simp add: CBS_len_def der_element_def der_header_def)
  have "implicit_string_loop t (der_element (c, t) @ ?r) = then_op (\<lambda>s. CBB_add_bytes s 0 c) (implicit_string_loop t ?r)"
    using g ne by (intro ext) (simp add: implicit_string_loop.simps [of t "der_element (c, t) @ ?r"] then_op_def CBS_data_def)
  moreover have "length c < size_max1" using Cons.prems by (simp add: size_max1_def)
  ultimately show ?case using writes_then [OF writes_bytes Cons.IH] Cons.prems by simp
qed

lemma implicit_string_constructed:
  assumes al: "never_fails al" and cs: "\<forall>c \<in> set cs. length c < 2 ^ 32"
    and body: "body = concat (map (\<lambda>c. der_element (c, inner)) cs)" "length body < 2 ^ 32"
    and inp: "inp = der_element (body, outer OR CBS_ASN1_CONSTRUCTED) @ rest" "length inp + 8 < size_max1"
    and ne: "outer AND CBS_ASN1_CONSTRUCTED = 0" and l: "length (concat cs) < 2 ^ 62"
  shows "\<exists>st. CBS_get_asn1_implicit_string al inp outer inner = (Some (concat cs, st), rest)"
proof -
  let ?t = "outer OR CBS_ASN1_CONSTRUCTED"
  have "?t \<noteq> outer"
  proof
    assume "?t = outer"
    then have "(outer OR CBS_ASN1_CONSTRUCTED) AND CBS_ASN1_CONSTRUCTED = 0" using ne by simp
    then show False by (simp add: bit.conj_disj_distrib2 ne) (simp add: asn1_consts)
  qed
  moreover have "parse_asn1_tag inp = (Some ?t, der_len_bytes (length body) @ body @ rest)"
    using parse_der_tag [of ?t "der_len_bytes (length body) @ body @ rest"]
    by (simp add: inp(1) der_element_def der_header_def)
  ultimately have pk: "\<not> CBS_peek_asn1_tag inp outer" by (simp add: CBS_peek_asn1_tag_def)
  have g: "CBS_get_asn1 inp ?t = (Some body, rest)" using body(2) inp(1) by (simp add: get_asn1_iff)
  have w: "writes (implicit_string_loop inner body) 0 (concat cs)"
    unfolding body(1) by (rule implicit_string_loop_writes [OF cs])
  obtain s al' where i: "CBB_init al (length inp) = (True, s, al')" using CBB_init_total [OF al inp(2)] by blast
  obtain b where b: "ready s 0 b" "content b = []" "chain s = [cbb_zero]" "can_resize b" "never_fails (alloc b)" "len b = 0"
    using CBB_init_ready [OF i] inp(2) al by (metis add_lessD1)
  have "roomy s (length (concat cs))" using b l by (auto simp: roomy_def ready_def)
  then obtain s' where f: "implicit_string_loop inner body s = (True, s')" "extends s 0 (concat cs) s'"
    using writes_succeeds [OF w b(1) order_refl] by blast
  obtain b' where b': "ready s' 0 b'" "content b' = concat cs" "chain s' = [cbb_zero]"
    using f(2) b by (auto simp: extends_def ready_def)
  show ?thesis
    using b'(2) by (simp add: CBS_get_asn1_implicit_string_def pk i g f(1) CBS_len_def CBS_init_def
        CBB_finish_ready [OF b'(1,3)] content_def buf_bytes_def)
qed

section \<open>Properties\<close>

text \<open>C8: The BER-to-DER conversion always comes to an end: with one unit of fuel more than there are input
  bytes the model of \<open>cbs_convert_ber\<close> returns, whatever the input, and never reads past its input.\<close>

theorem convert_ber_terminates:
  "\<exists>ok inp' s'. cbs_convert_ber (Suc (CBS_len inp)) inp d string_tag looking_for_eoc depth s = Some (ok, inp', s') \<and>
     length inp' \<le> length inp"
  using convert_ber_total [of inp "Suc (CBS_len inp)"] by (simp add: CBS_len_def)

text \<open>C9: What \<open>CBS_asn1_ber_to_der\<close> converts is DER: when \<open>cbs_find_ber\<close> asks for conversion and it
  succeeds, the output is a sequence of definite-length, minimally encoded elements without
  constructed strings at any depth, and a second look finds nothing left to convert.\<close>

theorem ber_to_der_converts:
  assumes "cbs_find_ber inp 0 = Some True" and "CBS_asn1_ber_to_der al inp = (Some (out, storage), inp')"
    and "length inp < size_max1"
  shows "der_forest kMaxDepth out \<and> cbs_find_ber out 0 = Some False"
proof -
  obtain s al' s' p n x where i: "CBB_init al (length inp) = (True, s, al')"
    and c: "cbs_convert_ber (Suc (CBS_len inp)) inp 0 0 False 0 s = Some (True, inp', s')"
    and f: "CBB_finish s' 0 False = (Some (p, n), x)" and o: "out = take n (case p of None \<Rightarrow> [] | Some q \<Rightarrow> q)"
    using assms(1,2)
    by (auto simp: CBS_asn1_ber_to_der_def CBS_len_def CBS_init_def split: prod.splits bool.splits option.splits)
  obtain b where b: "ready s 0 b" "content b = []" "chain s = [cbb_zero]" using CBB_init_ready [OF i assms(3)] by metis
  obtain bs where bs: "extends s 0 bs s'" "der_forest kMaxDepth bs" using convert_ber_der [OF c b(1)] by auto
  obtain b' where b': "ready s' 0 b'" "content b' = bs" "chain s' = [cbb_zero]"
    using bs(1) b by (auto simp: extends_def ready_def)
  have "out = bs" using o f b'(2) by (simp add: CBB_finish_ready [OF b'(1,3)] content_def buf_bytes_def)
  then show ?thesis
    using bs(2) find_ber_forest [of kMaxDepth bs 0] by (simp add: cbs_find_ber_def CBS_init_def CBS_data_def CBS_len_def)
qed

theorem ber_to_der_converts_witness:
  "der_forest kMaxDepth [4, 0] \<and> cbs_find_ber [4, 0] 0 = Some False"
proof -
  have "cbs_find_ber [0x24, 0x80, 0, 0] 0 = Some True" by code_simp
  moreover have "CBS_asn1_ber_to_der plentiful [0x24, 0x80, 0, 0] = (Some ([4, 0], Some [4, 0, 0xa5, 0xa5]), [])"
    by code_simp
  ultimately show ?thesis
    using ber_to_der_converts [of "[0x24, 0x80, 0, 0]" plentiful "[4, 0]" _ "[]"]
    by (auto simp: size_max1_def)
qed

text \<open>DER input is handed through: when everything in the input is DER, \<open>CBS_asn1_ber_to_der\<close> returns
  its first element unchanged, allocates nothing and leaves the rest.\<close>

theorem ber_to_der_keeps_der:
  assumes "der_forest kMaxDepth (der_element (c, t) @ rest)" and "der_valid (c, t)"
  shows "CBS_asn1_ber_to_der al (der_element (c, t) @ rest) = (Some (der_element (c, t), None), rest)"
  using find_ber_forest [OF assms(1), of 0] get_element_der [OF assms(2), of rest]
  by (simp add: CBS_asn1_ber_to_der_def cbs_find_ber_def CBS_init_def CBS_data_def CBS_len_def)

theorem ber_to_der_keeps_der_witness:
  "CBS_asn1_ber_to_der plentiful [5, 0, 2, 1, 7] = (Some ([5, 0], None), [2, 1, 7])"
proof -
  have e: "der_element ([], 5) = [5, 0]" "der_element ([7], 2) = [2, 1, 7]"
    by (simp_all add: der_element_def der_header_def der_tag_bytes_def der_len_bytes_def)
  have v: "der_valid ([], 5)" "der_valid ([7], 2)" by (simp_all add: der_valid_def)
  have "der_forest kMaxDepth (der_element ([], 5) @ der_element ([7], 2) @ [])"
    by (intro forest_prim forest_Nil v) (simp_all add: asn1_consts)
  from ber_to_der_keeps_der [OF this v(1), of plentiful] show ?thesis by (simp add: e)
qed


text \<open>An implicitly tagged string in constructed form is the concatenation of its chunks:
  \<open>CBS_get_asn1_implicit_string\<close> joins the contents of the primitive elements under the outer tag.\<close>

theorem implicit_string_joins:
  assumes "never_fails al" and "\<forall>c \<in> set cs. length c < 2 ^ 32"
    and "body = concat (map (\<lambda>c. der_element (c, inner)) cs)" and "length body < 2 ^ 32"
    and "inp = der_element (body, outer OR CBS_ASN1_CONSTRUCTED) @ rest" and "length inp + 8 < size_max1"
    and "outer AND CBS_ASN1_CONSTRUCTED = 0" and "length (concat cs) < 2 ^ 62"
  shows "\<exists>storage. CBS_get_asn1_implicit_string al inp outer inner = (Some (concat cs, storage), rest)"
  using assms by (rule implicit_string_constructed)

theorem implicit_string_joins_witness:
  "\<exists>storage. CBS_get_asn1_implicit_string plentiful [0xa0, 7, 4, 2, 1, 2, 4, 1, 3, 9] 0x80000000 4 =
     (Some ([1, 2, 3], storage), [9])"
proof -
  have c: "concat (map (\<lambda>c. der_element (c, 4)) [[1, 2], [3]]) = [4, 2, 1, 2, 4, 1, 3]"
    by (simp add: der_element_def der_header_def der_tag_bytes_def der_len_bytes_def)
  have i: "der_element ([4, 2, 1, 2, 4, 1, 3], 0x80000000 OR CBS_ASN1_CONSTRUCTED) @ [9] =
      [0xa0, 7, 4, 2, 1, 2, 4, 1, 3, 9]"
    by (simp add: der_element_def der_header_def der_tag_bytes_def der_len_bytes_def asn1_consts)
  show ?thesis
    using implicit_string_joins [OF plentiful_never_fails _ c [symmetric] _ i [symmetric]]
    by (simp add: size_max1_def asn1_consts)
qed

end
