(* ===== verification/Prefixed.thy ===== *)
theory Prefixed
  imports Asn1_Int
begin

text \<open>
  Length-prefixed vectors, the building block of TLS messages, from both sides:
  \<open>cbb_add_length_prefixed\<close> with the flush that fills in the length, and
  \<open>cbs_get_length_prefixed\<close>. Also the readers of \<open>cbs.c\<close> as instances of the contract
  \<open>reader\<close>, and the meaning of \<open>CBB_flush\<close> for a whole chain of open children.
\<close>

section \<open>Readers\<close>

lemma cbs_get_suffix: "cbs_get cbs n = (r, cbs') \<Longrightarrow> suffix cbs' cbs"
  by (auto simp: cbs_get_cases suffix_drop split: if_splits)

lemma cbs_get_u_suffix: "cbs_get_u cbs n = (r, cbs') \<Longrightarrow> suffix cbs' cbs"
  by (auto simp: cbs_get_u_def split: prod.splits option.splits dest: cbs_get_suffix)

lemma CBS_get_bytes_suffix: "CBS_get_bytes cbs n = (r, cbs') \<Longrightarrow> suffix cbs' cbs"
  by (auto simp: CBS_get_bytes_eq suffix_drop split: if_splits)

lemma length_prefixed_suffix: "cbs_get_length_prefixed cbs n = (r, cbs') \<Longrightarrow> suffix cbs' cbs"
  by (auto simp: cbs_get_length_prefixed_def split: prod.splits option.splits
      dest!: cbs_get_u_suffix CBS_get_bytes_suffix intro: suffix_order.trans)

lemma asn1_element_suffix: "cbs_get_any_asn1_element cbs ber = (r, cbs') \<Longrightarrow> suffix cbs' cbs"
  by (auto simp: cbs_get_any_asn1_element_def asn1_take_element_def Let_def split: prod.splits option.splits if_splits
      dest!: CBS_get_bytes_suffix)

interpretation get_u8: reader CBS_get_u8
  by unfold_locales (auto simp: CBS_get_u8_def split: prod.splits option.splits dest: cbs_get_suffix)

interpretation get_u16: reader CBS_get_u16
  by unfold_locales (auto simp: CBS_get_u16_def split: prod.splits dest: cbs_get_u_suffix)

interpretation get_u24: reader CBS_get_u24
  by unfold_locales (auto simp: CBS_get_u24_def split: prod.splits dest: cbs_get_u_suffix)

interpretation get_u32: reader CBS_get_u32
  by unfold_locales (auto simp: CBS_get_u32_def split: prod.splits dest: cbs_get_u_suffix)

interpretation get_u64: reader CBS_get_u64
  by unfold_locales (auto simp: CBS_get_u64_def dest: cbs_get_u_suffix)

interpretation get_bytes: reader "\<lambda>cbs. CBS_get_bytes cbs n"
  by unfold_locales (rule CBS_get_bytes_suffix)

interpretation get_prefixed: reader "\<lambda>cbs. cbs_get_length_prefixed cbs n"
  by unfold_locales (rule length_prefixed_suffix)

interpretation get_until: reader "\<lambda>cbs. CBS_get_until_first cbs c"
  by unfold_locales (auto simp: CBS_get_until_first_def split: option.splits dest: CBS_get_bytes_suffix)

interpretation get_element: reader "\<lambda>cbs. cbs_get_any_asn1_element cbs ber_ok"
  by unfold_locales (rule asn1_element_suffix)

section \<open>The vector codec\<close>

definition prefixed :: "nat \<Rightarrow> byte list \<Rightarrow> byte list" where
  "prefixed k body = be_bytes k (length body) @ body"

lemma get_length_prefixed_iff:
  assumes "k \<le> 8"
  shows "cbs_get_length_prefixed cbs k = (Some body, rest) \<longleftrightarrow> length body < 256 ^ k \<and> cbs = prefixed k body @ rest"
proof
  assume "cbs_get_length_prefixed cbs k = (Some body, rest)"
  then obtain v r where u: "cbs_get_u cbs k = (Some v, r)" and g: "CBS_get_bytes r (unat v) = (Some body, rest)"
    by (auto simp: cbs_get_length_prefixed_def split: prod.splits option.splits)
  have l: "k \<le> length cbs" and v: "v = of_nat (be_val (take k cbs))" and r: "r = drop k cbs"
    using u assms by (auto simp: cbs_get_u_eq split: if_splits)
  have t: "length (take k cbs) = k" using l by simp
  have uv: "unat v = be_val (take k cbs)" unfolding v by (rule unat_of_nat_be_val) (use assms in simp)
  have b: "unat v \<le> length r" "body = take (unat v) r" "rest = drop (unat v) r"
    using g by (auto simp: CBS_get_bytes_eq split: if_splits)
  have "length body = unat v" using b by simp
  moreover from this have "be_bytes k (length body) = take k cbs"
    using be_bytes_be_val [of "take k cbs"] unfolding t uv by simp
  moreover have "unat v < 256 ^ k" unfolding uv using be_val_lt [of "take k cbs"] unfolding t .
  moreover have "r = body @ rest" using b(2,3) by simp
  then have "cbs = take k cbs @ body @ rest" using r append_take_drop_id [of k cbs] by simp
  ultimately show "length body < 256 ^ k \<and> cbs = prefixed k body @ rest"
    by (simp add: prefixed_def)
next
  assume a: "length body < 256 ^ k \<and> cbs = prefixed k body @ rest"
  then have "be_val (be_bytes k (length body)) = length body" by (simp add: be_val_be_bytes)
  moreover have "unat (of_nat (be_val (be_bytes k (length body))) :: uint64) = be_val (be_bytes k (length body))"
    by (rule unat_of_nat_be_val) (use assms in simp)
  ultimately have "unat (of_nat (length body) :: uint64) = length body" by simp
  then show "cbs_get_length_prefixed cbs k = (Some body, rest)"
    using a assms \<open>be_val (be_bytes k (length body)) = length body\<close>
    by (simp add: cbs_get_length_prefixed_def cbs_get_u_eq prefixed_def CBS_get_bytes_eq)
qed

interpretation u8_vector: codec "\<lambda>body. length body < 256 ^ 1" "prefixed 1" CBS_get_u8_length_prefixed
  by unfold_locales (auto simp: CBS_get_u8_length_prefixed_def get_length_prefixed_iff)

interpretation u16_vector: codec "\<lambda>body. length body < 256 ^ 2" "prefixed 2" CBS_get_u16_length_prefixed
  by unfold_locales (auto simp: CBS_get_u16_length_prefixed_def get_length_prefixed_iff)

interpretation u24_vector: codec "\<lambda>body. length body < 256 ^ 3" "prefixed 3" CBS_get_u24_length_prefixed
  by unfold_locales (auto simp: CBS_get_u24_length_prefixed_def get_length_prefixed_iff)

section \<open>Writing a vector\<close>

definition vec_child :: "nat \<Rightarrow> nat \<Rightarrow> cbb" where
  "vec_child off k = \<lparr>offset = off, pending_len_len = k, pending_is_asn1 = False, is_child = True\<rparr>"

definition with_vec :: "cbb_state \<Rightarrow> cbb_buffer_st \<Rightarrow> nat \<Rightarrow> nat \<Rightarrow> cbb_state" where
  "with_vec s b off k = s\<lparr>base := Some b, chain := chain s @ [vec_child off k]\<rparr>"

lemma add_length_prefixed_ready:
  assumes r: "ready s d b" and k: "k < size_max1"
  shows "cbb_add_length_prefixed s d k = (True, s1) \<longleftrightarrow>
    (\<exists>b1. put_bytes b (replicate k 0) = Some b1 \<and> s1 = with_vec s b1 (len b) k)"
proof -
  have b: "base s = Some b" "buffer_ok b" "take (Suc d) (chain s) = chain s" using r by (auto simp: ready_def)
  obtain ok ob where a: "cbb_buffer_add (Some b) k = (ok, ob)" by fastforce
  obtain b' where ob: "ob = Some b'" using cbb_buffer_add_option [OF a] by auto
  show ?thesis
  proof (cases ok)
    case True
    have "len b' = len b + k"
      by (rule cbb_buffer_add_True [OF b(2) k, of ob]) (use a True ob in auto)
    then have "fill_last (replicate k 0) b' = buf_store b' (len b) (replicate k 0)" by (simp add: fill_last_def)
    then show ?thesis
      using True a ob b by (auto simp: cbb_add_length_prefixed_def ready_flush [OF r] put_bytes_def with_vec_def
          vec_child_def Let_def)
  next
    case False
    then show ?thesis
      using a ob b by (auto simp: cbb_add_length_prefixed_def ready_flush [OF r] put_bytes_def Let_def)
  qed
qed

lemma flush_vec:
  assumes l: "length (chain s) = Suc d" and ok: "buffer_ok b" and ne: "\<not> err b" and k: "0 < k" "k < 256"
    and c: "content b = pre @ z @ body" "length z = k"
  shows "CBB_flush (with_vec s b (length pre) k) d = (True, s') \<longleftrightarrow>
    length body < 256 ^ k \<and> s' = s\<lparr>base := Some (buf_store b (length pre) (be_bytes k (length body)))\<rparr>"
proof -
  have lenb: "len b = length pre + k + length body" using length_content [OF ok] c by simp
  then have "length pre + k < size_max1" using ok by (simp add: buffer_ok_def)
  then have sa: "size_add (length pre) k = length pre + k" by (rule size_add_noover)
  have pl: "cbb_put_length b (length pre) k (length body) =
      (if length body < 256 ^ k then (True, buf_store b (length pre) (be_bytes k (length body)))
       else (False, (buf_store b (length pre) (be_bytes k (length body)))\<lparr>err := True\<rparr>))"
    by (simp add: cbb_put_length_def store_be_eq Let_def div_eq_0_iff)
  show ?thesis
    using l ne k sa lenb pl
    by (auto simp: CBB_flush_def with_vec_def vec_child_def cbb_flush_child_def Let_def)
qed

lemma content_vec:
  assumes "buffer_ok b" and "content b = pre @ z @ body" "length z = k"
  shows "content (buf_store b (length pre) (be_bytes k (length body))) = pre @ prefixed k body"
    and "same_kind b (buf_store b (length pre) (be_bytes k (length body)))"
proof -
  have l: "len b = length pre + k + length body" using length_content [OF assms(1)] assms(2,3) by simp
  show "content (buf_store b (length pre) (be_bytes k (length body))) = pre @ prefixed k body"
    using content_store [OF assms(1), of "length pre" "be_bytes k (length body)"] assms l
    by (simp add: prefixed_def)
  show "same_kind b (buf_store b (length pre) (be_bytes k (length body)))"
    using assms(1) l by (intro buf_store_same_kind) (auto simp: buffer_ok_def)
qed

lemma with_vec_ready:
  "length (chain s) = Suc d \<Longrightarrow> buffer_ok b \<Longrightarrow> \<not> err b \<Longrightarrow> ready (with_vec s b off k) (Suc d) b"
  by (simp add: ready_def with_vec_def)

lemma writes_prefixed:
  assumes g: "writes g (Suc d) body" and k: "0 < k" "k < 256" and lb: "length body < 256 ^ k"
  shows "writes (then_op (\<lambda>s. cbb_add_length_prefixed s d k) (then_op g (\<lambda>s. CBB_flush s d))) d (prefixed k body)"
proof -
  have ks: "k < size_max1" "length (replicate k (0 :: byte)) < size_max1" using k by (simp_all add: size_max1_def)
  have main: "\<exists>b'. s' = s\<lparr>base := Some b'\<rparr> \<and> same_kind b b' \<and> content b' = content b @ prefixed k body \<and> alloc b' = alloc b4"
    if r: "ready s d b" and p: "put_bytes b (replicate k 0) = Some b1" and
      e: "extends (with_vec s b1 (len b) k) (Suc d) body s4" and b4: "base s4 = Some b4" and f: "CBB_flush s4 d = (True, s')"
    for s b b1 s4 b4 s'
  proof -
    have ok: "buffer_ok b" "\<not> err b" and l: "length (chain s) = Suc d" using r by (auto simp: ready_def)
    note b1 = put_bytes_Some [OF ok(1) ks(2) p]
    have sk: "same_kind b1 b4" "content b4 = content b1 @ body" "s4 = with_vec s b4 (len b) k"
      using e b4 by (auto simp: extends_def ready_def with_vec_def)
    have c4: "content b4 = content b @ replicate k 0 @ body" "length (replicate k (0 :: byte)) = k" using sk b1 by simp_all
    have ok4: "buffer_ok b4" "\<not> err b4" using sk b1 ok by (auto simp: same_kind_def)
    have "s' = s\<lparr>base := Some (buf_store b4 (len b) (be_bytes k (length body)))\<rparr>"
      using flush_vec [OF l ok4 k c4] f sk(3) length_content [OF ok(1)] by simp
    then show ?thesis
      using content_vec [OF ok4(1) c4] length_content [OF ok(1)] sk(1) b1(1)
      by (intro exI [of _ "buf_store b4 (len b) (be_bytes k (length body))"]) (auto intro: same_kind_trans)
  qed
  show ?thesis
  proof (rule writesI)
    fix s b s' assume r: "ready s d b"
      and op: "then_op (\<lambda>s. cbb_add_length_prefixed s d k) (then_op g (\<lambda>s. CBB_flush s d)) s = (True, s')"
    obtain s3 s4 where o: "cbb_add_length_prefixed s d k = (True, s3)" and gs: "g s3 = (True, s4)"
      and fl: "CBB_flush s4 d = (True, s')"
      using op by (auto simp: then_op_def split: prod.splits bool.splits)
    obtain b1 where p: "put_bytes b (replicate k 0) = Some b1" "s3 = with_vec s b1 (len b) k"
      using o add_length_prefixed_ready [OF r ks(1)] by blast
    have "buffer_ok b1" "\<not> err b1" "length (chain s) = Suc d"
      using put_bytes_Some(1) [OF _ ks(2) p(1)] r by (auto simp: ready_def same_kind_def)
    then have "ready s3 (Suc d) b1" unfolding p(2) by (intro with_vec_ready)
    then have e: "extends s3 (Suc d) body s4" using writes_extends [OF g _ gs] by blast
    then obtain b4 where "base s4 = Some b4" by (auto simp: extends_def ready_def)
    from main [OF r p(1) e [unfolded p(2)] this fl] show "extends s d (prefixed k body) s'"
      using r by (auto simp: extends_def ready_def same_kind_def)
  next
    fix s b n assume r: "ready s d b" and n: "length (prefixed k body) \<le> n" and rm: "roomy s n"
    have b: "buffer_ok b" "\<not> err b" "can_resize b" "never_fails (alloc b)" "len b + n < 2 ^ 62" "length (chain s) = Suc d"
      using r rm by (auto simp: ready_def roomy_def)
    have nn: "k + length body \<le> n" using n by (simp add: prefixed_def)
    obtain b1 where p: "put_bytes b (replicate k 0) = Some b1" "never_fails (alloc b1)"
      using put_bytes_roomy [OF b(1,3,4), of "replicate k 0"] b(5) nn by auto
    note b1 = put_bytes_Some [OF b(1) ks(2) p(1)]
    have ok1: "buffer_ok b1" "\<not> err b1" "can_resize b1" and l1: "len b1 = len b + k"
      using b1 b length_content [OF b(1)] length_content [of b1] by (auto simp: same_kind_def)
    let ?s3 = "with_vec s b1 (len b) k"
    have o: "cbb_add_length_prefixed s d k = (True, ?s3)" using add_length_prefixed_ready [OF r ks(1)] p(1) by blast
    have r3: "ready ?s3 (Suc d) b1" by (intro with_vec_ready b(6) ok1)
    have "roomy ?s3 (n - k)" using ok1 p(2) l1 b(5) nn by (simp add: roomy_def with_vec_def)
    moreover have "length body \<le> n - k" using nn by simp
    ultimately obtain s4 where gs: "g ?s3 = (True, s4)" "extends ?s3 (Suc d) body s4" "roomy s4 (n - k - length body)"
      using writes_succeeds [OF g r3] by blast
    then obtain b4 where b4: "base s4 = Some b4" "same_kind b1 b4" "content b4 = content b1 @ body" "s4 = with_vec s b4 (len b) k"
      by (auto simp: extends_def ready_def with_vec_def)
    have ok4: "buffer_ok b4" "\<not> err b4" using b4 ok1 by (auto simp: same_kind_def)
    have c4: "content b4 = content b @ replicate k 0 @ body" "length (replicate k (0 :: byte)) = k" using b4 b1 by simp_all
    obtain s' where fl: "CBB_flush s4 d = (True, s')"
      using flush_vec [OF b(6) ok4 k c4] b4(4) lb length_content [OF b(1)] by simp
    from main [OF r p(1) gs(2) b4(1) fl] obtain b' where b': "s' = s\<lparr>base := Some b'\<rparr>" "same_kind b b'"
      "content b' = content b @ prefixed k body" "alloc b' = alloc b4" by blast
    have "len b' = len b + length (prefixed k body)"
      using b' length_content [OF b(1)] length_content [of b'] by (auto simp: same_kind_def)
    then have "roomy s' (n - length (prefixed k body))"
      using b' b(3,5) n gs(3) b4(1) by (auto simp: roomy_def same_kind_def)
    then show "\<exists>s'. then_op (\<lambda>s. cbb_add_length_prefixed s d k) (then_op g (\<lambda>s. CBB_flush s d)) s = (True, s') \<and>
        roomy s' (n - length (prefixed k body))"
      using o gs(1) fl by (auto simp: then_op_def)
  qed
qed

lemma prefixed_too_long:
  assumes g: "writes g 1 body" and k: "0 < k" "k < 256" and lb: "256 ^ k \<le> length body"
    and r: "ready s 0 b" and op: "then_op (\<lambda>s. cbb_add_length_prefixed s 0 k) (then_op g (\<lambda>s. CBB_flush s 0)) s = (True, s')"
  shows False
proof -
  have ks: "k < size_max1" "length (replicate k (0 :: byte)) < size_max1" using k by (simp_all add: size_max1_def)
  obtain s3 s4 where o: "cbb_add_length_prefixed s 0 k = (True, s3)" and gs: "g s3 = (True, s4)"
    and fl: "CBB_flush s4 0 = (True, s')"
    using op by (auto simp: then_op_def split: prod.splits bool.splits)
  obtain b1 where p: "put_bytes b (replicate k 0) = Some b1" "s3 = with_vec s b1 (len b) k"
    using o add_length_prefixed_ready [OF r ks(1)] by blast
  have ok: "buffer_ok b" using r by (simp add: ready_def)
  note b1 = put_bytes_Some [OF ok ks(2) p(1)]
  have l: "length (chain s) = Suc 0" and "buffer_ok b1" "\<not> err b1" using r b1 by (auto simp: ready_def same_kind_def)
  then have "ready s3 1 b1" unfolding p(2) using with_vec_ready [of s 0 b1] by simp
  then obtain b4 where b4: "same_kind b1 b4" "content b4 = content b1 @ body" "s4 = with_vec s b4 (len b) k"
    using writes_extends [OF g _ gs] p(2) by (auto simp: extends_def ready_def with_vec_def)
  have ok4: "buffer_ok b4" "\<not> err b4" using b4 b1 \<open>\<not> err b1\<close> by (auto simp: same_kind_def)
  have c4: "content b4 = content b @ replicate k 0 @ body" "length (replicate k (0 :: byte)) = k" using b4 b1 by simp_all
  show False using flush_vec [OF l ok4 k c4] fl b4(3) length_content [OF ok] lb by simp
qed

section \<open>Properties\<close>

text \<open>C3: Length-prefixed vectors round-trip: contents written by any operation that writes \<open>body\<close> (so
  nested vectors and ASN.1 elements too) into a child opened by \<open>cbb_add_length_prefixed\<close> get their
  big-endian length in front when the parent is flushed, and \<open>cbs_get_length_prefixed\<close> gives them back.\<close>

theorem vector_roundtrip:
  assumes "writes g 1 body" and "0 < k" and "k \<le> 3" and "length body < 256 ^ k"
    and "never_fails al" and "n + 8 < size_max1"
  shows "build_with al n (then_op (\<lambda>s. cbb_add_length_prefixed s 0 k) (then_op g (\<lambda>s. CBB_flush s 0))) =
      Some (be_bytes k (length body) @ body) \<and>
    cbs_get_length_prefixed (be_bytes k (length body) @ body @ rest) k = (Some body, rest)"
proof
  have w: "writes (then_op (\<lambda>s. cbb_add_length_prefixed s 0 k) (then_op g (\<lambda>s. CBB_flush s 0))) 0 (prefixed k body)"
    by (rule writes_prefixed) (use assms in auto)
  have "(256 :: nat) ^ k \<le> 256 ^ 3" using assms(3) by (intro power_increasing) auto
  then have "length (prefixed k body) < 2 ^ 62" using assms(3,4) by (simp add: prefixed_def)
  from build_with_total [OF w assms(6,5) this]
  show "build_with al n (then_op (\<lambda>s. cbb_add_length_prefixed s 0 k) (then_op g (\<lambda>s. CBB_flush s 0))) =
      Some (be_bytes k (length body) @ body)" by (simp add: prefixed_def)
  show "cbs_get_length_prefixed (be_bytes k (length body) @ body @ rest) k = (Some body, rest)"
    using get_length_prefixed_iff [of k] assms(3,4) by (simp add: prefixed_def)
qed

theorem vector_roundtrip_witness:
  "build_with plentiful 0 (then_op (\<lambda>s. cbb_add_length_prefixed s 0 2)
       (then_op (\<lambda>s. CBB_add_bytes s 1 [7, 8, 9]) (\<lambda>s. CBB_flush s 0))) = Some [0, 3, 7, 8, 9] \<and>
   cbs_get_length_prefixed [0, 3, 7, 8, 9, 1] 2 = (Some [7, 8, 9], [1])"
proof -
  have "writes (\<lambda>s. CBB_add_bytes s 1 [7, 8, 9]) 1 [7, 8, 9]" by (rule writes_bytes) (simp add: size_max1_def)
  moreover have "be_bytes 2 3 = [0, 3]" by (simp add: numeral_2_eq_2)
  ultimately show ?thesis
    using vector_roundtrip [of "\<lambda>s. CBB_add_bytes s 1 [7, 8, 9]" "[7, 8, 9]" 2 plentiful 0 "[1]"]
    by (simp add: plentiful_never_fails size_max1_def numeral_3_eq_3)
qed

text \<open>Contents too long for their prefix are refused: if the child received \<open>256 ^ k\<close> bytes or more,
  the builder fails, so no truncated length is ever emitted.\<close>

theorem vector_too_long:
  assumes "writes g 1 body" and "0 < k" and "k < 256" and "256 ^ k \<le> length body" and "n < size_max1"
  shows "build_with al n (then_op (\<lambda>s. cbb_add_length_prefixed s 0 k) (then_op g (\<lambda>s. CBB_flush s 0))) = None"
proof (rule ccontr)
  assume "\<not> ?thesis"
  then obtain s al' s' where i: "CBB_init al n = (True, s, al')"
    and op: "then_op (\<lambda>s. cbb_add_length_prefixed s 0 k) (then_op g (\<lambda>s. CBB_flush s 0)) s = (True, s')"
    by (auto simp: build_with_def split: prod.splits bool.splits)
  obtain b where "ready s 0 b" using CBB_init_ready [OF i assms(5)] by metis
  from prefixed_too_long [OF assms(1-4) this op] show False .
qed

theorem vector_too_long_witness:
  "build_with plentiful 0 (then_op (\<lambda>s. cbb_add_length_prefixed s 0 1)
     (then_op (\<lambda>s. CBB_add_bytes s 1 (replicate 256 7)) (\<lambda>s. CBB_flush s 0))) = None"
proof -
  have "writes (\<lambda>s. CBB_add_bytes s 1 (replicate 256 7)) 1 (replicate 256 7)"
    by (rule writes_bytes) (simp add: size_max1_def)
  from vector_too_long [OF this, of 1 0 plentiful] show ?thesis by (simp add: size_max1_def)
qed

text \<open>Flushing is a refinement of closing the open children one by one, the innermost first: whatever
  chain of children is open below the flushed object, success means that each child's contents have
  their length (DER or fixed-width) in front and that no child is left.\<close>

theorem flush_refines_close:
  assumes "base s = Some b" and "buffer_ok b" and "list_all child_ok (drop (Suc d) (chain s))"
    and "CBB_flush s d = (True, s')"
  shows "\<exists>b'. base s' = Some b' \<and> buffer_ok b' \<and> chain s' = take (Suc d) (chain s) \<and>
     close_chain (drop (Suc d) (chain s)) (content b) = Some (content b')"
proof -
  obtain b' cs where f: "cbb_flush_chain b (drop (Suc d) (chain s)) = (True, b', cs)"
    and s': "s' = s\<lparr>base := Some b', chain := take (Suc d) (chain s) @ cs\<rparr>"
    using assms(1,4) by (auto simp: CBB_flush_def split: if_splits prod.splits)
  have "\<forall>c \<in> set (drop (Suc d) (chain s)). child_ok c" using assms(3) by (simp add: list_all_iff)
  from cbb_flush_chain_refines [OF assms(2) this f] s' show ?thesis by auto
qed

definition nested_buffer :: cbb_buffer_st where
  "nested_buffer = \<lparr>buf = Some [0, 0, 0, 7], len = 4, cap = 4, can_resize = False, err = False, alloc = plentiful\<rparr>"

definition nested_cbb :: cbb_state where
  "nested_cbb = \<lparr>base = Some nested_buffer, chain = [cbb_zero, vec_child 0 2, vec_child 2 1]\<rparr>"

theorem flush_refines_close_witness:
  "\<exists>b'. base (snd (CBB_flush nested_cbb 0)) = Some b' \<and> chain (snd (CBB_flush nested_cbb 0)) = [cbb_zero] \<and>
     close_chain [vec_child 0 2, vec_child 2 1] [0, 0, 0, 7] = Some (content b')"
proof -
  have ok: "base nested_cbb = Some nested_buffer" "buffer_ok nested_buffer"
    "list_all child_ok (drop (Suc 0) (chain nested_cbb))" "content nested_buffer = [0, 0, 0, 7]"
    by (simp_all add: nested_cbb_def nested_buffer_def buffer_ok_def buf_bytes_def size_max1_def child_ok_def
        vec_child_def content_def)
  have "fst (CBB_flush nested_cbb 0)" by code_simp
  then have "CBB_flush nested_cbb 0 = (True, snd (CBB_flush nested_cbb 0))" by (simp add: prod_eq_iff)
  from flush_refines_close [OF ok(1-3) this] ok(4) show ?thesis
    by (auto simp: nested_cbb_def)
qed



end
