(* ===== verification/Constant_Time.thy ===== *)
theory Constant_Time
  imports Prelude
begin

text \<open>
  The branch-free comparison and selection helpers of \<open>crypto/internal.h\<close> for a 64-bit
  \<open>crypto_word_t\<close>. Each computes an all-ones or all-zeros mask by arithmetic; the lemmas
  give the comparison that mask stands for. \<open>value_barrier_w\<close> is the identity.
\<close>

type_synonym crypto_word = "64 word"

definition value_barrier_w :: "crypto_word \<Rightarrow> crypto_word" where
  "value_barrier_w a = a"

definition constant_time_msb_w :: "crypto_word \<Rightarrow> crypto_word" where
  "constant_time_msb_w a = 0 - drop_bit (8 * 8 - 1) a"

definition constant_time_lt_w :: "crypto_word \<Rightarrow> crypto_word \<Rightarrow> crypto_word" where
  "constant_time_lt_w a b = constant_time_msb_w (a XOR ((a XOR b) OR ((a - b) XOR a)))"

definition constant_time_lt_8 :: "crypto_word \<Rightarrow> crypto_word \<Rightarrow> byte" where
  "constant_time_lt_8 a b = ucast (constant_time_lt_w a b)"

definition constant_time_ge_w :: "crypto_word \<Rightarrow> crypto_word \<Rightarrow> crypto_word" where
  "constant_time_ge_w a b = NOT (constant_time_lt_w a b)"

definition constant_time_ge_8 :: "crypto_word \<Rightarrow> crypto_word \<Rightarrow> byte" where
  "constant_time_ge_8 a b = ucast (constant_time_ge_w a b)"

definition constant_time_is_zero_w :: "crypto_word \<Rightarrow> crypto_word" where
  "constant_time_is_zero_w a = constant_time_msb_w (NOT a AND (a - 1))"

definition constant_time_is_zero_8 :: "crypto_word \<Rightarrow> byte" where
  "constant_time_is_zero_8 a = ucast (constant_time_is_zero_w a)"

definition constant_time_eq_w :: "crypto_word \<Rightarrow> crypto_word \<Rightarrow> crypto_word" where
  "constant_time_eq_w a b = constant_time_is_zero_w (a XOR b)"

definition constant_time_eq_8 :: "crypto_word \<Rightarrow> crypto_word \<Rightarrow> byte" where
  "constant_time_eq_8 a b = ucast (constant_time_eq_w a b)"

text \<open>The \<open>int\<close> arguments are converted to \<open>crypto_word_t\<close>, with sign extension.\<close>

definition constant_time_eq_int :: "32 word \<Rightarrow> 32 word \<Rightarrow> crypto_word" where
  "constant_time_eq_int a b = constant_time_eq_w (scast a) (scast b)"

definition constant_time_eq_int_8 :: "32 word \<Rightarrow> 32 word \<Rightarrow> byte" where
  "constant_time_eq_int_8 a b = constant_time_eq_8 (scast a) (scast b)"

definition constant_time_select_w :: "crypto_word \<Rightarrow> crypto_word \<Rightarrow> crypto_word \<Rightarrow> crypto_word" where
  "constant_time_select_w m a b = (value_barrier_w m AND a) OR (value_barrier_w (NOT m) AND b)"

definition constant_time_select_8 :: "byte \<Rightarrow> byte \<Rightarrow> byte \<Rightarrow> byte" where
  "constant_time_select_8 m a b = ucast (constant_time_select_w (ucast m) (ucast a) (ucast b))"

section \<open>What the masks mean\<close>

lemma bit63: "bit (a :: crypto_word) 63 \<longleftrightarrow> 2 ^ 63 \<le> unat a"
proof -
  define q where "q = unat a div 2 ^ 63"
  have "bit a 63 = bit (unat a) 63" by (simp add: bit_unsigned_iff)
  also have "\<dots> = odd q" unfolding q_def by (rule bit_iff_odd)
  also have "\<dots> = (0 < q)"
  proof -
    have "q < 2" unfolding q_def using unsigned_less [of a, where ?'a = nat] by (simp add: less_mult_imp_div_less)
    then show ?thesis by (auto simp: less_2_cases_iff)
  qed
  finally show ?thesis unfolding q_def by (simp add: div_greater_zero_iff)
qed

lemma msb_mask: "constant_time_msb_w a = (if bit a 63 then - 1 else 0)"
proof -
  have "unat a div 2 ^ 63 < 2" using unsigned_less [of a, where ?'a = nat] by (simp add: less_mult_imp_div_less)
  then have "unat (drop_bit 63 a) = (if 2 ^ 63 \<le> unat a then 1 else 0)"
    by (auto simp: unat_drop_bit div_eq_0_iff intro: div_nat_eqI)
  then have "drop_bit 63 a = (if bit a 63 then 1 else 0)"
    by (auto simp: word_unat_eq_iff bit63)
  then show ?thesis by (simp add: constant_time_msb_w_def)
qed

lemma unat_diff_wrap:
  fixes a b :: crypto_word
  shows "unat (a - b) = (if unat b \<le> unat a then unat a - unat b else 2 ^ 64 + unat a - unat b)"
proof (cases "unat b \<le> unat a")
  case True
  then show ?thesis by (simp add: unat_sub word_le_nat_alt)
next
  case False
  have "unat (a - b) = nat ((uint a - uint b) mod 2 ^ 64)" by (simp add: uint_word_ariths unat_eq_nat_uint)
  also have "(uint a - uint b) mod 2 ^ 64 = (uint a - uint b + 2 ^ 64) mod 2 ^ 64" by simp
  also have "\<dots> = uint a - uint b + 2 ^ 64"
    using False unsigned_less [of b, where ?'a = int] unsigned_greater_eq [of a, where ?'a = int]
    by (intro mod_pos_pos_trivial) (auto simp: uint_nat simp del: of_nat_unat)
  finally show ?thesis using False by (simp add: uint_nat nat_diff_distrib del: of_nat_unat) 
qed

lemma lt_w_mask: "constant_time_lt_w a b = (if a < b then - 1 else 0)"
proof -
  have lt: "unat a < 2 ^ 64" "unat b < 2 ^ 64"
    using unsigned_less [of a, where ?'a = nat] unsigned_less [of b, where ?'a = nat] by simp_all
  have d: "bit (a - b) 63 \<longleftrightarrow> 2 ^ 63 \<le> (if unat b \<le> unat a then unat a - unat b else 2 ^ 64 + unat a - unat b)"
    by (simp only: bit63 unat_diff_wrap)
  have "bit (a XOR ((a XOR b) OR ((a - b) XOR a))) 63 \<longleftrightarrow> a < b"
  proof (cases "bit a 63 = bit b 63")
    case True
    then have "bit (a XOR ((a XOR b) OR ((a - b) XOR a))) 63 \<longleftrightarrow> bit (a - b) 63"
      by (auto simp: bit_xor_iff bit_or_iff)
    moreover have "bit (a - b) 63 \<longleftrightarrow> unat a < unat b"
      using True [unfolded bit63] lt unfolding d by (auto split: if_splits)
    ultimately show ?thesis by (simp add: word_less_nat_alt)
  next
    case False
    then have "bit (a XOR ((a XOR b) OR ((a - b) XOR a))) 63 \<longleftrightarrow> bit b 63"
      by (auto simp: bit_xor_iff bit_or_iff)
    moreover have "bit b 63 \<longleftrightarrow> unat a < unat b" using False unfolding bit63 by auto
    ultimately show ?thesis by (simp add: word_less_nat_alt)
  qed
  then show ?thesis by (simp only: constant_time_lt_w_def msb_mask)
qed

lemma is_zero_w_mask: "constant_time_is_zero_w a = (if a = 0 then - 1 else 0)"
proof (cases "a = 0")
  case True
  then show ?thesis by (simp add: constant_time_is_zero_w_def msb_mask bit_minus_1_iff)
next
  case False
  then have "0 < unat a" by (simp add: unat_gt_0)
  then have "unat (a - 1) = unat a - 1" using unat_diff_wrap [of a 1] by simp
  then have "\<not> bit (NOT a AND (a - 1)) 63"
    using bit63 [of a] bit63 [of "a - 1"] by (auto simp: bit_and_iff bit_not_iff)
  then show ?thesis using False by (simp add: constant_time_is_zero_w_def msb_mask)
qed

lemma eq_w_mask: "constant_time_eq_w a b = (if a = b then - 1 else 0)"
proof -
  have "a XOR b = 0 \<longleftrightarrow> a = b" by (auto simp: bit_eq_iff bit_xor_iff)
  then show ?thesis by (simp add: constant_time_eq_w_def is_zero_w_mask)
qed

lemma ge_w_mask: "constant_time_ge_w a b = (if b \<le> a then - 1 else 0)"
  by (auto simp: constant_time_ge_w_def lt_w_mask not_less)

lemma select_w_mask:
  "constant_time_select_w (- 1) a b = a" "constant_time_select_w 0 a b = b"
  by (simp_all add: constant_time_select_w_def value_barrier_w_def)

lemma select_8_mask:
  "constant_time_select_8 (- 1) a b = a" "constant_time_select_8 0 a b = b"
proof -
  show "constant_time_select_8 (- 1) a b = a"
    by (rule bit_word_eqI) (auto simp: constant_time_select_8_def constant_time_select_w_def value_barrier_w_def
        bit_simps)
  show "constant_time_select_8 0 a b = b"
    by (rule bit_word_eqI) (auto simp: constant_time_select_8_def constant_time_select_w_def value_barrier_w_def
        bit_simps)
qed

lemma ones_8: "ucast (- 1 :: crypto_word) = (- 1 :: byte)"
  by (rule bit_word_eqI) (simp add: bit_simps)

lemma mask_8: "ucast (if P then - 1 else 0 :: crypto_word) = (if P then - 1 else 0 :: byte)"
  by (simp add: ones_8)

lemma lt_8_mask: "constant_time_lt_8 a b = (if a < b then - 1 else 0)"
  by (simp only: constant_time_lt_8_def lt_w_mask mask_8)

lemma eq_8_mask: "constant_time_eq_8 a b = (if a = b then - 1 else 0)"
  by (simp only: constant_time_eq_8_def eq_w_mask mask_8)

section \<open>Properties\<close>

text \<open>C11: The constant-time comparisons are right for all 64-bit operands: the mask is all ones exactly
  when the comparison holds, for \<open><\<close>, \<open>\<ge>\<close>, \<open>= 0\<close> and \<open>=\<close>, in the word and the 8-bit form, and a select
  on such a mask is an \<open>if\<close>.\<close>

theorem constant_time_masks:
  "constant_time_lt_w a b = (if a < b then - 1 else 0) \<and>
   constant_time_ge_w a b = (if a \<ge> b then - 1 else 0) \<and>
   constant_time_is_zero_w a = (if a = 0 then - 1 else 0) \<and>
   constant_time_eq_w a b = (if a = b then - 1 else 0) \<and>
   constant_time_lt_8 a b = (if a < b then - 1 else 0) \<and>
   constant_time_ge_8 a b = (if a \<ge> b then - 1 else 0) \<and>
   constant_time_is_zero_8 a = (if a = 0 then - 1 else 0) \<and>
   constant_time_eq_8 a b = (if a = b then - 1 else 0) \<and>
   constant_time_select_w (constant_time_lt_w a b) x y = (if a < b then x else y) \<and>
   constant_time_select_8 (constant_time_lt_8 a b) u v = (if a < b then u else v)"
  by (simp add: lt_w_mask ge_w_mask is_zero_w_mask eq_w_mask select_w_mask select_8_mask
      constant_time_lt_8_def constant_time_ge_8_def constant_time_is_zero_8_def constant_time_eq_8_def ones_8)

text \<open>\<open>constant_time_eq_int\<close> compares \<open>int\<close> values: the sign extension to \<open>crypto_word_t\<close> keeps
  different values apart.\<close>

theorem constant_time_eq_int_mask:
  "constant_time_eq_int a b = (if a = b then - 1 else 0) \<and> constant_time_eq_int_8 a b = (if a = b then - 1 else 0)"
proof -
  have "(scast a :: crypto_word) = scast b \<longleftrightarrow> a = b"
  proof
    assume e: "(scast a :: crypto_word) = scast b"
    have "sint (scast w :: crypto_word) = sint w" for w :: "32 word" by (rule sint_up_scast) (simp add: is_up)
    then have "sint a = sint b" using e by metis
    then show "a = b" by (rule signed_word_eqI)
  qed simp
  then show ?thesis by (simp add: constant_time_eq_int_def constant_time_eq_int_8_def eq_w_mask eq_8_mask)
qed

end
