(* ===== verification/Base64.thy ===== *)
theory Base64
  imports Mem Constant_Time
begin

text \<open>
  \<open>crypto/base64/base64.c\<close>: constant-time base64, in one piece (\<open>EVP_EncodeBlock\<close>,
  \<open>EVP_DecodeBase64\<close>, \<open>EVP_DecodeBlock\<close>) and streamed through an \<open>EVP_ENCODE_CTX\<close>.

  A call that writes to \<open>out\<close> returns the bytes it wrote there, in order. The NUL that C
  puts behind them is in the list for \<open>EVP_EncodeBlock\<close> and left out for the streaming
  calls, where the next call overwrites it. Character literals are their ASCII codes.
\<close>

section \<open>Characters\<close>

definition constant_time_lt_args_8 :: "byte \<Rightarrow> byte \<Rightarrow> byte" where
  "constant_time_lt_args_8 a b = ucast (constant_time_msb_w (ucast a - ucast b))"

definition constant_time_in_range_8 :: "byte \<Rightarrow> byte \<Rightarrow> byte \<Rightarrow> byte" where
  "constant_time_in_range_8 a mn mx = constant_time_lt_args_8 (a - mn) (mx - mn + 1)"

definition conv_bin2ascii :: "byte \<Rightarrow> byte" where
  "conv_bin2ascii a0 =
     (let a = a0 AND 0x3f;
          ret = constant_time_select_8 (constant_time_eq_8 (ucast a) 62) 0x2b 0x2f;
          ret = constant_time_select_8 (constant_time_lt_args_8 a 62) (a - 52 + 0x30) ret;
          ret = constant_time_select_8 (constant_time_lt_args_8 a 52) (a - 26 + 0x61) ret;
          ret = constant_time_select_8 (constant_time_lt_args_8 a 26) (a + 0x41) ret
      in ret)"

definition base64_ascii_to_bin :: "byte \<Rightarrow> byte" where
  "base64_ascii_to_bin a =
     (let is_upper = constant_time_in_range_8 a 0x41 0x5a;
          is_lower = constant_time_in_range_8 a 0x61 0x7a;
          is_digit = constant_time_in_range_8 a 0x30 0x39;
          is_plus = constant_time_eq_8 (ucast a) 0x2b;
          is_slash = constant_time_eq_8 (ucast a) 0x2f;
          is_equals = constant_time_eq_8 (ucast a) 0x3d;
          ret = 0;
          ret = ret OR (is_upper AND (a - 0x41));
          ret = ret OR (is_lower AND (a - 0x61 + 26));
          ret = ret OR (is_digit AND (a - 0x30 + 52));
          ret = ret OR (is_plus AND 62);
          ret = ret OR (is_slash AND 63);
          is_valid = is_upper OR is_lower OR is_digit OR is_plus OR is_slash OR is_equals
      in ret OR NOT is_valid)"

section \<open>Encoding\<close>

definition EVP_EncodedLength :: "nat \<Rightarrow> nat option" where
  "EVP_EncodedLength len =
     (if size_add len 2 < len then None
      else
        let len = size_add len 2 div 3 in
        if size_mul len 4 div 4 \<noteq> len then None
        else
          let len = size_mul len 4 in
          if size_add len 1 < len then None else Some (size_add len 1))"

fun encode_loop :: "byte list \<Rightarrow> byte list" where
  "encode_loop [] = []"
| "encode_loop [a] =
     (let l = push_bit 16 (ucast a) :: uint32 in
      [conv_bin2ascii (ucast (drop_bit 18 l)), conv_bin2ascii (ucast (drop_bit 12 l)), 0x3d, 0x3d])"
| "encode_loop [a, b] =
     (let l = push_bit 16 (ucast a) OR push_bit 8 (ucast b) :: uint32 in
      [conv_bin2ascii (ucast (drop_bit 18 l)), conv_bin2ascii (ucast (drop_bit 12 l)),
       conv_bin2ascii (ucast (drop_bit 6 l)), 0x3d])"
| "encode_loop (a # b # c # src) =
     (let l = push_bit 16 (ucast a) OR push_bit 8 (ucast b) OR ucast c :: uint32 in
      [conv_bin2ascii (ucast (drop_bit 18 l)), conv_bin2ascii (ucast (drop_bit 12 l)),
       conv_bin2ascii (ucast (drop_bit 6 l)), conv_bin2ascii (ucast l)] @ encode_loop src)"

text \<open>The bytes at \<open>dst\<close> with the final NUL, and the return value.\<close>

definition EVP_EncodeBlock :: "byte list \<Rightarrow> byte list \<times> nat" where
  "EVP_EncodeBlock src = (encode_loop src @ [0], length (encode_loop src))"

record evp_encode_ctx =
  data_used :: nat
  ctx_data :: "byte list"
  eof_seen :: bool
  error_encountered :: bool

definition EVP_EncodeInit :: evp_encode_ctx where
  "EVP_EncodeInit = \<lparr>data_used = 0, ctx_data = replicate 48 0, eof_seen = False, error_encountered = False\<rparr>"

definition EVP_ENCODE_CTX_new :: "allocator \<Rightarrow> evp_encode_ctx option \<times> allocator" where
  "EVP_ENCODE_CTX_new al =
     (case OPENSSL_malloc al 56 of
        (None, al') \<Rightarrow> (None, al')
      | (Some _, al') \<Rightarrow> (Some EVP_EncodeInit, al'))"

text \<open>One line: the encoding, a newline and the NUL that the next line overwrites.\<close>

definition encode_line :: "byte list \<Rightarrow> byte list \<times> nat" where
  "encode_line src = (case EVP_EncodeBlock src of (out, encoded) \<Rightarrow> (take encoded out @ [0x0a], encoded))"

text \<open>
  The loop over whole lines of 48 bytes: the lines written, the input left and \<open>total\<close>,
  or \<open>None\<close> for it when the addition wraps.
\<close>

function encode_lines :: "byte list \<Rightarrow> nat \<Rightarrow> byte list \<times> byte list \<times> nat option" where
  "encode_lines src tot =
     (if length src \<ge> 48 then
        (case encode_line (take 48 src) of
           (line, encoded) \<Rightarrow>
             if size_add (size_add tot encoded) 1 < tot then (line, drop 48 src, None)
             else
               (case encode_lines (drop 48 src) (size_add (size_add tot encoded) 1) of
                  (out, rest, t) \<Rightarrow> (line @ out, rest, t)))
      else ([], src, Some tot))"
  by pat_completeness auto
termination by (relation "measure (\<lambda>(src, tot). length src)") auto

declare encode_lines.simps [simp del]

text \<open>The new context, the bytes at \<open>out\<close> (without the final NUL) and \<open>*out_len\<close>.\<close>

definition EVP_EncodeUpdate :: "evp_encode_ctx \<Rightarrow> byte list \<Rightarrow> evp_encode_ctx \<times> byte list \<times> nat" where
  "EVP_EncodeUpdate ctx src =
     (if length src = 0 then (ctx, [], 0)
      else if 48 - data_used ctx > length src then
        (ctx\<lparr>ctx_data := take (data_used ctx) (ctx_data ctx) @ src @ drop (data_used ctx + length src) (ctx_data ctx),
             data_used := data_used ctx + length src\<rparr>, [], 0)
      else
        let todo = 48 - data_used ctx;
            ctx1 = (if data_used ctx \<noteq> 0
                    then ctx\<lparr>ctx_data := take (data_used ctx) (ctx_data ctx) @ take todo src, data_used := 0\<rparr>
                    else ctx);
            (first, tot) = (if data_used ctx \<noteq> 0
                              then (case encode_line (ctx_data ctx1) of (line, encoded) \<Rightarrow> (line, encoded + 1))
                              else ([], 0));
            src1 = (if data_used ctx \<noteq> 0 then drop todo src else src) in
        case encode_lines src1 tot of
          (out, rest, None) \<Rightarrow> (ctx1, first @ out, 0)
        | (out, rest, Some tot) \<Rightarrow>
            (ctx1\<lparr>ctx_data := rest @ drop (length rest) (ctx_data ctx1), data_used := length rest\<rparr>,
             first @ out, if tot > int_max then 0 else tot))"

definition EVP_EncodeFinal :: "evp_encode_ctx \<Rightarrow> evp_encode_ctx \<times> byte list \<times> nat" where
  "EVP_EncodeFinal ctx =
     (if data_used ctx = 0 then (ctx, [], 0)
      else case encode_line (take (data_used ctx) (ctx_data ctx)) of
        (out, encoded) \<Rightarrow> (ctx\<lparr>data_used := 0\<rparr>, out, encoded + 1))"

section \<open>Decoding\<close>

definition EVP_DecodedLength :: "nat \<Rightarrow> nat option" where
  "EVP_DecodedLength len = (if len mod 4 \<noteq> 0 then None else Some (len div 4 * 3))"

definition EVP_DecodeInit :: evp_encode_ctx where
  "EVP_DecodeInit = \<lparr>data_used = 0, ctx_data = replicate 48 0, eof_seen = False, error_encountered = False\<rparr>"

definition b2n :: "bool \<Rightarrow> nat" where
  "b2n b = (if b then 1 else 0)"

text \<open>The bytes written to \<open>out\<close>; \<open>*out_num_bytes\<close> is their number.\<close>

definition base64_decode_quad :: "byte \<Rightarrow> byte \<Rightarrow> byte \<Rightarrow> byte \<Rightarrow> byte list option" where
  "base64_decode_quad i0 i1 i2 i3 =
     (let a = base64_ascii_to_bin i0; b = base64_ascii_to_bin i1;
          c = base64_ascii_to_bin i2; d = base64_ascii_to_bin i3 in
      if a = 0xff \<or> b = 0xff \<or> c = 0xff \<or> d = 0xff then None
      else
        let v = push_bit 18 (ucast a) OR push_bit 12 (ucast b) OR push_bit 6 (ucast c) OR ucast d :: uint32;
            padding_pattern = b2n (i0 = 0x3d) * 8 + b2n (i1 = 0x3d) * 4 + b2n (i2 = 0x3d) * 2 + b2n (i3 = 0x3d) in
        if padding_pattern = 0 then Some [ucast (drop_bit 16 v), ucast (drop_bit 8 v), ucast v]
        else if padding_pattern = 1 then Some [ucast (drop_bit 16 v), ucast (drop_bit 8 v)]
        else if padding_pattern = 3 then Some [ucast (drop_bit 16 v)]
        else None)"

fun decode_quads :: "byte list \<Rightarrow> byte list option" where
  "decode_quads (i0 # i1 # i2 # i3 # rest) =
     (case base64_decode_quad i0 i1 i2 i3 of
        None \<Rightarrow> None
      | Some out \<Rightarrow> if length out \<noteq> 3 \<and> rest \<noteq> [] then None else map_option ((@) out) (decode_quads rest))"
| "decode_quads _ = Some []"

text \<open>\<open>Some\<close> bytes written, their number being \<open>*out_len\<close>, or \<open>None\<close> for 0.\<close>

definition EVP_DecodeBase64 :: "nat \<Rightarrow> byte list \<Rightarrow> byte list option" where
  "EVP_DecodeBase64 max_out src =
     (if length src mod 4 \<noteq> 0 then None
      else case EVP_DecodedLength (length src) of
        None \<Rightarrow> None
      | Some max_len \<Rightarrow> if max_out < max_len then None else decode_quads src)"

definition is_base64_space :: "byte \<Rightarrow> bool" where
  "is_base64_space c \<longleftrightarrow> c = 0x20 \<or> c = 0x09 \<or> c = 0x0d \<or> c = 0x0a"

text \<open>The bytes at \<open>dst\<close>, padded with NULs; their number is the return value, \<open>None\<close> is -1.\<close>

definition EVP_DecodeBlock :: "byte list \<Rightarrow> byte list option" where
  "EVP_DecodeBlock src0 =
     (let src1 = dropWhile (\<lambda>c. c = 0x20 \<or> c = 0x09) src0;
          src = rev (dropWhile is_base64_space (rev src1)) in
      case EVP_DecodedLength (length src) of
        None \<Rightarrow> None
      | Some dst_len \<Rightarrow>
          if dst_len > int_max then None
          else (case EVP_DecodeBase64 dst_len src of
                  None \<Rightarrow> None
                | Some out \<Rightarrow> Some (out @ replicate ((3 - length out mod 3) mod 3) 0)))"

text \<open>
  The character loop of \<open>EVP_DecodeUpdate\<close>. \<open>Inl\<close> is the early return of -1; the bytes
  written so far are kept in both cases.
\<close>

fun decode_chars :: "evp_encode_ctx \<Rightarrow> byte list \<Rightarrow> byte list \<times> (evp_encode_ctx + evp_encode_ctx)" where
  "decode_chars ctx [] = ([], Inr ctx)"
| "decode_chars ctx (c # src) =
     (if is_base64_space c then decode_chars ctx src
      else if eof_seen ctx then ([], Inl (ctx\<lparr>error_encountered := True\<rparr>))
      else
        let ctx1 = ctx\<lparr>ctx_data := (ctx_data ctx)[data_used ctx := c], data_used := data_used ctx + 1\<rparr> in
        if data_used ctx1 = 4 then
          (case base64_decode_quad (ctx_data ctx1 ! 0) (ctx_data ctx1 ! 1) (ctx_data ctx1 ! 2) (ctx_data ctx1 ! 3) of
             None \<Rightarrow> ([], Inl (ctx1\<lparr>error_encountered := True\<rparr>))
           | Some out \<Rightarrow>
               (case decode_chars (ctx1\<lparr>data_used := 0, eof_seen := (if length out < 3 then True else eof_seen ctx1)\<rparr>) src of
                  (outs, r) \<Rightarrow> (out @ outs, r)))
        else decode_chars ctx1 src)"

text \<open>The return value, the new context, the bytes written and \<open>*out_len\<close>.\<close>

definition EVP_DecodeUpdate :: "evp_encode_ctx \<Rightarrow> byte list \<Rightarrow> int \<times> evp_encode_ctx \<times> byte list \<times> nat" where
  "EVP_DecodeUpdate ctx src =
     (if error_encountered ctx then (- 1, ctx, [], 0)
      else case decode_chars ctx src of
        (out, Inl ctx') \<Rightarrow> (- 1, ctx', out, 0)
      | (out, Inr ctx') \<Rightarrow>
          if length out > int_max then (- 1, ctx'\<lparr>error_encountered := True\<rparr>, out, 0)
          else (if eof_seen ctx' then 0 else 1, ctx', out, length out))"

definition EVP_DecodeFinal :: "evp_encode_ctx \<Rightarrow> int" where
  "EVP_DecodeFinal ctx = (if error_encountered ctx \<or> data_used ctx \<noteq> 0 then - 1 else 1)"

section \<open>The alphabet\<close>

text \<open>The reference: the table of RFC 4648.\<close>

definition alphabet :: "nat \<Rightarrow> byte" where
  "alphabet n =
     (if n < 26 then of_nat (0x41 + n)
      else if n < 52 then of_nat (0x61 + (n - 26))
      else if n < 62 then of_nat (0x30 + (n - 52))
      else if n = 62 then 0x2b else 0x2f)"

lemma lt_args_8_mask: "constant_time_lt_args_8 a b = (if a < b then - 1 else 0)"
proof -
  let ?a = "ucast a :: crypto_word" and ?b = "ucast b :: crypto_word"
  have u: "unat ?a = unat a" "unat ?b = unat b" by (simp_all add: unat_ucast_up)
  have "unat a < 256" "unat b < 256" by (rule byte_lt)+
  then have "bit (?a - ?b) 63 \<longleftrightarrow> unat a < unat b"
    unfolding bit63 unat_diff_wrap u by (auto simp del: byte_lt)
  then show ?thesis by (simp add: constant_time_lt_args_8_def msb_mask word_less_nat_alt ones_8)
qed

lemma in_range_8_mask:
  assumes "unat mn \<le> unat mx" and "unat mx < 255"
  shows "constant_time_in_range_8 a mn mx = (if unat mn \<le> unat a \<and> unat a \<le> unat mx then - 1 else 0)"
proof -
  have le: "mn \<le> mx" using assms(1) by (simp add: word_le_nat_alt)
  have w: "unat (mx - mn + 1) = unat mx - unat mn + 1"
    using assms le unat_sub [OF le] by (simp add: unat_word_ariths)
  have "a - mn < mx - mn + 1 \<longleftrightarrow> unat mn \<le> unat a \<and> unat a \<le> unat mx"
  proof (cases "unat mn \<le> unat a")
    case True
    then have "unat (a - mn) = unat a - unat mn" by (simp add: unat_sub word_le_nat_alt)
    then show ?thesis using True w assms(1) by (auto simp: word_less_nat_alt)
  next
    case False
    have lt: "unat a < 256" "unat mn < 256" by (rule byte_lt)+
    have "unat (a - mn) = 256 + unat a - unat mn"
    proof -
      have w256: "of_nat (256 + unat a) = a" by (rule word_unat_eq_iff [THEN iffD2]) (simp only: unat_of_nat_byte, simp)
      have "unat mn \<le> 256 + unat a" using lt by linarith
      then have "of_nat (256 + unat a - unat mn) = of_nat (256 + unat a) - (of_nat (unat mn) :: byte)" by (rule of_nat_diff)
      then have e: "a - mn = of_nat (256 + unat a - unat mn)" unfolding w256 by simp
      have "256 + unat a - unat mn < 256" using lt False by linarith
      then show ?thesis unfolding e unat_of_nat_byte by (rule mod_less)
    qed
    then show ?thesis using False w assms lt by (auto simp: word_less_nat_alt simp del: byte_lt)
  qed
  then show ?thesis by (simp add: constant_time_in_range_8_def lt_args_8_mask)
qed

lemma eq_8_byte: "constant_time_eq_8 (ucast (a :: byte)) b = (if unat a = unat b then - 1 else 0)"
proof -
  have "unat (ucast a :: crypto_word) = unat a" by (simp add: unat_ucast_up)
  then show ?thesis by (auto simp: eq_8_mask word_unat_eq_iff)
qed

lemma conv_bin2ascii_alphabet: "conv_bin2ascii a = alphabet (unat a mod 64)"
proof -
  define x where "x = a AND 0x3f"
  define n where "n = unat a mod 64"
  have "unat x = n" unfolding x_def n_def mask_lits unat_and_low by simp
  moreover have n64: "n < 64" by (simp add: n_def)
  ultimately have x: "x = of_nat n" "unat x = n" by auto
  have lt: "x < 26 \<longleftrightarrow> n < 26" "x < 52 \<longleftrightarrow> n < 52" "x < 62 \<longleftrightarrow> n < 62" unfolding word_less_nat_alt x(2) by simp_all
  have eq: "unat x = unat (62 :: crypto_word) \<longleftrightarrow> n = 62" using x(2) by simp
  have c: "conv_bin2ascii a =
     (if n < 26 then x + 0x41 else if n < 52 then x - 26 + 0x61 else if n < 62 then x - 52 + 0x30
      else if n = 62 then 0x2b else 0x2f)"
    unfolding conv_bin2ascii_def Let_def x_def [symmetric] lt_args_8_mask eq_8_byte lt eq
    by (simp add: select_8_mask)
  have "x + 0x41 = of_nat (0x41 + n)" by (simp add: x(1))
  moreover have "26 \<le> n \<Longrightarrow> x - 26 + 0x61 = of_nat (0x61 + (n - 26))" by (simp add: x(1) of_nat_diff)
  moreover have "52 \<le> n \<Longrightarrow> x - 52 + 0x30 = of_nat (0x30 + (n - 52))" by (simp add: x(1) of_nat_diff)
  ultimately show ?thesis unfolding c alphabet_def n_def [symmetric] by auto
qed

lemma ascii_to_bin_cases:
  "base64_ascii_to_bin a =
     (if 0x41 \<le> unat a \<and> unat a \<le> 0x5a then a - 0x41
      else if 0x61 \<le> unat a \<and> unat a \<le> 0x7a then a - 0x61 + 26
      else if 0x30 \<le> unat a \<and> unat a \<le> 0x39 then a - 0x30 + 52
      else if a = 0x2b then 62 else if a = 0x2f then 63 else if a = 0x3d then 0 else 0xff)"
proof -
  have eqs: "unat a = unat (0x2b :: crypto_word) \<longleftrightarrow> a = 0x2b" "unat a = unat (0x2f :: crypto_word) \<longleftrightarrow> a = 0x2f"
    "unat a = unat (0x3d :: crypto_word) \<longleftrightarrow> a = 0x3d" by (simp_all add: word_unat_eq_iff)
  have r: "constant_time_in_range_8 a 0x41 0x5a = (if 0x41 \<le> unat a \<and> unat a \<le> 0x5a then - 1 else 0)"
    "constant_time_in_range_8 a 0x61 0x7a = (if 0x61 \<le> unat a \<and> unat a \<le> 0x7a then - 1 else 0)"
    "constant_time_in_range_8 a 0x30 0x39 = (if 0x30 \<le> unat a \<and> unat a \<le> 0x39 then - 1 else 0)"
    using in_range_8_mask [of "0x41" "0x5a" a] in_range_8_mask [of "0x61" "0x7a" a] in_range_8_mask [of "0x30" "0x39" a]
    by simp_all
  show ?thesis
    unfolding base64_ascii_to_bin_def Let_def r eq_8_byte eqs
    by (auto simp: word_unat_eq_iff [of a] unsigned_minus_1_eq_mask mask_eq_exp_minus_1)
qed

lemma to_bin_alphabet:
  assumes "n < 64"
  shows "unat (base64_ascii_to_bin (alphabet n)) = n" and "alphabet n \<noteq> 0x3d"
proof -
  have u: "unat (alphabet n) =
     (if n < 26 then 0x41 + n else if n < 52 then 0x61 + (n - 26) else if n < 62 then 0x30 + (n - 52)
      else if n = 62 then 0x2b else 0x2f)"
    unfolding alphabet_def using assms by (simp only: if_distrib [of unat] unat_of_nat_byte) simp
  show "alphabet n \<noteq> 0x3d"
    using u assms by (auto simp: word_unat_eq_iff split: if_splits)
  consider "n < 26" | "26 \<le> n" "n < 52" | "52 \<le> n" "n < 62" | "n = 62" | "n = 63" using assms by linarith
  then show "unat (base64_ascii_to_bin (alphabet n)) = n"
  proof cases
    case 1
    then have "base64_ascii_to_bin (alphabet n) = alphabet n - 0x41" unfolding ascii_to_bin_cases u by simp
    then show ?thesis using 1 by (simp add: alphabet_def)
  next
    case 2
    then have "base64_ascii_to_bin (alphabet n) = alphabet n - 0x61 + 26" unfolding ascii_to_bin_cases u by simp
    also have "\<dots> = of_nat n" using 2 by (simp add: alphabet_def of_nat_diff)
    finally show ?thesis using assms by simp
  next
    case 3
    then have "base64_ascii_to_bin (alphabet n) = alphabet n - 0x30 + 52" unfolding ascii_to_bin_cases u by auto
    also have "\<dots> = of_nat n" using 3 by (simp add: alphabet_def of_nat_diff)
    finally show ?thesis using assms by simp
  qed (simp_all add: alphabet_def ascii_to_bin_cases)
qed

lemma to_bin_equals [simp]: "base64_ascii_to_bin 0x3d = 0"
  by (simp add: ascii_to_bin_cases)

lemma conv_digit: "conv_bin2ascii (ucast (l :: uint32)) = alphabet (unat l mod 64)"
proof -
  have "unat (ucast l :: byte) = unat l mod 256" by (simp add: unsigned_ucast_eq take_bit_eq_mod)
  moreover have "n mod 256 mod 64 = n mod 64" for n :: nat by (simp add: mod_mod_cancel)
  ultimately show ?thesis by (simp add: conv_bin2ascii_alphabet)
qed

section \<open>One quad\<close>

text \<open>The four digits of a 24-bit group.\<close>

definition digit :: "nat \<Rightarrow> nat \<Rightarrow> byte" where
  "digit k n = alphabet (n div 2 ^ k mod 64)"

lemma digit_not_equals [simp]: "digit k n \<noteq> 0x3d"
  by (simp add: digit_def to_bin_alphabet)

lemma to_bin_digit: "base64_ascii_to_bin (digit k n) = of_nat (n div 2 ^ k mod 64)"
  unfolding digit_def by (rule unat_eq_of_nat) (simp add: to_bin_alphabet)

lemma group_read:
  fixes a b c :: byte
  shows "unat (push_bit 16 (ucast a) OR push_bit 8 (ucast b) OR ucast c :: uint32) = be_val [a, b, c]"
proof -
  have "unat a < 256" "unat b < 256" "unat c < 256" by (rule byte_lt)+
  then have lt: "unat b * 256 + unat c < 65536" "unat a < 65536" "unat b < 16777216" by linarith+
  have u: "unat (ucast x :: uint32) = unat x" for x :: byte by (simp add: unat_ucast_up)
  have 1: "unat (push_bit 8 (ucast b) OR ucast c :: uint32) = unat b * 2 ^ 8 + unat c"
    using lt by (subst unat_push_or) (simp_all only: u, simp_all)
  have "unat (push_bit 16 (ucast a) OR push_bit 8 (ucast b) OR ucast c :: uint32) = unat a * 2 ^ 16 + (unat b * 2 ^ 8 + unat c)"
    unfolding 1 [symmetric] using lt by (subst unat_push_or) (simp_all only: u 1, simp_all)
  then show ?thesis by (simp add: be_val_Cons)
qed

lemma encode3:
  "encode_loop (a # b # c # src) =
     [digit 18 (be_val [a, b, c]), digit 12 (be_val [a, b, c]), digit 6 (be_val [a, b, c]), digit 0 (be_val [a, b, c])] @
     encode_loop src"
  unfolding encode_loop.simps Let_def conv_digit unat_drop_bit group_read digit_def by simp

lemma encode2:
  "encode_loop [a, b] = [digit 18 (be_val [a, b, 0]), digit 12 (be_val [a, b, 0]), digit 6 (be_val [a, b, 0]), 0x3d]"
proof -
  have "unat (push_bit 16 (ucast a) OR push_bit 8 (ucast b) :: uint32) = be_val [a, b, 0]"
    using group_read [of a b 0] by simp
  then show ?thesis by (simp add: conv_digit unat_drop_bit digit_def Let_def)
qed

lemma encode1:
  "encode_loop [a] = [digit 18 (be_val [a, 0, 0]), digit 12 (be_val [a, 0, 0]), 0x3d, 0x3d]"
proof -
  have "unat (push_bit 16 (ucast a) :: uint32) = be_val [a, 0, 0]"
    using group_read [of a 0 0] by simp
  then show ?thesis by (simp add: conv_digit unat_drop_bit digit_def Let_def)
qed

declare encode_loop.simps(2-4) [simp del]

lemma sextets_read:
  assumes "a < 64" "b < 64" "c < 64" "d < 64"
  shows "unat (push_bit 18 (ucast (of_nat a :: byte)) OR push_bit 12 (ucast (of_nat b :: byte)) OR
               push_bit 6 (ucast (of_nat c :: byte)) OR ucast (of_nat d :: byte) :: uint32) =
         a * 2 ^ 18 + b * 2 ^ 12 + c * 2 ^ 6 + d" (is "unat ?v = _")
proof -
  have u: "n < 64 \<Longrightarrow> unat (ucast (of_nat n :: byte) :: uint32) = n" for n by (simp add: unat_ucast_up)
  have 1: "unat (push_bit 6 (ucast (of_nat c :: byte)) OR ucast (of_nat d :: byte) :: uint32) = c * 2 ^ 6 + d"
    using assms by (subst unat_push_or) (simp_all only: u, simp_all)
  have 2: "unat (push_bit 12 (ucast (of_nat b :: byte)) OR
               push_bit 6 (ucast (of_nat c :: byte)) OR ucast (of_nat d :: byte) :: uint32) = b * 2 ^ 12 + (c * 2 ^ 6 + d)"
    unfolding 1 [symmetric] using assms by (subst unat_push_or) (simp_all only: u 1, simp_all)
  show ?thesis
    using assms by (subst unat_push_or) (simp_all only: u 2, simp_all)
qed

lemma sextets_join:
  assumes "n < 2 ^ 24"
  shows "(n div 2 ^ 18 mod 64) * 2 ^ 18 + (n div 2 ^ 12 mod 64) * 2 ^ 12 + (n div 2 ^ 6 mod 64) * 2 ^ 6 + n mod 64 = (n :: nat)"
proof -
  define p where "p = n div 64"
  define q where "q = p div 64"
  define r where "r = q div 64"
  have d: "n div 2 ^ 6 = p" "n div 2 ^ 12 = q" "n div 2 ^ 18 = r"
    by (simp_all add: p_def q_def r_def div_mult2_eq [symmetric])
  have "r mod 64 = r" unfolding d(3) [symmetric] using assms by (simp add: less_mult_imp_div_less)
  moreover have "n = p * 64 + n mod 64" "p = q * 64 + p mod 64" "q = r * 64 + q mod 64"
    by (simp_all add: p_def q_def r_def)
  ultimately show ?thesis unfolding d by simp
qed

lemma decode_quad_sextets:
  fixes i0 i1 i2 i3 :: byte
  assumes "base64_ascii_to_bin i0 = of_nat a" "base64_ascii_to_bin i1 = of_nat b"
    "base64_ascii_to_bin i2 = of_nat c" "base64_ascii_to_bin i3 = of_nat d"
    and lt: "a < 64" "b < 64" "c < 64" "d < 64"
    and "i0 \<noteq> 0x3d" "i1 \<noteq> 0x3d" and "i2 = 0x3d \<Longrightarrow> i3 = 0x3d"
    and v: "a * 2 ^ 18 + b * 2 ^ 12 + c * 2 ^ 6 + d = v"
  shows "base64_decode_quad i0 i1 i2 i3 =
    (Some (take (if i2 = 0x3d then 1 else if i3 = 0x3d then 2 else 3) (be_bytes 3 v)))"
proof -
  define w where "w = (push_bit 18 (ucast (of_nat a :: byte)) OR push_bit 12 (ucast (of_nat b :: byte)) OR
               push_bit 6 (ucast (of_nat c :: byte)) OR ucast (of_nat d :: byte) :: uint32)"
  have w: "unat w = v" unfolding w_def v [symmetric] by (rule sextets_read [OF lt])
  have ff: "n < 64 \<Longrightarrow> (of_nat n :: byte) \<noteq> 0xff" for n by (simp add: word_unat_eq_iff)
  have lo: "ucast (x :: uint32) = (of_nat (unat x) :: byte)" for x
    by (rule unat_eq_of_nat [THEN trans, OF refl]) (simp add: word_unat_eq_iff unsigned_ucast_eq take_bit_eq_mod)
  have bytes: "be_bytes 3 (unat w) = [ucast (drop_bit 16 w), ucast (drop_bit 8 w), ucast w]"
    unfolding lo unat_drop_bit by (simp add: numeral_3_eq_3 div_mult2_eq [symmetric])
  show ?thesis
    unfolding base64_decode_quad_def Let_def assms(1-4) w_def [symmetric] w [symmetric] bytes
    using ff [OF lt(1)] ff [OF lt(2)] ff [OF lt(3)] ff [OF lt(4)] assms(9-11)
    by (auto simp: b2n_def)
qed

lemma group_lt: "be_val [a, b, c] < 2 ^ 24"
  using be_val_lt [of "[a, b, c]"] by simp

lemma group_bytes: "be_bytes 3 (be_val [a, b, c]) = [a, b, c]"
  using be_bytes_be_val [of "[a, b, c]"] by (simp add: numeral_3_eq_3)

lemma digit_lt: "n div 2 ^ k mod 64 < (64 :: nat)"
  by simp

lemma to_bin_equals_nat: "base64_ascii_to_bin 0x3d = of_nat 0"
  by simp

lemma decode_quad3:
  fixes a b c :: byte
  defines "n \<equiv> be_val [a, b, c]"
  shows "base64_decode_quad (digit 18 n) (digit 12 n) (digit 6 n) (digit 0 n) = Some [a, b, c]"
proof -
  have v: "n div 2 ^ 18 mod 64 * 2 ^ 18 + n div 2 ^ 12 mod 64 * 2 ^ 12 + n div 2 ^ 6 mod 64 * 2 ^ 6 + n div 2 ^ 0 mod 64 = n"
    unfolding n_def power_0 div_by_1 by (rule sextets_join [OF group_lt])
  show ?thesis
    by (subst decode_quad_sextets [OF to_bin_digit to_bin_digit to_bin_digit to_bin_digit digit_lt digit_lt digit_lt digit_lt
          _ _ _ v]) (simp_all add: n_def group_bytes)
qed

lemma decode_quad2:
  fixes a b :: byte
  defines "n \<equiv> be_val [a, b, 0]"
  shows "base64_decode_quad (digit 18 n) (digit 12 n) (digit 6 n) 0x3d = Some [a, b]"
proof -
  have "n mod 64 = 0" by (simp add: n_def be_val_Cons mod_simps)
  then have v: "n div 2 ^ 18 mod 64 * 2 ^ 18 + n div 2 ^ 12 mod 64 * 2 ^ 12 + n div 2 ^ 6 mod 64 * 2 ^ 6 + 0 = n"
    using sextets_join [OF group_lt [of a b 0]] unfolding n_def by metis
  show ?thesis
    by (subst decode_quad_sextets [OF to_bin_digit to_bin_digit to_bin_digit to_bin_equals_nat digit_lt digit_lt digit_lt
          _ _ _ _ v]) (simp_all add: n_def group_bytes)
qed

lemma decode_quad1:
  fixes a :: byte
  defines "n \<equiv> be_val [a, 0, 0]"
  shows "base64_decode_quad (digit 18 n) (digit 12 n) 0x3d 0x3d = Some [a]"
proof -
  have "n mod 64 = 0" "n div 2 ^ 6 mod 64 = 0" by (simp_all add: n_def be_val_Cons mod_simps)
  then have v: "n div 2 ^ 18 mod 64 * 2 ^ 18 + n div 2 ^ 12 mod 64 * 2 ^ 12 + 0 * 2 ^ 6 + 0 = n"
    using sextets_join [OF group_lt [of a 0 0]] unfolding n_def by metis
  show ?thesis
    by (subst decode_quad_sextets [OF to_bin_digit to_bin_digit to_bin_equals_nat to_bin_equals_nat digit_lt digit_lt
          _ _ _ _ _ v]) (simp_all add: n_def group_bytes)
qed

lemmas decode_quad_encoded = decode_quad1 decode_quad2 decode_quad3

section \<open>In one piece\<close>

lemma decode_quads_encode_loop: "decode_quads (encode_loop src) = Some src"
  by (induction src rule: encode_loop.induct) (simp_all add: encode1 encode2 encode3 decode_quad_encoded)

lemma length_encode_loop: "length (encode_loop src) = (length src + 2) div 3 * 4"
proof (induction src rule: encode_loop.induct)
  case (4 a b c src)
  have "(length (a # b # c # src) + 2) div 3 = Suc ((length src + 2) div 3)" by simp
  then show ?case using 4 by (simp only: encode3 length_append mult_Suc) simp
qed (simp_all add: encode1 encode2)

lemma encode_loop_append: "length xs mod 3 = 0 \<Longrightarrow> encode_loop (xs @ ys) = encode_loop xs @ encode_loop ys"
  by (induction xs rule: encode_loop.induct) (simp_all add: encode3)

lemma alphabet_above_space: "n < 64 \<Longrightarrow> 0x20 < unat (alphabet n)"
  unfolding alphabet_def by (simp only: if_distrib [of unat] unat_of_nat_byte) auto

lemma digit_not_space [simp]: "\<not> is_base64_space (digit k n)" "\<not> is_base64_space 0x3d"
proof -
  have "0x20 < unat (digit k n)" unfolding digit_def by (rule alphabet_above_space) simp
  then show "\<not> is_base64_space (digit k n)" by (auto simp: is_base64_space_def)
qed (simp add: is_base64_space_def)

lemma encode_loop_not_space: "c \<in> set (encode_loop src) \<Longrightarrow> \<not> is_base64_space c"
  by (induction src rule: encode_loop.induct)
    (auto simp: encode1 encode2 encode3)

lemma EVP_EncodedLength_eq:
  assumes "n < size_max1"
  shows "EVP_EncodedLength n = (let m = (n + 2) div 3 * 4 + 1 in if m < size_max1 then Some m else None)"
proof (cases "n + 2 < size_max1")
  case False
  then have "EVP_EncodedLength n = None"
    using size_add_overflow_iff [OF assms, of 2] by (simp add: EVP_EncodedLength_def size_max1_def)
  moreover have "size_max1 \<le> (n + 2) div 3 * 4 + 1" using False unfolding size_max1_def by simp
  ultimately show ?thesis by (simp add: Let_def)
next
  case True
  define k where "k = (n + 2) div 3"
  have k: "k < size_max1" using True unfolding k_def by (rule le_less_trans [rotated]) simp
  have mul: "size_mul k 4 div 4 = k \<longleftrightarrow> k * 4 < size_max1" by (rule size_mul_div_eq_iff) (simp_all add: k)
  have len: "size_add n 2 = n + 2" by (rule size_add_noover [OF True])
  show ?thesis
  proof (cases "k * 4 < size_max1")
    case 4: True
    then have "k * 4 + 1 < size_max1" unfolding size_max1_def by simp
    then have "size_mul k 4 = k * 4" "size_add (k * 4) 1 = k * 4 + 1"
      using 4 by (simp_all add: size_mul_def size_add_def)
    then show ?thesis using 4 \<open>k * 4 + 1 < _\<close> unfolding EVP_EncodedLength_def len Let_def k_def [symmetric] by simp
  next
    case 4: False
    then show ?thesis using mul unfolding EVP_EncodedLength_def len Let_def k_def [symmetric] by simp
  qed
qed

text \<open>Back from a digit: every accepted character other than the padding is in the table.\<close>

lemma alphabet_to_bin:
  assumes "base64_ascii_to_bin i \<noteq> 0xff" and "i \<noteq> 0x3d"
  shows "unat (base64_ascii_to_bin i) < 64" and "alphabet (unat (base64_ascii_to_bin i)) = i"
proof -
  define n where "n = unat i"
  have i: "i = of_nat n" and "n < 256" by (simp_all add: n_def)
  consider "0x41 \<le> n" "n \<le> 0x5a" | "0x61 \<le> n" "n \<le> 0x7a" | "0x30 \<le> n" "n \<le> 0x39" | "i = 0x2b" | "i = 0x2f"
    using assms unfolding ascii_to_bin_cases n_def by (auto split: if_splits)
  then have "unat (base64_ascii_to_bin i) < 64 \<and> alphabet (unat (base64_ascii_to_bin i)) = i"
  proof cases
    case 1
    then have "base64_ascii_to_bin i = of_nat (n - 0x41)"
      unfolding ascii_to_bin_cases n_def [symmetric] by (simp add: i of_nat_diff)
    then have "unat (base64_ascii_to_bin i) = n - 0x41" using 1 by (simp only: unat_of_nat_byte) simp
    then show ?thesis using 1 by (auto simp: alphabet_def i)
  next
    case 2
    then have "base64_ascii_to_bin i = of_nat (n - 0x61 + 26)"
      unfolding ascii_to_bin_cases n_def [symmetric] by (simp add: i of_nat_diff)
    then have "unat (base64_ascii_to_bin i) = n - 0x61 + 26" using 2 by (simp only: unat_of_nat_byte) simp
    then show ?thesis using 2 by (auto simp: alphabet_def i)
  next
    case 3
    then have "base64_ascii_to_bin i = of_nat (n - 0x30 + 52)"
      unfolding ascii_to_bin_cases n_def [symmetric] by (auto simp: i of_nat_diff)
    then have "unat (base64_ascii_to_bin i) = n - 0x30 + 52" using 3 by (simp only: unat_of_nat_byte) simp
    then show ?thesis using 3 by (auto simp: alphabet_def i)
  qed (simp_all add: ascii_to_bin_cases alphabet_def)
  then show "unat (base64_ascii_to_bin i) < 64" and "alphabet (unat (base64_ascii_to_bin i)) = i" by simp_all
qed

lemma sextets_split:
  assumes "a < 64" "b < 64" "c < 64" "d < (64 :: nat)"
  defines "v \<equiv> a * 2 ^ 18 + b * 2 ^ 12 + c * 2 ^ 6 + d"
  shows "digit 18 v = alphabet a" "digit 12 v = alphabet b" "digit 6 v = alphabet c" "digit 0 v = alphabet d" "v < 256 ^ 3"
proof -
  define p where "p = a * 64 + b"
  define q where "q = p * 64 + c"
  have v: "v = q * 64 + d" by (simp add: v_def p_def q_def)
  have step: "y < 64 \<Longrightarrow> (x * 64 + y) mod 64 = y \<and> (x * 64 + y) div 64 = x" for x y :: nat by simp
  have "v mod 64 = d" "v div 2 ^ 6 = q" "q mod 64 = c" "p mod 64 = b" "a mod 64 = a"
    using step [OF assms(4), of q] step [OF assms(3), of p] step [OF assms(2), of a] assms(1) by (simp_all add: v p_def q_def)
  moreover have "v div 2 ^ 12 = p" "v div 2 ^ 18 = a"
  proof -
    have "v div 2 ^ 12 = v div 64 div 64" "v div 2 ^ 18 = v div 64 div 64 div 64" by (simp_all add: div_mult2_eq [symmetric])
    then show "v div 2 ^ 12 = p" "v div 2 ^ 18 = a"
      using step [OF assms(4), of q] step [OF assms(3), of p] step [OF assms(2), of a] by (simp_all add: v p_def q_def)
  qed
  ultimately show "digit 18 v = alphabet a" "digit 12 v = alphabet b" "digit 6 v = alphabet c" "digit 0 v = alphabet d"
    by (simp_all only: digit_def power_0 div_by_1)
  show "v < 256 ^ 3" using assms by simp
qed

lemma decode_quad_reencode:
  assumes "base64_decode_quad i0 i1 i2 i3 = Some out" and "0x3d \<notin> {i0, i1, i2, i3}"
  shows "length out = 3 \<and> encode_loop (out @ rest) = [i0, i1, i2, i3] @ encode_loop rest"
proof -
  let ?s = "\<lambda>i. unat (base64_ascii_to_bin i)"
  define v where "v = ?s i0 * 2 ^ 18 + ?s i1 * 2 ^ 12 + ?s i2 * 2 ^ 6 + ?s i3"
  have ok: "base64_ascii_to_bin i \<noteq> 0xff" "i \<noteq> 0x3d" if "i \<in> {i0, i1, i2, i3}" for i
    using assms that by (auto simp: base64_decode_quad_def Let_def split: if_splits)
  have lt: "?s i0 < 64" "?s i1 < 64" "?s i2 < 64" "?s i3 < 64" using alphabet_to_bin(1) [OF ok] by simp_all
  have al: "alphabet (?s i0) = i0" "alphabet (?s i1) = i1" "alphabet (?s i2) = i2" "alphabet (?s i3) = i3"
    using alphabet_to_bin(2) [OF ok] by simp_all
  have self: "base64_ascii_to_bin i = of_nat (?s i)" for i by simp
  have "base64_decode_quad i0 i1 i2 i3 = Some (be_bytes 3 v)"
    using assms(2) by (subst decode_quad_sextets [OF self self self self lt _ _ _ v_def [symmetric]]) auto
  then have out: "out = be_bytes 3 v" using assms(1) by simp
  then obtain a b c where abc: "out = [a, b, c]" by (simp add: numeral_3_eq_3)
  have "be_val [a, b, c] = v"
    using sextets_split(5) [OF lt] unfolding abc [symmetric] out be_val_be_bytes v_def by (rule mod_less)
  then show ?thesis
    using sextets_split(1-4) [OF lt] by (simp add: abc encode3 al v_def)
qed

lemma decode_quads_reencode:
  "decode_quads s = Some out \<Longrightarrow> 0x3d \<notin> set s \<Longrightarrow> length s mod 4 = 0 \<Longrightarrow> encode_loop out = s"
proof (induction s arbitrary: out rule: decode_quads.induct)
  case (1 i0 i1 i2 i3 rest)
  then obtain q out' where q: "base64_decode_quad i0 i1 i2 i3 = Some q" and "decode_quads rest = Some out'" "out = q @ out'"
    by (auto split: option.splits if_splits)
  then show ?case using 1 decode_quad_reencode [OF q, of out'] by (auto split: if_splits)
qed auto

section \<open>Streamed encoding\<close>

text \<open>
  The reference: the input cut into lines of 48 bytes, each encoded and ended by a newline.
  \<open>full_lines\<close> stops at the last full line, \<open>pem_lines\<close> also has the short one.
\<close>

function full_lines :: "byte list \<Rightarrow> byte list" where
  "full_lines xs = (if length xs \<ge> 48 then encode_loop (take 48 xs) @ [0x0a] @ full_lines (drop 48 xs) else [])"
  by pat_completeness auto
termination by (relation "measure length") auto

declare full_lines.simps [simp del]

definition pending_line :: "byte list \<Rightarrow> byte list" where
  "pending_line xs = drop (length xs div 48 * 48) xs"

definition pem_lines :: "byte list \<Rightarrow> byte list" where
  "pem_lines xs = full_lines xs @ (if pending_line xs = [] then [] else encode_loop (pending_line xs) @ [0x0a])"

text \<open>A caller that encodes in chunks and keeps the \<open>*out_len\<close> bytes of every call.\<close>

fun encode_stream :: "evp_encode_ctx \<Rightarrow> byte list list \<Rightarrow> byte list" where
  "encode_stream ctx [] = (case EVP_EncodeFinal ctx of (_, out, n) \<Rightarrow> take n out)"
| "encode_stream ctx (c # cs) = (case EVP_EncodeUpdate ctx c of (ctx', out, n) \<Rightarrow> take n out @ encode_stream ctx' cs)"

text \<open>The context holds \<open>p\<close>, less than a line.\<close>

definition holds_line :: "evp_encode_ctx \<Rightarrow> byte list \<Rightarrow> bool" where
  "holds_line ctx p \<longleftrightarrow> length (ctx_data ctx) = 48 \<and> data_used ctx = length p \<and> length p < 48 \<and> take (length p) (ctx_data ctx) = p"

lemma encode_line_eq: "encode_line xs = (encode_loop xs @ [0x0a], length (encode_loop xs))"
  by (simp add: encode_line_def EVP_EncodeBlock_def)

lemma full_lines_short: "length xs < 48 \<Longrightarrow> full_lines xs = []"
  by (simp add: full_lines.simps [of xs])

lemma full_lines_line: "length xs = 48 \<Longrightarrow> full_lines (xs @ ys) = encode_loop xs @ [0x0a] @ full_lines ys"
  by (simp add: full_lines.simps [of "xs @ ys"])

lemma pending_line_short: "length xs < 48 \<Longrightarrow> pending_line xs = xs"
  by (simp add: pending_line_def)

lemma pending_line_line: "length xs = 48 \<Longrightarrow> pending_line (xs @ ys) = pending_line ys"
proof -
  assume l: "length xs = 48"
  have "(48 + n) div 48 * 48 = 48 + n div 48 * 48" for n :: nat by (simp add: div_add_self1)
  then have "length (xs @ ys) div 48 * 48 = 48 + length ys div 48 * 48" by (simp only: length_append l)
  then show ?thesis unfolding pending_line_def by (simp add: l)
qed

lemma length_pending_line: "length (pending_line xs) < 48"
  by (simp add: pending_line_def minus_div_mult_eq_mod)

lemma length_full_lines: "length (full_lines xs) = 65 * (length xs div 48)"
proof (induction xs rule: full_lines.induct)
  case (1 xs)
  show ?case
  proof (cases "length xs \<ge> 48")
    case True
    then have "length xs div 48 = Suc (length (drop 48 xs) div 48)" by (simp add: le_div_geq)
    then show ?thesis using 1 [OF True] True by (simp add: full_lines.simps [of xs] length_encode_loop)
  qed (simp add: full_lines_short)
qed

lemma encode_lines_eq:
  "tot + length (full_lines xs) < size_max1 \<Longrightarrow>
   encode_lines xs tot = (full_lines xs, pending_line xs, Some (tot + length (full_lines xs)))"
proof (induction xs tot rule: encode_lines.induct)
  case (1 xs tot)
  show ?case
  proof (cases "length xs \<ge> 48")
    case True
    define line where "line = take 48 xs"
    have xs: "xs = line @ drop 48 xs" and l: "length line = 48" using True by (simp_all add: line_def)
    have f: "full_lines xs = encode_loop line @ [0x0a] @ full_lines (drop 48 xs)" using full_lines_line [OF l] xs by metis
    have p: "pending_line xs = pending_line (drop 48 xs)" using pending_line_line [OF l] xs by metis
    have e: "length (encode_loop line) = 64" by (simp add: length_encode_loop l)
    have "tot + 65 < size_max1" using 1(2) by (simp add: f e)
    then have add: "size_add (size_add tot 64) 1 = tot + 65" by (simp add: size_add_def)
    have "encode_lines (drop 48 xs) (tot + 65) =
      (full_lines (drop 48 xs), pending_line (drop 48 xs), Some (tot + 65 + length (full_lines (drop 48 xs))))"
      using 1(1) [OF True, of "encode_loop line @ [0x0a]" 64] 1(2)
      by (simp add: line_def [symmetric] encode_line_eq e f add [unfolded One_nat_def])
    then show ?thesis
      using True by (simp add: encode_lines.simps [of xs] line_def [symmetric] encode_line_eq e add [unfolded One_nat_def] f p)
  next
    case False
    then show ?thesis by (simp add: encode_lines.simps [of xs] full_lines_short pending_line_short)
  qed
qed

lemma full_lines_bound: "length p < 48 \<Longrightarrow> length c \<le> 2 ^ 30 \<Longrightarrow> length (full_lines (p @ c)) \<le> int_max"
  unfolding length_full_lines int_max_def by simp

lemma encode_update:
  assumes p: "holds_line ctx p" and c: "length c \<le> 2 ^ 30"
  shows "\<exists>ctx'. EVP_EncodeUpdate ctx c = (ctx', full_lines (p @ c), length (full_lines (p @ c))) \<and>
    holds_line ctx' (pending_line (p @ c))"
proof -
  have d: "length (ctx_data ctx) = 48" "data_used ctx = length p" "length p < 48" "take (length p) (ctx_data ctx) = p"
    using p by (simp_all add: holds_line_def)
  consider "c = []" | "c \<noteq> []" "length p + length c < 48" | "length p + length c \<ge> 48" by linarith
  then show ?thesis
  proof cases
    case 1
    then show ?thesis using p d(3) by (simp add: EVP_EncodeUpdate_def full_lines_short pending_line_short)
  next
    case 2
    moreover have "length c < 48 - length p" using 2 by linarith
    ultimately show ?thesis
      using d by (simp add: EVP_EncodeUpdate_def full_lines_short pending_line_short holds_line_def)
  next
    case 3
    define todo where "todo = (if p = [] then 0 else 48 - length p)"
    define line where "line = (if p = [] then [] else p @ take todo c)"
    define ctx1 where "ctx1 = (if p = [] then ctx else ctx\<lparr>ctx_data := line, data_used := 0\<rparr>)"
    define first where "first = (if p = [] then [] else encode_loop line @ [0x0a])"
    have l: "p \<noteq> [] \<Longrightarrow> length line = 48" using 3 d(3) by (simp add: line_def todo_def)
    have e: "p \<noteq> [] \<Longrightarrow> length (encode_loop line) = 64" using l by (simp add: length_encode_loop)
    have pc: "p @ c = line @ drop todo c" by (simp add: line_def todo_def)
    have f: "full_lines (p @ c) = first @ full_lines (drop todo c)" and
      q: "pending_line (p @ c) = pending_line (drop todo c)"
      unfolding pc using full_lines_line [OF l, of "drop todo c"] pending_line_line [OF l, of "drop todo c"]
      by (auto simp: first_def) (simp_all add: line_def)
    have bound: "length (full_lines (p @ c)) \<le> int_max" using full_lines_bound [OF d(3) c] .
    then have "length first + length (full_lines (drop todo c)) < size_max1"
      unfolding f by (simp add: int_max_def size_max1_def)
    note el = encode_lines_eq [OF this]
    have "EVP_EncodeUpdate ctx c =
      (ctx1\<lparr>ctx_data := pending_line (drop todo c) @ drop (length (pending_line (drop todo c))) (ctx_data ctx1),
            data_used := length (pending_line (drop todo c))\<rparr>, full_lines (p @ c), length (full_lines (p @ c)))"
    proof (cases "p = []")
      case True
      then show ?thesis
        using 3 d el bound f by (auto simp: EVP_EncodeUpdate_def ctx1_def first_def todo_def)
    next
      case False
      then have eq: "take (length p) (ctx_data ctx) @ take (48 - length p) c = line" "48 - length p = todo" "p @ take todo c = line"
        using d(4) False by (simp_all add: line_def todo_def)
      have "\<not> length c < todo" "c \<noteq> []" using 3 d(3) False by (auto simp: todo_def)
      then show ?thesis
        using 3 d el bound f False e
        by (simp add: EVP_EncodeUpdate_def eq encode_line_eq ctx1_def first_def del: drop_append)
    qed
    moreover have "length (ctx_data ctx1) = 48" using l d(1) by (simp add: ctx1_def)
    ultimately show ?thesis
      using length_pending_line [of "drop todo c"] by (simp add: holds_line_def q)
  qed
qed

lemma lines_step:
  "pending_line (pending_line xs @ ys) = pending_line (xs @ ys) \<and>
   full_lines xs @ full_lines (pending_line xs @ ys) = full_lines (xs @ ys)"
proof (induction xs rule: full_lines.induct)
  case (1 xs)
  show ?case
  proof (cases "length xs \<ge> 48")
    case True
    define line where "line = take 48 xs"
    define xs' where "xs' = drop 48 xs"
    have xs: "xs = line @ xs'" and l: "length line = 48" using True by (simp_all add: line_def xs'_def)
    show ?thesis
      using 1 [OF True, folded xs'_def] unfolding xs by (simp add: full_lines_line [OF l] pending_line_line [OF l])
  qed (simp add: full_lines_short pending_line_short)
qed

lemma encode_stream_lines:
  assumes "holds_line ctx p" and "\<forall>c\<in>set cs. length c \<le> 2 ^ 30"
  shows "encode_stream ctx cs = pem_lines (p @ concat cs)"
  using assms
proof (induction cs arbitrary: ctx p)
  case Nil
  then show ?case
    by (auto simp: holds_line_def EVP_EncodeFinal_def encode_line_eq pem_lines_def full_lines_short pending_line_short)
next
  case (Cons c cs)
  obtain ctx' where u: "EVP_EncodeUpdate ctx c = (ctx', full_lines (p @ c), length (full_lines (p @ c)))"
    and h: "holds_line ctx' (pending_line (p @ c))"
    using encode_update [OF Cons.prems(1), of c] Cons.prems(2) by auto
  show ?case
    using Cons.IH [OF h] Cons.prems(2) lines_step [of "p @ c" "concat cs"]
    by (simp add: u pem_lines_def)
qed

section \<open>Streamed decoding\<close>

text \<open>A caller that decodes in chunks, stops at -1 and asks \<open>EVP_DecodeFinal\<close> at the end.\<close>

fun decode_stream :: "evp_encode_ctx \<Rightarrow> byte list list \<Rightarrow> byte list option" where
  "decode_stream ctx [] = (if EVP_DecodeFinal ctx = 1 then Some [] else None)"
| "decode_stream ctx (c # cs) =
     (case EVP_DecodeUpdate ctx c of
        (ret, ctx', out, n) \<Rightarrow> if ret = - 1 then None else map_option ((@) (take n out)) (decode_stream ctx' cs))"

lemma decode_chars_append:
  "decode_chars ctx (xs @ ys) =
     (case decode_chars ctx xs of
        (out, Inl ctx') \<Rightarrow> (out, Inl ctx')
      | (out, Inr ctx') \<Rightarrow> (case decode_chars ctx' ys of (out', r) \<Rightarrow> (out @ out', r)))"
proof (induction ctx xs rule: decode_chars.induct)
  case (2 ctx c xs)
  define ctx1 where "ctx1 = ctx\<lparr>ctx_data := (ctx_data ctx)[data_used ctx := c], data_used := data_used ctx + 1\<rparr>"
  consider "is_base64_space c" | "\<not> is_base64_space c" "eof_seen ctx"
    | "\<not> is_base64_space c" "\<not> eof_seen ctx" "data_used ctx1 = 4" | "\<not> is_base64_space c" "\<not> eof_seen ctx" "data_used ctx1 \<noteq> 4"
    by blast
  then show ?case
  proof cases
    case 3
    then show ?thesis
      using 2(2) [OF 3(1,2) ctx1_def 3(3)]
      by (simp add: ctx1_def [symmetric] Let_def del: One_nat_def split: option.split prod.split sum.split)
  next
    case 4
    then show ?thesis
      using 2(3) [OF 4(1,2) ctx1_def 4(3)] by (simp add: ctx1_def [symmetric] Let_def del: One_nat_def)
  qed (use 2(1) in simp_all)
qed simp

lemma decode_chars_skips_space: "decode_chars ctx xs = decode_chars ctx (filter (\<lambda>c. \<not> is_base64_space c) xs)"
  by (induction ctx xs rule: decode_chars.induct) (simp_all add: Let_def split: option.splits)

lemma decode_chars_error_flag:
  "decode_chars ctx xs = (out, Inr ctx') \<Longrightarrow> error_encountered ctx' = error_encountered ctx"
  by (induction ctx xs arbitrary: out rule: decode_chars.induct)
    (auto simp: Let_def split: prod.splits option.splits if_splits)

lemma decode_stream_whole:
  assumes "decode_chars ctx (concat cs) = (out, Inr ctx')" and "\<not> error_encountered ctx" and "length out \<le> int_max"
    and "data_used ctx' = 0"
  shows "decode_stream ctx cs = Some out"
  using assms
proof (induction cs arbitrary: ctx out)
  case Nil
  then show ?case by (simp add: EVP_DecodeFinal_def)
next
  case (Cons c cs)
  obtain out1 ctx1 out2 where 1: "decode_chars ctx c = (out1, Inr ctx1)" "decode_chars ctx1 (concat cs) = (out2, Inr ctx')"
    "out = out1 @ out2"
    using Cons.prems(1) by (auto simp: decode_chars_append split: prod.splits sum.splits)
  have "\<not> error_encountered ctx1" using decode_chars_error_flag [OF 1(1)] Cons.prems(2) by simp
  then show ?case
    using Cons.IH [OF 1(2)] Cons.prems 1 by (simp add: EVP_DecodeUpdate_def)
qed

text \<open>Four characters in a row are one quad.\<close>

lemma decode_chars_quad:
  assumes "data_used ctx = 0" "\<not> eof_seen ctx" "4 \<le> length (ctx_data ctx)"
    and "\<not> is_base64_space i0" "\<not> is_base64_space i1" "\<not> is_base64_space i2" "\<not> is_base64_space i3"
    and q: "base64_decode_quad i0 i1 i2 i3 = Some out"
  shows "\<exists>ctx'. data_used ctx' = 0 \<and> eof_seen ctx' = (length out < 3) \<and> length (ctx_data ctx') = length (ctx_data ctx) \<and>
    decode_chars ctx (i0 # i1 # i2 # i3 # xs) = (case decode_chars ctx' xs of (outs, r) \<Rightarrow> (out @ outs, r))"
proof -
  let ?d = "(ctx_data ctx)[0 := i0, Suc 0 := i1, 2 := i2, 3 := i3]"
  have "0 < length (ctx_data ctx)" "Suc 0 < length (ctx_data ctx)" "2 < length (ctx_data ctx)" "3 < length (ctx_data ctx)"
    using assms(3) by linarith+
  then have "?d ! 0 = i0" "?d ! Suc 0 = i1" "?d ! 2 = i2" "?d ! 3 = i3" by (simp_all add: nth_list_update)
  then have "decode_chars ctx (i0 # i1 # i2 # i3 # xs) =
    (case decode_chars (ctx\<lparr>ctx_data := ?d, data_used := 0, eof_seen := (length out < 3)\<rparr>) xs of (outs, r) \<Rightarrow> (out @ outs, r))"
    using assms by (simp add: Let_def numeral_2_eq_2 numeral_3_eq_3)
  then show ?thesis by (intro exI [of _ "ctx\<lparr>ctx_data := ?d, data_used := 0, eof_seen := (length out < 3)\<rparr>"]) simp
qed

lemma decode_chars_encode_loop:
  assumes "data_used ctx = 0" "\<not> eof_seen ctx" "4 \<le> length (ctx_data ctx)"
  shows "\<exists>ctx'. decode_chars ctx (encode_loop src) = (src, Inr ctx') \<and> data_used ctx' = 0"
  using assms
proof (induction src arbitrary: ctx rule: encode_loop.induct)
  case (4 a b c src)
  let ?n = "be_val [a, b, c]"
  obtain ctx' where c: "data_used ctx' = 0" "\<not> eof_seen ctx'" "length (ctx_data ctx') = length (ctx_data ctx)"
    "decode_chars ctx (encode_loop (a # b # c # src)) =
      (case decode_chars ctx' (encode_loop src) of (outs, r) \<Rightarrow> ([a, b, c] @ outs, r))"
    using decode_chars_quad [OF 4(2-4) digit_not_space(1) digit_not_space(1) digit_not_space(1) digit_not_space(1)
        decode_quad3 [of a b c], of "encode_loop src"] by (auto simp: encode3)
  then show ?case using 4(1) [OF refl, of ctx'] 4(4) by auto
next
  case (2 a)
  then show ?case
    using decode_chars_quad [OF 2 digit_not_space(1) digit_not_space(1) digit_not_space(2) digit_not_space(2)
        decode_quad1 [of a], of "[]"] by (auto simp: encode1)
next
  case (3 a b)
  then show ?case
    using decode_chars_quad [OF 3 digit_not_space(1) digit_not_space(1) digit_not_space(1) digit_not_space(2)
        decode_quad2 [of a b], of "[]"] by (auto simp: encode2)
qed auto

text \<open>White space apart, the lines are the encoding of the whole input: 48 is a multiple of 3.\<close>

lemma filter_encode_loop: "filter (\<lambda>c. \<not> is_base64_space c) (encode_loop xs) = encode_loop xs"
  by (simp add: filter_id_conv encode_loop_not_space)

lemma newline_space: "is_base64_space 0x0a"
  by (simp add: is_base64_space_def)

lemma filter_pem_lines: "filter (\<lambda>c. \<not> is_base64_space c) (pem_lines xs) = encode_loop xs"
proof (induction xs rule: full_lines.induct)
  case (1 xs)
  show ?case
  proof (cases "length xs \<ge> 48")
    case True
    define line where "line = take 48 xs"
    define xs' where "xs' = drop 48 xs"
    have xs: "xs = line @ xs'" and l: "length line = 48" using True by (simp_all add: line_def xs'_def)
    have "pem_lines xs = encode_loop line @ [0x0a] @ pem_lines xs'"
      unfolding xs by (simp add: pem_lines_def full_lines_line [OF l] pending_line_line [OF l])
    then show ?thesis
      using 1 [OF True, folded xs'_def] by (simp add: xs encode_loop_append l filter_encode_loop newline_space)
  next
    case False
    then show ?thesis
      by (simp add: pem_lines_def full_lines_short pending_line_short filter_encode_loop newline_space)
  qed
qed

lemma small_int_max: "3 \<le> int_max" "\<not> int_max < 3" "\<not> int_max < Suc (Suc (Suc 0))"
  by (simp_all add: int_max_def)

lemma replicate_2: "replicate 2 x = [x, x]"
  by (simp add: numeral_2_eq_2)

section \<open>Properties\<close>

text \<open>\<open>EVP_EncodedLength\<close> is the number of bytes that \<open>EVP_EncodeBlock\<close> writes, the NUL included,
  and it fails exactly when that number does not fit a \<open>size_t\<close>, for inputs of every length.\<close>

theorem encoded_length_exact:
  assumes "length src < size_max1"
  shows "EVP_EncodedLength (length src) =
    (let n = length (fst (EVP_EncodeBlock src)) in if n < size_max1 then Some n else None)"
  using EVP_EncodedLength_eq [OF assms] by (simp add: EVP_EncodeBlock_def length_encode_loop)

theorem encoded_length_exact_witness:
  "length [0x41 :: byte, 0x42] < size_max1 \<and> EVP_EncodedLength (length [0x41 :: byte, 0x42]) = Some 5"
  using encoded_length_exact [of "[0x41, 0x42]"]
  by (simp add: size_max1_def EVP_EncodeBlock_def length_encode_loop)

text \<open>C12: Base64 round trip in one piece: \<open>EVP_DecodeBase64\<close> with room for \<open>EVP_DecodedLength\<close> bytes
  recovers what \<open>EVP_EncodeBlock\<close> encoded, and \<open>EVP_DecodeBlock\<close> recovers it up to the NULs it
  appends in place of the padding, also behind and in front of white space.\<close>

theorem base64_block_roundtrip:
  assumes "EVP_EncodeBlock src = (dst, n)" and "(length src + 2) div 3 * 3 \<le> max_out"
    and "(length src + 2) div 3 * 3 \<le> int_max" and "set pre \<subseteq> {0x20, 0x09}" and "\<forall>c \<in> set suf. is_base64_space c"
  shows "EVP_DecodeBase64 max_out (take n dst) = Some src \<and>
    EVP_DecodeBlock (pre @ take n dst @ suf) = Some (src @ replicate ((3 - length src mod 3) mod 3) 0)"
proof -
  define t where "t = encode_loop src"
  have t: "take n dst = t" using assms(1) by (auto simp: EVP_EncodeBlock_def t_def)
  have len: "length t mod 4 = 0" "length t div 4 * 3 = (length src + 2) div 3 * 3" by (simp_all add: t_def length_encode_loop)
  have ns: "c \<in> set t \<Longrightarrow> \<not> is_base64_space c" for c unfolding t_def by (rule encode_loop_not_space)
  have 1: "EVP_DecodeBase64 m t = Some src" if m: "(length src + 2) div 3 * 3 \<le> m" for m
    using m len decode_quads_encode_loop [of src] by (simp add: EVP_DecodeBase64_def EVP_DecodedLength_def t_def)
  have trim: "rev (dropWhile is_base64_space (rev (dropWhile (\<lambda>c. c = 0x20 \<or> c = 0x09) (pre @ t @ suf)))) = t"
  proof (cases "t = []")
    case True
    then have "\<forall>c \<in> set (pre @ t @ suf). is_base64_space c" using assms(4,5) by (auto simp: is_base64_space_def)
    then have "\<forall>c \<in> set (dropWhile (\<lambda>c. c = 0x20 \<or> c = 0x09) (pre @ t @ suf)). is_base64_space c"
      using set_dropWhileD by fastforce
    then show ?thesis using True by simp
  next
    case False
    then have "\<not> is_base64_space (t ! 0)" "\<not> is_base64_space (rev t ! 0)" "rev t \<noteq> []" using ns by (simp_all add: rev_nth)
    moreover have "dropWhile (\<lambda>c. c = 0x20 \<or> c = 0x09) (pre @ t @ suf) = t @ suf"
      using assms(4) False ns by (cases t) (auto simp: dropWhile_append2 subset_iff is_base64_space_def)
    moreover have "dropWhile is_base64_space (rev suf @ rev t) = rev t"
      using assms(5) calculation(2,3) by (subst dropWhile_append2) (auto simp: dropWhile_eq_self_iff hd_conv_nth)
    ultimately show ?thesis by simp
  qed
  have "EVP_DecodeBlock (pre @ t @ suf) = Some (src @ replicate ((3 - length src mod 3) mod 3) 0)"
    using assms(3) len 1 [OF order_refl] unfolding EVP_DecodeBlock_def Let_def trim by (simp add: EVP_DecodedLength_def)
  then show ?thesis using 1 [OF assms(2)] by (simp add: t)
qed

theorem base64_block_roundtrip_witness:
  "(let (dst, n) = EVP_EncodeBlock [0x41] in
    n = 4 \<and> EVP_DecodeBase64 3 (take n dst) = Some [0x41] \<and> EVP_DecodeBlock ([0x20] @ take n dst @ [0x0a]) = Some [0x41, 0, 0])"
  using base64_block_roundtrip [of "[0x41]" _ _ 3 "[0x20]" "[0x0a]"]
  by (simp add: is_base64_space_def EVP_EncodeBlock_def length_encode_loop numeral_2_eq_2 small_int_max)

text \<open>Decoding is injective where there is no padding: an accepted input without \<open>=\<close> is the
  encoding of what came out. (With padding the unused bits of the last digit are not looked at.)\<close>

theorem base64_decode_exact:
  assumes "EVP_DecodeBase64 max_out src = Some out" and "0x3d \<notin> set src"
  shows "src = encode_loop out \<and> length out = length src div 4 * 3"
proof -
  have s: "decode_quads src = Some out" "length src mod 4 = 0"
    using assms(1) by (auto simp: EVP_DecodeBase64_def split: if_splits option.splits)
  have e: "encode_loop out = src" by (rule decode_quads_reencode [OF s(1) assms(2) s(2)])
  have "length out mod 3 = 0"
    using assms(2) unfolding e [symmetric]
    by (induction out rule: encode_loop.induct) (auto simp: encode1 encode2 encode3)
  then have "(length out + 2) div 3 * 3 = length out" by presburger
  then show ?thesis using e length_encode_loop [of out] by simp
qed

theorem base64_decode_exact_witness:
  "[0x51 :: byte, 0x55, 0x4a, 0x44] = encode_loop [0x41, 0x42, 0x43] \<and> length [0x41 :: byte, 0x42, 0x43] = 3"
  using base64_decode_exact [of 3 "[0x51, 0x55, 0x4a, 0x44]" "[0x41, 0x42, 0x43]"]
  by (simp add: EVP_DecodeBase64_def EVP_DecodedLength_def base64_decode_quad_def ascii_to_bin_cases b2n_def)

text \<open>C13: The streamed encoder and decoder do not see where the calls cut the data: whatever chunks
  \<open>EVP_EncodeUpdate\<close> gets, the output is the same sequence of 64-character lines, and whatever
  chunks of that output \<open>EVP_DecodeUpdate\<close> gets, the decoder ends well and gives back the input.\<close>

theorem base64_stream_roundtrip:
  assumes "\<forall>c \<in> set chunks. length c \<le> 2 ^ 30" and "length (concat chunks) \<le> int_max"
    and "concat pieces = encode_stream EVP_EncodeInit chunks"
  shows "encode_stream EVP_EncodeInit chunks = pem_lines (concat chunks) \<and>
    decode_stream EVP_DecodeInit pieces = Some (concat chunks)"
proof -
  have lines: "encode_stream EVP_EncodeInit chunks = pem_lines (concat chunks)"
    using encode_stream_lines [OF _ assms(1), of EVP_EncodeInit "[]"] by (simp add: holds_line_def EVP_EncodeInit_def)
  obtain ctx' where d: "decode_chars EVP_DecodeInit (encode_loop (concat chunks)) = (concat chunks, Inr ctx')" "data_used ctx' = 0"
    using decode_chars_encode_loop [of EVP_DecodeInit "concat chunks"] by (auto simp: EVP_DecodeInit_def)
  have "decode_chars EVP_DecodeInit (concat pieces) = (concat chunks, Inr ctx')"
    unfolding assms(3) lines using d(1) by (subst decode_chars_skips_space) (simp only: filter_pem_lines)
  then have "decode_stream EVP_DecodeInit pieces = Some (concat chunks)"
    by (rule decode_stream_whole) (use assms(2) d(2) in \<open>simp_all add: EVP_DecodeInit_def\<close>)
  then show ?thesis using lines by simp
qed

theorem base64_stream_roundtrip_witness:
  "decode_stream EVP_DecodeInit [[0x51, 0x55], [0x4a, 0x44, 0x0a]] = Some [0x41, 0x42, 0x43] \<and>
   encode_stream EVP_EncodeInit [[0x41], [0x42, 0x43]] = [0x51, 0x55, 0x4a, 0x44, 0x0a]"
proof -
  have e: "encode_stream EVP_EncodeInit [[0x41], [0x42, 0x43]] = [0x51, 0x55, 0x4a, 0x44, 0x0a]"
    using encode_stream_lines [of EVP_EncodeInit "[]" "[[0x41], [0x42, 0x43]]"]
    by (simp add: holds_line_def EVP_EncodeInit_def pem_lines_def full_lines_short pending_line_short encode3 digit_def
        alphabet_def be_val_Cons)
  then show ?thesis
    using base64_stream_roundtrip [of "[[0x41], [0x42, 0x43]]" "[[0x51, 0x55], [0x4a, 0x44, 0x0a]]"]
    by (simp add: int_max_def)
qed

text \<open>The header says that \<open>EVP_DecodeBlock\<close> drops trailing minuses; the code does not, it
  rejects them.\<close>

theorem decode_block_minus:
  "EVP_DecodeBlock [0x51, 0x51, 0x3d, 0x3d] = Some [0x41, 0, 0] \<and> EVP_DecodeBlock [0x51, 0x51, 0x3d, 0x3d, 0x2d] = None"
  by (simp add: EVP_DecodeBlock_def is_base64_space_def EVP_DecodeBase64_def EVP_DecodedLength_def
      base64_decode_quad_def ascii_to_bin_cases b2n_def small_int_max replicate_2)

end
