(* ===== verification/Stack.thy ===== *)
theory Stack
  imports Sorting
begin

text \<open>
  \<open>crypto/stack/stack.c\<close>: a growable array of pointers with an optional comparison
  function and a \<open>sorted\<close> flag.

  A \<open>void *\<close> is a 64-bit word, NULL is 0. A \<open>_STACK *\<close> is an option, \<open>None\<close> for NULL. A
  function pointer is a value of the type \<open>'f\<close>; what it does when called is a parameter
  (\<open>call_cmp_func\<close> and so on), as in the typed wrappers of \<open>stack.h\<close>. Callbacks with
  effects work on a world of the type \<open>'w\<close>. The array \<open>sk_data\<close> has one cell for each of
  the \<open>num_alloc\<close> pointers allocated; the cells from \<open>num\<close> on are unused.
\<close>

type_synonym ptr = uint64

record 'f stack =
  num :: nat
  sk_data :: "ptr list"
  sorted_flag :: bool
  num_alloc :: nat
  comp :: "'f option"

text \<open>A fresh block read as an array of pointers, and \<open>OPENSSL_realloc\<close> on such an array.\<close>

fun ptr_cells :: "byte list \<Rightarrow> ptr list" where
  "ptr_cells (a # b # c # d # e # f # g # h # bs) = of_nat (be_val [h, g, f, e, d, c, b, a]) # ptr_cells bs"
| "ptr_cells _ = []"

definition realloc_ptrs :: "allocator \<Rightarrow> ptr list \<Rightarrow> nat \<Rightarrow> ptr list option \<times> allocator" where
  "realloc_ptrs al orig new_size =
     (case OPENSSL_malloc al new_size of
        (None, al') \<Rightarrow> (None, al')
      | (Some ret, al') \<Rightarrow>
          (let to_copy = (if length orig * 8 < new_size then length orig else new_size div 8)
           in (Some (take to_copy orig @ drop to_copy (ptr_cells ret)), al')))"

definition ptr_memmove :: "ptr list \<Rightarrow> nat \<Rightarrow> nat \<Rightarrow> nat \<Rightarrow> ptr list" where
  "ptr_memmove xs dst src n = take dst xs @ take n (drop src xs) @ drop (dst + n) xs"

section \<open>Operations\<close>

definition kMinSize :: nat where
  "kMinSize = 4"

definition sk_new :: "allocator \<Rightarrow> 'f option \<Rightarrow> 'f stack option \<times> allocator" where
  "sk_new al cmp =
     (case OPENSSL_malloc al 40 of
        (None, al1) \<Rightarrow> (None, al1)
      | (Some _, al1) \<Rightarrow>
          (case OPENSSL_malloc al1 (8 * kMinSize) of
             (None, al2) \<Rightarrow> (None, al2)
           | (Some _, al2) \<Rightarrow>
               (Some \<lparr>num = 0, sk_data = replicate kMinSize 0, sorted_flag = False, num_alloc = kMinSize, comp = cmp\<rparr>, al2)))"

definition sk_new_null :: "allocator \<Rightarrow> 'f stack option \<times> allocator" where
  "sk_new_null al = sk_new al None"

definition sk_num :: "'f stack option \<Rightarrow> nat" where
  "sk_num sk = (case sk of None \<Rightarrow> 0 | Some s \<Rightarrow> num s)"

definition sk_zero :: "'f stack option \<Rightarrow> 'f stack option" where
  "sk_zero sk =
     (case sk of
        None \<Rightarrow> None
      | Some s \<Rightarrow>
          if num s = 0 then Some s
          else Some (s\<lparr>sk_data := replicate (num s) 0 @ drop (num s) (sk_data s), num := 0, sorted_flag := False\<rparr>))"

definition sk_value :: "'f stack option \<Rightarrow> nat \<Rightarrow> ptr" where
  "sk_value sk i = (case sk of None \<Rightarrow> 0 | Some s \<Rightarrow> if i \<ge> num s then 0 else sk_data s ! i)"

definition sk_set :: "'f stack option \<Rightarrow> nat \<Rightarrow> ptr \<Rightarrow> ptr \<times> 'f stack option" where
  "sk_set sk i v =
     (case sk of
        None \<Rightarrow> (0, None)
      | Some s \<Rightarrow> if i \<ge> num s then (0, sk) else (v, Some (s\<lparr>sk_data := (sk_data s)[i := v]\<rparr>)))"

definition sk_pop_free_ex :: "'f stack option \<Rightarrow> ('w \<Rightarrow> ptr \<Rightarrow> 'w) \<Rightarrow> 'w \<Rightarrow> 'w" where
  "sk_pop_free_ex sk free_func w =
     (case sk of
        None \<Rightarrow> w
      | Some s \<Rightarrow> foldl (\<lambda>w p. if p \<noteq> 0 then free_func w p else w) w (take (num s) (sk_data s)))"

definition sk_pop_free :: "'f stack option \<Rightarrow> ('w \<Rightarrow> ptr \<Rightarrow> 'w) \<Rightarrow> 'w \<Rightarrow> 'w" where
  "sk_pop_free sk free_func w = sk_pop_free_ex sk free_func w"

text \<open>The growth step of \<open>sk_insert\<close>: room for one more pointer and a spare one.\<close>

definition sk_reserve :: "allocator \<Rightarrow> 'f stack \<Rightarrow> 'f stack option \<times> allocator" where
  "sk_reserve al s =
     (if num_alloc s \<le> size_add (num s) 1 then
        let new_alloc0 = size_mul (num_alloc s) 2;
            alloc_size0 = size_mul new_alloc0 8;
            new_alloc = (if new_alloc0 < num_alloc s \<or> alloc_size0 div 8 \<noteq> new_alloc0
                         then size_add (num_alloc s) 1 else new_alloc0);
            alloc_size = size_mul new_alloc 8 in
        if new_alloc < num_alloc s \<or> alloc_size div 8 \<noteq> new_alloc then (None, al)
        else
          (case realloc_ptrs al (sk_data s) alloc_size of
             (None, al') \<Rightarrow> (None, al')
           | (Some d, al') \<Rightarrow> (Some (s\<lparr>sk_data := d, num_alloc := new_alloc\<rparr>), al'))
      else (Some s, al))"

definition sk_insert :: "allocator \<Rightarrow> 'f stack option \<Rightarrow> ptr \<Rightarrow> nat \<Rightarrow> nat \<times> 'f stack option \<times> allocator" where
  "sk_insert al sk p wh =
     (case sk of
        None \<Rightarrow> (0, None, al)
      | Some s0 \<Rightarrow>
          (case sk_reserve al s0 of
             (None, al') \<Rightarrow> (0, sk, al')
           | (Some s, al') \<Rightarrow>
               let d = (if wh \<ge> num s then (sk_data s)[num s := p]
                        else (ptr_memmove (sk_data s) (wh + 1) wh (num s - wh))[wh := p]);
                   s' = s\<lparr>sk_data := d, num := num s + 1, sorted_flag := False\<rparr> in
               (num s', Some s', al')))"

definition sk_delete :: "'f stack option \<Rightarrow> nat \<Rightarrow> ptr \<times> 'f stack option" where
  "sk_delete sk wh =
     (case sk of
        None \<Rightarrow> (0, None)
      | Some s \<Rightarrow>
          if wh \<ge> num s then (0, sk)
          else
            let d = (if wh \<noteq> num s - 1 then ptr_memmove (sk_data s) wh (wh + 1) (num s - wh - 1) else sk_data s) in
            (sk_data s ! wh, Some (s\<lparr>sk_data := d, num := num s - 1\<rparr>)))"

text \<open>The first index below the length at which a test holds, as the linear loops find it.\<close>

fun find_index :: "(ptr \<Rightarrow> bool) \<Rightarrow> nat \<Rightarrow> ptr list \<Rightarrow> nat option" where
  "find_index t i [] = None"
| "find_index t i (x # xs) = (if t x then Some i else find_index t (Suc i) xs)"

definition sk_delete_ptr :: "'f stack option \<Rightarrow> ptr \<Rightarrow> ptr \<times> 'f stack option" where
  "sk_delete_ptr sk p =
     (case sk of
        None \<Rightarrow> (0, None)
      | Some s \<Rightarrow>
          (case find_index (\<lambda>x. x = p) 0 (take (num s) (sk_data s)) of
             None \<Rightarrow> (0, sk)
           | Some i \<Rightarrow> sk_delete sk i))"

definition sk_is_sorted :: "'f stack option \<Rightarrow> bool" where
  "sk_is_sorted sk = (case sk of None \<Rightarrow> True | Some s \<Rightarrow> sorted_flag s)"

function sk_find_sorted :: "(ptr \<Rightarrow> ptr \<Rightarrow> int) \<Rightarrow> ptr list \<Rightarrow> ptr \<Rightarrow> nat \<Rightarrow> nat \<Rightarrow> nat option" where
  "sk_find_sorted cmp d p lo hi =
     (if lo < hi then
        let mid = lo + (hi - lo - 1) div 2;
            r = cmp p (d ! mid) in
        if r > 0 then sk_find_sorted cmp d p (mid + 1) hi
        else if r < 0 then sk_find_sorted cmp d p lo mid
        else if hi - lo = 1 then Some mid
        else sk_find_sorted cmp d p lo (mid + 1)
      else None)"
  by pat_completeness auto
termination by (relation "measure (\<lambda>(cmp, d, p, lo, hi). hi - lo)") auto

declare sk_find_sorted.simps [simp del]

text \<open>\<open>Some\<close> index for the result 1 with \<open>*out_index\<close>, \<open>None\<close> for 0.\<close>

definition sk_find :: "('f \<Rightarrow> ptr \<Rightarrow> ptr \<Rightarrow> int) \<Rightarrow> 'f stack option \<Rightarrow> ptr \<Rightarrow> nat option" where
  "sk_find call_cmp_func sk p =
     (case sk of
        None \<Rightarrow> None
      | Some s \<Rightarrow>
          (case comp s of
             None \<Rightarrow> find_index (\<lambda>x. x = p) 0 (take (num s) (sk_data s))
           | Some f \<Rightarrow>
               if p = 0 then None
               else if \<not> sk_is_sorted sk then find_index (\<lambda>x. call_cmp_func f p x = 0) 0 (take (num s) (sk_data s))
               else sk_find_sorted (call_cmp_func f) (sk_data s) p 0 (num s)))"

definition sk_shift :: "'f stack option \<Rightarrow> ptr \<times> 'f stack option" where
  "sk_shift sk =
     (case sk of None \<Rightarrow> (0, None) | Some s \<Rightarrow> if num s = 0 then (0, sk) else sk_delete sk 0)"

text \<open>\<open>sk_push\<close> reads \<open>sk->num\<close> first, so its argument is not NULL.\<close>

definition sk_push :: "allocator \<Rightarrow> 'f stack \<Rightarrow> ptr \<Rightarrow> nat \<times> 'f stack option \<times> allocator" where
  "sk_push al s p = sk_insert al (Some s) p (num s)"

definition sk_pop :: "'f stack option \<Rightarrow> ptr \<times> 'f stack option" where
  "sk_pop sk =
     (case sk of None \<Rightarrow> (0, None) | Some s \<Rightarrow> if num s = 0 then (0, sk) else sk_delete sk (num s - 1))"

definition sk_dup :: "allocator \<Rightarrow> 'f stack option \<Rightarrow> 'f stack option \<times> allocator" where
  "sk_dup al sk =
     (case sk of
        None \<Rightarrow> (None, al)
      | Some s \<Rightarrow>
          (case OPENSSL_malloc al 40 of
             (None, al1) \<Rightarrow> (None, al1)
           | (Some _, al1) \<Rightarrow>
               (case OPENSSL_malloc al1 (size_mul 8 (num_alloc s)) of
                  (None, al2) \<Rightarrow> (None, al2)
                | (Some ret, al2) \<Rightarrow>
                    (Some \<lparr>num = num s, sk_data = take (num s) (sk_data s) @ drop (num s) (ptr_cells ret),
                           sorted_flag = sorted_flag s, num_alloc = num_alloc s, comp = comp s\<rparr>, al2))))"

definition sk_sort :: "('f \<Rightarrow> ptr \<Rightarrow> ptr \<Rightarrow> int) \<Rightarrow> 'f stack option \<Rightarrow> 'f stack option" where
  "sk_sort call_cmp_func sk =
     (case sk of
        None \<Rightarrow> None
      | Some s \<Rightarrow>
          (case comp s of
             None \<Rightarrow> sk
           | Some f \<Rightarrow>
               if sorted_flag s then sk
               else
                 let d = (if num s \<ge> 2
                          then libc_qsort (call_cmp_func f) (take (num s) (sk_data s)) @ drop (num s) (sk_data s)
                          else sk_data s) in
                 Some (s\<lparr>sk_data := d, sorted_flag := True\<rparr>)))"

text \<open>The stack is not NULL. The old comparison function is returned.\<close>

definition sk_set_cmp_func :: "'f stack \<Rightarrow> 'f option \<Rightarrow> 'f option \<times> 'f stack" where
  "sk_set_cmp_func s f =
     (comp s, s\<lparr>sorted_flag := (if comp s \<noteq> f then False else sorted_flag s), comp := f\<rparr>)"

text \<open>
  The loop of \<open>sk_deep_copy\<close> over the cells not yet copied; \<open>dn\<close> holds the cells already
  replaced, in order. On a failed copy the copies made so far are freed.
\<close>

fun deep_copy_loop ::
  "('w \<Rightarrow> ptr \<Rightarrow> ptr \<times> 'w) \<Rightarrow> ('w \<Rightarrow> ptr \<Rightarrow> 'w) \<Rightarrow> ptr list \<Rightarrow> ptr list \<Rightarrow> 'w \<Rightarrow> ptr list option \<times> 'w" where
  "deep_copy_loop copy_func free_func dn [] w = (Some dn, w)"
| "deep_copy_loop copy_func free_func dn (p # ps) w =
     (if p = 0 then deep_copy_loop copy_func free_func (dn @ [p]) ps w
      else
        (case copy_func w p of
           (q, w') \<Rightarrow>
             if q = 0 then (None, foldl (\<lambda>w p. if p \<noteq> 0 then free_func w p else w) w' dn)
             else deep_copy_loop copy_func free_func (dn @ [q]) ps w'))"

definition sk_deep_copy ::
  "allocator \<Rightarrow> 'f stack option \<Rightarrow> ('w \<Rightarrow> ptr \<Rightarrow> ptr \<times> 'w) \<Rightarrow> ('w \<Rightarrow> ptr \<Rightarrow> 'w) \<Rightarrow> 'w \<Rightarrow>
   'f stack option \<times> 'w \<times> allocator" where
  "sk_deep_copy al sk copy_func free_func w =
     (case sk_dup al sk of
        (None, al') \<Rightarrow> (None, w, al')
      | (Some ret, al') \<Rightarrow>
          (case deep_copy_loop copy_func free_func [] (take (num ret) (sk_data ret)) w of
             (None, w') \<Rightarrow> (None, w', al')
           | (Some d, w') \<Rightarrow> (Some (ret\<lparr>sk_data := d @ drop (num ret) (sk_data ret)\<rparr>), w', al')))"

section \<open>The list a stack stands for\<close>

definition sk_list :: "'f stack \<Rightarrow> ptr list" where
  "sk_list s = take (num s) (sk_data s)"

definition sk_inv :: "'f stack \<Rightarrow> bool" where
  "sk_inv s \<longleftrightarrow> length (sk_data s) = num_alloc s \<and> num s < num_alloc s \<and> num_alloc s * 8 < size_max1"

lemma length_sk_list: "sk_inv s \<Longrightarrow> length (sk_list s) = num s"
  by (simp add: sk_list_def sk_inv_def)

lemma length_ptr_cells: "length (ptr_cells bs) = length bs div 8"
proof (induction bs rule: ptr_cells.induct)
  case (1 a b c d e f g h bs)
  have "length (a # b # c # d # e # f # g # h # bs) div 8 = Suc (length bs div 8)" by simp
  then show ?case using 1 by (simp only: ptr_cells.simps list.size)
qed simp_all

lemma malloc_cells:
  assumes "OPENSSL_malloc al (n * 8) = (Some b, al')" and "n * 8 < size_max1"
  shows "length (ptr_cells b) = n"
  using OPENSSL_malloc_length [OF assms] by (simp add: length_ptr_cells)

lemma sk_new_inv: "sk_new al f = (Some s, al') \<Longrightarrow> sk_inv s \<and> sk_list s = [] \<and> comp s = f \<and> \<not> sorted_flag s"
  by (auto simp: sk_new_def sk_inv_def sk_list_def kMinSize_def size_max1_def split: prod.splits option.splits)

lemma realloc_ptrs_grow:
  assumes "realloc_ptrs al d (n * 8) = (Some d', al')" and "n * 8 < size_max1" and "length d \<le> n"
  shows "length d' = n \<and> take (length d) d' = d"
proof (cases "length d < n")
  case True
  then show ?thesis
    using assms by (auto simp: realloc_ptrs_def split: prod.splits option.splits if_splits dest!: malloc_cells)
next
  case False
  then show ?thesis
    using assms by (auto simp: realloc_ptrs_def split: prod.splits option.splits if_splits dest!: malloc_cells)
qed

lemma sk_reserve_spec:
  assumes "sk_reserve al s = (Some s', al')" and inv: "sk_inv s"
  shows "sk_inv s' \<and> num s' = num s \<and> sk_list s' = sk_list s \<and> comp s' = comp s \<and> sorted_flag s' = sorted_flag s \<and>
    num s + 1 < num_alloc s'"
proof -
  have d: "length (sk_data s) = num_alloc s" "num s < num_alloc s" "num_alloc s * 8 < size_max1"
    using inv by (simp_all add: sk_inv_def)
  then have sa: "size_add (num s) 1 = num s + 1" "size_add (num_alloc s) 1 = num_alloc s + 1"
    "size_mul (num_alloc s) 2 = num_alloc s * 2"
    by (simp_all add: size_add_def size_mul_def)
  show ?thesis
  proof (cases "num_alloc s \<le> num s + 1")
    case False
    then show ?thesis using assms by (auto simp: sk_reserve_def sa [unfolded One_nat_def])
  next
    case True
    define n where "n = (if size_mul (num_alloc s * 2) 8 div 8 \<noteq> num_alloc s * 2 then num_alloc s + 1 else num_alloc s * 2)"
    have n: "n > num_alloc s" using d(2) by (simp add: n_def)
    have "n < size_max1" using d(2,3) by (auto simp: n_def)
    then have "size_mul n 8 div 8 = n \<longleftrightarrow> n * 8 < size_max1" by (simp add: size_mul_div_eq_iff)
    moreover obtain d' where ok: "size_mul n 8 div 8 = n" "realloc_ptrs al (sk_data s) (size_mul n 8) = (Some d', al')"
      "s' = s\<lparr>sk_data := d', num_alloc := n\<rparr>"
      using assms(1) True unfolding sk_reserve_def sa Let_def n_def
      by (auto split: if_splits prod.splits option.splits)
    ultimately have n8: "n * 8 < size_max1" and mul: "size_mul n 8 = n * 8" by (simp_all add: size_mul_def)
    have r: "length d' = n \<and> take (length (sk_data s)) d' = sk_data s"
      using realloc_ptrs_grow [OF ok(2) [unfolded mul] n8] n d(1) by simp
    then have "take (num s) d' = take (num s) (sk_data s)"
      using d(1,2) by (metis le_eq_less_or_eq min.absorb1 take_take)
    then show ?thesis using r n n8 d ok(3) by (simp add: sk_inv_def sk_list_def)
  qed
qed

lemma take_insert_move:
  assumes "n < length xs" and "w < n"
  shows "take (Suc n) ((ptr_memmove xs (w + 1) w (n - w))[w := p]) = take w xs @ p # drop w (take n xs)"
proof -
  have "ptr_memmove xs (w + 1) w (n - w) = take (w + 1) xs @ drop w (take n xs) @ drop (Suc n) xs"
    using assms by (simp add: ptr_memmove_def drop_take)
  moreover have "(take (w + 1) xs)[w := p] = take w xs @ [p]"
    using assms by (simp add: take_Suc_conv_app_nth list_update_append)
  moreover have "take (Suc n - w) (p # drop w (take n xs) @ drop (Suc n) xs) = p # drop w (take n xs)"
    using assms by (simp add: Suc_diff_le)
  ultimately show ?thesis using assms by (simp add: list_update_append)
qed

lemma take_delete_move:
  assumes "n \<le> length xs" and "w < n"
  shows "take (n - 1) (ptr_memmove xs w (w + 1) (n - w - 1)) = take w xs @ drop (w + 1) (take n xs)"
  using assms by (simp add: ptr_memmove_def drop_take)

lemma length_ptr_memmove: "dst + n \<le> length xs \<Longrightarrow> src + n \<le> length xs \<Longrightarrow> length (ptr_memmove xs dst src n) = length xs"
  by (simp add: ptr_memmove_def)

lemma sk_insert_spec:
  assumes "sk_insert al (Some s) p w = (n, sk', al')" and inv: "sk_inv s"
  shows "(n = 0 \<and> sk' = Some s) \<or>
    (\<exists>s'. sk' = Some s' \<and> n = num s + 1 \<and> sk_inv s' \<and> sk_list s' = take w (sk_list s) @ p # drop w (sk_list s) \<and>
       comp s' = comp s \<and> \<not> sorted_flag s')"
proof (cases "sk_reserve al s")
  case (Pair r al1)
  show ?thesis
  proof (cases r)
    case None
    then show ?thesis using assms Pair by (simp add: sk_insert_def)
  next
    case (Some s1)
    have r: "sk_inv s1" "num s1 = num s" "sk_list s1 = sk_list s" "comp s1 = comp s" "num s + 1 < num_alloc s1"
      using sk_reserve_spec [OF Pair [unfolded Some] inv] by simp_all
    have len: "length (sk_data s1) = num_alloc s1" "length (sk_list s) = num s"
      using r(1) length_sk_list [OF inv] by (simp_all add: sk_inv_def)
    define d where "d = (if w \<ge> num s1 then (sk_data s1)[num s1 := p]
                        else (ptr_memmove (sk_data s1) (w + 1) w (num s1 - w))[w := p])"
    have e: "n = num s + 1" "sk' = Some (s1\<lparr>sk_data := d, num := num s + 1, sorted_flag := False\<rparr>)"
      using assms(1) Pair Some r(2) by (auto simp: sk_insert_def Let_def d_def)
    have ld: "length d = num_alloc s1"
      using r(2,5) len(1) by (auto simp: d_def length_ptr_memmove)
    have "take (num s + 1) d = take w (sk_list s1) @ p # drop w (sk_list s1)"
    proof (cases "w \<ge> num s1")
      case True
      then show ?thesis
        using r(2,3,5) len by (simp add: d_def sk_list_def take_Suc_conv_app_nth)
    next
      case False
      then show ?thesis
        using take_insert_move [of "num s1" "sk_data s1" w p] r(2,5) len(1) by (simp add: d_def sk_list_def)
    qed
    moreover define s2 where "s2 = s1\<lparr>sk_data := d, num := num s + 1, sorted_flag := False\<rparr>"
    moreover have "sk_list s2 = take (num s + 1) d" by (simp add: sk_list_def s2_def)
    moreover have "sk_inv s2" using r ld by (simp add: sk_inv_def s2_def)
    ultimately show ?thesis using e r by (intro disjI2 exI [of _ s2]) simp
  qed
qed

lemma sk_delete_spec:
  assumes "sk_inv s" and "w < num s"
  shows "\<exists>s'. sk_delete (Some s) w = (sk_list s ! w, Some s') \<and> sk_inv s' \<and>
    sk_list s' = take w (sk_list s) @ drop (w + 1) (sk_list s) \<and> comp s' = comp s \<and> sorted_flag s' = sorted_flag s"
proof -
  have d: "length (sk_data s) = num_alloc s" "num s < num_alloc s" using assms(1) by (simp_all add: sk_inv_def)
  show ?thesis
  proof (cases "w = num s - 1")
    case True
    then have "take w (take (num s) (sk_data s)) = take (num s - 1) (sk_data s)" "drop (w + 1) (take (num s) (sk_data s)) = []"
      using assms(2) by (simp_all add: min_absorb1)
    then show ?thesis
      using assms True d unfolding sk_delete_def sk_list_def sk_inv_def by simp
  next
    case False
    have "take (num s - 1) (ptr_memmove (sk_data s) w (w + 1) (num s - w - 1)) =
        take w (sk_list s) @ drop (w + 1) (sk_list s)"
      using take_delete_move [of "num s" "sk_data s" w] assms(2) d by (simp add: sk_list_def min_absorb1)
    moreover have "length (ptr_memmove (sk_data s) w (w + 1) (num s - w - 1)) = num_alloc s"
      using assms(2) d by (simp add: length_ptr_memmove)
    ultimately show ?thesis
      using False assms d by (auto simp: sk_delete_def Let_def sk_inv_def sk_list_def)
  qed
qed

lemma find_index_spec:
  "case find_index t i xs of
     Some k \<Rightarrow> \<exists>j < length xs. k = i + j \<and> t (xs ! j) \<and> (\<forall>m < j. \<not> t (xs ! m))
   | None \<Rightarrow> \<forall>x \<in> set xs. \<not> t x"
proof (induction t i xs rule: find_index.induct)
  case (2 t i x xs)
  show ?case
  proof (cases "t x")
    case False
    show ?thesis
    proof (cases "find_index t (Suc i) xs")
      case (Some k)
      then obtain j where "j < length xs" "k = Suc i + j" "t (xs ! j)" "\<forall>m < j. \<not> t (xs ! m)"
        using 2 [OF False] by auto
      then show ?thesis using False Some by (intro option.case_eq_if [THEN iffD2]) (auto intro!: exI [of _ "Suc j"] simp: nth_Cons')
    qed (use 2 False in auto)
  qed auto
qed simp

section \<open>Sorted stacks and search\<close>

text \<open>The first index of a match, the specification of \<open>sk_find\<close>.\<close>

definition first_match :: "(ptr \<Rightarrow> bool) \<Rightarrow> ptr list \<Rightarrow> nat option \<Rightarrow> bool" where
  "first_match t xs r \<longleftrightarrow>
     (case r of
        Some i \<Rightarrow> i < length xs \<and> t (xs ! i) \<and> (\<forall>j < i. \<not> t (xs ! j))
      | None \<Rightarrow> \<forall>j < length xs. \<not> t (xs ! j))"

lemma find_index_first_match: "first_match t xs (find_index t 0 xs)"
  using find_index_spec [where t = t and i = 0 and xs = xs] by (auto simp: first_match_def split: option.splits)

context cmp_order
begin

lemma sorted_below:
  assumes "sorted_wrt (\<lambda>a b. cmp a b \<le> 0) xs" "\<forall>x \<in> set xs. P x" "P p" "j \<le> m" "m < length xs" "0 < cmp p (xs ! m)"
  shows "0 < cmp p (xs ! j)"
proof (cases "j = m")
  case False
  then have "cmp (xs ! j) (xs ! m) \<le> 0" using assms by (simp add: sorted_wrt_iff_nth_less)
  moreover have "P (xs ! j)" "P (xs ! m)" using assms by (simp_all add: le_less_trans)
  ultimately show ?thesis using cmp_trans [of p "xs ! j" "xs ! m"] assms by fastforce
qed (use assms in simp)

lemma sorted_above:
  assumes "sorted_wrt (\<lambda>a b. cmp a b \<le> 0) xs" "\<forall>x \<in> set xs. P x" "P p" "m \<le> j" "j < length xs" "cmp p (xs ! m) < 0"
  shows "cmp p (xs ! j) < 0"
proof (cases "j = m")
  case False
  then have le: "cmp (xs ! m) (xs ! j) \<le> 0" using assms by (simp add: sorted_wrt_iff_nth_less)
  have ps: "P (xs ! j)" "P (xs ! m)" using assms by (simp_all add: le_less_trans)
  show ?thesis
  proof (rule ccontr)
    assume "\<not> cmp p (xs ! j) < 0"
    then have "cmp (xs ! j) p \<le> 0" using cmp_le_iff [of "xs ! j" p] ps assms(3) by simp
    then have "cmp (xs ! m) p \<le> 0" using cmp_trans [of "xs ! m" "xs ! j" p] le ps assms(3) by simp
    then show False using cmp_le_iff [of "xs ! m" p] ps assms(3,6) by simp
  qed
qed (use assms in simp)

end

text \<open>The binary search returns the first match of the range it is given.\<close>

definition range_match :: "(ptr \<Rightarrow> bool) \<Rightarrow> ptr list \<Rightarrow> nat \<Rightarrow> nat \<Rightarrow> nat option \<Rightarrow> bool" where
  "range_match t d lo hi r \<longleftrightarrow>
     (case r of
        Some i \<Rightarrow> lo \<le> i \<and> i < hi \<and> t (d ! i) \<and> (\<forall>j. lo \<le> j \<and> j < i \<longrightarrow> \<not> t (d ! j))
      | None \<Rightarrow> \<forall>j. lo \<le> j \<and> j < hi \<longrightarrow> \<not> t (d ! j))"

lemma range_match_raise:
  "range_match t d (Suc mid) hi r \<Longrightarrow> (\<And>j. lo \<le> j \<Longrightarrow> j \<le> mid \<Longrightarrow> \<not> t (d ! j)) \<Longrightarrow> lo \<le> mid \<Longrightarrow> range_match t d lo hi r"
  unfolding range_match_def by (cases r) (auto simp: not_less_eq_eq, (metis not_less_eq_eq)+)

lemma range_match_lower:
  "range_match t d lo mid r \<Longrightarrow> (\<And>j. mid \<le> j \<Longrightarrow> j < hi \<Longrightarrow> \<not> t (d ! j)) \<Longrightarrow> mid \<le> hi \<Longrightarrow> range_match t d lo hi r"
  unfolding range_match_def by (cases r) (auto, metis not_le)

lemma range_match_hit:
  "range_match t d lo (Suc mid) r \<Longrightarrow> t (d ! mid) \<Longrightarrow> lo \<le> mid \<Longrightarrow> mid < hi \<Longrightarrow> range_match t d lo hi r"
  unfolding range_match_def by (cases r) auto

lemma sk_find_sorted_range:
  assumes "cmp_order cmp P" and "sorted_wrt (\<lambda>a b. cmp a b \<le> 0) xs" and "\<forall>x \<in> set xs. P x"
    and "P p" and "hi \<le> length xs" and "\<And>j. j < length xs \<Longrightarrow> d ! j = xs ! j"
  shows "range_match (\<lambda>x. cmp p x = 0) d lo hi (sk_find_sorted cmp d p lo hi)"
  using assms
proof (induction cmp d p lo hi rule: sk_find_sorted.induct)
  case (1 cmp d p lo hi)
  define mid where "mid = lo + (hi - lo - 1) div 2"
  show ?case
  proof (cases "lo < hi")
    case False
    then show ?thesis by (simp add: sk_find_sorted.simps [of cmp d p lo hi] range_match_def)
  next
    case lohi: True
    have mid: "lo \<le> mid" "mid < hi" "hi - lo \<noteq> 1 \<Longrightarrow> mid + 1 < hi" using lohi by (auto simp: mid_def)
    have d: "\<And>j. j < hi \<Longrightarrow> d ! j = xs ! j" using "1.prems"(5,6) by simp
    note IH = "1.IH" [OF lohi mid_def refl]
    note step = sk_find_sorted.simps [of cmp d p lo hi, unfolded Let_def, folded mid_def]
    consider (gt) "cmp p (d ! mid) > 0" | (lt) "cmp p (d ! mid) < 0" | (one) "cmp p (d ! mid) = 0" "hi - lo = 1"
      | (hit) "cmp p (d ! mid) = 0" "hi - lo \<noteq> 1" by linarith
    then show ?thesis
    proof cases
      case gt
      have "cmp p (d ! j) \<noteq> 0" if j: "j \<le> mid" for j
        using cmp_order.sorted_below [OF "1.prems"(1,2,3,4) j] gt mid(2) "1.prems"(5) j by (simp add: d)
      then show ?thesis
        using IH(1) [OF gt "1.prems"] gt mid(1) unfolding step by (auto simp: lohi intro: range_match_raise)
    next
      case lt
      then have n: "\<not> 0 < cmp p (d ! mid)" by simp
      have "cmp p (d ! j) \<noteq> 0" if j: "mid \<le> j" "j < hi" for j
        using cmp_order.sorted_above [OF "1.prems"(1,2,3,4) j(1)] lt mid(2) "1.prems"(5) j by (simp add: d)
      then show ?thesis
        using IH(2) [OF n lt "1.prems"(1-4) _ "1.prems"(6)] lt mid(2) "1.prems"(5) unfolding step
        by (auto simp: lohi intro: range_match_lower)
    next
      case one
      then have "mid = lo" by (simp add: mid_def)
      then show ?thesis using one lohi unfolding step by (simp add: range_match_def)
    next
      case hit
      have n: "\<not> 0 < cmp p (d ! mid)" "\<not> cmp p (d ! mid) < 0" using hit by simp_all
      have "range_match (\<lambda>x. cmp p x = 0) d lo (Suc mid) (sk_find_sorted cmp d p lo (Suc mid))"
        using IH(3) [OF n hit(2) "1.prems"(1-4) _ "1.prems"(6)] mid(2) "1.prems"(5) by simp
      then show ?thesis
        using hit mid(1,2) lohi unfolding step by (auto intro: range_match_hit)
    qed
  qed
qed

text \<open>
  The flag is sound: where it is set there is a comparison function and the pointers are
  in ascending order.
\<close>

definition flag_sound :: "('f \<Rightarrow> ptr \<Rightarrow> ptr \<Rightarrow> int) \<Rightarrow> 'f stack \<Rightarrow> bool" where
  "flag_sound call s \<longleftrightarrow>
     (sorted_flag s \<longrightarrow> (\<exists>f. comp s = Some f \<and> sorted_wrt (\<lambda>a b. call f a b \<le> 0) (sk_list s)))"

lemma sk_find_spec:
  assumes "sk_inv s" and "flag_sound call s" and "comp s = Some f" and "cmp_order (call f) P"
    and "\<forall>x \<in> set (sk_list s). P x" and "P p" and "p \<noteq> 0"
  shows "first_match (\<lambda>x. call f p x = 0) (sk_list s) (sk_find call (Some s) p)"
proof (cases "sorted_flag s")
  case False
  then show ?thesis
    using assms(3,7) by (simp add: sk_find_def sk_is_sorted_def sk_list_def [symmetric] find_index_first_match)
next
  case True
  then have "sorted_wrt (\<lambda>a b. call f a b \<le> 0) (sk_list s)" using assms(2,3) by (auto simp: flag_sound_def)
  then have "range_match (\<lambda>x. call f p x = 0) (sk_data s) 0 (num s) (sk_find_sorted (call f) (sk_data s) p 0 (num s))"
    by (rule sk_find_sorted_range [OF assms(4)]) (use assms in \<open>auto simp: sk_list_def sk_inv_def\<close>)
  moreover have "sk_list s ! j = sk_data s ! j" if "j < num s" for j using that by (simp add: sk_list_def)
  ultimately show ?thesis
    using True assms(3,7) length_sk_list [OF assms(1)]
    by (auto simp: sk_find_def sk_is_sorted_def range_match_def first_match_def split: option.splits)
qed

lemma sk_sort_spec:
  assumes "sk_inv s" and "flag_sound call s" and "comp s = Some f" and "cmp_order (call f) P"
    and "\<forall>x \<in> set (sk_list s). P x"
  shows "\<exists>s'. sk_sort call (Some s) = Some s' \<and> sk_inv s' \<and> sorted_flag s' \<and> comp s' = comp s \<and>
    mset (sk_list s') = mset (sk_list s) \<and> sorted_wrt (\<lambda>a b. call f a b \<le> 0) (sk_list s')"
proof (cases "sorted_flag s")
  case True
  then show ?thesis using assms by (auto simp: sk_sort_def flag_sound_def)
next
  case False
  have inv: "length (sk_data s) = num_alloc s" "num s < num_alloc s" using assms(1) by (simp_all add: sk_inv_def)
  define s' where "s' = s\<lparr>sk_data := (if num s \<ge> 2 then libc_qsort (call f) (sk_list s) @ drop (num s) (sk_data s) else sk_data s),
    sorted_flag := True\<rparr>"
  have e: "sk_sort call (Some s) = Some s'" using False assms(3) by (simp add: sk_sort_def s'_def Let_def sk_list_def)
  have l: "sk_list s' = (if num s \<ge> 2 then libc_qsort (call f) (sk_list s) else sk_list s)"
    using length_sk_list [OF assms(1)] by (simp add: s'_def sk_list_def)
  have i: "sk_inv s'" using assms(1) length_sk_list [OF assms(1)] by (auto simp: s'_def sk_inv_def)
  have "sorted_wrt (\<lambda>a b. call f a b \<le> 0) (sk_list s')"
  proof (cases "num s \<ge> 2")
    case True
    then show ?thesis using cmp_order.sorted_libc_qsort [OF assms(4,5)] l by simp
  next
    case False
    then have "length (sk_list s) < 2" using length_sk_list [OF assms(1)] by simp
    then show ?thesis using l False by (cases "sk_list s" rule: remdups_adj.cases) auto
  qed
  then show ?thesis using e i l by (auto simp: s'_def)
qed

section \<open>Reachable stacks\<close>

text \<open>
  The stacks a program gets by the calls of the interface with pointers in \<open>P\<close>, \<open>sk_set\<close>
  and \<open>sk_deep_copy\<close> left out; \<open>sk_push\<close>, \<open>sk_pop\<close>, \<open>sk_shift\<close> and \<open>sk_delete_ptr\<close> are
  insertions and deletions.
\<close>

inductive sk_reach :: "('f \<Rightarrow> ptr \<Rightarrow> ptr \<Rightarrow> int) \<Rightarrow> (ptr \<Rightarrow> bool) \<Rightarrow> 'f stack \<Rightarrow> bool"
  for call :: "'f \<Rightarrow> ptr \<Rightarrow> ptr \<Rightarrow> int" and P :: "ptr \<Rightarrow> bool" where
  new: "sk_new al f = (Some s, al') \<Longrightarrow> sk_reach call P s"
| insert: "sk_reach call P s \<Longrightarrow> P p \<Longrightarrow> sk_insert al (Some s) p w = (n, Some s', al') \<Longrightarrow> sk_reach call P s'"
| delete: "sk_reach call P s \<Longrightarrow> sk_delete (Some s) w = (p, Some s') \<Longrightarrow> sk_reach call P s'"
| zero: "sk_reach call P s \<Longrightarrow> sk_zero (Some s) = Some s' \<Longrightarrow> sk_reach call P s'"
| sort: "sk_reach call P s \<Longrightarrow> sk_sort call (Some s) = Some s' \<Longrightarrow> sk_reach call P s'"
| set_cmp: "sk_reach call P s \<Longrightarrow> sk_set_cmp_func s f = (f', s') \<Longrightarrow> sk_reach call P s'"
| dup: "sk_reach call P s \<Longrightarrow> sk_dup al (Some s) = (Some s', al') \<Longrightarrow> sk_reach call P s'"

lemma sk_dup_spec:
  assumes "sk_dup al (Some s) = (Some s', al')" and "sk_inv s"
  shows "sk_inv s' \<and> sk_list s' = sk_list s \<and> comp s' = comp s \<and> sorted_flag s' = sorted_flag s \<and> num s' = num s"
proof -
  have d: "length (sk_data s) = num_alloc s" "num s < num_alloc s" "num_alloc s * 8 < size_max1"
    using assms(2) by (simp_all add: sk_inv_def)
  have m: "size_mul 8 (num_alloc s) = num_alloc s * 8" using d(3) by (simp add: size_mul_def mult.commute)
  obtain al1 ret where r: "OPENSSL_malloc al1 (num_alloc s * 8) = (Some ret, al')"
    "s' = \<lparr>num = num s, sk_data = take (num s) (sk_data s) @ drop (num s) (ptr_cells ret),
           sorted_flag = sorted_flag s, num_alloc = num_alloc s, comp = comp s\<rparr>"
    using assms(1) by (auto simp: sk_dup_def m split: prod.splits option.splits)
  then show ?thesis using malloc_cells [OF r(1) d(3)] d by (simp add: sk_inv_def sk_list_def)
qed

definition sk_good :: "('f \<Rightarrow> ptr \<Rightarrow> ptr \<Rightarrow> int) \<Rightarrow> (ptr \<Rightarrow> bool) \<Rightarrow> 'f stack \<Rightarrow> bool" where
  "sk_good call P s \<longleftrightarrow> sk_inv s \<and> flag_sound call s \<and> (\<forall>x \<in> set (sk_list s). P x)"

lemma sorted_wrt_remove:
  "w < length xs \<Longrightarrow> sorted_wrt r xs \<Longrightarrow> sorted_wrt r (take w xs @ drop (Suc w) xs)"
proof -
  assume w: "w < length xs" and s: "sorted_wrt r xs"
  from w have "xs = take w xs @ xs ! w # drop (Suc w) xs" by (rule id_take_nth_drop)
  then have "sorted_wrt r (take w xs @ xs ! w # drop (Suc w) xs)" using s by simp
  then show ?thesis by (simp add: sorted_wrt_append)
qed

lemma sk_good_delete:
  assumes g: "sk_good call P s" and d: "sk_delete (Some s) w = (p, Some s')"
  shows "sk_good call P s'"
proof (cases "w < num s")
  case False
  then show ?thesis using assms by (simp add: sk_delete_def)
next
  case True
  have inv: "sk_inv s" using g by (simp add: sk_good_def)
  obtain t where "sk_delete (Some s) w = (sk_list s ! w, Some t)" and
    t: "sk_inv t" "sk_list t = take w (sk_list s) @ drop (w + 1) (sk_list s)" "comp t = comp s" "sorted_flag t = sorted_flag s"
    using sk_delete_spec [OF inv True] by blast
  then have s': "s' = t" using d by simp
  have "w < length (sk_list s)" using True length_sk_list [OF inv] by simp
  then show ?thesis
    using g t unfolding s' sk_good_def flag_sound_def by (auto simp: sorted_wrt_remove dest: in_set_takeD in_set_dropD)
qed

lemma sk_good_insert:
  assumes g: "sk_good call P s" and "P p" and i: "sk_insert al (Some s) p w = (n, Some s', al')"
  shows "sk_good call P s'"
proof -
  have inv: "sk_inv s" using g by (simp add: sk_good_def)
  show ?thesis
    using sk_insert_spec [OF i inv] g assms(2)
    by (auto simp: sk_good_def flag_sound_def dest!: in_set_takeD in_set_dropD)
qed

lemma sk_good_sort:
  assumes g: "sk_good call P s" and "\<And>f. cmp_order (call f) P" and s: "sk_sort call (Some s) = Some s'"
  shows "sk_good call P s'"
proof (cases "comp s")
  case None
  then show ?thesis using g s by (simp add: sk_sort_def)
next
  case (Some f)
  have "sk_inv s" "flag_sound call s" "\<forall>x \<in> set (sk_list s). P x" using g by (simp_all add: sk_good_def)
  note spec = sk_sort_spec [OF this(1,2) Some assms(2) this(3)]
  then have "sk_inv s'" "sorted_wrt (\<lambda>a b. call f a b \<le> 0) (sk_list s')" "comp s' = comp s" "set (sk_list s') = set (sk_list s)"
    using s by (auto dest: mset_eq_setD)
  then show ?thesis using g Some by (simp add: sk_good_def flag_sound_def)
qed

lemma sk_reach_good:
  assumes "sk_reach call P s" and "\<And>f. cmp_order (call f) P"
  shows "sk_good call P s"
  using assms(1)
proof (induction rule: sk_reach.induct)
  case (new al f s al')
  then show ?case using sk_new_inv [OF new] by (simp add: sk_good_def flag_sound_def)
next
  case (zero s s')
  then show ?case by (auto simp: sk_zero_def sk_good_def flag_sound_def sk_inv_def sk_list_def split: if_splits)
next
  case (set_cmp s f f' s')
  then show ?case by (auto simp: sk_set_cmp_func_def sk_good_def flag_sound_def sk_inv_def sk_list_def split: if_splits)
next
  case (dup s al s' al')
  then show ?case using sk_dup_spec [OF dup(2)] by (simp add: sk_good_def flag_sound_def)
qed (auto intro: sk_good_insert sk_good_delete sk_good_sort assms(2))

section \<open>Copies\<close>

text \<open>
  What the callbacks of \<open>sk_deep_copy\<close> do to the objects alive in the world: a copy makes one
  new object or fails, a free ends the life of one.
\<close>

definition copy_frees :: "('w \<Rightarrow> ptr multiset) \<Rightarrow> ('w \<Rightarrow> ptr \<Rightarrow> ptr \<times> 'w) \<Rightarrow> ('w \<Rightarrow> ptr \<Rightarrow> 'w) \<Rightarrow> bool" where
  "copy_frees live copy_func free_func \<longleftrightarrow>
     (\<forall>w p q w'. copy_func w p = (q, w') \<longrightarrow> live w' = live w + (if q = 0 then {#} else {#q#})) \<and>
     (\<forall>w p. live (free_func w p) = live w - {#p#})"

definition objects :: "ptr list \<Rightarrow> ptr multiset" where
  "objects ps = filter_mset (\<lambda>p. p \<noteq> 0) (mset ps)"

lemma free_all_live:
  assumes "copy_frees live copy_func free_func"
  shows "live (foldl (\<lambda>w p. if p \<noteq> 0 then free_func w p else w) w ps) = live w - objects ps"
proof (induction ps arbitrary: w)
  case (Cons p ps)
  then show ?case using assms by (simp add: copy_frees_def objects_def)
qed (simp add: objects_def)

lemma deep_copy_loop_live:
  assumes cf: "copy_frees live copy_func free_func"
    and "deep_copy_loop copy_func free_func dn ps w = (r, w')" and "live w = L + objects dn"
  shows "(case r of None \<Rightarrow> live w' = L | Some d \<Rightarrow> live w' = L + objects d \<and> length d = length dn + length ps)"
  using assms(2,3)
proof (induction ps arbitrary: dn w)
  case (Cons p ps)
  obtain q w1 where q: "copy_func w p = (q, w1)" by (cases "copy_func w p")
  then have live: "live w1 = live w + (if q = 0 then {#} else {#q#})" using cf by (auto simp: copy_frees_def)
  consider "p = 0" | "p \<noteq> 0" "q = 0" | "p \<noteq> 0" "q \<noteq> 0" by blast
  then show ?case
  proof cases
    case 1
    then show ?thesis using Cons.IH [of "dn @ [0]" w] Cons.prems by (auto simp: objects_def split: option.splits)
  next
    case 2
    then show ?thesis using Cons.prems q live free_all_live [OF cf, of w1 dn] by auto
  next
    case 3
    then have "live w1 = L + objects (dn @ [q])" using live Cons.prems(2) by (simp add: objects_def)
    then show ?thesis using Cons.IH [of "dn @ [q]" w1] Cons.prems(1) 3 q by (auto split: option.splits)
  qed
qed auto

lemma sk_reserve_total:
  assumes "never_fails al" and "sk_inv s" and "num_alloc s < 2 ^ 59"
  shows "\<exists>s' al'. sk_reserve al s = (Some s', al')"
proof (cases "num_alloc s \<le> size_add (num s) 1")
  case True
  have n: "size_mul (num_alloc s) 2 = num_alloc s * 2" "size_mul (num_alloc s * 2) 8 = num_alloc s * 16"
    using assms(3) by (simp_all add: size_mul_def size_max1_def)
  obtain b al' where "OPENSSL_malloc al (num_alloc s * 16) = (Some b, al')"
  proof -
    have "num_alloc s * 16 + 8 < size_max1" using assms(3) by (simp add: size_max1_def)
    then show thesis using OPENSSL_malloc_total [OF assms(1)] that by blast
  qed
  then show ?thesis using True by (simp add: sk_reserve_def Let_def n realloc_ptrs_def)
qed (simp add: sk_reserve_def)

section \<open>Properties\<close>

text \<open>\<open>sk_insert\<close> either leaves the stack as it was and returns 0, which an allocator that does
  not fail rules out, or inserts \<open>p\<close> at the index (at the end where the index is out of range) and
  returns the new length; \<open>sk_delete\<close> at that index gives the old list and \<open>p\<close> back.\<close>

theorem stack_insert_delete:
  assumes "sk_inv s" and "sk_insert al (Some s) p w = (n, sk', al')"
  shows "(n = 0 \<and> sk' = Some s \<and> \<not> (never_fails al \<and> num_alloc s < 2 ^ 59)) \<or>
    (\<exists>s' s''. n = length (sk_list s) + 1 \<and> sk' = Some s' \<and> sk_inv s' \<and> sk_inv s'' \<and>
       sk_list s' = take w (sk_list s) @ p # drop w (sk_list s) \<and>
       sk_delete (Some s') (min w (length (sk_list s))) = (p, Some s'') \<and> sk_list s'' = sk_list s)"
proof (cases "n = 0")
  case True
  then have "sk_reserve al s = (None, al')" "sk' = Some s"
    using assms(2) by (auto simp: sk_insert_def Let_def split: prod.splits option.splits)
  then show ?thesis using True sk_reserve_total [OF _ assms(1), of al] by auto
next
  case False
  obtain s' where s': "sk' = Some s'" "n = num s + 1" "sk_inv s'" "sk_list s' = take w (sk_list s) @ p # drop w (sk_list s)"
    using sk_insert_spec [OF assms(2,1)] False by auto
  define v where "v = min w (length (sk_list s))"
  have l: "sk_list s' = take v (sk_list s) @ p # drop v (sk_list s)" using s'(4) by (simp add: v_def min_def)
  have lv: "length (take v (sk_list s)) = v" by (simp add: v_def)
  then have "v < num s'" using length_sk_list [OF s'(3)] unfolding l by simp
  then obtain s'' where "sk_delete (Some s') v = (sk_list s' ! v, Some s'')" "sk_inv s''"
    "sk_list s'' = take v (sk_list s') @ drop (v + 1) (sk_list s')"
    using sk_delete_spec [OF s'(3)] by blast
  moreover have "sk_list s' ! v = p" using lv nth_append_length [of "take v (sk_list s)"] unfolding l by simp
  moreover have "take v (sk_list s') @ drop (v + 1) (sk_list s') = sk_list s" unfolding l using lv by simp
  ultimately show ?thesis using s' length_sk_list [OF assms(1)] by (auto simp: v_def)
qed

definition sample_stack :: "ptr list \<Rightarrow> bool \<Rightarrow> unit stack" where
  "sample_stack ps b = \<lparr>num = length ps, sk_data = ps @ replicate (4 - length ps) 0, sorted_flag = b, num_alloc = 4, comp = Some ()\<rparr>"

theorem stack_insert_delete_witness:
  "sk_insert plentiful (Some (sample_stack [7, 9] False)) 8 1 = (3, Some (sample_stack [7, 8, 9] False), plentiful) \<and>
   sk_delete (Some (sample_stack [7, 8, 9] False)) 1 = (8, Some ((sample_stack [7, 9] False)\<lparr>sk_data := [7, 9, 9, 0]\<rparr>))"
proof -
  have "sk_insert plentiful (Some (sample_stack [7, 9] False)) 8 1 = (3, Some (sample_stack [7, 8, 9] False), plentiful)"
  proof -
    have "size_add 2 1 = 3" by (simp add: size_add_def size_max1_def)
    then show ?thesis
      by (simp add: sample_stack_def sk_insert_def sk_reserve_def ptr_memmove_def numeral_2_eq_2)
  qed
  moreover have "sk_inv (sample_stack [7, 9] False)" by (simp add: sk_inv_def sample_stack_def size_max1_def)
  ultimately show ?thesis
    using stack_insert_delete [of "sample_stack [7, 9] False" plentiful 8 1]
    by (simp add: sk_delete_def ptr_memmove_def sample_stack_def numeral_2_eq_2)
qed


text \<open>A comparison by value and a stack reached by four calls, for the witnesses.\<close>

definition by_value :: "unit \<Rightarrow> ptr \<Rightarrow> ptr \<Rightarrow> int" where
  "by_value f a b = int (unat a) - int (unat b)"

lemma by_value_order: "cmp_order (by_value f) P"
  by unfold_locales (simp_all add: by_value_def del: of_nat_unat)

interpretation by_value: cmp_order "by_value ()" "\<lambda>p. p \<noteq> 0"
  by (rule by_value_order)

lemma sample_insert:
  "length ps < 3 \<Longrightarrow> \<exists>al'. sk_insert al (Some (sample_stack ps b)) p (length ps) = (Suc (length ps), Some (sample_stack (ps @ [p]) False), al')"
proof -
  assume l: "length ps < 3"
  then have "size_add (length ps) 1 = length ps + 1" by (simp add: size_add_def size_max1_def)
  moreover have "replicate (4 - length ps) (0 :: ptr) = 0 # replicate (3 - length ps) 0"
    using l by (simp add: Suc_diff_le flip: replicate_Suc)
  ultimately show ?thesis using l by (simp add: sk_insert_def sk_reserve_def sample_stack_def list_update_append)
qed

lemma sample_reach: "sk_reach by_value (\<lambda>p. p \<noteq> 0) (sample_stack [1, 3] True)"
proof -
  have "\<exists>al'. sk_new plentiful (Some ()) = (Some (sample_stack [] False), al')"
  proof -
    obtain b1 al1 where 1: "OPENSSL_malloc plentiful 40 = (Some b1, al1)" "never_fails al1"
      by (rule OPENSSL_malloc_total [OF plentiful_never_fails, of 40]) (simp add: size_max1_def)
    obtain b2 al2 where 2: "OPENSSL_malloc al1 32 = (Some b2, al2)"
      by (rule OPENSSL_malloc_total [OF 1(2), of 32]) (simp add: size_max1_def)
    show ?thesis using 1 2 by (simp add: sk_new_def kMinSize_def sample_stack_def)
  qed
  then have "sk_reach by_value (\<lambda>p. p \<noteq> 0) (sample_stack [] False)" using sk_reach.new by blast
  then have "sk_reach by_value (\<lambda>p. p \<noteq> 0) (sample_stack [3] False)"
    using sample_insert [of "[]" plentiful False 3] sk_reach.insert [of by_value "\<lambda>p. p \<noteq> 0" _ 3] by fastforce
  then have r: "sk_reach by_value (\<lambda>p. p \<noteq> 0) (sample_stack [3, 1] False)"
    using sample_insert [of "[3]" plentiful False 1] sk_reach.insert [of by_value "\<lambda>p. p \<noteq> 0" _ 1] by fastforce
  have "sk_sort by_value (Some (sample_stack [3, 1] False)) = Some (sample_stack [1, 3] True)"
    by (simp add: sk_sort_def sample_stack_def libc_qsort_def by_value_def)
  then show ?thesis by (rule sk_reach.sort [OF r])
qed




text \<open>\<open>sk_sort\<close> on a reachable stack with a comparison function gives an ascending permutation of
  it and sets the flag.\<close>

theorem stack_sort_sorts:
  assumes "sk_reach call P s" and "\<forall>f. cmp_order (call f) P" and "comp s = Some f"
  shows "\<exists>s'. sk_sort call (Some s) = Some s' \<and> sk_is_sorted (Some s') \<and> mset (sk_list s') = mset (sk_list s) \<and>
    sorted_wrt (\<lambda>a b. call f a b \<le> 0) (sk_list s')"
proof -
  have "sk_good call P s" using sk_reach_good [OF assms(1)] assms(2) by blast
  then show ?thesis using sk_sort_spec [of s call f P] assms by (auto simp: sk_good_def sk_is_sorted_def)
qed

theorem stack_sort_sorts_witness:
  "\<exists>s'. sk_sort by_value (Some (sample_stack [1, 3] True)) = Some s' \<and> sk_is_sorted (Some s') \<and> mset (sk_list s') = {#1, 3#}"
  using stack_sort_sorts [OF sample_reach, of "()"] by_value_order by (auto simp: sample_stack_def sk_list_def)

text \<open>C16: \<open>sk_deep_copy\<close> does not leak: when it returns NULL every copy it made has been freed again,
  and when it returns a stack the objects alive are those from before and the ones in the copy.\<close>

theorem deep_copy_no_leak:
  assumes "copy_frees live copy_func free_func" and "\<forall>s. sk = Some s \<longrightarrow> sk_inv s"
    and "sk_deep_copy al sk copy_func free_func w = (r, w', al')"
  shows "live w' = live w + (case r of None \<Rightarrow> {#} | Some s' \<Rightarrow> objects (sk_list s'))"
proof (cases "sk_dup al sk")
  case (Pair ret al1)
  show ?thesis
  proof (cases ret)
    case None
    then show ?thesis using assms(3) Pair by (simp add: sk_deep_copy_def)
  next
    case (Some t)
    then obtain s where s: "sk = Some s" using Pair by (cases sk) (simp_all add: sk_dup_def)
    then have t: "sk_inv t" using sk_dup_spec [of al s t al1] Pair Some assms(2) by simp
    obtain d w1 where l: "deep_copy_loop copy_func free_func [] (sk_list t) w = (d, w1)"
      by (cases "deep_copy_loop copy_func free_func [] (sk_list t) w")
    have "case d of None \<Rightarrow> live w1 = live w | Some d \<Rightarrow> live w1 = live w + objects d \<and> length d = length (sk_list t)"
      using deep_copy_loop_live [OF assms(1) l, of "live w"] by (auto simp: objects_def split: option.splits)
    then show ?thesis
      using assms(3) Pair Some l length_sk_list [OF t]
      by (auto simp: sk_deep_copy_def sk_list_def split: option.splits)
  qed
qed

text \<open>A world of live pointers whose copy function puts the copy of \<open>p\<close> at \<open>p + 100\<close> and fails on 2.\<close>

definition sample_copy :: "ptr multiset \<Rightarrow> ptr \<Rightarrow> ptr \<times> ptr multiset" where
  "sample_copy w p = (if p = 2 \<or> p + 100 = 0 then (0, w) else (p + 100, w + {#p + 100#}))"

lemma sample_copy_frees: "copy_frees id sample_copy (\<lambda>w p. w - {#p#})"
  by (auto simp: copy_frees_def sample_copy_def split: if_splits)

theorem deep_copy_no_leak_witness:
  "case sk_deep_copy plentiful (Some (sample_stack [1, 2] False)) sample_copy (\<lambda>w p. w - {#p#}) {#7#} of
     (r, w', al') \<Rightarrow> r = None \<and> w' = {#7#}"
proof -
  let ?sk = "Some (sample_stack [1, 2] False)" and ?free = "\<lambda>w p. w - {#p#} :: ptr multiset"
  obtain r w' al' where c: "sk_deep_copy plentiful ?sk sample_copy ?free {#7#} = (r, w', al')" by (metis prod_cases3)
  have inv: "sk_inv (sample_stack [1, 2] False)" by (simp add: sk_inv_def sample_stack_def size_max1_def)
  have l: "sk_list (sample_stack [1, 2] False) = [1, 2]" by (simp add: sk_list_def sample_stack_def)
  have "r = None"
  proof (cases "sk_dup plentiful ?sk")
    case (Pair t al1)
    show ?thesis
    proof (cases t)
      case (Some u)
      then have "take (num u) (sk_data u) = [1, 2]" using sk_dup_spec [OF Pair [unfolded Some] inv] l by (metis sk_list_def)
      then show ?thesis using c Pair Some by (simp add: sk_deep_copy_def sample_copy_def)
    qed (use c Pair in \<open>simp add: sk_deep_copy_def\<close>)
  qed
  then show ?thesis using deep_copy_no_leak [OF sample_copy_frees _ c] inv c by simp
qed

text \<open>\<open>sk_set\<close> overwrites a pointer but leaves the \<open>sorted\<close> flag on: after it the flag need not be
  true, and \<open>sk_find\<close>, which then searches by bisection, misses a pointer that is there.\<close>

theorem sk_set_keeps_stale_flag:
  "\<exists>s s' :: unit stack. sk_reach by_value (\<lambda>p. p \<noteq> 0) s \<and> sk_set (Some s) 0 5 = (5, Some s') \<and>
     sk_value (Some s') 1 = 3 \<and> sk_is_sorted (Some s') \<and> sk_find by_value (Some s') 3 = None"
proof (intro exI conjI)
  show "sk_reach by_value (\<lambda>p. p \<noteq> 0) (sample_stack [1, 3] True)" by (rule sample_reach)
  show "sk_set (Some (sample_stack [1, 3] True)) 0 5 = (5, Some (sample_stack [5, 3] True))"
    by (simp add: sk_set_def sample_stack_def)
qed (simp_all add: sk_value_def sk_is_sorted_def sk_find_def sample_stack_def by_value_def sk_find_sorted.simps)

end
