(* ===== verification/Lhash.thy ===== *)
theory Lhash
  imports Mem "HOL-Library.Multiset"
begin

text \<open>
  \<open>crypto/lhash/lhash.c\<close>: a hash table with chaining that grows and shrinks with the number
  of its items.

  An item's \<open>data\<close> pointer is a value of the type \<open>'d\<close>; NULL results are \<open>None\<close>. A chain
  linked through \<open>next\<close> is the list of its items from the bucket on, so the
  \<open>LHASH_ITEM **\<close> that the searches return is a bucket and a position in its chain, the
  length of the chain for the slot that holds NULL. The hash and the comparison function
  are stored in the table as pointers of the types \<open>'h\<close> and \<open>'c\<close> and called through the
  helpers \<open>call_hash_func\<close> and \<open>call_cmp_func\<close>. Freed memory is not modelled.
\<close>

section \<open>The table\<close>

definition kMinNumBuckets :: nat where
  "kMinNumBuckets = 16"

definition kMaxAverageChainLength :: nat where
  "kMaxAverageChainLength = 2"

definition kMinAverageChainLength :: nat where
  "kMinAverageChainLength = 1"

record 'd lhash_item =
  item_data :: 'd
  item_hash :: uint32

record ('d, 'h, 'c) lhash =
  num_items :: nat
  buckets :: "'d lhash_item list list"
  num_buckets :: nat
  callback_depth :: uint32
  lh_comp :: 'c
  lh_hash :: 'h

definition OPENSSL_lh_new :: "allocator \<Rightarrow> 'h \<Rightarrow> 'c \<Rightarrow> ('d, 'h, 'c) lhash option \<times> allocator" where
  "OPENSSL_lh_new al hash cmp =
     (case OPENSSL_malloc al 48 of
        (None, al1) \<Rightarrow> (None, al1)
      | (Some _, al1) \<Rightarrow>
          (case OPENSSL_malloc al1 (8 * kMinNumBuckets) of
             (None, al2) \<Rightarrow> (None, al2)
           | (Some _, al2) \<Rightarrow>
               (Some \<lparr>num_items = 0, buckets = replicate kMinNumBuckets [], num_buckets = kMinNumBuckets,
                      callback_depth = 0, lh_comp = cmp, lh_hash = hash\<rparr>, al2)))"

definition OPENSSL_lh_num_items :: "('d, 'h, 'c) lhash \<Rightarrow> nat" where
  "OPENSSL_lh_num_items lh = num_items lh"

section \<open>Searching\<close>

fun chain_pos :: "('d \<Rightarrow> bool) \<Rightarrow> 'd lhash_item list \<Rightarrow> nat" where
  "chain_pos eq [] = 0"
| "chain_pos eq (cur # rest) = (if eq (item_data cur) then 0 else Suc (chain_pos eq rest))"

text \<open>The slot and \<open>*out_hash\<close>.\<close>

definition get_next_ptr_and_hash ::
  "('h \<Rightarrow> 'd \<Rightarrow> uint32) \<Rightarrow> ('c \<Rightarrow> 'd \<Rightarrow> 'd \<Rightarrow> int) \<Rightarrow> ('d, 'h, 'c) lhash \<Rightarrow> 'd \<Rightarrow> (nat \<times> nat) \<times> uint32" where
  "get_next_ptr_and_hash call_hash_func call_cmp_func lh d =
     (let hash = call_hash_func (lh_hash lh) d;
          i = unat hash mod num_buckets lh in
      ((i, chain_pos (\<lambda>x. call_cmp_func (lh_comp lh) x d = 0) (buckets lh ! i)), hash))"

definition get_next_ptr_by_key ::
  "('d, 'h, 'c) lhash \<Rightarrow> 'k \<Rightarrow> uint32 \<Rightarrow> ('k \<Rightarrow> 'd \<Rightarrow> int) \<Rightarrow> nat \<times> nat" where
  "get_next_ptr_by_key lh key key_hash cmp_key =
     (let i = unat key_hash mod num_buckets lh in
      (i, chain_pos (\<lambda>x. cmp_key key x = 0) (buckets lh ! i)))"

text \<open>\<open>*next_ptr\<close>, the item in a slot.\<close>

definition slot_item :: "('d, 'h, 'c) lhash \<Rightarrow> nat \<times> nat \<Rightarrow> 'd lhash_item option" where
  "slot_item lh slot =
     (case slot of (i, j) \<Rightarrow> if j < length (buckets lh ! i) then Some (buckets lh ! i ! j) else None)"

definition OPENSSL_lh_retrieve ::
  "('h \<Rightarrow> 'd \<Rightarrow> uint32) \<Rightarrow> ('c \<Rightarrow> 'd \<Rightarrow> 'd \<Rightarrow> int) \<Rightarrow> ('d, 'h, 'c) lhash \<Rightarrow> 'd \<Rightarrow> 'd option" where
  "OPENSSL_lh_retrieve call_hash_func call_cmp_func lh d =
     (case get_next_ptr_and_hash call_hash_func call_cmp_func lh d of
        (next_ptr, _) \<Rightarrow> map_option item_data (slot_item lh next_ptr))"

definition OPENSSL_lh_retrieve_key ::
  "('d, 'h, 'c) lhash \<Rightarrow> 'k \<Rightarrow> uint32 \<Rightarrow> ('k \<Rightarrow> 'd \<Rightarrow> int) \<Rightarrow> 'd option" where
  "OPENSSL_lh_retrieve_key lh key key_hash cmp_key =
     map_option item_data (slot_item lh (get_next_ptr_by_key lh key key_hash cmp_key))"

section \<open>Resizing\<close>

text \<open>Each item goes to the front of its new chain.\<close>

definition lh_rebucket :: "allocator \<Rightarrow> ('d, 'h, 'c) lhash \<Rightarrow> nat \<Rightarrow> ('d, 'h, 'c) lhash \<times> allocator" where
  "lh_rebucket al lh new_num_buckets =
     (let alloc_size = size_mul 8 new_num_buckets in
      if alloc_size div 8 \<noteq> new_num_buckets then (lh, al)
      else
        (case OPENSSL_malloc al alloc_size of
           (None, al') \<Rightarrow> (lh, al')
         | (Some _, al') \<Rightarrow>
             (let new_buckets =
                foldl (\<lambda>bs cur. let new_bucket = unat (item_hash cur) mod new_num_buckets
                                in bs[new_bucket := cur # bs ! new_bucket])
                  (replicate new_num_buckets []) (concat (buckets lh))
              in (lh\<lparr>num_buckets := new_num_buckets, buckets := new_buckets\<rparr>, al'))))"

definition lh_maybe_resize :: "allocator \<Rightarrow> ('d, 'h, 'c) lhash \<Rightarrow> ('d, 'h, 'c) lhash \<times> allocator" where
  "lh_maybe_resize al lh =
     (if callback_depth lh > 0 then (lh, al)
      else
        let avg_chain_length = num_items lh div num_buckets lh in
        if avg_chain_length > kMaxAverageChainLength then
          (let new_num_buckets = size_mul (num_buckets lh) 2 in
           if new_num_buckets > num_buckets lh then lh_rebucket al lh new_num_buckets else (lh, al))
        else if avg_chain_length < kMinAverageChainLength \<and> num_buckets lh > kMinNumBuckets then
          (let new_num_buckets = num_buckets lh div 2 in
           lh_rebucket al lh (if new_num_buckets < kMinNumBuckets then kMinNumBuckets else new_num_buckets))
        else (lh, al))"

section \<open>Updates\<close>

text \<open>The return value, \<open>*old_data\<close>, the table and the allocator.\<close>

definition OPENSSL_lh_insert ::
  "('h \<Rightarrow> 'd \<Rightarrow> uint32) \<Rightarrow> ('c \<Rightarrow> 'd \<Rightarrow> 'd \<Rightarrow> int) \<Rightarrow> allocator \<Rightarrow> ('d, 'h, 'c) lhash \<Rightarrow> 'd \<Rightarrow>
   bool \<times> 'd option \<times> ('d, 'h, 'c) lhash \<times> allocator" where
  "OPENSSL_lh_insert call_hash_func call_cmp_func al lh d =
     (case get_next_ptr_and_hash call_hash_func call_cmp_func lh d of
        ((i, j), hash) \<Rightarrow>
          (case slot_item lh (i, j) of
             Some it \<Rightarrow>
               (True, Some (item_data it),
                lh\<lparr>buckets := (buckets lh)[i := (buckets lh ! i)[j := it\<lparr>item_data := d\<rparr>]]\<rparr>, al)
           | None \<Rightarrow>
               (case OPENSSL_malloc al 24 of
                  (None, al') \<Rightarrow> (False, None, lh, al')
                | (Some _, al') \<Rightarrow>
                    (case lh_maybe_resize al'
                            (lh\<lparr>buckets := (buckets lh)[i := buckets lh ! i @ [\<lparr>item_data = d, item_hash = hash\<rparr>]],
                                num_items := size_add (num_items lh) 1\<rparr>) of
                       (lh', al'') \<Rightarrow> (True, None, lh', al'')))))"

definition OPENSSL_lh_delete ::
  "('h \<Rightarrow> 'd \<Rightarrow> uint32) \<Rightarrow> ('c \<Rightarrow> 'd \<Rightarrow> 'd \<Rightarrow> int) \<Rightarrow> allocator \<Rightarrow> ('d, 'h, 'c) lhash \<Rightarrow> 'd \<Rightarrow>
   'd option \<times> ('d, 'h, 'c) lhash \<times> allocator" where
  "OPENSSL_lh_delete call_hash_func call_cmp_func al lh d =
     (case get_next_ptr_and_hash call_hash_func call_cmp_func lh d of
        ((i, j), _) \<Rightarrow>
          (case slot_item lh (i, j) of
             None \<Rightarrow> (None, lh, al)
           | Some item \<Rightarrow>
               (case lh_maybe_resize al
                       (lh\<lparr>buckets := (buckets lh)[i := take j (buckets lh ! i) @ drop (Suc j) (buckets lh ! i)],
                           num_items := num_items lh - 1\<rparr>) of
                  (lh', al') \<Rightarrow> (Some (item_data item), lh', al'))))"

text \<open>For callbacks that leave the table alone and change a world of the type \<open>'w\<close>.\<close>

definition OPENSSL_lh_doall_arg ::
  "allocator \<Rightarrow> ('d, 'h, 'c) lhash option \<Rightarrow> ('d \<Rightarrow> 'w \<Rightarrow> 'w) \<Rightarrow> 'w \<Rightarrow> 'w \<times> ('d, 'h, 'c) lhash option \<times> allocator" where
  "OPENSSL_lh_doall_arg al lh func w =
     (case lh of
        None \<Rightarrow> (w, None, al)
      | Some l \<Rightarrow>
          (let l1 = (if callback_depth l < - 1 then l\<lparr>callback_depth := callback_depth l + 1\<rparr> else l);
               w' = foldl (\<lambda>w cur. func (item_data cur) w) w (concat (buckets l1));
               l2 = (if callback_depth l1 < - 1 then l1\<lparr>callback_depth := callback_depth l1 - 1\<rparr> else l1) in
           case lh_maybe_resize al l2 of (l3, al') \<Rightarrow> (w', Some l3, al')))"

section \<open>Lists and multisets\<close>

lemma mset_concat_update:
  "i < length bs \<Longrightarrow> mset (concat (bs[i := c])) + mset (bs ! i) = mset (concat bs) + mset c"
proof (induction bs arbitrary: i)
  case (Cons b bs)
  show ?case
  proof (cases i)
    case (Suc m)
    then have "mset (concat (bs[m := c])) + mset (bs ! m) = mset (concat bs) + mset c" using Cons by simp
    then show ?thesis using Suc by (simp add: union_assoc)
  qed simp
qed simp

lemma find_unique:
  assumes "size (filter_mset t (mset xs)) \<le> 1"
  shows "find t xs = Some x \<longleftrightarrow> x \<in> set xs \<and> t x"
  using assms
proof (induction xs)
  case (Cons y ys)
  show ?case
  proof (cases "t y")
    case True
    then have "filter_mset t (mset ys) = {#}" using Cons.prems by simp
    then have "set_mset (filter_mset t (mset ys)) = {}" by simp
    then have "\<forall>z \<in> set ys. \<not> t z" by auto
    then show ?thesis using True by auto
  next
    case False
    then show ?thesis using Cons by auto
  qed
qed simp

lemma chain_pos_le: "chain_pos t xs \<le> length xs"
  by (induction xs) auto

lemma chain_pos_hit: "chain_pos t xs < length xs \<Longrightarrow> t (item_data (xs ! chain_pos t xs))"
  by (induction xs) auto

lemma chain_pos_find:
  "find t (map item_data xs) =
     (if chain_pos t xs < length xs then Some (item_data (xs ! chain_pos t xs)) else None)"
  by (induction xs) auto

lemma mset_remove_nth:
  "j < length xs \<Longrightarrow> mset (map f (take j xs @ drop (Suc j) xs)) + {#f (xs ! j)#} = mset (map f xs)"
proof -
  assume j: "j < length xs"
  have "mset (map f xs) = mset (map f (take j xs @ xs ! j # drop (Suc j) xs))" using id_take_nth_drop [OF j] by simp
  then show ?thesis by simp
qed

lemma foldl_snoc: "foldl (\<lambda>acc x. acc @ [x]) acc xs = acc @ xs"
  by (induction xs arbitrary: acc) simp_all

section \<open>Well-formed tables\<close>

text \<open>
  What the table needs of its callbacks on the data in \<open>P\<close>: equality by \<open>cmp\<close> is an
  equivalence that the hash function respects.
\<close>

locale hash_keys =
  fixes h :: "'d \<Rightarrow> uint32" and cmp :: "'d \<Rightarrow> 'd \<Rightarrow> int" and P :: "'d \<Rightarrow> bool"
  assumes key_refl: "P a \<Longrightarrow> cmp a a = 0"
    and key_sym: "P a \<Longrightarrow> P b \<Longrightarrow> cmp a b = 0 \<Longrightarrow> cmp b a = 0"
    and key_trans: "P a \<Longrightarrow> P b \<Longrightarrow> P c \<Longrightarrow> cmp a b = 0 \<Longrightarrow> cmp b c = 0 \<Longrightarrow> cmp a c = 0"
    and key_hash: "P a \<Longrightarrow> P b \<Longrightarrow> cmp a b = 0 \<Longrightarrow> h a = h b"

text \<open>The data in the table, and the entry for a key.\<close>

definition lh_data :: "('d, 'h, 'c) lhash \<Rightarrow> 'd multiset" where
  "lh_data lh = mset (map item_data (concat (buckets lh)))"

definition lh_entry :: "('d \<Rightarrow> 'd \<Rightarrow> int) \<Rightarrow> ('d, 'h, 'c) lhash \<Rightarrow> 'd \<Rightarrow> 'd option" where
  "lh_entry cmp lh k = find (\<lambda>d. cmp d k = 0) (map item_data (concat (buckets lh)))"

definition one_per_key :: "('d \<Rightarrow> 'd \<Rightarrow> int) \<Rightarrow> ('d \<Rightarrow> bool) \<Rightarrow> 'd multiset \<Rightarrow> bool" where
  "one_per_key cmp P M \<longleftrightarrow> (\<forall>k. P k \<longrightarrow> size (filter_mset (\<lambda>d. cmp d k = 0) M) \<le> 1)"

definition item_ok :: "('d \<Rightarrow> uint32) \<Rightarrow> ('d \<Rightarrow> bool) \<Rightarrow> nat \<Rightarrow> nat \<Rightarrow> 'd lhash_item \<Rightarrow> bool" where
  "item_ok h P n i it \<longleftrightarrow> P (item_data it) \<and> item_hash it = h (item_data it) \<and> unat (item_hash it) mod n = i"

definition placed :: "('d \<Rightarrow> uint32) \<Rightarrow> ('d \<Rightarrow> bool) \<Rightarrow> nat \<Rightarrow> 'd lhash_item list list \<Rightarrow> bool" where
  "placed h P n bs \<longleftrightarrow> length bs = n \<and>
     (\<forall>i < n. \<forall>it \<in> set (bs ! i). item_ok h P n i it)"

definition lh_inv :: "('d \<Rightarrow> uint32) \<Rightarrow> ('d \<Rightarrow> 'd \<Rightarrow> int) \<Rightarrow> ('d \<Rightarrow> bool) \<Rightarrow> ('d, 'h, 'c) lhash \<Rightarrow> bool" where
  "lh_inv h cmp P lh \<longleftrightarrow>
     placed h P (num_buckets lh) (buckets lh) \<and> kMinNumBuckets \<le> num_buckets lh \<and> num_buckets lh * 8 < size_max1 \<and>
     num_items lh = size (lh_data lh) \<and> one_per_key cmp P (lh_data lh)"

lemma lh_inv_pos: "lh_inv h cmp P lh \<Longrightarrow> 0 < num_buckets lh"
  by (simp add: lh_inv_def kMinNumBuckets_def)

lemma lh_entry_iff:
  assumes "one_per_key cmp P (lh_data lh)" and "P k"
  shows "lh_entry cmp lh k = Some d \<longleftrightarrow> d \<in># lh_data lh \<and> cmp d k = 0"
  unfolding lh_entry_def using assms
  by (subst find_unique) (auto simp: one_per_key_def lh_data_def)

lemma lh_entry_eqI:
  assumes "one_per_key cmp P (lh_data lh)" "one_per_key cmp P (lh_data lh')" "P k"
    and "\<And>d. d \<in># lh_data lh \<and> cmp d k = 0 \<longleftrightarrow> d \<in># lh_data lh' \<and> cmp d k = 0"
  shows "lh_entry cmp lh k = lh_entry cmp lh' k"
  using lh_entry_iff [OF assms(1,3)] lh_entry_iff [OF assms(2,3)] assms(4) by (metis option.exhaust)

lemma placed_update:
  assumes "placed h P n bs" and "\<And>it. it \<in> set c \<Longrightarrow> item_ok h P n i it"
  shows "placed h P n (bs[i := c])"
proof -
  have "item_ok h P n j it" if "j < n" "it \<in> set (bs[i := c] ! j)" for j it
    using assms that by (cases "j = i") (auto simp: placed_def)
  then show ?thesis using assms(1) by (simp add: placed_def)
qed

context hash_keys
begin

text \<open>Equal data lie in the same bucket, so searching that bucket is searching the table.\<close>

lemma bucket_of:
  assumes "lh_inv h cmp P lh" and "P k" and "d \<in># lh_data lh" and "cmp d k = 0"
  shows "d \<in> item_data ` set (buckets lh ! (unat (h k) mod num_buckets lh))"
proof -
  have pl: "placed h P (num_buckets lh) (buckets lh)" using assms(1) by (simp add: lh_inv_def)
  obtain i it where i: "i < num_buckets lh" "it \<in> set (buckets lh ! i)" "d = item_data it"
    using assms(3) pl by (auto simp: lh_data_def placed_def in_set_conv_nth [of _ "buckets lh"])
  have "item_ok h P (num_buckets lh) i it" using pl i by (simp add: placed_def)
  then have p: "P d" "item_hash it = h d" "unat (item_hash it) mod num_buckets lh = i" unfolding item_ok_def i(3) by blast+
  then show ?thesis using key_hash [OF p(1) assms(2,4)] i by auto
qed

lemma retrieve_bucket:
  assumes "lh_inv h cmp P lh" and "P k"
  shows "find (\<lambda>d. cmp d k = 0) (map item_data (buckets lh ! (unat (h k) mod num_buckets lh))) = lh_entry cmp lh k"
    (is "find ?t ?xs = _")
proof -
  have one: "one_per_key cmp P (lh_data lh)" using assms(1) by (simp add: lh_inv_def)
  have i: "unat (h k) mod num_buckets lh < length (buckets lh)"
    using assms(1) lh_inv_pos [OF assms(1)] by (simp add: lh_inv_def placed_def)
  have sub: "mset ?xs \<subseteq># lh_data lh"
    using mset_concat_update [OF i, of "[]"] unfolding lh_data_def
    by (metis add.right_neutral image_mset_union mset.simps(1) mset_map mset_subset_eq_add_right)
  have "size (filter_mset ?t (mset ?xs)) \<le> 1"
    using one assms(2) size_mset_mono [OF multiset_filter_mono [OF sub]] le_trans by (fastforce simp: one_per_key_def)
  then have "find ?t ?xs = Some d \<longleftrightarrow> lh_entry cmp lh k = Some d" for d
    using find_unique [of ?t ?xs d] lh_entry_iff [OF one assms(2), of d] bucket_of [OF assms, of d] mset_subset_eqD [OF sub, of d]
    by auto
  then show ?thesis by (metis option.exhaust)
qed

end

lemma lh_new_inv:
  assumes "OPENSSL_lh_new al hf cf = (Some lh, al')"
  shows "lh_inv h cmp P lh \<and> lh_data lh = {#} \<and> lh_hash lh = hf \<and> lh_comp lh = cf \<and> callback_depth lh = 0"
proof -
  have lh: "lh = \<lparr>num_items = 0, buckets = replicate kMinNumBuckets [], num_buckets = kMinNumBuckets,
                  callback_depth = 0, lh_comp = cf, lh_hash = hf\<rparr>"
    using assms by (auto simp: OPENSSL_lh_new_def split: prod.splits option.splits)
  show ?thesis
    unfolding lh by (simp add: lh_inv_def placed_def lh_data_def one_per_key_def kMinNumBuckets_def size_max1_def)
qed

subsection \<open>Resizing moves the items and changes nothing else\<close>

lemma rebucket_fold:
  assumes "0 < n" and "placed h P n bs" and "\<And>it. it \<in> set xs \<Longrightarrow> P (item_data it) \<and> item_hash it = h (item_data it)"
  defines "push \<equiv> (\<lambda>bs cur. let b = unat (item_hash cur) mod n in bs[b := cur # bs ! b])"
  shows "placed h P n (foldl push bs xs) \<and> mset (concat (foldl push bs xs)) = mset (concat bs) + mset xs"
  using assms(2,3)
proof (induction xs arbitrary: bs)
  case (Cons x xs)
  define b where "b = unat (item_hash x) mod n"
  have b: "b < length bs" using Cons.prems(1) assms(1) by (simp add: placed_def b_def)
  have x: "item_ok h P n b x" using Cons.prems(2) [of x] by (simp add: item_ok_def b_def)
  have "\<forall>it \<in> set (bs ! b). item_ok h P n b it" using Cons.prems(1) b by (simp add: placed_def)
  then have "placed h P n (bs[b := x # bs ! b])" using x by (intro placed_update [OF Cons.prems(1)]) auto
  moreover have "mset (concat (bs[b := x # bs ! b])) = mset (concat bs) + {#x#}"
    using mset_concat_update [OF b, of "x # bs ! b"] by simp
  ultimately show ?case
    using Cons.IH [of "bs[b := x # bs ! b]"] Cons.prems(2) by (simp add: push_def b_def Let_def)
qed simp

lemma items_ok:
  assumes "placed h P n bs" and "it \<in> set (concat bs)"
  shows "P (item_data it) \<and> item_hash it = h (item_data it)"
proof -
  obtain i where "i < length bs" "it \<in> set (bs ! i)" using assms(2) by (auto simp: in_set_conv_nth [of _ bs])
  then have "item_ok h P n i it" using assms(1) by (simp add: placed_def)
  then show ?thesis by (simp add: item_ok_def)
qed

lemma rebucket_inv:
  assumes "lh_inv h cmp P lh" and "kMinNumBuckets \<le> n" and "lh_rebucket al lh n = (lh', al')" and "n < size_max1"
  shows "lh_inv h cmp P lh' \<and> lh_data lh' = lh_data lh \<and> lh_hash lh' = lh_hash lh \<and> lh_comp lh' = lh_comp lh \<and>
    callback_depth lh' = callback_depth lh \<and> num_items lh' = num_items lh"
proof (cases "lh' = lh")
  case False
  let ?push = "\<lambda>bs cur. let b = unat (item_hash cur) mod n in bs[b := cur # bs ! b]"
  let ?new = "foldl ?push (replicate n []) (concat (buckets lh))"
  have "size_mul 8 n div 8 = n" and lh': "lh' = lh\<lparr>num_buckets := n, buckets := ?new\<rparr>"
    using assms(3) False by (auto simp: lh_rebucket_def Let_def split: if_splits prod.splits option.splits)
  then have n8: "n * 8 < size_max1"
    using size_mul_div_eq_iff [of 8 n] assms(4) by (simp add: size_mul_def mult.commute)
  have pl: "placed h P (num_buckets lh) (buckets lh)" using assms(1) by (simp add: lh_inv_def)
  have "placed h P n ?new \<and> mset (concat ?new) = mset (concat (replicate n [])) + mset (concat (buckets lh))"
    using assms(2) items_ok [OF pl] by (intro rebucket_fold) (auto simp: kMinNumBuckets_def placed_def)
  then have new: "placed h P n ?new" "mset (concat ?new) = mset (concat (buckets lh))" by simp_all
  then have d: "lh_data lh' = lh_data lh" unfolding lh' lh_data_def mset_map by simp
  show ?thesis
    using assms(1,2) n8 new(1) d by (simp add: lh_inv_def) (simp add: lh')
qed (use assms in simp)

lemma maybe_resize_inv:
  assumes "lh_inv h cmp P lh" and "lh_maybe_resize al lh = (lh', al')"
  shows "lh_inv h cmp P lh' \<and> lh_data lh' = lh_data lh \<and> lh_hash lh' = lh_hash lh \<and> lh_comp lh' = lh_comp lh \<and>
    callback_depth lh' = callback_depth lh \<and> num_items lh' = num_items lh"
proof -
  have n: "num_buckets lh < size_max1" "kMinNumBuckets \<le> num_buckets lh" using assms(1) by (simp_all add: lh_inv_def)
  define up where "up = size_mul (num_buckets lh) 2"
  define down where "down = (if num_buckets lh div 2 < kMinNumBuckets then kMinNumBuckets else num_buckets lh div 2)"
  have "kMinNumBuckets \<le> down" "down < size_max1" "up < size_max1"
    using n by (auto simp: down_def up_def less_imp_diff_less)
  moreover have "lh' = lh \<or> (num_buckets lh < up \<and> lh_rebucket al lh up = (lh', al')) \<or> lh_rebucket al lh down = (lh', al')"
    using assms(2) by (auto simp: lh_maybe_resize_def Let_def up_def down_def split: if_splits)
  ultimately consider "lh' = lh" | m where "kMinNumBuckets \<le> m" "m < size_max1" "lh_rebucket al lh m = (lh', al')"
    using n(2) by (metis le_trans less_imp_le)
  then show ?thesis
  proof cases
    case 1
    then show ?thesis using assms(1) by simp
  next
    case 2
    then show ?thesis using rebucket_inv [OF assms(1) 2(1,3,2)] by simp
  qed
qed

subsection \<open>The operations on the data\<close>

definition without :: "'d option \<Rightarrow> 'd multiset \<Rightarrow> 'd multiset" where
  "without old M = (case old of None \<Rightarrow> M | Some x \<Rightarrow> M - {#x#})"

lemma without_other: "x \<in># M \<Longrightarrow> old \<noteq> Some x \<Longrightarrow> x \<in># without old M"
  by (auto simp: without_def in_diff_count split: option.splits)

lemma without_sub: "without old M \<subseteq># M"
  by (auto simp: without_def split: option.splits)

lemma filter_one:
  assumes "one_per_key cmp P M" and "P k" and "d \<in># M" and "cmp d k = 0"
  shows "filter_mset (\<lambda>x. cmp x k = 0) M = {#d#}"
proof -
  have "d \<in># filter_mset (\<lambda>x. cmp x k = 0) M" using assms(3,4) by simp
  then obtain N where N: "filter_mset (\<lambda>x. cmp x k = 0) M = add_mset d N" by (metis multi_member_split)
  moreover have "size (filter_mset (\<lambda>x. cmp x k = 0) M) \<le> 1" using assms(1,2) by (simp add: one_per_key_def)
  ultimately show ?thesis by simp
qed

context hash_keys
begin

lemma one_per_key_add:
  assumes "one_per_key cmp P M" and "P d" and "\<forall>x \<in># M. P x" and "\<forall>x \<in># M. cmp x d \<noteq> 0"
  shows "one_per_key cmp P (add_mset d M)"
  unfolding one_per_key_def
proof (intro allI impI)
  fix k assume k: "P k"
  show "size (filter_mset (\<lambda>x. cmp x k = 0) (add_mset d M)) \<le> 1"
  proof (cases "cmp d k = 0")
    case False
    then show ?thesis using assms(1) k by (simp add: one_per_key_def)
  next
    case True
    have "cmp x k \<noteq> 0" if "x \<in># M" for x
    proof
      assume "cmp x k = 0"
      then have "cmp x d = 0" using key_trans [of x k d] key_sym [OF assms(2) k True] assms(2,3) k that by blast
      then show False using assms(4) that by blast
    qed
    then have "filter_mset (\<lambda>x. cmp x k = 0) M = {#}" by (simp add: filter_mset_eq_conv)
    then show ?thesis using True by simp
  qed
qed

lemma one_per_key_sub: "one_per_key cmp P M \<Longrightarrow> N \<subseteq># M \<Longrightarrow> one_per_key cmp P N"
  unfolding one_per_key_def by (meson le_trans multiset_filter_mono size_mset_mono)

lemma lh_data_P: "lh_inv h cmp P lh \<Longrightarrow> x \<in># lh_data lh \<Longrightarrow> P x"
  using items_ok by (fastforce simp: lh_inv_def lh_data_def)

text \<open>Removing the entry of a key removes all that is equal to it.\<close>

lemma removed_key:
  assumes "lh_inv h cmp P lh" and "P d" and "old \<in># lh_data lh" and "cmp old d = 0" and "x \<in># lh_data lh - {#old#}"
  shows "cmp x d \<noteq> 0"
proof
  assume "cmp x d = 0"
  have one: "one_per_key cmp P (lh_data lh)" using assms(1) by (simp add: lh_inv_def)
  have "filter_mset (\<lambda>x. cmp x d = 0) (lh_data lh - {#old#}) = {#}"
    using filter_one [where cmp = cmp, OF one assms(2,3,4)] assms(4) by simp
  moreover have "x \<in># filter_mset (\<lambda>x. cmp x d = 0) (lh_data lh - {#old#})" 
    using assms(5) \<open>cmp x d = 0\<close> unfolding set_mset_filter by simp
  ultimately show False by simp
qed

text \<open>The entries after an insertion and after a deletion, from the data alone.\<close>

lemma without_key:
  assumes "lh_inv h cmp P lh" and "P d" and "x \<in># without (lh_entry cmp lh d) (lh_data lh)"
  shows "x \<in># lh_data lh \<and> cmp x d \<noteq> 0"
proof -
  have one: "one_per_key cmp P (lh_data lh)" using assms(1) by (simp add: lh_inv_def)
  show ?thesis
  proof (cases "lh_entry cmp lh d")
    case None
    then have "\<not> (x \<in># lh_data lh \<and> cmp x d = 0)" using lh_entry_iff [OF one assms(2), of x] by simp
    then show ?thesis using assms(3) None by (simp add: without_def)
  next
    case (Some e)
    then have "e \<in># lh_data lh" "cmp e d = 0" using lh_entry_iff [OF one assms(2), of e] by auto
    then show ?thesis
      using removed_key [OF assms(1,2), of e x] assms(3) Some by (auto simp: without_def dest: in_diffD)
  qed
qed

lemma same_class:
  assumes "lh_inv h cmp P lh" "P d" "P k" "cmp d k = 0" "x \<in># lh_data lh" "cmp x k = 0"
  shows "cmp x d = 0"
  using key_trans [of x k d] key_sym [OF assms(2,3,4)] lh_data_P [OF assms(1,5)] assms by blast

lemma entry_after_insert:
  assumes "lh_inv h cmp P lh" and "P d" and "P k" and one': "one_per_key cmp P (lh_data lh')"
    and "lh_data lh' = add_mset d (without (lh_entry cmp lh d) (lh_data lh))"
  shows "lh_entry cmp lh' k = (if cmp d k = 0 then Some d else lh_entry cmp lh k)"
proof (cases "cmp d k = 0")
  case True
  then show ?thesis using lh_entry_iff [OF one' assms(3), of d] assms(5) by simp
next
  case False
  have one: "one_per_key cmp P (lh_data lh)" using assms(1) by (simp add: lh_inv_def)
  have "x \<in># lh_data lh' \<and> cmp x k = 0 \<longleftrightarrow> x \<in># lh_data lh \<and> cmp x k = 0" for x
  proof
    assume "x \<in># lh_data lh' \<and> cmp x k = 0"
    then show "x \<in># lh_data lh \<and> cmp x k = 0" using False assms(5) without_key [OF assms(1,2), of x] by auto
  next
    assume x: "x \<in># lh_data lh \<and> cmp x k = 0"
    have "lh_entry cmp lh d \<noteq> Some x"
    proof
      assume "lh_entry cmp lh d = Some x"
      then have "cmp x d = 0" using lh_entry_iff [OF one assms(2)] by simp
      then have "cmp d k = 0"
        using x key_trans [of d x k] key_sym [of x d] lh_data_P [OF assms(1), of x] assms(2,3) by blast
      then show False using False by simp
    qed
    then show "x \<in># lh_data lh' \<and> cmp x k = 0" using x assms(5) without_other by fastforce
  qed
  then have "lh_entry cmp lh' k = lh_entry cmp lh k" by (intro lh_entry_eqI [OF one' one assms(3)]) simp
  then show ?thesis using False by simp
qed

lemma entry_after_delete:
  assumes "lh_inv h cmp P lh" and "P d" and "P k"
    and "lh_data lh' = without (lh_entry cmp lh d) (lh_data lh)"
  shows "lh_entry cmp lh' k = (if cmp d k = 0 then None else lh_entry cmp lh k)"
proof -
  have one: "one_per_key cmp P (lh_data lh)" using assms(1) by (simp add: lh_inv_def)
  have one': "one_per_key cmp P (lh_data lh')" unfolding assms(4) by (rule one_per_key_sub [OF one without_sub])
  have "lh_entry cmp lh' k = Some x \<longleftrightarrow> cmp d k \<noteq> 0 \<and> lh_entry cmp lh k = Some x" for x
  proof -
    have "x \<in># lh_data lh' \<and> cmp x k = 0 \<longleftrightarrow> cmp d k \<noteq> 0 \<and> x \<in># lh_data lh \<and> cmp x k = 0"
    proof
      assume x: "x \<in># lh_data lh' \<and> cmp x k = 0"
      then have "x \<in># lh_data lh" "cmp x d \<noteq> 0" using without_key [OF assms(1,2), of x] assms(4) by auto
      then show "cmp d k \<noteq> 0 \<and> x \<in># lh_data lh \<and> cmp x k = 0" using x same_class [OF assms(1,2,3)] by blast
    next
      assume x: "cmp d k \<noteq> 0 \<and> x \<in># lh_data lh \<and> cmp x k = 0"
      have "lh_entry cmp lh d \<noteq> Some x"
      proof
        assume "lh_entry cmp lh d = Some x"
        then have "cmp x d = 0" using lh_entry_iff [OF one assms(2)] by simp
        then show False using x key_trans [of d x k] key_sym [of x d] lh_data_P [OF assms(1), of x] assms(2,3) by blast
      qed
      then show "x \<in># lh_data lh' \<and> cmp x k = 0" using x assms(4) without_other by fastforce
    qed
    then show ?thesis using lh_entry_iff [OF one' assms(3)] lh_entry_iff [OF one assms(3)] by simp
  qed
  then show ?thesis by (metis option.exhaust)
qed

end

lemma slot_entry:
  assumes "hash_keys (ch (lh_hash lh)) (cc (lh_comp lh)) P" and "lh_inv (ch (lh_hash lh)) (cc (lh_comp lh)) P lh" and "P k"
    and g: "get_next_ptr_and_hash ch cc lh k = ((i, j), hash)"
  shows "map_option item_data (slot_item lh (i, j)) = lh_entry (cc (lh_comp lh)) lh k" and "hash = ch (lh_hash lh) k"
    and "i = unat (ch (lh_hash lh) k) mod num_buckets lh" and "i < length (buckets lh)" and "j \<le> length (buckets lh ! i)"
proof -
  show hash: "hash = ch (lh_hash lh) k" and i: "i = unat (ch (lh_hash lh) k) mod num_buckets lh"
    using g by (auto simp: get_next_ptr_and_hash_def Let_def)
  have j: "j = chain_pos (\<lambda>x. cc (lh_comp lh) x k = 0) (buckets lh ! i)"
    using g by (auto simp: get_next_ptr_and_hash_def Let_def)
  have "map_option item_data (slot_item lh (i, j)) = find (\<lambda>x. cc (lh_comp lh) x k = 0) (map item_data (buckets lh ! i))"
    unfolding chain_pos_find j by (simp add: slot_item_def)
  then show "map_option item_data (slot_item lh (i, j)) = lh_entry (cc (lh_comp lh)) lh k"
    using hash_keys.retrieve_bucket [OF assms(1-3)] unfolding i [symmetric] by simp
  show "i < length (buckets lh)" using lh_inv_pos [OF assms(2)] assms(2) i by (simp add: lh_inv_def placed_def)
  show "j \<le> length (buckets lh ! i)" unfolding j by (rule chain_pos_le)
qed

lemma retrieve_spec:
  assumes "hash_keys (ch (lh_hash lh)) (cc (lh_comp lh)) P" and "lh_inv (ch (lh_hash lh)) (cc (lh_comp lh)) P lh" and "P k"
  shows "OPENSSL_lh_retrieve ch cc lh k = lh_entry (cc (lh_comp lh)) lh k"
proof -
  obtain i j hash where g: "get_next_ptr_and_hash ch cc lh k = ((i, j), hash)" by (metis surj_pair)
  show ?thesis using slot_entry(1) [OF assms g] g by (simp add: OPENSSL_lh_retrieve_def)
qed

text \<open>A change of one bucket.\<close>

lemma lh_data_update:
  assumes "i < length (buckets lh)"
  shows "lh_data (lh\<lparr>buckets := (buckets lh)[i := c]\<rparr>) + mset (map item_data (buckets lh ! i)) = lh_data lh + mset (map item_data c)"
  using arg_cong [OF mset_concat_update [OF assms, of c], of "image_mset item_data"] by (simp add: lh_data_def)

lemma lh_data_more [simp]:
  "lh_data (lh\<lparr>num_items := n\<rparr>) = lh_data lh" "lh_data (lh\<lparr>callback_depth := dp\<rparr>) = lh_data lh"
  "lh_data (lh\<lparr>buckets := bs, num_items := n\<rparr>) = lh_data (lh\<lparr>buckets := bs\<rparr>)"
  by (simp_all add: lh_data_def)

lemma bucket_change:
  assumes "i < length (buckets lh)"
    and "mset (map item_data c) + R = mset (map item_data (buckets lh ! i)) + A"
  shows "lh_data (lh\<lparr>buckets := (buckets lh)[i := c]\<rparr>) + R = lh_data lh + A"
proof -
  let ?b = "mset (map item_data (buckets lh ! i))"
  have "(lh_data (lh\<lparr>buckets := (buckets lh)[i := c]\<rparr>) + R) + ?b = lh_data lh + (mset (map item_data c) + R)"
    using lh_data_update [OF assms(1), of c] by (simp add: union_ac)
  also have "\<dots> = (lh_data lh + A) + ?b" unfolding assms(2) by (simp add: union_ac)
  finally show ?thesis by (rule add_right_imp_eq)
qed

lemma replace_in_chain:
  assumes "j < length xs"
  shows "mset (map item_data (xs[j := it\<lparr>item_data := d\<rparr>])) + {#item_data (xs ! j)#} = mset (map item_data xs) + {#d#}"
  using assms by (simp add: map_update mset_update)

lemma inv_with_data:
  assumes "lh_inv h cmp P lh" and "placed h P (num_buckets lh) (buckets lh')" and "num_buckets lh' = num_buckets lh"
    and "num_items lh' = size (lh_data lh')" and "one_per_key cmp P (lh_data lh')"
  shows "lh_inv h cmp P lh'"
  using assms by (simp add: lh_inv_def)

lemma insert_spec:
  assumes hk: "hash_keys (ch (lh_hash lh)) (cc (lh_comp lh)) P" and inv: "lh_inv (ch (lh_hash lh)) (cc (lh_comp lh)) P lh"
    and d: "P d" and room: "num_items lh + 1 < size_max1"
    and ins: "OPENSSL_lh_insert ch cc al lh d = (ok, old, lh', al')"
  shows "if ok then lh_inv (ch (lh_hash lh)) (cc (lh_comp lh)) P lh' \<and> old = lh_entry (cc (lh_comp lh)) lh d \<and>
           lh_data lh' = add_mset d (without old (lh_data lh)) \<and> lh_hash lh' = lh_hash lh \<and> lh_comp lh' = lh_comp lh \<and>
           callback_depth lh' = callback_depth lh
         else lh' = lh \<and> old = None \<and> \<not> never_fails al"
proof -
  define h where "h = ch (lh_hash lh)"
  define cmp where "cmp = cc (lh_comp lh)"
  note hk = hk [folded h_def cmp_def] and inv = inv [folded h_def cmp_def]
  obtain i j hash where g: "get_next_ptr_and_hash ch cc lh d = ((i, j), hash)" by (metis surj_pair)
  have ent: "map_option item_data (slot_item lh (i, j)) = lh_entry cmp lh d" and hash: "hash = h d"
    and i: "i = unat (h d) mod num_buckets lh" and il: "i < length (buckets lh)"
    using slot_entry [OF hk [unfolded h_def cmp_def] inv [unfolded h_def cmp_def] d g] by (simp_all add: h_def cmp_def)
  have pl: "placed h P (num_buckets lh) (buckets lh)" and one: "one_per_key cmp P (lh_data lh)"
    using inv by (simp_all add: lh_inv_def)
  have okb: "\<forall>it \<in> set (buckets lh ! i). item_ok h P (num_buckets lh) i it"
    using pl il by (simp add: placed_def)
  have wk: "\<forall>x \<in># without (lh_entry cmp lh d) (lh_data lh). P x \<and> cmp x d \<noteq> 0"
    using hash_keys.without_key [OF hk inv d] hash_keys.lh_data_P [OF hk inv] by blast
  have one': "one_per_key cmp P (add_mset d (without (lh_entry cmp lh d) (lh_data lh)))"
    using wk by (intro hash_keys.one_per_key_add [OF hk _ d] hash_keys.one_per_key_sub [OF hk one without_sub]) auto
  show ?thesis
  proof (cases "slot_item lh (i, j)")
    case (Some it)
    define c where "c = (buckets lh ! i)[j := it\<lparr>item_data := d\<rparr>]"
    have j: "j < length (buckets lh ! i)" "it = buckets lh ! i ! j" using Some by (simp_all add: slot_item_def split: if_splits)
    have r: "ok" "old = Some (item_data it)" "lh' = lh\<lparr>buckets := (buckets lh)[i := c]\<rparr>"
      using ins g Some by (simp_all add: OPENSSL_lh_insert_def c_def)
    have e: "lh_entry cmp lh d = Some (item_data it)" using ent Some by simp
    then have it: "item_data it \<in># lh_data lh" "cmp (item_data it) d = 0" using lh_entry_iff [OF one d] by simp_all
    have iok: "item_ok h P (num_buckets lh) i it" using okb j by simp
    then have "item_hash it = h d" using hash_keys.key_hash [OF hk _ d it(2)] unfolding item_ok_def by simp
    then have "item_ok h P (num_buckets lh) i (it\<lparr>item_data := d\<rparr>)" using d i by (simp add: item_ok_def)
    then have pl': "placed h P (num_buckets lh) ((buckets lh)[i := c])"
      using okb set_update_subset_insert [of "buckets lh ! i" j "it\<lparr>item_data := d\<rparr>"]
      by (intro placed_update [OF pl]) (auto simp: c_def)
    have "lh_data lh' + {#item_data it#} = lh_data lh + {#d#}"
      unfolding r(3) using replace_in_chain [OF j(1), where it = it and d = d] j(2) by (intro bucket_change [OF il]) (simp add: c_def)
    then have data: "lh_data lh' = add_mset d (without old (lh_data lh))"
      using it(1) unfolding r(2) without_def by (metis add_diff_cancel_right' diff_union_swap2 option.simps(5) add_mset_add_single)
    moreover have "num_items lh = size (lh_data lh)" using inv by (simp add: lh_inv_def)
    ultimately have "num_items lh' = size (lh_data lh')"
      using it(1) r(3) by (simp add: r(2) without_def size_Diff_singleton) (metis Suc_pred size_eq_0_iff_empty empty_iff gr0I set_mset_empty)
    then have "lh_inv h cmp P lh'"
      using one' data pl' e r by (intro inv_with_data [OF inv]) simp_all
    then show ?thesis using r e data by (simp add: h_def cmp_def)
  next
    case None
    define c where "c = buckets lh ! i @ [\<lparr>item_data = d, item_hash = hash\<rparr>]"
    define lh1 where "lh1 = lh\<lparr>buckets := (buckets lh)[i := c], num_items := num_items lh + 1\<rparr>"
    have e: "lh_entry cmp lh d = None" using ent None by simp
    show ?thesis
    proof (cases "OPENSSL_malloc al 24")
      case (Pair m al1)
      show ?thesis
      proof (cases m)
        case m: None
        have "\<not> never_fails al"
        proof
          assume "never_fails al"
          then obtain p al2 where "OPENSSL_malloc al 24 = (Some p, al2)"
            by (rule OPENSSL_malloc_total [of al 24]) (simp_all add: size_max1_def)
          then show False using Pair m by simp
        qed
        then show ?thesis using ins g None Pair m by (simp add: OPENSSL_lh_insert_def)
      next
        case (Some p)
        have "size_add (num_items lh) 1 = num_items lh + 1" using room by (simp add: size_add_noover)
        then have res: "ok" "old = None" "lh_maybe_resize al1 lh1 = (lh', al')"
          using ins g None Pair Some by (auto simp: OPENSSL_lh_insert_def lh1_def c_def split: prod.splits)
        have "item_ok h P (num_buckets lh) i \<lparr>item_data = d, item_hash = hash\<rparr>" using d i hash by (simp add: item_ok_def)
        then have pl': "placed h P (num_buckets lh) ((buckets lh)[i := c])"
          using okb by (intro placed_update [OF pl]) (auto simp: c_def)
        have "lh_data (lh\<lparr>buckets := (buckets lh)[i := c]\<rparr>) + {#} = lh_data lh + {#d#}"
          by (rule bucket_change [OF il]) (simp add: c_def)
        then have data: "lh_data lh1 = add_mset d (lh_data lh)" by (simp add: lh1_def)
        then have "lh_inv h cmp P lh1"
          using one' pl' e inv by (intro inv_with_data [OF inv]) (simp_all add: lh1_def without_def lh_inv_def)
        then show ?thesis
          using maybe_resize_inv [OF _ res(3)] res(1,2) e data by (simp add: h_def cmp_def without_def lh1_def)
      qed
    qed
  qed
qed

lemma delete_spec:
  assumes hk: "hash_keys (ch (lh_hash lh)) (cc (lh_comp lh)) P" and inv: "lh_inv (ch (lh_hash lh)) (cc (lh_comp lh)) P lh"
    and d: "P d" and del: "OPENSSL_lh_delete ch cc al lh d = (old, lh', al')"
  shows "lh_inv (ch (lh_hash lh)) (cc (lh_comp lh)) P lh' \<and> old = lh_entry (cc (lh_comp lh)) lh d \<and>
    lh_data lh' = without old (lh_data lh) \<and> lh_hash lh' = lh_hash lh \<and> lh_comp lh' = lh_comp lh \<and>
    callback_depth lh' = callback_depth lh"
proof -
  define h where "h = ch (lh_hash lh)"
  define cmp where "cmp = cc (lh_comp lh)"
  note hk = hk [folded h_def cmp_def] and inv = inv [folded h_def cmp_def]
  obtain i j hash where g: "get_next_ptr_and_hash ch cc lh d = ((i, j), hash)" by (metis surj_pair)
  have ent: "map_option item_data (slot_item lh (i, j)) = lh_entry cmp lh d" and il: "i < length (buckets lh)"
    using slot_entry [OF hk [unfolded h_def cmp_def] inv [unfolded h_def cmp_def] d g] by (simp_all add: h_def cmp_def)
  have pl: "placed h P (num_buckets lh) (buckets lh)" and one: "one_per_key cmp P (lh_data lh)"
    using inv by (simp_all add: lh_inv_def)
  have okb: "\<forall>it \<in> set (buckets lh ! i). item_ok h P (num_buckets lh) i it"
    using pl il by (simp add: placed_def)
  show ?thesis
  proof (cases "slot_item lh (i, j)")
    case None
    then have "lh' = lh" "old = None" using del g by (simp_all add: OPENSSL_lh_delete_def)
    then show ?thesis using inv ent None by (simp add: h_def cmp_def without_def)
  next
    case (Some it)
    define c where "c = take j (buckets lh ! i) @ drop (Suc j) (buckets lh ! i)"
    define lh1 where "lh1 = lh\<lparr>buckets := (buckets lh)[i := c], num_items := num_items lh - 1\<rparr>"
    have j: "j < length (buckets lh ! i)" "it = buckets lh ! i ! j" using Some by (simp_all add: slot_item_def split: if_splits)
    have res: "old = Some (item_data it)" "lh_maybe_resize al lh1 = (lh', al')"
      using del g Some by (auto simp: OPENSSL_lh_delete_def lh1_def c_def split: prod.splits)
    have e: "lh_entry cmp lh d = Some (item_data it)" using ent Some by simp
    then have it: "item_data it \<in># lh_data lh" using lh_entry_iff [OF one d] by simp
    have pl': "placed h P (num_buckets lh) ((buckets lh)[i := c])"
      using okb by (intro placed_update [OF pl]) (auto simp: c_def dest: in_set_takeD in_set_dropD)
    have "lh_data (lh\<lparr>buckets := (buckets lh)[i := c]\<rparr>) + {#item_data it#} = lh_data lh + {#}"
      using mset_remove_nth [OF j(1), of item_data] by (intro bucket_change [OF il]) (simp add: c_def j(2))
    then have data: "add_mset (item_data it) (lh_data lh1) = lh_data lh" by (simp add: lh1_def)
    then have data': "lh_data lh1 = without old (lh_data lh)" by (simp add: res(1) without_def flip: data)
    have "num_items lh = size (lh_data lh)" using inv by (simp add: lh_inv_def)
    then have "num_items lh1 = size (lh_data lh1)" by (simp add: lh1_def flip: data)
    moreover have "one_per_key cmp P (lh_data lh1)"
      unfolding data' by (rule hash_keys.one_per_key_sub [OF hk one without_sub])
    ultimately have "lh_inv h cmp P lh1" using pl' by (intro inv_with_data [OF inv]) (simp_all add: lh1_def)
    then show ?thesis
      using maybe_resize_inv [OF _ res(2)] res(1) e data' by (simp add: h_def cmp_def lh1_def)
  qed
qed

section \<open>Strings as keys\<close>

text \<open>\<open>OPENSSL_strhash\<close> and \<open>strcmp\<close> meet the contract on terminated strings.\<close>

interpretation strings: hash_keys OPENSSL_strhash c_strcmp "\<lambda>s. 0 \<in> set s"
  by unfold_locales (simp_all add: c_strcmp_eq_0_iff OPENSSL_strhash_c_str)

section \<open>Reachable tables\<close>

text \<open>The callback's world is here a list of data, for instance the ones it was called with.\<close>

inductive lh_reach ::
  "('h \<Rightarrow> 'd \<Rightarrow> uint32) \<Rightarrow> ('c \<Rightarrow> 'd \<Rightarrow> 'd \<Rightarrow> int) \<Rightarrow> 'h \<Rightarrow> 'c \<Rightarrow> ('d \<Rightarrow> bool) \<Rightarrow> ('d, 'h, 'c) lhash \<Rightarrow> bool"
  for ch :: "'h \<Rightarrow> 'd \<Rightarrow> uint32" and cc :: "'c \<Rightarrow> 'd \<Rightarrow> 'd \<Rightarrow> int" and hf :: 'h and cf :: 'c and P :: "'d \<Rightarrow> bool" where
  new: "OPENSSL_lh_new al hf cf = (Some lh, al') \<Longrightarrow> lh_reach ch cc hf cf P lh"
| insert: "lh_reach ch cc hf cf P lh \<Longrightarrow> P d \<Longrightarrow> num_items lh + 1 < size_max1 \<Longrightarrow>
    OPENSSL_lh_insert ch cc al lh d = (ok, old, lh', al') \<Longrightarrow> lh_reach ch cc hf cf P lh'"
| delete: "lh_reach ch cc hf cf P lh \<Longrightarrow> P d \<Longrightarrow> OPENSSL_lh_delete ch cc al lh d = (old, lh', al') \<Longrightarrow>
    lh_reach ch cc hf cf P lh'"
| doall: "lh_reach ch cc hf cf P lh \<Longrightarrow> OPENSSL_lh_doall_arg al (Some lh) func (w :: 'd list) = (w', Some lh', al') \<Longrightarrow>
    lh_reach ch cc hf cf P lh'"

lemma doall_spec:
  assumes "lh_inv h cmp P lh" and "callback_depth lh = 0" and "OPENSSL_lh_doall_arg al (Some lh) func w = (w', Some lh', al')"
  shows "lh_inv h cmp P lh' \<and> lh_data lh' = lh_data lh \<and> lh_hash lh' = lh_hash lh \<and> lh_comp lh' = lh_comp lh \<and>
    callback_depth lh' = 0 \<and> w' = foldl (\<lambda>w d. func d w) w (map item_data (concat (buckets lh)))"
proof -
  have lt: "(0 :: uint32) < - 1" "(1 :: uint32) < - 1" by (simp_all add: word_less_nat_alt unsigned_minus_1_eq_mask mask_eq_exp_minus_1)
  have same: "lh\<lparr>callback_depth := 0\<rparr> = lh" using assms(2) by (cases lh) simp
  have "lh_maybe_resize al lh = (lh', al')" and w: "w' = foldl (\<lambda>w cur. func (item_data cur) w) w (concat (buckets lh))"
    using assms(2,3) lt by (auto simp: OPENSSL_lh_doall_arg_def Let_def same split: prod.splits)
  moreover have "foldl (\<lambda>w cur. func (item_data cur) w) w xs = foldl (\<lambda>w d. func d w) w (map item_data xs)" for xs
    by (induction xs arbitrary: w) auto
  ultimately show ?thesis using maybe_resize_inv [OF assms(1), of al lh' al'] assms(2) by simp
qed

lemma lh_reach_inv:
  assumes "lh_reach ch cc hf cf P lh" and hk: "hash_keys (ch hf) (cc cf) P"
  shows "lh_inv (ch hf) (cc cf) P lh \<and> lh_hash lh = hf \<and> lh_comp lh = cf \<and> callback_depth lh = 0"
  using assms(1)
proof (induction rule: lh_reach.induct)
  case (new al lh al')
  then show ?case using lh_new_inv [OF new] by blast
next
  case (insert lh d al ok old lh' al')
  then show ?case using insert_spec [of ch lh cc P d al ok old lh' al'] hk by (cases ok) auto
next
  case (delete lh d al old lh' al')
  then show ?case using delete_spec [of ch lh cc P d al old lh' al'] hk by auto
next
  case (doall lh al func w w' lh' al')
  then show ?case using doall_spec [of "ch hf" "cc cf" P lh al func w w' lh' al'] by auto
qed

text \<open>The average chain stays at two items or less as long as memory is there.\<close>

lemma rebucket_total:
  assumes "never_fails al" and "n < 2 ^ 60"
  shows "\<exists>lh' al'. lh_rebucket al lh n = (lh', al') \<and> num_buckets lh' = n \<and> num_items lh' = num_items lh"
proof -
  have m: "size_mul 8 n = 8 * n" "8 * n + 8 < size_max1" using assms(2) by (simp_all add: size_mul_def size_max1_def)
  obtain p al' where "OPENSSL_malloc al (8 * n) = (Some p, al')" using OPENSSL_malloc_total [OF assms(1) m(2)] by blast
  then show ?thesis by (simp add: lh_rebucket_def m(1) Let_def)
qed

lemma div_le_2_iff: "0 < n \<Longrightarrow> m div n \<le> 2 \<longleftrightarrow> m < 3 * (n :: nat)"
  by (metis div_less_iff_less_mult less_Suc_eq_le numeral_3_eq_3 numeral_2_eq_2)

lemma maybe_resize_load:
  assumes "never_fails al" and "kMinNumBuckets \<le> num_buckets lh" and "num_buckets lh < 2 ^ 59" and "callback_depth lh = 0"
    and "num_items lh \<le> 3 * num_buckets lh" and r: "lh_maybe_resize al lh = (lh', al')"
  shows "num_items lh' div num_buckets lh' \<le> kMaxAverageChainLength"
proof -
  let ?n = "num_buckets lh" and ?m = "num_items lh"
  have n: "16 \<le> ?n" using assms(2) by (simp add: kMinNumBuckets_def)
  have mul: "size_mul ?n 2 = ?n * 2" using assms(3) by (simp add: size_mul_def size_max1_def)
  consider "?m div ?n > 2" | "?m div ?n < 1" "?n > 16" | "?m div ?n \<le> 2" "lh' = lh"
    using r assms(4) by (fastforce simp: lh_maybe_resize_def Let_def kMaxAverageChainLength_def kMinAverageChainLength_def
        kMinNumBuckets_def split: if_splits)
  then show ?thesis
  proof cases
    case 1
    obtain l a where "lh_rebucket al lh (?n * 2) = (l, a)" "num_buckets l = ?n * 2" "num_items l = ?m"
      using rebucket_total [OF assms(1), of "?n * 2" lh] assms(3) by auto
    then have "num_buckets lh' = ?n * 2" "num_items lh' = ?m"
      using r 1 assms(4) n by (auto simp: lh_maybe_resize_def Let_def kMaxAverageChainLength_def mul)
    then show ?thesis using assms(5) n by (simp add: kMaxAverageChainLength_def div_le_2_iff)
  next
    case 2
    define k where "k = (if ?n div 2 < 16 then 16 else ?n div 2)"
    have "k < 2 ^ 60" using assms(3) by (auto simp: k_def)
    then obtain l a where "lh_rebucket al lh k = (l, a)" "num_buckets l = k" "num_items l = ?m"
      using rebucket_total [OF assms(1), of k lh] by auto
    then have "num_buckets lh' = k" "num_items lh' = ?m"
      using r 2 assms(4) by (auto simp: lh_maybe_resize_def Let_def kMaxAverageChainLength_def kMinAverageChainLength_def
          kMinNumBuckets_def k_def split: if_splits)
    moreover have "?m < ?n" using 2(1) n by (simp add: div_eq_0_iff)
    moreover have "?n \<le> 2 * k + 1" "0 < k" using 2(2) by (auto simp: k_def)
    ultimately show ?thesis by (simp add: kMaxAverageChainLength_def div_le_2_iff)
  qed (simp add: kMaxAverageChainLength_def)
qed

text \<open>An empty table of strings and one with a string in it, for the witnesses.\<close>

definition string_table :: "byte list list \<Rightarrow> (byte list, unit, unit) lhash" where
  "string_table ss = fst (snd (snd (foldl (\<lambda>(ok, old, lh, al) s. OPENSSL_lh_insert (\<lambda>_. OPENSSL_strhash) (\<lambda>_. c_strcmp) al lh s)
     (True, None, \<lparr>num_items = 0, buckets = replicate 16 [], num_buckets = 16, callback_depth = 0, lh_comp = (), lh_hash = ()\<rparr>,
      plentiful) ss)))"

lemma string_table_0: "lh_reach (\<lambda>_. OPENSSL_strhash) (\<lambda>_. c_strcmp) () () (\<lambda>s. 0 \<in> set s) (string_table [])"
proof -
  obtain b1 al1 where 1: "OPENSSL_malloc plentiful 48 = (Some b1, al1)" "never_fails al1"
    by (rule OPENSSL_malloc_total [OF plentiful_never_fails, of 48]) (simp add: size_max1_def)
  obtain b2 al2 where 2: "OPENSSL_malloc al1 128 = (Some b2, al2)"
    by (rule OPENSSL_malloc_total [OF 1(2), of 128]) (simp add: size_max1_def)
  have "OPENSSL_lh_new plentiful () () = (Some (string_table []), al2)"
    using 1 2 by (simp add: OPENSSL_lh_new_def kMinNumBuckets_def string_table_def)
  then show ?thesis by (rule lh_reach.new)
qed

lemma string_table_1:
  assumes "0 \<in> set s"
  shows "lh_reach (\<lambda>_. OPENSSL_strhash) (\<lambda>_. c_strcmp) () () (\<lambda>s. 0 \<in> set s) (string_table [s])"
proof -
  obtain ok old lh al where i: "OPENSSL_lh_insert (\<lambda>_. OPENSSL_strhash) (\<lambda>_. c_strcmp) plentiful (string_table []) s = (ok, old, lh, al)"
    by (metis prod_cases4)
  then have "string_table [s] = lh" by (simp add: string_table_def)
  moreover have "num_items (string_table []) + 1 < size_max1" by (simp add: string_table_def size_max1_def)
  ultimately show ?thesis using lh_reach.insert [where P = "\<lambda>s. 0 \<in> set s", OF string_table_0 assms _ i] by simp
qed

section \<open>Properties\<close>

text \<open>C17: A reachable table is well-formed: every item is in the bucket of its hash, no two items are
  equal, and \<open>num_items\<close> counts them.\<close>

theorem lhash_reach_invariant:
  assumes "lh_reach ch cc hf cf P lh" and "hash_keys (ch hf) (cc cf) P"
  shows "lh_inv (ch hf) (cc cf) P lh \<and> OPENSSL_lh_num_items lh = size (lh_data lh) \<and>
    (\<forall>k. P k \<longrightarrow> OPENSSL_lh_retrieve ch cc lh k = lh_entry (cc cf) lh k)"
  using lh_reach_inv [OF assms] retrieve_spec [of ch lh cc P] assms(2)
  by (auto simp: OPENSSL_lh_num_items_def lh_inv_def)

theorem lhash_reach_invariant_witness:
  "lh_inv OPENSSL_strhash c_strcmp (\<lambda>s. 0 \<in> set s) (string_table [[0x61, 0]])"
  using lhash_reach_invariant [OF string_table_1 strings.hash_keys_axioms, of "[0x61, 0]"] by simp

text \<open>C18: The table is a map: after an insertion every key equal to \<open>d\<close> yields \<open>d\<close> and every other
  key yields what it did before, \<open>*old_data\<close> is the replaced entry, and an insertion that fails, for
  want of memory, changes nothing.\<close>

theorem lhash_insert_retrieve:
  assumes "lh_reach ch cc hf cf P lh" and "hash_keys (ch hf) (cc cf) P" and "P d" and "P k" and "num_items lh + 1 < size_max1"
    and "OPENSSL_lh_insert ch cc al lh d = (ok, old, lh', al')"
  shows "if ok then old = OPENSSL_lh_retrieve ch cc lh d \<and>
           OPENSSL_lh_retrieve ch cc lh' k = (if cc cf d k = 0 then Some d else OPENSSL_lh_retrieve ch cc lh k)
         else lh' = lh \<and> old = None \<and> \<not> never_fails al"
proof -
  note i = lh_reach_inv [OF assms(1,2)]
  have spec: "if ok then lh_inv (ch hf) (cc cf) P lh' \<and> old = lh_entry (cc cf) lh d \<and>
           lh_data lh' = add_mset d (without old (lh_data lh)) \<and> lh_hash lh' = hf \<and> lh_comp lh' = cf \<and> callback_depth lh' = 0
         else lh' = lh \<and> old = None \<and> \<not> never_fails al"
    using insert_spec [of ch lh cc P d al ok old lh' al'] i assms by (cases ok) auto
  show ?thesis
  proof (cases ok)
    case True
    then have s: "lh_inv (ch hf) (cc cf) P lh'" "old = lh_entry (cc cf) lh d"
      "lh_data lh' = add_mset d (without (lh_entry (cc cf) lh d) (lh_data lh))" "lh_hash lh' = hf" "lh_comp lh' = cf"
      using spec by auto
    have "lh_entry (cc cf) lh' k = (if cc cf d k = 0 then Some d else lh_entry (cc cf) lh k)"
      using hash_keys.entry_after_insert [OF assms(2) _ assms(3,4) _ s(3)] s(1) i by (simp add: lh_inv_def)
    then show ?thesis
      using True s retrieve_spec [of ch lh' cc P k] retrieve_spec [of ch lh cc P] i assms(2,3,4) by simp
  qed (use spec in simp)
qed

theorem lhash_insert_retrieve_witness:
  "case OPENSSL_lh_insert (\<lambda>_. OPENSSL_strhash) (\<lambda>_. c_strcmp) plentiful (string_table []) [0x61, 0] of
     (ok, old, lh', al') \<Rightarrow> ok \<and> OPENSSL_lh_retrieve (\<lambda>_. OPENSSL_strhash) (\<lambda>_. c_strcmp) lh' [0x61, 0, 7] = Some [0x61, 0]"
proof -
  obtain ok old lh al where i: "OPENSSL_lh_insert (\<lambda>_. OPENSSL_strhash) (\<lambda>_. c_strcmp) plentiful (string_table []) [0x61, 0] = (ok, old, lh, al)"
    by (metis prod_cases4)
  have "num_items (string_table []) + 1 < size_max1" by (simp add: string_table_def size_max1_def)
  then show ?thesis
    using lhash_insert_retrieve [OF string_table_0 strings.hash_keys_axioms _ _ _ i, of "[0x61, 0, 7]"] plentiful_never_fails
    by (auto simp: i split: if_splits)
qed

text \<open>After a deletion every key equal to \<open>d\<close> is gone and every other key yields what it did before;
  the entry removed is returned.\<close>

theorem lhash_delete_retrieve:
  assumes "lh_reach ch cc hf cf P lh" and "hash_keys (ch hf) (cc cf) P" and "P d" and "P k"
    and "OPENSSL_lh_delete ch cc al lh d = (old, lh', al')"
  shows "old = OPENSSL_lh_retrieve ch cc lh d \<and>
    OPENSSL_lh_retrieve ch cc lh' k = (if cc cf d k = 0 then None else OPENSSL_lh_retrieve ch cc lh k)"
proof -
  note i = lh_reach_inv [OF assms(1,2)]
  have s: "lh_inv (ch hf) (cc cf) P lh'" "old = lh_entry (cc cf) lh d"
      "lh_data lh' = without (lh_entry (cc cf) lh d) (lh_data lh)" "lh_hash lh' = hf" "lh_comp lh' = cf"
    using delete_spec [of ch lh cc P d al old lh' al'] i assms by auto
  have "lh_entry (cc cf) lh' k = (if cc cf d k = 0 then None else lh_entry (cc cf) lh k)"
    using hash_keys.entry_after_delete [OF assms(2) _ assms(3,4) s(3)] i by simp
  then show ?thesis
    using s retrieve_spec [of ch lh' cc P k] retrieve_spec [of ch lh cc P] i assms(2,3,4) by simp
qed

theorem lhash_delete_retrieve_witness:
  "case OPENSSL_lh_delete (\<lambda>_. OPENSSL_strhash) (\<lambda>_. c_strcmp) plentiful (string_table [[0x61, 0]]) [0x61, 0] of
     (old, lh', al') \<Rightarrow> OPENSSL_lh_retrieve (\<lambda>_. OPENSSL_strhash) (\<lambda>_. c_strcmp) lh' [0x61, 0] = None"
proof -
  obtain old lh al where d: "OPENSSL_lh_delete (\<lambda>_. OPENSSL_strhash) (\<lambda>_. c_strcmp) plentiful (string_table [[0x61, 0]]) [0x61, 0] = (old, lh, al)"
    by (metis prod_cases3)
  show ?thesis
    using lhash_delete_retrieve [OF string_table_1 strings.hash_keys_axioms _ _ d, of "[0x61, 0]"] by (simp add: d)
qed

text \<open>\<open>OPENSSL_lh_doall_arg\<close> calls the function once for every item and leaves the contents as they are.\<close>

theorem lhash_doall_visits:
  assumes "lh_reach ch cc hf cf P lh" and "hash_keys (ch hf) (cc cf) P"
    and "OPENSSL_lh_doall_arg al (Some lh) (\<lambda>d seen. seen @ [d]) [] = (seen, Some lh', al')"
  shows "mset seen = lh_data lh \<and> lh_data lh' = lh_data lh \<and> lh_inv (ch hf) (cc cf) P lh'"
proof -
  note i = lh_reach_inv [OF assms(1,2)]
  show ?thesis
    using doall_spec [of "ch hf" "cc cf" P lh al "\<lambda>d seen. seen @ [d]" "[]" seen lh' al'] i assms(3)
    by (auto simp: lh_data_def foldl_snoc)
qed

theorem lhash_doall_visits_witness:
  "case OPENSSL_lh_doall_arg plentiful (Some (string_table [])) (\<lambda>d seen. seen @ [d]) [] of
     (seen, lh', al') \<Rightarrow> seen = []"
proof -
  obtain seen r al where 1: "OPENSSL_lh_doall_arg plentiful (Some (string_table [])) (\<lambda>d seen. seen @ [d]) [] = (seen, r, al)"
    by (metis prod_cases3)
  then obtain lh where "r = Some lh" by (cases r) (simp_all add: OPENSSL_lh_doall_arg_def Let_def split: prod.splits)
  note d = 1 [unfolded this]
  have "lh_data (string_table []) = {#}" by (simp add: lh_data_def string_table_def)
  then show ?thesis using lhash_doall_visits [OF string_table_0 strings.hash_keys_axioms d] by (simp add: d)
qed

text \<open>With memory available the resizing keeps the average chain at no more than two items.\<close>

theorem lhash_load_bounded:
  assumes "lh_reach ch cc hf cf P lh" and "hash_keys (ch hf) (cc cf) P" and "P d" and "never_fails al"
    and "num_items lh div num_buckets lh \<le> kMaxAverageChainLength" and "num_buckets lh < 2 ^ 59"
    and "OPENSSL_lh_insert ch cc al lh d = (ok, old, lh', al')"
  shows "ok \<and> num_items lh' div num_buckets lh' \<le> kMaxAverageChainLength"
proof -
  have inv: "kMinNumBuckets \<le> num_buckets lh" "callback_depth lh = 0" "0 < num_buckets lh"
    using lh_reach_inv [OF assms(1,2)] by (auto simp: lh_inv_def kMinNumBuckets_def)
  then have m: "num_items lh < 3 * num_buckets lh" using assms(5) by (simp add: kMaxAverageChainLength_def div_le_2_iff)
  then have add: "size_add (num_items lh) 1 = Suc (num_items lh)" using assms(6) by (simp add: size_add_def size_max1_def)
  obtain p al1 where ml: "OPENSSL_malloc al 24 = (Some p, al1)" "never_fails al1"
    by (rule OPENSSL_malloc_total [OF assms(4), of 24]) (simp add: size_max1_def)
  obtain i j hash where g: "get_next_ptr_and_hash ch cc lh d = ((i, j), hash)" by (metis surj_pair)
  show ?thesis
  proof (cases "slot_item lh (i, j)")
    case (Some it)
    then have "ok" "num_items lh' = num_items lh" "num_buckets lh' = num_buckets lh"
      using assms(7) g by (auto simp: OPENSSL_lh_insert_def)
    then show ?thesis using assms(5) by simp
  next
    case None
    define lh1 where "lh1 = lh\<lparr>buckets := (buckets lh)[i := buckets lh ! i @ [\<lparr>item_data = d, item_hash = hash\<rparr>]],
      num_items := Suc (num_items lh)\<rparr>"
    have "ok" "lh_maybe_resize al1 lh1 = (lh', al')"
      using assms(7) g None ml add by (auto simp: OPENSSL_lh_insert_def lh1_def split: prod.splits)
    moreover have "num_items lh1 \<le> 3 * num_buckets lh1" "kMinNumBuckets \<le> num_buckets lh1" "num_buckets lh1 < 2 ^ 59"
      "callback_depth lh1 = 0" using m inv assms(6) by (simp_all add: lh1_def)
    ultimately show ?thesis using maybe_resize_load [OF ml(2)] by blast
  qed
qed

theorem lhash_load_bounded_witness:
  "case OPENSSL_lh_insert (\<lambda>_. OPENSSL_strhash) (\<lambda>_. c_strcmp) plentiful (string_table []) [0x61, 0] of
     (ok, old, lh', al') \<Rightarrow> ok \<and> num_items lh' div num_buckets lh' \<le> kMaxAverageChainLength"
proof -
  obtain ok old lh al where i: "OPENSSL_lh_insert (\<lambda>_. OPENSSL_strhash) (\<lambda>_. c_strcmp) plentiful (string_table []) [0x61, 0] = (ok, old, lh, al)"
    by (metis prod_cases4)
  show ?thesis
    using lhash_load_bounded [OF string_table_0 strings.hash_keys_axioms _ plentiful_never_fails _ _ i]
    by (simp add: i) (simp add: string_table_def)
qed

end
