(* ===== verification/Bio.thy ===== *)
theory Bio
  imports Mem
begin

text \<open>
  \<open>crypto/bio/bio.c\<close>: the front end of the I/O streams (BIOs): the fields and flags that
  all of them have and the calls that check them and go on to the method of the BIO.

  The \<open>ptr\<close> of a BIO has the type \<open>'p\<close> that its method keeps there, \<open>None\<close> for NULL. A
  method function is a parameter, \<open>None\<close> for a NULL entry of the method table. It works on
  a state of the type \<open>'s\<close>, of which the BIO is a part that \<open>get\<close> and \<open>upd\<close> read and
  change: a BIO pair's read also changes the peer. The chain of filter BIOs
  (\<open>next_bio\<close>), reference counts and the error queue are not modelled.
\<close>

definition BIO_FLAGS_READ :: uint32 where
  "BIO_FLAGS_READ = 0x01"

definition BIO_FLAGS_WRITE :: uint32 where
  "BIO_FLAGS_WRITE = 0x02"

definition BIO_FLAGS_IO_SPECIAL :: uint32 where
  "BIO_FLAGS_IO_SPECIAL = 0x04"

definition BIO_FLAGS_RWS :: uint32 where
  "BIO_FLAGS_RWS = BIO_FLAGS_READ OR BIO_FLAGS_WRITE OR BIO_FLAGS_IO_SPECIAL"

definition BIO_FLAGS_SHOULD_RETRY :: uint32 where
  "BIO_FLAGS_SHOULD_RETRY = 0x08"

definition BIO_FLAGS_MEM_RDONLY :: uint32 where
  "BIO_FLAGS_MEM_RDONLY = 0x200"

record 'p bio =
  bio_init :: int
  bio_shutdown :: int
  bio_flags :: uint32
  retry_reason :: int
  bio_num :: int
  bio_ptr :: "'p option"
  num_read :: nat
  num_write :: nat

section \<open>Flags\<close>

definition BIO_set_flags :: "'p bio \<Rightarrow> uint32 \<Rightarrow> 'p bio" where
  "BIO_set_flags bio flags = bio\<lparr>bio_flags := bio_flags bio OR flags\<rparr>"

definition BIO_test_flags :: "'p bio \<Rightarrow> uint32 \<Rightarrow> uint32" where
  "BIO_test_flags bio flags = bio_flags bio AND flags"

definition BIO_should_read :: "'p bio \<Rightarrow> uint32" where
  "BIO_should_read bio = BIO_test_flags bio BIO_FLAGS_READ"

definition BIO_should_write :: "'p bio \<Rightarrow> uint32" where
  "BIO_should_write bio = BIO_test_flags bio BIO_FLAGS_WRITE"

definition BIO_should_retry :: "'p bio \<Rightarrow> uint32" where
  "BIO_should_retry bio = BIO_test_flags bio BIO_FLAGS_SHOULD_RETRY"

definition BIO_should_io_special :: "'p bio \<Rightarrow> uint32" where
  "BIO_should_io_special bio = BIO_test_flags bio BIO_FLAGS_IO_SPECIAL"

definition BIO_clear_flags :: "'p bio \<Rightarrow> uint32 \<Rightarrow> 'p bio" where
  "BIO_clear_flags bio flags = bio\<lparr>bio_flags := bio_flags bio AND NOT flags\<rparr>"

definition BIO_set_retry_read :: "'p bio \<Rightarrow> 'p bio" where
  "BIO_set_retry_read bio = bio\<lparr>bio_flags := bio_flags bio OR (BIO_FLAGS_READ OR BIO_FLAGS_SHOULD_RETRY)\<rparr>"

definition BIO_set_retry_write :: "'p bio \<Rightarrow> 'p bio" where
  "BIO_set_retry_write bio = bio\<lparr>bio_flags := bio_flags bio OR (BIO_FLAGS_WRITE OR BIO_FLAGS_SHOULD_RETRY)\<rparr>"

definition BIO_set_retry_special :: "'p bio \<Rightarrow> 'p bio" where
  "BIO_set_retry_special bio = bio\<lparr>bio_flags := bio_flags bio OR (BIO_FLAGS_READ OR BIO_FLAGS_IO_SPECIAL)\<rparr>"

definition kRetryFlags :: uint32 where
  "kRetryFlags = BIO_FLAGS_RWS OR BIO_FLAGS_SHOULD_RETRY"

definition BIO_get_retry_flags :: "'p bio \<Rightarrow> uint32" where
  "BIO_get_retry_flags bio = bio_flags bio AND kRetryFlags"

definition BIO_clear_retry_flags :: "'p bio \<Rightarrow> 'p bio" where
  "BIO_clear_retry_flags bio = bio\<lparr>bio_flags := bio_flags bio AND NOT kRetryFlags, retry_reason := 0\<rparr>"

section \<open>Creating, reading and writing\<close>

definition BIO_new ::
  "allocator \<Rightarrow> (allocator \<Rightarrow> 'p bio \<Rightarrow> bool \<times> 'p bio \<times> allocator) option \<Rightarrow> 'p bio option \<times> allocator" where
  "BIO_new al create =
     (case OPENSSL_malloc al 64 of
        (None, al1) \<Rightarrow> (None, al1)
      | (Some _, al1) \<Rightarrow>
          (let ret = \<lparr>bio_init = 0, bio_shutdown = 1, bio_flags = 0, retry_reason = 0, bio_num = 0,
                      bio_ptr = None, num_read = 0, num_write = 0\<rparr> in
           case create of
             None \<Rightarrow> (Some ret, al1)
           | Some f \<Rightarrow> (case f al1 ret of (ok, ret', al2) \<Rightarrow> (if ok then Some ret' else None, al2))))"

text \<open>A read: the return value, the bytes written to the caller's buffer and the state.\<close>

definition BIO_read ::
  "('s \<Rightarrow> 'p bio) \<Rightarrow> (('p bio \<Rightarrow> 'p bio) \<Rightarrow> 's \<Rightarrow> 's) \<Rightarrow> ('s \<Rightarrow> int \<Rightarrow> int \<times> byte list \<times> 's) option \<Rightarrow>
   's \<Rightarrow> int \<Rightarrow> int \<times> byte list \<times> 's" where
  "BIO_read get upd bread s len =
     (case bread of
        None \<Rightarrow> (- 2, [], s)
      | Some f \<Rightarrow>
          if bio_init (get s) = 0 then (- 2, [], s)
          else if len \<le> 0 then (0, [], s)
          else (case f s len of
                  (ret, out, s') \<Rightarrow>
                    (ret, out, if ret > 0 then upd (\<lambda>b. b\<lparr>num_read := size_add (num_read b) (nat ret)\<rparr>) s' else s')))"

definition BIO_gets ::
  "('s \<Rightarrow> 'p bio) \<Rightarrow> (('p bio \<Rightarrow> 'p bio) \<Rightarrow> 's \<Rightarrow> 's) \<Rightarrow> ('s \<Rightarrow> int \<Rightarrow> int \<times> byte list \<times> 's) option \<Rightarrow>
   's \<Rightarrow> int \<Rightarrow> int \<times> byte list \<times> 's" where
  "BIO_gets get upd bgets s len =
     (case bgets of
        None \<Rightarrow> (- 2, [], s)
      | Some f \<Rightarrow>
          if bio_init (get s) = 0 then (- 2, [], s)
          else if len \<le> 0 then (0, [], s)
          else (case f s len of
                  (ret, out, s') \<Rightarrow>
                    (ret, out, if ret > 0 then upd (\<lambda>b. b\<lparr>num_read := size_add (num_read b) (nat ret)\<rparr>) s' else s')))"

definition BIO_write ::
  "('s \<Rightarrow> 'p bio) \<Rightarrow> (('p bio \<Rightarrow> 'p bio) \<Rightarrow> 's \<Rightarrow> 's) \<Rightarrow> ('s \<Rightarrow> byte list \<Rightarrow> int \<Rightarrow> int \<times> 's) option \<Rightarrow>
   's \<Rightarrow> byte list \<Rightarrow> int \<Rightarrow> int \<times> 's" where
  "BIO_write get upd bwrite s inp inl =
     (case bwrite of
        None \<Rightarrow> (- 2, s)
      | Some f \<Rightarrow>
          if bio_init (get s) = 0 then (- 2, s)
          else if inl \<le> 0 then (0, s)
          else (case f s inp inl of
                  (ret, s') \<Rightarrow>
                    (ret, if ret > 0 then upd (\<lambda>b. b\<lparr>num_write := size_add (num_write b) (nat ret)\<rparr>) s' else s')))"

text \<open>The loop of \<open>BIO_write_all\<close>; \<open>data\<close> is what is left to write.\<close>

function BIO_write_all ::
  "('s \<Rightarrow> 'p bio) \<Rightarrow> (('p bio \<Rightarrow> 'p bio) \<Rightarrow> 's \<Rightarrow> 's) \<Rightarrow> ('s \<Rightarrow> byte list \<Rightarrow> int \<Rightarrow> int \<times> 's) option \<Rightarrow>
   's \<Rightarrow> byte list \<Rightarrow> bool \<times> 's" where
  "BIO_write_all get upd bwrite s data =
     (if length data > 0 then
        (case BIO_write get upd bwrite s data (if length data > int_max then int int_max else int (length data)) of
           (ret, s') \<Rightarrow>
             if ret \<le> 0 then (False, s')
             else BIO_write_all get upd bwrite s' (drop (nat ret) data))
      else (True, s))"
  by pat_completeness auto
termination by (relation "measure (\<lambda>(get, upd, bwrite, s, data). length data)") auto

declare BIO_write_all.simps [simp del]

definition BIO_puts ::
  "('s \<Rightarrow> 'p bio) \<Rightarrow> (('p bio \<Rightarrow> 'p bio) \<Rightarrow> 's \<Rightarrow> 's) \<Rightarrow> ('s \<Rightarrow> byte list \<Rightarrow> int \<Rightarrow> int \<times> 's) option \<Rightarrow>
   's \<Rightarrow> byte list \<Rightarrow> int \<times> 's" where
  "BIO_puts get upd bwrite s str = BIO_write get upd bwrite s str (sint (of_nat (c_strlen str) :: 32 word))"

text \<open>\<open>BIO_indent\<close> writes \<open>indent\<close> spaces, one at a time.\<close>

fun indent_loop :: "('s \<Rightarrow> int \<times> 's) \<Rightarrow> nat \<Rightarrow> 's \<Rightarrow> bool \<times> 's" where
  "indent_loop put 0 s = (True, s)"
| "indent_loop put (Suc n) s = (case put s of (ret, s') \<Rightarrow> if ret \<noteq> 1 then (False, s') else indent_loop put n s')"

definition BIO_indent ::
  "('s \<Rightarrow> 'p bio) \<Rightarrow> (('p bio \<Rightarrow> 'p bio) \<Rightarrow> 's \<Rightarrow> 's) \<Rightarrow> ('s \<Rightarrow> byte list \<Rightarrow> int \<Rightarrow> int \<times> 's) option \<Rightarrow>
   's \<Rightarrow> uint32 \<Rightarrow> uint32 \<Rightarrow> bool \<times> 's" where
  "BIO_indent get upd bwrite s indent max_indent =
     indent_loop (\<lambda>s. BIO_puts get upd bwrite s [0x20, 0]) (unat (if indent > max_indent then max_indent else indent)) s"

section \<open>Reading whole messages\<close>

text \<open>
  These loops read through \<open>BIO_read\<close>; \<open>rd\<close> is that call on the BIO at hand.
  \<open>bio_read_full\<close> gives the bytes read, and on failure whether the first read met the end.
\<close>

function bio_read_full ::
  "('s \<Rightarrow> int \<Rightarrow> int \<times> byte list \<times> 's) \<Rightarrow> 's \<Rightarrow> bool \<Rightarrow> nat \<Rightarrow> (bool + byte list) \<times> 's" where
  "bio_read_full rd s first_read len =
     (if len > 0 then
        (case rd s (if len \<le> int_max then int len else int int_max) of
           (ret, out, s') \<Rightarrow>
             if ret \<le> 0 then (Inl (first_read \<and> ret = 0), s')
             else
               (case bio_read_full rd s' False (len - nat ret) of
                  (Inl e, s'') \<Rightarrow> (Inl e, s'')
                | (Inr outs, s'') \<Rightarrow> (Inr (out @ outs), s'')))
      else (Inr [], s))"
  by pat_completeness auto
termination by (relation "measure (\<lambda>(rd, s, first_read, len). len)") auto

declare bio_read_full.simps [simp del]

definition kChunkSize :: nat where
  "kChunkSize = 4096"

text \<open>
  The loop of \<open>bio_read_all\<close>. \<open>acc\<close> holds the \<open>done\<close> bytes read so far, \<open>len\<close> is the size of
  the buffer. The C code stops at a read of -1 and has no case for the -2 of a BIO that is not
  set up, which \<open>BIO_read_asn1\<close> has read from before; here every negative result is the
  failure. A positive result comes with that many bytes. The loop ends since every round
  reads at least one byte and \<open>max_len\<close> bounds them.
\<close>

function bio_read_all_loop ::
  "('s \<Rightarrow> int \<Rightarrow> int \<times> byte list \<times> 's) \<Rightarrow> allocator \<Rightarrow> 's \<Rightarrow> byte list \<Rightarrow> nat \<Rightarrow> nat \<Rightarrow> byte list option \<times> 's \<times> allocator" where
  "bio_read_all_loop rd al s acc len max_len =
     (if length acc \<ge> len \<or> len > max_len then (None, s, al)
      else
        (case rd s (int (len - length acc)) of
           (n, out, s') \<Rightarrow>
             if n = 0 then (Some acc, s', al)
             else if n < 0 \<or> out = [] then (None, s', al)
             else
               (let acc' = acc @ out in
                if len < max_len \<and> len - length acc' < kChunkSize div 2 then
                  (let len' = size_add len kChunkSize;
                       len'' = (if len' < kChunkSize \<or> len' > max_len then max_len else len') in
                   case OPENSSL_realloc al (Some (acc' @ replicate (len - length acc') 0)) len'' of
                     (None, al') \<Rightarrow> (None, s', al')
                   | (Some _, al') \<Rightarrow> bio_read_all_loop rd al' s' acc' len'' max_len)
                else bio_read_all_loop rd al s' acc' len max_len)))"
  by pat_completeness auto
termination
  by (relation "measure (\<lambda>(rd, al, s, acc, len, max_len). max_len - length acc)")
    (auto simp: length_greater_0_conv [symmetric] simp del: length_greater_0_conv)

declare bio_read_all_loop.simps [simp del]

definition bio_read_all ::
  "('s \<Rightarrow> int \<Rightarrow> int \<times> byte list \<times> 's) \<Rightarrow> allocator \<Rightarrow> 's \<Rightarrow> byte list \<Rightarrow> nat \<Rightarrow> byte list option \<times> 's \<times> allocator" where
  "bio_read_all rd al s pre max_len =
     (let len0 = size_add (length pre) kChunkSize;
          len = (if len0 > max_len then max_len else len0) in
      if len < length pre then (None, s, al)
      else
        (case OPENSSL_malloc al len of
           (None, al') \<Rightarrow> (None, s, al')
         | (Some _, al') \<Rightarrow> bio_read_all_loop rd al' s pre len max_len))"

datatype asn1_error =
  ASN1_R_HEADER_TOO_LONG | ASN1_R_NOT_ENOUGH_DATA | ASN1_R_DECODE_ERROR | ASN1_R_TOO_LONG | ERR_R_MALLOC_FAILURE

text \<open>The body of an element of known length behind its header.\<close>

definition read_asn1_body ::
  "('s \<Rightarrow> int \<Rightarrow> int \<times> byte list \<times> 's) \<Rightarrow> allocator \<Rightarrow> 's \<Rightarrow> byte list \<Rightarrow> nat \<Rightarrow> nat \<Rightarrow>
   (asn1_error + byte list) \<times> 's \<times> allocator" where
  "read_asn1_body rd al s header len0 max_len =
     (let header_len = length header in
      if size_add len0 header_len < len0 \<or> size_add len0 header_len > max_len \<or> len0 > int_max
      then (Inl ASN1_R_TOO_LONG, s, al)
      else
        let len = size_add len0 header_len in
        case OPENSSL_malloc al len of
          (None, al') \<Rightarrow> (Inl ERR_R_MALLOC_FAILURE, s, al')
        | (Some _, al') \<Rightarrow>
            (case bio_read_full rd s True (len - header_len) of
               (Inl _, s') \<Rightarrow> (Inl ASN1_R_NOT_ENOUGH_DATA, s', al')
             | (Inr body, s') \<Rightarrow> (Inr (header @ body), s', al')))"

definition BIO_read_asn1 ::
  "('s \<Rightarrow> int \<Rightarrow> int \<times> byte list \<times> 's) \<Rightarrow> allocator \<Rightarrow> 's \<Rightarrow> nat \<Rightarrow> (asn1_error + byte list) \<times> 's \<times> allocator" where
  "BIO_read_asn1 rd al s max_len =
     (case bio_read_full rd s True 2 of
        (Inl eof_on_first_read, s1) \<Rightarrow>
          (Inl (if eof_on_first_read then ASN1_R_HEADER_TOO_LONG else ASN1_R_NOT_ENOUGH_DATA), s1, al)
      | (Inr header, s1) \<Rightarrow>
          (let tag = header ! 0; length_byte = header ! 1 in
           if tag AND 0x1f = 0x1f then (Inl ASN1_R_DECODE_ERROR, s1, al)
           else if length_byte AND 0x80 = 0 then read_asn1_body rd al s1 header (unat length_byte) max_len
           else
             let num_bytes = unat (length_byte AND 0x7f) in
             if tag AND 0x20 \<noteq> 0 \<and> num_bytes = 0 then
               (case bio_read_all rd al s1 header max_len of
                  (None, s2, al') \<Rightarrow> (Inl ASN1_R_NOT_ENOUGH_DATA, s2, al')
                | (Some out, s2, al') \<Rightarrow> (Inr out, s2, al'))
             else if num_bytes = 0 \<or> num_bytes > 4 then (Inl ASN1_R_DECODE_ERROR, s1, al)
             else
               (case bio_read_full rd s1 True num_bytes of
                  (Inl _, s2) \<Rightarrow> (Inl ASN1_R_NOT_ENOUGH_DATA, s2, al)
                | (Inr lbytes, s2) \<Rightarrow>
                    (let len32 = foldl (\<lambda>l b. push_bit 8 l OR ucast b) (0 :: uint32) lbytes in
                     if len32 < 128 then (Inl ASN1_R_DECODE_ERROR, s2, al)
                     else if drop_bit ((num_bytes - 1) * 8) len32 = 0 then (Inl ASN1_R_DECODE_ERROR, s2, al)
                     else read_asn1_body rd al s2 (header @ lbytes) (unat len32) max_len))))"

section \<open>Interfaces\<close>

text \<open>
  What a BIO is to its users: a queue of bytes. A write takes a prefix of its input to the end
  of the queue, a read takes bytes from the front; a result that is not positive means that
  nothing happened.
\<close>

locale byte_queue =
  fixes inv :: "'s \<Rightarrow> bool" and contents :: "'s \<Rightarrow> byte list"
    and wr :: "'s \<Rightarrow> byte list \<Rightarrow> int \<times> 's" and rd :: "'s \<Rightarrow> int \<Rightarrow> int \<times> byte list \<times> 's"
  assumes wr_law: "inv s \<Longrightarrow> length bs \<le> int_max \<Longrightarrow> wr s bs = (n, s') \<Longrightarrow>
      inv s' \<and> nat n \<le> length bs \<and> contents s' = contents s @ take (nat n) bs"
    and rd_law: "inv s \<Longrightarrow> 0 < k \<Longrightarrow> k \<le> int int_max \<Longrightarrow> rd s k = (n, out, s') \<Longrightarrow>
      inv s' \<and> n \<le> k \<and> contents s = out @ contents s' \<and> length out = nat n \<and> (contents s \<noteq> [] \<longrightarrow> 0 < n)"

datatype queue_op = QWrite "byte list" | QRead int

fun op_ok :: "queue_op \<Rightarrow> bool" where
  "op_ok (QWrite bs) = (length bs \<le> int_max)"
| "op_ok (QRead k) = (0 < k \<and> k \<le> int int_max)"

text \<open>A sequence of calls: the bytes accepted, the bytes delivered and the final state.\<close>

fun run_ops ::
  "('s \<Rightarrow> byte list \<Rightarrow> int \<times> 's) \<Rightarrow> ('s \<Rightarrow> int \<Rightarrow> int \<times> byte list \<times> 's) \<Rightarrow> queue_op list \<Rightarrow> 's \<Rightarrow> byte list \<times> byte list \<times> 's" where
  "run_ops wr rd [] s = ([], [], s)"
| "run_ops wr rd (QWrite bs # ops) s =
     (case wr s bs of (n, s1) \<Rightarrow>
        (case run_ops wr rd ops s1 of (acc, got, s2) \<Rightarrow> (take (nat n) bs @ acc, got, s2)))"
| "run_ops wr rd (QRead k # ops) s =
     (case rd s k of (n, out, s1) \<Rightarrow>
        (case run_ops wr rd ops s1 of (acc, got, s2) \<Rightarrow> (acc, out @ got, s2)))"

context byte_queue
begin

text \<open>No byte is lost, doubled or moved, whatever the order of the calls.\<close>

lemma run_ops_fifo:
  "inv s \<Longrightarrow> list_all op_ok ops \<Longrightarrow> run_ops wr rd ops s = (acc, got, s') \<Longrightarrow>
   inv s' \<and> contents s @ acc = got @ contents s'"
proof (induction ops arbitrary: s acc got)
  case (Cons x ops)
  show ?case
  proof (cases x)
    case (QWrite bs)
    obtain n s1 acc1 where "wr s bs = (n, s1)" "run_ops wr rd ops s1 = (acc1, got, s')" "acc = take (nat n) bs @ acc1"
      using Cons.prems(3) QWrite by (auto split: prod.splits)
    moreover have "length bs \<le> int_max" "list_all op_ok ops" using Cons.prems(2) QWrite by simp_all
    ultimately show ?thesis using wr_law [OF Cons.prems(1)] Cons.IH [of s1 acc1 got] by simp
  next
    case (QRead k)
    obtain n out s1 got1 where r: "rd s k = (n, out, s1)" and ops: "run_ops wr rd ops s1 = (acc, got1, s')" and got: "got = out @ got1"
      using Cons.prems(3) QRead by (auto split: prod.splits)
    have k: "0 < k" "k \<le> int int_max" and l: "list_all op_ok ops" using Cons.prems(2) QRead by simp_all
    have "inv s1" and c: "contents s = out @ contents s1" using rd_law [OF Cons.prems(1) k r] by blast+
    then have "inv s'" "contents s1 @ acc = got1 @ contents s'" using Cons.IH [OF _ l ops] by blast+
    then show ?thesis unfolding c got by simp
  qed
qed simp

text \<open>\<open>bio_read_full\<close> reads exactly the bytes asked for when they are there.\<close>

lemma read_full_spec:
  "inv s \<Longrightarrow> contents s = xs @ ys \<Longrightarrow> length xs = n \<Longrightarrow>
   \<exists>s'. bio_read_full rd s fr n = (Inr xs, s') \<and> inv s' \<and> contents s' = ys"
proof (induction n arbitrary: s xs fr rule: less_induct)
  case (less n)
  show ?case
  proof (cases "n = 0")
    case True
    then show ?thesis using less.prems by (simp add: bio_read_full.simps [of rd s fr 0])
  next
    case False
    define k where "k = (if n \<le> int_max then int n else int int_max)"
    have k: "0 < k" "k \<le> int int_max" "k \<le> int n" using False by (auto simp: k_def int_max_def)
    obtain r out s1 where r: "rd s k = (r, out, s1)" by (metis prod_cases3)
    have "xs \<noteq> []" using less.prems(3) False by auto
    then have law: "inv s1" "r \<le> k" "xs @ ys = out @ contents s1" "length out = nat r" "0 < r"
      using rd_law [OF less.prems(1) k(1,2) r] less.prems(2) by auto
    then have "length out \<le> length xs" using k(3) less.prems(3) by linarith
    then have o: "take (length out) xs = out" using arg_cong [OF law(3), of "take (length out)"] by simp
    define zs where "zs = drop (length out) xs"
    have zs: "xs = out @ zs" using append_take_drop_id [of "length out" xs] unfolding o zs_def by simp
    then have "contents s1 = zs @ ys" using law(3) by simp
    note zs = zs this
    then have "length zs = n - nat r" using less.prems(3) law(4) by simp
    moreover have "n - nat r < n" using law(5) False by simp
    ultimately obtain s' where "bio_read_full rd s1 False (n - nat r) = (Inr zs, s')" "inv s'" "contents s' = ys"
      using less.IH law(1) zs(2) by blast
    then show ?thesis
      using False r law(5) zs(1) k_def by (simp add: bio_read_full.simps [of rd s fr n])
  qed
qed

end

section \<open>Sources of lines\<close>

text \<open>A line: the bytes up to the first newline, with it if it is there.\<close>

definition first_line :: "byte list \<Rightarrow> byte list" where
  "first_line bs = takeWhile (\<lambda>c. c \<noteq> 0x0a) bs @ take 1 (dropWhile (\<lambda>c. c \<noteq> 0x0a) bs)"

lemma first_line_Cons: "first_line (c # bs) = (if c = 0x0a then [c] else c # first_line bs)"
  by (simp add: first_line_def)

lemma first_line_Nil [simp]: "first_line [] = []"
  by (simp add: first_line_def)

lemma length_first_line: "length (first_line bs) \<le> length bs"
  by (induction bs) (auto simp: first_line_Cons)

lemma first_line_take: "first_line (take (j::nat) bs) = take j (first_line bs)"
proof (induction bs arbitrary: j)
  case (Cons c bs)
  then show ?case by (cases j) (auto simp: first_line_Cons)
qed simp

text \<open>
  What a reader of lines relies on: \<open>gets\<close> with room for \<open>sz\<close> bytes delivers the first line, as
  much of it as fits, with a NUL behind it, and takes it from the contents.
\<close>

locale line_source =
  fixes line_inv :: "'s \<Rightarrow> bool" and pending :: "'s \<Rightarrow> byte list" and gets :: "'s \<Rightarrow> int \<Rightarrow> int \<times> byte list \<times> 's"
  assumes gets_line: "line_inv s \<Longrightarrow> 1 < sz \<Longrightarrow> sz \<le> int int_max \<Longrightarrow> gets s sz = (n, out, s') \<Longrightarrow>
    line_inv s' \<and> out = take (nat sz - 1) (first_line (pending s)) @ [0] \<and> pending s = butlast out @ pending s'"
begin

lemma gets_whole_line:
  assumes "line_inv s" and "pending s = l @ 0x0a # rest" and "0x0a \<notin> set l" and "int (length l) + 2 \<le> sz" and "sz \<le> int int_max"
  obtains n s' where "gets s sz = (n, l @ [0x0a, 0], s')" and "line_inv s'" and "pending s' = rest"
proof -
  obtain n out s' where g: "gets s sz = (n, out, s')" by (metis prod_cases3)
  have "takeWhile (\<lambda>c. c \<noteq> 0x0a) (l @ 0x0a # rest) = l" "dropWhile (\<lambda>c. c \<noteq> 0x0a) (l @ 0x0a # rest) = 0x0a # rest"
    using assms(3) by (subst takeWhile_append2 dropWhile_append2; force)+
  then have "first_line (pending s) = l @ [0x0a]" unfolding assms(2) by (simp add: first_line_def)
  note fl = this
  have sz: "1 < sz" using assms(4) by simp
  note spec = gets_line [OF assms(1) sz assms(5) g]
  have "out = take (nat sz - 1) (first_line (pending s)) @ [0]" using spec by blast
  then have o: "out = l @ [0x0a, 0]" unfolding fl using assms(4) by simp
  have "l @ 0x0a # rest = butlast out @ pending s'" using spec unfolding assms(2) by blast
  then have "pending s' = rest" unfolding o by (simp add: butlast_append)
  then show thesis using that g spec unfolding o by blast
qed

lemma gets_at_end:
  assumes "line_inv s" and "pending s = []" and "1 < sz" and "sz \<le> int int_max"
  obtains n s' where "gets s sz = (n, [0], s')" and "line_inv s'" and "pending s' = []"
proof -
  obtain n out s' where g: "gets s sz = (n, out, s')" by (metis prod_cases3)
  note spec = gets_line [OF assms(1,3,4) g]
  have "out = take (nat sz - 1) (first_line (pending s)) @ [0]" using spec by blast
  then have o: "out = [0]" unfolding assms(2) by simp
  have "[] = butlast out @ pending s'" using spec unfolding assms(2) by blast
  then have "pending s' = []" unfolding o by simp
  then show thesis using that g spec unfolding o by blast
qed

end

end
