(* ===== verification/Buf.thy ===== *)
theory Buf
  imports Mem
begin

text \<open>
  \<open>crypto/buf/buf.c\<close>: the growable buffer \<open>BUF_MEM\<close>. The field \<open>length\<close> is \<open>buf_length\<close>
  here, \<open>data\<close> is \<open>buf_data\<close> (\<open>None\<close> for NULL) and \<open>max\<close> is \<open>buf_max\<close>. The error queue is
  not modelled: a failed call is the result \<open>False\<close> or 0.
\<close>

record buf_mem =
  buf_length :: nat
  buf_data :: "byte list option"
  buf_max :: nat

definition BUF_MEM_new :: "allocator \<Rightarrow> buf_mem option \<times> allocator" where
  "BUF_MEM_new al =
     (case OPENSSL_malloc al 24 of
        (None, al') \<Rightarrow> (None, al')
      | (Some _, al') \<Rightarrow> (Some \<lparr>buf_length = 0, buf_data = None, buf_max = 0\<rparr>, al'))"

definition BUF_MEM_reserve :: "allocator \<Rightarrow> buf_mem \<Rightarrow> nat \<Rightarrow> bool \<times> buf_mem \<times> allocator" where
  "BUF_MEM_reserve al b cap =
     (if buf_max b \<ge> cap then (True, b, al)
      else
        let n = size_add cap 3 in
        if n < cap then (False, b, al)
        else
          let n = n div 3; alloc_size = size_mul n 4 in
          if alloc_size div 4 \<noteq> n then (False, b, al)
          else
            (case OPENSSL_realloc al (buf_data b) alloc_size of
               (None, al') \<Rightarrow> (False, b, al')
             | (Some new_buf, al') \<Rightarrow> (True, b\<lparr>buf_data := Some new_buf, buf_max := alloc_size\<rparr>, al')))"

text \<open>A write of \<open>bs\<close> at an offset of the data.\<close>

definition buf_write :: "buf_mem \<Rightarrow> nat \<Rightarrow> byte list \<Rightarrow> byte list option" where
  "buf_write b off bs = map_option (\<lambda>d. take off d @ bs @ drop (off + length bs) d) (buf_data b)"

definition BUF_MEM_grow :: "allocator \<Rightarrow> buf_mem \<Rightarrow> nat \<Rightarrow> nat \<times> buf_mem \<times> allocator" where
  "BUF_MEM_grow al b len =
     (case BUF_MEM_reserve al b len of
        (False, b', al') \<Rightarrow> (0, b', al')
      | (True, b', al') \<Rightarrow>
          (let b'' = (if buf_length b' < len
                      then b'\<lparr>buf_data := buf_write b' (buf_length b') (replicate (len - buf_length b') 0)\<rparr>
                      else b')
           in (len, b''\<lparr>buf_length := len\<rparr>, al')))"

definition BUF_MEM_grow_clean :: "allocator \<Rightarrow> buf_mem \<Rightarrow> nat \<Rightarrow> nat \<times> buf_mem \<times> allocator" where
  "BUF_MEM_grow_clean al b len = BUF_MEM_grow al b len"

definition BUF_MEM_append :: "allocator \<Rightarrow> buf_mem \<Rightarrow> byte list \<Rightarrow> bool \<times> buf_mem \<times> allocator" where
  "BUF_MEM_append al b src =
     (let len = length src in
      if len = 0 then (True, b, al)
      else
        let new_len = size_add (buf_length b) len in
        if new_len < len then (False, b, al)
        else
          (case BUF_MEM_reserve al b new_len of
             (False, b', al') \<Rightarrow> (False, b', al')
           | (True, b', al') \<Rightarrow>
               (True, b'\<lparr>buf_data := buf_write b' (buf_length b') src, buf_length := new_len\<rparr>, al')))"

definition BUF_strdup :: "allocator \<Rightarrow> byte list option \<Rightarrow> byte list option \<times> allocator" where
  "BUF_strdup al str = OPENSSL_strdup al str"

definition BUF_strnlen :: "byte list \<Rightarrow> nat \<Rightarrow> nat" where
  "BUF_strnlen str max_len = OPENSSL_strnlen str max_len"

definition BUF_strndup :: "allocator \<Rightarrow> byte list \<Rightarrow> nat \<Rightarrow> byte list option \<times> allocator" where
  "BUF_strndup al str sz = OPENSSL_strndup al str sz"

definition BUF_strlcpy :: "byte list \<Rightarrow> byte list \<Rightarrow> nat \<Rightarrow> byte list \<times> nat" where
  "BUF_strlcpy dst src dst_size = OPENSSL_strlcpy dst src dst_size"

definition BUF_strlcat :: "byte list \<Rightarrow> byte list \<Rightarrow> nat \<Rightarrow> byte list \<times> nat" where
  "BUF_strlcat dst src dst_size = OPENSSL_strlcat dst src dst_size"

definition BUF_memdup :: "allocator \<Rightarrow> byte list \<Rightarrow> byte list option \<times> allocator" where
  "BUF_memdup al data = OPENSSL_memdup al data"

section \<open>The bytes in a buffer\<close>

definition buf_ok :: "buf_mem \<Rightarrow> bool" where
  "buf_ok b \<longleftrightarrow> buf_length b \<le> buf_max b \<and> buf_max b < size_max1 \<and>
     (case buf_data b of None \<Rightarrow> buf_max b = 0 | Some d \<Rightarrow> length d = buf_max b)"

definition buf_contents :: "buf_mem \<Rightarrow> byte list" where
  "buf_contents b = (case buf_data b of None \<Rightarrow> [] | Some d \<Rightarrow> take (buf_length b) d)"

lemma length_buf_contents: "buf_ok b \<Longrightarrow> length (buf_contents b) = buf_length b"
  by (auto simp: buf_ok_def buf_contents_def split: option.splits)

text \<open>What a request for \<open>cap\<close> bytes allocates.\<close>

definition reserve_size :: "nat \<Rightarrow> nat" where
  "reserve_size cap = (cap + 3) div 3 * 4"

lemma reserve_size_ge: "cap \<le> reserve_size cap"
  by (simp add: reserve_size_def)

text \<open>The growth without the overflow checks.\<close>

lemma BUF_MEM_reserve_eq:
  assumes "cap < size_max1" and "buf_max b < cap"
  shows "BUF_MEM_reserve al b cap =
    (if size_max1 \<le> reserve_size cap then (False, b, al)
     else case OPENSSL_realloc al (buf_data b) (reserve_size cap) of
       (None, al') \<Rightarrow> (False, b, al')
     | (Some d, al') \<Rightarrow> (True, b\<lparr>buf_data := Some d, buf_max := reserve_size cap\<rparr>, al'))"
proof (cases "cap + 3 < size_max1")
  case False
  then have "size_add cap 3 < cap" using size_add_overflow_iff [OF assms(1), of 3] by (simp add: size_max1_def)
  moreover have "size_max1 \<le> reserve_size cap" using False unfolding reserve_size_def size_max1_def by simp
  ultimately show ?thesis using assms(2) by (simp add: BUF_MEM_reserve_def)
next
  case True
  define n where "n = (cap + 3) div 3"
  have n: "n < size_max1" using True unfolding n_def by (rule le_less_trans [rotated]) simp
  have sa: "size_add cap 3 = cap + 3" by (rule size_add_noover [OF True])
  have rs: "reserve_size cap = n * 4" by (simp add: reserve_size_def n_def)
  have mul: "size_mul n 4 div 4 = n \<longleftrightarrow> n * 4 < size_max1" by (rule size_mul_div_eq_iff) (simp_all add: n)
  show ?thesis
  proof (cases "n * 4 < size_max1")
    case 4: True
    then have "size_mul n 4 = n * 4" by (simp add: size_mul_def)
    then show ?thesis
      using assms(2) 4 unfolding BUF_MEM_reserve_def Let_def sa n_def [symmetric] rs by (simp split: prod.split option.split)
  next
    case 4: False
    then show ?thesis
      using assms(2) mul unfolding BUF_MEM_reserve_def Let_def sa n_def [symmetric] rs by simp
  qed
qed

lemma BUF_MEM_reserve_spec:
  assumes "BUF_MEM_reserve al b cap = (ok, b', al')" and b: "buf_ok b" and cap: "cap < size_max1"
  shows "if ok then buf_ok b' \<and> cap \<le> buf_max b' \<and> buf_length b' = buf_length b \<and> buf_contents b' = buf_contents b
         else b' = b \<and> \<not> (never_fails al \<and> reserve_size cap + 8 < size_max1)"
proof (cases "buf_max b < cap")
  case False
  then show ?thesis using assms by (auto simp: BUF_MEM_reserve_def)
next
  case True
  note r = assms(1) [unfolded BUF_MEM_reserve_eq [OF cap True]]
  show ?thesis
  proof (cases ok)
    case ok: True
    then obtain d where rs: "reserve_size cap < size_max1" and d: "OPENSSL_realloc al (buf_data b) (reserve_size cap) = (Some d, al')"
      and b': "b' = b\<lparr>buf_data := Some d, buf_max := reserve_size cap\<rparr>"
      using r by (auto split: if_splits prod.splits option.splits)
    have len: "length d = reserve_size cap" by (rule OPENSSL_realloc_length [OF d rs])
    have "buf_contents b' = buf_contents b"
    proof (cases "buf_data b")
      case None
      then show ?thesis using b b' by (simp add: buf_contents_def buf_ok_def)
    next
      case (Some orig)
      have "take (buf_length b) d = take (buf_length b) orig"
        using OPENSSL_realloc_take [OF d [unfolded Some] rs] b Some True reserve_size_ge [of cap] by (simp add: buf_ok_def)
      then show ?thesis using Some b' by (simp add: buf_contents_def)
    qed
    then show ?thesis
      using ok b b' len rs True reserve_size_ge [of cap] by (simp add: buf_ok_def)
  next
    case False
    have "\<not> (never_fails al \<and> reserve_size cap + 8 < size_max1)"
    proof
      assume "never_fails al \<and> reserve_size cap + 8 < size_max1"
      then obtain p al1 where "OPENSSL_realloc al (buf_data b) (reserve_size cap) = (Some p, al1)"
        using OPENSSL_realloc_total by blast
      then show False using r False by (auto split: if_splits) (use \<open>never_fails al \<and> _\<close> in simp)
    qed
    then show ?thesis using r False by (auto split: if_splits prod.splits option.splits)
  qed
qed

lemma buf_write_spec:
  assumes "buf_ok b" and "off \<le> buf_length b" and "off + length bs \<le> buf_max b" and "buf_max b \<noteq> 0"
  defines "b' \<equiv> b\<lparr>buf_data := buf_write b off bs, buf_length := off + length bs\<rparr>"
  shows "buf_ok b' \<and> buf_contents b' = take off (buf_contents b) @ bs"
  using assms by (auto simp: buf_ok_def buf_contents_def buf_write_def min_absorb1 split: option.splits)

lemma BUF_MEM_grow_spec:
  assumes "buf_ok b" and "n < size_max1" and "BUF_MEM_grow al b n = (r, b', al')"
  shows "(r = n \<and> buf_ok b' \<and> buf_contents b' = take n (buf_contents b) @ replicate (n - length (buf_contents b)) 0) \<or>
    (r = 0 \<and> b' = b \<and> \<not> (never_fails al \<and> reserve_size n + 8 < size_max1))"
proof -
  obtain ok1 b1 al1 where r: "BUF_MEM_reserve al b n = (ok1, b1, al1)" by (metis prod_cases3)
  note spec = BUF_MEM_reserve_spec [OF r assms(1,2)]
  show ?thesis
  proof (cases ok1)
    case False
    then show ?thesis using assms(3) spec r by (simp add: BUF_MEM_grow_def)
  next
    case True
    then have b1: "buf_ok b1" "n \<le> buf_max b1" "buf_length b1 = buf_length b" "buf_contents b1 = buf_contents b"
      using spec by simp_all
    have len: "length (buf_contents b) = buf_length b" by (rule length_buf_contents [OF assms(1)])
    show ?thesis
    proof (cases "buf_length b < n")
      case lt: True
      then have "r = n" "b' = b1\<lparr>buf_data := buf_write b1 (buf_length b1) (replicate (n - buf_length b1) 0),
          buf_length := buf_length b1 + length (replicate (n - buf_length b1) (0 :: byte))\<rparr>"
        using assms(3) r True b1(3) by (auto simp: BUF_MEM_grow_def Let_def)
      then show ?thesis
        using buf_write_spec [OF b1(1), of "buf_length b1" "replicate (n - buf_length b1) 0"] b1 len lt by auto
    next
      case ge: False
      then have "r = n" "b' = b1\<lparr>buf_length := n\<rparr>" using assms(3) r True b1(3) by (auto simp: BUF_MEM_grow_def Let_def)
      moreover have "buf_contents (b1\<lparr>buf_length := n\<rparr>) = take n (buf_contents b1)"
        using ge b1(3) by (simp add: buf_contents_def min_absorb1 split: option.split)
      moreover have "buf_ok (b1\<lparr>buf_length := n\<rparr>)" using b1 by (auto simp: buf_ok_def split: option.splits)
      ultimately show ?thesis using b1(4) len ge by simp
    qed
  qed
qed

lemma replicate_two: "replicate 2 x = [x, x]"
  by (simp add: numeral_2_eq_2)

section \<open>Properties\<close>

text \<open>\<open>BUF_MEM_append\<close> appends: on success the contents are the old ones and then the new bytes;
  on failure, which needs an overflow or a failed allocation, the buffer is unchanged.\<close>

theorem buf_append_appends:
  assumes "buf_ok b" and "length src < size_max1" and "BUF_MEM_append al b src = (ok, b', al')"
  shows "if ok then buf_ok b' \<and> buf_contents b' = buf_contents b @ src
         else b' = b \<and> \<not> (never_fails al \<and> reserve_size (buf_length b + length src) + 8 < size_max1)"
proof (cases "src = []")
  case True
  then show ?thesis using assms by (auto simp: BUF_MEM_append_def)
next
  case ne: False
  have bl: "buf_length b < size_max1" using assms(1) by (auto simp: buf_ok_def)
  show ?thesis
  proof (cases "buf_length b + length src < size_max1")
    case False
    then have "size_add (buf_length b) (length src) < length src"
      using size_add_overflow_iff' [OF bl assms(2)] by simp
    moreover have "\<not> reserve_size (buf_length b + length src) + 8 < size_max1"
      using False reserve_size_ge [of "buf_length b + length src"] by linarith
    ultimately show ?thesis using assms(3) ne by (auto simp: BUF_MEM_append_def)
  next
    case True
    then have sa: "size_add (buf_length b) (length src) = buf_length b + length src" by (rule size_add_noover)
    obtain ok1 b1 al1 where r: "BUF_MEM_reserve al b (buf_length b + length src) = (ok1, b1, al1)" by (metis prod_cases3)
    note spec = BUF_MEM_reserve_spec [OF r assms(1) True]
    show ?thesis
    proof (cases ok1)
      case False
      then show ?thesis using assms(3) spec r ne by (simp add: BUF_MEM_append_def Let_def sa)
    next
      case ok1: True
      then have b1: "buf_ok b1" "buf_length b + length src \<le> buf_max b1" "buf_length b1 = buf_length b" "buf_contents b1 = buf_contents b"
        using spec by simp_all
      have "ok" "b' = b1\<lparr>buf_data := buf_write b1 (buf_length b1) src, buf_length := buf_length b1 + length src\<rparr>"
        using assms(3) r ok1 ne b1(3) by (auto simp: BUF_MEM_append_def Let_def sa)
      moreover have "take (buf_length b1) (buf_contents b1) = buf_contents b1" using length_buf_contents [OF b1(1)] by simp
      moreover have "buf_max b1 \<noteq> 0" using b1(2) ne by (cases src) auto
      ultimately show ?thesis
        using buf_write_spec [OF b1(1), of "buf_length b1" src] b1 by simp
    qed
  qed
qed

theorem buf_append_appends_witness:
  "case BUF_MEM_append plentiful \<lparr>buf_length = 1, buf_data = Some [7, 9], buf_max = 2\<rparr> [8, 8] of
     (ok, b', al') \<Rightarrow> ok \<and> buf_contents b' = [7, 8, 8]"
proof -
  let ?b = "\<lparr>buf_length = 1, buf_data = Some [7, 9], buf_max = 2\<rparr> :: buf_mem"
  obtain ok b' al' where a: "BUF_MEM_append plentiful ?b [8, 8] = (ok, b', al')" by (metis prod_cases3)
  have "buf_ok ?b" "buf_contents ?b = [7]" by (simp_all add: buf_ok_def buf_contents_def size_max1_def)
  then show ?thesis
    using buf_append_appends [of ?b "[8, 8]" plentiful ok b' al'] a plentiful_never_fails
    by (auto simp: size_max1_def reserve_size_def split: if_splits)
qed

text \<open>\<open>BUF_MEM_grow\<close> sets the length: the contents are cut off or padded with zeros.\<close>

theorem buf_grow_pads:
  assumes "buf_ok b" and "n < size_max1" and "BUF_MEM_grow al b n = (r, b', al')"
  shows "(r = n \<and> buf_ok b' \<and> buf_contents b' = take n (buf_contents b) @ replicate (n - length (buf_contents b)) 0) \<or>
    (r = 0 \<and> b' = b \<and> \<not> (never_fails al \<and> reserve_size n + 8 < size_max1))"
  using assms by (rule BUF_MEM_grow_spec)

theorem buf_grow_pads_witness:
  "case BUF_MEM_grow plentiful \<lparr>buf_length = 1, buf_data = Some [7, 9], buf_max = 2\<rparr> 3 of
     (r, b', al') \<Rightarrow> r = 3 \<and> buf_contents b' = [7, 0, 0]"
proof -
  let ?b = "\<lparr>buf_length = 1, buf_data = Some [7, 9], buf_max = 2\<rparr> :: buf_mem"
  obtain r b' al' where g: "BUF_MEM_grow plentiful ?b 3 = (r, b', al')" by (metis prod_cases3)
  have "buf_ok ?b" "buf_contents ?b = [7]" by (simp_all add: buf_ok_def buf_contents_def size_max1_def)
  then show ?thesis
    using buf_grow_pads [of ?b 3 plentiful r b' al'] g plentiful_never_fails
    by (auto simp: size_max1_def reserve_size_def replicate_two)
qed

end
