(* ===== verification/Bio_Mem.thy ===== *)
theory Bio_Mem
  imports Bio Buf
begin

text \<open>
  \<open>crypto/bio/bio_mem.c\<close>: BIOs that read from and write to memory. The \<open>ptr\<close> of such a BIO
  is a \<open>BUF_MEM\<close>. In a read-only BIO the code moves the \<open>data\<close> pointer forward with every
  read and back on a reset: \<open>mem_before\<close> are the bytes in front of the pointer. Lengths are
  \<open>int\<close>s in this interface.
\<close>

record mem_ptr =
  mem_buf :: buf_mem
  mem_before :: "byte list"

type_synonym mem_bio = "mem_ptr bio"

definition rdonly :: "mem_bio \<Rightarrow> bool" where
  "rdonly bio \<longleftrightarrow> bio_flags bio AND BIO_FLAGS_MEM_RDONLY \<noteq> 0"

text \<open>The \<open>BUF_MEM\<close> of a BIO, which \<open>mem_new\<close> has put there, and its bytes.\<close>

definition the_mem :: "mem_bio \<Rightarrow> mem_ptr" where
  "the_mem bio = (case bio_ptr bio of Some m \<Rightarrow> m | None \<Rightarrow> \<lparr>mem_buf = \<lparr>buf_length = 0, buf_data = None, buf_max = 0\<rparr>, mem_before = []\<rparr>)"

definition data_bytes :: "buf_mem \<Rightarrow> byte list" where
  "data_bytes b = (case buf_data b of None \<Rightarrow> [] | Some d \<Rightarrow> d)"

definition mem_new :: "allocator \<Rightarrow> mem_bio \<Rightarrow> bool \<times> mem_bio \<times> allocator" where
  "mem_new al bio =
     (case BUF_MEM_new al of
        (None, al') \<Rightarrow> (False, bio, al')
      | (Some b, al') \<Rightarrow>
          (True, bio\<lparr>bio_shutdown := 1, bio_init := 1, bio_num := - 1, bio_ptr := Some \<lparr>mem_buf = b, mem_before = []\<rparr>\<rparr>, al'))"

text \<open>\<open>len < 0\<close> asks for the length of the string; NULL is only accepted for length 0.\<close>

definition BIO_new_mem_buf :: "allocator \<Rightarrow> byte list option \<Rightarrow> int \<Rightarrow> mem_bio option \<times> allocator" where
  "BIO_new_mem_buf al buf len =
     (case buf of
        None \<Rightarrow>
          if len \<noteq> 0 then (None, al)
          else
            (case BIO_new al (Some mem_new) of
               (None, al') \<Rightarrow> (None, al')
             | (Some ret, al') \<Rightarrow>
                 (Some (ret\<lparr>bio_ptr := Some \<lparr>mem_buf = \<lparr>buf_length = 0, buf_data = None, buf_max = 0\<rparr>, mem_before = []\<rparr>,
                            bio_flags := bio_flags ret OR BIO_FLAGS_MEM_RDONLY, bio_num := 0\<rparr>), al'))
      | Some d \<Rightarrow>
          (let sz = (if len < 0 then c_strlen d else nat len) in
           case BIO_new al (Some mem_new) of
             (None, al') \<Rightarrow> (None, al')
           | (Some ret, al') \<Rightarrow>
               (Some (ret\<lparr>bio_ptr := Some \<lparr>mem_buf = \<lparr>buf_length = sz, buf_data = Some d, buf_max = sz\<rparr>, mem_before = []\<rparr>,
                          bio_flags := bio_flags ret OR BIO_FLAGS_MEM_RDONLY, bio_num := 0\<rparr>), al')))"

definition mem_read :: "mem_bio \<Rightarrow> int \<Rightarrow> int \<times> byte list \<times> mem_bio" where
  "mem_read bio0 outl =
     (let bio = BIO_clear_retry_flags bio0;
          m = the_mem bio; b = mem_buf m;
          ret = (if buf_length b < int_max \<and> outl > int (buf_length b) then int (buf_length b) else outl) in
      if ret > 0 then
        (let n = nat ret; d = data_bytes b; new_len = buf_length b - n in
         (ret, take n d,
          bio\<lparr>bio_ptr := Some
            (if rdonly bio
             then m\<lparr>mem_buf := b\<lparr>buf_length := new_len, buf_data := Some (drop n d)\<rparr>, mem_before := mem_before m @ take n d\<rparr>
             else m\<lparr>mem_buf := b\<lparr>buf_length := new_len, buf_data := Some (take new_len (drop n d) @ drop new_len d)\<rparr>\<rparr>)\<rparr>))
      else if buf_length b = 0 then
        (let ret = bio_num bio in (ret, [], if ret \<noteq> 0 then BIO_set_retry_read bio else bio))
      else (ret, [], bio))"

text \<open>The \<open>int\<close> that a \<open>size_t\<close> is converted to.\<close>

definition to_int :: "nat \<Rightarrow> int" where
  "to_int n = sint (of_nat n :: 32 word)"

definition mem_write :: "allocator \<Rightarrow> mem_bio \<Rightarrow> byte list \<Rightarrow> int \<Rightarrow> int \<times> mem_bio \<times> allocator" where
  "mem_write al bio0 inp inl =
     (if rdonly bio0 then (- 1, bio0, al)
      else
        let bio = BIO_clear_retry_flags bio0;
            m = the_mem bio; b = mem_buf m;
            blen = to_int (buf_length b) in
        if int int_max - blen < inl then (- 1, bio, al)
        else
          (case BUF_MEM_grow_clean al b (nat (blen + inl)) of
             (r, b', al') \<Rightarrow>
               if r \<noteq> nat blen + nat inl then (- 1, bio\<lparr>bio_ptr := Some (m\<lparr>mem_buf := b'\<rparr>)\<rparr>, al')
               else
                 (inl, bio\<lparr>bio_ptr := Some (m\<lparr>mem_buf := b'\<lparr>buf_data := buf_write b' (nat blen) (take (nat inl) inp)\<rparr>\<rparr>)\<rparr>, al')))"

text \<open>The number of bytes up to and including the first newline, \<open>j\<close> at most.\<close>

fun newline_scan :: "byte list \<Rightarrow> nat \<Rightarrow> nat" where
  "newline_scan p 0 = 0"
| "newline_scan [] (Suc j) = 0"
| "newline_scan (c # p) (Suc j) = (if c = 0x0a then 1 else Suc (newline_scan p j))"

text \<open>The bytes written to the caller's buffer include the NUL.\<close>

definition mem_gets :: "mem_bio \<Rightarrow> int \<Rightarrow> int \<times> byte list \<times> mem_bio" where
  "mem_gets bio0 sz =
     (let bio = BIO_clear_retry_flags bio0;
          b = mem_buf (the_mem bio);
          j0 = to_int (buf_length b);
          j = (if sz - 1 < j0 then sz - 1 else j0) in
      if j \<le> 0 then (0, if sz > 0 then [0] else [], bio)
      else
        (case mem_read bio (int (newline_scan (data_bytes b) (nat j))) of
           (i, out, bio') \<Rightarrow> (i, if i > 0 then out @ [0] else out, bio')))"

section \<open>Control calls\<close>

definition BIO_CTRL_RESET :: int where
  "BIO_CTRL_RESET = 1"

definition BIO_CTRL_EOF :: int where
  "BIO_CTRL_EOF = 2"

definition BIO_CTRL_INFO :: int where
  "BIO_CTRL_INFO = 3"

definition BIO_CTRL_GET_CLOSE :: int where
  "BIO_CTRL_GET_CLOSE = 8"

definition BIO_CTRL_SET_CLOSE :: int where
  "BIO_CTRL_SET_CLOSE = 9"

definition BIO_CTRL_PENDING :: int where
  "BIO_CTRL_PENDING = 10"

definition BIO_CTRL_FLUSH :: int where
  "BIO_CTRL_FLUSH = 11"

definition BIO_CTRL_WPENDING :: int where
  "BIO_CTRL_WPENDING = 13"

definition BIO_C_SET_BUF_MEM :: int where
  "BIO_C_SET_BUF_MEM = 114"

definition BIO_C_GET_BUF_MEM_PTR :: int where
  "BIO_C_GET_BUF_MEM_PTR = 115"

definition BIO_C_SET_BUF_MEM_EOF_RETURN :: int where
  "BIO_C_SET_BUF_MEM_EOF_RETURN = 130"

text \<open>What a control call stores through its pointer argument.\<close>

datatype ctrl_out = NoOut | DataOut "byte list option" | BufOut buf_mem

definition mem_reset :: "mem_bio \<Rightarrow> mem_bio" where
  "mem_reset bio =
     (let m = the_mem bio; b = mem_buf m in
      case buf_data b of
        None \<Rightarrow> bio
      | Some d \<Rightarrow>
          (if rdonly bio then
             (let back = buf_max b - buf_length b; k = length (mem_before m) - back in
              bio\<lparr>bio_ptr := Some (m\<lparr>mem_buf := b\<lparr>buf_data := Some (drop k (mem_before m) @ d), buf_length := buf_max b\<rparr>,
                                     mem_before := take k (mem_before m)\<rparr>)\<rparr>)
           else
             bio\<lparr>bio_ptr := Some (m\<lparr>mem_buf := b\<lparr>buf_data := Some (replicate (buf_max b) 0 @ drop (buf_max b) d), buf_length := 0\<rparr>\<rparr>)\<rparr>))"

text \<open>
  \<open>pbuf\<close> is the \<open>BUF_MEM *\<close> that \<open>BIO_C_SET_BUF_MEM\<close> installs; \<open>has_ptr\<close> says whether the
  pointer argument of the other calls is not NULL.
\<close>

definition mem_ctrl :: "mem_bio \<Rightarrow> int \<Rightarrow> int \<Rightarrow> buf_mem option \<Rightarrow> bool \<Rightarrow> int \<times> ctrl_out \<times> mem_bio" where
  "mem_ctrl bio cmd num pbuf has_ptr =
     (let b = mem_buf (the_mem bio) in
      if cmd = BIO_CTRL_RESET then (1, NoOut, mem_reset bio)
      else if cmd = BIO_CTRL_EOF then (if buf_length b = 0 then 1 else 0, NoOut, bio)
      else if cmd = BIO_C_SET_BUF_MEM_EOF_RETURN then (1, NoOut, bio\<lparr>bio_num := num\<rparr>)
      else if cmd = BIO_CTRL_INFO then (int (buf_length b), if has_ptr then DataOut (buf_data b) else NoOut, bio)
      else if cmd = BIO_C_SET_BUF_MEM then
        (1, NoOut, bio\<lparr>bio_shutdown := num, bio_ptr := map_option (\<lambda>b. \<lparr>mem_buf = b, mem_before = []\<rparr>) pbuf\<rparr>)
      else if cmd = BIO_C_GET_BUF_MEM_PTR then (1, if has_ptr then BufOut b else NoOut, bio)
      else if cmd = BIO_CTRL_GET_CLOSE then (bio_shutdown bio, NoOut, bio)
      else if cmd = BIO_CTRL_SET_CLOSE then (1, NoOut, bio\<lparr>bio_shutdown := num\<rparr>)
      else if cmd = BIO_CTRL_WPENDING then (0, NoOut, bio)
      else if cmd = BIO_CTRL_PENDING then (int (buf_length b), NoOut, bio)
      else if cmd = BIO_CTRL_FLUSH then (1, NoOut, bio)
      else (0, NoOut, bio))"

definition BIO_mem_contents :: "mem_bio \<Rightarrow> byte list" where
  "BIO_mem_contents bio = take (buf_length (mem_buf (the_mem bio))) (data_bytes (mem_buf (the_mem bio)))"

definition BIO_get_mem_data :: "mem_bio \<Rightarrow> int \<times> ctrl_out \<times> mem_bio" where
  "BIO_get_mem_data bio = mem_ctrl bio BIO_CTRL_INFO 0 None True"

definition BIO_get_mem_ptr :: "mem_bio \<Rightarrow> int \<times> ctrl_out \<times> mem_bio" where
  "BIO_get_mem_ptr bio = mem_ctrl bio BIO_C_GET_BUF_MEM_PTR 0 None True"

definition BIO_set_mem_buf :: "mem_bio \<Rightarrow> buf_mem \<Rightarrow> int \<Rightarrow> int \<times> ctrl_out \<times> mem_bio" where
  "BIO_set_mem_buf bio b take_ownership = mem_ctrl bio BIO_C_SET_BUF_MEM take_ownership (Some b) True"

section \<open>A memory BIO is a queue of bytes\<close>

definition mem_inv :: "mem_bio \<Rightarrow> bool" where
  "mem_inv bio \<longleftrightarrow> bio_init bio \<noteq> 0 \<and> bio_num bio \<le> 0 \<and>
     (case bio_ptr bio of
        None \<Rightarrow> False
      | Some m \<Rightarrow>
          buf_length (mem_buf m) \<le> int_max \<and> buf_length (mem_buf m) \<le> length (data_bytes (mem_buf m)) \<and>
          (\<not> rdonly bio \<longrightarrow> buf_ok (mem_buf m)))"

text \<open>The reads and writes of a memory BIO through the front end; the state includes the allocator.\<close>

definition mem_wr :: "mem_bio \<times> allocator \<Rightarrow> byte list \<Rightarrow> int \<times> (mem_bio \<times> allocator)" where
  "mem_wr s bs =
     BIO_write fst apfst (Some (\<lambda>(bio, al) inp inl. case mem_write al bio inp inl of (r, bio', al') \<Rightarrow> (r, (bio', al')))) s bs (int (length bs))"

definition mem_rd :: "mem_bio \<times> allocator \<Rightarrow> int \<Rightarrow> int \<times> byte list \<times> (mem_bio \<times> allocator)" where
  "mem_rd s k =
     BIO_read fst apfst (Some (\<lambda>(bio, al) k. case mem_read bio k of (r, out, bio') \<Rightarrow> (r, out, (bio', al)))) s k"

lemma retry_not_rdonly: "(x AND NOT kRetryFlags) AND BIO_FLAGS_MEM_RDONLY = x AND BIO_FLAGS_MEM_RDONLY"
proof -
  have "NOT kRetryFlags AND BIO_FLAGS_MEM_RDONLY = BIO_FLAGS_MEM_RDONLY"
    by (simp add: kRetryFlags_def BIO_FLAGS_RWS_def BIO_FLAGS_READ_def BIO_FLAGS_WRITE_def BIO_FLAGS_IO_SPECIAL_def
        BIO_FLAGS_SHOULD_RETRY_def BIO_FLAGS_MEM_RDONLY_def)
  then show ?thesis by (simp add: and.assoc)
qed

lemma retry_read_rdonly: "(x OR (BIO_FLAGS_READ OR BIO_FLAGS_SHOULD_RETRY)) AND BIO_FLAGS_MEM_RDONLY = x AND BIO_FLAGS_MEM_RDONLY"
proof -
  have "(BIO_FLAGS_READ OR BIO_FLAGS_SHOULD_RETRY) AND BIO_FLAGS_MEM_RDONLY = 0"
    by (simp add: BIO_FLAGS_READ_def BIO_FLAGS_SHOULD_RETRY_def BIO_FLAGS_MEM_RDONLY_def)
  then show ?thesis by (simp add: and.commute [of _ BIO_FLAGS_MEM_RDONLY] bit.conj_disj_distrib)
qed

lemma clear_retry_simps [simp]:
  "rdonly (BIO_clear_retry_flags bio) = rdonly bio" "bio_ptr (BIO_clear_retry_flags bio) = bio_ptr bio"
  "bio_init (BIO_clear_retry_flags bio) = bio_init bio" "bio_num (BIO_clear_retry_flags bio) = bio_num bio"
  "the_mem (BIO_clear_retry_flags bio) = the_mem bio"
  by (simp_all add: rdonly_def BIO_clear_retry_flags_def retry_not_rdonly the_mem_def)

lemma set_retry_simps [simp]:
  "rdonly (BIO_set_retry_read bio) = rdonly bio" "bio_ptr (BIO_set_retry_read bio) = bio_ptr bio"
  "bio_init (BIO_set_retry_read bio) = bio_init bio" "bio_num (BIO_set_retry_read bio) = bio_num bio"
  "the_mem (BIO_set_retry_read bio) = the_mem bio"
  by (simp_all add: rdonly_def BIO_set_retry_read_def retry_read_rdonly the_mem_def)

lemma ptr_update_simps [simp]:
  "rdonly (bio\<lparr>bio_ptr := p\<rparr>) = rdonly bio" "the_mem (bio\<lparr>bio_ptr := Some m\<rparr>) = m"
  "rdonly (bio\<lparr>num_read := n\<rparr>) = rdonly bio" "the_mem (bio\<lparr>num_read := n\<rparr>) = the_mem bio"
  "rdonly (bio\<lparr>num_write := n\<rparr>) = rdonly bio" "the_mem (bio\<lparr>num_write := n\<rparr>) = the_mem bio"
  by (simp_all add: rdonly_def the_mem_def)

lemma mem_inv_transfer:
  "mem_inv bio \<Longrightarrow> bio_init bio' = bio_init bio \<Longrightarrow> bio_num bio' = bio_num bio \<Longrightarrow> bio_ptr bio' = bio_ptr bio \<Longrightarrow>
   rdonly bio' = rdonly bio \<Longrightarrow> mem_inv bio'"
  by (auto simp: mem_inv_def split: option.splits)

lemma contents_transfer: "bio_ptr bio' = bio_ptr bio \<Longrightarrow> BIO_mem_contents bio' = BIO_mem_contents bio"
  by (simp add: BIO_mem_contents_def the_mem_def)

lemma mem_read_spec:
  assumes inv: "mem_inv bio" and "0 < k" and "k \<le> int int_max" and r: "mem_read bio k = (n, out, bio')"
  shows "mem_inv bio' \<and> n \<le> k \<and> BIO_mem_contents bio = out @ BIO_mem_contents bio' \<and> length out = nat n \<and>
    (BIO_mem_contents bio \<noteq> [] \<longrightarrow> n = min k (int (length (BIO_mem_contents bio))))"
proof -
  obtain m where m: "bio_ptr bio = Some m" using inv by (auto simp: mem_inv_def split: option.splits)
  define b where "b = mem_buf m"
  define d where "d = data_bytes b"
  have tm: "the_mem bio = m" using m by (simp add: the_mem_def)
  have l: "buf_length b \<le> int_max" "buf_length b \<le> length d" and init: "bio_init bio \<noteq> 0" "bio_num bio \<le> 0"
    and ok: "\<not> rdonly bio \<Longrightarrow> buf_ok b"
    using inv m by (simp_all add: mem_inv_def b_def d_def)
  have c: "BIO_mem_contents bio = take (buf_length b) d" by (simp add: BIO_mem_contents_def tm b_def d_def)
  show ?thesis
  proof (cases "buf_length b = 0")
    case True
    then have "n = bio_num bio" "out = []" "bio_ptr bio' = bio_ptr bio" "bio_init bio' = bio_init bio" "bio_num bio' = bio_num bio"
      "rdonly bio' = rdonly bio"
      using r assms(2) by (auto simp: mem_read_def Let_def tm b_def int_max_def split: if_splits)
    then show ?thesis using mem_inv_transfer [OF inv, of bio'] contents_transfer [of bio' bio] c True init assms(2) by simp
  next
    case False
    define t where "t = min (nat k) (buf_length b)"
    have ret: "(if buf_length b < int_max \<and> k > int (buf_length b) then int (buf_length b) else k) = int t"
      using assms(2,3) l by (auto simp: t_def)
    have t: "0 < t" "t \<le> buf_length b" using False assms(2) by (simp_all add: t_def)
    define m' where "m' = (if rdonly bio
             then m\<lparr>mem_buf := b\<lparr>buf_length := buf_length b - t, buf_data := Some (drop t d)\<rparr>, mem_before := mem_before m @ take t d\<rparr>
             else m\<lparr>mem_buf := b\<lparr>buf_length := buf_length b - t, buf_data := Some (take (buf_length b - t) (drop t d) @ drop (buf_length b - t) d)\<rparr>\<rparr>)"
    have e: "n = int t" "out = take t d" "bio' = (BIO_clear_retry_flags bio)\<lparr>bio_ptr := Some m'\<rparr>"
      using r t unfolding mem_read_def Let_def clear_retry_simps tm b_def [symmetric] ret d_def [symmetric]
      by (auto simp: m'_def)
    have "take (buf_length b) d = take t d @ take (buf_length b - t) (drop t d)"
      using t(2) by (metis le_add_diff_inverse take_add)
    moreover have m': "take (buf_length (mem_buf m')) (data_bytes (mem_buf m')) = take (buf_length b - t) (drop t d)"
      "buf_length (mem_buf m') = buf_length b - t" "buf_length b - t \<le> length (data_bytes (mem_buf m'))"
      "\<not> rdonly bio \<Longrightarrow> buf_ok (mem_buf m')"
      using l t ok by (auto simp: m'_def data_bytes_def buf_ok_def d_def split: option.splits)
    ultimately have "BIO_mem_contents bio = out @ BIO_mem_contents bio'"
      unfolding c using e by (simp add: BIO_mem_contents_def)
    moreover have "mem_inv bio'" using m' e init l t by (simp add: mem_inv_def)
    moreover have "n = min k (int (length (BIO_mem_contents bio)))" "length out = nat n" "n \<le> k"
      using assms(2) l t e(1,2) unfolding c by (simp_all add: t_def)
    ultimately show ?thesis by blast
  qed
qed

lemma to_int_id: "n \<le> int_max \<Longrightarrow> to_int n = int n"
  by (simp add: to_int_def int_max_def signed_of_nat signed_take_bit_int_eq_self)

lemma buf_contents_data: "buf_contents b = take (buf_length b) (data_bytes b)"
  by (simp add: buf_contents_def data_bytes_def split: option.split)

lemma length_data_bytes: "buf_ok b \<Longrightarrow> length (data_bytes b) = buf_max b"
  by (auto simp: buf_ok_def data_bytes_def split: option.splits)

text \<open>A write of at least one byte. It fails on a read-only BIO, past \<open>INT_MAX\<close> bytes and without memory.\<close>

lemma mem_write_spec:
  assumes inv: "mem_inv bio" and bs: "bs \<noteq> []" "length bs \<le> int_max" and w: "mem_write al bio bs (int (length bs)) = (n, bio', al')"
  shows "mem_inv bio' \<and>
    (if n = int (length bs) then BIO_mem_contents bio' = BIO_mem_contents bio @ bs
     else n = - 1 \<and> BIO_mem_contents bio' = BIO_mem_contents bio \<and>
       (\<not> rdonly bio \<longrightarrow> never_fails al \<longrightarrow> int_max < length (BIO_mem_contents bio) + length bs))"
proof -
  obtain m where m: "bio_ptr bio = Some m" using inv by (auto simp: mem_inv_def split: option.splits)
  define b where "b = mem_buf m"
  have tm: "the_mem bio = m" using m by (simp add: the_mem_def)
  have l: "buf_length b \<le> int_max" "buf_length b \<le> length (data_bytes b)" and init: "bio_init bio \<noteq> 0" "bio_num bio \<le> 0"
    and ok: "\<not> rdonly bio \<Longrightarrow> buf_ok b"
    using inv m by (simp_all add: mem_inv_def b_def)
  have c: "BIO_mem_contents bio = buf_contents b" by (simp add: BIO_mem_contents_def tm b_def buf_contents_data)
  define bio1 where "bio1 = BIO_clear_retry_flags bio"
  have b1: "mem_inv bio1" "BIO_mem_contents bio1 = BIO_mem_contents bio"
    using mem_inv_transfer [OF inv, of bio1] contents_transfer [of bio1 bio] by (simp_all add: bio1_def)
  define k where "k = buf_length b + length bs"
  show ?thesis
  proof (cases "rdonly bio")
    case True
    then show ?thesis using w inv by (simp add: mem_write_def)
  next
    case rw: False
    note ok = ok [OF rw]
    have len: "length (buf_contents b) = buf_length b" by (rule length_buf_contents [OF ok])
    note w = w [unfolded mem_write_def Let_def clear_retry_simps tm b_def [symmetric] to_int_id [OF l(1)], folded bio1_def]
    show ?thesis
    proof (cases "int_max < k")
      case True
      then have "n = - 1" "bio' = bio1" using w rw by (auto simp: k_def)
      then show ?thesis using b1 True by (simp add: c len k_def)
    next
      case False
      then have k: "k < size_max1" "reserve_size k + 8 < size_max1" by (simp_all add: int_max_def size_max1_def reserve_size_def)
      obtain r b' al1 where g: "BUF_MEM_grow al b k = (r, b', al1)" by (metis prod_cases3)
      have "nat (int (buf_length b) + int (length bs)) = k" by (simp add: k_def)
      then have w': "(n, bio', al') =
          (if r \<noteq> k then (- 1, bio1\<lparr>bio_ptr := Some (m\<lparr>mem_buf := b'\<rparr>)\<rparr>, al1)
           else (int (length bs), bio1\<lparr>bio_ptr := Some (m\<lparr>mem_buf := b'\<lparr>buf_data := buf_write b' (buf_length b) bs\<rparr>\<rparr>)\<rparr>, al1))"
        using w rw False g by (simp add: BUF_MEM_grow_clean_def k_def split: if_splits)
      have "k \<noteq> 0" using bs by (simp add: k_def)
      then consider (full) "r = k" "buf_ok b'" "buf_contents b' = buf_contents b @ replicate (length bs) 0"
        | (fail) "r \<noteq> k" "b' = b" "\<not> never_fails al"
        using BUF_MEM_grow_spec [OF ok k(1) g] k(2) len by (auto simp: k_def)
      then show ?thesis
      proof cases
        case full
        define b2 where "b2 = b'\<lparr>buf_data := buf_write b' (buf_length b) bs\<rparr>"
        have l': "buf_length b' = k" using length_buf_contents [OF full(2)] full(3) len by (simp add: k_def)
        then have b2: "b2 = b'\<lparr>buf_data := buf_write b' (buf_length b) bs, buf_length := buf_length b + length bs\<rparr>"
          by (simp add: b2_def k_def)
        have le: "k \<le> buf_max b'" using full(2) l' by (auto simp: buf_ok_def)
        have "take (buf_length b) (buf_contents b') = buf_contents b" using full(3) len by simp
        then have ok2: "buf_ok b2" "buf_contents b2 = buf_contents b @ bs"
          using buf_write_spec [OF full(2), of "buf_length b" bs] le l' \<open>k \<noteq> 0\<close> unfolding b2 by (simp_all add: k_def)
        have l2: "buf_length b2 = k" by (simp add: b2 k_def)
        have "n = int (length bs)" "bio' = bio1\<lparr>bio_ptr := Some (m\<lparr>mem_buf := b2\<rparr>)\<rparr>" using w' full(1) by (simp_all add: b2_def)
        moreover have "k \<le> length (data_bytes b2)" using length_data_bytes [OF ok2(1)] ok2(1) l2 by (simp add: buf_ok_def)
        ultimately show ?thesis
          using init ok2 l2 False by (simp add: mem_inv_def bio1_def BIO_mem_contents_def tm b_def [symmetric] buf_contents_data)
      next
        case fail
        then have "n = - 1" "bio' = bio1\<lparr>bio_ptr := Some m\<rparr>" using w' by (simp_all add: b_def)
        moreover have "bio1\<lparr>bio_ptr := Some m\<rparr> = bio1" using m by (simp add: bio1_def BIO_clear_retry_flags_def)
        ultimately show ?thesis using b1 fail(3) by simp
      qed
    qed
  qed
qed

lemma mem_wr_law:
  assumes "mem_inv (fst s)" and "length bs \<le> int_max" and "mem_wr s bs = (n, s')"
  shows "mem_inv (fst s') \<and> nat n \<le> length bs \<and> BIO_mem_contents (fst s') = BIO_mem_contents (fst s) @ take (nat n) bs"
proof (cases "bs = []")
  case True
  then show ?thesis using assms by (cases "bio_init (fst s) = 0") (auto simp: mem_wr_def BIO_write_def)
next
  case False
  obtain bio al where s: "s = (bio, al)" by fastforce
  obtain r bio1 al1 where w: "mem_write al bio bs (int (length bs)) = (r, bio1, al1)" by (metis prod_cases3)
  have "bio_init bio \<noteq> 0" using assms(1) s by (simp add: mem_inv_def)
  then have e: "n = r" "fst s' = (if r > 0 then bio1\<lparr>num_write := size_add (num_write bio1) (nat r)\<rparr> else bio1)"
    using assms(3) s w False by (auto simp: mem_wr_def BIO_write_def)
  have "mem_inv bio1" and r: "if r = int (length bs) then BIO_mem_contents bio1 = BIO_mem_contents bio @ bs
      else r = - 1 \<and> BIO_mem_contents bio1 = BIO_mem_contents bio"
    using mem_write_spec [OF _ False assms(2) w] assms(1) s by (auto split: if_splits)
  then have "mem_inv (fst s')" "BIO_mem_contents (fst s') = BIO_mem_contents bio1"
    using mem_inv_transfer [of bio1 "fst s'"] contents_transfer [of "fst s'" bio1] e(2) by simp_all
  then show ?thesis using r e(1) s by (simp split: if_splits)
qed

lemma mem_rd_law:
  assumes "mem_inv (fst s)" and "0 < k" and "k \<le> int int_max" and "mem_rd s k = (n, out, s')"
  shows "mem_inv (fst s') \<and> n \<le> k \<and> BIO_mem_contents (fst s) = out @ BIO_mem_contents (fst s') \<and> length out = nat n \<and>
    (BIO_mem_contents (fst s) \<noteq> [] \<longrightarrow> 0 < n)"
proof -
  obtain bio al where s: "s = (bio, al)" by fastforce
  obtain r o1 bio1 where w: "mem_read bio k = (r, o1, bio1)" by (metis prod_cases3)
  have "bio_init bio \<noteq> 0" using assms(1) s by (simp add: mem_inv_def)
  then have e: "n = r" "out = o1" "fst s' = (if r > 0 then bio1\<lparr>num_read := size_add (num_read bio1) (nat r)\<rparr> else bio1)"
    using assms(2,4) s w by (auto simp: mem_rd_def BIO_read_def)
  have spec: "mem_inv bio1 \<and> r \<le> k \<and> BIO_mem_contents bio = o1 @ BIO_mem_contents bio1 \<and> length o1 = nat r \<and>
      (BIO_mem_contents bio \<noteq> [] \<longrightarrow> r = min k (int (length (BIO_mem_contents bio))))"
    using assms(1) s by (intro mem_read_spec [OF _ assms(2,3) w]) simp
  then have "mem_inv (fst s')" using mem_inv_transfer [of bio1 "fst s'"] e(3) by (simp split: if_splits)
  moreover have "BIO_mem_contents (fst s') = BIO_mem_contents bio1" using contents_transfer [of "fst s'" bio1] e(3) by simp
  moreover have "0 < r" if "BIO_mem_contents bio \<noteq> []"
  proof -
    have "0 < length (BIO_mem_contents bio)" using that by simp
    then show ?thesis using spec that assms(2) by linarith
  qed
  ultimately show ?thesis using spec unfolding e(1,2) s fst_conv by metis
qed

interpretation mem: byte_queue "\<lambda>s. mem_inv (fst s)" "\<lambda>s. BIO_mem_contents (fst s)" mem_wr mem_rd
  by unfold_locales (fact mem_wr_law, fact mem_rd_law)

section \<open>Lines\<close>

lemma newline_scan_take: "j \<le> length p \<Longrightarrow> take (newline_scan p j) p = take j (first_line (take j p)) \<and> newline_scan p j \<le> j"
  by (induction p j rule: newline_scan.induct) (auto simp: first_line_Cons)

lemma newline_scan_pos: "0 < j \<Longrightarrow> p \<noteq> [] \<Longrightarrow> 0 < newline_scan p j"
  by (cases p; cases j) auto

lemma mem_inv_length: "mem_inv bio \<Longrightarrow> length (BIO_mem_contents bio) = buf_length (mem_buf (the_mem bio))"
  by (auto simp: mem_inv_def BIO_mem_contents_def the_mem_def split: option.splits)

lemma newline_scan_spec:
  assumes "n \<le> length p" and "j \<le> n"
  shows "take (newline_scan p j) (take n p) = take j (first_line (take n p))" and "newline_scan p j = length (take j (first_line (take n p)))"
proof -
  have "take j (take n p) = take j p" using assms(2) by (simp add: min_absorb1)
  moreover have le: "newline_scan p j \<le> j" and t: "take (newline_scan p j) p = take j (first_line (take j p))"
    using newline_scan_take [of j p] assms by simp_all
  ultimately have e: "take (newline_scan p j) p = take j (first_line (take n p))"
    by (metis first_line_take min.idem take_take)
  then show "take (newline_scan p j) (take n p) = take j (first_line (take n p))" using le assms by (simp add: min_absorb1)
  show "newline_scan p j = length (take j (first_line (take n p)))"
    using arg_cong [OF e, of length] le assms by (simp add: min_absorb2)
qed

lemma mem_gets_spec:
  assumes inv: "mem_inv bio" and "1 < sz" and "sz \<le> int int_max" and c: "BIO_mem_contents bio \<noteq> []"
    and g: "mem_gets bio sz = (n, out, bio')"
  shows "mem_inv bio' \<and> out = take (nat sz - 1) (first_line (BIO_mem_contents bio)) @ [0] \<and> n = int (length out) - 1 \<and>
    BIO_mem_contents bio = take (nat n) out @ BIO_mem_contents bio'"
proof -
  define b where "b = mem_buf (the_mem bio)"
  define bio1 where "bio1 = BIO_clear_retry_flags bio"
  define bs where "bs = BIO_mem_contents bio"
  have b1: "mem_inv bio1" "BIO_mem_contents bio1 = bs"
    using mem_inv_transfer [OF inv, of bio1] contents_transfer [of bio1 bio] by (simp_all add: bio1_def bs_def)
  have bl: "length bs = buf_length b" and bs: "bs = take (buf_length b) (data_bytes b)"
    using mem_inv_length [OF inv] by (simp_all add: b_def bs_def BIO_mem_contents_def)
  have lb: "buf_length b \<le> int_max" "buf_length b \<le> length (data_bytes b)"
    using inv by (auto simp: mem_inv_def b_def the_mem_def split: option.splits)
  define j where "j = min (nat sz - 1) (buf_length b)"
  have "0 < length bs" using c by (simp add: bs_def)
  then have j: "0 < j" "j \<le> buf_length b" using assms(2) bl by (auto simp: j_def)
  have je: "(if sz - 1 < int (buf_length b) then sz - 1 else int (buf_length b)) = int j" using assms(2) by (auto simp: j_def)
  define i where "i = newline_scan (data_bytes b) j"
  have le: "length (first_line bs) \<le> buf_length b" using length_first_line [of bs] bl by simp
  then have tj: "take j (first_line bs) = take (nat sz - 1) (first_line bs)" by (auto simp: j_def min_def)
  have i: "take i bs = take (nat sz - 1) (first_line bs)" "i = length (take (nat sz - 1) (first_line bs))"
    using newline_scan_spec [OF lb(2) j(2)] unfolding bs [symmetric] tj i_def by blast+
  have "0 < i" using newline_scan_pos [OF j(1), of "data_bytes b"] \<open>0 < length bs\<close> bs by (auto simp: i_def)
  moreover have "i \<le> buf_length b" using i(2) le by simp
  ultimately have ip: "0 < i" "i \<le> buf_length b" "i \<le> int_max" using lb(1) by simp_all
  obtain r o1 bio2 where rd: "mem_read bio1 (int i) = (r, o1, bio2)" by (metis prod_cases3)
  have ii: "0 < int i" "int i \<le> int int_max" using ip by simp_all
  have "mem_inv bio2 \<and> bs = o1 @ BIO_mem_contents bio2 \<and> length o1 = nat r \<and> r = min (int i) (int (length bs))"
    using mem_read_spec [OF b1(1) ii rd, unfolded b1(2)] c [folded bs_def] by blast
  moreover from this have "r = int i" using ip(2) bl by simp
  ultimately have o1: "mem_inv bio2" "bs = o1 @ BIO_mem_contents bio2" "length o1 = i" "r = int i" by simp_all
  have "mem_gets bio sz = (case mem_read bio1 (int i) of (i, out, bio') \<Rightarrow> (i, if i > 0 then out @ [0] else out, bio'))"
    unfolding mem_gets_def Let_def clear_retry_simps b_def [symmetric] to_int_id [OF lb(1)] je bio1_def i_def
    using j(1) by simp
  then have "mem_gets bio sz = (r, o1 @ [0], bio2)" using rd o1(4) ip(1) by simp
  then have e: "n = int i" "out = o1 @ [0]" "bio' = bio2" using g o1(4) by simp_all
  have t: "o1 = take (nat sz - 1) (first_line bs)" unfolding i(1) [symmetric] using o1(3) by (subst o1(2)) simp
  have "take (nat n) out = o1" "n = int (length out) - 1" using e o1(3) by simp_all
  then show ?thesis unfolding bs_def [symmetric] e(2,3) using o1(1,2) t by metis
qed

lemma mem_gets_end:
  "BIO_mem_contents bio = [] \<Longrightarrow> mem_inv bio \<Longrightarrow> 1 < sz \<Longrightarrow> mem_gets bio sz = (0, [0], BIO_clear_retry_flags bio)"
  using mem_inv_length [of bio] by (simp add: mem_gets_def to_int_def Let_def)

text \<open>\<open>BIO_gets\<close> on a memory BIO, as a source of lines.\<close>

definition mem_bio_gets :: "mem_bio \<Rightarrow> int \<Rightarrow> int \<times> byte list \<times> mem_bio" where
  "mem_bio_gets = BIO_gets (\<lambda>b. b) (\<lambda>f. f) (Some mem_gets)"

lemma mem_count: "mem_inv bio \<Longrightarrow> mem_inv (bio\<lparr>num_read := k\<rparr>)" "BIO_mem_contents (bio\<lparr>num_read := k\<rparr>) = BIO_mem_contents bio"
  using mem_inv_transfer [of bio "bio\<lparr>num_read := k\<rparr>"] contents_transfer [of "bio\<lparr>num_read := k\<rparr>" bio] by (simp_all add: rdonly_def)

interpretation mem_lines: line_source mem_inv BIO_mem_contents mem_bio_gets
proof unfold_locales
  fix bio sz n out bio'
  assume a: "mem_inv bio" "1 < sz" "sz \<le> int int_max" and g: "mem_bio_gets bio sz = (n, out, bio')"
  have i: "bio_init bio \<noteq> 0" using a(1) by (simp add: mem_inv_def)
  obtain r bio1 where m: "mem_gets bio sz = (r, out, bio1)" "bio' = (if r > 0 then bio1\<lparr>num_read := size_add (num_read bio1) (nat r)\<rparr> else bio1)"
    using g i a(2) by (auto simp: mem_bio_gets_def BIO_gets_def split: prod.splits)
  show "mem_inv bio' \<and> out = take (nat sz - 1) (first_line (BIO_mem_contents bio)) @ [0] \<and> BIO_mem_contents bio = butlast out @ BIO_mem_contents bio'"
  proof (cases "BIO_mem_contents bio = []")
    case True
    then show ?thesis
      using mem_gets_end [OF True a(1,2)] m mem_inv_transfer [OF a(1), of "BIO_clear_retry_flags bio"] contents_transfer [of "BIO_clear_retry_flags bio" bio]
      by simp
  next
    case False
    note spec = mem_gets_spec [OF a False m(1)]
    then have "r = int (length out) - 1" by blast
    then have "nat r = length out - 1" by linarith
    then have b: "take (nat r) out = butlast out" by (simp add: butlast_conv_take)
    have "mem_inv bio1" using spec by blast
    then have "mem_inv bio'" "BIO_mem_contents bio' = BIO_mem_contents bio1" using m(2) mem_count by simp_all
    then show ?thesis using spec unfolding b by metis
  qed
qed

text \<open>A writable BIO with four bytes in it.\<close>

definition example_bio :: mem_bio where
  "example_bio = \<lparr>bio_init = 1, bio_shutdown = 1, bio_flags = 0, retry_reason = 0, bio_num = - 1,
     bio_ptr = Some \<lparr>mem_buf = \<lparr>buf_length = 4, buf_data = Some [1, 2, 0x0a, 7, 0], buf_max = 5\<rparr>, mem_before = []\<rparr>,
     num_read = 0, num_write = 4\<rparr>"

lemma example_bio: "mem_inv example_bio" "BIO_mem_contents example_bio = [1, 2, 0x0a, 7]" "\<not> rdonly example_bio"
  by (simp_all add: example_bio_def mem_inv_def BIO_mem_contents_def the_mem_def data_bytes_def rdonly_def buf_ok_def
      int_max_def size_max1_def)

section \<open>Properties\<close>

text \<open>C19: A memory BIO is a FIFO queue: for every sequence of reads and writes of any sizes, with
  failures of the allocator anywhere, the bytes that were in it and those that writes reported
  as accepted are, in order, the bytes that reads delivered and those still in it.\<close>

theorem mem_bio_fifo:
  assumes "mem_inv bio" and "list_all op_ok ops" and "run_ops mem_wr mem_rd ops (bio, al) = (acc, got, (bio', al'))"
  shows "mem_inv bio' \<and> BIO_mem_contents bio @ acc = got @ BIO_mem_contents bio'"
  using mem.run_ops_fifo [of "(bio, al)" ops acc got "(bio', al')"] assms by simp

theorem mem_bio_fifo_witness:
  "case run_ops mem_wr mem_rd [QWrite [3, 4], QRead 3, QRead 5] (example_bio, plentiful) of
     (acc, got, (bio', al')) \<Rightarrow> [1, 2, 0x0a, 7] @ acc = got @ BIO_mem_contents bio'"
proof -
  obtain acc got bio' al' where r: "run_ops mem_wr mem_rd [QWrite [3, 4], QRead 3, QRead 5] (example_bio, plentiful) = (acc, got, (bio', al'))"
    by (metis prod_cases4)
  have "list_all op_ok [QWrite [3, 4], QRead 3, QRead 5]" by (simp add: int_max_def)
  from mem_bio_fifo [OF example_bio(1) this r] show ?thesis unfolding r by (simp add: example_bio(2))
qed

text \<open>A line read with \<open>mem_gets\<close> is the longest prefix of the contents that fits in the
  buffer with the NUL and does not go past the first newline; it is taken from the BIO and a NUL is
  written behind it.\<close>

theorem mem_gets_line:
  assumes inv: "mem_inv bio" and "1 < sz" and "sz \<le> int int_max" and c: "BIO_mem_contents bio \<noteq> []"
    and g: "mem_gets bio sz = (n, out, bio')"
  shows "mem_inv bio' \<and> out = take (nat sz - 1) (first_line (BIO_mem_contents bio)) @ [0] \<and> n = int (length out) - 1 \<and>
    BIO_mem_contents bio = take (nat n) out @ BIO_mem_contents bio'"
  using assms by (rule mem_gets_spec)

theorem mem_gets_line_witness:
  "case mem_gets example_bio 16 of (n, out, bio') \<Rightarrow> n = 3 \<and> out = [1, 2, 0x0a, 0] \<and> BIO_mem_contents bio' = [7]"
proof -
  obtain n out bio' where g: "mem_gets example_bio 16 = (n, out, bio')" by (metis prod_cases3)
  have "out = [1, 2, 0x0a, 0]" "n = 3" "[1, 2, 0x0a, 7] = take (nat n) out @ BIO_mem_contents bio'"
    using mem_gets_line [OF example_bio(1) _ _ _ g] by (simp_all add: example_bio(2) int_max_def first_line_Cons)
  then show ?thesis unfolding g by simp
qed

end
