(* ===== verification/Bio_Asn1.thy ===== *)
theory Bio_Asn1
  imports Bio_Mem Der
begin

text \<open>
  \<open>BIO_read_asn1\<close> of \<open>crypto/bio/bio.c\<close> against the encoding of Der: on any BIO that is a byte
  queue it takes exactly one DER element from the front. The proof is in the interface
  \<open>byte_queue\<close>; the memory BIO is the instance.
\<close>

lemma foldl_be_word32:
  "foldl (\<lambda>l b. push_bit 8 l OR ucast b) (ucast r :: uint32) bs = ucast (foldl (\<lambda>l b. push_bit 8 l OR ucast b) r bs)"
  for r :: uint64
proof (induction bs arbitrary: r)
  case (Cons b bs)
  have "push_bit 8 (ucast r :: uint32) OR ucast b = ucast (push_bit 8 r OR ucast b)"
    by (rule bit_eqI) (auto simp: bit_simps)
  then show ?case using Cons by simp
qed simp

lemma be_word32:
  assumes "length bs \<le> 4"
  shows "unat (foldl (\<lambda>l b. push_bit 8 l OR ucast b) (0 :: uint32) bs) = be_val bs"
proof -
  have p: "(256 :: nat) ^ length bs \<le> 256 ^ 4" using assms by (intro power_increasing) auto
  have u: "unat (foldl (\<lambda>l b. push_bit 8 l OR ucast b) (0 :: uint64) bs) = be_val bs" using p by (subst foldl_be_word) auto
  have "foldl (\<lambda>l b. push_bit 8 l OR ucast b) (0 :: uint32) bs = ucast (foldl (\<lambda>l b. push_bit 8 l OR ucast b) (0 :: uint64) bs)"
    using foldl_be_word32 [of 0 bs] by simp
  moreover have "be_val bs < 2 ^ 32" using be_val_lt [of bs] p by simp
  ultimately show ?thesis using u by (simp add: unsigned_ucast_eq take_bit_nat_eq_self)
qed

text \<open>An element whose tag number is below 31 has a one-byte identifier.\<close>

definition low_tag :: "uint32 \<Rightarrow> bool" where
  "low_tag t \<longleftrightarrow> unat t mod 2 ^ 29 < 31"

lemma low_tag_byte:
  assumes "low_tag t"
  obtains b where "der_tag_bytes t = [b]" and "b AND 0x1f \<noteq> 0x1f"
proof -
  define b where "b = (of_nat (unat t div 2 ^ 29 * 32 + unat t mod 2 ^ 29) :: byte)"
  have "unat b mod 32 = unat t mod 2 ^ 29"
    unfolding b_def using assms by (intro unat_tag_byte unat_uint32_hi) (simp add: low_tag_def)
  moreover have "unat (b AND 0x1f) = unat b mod 32" unfolding mask_lits unat_and_low by simp
  ultimately have "unat (b AND 0x1f) \<noteq> 31" using assms by (simp add: low_tag_def)
  moreover have "unat (0x1f :: byte) = 31" by simp
  ultimately have "b AND 0x1f \<noteq> 0x1f" by metis
  moreover have "der_tag_bytes t = [b]" using assms by (simp add: der_tag_bytes_def b_def low_tag_def Let_def)
  ultimately show thesis using that by blast
qed

context byte_queue
begin

lemma read_asn1_body_spec:
  assumes "inv s" and c: "contents s = c @ rest" and len: "length c \<le> int_max" "length c + length header \<le> max_len" "length header \<le> 6"
    and "never_fails al"
  shows "\<exists>s' al'. read_asn1_body rd al s header (length c) max_len = (Inr (header @ c), s', al') \<and> inv s' \<and> contents s' = rest"
proof -
  have small: "length c + length header + 8 < size_max1" using len by (simp add: int_max_def size_max1_def)
  then have sa: "size_add (length c) (length header) = length c + length header" by (intro size_add_noover) simp
  obtain p al' where m: "OPENSSL_malloc al (length c + length header) = (Some p, al')"
    using OPENSSL_malloc_total [OF assms(6) small] by blast
  obtain s' where "bio_read_full rd s True (length c) = (Inr c, s')" "inv s'" "contents s' = rest"
    using read_full_spec [OF assms(1) c refl] by blast
  then show ?thesis using len m unfolding read_asn1_body_def Let_def sa by simp
qed

lemma read_asn1_der:
  assumes s: "inv s" and c: "contents s = der_element (c, t) @ rest" and "low_tag t"
    and len: "length c \<le> int_max" "length (der_element (c, t)) \<le> max_len" and al: "never_fails al"
  shows "\<exists>s' al'. BIO_read_asn1 rd al s max_len = (Inr (der_element (c, t)), s', al') \<and> inv s' \<and> contents s' = rest"
proof -
  obtain b where b: "der_tag_bytes t = [b]" "b AND 0x1f \<noteq> 0x1f" by (rule low_tag_byte [OF assms(3)])
  define n where "n = length c"
  have n: "n < 2 ^ 32" using len(1) by (simp add: n_def int_max_def)
  have el: "der_element (c, t) = b # der_len_bytes n @ c" by (simp add: der_element_def der_header_def b n_def)
  show ?thesis
  proof (cases "n < 128")
    case True
    define lb where "lb = (of_nat n :: byte)"
    have lb: "unat lb = n" using True by (simp add: lb_def)
    then have hb: "lb AND 0x80 = 0" using True by (simp add: byte_high_bit)
    have el: "der_element (c, t) = [b, lb] @ c" using True by (simp add: el der_len_bytes_def lb_def)
    obtain s1 where s1: "bio_read_full rd s True 2 = (Inr [b, lb], s1)" "inv s1" "contents s1 = c @ rest"
      using read_full_spec [OF s, of "[b, lb]" "c @ rest" 2 True] c el by auto
    then show ?thesis
      using read_asn1_body_spec [OF s1(2,3) len(1), of "[b, lb]" max_len al] len(2) al b(2) hb lb
      by (simp add: BIO_read_asn1_def el n_def)
  next
    case False
    define k lb where "k = der_len_len n" and "lb = (of_nat (128 + k) :: byte)"
    have k: "1 \<le> k" "k \<le> 4" "n < 256 ^ k" "256 ^ (k - 1) \<le> n"
      using der_len_len_bounds [of n] False n by (simp_all add: k_def)
    have lb: "unat lb = 128 + k" unfolding lb_def unat_of_nat_byte using k by simp
    then have hb: "lb AND 0x80 \<noteq> 0" by (simp add: byte_high_bit)
    have nb: "unat (lb AND 0x7f) = k" using lb k(2) by (simp only: mask_lits unat_and_low) simp
    define ls where "ls = be_bytes k n"
    have ls: "length ls = k" "be_val ls = n" using k by (simp_all add: ls_def be_val_be_bytes)
    have el: "der_element (c, t) = [b, lb] @ ls @ c" using False by (simp add: el der_len_bytes_def lb_def k_def ls_def)
    obtain s1 where s1: "bio_read_full rd s True 2 = (Inr [b, lb], s1)" "inv s1" "contents s1 = ls @ c @ rest"
      using read_full_spec [OF s, of "[b, lb]" "ls @ c @ rest" 2 True] c el by auto
    obtain s2 where s2: "bio_read_full rd s1 True k = (Inr ls, s2)" "inv s2" "contents s2 = c @ rest"
      using read_full_spec [OF s1(2,3) ls(1)] by blast
    define w where "w = foldl (\<lambda>l b. push_bit 8 l OR ucast b) (0 :: uint32) ls"
    have w: "unat w = n" using be_word32 [of ls] ls k(2) by (simp add: w_def)
    have "\<not> w < 128" using False by (simp add: word_less_nat_alt w)
    moreover have "drop_bit ((k - 1) * 8) w \<noteq> 0"
      unfolding drop_bit_eq_0_iff_unat w using k(4) by (subst mult.commute, subst power_mult) simp
    ultimately have "BIO_read_asn1 rd al s max_len = read_asn1_body rd al s2 ([b, lb] @ ls) n max_len"
      using s1(1) s2(1) b(2) hb nb k w by (simp add: BIO_read_asn1_def Let_def w_def [symmetric])
    then show ?thesis
      using read_asn1_body_spec [OF s2(2,3) len(1), of "[b, lb] @ ls" max_len al] len(2) al ls k(2)
      by (simp add: el n_def)
  qed
qed

end

section \<open>Properties\<close>

text \<open>\<open>BIO_read_asn1\<close> on a memory BIO that holds a DER element with a one-byte identifier and
  then other bytes returns the element, whatever its length, and leaves the other bytes.\<close>

theorem bio_read_asn1_element:
  assumes "mem_inv bio" and "BIO_mem_contents bio = der_element (c, t) @ rest" and "low_tag t"
    and "length c \<le> int_max" and "length (der_element (c, t)) \<le> max_len" and "never_fails al"
  shows "\<exists>bio' al0' al'. BIO_read_asn1 mem_rd al (bio, al0) max_len = (Inr (der_element (c, t)), (bio', al0'), al') \<and>
    mem_inv bio' \<and> BIO_mem_contents bio' = rest"
  using mem.read_asn1_der [of "(bio, al0)" c t rest max_len al] assms by auto

definition element_bio :: mem_bio where
  "element_bio = \<lparr>bio_init = 1, bio_shutdown = 1, bio_flags = 0, retry_reason = 0, bio_num = - 1,
     bio_ptr = Some \<lparr>mem_buf = \<lparr>buf_length = 5, buf_data = Some [4, 2, 8, 9, 7], buf_max = 5\<rparr>, mem_before = []\<rparr>,
     num_read = 0, num_write = 5\<rparr>"

theorem bio_read_asn1_element_witness:
  "\<exists>bio' al0' al'. BIO_read_asn1 mem_rd plentiful (element_bio, plentiful) 100 = (Inr [4, 2, 8, 9], (bio', al0'), al') \<and>
     mem_inv bio' \<and> BIO_mem_contents bio' = [7]"
proof -
  have e: "der_element ([8, 9], 4) = [4, 2, 8, 9]"
    by (simp add: der_element_def der_header_def der_tag_bytes_def der_len_bytes_def Let_def)
  have b: "mem_inv element_bio" "BIO_mem_contents element_bio = der_element ([8, 9], 4) @ [7]"
    by (simp_all add: e element_bio_def mem_inv_def BIO_mem_contents_def the_mem_def data_bytes_def rdonly_def buf_ok_def
        int_max_def size_max1_def)
  have t: "low_tag 4" by (simp add: low_tag_def)
  have l: "length [8, 9 :: byte] \<le> int_max" "length (der_element ([8, 9], 4)) \<le> 100" by (simp_all add: e int_max_def)
  show ?thesis using bio_read_asn1_element [OF b t l plentiful_never_fails, of plentiful] unfolding e .
qed

end
