(* ===== verification/Bio_Pair.thy ===== *)
theory Bio_Pair
  imports Bio_Mem "HOL-Library.Monad_Syntax"
begin

text \<open>
  \<open>crypto/bio/pair.c\<close>: two connected BIOs. What is written to one is read from the other;
  each end has a ring buffer for what it writes. The two ends point to each other, so the
  BIOs live in a store, and \<open>peer\<close> is an address in it.

  The result \<open>None\<close> means that the code does not return: a failed assertion, a NULL that is
  followed, a copy out of the buffer or a loop that does not end. Sizes are \<open>size_t\<close> and sums
  wrap around.
\<close>

record bio_bio_st =
  pair_peer :: "nat option"
  pair_closed :: int
  pair_len :: nat
  pair_offset :: nat
  pair_size :: nat
  pair_buf :: "byte list option"
  pair_request :: nat

type_synonym pair_bio = "bio_bio_st bio"
type_synonym bios = "nat \<Rightarrow> pair_bio"

definition assert_that :: "bool \<Rightarrow> unit option" where
  "assert_that P = (if P then Some () else None)"

definition set_bio_bio :: "bios \<Rightarrow> nat \<Rightarrow> bio_bio_st \<Rightarrow> bios" where
  "set_bio_bio st a b = st(a := (st a)\<lparr>bio_ptr := Some b\<rparr>)"

definition bio_new :: "allocator \<Rightarrow> pair_bio \<Rightarrow> bool \<times> pair_bio \<times> allocator" where
  "bio_new al bio =
     (case OPENSSL_malloc al 56 of
        (None, al') \<Rightarrow> (False, bio, al')
      | (Some _, al') \<Rightarrow>
          (True, bio\<lparr>bio_ptr := Some \<lparr>pair_peer = None, pair_closed = 0, pair_len = 0, pair_offset = 0,
                                    pair_size = 17 * 1024, pair_buf = None, pair_request = 0\<rparr>\<rparr>, al'))"

definition bio_destroy_pair :: "bios \<Rightarrow> nat \<Rightarrow> bios option" where
  "bio_destroy_pair st bio =
     (case bio_ptr (st bio) of
        None \<Rightarrow> Some st
      | Some b \<Rightarrow>
          (case pair_peer b of
             None \<Rightarrow> Some st
           | Some peer_bio \<Rightarrow>
               do {
                 peer_b \<leftarrow> bio_ptr (st peer_bio);
                 assert_that (pair_peer peer_b = Some bio);
                 assert_that (pair_buf peer_b \<noteq> None);
                 let st1 = st(peer_bio := (st peer_bio)\<lparr>bio_init := 0,
                     bio_ptr := Some (peer_b\<lparr>pair_peer := None, pair_len := 0, pair_offset := 0\<rparr>)\<rparr>);
                 b1 \<leftarrow> bio_ptr (st1 bio);
                 assert_that (pair_buf b1 \<noteq> None);
                 Some (st1(bio := (st1 bio)\<lparr>bio_init := 0,
                     bio_ptr := Some (b1\<lparr>pair_peer := None, pair_len := 0, pair_offset := 0\<rparr>)\<rparr>))
               }))"

text \<open>The memory of the BIO is released; the other end is unpaired.\<close>

definition bio_free :: "bios \<Rightarrow> nat \<Rightarrow> bios option" where
  "bio_free st bio =
     do {
       b \<leftarrow> bio_ptr (st bio);
       if pair_peer b \<noteq> None then bio_destroy_pair st bio else Some st
     }"

section \<open>Reading\<close>

text \<open>One round of the loop: the bytes copied, the new state of the buffer and what is left to read.\<close>

definition read_round :: "bio_bio_st \<Rightarrow> nat \<Rightarrow> (byte list \<times> bio_bio_st \<times> nat) option" where
  "read_round b rest =
     do {
       d \<leftarrow> pair_buf b;
       assert_that (rest \<le> pair_len b);
       let chunk = (if size_add (pair_offset b) rest \<le> pair_size b then rest else pair_size b - pair_offset b);
       assert_that (size_add (pair_offset b) chunk \<le> pair_size b);
       let out = take chunk (drop (pair_offset b) d);
       let len' = pair_len b - chunk;
       b' \<leftarrow> (if len' \<noteq> 0 then
               (let off = size_add (pair_offset b) chunk in
                do {
                  assert_that (off \<le> pair_size b);
                  Some (b\<lparr>pair_len := len', pair_offset := if off = pair_size b then 0 else off\<rparr>)
                })
             else
               do {
                 assert_that (chunk = rest);
                 Some (b\<lparr>pair_len := len', pair_offset := 0\<rparr>)
               });
       Some (out, b', rest - chunk)
     }"

partial_function (option) read_rounds :: "bio_bio_st \<Rightarrow> nat \<Rightarrow> (byte list \<times> bio_bio_st) option" where
  "read_rounds b rest =
     Option.bind (read_round b rest)
       (\<lambda>(out, b', rest').
          if rest' = 0 then Some (out, b')
          else Option.bind (read_rounds b' rest') (\<lambda>(outs, b''). Some (out @ outs, b'')))"

text \<open>\<open>has_buf\<close> says whether the caller's buffer is not NULL.\<close>

definition bio_read :: "bios \<Rightarrow> nat \<Rightarrow> bool \<Rightarrow> int \<Rightarrow> (int \<times> byte list \<times> bios) option" where
  "bio_read st0 bio has_buf size0 =
     (let sz = nat (size0 mod int size_max1);
          st = st0(bio := BIO_clear_retry_flags (st0 bio)) in
      if bio_init (st bio) = 0 then Some (0, [], st)
      else
        do {
          b \<leftarrow> bio_ptr (st bio);
          peer \<leftarrow> pair_peer b;
          peer_b \<leftarrow> bio_ptr (st peer);
          assert_that (pair_buf peer_b \<noteq> None);
          let peer_b1 = peer_b\<lparr>pair_request := 0\<rparr>;
          if \<not> has_buf \<or> sz = 0 then Some (0, [], set_bio_bio st peer peer_b1)
          else if pair_len peer_b1 = 0 then
            (if pair_closed peer_b1 \<noteq> 0 then Some (0, [], set_bio_bio st peer peer_b1)
             else
               (let st1 = st(bio := BIO_set_retry_read (st bio));
                    req = (if sz \<le> pair_size peer_b1 then sz else pair_size peer_b1) in
                Some (- 1, [], set_bio_bio st1 peer (peer_b1\<lparr>pair_request := req\<rparr>))))
          else
            (let sz' = (if pair_len peer_b1 < sz then pair_len peer_b1 else sz) in
             do {
               assert_that (sz' > 0);
               (out, peer_b2) \<leftarrow> read_rounds peer_b1 sz';
               Some (int sz', out, set_bio_bio st peer peer_b2)
             })
        })"

section \<open>Writing\<close>

definition write_round :: "bio_bio_st \<Rightarrow> byte list \<Rightarrow> nat \<Rightarrow> (bio_bio_st \<times> byte list \<times> nat) option" where
  "write_round b buf rest =
     do {
       d \<leftarrow> pair_buf b;
       assert_that (size_add (pair_len b) rest \<le> pair_size b);
       let wo = size_add (pair_offset b) (pair_len b);
       let write_offset = (if wo \<ge> pair_size b then wo - pair_size b else wo);
       let chunk = (if size_add write_offset rest \<le> pair_size b then rest else pair_size b - write_offset);
       d' \<leftarrow> mem_store d write_offset (take chunk buf);
       let len' = size_add (pair_len b) chunk;
       assert_that (len' \<le> pair_size b);
       Some (b\<lparr>pair_buf := Some d', pair_len := len'\<rparr>, drop chunk buf, rest - chunk)
     }"

partial_function (option) write_rounds :: "bio_bio_st \<Rightarrow> byte list \<Rightarrow> nat \<Rightarrow> bio_bio_st option" where
  "write_rounds b buf rest =
     Option.bind (write_round b buf rest)
       (\<lambda>(b', buf', rest'). if rest' = 0 then Some b' else write_rounds b' buf' rest')"

definition bio_write :: "bios \<Rightarrow> nat \<Rightarrow> byte list option \<Rightarrow> int \<Rightarrow> (int \<times> bios) option" where
  "bio_write st0 bio buf num0 =
     (let num = nat (num0 mod int size_max1);
          st = st0(bio := BIO_clear_retry_flags (st0 bio)) in
      case buf of
        None \<Rightarrow> Some (0, st)
      | Some inp \<Rightarrow>
          if bio_init (st bio) = 0 \<or> num = 0 then Some (0, st)
          else
            do {
              b \<leftarrow> bio_ptr (st bio);
              assert_that (pair_peer b \<noteq> None);
              assert_that (pair_buf b \<noteq> None);
              let b1 = b\<lparr>pair_request := 0\<rparr>;
              if pair_closed b1 \<noteq> 0 then Some (- 1, set_bio_bio st bio b1)
              else
                do {
                  assert_that (pair_len b1 \<le> pair_size b1);
                  if pair_len b1 = pair_size b1 then
                    Some (- 1, set_bio_bio (st(bio := BIO_set_retry_write (st bio))) bio b1)
                  else
                    (let num' = (if num > pair_size b1 - pair_len b1 then pair_size b1 - pair_len b1 else num) in
                     do {
                       assert_that (num' > 0);
                       b2 \<leftarrow> write_rounds b1 inp num';
                       Some (int num', set_bio_bio st bio b2)
                     })
                }
            })"

section \<open>Connecting two BIOs\<close>

text \<open>The buffer of one end: kept when there is one.\<close>

definition pair_alloc :: "allocator \<Rightarrow> bio_bio_st \<Rightarrow> nat \<Rightarrow> bool \<times> bio_bio_st \<times> allocator" where
  "pair_alloc al b writebuf_len =
     (if pair_buf b = None then
        (let b1 = (if writebuf_len \<noteq> 0 then b\<lparr>pair_size := writebuf_len\<rparr> else b) in
         case OPENSSL_malloc al (pair_size b1) of
           (None, al') \<Rightarrow> (False, b1, al')
         | (Some p, al') \<Rightarrow> (True, b1\<lparr>pair_buf := Some p, pair_len := 0, pair_offset := 0\<rparr>, al'))
      else (True, b, al))"

definition bio_make_pair :: "allocator \<Rightarrow> bios \<Rightarrow> nat \<Rightarrow> nat \<Rightarrow> nat \<Rightarrow> nat \<Rightarrow> (bool \<times> bios \<times> allocator) option" where
  "bio_make_pair al st bio1 bio2 writebuf1_len writebuf2_len =
     do {
       b1 \<leftarrow> bio_ptr (st bio1);
       b2 \<leftarrow> bio_ptr (st bio2);
       if pair_peer b1 \<noteq> None \<or> pair_peer b2 \<noteq> None then Some (False, st, al)
       else
         (case pair_alloc al b1 writebuf1_len of
            (False, b1', al1) \<Rightarrow> Some (False, set_bio_bio st bio1 b1', al1)
          | (True, b1', al1) \<Rightarrow>
              (case pair_alloc al1 b2 writebuf2_len of
                 (False, b2', al2) \<Rightarrow> Some (False, set_bio_bio (set_bio_bio st bio1 b1') bio2 b2', al2)
               | (True, b2', al2) \<Rightarrow>
                   (let st1 = set_bio_bio st bio1 (b1'\<lparr>pair_peer := Some bio2, pair_closed := 0, pair_request := 0\<rparr>);
                        st2 = set_bio_bio st1 bio2 (b2'\<lparr>pair_peer := Some bio1, pair_closed := 0, pair_request := 0\<rparr>);
                        st3 = st2(bio1 := (st2 bio1)\<lparr>bio_init := 1\<rparr>) in
                    Some (True, st3(bio2 := (st3 bio2)\<lparr>bio_init := 1\<rparr>), al2))))
     }"

text \<open>The new BIOs are put at the addresses \<open>a1\<close> and \<open>a2\<close>. On failure both are freed again and
  both pointers are NULL.\<close>

definition BIO_new_bio_pair ::
  "allocator \<Rightarrow> bios \<Rightarrow> nat \<Rightarrow> nat \<Rightarrow> nat \<Rightarrow> nat \<Rightarrow> ((nat \<times> nat) option \<times> bios \<times> allocator) option" where
  "BIO_new_bio_pair al st a1 a2 writebuf1_len writebuf2_len =
     (case BIO_new al (Some bio_new) of
        (r1, al1) \<Rightarrow>
          (case BIO_new al1 (Some bio_new) of
             (r2, al2) \<Rightarrow>
               (case (r1, r2) of
                  (Some bio1, Some bio2) \<Rightarrow>
                    (case bio_make_pair al2 (st(a1 := bio1, a2 := bio2)) a1 a2 writebuf1_len writebuf2_len of
                       None \<Rightarrow> None
                     | Some (ok, st', al3) \<Rightarrow> if ok then Some (Some (a1, a2), st', al3) else Some (None, st, al3))
                | _ \<Rightarrow> Some (None, st, al2))))"

section \<open>Control calls\<close>

definition BIO_C_GET_WRITE_BUF_SIZE :: int where
  "BIO_C_GET_WRITE_BUF_SIZE = 137"

definition BIO_C_GET_WRITE_GUARANTEE :: int where
  "BIO_C_GET_WRITE_GUARANTEE = 140"

definition BIO_C_GET_READ_REQUEST :: int where
  "BIO_C_GET_READ_REQUEST = 141"

definition BIO_C_SHUTDOWN_WR :: int where
  "BIO_C_SHUTDOWN_WR = 142"

definition BIO_C_RESET_READ_REQUEST :: int where
  "BIO_C_RESET_READ_REQUEST = 147"

text \<open>\<open>other\<close> is the BIO that \<open>BIO_CTRL_EOF\<close> gets as its pointer argument.\<close>

definition bio_ctrl :: "bios \<Rightarrow> nat \<Rightarrow> int \<Rightarrow> int \<Rightarrow> nat option \<Rightarrow> (int \<times> bios) option" where
  "bio_ctrl st bio cmd num other =
     do {
       b \<leftarrow> bio_ptr (st bio);
       if cmd = BIO_C_GET_WRITE_BUF_SIZE then Some (int (pair_size b), st)
       else if cmd = BIO_C_GET_WRITE_GUARANTEE then
         Some (if pair_peer b = None \<or> pair_closed b \<noteq> 0 then 0 else int (pair_size b) - int (pair_len b), st)
       else if cmd = BIO_C_GET_READ_REQUEST then Some (int (pair_request b), st)
       else if cmd = BIO_C_RESET_READ_REQUEST then Some (1, set_bio_bio st bio (b\<lparr>pair_request := 0\<rparr>))
       else if cmd = BIO_C_SHUTDOWN_WR then Some (1, set_bio_bio st bio (b\<lparr>pair_closed := 1\<rparr>))
       else if cmd = BIO_CTRL_GET_CLOSE then Some (bio_shutdown (st bio), st)
       else if cmd = BIO_CTRL_SET_CLOSE then Some (1, st(bio := (st bio)\<lparr>bio_shutdown := num\<rparr>))
       else if cmd = BIO_CTRL_PENDING then
         (case pair_peer b of
            None \<Rightarrow> Some (0, st)
          | Some peer \<Rightarrow> do { peer_b \<leftarrow> bio_ptr (st peer); Some (int (pair_len peer_b), st) })
       else if cmd = BIO_CTRL_WPENDING then Some (if pair_buf b \<noteq> None then int (pair_len b) else 0, st)
       else if cmd = BIO_CTRL_FLUSH then Some (1, st)
       else if cmd = BIO_CTRL_EOF then
         (case other of
            None \<Rightarrow> Some (1, st)
          | Some o_bio \<Rightarrow> do { other_b \<leftarrow> bio_ptr (st o_bio); Some (if pair_len other_b = 0 \<and> pair_closed other_b \<noteq> 0 then 1 else 0, st) })
       else Some (0, st)
     }"

definition BIO_ctrl_get_read_request :: "bios \<Rightarrow> nat \<Rightarrow> (int \<times> bios) option" where
  "BIO_ctrl_get_read_request st bio = bio_ctrl st bio BIO_C_GET_READ_REQUEST 0 None"

definition BIO_ctrl_get_write_guarantee :: "bios \<Rightarrow> nat \<Rightarrow> (int \<times> bios) option" where
  "BIO_ctrl_get_write_guarantee st bio = bio_ctrl st bio BIO_C_GET_WRITE_GUARANTEE 0 None"

definition BIO_shutdown_wr :: "bios \<Rightarrow> nat \<Rightarrow> (int \<times> bios) option" where
  "BIO_shutdown_wr st bio = bio_ctrl st bio BIO_C_SHUTDOWN_WR 0 None"

section \<open>The ring buffer\<close>

text \<open>The invariant of an end's buffer and the bytes in it, the oldest first.\<close>

definition ring_ok :: "bio_bio_st \<Rightarrow> bool" where
  "ring_ok b \<longleftrightarrow> pair_offset b < pair_size b \<and> pair_len b \<le> pair_size b \<and> 2 * pair_size b < size_max1 \<and>
     (case pair_buf b of None \<Rightarrow> False | Some d \<Rightarrow> length d = pair_size b)"

definition ring_bytes :: "bio_bio_st \<Rightarrow> byte list" where
  "ring_bytes b = (case pair_buf b of None \<Rightarrow> [] | Some d \<Rightarrow> take (pair_len b) (rotate (pair_offset b) d))"

text \<open>What reading and writing keep.\<close>

definition same_end :: "bio_bio_st \<Rightarrow> bio_bio_st \<Rightarrow> bool" where
  "same_end b b' \<longleftrightarrow> pair_peer b' = pair_peer b \<and> pair_closed b' = pair_closed b \<and> pair_size b' = pair_size b"

lemma ring_okE:
  assumes "ring_ok b"
  obtains d where "pair_buf b = Some d" and "length d = pair_size b"
  using assms by (auto simp: ring_ok_def split: option.splits)

lemma length_ring_bytes: "ring_ok b \<Longrightarrow> length (ring_bytes b) = pair_len b"
  by (auto simp: ring_ok_def ring_bytes_def split: option.splits)

lemma ring_request [simp]:
  "ring_ok (b\<lparr>pair_request := n\<rparr>) = ring_ok b" "ring_bytes (b\<lparr>pair_request := n\<rparr>) = ring_bytes b"
  "ring_ok (b\<lparr>pair_closed := c\<rparr>) = ring_ok b" "ring_bytes (b\<lparr>pair_closed := c\<rparr>) = ring_bytes b"
  by (simp_all add: ring_ok_def ring_bytes_def split: option.split)

lemma take_rotate_prefix: "off + n \<le> length d \<Longrightarrow> off < length d \<Longrightarrow> take n (rotate off d) = take n (drop off d)"
  by (simp add: rotate_drop_take)

lemma take_rotate_add:
  assumes "m + n \<le> length d" and "0 < n"
  shows "take (m + n) (rotate k d) = take m (rotate k d) @ take n (rotate (k + m) d)"
proof -
  have "m < length d" using assms by simp
  then have "rotate m (rotate k d) = drop m (rotate k d) @ take m (rotate k d)" by (simp add: rotate_drop_take [of m])
  then have "take n (rotate (k + m) d) = take n (drop m (rotate k d))" using assms by (simp add: rotate_rotate add.commute)
  then show ?thesis by (simp add: take_add)
qed

lemma read_round_spec:
  assumes b: "ring_ok b" and rest: "0 < rest" "rest \<le> pair_len b"
  obtains out b' where "read_round b rest = Some (out, b', rest - length out)" and "0 < length out" and "length out \<le> rest"
    and "ring_ok b'" and "ring_bytes b = out @ ring_bytes b'" and "same_end b b'" and "pair_len b' = pair_len b - length out"
proof -
  obtain d where d: "pair_buf b = Some d" "length d = pair_size b" by (rule ring_okE [OF b])
  define off sz ln where "off = pair_offset b" and "sz = pair_size b" and "ln = pair_len b"
  have lt: "off < sz" "ln \<le> sz" "2 * sz < size_max1" using b by (simp_all add: ring_ok_def off_def sz_def ln_def)
  define chunk where "chunk = min rest (sz - off)"
  have ch: "0 < chunk" "chunk \<le> rest" "off + chunk \<le> sz" "chunk \<le> ln" using rest lt by (auto simp: chunk_def ln_def)
  have sa: "size_add off rest = off + rest" "size_add off chunk = off + chunk"
    using lt rest ch by (auto simp: ln_def intro!: size_add_noover)
  have ce: "(if off + rest \<le> sz then rest else sz - off) = chunk" using lt by (auto simp: chunk_def)
  define out where "out = take chunk (drop off d)"
  have lo: "length out = chunk" using ch d by (simp add: out_def sz_def)
  define b' where "b' = b\<lparr>pair_len := ln - chunk, pair_offset := if ln - chunk = 0 \<or> off + chunk = sz then 0 else off + chunk\<rparr>"
  have eq: "chunk = rest" if "ln - chunk = 0" using that ch rest by (simp add: ln_def)
  have "read_round b rest = Some (out, b', rest - chunk)"
    using rest(2) eq ch unfolding read_round_def d option.simps Option.bind.simps Let_def off_def [symmetric] sz_def [symmetric] ln_def [symmetric] sa ce
    by (auto simp: assert_that_def b'_def out_def)
  moreover have "ring_ok b'" using b lt ch d by (auto simp: ring_ok_def b'_def sz_def)
  moreover have "ring_bytes b = out @ ring_bytes b'"
  proof (cases "ln - chunk = 0")
    case True
    then have "chunk = ln" using ch by simp
    then show ?thesis
      using True ch lt d take_rotate_prefix [of off chunk d] by (simp add: ring_bytes_def b'_def out_def off_def sz_def ln_def)
  next
    case False
    have "rotate (if off + chunk = sz then 0 else off + chunk) d = rotate (off + chunk) d" using d by (simp add: sz_def)
    moreover have "take ln (rotate off d) = take chunk (rotate off d) @ take (ln - chunk) (rotate (off + chunk) d)"
      using take_rotate_add [of chunk "ln - chunk" d off] False ch lt d by (simp add: sz_def)
    ultimately show ?thesis
      using False ch lt d take_rotate_prefix [of off chunk d] by (simp add: ring_bytes_def b'_def out_def off_def sz_def ln_def)
  qed
  ultimately show thesis using that [of out b'] ch lo by (simp add: same_end_def b'_def ln_def)
qed

lemma read_rounds_spec:
  assumes "ring_ok b" and "0 < rest" and "rest \<le> pair_len b"
  shows "\<exists>out b'. read_rounds b rest = Some (out, b') \<and> length out = rest \<and> ring_ok b' \<and> ring_bytes b = out @ ring_bytes b' \<and> same_end b b'"
  using assms
proof (induction rest arbitrary: b rule: less_induct)
  case (less rest)
  obtain o1 b1 where r: "read_round b rest = Some (o1, b1, rest - length o1)" and o1: "0 < length o1" "length o1 \<le> rest"
    and b1: "ring_ok b1" "ring_bytes b = o1 @ ring_bytes b1" "same_end b b1" "pair_len b1 = pair_len b - length o1"
    by (rule read_round_spec [OF less.prems])
  show ?case
  proof (cases "rest - length o1 = 0")
    case True
    then have "length o1 = rest" using o1(2) by simp
    moreover have "read_rounds b rest = Some (o1, b1)" using r True by (subst read_rounds.simps) simp
    ultimately show ?thesis using b1 by blast
  next
    case False
    have "rest - length o1 \<le> pair_len b1" "0 < rest - length o1" "rest - length o1 < rest" using b1(4) less.prems o1 False by simp_all
    then obtain o2 b2 where b2: "read_rounds b1 (rest - length o1) = Some (o2, b2)" "length o2 = rest - length o1" "ring_ok b2"
      "ring_bytes b1 = o2 @ ring_bytes b2" "same_end b1 b2"
      using less.IH [of "rest - length o1" b1] b1(1) by blast
    have "read_rounds b rest = Some (o1 @ o2, b2)" using r b2(1) False by (simp add: read_rounds.simps [of b rest])
    moreover have "same_end b b2" using b1(3) b2(5) by (simp add: same_end_def)
    moreover have "ring_bytes b = (o1 @ o2) @ ring_bytes b2" "length (o1 @ o2) = rest" using b1(2) b2(2,4) o1 by simp_all
    ultimately show ?thesis using b2(3) by blast
  qed
qed

text \<open>Storing bytes behind the newest ones appends to the ring.\<close>

lemma rotate_store:
  assumes len: "length d = sz" and "off < sz" and "ln + length bs \<le> sz"
    and wo: "wo = (if off + ln \<ge> sz then off + ln - sz else off + ln)" and "wo + length bs \<le> sz"
  shows "take (ln + length bs) (rotate off (take wo d @ bs @ drop (wo + length bs) d)) = take ln (rotate off d) @ bs"
    (is "?l = ?r")
proof (rule nth_equalityI)
  let ?d = "take wo d @ bs @ drop (wo + length bs) d"
  have ld: "length ?d = sz" using assms by simp
  show "length ?l = length ?r" using assms by simp
  fix i
  assume "i < length ?l"
  then have i: "i < ln + length bs" "i < sz" using assms by simp_all
  define j where "j = (if off + i \<ge> sz then off + i - sz else off + i)"
  have jm: "(off + i) mod sz = j" using assms(2) i(2) by (auto simp: j_def le_mod_geq)
  have j: "j < sz" using assms(2) i(2) by (auto simp: j_def)
  have l: "?l ! i = ?d ! j" using nth_rotate [of i ?d off] ld i jm by simp
  show "?l ! i = ?r ! i"
  proof (cases "i < ln")
    case True
    then have "j < wo \<or> wo + length bs \<le> j" using assms(3) wo i assms(2) by (auto simp: j_def split: if_splits)
    then have "?d ! j = d ! j" using j assms(5) len by (auto simp: nth_append min_def)
    moreover have "?r ! i = d ! j" using True assms(3) len i jm nth_rotate [of i d off] by (simp add: nth_append)
    ultimately show ?thesis using l by simp
  next
    case False
    then have "j = wo + (i - ln)" using wo i assms(5) by (auto simp: j_def split: if_splits)
    moreover define k where "k = i - ln"
    ultimately have "j = wo + k" "k < length bs" using i(1) False by simp_all
    then have "?d ! j = bs ! (i - ln)" unfolding k_def [symmetric] using assms(5) len by (simp add: nth_append min_def)
    moreover have "?r ! i = bs ! (i - ln)" using False assms(3) len by (simp add: nth_append)
    ultimately show ?thesis using l by simp
  qed
qed

lemma write_round_spec:
  assumes b: "ring_ok b" and rest: "0 < rest" "pair_len b + rest \<le> pair_size b" "rest \<le> length buf"
  obtains chunk b' where "write_round b buf rest = Some (b', drop chunk buf, rest - chunk)" and "0 < chunk" and "chunk \<le> rest"
    and "ring_ok b'" and "ring_bytes b' = ring_bytes b @ take chunk buf" and "same_end b b'" and "pair_len b' = pair_len b + chunk"
proof -
  obtain d where d: "pair_buf b = Some d" "length d = pair_size b" by (rule ring_okE [OF b])
  define off sz ln where "off = pair_offset b" and "sz = pair_size b" and "ln = pair_len b"
  have lt: "off < sz" "ln \<le> sz" "2 * sz < size_max1" using b by (simp_all add: ring_ok_def off_def sz_def ln_def)
  define wo where "wo = (if off + ln \<ge> sz then off + ln - sz else off + ln)"
  have wo: "wo < sz" using lt by (auto simp: wo_def)
  define chunk where "chunk = min rest (sz - wo)"
  have ch: "0 < chunk" "chunk \<le> rest" "wo + chunk \<le> sz" "ln + chunk \<le> sz" using rest wo by (auto simp: chunk_def ln_def sz_def)
  have sa: "size_add ln rest = ln + rest" "size_add off ln = off + ln" "size_add wo rest = wo + rest" "size_add ln chunk = ln + chunk"
    using lt rest ch wo by (auto simp: ln_def sz_def intro!: size_add_noover)
  have ce: "(if wo + rest \<le> sz then rest else sz - wo) = chunk" using wo by (auto simp: chunk_def)
  have lb: "length (take chunk buf) = chunk" using ch rest by simp
  define d' where "d' = take wo d @ take chunk buf @ drop (wo + chunk) d"
  have ld: "length d' = sz" using ch d lb by (simp add: d'_def sz_def)
  have ms: "mem_store d wo (take chunk buf) = Some d'" using ch d lb unfolding mem_store_def by (simp add: sz_def d'_def)
  define b' where "b' = b\<lparr>pair_buf := Some d', pair_len := ln + chunk\<rparr>"
  have r2: "ln + rest \<le> sz" using rest by (simp add: ln_def sz_def)
  have "write_round b buf rest = Some (b', drop chunk buf, rest - chunk)"
    using r2 ch ms unfolding write_round_def d option.simps Option.bind.simps Let_def off_def [symmetric] sz_def [symmetric] ln_def [symmetric] sa
      wo_def [symmetric] ce
    by (simp add: assert_that_def b'_def)
  moreover have "ring_ok b'" using b lt ch ld by (auto simp: ring_ok_def b'_def sz_def off_def)
  moreover have "ring_bytes b' = ring_bytes b @ take chunk buf"
    using rotate_store [OF d(2) [folded sz_def] lt(1), of ln "take chunk buf" wo, unfolded lb, OF ch(4) wo_def ch(3)] d
    by (simp add: ring_bytes_def b'_def d'_def off_def ln_def)
  ultimately show thesis using that [of b' chunk] ch by (simp add: same_end_def b'_def ln_def)
qed

lemma write_rounds_spec:
  assumes "ring_ok b" and "0 < rest" and "pair_len b + rest \<le> pair_size b" and "rest \<le> length buf"
  shows "\<exists>b'. write_rounds b buf rest = Some b' \<and> ring_ok b' \<and> ring_bytes b' = ring_bytes b @ take rest buf \<and> same_end b b'"
  using assms
proof (induction rest arbitrary: b buf rule: less_induct)
  case (less rest)
  obtain k b1 where r: "write_round b buf rest = Some (b1, drop k buf, rest - k)" and k: "0 < k" "k \<le> rest"
    and b1: "ring_ok b1" "ring_bytes b1 = ring_bytes b @ take k buf" "same_end b b1" "pair_len b1 = pair_len b + k"
    by (rule write_round_spec [OF less.prems])
  show ?case
  proof (cases "rest - k = 0")
    case True
    then have "k = rest" using k by simp
    then show ?thesis using r b1 by (simp add: write_rounds.simps [of b buf rest])
  next
    case False
    have "0 < rest - k" "rest - k < rest" "rest - k \<le> length (drop k buf)" "pair_len b1 + (rest - k) \<le> pair_size b1"
      using less.prems k False b1(3,4) by (simp_all add: same_end_def)
    then obtain b2 where b2: "write_rounds b1 (drop k buf) (rest - k) = Some b2" "ring_ok b2"
      "ring_bytes b2 = ring_bytes b1 @ take (rest - k) (drop k buf)" "same_end b1 b2"
      using less.IH [of "rest - k" b1 "drop k buf"] b1(1) by blast
    have "write_rounds b buf rest = Some b2" using r b2(1) False by (simp add: write_rounds.simps [of b buf rest])
    moreover have "take rest buf = take k buf @ take (rest - k) (drop k buf)" using k by (metis le_add_diff_inverse take_add)
    moreover have "same_end b b2" using b1(3) b2(4) by (simp add: same_end_def)
    ultimately show ?thesis using b1(2) b2 by simp
  qed
qed

section \<open>Connected BIOs\<close>

definition end_ok :: "bios \<Rightarrow> nat \<Rightarrow> nat \<Rightarrow> bool" where
  "end_ok st a b \<longleftrightarrow> bio_init (st a) \<noteq> 0 \<and>
     (case bio_ptr (st a) of None \<Rightarrow> False | Some x \<Rightarrow> pair_peer x = Some b \<and> ring_ok x)"

definition paired :: "bios \<Rightarrow> nat \<Rightarrow> nat \<Rightarrow> bool" where
  "paired st a b \<longleftrightarrow> a \<noteq> b \<and> end_ok st a b \<and> end_ok st b a"

text \<open>The bytes written at an end that the other has not read yet, and whether it is shut down.\<close>

definition sent :: "bios \<Rightarrow> nat \<Rightarrow> byte list" where
  "sent st a = (case bio_ptr (st a) of None \<Rightarrow> [] | Some x \<Rightarrow> ring_bytes x)"

definition shut :: "bios \<Rightarrow> nat \<Rightarrow> bool" where
  "shut st a \<longleftrightarrow> (case bio_ptr (st a) of None \<Rightarrow> False | Some x \<Rightarrow> pair_closed x \<noteq> 0)"

definition room :: "bios \<Rightarrow> nat \<Rightarrow> nat" where
  "room st a = (case bio_ptr (st a) of None \<Rightarrow> 0 | Some x \<Rightarrow> pair_size x - pair_len x)"

lemma paired_sym: "paired st a b \<longleftrightarrow> paired st b a"
  by (auto simp: paired_def)

lemma pairedE:
  assumes "paired st a b"
  obtains x y where "bio_ptr (st a) = Some x" and "bio_ptr (st b) = Some y" and "pair_peer x = Some b" and "pair_peer y = Some a"
    and "ring_ok x" and "ring_ok y" and "bio_init (st a) \<noteq> 0" and "bio_init (st b) \<noteq> 0" and "a \<noteq> b"
  using assms by (auto simp: paired_def end_ok_def split: option.splits)

lemma paired_change:
  assumes "paired st a b" and "bio_init (st' a) = bio_init (st a)" and "bio_init (st' b) = bio_init (st b)"
    and "bio_ptr (st a) = Some x" and "bio_ptr (st' a) = Some x'" and "same_end x x'" and "ring_ok x'" and "bio_ptr (st' b) = bio_ptr (st b)"
  shows "paired st' a b" and "sent st' a = ring_bytes x'" and "sent st' b = sent st b" and "shut st' a = shut st a" and "shut st' b = shut st b"
    and "room st' b = room st b"
  using assms by (auto simp: paired_def end_ok_def same_end_def sent_def shut_def room_def split: option.splits)

lemma bio_clear_pair [simp]:
  "bio_init (BIO_clear_retry_flags bio) = bio_init bio" "bio_ptr (BIO_clear_retry_flags bio) = bio_ptr bio"
  "bio_init (BIO_set_retry_read bio) = bio_init bio" "bio_ptr (BIO_set_retry_read bio) = bio_ptr bio"
  "bio_init (BIO_set_retry_write bio) = bio_init bio" "bio_ptr (BIO_set_retry_write bio) = bio_ptr bio"
  for bio :: pair_bio
  by (simp_all add: BIO_clear_retry_flags_def BIO_set_retry_read_def BIO_set_retry_write_def)

lemma nat_size_t: "0 < k \<Longrightarrow> k \<le> int int_max \<Longrightarrow> nat (k mod int size_max1) = nat k"
  by (simp add: int_max_def size_max1_def)

lemma ring_len_0: "ring_ok x \<Longrightarrow> pair_len x = 0 \<longleftrightarrow> ring_bytes x = []"
  using length_ring_bytes [of x] by auto

text \<open>A read at the end \<open>b\<close> of what \<open>a\<close> has written.\<close>

lemma bio_read_spec:
  assumes p: "paired st a b" and k: "0 < k" "k \<le> int int_max"
  shows "\<exists>r out st'. bio_read st b True k = Some (r, out, st') \<and> paired st' a b \<and> sent st a = out @ sent st' a \<and>
    sent st' b = sent st b \<and> length out = nat r \<and> shut st' a = shut st a \<and>
    r = (if sent st a \<noteq> [] then min k (int (length (sent st a))) else if shut st a then 0 else - 1)"
proof -
  obtain x y where x: "bio_ptr (st a) = Some x" and y: "bio_ptr (st b) = Some y" and peer: "pair_peer x = Some b" "pair_peer y = Some a"
    and ok: "ring_ok x" "ring_ok y" and init: "bio_init (st a) \<noteq> 0" "bio_init (st b) \<noteq> 0" and ab: "a \<noteq> b"
    by (rule pairedE [OF p])
  obtain d where d: "pair_buf x = Some d" "length d = pair_size x" by (rule ring_okE [OF ok(1)])
  define st1 where "st1 = st(b := BIO_clear_retry_flags (st b))"
  define x1 where "x1 = x\<lparr>pair_request := 0\<rparr>"
  have x1: "ring_ok x1" "ring_bytes x1 = ring_bytes x" "same_end x x1" using ok(1) by (simp_all add: x1_def same_end_def)
  have sx: "sent st a = ring_bytes x" using x by (simp add: sent_def)
  have nk: "0 < nat k" using k by simp
  show ?thesis
  proof (cases "pair_len x = 0")
    case True
    then have e: "ring_bytes x = []" using ring_len_0 [OF ok(1)] by simp
    show ?thesis
    proof (cases "pair_closed x = 0")
      case False
      define st2 where "st2 = set_bio_bio st1 a x1"
      have "bio_read st b True k = Some (0, [], st2)"
        using True False init x y peer d ab nk by (simp add: bio_read_def st1_def st2_def x1_def nat_size_t [OF k] assert_that_def)
      moreover have "bio_init (st2 a) = bio_init (st a)" "bio_init (st2 b) = bio_init (st b)" "bio_ptr (st2 a) = Some x1" "bio_ptr (st2 b) = bio_ptr (st b)"
        using ab by (simp_all add: st2_def set_bio_bio_def st1_def)
      note c = paired_change [OF p this(1,2) x this(3) x1(3,1) this(4)]
      ultimately show ?thesis using c x1(2) False x sx e by (simp add: shut_def)
    next
      case closed: True
      define x2 where "x2 = x1\<lparr>pair_request := if nat k \<le> pair_size x then nat k else pair_size x\<rparr>"
      define st2 where "st2 = set_bio_bio (st1(b := BIO_set_retry_read (st1 b))) a x2"
      have "bio_read st b True k = Some (- 1, [], st2)"
        using True closed init x y peer d ab nk by (simp add: bio_read_def st1_def st2_def x1_def x2_def nat_size_t [OF k] assert_that_def Let_def)
      moreover have "bio_init (st2 a) = bio_init (st a)" "bio_init (st2 b) = bio_init (st b)" "bio_ptr (st2 a) = Some x2" "same_end x x2" "ring_ok x2"
          "bio_ptr (st2 b) = bio_ptr (st b)"
        using ab x1 by (simp_all add: st2_def set_bio_bio_def st1_def x2_def same_end_def)
      note c = paired_change [OF p this(1,2) x this(3-6)]
      ultimately show ?thesis using c x1(2) closed x sx e by (simp add: shut_def x2_def)
    qed
  next
    case False
    define n where "n = (if pair_len x < nat k then pair_len x else nat k)"
    have n: "0 < n" "n \<le> pair_len x1" using False nk by (auto simp: n_def x1_def)
    obtain out x2 where r: "read_rounds x1 n = Some (out, x2)" "length out = n" "ring_ok x2" "ring_bytes x1 = out @ ring_bytes x2" "same_end x1 x2"
      using read_rounds_spec [OF x1(1) n] by blast
    define st2 where "st2 = set_bio_bio st1 a x2"
    have "bio_read st b True k = Some (int n, out, st2)"
      using False init x y peer d ab nk n(1) r(1)
      by (cases "pair_len x < nat k") (auto simp: bio_read_def st1_def st2_def nat_size_t [OF k] assert_that_def n_def x1_def Let_def)
    moreover have "bio_init (st2 a) = bio_init (st a)" "bio_init (st2 b) = bio_init (st b)" "bio_ptr (st2 a) = Some x2" "same_end x x2" "bio_ptr (st2 b) = bio_ptr (st b)"
      using ab x1(3) r(5) by (simp_all add: st2_def set_bio_bio_def st1_def same_end_def)
    note c = paired_change [OF p this(1,2) x this(3,4) r(3) this(5)]
    moreover have "int n = min k (int (length (sent st a)))" using k length_ring_bytes [OF ok(1)] sx by (auto simp: n_def)
    then have "int n = (if sent st a \<noteq> [] then min k (int (length (sent st a))) else if shut st a then 0 else - 1)"
      using False ring_len_0 [OF ok(1)] sx by simp
    moreover have "sent st a = out @ sent st2 a" using sx x1(2) r(4) c(2) by simp
    moreover have "length out = nat (int n)" using r(2) by simp
    ultimately show ?thesis by blast
  qed
qed

text \<open>A write at the end \<open>a\<close>.\<close>

lemma bio_write_spec:
  assumes p: "paired st a b" and inp: "inp \<noteq> []" "length inp \<le> int_max"
  shows "\<exists>r st'. bio_write st a (Some inp) (int (length inp)) = Some (r, st') \<and> paired st' a b \<and>
    sent st' a = sent st a @ take (nat r) inp \<and> sent st' b = sent st b \<and> shut st' a = shut st a \<and>
    r = (if shut st a \<or> room st a = 0 then - 1 else int (min (length inp) (room st a)))"
proof -
  obtain x y where x: "bio_ptr (st a) = Some x" and y: "bio_ptr (st b) = Some y" and peer: "pair_peer x = Some b" "pair_peer y = Some a"
    and ok: "ring_ok x" "ring_ok y" and init: "bio_init (st a) \<noteq> 0" "bio_init (st b) \<noteq> 0" and ab: "a \<noteq> b"
    by (rule pairedE [OF p])
  obtain d where d: "pair_buf x = Some d" "length d = pair_size x" by (rule ring_okE [OF ok(1)])
  define st1 where "st1 = st(a := BIO_clear_retry_flags (st a))"
  define x1 where "x1 = x\<lparr>pair_request := 0\<rparr>"
  have x1: "ring_ok x1" "ring_bytes x1 = ring_bytes x" "same_end x x1" using ok(1) by (simp_all add: x1_def same_end_def)
  have sx: "sent st a = ring_bytes x" "shut st a \<longleftrightarrow> pair_closed x \<noteq> 0" "room st a = pair_size x - pair_len x"
    using x by (simp_all add: sent_def shut_def room_def)
  have le: "pair_len x \<le> pair_size x" using ok(1) by (simp add: ring_ok_def)
  have il: "0 < length inp" using inp by simp
  have nk: "nat (int (length inp) mod int size_max1) = length inp" using nat_size_t [of "int (length inp)"] il inp(2) by simp
  show ?thesis
  proof (cases "shut st a \<or> room st a = 0")
    case True
    define st2 where "st2 = (if shut st a then set_bio_bio st1 a x1 else set_bio_bio (st1(a := BIO_set_retry_write (st1 a))) a x1)"
    have "bio_write st a (Some inp) (int (length inp)) = Some (- 1, st2)"
      using True init x y peer d ab inp le sx nk
      by (auto simp: bio_write_def st1_def st2_def x1_def assert_that_def Let_def)
    moreover have "bio_init (st2 a) = bio_init (st a)" "bio_init (st2 b) = bio_init (st b)" "bio_ptr (st2 a) = Some x1" "bio_ptr (st2 b) = bio_ptr (st b)"
      using ab by (simp_all add: st2_def set_bio_bio_def st1_def)
    note c = paired_change [OF p this(1,2) x this(3) x1(3,1) this(4)]
    ultimately show ?thesis using c x1(2) sx(1) True by simp
  next
    case False
    define n where "n = (if length inp > pair_size x - pair_len x then pair_size x - pair_len x else length inp)"
    have n: "0 < n" "pair_len x1 + n \<le> pair_size x1" "n \<le> length inp" using False il le sx by (auto simp: n_def x1_def)
    obtain x2 where r: "write_rounds x1 inp n = Some x2" "ring_ok x2" "ring_bytes x2 = ring_bytes x1 @ take n inp" "same_end x1 x2"
      using write_rounds_spec [OF x1(1) n] by blast
    define st2 where "st2 = set_bio_bio st1 a x2"
    have np: "pair_closed x = 0" "pair_len x \<noteq> pair_size x" using False sx le by auto
    have "bio_write st a (Some inp) (int (length inp)) = Some (int n, st2)"
      using np init x y peer d ab inp le n(1) r(1) unfolding bio_write_def nk
      by (cases "length inp > pair_size x - pair_len x") (simp_all add: st1_def st2_def assert_that_def n_def x1_def Let_def)
    moreover have "bio_init (st2 a) = bio_init (st a)" "bio_init (st2 b) = bio_init (st b)" "bio_ptr (st2 a) = Some x2" "same_end x x2" "bio_ptr (st2 b) = bio_ptr (st b)"
      using ab x1(3) r(4) by (simp_all add: st2_def set_bio_bio_def st1_def same_end_def)
    note c = paired_change [OF p this(1,2) x this(3,4) r(2) this(5)]
    moreover have "n = min (length inp) (room st a)" using sx(3) by (auto simp: n_def)
    ultimately show ?thesis using r(3) x1(2) sx(1) False by auto
  qed
qed

text \<open>
  The calls through the front end. The results of the method functions are defined by
  \<open>bio_read_spec\<close> and \<open>bio_write_spec\<close>.
\<close>

definition pair_wr :: "nat \<Rightarrow> bios \<Rightarrow> byte list \<Rightarrow> int \<times> bios" where
  "pair_wr a st bs =
     BIO_write (\<lambda>st. st a) (\<lambda>f st. st(a := f (st a)))
       (Some (\<lambda>st inp inl. case bio_write st a (Some inp) inl of Some r \<Rightarrow> r | None \<Rightarrow> (0, st))) st bs (int (length bs))"

definition pair_rd :: "nat \<Rightarrow> bios \<Rightarrow> int \<Rightarrow> int \<times> byte list \<times> bios" where
  "pair_rd b st k =
     BIO_read (\<lambda>st. st b) (\<lambda>f st. st(b := f (st b)))
       (Some (\<lambda>st k. case bio_read st b True k of Some r \<Rightarrow> r | None \<Rightarrow> (0, [], st))) st k"

lemma paired_count:
  assumes "\<And>c. bio_init (st' c) = bio_init (st c)" and "\<And>c. bio_ptr (st' c) = bio_ptr (st c)"
  shows "paired st' a b = paired st a b" and "sent st' c = sent st c" and "shut st' c = shut st c"
  using assms by (simp_all add: paired_def end_ok_def sent_def shut_def)

lemma pair_wr_law:
  assumes p: "paired st a b" and len: "length bs \<le> int_max" and w: "pair_wr a st bs = (n, st')"
  shows "paired st' a b \<and> nat n \<le> length bs \<and> sent st' a = sent st a @ take (nat n) bs \<and> sent st' b = sent st b"
proof (cases "bs = []")
  case True
  then show ?thesis using assms by (cases "bio_init (st a) = 0") (auto simp: pair_wr_def BIO_write_def)
next
  case False
  obtain r st1 where r: "bio_write st a (Some bs) (int (length bs)) = Some (r, st1)" "paired st1 a b"
    "sent st1 a = sent st a @ take (nat r) bs" "sent st1 b = sent st b" and rn: "nat r \<le> length bs"
    using bio_write_spec [OF p False len] by (auto split: if_splits)
  have init: "bio_init (st a) \<noteq> 0" by (rule pairedE [OF p])
  have e: "n = r" "st' = (if r > 0 then st1(a := (st1 a)\<lparr>num_write := size_add (num_write (st1 a)) (nat r)\<rparr>) else st1)"
    using w r(1) init False by (auto simp: pair_wr_def BIO_write_def)
  note c = paired_count [of st' st1]
  have "paired st' a b" "sent st' a = sent st1 a" "sent st' b = sent st1 b" using c r(2) by (simp_all add: e(2))
  then show ?thesis using r rn e(1) by simp
qed

lemma pair_rd_law:
  assumes p: "paired st a b" and k: "0 < k" "k \<le> int int_max" and w: "pair_rd b st k = (n, out, st')"
  shows "paired st' a b \<and> n \<le> k \<and> sent st a = out @ sent st' a \<and> length out = nat n \<and> (sent st a \<noteq> [] \<longrightarrow> 0 < n) \<and>
    sent st' b = sent st b"
proof -
  obtain r o1 st1 where r: "bio_read st b True k = Some (r, o1, st1)" "paired st1 a b" "sent st a = o1 @ sent st1 a" "sent st1 b = sent st b"
    "length o1 = nat r" and rn: "r = (if sent st a \<noteq> [] then min k (int (length (sent st a))) else if shut st a then 0 else - 1)"
    using bio_read_spec [OF p k] by blast
  have init: "bio_init (st b) \<noteq> 0" by (rule pairedE [OF p])
  have e: "n = r" "out = o1" "st' = (if r > 0 then st1(b := (st1 b)\<lparr>num_read := size_add (num_read (st1 b)) (nat r)\<rparr>) else st1)"
    using w r(1) init k by (auto simp: pair_rd_def BIO_read_def)
  note c = paired_count [of st' st1]
  have "paired st' a b" "sent st' a = sent st1 a" "sent st' b = sent st1 b" using c r(2) by (simp_all add: e(3))
  moreover have "r \<le> k" "sent st a \<noteq> [] \<longrightarrow> 0 < r"
    using rn k by (auto simp: min_def length_greater_0_conv [symmetric] simp del: length_greater_0_conv split: if_splits)
  ultimately show ?thesis using r e(1,2) by metis
qed

interpretation pair: byte_queue "\<lambda>st. paired st a b" "\<lambda>st. sent st a" "pair_wr a" "pair_rd b" for a b
  by unfold_locales (use pair_wr_law in blast, use pair_rd_law in blast)

section \<open>Traffic in both directions\<close>

text \<open>
  Calls at the two ends in any order, \<open>True\<close> for the first end. The result has the bytes
  accepted and delivered at each end and the final store.
\<close>

record traffic =
  acc1 :: "byte list"
  got1 :: "byte list"
  acc2 :: "byte list"
  got2 :: "byte list"

fun run_pair :: "nat \<Rightarrow> nat \<Rightarrow> (bool \<times> queue_op) list \<Rightarrow> bios \<Rightarrow> traffic \<times> bios" where
  "run_pair a b [] st = (\<lparr>acc1 = [], got1 = [], acc2 = [], got2 = []\<rparr>, st)"
| "run_pair a b ((first, QWrite bs) # ops) st =
     (case pair_wr (if first then a else b) st bs of
        (n, st1) \<Rightarrow>
          (case run_pair a b ops st1 of
             (t, st2) \<Rightarrow> (if first then t\<lparr>acc1 := take (nat n) bs @ acc1 t\<rparr> else t\<lparr>acc2 := take (nat n) bs @ acc2 t\<rparr>, st2)))"
| "run_pair a b ((first, QRead k) # ops) st =
     (case pair_rd (if first then a else b) st k of
        (n, out, st1) \<Rightarrow>
          (case run_pair a b ops st1 of
             (t, st2) \<Rightarrow> (if first then t\<lparr>got1 := out @ got1 t\<rparr> else t\<lparr>got2 := out @ got2 t\<rparr>, st2)))"

lemma run_pair_spec:
  "paired st a b \<Longrightarrow> list_all (\<lambda>(_, x). op_ok x) ops \<Longrightarrow> run_pair a b ops st = (t, st') \<Longrightarrow>
   paired st' a b \<and> sent st a @ acc1 t = got2 t @ sent st' a \<and> sent st b @ acc2 t = got1 t @ sent st' b"
proof (induction ops arbitrary: st t)
  case (Cons y ops)
  obtain first x where y: "y = (first, x)" by fastforce
  have ops: "list_all (\<lambda>(_, x). op_ok x) ops" and x: "op_ok x" using Cons.prems(2) y by simp_all
  note p = Cons.prems(1) and p' = paired_sym [THEN iffD1, OF Cons.prems(1)]
  show ?case
  proof (cases x)
    case (QWrite bs)
    obtain n st1 t1 where w: "pair_wr (if first then a else b) st bs = (n, st1)" and r: "run_pair a b ops st1 = (t1, st')"
      and t: "t = (if first then t1\<lparr>acc1 := take (nat n) bs @ acc1 t1\<rparr> else t1\<lparr>acc2 := take (nat n) bs @ acc2 t1\<rparr>)"
      using Cons.prems(3) y QWrite by (auto split: prod.splits)
    have "paired st1 a b" "sent st1 a = sent st a @ (if first then take (nat n) bs else [])"
      "sent st1 b = sent st b @ (if first then [] else take (nat n) bs)"
      using pair_wr_law [OF p, of bs n st1] pair_wr_law [OF p', of bs n st1] paired_sym [of st1 a b] w x QWrite by (auto split: if_splits)
    then show ?thesis using Cons.IH [OF _ ops r] t by (cases first) simp_all
  next
    case (QRead k)
    obtain n out st1 t1 where w: "pair_rd (if first then a else b) st k = (n, out, st1)" and r: "run_pair a b ops st1 = (t1, st')"
      and t: "t = (if first then t1\<lparr>got1 := out @ got1 t1\<rparr> else t1\<lparr>got2 := out @ got2 t1\<rparr>)"
      using Cons.prems(3) y QRead by (auto split: prod.splits)
    have k: "0 < k" "k \<le> int int_max" using x QRead by simp_all
    have "paired st1 a b \<and> sent st a = (if first then [] else out) @ sent st1 a \<and> sent st b = (if first then out else []) @ sent st1 b"
      using pair_rd_law [OF p k, of n out st1] pair_rd_law [OF p' k, of n out st1] paired_sym [of st1 a b] w by (cases first) simp_all
    then show ?thesis using Cons.IH [OF _ ops r] t by (cases first) auto
  qed
qed simp

lemma pair_alloc_spec:
  assumes "pair_alloc al x n = (True, x', al')" and "pair_buf x = None" and "0 < (if n = 0 then pair_size x else n)"
    and "2 * (if n = 0 then pair_size x else n) < size_max1"
  shows "ring_ok x' \<and> ring_bytes x' = [] \<and> pair_size x' = (if n = 0 then pair_size x else n)"
proof -
  define sz where "sz = (if n = 0 then pair_size x else n)"
  obtain p where m: "OPENSSL_malloc al sz = (Some p, al')" and x': "pair_buf x' = Some p" "pair_len x' = 0" "pair_offset x' = 0" "pair_size x' = sz"
    using assms(1,2) by (auto simp: pair_alloc_def Let_def sz_def split: if_splits prod.splits option.splits)
  have "length p = sz" using OPENSSL_malloc_length [OF m] assms(4) by (simp add: sz_def)
  then show ?thesis using x' assms(3,4) by (simp add: ring_ok_def ring_bytes_def sz_def)
qed

lemma BIO_new_pair:
  assumes "BIO_new al (Some bio_new) = (Some bio, al')"
  shows "\<exists>x. bio_ptr bio = Some x \<and> pair_peer x = None \<and> pair_buf x = None \<and> pair_size x = 17 * 1024"
  using assms by (auto simp: BIO_new_def bio_new_def Let_def split: option.splits prod.splits)

lemma bio_make_pair_spec:
  assumes ne: "a1 \<noteq> a2" and x: "bio_ptr (st a1) = Some x" "bio_ptr (st a2) = Some y"
    and fresh: "pair_peer x = None" "pair_buf x = None" "pair_peer y = None" "pair_buf y = None" "pair_size x = 17 * 1024" "pair_size y = 17 * 1024"
    and len: "2 * len1 < size_max1" "2 * len2 < size_max1"
  shows "\<exists>ok st' al'. bio_make_pair al st a1 a2 len1 len2 = Some (ok, st', al') \<and>
    (ok \<longrightarrow> paired st' a1 a2 \<and> sent st' a1 = [] \<and> sent st' a2 = [] \<and> \<not> shut st' a1 \<and> \<not> shut st' a2 \<and>
       room st' a1 = (if len1 = 0 then 17 * 1024 else len1) \<and> room st' a2 = (if len2 = 0 then 17 * 1024 else len2))"
proof -
  obtain ok1 x' al1 where r1: "pair_alloc al x len1 = (ok1, x', al1)" by (metis prod_cases3)
  obtain ok2 y' al2 where r2: "pair_alloc al1 y len2 = (ok2, y', al2)" by (metis prod_cases3)
  show ?thesis
  proof (cases "ok1 \<and> ok2")
    case False
    then obtain st' al' where "bio_make_pair al st a1 a2 len1 len2 = Some (False, st', al')"
      using x fresh r1 r2 by (cases ok1) (simp_all add: bio_make_pair_def)
    then show ?thesis by blast
  next
    case True
    have "0 < (if len1 = 0 then pair_size x else len1)" "2 * (if len1 = 0 then pair_size x else len1) < size_max1"
      "0 < (if len2 = 0 then pair_size y else len2)" "2 * (if len2 = 0 then pair_size y else len2) < size_max1"
      using len fresh by (simp_all add: size_max1_def)
    then have ok: "ring_ok x'" "ring_bytes x' = []" "pair_size x' = (if len1 = 0 then 17 * 1024 else len1)"
      "ring_ok y'" "ring_bytes y' = []" "pair_size y' = (if len2 = 0 then 17 * 1024 else len2)"
      using pair_alloc_spec [of al x len1 x' al1] pair_alloc_spec [of al1 y len2 y' al2] r1 r2 True fresh by simp_all
    have l: "pair_len x' = 0" "pair_len y' = 0" using length_ring_bytes [OF ok(1)] length_ring_bytes [OF ok(4)] ok(2,5) by simp_all
    define xx yy where "xx = x'\<lparr>pair_peer := Some a2, pair_closed := 0, pair_request := 0\<rparr>"
      and "yy = y'\<lparr>pair_peer := Some a1, pair_closed := 0, pair_request := 0\<rparr>"
    have e: "ring_ok xx" "ring_ok yy" "ring_bytes xx = []" "ring_bytes yy = []"
      using ok by (simp_all add: xx_def yy_def ring_ok_def ring_bytes_def split: option.splits)
    define st' where "st' = st(a1 := (st a1)\<lparr>bio_ptr := Some xx, bio_init := 1\<rparr>, a2 := (st a2)\<lparr>bio_ptr := Some yy, bio_init := 1\<rparr>)"
    have "bio_make_pair al st a1 a2 len1 len2 = Some (True, st', al2)"
      using x fresh r1 r2 True ne by (simp add: bio_make_pair_def st'_def Let_def set_bio_bio_def xx_def yy_def fun_eq_iff)
    moreover have "paired st' a1 a2" using ne e by (simp add: paired_def end_ok_def st'_def) (simp add: xx_def yy_def)
    moreover have "sent st' a1 = []" "sent st' a2 = []" "\<not> shut st' a1" "\<not> shut st' a2" using ne e by (simp_all add: sent_def st'_def shut_def xx_def yy_def)
    moreover have "room st' a1 = pair_size x'" "room st' a2 = pair_size y'" using ne l by (simp_all add: room_def st'_def xx_def yy_def)
    ultimately show ?thesis unfolding ok(3) [symmetric] ok(6) [symmetric] by blast
  qed
qed

text \<open>A BIO before it is set up, and two connected ones with four-byte buffers; the ring of the first
  has wrapped around.\<close>

definition unpaired :: pair_bio where
  "unpaired = \<lparr>bio_init = 0, bio_shutdown = 1, bio_flags = 0, retry_reason = 0, bio_num = 0, bio_ptr = None, num_read = 0, num_write = 0\<rparr>"

definition small_pair :: bios where
  "small_pair = (\<lambda>a. unpaired\<lparr>bio_init := 1, bio_ptr := Some
     (if a = 0
      then \<lparr>pair_peer = Some 1, pair_closed = 0, pair_len = 2, pair_offset = 3, pair_size = 4, pair_buf = Some [2, 9, 9, 1], pair_request = 0\<rparr>
      else \<lparr>pair_peer = Some 0, pair_closed = 0, pair_len = 0, pair_offset = 0, pair_size = 4, pair_buf = Some [9, 9, 9, 9], pair_request = 0\<rparr>)\<rparr>)"

lemma small_pair: "paired small_pair 0 1" "sent small_pair 0 = [1, 2]" "sent small_pair 1 = []"
  by (simp_all add: small_pair_def paired_def end_ok_def ring_ok_def sent_def ring_bytes_def size_max1_def rotate_drop_take)

section \<open>Properties\<close>

text \<open>\<open>BIO_new_bio_pair\<close> either gives no BIOs and leaves the store as it was, or gives two connected
  empty BIOs whose buffers have the requested sizes, 17 KiB for a size of 0.\<close>

theorem bio_new_pair_connected:
  assumes "a1 \<noteq> a2" and "2 * len1 < size_max1" and "2 * len2 < size_max1"
  shows "\<exists>r st' al'. BIO_new_bio_pair al st a1 a2 len1 len2 = Some (r, st', al') \<and>
    (case r of
       None \<Rightarrow> st' = st
     | Some (bio1, bio2) \<Rightarrow>
         bio1 = a1 \<and> bio2 = a2 \<and> paired st' bio1 bio2 \<and> sent st' bio1 = [] \<and> sent st' bio2 = [] \<and>
         \<not> shut st' bio1 \<and> \<not> shut st' bio2 \<and>
         room st' bio1 = (if len1 = 0 then 17 * 1024 else len1) \<and> room st' bio2 = (if len2 = 0 then 17 * 1024 else len2))"
proof -
  obtain r1 al1 where n1: "BIO_new al (Some bio_new) = (r1, al1)" by fastforce
  obtain r2 al2 where n2: "BIO_new al1 (Some bio_new) = (r2, al2)" by fastforce
  show ?thesis
  proof (cases "r1 = None \<or> r2 = None")
    case True
    then show ?thesis using n1 n2 by (auto simp: BIO_new_bio_pair_def split: option.splits)
  next
    case False
    then obtain bio1 bio2 where b: "r1 = Some bio1" "r2 = Some bio2" by auto
    obtain x y where "bio_ptr bio1 = Some x" "pair_peer x = None" "pair_buf x = None" "pair_size x = 17 * 1024"
      "bio_ptr bio2 = Some y" "pair_peer y = None" "pair_buf y = None" "pair_size y = 17 * 1024"
      using BIO_new_pair n1 n2 b by blast
    then show ?thesis
      using bio_make_pair_spec [of a1 a2 "st(a1 := bio1, a2 := bio2)" x y len1 len2 al2] assms n1 n2 b
      by (auto simp: BIO_new_bio_pair_def)
  qed
qed

theorem bio_new_pair_connected_witness:
  "\<exists>r st' al'. BIO_new_bio_pair plentiful (\<lambda>_. unpaired) 3 4 0 512 = Some (r, st', al') \<and>
    (case r of None \<Rightarrow> st' = (\<lambda>_. unpaired) | Some (bio1, bio2) \<Rightarrow> bio1 = 3 \<and> bio2 = 4 \<and> paired st' bio1 bio2 \<and>
       room st' bio1 = 17 * 1024 \<and> room st' bio2 = 512)"
proof -
  have ne: "(3 :: nat) \<noteq> 4" and l: "2 * (0 :: nat) < size_max1" "2 * (512 :: nat) < size_max1" by (simp_all add: size_max1_def)
  from bio_new_pair_connected [OF ne l, of plentiful "\<lambda>_. unpaired"] obtain r st' al'
    where r: "BIO_new_bio_pair plentiful (\<lambda>_. unpaired) 3 4 0 512 = Some (r, st', al')"
      and c: "case r of None \<Rightarrow> st' = (\<lambda>_. unpaired)
        | Some (bio1, bio2) \<Rightarrow> bio1 = 3 \<and> bio2 = 4 \<and> paired st' bio1 bio2 \<and> sent st' bio1 = [] \<and> sent st' bio2 = [] \<and>
            \<not> shut st' bio1 \<and> \<not> shut st' bio2 \<and> room st' bio1 = (if (0 :: nat) = 0 then 17 * 1024 else 0) \<and>
            room st' bio2 = (if (512 :: nat) = 0 then 17 * 1024 else 512)"
    by blast
  show ?thesis by (intro exI [of _ r] exI [of _ st'] exI [of _ al']) (use r c in \<open>auto split: option.splits\<close>)
qed



text \<open>A read or a write at a connected end returns: no assertion of the code fails, no copy
  leaves the ring and the loops end. A write takes as many bytes as \<open>BIO_ctrl_get_write_guarantee\<close>
  promised, or all of them, and a read gets all the bytes there are, up to the number asked for; an
  empty queue gives the end of the stream only when the writer has shut it down.\<close>

theorem bio_pair_calls:
  assumes p: "paired st a b" and "0 < n" and "n \<le> int_max" and n: "length inp = n"
  shows "(\<exists>out st'. bio_read st b True (int n) =
        Some (if sent st a \<noteq> [] then int (min n (length (sent st a))) else if shut st a then 0 else - 1, out, st') \<and>
        sent st a = out @ sent st' a) \<and>
    (\<exists>g st'. BIO_ctrl_get_write_guarantee st a = Some (int g, st) \<and>
        bio_write st a (Some inp) (int n) = Some (if g = 0 then - 1 else int (min n g), st') \<and>
        sent st' a = sent st a @ take g inp)"
proof
  have k: "0 < int n" "int n \<le> int int_max" using assms(2,3) by simp_all
  show "\<exists>out st'. bio_read st b True (int n) =
        Some (if sent st a \<noteq> [] then int (min n (length (sent st a))) else if shut st a then 0 else - 1, out, st') \<and>
        sent st a = out @ sent st' a"
    using bio_read_spec [OF p k] unfolding of_nat_min by blast
next
  have ne: "inp \<noteq> []" "length inp \<le> int_max" using assms(2-4) by auto
  obtain x where x: "bio_ptr (st a) = Some x" "pair_peer x = Some b" "ring_ok x" by (rule pairedE [OF p])
  define g where "g = (if shut st a then 0 else room st a)"
  have "pair_len x \<le> pair_size x" using x(3) by (simp add: ring_ok_def)
  then have "BIO_ctrl_get_write_guarantee st a = Some (int g, st)"
    using x(1,2) by (auto simp: BIO_ctrl_get_write_guarantee_def bio_ctrl_def BIO_C_GET_WRITE_GUARANTEE_def BIO_C_GET_WRITE_BUF_SIZE_def
        g_def shut_def room_def of_nat_diff)
  moreover obtain r st' where w: "bio_write st a (Some inp) (int (length inp)) = Some (r, st')" "sent st' a = sent st a @ take (nat r) inp"
    and r: "r = (if shut st a \<or> room st a = 0 then - 1 else int (min (length inp) (room st a)))"
    using bio_write_spec [OF p ne] by blast
  have rg: "r = (if g = 0 then - 1 else int (min n g))" using r n by (auto simp: g_def)
  then have t: "take (nat r) inp = take g inp" using n by (auto simp: min_def)
  ultimately show "\<exists>g st'. BIO_ctrl_get_write_guarantee st a = Some (int g, st) \<and>
      bio_write st a (Some inp) (int n) = Some (if g = 0 then - 1 else int (min n g), st') \<and> sent st' a = sent st a @ take g inp"
    using w [unfolded n t] unfolding rg by blast
qed

theorem bio_pair_calls_witness:
  "(\<exists>out st'. bio_read small_pair 1 True 3 = Some (2, out, st') \<and> [1, 2] = out @ sent st' 0) \<and>
   (\<exists>g st'. BIO_ctrl_get_write_guarantee small_pair 0 = Some (int g, small_pair) \<and> sent st' 0 = [1, 2] @ take g [5, 6, 7])"
proof -
  have n: "0 < (3 :: nat)" "3 \<le> int_max" "length [5, 6, 7 :: byte] = 3" by (simp_all add: int_max_def)
  from bio_pair_calls [OF small_pair(1) n] show ?thesis unfolding small_pair(2) by auto
qed

end
