(* ===== verification/Conf_Text.thy ===== *)
theory Conf_Text
  imports Mem "HOL-Library.Monad_Syntax" "HOL-Library.Sublist"
begin

text \<open>
  The character classes of \<open>crypto/conf/conf_def.h\<close> and the functions of \<open>crypto/conf/conf.c\<close>
  that scan text: white space, names, quotes, comments and lists.

  A \<open>char *\<close> into a buffer is an offset. The result \<open>None\<close> of a scanner means that it reads past
  the end of the buffer; the lemmas show that this does not happen when there is a NUL ahead.
\<close>

definition char_at :: "byte list \<Rightarrow> nat \<Rightarrow> byte option" where
  "char_at buf p = (if p < length buf then Some (buf ! p) else None)"

lemma char_at_lt: "char_at buf p = Some c \<Longrightarrow> p < length buf"
  by (simp add: char_at_def split: if_splits)

section \<open>Character classes\<close>

definition CONF_NUMBER :: uint16 where
  "CONF_NUMBER = 1"

definition CONF_UPPER :: uint16 where
  "CONF_UPPER = 2"

definition CONF_LOWER :: uint16 where
  "CONF_LOWER = 4"

definition CONF_UNDER :: uint16 where
  "CONF_UNDER = 256"

definition CONF_PUNCTUATION :: uint16 where
  "CONF_PUNCTUATION = 512"

definition CONF_WS :: uint16 where
  "CONF_WS = 16"

definition CONF_ESC :: uint16 where
  "CONF_ESC = 32"

definition CONF_QUOTE :: uint16 where
  "CONF_QUOTE = 64"

definition CONF_DQUOTE :: uint16 where
  "CONF_DQUOTE = 1024"

definition CONF_COMMENT :: uint16 where
  "CONF_COMMENT = 128"

definition CONF_FCOMMENT :: uint16 where
  "CONF_FCOMMENT = 2048"

definition CONF_EOF :: uint16 where
  "CONF_EOF = 8"

definition CONF_ALPHA :: uint16 where
  "CONF_ALPHA = CONF_UPPER OR CONF_LOWER"

definition CONF_ALPHA_NUMERIC :: uint16 where
  "CONF_ALPHA_NUMERIC = CONF_ALPHA OR CONF_NUMBER OR CONF_UNDER"

definition CONF_ALPHA_NUMERIC_PUNCT :: uint16 where
  "CONF_ALPHA_NUMERIC_PUNCT = CONF_ALPHA OR CONF_NUMBER OR CONF_UNDER OR CONF_PUNCTUATION"

definition CONF_type_default :: "uint16 list" where
  "CONF_type_default =
     [0x0008,0x0000,0x0000,0x0000,0x0000,0x0000,0x0000,0x0000,
      0x0000,0x0010,0x0010,0x0000,0x0000,0x0010,0x0000,0x0000,
      0x0000,0x0000,0x0000,0x0000,0x0000,0x0000,0x0000,0x0000,
      0x0000,0x0000,0x0000,0x0000,0x0000,0x0000,0x0000,0x0000,
      0x0010,0x0200,0x0040,0x0080,0x0000,0x0200,0x0200,0x0040,
      0x0000,0x0000,0x0200,0x0200,0x0200,0x0200,0x0200,0x0200,
      0x0001,0x0001,0x0001,0x0001,0x0001,0x0001,0x0001,0x0001,
      0x0001,0x0001,0x0000,0x0200,0x0000,0x0000,0x0000,0x0200,
      0x0200,0x0002,0x0002,0x0002,0x0002,0x0002,0x0002,0x0002,
      0x0002,0x0002,0x0002,0x0002,0x0002,0x0002,0x0002,0x0002,
      0x0002,0x0002,0x0002,0x0002,0x0002,0x0002,0x0002,0x0002,
      0x0002,0x0002,0x0002,0x0000,0x0020,0x0000,0x0200,0x0100,
      0x0040,0x0004,0x0004,0x0004,0x0004,0x0004,0x0004,0x0004,
      0x0004,0x0004,0x0004,0x0004,0x0004,0x0004,0x0004,0x0004,
      0x0004,0x0004,0x0004,0x0004,0x0004,0x0004,0x0004,0x0004,
      0x0004,0x0004,0x0004,0x0000,0x0200,0x0000,0x0200,0x0000] @
     replicate 128 0x1000"

definition keytype :: "byte \<Rightarrow> uint16 \<Rightarrow> bool" where
  "keytype a m \<longleftrightarrow> CONF_type_default ! unat a AND m \<noteq> 0"

definition IS_COMMENT :: "byte \<Rightarrow> bool" where
  "IS_COMMENT a = keytype a CONF_COMMENT"

definition IS_FCOMMENT :: "byte \<Rightarrow> bool" where
  "IS_FCOMMENT a = keytype a CONF_FCOMMENT"

definition IS_EOF :: "byte \<Rightarrow> bool" where
  "IS_EOF a = keytype a CONF_EOF"

definition IS_ESC :: "byte \<Rightarrow> bool" where
  "IS_ESC a = keytype a CONF_ESC"

definition IS_WS :: "byte \<Rightarrow> bool" where
  "IS_WS a = keytype a CONF_WS"

definition IS_ALPHA_NUMERIC :: "byte \<Rightarrow> bool" where
  "IS_ALPHA_NUMERIC a = keytype a CONF_ALPHA_NUMERIC"

definition IS_ALPHA_NUMERIC_PUNCT :: "byte \<Rightarrow> bool" where
  "IS_ALPHA_NUMERIC_PUNCT a = keytype a CONF_ALPHA_NUMERIC_PUNCT"

definition IS_QUOTE :: "byte \<Rightarrow> bool" where
  "IS_QUOTE a = keytype a CONF_QUOTE"

definition IS_DQUOTE :: "byte \<Rightarrow> bool" where
  "IS_DQUOTE a = keytype a CONF_DQUOTE"

section \<open>Scanners\<close>

function eat_ws :: "byte list \<Rightarrow> nat \<Rightarrow> nat option" where
  "eat_ws buf p =
     (case char_at buf p of
        None \<Rightarrow> None
      | Some c \<Rightarrow> if IS_WS c \<and> \<not> IS_EOF c then eat_ws buf (p + 1) else Some p)"
  by pat_completeness auto
termination by (relation "measure (\<lambda>(buf, p). length buf - p)") (auto simp: char_at_def split: if_splits)

definition scan_esc :: "byte list \<Rightarrow> nat \<Rightarrow> nat option" where
  "scan_esc buf p = map_option (\<lambda>c. if IS_EOF c then p + 1 else p + 2) (char_at buf (p + 1))"

lemma scan_esc_gt: "scan_esc buf p = Some q \<Longrightarrow> p < q \<and> p < length buf"
  by (auto simp: scan_esc_def char_at_def split: if_splits)

function eat_alpha_numeric :: "byte list \<Rightarrow> nat \<Rightarrow> nat option" where
  "eat_alpha_numeric buf p =
     (case char_at buf p of
        None \<Rightarrow> None
      | Some c \<Rightarrow>
          if IS_ESC c then (case scan_esc buf p of None \<Rightarrow> None | Some q \<Rightarrow> eat_alpha_numeric buf q)
          else if \<not> IS_ALPHA_NUMERIC_PUNCT c then Some p
          else eat_alpha_numeric buf (p + 1))"
  by pat_completeness auto
termination
  by (relation "measure (\<lambda>(buf, p). length buf - p)") (auto simp: char_at_def split: if_splits dest!: scan_esc_gt)

text \<open>The loop of \<open>scan_quote\<close>; the quote \<open>q\<close> is behind.\<close>

function scan_quote_loop :: "byte list \<Rightarrow> byte \<Rightarrow> nat \<Rightarrow> nat option" where
  "scan_quote_loop buf q p =
     (case char_at buf p of
        None \<Rightarrow> None
      | Some c \<Rightarrow>
          if \<not> IS_EOF c \<and> c \<noteq> q then
            (if IS_ESC c then
               (case char_at buf (p + 1) of
                  None \<Rightarrow> None
                | Some d \<Rightarrow> if IS_EOF d then Some (p + 1) else scan_quote_loop buf q (p + 2))
             else scan_quote_loop buf q (p + 1))
          else if c = q then Some (p + 1)
          else Some p)"
  by pat_completeness auto
termination by (relation "measure (\<lambda>(buf, q, p). length buf - p)") (auto simp: char_at_def split: if_splits)

definition scan_quote :: "byte list \<Rightarrow> nat \<Rightarrow> nat option" where
  "scan_quote buf p = do { q \<leftarrow> char_at buf p; scan_quote_loop buf q (p + 1) }"

text \<open>A doubled quote stands for itself.\<close>

function scan_dquote_loop :: "byte list \<Rightarrow> byte \<Rightarrow> nat \<Rightarrow> nat option" where
  "scan_dquote_loop buf q p =
     (case char_at buf p of
        None \<Rightarrow> None
      | Some c \<Rightarrow>
          if \<not> IS_EOF c then
            (if c = q then
               (case char_at buf (p + 1) of
                  None \<Rightarrow> None
                | Some d \<Rightarrow> if d = q then scan_dquote_loop buf q (p + 2) else Some (p + 1))
             else scan_dquote_loop buf q (p + 1))
          else if c = q then Some (p + 1)
          else Some p)"
  by pat_completeness auto
termination by (relation "measure (\<lambda>(buf, q, p). length buf - p)") (auto simp: char_at_def split: if_splits)

definition scan_dquote :: "byte list \<Rightarrow> nat \<Rightarrow> nat option" where
  "scan_dquote buf p = do { q \<leftarrow> char_at buf p; scan_dquote_loop buf q (p + 1) }"

declare eat_ws.simps [simp del] eat_alpha_numeric.simps [simp del] scan_quote_loop.simps [simp del] scan_dquote_loop.simps [simp del]

lemma scan_quote_loop_ge: "scan_quote_loop buf q p = Some r \<Longrightarrow> p \<le> r"
proof (induction buf q p rule: scan_quote_loop.induct)
  case (1 buf q p)
  from 1(3) show ?case
    by (subst (asm) scan_quote_loop.simps) (auto split: option.splits if_splits dest: 1(1) 1(2))
qed

lemma scan_dquote_loop_ge: "scan_dquote_loop buf q p = Some r \<Longrightarrow> p \<le> r"
proof (induction buf q p rule: scan_dquote_loop.induct)
  case (1 buf q p)
  from 1(3) show ?case
    by (subst (asm) scan_dquote_loop.simps) (auto split: option.splits if_splits dest: 1(1) 1(2))
qed

lemma scan_quote_gt: "scan_quote buf p = Some r \<Longrightarrow> p < r \<and> p < length buf"
  by (auto simp: scan_quote_def char_at_def bind_eq_Some_conv split: if_splits dest!: scan_quote_loop_ge)

lemma scan_dquote_gt: "scan_dquote buf p = Some r \<Longrightarrow> p < r \<and> p < length buf"
  by (auto simp: scan_dquote_def char_at_def bind_eq_Some_conv split: if_splits dest!: scan_dquote_loop_ge)

section \<open>Comments\<close>

text \<open>The two loops of \<open>clear_comments\<close>: white space up to a full-line comment, then the rest of the line.\<close>

function clear_comments_start :: "byte list \<Rightarrow> nat \<Rightarrow> (byte list + nat) option" where
  "clear_comments_start buf p =
     (case char_at buf p of
        None \<Rightarrow> None
      | Some c \<Rightarrow>
          if IS_FCOMMENT c then Some (Inl (buf[p := 0]))
          else if \<not> IS_WS c then Some (Inr p)
          else clear_comments_start buf (p + 1))"
  by pat_completeness auto
termination by (relation "measure (\<lambda>(buf, p). length buf - p)") (auto simp: char_at_def split: if_splits)

function clear_comments_rest :: "byte list \<Rightarrow> nat \<Rightarrow> byte list option" where
  "clear_comments_rest buf p =
     (case char_at buf p of
        None \<Rightarrow> None
      | Some c \<Rightarrow>
          if IS_COMMENT c then Some (buf[p := 0])
          else if IS_DQUOTE c then (case scan_dquote buf p of None \<Rightarrow> None | Some q \<Rightarrow> clear_comments_rest buf q)
          else if IS_QUOTE c then (case scan_quote buf p of None \<Rightarrow> None | Some q \<Rightarrow> clear_comments_rest buf q)
          else if IS_ESC c then (case scan_esc buf p of None \<Rightarrow> None | Some q \<Rightarrow> clear_comments_rest buf q)
          else if IS_EOF c then Some buf
          else clear_comments_rest buf (p + 1))"
  by pat_completeness auto
termination
  by (relation "measure (\<lambda>(buf, p). length buf - p)")
    (auto simp: char_at_def split: if_splits dest!: scan_esc_gt scan_quote_gt scan_dquote_gt)

declare clear_comments_start.simps [simp del] clear_comments_rest.simps [simp del]

definition clear_comments :: "byte list \<Rightarrow> nat \<Rightarrow> byte list option" where
  "clear_comments buf p =
     (case clear_comments_start buf p of
        None \<Rightarrow> None
      | Some (Inl buf') \<Rightarrow> Some buf'
      | Some (Inr q) \<Rightarrow> clear_comments_rest buf q)"

section \<open>Lists\<close>

text \<open>\<open>isspace\<close> in the C locale and \<open>strchr\<close>; \<open>None\<close> inside for the result NULL.\<close>

definition c_isspace :: "byte \<Rightarrow> bool" where
  "c_isspace c \<longleftrightarrow> c = 0x20 \<or> (0x09 \<le> c \<and> c \<le> 0x0d)"

function c_strchr :: "byte list \<Rightarrow> nat \<Rightarrow> byte \<Rightarrow> nat option option" where
  "c_strchr buf p sep =
     (case char_at buf p of
        None \<Rightarrow> None
      | Some c \<Rightarrow> if c = sep then Some (Some p) else if c = 0 then Some None else c_strchr buf (p + 1) sep)"
  by pat_completeness auto
termination by (relation "measure (\<lambda>(buf, p, sep). length buf - p)") (auto simp: char_at_def split: if_splits)

function skip_space :: "byte list \<Rightarrow> nat \<Rightarrow> nat option" where
  "skip_space buf p =
     (case char_at buf p of
        None \<Rightarrow> None
      | Some c \<Rightarrow> if c \<noteq> 0 \<and> c_isspace c then skip_space buf (p + 1) else Some p)"
  by pat_completeness auto
termination by (relation "measure (\<lambda>(buf, p). length buf - p)") (auto simp: char_at_def split: if_splits)

text \<open>\<open>tmpend\<close> moves down over white space; going below the buffer is the result \<open>None\<close>.\<close>

fun back_space :: "byte list \<Rightarrow> nat \<Rightarrow> nat option" where
  "back_space buf 0 = (case char_at buf 0 of None \<Rightarrow> None | Some c \<Rightarrow> if c_isspace c then None else Some 0)"
| "back_space buf (Suc p) =
     (case char_at buf (Suc p) of None \<Rightarrow> None | Some c \<Rightarrow> if c_isspace c then back_space buf p else Some (Suc p))"

declare c_strchr.simps [simp del] skip_space.simps [simp del]

lemma c_strchr_ge: "c_strchr buf p sep = Some (Some q) \<Longrightarrow> p \<le> q \<and> q < length buf"
proof (induction buf p sep rule: c_strchr.induct)
  case (1 buf p sep)
  from 1(2) show ?case
    by (subst (asm) c_strchr.simps) (fastforce split: option.splits if_splits dest: 1(1) char_at_lt)
qed

lemma skip_space_ge: "skip_space buf p = Some q \<Longrightarrow> p \<le> q \<and> q < length buf"
proof (induction buf p rule: skip_space.induct)
  case (1 buf p)
  from 1(2) show ?case
    by (subst (asm) skip_space.simps) (fastforce split: option.splits if_splits dest: 1(1) char_at_lt)
qed

text \<open>
  The argument of the call-back: \<open>None\<close> for NULL and length 0, else the bytes between
  \<open>lstart\<close> and \<open>tmpend\<close>. The call-back works on a world \<open>'w\<close>.
\<close>

definition list_element :: "byte list \<Rightarrow> nat \<Rightarrow> nat option \<Rightarrow> bool \<Rightarrow> byte list option option" where
  "list_element list lstart p remove_whitespace =
     do {
       c \<leftarrow> char_at list lstart;
       if p = Some lstart \<or> c = 0 then Some None
       else
         do {
           let last_char = (case p of Some q \<Rightarrow> q - 1 | None \<Rightarrow> lstart + c_strlen (drop lstart list) - 1);
           tmpend \<leftarrow> (if remove_whitespace then back_space list last_char else Some last_char);
           Some (Some (take (tmpend - lstart + 1) (drop lstart list)))
         }
     }"

function CONF_parse_list_loop ::
  "byte list \<Rightarrow> byte \<Rightarrow> bool \<Rightarrow> (byte list option \<Rightarrow> 'w \<Rightarrow> int \<times> 'w) \<Rightarrow> nat \<Rightarrow> 'w \<Rightarrow> (int \<times> 'w) option" where
  "CONF_parse_list_loop list sep remove_whitespace list_cb lstart0 w =
     (case (if remove_whitespace then skip_space list lstart0 else Some lstart0) of
        None \<Rightarrow> None
      | Some lstart \<Rightarrow>
          (case c_strchr list lstart sep of
             None \<Rightarrow> None
           | Some p \<Rightarrow>
               (case list_element list lstart p remove_whitespace of
                  None \<Rightarrow> None
                | Some elem \<Rightarrow>
                    (case list_cb elem w of
                       (ret, w') \<Rightarrow>
                         if ret \<le> 0 then Some (ret, w')
                         else
                           (case p of
                              None \<Rightarrow> Some (1, w')
                            | Some q \<Rightarrow> CONF_parse_list_loop list sep remove_whitespace list_cb (q + 1) w')))))"
  by pat_completeness auto
termination
  by (relation "measure (\<lambda>(list, sep, rw, cb, p, w). length list - p)")
    (fastforce split: if_splits dest: skip_space_ge c_strchr_ge)+

declare CONF_parse_list_loop.simps [simp del]

definition CONF_parse_list ::
  "byte list option \<Rightarrow> byte \<Rightarrow> bool \<Rightarrow> (byte list option \<Rightarrow> 'w \<Rightarrow> int \<times> 'w) \<Rightarrow> 'w \<Rightarrow> (int \<times> 'w) option" where
  "CONF_parse_list list sep remove_whitespace list_cb w =
     (case list of
        None \<Rightarrow> Some (0, w)
      | Some l \<Rightarrow> CONF_parse_list_loop l sep remove_whitespace list_cb 0 w)"

section \<open>The classes spelled out\<close>

definition char_class :: "nat \<Rightarrow> uint16" where
  "char_class n =
     (if n = 0 then CONF_EOF
      else if n = 0x09 \<or> n = 0x0a \<or> n = 0x0d \<or> n = 0x20 then CONF_WS
      else if 0x30 \<le> n \<and> n \<le> 0x39 then CONF_NUMBER
      else if 0x41 \<le> n \<and> n \<le> 0x5a then CONF_UPPER
      else if 0x61 \<le> n \<and> n \<le> 0x7a then CONF_LOWER
      else if n = 0x5f then CONF_UNDER
      else if n = 0x5c then CONF_ESC
      else if n = 0x22 \<or> n = 0x27 \<or> n = 0x60 then CONF_QUOTE
      else if n = 0x23 then CONF_COMMENT
      else if n = 0x21 \<or> n = 0x25 \<or> n = 0x26 \<or> (0x2a \<le> n \<and> n \<le> 0x2f) \<or> n = 0x3b \<or> n = 0x3f \<or> n = 0x40 \<or>
        n = 0x5e \<or> n = 0x7c \<or> n = 0x7e then CONF_PUNCTUATION
      else if n < 0x80 then 0
      else 0x1000)"

lemmas conf_masks = CONF_NUMBER_def CONF_UPPER_def CONF_LOWER_def CONF_UNDER_def CONF_PUNCTUATION_def CONF_WS_def CONF_ESC_def
  CONF_QUOTE_def CONF_DQUOTE_def CONF_COMMENT_def CONF_FCOMMENT_def CONF_EOF_def CONF_ALPHA_def CONF_ALPHA_NUMERIC_def
  CONF_ALPHA_NUMERIC_PUNCT_def

lemma type_table_ascii: "take 128 CONF_type_default = map char_class [0..<128]"
proof -
  have "[0..<128] = 0 # 1 # [2..<128]" by (simp add: upt_conv_Cons numeral_2_eq_2)
  then show ?thesis by (simp add: CONF_type_default_def char_class_def conf_masks upt_rec_numeral)
qed

lemma type_table: "n < 256 \<Longrightarrow> CONF_type_default ! n = char_class n"
proof (cases "n < 128")
  case True
  then show ?thesis using arg_cong [OF type_table_ascii, of "\<lambda>l. l ! n"] by simp
next
  case False
  moreover assume "n < 256"
  ultimately show ?thesis by (simp add: CONF_type_default_def nth_append char_class_def)
qed

lemma keytype_class: "keytype a m \<longleftrightarrow> char_class (unat a) AND m \<noteq> 0"
  by (simp add: keytype_def type_table)

lemma byte_eq_unat: "c = d \<longleftrightarrow> unat c = unat d" for c d :: byte
  by (simp add: word_unat_eq_iff)

lemma class_EOF [simp]: "IS_EOF c \<longleftrightarrow> c = 0"
  by (simp add: IS_EOF_def keytype_class char_class_def conf_masks byte_eq_unat)

lemma class_WS: "IS_WS c \<longleftrightarrow> c = 0x09 \<or> c = 0x0a \<or> c = 0x0d \<or> c = 0x20"
  by (simp add: IS_WS_def keytype_class char_class_def conf_masks byte_eq_unat)

lemma class_ESC: "IS_ESC c \<longleftrightarrow> c = 0x5c"
  by (simp add: IS_ESC_def keytype_class char_class_def conf_masks byte_eq_unat)

lemma class_COMMENT: "IS_COMMENT c \<longleftrightarrow> c = 0x23"
  by (simp add: IS_COMMENT_def keytype_class char_class_def conf_masks byte_eq_unat)

lemma class_QUOTE: "IS_QUOTE c \<longleftrightarrow> c = 0x22 \<or> c = 0x27 \<or> c = 0x60"
  by (simp add: IS_QUOTE_def keytype_class char_class_def conf_masks byte_eq_unat)

text \<open>No character is in the classes of doubled quotes and of full-line comments.\<close>

lemma class_none [simp]: "\<not> IS_DQUOTE c" "\<not> IS_FCOMMENT c"
  by (simp_all add: IS_DQUOTE_def IS_FCOMMENT_def keytype_class char_class_def conf_masks)

lemma class_ALNUM: "IS_ALPHA_NUMERIC c \<longleftrightarrow>
    (0x30 \<le> unat c \<and> unat c \<le> 0x39) \<or> (0x41 \<le> unat c \<and> unat c \<le> 0x5a) \<or> (0x61 \<le> unat c \<and> unat c \<le> 0x7a) \<or> c = 0x5f"
  by (auto simp: IS_ALPHA_NUMERIC_def keytype_class char_class_def conf_masks byte_eq_unat)

lemma class_ALNUM_PUNCT:
  "IS_ALPHA_NUMERIC_PUNCT c \<Longrightarrow> \<not> IS_WS c \<and> \<not> IS_ESC c \<and> \<not> IS_QUOTE c \<and> \<not> IS_COMMENT c \<and> c \<noteq> 0 \<and> c \<noteq> 0x24 \<and> c \<noteq> 0x3a \<and>
     c \<noteq> 0x3d \<and> c \<noteq> 0x5b \<and> c \<noteq> 0x5d"
  by (auto simp: IS_ALPHA_NUMERIC_PUNCT_def class_WS class_ESC class_QUOTE class_COMMENT keytype_class char_class_def conf_masks)

lemma class_ALNUM_imp: "IS_ALPHA_NUMERIC c \<Longrightarrow> IS_ALPHA_NUMERIC_PUNCT c"
  by (auto simp: IS_ALPHA_NUMERIC_def IS_ALPHA_NUMERIC_PUNCT_def keytype_class char_class_def conf_masks split: if_splits)

section \<open>The scanners stay in the string\<close>

definition nul_ahead :: "byte list \<Rightarrow> nat \<Rightarrow> bool" where
  "nul_ahead buf p \<longleftrightarrow> 0 \<in> set (drop p buf)"

lemma nul_ahead_char: "nul_ahead buf p \<Longrightarrow> char_at buf p = Some (buf ! p) \<and> p < length buf"
  by (cases "p < length buf") (auto simp: nul_ahead_def char_at_def)

lemma nul_ahead_Suc: "nul_ahead buf p \<Longrightarrow> buf ! p \<noteq> 0 \<Longrightarrow> nul_ahead buf (Suc p)"
  using nul_ahead_char [of buf p] Cons_nth_drop_Suc [of p buf] by (auto simp: nul_ahead_def) (metis set_ConsD)

lemma nul_ahead_update: "nul_ahead buf p \<Longrightarrow> nul_ahead (buf[q := 0]) p"
proof -
  assume a: "nul_ahead buf p"
  then obtain i where i: "p \<le> i" "i < length buf" "buf ! i = 0"
    by (auto simp: nul_ahead_def in_set_conv_nth) (metis add_leD1 le_add1 less_diff_conv add.commute)
  then have "buf[q := 0] ! i = 0" by (cases "q = i") simp_all
  moreover have "drop p (buf[q := 0]) ! (i - p) = buf[q := 0] ! i" "i - p < length (drop p (buf[q := 0]))" using i by simp_all
  ultimately show ?thesis unfolding nul_ahead_def by (metis nth_mem)
qed

lemma eat_ws_safe: "nul_ahead buf p \<Longrightarrow> \<exists>q. eat_ws buf p = Some q \<and> p \<le> q \<and> nul_ahead buf q \<and> (\<not> IS_WS (buf ! q) \<or> buf ! q = 0)"
proof (induction buf p rule: eat_ws.induct)
  case (1 buf p)
  then show ?case
    using nul_ahead_char [OF 1(2)] nul_ahead_Suc [OF 1(2)] by (subst eat_ws.simps) fastforce
qed

lemma scan_esc_safe: "nul_ahead buf p \<Longrightarrow> IS_ESC (buf ! p) \<Longrightarrow> \<exists>q. scan_esc buf p = Some q \<and> p < q \<and> nul_ahead buf q"
  using nul_ahead_Suc [of buf p] nul_ahead_char [of buf "Suc p"] nul_ahead_Suc [of buf "Suc p"]
  by (auto simp: scan_esc_def class_ESC)

lemma eat_alpha_numeric_safe:
  "nul_ahead buf p \<Longrightarrow> \<exists>q. eat_alpha_numeric buf p = Some q \<and> p \<le> q \<and> nul_ahead buf q \<and> \<not> IS_ALPHA_NUMERIC_PUNCT (buf ! q)"
proof (induction buf p rule: eat_alpha_numeric.induct)
  case (1 buf p)
  have c: "char_at buf p = Some (buf ! p)" using nul_ahead_char [OF 1(3)] by simp
  show ?case
  proof (cases "IS_ESC (buf ! p)")
    case True
    then obtain q where q: "scan_esc buf p = Some q" "p < q" "nul_ahead buf q" using scan_esc_safe [OF 1(3)] by blast
    then show ?thesis using 1(1) [OF c True q(1,3)] True c by (subst eat_alpha_numeric.simps) (auto intro: less_imp_le)
  next
    case False
    then show ?thesis
      using 1(2) [OF c False] 1(3) c class_ALNUM_PUNCT [of "buf ! p"] nul_ahead_Suc [OF 1(3)]
      by (subst eat_alpha_numeric.simps) fastforce
  qed
qed

lemma scan_quote_loop_safe: "nul_ahead buf p \<Longrightarrow> q \<noteq> 0 \<Longrightarrow> \<exists>r. scan_quote_loop buf q p = Some r \<and> p \<le> r \<and> nul_ahead buf r"
proof (induction buf q p rule: scan_quote_loop.induct)
  case (1 buf q p)
  have c: "char_at buf p = Some (buf ! p)" using nul_ahead_char [OF 1(3)] by simp
  show ?case
  proof (cases "buf ! p = 0 \<or> buf ! p = q")
    case True
    then show ?thesis using 1(3,4) c nul_ahead_Suc [OF 1(3)] by (subst scan_quote_loop.simps) auto
  next
    case False
    then have n1: "nul_ahead buf (Suc p)" and c1: "char_at buf (p + 1) = Some (buf ! (p + 1))"
      using nul_ahead_Suc [OF 1(3)] nul_ahead_char [of buf "Suc p"] by simp_all
    note c1' = c1 [unfolded Suc_eq_plus1 [symmetric]]
    show ?thesis
    proof (cases "IS_ESC (buf ! p)")
      case esc: True
      show ?thesis
      proof (cases "buf ! Suc p = 0")
        case True
        then show ?thesis using False esc c c1' n1 by (subst scan_quote_loop.simps) auto
      next
        case ne: False
        then have "nul_ahead buf (p + 2)" using nul_ahead_Suc [OF n1] by simp
        then show ?thesis using 1(1) [OF c _ esc c1] False ne esc c c1' 1(4) by (subst scan_quote_loop.simps) (auto intro: add_leD1)
      qed
    next
      case esc: False
      then show ?thesis using 1(2) [OF c _ esc] n1 False c 1(4) by (subst scan_quote_loop.simps) (auto intro: Suc_leD)
    qed
  qed
qed

lemma scan_quote_safe: "nul_ahead buf p \<Longrightarrow> IS_QUOTE (buf ! p) \<Longrightarrow> \<exists>r. scan_quote buf p = Some r \<and> p < r \<and> nul_ahead buf r"
  using nul_ahead_char [of buf p] nul_ahead_Suc [of buf p] scan_quote_loop_safe [of buf "Suc p" "buf ! p"]
  by (auto simp: scan_quote_def class_QUOTE Suc_le_eq)

lemma clear_comments_rest_safe: "nul_ahead buf p \<Longrightarrow> \<exists>q. clear_comments_rest buf p = Some (buf[q := 0]) \<and> p \<le> q \<and> q < length buf"
proof (induction buf p rule: clear_comments_rest.induct)
  case (1 buf p)
  have c: "char_at buf p = Some (buf ! p)" and lt: "p < length buf" using nul_ahead_char [OF 1(5)] by simp_all
  consider "IS_COMMENT (buf ! p)" | "\<not> IS_COMMENT (buf ! p)" "IS_QUOTE (buf ! p)" | "\<not> IS_COMMENT (buf ! p)" "\<not> IS_QUOTE (buf ! p)" "IS_ESC (buf ! p)"
    | "buf ! p = 0" | "\<not> IS_COMMENT (buf ! p)" "\<not> IS_QUOTE (buf ! p)" "\<not> IS_ESC (buf ! p)" "buf ! p \<noteq> 0"
    by blast
  then show ?case
  proof cases
    case 1
    then show ?thesis using c lt by (subst clear_comments_rest.simps) auto
  next
    case c2: 2
    then obtain q where q: "scan_quote buf p = Some q" "p < q" "nul_ahead buf q" using scan_quote_safe [OF 1(5)] by blast
    show ?thesis
      using 1(2) [OF c c2(1) _ c2(2) q(1) q(3)] c c2 q by (subst clear_comments_rest.simps) (auto intro: less_imp_le order_trans)
  next
    case c3: 3
    then obtain q where q: "scan_esc buf p = Some q" "p < q" "nul_ahead buf q" using scan_esc_safe [OF 1(5)] by blast
    show ?thesis
      using 1(3) [OF c c3(1) _ c3(2,3) q(1) q(3)] c c3 q by (subst clear_comments_rest.simps) (auto intro: less_imp_le order_trans)
  next
    case 4
    then have "buf[p := 0] = buf" by (metis list_update_id)
    then show ?thesis using 4 c lt by (subst clear_comments_rest.simps) (auto simp: class_COMMENT class_QUOTE class_ESC intro!: exI [of _ p])
  next
    case c5: 5
    then have "nul_ahead buf (p + 1)" using nul_ahead_Suc [OF 1(5)] by simp
    then show ?thesis
      using 1(4) [OF c c5(1) _ c5(2,3)] c c5 by (subst clear_comments_rest.simps) (auto intro: Suc_leD)
  qed
qed

lemma clear_comments_start_safe: "nul_ahead buf p \<Longrightarrow> \<exists>q. clear_comments_start buf p = Some (Inr q) \<and> p \<le> q \<and> nul_ahead buf q"
proof (induction buf p rule: clear_comments_start.induct)
  case (1 buf p)
  have c: "char_at buf p = Some (buf ! p)" using nul_ahead_char [OF 1(2)] by simp
  show ?case
  proof (cases "IS_WS (buf ! p)")
    case True
    then have "nul_ahead buf (p + 1)" using nul_ahead_Suc [OF 1(2)] by (auto simp: class_WS)
    then show ?thesis using 1(1) [OF c] c True by (subst clear_comments_start.simps) (auto intro: Suc_leD)
  next
    case False
    then show ?thesis using 1(2) c by (subst clear_comments_start.simps) simp
  qed
qed

lemma clear_comments_safe: "nul_ahead buf p \<Longrightarrow> \<exists>q. clear_comments buf p = Some (buf[q := 0]) \<and> p \<le> q \<and> q < length buf"
  using clear_comments_start_safe [of buf p] clear_comments_rest_safe [of buf]
  by (fastforce simp: clear_comments_def)

section \<open>What a list holds\<close>

text \<open>The fields between the separators, the argument of the call-back for one, and the calls in order.\<close>

function split_on :: "byte \<Rightarrow> byte list \<Rightarrow> byte list list" where
  "split_on sep s =
     takeWhile (\<lambda>c. c \<noteq> sep) s # (case dropWhile (\<lambda>c. c \<noteq> sep) s of [] \<Rightarrow> [] | _ # t \<Rightarrow> split_on sep t)"
  by pat_completeness auto
termination
proof (relation "measure (\<lambda>(sep, s). length s)", goal_cases)
  case (2 sep s c t)
  then show ?case using length_dropWhile_le [of "\<lambda>c. c \<noteq> sep" s] by simp
qed simp

declare split_on.simps [simp del]

definition trim_end :: "byte list \<Rightarrow> byte list" where
  "trim_end f = rev (dropWhile c_isspace (rev f))"

definition list_arg :: "bool \<Rightarrow> byte list \<Rightarrow> byte list option" where
  "list_arg remove_whitespace f =
     (let g = (if remove_whitespace then trim_end (dropWhile c_isspace f) else f) in if g = [] then None else Some g)"

fun feed :: "('e \<Rightarrow> 'w \<Rightarrow> int \<times> 'w) \<Rightarrow> 'e list \<Rightarrow> 'w \<Rightarrow> int \<times> 'w" where
  "feed cb [] w = (1, w)"
| "feed cb (e # es) w = (case cb e w of (ret, w') \<Rightarrow> if ret \<le> 0 then (ret, w') else feed cb es w')"

lemma char_at_append: "char_at (pre @ c # post) (length pre) = Some c"
  by (simp add: char_at_def)

lemma c_strchr_spec:
  "sep \<noteq> 0 \<Longrightarrow> 0 \<notin> set s \<Longrightarrow> c_strchr (pre @ s @ 0 # post) (length pre) sep =
     Some (if sep \<in> set s then Some (length pre + length (takeWhile (\<lambda>c. c \<noteq> sep) s)) else None)"
proof (induction s arbitrary: pre)
  case Nil
  then show ?case by (subst c_strchr.simps) (simp add: char_at_append)
next
  case (Cons c s)
  then show ?case using Cons.IH [of "pre @ [c]"] by (subst c_strchr.simps) (auto simp: char_at_append)
qed

lemma space_0 [simp]: "\<not> c_isspace 0"
  by (simp add: c_isspace_def)

lemma skip_space_spec:
  "0 \<notin> set s \<Longrightarrow> skip_space (pre @ s @ 0 # post) (length pre) = Some (length pre + length (takeWhile c_isspace s))"
proof (induction s arbitrary: pre)
  case Nil
  then show ?case by (subst skip_space.simps) (simp add: char_at_append)
next
  case (Cons c s)
  then show ?case using Cons.IH [of "pre @ [c]"] by (subst skip_space.simps) (auto simp: char_at_append)
qed

lemma back_space_spec:
  "f \<noteq> [] \<Longrightarrow> \<not> c_isspace (hd f) \<Longrightarrow> back_space (pre @ f @ post) (length pre + length f - 1) = Some (length pre + length (trim_end f) - 1) \<and>
     trim_end f \<noteq> []"
proof (induction f arbitrary: post rule: rev_induct)
  case (snoc c f)
  have at: "char_at (pre @ (f @ [c]) @ post) (length pre + length f) = Some c" by (simp add: char_at_def nth_append)
  show ?case
  proof (cases "c_isspace c")
    case False
    then show ?thesis using at by (cases "length pre + length f") (simp_all add: trim_end_def)
  next
    case True
    then have f: "f \<noteq> []" "\<not> c_isspace (hd f)" using snoc.prems by (cases f; simp)+
    then obtain n where n: "length pre + length f = Suc n" by (cases f) auto
    have te: "trim_end (f @ [c]) = trim_end f" using True by (simp add: trim_end_def)
    show ?thesis using snoc.IH [OF f, of "[c] @ post"] at True n unfolding te by simp
  qed
qed simp

lemma take_trim_end: "take (length (trim_end f)) (f @ post) = trim_end f"
proof -
  have "prefix (trim_end f) f" unfolding trim_end_def by (metis suffix_dropWhile suffix_to_prefix rev_rev_ident)
  then obtain zs where f: "f = trim_end f @ zs" by (auto simp: prefix_def)
  have "take (length (trim_end f)) ((trim_end f @ zs) @ post) = trim_end f" by simp
  then show ?thesis unfolding f [symmetric] .
qed

lemma c_strlen_append: "0 \<notin> set s \<Longrightarrow> c_strlen (s @ 0 # post) = length s"
  by (induction s) (simp_all add: c_strlen_def)

text \<open>The element that starts behind \<open>pre\<close>, with \<open>f\<close> up to the separator or the end.\<close>

lemma list_element_spec:
  assumes "0 \<notin> set s" and f: "f = takeWhile (\<lambda>c. c \<noteq> sep) s" and "rw \<Longrightarrow> s = [] \<or> \<not> c_isspace (hd s)" and "sep \<noteq> 0"
  shows "list_element (pre @ s @ 0 # post) (length pre) (if sep \<in> set s then Some (length pre + length f) else None) rw =
    Some (let g = (if rw then trim_end f else f) in if g = [] then None else Some g)"
proof (cases "f = []")
  case True
  then have "s = [] \<or> hd s = sep" using f by (cases s) (auto split: if_splits)
  then have "list_element (pre @ s @ 0 # post) (length pre) (if sep \<in> set s then Some (length pre + length f) else None) rw = Some None"
    using True by (cases s) (auto simp: list_element_def char_at_append)
  then show ?thesis using True by (simp add: trim_end_def)
next
  case False
  then obtain c s' where s: "s = c # s'" "c \<noteq> sep" using f by (cases s) (auto split: if_splits)
  have hf: "hd f = c" using s f by simp
  have c: "char_at (pre @ s @ 0 # post) (length pre) = Some c" "c \<noteq> 0" using s assms(1) by (auto simp: char_at_append)
  obtain tl where sf: "s @ 0 # post = f @ tl" using f by (metis append.assoc takeWhile_dropWhile_id)
  have last: "(case if sep \<in> set s then Some (length pre + length f) else None of Some q \<Rightarrow> q - 1
      | None \<Rightarrow> length pre + c_strlen (drop (length pre) (pre @ s @ 0 # post)) - 1) = length pre + length f - 1"
  proof (cases "sep \<in> set s")
    case False
    then have "f = s" unfolding f by (auto simp: takeWhile_eq_all_conv)
    then show ?thesis using False assms(1) by (simp add: c_strlen_append)
  qed simp
  have ne: "(if sep \<in> set s then Some (length pre + length f) else None) \<noteq> Some (length pre)" using False by simp
  show ?thesis
  proof (cases rw)
    case True
    then have "\<not> c_isspace (hd f)" using assms(3) s hf by simp
    note b = back_space_spec [OF False this, of pre tl, folded sf]
    then have "Suc (length pre + length (trim_end f) - 1 - length pre) = length (trim_end f)" by (cases "trim_end f") simp_all
    then show ?thesis
      using b c ne True take_trim_end [of f tl]
      unfolding list_element_def c(1) Option.bind.simps last Let_def by (simp add: sf)
  next
    case rw: False
    have "Suc (length pre + length f - 1 - length pre) = length f" using False by (cases f) simp_all
    then show ?thesis
      using c ne rw False unfolding list_element_def c(1) Option.bind.simps last Let_def by (simp add: sf)
  qed
qed

lemma takeWhile_dropWhile_space:
  "\<not> c_isspace sep \<Longrightarrow> takeWhile (\<lambda>c. c \<noteq> sep) (dropWhile c_isspace s) = dropWhile c_isspace (takeWhile (\<lambda>c. c \<noteq> sep) s)"
  "\<not> c_isspace sep \<Longrightarrow> dropWhile (\<lambda>c. c \<noteq> sep) (dropWhile c_isspace s) = dropWhile (\<lambda>c. c \<noteq> sep) s"
  by (induction s) auto

lemma parse_list_loop_spec:
  assumes "sep \<noteq> 0" and "rw \<Longrightarrow> \<not> c_isspace sep"
  shows "0 \<notin> set s \<Longrightarrow> CONF_parse_list_loop (pre @ s @ 0 # post) sep rw cb (length pre) w =
    Some (feed cb (map (list_arg rw) (split_on sep s)) w)"
proof (induction s arbitrary: pre w rule: length_induct)
  case (1 s)
  define ws s' where "ws = (if rw then takeWhile c_isspace s else [])" and "s' = (if rw then dropWhile c_isspace s else s)"
  have s: "s = ws @ s'" by (simp add: ws_def s'_def)
  define pre' where "pre' = pre @ ws"
  have mem: "pre @ s @ 0 # post = pre' @ s' @ 0 # post" by (simp add: s pre'_def)
  have z: "0 \<notin> set s'" using 1(2) s by simp
  have skip: "(if rw then skip_space (pre @ s @ 0 # post) (length pre) else Some (length pre)) = Some (length pre')"
    using skip_space_spec [OF 1(2), of pre post] by (simp add: pre'_def ws_def)
  define f where "f = takeWhile (\<lambda>c. c \<noteq> sep) s'"
  have f: "f = (if rw then dropWhile c_isspace (takeWhile (\<lambda>c. c \<noteq> sep) s) else takeWhile (\<lambda>c. c \<noteq> sep) s)"
    using takeWhile_dropWhile_space(1) [of sep s] assms(2) by (simp add: f_def s'_def)
  have dw: "dropWhile (\<lambda>c. c \<noteq> sep) s' = dropWhile (\<lambda>c. c \<noteq> sep) s"
    using takeWhile_dropWhile_space(2) [of sep s] assms(2) by (simp add: s'_def)
  have hd: "s' = [] \<or> \<not> c_isspace (hd s')" if rw using that hd_dropWhile [of c_isspace s] by (auto simp: s'_def)
  define p where "p = (if sep \<in> set s' then Some (length pre' + length f) else None)"
  have p: "c_strchr (pre' @ s' @ 0 # post) (length pre') sep = Some p" using c_strchr_spec [OF assms(1) z] by (simp add: p_def f_def)
  have el: "list_element (pre' @ s' @ 0 # post) (length pre') p rw = Some (list_arg rw (takeWhile (\<lambda>c. c \<noteq> sep) s))"
    using list_element_spec [OF z f_def hd assms(1), of rw pre' post] f unfolding p_def [symmetric] list_arg_def by simp
  obtain ret w' where cb: "cb (list_arg rw (takeWhile (\<lambda>c. c \<noteq> sep) s)) w = (ret, w')" by fastforce
  have step: "CONF_parse_list_loop (pre @ s @ 0 # post) sep rw cb (length pre) w =
      (if ret \<le> 0 then Some (ret, w')
       else case p of None \<Rightarrow> Some (1, w') | Some q \<Rightarrow> CONF_parse_list_loop (pre' @ s' @ 0 # post) sep rw cb (q + 1) w')"
    by (subst CONF_parse_list_loop.simps) (use skip p el cb in \<open>simp add: mem split: option.split\<close>)
  show ?case
  proof (cases "dropWhile (\<lambda>c. c \<noteq> sep) s")
    case Nil
    then have "sep \<notin> set s'" using s by (auto simp: dropWhile_eq_Nil_conv)
    then show ?thesis unfolding step by (subst split_on.simps) (simp add: Nil p_def cb)
  next
    case (Cons c t)
    then have c: "c = sep" using hd_dropWhile [of "\<lambda>c. c \<noteq> sep" s] by auto
    then have s': "s' = f @ sep # t" using takeWhile_dropWhile_id [of "\<lambda>c. c \<noteq> sep" s'] Cons by (simp add: f_def dw)
    have lt: "length t < length s" using Cons length_dropWhile_le [of "\<lambda>c. c \<noteq> sep" s] by simp
    have "CONF_parse_list_loop ((pre' @ f @ [sep]) @ t @ 0 # post) sep rw cb (length (pre' @ f @ [sep])) w' =
        Some (feed cb (map (list_arg rw) (split_on sep t)) w')"
      using 1(1) lt z s' by (metis Un_iff list.set_intros(2) set_append)
    then show ?thesis unfolding step by (subst split_on.simps) (use s' in \<open>simp add: Cons c p_def cb\<close>)
  qed
qed

section \<open>Properties\<close>

text \<open>\<open>CONF_parse_list\<close> splits the string at every separator and calls the call-back with the fields
  in order, NULL for an empty one, until a call is not positive. White space around a field is removed
  if that is asked for. It returns for every string with a NUL, and reads only the string.\<close>

theorem parse_list_fields:
  assumes "sep \<noteq> 0" and "remove_whitespace \<Longrightarrow> \<not> c_isspace sep" and "0 \<notin> set s"
  shows "CONF_parse_list (Some (s @ 0 # post)) sep remove_whitespace cb w =
    Some (feed cb (map (list_arg remove_whitespace) (split_on sep s)) w)"
  using parse_list_loop_spec [OF assms(1,2,3), of remove_whitespace "[]" post cb w] by (simp add: CONF_parse_list_def)

theorem parse_list_fields_witness:
  "CONF_parse_list (Some ([0x61, 0x20, 0x2c, 0x20, 0x2c, 0x62] @ 0 # [9])) 0x2c True (\<lambda>e es. (1, es @ [e])) [] =
     Some (1, [Some [0x61], None, Some [0x62]])"
proof -
  have "split_on 0x2c [0x61, 0x20, 0x2c, 0x20, 0x2c, 0x62] = [[0x61, 0x20], [0x20], [0x62]]"
    by (simp add: split_on.simps)
  then show ?thesis
    using parse_list_fields [of "0x2c" True "[0x61, 0x20, 0x2c, 0x20, 0x2c, 0x62]" "[9]" "\<lambda>e es. (1, es @ [e])" "[]"]
    by (simp add: list_arg_def trim_end_def c_isspace_def)
qed

text \<open>The scanners stay inside the string: on a buffer with a NUL ahead each of them returns a
  position that still has a NUL ahead, and clearing comments writes at most one NUL into the buffer, at or
  behind the start.\<close>

theorem conf_scanners_safe:
  assumes "nul_ahead buf p"
  shows "(\<exists>q. eat_ws buf p = Some q \<and> p \<le> q \<and> nul_ahead buf q) \<and>
    (\<exists>q. eat_alpha_numeric buf p = Some q \<and> p \<le> q \<and> nul_ahead buf q) \<and>
    (\<exists>q. clear_comments buf p = Some (buf[q := 0]) \<and> p \<le> q \<and> q < length buf \<and> nul_ahead (buf[q := 0]) p)"
  using eat_ws_safe [OF assms] eat_alpha_numeric_safe [OF assms] clear_comments_safe [OF assms] nul_ahead_update [OF assms] by blast

theorem conf_scanners_safe_witness:
  "\<exists>q. eat_ws [0x20, 0x61, 0, 0x62] 0 = Some q \<and> nul_ahead [0x20, 0x61, 0, 0x62] q"
proof -
  have "nul_ahead [0x20, 0x61, 0, 0x62] 0" by (simp add: nul_ahead_def)
  from conf_scanners_safe [OF this] show ?thesis by blast
qed

end
