(* ===== verification/Conf.thy ===== *)
theory Conf
  imports Conf_Text Lhash Stack Bio_Mem
begin

text \<open>
  \<open>crypto/conf/conf.c\<close>: the store of configuration values and the expansion of values.

  A \<open>CONF\<close> is a hash table of \<open>CONF_VALUE\<close>s. A value with a name is an entry and holds a
  string; a value without a name stands for a section and holds the stack of its entries. The stacks
  live in a store, since they grow after they have been put in the table. A \<open>CONF_VALUE\<close> is not
  changed any more once it is in the table; its address \<open>cv_addr\<close> is what the stacks hold. New
  addresses are counted up by \<open>conf_next\<close>. The error queue is represented by the error that is put last.
\<close>

datatype conf_payload = Text "byte list" | Section_stack nat

record conf_value =
  cv_addr :: ptr
  cv_section :: "byte list option"
  cv_name :: "byte list option"
  cv_value :: "conf_payload option"

record conf_st =
  conf_data :: "(conf_value, unit, unit) lhash"
  conf_stacks :: "nat \<Rightarrow> unit stack"
  conf_next :: nat

datatype conf_error =
    CONF_MALLOC_FAILURE | CONF_R_NO_CLOSE_BRACE | CONF_R_VARIABLE_HAS_NO_VALUE | CONF_R_VARIABLE_EXPANSION_TOO_LONG
  | CONF_R_MISSING_CLOSE_SQUARE_BRACKET | CONF_R_MISSING_EQUAL_SIGN | CONF_R_UNABLE_TO_CREATE_NEW_SECTION

text \<open>The C string \<open>"default"\<close>.\<close>

definition kDefaultSectionName :: "byte list" where
  "kDefaultSectionName = [0x64, 0x65, 0x66, 0x61, 0x75, 0x6c, 0x74, 0]"

definition MAX_CONF_VALUE_LENGTH :: nat where
  "MAX_CONF_VALUE_LENGTH = 65536"

definition conf_value_hash :: "conf_value \<Rightarrow> uint32" where
  "conf_value_hash v =
     (let section_hash = (case cv_section v of None \<Rightarrow> 0 | Some s \<Rightarrow> OPENSSL_strhash s);
          name_hash = (case cv_name v of None \<Rightarrow> 0 | Some s \<Rightarrow> OPENSSL_strhash s)
      in push_bit 2 section_hash XOR name_hash)"

text \<open>Comparing NULL with a section would follow NULL; every value that is compared has a section.\<close>

definition conf_value_cmp :: "conf_value \<Rightarrow> conf_value \<Rightarrow> int" where
  "conf_value_cmp a b =
     (let i = (case (cv_section a, cv_section b) of
                 (Some s, Some t) \<Rightarrow> c_strcmp s t
               | (None, None) \<Rightarrow> 0
               | _ \<Rightarrow> 1) in
      if i \<noteq> 0 then i
      else
        (case (cv_name a, cv_name b) of
           (Some s, Some t) \<Rightarrow> c_strcmp s t
         | (None, None) \<Rightarrow> 0
         | (None, Some _) \<Rightarrow> - 1
         | (Some _, None) \<Rightarrow> 1))"

abbreviation conf_insert :: "allocator \<Rightarrow> (conf_value, unit, unit) lhash \<Rightarrow> conf_value \<Rightarrow>
    bool \<times> conf_value option \<times> (conf_value, unit, unit) lhash \<times> allocator" where
  "conf_insert \<equiv> OPENSSL_lh_insert (\<lambda>_. conf_value_hash) (\<lambda>_. conf_value_cmp)"

abbreviation conf_retrieve :: "(conf_value, unit, unit) lhash \<Rightarrow> conf_value \<Rightarrow> conf_value option" where
  "conf_retrieve \<equiv> OPENSSL_lh_retrieve (\<lambda>_. conf_value_hash) (\<lambda>_. conf_value_cmp)"

definition NCONF_new :: "allocator \<Rightarrow> bool \<Rightarrow> conf_st option \<times> allocator" where
  "NCONF_new al has_method =
     (if has_method then (None, al)
      else
        (case OPENSSL_malloc al 8 of
           (None, al1) \<Rightarrow> (None, al1)
         | (Some _, al1) \<Rightarrow>
             (case OPENSSL_lh_new al1 () () of
                (None, al2) \<Rightarrow> (None, al2)
              | (Some data, al2) \<Rightarrow>
                  (Some \<lparr>conf_data = data,
                         conf_stacks = (\<lambda>_. \<lparr>num = 0, sk_data = [], sorted_flag = False, num_alloc = 0, comp = None\<rparr>),
                         conf_next = 1\<rparr>, al2))))"

definition CONF_VALUE_new :: "allocator \<Rightarrow> ptr \<Rightarrow> conf_value option \<times> allocator" where
  "CONF_VALUE_new al addr =
     (case OPENSSL_malloc al 24 of
        (None, al') \<Rightarrow> (None, al')
      | (Some _, al') \<Rightarrow> (Some \<lparr>cv_addr = addr, cv_section = None, cv_name = None, cv_value = None\<rparr>, al'))"

definition NCONF_new_section :: "allocator \<Rightarrow> conf_st \<Rightarrow> byte list \<Rightarrow> conf_value option \<times> conf_st \<times> allocator" where
  "NCONF_new_section al conf section =
     (case sk_new_null al of
        (sk, al1) \<Rightarrow>
          (case CONF_VALUE_new al1 (of_nat (conf_next conf)) of
             (v, al2) \<Rightarrow>
               (case (sk, v) of
                  (Some sk, Some v) \<Rightarrow>
                    (case OPENSSL_strdup al2 (Some section) of
                       (None, al3) \<Rightarrow> (None, conf, al3)
                     | (Some s, al3) \<Rightarrow>
                         (let v' = v\<lparr>cv_section := Some s, cv_name := None, cv_value := Some (Section_stack (conf_next conf))\<rparr> in
                          case conf_insert al3 (conf_data conf) v' of
                            (False, _, lh, al4) \<Rightarrow> (None, conf\<lparr>conf_data := lh\<rparr>, al4)
                          | (True, old_value, lh, al4) \<Rightarrow>
                              (Some v', conf\<lparr>conf_data := lh, conf_stacks := (conf_stacks conf)(conf_next conf := sk),
                                             conf_next := conf_next conf + 1\<rparr>, al4)))
                | _ \<Rightarrow> (None, conf, al2))))"

section \<open>Looking up\<close>

definition get_section :: "conf_st \<Rightarrow> byte list \<Rightarrow> conf_value option" where
  "get_section conf section =
     conf_retrieve (conf_data conf) \<lparr>cv_addr = 0, cv_section = Some section, cv_name = None, cv_value = None\<rparr>"

text \<open>The stack of a section, NULL when there is none.\<close>

definition section_stack_id :: "conf_value \<Rightarrow> nat" where
  "section_stack_id v = (case cv_value v of Some (Section_stack k) \<Rightarrow> k | _ \<Rightarrow> 0)"

definition NCONF_get_section :: "conf_st \<Rightarrow> byte list \<Rightarrow> unit stack option" where
  "NCONF_get_section conf section =
     (case get_section conf section of
        None \<Rightarrow> None
      | Some section_value \<Rightarrow> Some (conf_stacks conf (section_stack_id section_value)))"

definition NCONF_get_string :: "conf_st \<Rightarrow> byte list option \<Rightarrow> byte list \<Rightarrow> byte list option" where
  "NCONF_get_string conf section0 name =
     (let section = (case section0 of None \<Rightarrow> kDefaultSectionName | Some s \<Rightarrow> s) in
      case conf_retrieve (conf_data conf) \<lparr>cv_addr = 0, cv_section = Some section, cv_name = Some name, cv_value = None\<rparr> of
        None \<Rightarrow> None
      | Some v \<Rightarrow> (case cv_value v of Some (Text t) \<Rightarrow> Some t | _ \<Rightarrow> None))"

text \<open>The result of \<open>OPENSSL_strdup\<close> is not checked in the code either.\<close>

definition add_string :: "allocator \<Rightarrow> conf_st \<Rightarrow> conf_value \<Rightarrow> conf_value \<Rightarrow> bool \<times> conf_st \<times> allocator" where
  "add_string al conf section value0 =
     (let k = section_stack_id section in
      case OPENSSL_strdup al (cv_section section) of
        (s, al1) \<Rightarrow>
          (let value = value0\<lparr>cv_section := s\<rparr> in
           case sk_push al1 (conf_stacks conf k) (cv_addr value) of
             (n, sk, al2) \<Rightarrow>
               (let conf1 = conf\<lparr>conf_stacks := (conf_stacks conf)(k := (case sk of None \<Rightarrow> conf_stacks conf k | Some s \<Rightarrow> s))\<rparr> in
                if n = 0 then (False, conf1, al2)
                else
                  (case conf_insert al2 (conf_data conf1) value of
                     (False, _, lh, al3) \<Rightarrow> (False, conf1\<lparr>conf_data := lh\<rparr>, al3)
                   | (True, None, lh, al3) \<Rightarrow> (True, conf1\<lparr>conf_data := lh\<rparr>, al3)
                   | (True, Some old_value, lh, al3) \<Rightarrow>
                       (case sk_delete_ptr (Some (conf_stacks conf1 k)) (cv_addr old_value) of
                          (_, sk') \<Rightarrow>
                            (True, conf1\<lparr>conf_data := lh, conf_stacks := (conf_stacks conf1)(k := (case sk' of None \<Rightarrow> conf_stacks conf1 k | Some s \<Rightarrow> s))\<rparr>,
                             al3))))))"

section \<open>Expanding values\<close>

text \<open>
  \<open>str_copy\<close> copies a value into a buffer, removes quotes and escapes and replaces variables. The
  value is the string at the offset \<open>from\<close> of \<open>mem\<close>. A write outside of the buffer and a read past
  \<open>mem\<close> are the result \<open>None\<close>.
\<close>

definition put_char :: "buf_mem \<Rightarrow> nat \<Rightarrow> byte \<Rightarrow> buf_mem option" where
  "put_char b to c =
     (case buf_data b of
        None \<Rightarrow> None
      | Some d \<Rightarrow> if to < length d then Some (b\<lparr>buf_data := Some (d[to := c])\<rparr>) else None)"

text \<open>The loops over a quoted part, behind the quote \<open>q\<close>, with the step over the closing quote.\<close>

function copy_quoted :: "byte list \<Rightarrow> byte \<Rightarrow> nat \<Rightarrow> buf_mem \<Rightarrow> nat \<Rightarrow> (buf_mem \<times> nat \<times> nat) option" where
  "copy_quoted mem q from b to =
     (case char_at mem from of
        None \<Rightarrow> None
      | Some c \<Rightarrow>
          if \<not> IS_EOF c \<and> c \<noteq> q then
            (if IS_ESC c then
               (case char_at mem (from + 1) of
                  None \<Rightarrow> None
                | Some d \<Rightarrow>
                    if IS_EOF d then Some (b, to, if d = q then from + 2 else from + 1)
                    else (case put_char b to d of None \<Rightarrow> None | Some b' \<Rightarrow> copy_quoted mem q (from + 2) b' (to + 1)))
             else (case put_char b to c of None \<Rightarrow> None | Some b' \<Rightarrow> copy_quoted mem q (from + 1) b' (to + 1)))
          else Some (b, to, if c = q then from + 1 else from))"
  by pat_completeness auto
termination by (relation "measure (\<lambda>(mem, q, from, b, to). length mem - from)") (auto simp: char_at_def split: if_splits)

function copy_dquoted :: "byte list \<Rightarrow> byte \<Rightarrow> nat \<Rightarrow> buf_mem \<Rightarrow> nat \<Rightarrow> (buf_mem \<times> nat \<times> nat) option" where
  "copy_dquoted mem q from b to =
     (case char_at mem from of
        None \<Rightarrow> None
      | Some c \<Rightarrow>
          if \<not> IS_EOF c then
            (if c = q then
               (case char_at mem (from + 1) of
                  None \<Rightarrow> None
                | Some d \<Rightarrow>
                    if d = q
                    then (case put_char b to d of None \<Rightarrow> None | Some b' \<Rightarrow> copy_dquoted mem q (from + 2) b' (to + 1))
                    else Some (b, to, from + 1))
             else (case put_char b to c of None \<Rightarrow> None | Some b' \<Rightarrow> copy_dquoted mem q (from + 1) b' (to + 1)))
          else Some (b, to, if c = q then from + 1 else from))"
  by pat_completeness auto
termination by (relation "measure (\<lambda>(mem, q, from, b, to). length mem - from)") (auto simp: char_at_def split: if_splits)

text \<open>The loop that copies the value of a variable.\<close>

fun put_text :: "buf_mem \<Rightarrow> nat \<Rightarrow> byte list \<Rightarrow> (buf_mem \<times> nat) option" where
  "put_text b to [] = None"
| "put_text b to (c # p) =
     (if c = 0 then Some (b, to) else (case put_char b to c of None \<Rightarrow> None | Some b' \<Rightarrow> put_text b' (to + 1) p))"

function skip_alnum :: "byte list \<Rightarrow> nat \<Rightarrow> nat option" where
  "skip_alnum mem e =
     (case char_at mem e of None \<Rightarrow> None | Some c \<Rightarrow> if IS_ALPHA_NUMERIC c then skip_alnum mem (e + 1) else Some e)"
  by pat_completeness auto
termination by (relation "measure (\<lambda>(mem, e). length mem - e)") (auto simp: char_at_def split: if_splits)

declare copy_quoted.simps [simp del] copy_dquoted.simps [simp del] skip_alnum.simps [simp del]

text \<open>A variable: where the section name starts and ends (\<open>cp\<close> and \<open>rrp\<close>), if there is one, where
  the name starts and ends (\<open>np\<close> and \<open>e\<close>), and the closing brace or 0.\<close>

record var_ref =
  var_section :: "(nat \<times> nat) option"
  var_name :: nat
  var_end :: nat
  var_close :: byte

definition scan_var :: "byte list \<Rightarrow> nat \<Rightarrow> var_ref option" where
  "scan_var mem from =
     do {
       s0 \<leftarrow> char_at mem (from + 1);
       let q = (if s0 = 0x7b then 0x7d else if s0 = 0x28 then 0x29 else 0);
       let s = (if q \<noteq> 0 then from + 2 else from + 1);
       e \<leftarrow> skip_alnum mem s;
       c0 \<leftarrow> char_at mem e;
       c1 \<leftarrow> (if c0 = 0x3a then char_at mem (e + 1) else Some 0);
       if c0 = 0x3a \<and> c1 = 0x3a then
         do {
           e2 \<leftarrow> skip_alnum mem (e + 2);
           Some \<lparr>var_section = Some (s, e), var_name = e + 2, var_end = e2, var_close = q\<rparr>
         }
       else Some \<lparr>var_section = None, var_name = s, var_end = e, var_close = q\<rparr>
     }"

text \<open>
  \<open>NULs\<close> are written behind the section and the name while the value is looked up, and taken
  back afterwards.
\<close>

definition lookup_var :: "conf_st \<Rightarrow> byte list option \<Rightarrow> byte list \<Rightarrow> var_ref \<Rightarrow> byte list option" where
  "lookup_var conf section mem v =
     (let mem1 = (case var_section v of None \<Rightarrow> mem | Some (_, rrp) \<Rightarrow> mem[rrp := 0]);
          mem2 = mem1[var_end v := 0];
          cp = (case var_section v of None \<Rightarrow> section | Some (s, _) \<Rightarrow> Some (drop s mem2))
      in NCONF_get_string conf cp (drop (var_name v) mem2))"

lemma copy_quoted_ge: "copy_quoted mem q from b to = Some (b', to', from') \<Longrightarrow> from \<le> from'"
proof (induction mem q "from" b to rule: copy_quoted.induct)
  case (1 mem q fr b ct)
  from 1(3) show ?case
    by (subst (asm) copy_quoted.simps) (fastforce split: option.splits if_splits dest: 1(1) 1(2))
qed

lemma copy_dquoted_ge: "copy_dquoted mem q from b to = Some (b', to', from') \<Longrightarrow> from \<le> from'"
proof (induction mem q "from" b to rule: copy_dquoted.induct)
  case (1 mem q fr b ct)
  from 1(3) show ?case
    by (subst (asm) copy_dquoted.simps) (fastforce split: option.splits if_splits dest: 1(1) 1(2))
qed

lemma skip_alnum_ge: "skip_alnum mem e = Some e' \<Longrightarrow> e \<le> e'"
proof (induction mem e rule: skip_alnum.induct)
  case (1 mem e)
  from 1(2) show ?case by (subst (asm) skip_alnum.simps) (fastforce split: option.splits if_splits dest: 1(1))
qed

lemma scan_var_gt: "scan_var mem from = Some v \<Longrightarrow> from < var_end v"
  by (auto simp: scan_var_def bind_eq_Some_conv Let_def split: if_splits dest!: skip_alnum_ge)

definition sub_size :: "nat \<Rightarrow> nat \<Rightarrow> nat" where
  "sub_size a b = nat ((int a - int b) mod int size_max1)"

text \<open>The loop of \<open>str_copy\<close>. \<open>len\<close> is not used after the first growth of the buffer.\<close>

function str_copy_loop ::
  "allocator \<Rightarrow> conf_st \<Rightarrow> byte list option \<Rightarrow> byte list \<Rightarrow> nat \<Rightarrow> buf_mem \<Rightarrow> nat \<Rightarrow>
   ((conf_error + buf_mem \<times> nat) \<times> allocator) option" where
  "str_copy_loop al conf section mem from b to =
     (case char_at mem from of
        None \<Rightarrow> None
      | Some c \<Rightarrow>
          if IS_QUOTE c then
            (case copy_quoted mem c (from + 1) b to of
               None \<Rightarrow> None
             | Some (b', to', from') \<Rightarrow> str_copy_loop al conf section mem from' b' to')
          else if IS_DQUOTE c then
            (case copy_dquoted mem c (from + 1) b to of
               None \<Rightarrow> None
             | Some (b', to', from') \<Rightarrow> str_copy_loop al conf section mem from' b' to')
          else if IS_ESC c then
            (case char_at mem (from + 1) of
               None \<Rightarrow> None
             | Some v \<Rightarrow>
                 if IS_EOF v then Some (Inr (b, to), al)
                 else
                   (case put_char b to (if v = 0x72 then 0x0d else if v = 0x6e then 0x0a else if v = 0x62 then 0x08
                                        else if v = 0x74 then 0x09 else v) of
                      None \<Rightarrow> None
                    | Some b' \<Rightarrow> str_copy_loop al conf section mem (from + 2) b' (to + 1)))
          else if IS_EOF c then Some (Inr (b, to), al)
          else if c = 0x24 then
            (case scan_var mem from of
               None \<Rightarrow> None
             | Some v \<Rightarrow>
                 (case char_at mem (var_end v) of
                    None \<Rightarrow> None
                  | Some r \<Rightarrow>
                      if var_close v \<noteq> 0 \<and> r \<noteq> var_close v then Some (Inl CONF_R_NO_CLOSE_BRACE, al)
                      else
                        let e = (if var_close v \<noteq> 0 then var_end v + 1 else var_end v) in
                        (case lookup_var conf section mem v of
                           None \<Rightarrow> Some (Inl CONF_R_VARIABLE_HAS_NO_VALUE, al)
                         | Some p \<Rightarrow>
                             (let newsize = sub_size (size_add (c_strlen p) (buf_length b)) (e - from) in
                              if newsize > MAX_CONF_VALUE_LENGTH then Some (Inl CONF_R_VARIABLE_EXPANSION_TOO_LONG, al)
                              else
                                (case BUF_MEM_grow_clean al b newsize of
                                   (r, b1, al1) \<Rightarrow>
                                     if r = 0 then Some (Inl CONF_MALLOC_FAILURE, al1)
                                     else
                                       (case put_text b1 to p of
                                          None \<Rightarrow> None
                                        | Some (b2, to') \<Rightarrow> str_copy_loop al1 conf section mem e b2 to'))))))
          else
            (case put_char b to c of
               None \<Rightarrow> None
             | Some b' \<Rightarrow> str_copy_loop al conf section mem (from + 1) b' (to + 1)))"
  by pat_completeness auto
termination
  by (relation "measure (\<lambda>(al, conf, section, mem, from, b, to). length mem - from)")
    (fastforce dest: copy_quoted_ge copy_dquoted_ge scan_var_gt char_at_lt split: if_splits)+

declare str_copy_loop.simps [simp del]

text \<open>The value, which is the memory of the buffer, or the error.\<close>

definition str_copy ::
  "allocator \<Rightarrow> conf_st \<Rightarrow> byte list option \<Rightarrow> byte list \<Rightarrow> nat \<Rightarrow> ((conf_error + byte list) \<times> allocator) option" where
  "str_copy al conf section mem from =
     (case BUF_MEM_new al of
        (None, al1) \<Rightarrow> Some (Inl CONF_MALLOC_FAILURE, al1)
      | (Some b, al1) \<Rightarrow>
          (let len = to_int (c_strlen (drop from mem) + 1) in
           case BUF_MEM_grow al1 b (nat (len mod int size_max1)) of
             (r, b1, al2) \<Rightarrow>
               if r = 0 then Some (Inl CONF_MALLOC_FAILURE, al2)
               else
                 (case str_copy_loop al2 conf section mem from b1 0 of
                    None \<Rightarrow> None
                  | Some (Inl e, al3) \<Rightarrow> Some (Inl e, al3)
                  | Some (Inr (b2, to), al3) \<Rightarrow>
                      (case put_char b2 to 0 of
                         None \<Rightarrow> None
                       | Some b3 \<Rightarrow> Some (Inr (data_bytes b3), al3)))))"

end
