(* ===== verification/Conf_Expand.thy ===== *)
theory Conf_Expand
  imports Conf
begin

text \<open>
  What \<open>str_copy\<close> computes: the abstract expansion of a value as a function on its characters, and
  the proof that the code, with its buffer, its offsets and its NULs, implements it and never writes out
  of the buffer.
\<close>

section \<open>The expansion of a value\<close>

text \<open>A quoted part and what is behind it.\<close>

fun unquote :: "byte \<Rightarrow> byte list \<Rightarrow> byte list \<times> byte list" where
  "unquote q [] = ([], [])"
| "unquote q (c # s) =
     (if c = q then ([], s)
      else if IS_ESC c then
        (case s of [] \<Rightarrow> ([], []) | d # t \<Rightarrow> (case unquote q t of (out, rest) \<Rightarrow> (d # out, rest)))
      else (case unquote q s of (out, rest) \<Rightarrow> (c # out, rest)))"

definition escaped :: "byte \<Rightarrow> byte" where
  "escaped v = (if v = 0x72 then 0x0d else if v = 0x6e then 0x0a else if v = 0x62 then 0x08 else if v = 0x74 then 0x09 else v)"

text \<open>A variable behind its dollar sign: the closing brace that is due, or 0, and the rest; then the section,
  the name and the rest.\<close>

definition var_open :: "byte list \<Rightarrow> byte \<times> byte list" where
  "var_open s = (case s of [] \<Rightarrow> (0, []) | c # t \<Rightarrow> if c = 0x7b then (0x7d, t) else if c = 0x28 then (0x29, t) else (0, s))"

definition var_names :: "byte list \<Rightarrow> byte list option \<times> byte list \<times> byte list" where
  "var_names s =
     (let n = takeWhile IS_ALPHA_NUMERIC s; r = dropWhile IS_ALPHA_NUMERIC s; t = drop 2 r in
      if take 2 r = [0x3a, 0x3a] then (Some n, takeWhile IS_ALPHA_NUMERIC t, dropWhile IS_ALPHA_NUMERIC t) else (None, n, r))"

definition prepend :: "byte list \<Rightarrow> conf_error + byte list \<Rightarrow> conf_error + byte list" where
  "prepend out r = (case r of Inl e \<Rightarrow> Inl e | Inr o1 \<Rightarrow> Inr (out @ o1))"

lemma unquote_length: "length (snd (unquote q s)) + length (fst (unquote q s)) \<le> length s"
  by (induction q s rule: unquote.induct) (auto simp: case_prod_beta intro: le_SucI split: list.split)

lemma unquote_shorter: "unquote q s = (out, rest) \<Longrightarrow> length rest + length out \<le> length s"
  using unquote_length [of q s] by simp

lemma var_open_shorter: "var_open s = (q, s1) \<Longrightarrow> length s1 \<le> length s"
  by (auto simp: var_open_def split: list.splits if_splits)

lemma var_names_split:
  "var_names s = (sec, n, r) \<Longrightarrow> s = (case sec of None \<Rightarrow> [] | Some x \<Rightarrow> x @ [0x3a, 0x3a]) @ n @ r"
  by (auto simp: var_names_def Let_def split: if_splits) (metis append_Cons append_Nil append_take_drop_id takeWhile_dropWhile_id)

lemma var_names_shorter: "var_names s = (sec, n, r) \<Longrightarrow> length r \<le> length s"
  by (auto dest!: var_names_split)

text \<open>
  The expansion. \<open>look\<close> gives the text of a variable, and \<open>n\<close> is the size of the buffer, which a
  variable must not make larger than \<open>MAX_CONF_VALUE_LENGTH\<close>.
\<close>

function expand :: "(byte list option \<Rightarrow> byte list \<Rightarrow> byte list option) \<Rightarrow> nat \<Rightarrow> byte list \<Rightarrow> conf_error + byte list" where
  "expand look n [] = Inr []"
| "expand look n (c # t) =
     (if IS_QUOTE c then (case unquote c t of (out, rest) \<Rightarrow> prepend out (expand look n rest))
      else if IS_ESC c then (case t of [] \<Rightarrow> Inr [] | v # u \<Rightarrow> prepend [escaped v] (expand look n u))
      else if c = 0x24 then
        (case var_open t of
           (q, s1) \<Rightarrow>
             (case var_names s1 of
                (sec, name, r) \<Rightarrow>
                  if q \<noteq> 0 \<and> (r = [] \<or> hd r \<noteq> q) then Inl CONF_R_NO_CLOSE_BRACE
                  else
                    (case look sec name of
                       None \<Rightarrow> Inl CONF_R_VARIABLE_HAS_NO_VALUE
                     | Some p \<Rightarrow>
                         (let rest = (if q \<noteq> 0 then tl r else r);
                              n' = length p + n - (length (c # t) - length rest) in
                          if n' > MAX_CONF_VALUE_LENGTH then Inl CONF_R_VARIABLE_EXPANSION_TOO_LONG
                          else prepend p (expand look n' rest)))))
      else prepend [c] (expand look n t))"
  by pat_completeness auto
termination
proof (relation "measure (\<lambda>(look, n, s). length s)", goal_cases)
  case (2 look n c t x y)
  then show ?case using unquote_shorter [of c t x y] by simp
next
  case (4 look n c t q s1 sec ya name r p rest n')
  then have "length s1 \<le> length t" "length r \<le> length s1"
    using var_open_shorter [of t q s1] var_names_shorter [of s1 sec name r] by simp_all
  then show ?case using 4(9) by auto
qed simp_all

declare expand.simps [simp del]

section \<open>The buffer\<close>

text \<open>The buffer begins with the characters \<open>xs\<close>.\<close>

definition written :: "buf_mem \<Rightarrow> byte list \<Rightarrow> bool" where
  "written b xs \<longleftrightarrow> buf_ok b \<and> length xs \<le> buf_length b \<and> take (length xs) (buf_contents b) = xs"

lemma put_char_written:
  assumes "written b xs" and "length xs < buf_length b"
  obtains b' where "put_char b (length xs) c = Some b'" and "written b' (xs @ [c])" and "buf_length b' = buf_length b"
proof -
  obtain d where d: "buf_data b = Some d" "length d = buf_max b" "buf_length b \<le> buf_max b"
    using assms by (auto simp: written_def buf_ok_def split: option.splits)
  let ?b = "b\<lparr>buf_data := Some (d[length xs := c])\<rparr>"
  have "put_char b (length xs) c = Some ?b" using d assms(2) by (simp add: put_char_def)
  moreover have "take (Suc (length xs)) (take (buf_length b) (d[length xs := c])) = xs @ [c]"
  proof -
    have "take (length xs) d = xs" using assms d by (simp add: written_def buf_contents_def min_absorb1)
    then show ?thesis using assms(2) d by (simp add: min_absorb1 take_Suc_conv_app_nth take_update_swap)
  qed
  then have "written ?b (xs @ [c])" using assms d by (simp add: written_def buf_ok_def buf_contents_def)
  ultimately show thesis using that by simp
qed

lemma put_text_written:
  "0 \<in> set p \<Longrightarrow> written b xs \<Longrightarrow> length xs + length (c_str p) \<le> buf_length b \<Longrightarrow>
   \<exists>b'. put_text b (length xs) p = Some (b', length (xs @ c_str p)) \<and> written b' (xs @ c_str p) \<and> buf_length b' = buf_length b"
proof (induction p arbitrary: b xs)
  case (Cons c p)
  show ?case
  proof (cases "c = 0")
    case True
    then show ?thesis using Cons.prems by (simp add: c_str_def)
  next
    case False
    then have l: "length xs < buf_length b" using Cons.prems(3) by (simp add: c_str_def)
    obtain b1 where b1: "put_char b (length xs) c = Some b1" "written b1 (xs @ [c])" "buf_length b1 = buf_length b"
      by (rule put_char_written [OF Cons.prems(2) l])
    then show ?thesis using Cons.IH [of b1 "xs @ [c]"] Cons.prems False by (auto simp: c_str_def)
  qed
qed simp

lemma written_grow:
  assumes "written b xs" and "length xs \<le> n" and "n < 2 ^ 50" and "BUF_MEM_grow_clean al b n = (r, b', al')" and "n \<noteq> 0"
  shows "(r = n \<and> written b' xs \<and> buf_length b' = n) \<or> (r = 0 \<and> \<not> never_fails al)"
proof -
  have n: "n < size_max1" "reserve_size n + 8 < size_max1" using assms(3) by (simp_all add: size_max1_def reserve_size_def)
  have b: "buf_ok b" using assms(1) by (simp add: written_def)
  have len: "length (buf_contents b) = buf_length b" by (rule length_buf_contents [OF b])
  from BUF_MEM_grow_spec [OF b n(1) assms(4) [unfolded BUF_MEM_grow_clean_def]]
  consider "r = n" "buf_ok b'" "buf_contents b' = take n (buf_contents b) @ replicate (n - length (buf_contents b)) 0" | "r = 0" "\<not> never_fails al"
    using n(2) by blast
  then show ?thesis
  proof cases
    case 1
    then have "buf_length b' = n" using length_buf_contents [OF 1(2)] by simp
    moreover have "take (length xs) (buf_contents b') = xs"
      using 1(3) assms(1,2) len by (simp add: written_def min_absorb1)
    ultimately show ?thesis using 1 assms(2) by (simp add: written_def)
  qed simp
qed

lemma malloc_keeps: "OPENSSL_malloc al n = (r, al') \<Longrightarrow> never_fails al' = never_fails al"
  by (auto simp: OPENSSL_malloc_def libc_malloc_def never_fails_def split: if_splits)

lemma realloc_keeps: "OPENSSL_realloc al q n = (r, al') \<Longrightarrow> never_fails al' = never_fails al"
  by (auto simp: OPENSSL_realloc_def Let_def split: option.splits prod.splits dest!: malloc_keeps)

lemma reserve_keeps: "BUF_MEM_reserve al b n = (r, b', al') \<Longrightarrow> never_fails al' = never_fails al"
  by (auto simp: BUF_MEM_reserve_def Let_def split: option.splits prod.splits if_splits dest!: realloc_keeps)

lemma grow_keeps: "BUF_MEM_grow al b n = (r, b', al') \<Longrightarrow> never_fails al' = never_fails al"
  by (auto simp: BUF_MEM_grow_def Let_def split: option.splits prod.splits bool.splits if_splits dest!: reserve_keeps)

section \<open>The string\<close>

lemma char_at_end: "char_at (pre @ s @ 0 # post) (length pre) = Some (hd (s @ [0]))"
  by (cases s) (simp_all add: char_at_def nth_append)

lemma char_at_second: "s \<noteq> [] \<Longrightarrow> char_at (pre @ s @ 0 # post) (Suc (length pre)) = Some (hd (tl s @ [0]))"
  by (cases s; cases "tl s") (auto simp: char_at_def nth_append)

lemma copy_quoted_spec:
  "mem = pre @ s @ 0 # post \<Longrightarrow> 0 \<notin> set s \<Longrightarrow> q \<noteq> 0 \<Longrightarrow> written b xs \<Longrightarrow> length xs + length s + 1 \<le> buf_length b \<Longrightarrow> unquote q s = (out, rest) \<Longrightarrow>
   \<exists>b' pre'. copy_quoted mem q (length pre) b (length xs) = Some (b', length (xs @ out), length pre') \<and> mem = pre' @ rest @ 0 # post \<and>
     0 \<notin> set rest \<and> written b' (xs @ out) \<and> buf_length b' = buf_length b"
proof (induction q s arbitrary: pre b xs out rule: unquote.induct)
  case (1 q)
  have "copy_quoted mem q (length pre) b (length xs) = Some (b, length xs, length pre)"
    using 1 by (subst copy_quoted.simps) (auto simp: char_at_append)
  then show ?case using 1 by auto
next
  case (2 q c s)
  have at: "char_at mem (length pre) = Some c" using 2(3) by (simp add: char_at_append)
  have lt: "length xs < buf_length b" using 2(7) by simp
  consider (quote) "c = q" | (plain) "c \<noteq> q" "\<not> IS_ESC c" | (last) "c \<noteq> q" "IS_ESC c" "s = []" | (esc) d t where "c \<noteq> q" "IS_ESC c" "s = d # t"
    by (cases s) auto
  then show ?case
  proof cases
    case quote
    then have "copy_quoted mem q (length pre) b (length xs) = Some (b, length xs, length (pre @ [c]))"
      using at by (subst copy_quoted.simps) simp
    then show ?thesis using quote 2(3,4,6,8) by (intro exI [of _ b] exI [of _ "pre @ [c]"]) auto
  next
    case last
    then have "char_at mem (length pre + 1) = Some 0" using 2(3) by (simp add: char_at_def nth_append)
    then have "copy_quoted mem q (length pre) b (length xs) = Some (b, length xs, length (pre @ [c]))"
      using at last 2(4,5) by (subst copy_quoted.simps) auto
    then show ?thesis using last 2(3,4,6,8) by (intro exI [of _ b] exI [of _ "pre @ [c]"]) auto
  next
    case plain
    obtain o1 where o1: "unquote q s = (o1, rest)" "out = c # o1" using 2(8) plain by (auto split: prod.splits)
    obtain b1 where b1: "put_char b (length xs) c = Some b1" "written b1 (xs @ [c])" "buf_length b1 = buf_length b"
      by (rule put_char_written [OF 2(6) lt])
    have "copy_quoted mem q (length pre) b (length xs) = copy_quoted mem q (length (pre @ [c])) b1 (length (xs @ [c]))"
      using at plain b1(1) 2(4) by (subst copy_quoted.simps) auto
    then show ?thesis using 2(2) [OF plain, of "pre @ [c]" b1 "xs @ [c]" o1] 2(3-7) b1 o1 by auto
  next
    case esc
    obtain o1 where o1: "unquote q t = (o1, rest)" "out = d # o1" using 2(8) esc by (auto split: prod.splits)
    obtain b1 where b1: "put_char b (length xs) d = Some b1" "written b1 (xs @ [d])" "buf_length b1 = buf_length b"
      by (rule put_char_written [OF 2(6) lt])
    have "char_at mem (length pre + 1) = Some d" using 2(3) esc by (simp add: char_at_def nth_append)
    then have "copy_quoted mem q (length pre) b (length xs) = copy_quoted mem q (length (pre @ [c, d])) b1 (length (xs @ [d]))"
      using at esc b1(1) 2(4) by (subst copy_quoted.simps) (auto simp: eval_nat_numeral)
    then show ?thesis using 2(1) [OF esc, of "pre @ [c, d]" b1 "xs @ [d]" o1] 2(3-7) b1 o1 esc by auto
  qed
qed

lemma ALNUM_0 [simp]: "\<not> IS_ALPHA_NUMERIC 0"
  by (simp add: class_ALNUM)

lemma skip_alnum_spec:
  "skip_alnum (pre @ s @ 0 # post) (length pre) = Some (length pre + length (takeWhile IS_ALPHA_NUMERIC s))"
proof (induction s arbitrary: pre)
  case Nil
  then show ?case by (subst skip_alnum.simps) (simp add: char_at_append)
next
  case (Cons c s)
  then show ?case using Cons.IH [of "pre @ [c]"] by (subst skip_alnum.simps) (auto simp: char_at_append)
qed

section \<open>Variables\<close>

text \<open>The part of a reference in front of its last name.\<close>

definition var_head :: "byte list \<Rightarrow> byte list option \<Rightarrow> byte list" where
  "var_head t sec = 0x24 # (if fst (var_open t) \<noteq> 0 then [hd t] else []) @ (case sec of None \<Rightarrow> [] | Some x \<Rightarrow> x @ [0x3a, 0x3a])"

lemma var_open_split: "var_open t = (q, s1) \<Longrightarrow> t = (if q \<noteq> 0 then [hd t] else []) @ s1"
  by (auto simp: var_open_def split: list.splits if_splits)

lemma ref_split: "var_open t = (q, s1) \<Longrightarrow> var_names s1 = (sec, n, r) \<Longrightarrow> 0x24 # t = var_head t sec @ n @ r"
  using var_open_split [of t q s1] var_names_split [of s1 sec n r] by (auto simp: var_head_def)

lemma scan_var_spec:
  assumes mem: "mem = pre @ (0x24 # t) @ 0 # post" and o: "var_open t = (q, s1)" and n: "var_names s1 = (sec, name, r)" and z: "0 \<notin> set t"
  shows "scan_var mem (length pre) =
    Some \<lparr>var_section = map_option (\<lambda>x. (length pre + 1 + (if q \<noteq> 0 then 1 else 0), length pre + 1 + (if q \<noteq> 0 then 1 else 0) + length x)) sec,
          var_name = length pre + length (var_head t sec), var_end = length pre + length (var_head t sec) + length name, var_close = q\<rparr>"
proof -
  define ob where "ob = (if q \<noteq> 0 then [hd t] else [])"
  have t: "t = ob @ s1" using var_open_split [OF o] by (simp add: ob_def)
  define pre1 where "pre1 = pre @ 0x24 # ob"
  have mem1: "mem = pre1 @ s1 @ 0 # post" by (simp add: mem pre1_def t)
  have l1: "length pre1 = (if q \<noteq> 0 then length pre + 2 else length pre + 1)" by (simp add: pre1_def ob_def)
  have c1: "char_at mem (length pre + 1) = Some (hd (t @ [0]))"
    using char_at_end [of "pre @ [0x24]" t post] by (simp add: mem)
  have q: "(if hd (t @ [0]) = 0x7b then 0x7d else if hd (t @ [0]) = 0x28 then 0x29 else 0) = q"
    using o by (auto simp: var_open_def split: list.splits if_splits)
  define n1 r1 where "n1 = takeWhile IS_ALPHA_NUMERIC s1" and "r1 = dropWhile IS_ALPHA_NUMERIC s1"
  have s1: "s1 = n1 @ r1" by (simp add: n1_def r1_def)
  have e1: "skip_alnum mem (length pre1) = Some (length pre1 + length n1)" unfolding mem1 skip_alnum_spec by (simp add: n1_def)
  define pre2 where "pre2 = pre1 @ n1"
  have mem2: "mem = pre2 @ r1 @ 0 # post" by (simp add: mem1 pre2_def s1)
  have l2: "length pre1 + length n1 = length pre2" by (simp add: pre2_def)
  have c2: "char_at mem (length pre2) = Some (hd (r1 @ [0]))" unfolding mem2 by (rule char_at_end)
  show ?thesis
  proof (cases "take 2 r1 = [0x3a, 0x3a]")
    case True
    define r2 where "r2 = drop 2 r1"
    have r1: "r1 = [0x3a, 0x3a] @ r2" using append_take_drop_id [of 2 r1] True by (simp add: r2_def)
    have sec: "sec = Some n1" "name = takeWhile IS_ALPHA_NUMERIC r2" using n True by (simp_all add: var_names_def Let_def n1_def r1_def r2_def)
    have c3: "char_at mem (length pre2 + 1) = Some 0x3a" by (simp add: mem2 r1 char_at_def nth_append)
    have e2: "skip_alnum mem (length pre2 + 2) = Some (length pre2 + 2 + length name)"
      using skip_alnum_spec [of "pre2 @ [0x3a, 0x3a]" r2 post] by (simp add: mem2 r1 sec)
    have h: "length pre + length (var_head t sec) = length pre2 + 2" by (simp add: var_head_def o sec pre2_def pre1_def ob_def)
    show ?thesis
      unfolding scan_var_def c1 Option.bind.simps Let_def q l1 [symmetric] e1 l2 c2 h
      using c3 e2 by (simp add: r1 sec l1 pre2_def)
  next
    case False
    have sec: "sec = None" "name = n1" "r = r1" using n False by (simp_all add: var_names_def Let_def n1_def r1_def)
    have h: "length pre + length (var_head t sec) = length pre1" by (simp add: var_head_def o sec pre1_def ob_def)
    have c3: "\<exists>d. char_at mem (length pre2 + 1) = Some d \<and> d \<noteq> 0x3a" if c: "hd (r1 @ [0]) = 0x3a"
    proof -
      obtain r2 where r1: "r1 = 0x3a # r2" using c by (cases r1) auto
      then have "hd (r2 @ [0]) \<noteq> 0x3a" using False by (cases r2) auto
      then show ?thesis using char_at_end [of "pre2 @ [0x3a]" r2 post] by (simp add: mem2 r1)
    qed
    show ?thesis
      unfolding scan_var_def c1 Option.bind.simps Let_def q l1 [symmetric] e1 l2 c2 h
      using c3 by (cases "hd (r1 @ [0]) = 0x3a") (auto simp: sec pre2_def)
  qed
qed

lemma c_strcmp_cong: "0 \<in> set b \<Longrightarrow> 0 \<in> set b' \<Longrightarrow> c_str b = c_str b' \<Longrightarrow> c_strcmp a b = c_strcmp a b'"
proof (induction a arbitrary: b b')
  case (Cons x a)
  obtain y ys where b: "b = y # ys" using Cons.prems(1) by (cases b) auto
  obtain z zs where b': "b' = z # zs" using Cons.prems(2) by (cases b') auto
  show ?case using Cons.IH [of ys zs] Cons.prems b b' by (auto simp: c_str_def split: if_splits)
next
  case Nil
  then show ?case by (cases b; cases b') auto
qed

lemma get_string_eq:
  assumes "\<And>a. c_strcmp a s = c_strcmp a s'" "\<And>a. c_strcmp a n = c_strcmp a n'" "OPENSSL_strhash s = OPENSSL_strhash s'" "OPENSSL_strhash n = OPENSSL_strhash n'"
  shows "NCONF_get_string conf (Some s) n = NCONF_get_string conf (Some s') n'"
proof -
  have "conf_value_cmp x \<lparr>cv_addr = 0, cv_section = Some s, cv_name = Some n, cv_value = None\<rparr> =
      conf_value_cmp x \<lparr>cv_addr = 0, cv_section = Some s', cv_name = Some n', cv_value = None\<rparr>" for x
    using assms(1,2) by (simp add: conf_value_cmp_def Let_def split: option.split)
  moreover have "conf_value_hash \<lparr>cv_addr = 0, cv_section = Some s, cv_name = Some n, cv_value = None\<rparr> =
      conf_value_hash \<lparr>cv_addr = 0, cv_section = Some s', cv_name = Some n', cv_value = None\<rparr>"
    using assms(3,4) by (simp add: conf_value_hash_def)
  ultimately show ?thesis by (simp add: NCONF_get_string_def OPENSSL_lh_retrieve_def get_next_ptr_and_hash_def Let_def)
qed

lemma get_string_cong:
  assumes "0 \<in> set n" "0 \<in> set n'" "c_str n = c_str n'" "0 \<in> set s" "0 \<in> set s'" "c_str s = c_str s'"
  shows "NCONF_get_string conf (Some s) n = NCONF_get_string conf (Some s') n'"
  using c_strcmp_cong [OF assms(1-3)] c_strcmp_cong [OF assms(4-6)] assms(3,6)
  by (intro get_string_eq) (simp_all add: OPENSSL_strhash_c_str)

lemma get_string_name_cong:
  assumes "0 \<in> set n" "0 \<in> set n'" "c_str n = c_str n'"
  shows "NCONF_get_string conf sec n = NCONF_get_string conf sec n'"
proof -
  have "NCONF_get_string conf (Some s) n = NCONF_get_string conf (Some s) n'" for s
    using c_strcmp_cong [OF assms] assms(3) by (intro get_string_eq) (simp_all add: OPENSSL_strhash_c_str)
  then show ?thesis by (cases sec) (simp_all add: NCONF_get_string_def Let_def)
qed

text \<open>The variables that a value can refer to.\<close>

definition conf_look :: "conf_st \<Rightarrow> byte list option \<Rightarrow> byte list option \<Rightarrow> byte list \<Rightarrow> byte list option" where
  "conf_look conf section sec name =
     map_option c_str (NCONF_get_string conf (case sec of None \<Rightarrow> section | Some x \<Rightarrow> Some (x @ [0])) (name @ [0]))"

lemma c_str_append: "0 \<notin> set s \<Longrightarrow> c_str (s @ 0 # post) = s"
  by (induction s) (simp_all add: c_str_def)

lemma lookup_var_spec:
  assumes mem: "mem = pre @ (0x24 # t) @ 0 # post" and o: "var_open t = (q, s1)" and n: "var_names s1 = (sec, name, r)" and z: "0 \<notin> set t"
    and v: "scan_var mem (length pre) = Some v"
  shows "map_option c_str (lookup_var conf section mem v) = conf_look conf section sec name"
proof -
  have m: "mem = pre @ var_head t sec @ name @ r @ 0 # post" using ref_split [OF o n] by (simp add: mem)
  obtain d rr where r: "r @ 0 # post = d # rr" by (cases r) auto
  let ?p = "pre @ var_head t sec"
  have "set s1 \<subseteq> set t" using var_open_split [OF o] by (metis Un_upper2 set_append)
  then have z': "0 \<notin> set name" "sec = Some x \<Longrightarrow> 0 \<notin> set x" for x
    using z var_names_split [OF n] by (auto split: if_splits)
  note v = v [unfolded scan_var_spec [OF mem o n z], simplified, symmetric]
  show ?thesis
  proof (cases sec)
    case None
    have "mem[var_end v := 0] = ?p @ name @ 0 # rr" by (simp add: v m r None list_update_append)
    then have "drop (var_name v) (mem[var_end v := 0]) = name @ 0 # rr" by (simp add: v None)
    then have l: "lookup_var conf section mem v = NCONF_get_string conf section (name @ 0 # rr)" by (simp add: lookup_var_def v None Let_def)
    have "NCONF_get_string conf section (name @ 0 # rr) = NCONF_get_string conf section (name @ [0])"
      by (rule get_string_name_cong) (simp_all add: c_str_append z')
    then show ?thesis by (simp add: l conf_look_def None)
  next
    case (Some x)
    define ob where "ob = 0x24 # (if q \<noteq> 0 then [hd t] else [])"
    have h: "var_head t sec = ob @ x @ [0x3a, 0x3a]" by (simp add: var_head_def Some o ob_def)
    have lo: "length ob = 1 + (if q \<noteq> 0 then 1 else 0)" by (simp add: ob_def)
    have vs: "var_section v = Some (length pre + length ob, length pre + length ob + length x)" "var_name v = length pre + length ob + length x + 2"
        "var_end v = length pre + length ob + length x + 2 + length name"
      using lo h by (simp_all add: v Some)
    have "mem[length pre + length ob + length x := 0, var_end v := 0] = (pre @ ob) @ x @ 0 # 0x3a # name @ 0 # rr"
      unfolding m h vs by (simp add: r list_update_append)
    then have d: "drop (length pre + length ob) (mem[length pre + length ob + length x := 0, var_end v := 0]) = x @ 0 # 0x3a # name @ 0 # rr"
        "drop (var_name v) (mem[length pre + length ob + length x := 0, var_end v := 0]) = name @ 0 # rr"
      by (simp_all add: vs)
    have l: "lookup_var conf section mem v = NCONF_get_string conf (Some (x @ 0 # 0x3a # name @ 0 # rr)) (name @ 0 # rr)"
      using d by (simp add: lookup_var_def vs(1) Let_def)
    have "NCONF_get_string conf (Some (x @ 0 # 0x3a # name @ 0 # rr)) (name @ 0 # rr) = NCONF_get_string conf (Some (x @ [0])) (name @ [0])"
      by (rule get_string_cong) (simp_all add: c_str_append z'(1) z'(2) [OF Some])
    then show ?thesis by (simp add: l conf_look_def Some)
  qed
qed

section \<open>The loop\<close>

text \<open>Every value that can be looked up is a C string of a moderate size.\<close>

definition texts_ok :: "conf_st \<Rightarrow> bool" where
  "texts_ok conf \<longleftrightarrow> (\<forall>sec name t. NCONF_get_string conf sec name = Some t \<longrightarrow> 0 \<in> set t \<and> length (c_str t) < 2 ^ 48)"

text \<open>What the loop gives when the expansion of the rest is \<open>er\<close> and \<open>xs\<close> has been written.\<close>

definition copied :: "allocator \<Rightarrow> byte list \<Rightarrow> conf_error + byte list \<Rightarrow> ((conf_error + buf_mem \<times> nat) \<times> allocator) option \<Rightarrow> bool" where
  "copied al xs er res \<longleftrightarrow>
     (\<exists>r al'. res = Some (r, al') \<and> never_fails al' = never_fails al \<and>
       (r = Inl CONF_MALLOC_FAILURE \<and> \<not> never_fails al \<or>
        (case er of
           Inl e \<Rightarrow> r = Inl e
         | Inr out \<Rightarrow> \<exists>b'. r = Inr (b', length (xs @ out)) \<and> written b' (xs @ out) \<and> length (xs @ out) < buf_length b' \<and> buf_length b' < 2 ^ 40)))"

lemma copied_prepend: "copied al (xs @ out) er res \<Longrightarrow> copied al xs (prepend out er) res"
  by (auto simp: copied_def prepend_def split: sum.splits)

lemma copied_keep: "copied al1 xs er res \<Longrightarrow> never_fails al1 = never_fails al \<Longrightarrow> copied al xs er res"
  by (simp add: copied_def)

lemma copied_done: "written b xs \<Longrightarrow> length xs < buf_length b \<Longrightarrow> buf_length b < 2 ^ 40 \<Longrightarrow> copied al xs (Inr []) (Some (Inr (b, length xs), al))"
  by (simp add: copied_def)

lemma sub_size_eq: "b \<le> a \<Longrightarrow> a < size_max1 \<Longrightarrow> sub_size a b = a - b"
  by (simp add: sub_size_def of_nat_diff [symmetric] zmod_int [symmetric] del: of_nat_diff)

lemma str_copy_var:
  assumes conf: "texts_ok conf" and mem: "mem = pre @ (0x24 # t) @ 0 # post" and z: "0 \<notin> set t"
    and b: "written b xs" "length xs + length t + 2 \<le> buf_length b" "buf_length b < 2 ^ 40"
    and o: "var_open t = (q, s1)" and n: "var_names s1 = (sec, name, r)"
    and IH: "\<And>pre' rest al1 b1 xs1. mem = pre' @ rest @ 0 # post \<Longrightarrow> length rest \<le> length t \<Longrightarrow> 0 \<notin> set rest \<Longrightarrow> written b1 xs1 \<Longrightarrow>
        length xs1 + length rest + 1 \<le> buf_length b1 \<Longrightarrow> buf_length b1 < 2 ^ 40 \<Longrightarrow>
        copied al1 xs1 (expand (conf_look conf section) (buf_length b1) rest) (str_copy_loop al1 conf section mem (length pre') b1 (length xs1))"
  shows "copied al xs (expand (conf_look conf section) (buf_length b) (0x24 # t)) (str_copy_loop al conf section mem (length pre) b (length xs))"
proof -
  have at: "char_at mem (length pre) = Some 0x24" by (simp add: mem char_at_append)
  have cls: "\<not> IS_QUOTE 0x24" "\<not> IS_ESC 0x24" by (simp_all add: class_QUOTE class_ESC)
  obtain v where v: "scan_var mem (length pre) = Some v" "var_close v = q" "var_end v = length (pre @ var_head t sec @ name)"
    using scan_var_spec [OF mem o n z] by auto
  have m: "mem = (pre @ var_head t sec @ name) @ r @ 0 # post" using ref_split [OF o n] by (simp add: mem)
  have ce: "char_at mem (var_end v) = Some (hd (r @ [0]))" unfolding v(3) by (subst m) (rule char_at_end)
  have "0 \<notin> set (0x24 # t)" using z by simp
  then have zr: "0 \<notin> set r" unfolding ref_split [OF o n] by simp
  have q0: "hd (r @ [0]) \<noteq> q \<longleftrightarrow> r = [] \<or> hd r \<noteq> q" if "q \<noteq> 0" using that by (cases r) auto
  note unf = str_copy_loop.simps [of al conf "section" mem "length pre" b "length xs"] expand.simps(2)
  show ?thesis
  proof (cases "q \<noteq> 0 \<and> hd (r @ [0]) \<noteq> q")
    case True
    then show ?thesis using at cls v ce q0 o n unfolding unf by (auto simp: copied_def)
  next
    case close: False
    define rest where "rest = (if q \<noteq> 0 then tl r else r)"
    define pre' where "pre' = (if q \<noteq> 0 then pre @ var_head t sec @ name @ [hd r] else pre @ var_head t sec @ name)"
    have rne: "r \<noteq> []" if "q \<noteq> 0" using close that by auto
    have m': "mem = pre' @ rest @ 0 # post" using rne by (auto simp: m pre'_def rest_def)
    have zrest: "0 \<notin> set rest" using zr by (cases r) (auto simp: rest_def)
    have e: "(if var_close v \<noteq> 0 then var_end v + 1 else var_end v) = length pre'" using v(2,3) by (simp add: pre'_def)
    define used where "used = length (0x24 # t) - length rest"
    have le: "length r \<le> length t" using var_open_shorter [OF o] var_names_shorter [OF n] by simp
    then have lr: "length rest \<le> length t" "rest = [] \<or> length rest \<le> length t" by (auto simp: rest_def)
    have ul: "length pre' - length pre = used"
    proof -
      have "length mem = length pre' + length rest + Suc (length post)" using m' by simp
      moreover have "length mem = length pre + Suc (length t) + Suc (length post)" using mem by simp
      ultimately show ?thesis using lr by (simp add: used_def)
    qed
    have us: "used \<le> Suc (length t)" "length rest + used = Suc (length t)" using lr by (simp_all add: used_def)
    have look: "map_option c_str (lookup_var conf section mem v) = conf_look conf section sec name"
      by (rule lookup_var_spec [OF mem o n z v(1)])
    have nq: "\<not> (q \<noteq> 0 \<and> (r = [] \<or> hd r \<noteq> q))" using close q0 by blast
    show ?thesis
    proof (cases "lookup_var conf section mem v")
      case None
      then have "conf_look conf section sec name = None" using look by simp
      then show ?thesis using None at cls v ce close nq o n unfolding unf by (auto simp: copied_def)
    next
      case (Some p)
      have lk: "conf_look conf section sec name = Some (c_str p)" using Some look by simp
      have p: "0 \<in> set p" "length (c_str p) < 2 ^ 48"
        using conf Some by (auto simp: texts_ok_def lookup_var_def Let_def)
      have sl: "c_strlen p = length (c_str p)" by (simp add: c_strlen_def c_str_def)
      define n' where "n' = length (c_str p) + buf_length b - used"
      have "size_add (c_strlen p) (buf_length b) = length (c_str p) + buf_length b"
        unfolding sl using p(2) b(3) by (intro size_add_noover) (simp add: size_max1_def)
      then have ns: "sub_size (size_add (c_strlen p) (buf_length b)) (length pre' - length pre) = n'"
        unfolding n'_def ul using p(2) b(2,3) us(1) by (simp add: sub_size_eq size_max1_def)
      have step: "str_copy_loop al conf section mem (length pre) b (length xs) =
          (if n' > MAX_CONF_VALUE_LENGTH then Some (Inl CONF_R_VARIABLE_EXPANSION_TOO_LONG, al)
           else (case BUF_MEM_grow_clean al b n' of
             (r, b1, al1) \<Rightarrow>
               if r = 0 then Some (Inl CONF_MALLOC_FAILURE, al1)
               else (case put_text b1 (length xs) p of None \<Rightarrow> None | Some (b2, to') \<Rightarrow> str_copy_loop al1 conf section mem (length pre') b2 to')))"
        unfolding unf(1) at option.simps using cls v(1,2) ce close Some by (simp add: Let_def e [unfolded v(2)] ns) blast
      have ex: "expand (conf_look conf section) (buf_length b) (0x24 # t) =
          (if n' > MAX_CONF_VALUE_LENGTH then Inl CONF_R_VARIABLE_EXPANSION_TOO_LONG
           else prepend (c_str p) (expand (conf_look conf section) n' rest))"
        by (simp only: unf(2) cls if_False if_True o n prod.case nq lk option.case Let_def simp_thms rest_def [symmetric] used_def [symmetric]
            n'_def [symmetric])
      show ?thesis
      proof (cases "n' > MAX_CONF_VALUE_LENGTH")
        case True
        then show ?thesis unfolding step ex by (simp add: copied_def)
      next
        case False
        have n': "length xs + length (c_str p) + length rest + 1 \<le> n'" using b(2) us(2) by (simp add: n'_def)
        have n'lt: "n' < 2 ^ 40" "n' < 2 ^ 50" using False by (simp_all add: MAX_CONF_VALUE_LENGTH_def)
        obtain rr b1 al1 where g: "BUF_MEM_grow_clean al b n' = (rr, b1, al1)" by (metis prod_cases3)
        have keep: "never_fails al1 = never_fails al" using grow_keeps g by (simp add: BUF_MEM_grow_clean_def)
        have "length xs \<le> n'" "n' \<noteq> 0" using n' by simp_all
        from written_grow [OF b(1) this(1) n'lt(2) g this(2)]
        show ?thesis
        proof
          assume "rr = 0 \<and> \<not> never_fails al"
          then show ?thesis unfolding step using False g keep by (simp add: copied_def)
        next
          assume w: "rr = n' \<and> written b1 xs \<and> buf_length b1 = n'"
          then obtain b2 where b2: "put_text b1 (length xs) p = Some (b2, length (xs @ c_str p))" "written b2 (xs @ c_str p)" "buf_length b2 = n'"
            using put_text_written [OF p(1), of b1 xs] n' by auto
          have "copied al1 (xs @ c_str p) (expand (conf_look conf section) n' rest) (str_copy_loop al1 conf section mem (length pre') b2 (length (xs @ c_str p)))"
            using IH [OF m' lr(1) zrest b2(2), of al1] b2(3) n' n'lt(1) by simp
          then have "copied al xs (prepend (c_str p) (expand (conf_look conf section) n' rest)) (str_copy_loop al1 conf section mem (length pre') b2 (length (xs @ c_str p)))"
            using copied_prepend copied_keep keep by blast
          then show ?thesis unfolding step ex using False g w b2(1) \<open>n' \<noteq> 0\<close> by simp
        qed
      qed
    qed
  qed
qed

lemma str_copy_loop_spec:
  assumes conf: "texts_ok conf"
  shows "mem = pre @ s @ 0 # post \<Longrightarrow> 0 \<notin> set s \<Longrightarrow> written b xs \<Longrightarrow> length xs + length s + 1 \<le> buf_length b \<Longrightarrow> buf_length b < 2 ^ 40 \<Longrightarrow>
    copied al xs (expand (conf_look conf section) (buf_length b) s) (str_copy_loop al conf section mem (length pre) b (length xs))"
proof (induction s arbitrary: pre b xs al rule: length_induct)
  case (1 s)
  note mem = 1(2) and z = 1(3) and b = 1(4-6)
  have IH: "copied al1 xs1 (expand (conf_look conf section) (buf_length b1) rest) (str_copy_loop al1 conf section mem (length pre') b1 (length xs1))"
    if "length rest < length s" "mem = pre' @ rest @ 0 # post" "0 \<notin> set rest" "written b1 xs1" "length xs1 + length rest + 1 \<le> buf_length b1"
      "buf_length b1 < 2 ^ 40" for pre' rest al1 b1 xs1
    using 1(1) that by blast
  note unf = str_copy_loop.simps [of al conf "section" mem "length pre" b "length xs"]
  have lt: "length xs < buf_length b" using b(2) by simp
  show ?case
  proof (cases s)
    case Nil
    have "char_at mem (length pre) = Some 0" by (simp add: mem Nil char_at_append)
    then show ?thesis
      unfolding unf Nil using copied_done [OF b(1) lt b(3)] by (simp add: expand.simps(1) class_QUOTE class_ESC)
  next
    case (Cons c t)
    have at: "char_at mem (length pre) = Some c" "c \<noteq> 0" "0 \<notin> set t" using z by (auto simp: mem Cons char_at_append)
    consider (quote) "IS_QUOTE c" | (esc) "\<not> IS_QUOTE c" "IS_ESC c" | (var) "c = 0x24" | (plain) "\<not> IS_QUOTE c" "\<not> IS_ESC c" "c \<noteq> 0x24"
      by blast
    then show ?thesis
    proof cases
      case quote
      obtain out rest where u: "unquote c t = (out, rest)" by fastforce
      have "mem = (pre @ [c]) @ t @ 0 # post" by (simp add: mem Cons)
      from copy_quoted_spec [OF this at(3,2) b(1) _ u]
      obtain b' pre' where q: "copy_quoted mem c (length (pre @ [c])) b (length xs) = Some (b', length (xs @ out), length pre')" "mem = pre' @ rest @ 0 # post"
        "0 \<notin> set rest" "written b' (xs @ out)" "buf_length b' = buf_length b"
        using b(2) Cons by auto
      have "copied al (xs @ out) (expand (conf_look conf section) (buf_length b) rest) (str_copy_loop al conf section mem (length pre') b' (length (xs @ out)))"
        using IH [OF _ q(2,3,4), of al] q(5) b(2,3) unquote_shorter [OF u] Cons by simp
      then show ?thesis unfolding unf Cons expand.simps(2) using copied_prepend at q(1) quote u by simp
    next
      case esc
      show ?thesis
      proof (cases t)
        case Nil
        then have "char_at mem (length pre + 1) = Some 0" by (simp add: mem Cons char_at_def nth_append)
        then show ?thesis unfolding unf Cons expand.simps(2) Nil using copied_done [OF b(1) lt b(3)] at esc by simp
      next
        case t: (Cons v u)
        obtain b1 where b1: "put_char b (length xs) (escaped v) = Some b1" "written b1 (xs @ [escaped v])" "buf_length b1 = buf_length b"
          by (rule put_char_written [OF b(1) lt])
        have cv: "char_at mem (length pre + 1) = Some v" "v \<noteq> 0" using at(3) t by (auto simp: mem Cons char_at_def nth_append)
        have m: "mem = (pre @ [c, v]) @ u @ 0 # post" by (simp add: mem Cons t)
        have "copied al (xs @ [escaped v]) (expand (conf_look conf section) (buf_length b) u)
            (str_copy_loop al conf section mem (length (pre @ [c, v])) b1 (length (xs @ [escaped v])))"
          using IH [OF _ m _ b1(2), of al] b1(3) b(2,3) at(3) Cons t by simp
        moreover have "str_copy_loop al conf section mem (length pre) b (length xs) =
            str_copy_loop al conf section mem (length (pre @ [c, v])) b1 (length (xs @ [escaped v]))"
          unfolding unf using at(1) cv esc b1(1) by (simp add: escaped_def)
        ultimately show ?thesis unfolding Cons expand.simps(2) t using copied_prepend esc by simp
      qed
    next
      case var
      obtain q s1 where o: "var_open t = (q, s1)" by fastforce
      obtain sec name r where n: "var_names s1 = (sec, name, r)" by (metis prod_cases3)
      have "mem = pre @ (0x24 # t) @ 0 # post" by (simp add: mem Cons var)
      from str_copy_var [OF conf this at(3) b(1) _ b(3) o n IH]
      show ?thesis using b(2) unfolding Cons var by simp
    next
      case plain
      obtain b1 where b1: "put_char b (length xs) c = Some b1" "written b1 (xs @ [c])" "buf_length b1 = buf_length b"
        by (rule put_char_written [OF b(1) lt])
      have m: "mem = (pre @ [c]) @ t @ 0 # post" by (simp add: mem Cons)
      have "copied al (xs @ [c]) (expand (conf_look conf section) (buf_length b) t) (str_copy_loop al conf section mem (length (pre @ [c])) b1 (length (xs @ [c])))"
        using IH [OF _ m _ b1(2), of al] b1(3) b(2,3) at(3) Cons by simp
      moreover have "str_copy_loop al conf section mem (length pre) b (length xs) = str_copy_loop al conf section mem (length (pre @ [c])) b1 (length (xs @ [c]))"
        unfolding unf using at plain b1(1) by simp
      ultimately show ?thesis unfolding Cons expand.simps(2) using copied_prepend plain by simp
    qed
  qed
qed

lemma BUF_MEM_new_cases: "BUF_MEM_new al = (b, al') \<Longrightarrow> never_fails al' = never_fails al \<and>
    (b = Some \<lparr>buf_length = 0, buf_data = None, buf_max = 0\<rparr> \<or> b = None \<and> \<not> never_fails al)"
  using OPENSSL_malloc_total [of al 24]
  by (auto simp: BUF_MEM_new_def size_max1_def split: prod.splits option.splits dest: malloc_keeps)

lemma prepend_Inr: "prepend xs er = Inr out \<longleftrightarrow> (\<exists>o1. er = Inr o1 \<and> out = xs @ o1)"
  by (auto simp: prepend_def split: sum.splits)

lemma unquote_set: "set (fst (unquote q s)) \<union> set (snd (unquote q s)) \<subseteq> set s"
proof (induction q s rule: unquote.induct)
  case (2 q c s)
  then show ?case by (cases "c = q"; cases "IS_ESC c"; cases s) (auto simp: case_prod_beta)
qed simp

lemma escaped_0: "v \<noteq> 0 \<Longrightarrow> escaped v \<noteq> 0"
  by (simp add: escaped_def)

lemma expand_no_nul:
  assumes look: "\<And>sec n t. look sec n = Some t \<Longrightarrow> 0 \<notin> set t"
  shows "0 \<notin> set s \<Longrightarrow> expand look n s = Inr out \<Longrightarrow> 0 \<notin> set out"
proof (induction s arbitrary: n out rule: length_induct)
  case (1 s)
  show ?case
  proof (cases s)
    case Nil
    then show ?thesis using 1(3) by (simp add: expand.simps)
  next
    case (Cons c t)
    have IH: "0 \<notin> set o1" if "length r < length s" "set r \<subseteq> set s" "expand look m r = Inr o1" for r m o1
      using 1(1,2) that by blast
    consider (quote) "IS_QUOTE c" | (esc) "\<not> IS_QUOTE c" "IS_ESC c" | (var) "\<not> IS_QUOTE c" "\<not> IS_ESC c" "c = 0x24"
      | (plain) "\<not> IS_QUOTE c" "\<not> IS_ESC c" "c \<noteq> 0x24" by blast
    then show ?thesis
    proof cases
      case quote
      obtain o1 r where u: "unquote c t = (o1, r)" by fastforce
      have sub: "set o1 \<subseteq> set s" "set r \<subseteq> set s" "length r < length s" using unquote_set [of c t] unquote_shorter [OF u] u Cons by auto
      obtain o2 where o2: "expand look n r = Inr o2" "out = o1 @ o2" using 1(3) Cons quote u by (auto simp: expand.simps prepend_Inr)
      then show ?thesis using 1(2) IH [OF sub(3,2) o2(1)] sub(1) by auto
    next
      case esc
      then show ?thesis
      proof (cases t)
        case Nil
        then show ?thesis using 1(3) Cons esc by (simp add: expand.simps)
      next
        case t: (Cons v u)
        then have e: "expand look n s = prepend [escaped v] (expand look n u)" and nz: "0 \<noteq> escaped v"
          using Cons esc 1(2) escaped_0 [of v] by (auto simp: expand.simps)
        obtain o2 where o2: "expand look n u = Inr o2" "out = escaped v # o2" "0 \<noteq> escaped v"
          using 1(3) nz unfolding e by (auto simp: prepend_Inr)
        then show ?thesis using IH [OF _ _ o2(1)] Cons t by auto
      qed
    next
      case var
      obtain q s1 where o: "var_open t = (q, s1)" by fastforce
      obtain sec name r where nm: "var_names s1 = (sec, name, r)" by (metis prod_cases3)
      obtain p m r' o2 where p: "look sec name = Some p" "expand look m r' = Inr o2" "out = p @ o2" "r' = r \<or> r' = tl r"
        using 1(3) unfolding Cons expand.simps(2) using var o nm by (auto simp: Let_def prepend_Inr split: if_splits option.splits)
      have s: "s = var_head t sec @ name @ r" using ref_split [OF o nm] Cons var by simp
      have sub: "set r' \<subseteq> set s" "length r' \<le> length r" using p(4) s by (cases r; auto)+
      moreover have "length r < length s" using s by (simp add: var_head_def)
      ultimately show ?thesis using IH [OF _ sub(1) p(2)] look [OF p(1)] p(3) by simp
    next
      case plain
      then have e: "expand look n s = prepend [c] (expand look n t)" by (simp add: Cons expand.simps(2))
      obtain o2 where o2: "expand look n t = Inr o2" "out = c # o2" using 1(3) unfolding e by (auto simp: prepend_Inr)
      then show ?thesis using 1(2) IH [OF _ _ o2(1)] Cons by auto
    qed
  qed
qed

lemma conf_look_no_nul: "conf_look conf section sec n = Some t \<Longrightarrow> 0 \<notin> set t"
  by (auto simp: conf_look_def c_str_def dest: set_takeWhileD)

lemma str_copy_spec:
  assumes conf: "texts_ok conf" and mem: "mem = pre @ s @ 0 # post" and z: "0 \<notin> set s" and len: "length s < int_max"
  shows "\<exists>r al'. str_copy al conf section mem (length pre) = Some (r, al') \<and> never_fails al' = never_fails al \<and>
    (r = Inl CONF_MALLOC_FAILURE \<and> \<not> never_fails al \<or>
     (case expand (conf_look conf section) (length s + 1) s of
        Inl e \<Rightarrow> r = Inl e
      | Inr out \<Rightarrow> \<exists>junk. r = Inr (out @ 0 # junk) \<and> 0 \<notin> set out \<and> length out < 2 ^ 40))"
proof -
  obtain bo al1 where b: "BUF_MEM_new al = (bo, al1)" by fastforce
  note k1 = BUF_MEM_new_cases [OF b]
  show ?thesis
  proof (cases bo)
    case None
    then show ?thesis using b k1 by (auto simp: str_copy_def)
  next
    case (Some b0)
    then have b0: "b0 = \<lparr>buf_length = 0, buf_data = None, buf_max = 0\<rparr>" using k1 by simp
    have w0: "written b0 []" by (simp add: b0 written_def buf_ok_def size_max1_def)
    define n where "n = length s + 1"
    have n: "n \<le> int_max" "n < 2 ^ 40" "n < 2 ^ 50" "n \<noteq> 0" using len by (simp_all add: n_def int_max_def)
    have "c_strlen (drop (length pre) mem) + 1 = n" by (simp add: mem c_strlen_append z n_def)
    then have len: "nat (to_int (c_strlen (drop (length pre) mem) + 1) mod int size_max1) = n"
      using to_int_id [OF n(1)] n(1) by (simp add: int_max_def size_max1_def)
    obtain rr b1 al2 where g: "BUF_MEM_grow al1 b0 n = (rr, b1, al2)" by (metis prod_cases3)
    have k2: "never_fails al2 = never_fails al" using grow_keeps [OF g] k1 by simp
    from written_grow [OF w0 _ n(3), of al1 rr b1 al2] g n(4)
    consider (fail) "rr = 0" "\<not> never_fails al" | (ok) "rr = n" "written b1 []" "buf_length b1 = n"
      using k1 by (auto simp: BUF_MEM_grow_clean_def)
    then show ?thesis
    proof cases
      case fail
      then show ?thesis using b Some len g k2 by (auto simp: str_copy_def)
    next
      case ok
      define res where "res = str_copy_loop al2 conf section mem (length pre) b1 0"
      have "copied al2 [] (expand (conf_look conf section) n s) res"
        using str_copy_loop_spec [OF conf mem z ok(2)] ok(3) n unfolding res_def by (simp add: n_def)
      then obtain r al3 where r: "res = Some (r, al3)" "never_fails al3 = never_fails al2"
        and c: "r = Inl CONF_MALLOC_FAILURE \<and> \<not> never_fails al2 \<or> (case expand (conf_look conf section) n s of Inl e \<Rightarrow> r = Inl e
          | Inr out \<Rightarrow> \<exists>b'. r = Inr (b', length ([] @ out)) \<and> written b' ([] @ out) \<and> length ([] @ out) < buf_length b' \<and> buf_length b' < 2 ^ 40)"
        by (auto simp: copied_def)
      have sc: "str_copy al conf section mem (length pre) = (case res of None \<Rightarrow> None | Some (Inl e, al3) \<Rightarrow> Some (Inl e, al3)
          | Some (Inr (b2, to), al3) \<Rightarrow> (case put_char b2 to 0 of None \<Rightarrow> None | Some b3 \<Rightarrow> Some (Inr (data_bytes b3), al3)))"
        using b Some len g ok(1) n(4) unfolding str_copy_def res_def by simp
      show ?thesis
      proof (cases r)
        case (Inl e)
        then show ?thesis using sc r c k2 by (auto simp: n_def split: sum.splits)
      next
        case (Inr bt)
        then obtain out b' where out: "expand (conf_look conf section) n s = Inr out" "r = Inr (b', length out)" "written b' out" "length out < buf_length b'"
            "buf_length b' < 2 ^ 40"
          using c by (auto split: sum.splits)
        obtain b3 where b3: "put_char b' (length out) 0 = Some b3" "written b3 (out @ [0])" "buf_length b3 = buf_length b'"
          by (rule put_char_written [OF out(3,4)])
        have "take (length (out @ [0])) (buf_contents b3) = out @ [0]" using b3(2) by (simp add: written_def)
        then have "take (Suc (length out)) (data_bytes b3) = out @ [0]"
          using b3(3) out(4) by (simp add: buf_contents_data min_absorb1)
        then have "data_bytes b3 = out @ 0 # drop (Suc (length out)) (data_bytes b3)"
          using append_take_drop_id [of "Suc (length out)" "data_bytes b3"] by simp
        moreover have "0 \<notin> set out" using expand_no_nul [OF _ z out(1)] conf_look_no_nul by blast
        moreover have "length out < 2 ^ 40" using out(4,5) by linarith
        ultimately show ?thesis using sc r out(1,2) b3(1) k2 by (auto simp: n_def)
      qed
    qed
  qed
qed

section \<open>Properties\<close>

text \<open>C22: \<open>str_copy\<close> computes the expansion of the value. Whatever the value, the variables and the
  allocator, it returns, reads only the string and never writes past the buffer that it sizes itself; if memory
  lasts the result is the expansion, a C string, or the error that the expansion meets first.\<close>

theorem str_copy_expands:
  assumes "texts_ok conf" and "0 \<notin> set s" and "length s < int_max"
  shows "\<exists>r al'. str_copy al conf section (pre @ s @ 0 # post) (length pre) = Some (r, al') \<and>
    (r = Inl CONF_MALLOC_FAILURE \<and> \<not> never_fails al \<or>
     (case expand (conf_look conf section) (length s + 1) s of
        Inl e \<Rightarrow> r = Inl e
      | Inr out \<Rightarrow> \<exists>junk. r = Inr (out @ 0 # junk) \<and> 0 \<notin> set out))"
  using str_copy_spec [OF assms(1) refl assms(2,3), of al "section" pre post]
  by (fastforce split: sum.splits)

definition empty_conf :: conf_st where
  "empty_conf = \<lparr>conf_data = \<lparr>num_items = 0, buckets = replicate 16 [], num_buckets = 16, callback_depth = 0, lh_comp = (), lh_hash = ()\<rparr>,
     conf_stacks = (\<lambda>_. \<lparr>num = 0, sk_data = [], sorted_flag = False, num_alloc = 0, comp = None\<rparr>), conf_next = 1\<rparr>"

lemma empty_conf_texts: "texts_ok empty_conf"
  by (auto simp: texts_ok_def empty_conf_def NCONF_get_string_def OPENSSL_lh_retrieve_def get_next_ptr_and_hash_def slot_item_def Let_def)

theorem str_copy_expands_witness:
  "\<exists>junk al'. str_copy plentiful empty_conf None ([0x3d] @ [0x61, 0x22, 0x23, 0x20, 0x22, 0x5c, 0x6e] @ 0 # []) 1 =
     Some (Inr ([0x61, 0x23, 0x20, 0x0a] @ 0 # junk), al')"
proof -
  let ?s = "[0x61, 0x22, 0x23, 0x20, 0x22, 0x5c, 0x6e] :: byte list"
  have "expand (conf_look empty_conf None) (length ?s + 1) ?s = Inr [0x61, 0x23, 0x20, 0x0a]"
    by (simp add: expand.simps class_QUOTE class_ESC prepend_def escaped_def)
  moreover have "0 \<notin> set ?s" "length ?s < int_max" by (simp_all add: int_max_def)
  ultimately show ?thesis
    using str_copy_expands [OF empty_conf_texts, of ?s plentiful None "[0x3d]" "[]"] plentiful_never_fails by auto
qed

end
