(* ===== verification/Conf_Store.thy ===== *)
theory Conf_Store
  imports Conf_Expand
begin

text \<open>
  The configuration as a map: the invariant of a \<open>CONF\<close>, by which the hash table and the stacks of the
  sections agree, and what \<open>NCONF_new_section\<close> and \<open>add_string\<close> do to the values that can be looked up.
  The keys of the table are the C strings of section and name; the interface \<open>hash_keys\<close> of the hash
  table is interpreted on \<open>conf_value_hash\<close> and \<open>conf_value_cmp\<close>.
\<close>

section \<open>Keys\<close>

definition key_ok :: "conf_value \<Rightarrow> bool" where
  "key_ok v \<longleftrightarrow> (case cv_section v of None \<Rightarrow> False | Some s \<Rightarrow> 0 \<in> set s) \<and> (case cv_name v of None \<Rightarrow> True | Some n \<Rightarrow> 0 \<in> set n)"

definition conf_key :: "conf_value \<Rightarrow> byte list option \<times> byte list option" where
  "conf_key v = (map_option c_str (cv_section v), map_option c_str (cv_name v))"

lemma cmp_key: "key_ok a \<Longrightarrow> key_ok b \<Longrightarrow> conf_value_cmp a b = 0 \<longleftrightarrow> conf_key a = conf_key b"
  by (auto simp: key_ok_def conf_value_cmp_def conf_key_def Let_def c_strcmp_eq_0_iff split: option.splits)

interpretation conf: hash_keys conf_value_hash conf_value_cmp key_ok
proof unfold_locales
  fix a b
  assume "key_ok a" "key_ok b" "conf_value_cmp a b = 0"
  then have "conf_key a = conf_key b" by (simp add: cmp_key)
  then show "conf_value_hash a = conf_value_hash b"
    by (auto simp: conf_key_def conf_value_hash_def OPENSSL_strhash_c_str split: option.splits)
qed (simp_all add: cmp_key)

section \<open>Stacks\<close>

lemma sk_reserve_alloc:
  assumes "sk_reserve al s = (Some s', al')" and "num_alloc s < 2 ^ 59" and "num s < 2 ^ 60"
  shows "num_alloc s' \<le> max (num_alloc s) (2 * (num s + 1))"
proof -
  have "size_add (num s) 1 = num s + 1" using assms(3) by (intro size_add_noover) (simp add: size_max1_def)
  moreover have "size_mul (num_alloc s) 2 = num_alloc s * 2" using assms(2) by (simp add: size_mul_def size_max1_def)
  moreover have "size_mul (num_alloc s * 2) 8 = num_alloc s * 2 * 8" using assms(2) by (simp add: size_mul_def size_max1_def)
  ultimately show ?thesis
    using assms(1) by (auto simp: sk_reserve_def Let_def split: if_splits prod.splits option.splits)
qed

lemma reserve_ptrs_keeps: "sk_reserve al s = (r, al') \<Longrightarrow> never_fails al' = never_fails al"
  by (auto simp: sk_reserve_def realloc_ptrs_def Let_def split: if_splits prod.splits option.splits dest!: malloc_keeps)

lemma sk_push_spec:
  assumes "sk_inv s" and "never_fails al" and "num_alloc s < 2 ^ 59"
  obtains s' al' where "sk_push al s p = (Suc (num s), Some s', al')" and "sk_inv s'" and "sk_list s' = sk_list s @ [p]"
    and "num_alloc s' \<le> max (num_alloc s) (2 * (num s + 1))" and "never_fails al'"
proof -
  have ns: "num s < 2 ^ 60" using assms(1,3) by (simp add: sk_inv_def)
  obtain s1 al1 where r: "sk_reserve al s = (Some s1, al1)" using sk_reserve_total [OF assms(2,1,3)] by blast
  obtain n sk' al' where i: "sk_push al s p = (n, sk', al')" by (metis prod_cases3)
  note spec = sk_insert_spec [OF i [unfolded sk_push_def] assms(1)]
  have num1: "num s1 = num s" using sk_reserve_spec [OF r assms(1)] by simp
  have n: "n = Suc (num s)" "al' = al1" "\<exists>s'. sk' = Some s' \<and> num_alloc s' = num_alloc s1"
    using i r num1 by (auto simp: sk_push_def sk_insert_def Let_def)
  then obtain s' where s': "sk' = Some s'" "sk_inv s'" "sk_list s' = take (num s) (sk_list s) @ p # drop (num s) (sk_list s)" "num_alloc s' = num_alloc s1"
    using spec by auto
  have "sk_list s' = sk_list s @ [p]" using s'(3) length_sk_list [OF assms(1)] by simp
  moreover have "never_fails al1" using reserve_ptrs_keeps [OF r] assms(2) by simp
  ultimately show thesis using that [of s' al'] i n s' sk_reserve_alloc [OF r assms(3) ns] by simp
qed

lemma take_drop_remove1:
  "j < length xs \<Longrightarrow> xs ! j = p \<Longrightarrow> \<forall>m < j. xs ! m \<noteq> p \<Longrightarrow> take j xs @ drop (Suc j) xs = remove1 p xs"
proof (induction xs arbitrary: j)
  case (Cons x xs)
  show ?case
  proof (cases j)
    case 0
    then show ?thesis using Cons.prems by simp
  next
    case (Suc i)
    then have "x \<noteq> p" using Cons.prems(3) by (metis nth_Cons_0 zero_less_Suc)
    moreover have "take i xs @ drop (Suc i) xs = remove1 p xs"
      using Cons.IH [of i] Cons.prems Suc by (metis Suc_less_eq length_Cons nth_Cons_Suc)
    ultimately show ?thesis using Suc by simp
  qed
qed simp

lemma sk_delete_ptr_spec:
  assumes "sk_inv s"
  obtains r s' where "sk_delete_ptr (Some s) p = (r, Some s')" and "sk_inv s'" and "sk_list s' = remove1 p (sk_list s)" and "num_alloc s' = num_alloc s"
proof -
  have fi: "case find_index (\<lambda>x. x = p) 0 (sk_list s) of
      Some k \<Rightarrow> \<exists>j < length (sk_list s). k = 0 + j \<and> sk_list s ! j = p \<and> (\<forall>m < j. sk_list s ! m \<noteq> p)
    | None \<Rightarrow> \<forall>x \<in> set (sk_list s). x \<noteq> p"
    using find_index_spec [where t = "\<lambda>x. x = p" and i = 0 and xs = "sk_list s"] by simp
  show thesis
  proof (cases "find_index (\<lambda>x. x = p) 0 (sk_list s)")
    case None
    then have "p \<notin> set (sk_list s)" using fi by auto
    then have "remove1 p (sk_list s) = sk_list s" by (rule remove1_idem)
    then show thesis using that [of 0 s] None assms by (simp add: sk_delete_ptr_def sk_list_def)
  next
    case (Some k)
    then have k: "k < length (sk_list s)" "sk_list s ! k = p" "\<forall>m < k. sk_list s ! m \<noteq> p" using fi by auto
    then have kn: "k < num s" using length_sk_list [OF assms] by simp
    obtain s' where s': "sk_delete (Some s) k = (sk_list s ! k, Some s')" "sk_inv s'" "sk_list s' = take k (sk_list s) @ drop (k + 1) (sk_list s)"
      using sk_delete_spec [OF assms kn] by blast
    have na: "num_alloc s' = num_alloc s" using s'(1) kn by (auto simp: sk_delete_def Let_def split: if_splits)
    have "sk_list s' = remove1 p (sk_list s)" using take_drop_remove1 [OF k] s'(3) by simp
    then show thesis using that [of "sk_list s ! k" s'] Some s' na by (simp add: sk_delete_ptr_def sk_list_def)
  qed
qed

section \<open>Tables\<close>

lemma rebucket_keeps: "lh_rebucket al lh n = (lh', al') \<Longrightarrow> never_fails al' = never_fails al"
  by (auto simp: lh_rebucket_def Let_def split: if_splits prod.splits option.splits dest!: malloc_keeps)

lemma resize_keeps: "lh_maybe_resize al lh = (lh', al') \<Longrightarrow> never_fails al' = never_fails al"
  by (auto simp: lh_maybe_resize_def Let_def split: if_splits dest!: rebucket_keeps)

lemma lh_insert_keeps: "OPENSSL_lh_insert ch cc al lh d = (ok, old, lh', al') \<Longrightarrow> never_fails al' = never_fails al"
  by (auto simp: OPENSSL_lh_insert_def Let_def split: prod.splits option.splits dest!: malloc_keeps resize_keeps)

lemma strdup_keeps: "OPENSSL_strdup al s = (r, al') \<Longrightarrow> never_fails al' = never_fails al"
  by (auto simp: OPENSSL_strdup_def Let_def split: option.splits prod.splits dest!: malloc_keeps)

lemma strdup_total:
  assumes "never_fails al" and "0 \<in> set s" and "c_strlen s < 2 ^ 50"
  obtains t al' where "OPENSSL_strdup al (Some s) = (Some t, al')" and "c_str t = c_str s" and "0 \<in> set t" and "never_fails al'"
proof -
  have "c_strlen s + 1 + 8 < size_max1" using assms(3) by (simp add: size_max1_def)
  then obtain p al' where m: "OPENSSL_malloc al (c_strlen s + 1) = (Some p, al')" "never_fails al'"
    using OPENSSL_malloc_total [OF assms(1)] by blast
  have "c_strlen s < length s" using assms(2) unfolding c_strlen_def
    by (metis (mono_tags, lifting) length_takeWhile_le le_neq_implies_less takeWhile_eq_all_conv takeWhile_eq_take take_all_iff verit_comp_simplify1(2))
  moreover have "s ! c_strlen s = 0" using calculation nth_length_takeWhile [of "\<lambda>b. b \<noteq> 0" s] by (simp add: c_strlen_def)
  ultimately have t: "take (c_strlen s + 1) s = c_str s @ [0]"
    using take_c_strlen [of s] by (simp add: take_Suc_conv_app_nth)
  let ?t = "take (c_strlen s + 1) s @ drop (c_strlen s + 1) p"
  have "0 \<notin> set (c_str s)" by (auto simp: c_str_def dest: set_takeWhileD)
  then have "c_str ?t = c_str s" "0 \<in> set ?t" unfolding t using c_str_append [of "c_str s"] by simp_all
  then show thesis using that [of ?t al'] m by (simp add: OPENSSL_strdup_def)
qed

lemma retrieve_in:
  assumes "lh_inv h cmp P lh" and "OPENSSL_lh_retrieve ch cc lh k = Some d"
  shows "d \<in># lh_data lh"
proof -
  obtain i j hash where g: "get_next_ptr_and_hash ch cc lh k = ((i, j), hash)" by (metis surj_pair)
  then have "i < num_buckets lh" using lh_inv_pos [OF assms(1)] by (auto simp: get_next_ptr_and_hash_def Let_def)
  then have i: "i < length (buckets lh)" using assms(1) by (simp add: lh_inv_def placed_def)
  have "j < length (buckets lh ! i)" "d = item_data (buckets lh ! i ! j)"
    using assms(2) g by (auto simp: OPENSSL_lh_retrieve_def slot_item_def split: if_splits)
  then have "d \<in> item_data ` set (buckets lh ! i)" by auto
  then show ?thesis using nth_mem [OF i] by (auto simp: lh_data_def)
qed

section \<open>The invariant\<close>

definition conf_set :: "conf_st \<Rightarrow> conf_value set" where
  "conf_set conf = set_mset (lh_data (conf_data conf))"

definition is_section :: "conf_value \<Rightarrow> bool" where
  "is_section v \<longleftrightarrow> cv_name v = None"

definition sec_of :: "conf_value \<Rightarrow> byte list option" where
  "sec_of v = map_option c_str (cv_section v)"

text \<open>An entry holds a string and belongs to a section that is there; a section has a stack of its own.\<close>

definition value_ok :: "conf_st \<Rightarrow> conf_value \<Rightarrow> bool" where
  "value_ok conf v \<longleftrightarrow> unat (cv_addr v) < conf_next conf \<and> cv_addr v \<noteq> 0 \<and> (\<forall>s. sec_of v = Some s \<longrightarrow> length s < 2 ^ 40) \<and>
     (if is_section v then
        (\<exists>k. cv_value v = Some (Section_stack k) \<and> k < conf_next conf \<and> sk_inv (conf_stacks conf k) \<and>
           num_alloc (conf_stacks conf k) \<le> 2 * conf_next conf + 4)
      else (\<exists>t. cv_value v = Some (Text t) \<and> 0 \<in> set t \<and> length (c_str t) < 2 ^ 40))"

text \<open>The stack of a section holds the addresses of its entries.\<close>

definition lists_entries :: "conf_st \<Rightarrow> conf_value \<Rightarrow> bool" where
  "lists_entries conf sv \<longleftrightarrow>
     (let xs = sk_list (conf_stacks conf (section_stack_id sv)) in
      distinct xs \<and> set xs = cv_addr ` {v \<in> conf_set conf. \<not> is_section v \<and> sec_of v = sec_of sv})"

definition conf_inv :: "conf_st \<Rightarrow> bool" where
  "conf_inv conf \<longleftrightarrow>
     lh_inv conf_value_hash conf_value_cmp key_ok (conf_data conf) \<and> 0 < conf_next conf \<and>
     (\<forall>v \<in> conf_set conf. value_ok conf v) \<and> inj_on cv_addr (conf_set conf) \<and>
     inj_on section_stack_id {v \<in> conf_set conf. is_section v} \<and>
     (\<forall>v \<in> conf_set conf. \<exists>sv \<in> conf_set conf. is_section sv \<and> sec_of sv = sec_of v) \<and>
     (\<forall>sv \<in> conf_set conf. is_section sv \<longrightarrow> lists_entries conf sv)"

lemma conf_invD:
  assumes "conf_inv conf"
  shows "lh_inv conf_value_hash conf_value_cmp key_ok (conf_data conf)" and "0 < conf_next conf"
    and "v \<in> conf_set conf \<Longrightarrow> value_ok conf v" and "inj_on cv_addr (conf_set conf)"
    and "inj_on section_stack_id {v \<in> conf_set conf. is_section v}"
    and "v \<in> conf_set conf \<Longrightarrow> \<exists>sv \<in> conf_set conf. is_section sv \<and> sec_of sv = sec_of v"
    and "v \<in> conf_set conf \<Longrightarrow> is_section v \<Longrightarrow> lists_entries conf v"
  using assms by (auto simp: conf_inv_def)

text \<open>Distinct addresses bound the size of the table and of the stacks.\<close>

lemma addr_card:
  assumes "conf_inv conf" and "A \<subseteq> conf_set conf"
  shows "card (cv_addr ` A) < conf_next conf" and "finite A" and "card A < conf_next conf"
proof -
  have "unat (cv_addr v) \<in> {1..<conf_next conf}" if "v \<in> A" for v
    using conf_invD(3) [OF assms(1), of v] assms(2) that by (auto simp: value_ok_def Suc_le_eq unat_gt_0)
  then have "unat ` cv_addr ` A \<subseteq> {1..<conf_next conf}" by auto
  then have "card (unat ` cv_addr ` A) \<le> conf_next conf - 1" by (metis card_atLeastLessThan card_mono finite_atLeastLessThan)
  moreover have "card (unat ` cv_addr ` A) = card (cv_addr ` A)" by (rule card_image) (auto simp: inj_on_def word_unat_eq_iff)
  ultimately show c: "card (cv_addr ` A) < conf_next conf" using conf_invD(2) [OF assms(1)] by simp
  show "finite A" using assms(2) by (rule finite_subset) (simp add: conf_set_def)
  have "inj_on cv_addr A" using conf_invD(4) [OF assms(1)] assms(2) by (rule inj_on_subset)
  then show "card A < conf_next conf" using c by (simp add: card_image)
qed

lemma conf_size:
  assumes "conf_inv conf"
  shows "size (lh_data (conf_data conf)) < conf_next conf"
proof -
  let ?M = "lh_data (conf_data conf)"
  have inv: "lh_inv conf_value_hash conf_value_cmp key_ok (conf_data conf)" by (rule conf_invD(1) [OF assms])
  have "count ?M v \<le> 1" if "v \<in># ?M" for v
  proof -
    have v: "key_ok v" by (rule conf.lh_data_P [OF inv that])
    then have "conf_value_cmp v v = 0" by (simp add: cmp_key)
    then have "replicate_mset (count ?M v) v \<subseteq># filter_mset (\<lambda>d. conf_value_cmp d v = 0) ?M"
      by (simp add: subseteq_mset_def)
    then have "count ?M v \<le> size (filter_mset (\<lambda>d. conf_value_cmp d v = 0) ?M)" by (metis size_mset_mono size_replicate_mset)
    also have "\<dots> \<le> 1" using inv v by (simp add: lh_inv_def one_per_key_def)
    finally show ?thesis .
  qed
  then have "size ?M \<le> (\<Sum>v \<in> set_mset ?M. 1)" unfolding size_multiset_overloaded_eq by (rule sum_mono)
  then show ?thesis using addr_card(3) [OF assms subset_refl] by (simp add: conf_set_def)
qed

text \<open>The text of an entry, with section and name as plain strings.\<close>

definition conf_text :: "conf_st \<Rightarrow> byte list \<Rightarrow> byte list \<Rightarrow> byte list option" where
  "conf_text conf sec name = map_option c_str (NCONF_get_string conf (Some (sec @ [0])) (name @ [0]))"

lemma conf_inv_texts: "conf_inv conf \<Longrightarrow> texts_ok conf"
proof -
  assume inv: "conf_inv conf"
  show ?thesis unfolding texts_ok_def
  proof (intro allI impI)
    fix sec name t
    assume "NCONF_get_string conf sec name = Some t"
    then obtain k v where "conf_retrieve (conf_data conf) k = Some v" and t: "cv_value v = Some (Text t)"
      by (auto simp: NCONF_get_string_def Let_def split: option.splits conf_payload.splits)
    then have "v \<in> conf_set conf" unfolding conf_set_def using retrieve_in [OF conf_invD(1) [OF inv]] by blast
    then have "value_ok conf v" by (rule conf_invD(3) [OF inv])
    then show "0 \<in> set t \<and> length (c_str t) < 2 ^ 48" using t by (auto simp: value_ok_def split: if_splits)
  qed
qed

lemma conf_inv_key: "conf_inv conf \<Longrightarrow> v \<in> conf_set conf \<Longrightarrow> key_ok v"
  using conf.lh_data_P by (auto simp: conf_inv_def conf_set_def)

text \<open>Looking up a key finds the value with that key.\<close>

lemma conf_retrieve_iff:
  assumes "conf_inv conf" and "key_ok k"
  shows "conf_retrieve (conf_data conf) k = Some v \<longleftrightarrow> v \<in> conf_set conf \<and> conf_key v = conf_key k"
proof -
  have inv: "lh_inv conf_value_hash conf_value_cmp key_ok (conf_data conf)" using assms(1) by (simp add: conf_inv_def)
  have one: "one_per_key conf_value_cmp key_ok (lh_data (conf_data conf))" using inv by (simp add: lh_inv_def)
  have "conf_retrieve (conf_data conf) k = lh_entry conf_value_cmp (conf_data conf) k"
    using retrieve_spec [of "\<lambda>_. conf_value_hash" "conf_data conf" "\<lambda>_. conf_value_cmp" key_ok k] conf.hash_keys_axioms inv assms(2) by simp
  then show ?thesis
    using lh_entry_iff [OF one assms(2), of v] cmp_key [OF conf_inv_key [OF assms(1)] assms(2), of v] by (auto simp: conf_set_def)
qed

lemma c_str_snoc [simp]: "c_str (c_str s @ [0]) = c_str s"
  by (rule c_str_append) (auto simp: c_str_def dest: set_takeWhileD)

lemma get_section_iff:
  assumes "conf_inv conf" and "0 \<in> set s"
  shows "get_section conf s = Some v \<longleftrightarrow> v \<in> conf_set conf \<and> is_section v \<and> sec_of v = Some (c_str s)"
  unfolding get_section_def using assms(2)
  by (subst conf_retrieve_iff [OF assms(1)]) (auto simp: key_ok_def conf_key_def is_section_def sec_of_def)

lemma conf_text_iff:
  assumes "conf_inv conf" and "0 \<notin> set sec" and "0 \<notin> set name"
  shows "conf_text conf sec name = Some x \<longleftrightarrow>
    (\<exists>v t. v \<in> conf_set conf \<and> conf_key v = (Some sec, Some name) \<and> cv_value v = Some (Text t) \<and> x = c_str t)"
proof -
  define k where "k = \<lparr>cv_addr = 0, cv_section = Some (sec @ [0]), cv_name = Some (name @ [0]), cv_value = None\<rparr>"
  have "key_ok k" "conf_key k = (Some sec, Some name)" using assms(2,3) by (simp_all add: k_def key_ok_def conf_key_def c_str_append)
  then have "conf_retrieve (conf_data conf) k = Some v \<longleftrightarrow> v \<in> conf_set conf \<and> conf_key v = (Some sec, Some name)" for v
    using conf_retrieve_iff [OF assms(1), of k v] by simp
  note r = this
  have t: "conf_text conf sec name = (case conf_retrieve (conf_data conf) k of None \<Rightarrow> None
      | Some v \<Rightarrow> (case cv_value v of Some (Text t) \<Rightarrow> Some (c_str t) | _ \<Rightarrow> None))"
    by (simp add: conf_text_def NCONF_get_string_def k_def split: option.split conf_payload.split)
  show ?thesis
  proof (cases "conf_retrieve (conf_data conf) k")
    case None
    then show ?thesis using r unfolding t by (metis option.distinct(1) option.simps(4))
  next
    case (Some v)
    then have "u \<in> conf_set conf \<and> conf_key u = (Some sec, Some name) \<longleftrightarrow> u = v" for u using r [of u] by auto
    then have ex: "(\<exists>u t. u \<in> conf_set conf \<and> conf_key u = (Some sec, Some name) \<and> cv_value u = Some (Text t) \<and> x = c_str t) \<longleftrightarrow>
        (\<exists>t. cv_value v = Some (Text t) \<and> x = c_str t)" by metis
    show ?thesis unfolding ex t Some by (auto split: option.splits conf_payload.splits)
  qed
qed

section \<open>Putting values into the table\<close>

lemma conf_insert_spec:
  assumes inv: "lh_inv conf_value_hash conf_value_cmp key_ok lh" and v: "key_ok v" and "size (lh_data lh) < 2 ^ 60" and "never_fails al"
  obtains old lh' al' where "conf_insert al lh v = (True, old, lh', al')" and "never_fails al'"
    and "lh_inv conf_value_hash conf_value_cmp key_ok lh'" and "size (lh_data lh') \<le> size (lh_data lh) + 1"
    and "set_mset (lh_data lh') = insert v {d \<in> set_mset (lh_data lh). conf_key d \<noteq> conf_key v}"
    and "\<forall>u. old = Some u \<longleftrightarrow> u \<in># lh_data lh \<and> conf_key u = conf_key v"
proof -
  obtain ok old lh' al' where i: "conf_insert al lh v = (ok, old, lh', al')" by (metis prod_cases4)
  have "num_items lh + 1 < size_max1" using inv assms(3) by (simp add: lh_inv_def size_max1_def)
  from insert_spec [of "\<lambda>_. conf_value_hash" lh "\<lambda>_. conf_value_cmp" key_ok v, OF conf.hash_keys_axioms inv v this i]
  have ok: "ok" "lh_inv conf_value_hash conf_value_cmp key_ok lh'" "old = lh_entry conf_value_cmp lh v" "lh_data lh' = add_mset v (without old (lh_data lh))"
    using assms(4) by (auto split: if_splits)
  have P: "u \<in># lh_data lh \<Longrightarrow> key_ok u" for u by (rule conf.lh_data_P [OF inv])
  have one: "one_per_key conf_value_cmp key_ok (lh_data lh)" using inv by (simp add: lh_inv_def)
  have old: "old = Some u \<longleftrightarrow> u \<in># lh_data lh \<and> conf_key u = conf_key v" for u
    using lh_entry_iff [OF one v, of u] P [of u] cmp_key [of u v] v unfolding ok(3) by auto
  have "x \<in># without old (lh_data lh) \<longleftrightarrow> x \<in># lh_data lh \<and> conf_key x \<noteq> conf_key v" for x
  proof
    assume "x \<in># without old (lh_data lh)"
    then have "x \<in># lh_data lh \<and> conf_value_cmp x v \<noteq> 0" unfolding ok(3) by (rule conf.without_key [OF inv v])
    then show "x \<in># lh_data lh \<and> conf_key x \<noteq> conf_key v" using P [of x] cmp_key [of x v] v by auto
  next
    assume x: "x \<in># lh_data lh \<and> conf_key x \<noteq> conf_key v"
    then have "old \<noteq> Some x" using old [of x] by simp
    with x show "x \<in># without old (lh_data lh)" by (simp add: without_other)
  qed
  then have "set_mset (lh_data lh') = insert v {d \<in> set_mset (lh_data lh). conf_key d \<noteq> conf_key v}" unfolding ok(4) by auto
  moreover have "size (lh_data lh') \<le> size (lh_data lh) + 1" unfolding ok(4) using size_mset_mono [OF without_sub] by simp
  moreover have "conf_insert al lh v = (True, old, lh', al')" using i ok(1) by simp
  moreover have "never_fails al'" using lh_insert_keeps [OF i] assms(4) by simp
  ultimately show thesis using that ok(2) old by blast
qed

text \<open>The same on the level of the configuration.\<close>

lemma conf_set_data [simp]: "conf_set (conf\<lparr>conf_data := lh\<rparr>) = set_mset (lh_data lh)"
  "conf_set (conf\<lparr>conf_stacks := ss\<rparr>) = conf_set conf" "conf_set (conf\<lparr>conf_next := n\<rparr>) = conf_set conf"
  by (simp_all add: conf_set_def)

lemma value_ok_mono:
  assumes "value_ok conf v" and "conf_next conf \<le> conf_next conf'"
    and "is_section v \<Longrightarrow> sk_inv (conf_stacks conf' (section_stack_id v)) \<and> num_alloc (conf_stacks conf' (section_stack_id v)) \<le> 2 * conf_next conf' + 4"
  shows "value_ok conf' v"
proof (cases "is_section v")
  case True
  then obtain k where k: "cv_value v = Some (Section_stack k)" "k < conf_next conf" using assms(1) by (auto simp: value_ok_def)
  have "sk_inv (conf_stacks conf' k)" "num_alloc (conf_stacks conf' k) \<le> 2 * conf_next conf' + 4"
    using assms(3) [OF True] k(1) by (simp_all add: section_stack_id_def)
  then show ?thesis using True k assms(1,2) by (simp add: value_ok_def)
next
  case False
  then show ?thesis using assms(1,2) by (simp add: value_ok_def)
qed

lemma sk_new_total: "never_fails al \<Longrightarrow> \<exists>s al'. sk_new_null al = (Some s, al') \<and> never_fails al' \<and> sk_inv s \<and> sk_list s = [] \<and> num_alloc s = 4"
proof -
  assume "never_fails al"
  then obtain p al1 where 1: "OPENSSL_malloc al 40 = (Some p, al1)" "never_fails al1"
    using OPENSSL_malloc_total [of al 40] by (auto simp: size_max1_def)
  then obtain q al2 where "OPENSSL_malloc al1 (8 * kMinSize) = (Some q, al2)" "never_fails al2"
    using OPENSSL_malloc_total [of al1 "8 * kMinSize"] by (auto simp: size_max1_def kMinSize_def)
  then show ?thesis using 1 sk_new_inv by (simp add: sk_new_null_def sk_new_def kMinSize_def sk_inv_def sk_list_def size_max1_def)
qed

lemma CONF_VALUE_new_total:
  "never_fails al \<Longrightarrow> \<exists>al'. CONF_VALUE_new al a = (Some \<lparr>cv_addr = a, cv_section = None, cv_name = None, cv_value = None\<rparr>, al') \<and> never_fails al'"
proof -
  assume "never_fails al"
  then obtain p al' where "OPENSSL_malloc al 24 = (Some p, al')" "never_fails al'"
    by (rule OPENSSL_malloc_total [of al 24]) (simp add: size_max1_def)
  then show ?thesis by (simp add: CONF_VALUE_new_def)
qed

lemma unat_next: "n < 2 ^ 60 \<Longrightarrow> unat (of_nat n :: ptr) = n"
  by (simp add: unat_of_nat take_bit_nat_eq_self)

text \<open>A section that is not there yet.\<close>

lemma NCONF_new_section_spec:
  assumes inv: "conf_inv conf" and s: "0 \<in> set s" "length (c_str s) < 2 ^ 40" and "never_fails al" and next60: "conf_next conf < 2 ^ 58"
    and new: "get_section conf s = None"
  obtains sv conf' al' where "NCONF_new_section al conf s = (Some sv, conf', al')" and "never_fails al'" and "conf_inv conf'"
    and "sv \<in> conf_set conf'" and "is_section sv" and "sec_of sv = Some (c_str s)" and "conf_set conf' = insert sv (conf_set conf)"
    and "conf_next conf' = conf_next conf + 1" and "cv_addr sv = of_nat (conf_next conf)"
proof -
  let ?k = "conf_next conf"
  obtain sk :: "unit stack" and al1 where 1: "sk_new_null al = (Some sk, al1)" "never_fails al1" "sk_inv sk" "sk_list sk = []" "num_alloc sk = 4"
    using sk_new_total [OF assms(4)] by blast
  obtain al2 where 2: "CONF_VALUE_new al1 (of_nat ?k) = (Some \<lparr>cv_addr = of_nat ?k, cv_section = None, cv_name = None, cv_value = None\<rparr>, al2)" "never_fails al2"
    using CONF_VALUE_new_total [OF 1(2)] by blast
  have "c_strlen s < 2 ^ 50" using s(2) by (simp add: c_strlen_def c_str_def)
  from strdup_total [OF 2(2) s(1) this] obtain t al3
    where 3: "OPENSSL_strdup al2 (Some s) = (Some t, al3)" "c_str t = c_str s" "0 \<in> set t" "never_fails al3" by metis
  define sv where "sv = \<lparr>cv_addr = of_nat ?k, cv_section = Some t, cv_name = None, cv_value = Some (Section_stack ?k)\<rparr>"
  have sv: "key_ok sv" "is_section sv" "sec_of sv = Some (c_str s)" "section_stack_id sv = ?k" "conf_key sv = (Some (c_str s), None)"
    using 3 by (simp_all add: sv_def key_ok_def is_section_def sec_of_def section_stack_id_def conf_key_def)
  have sz: "size (lh_data (conf_data conf)) < 2 ^ 60" using conf_size [OF inv] next60 by simp
  obtain old lh al4 where 4: "conf_insert al3 (conf_data conf) sv = (True, old, lh, al4)" "never_fails al4" "lh_inv conf_value_hash conf_value_cmp key_ok lh"
      "size (lh_data lh) \<le> size (lh_data (conf_data conf)) + 1"
      "set_mset (lh_data lh) = insert sv {d \<in> set_mset (lh_data (conf_data conf)). conf_key d \<noteq> conf_key sv}"
    by (rule conf_insert_spec [OF conf_invD(1) [OF inv] sv(1) sz 3(4)])
  define conf' where "conf' = conf\<lparr>conf_data := lh, conf_stacks := (conf_stacks conf)(?k := sk), conf_next := ?k + 1\<rparr>"
  have none: "\<not> (is_section d \<and> sec_of d = Some (c_str s))" if "d \<in> conf_set conf" for d
    using get_section_iff [OF inv s(1), of d] new that by auto
  have "conf_key d \<noteq> conf_key sv" if "d \<in> conf_set conf" for d
    unfolding sv(5) using none [OF that] by (auto simp: conf_key_def is_section_def sec_of_def)
  then have set': "conf_set conf' = insert sv (conf_set conf)" using 4(5) by (auto simp: conf'_def conf_set_def)
  have nosec: "sec_of d \<noteq> Some (c_str s)" if "d \<in> conf_set conf" for d
    using conf_invD(6) [OF inv that] none by metis
  have ids: "section_stack_id d < ?k" if "d \<in> conf_set conf" "is_section d" for d
    using conf_invD(3) [OF inv that(1)] that(2) by (auto simp: value_ok_def section_stack_id_def)
  have addr: "unat (cv_addr d) < ?k" if "d \<in> conf_set conf" for d using conf_invD(3) [OF inv that] by (simp add: value_ok_def)
  have us: "unat (cv_addr sv) = ?k" using next60 by (simp add: sv_def unat_next)
  have "conf_inv conf'"
    unfolding conf_inv_def
  proof (intro conjI ballI impI)
    show "lh_inv conf_value_hash conf_value_cmp key_ok (conf_data conf')" using 4(3) by (simp add: conf'_def)
    show "0 < conf_next conf'" by (simp add: conf'_def)
    show "value_ok conf' v" if "v \<in> conf_set conf'" for v
    proof (cases "v = sv")
      case True
      have "cv_addr sv \<noteq> 0" using us conf_invD(2) [OF inv] by auto
      then show ?thesis using us 1 s(2) True sv(3) by (auto simp: value_ok_def is_section_def conf'_def sv_def)
    next
      case False
      then have v: "v \<in> conf_set conf" using that set' by simp
      have "value_ok conf v" by (rule conf_invD(3) [OF inv v])
      then show ?thesis
      proof (rule value_ok_mono)
        show "conf_next conf \<le> conf_next conf'" by (simp add: conf'_def)
        assume s: "is_section v"
        then have "conf_stacks conf' (section_stack_id v) = conf_stacks conf (section_stack_id v)" using ids [OF v] by (simp add: conf'_def)
        moreover have "sk_inv (conf_stacks conf (section_stack_id v))" "num_alloc (conf_stacks conf (section_stack_id v)) \<le> 2 * conf_next conf + 4"
          using conf_invD(3) [OF inv v] s by (auto simp: value_ok_def section_stack_id_def)
        ultimately show "sk_inv (conf_stacks conf' (section_stack_id v)) \<and> num_alloc (conf_stacks conf' (section_stack_id v)) \<le> 2 * conf_next conf' + 4"
          by (simp add: conf'_def)
      qed
    qed
    show "inj_on cv_addr (conf_set conf')"
      unfolding set' using conf_invD(4) [OF inv] addr us by (auto simp: inj_on_insert image_iff) (metis less_irrefl)
    have "{v \<in> conf_set conf'. is_section v} = insert sv {v \<in> conf_set conf. is_section v}" using set' sv(2) by auto
    then show "inj_on section_stack_id {v \<in> conf_set conf'. is_section v}"
      using conf_invD(5) [OF inv] ids sv(4) by (auto simp: inj_on_insert image_iff) (metis less_irrefl)
    show "\<exists>sv \<in> conf_set conf'. is_section sv \<and> sec_of sv = sec_of v" if "v \<in> conf_set conf'" for v
      using that conf_invD(6) [OF inv, of v] sv(2) unfolding set' by blast
    show "lists_entries conf' v" if v: "v \<in> conf_set conf'" "is_section v" for v
    proof (cases "v = sv")
      case True
      then show ?thesis using nosec sv 1(4) set' by (auto simp: lists_entries_def Let_def conf'_def)
    next
      case False
      then have v': "v \<in> conf_set conf" using v set' by simp
      have "{u \<in> conf_set conf'. \<not> is_section u \<and> sec_of u = sec_of v} = {u \<in> conf_set conf. \<not> is_section u \<and> sec_of u = sec_of v}"
        using set' sv(2) by auto
      moreover have "conf_stacks conf' (section_stack_id v) = conf_stacks conf (section_stack_id v)" using ids [OF v' v(2)] by (simp add: conf'_def)
      ultimately show ?thesis using conf_invD(7) [OF inv v' v(2)] by (simp add: lists_entries_def)
    qed
  qed
  moreover have "NCONF_new_section al conf s = (Some sv, conf', al4)"
    using 1 2 3 4(1) by (simp add: NCONF_new_section_def sv_def conf'_def)
  ultimately show thesis using that [of sv conf' al4] 4(2) sv set' by (simp add: conf'_def sv_def)
qed

text \<open>Two values of a table with the same key are the same.\<close>

lemma conf_key_unique:
  assumes "conf_inv conf" and "u \<in> conf_set conf" and "v \<in> conf_set conf" and "conf_key u = conf_key v"
  shows "u = v"
proof -
  note k = conf_inv_key [OF assms(1,3)]
  have "conf_retrieve (conf_data conf) v = Some u" "conf_retrieve (conf_data conf) v = Some v"
    using assms conf_retrieve_iff [OF assms(1) k] by simp_all
  then show ?thesis by simp
qed

lemma section_key: "is_section v \<Longrightarrow> conf_key v = (sec_of v, None)"
  by (simp add: is_section_def conf_key_def sec_of_def)

text \<open>An entry as \<open>add_string\<close> takes it, with an address that is in use nowhere else.\<close>

definition new_entry :: "conf_st \<Rightarrow> conf_value \<Rightarrow> bool" where
  "new_entry conf v \<longleftrightarrow> (\<exists>n t. cv_name v = Some n \<and> 0 \<in> set n \<and> cv_value v = Some (Text t) \<and> 0 \<in> set t \<and> length (c_str t) < 2 ^ 40) \<and>
     cv_addr v \<noteq> 0 \<and> unat (cv_addr v) < conf_next conf \<and> cv_addr v \<notin> cv_addr ` conf_set conf"

text \<open>The invariant after an entry \<open>v\<close> has taken the place of the entries with its key.\<close>

lemma conf_inv_add:
  assumes inv: "conf_inv conf" and sv: "sv \<in> conf_set conf" "is_section sv" and v: "new_entry conf v" "sec_of v = sec_of sv"
    and lh: "lh_inv conf_value_hash conf_value_cmp key_ok lh"
    and set': "set_mset (lh_data lh) = insert v {d \<in> conf_set conf. conf_key d \<noteq> conf_key v}"
    and sk: "sk_inv sk" "num_alloc sk \<le> 2 * conf_next conf + 4" "distinct (sk_list sk)"
      "set (sk_list sk) = insert (cv_addr v) (cv_addr ` {d \<in> conf_set conf. \<not> is_section d \<and> sec_of d = sec_of sv \<and> conf_key d \<noteq> conf_key v})"
  defines "conf' \<equiv> conf\<lparr>conf_data := lh, conf_stacks := (conf_stacks conf)(section_stack_id sv := sk)\<rparr>"
  shows "conf_inv conf'"
proof -
  let ?id = "section_stack_id sv"
  have cs: "conf_set conf' = insert v {d \<in> conf_set conf. conf_key d \<noteq> conf_key v}" using set' by (simp add: conf'_def conf_set_def)
  obtain n t where nt: "cv_name v = Some n" "cv_value v = Some (Text t)" "0 \<in> set t" "length (c_str t) < 2 ^ 40"
      "cv_addr v \<noteq> 0" "unat (cv_addr v) < conf_next conf" "cv_addr v \<notin> cv_addr ` conf_set conf"
    using v(1) by (auto simp: new_entry_def)
  have nv: "\<not> is_section v" using nt(1) by (simp add: is_section_def)
  have keep: "d \<in> conf_set conf' \<longleftrightarrow> d \<in> conf_set conf" if "is_section d" for d
    using that nv nt(1) unfolding cs by (auto simp: section_key conf_key_def is_section_def)
  have other: "section_stack_id d \<noteq> ?id \<and> sec_of d \<noteq> sec_of sv" if d: "d \<in> conf_set conf" "is_section d" "d \<noteq> sv" for d
  proof
    show "section_stack_id d \<noteq> ?id" using inj_onD [OF conf_invD(5) [OF inv], of d sv] d sv by auto
    show "sec_of d \<noteq> sec_of sv" using conf_key_unique [OF inv d(1) sv(1)] d sv(2) by (auto simp: section_key)
  qed
  have ok: "value_ok conf' d" if d: "d \<in> conf_set conf" for d
  proof (rule value_ok_mono [OF conf_invD(3) [OF inv d]])
    show "conf_next conf \<le> conf_next conf'" by (simp add: conf'_def)
    assume s: "is_section d"
    then have "sk_inv (conf_stacks conf (section_stack_id d))" "num_alloc (conf_stacks conf (section_stack_id d)) \<le> 2 * conf_next conf + 4"
      using conf_invD(3) [OF inv d] by (auto simp: value_ok_def section_stack_id_def)
    then show "sk_inv (conf_stacks conf' (section_stack_id d)) \<and> num_alloc (conf_stacks conf' (section_stack_id d)) \<le> 2 * conf_next conf' + 4"
      using sk(1,2) by (simp add: conf'_def)
  qed
  have "\<forall>s. sec_of v = Some s \<longrightarrow> length s < 2 ^ 40" using conf_invD(3) [OF inv sv(1)] v(2) by (simp add: value_ok_def)
  then have okv: "value_ok conf' v" using nt nv by (simp add: value_ok_def conf'_def)
  show ?thesis
    unfolding conf_inv_def
  proof (intro conjI ballI impI)
    show "lh_inv conf_value_hash conf_value_cmp key_ok (conf_data conf')" using lh by (simp add: conf'_def)
    show "0 < conf_next conf'" using conf_invD(2) [OF inv] by (simp add: conf'_def)
    show "value_ok conf' d" if "d \<in> conf_set conf'" for d using that ok okv unfolding cs by auto
    show "inj_on cv_addr (conf_set conf')" unfolding cs using inj_on_subset [OF conf_invD(4) [OF inv]] nt(7) by auto
    have "{d \<in> conf_set conf'. is_section d} = {d \<in> conf_set conf. is_section d}" using keep by auto
    then show "inj_on section_stack_id {d \<in> conf_set conf'. is_section d}" using conf_invD(5) [OF inv] by simp
    show "\<exists>u \<in> conf_set conf'. is_section u \<and> sec_of u = sec_of d" if "d \<in> conf_set conf'" for d
    proof -
      have "\<exists>u \<in> conf_set conf. is_section u \<and> sec_of u = sec_of d"
      proof (cases "d = v")
        case True
        then show ?thesis using sv v(2) by metis
      next
        case False
        then have "d \<in> conf_set conf" using that unfolding cs by simp
        then show ?thesis by (rule conf_invD(6) [OF inv])
      qed
      then show ?thesis using keep by metis
    qed
    show "lists_entries conf' d" if d: "d \<in> conf_set conf'" "is_section d" for d
    proof (cases "d = sv")
      case True
      have "{u \<in> conf_set conf'. \<not> is_section u \<and> sec_of u = sec_of sv} =
          insert v {d \<in> conf_set conf. \<not> is_section d \<and> sec_of d = sec_of sv \<and> conf_key d \<noteq> conf_key v}"
        unfolding cs using nv v(2) by auto
      then show ?thesis using True sk(3,4) by (simp add: lists_entries_def conf'_def)
    next
      case False
      then have d': "d \<in> conf_set conf" using d keep by simp
      have "conf_key u \<noteq> conf_key v" if "u \<in> conf_set conf" "sec_of u = sec_of d" for u
        using other [OF d' d(2) False] that v(2) by (auto simp: conf_key_def sec_of_def)
      then have "{u \<in> conf_set conf'. \<not> is_section u \<and> sec_of u = sec_of d} = {u \<in> conf_set conf. \<not> is_section u \<and> sec_of u = sec_of d}"
        unfolding cs using other [OF d' d(2) False] v(2) by auto
      then show ?thesis using conf_invD(7) [OF inv d' d(2)] other [OF d' d(2) False] by (simp add: lists_entries_def conf'_def)
    qed
  qed
qed

lemma conf_text_of: "key_ok v \<Longrightarrow> conf_inv conf \<Longrightarrow> v \<in> conf_set conf \<Longrightarrow> conf_key v = (Some sec, Some name) \<Longrightarrow>
    cv_value v = Some (Text t) \<Longrightarrow> 0 \<notin> set sec \<Longrightarrow> 0 \<notin> set name \<Longrightarrow> conf_text conf sec name = Some (c_str t)"
  by (subst conf_text_iff) auto

lemma conf_text_add:
  assumes "conf_inv conf" and "conf_inv conf'" and set': "conf_set conf' = insert v {d \<in> conf_set conf. conf_key d \<noteq> conf_key v}"
    and k: "conf_key v = (Some s, Some n)" and "cv_value v = Some (Text t)" and "0 \<notin> set sec" and "0 \<notin> set name"
  shows "conf_text conf' sec name = (if sec = s \<and> name = n then Some (c_str t) else conf_text conf sec name)"
proof -
  have "conf_text conf' sec name = Some x \<longleftrightarrow> (if sec = s \<and> name = n then Some (c_str t) else conf_text conf sec name) = Some x" for x
    using conf_text_iff [OF assms(1,6,7), of x] conf_text_iff [OF assms(2,6,7), of x] assms(5) k unfolding set' by auto
  then show ?thesis by (metis not_None_eq)
qed

text \<open>What the invariant says of the stack of a section.\<close>

lemma section_stackD:
  assumes inv: "conf_inv conf" and sv: "sv \<in> conf_set conf" "is_section sv"
  defines "sk \<equiv> conf_stacks conf (section_stack_id sv)"
  shows "sk_inv sk" and "num_alloc sk \<le> 2 * conf_next conf + 4" and "distinct (sk_list sk)"
    and "set (sk_list sk) = cv_addr ` {d \<in> conf_set conf. \<not> is_section d \<and> sec_of d = sec_of sv}" and "num sk < conf_next conf"
proof -
  show i: "sk_inv sk" "num_alloc sk \<le> 2 * conf_next conf + 4"
    using conf_invD(3) [OF inv sv(1)] sv(2) by (auto simp: value_ok_def section_stack_id_def sk_def)
  show li: "distinct (sk_list sk)" "set (sk_list sk) = cv_addr ` {d \<in> conf_set conf. \<not> is_section d \<and> sec_of d = sec_of sv}"
    using conf_invD(7) [OF inv sv] by (simp_all add: lists_entries_def Let_def sk_def)
  have "num sk = card (set (sk_list sk))" using length_sk_list [OF i(1)] distinct_card [OF li(1)] by simp
  also have "\<dots> < conf_next conf" unfolding li(2) by (rule addr_card(1) [OF inv]) auto
  finally show "num sk < conf_next conf" .
qed

text \<open>The value that has been replaced is taken out of the stack.\<close>

lemma drop_old:
  assumes "sk_inv sk1" and l: "sk_list sk1 = xs @ [a]" and "distinct (sk_list sk1)" and fresh: "a \<notin> cv_addr ` C"
    and old: "\<forall>u. old = Some u \<longleftrightarrow> u \<in> C \<and> conf_key u = k"
  obtains sk2 where "case old of None \<Rightarrow> sk2 = sk1 | Some u \<Rightarrow> snd (sk_delete_ptr (Some sk1) (cv_addr u)) = Some sk2"
    and "sk_inv sk2" and "sk_list sk2 = filter (\<lambda>b. \<forall>u \<in> C. conf_key u = k \<longrightarrow> b \<noteq> cv_addr u) xs @ [a]" and "num_alloc sk2 = num_alloc sk1"
proof (cases old)
  case None
  then have "filter (\<lambda>b. \<forall>u \<in> C. conf_key u = k \<longrightarrow> b \<noteq> cv_addr u) xs = xs" using old by (auto intro!: filter_True)
  then show thesis using that [of sk1] None assms(1) l by simp
next
  case (Some u)
  then have u: "u \<in> C" "conf_key u = k" "\<And>d. d \<in> C \<Longrightarrow> conf_key d = k \<Longrightarrow> d = u"
    using old by (metis option.inject)+
  obtain r sk2 where d: "sk_delete_ptr (Some sk1) (cv_addr u) = (r, Some sk2)" "sk_inv sk2" "sk_list sk2 = remove1 (cv_addr u) (sk_list sk1)" "num_alloc sk2 = num_alloc sk1"
    using sk_delete_ptr_spec [OF assms(1)] by blast
  have ne: "cv_addr u \<noteq> a" using fresh u(1) by (metis imageI)
  have "(\<forall>w \<in> C. conf_key w = k \<longrightarrow> b \<noteq> cv_addr w) \<longleftrightarrow> b \<noteq> cv_addr u" for b using u by metis
  then have "filter (\<lambda>b. b \<noteq> cv_addr u) xs = filter (\<lambda>b. \<forall>w \<in> C. conf_key w = k \<longrightarrow> b \<noteq> cv_addr w) xs" by presburger
  then have "sk_list sk2 = filter (\<lambda>b. \<forall>w \<in> C. conf_key w = k \<longrightarrow> b \<noteq> cv_addr w) xs @ [a]"
    using d(3) ne l assms(3) by (auto simp: distinct_remove1_removeAll removeAll_filter_not_eq eq_commute)
  then show thesis using that [of sk2] Some d by simp
qed

text \<open>\<open>add_string\<close> as a whole: the stack of the section has the new entry at the end, the old one is gone.\<close>

lemma add_string_spec:
  assumes inv: "conf_inv conf" and sv: "sv \<in> conf_set conf" "is_section sv" "sec_of sv = Some s" and v0: "new_entry conf v0" "cv_name v0 = Some n" "cv_value v0 = Some (Text t)"
    and nf: "never_fails al" and next58: "conf_next conf < 2 ^ 57"
  obtains conf' v al' where "add_string al conf sv v0 = (True, conf', al')" and "never_fails al'" and "conf_inv conf'"
    and "conf_key v = (Some s, Some (c_str n))" and "cv_value v = Some (Text t)"
    and "conf_set conf' = insert v {d \<in> conf_set conf. conf_key d \<noteq> conf_key v}" and "conf_next conf' = conf_next conf"
    and "sk_list (conf_stacks conf' (section_stack_id sv)) =
      filter (\<lambda>a. \<forall>u \<in> conf_set conf. conf_key u = conf_key v \<longrightarrow> a \<noteq> cv_addr u) (sk_list (conf_stacks conf (section_stack_id sv))) @ [cv_addr v0]"
proof -
  let ?id = "section_stack_id sv" and ?sk = "conf_stacks conf (section_stack_id sv)"
  obtain sec where sec: "cv_section sv = Some sec" "c_str sec = s" "0 \<in> set sec"
    using sv(3) conf_inv_key [OF inv sv(1)] by (auto simp: sec_of_def key_ok_def)
  have vsv: "value_ok conf sv" by (rule conf_invD(3) [OF inv sv(1)])
  note ssk = section_stackD(1,2) [OF inv sv(1,2)] and li = section_stackD(3,4) [OF inv sv(1,2)] and num = section_stackD(5) [OF inv sv(1,2)]
  have "length s < 2 ^ 40" using vsv sv(3) by (simp add: value_ok_def)
  then have "c_strlen sec < 2 ^ 50" using sec(2) by (auto simp: c_strlen_def c_str_def)
  then obtain s' al1 where 1: "OPENSSL_strdup al (Some sec) = (Some s', al1)" "c_str s' = s" "0 \<in> set s'" "never_fails al1"
    using strdup_total [OF nf sec(3)] sec(2) by metis
  define v where "v = v0\<lparr>cv_section := Some s'\<rparr>"
  have k: "conf_key v = (Some s, Some (c_str n))" "cv_value v = Some (Text t)" "cv_addr v = cv_addr v0" "sec_of v = sec_of sv"
    using v0 1(2) sec by (simp_all add: v_def conf_key_def sec_of_def)
  have nv: "new_entry conf v" "key_ok v" using v0(1) 1(3) by (auto simp: v_def new_entry_def key_ok_def)
  have "num_alloc ?sk < 2 ^ 59" using ssk(2) next58 by simp
  then obtain sk1 al2 where 2: "sk_push al1 ?sk (cv_addr v) = (Suc (num ?sk), Some sk1, al2)" "sk_inv sk1" "sk_list sk1 = sk_list ?sk @ [cv_addr v]"
      "num_alloc sk1 \<le> max (num_alloc ?sk) (2 * (num ?sk + 1))" "never_fails al2"
    using sk_push_spec [OF ssk(1) 1(4)] by blast
  have na1: "num_alloc sk1 \<le> 2 * conf_next conf + 4" using 2(4) ssk(2) num by simp
  have "size (lh_data (conf_data conf)) < 2 ^ 60" using conf_size [OF inv] next58 by simp
  note sz = this
  obtain old lh al3 where 3: "conf_insert al2 (conf_data conf) v = (True, old, lh, al3)" "never_fails al3"
      "lh_inv conf_value_hash conf_value_cmp key_ok lh" "size (lh_data lh) \<le> size (lh_data (conf_data conf)) + 1"
      "set_mset (lh_data lh) = insert v {d \<in> set_mset (lh_data (conf_data conf)). conf_key d \<noteq> conf_key v}"
      "\<forall>u. old = Some u \<longleftrightarrow> u \<in># lh_data (conf_data conf) \<and> conf_key u = conf_key v"
    by (rule conf_insert_spec [OF conf_invD(1) [OF inv] nv(2) sz 2(5)])
  note 3 = 3(1-3) 3(5,6) [folded conf_set_def]
  define kept where "kept = filter (\<lambda>a. \<forall>u \<in> conf_set conf. conf_key u = conf_key v \<longrightarrow> a \<noteq> cv_addr u) (sk_list ?sk)"
  have fresh: "cv_addr v \<notin> cv_addr ` conf_set conf" using nv(1) by (simp add: new_entry_def)
  have d1: "distinct (sk_list sk1)" using 2(3) li fresh by auto
  obtain sk2 where 4: "(case old of None \<Rightarrow> sk2 = sk1 | Some u \<Rightarrow> snd (sk_delete_ptr (Some sk1) (cv_addr u)) = Some sk2)"
      "sk_inv sk2" "sk_list sk2 = kept @ [cv_addr v]" "num_alloc sk2 = num_alloc sk1"
    unfolding kept_def by (rule drop_old [OF 2(2,3) d1 fresh 3(5)])
  define conf' where "conf' = conf\<lparr>conf_data := lh, conf_stacks := (conf_stacks conf)(?id := sk2)\<rparr>"
  have kset: "set kept = cv_addr ` {d \<in> conf_set conf. \<not> is_section d \<and> sec_of d = sec_of sv \<and> conf_key d \<noteq> conf_key v}"
    unfolding kept_def set_filter li(2) using inj_onD [OF conf_invD(4) [OF inv]] by auto
  have "distinct (sk_list sk2)" using 4(3) li(1) fresh kset by (auto simp: kept_def)
  moreover have "set (sk_list sk2) = insert (cv_addr v) (set kept)" using 4(3) by simp
  ultimately have "conf_inv conf'" unfolding conf'_def using na1 4(2,4) kset
    by (intro conf_inv_add [OF inv sv(1,2) nv(1) k(4) 3(3,4)]) simp_all
  moreover have "add_string al conf sv v0 = (True, conf', al3)"
    using 1(1) 2(1) 3(1) 4(1) sec(1) by (cases old) (auto simp: add_string_def v_def conf'_def Let_def split: prod.splits)
  moreover have "conf_set conf' = insert v {d \<in> conf_set conf. conf_key d \<noteq> conf_key v}" using 3(4) by (simp add: conf'_def)
  ultimately show thesis using that [of conf' al3 v] 3(2) k 4(3) unfolding kept_def by (simp add: conf'_def)
qed

text \<open>Taking an address.\<close>

lemma conf_inv_next:
  assumes inv: "conf_inv conf" and "conf_next conf \<le> n"
  shows "conf_inv (conf\<lparr>conf_next := n\<rparr>)"
proof -
  let ?c = "conf\<lparr>conf_next := n\<rparr>"
  have "value_ok ?c v" if "v \<in> conf_set conf" for v
  proof (rule value_ok_mono [OF conf_invD(3) [OF inv that]])
    show "conf_next conf \<le> conf_next ?c" using assms(2) by simp
    assume "is_section v"
    then show "sk_inv (conf_stacks ?c (section_stack_id v)) \<and> num_alloc (conf_stacks ?c (section_stack_id v)) \<le> 2 * conf_next ?c + 4"
      using conf_invD(3) [OF inv that] assms(2) by (auto simp: value_ok_def section_stack_id_def)
  qed
  then show ?thesis using inv assms(2) by (auto simp: conf_inv_def lists_entries_def)
qed

lemma get_section_next [simp]: "get_section (conf\<lparr>conf_next := n\<rparr>) s = get_section conf s"
  by (simp add: get_section_def)

section \<open>The contract of the store\<close>

text \<open>C21: A configuration is a map from sections and names to texts. Adding an entry to a section that is
  there succeeds as long as memory can be had; afterwards the entry is found under its section and
  name with its text, everything else is found as before, the stack of the section lists the new entry
  last and an entry of the same name no more, and the table and the stacks still agree.
\<close>

theorem conf_add_string:
  assumes "conf_inv conf" and "0 \<in> set s" and "get_section conf s = Some sv" and "new_entry conf v"
    and "cv_name v = Some n" and "cv_value v = Some (Text t)" and "never_fails al" and "conf_next conf < 2 ^ 57"
  shows "\<exists>conf' al' sk sk'. add_string al conf sv v = (True, conf', al') \<and> conf_inv conf' \<and>
    (\<forall>sec name. 0 \<notin> set sec \<longrightarrow> 0 \<notin> set name \<longrightarrow>
       conf_text conf' sec name = (if sec = c_str s \<and> name = c_str n then Some (c_str t) else conf_text conf sec name)) \<and>
    NCONF_get_section conf s = Some sk \<and> NCONF_get_section conf' s = Some sk' \<and>
    sk_list sk' = filter (\<lambda>a. \<forall>u \<in> conf_set conf. conf_key u = (Some (c_str s), Some (c_str n)) \<longrightarrow> a \<noteq> cv_addr u) (sk_list sk) @ [cv_addr v]"
proof -
  have sv: "sv \<in> conf_set conf" "is_section sv" "sec_of sv = Some (c_str s)" using get_section_iff [OF assms(1,2), of sv] assms(3) by simp_all
  obtain conf' u al' where a: "add_string al conf sv v = (True, conf', al')" "never_fails al'" "conf_inv conf'" "conf_key u = (Some (c_str s), Some (c_str n))"
      "cv_value u = Some (Text t)" "conf_set conf' = insert u {d \<in> conf_set conf. conf_key d \<noteq> conf_key u}" "conf_next conf' = conf_next conf"
      "sk_list (conf_stacks conf' (section_stack_id sv)) =
        filter (\<lambda>a. \<forall>w \<in> conf_set conf. conf_key w = conf_key u \<longrightarrow> a \<noteq> cv_addr w) (sk_list (conf_stacks conf (section_stack_id sv))) @ [cv_addr v]"
    by (rule add_string_spec [OF assms(1) sv assms(4-8)])
  have "sv \<in> conf_set conf'" using sv a(4) unfolding a(6) by (simp add: section_key)
  then have "get_section conf' s = Some sv" using get_section_iff [OF a(3) assms(2)] sv by simp
  then have "NCONF_get_section conf s = Some (conf_stacks conf (section_stack_id sv))" "NCONF_get_section conf' s = Some (conf_stacks conf' (section_stack_id sv))"
    using assms(3) by (simp_all add: NCONF_get_section_def)
  then show ?thesis using a(1,3,4,8) conf_text_add [OF assms(1) a(3,6,4,5)] by auto
qed

lemma empty_conf_inv: "conf_inv empty_conf"
proof -
  have "lh_data (conf_data empty_conf) = {#}" by (simp add: empty_conf_def lh_data_def)
  moreover have "lh_inv conf_value_hash conf_value_cmp key_ok (conf_data empty_conf)"
    by (simp add: empty_conf_def lh_inv_def placed_def lh_data_def one_per_key_def kMinNumBuckets_def size_max1_def)
  ultimately show ?thesis by (simp add: conf_inv_def conf_set_def empty_conf_def)
qed

theorem conf_add_string_witness:
  "\<exists>sv conf al conf' al'. NCONF_new_section plentiful empty_conf [0x61, 0] = (Some sv, conf, al) \<and>
     add_string al (conf\<lparr>conf_next := 3\<rparr>) sv \<lparr>cv_addr = 2, cv_section = None, cv_name = Some [0x62, 0], cv_value = Some (Text [0x63, 0])\<rparr> = (True, conf', al') \<and>
     conf_text conf' [0x61] [0x62] = Some [0x63]"
proof -
  have "get_section empty_conf [0x61, 0] = None"
    by (simp add: get_section_def empty_conf_def OPENSSL_lh_retrieve_def get_next_ptr_and_hash_def slot_item_def Let_def)
  note none = this
  have c: "0 \<in> set [0x61, 0 :: byte]" "length (c_str [0x61, 0]) < 2 ^ 40" "conf_next empty_conf < 2 ^ 58" by (simp_all add: c_str_def empty_conf_def)
  obtain sv conf al where n: "NCONF_new_section plentiful empty_conf [0x61, 0] = (Some sv, conf, al)" "never_fails al" "conf_inv conf"
      "sv \<in> conf_set conf" "is_section sv" "sec_of sv = Some (c_str [0x61, 0])" "conf_set conf = insert sv (conf_set empty_conf)" "conf_next conf = conf_next empty_conf + 1"
      "cv_addr sv = of_nat (conf_next empty_conf)"
    by (rule NCONF_new_section_spec [OF empty_conf_inv c(1,2) plentiful_never_fails c(3) none])
  let ?c = "conf\<lparr>conf_next := 3\<rparr>" and ?v = "\<lparr>cv_addr = 2, cv_section = None, cv_name = Some [0x62, 0], cv_value = Some (Text [0x63, 0])\<rparr>"
  have next2: "conf_next conf = 2" using n(8) by (simp add: empty_conf_def)
  have "cv_addr d \<noteq> 2" if "d \<in> conf_set conf" for d
    using conf_invD(3) [OF n(3) that] next2 by (auto simp: value_ok_def)
  then have v: "new_entry ?c ?v" by (auto simp: new_entry_def c_str_def)
  have "get_section ?c [0x61, 0] = Some sv" using get_section_iff [OF n(3), of "[0x61, 0]" sv] n by simp
  from conf_add_string [OF conf_inv_next [OF n(3)] _ this v, of "[0x62, 0]" "[0x63, 0]" al] next2 n(2)
  obtain conf' al' where a: "add_string al ?c sv ?v = (True, conf', al')"
    "\<forall>sec name. 0 \<notin> set sec \<longrightarrow> 0 \<notin> set name \<longrightarrow>
       conf_text conf' sec name = (if sec = c_str [0x61, 0] \<and> name = c_str [0x62, 0] then Some (c_str [0x63, 0]) else conf_text ?c sec name)"
    by auto
  then have "conf_text conf' [0x61] [0x62] = Some [0x63]" by (simp add: c_str_def)
  then show ?thesis using n(1) a(1) by blast
qed

end
