(* ===== verification/Conf_Load.thy ===== *)
theory Conf_Load
  imports Conf_Store
begin

text \<open>
  \<open>def_load_bio\<close> of \<open>crypto/conf/conf.c\<close>: reading a configuration file from a BIO, line by line.

  \<open>gets\<close> is \<open>BIO_gets\<close> on the BIO at hand, whose state has the type \<open>'s\<close>. As before, an access
  outside of a buffer is the result \<open>None\<close>. The function is split at the points where its main loop
  continues: \<open>read_chunk\<close> reads, joins continued lines and counts lines, \<open>parse_line\<close> works on a whole line.
\<close>

definition CONFBUFSIZE :: nat where
  "CONFBUFSIZE = 512"

text \<open>The variables of the loop. \<open>ld_line\<close> is \<open>eline\<close>, \<open>ld_sv\<close> and \<open>ld_section\<close> the current section.\<close>

record load_state =
  ld_conf :: conf_st
  ld_section :: "byte list"
  ld_sv :: conf_value
  ld_buff :: buf_mem
  ld_bufnum :: nat
  ld_again :: bool
  ld_line :: nat

text \<open>How a round ends: the end of the input, an error, or the next round.\<close>

datatype load_result = Load_done | Load_error conf_error | Load_next

section \<open>Reading lines\<close>

text \<open>The number of bytes without the carriage returns and newlines at the end.\<close>

fun strip_eol :: "byte list \<Rightarrow> nat \<Rightarrow> nat" where
  "strip_eol p 0 = 0"
| "strip_eol p (Suc i) = (if p ! i \<noteq> 0x0d \<and> p ! i \<noteq> 0x0a then Suc i else strip_eol p i)"

definition read_chunk ::
  "('s \<Rightarrow> int \<Rightarrow> int \<times> byte list \<times> 's) \<Rightarrow> allocator \<Rightarrow> 's \<Rightarrow> load_state \<Rightarrow> (load_result \<times> load_state \<times> 's \<times> allocator) option" where
  "read_chunk gets al s st =
     (let bufnum = ld_bufnum st in
      case BUF_MEM_grow al (ld_buff st) (bufnum + CONFBUFSIZE) of
        (r, b, al1) \<Rightarrow>
          if r = 0 then Some (Load_error CONF_MALLOC_FAILURE, st\<lparr>ld_buff := b\<rparr>, s, al1)
          else
            do {
              d0 \<leftarrow> buf_data b;
              d1 \<leftarrow> mem_store d0 bufnum [0];
              (case gets s (int CONFBUFSIZE - 1) of
                 (_, out, s') \<Rightarrow>
                   do {
                     d2 \<leftarrow> mem_store d1 bufnum out;
                     d3 \<leftarrow> mem_store d2 (bufnum + CONFBUFSIZE - 1) [0];
                     let ii = c_strlen (drop bufnum d3);
                     if ii = 0 \<and> \<not> ld_again st then Some (Load_done, st\<lparr>ld_buff := b\<lparr>buf_data := Some d3\<rparr>\<rparr>, s', al1)
                     else
                       do {
                         let i = strip_eol (drop bufnum d3) ii;
                         let long_line = (ii \<noteq> 0 \<and> i = ii);
                         d4 \<leftarrow> (if long_line then Some d3 else mem_store d3 (bufnum + i) [0]);
                         let n = bufnum + i;
                         esc \<leftarrow> (if n \<ge> 1 then
                                  do {
                                    c \<leftarrow> char_at d4 (n - 1);
                                    if IS_ESC c then (if n \<le> 1 then Some True else map_option (\<lambda>c. \<not> IS_ESC c) (char_at d4 (n - 2)))
                                    else Some False
                                  }
                                else Some False);
                         Some (Load_next,
                               st\<lparr>ld_buff := b\<lparr>buf_data := Some d4\<rparr>, ld_bufnum := (if esc then n - 1 else n),
                                  ld_again := (long_line \<or> esc), ld_line := (if long_line then ld_line st else ld_line st + 1)\<rparr>,
                               s', al1)
                       }
                   })
            })"

section \<open>Parsing lines\<close>

lemma eat_ws_ge: "eat_ws buf p = Some q \<Longrightarrow> p \<le> q \<and> q < length buf"
proof (induction buf p rule: eat_ws.induct)
  case (1 buf p)
  from 1(2) show ?case by (subst (asm) eat_ws.simps) (fastforce split: option.splits if_splits dest: 1(1) char_at_lt)
qed

lemma eat_alpha_numeric_ge: "eat_alpha_numeric buf p = Some q \<Longrightarrow> p \<le> q \<and> q < length buf"
proof (induction buf p rule: eat_alpha_numeric.induct)
  case (1 buf p)
  from 1(3) show ?case
    by (subst (asm) eat_alpha_numeric.simps) (fastforce split: option.splits if_splits dest: 1(1) 1(2) char_at_lt scan_esc_gt)
qed

text \<open>The end of the name of a section, \<open>Some None\<close> if there is no closing bracket.\<close>

function section_end :: "byte list \<Rightarrow> nat \<Rightarrow> nat option option" where
  "section_end buf ss =
     (case eat_alpha_numeric buf ss of
        None \<Rightarrow> None
      | Some e \<Rightarrow>
          (case eat_ws buf e of
             None \<Rightarrow> None
           | Some p \<Rightarrow>
               (case char_at buf p of
                  None \<Rightarrow> None
                | Some c \<Rightarrow>
                    if c \<noteq> 0x5d then (if c \<noteq> 0 \<and> ss \<noteq> p then section_end buf p else Some None)
                    else Some (Some e))))"
  by pat_completeness auto
termination
  by (relation "measure (\<lambda>(buf, p). length buf - p)") (fastforce dest: eat_ws_ge eat_alpha_numeric_ge)+

declare section_end.simps [simp del]

text \<open>The value found for a section, or a new one.\<close>

definition find_section :: "allocator \<Rightarrow> conf_st \<Rightarrow> byte list \<Rightarrow> conf_value option \<times> conf_st \<times> allocator" where
  "find_section al conf section =
     (case get_section conf section of
        Some sv \<Rightarrow> (Some sv, conf, al)
      | None \<Rightarrow> NCONF_new_section al conf section)"

definition parse_section :: "allocator \<Rightarrow> load_state \<Rightarrow> byte list \<Rightarrow> nat \<Rightarrow> (load_result \<times> load_state \<times> allocator) option" where
  "parse_section al st buf s =
     do {
       start \<leftarrow> eat_ws buf (s + 1);
       e \<leftarrow> section_end buf start;
       (case e of
          None \<Rightarrow> Some (Load_error CONF_R_MISSING_CLOSE_SQUARE_BRACKET, st, al)
        | Some e \<Rightarrow>
            do {
              (r, al1) \<leftarrow> str_copy al (ld_conf st) None (buf[e := 0]) start;
              (case r of
                 Inl err \<Rightarrow> Some (Load_error err, st, al1)
               | Inr section \<Rightarrow>
                   (case find_section al1 (ld_conf st) section of
                      (None, conf, al2) \<Rightarrow> Some (Load_error CONF_R_UNABLE_TO_CREATE_NEW_SECTION, st\<lparr>ld_conf := conf, ld_section := section\<rparr>, al2)
                    | (Some sv, conf, al2) \<Rightarrow> Some (Load_next, st\<lparr>ld_conf := conf, ld_section := section, ld_sv := sv\<rparr>, al2)))
            })
     }"

text \<open>The first NUL from \<open>p\<close> on, and the way back over white space, to \<open>start\<close> at most.\<close>

function find_eof :: "byte list \<Rightarrow> nat \<Rightarrow> nat option" where
  "find_eof buf p = (case char_at buf p of None \<Rightarrow> None | Some c \<Rightarrow> if \<not> IS_EOF c then find_eof buf (p + 1) else Some p)"
  by pat_completeness auto
termination by (relation "measure (\<lambda>(buf, p). length buf - p)") (auto simp: char_at_def split: if_splits)

declare find_eof.simps [simp del]

fun back_ws :: "byte list \<Rightarrow> nat \<Rightarrow> nat \<Rightarrow> nat option" where
  "back_ws buf start 0 =
     (if 0 = start then Some 0 else (case char_at buf 0 of None \<Rightarrow> None | Some c \<Rightarrow> if IS_WS c then None else Some 0))"
| "back_ws buf start (Suc p) =
     (if Suc p = start then Some (Suc p)
      else (case char_at buf (Suc p) of None \<Rightarrow> None | Some c \<Rightarrow> if IS_WS c then back_ws buf start p else Some (Suc p)))"

text \<open>Storing a value: \<open>pname\<close>, \<open>start\<close> and \<open>psection\<close> are offsets in the line.\<close>

definition store_value ::
  "allocator \<Rightarrow> load_state \<Rightarrow> byte list \<Rightarrow> nat option \<Rightarrow> nat \<Rightarrow> nat \<Rightarrow> (load_result \<times> load_state \<times> allocator) option" where
  "store_value al st buf psection0 pname start =
     (let conf = ld_conf st; section = ld_section st in
      case CONF_VALUE_new al (of_nat (conf_next conf)) of
        (None, al1) \<Rightarrow> Some (Load_error CONF_MALLOC_FAILURE, st, al1)
      | (Some v0, al1) \<Rightarrow>
          (let conf1 = conf\<lparr>conf_next := conf_next conf + 1\<rparr>;
               psection = (case psection0 of None \<Rightarrow> section | Some p \<Rightarrow> drop p buf) in
           case OPENSSL_strdup al1 (Some (drop pname buf)) of
             (None, al2) \<Rightarrow> Some (Load_error CONF_MALLOC_FAILURE, st\<lparr>ld_conf := conf1\<rparr>, al2)
           | (Some name, al2) \<Rightarrow>
               (case str_copy al2 conf1 (Some psection) buf start of
                  None \<Rightarrow> None
                | Some (Inl err, al3) \<Rightarrow> Some (Load_error err, st\<lparr>ld_conf := conf1\<rparr>, al3)
                | Some (Inr text, al3) \<Rightarrow>
                    (let v = v0\<lparr>cv_name := Some name, cv_value := Some (Text text)\<rparr> in
                     case (if c_strcmp psection section \<noteq> 0 then find_section al3 conf1 psection else (Some (ld_sv st), conf1, al3)) of
                       (None, conf2, al4) \<Rightarrow> Some (Load_error CONF_R_UNABLE_TO_CREATE_NEW_SECTION, st\<lparr>ld_conf := conf2\<rparr>, al4)
                     | (Some tv, conf2, al4) \<Rightarrow>
                         (case add_string al4 conf2 tv v of
                            (ok, conf3, al5) \<Rightarrow>
                              Some (if ok then Load_next else Load_error CONF_MALLOC_FAILURE, st\<lparr>ld_conf := conf3\<rparr>, al5))))))"

definition parse_assign :: "allocator \<Rightarrow> load_state \<Rightarrow> byte list \<Rightarrow> nat \<Rightarrow> (load_result \<times> load_state \<times> allocator) option" where
  "parse_assign al st buf s =
     do {
       e0 \<leftarrow> eat_alpha_numeric buf s;
       c0 \<leftarrow> char_at buf e0;
       c1 \<leftarrow> (if c0 = 0x3a then char_at buf (e0 + 1) else Some 0);
       (psection, pname, e, buf1) \<leftarrow>
         (if c0 = 0x3a \<and> c1 = 0x3a then
            (let buf1 = buf[e0 := 0] in
             do { e1 \<leftarrow> eat_alpha_numeric buf1 (e0 + 2); Some (Some s, e0 + 2, e1, buf1) })
          else Some (None, s, e0, buf));
       p \<leftarrow> eat_ws buf1 e;
       c \<leftarrow> char_at buf1 p;
       if c \<noteq> 0x3d then Some (Load_error CONF_R_MISSING_EQUAL_SIGN, st, al)
       else
         (let buf2 = buf1[e := 0] in
          do {
            start \<leftarrow> eat_ws buf2 (p + 1);
            q \<leftarrow> find_eof buf2 (p + 1);
            q1 \<leftarrow> back_ws buf2 start (q - 1);
            store_value al st (buf2[q1 + 1 := 0]) psection pname start
          })
     }"

definition parse_line :: "allocator \<Rightarrow> load_state \<Rightarrow> (load_result \<times> load_state \<times> allocator) option" where
  "parse_line al st0 =
     do {
       d \<leftarrow> buf_data (ld_buff st0);
       buf \<leftarrow> clear_comments d 0;
       let st = st0\<lparr>ld_bufnum := 0, ld_buff := (ld_buff st0)\<lparr>buf_data := Some buf\<rparr>\<rparr>;
       s \<leftarrow> eat_ws buf 0;
       c \<leftarrow> char_at buf s;
       if IS_EOF c then Some (Load_next, st, al)
       else if c = 0x5b then parse_section al st buf s
       else parse_assign al st buf s
     }"

section \<open>The main loop\<close>

partial_function (option) load_loop ::
  "('s \<Rightarrow> int \<Rightarrow> int \<times> byte list \<times> 's) \<Rightarrow> allocator \<Rightarrow> 's \<Rightarrow> load_state \<Rightarrow> (load_result \<times> load_state \<times> 's \<times> allocator) option" where
  "load_loop gets al s st =
     Option.bind (read_chunk gets al s st)
       (\<lambda>(r, st1, s1, al1).
          if r \<noteq> Load_next then Some (r, st1, s1, al1)
          else if ld_again st1 then load_loop gets al1 s1 st1
          else
            Option.bind (parse_line al1 st1)
              (\<lambda>(r2, st2, al2). if r2 \<noteq> Load_next then Some (r2, st2, s1, al2) else load_loop gets al2 s1 st2))"

text \<open>The result: the error and the line it is in, or success, and the configuration.\<close>

definition def_load_bio ::
  "('s \<Rightarrow> int \<Rightarrow> int \<times> byte list \<times> 's) \<Rightarrow> allocator \<Rightarrow> conf_st \<Rightarrow> 's \<Rightarrow> ((conf_error \<times> nat) option \<times> conf_st \<times> 's \<times> allocator) option" where
  "def_load_bio gets al conf s =
     (case BUF_MEM_new al of
        (None, al1) \<Rightarrow> Some (Some (CONF_MALLOC_FAILURE, 0), conf, s, al1)
      | (Some buff, al1) \<Rightarrow>
          (case OPENSSL_strdup al1 (Some kDefaultSectionName) of
             (None, al2) \<Rightarrow> Some (Some (CONF_MALLOC_FAILURE, 0), conf, s, al2)
           | (Some section, al2) \<Rightarrow>
               (case NCONF_new_section al2 conf section of
                  (None, conf1, al3) \<Rightarrow> Some (Some (CONF_R_UNABLE_TO_CREATE_NEW_SECTION, 0), conf1, s, al3)
                | (Some sv, conf1, al3) \<Rightarrow>
                    (case load_loop gets al3 s
                            \<lparr>ld_conf = conf1, ld_section = section, ld_sv = sv, ld_buff = buff, ld_bufnum = 0, ld_again = False, ld_line = 0\<rparr> of
                       None \<Rightarrow> None
                     | Some (r, st, s', al4) \<Rightarrow>
                         Some (case r of Load_error e \<Rightarrow> Some (e, ld_line st) | _ \<Rightarrow> None, ld_conf st, s', al4)))))"

definition NCONF_load_bio ::
  "('s \<Rightarrow> int \<Rightarrow> int \<times> byte list \<times> 's) \<Rightarrow> allocator \<Rightarrow> conf_st \<Rightarrow> 's \<Rightarrow> ((conf_error \<times> nat) option \<times> conf_st \<times> 's \<times> allocator) option" where
  "NCONF_load_bio gets al conf s = def_load_bio gets al conf s"

end
