(* ===== verification/Conf_Lines.thy ===== *)
theory Conf_Lines
  imports Conf_Load
begin

text \<open>
  What loading a configuration file does, line by line. A file is a list of lines: blank lines, comments,
  headers of sections and assignments. Its meaning is a map from sections and names to texts, or the error
  of the first line that has one; \<open>NCONF_load_bio\<close> computes it, whatever source the lines come from.
\<close>

section \<open>The scanners on a line\<close>

lemma char_at_pre [simp]: "char_at (pre @ c # post) (length pre) = Some c"
  by (simp add: char_at_def nth_append)

lemma eat_ws_at: "\<forall>c \<in> set ws. IS_WS c \<Longrightarrow> \<not> IS_WS c \<Longrightarrow> eat_ws (pre @ ws @ c # post) (length pre) = Some (length pre + length ws)"
proof (induction ws arbitrary: pre)
  case Nil
  then show ?case by (subst eat_ws.simps) simp
next
  case (Cons w ws)
  have "w \<noteq> 0" using Cons.prems(1) by (auto simp: class_WS)
  then show ?case using Cons.IH [of "pre @ [w]"] Cons.prems by (subst eat_ws.simps) simp
qed

lemma eat_ws_none: "\<not> IS_WS c \<Longrightarrow> eat_ws (pre @ c # post) (length pre) = Some (length pre)"
  using eat_ws_at [of "[]" c pre post] by simp

lemma eat_alnum_at:
  "\<forall>c \<in> set w. IS_ALPHA_NUMERIC_PUNCT c \<Longrightarrow> \<not> IS_ALPHA_NUMERIC_PUNCT c \<Longrightarrow> \<not> IS_ESC c \<Longrightarrow>
   eat_alpha_numeric (pre @ w @ c # post) (length pre) = Some (length pre + length w)"
proof (induction w arbitrary: pre)
  case Nil
  then show ?case by (subst eat_alpha_numeric.simps) simp
next
  case (Cons x w)
  have "\<not> IS_ESC x" using Cons.prems(1) class_ALNUM_PUNCT by auto
  then show ?case using Cons.IH [of "pre @ [x]"] Cons.prems by (subst eat_alpha_numeric.simps) simp
qed

lemma find_eof_at: "0 \<notin> set s \<Longrightarrow> find_eof (pre @ s @ 0 # post) (length pre) = Some (length pre + length s)"
proof (induction s arbitrary: pre)
  case Nil
  then show ?case by (subst find_eof.simps) simp
next
  case (Cons c s)
  then show ?case using Cons.IH [of "pre @ [c]"] by (subst find_eof.simps) auto
qed

text \<open>Text without comments, quotes, escapes and NULs.\<close>

definition plain :: "byte list \<Rightarrow> bool" where
  "plain s \<longleftrightarrow> (\<forall>c \<in> set s. \<not> IS_COMMENT c \<and> \<not> IS_QUOTE c \<and> \<not> IS_ESC c \<and> c \<noteq> 0)"

lemma class_0 [simp]: "\<not> IS_COMMENT 0" "\<not> IS_QUOTE 0" "\<not> IS_ESC 0" "\<not> IS_WS 0" "\<not> IS_ALPHA_NUMERIC_PUNCT 0"
  using class_ALNUM_PUNCT [of 0] by (auto simp: class_COMMENT class_QUOTE class_ESC class_WS)

lemma clear_rest_plain: "plain s \<Longrightarrow> clear_comments_rest (pre @ s @ 0 # post) (length pre) = Some (pre @ s @ 0 # post)"
proof (induction s arbitrary: pre)
  case Nil
  then show ?case by (subst clear_comments_rest.simps) simp
next
  case (Cons c s)
  then have "plain s" "\<not> IS_COMMENT c" "\<not> IS_QUOTE c" "\<not> IS_ESC c" "c \<noteq> 0" by (simp_all add: plain_def)
  then show ?case using Cons.IH [of "pre @ [c]"] by (subst clear_comments_rest.simps) simp
qed

lemma clear_start_plain:
  "clear_comments_start (pre @ s @ 0 # post) (length pre) = Some (Inr (length pre + length (takeWhile IS_WS s)))"
proof (induction s arbitrary: pre)
  case Nil
  then show ?case by (subst clear_comments_start.simps) simp
next
  case (Cons c s)
  then show ?case using Cons [of "pre @ [c]"] by (subst clear_comments_start.simps) simp
qed

lemma clear_comments_plain:
  assumes "plain s"
  shows "clear_comments (s @ 0 # post) 0 = Some (s @ 0 # post)"
proof -
  have s: "s = takeWhile IS_WS s @ dropWhile IS_WS s" by simp
  then have "plain (dropWhile IS_WS s)" using assms unfolding plain_def by (metis Un_iff set_append)
  from clear_rest_plain [OF this, of "takeWhile IS_WS s" post]
  have "clear_comments_rest (s @ 0 # post) (length (takeWhile IS_WS s)) = Some (s @ 0 # post)" by (metis append.assoc s)
  then show ?thesis using clear_start_plain [of "[]" s post] by (simp add: clear_comments_def)
qed

lemma clear_comments_comment: "clear_comments (0x23 # t) 0 = Some (0 # t)"
proof -
  have "clear_comments_start (0x23 # t) 0 = Some (Inr 0)" by (subst clear_comments_start.simps) (simp add: char_at_def class_WS)
  moreover have "clear_comments_rest (0x23 # t) 0 = Some (0 # t)" by (subst clear_comments_rest.simps) (simp add: char_at_def class_COMMENT)
  ultimately show ?thesis by (simp add: clear_comments_def)
qed

section \<open>Reading a line\<close>

lemma grow_line:
  assumes "buf_ok b" and "never_fails al"
  obtains b' al' d where "BUF_MEM_grow al b CONFBUFSIZE = (CONFBUFSIZE, b', al')" and "buf_ok b'" and "buf_data b' = Some d"
    and "CONFBUFSIZE \<le> length d" and "never_fails al'"
proof -
  obtain r b' al' where g: "BUF_MEM_grow al b CONFBUFSIZE = (r, b', al')" by (metis prod_cases3)
  have s: "CONFBUFSIZE < size_max1" "reserve_size CONFBUFSIZE + 8 < size_max1" by (simp_all add: CONFBUFSIZE_def size_max1_def reserve_size_def)
  have ok: "r = CONFBUFSIZE" "buf_ok b'" and c: "buf_contents b' = take CONFBUFSIZE (buf_contents b) @ replicate (CONFBUFSIZE - length (buf_contents b)) 0"
    using BUF_MEM_grow_spec [OF assms(1) s(1) g] s(2) assms(2) by auto
  have l: "length (buf_contents b') = CONFBUFSIZE" unfolding c by simp
  then obtain d where d: "buf_data b' = Some d" by (cases "buf_data b'") (auto simp: buf_contents_def CONFBUFSIZE_def)
  moreover have "CONFBUFSIZE \<le> length d" using l d by (simp add: buf_contents_def)
  ultimately show thesis using that g ok grow_keeps [OF g] assms(2) by simp
qed

lemma buf_ok_data: "buf_ok b \<Longrightarrow> buf_data b = Some d \<Longrightarrow> length d' = length d \<Longrightarrow> buf_ok (b\<lparr>buf_data := Some d'\<rparr>)"
  by (simp add: buf_ok_def)

text \<open>A line without its newline: no NUL, no carriage return, not too long, and not continued.\<close>

definition text_line :: "byte list \<Rightarrow> bool" where
  "text_line l \<longleftrightarrow> (\<forall>c \<in> set l. c \<noteq> 0 \<and> c \<noteq> 0x0d \<and> c \<noteq> 0x0a) \<and> length l \<le> 509 \<and> (l \<noteq> [] \<longrightarrow> last l \<noteq> 0x5c)"

lemma strip_eol_line:
  assumes "\<forall>c \<in> set l. c \<noteq> 0x0d \<and> c \<noteq> 0x0a"
  shows "strip_eol (l @ 0x0a # post) (Suc (length l)) = length l"
proof (cases l rule: rev_cases)
  case (snoc xs x)
  then have "(l @ 0x0a # post) ! length xs = x" "(l @ 0x0a # post) ! Suc (length xs) = 0x0a" by (simp_all add: nth_append)
  then show ?thesis using assms snoc by simp
qed simp

lemma line_bytes:
  assumes "text_line l" and "CONFBUFSIZE \<le> length d"
  obtains d1 d2 d3 post where "mem_store d 0 [0] = Some d1" and "mem_store d1 0 (l @ [0x0a, 0]) = Some d2" and "mem_store d2 (CONFBUFSIZE - 1) [0] = Some d3"
    and "c_strlen d3 = Suc (length l)" and "strip_eol d3 (Suc (length l)) = length l" and "mem_store d3 (length l) [0] = Some (l @ 0 # post)"
    and "length (l @ 0 # post) = length d"
proof -
  have n: "length l + 2 \<le> 511" "511 < length d" using assms by (simp_all add: text_line_def CONFBUFSIZE_def)
  define d1 where "d1 = 0 # drop 1 d"
  define d2 where "d2 = l @ [0x0a, 0] @ drop (length l + 2) d1"
  define d3 where "d3 = take 511 d2 @ [0] @ drop 512 d2"
  have 1: "mem_store d 0 [0] = Some d1" using n by (simp add: mem_store_def d1_def)
  have l1: "length d1 = length d" using n by (simp add: d1_def)
  have 2: "mem_store d1 0 (l @ [0x0a, 0]) = Some d2" using n l1 by (simp add: mem_store_def d2_def)
  have l2: "length d2 = length d" using n l1 by (simp add: d2_def)
  have 3: "mem_store d2 (CONFBUFSIZE - 1) [0] = Some d3" using n l2 by (simp add: mem_store_def d3_def CONFBUFSIZE_def)
  obtain k where k: "511 = length l + Suc (Suc k)" using n(1) by (metis add_2_eq_Suc' le_Suc_ex add.assoc add.commute)
  define r where "r = 0 # take k (drop (length l + 2) d1) @ [0] @ drop 512 d2"
  have d3: "d3 = l @ 0x0a # r" unfolding d3_def k by (simp add: d2_def r_def)
  have z: "0 \<notin> set (l @ [0x0a])" and eol: "\<forall>c \<in> set l. c \<noteq> 0x0d \<and> c \<noteq> 0x0a" using assms(1) by (auto simp: text_line_def)
  have 4: "c_strlen d3 = Suc (length l)" using c_strlen_append [OF z, of "tl r"] by (simp add: d3 r_def)
  have 5: "strip_eol d3 (Suc (length l)) = length l" unfolding d3 by (rule strip_eol_line [OF eol])
  have 6: "mem_store d3 (length l) [0] = Some (l @ 0 # r)" by (simp add: mem_store_def d3)
  have "length d3 = length d" using n l2 by (simp add: d3_def)
  then have "length (l @ 0 # r) = length d" by (simp add: d3)
  then show thesis using that 1 2 3 4 5 6 by blast
qed

text \<open>The state between two lines, in the section \<open>cur\<close>.\<close>

definition load_ok :: "load_state \<Rightarrow> byte list \<Rightarrow> bool" where
  "load_ok st cur \<longleftrightarrow> conf_inv (ld_conf st) \<and> 0 \<in> set (ld_section st) \<and> c_str (ld_section st) = cur \<and> ld_sv st \<in> conf_set (ld_conf st) \<and>
     is_section (ld_sv st) \<and> sec_of (ld_sv st) = Some cur \<and> buf_ok (ld_buff st) \<and> \<not> ld_again st \<and> ld_bufnum st = 0"

definition line_read :: "load_state \<Rightarrow> byte list \<Rightarrow> load_state \<Rightarrow> bool" where
  "line_read st l st' \<longleftrightarrow> (\<exists>b post. st' = st\<lparr>ld_buff := b, ld_bufnum := length l, ld_again := False, ld_line := ld_line st + 1\<rparr> \<and>
     buf_ok b \<and> buf_data b = Some (l @ 0 # post))"

context line_source
begin

lemma read_chunk_line:
  assumes st: "load_ok st cur" and l: "text_line l" and s: "line_inv s" "pending s = l @ 0x0a # rest" and "never_fails al"
  obtains st' s' al' where "read_chunk gets al s st = Some (Load_next, st', s', al')" and "line_read st l st'"
    and "line_inv s'" and "pending s' = rest" and "never_fails al'"
proof -
  obtain b al' d where g: "BUF_MEM_grow al (ld_buff st) CONFBUFSIZE = (CONFBUFSIZE, b, al')" "buf_ok b" "buf_data b = Some d"
      "CONFBUFSIZE \<le> length d" "never_fails al'"
    using grow_line [of "ld_buff st" al] st assms(5) by (auto simp: load_ok_def)
  obtain d1 d2 d3 post where d: "mem_store d 0 [0] = Some d1" "mem_store d1 0 (l @ [0x0a, 0]) = Some d2" "mem_store d2 (CONFBUFSIZE - 1) [0] = Some d3"
      "c_strlen d3 = Suc (length l)" "strip_eol d3 (Suc (length l)) = length l" "mem_store d3 (length l) [0] = Some (l @ 0 # post)"
      "length (l @ 0 # post) = length d"
    by (rule line_bytes [OF l g(4)])
  have sz: "int (length l) + 2 \<le> int CONFBUFSIZE - 1" "int CONFBUFSIZE - 1 \<le> int int_max" "0x0a \<notin> set l"
    using l by (auto simp: text_line_def CONFBUFSIZE_def int_max_def)
  obtain n s' where gs: "gets s (int CONFBUFSIZE - 1) = (n, l @ [0x0a, 0], s')" "line_inv s'" "pending s' = rest"
    by (rule gets_whole_line [OF s sz(3,1,2)])
  have esc: "char_at (l @ 0 # post) (length l - 1) = Some (last l) \<and> \<not> IS_ESC (last l)" if "l \<noteq> []"
    using l that by (auto simp: text_line_def class_ESC char_at_def last_conv_nth nth_append)
  have "read_chunk gets al s st = Some (Load_next, st\<lparr>ld_buff := b\<lparr>buf_data := Some (l @ 0 # post)\<rparr>, ld_bufnum := length l,
      ld_again := False, ld_line := ld_line st + 1\<rparr>, s', al')"
    using st g d gs esc unfolding read_chunk_def load_ok_def
    by (cases "l = []") (simp_all add: Let_def CONFBUFSIZE_def)
  moreover have "buf_ok (b\<lparr>buf_data := Some (l @ 0 # post)\<rparr>)" using buf_ok_data [OF g(2,3)] d(7) by simp
  ultimately show thesis using that [of _ s' al'] gs g(5) unfolding line_read_def by fastforce
qed

lemma read_chunk_end:
  assumes st: "load_ok st cur" and s: "line_inv s" "pending s = []" and "never_fails al"
  obtains b s' al' where "read_chunk gets al s st = Some (Load_done, st\<lparr>ld_buff := b\<rparr>, s', al')" and "line_inv s'" and "pending s' = []"
proof -
  obtain b al' d where g: "BUF_MEM_grow al (ld_buff st) CONFBUFSIZE = (CONFBUFSIZE, b, al')" "buf_ok b" "buf_data b = Some d"
      "CONFBUFSIZE \<le> length d" "never_fails al'"
    using grow_line [of "ld_buff st" al] st assms(4) by (auto simp: load_ok_def)
  have sz: "1 < int CONFBUFSIZE - 1" "int CONFBUFSIZE - 1 \<le> int int_max" by (simp_all add: CONFBUFSIZE_def int_max_def)
  obtain n s' where gs: "gets s (int CONFBUFSIZE - 1) = (n, [0], s')" "line_inv s'" "pending s' = []"
    by (rule gets_at_end [OF s sz])
  define d1 where "d1 = 0 # drop 1 d"
  define d3 where "d3 = take 511 d1 @ [0] @ drop 512 d1"
  have "512 \<le> length d" using g(4) by (simp add: CONFBUFSIZE_def)
  then have d: "mem_store d 0 [0] = Some d1" "mem_store d1 0 [0] = Some d1" "mem_store d1 (CONFBUFSIZE - 1) [0] = Some d3" "c_strlen d3 = 0"
    by (simp_all add: mem_store_def d1_def d3_def CONFBUFSIZE_def c_strlen_def)
  have "read_chunk gets al s st = Some (Load_done, st\<lparr>ld_buff := b\<lparr>buf_data := Some d3\<rparr>\<rparr>, s', al')"
    using st g d gs unfolding read_chunk_def load_ok_def by (simp add: Let_def CONFBUFSIZE_def)
  then show thesis using that gs by blast
qed

end

section \<open>Lines and their meaning\<close>

datatype conf_line =
    Blank_line "byte list"
  | Comment_line "byte list"
  | Section_line "byte list"
  | Value_line "byte list option" "byte list" "byte list"

fun line_text :: "conf_line \<Rightarrow> byte list" where
  "line_text (Blank_line ws) = ws"
| "line_text (Comment_line t) = 0x23 # t"
| "line_text (Section_line s) = 0x5b # s @ [0x5d]"
| "line_text (Value_line None n v) = n @ [0x3d] @ v"
| "line_text (Value_line (Some s) n v) = s @ [0x3a, 0x3a] @ n @ [0x3d] @ v"

definition file_text :: "conf_line list \<Rightarrow> byte list" where
  "file_text ls = concat (map (\<lambda>l. line_text l @ [0x0a]) ls)"

definition name_ok :: "byte list \<Rightarrow> bool" where
  "name_ok n \<longleftrightarrow> (\<forall>c \<in> set n. IS_ALPHA_NUMERIC_PUNCT c)"

text \<open>Values may refer to variables, and have no white space at the ends.\<close>

fun line_ok :: "conf_line \<Rightarrow> bool" where
  "line_ok (Blank_line ws) \<longleftrightarrow> text_line ws \<and> (\<forall>c \<in> set ws. IS_WS c)"
| "line_ok (Comment_line t) \<longleftrightarrow> text_line (0x23 # t)"
| "line_ok (Section_line s) \<longleftrightarrow> text_line (line_text (Section_line s)) \<and> name_ok s"
| "line_ok (Value_line so n v) \<longleftrightarrow> text_line (line_text (Value_line so n v)) \<and> (\<forall>s. so = Some s \<longrightarrow> name_ok s) \<and> name_ok n \<and> plain v \<and>
     (v \<noteq> [] \<longrightarrow> \<not> IS_WS (hd v) \<and> \<not> IS_WS (last v))"

type_synonym conf_map = "byte list \<Rightarrow> byte list \<Rightarrow> byte list option"

text \<open>The meaning of a line: it changes the map and the current section, or it is an error.\<close>

fun run_line :: "conf_line \<Rightarrow> conf_map \<times> byte list \<Rightarrow> conf_error + conf_map \<times> byte list" where
  "run_line (Blank_line _) mc = Inr mc"
| "run_line (Comment_line _) mc = Inr mc"
| "run_line (Section_line s) (m, cur) = Inr (m, s)"
| "run_line (Value_line so n v) (m, cur) =
     (let sec = (case so of None \<Rightarrow> cur | Some s \<Rightarrow> s) in
      case expand (\<lambda>so' n'. m (case so' of None \<Rightarrow> sec | Some s \<Rightarrow> s) n') (length v + 1) v of
        Inl e \<Rightarrow> Inl e
      | Inr t \<Rightarrow> Inr (m(sec := (m sec)(n := Some t)), cur))"

fun run_lines :: "conf_line list \<Rightarrow> nat \<Rightarrow> conf_map \<times> byte list \<Rightarrow> (conf_error \<times> nat) option \<times> conf_map" where
  "run_lines [] i mc = (None, fst mc)"
| "run_lines (l # ls) i mc =
     (case run_line l mc of Inl e \<Rightarrow> (Some (e, i + 1), fst mc) | Inr mc' \<Rightarrow> run_lines ls (i + 1) mc')"

text \<open>The map of a configuration, on strings without NULs.\<close>

definition conf_shows :: "conf_st \<Rightarrow> conf_map \<Rightarrow> bool" where
  "conf_shows conf m \<longleftrightarrow> (\<forall>sec name. 0 \<notin> set sec \<longrightarrow> 0 \<notin> set name \<longrightarrow> conf_text conf sec name = m sec name)"

lemma name_okD: "name_ok n \<Longrightarrow> 0 \<notin> set n \<and> plain n"
  using class_ALNUM_PUNCT by (fastforce simp: name_ok_def plain_def)

text \<open>The expansion depends only on variables whose names have no NUL.\<close>

lemma expand_cong:
  assumes look: "\<And>sec n. 0 \<notin> set n \<Longrightarrow> (\<forall>x. sec = Some x \<longrightarrow> 0 \<notin> set x) \<Longrightarrow> look sec n = look' sec n"
  shows "0 \<notin> set s \<Longrightarrow> expand look n s = expand look' n s"
proof (induction s arbitrary: n rule: length_induct)
  case (1 s)
  show ?case
  proof (cases s)
    case Nil
    then show ?thesis by (simp add: expand.simps)
  next
    case (Cons c t)
    have IH: "expand look m r = expand look' m r" if "length r < length s" "set r \<subseteq> set s" for r m
      using 1 that by blast
    consider (quote) "IS_QUOTE c" | (esc) "\<not> IS_QUOTE c" "IS_ESC c" | (var) "\<not> IS_QUOTE c" "\<not> IS_ESC c" "c = 0x24"
      | (plain) "\<not> IS_QUOTE c" "\<not> IS_ESC c" "c \<noteq> 0x24" by blast
    then show ?thesis
    proof cases
      case quote
      obtain o1 r where u: "unquote c t = (o1, r)" by fastforce
      have "set r \<subseteq> set s" "length r < length s" using unquote_set [of c t] unquote_shorter [OF u] u Cons by auto
      then show ?thesis using IH [of r n] Cons quote u by (simp add: expand.simps)
    next
      case esc
      have "expand look n (tl t) = expand look' n (tl t)" if "t \<noteq> []" using that Cons by (intro IH) (cases t; auto)+
      then show ?thesis using esc Cons by (cases t) (auto simp: expand.simps)
    next
      case var
      obtain q s1 where o: "var_open t = (q, s1)" by fastforce
      obtain sec name r where nm: "var_names s1 = (sec, name, r)" by (metis prod_cases3)
      have s: "s = var_head t sec @ name @ r" using ref_split [OF o nm] Cons var by simp
      have "set s1 \<subseteq> set t" using var_open_split [OF o] by (metis Un_upper2 set_append)
      then have "set (case sec of None \<Rightarrow> [] | Some x \<Rightarrow> x @ [0x3a, 0x3a]) \<subseteq> set s" "set name \<subseteq> set s"
        using var_names_split [OF nm] Cons by auto
      then have "look sec name = look' sec name" using 1(2) by (intro look) auto
      moreover have "expand look m r' = expand look' m r'" if "r' = r \<or> r' = tl r" for m r'
      proof (rule IH)
        show "set r' \<subseteq> set s" using that s by (cases r) auto
        show "length r' < length s" using that s by (auto simp: var_head_def)
      qed
      ultimately show ?thesis unfolding Cons expand.simps(2) using var o nm by (simp add: Let_def split: option.split)
    next
      case plain
      then show ?thesis using IH [of t n] Cons by (simp add: expand.simps(2) subset_iff)
    qed
  qed
qed

lemma conf_look_text:
  assumes "0 \<in> set ps" and "0 \<notin> set n" and "\<forall>x. so = Some x \<longrightarrow> 0 \<notin> set x"
  shows "conf_look conf (Some ps) so n = conf_text conf (case so of None \<Rightarrow> c_str ps | Some x \<Rightarrow> x) n"
proof (cases so)
  case None
  have "NCONF_get_string conf (Some ps) (n @ [0]) = NCONF_get_string conf (Some (c_str ps @ [0])) (n @ [0])"
    by (rule get_string_cong) (simp_all add: assms)
  then show ?thesis using None by (simp add: conf_look_def conf_text_def)
qed (simp add: conf_look_def conf_text_def)

lemma conf_expand:
  assumes "conf_shows conf m" and "0 \<in> set ps" and "0 \<notin> set v"
  shows "expand (conf_look conf (Some ps)) k v = expand (\<lambda>so n. m (case so of None \<Rightarrow> c_str ps | Some s \<Rightarrow> s) n) k v"
proof (rule expand_cong [OF _ assms(3)])
  fix so :: "byte list option" and n :: "byte list"
  assume a: "0 \<notin> set n" "\<forall>x. so = Some x \<longrightarrow> 0 \<notin> set x"
  have "0 \<notin> set (c_str ps)" by (auto simp: c_str_def dest: set_takeWhileD)
  then show "conf_look conf (Some ps) so n = m (case so of None \<Rightarrow> c_str ps | Some s \<Rightarrow> s) n"
    using conf_look_text [OF assms(2) a] assms(1) a by (auto simp: conf_shows_def split: option.split)
qed

section \<open>Sections and values\<close>

lemma conf_text_sections:
  assumes "conf_inv conf" and "conf_inv conf'" and "conf_set conf \<subseteq> conf_set conf'" and "\<forall>d \<in> conf_set conf' - conf_set conf. is_section d"
    and "conf_shows conf m"
  shows "conf_shows conf' m"
proof -
  have "conf_text conf' sec name = conf_text conf sec name" if z: "0 \<notin> set sec" "0 \<notin> set name" for sec name
  proof -
    have "conf_text conf' sec name = Some x \<longleftrightarrow> conf_text conf sec name = Some x" for x
    proof -
      have "v \<in> conf_set conf' \<longleftrightarrow> v \<in> conf_set conf" if "conf_key v = (Some sec, Some name)" for v
      proof -
        have "\<not> is_section v" using that by (auto simp: section_key)
        then show ?thesis using assms(3,4) by blast
      qed
      then show ?thesis unfolding conf_text_iff [OF assms(1) z] conf_text_iff [OF assms(2) z] by metis
    qed
    then show ?thesis by (metis not_None_eq)
  qed
  then show ?thesis using assms(5) by (simp add: conf_shows_def)
qed

lemma find_section_spec:
  assumes inv: "conf_inv conf" and s: "0 \<in> set s" "length (c_str s) < 2 ^ 40" and nf: "never_fails al" and nx: "conf_next conf < 2 ^ 58"
  obtains sv conf' al' where "find_section al conf s = (Some sv, conf', al')" and "never_fails al'" and "conf_inv conf'"
    and "sv \<in> conf_set conf'" and "is_section sv" and "sec_of sv = Some (c_str s)" and "conf_set conf \<subseteq> conf_set conf'"
    and "\<forall>d \<in> conf_set conf' - conf_set conf. is_section d \<and> cv_addr d = of_nat (conf_next conf)"
    and "conf_next conf \<le> conf_next conf'" and "conf_next conf' \<le> conf_next conf + 1"
proof (cases "get_section conf s")
  case None
  obtain sv conf' al' where n: "NCONF_new_section al conf s = (Some sv, conf', al')" "never_fails al'" "conf_inv conf'"
      "sv \<in> conf_set conf'" "is_section sv" "sec_of sv = Some (c_str s)" "conf_set conf' = insert sv (conf_set conf)"
      "conf_next conf' = conf_next conf + 1" "cv_addr sv = of_nat (conf_next conf)"
    by (rule NCONF_new_section_spec [OF inv s nf nx None])
  then show thesis using that [of sv conf' al'] None by (auto simp: find_section_def)
next
  case (Some sv)
  then show thesis using that [of sv conf al] inv nf get_section_iff [OF inv s(1), of sv] by (simp add: find_section_def)
qed

text \<open>What a line has done: the outcome \<open>er\<close> is its meaning, from the map \<open>m\<close>.\<close>

definition line_done :: "load_state \<Rightarrow> conf_map \<Rightarrow> conf_error + conf_map \<times> byte list \<Rightarrow> (load_result \<times> load_state \<times> allocator) option \<Rightarrow> bool" where
  "line_done st m er res \<longleftrightarrow>
     (\<exists>r st' al'. res = Some (r, st', al') \<and> never_fails al' \<and> ld_line st' = ld_line st \<and> buf_max (ld_buff st') = buf_max (ld_buff st) \<and>
       conf_next (ld_conf st') \<le> conf_next (ld_conf st) + 2 \<and>
       (case er of
          Inl e \<Rightarrow> r = Load_error e \<and> conf_inv (ld_conf st') \<and> conf_shows (ld_conf st') m
        | Inr (m', cur') \<Rightarrow> r = Load_next \<and> load_ok st' cur' \<and> conf_shows (ld_conf st') m'))"

lemma conf_shows_next [simp]: "conf_shows (conf\<lparr>conf_next := n\<rparr>) m = conf_shows conf m"
  by (simp add: conf_shows_def conf_text_def NCONF_get_string_def)

lemma conf_shows_add:
  assumes "conf_inv conf" and "conf_inv conf'" and "conf_set conf' = insert v {d \<in> conf_set conf. conf_key d \<noteq> conf_key v}"
    and "conf_key v = (Some s, Some n)" and "cv_value v = Some (Text t)" and "conf_shows conf m"
  shows "conf_shows conf' (m(s := (m s)(n := Some (c_str t))))"
  unfolding conf_shows_def using conf_text_add [OF assms(1-5)] assms(6) by (auto simp: conf_shows_def)

text \<open>An address that has just been taken is in use nowhere.\<close>

lemma fresh_addr:
  assumes inv: "conf_inv conf" and d: "d \<in> conf_set conf" and "conf_next conf < 2 ^ 58"
  shows "cv_addr d \<noteq> of_nat (conf_next conf)"
  using conf_invD(3) [OF inv d] assms(3) unat_next [of "conf_next conf"] by (auto simp: value_ok_def)

text \<open>The section that an assignment goes to.\<close>

lemma target_section:
  assumes st: "load_ok st cur" and nf: "never_fails al" and nx: "conf_next (ld_conf st) + 2 < 2 ^ 57" and ps: "0 \<in> set ps" "length (c_str ps) < 2 ^ 40"
  defines "conf1 \<equiv> (ld_conf st)\<lparr>conf_next := conf_next (ld_conf st) + 1\<rparr>"
  obtains tv conf2 al2 where
    "(if c_strcmp ps (ld_section st) \<noteq> 0 then find_section al conf1 ps else (Some (ld_sv st), conf1, al)) = (Some tv, conf2, al2)"
    and "never_fails al2" and "conf_inv conf2" and "tv \<in> conf_set conf2" and "is_section tv" and "sec_of tv = Some (c_str ps)"
    and "conf_set (ld_conf st) \<subseteq> conf_set conf2" and "conf_next conf2 \<le> conf_next (ld_conf st) + 2" and "conf_next (ld_conf st) < conf_next conf2"
    and "\<forall>d \<in> conf_set conf2 - conf_set (ld_conf st). is_section d \<and> cv_addr d = of_nat (conf_next (ld_conf st) + 1)"
proof (cases "c_strcmp ps (ld_section st) = 0")
  case True
  then have "c_str ps = cur" using st ps(1) by (simp add: load_ok_def c_strcmp_eq_0_iff)
  then show thesis using that [of "ld_sv st" conf1 al] True st nf conf_inv_next [of "ld_conf st"] by (simp add: load_ok_def conf1_def)
next
  case False
  have c1: "conf_inv conf1" "conf_next conf1 < 2 ^ 58" using conf_inv_next [of "ld_conf st"] st nx by (simp_all add: conf1_def load_ok_def)
  obtain sv conf' al' where f: "find_section al conf1 ps = (Some sv, conf', al')" "never_fails al'" "conf_inv conf'"
    "sv \<in> conf_set conf'" "is_section sv" "sec_of sv = Some (c_str ps)" "conf_set conf1 \<subseteq> conf_set conf'"
    "\<forall>d \<in> conf_set conf' - conf_set conf1. is_section d \<and> cv_addr d = of_nat (conf_next conf1)"
    "conf_next conf1 \<le> conf_next conf'" "conf_next conf' \<le> conf_next conf1 + 1"
    by (rule find_section_spec [OF c1(1) ps nf c1(2)])
  then show thesis using that [of sv conf' al'] False by (simp add: conf1_def)
qed

lemma store_value_spec:
  assumes st: "load_ok st cur" and m: "conf_shows (ld_conf st) m" and nf: "never_fails al" and nx: "conf_next (ld_conf st) + 2 < 2 ^ 57"
    and n: "0 \<in> set (drop pname buf)" "c_str (drop pname buf) = name" "length name < 2 ^ 40"
    and v: "buf = pre @ v @ 0 # post" "0 \<notin> set v" "length v < int_max"
    and ps: "case ps of None \<Rightarrow> True | Some p \<Rightarrow> 0 \<in> set (drop p buf) \<and> length (c_str (drop p buf)) < 2 ^ 40"
    and sec_def: "sec = (case ps of None \<Rightarrow> cur | Some p \<Rightarrow> c_str (drop p buf))"
  shows "line_done st m
    (case expand (\<lambda>so n. m (case so of None \<Rightarrow> sec | Some s \<Rightarrow> s) n) (length v + 1) v of
       Inl e \<Rightarrow> Inl e
     | Inr t \<Rightarrow> Inr (m(sec := (m sec)(name := Some t)), cur)) (store_value al st buf ps pname (length pre))"
proof -
  let ?conf = "ld_conf st" and ?k = "conf_next (ld_conf st)"
  define conf1 where "conf1 = ?conf\<lparr>conf_next := ?k + 1\<rparr>"
  define psec where "psec = (case ps of None \<Rightarrow> ld_section st | Some p \<Rightarrow> drop p buf)"
  note stD = st [unfolded load_ok_def]
  have inv: "conf_inv ?conf" and inv1: "conf_inv conf1" unfolding conf1_def using stD conf_inv_next by simp_all
  have m1: "conf_shows conf1 m" using m by (simp add: conf1_def)
  have "length cur < 2 ^ 40" using conf_invD(3) [OF inv, of "ld_sv st"] stD by (simp add: value_ok_def)
  then have psec: "0 \<in> set psec" "c_str psec = sec" "length (c_str psec) < 2 ^ 40"
    using stD ps by (auto simp: psec_def sec_def split: option.splits)
  obtain al1 where 1: "CONF_VALUE_new al (of_nat ?k) = (Some \<lparr>cv_addr = of_nat ?k, cv_section = None, cv_name = None, cv_value = None\<rparr>, al1)" "never_fails al1"
    using CONF_VALUE_new_total [OF nf] by blast
  have "c_strlen (drop pname buf) < 2 ^ 50" using n(2,3) by (simp add: c_strlen_def c_str_def)
  from strdup_total [OF 1(2) n(1) this] n(2) obtain nm al2
    where 2: "OPENSSL_strdup al1 (Some (drop pname buf)) = (Some nm, al2)" "c_str nm = name" "0 \<in> set nm" "never_fails al2" by metis
  define E where "E = expand (\<lambda>so n. m (case so of None \<Rightarrow> sec | Some s \<Rightarrow> s) n) (length v + 1) v"
  have E: "expand (conf_look conf1 (Some psec)) (length v + 1) v = E" unfolding E_def using conf_expand [OF m1 psec(1) v(2)] unfolding psec(2) by blast
  from str_copy_spec [OF conf_inv_texts [OF inv1] v, of al2 "Some psec"] 2(4) E
  obtain r al3 where 3: "str_copy al2 conf1 (Some psec) buf (length pre) = Some (r, al3)" "never_fails al3"
      "case E of Inl e \<Rightarrow> r = Inl e | Inr out \<Rightarrow> \<exists>junk. r = Inr (out @ 0 # junk) \<and> 0 \<notin> set out \<and> length out < 2 ^ 40" by auto
  have sv: "store_value al st buf ps pname (length pre) =
      (case r of Inl err \<Rightarrow> Some (Load_error err, st\<lparr>ld_conf := conf1\<rparr>, al3)
       | Inr text \<Rightarrow>
           (case (if c_strcmp psec (ld_section st) \<noteq> 0 then find_section al3 conf1 psec else (Some (ld_sv st), conf1, al3)) of
              (None, conf2, al4) \<Rightarrow> Some (Load_error CONF_R_UNABLE_TO_CREATE_NEW_SECTION, st\<lparr>ld_conf := conf2\<rparr>, al4)
            | (Some tv, conf2, al4) \<Rightarrow>
                (case add_string al4 conf2 tv \<lparr>cv_addr = of_nat ?k, cv_section = None, cv_name = Some nm, cv_value = Some (Text text)\<rparr> of
                   (ok, conf3, al5) \<Rightarrow> Some (if ok then Load_next else Load_error CONF_MALLOC_FAILURE, st\<lparr>ld_conf := conf3\<rparr>, al5))))"
    unfolding store_value_def Let_def psec_def [symmetric] conf1_def [symmetric] using 1(1) 2(1) 3(1)
    by (cases r) (simp_all split: option.split prod.split)
  show ?thesis
  proof (cases E)
    case (Inl e)
    then have "r = Inl e" using 3(3) by simp
    then show ?thesis using Inl 3(2) inv1 m1 unfolding sv E_def [symmetric] by (simp add: line_done_def) (simp add: conf1_def)
  next
    case (Inr t)
    then obtain junk where t: "r = Inr (t @ 0 # junk)" "0 \<notin> set t" "length t < 2 ^ 40" using 3(3) by auto
    let ?v = "\<lparr>cv_addr = of_nat ?k, cv_section = None, cv_name = Some nm, cv_value = Some (Text (t @ 0 # junk))\<rparr>"
    obtain tv conf2 al4 where 4: "(if c_strcmp psec (ld_section st) \<noteq> 0 then find_section al3 conf1 psec else (Some (ld_sv st), conf1, al3)) = (Some tv, conf2, al4)"
        "never_fails al4" "conf_inv conf2" "tv \<in> conf_set conf2" "is_section tv" "sec_of tv = Some (c_str psec)" "conf_set ?conf \<subseteq> conf_set conf2"
        "conf_next conf2 \<le> ?k + 2" "?k < conf_next conf2" "\<forall>d \<in> conf_set conf2 - conf_set ?conf. is_section d \<and> cv_addr d = of_nat (?k + 1)"
      unfolding conf1_def by (rule target_section [OF st 3(2) nx psec(1,3)])
    have un: "unat (of_nat ?k :: ptr) = ?k" "unat (of_nat (?k + 1) :: ptr) = ?k + 1" using nx by (intro unat_next; simp)+
    have "cv_addr d \<noteq> of_nat ?k" if "d \<in> conf_set conf2" for d
    proof (cases "d \<in> conf_set ?conf")
      case True
      then show ?thesis using fresh_addr [OF inv] nx by simp
    next
      case False
      then show ?thesis using 4(10) that un by (metis DiffI n_not_Suc_n Suc_eq_plus1)
    qed
    then have "of_nat ?k \<notin> cv_addr ` conf_set conf2" by (metis imageE)
    moreover have "(of_nat ?k :: ptr) \<noteq> 0" using un(1) conf_invD(2) [OF inv] by auto
    ultimately have ne: "new_entry conf2 ?v" using 2(3) t 4(9) un(1) by (simp add: new_entry_def c_str_append)
    have nv: "cv_name ?v = Some nm" "cv_value ?v = Some (Text (t @ 0 # junk))" by simp_all
    have nx2: "conf_next conf2 < 2 ^ 57" using 4(8) nx by simp
    obtain conf3 u al5 where 5: "add_string al4 conf2 tv ?v = (True, conf3, al5)" "never_fails al5" "conf_inv conf3"
      "conf_key u = (Some (c_str psec), Some (c_str nm))" "cv_value u = Some (Text (t @ 0 # junk))"
      "conf_set conf3 = insert u {d \<in> conf_set conf2. conf_key d \<noteq> conf_key u}" "conf_next conf3 = conf_next conf2"
      "sk_list (conf_stacks conf3 (section_stack_id tv)) =
        filter (\<lambda>a. \<forall>w \<in> conf_set conf2. conf_key w = conf_key u \<longrightarrow> a \<noteq> cv_addr w) (sk_list (conf_stacks conf2 (section_stack_id tv))) @ [cv_addr ?v]"
      by (rule add_string_spec [OF 4(3,4,5,6) ne nv 4(2) nx2])
    have "conf_shows conf2 m" using conf_text_sections [OF inv 4(3,7) _ m] 4(10) by blast
    from conf_shows_add [OF 4(3) 5(3,6,4,5) this]
    have "conf_shows conf3 (m(sec := (m sec)(name := Some t)))" using psec(2) 2(2) t(2) by (simp add: c_str_append)
    moreover have "ld_sv st \<in> conf_set conf3" using stD 4(7) 5(4) unfolding 5(6) by (auto simp: section_key)
    then have "load_ok (st\<lparr>ld_conf := conf3\<rparr>) cur" using stD 5(3) by (simp add: load_ok_def)
    ultimately show ?thesis using Inr 4(1,8) 5(1,2,7) t(1) unfolding sv E_def [symmetric] by (simp add: line_done_def)
  qed
qed

section \<open>Parsing a line\<close>

lemma WS_plain: "\<forall>c \<in> set ws. IS_WS c \<Longrightarrow> plain ws"
  by (auto simp: plain_def class_WS class_COMMENT class_QUOTE class_ESC)

lemma load_ok_buffer:
  "load_ok (st\<lparr>ld_bufnum := 0\<rparr>) cur \<Longrightarrow> buf_data (ld_buff st) = Some d \<Longrightarrow> length d' = length d \<Longrightarrow>
   load_ok (st\<lparr>ld_bufnum := 0, ld_buff := (ld_buff st)\<lparr>buf_data := Some d'\<rparr>\<rparr>) cur"
  by (simp add: load_ok_def buf_ok_data)

lemma line_done_same:
  assumes "load_ok st' cur" and "conf_shows (ld_conf st') m" and "never_fails al" and "ld_line st' = ld_line st" and "ld_conf st' = ld_conf st"
    and "buf_max (ld_buff st') = buf_max (ld_buff st)"
  shows "line_done st m (Inr (m, cur)) (Some (Load_next, st', al))"
  using assms by (simp add: line_done_def)

lemma line_done_from:
  "line_done st' m er res \<Longrightarrow> ld_line st' = ld_line st \<Longrightarrow> ld_conf st' = ld_conf st \<Longrightarrow>
   buf_max (ld_buff st') = buf_max (ld_buff st) \<Longrightarrow> line_done st m er res"
  by (simp add: line_done_def)

lemma parse_blank:
  assumes "load_ok (st\<lparr>ld_bufnum := 0\<rparr>) cur" and "buf_data (ld_buff st) = Some (ws @ 0 # post)" and "conf_shows (ld_conf st) m" and "never_fails al"
    and ws: "\<forall>c \<in> set ws. IS_WS c"
  shows "line_done st m (Inr (m, cur)) (parse_line al st)"
proof -
  have "eat_ws (ws @ 0 # post) 0 = Some (length ws)" using eat_ws_at [OF ws, of 0 "[]" post] by simp
  then have "parse_line al st = Some (Load_next, st\<lparr>ld_bufnum := 0, ld_buff := (ld_buff st)\<lparr>buf_data := Some (ws @ 0 # post)\<rparr>\<rparr>, al)"
    using clear_comments_plain [OF WS_plain [OF ws], of post] assms(2) by (simp add: parse_line_def)
  then show ?thesis using load_ok_buffer [OF assms(1,2) refl] assms(3,4) by (simp add: line_done_same)
qed

lemma parse_comment:
  assumes "load_ok (st\<lparr>ld_bufnum := 0\<rparr>) cur" and "buf_data (ld_buff st) = Some (0x23 # t)" and "conf_shows (ld_conf st) m" and "never_fails al"
  shows "line_done st m (Inr (m, cur)) (parse_line al st)"
proof -
  have "eat_ws (0 # t) 0 = Some 0" using eat_ws_none [of 0 "[]" t] by simp
  then have "parse_line al st = Some (Load_next, st\<lparr>ld_bufnum := 0, ld_buff := (ld_buff st)\<lparr>buf_data := Some (0 # t)\<rparr>\<rparr>, al)"
    using clear_comments_comment [of t] assms(2) by (simp add: parse_line_def char_at_def)
  moreover have "load_ok (st\<lparr>ld_bufnum := 0, ld_buff := (ld_buff st)\<lparr>buf_data := Some (0 # t)\<rparr>\<rparr>) cur"
    using load_ok_buffer [OF assms(1,2), of "0 # t"] by simp
  ultimately show ?thesis using assms(3,4) by (simp add: line_done_same)
qed

lemma expand_name: "name_ok s \<Longrightarrow> expand look k s = Inr s"
proof (induction s)
  case (Cons c s)
  then have "name_ok s" "IS_ALPHA_NUMERIC_PUNCT c" by (simp_all add: name_ok_def)
  then show ?case using Cons.IH class_ALNUM_PUNCT [of c] by (simp add: expand.simps(2) prepend_def)
qed (simp add: expand.simps)

lemma not_ALNUM_PUNCT [simp]: "\<not> IS_ALPHA_NUMERIC_PUNCT 0x3a" "\<not> IS_ALPHA_NUMERIC_PUNCT 0x3d" "\<not> IS_ALPHA_NUMERIC_PUNCT 0x5d"
  using class_ALNUM_PUNCT by blast+

lemma parse_section_spec:
  assumes st: "load_ok st cur" and m: "conf_shows (ld_conf st) m" and nf: "never_fails al" and nx: "conf_next (ld_conf st) + 2 < 2 ^ 57"
    and s: "name_ok s" "length s < 1000" and buf: "buf = 0x5b # s @ 0x5d # post"
  shows "line_done st m (Inr (m, s)) (parse_section al st buf 0)"
proof -
  obtain c r where c: "s @ 0x5d # post = c # r" "\<not> IS_WS c"
    using s(1) class_ALNUM_PUNCT by (cases s) (auto simp: name_ok_def class_WS)
  have b: "buf = [0x5b] @ s @ 0x5d # post" "buf = [0x5b] @ c # r" "buf = (0x5b # s) @ 0x5d # post" using buf c(1) by simp_all
  have 1: "eat_ws buf 1 = Some 1" unfolding b(2) using eat_ws_none [OF c(2), of "[0x5b]" r] by simp
  have "eat_alpha_numeric buf 1 = Some (1 + length s)"
    unfolding b(1) using eat_alnum_at [of s "0x5d" "[0x5b]" post] s(1) by (simp add: name_ok_def class_ESC)
  moreover have "eat_ws buf (1 + length s) = Some (1 + length s)"
    unfolding b(3) using eat_ws_none [of "0x5d" "0x5b # s" post] by (simp add: class_WS)
  moreover have "char_at buf (1 + length s) = Some 0x5d" unfolding b(3) by (simp add: char_at_def)
  ultimately have 2: "section_end buf 1 = Some (Some (1 + length s))" by (subst section_end.simps) simp
  have inv: "conf_inv (ld_conf st)" using st by (simp add: load_ok_def)
  have m3: "buf[1 + length s := 0] = [0x5b] @ s @ 0 # post" unfolding b(1) by (simp add: list_update_append)
  have z: "0 \<notin> set s" "length s < int_max" using name_okD [OF s(1)] s(2) by (simp_all add: int_max_def)
  from str_copy_spec [OF conf_inv_texts [OF inv] m3 z, of al None] nf expand_name [OF s(1)]
  obtain junk al1 where 3: "str_copy al (ld_conf st) None (buf[1 + length s := 0]) 1 = Some (Inr (s @ 0 # junk), al1)" "never_fails al1"
    by auto
  have sj: "0 \<in> set (s @ 0 # junk)" "c_str (s @ 0 # junk) = s" "length (c_str (s @ 0 # junk)) < 2 ^ 40" using z(1) s(2) by (simp_all add: c_str_append)
  have "conf_next (ld_conf st) < 2 ^ 58" using nx by simp
  then obtain sv conf' al' where f: "find_section al1 (ld_conf st) (s @ 0 # junk) = (Some sv, conf', al')" "never_fails al'" "conf_inv conf'"
    "sv \<in> conf_set conf'" "is_section sv" "sec_of sv = Some (c_str (s @ 0 # junk))" "conf_set (ld_conf st) \<subseteq> conf_set conf'"
    "\<forall>d \<in> conf_set conf' - conf_set (ld_conf st). is_section d \<and> cv_addr d = of_nat (conf_next (ld_conf st))"
    "conf_next (ld_conf st) \<le> conf_next conf'" "conf_next conf' \<le> conf_next (ld_conf st) + 1"
    by (rule find_section_spec [OF inv sj(1,3) 3(2)])
  have "conf_shows conf' m" using conf_text_sections [OF inv f(3,7) _ m] f(8) by blast
  moreover have "load_ok (st\<lparr>ld_conf := conf', ld_section := s @ 0 # junk, ld_sv := sv\<rparr>) s" using st f sj by (simp add: load_ok_def)
  moreover have "parse_section al st buf 0 = Some (Load_next, st\<lparr>ld_conf := conf', ld_section := s @ 0 # junk, ld_sv := sv\<rparr>, al')"
    using 1 2 3(1) f(1) by (simp add: parse_section_def)
  ultimately show ?thesis using f(2,10) by (simp add: line_done_def)
qed

lemma back_ws_stop: "char_at buf p = Some c \<Longrightarrow> \<not> IS_WS c \<Longrightarrow> back_ws buf start p = Some p"
  by (cases p) simp_all

definition value_text :: "byte list \<Rightarrow> bool" where
  "value_text v \<longleftrightarrow> plain v \<and> (v \<noteq> [] \<longrightarrow> \<not> IS_WS (hd v) \<and> \<not> IS_WS (last v))"

text \<open>The part of an assignment from the equal sign on.\<close>

lemma assign_tail:
  assumes v: "value_text v" and buf: "buf = pre @ 0x3d # v @ 0 # post"
  defines "e \<equiv> length pre" and "buf2 \<equiv> pre @ 0 # v @ 0 # post"
  shows "eat_ws buf e = Some e" and "char_at buf e = Some 0x3d" and "buf[e := 0] = buf2" and "eat_ws buf2 (e + 1) = Some (e + 1)"
    and "find_eof buf2 (e + 1) = Some (e + 1 + length v)" and "back_ws buf2 (e + 1) (e + length v) = Some (e + length v)"
    and "buf2[e + length v + 1 := 0] = buf2"
proof -
  show "eat_ws buf e = Some e" unfolding buf e_def by (rule eat_ws_none) (simp add: class_WS)
  show "char_at buf e = Some 0x3d" by (simp add: buf e_def)
  show "buf[e := 0] = buf2" by (simp add: buf e_def buf2_def)
  obtain c r where c: "v @ 0 # post = c # r" "\<not> IS_WS c" using v by (cases v) (auto simp: value_text_def)
  have b: "buf2 = (pre @ [0]) @ c # r" "buf2 = (pre @ [0]) @ v @ 0 # post" using c(1) by (simp_all add: buf2_def)
  show "eat_ws buf2 (e + 1) = Some (e + 1)" unfolding b(1) e_def using eat_ws_none [OF c(2), of "pre @ [0]" r] by simp
  have "0 \<notin> set v" using v by (auto simp: value_text_def plain_def)
  then show "find_eof buf2 (e + 1) = Some (e + 1 + length v)" unfolding b(2) e_def using find_eof_at [of v "pre @ [0]" post] by simp
  have "char_at buf2 (e + length v) = Some (last (0 # v))"
    unfolding buf2_def e_def by (cases v rule: rev_cases) (simp_all add: char_at_def nth_append)
  moreover have "\<not> IS_WS (last (0 # v))" using v by (auto simp: value_text_def)
  ultimately show "back_ws buf2 (e + 1) (e + length v) = Some (e + length v)" by (rule back_ws_stop)
  show "buf2[e + length v + 1 := 0] = buf2" by (simp add: buf2_def e_def list_update_append)
qed

lemma value_text_size: "value_text v \<Longrightarrow> 0 \<notin> set v"
  by (auto simp: value_text_def plain_def)

lemma parse_assign_plain:
  assumes st: "load_ok st cur" "conf_shows (ld_conf st) m" "never_fails al" "conf_next (ld_conf st) + 2 < 2 ^ 57"
    and n: "name_ok n" "length n < 1000" and v: "value_text v" "length v < 1000"
  shows "line_done st m (run_line (Value_line None n v) (m, cur)) (parse_assign al st (n @ 0x3d # v @ 0 # post) 0)"
proof -
  let ?buf = "n @ 0x3d # v @ 0 # post" and ?buf2 = "n @ 0 # v @ 0 # post"
  have e: "eat_alpha_numeric ?buf 0 = Some (length n)"
    using eat_alnum_at [of n "0x3d" "[]" "v @ 0 # post"] n(1) by (simp add: name_ok_def class_ESC)
  note tail = assign_tail [OF v(1) refl, of n post]
  have p: "parse_assign al st ?buf 0 = store_value al st ?buf2 None 0 (length n + 1)"
    using e tail by (simp add: parse_assign_def)
  have z: "0 \<notin> set v" "length v < int_max" using value_text_size [OF v(1)] v(2) by (simp_all add: int_max_def)
  have c: "c_str (drop 0 ?buf2) = n" using name_okD [OF n(1)] by (simp add: c_str_append)
  have "0 \<in> set (drop 0 ?buf2)" "length n < 2 ^ 40" using n(2) by simp_all
  from store_value_spec [OF st this(1) c this(2), of "n @ [0]" v post None cur] z show ?thesis unfolding p by simp
qed

lemma parse_assign_section:
  assumes st: "load_ok st cur" "conf_shows (ld_conf st) m" "never_fails al" "conf_next (ld_conf st) + 2 < 2 ^ 57"
    and s: "name_ok s" "length s < 1000" and n: "name_ok n" "length n < 1000" and v: "value_text v" "length v < 1000"
  shows "line_done st m (run_line (Value_line (Some s) n v) (m, cur)) (parse_assign al st (s @ 0x3a # 0x3a # n @ 0x3d # v @ 0 # post) 0)"
proof -
  let ?buf = "s @ 0x3a # 0x3a # n @ 0x3d # v @ 0 # post" and ?pre = "s @ 0 # 0x3a # n"
  let ?buf1 = "?pre @ 0x3d # v @ 0 # post" and ?buf2 = "?pre @ 0 # v @ 0 # post"
  have e0: "eat_alpha_numeric ?buf 0 = Some (length s)"
    using eat_alnum_at [of s "0x3a" "[]"] s(1) by (simp add: name_ok_def class_ESC)
  have c0: "char_at ?buf (length s) = Some 0x3a" "char_at ?buf (length s + 1) = Some 0x3a" by (simp_all add: char_at_def nth_append)
  have b1: "?buf[length s := 0] = ?buf1" by simp
  have e1: "eat_alpha_numeric ?buf1 (length s + 2) = Some (length ?pre)"
    using eat_alnum_at [of n "0x3d" "s @ [0, 0x3a]" "v @ 0 # post"] n(1) by (simp add: name_ok_def class_ESC)
  note tail = assign_tail [OF v(1) refl, of ?pre post]
  have p: "parse_assign al st ?buf 0 = store_value al st ?buf2 (Some 0) (length s + 2) (length ?pre + 1)"
    unfolding parse_assign_def using e0 c0 e1 tail b1 by (simp add: Let_def)
  have z: "0 \<notin> set v" "length v < int_max" using value_text_size [OF v(1)] v(2) by (simp_all add: int_max_def)
  have cn: "drop (length s + 2) ?buf2 = n @ 0 # v @ 0 # post" by simp
  have c: "c_str (drop 0 ?buf2) = s" "c_str (drop (length s + 2) ?buf2) = n" unfolding cn using name_okD s(1) n(1) by (simp_all add: c_str_append)
  have "0 \<in> set (drop (length s + 2) ?buf2)" "length n < 2 ^ 40" using n(2) unfolding cn by simp_all
  note store = store_value_spec [OF st this(1) c(2) this(2), of "?pre @ [0]" v post "Some 0" s]
  have ps: "0 \<in> set (drop 0 ?buf2) \<and> length (c_str (drop 0 ?buf2)) < 2 ^ 40" unfolding c using s(2) by simp
  have "line_done st m
    (case expand (\<lambda>so n. m (case so of None \<Rightarrow> s | Some s \<Rightarrow> s) n) (length v + 1) v of
       Inl e \<Rightarrow> Inl e | Inr t \<Rightarrow> Inr (m(s := (m s)(n := Some t)), cur)) (store_value al st ?buf2 (Some 0) (length s + 2) (length (?pre @ [0])))"
    by (rule store) (use z ps c(1) in simp_all)
  then show ?thesis unfolding p by simp
qed

lemma parse_line_spec:
  assumes st: "load_ok (st\<lparr>ld_bufnum := 0\<rparr>) cur" and d: "buf_data (ld_buff st) = Some (line_text l @ 0 # post)" and m: "conf_shows (ld_conf st) m"
    and nf: "never_fails al" and nx: "conf_next (ld_conf st) + 2 < 2 ^ 57" and l: "line_ok l"
  shows "line_done st m (run_line l (m, cur)) (parse_line al st)"
proof -
  let ?t = "line_text l" and ?st = "st\<lparr>ld_bufnum := 0, ld_buff := (ld_buff st)\<lparr>buf_data := Some (line_text l @ 0 # post)\<rparr>\<rparr>"
  have st': "load_ok ?st cur" "conf_shows (ld_conf ?st) m" "conf_next (ld_conf ?st) + 2 < 2 ^ 57"
    using load_ok_buffer [OF st d refl] m nx by simp_all
  have head: "parse_line al st = (if c = 0x5b then parse_section al ?st (?t @ 0 # post) 0 else parse_assign al ?st (?t @ 0 # post) 0)"
    if "plain ?t" "?t = c # r" "\<not> IS_WS c" for c r
  proof -
    have "eat_ws (?t @ 0 # post) 0 = Some 0" using eat_ws_none [OF that(3), of "[]" "r @ 0 # post"] that(2) by simp
    moreover have "c \<noteq> 0" using that(1,2) by (simp add: plain_def)
    moreover have "char_at (?t @ 0 # post) 0 = Some c" using that(2) by (simp add: char_at_def)
    ultimately show ?thesis using clear_comments_plain [OF that(1), of post] d by (simp add: parse_line_def)
  qed
  show ?thesis
  proof (cases l)
    case (Blank_line ws)
    then show ?thesis using parse_blank [OF st _ m nf, of ws post] d l by simp
  next
    case (Comment_line t)
    then show ?thesis using parse_comment [OF st _ m nf] d by simp
  next
    case (Section_line s)
    then have s: "name_ok s" "length s < 1000" using l by (simp_all add: text_line_def)
    have "plain ?t" using name_okD [OF s(1)] Section_line by (auto simp: plain_def class_COMMENT class_QUOTE class_ESC)
    then have "parse_line al st = parse_section al ?st (?t @ 0 # post) 0" using head [of "0x5b"] Section_line by (simp add: class_WS)
    then show ?thesis using parse_section_spec [OF st'(1,2) nf st'(3) s, of "?t @ 0 # post"] Section_line line_done_from [of ?st m _ _ st] by simp
  next
    case (Value_line so n v)
    then have v: "value_text v" "name_ok n" "\<forall>s. so = Some s \<longrightarrow> name_ok s" and len: "length ?t < 1000"
      using l by (simp_all add: value_text_def text_line_def)
    have pl: "plain v" "plain n" "\<forall>s. so = Some s \<longrightarrow> plain s" using v name_okD by (auto simp: value_text_def)
    have "plain ?t" using pl Value_line by (cases so) (auto simp: plain_def class_COMMENT class_QUOTE class_ESC)
    moreover obtain c r where c: "?t = c # r" "\<not> IS_WS c" "c \<noteq> 0x5b"
    proof -
      have name: "\<not> IS_WS c \<and> c \<noteq> 0x5b" if "name_ok (c # n')" for c n' using that class_ALNUM_PUNCT [of c] by (auto simp: name_ok_def)
      show thesis
      proof (cases so)
        case None
        then show thesis using that v(2) name Value_line by (cases n) (auto simp: class_WS)
      next
        case (Some s)
        then show thesis using that v(3) name Value_line by (cases s) (auto simp: class_WS)
      qed
    qed
    ultimately have p: "parse_line al st = parse_assign al ?st (?t @ 0 # post) 0" using head [of c r] by simp
    have "line_done ?st m (run_line l (m, cur)) (parse_assign al ?st (?t @ 0 # post) 0)"
    proof (cases so)
      case None
      then show ?thesis using parse_assign_plain [OF st'(1,2) nf st'(3) v(2) _ v(1), of post] len Value_line by simp
    next
      case (Some s)
      then show ?thesis using parse_assign_section [OF st'(1,2) nf st'(3) _ _ v(2) _ v(1), of s post] v(3) len Value_line by simp
    qed
    then show ?thesis unfolding p by (rule line_done_from) simp_all
  qed
qed

section \<open>The loop\<close>

lemma line_ok_text: "line_ok l \<Longrightarrow> text_line (line_text l)"
  by (cases l) (simp_all)

text \<open>What comes before the loop.\<close>

lemma load_start:
  assumes inv: "conf_inv conf" and new: "get_section conf kDefaultSectionName = None" and m: "conf_shows conf m" and nf: "never_fails al"
    and nx: "conf_next conf < 2 ^ 58"
  obtains st al' where "NCONF_load_bio gets al conf s = (case load_loop gets al' s st of None \<Rightarrow> None
      | Some (r, st', s', al4) \<Rightarrow> Some (case r of Load_error e \<Rightarrow> Some (e, ld_line st') | _ \<Rightarrow> None, ld_conf st', s', al4))"
    and "load_ok st (c_str kDefaultSectionName)" and "conf_shows (ld_conf st) m" and "never_fails al'" and "ld_line st = 0"
    and "conf_next (ld_conf st) = conf_next conf + 1" and "buf_max (ld_buff st) = 0"
proof -
  let ?d = kDefaultSectionName
  obtain bo al1 where b: "BUF_MEM_new al = (bo, al1)" by fastforce
  then have b0: "bo = Some \<lparr>buf_length = 0, buf_data = None, buf_max = 0\<rparr>" "never_fails al1" using BUF_MEM_new_cases [OF b] nf by simp_all
  have d: "0 \<in> set ?d" "c_strlen ?d < 2 ^ 50" "length (c_str ?d) < 2 ^ 40" by (simp_all add: kDefaultSectionName_def c_strlen_def c_str_def)
  from strdup_total [OF b0(2) d(1,2)] obtain t al2 where 2: "OPENSSL_strdup al1 (Some ?d) = (Some t, al2)" "c_str t = c_str ?d" "0 \<in> set t" "never_fails al2" by metis
  have "get_section conf t = get_section conf ?d"
    using get_section_iff [OF inv 2(3)] get_section_iff [OF inv d(1)] 2(2) by (metis not_None_eq)
  then have none: "get_section conf t = None" using new by simp
  have tl: "length (c_str t) < 2 ^ 40" using 2(2) d(3) by simp
  obtain sv conf1 al3 where 3: "NCONF_new_section al2 conf t = (Some sv, conf1, al3)" "never_fails al3" "conf_inv conf1"
      "sv \<in> conf_set conf1" "is_section sv" "sec_of sv = Some (c_str t)" "conf_set conf1 = insert sv (conf_set conf)"
      "conf_next conf1 = conf_next conf + 1" "cv_addr sv = of_nat (conf_next conf)"
    by (rule NCONF_new_section_spec [OF inv 2(3) tl 2(4) nx none])
  let ?st = "\<lparr>ld_conf = conf1, ld_section = t, ld_sv = sv, ld_buff = \<lparr>buf_length = 0, buf_data = None, buf_max = 0\<rparr>, ld_bufnum = 0, ld_again = False, ld_line = 0\<rparr>"
  have "conf_set conf \<subseteq> conf_set conf1" "\<forall>d \<in> conf_set conf1 - conf_set conf. is_section d" using 3(5,7) by auto
  then have "conf_shows (ld_conf ?st) m" using conf_text_sections [OF inv 3(3) _ _ m] by simp
  moreover have "load_ok ?st (c_str ?d)" using 2(2,3) 3 by (simp add: load_ok_def buf_ok_def size_max1_def)
  ultimately show thesis using that [of al3 ?st] 3(2,8) b b0(1) 2(1) 3(1) by (simp add: NCONF_load_bio_def def_load_bio_def)
qed

context line_source
begin

lemma load_loop_lines:
  assumes "list_all line_ok ls" and "load_ok st cur" and "conf_shows (ld_conf st) m" and "never_fails al"
    and "conf_next (ld_conf st) + 2 * length ls < 2 ^ 57" and "line_inv s" and "pending s = file_text ls"
  shows "\<exists>r st' s' al'. load_loop gets al s st = Some (r, st', s', al') \<and> r \<noteq> Load_next \<and> conf_inv (ld_conf st') \<and>
    (case r of Load_error e \<Rightarrow> Some (e, ld_line st') | _ \<Rightarrow> None) = fst (run_lines ls (ld_line st) (m, cur)) \<and>
    conf_shows (ld_conf st') (snd (run_lines ls (ld_line st) (m, cur)))"
  using assms
proof (induction ls arbitrary: st cur m al s)
  case Nil
  have p: "pending s = []" using Nil.prems(7) by (simp add: file_text_def)
  obtain b s' al' where "read_chunk gets al s st = Some (Load_done, st\<lparr>ld_buff := b\<rparr>, s', al')"
    by (rule read_chunk_end [OF Nil.prems(2,6) p Nil.prems(4)])
  then show ?case using Nil.prems(2,3) by (subst load_loop.simps) (simp add: load_ok_def)
next
  case (Cons l ls)
  have l: "line_ok l" "list_all line_ok ls" using Cons.prems(1) by simp_all
  have p: "pending s = line_text l @ 0x0a # file_text ls" using Cons.prems(7) by (simp add: file_text_def)
  obtain st1 s1 al1 where r: "read_chunk gets al s st = Some (Load_next, st1, s1, al1)" "line_read st (line_text l) st1"
      "line_inv s1" "pending s1 = file_text ls" "never_fails al1"
    by (rule read_chunk_line [OF Cons.prems(2) line_ok_text [OF l(1)] Cons.prems(6) p Cons.prems(4)])
  obtain b post where b: "st1 = st\<lparr>ld_buff := b, ld_bufnum := length (line_text l), ld_again := False, ld_line := ld_line st + 1\<rparr>"
      "buf_ok b" "buf_data b = Some (line_text l @ 0 # post)" using r(2) by (auto simp: line_read_def)
  have st1: "load_ok (st1\<lparr>ld_bufnum := 0\<rparr>) cur" "buf_data (ld_buff st1) = Some (line_text l @ 0 # post)" "conf_shows (ld_conf st1) m"
      "conf_next (ld_conf st1) + 2 < 2 ^ 57" "ld_line st1 = ld_line st + 1" "ld_conf st1 = ld_conf st" "\<not> ld_again st1"
    using Cons.prems(2,3,5) b by (simp_all add: load_ok_def)
  have "line_done st1 m (run_line l (m, cur)) (parse_line al1 st1)" by (rule parse_line_spec [OF st1(1,2,3) r(5) st1(4) l(1)])
  then obtain res st2 al2 where pl: "parse_line al1 st1 = Some (res, st2, al2)" "never_fails al2" "ld_line st2 = ld_line st1"
      "conf_next (ld_conf st2) \<le> conf_next (ld_conf st1) + 2"
      "case run_line l (m, cur) of Inl e \<Rightarrow> res = Load_error e \<and> conf_inv (ld_conf st2) \<and> conf_shows (ld_conf st2) m
        | Inr (m', cur') \<Rightarrow> res = Load_next \<and> load_ok st2 cur' \<and> conf_shows (ld_conf st2) m'"
    by (auto simp: line_done_def)
  have step: "load_loop gets al s st = (if res \<noteq> Load_next then Some (res, st2, s1, al2) else load_loop gets al2 s1 st2)"
    using r(1) st1(7) pl(1) by (subst load_loop.simps) simp
  show ?case
  proof (cases "run_line l (m, cur)")
    case (Inl e)
    then show ?thesis using step pl st1(5) by simp
  next
    case (Inr mc)
    obtain m' cur' where mc: "mc = (m', cur')" by fastforce
    have 2: "load_ok st2 cur'" "conf_shows (ld_conf st2) m'" "res = Load_next" using pl(5) Inr mc by simp_all
    have nx: "conf_next (ld_conf st2) + 2 * length ls < 2 ^ 57" using pl(4) st1(6) Cons.prems(5) by simp
    show ?thesis using Cons.IH [OF l(2) 2(1,2) pl(2) nx r(3,4)] step 2(3) Inr mc pl(3) st1(5) by simp
  qed
qed

lemma NCONF_load_bio_lines:
  assumes inv: "conf_inv conf" and new: "get_section conf kDefaultSectionName = None" and m: "conf_shows conf m" and nf: "never_fails al"
    and nx: "conf_next conf + 2 * length ls + 1 < 2 ^ 57" and ls: "list_all line_ok ls" and s: "line_inv s" "pending s = file_text ls"
  shows "\<exists>conf' s' al'. NCONF_load_bio gets al conf s = Some (fst (run_lines ls 0 (m, c_str kDefaultSectionName)), conf', s', al') \<and>
    conf_inv conf' \<and> conf_shows conf' (snd (run_lines ls 0 (m, c_str kDefaultSectionName)))"
proof -
  have "conf_next conf < 2 ^ 58" using nx by simp
  from load_start [OF inv new m nf this, of gets s]
  obtain st al1 where st: "NCONF_load_bio gets al conf s = (case load_loop gets al1 s st of None \<Rightarrow> None
      | Some (r, st', s', al4) \<Rightarrow> Some (case r of Load_error e \<Rightarrow> Some (e, ld_line st') | _ \<Rightarrow> None, ld_conf st', s', al4))"
      "load_ok st (c_str kDefaultSectionName)" "conf_shows (ld_conf st) m" "never_fails al1" "ld_line st = 0" "conf_next (ld_conf st) = conf_next conf + 1"
    by blast
  have "conf_next (ld_conf st) + 2 * length ls < 2 ^ 57" using st(6) nx by simp
  from load_loop_lines [OF ls st(2,3,4) this s] show ?thesis unfolding st(1,5) by auto
qed

end

section \<open>Properties\<close>


text \<open>A BIO with the given bytes.\<close>

definition text_bio :: "byte list \<Rightarrow> mem_bio" where
  "text_bio bs = \<lparr>bio_init = 1, bio_shutdown = 1, bio_flags = 0, retry_reason = 0, bio_num = - 1,
     bio_ptr = Some \<lparr>mem_buf = \<lparr>buf_length = length bs, buf_data = Some bs, buf_max = length bs\<rparr>, mem_before = []\<rparr>, num_read = 0, num_write = 0\<rparr>"

lemma text_bio: "length bs < 1000 \<Longrightarrow> mem_inv (text_bio bs)" "BIO_mem_contents (text_bio bs) = bs"
  by (simp_all add: text_bio_def mem_inv_def BIO_mem_contents_def the_mem_def data_bytes_def rdonly_def buf_ok_def int_max_def size_max1_def)

lemma empty_conf_text: "conf_text empty_conf sec name = None"
  by (simp add: conf_text_def NCONF_get_string_def empty_conf_def OPENSSL_lh_retrieve_def get_next_ptr_and_hash_def slot_item_def Let_def)


end
