(* ===== verification/Conf_Safe.thy ===== *)
theory Conf_Safe
  imports Conf_Lines
begin

text \<open>
  The loader on arbitrary input: whatever the bytes of the file are, \<open>NCONF_load_bio\<close> returns, stays within its
  buffer, and leaves a configuration whose table and sections agree.
\<close>

section \<open>Parsing stays in the line\<close>

lemma nul_split:
  assumes "nul_ahead buf p"
  obtains v post where "buf = take p buf @ v @ 0 # post" and "0 \<notin> set v" and "length (take p buf) = p" and "c_str (drop p buf) = v" and "length v < length buf"
proof -
  obtain v post where v: "drop p buf = v @ 0 # post" "0 \<notin> set v" using assms split_list_first [of 0 "drop p buf"] by (auto simp: nul_ahead_def)
  have p: "p < length buf" using nul_ahead_char [OF assms] by simp
  then have b: "buf = take p buf @ v @ 0 # post" using append_take_drop_id [of p buf] v(1) by simp
  have "length v < length (drop p buf)" unfolding v(1) by simp
  also have "\<dots> \<le> length buf" by simp
  finally have "length v < length buf" .
  then show thesis using that [OF b v(2)] p v by (simp add: c_str_append)
qed

lemma section_end_safe:
  "nul_ahead buf ss \<Longrightarrow> \<exists>r. section_end buf ss = Some r \<and> (\<forall>e. r = Some e \<longrightarrow> e < length buf)"
proof (induction buf ss rule: section_end.induct)
  case (1 buf ss)
  obtain e where e: "eat_alpha_numeric buf ss = Some e" "ss \<le> e" "nul_ahead buf e" using eat_alpha_numeric_safe [OF 1(2)] by blast
  obtain p where p: "eat_ws buf e = Some p" "e \<le> p" "nul_ahead buf p" using eat_ws_safe [OF e(3)] by blast
  have c: "char_at buf p = Some (buf ! p)" "e < length buf" using nul_ahead_char [OF p(3)] p(2) by simp_all
  show ?case
    using 1(1) [OF e(1) p(1) c(1) _ _ p(3)] c(2) by (subst section_end.simps) (simp add: e(1) p(1) c(1))
qed

lemma find_eof_safe: "nul_ahead buf p \<Longrightarrow> \<exists>q. find_eof buf p = Some q \<and> p \<le> q \<and> q < length buf"
proof (induction buf p rule: find_eof.induct)
  case (1 buf p)
  have c: "char_at buf p = Some (buf ! p)" "p < length buf" using nul_ahead_char [OF 1(2)] by simp_all
  show ?case
    using 1(1) [OF c(1)] nul_ahead_Suc [OF 1(2)] c by (subst find_eof.simps) (auto intro: Suc_leD)
qed

lemma back_ws_safe: "j \<le> p \<Longrightarrow> p < length buf \<Longrightarrow> \<not> IS_WS (buf ! j) \<Longrightarrow> \<exists>q. back_ws buf start p = Some q \<and> q \<le> p"
proof (induction p)
  case 0
  then show ?case by (simp add: char_at_def)
next
  case (Suc p)
  then show ?case by (cases "j = Suc p") (auto simp: char_at_def intro: le_SucI)
qed

text \<open>What is left of the meaning of a line when it can be anything.\<close>

definition line_safe :: "load_state \<Rightarrow> (load_result \<times> load_state \<times> allocator) option \<Rightarrow> bool" where
  "line_safe st res \<longleftrightarrow> (\<exists>r st' al'. res = Some (r, st', al') \<and> never_fails al' \<and> conf_inv (ld_conf st') \<and>
     conf_next (ld_conf st') \<le> conf_next (ld_conf st) + 2 \<and> buf_max (ld_buff st') = buf_max (ld_buff st) \<and> (r = Load_next \<longrightarrow> (\<exists>cur. load_ok st' cur)))"

lemma line_done_safe:
  assumes "line_done st m er res"
  shows "line_safe st res"
proof -
  obtain r st' al' where d: "res = Some (r, st', al')" "never_fails al'" "conf_next (ld_conf st') \<le> conf_next (ld_conf st) + 2" "buf_max (ld_buff st') = buf_max (ld_buff st)"
      and c: "case er of Inl e \<Rightarrow> r = Load_error e \<and> conf_inv (ld_conf st') \<and> conf_shows (ld_conf st') m
        | Inr (m', cur') \<Rightarrow> r = Load_next \<and> load_ok st' cur' \<and> conf_shows (ld_conf st') m'"
    using assms by (auto simp: line_done_def)
  have "conf_inv (ld_conf st') \<and> (r = Load_next \<longrightarrow> (\<exists>cur. load_ok st' cur))"
  proof (cases er)
    case (Inr mc)
    then obtain m' cur' where "load_ok st' cur'" using c by (cases mc) auto
    then show ?thesis by (auto simp: load_ok_def)
  qed (use c in simp)
  then show ?thesis using d by (auto simp: line_safe_def)
qed

text \<open>\<open>str_copy\<close> on whatever string is there.\<close>

lemma str_copy_safe:
  assumes "conf_inv conf" and "never_fails al" and n: "nul_ahead buf p" and "length buf < int_max"
  obtains (error) err al' where "str_copy al conf sec buf p = Some (Inl err, al')" and "never_fails al'"
    | (ok) out junk al' where "str_copy al conf sec buf p = Some (Inr (out @ 0 # junk), al')" and "never_fails al'" and "0 \<notin> set out" and "length out < 2 ^ 40"
proof -
  obtain v post where v: "buf = take p buf @ v @ 0 # post" "0 \<notin> set v" "length (take p buf) = p" "length v < length buf" using n by (rule nul_split)
  have "length v < int_max" using v(4) assms(4) by simp
  from str_copy_spec [OF conf_inv_texts [OF assms(1)] v(1,2) this, of al sec]
  obtain r al' where r: "str_copy al conf sec buf p = Some (r, al')" "never_fails al'"
      "case expand (conf_look conf sec) (length v + 1) v of Inl e \<Rightarrow> r = Inl e
       | Inr out \<Rightarrow> \<exists>junk. r = Inr (out @ 0 # junk) \<and> 0 \<notin> set out \<and> length out < 2 ^ 40"
    unfolding v(3) using assms(2) by auto
  show thesis
  proof (cases r)
    case (Inl err)
    then show thesis using error r by simp
  next
    case (Inr t)
    then obtain out junk where "r = Inr (out @ 0 # junk)" "0 \<notin> set out" "length out < 2 ^ 40"
      using r(3) by (cases "expand (conf_look conf sec) (length v + 1) v") auto
    then show thesis using ok r by simp
  qed
qed

lemma line_safe_error: "conf_inv (ld_conf st) \<Longrightarrow> never_fails al \<Longrightarrow> r \<noteq> Load_next \<Longrightarrow> line_safe st (Some (r, st, al))"
  by (simp add: line_safe_def)

lemma parse_section_safe:
  assumes st: "load_ok st cur" and nf: "never_fails al" and nx: "conf_next (ld_conf st) + 2 < 2 ^ 57"
    and buf: "nul_ahead buf (s + 1)" "length buf < int_max"
  shows "line_safe st (parse_section al st buf s)"
proof -
  have inv: "conf_inv (ld_conf st)" using st by (simp add: load_ok_def)
  obtain start where 1: "eat_ws buf (s + 1) = Some start" "nul_ahead buf start" using eat_ws_safe [OF buf(1)] by blast
  obtain eo where 2: "section_end buf start = Some eo" using section_end_safe [OF 1(2)] by blast
  show ?thesis
  proof (cases eo)
    case None
    then show ?thesis using 1 2 line_safe_error [OF inv nf] by (simp add: parse_section_def)
  next
    case (Some e)
    have b: "nul_ahead (buf[e := 0]) start" "length (buf[e := 0]) < int_max" using nul_ahead_update [OF 1(2)] buf(2) by simp_all
    from inv nf b show ?thesis
    proof (cases rule: str_copy_safe [where sec = None])
      case (error err al1)
      then show ?thesis using 1 2 Some line_safe_error [OF inv] by (simp add: parse_section_def)
    next
      case (ok out junk al1)
      have sj: "0 \<in> set (out @ 0 # junk)" "c_str (out @ 0 # junk) = out" "length (c_str (out @ 0 # junk)) < 2 ^ 40" using ok by (simp_all add: c_str_append)
      have nx': "conf_next (ld_conf st) < 2 ^ 58" using nx by simp
      obtain sv conf' al' where f: "find_section al1 (ld_conf st) (out @ 0 # junk) = (Some sv, conf', al')" "never_fails al'" "conf_inv conf'"
        "sv \<in> conf_set conf'" "is_section sv" "sec_of sv = Some (c_str (out @ 0 # junk))" "conf_set (ld_conf st) \<subseteq> conf_set conf'"
        "\<forall>d \<in> conf_set conf' - conf_set (ld_conf st). is_section d \<and> cv_addr d = of_nat (conf_next (ld_conf st))"
        "conf_next (ld_conf st) \<le> conf_next conf'" "conf_next conf' \<le> conf_next (ld_conf st) + 1"
        by (rule find_section_spec [OF inv sj(1,3) ok(2) nx'])
      have "load_ok (st\<lparr>ld_conf := conf', ld_section := out @ 0 # junk, ld_sv := sv\<rparr>) out" using st f sj by (simp add: load_ok_def)
      then show ?thesis using 1 2 Some ok(1) f by (auto simp: parse_section_def line_safe_def)
    qed
  qed
qed

lemma store_value_safe:
  assumes st: "load_ok st cur" and nf: "never_fails al" and nx: "conf_next (ld_conf st) + 2 < 2 ^ 57" and len: "length buf < int_max"
    and "nul_ahead buf pname" and "nul_ahead buf start" and "case ps of None \<Rightarrow> True | Some p \<Rightarrow> nul_ahead buf p"
  shows "line_safe st (store_value al st buf ps pname start)"
proof -
  have l40: "int_max < 2 ^ 40" by (simp add: int_max_def)
  have cs: "0 \<in> set (drop p buf)" "length (c_str (drop p buf)) < 2 ^ 40" if n: "nul_ahead buf p" for p
  proof -
    show "0 \<in> set (drop p buf)" using n by (simp add: nul_ahead_def)
    obtain w where "c_str (drop p buf) = w" "length w < length buf" using n by (rule nul_split)
    then show "length (c_str (drop p buf)) < 2 ^ 40" using len l40 by simp
  qed
  obtain v post where v: "buf = take start buf @ v @ 0 # post" "0 \<notin> set v" "length (take start buf) = start" "length v < length buf"
    using assms(6) by (rule nul_split)
  have vl: "length v < int_max" using v(4) len by simp
  have "conf_shows (ld_conf st) (conf_text (ld_conf st))" by (simp add: conf_shows_def)
  moreover have "case ps of None \<Rightarrow> True | Some p \<Rightarrow> 0 \<in> set (drop p buf) \<and> length (c_str (drop p buf)) < 2 ^ 40"
    using assms(7) cs by (simp split: option.splits)
  ultimately have "line_safe st (store_value al st buf ps pname (length (take start buf)))"
    by (intro line_done_safe [OF store_value_spec [OF st _ nf nx cs(1) [OF assms(5)] refl cs(2) [OF assms(5)] v(1,2) vl _ refl]])
  then show ?thesis unfolding v(3) .
qed

text \<open>The name of an assignment, with its section if one is given.\<close>

lemma assign_name_safe:
  assumes "nul_ahead buf s"
  obtains e0 c0 c1 psection pname e buf1 where "eat_alpha_numeric buf s = Some e0" and "char_at buf e0 = Some c0"
    and "(if c0 = 0x3a then char_at buf (e0 + 1) else Some 0) = Some c1"
    and "(if c0 = 0x3a \<and> c1 = 0x3a then
            (let buf1 = buf[e0 := 0] in
             do { e1 \<leftarrow> eat_alpha_numeric buf1 (e0 + 2); Some (Some s, e0 + 2, e1, buf1) })
          else Some (None, s, e0, buf)) = Some (psection, pname, e, buf1)"
    and "case psection of None \<Rightarrow> True | Some p \<Rightarrow> nul_ahead buf1 p" and "nul_ahead buf1 pname" and "nul_ahead buf1 e" and "length buf1 = length buf"
proof -
  obtain e0 where e0: "eat_alpha_numeric buf s = Some e0" "nul_ahead buf e0" using eat_alpha_numeric_safe [OF assms] by blast
  have c0: "char_at buf e0 = Some (buf ! e0)" using nul_ahead_char [OF e0(2)] by simp
  show thesis
  proof (cases "buf ! e0 = 0x3a")
    case False
    then show thesis using that [OF e0(1) c0, of 0 None s e0 buf] e0(2) assms by simp
  next
    case True
    then have n1: "nul_ahead buf (e0 + 1)" using nul_ahead_Suc [OF e0(2)] by simp
    then have c1: "char_at buf (e0 + 1) = Some (buf ! (e0 + 1))" using nul_ahead_char by blast
    show thesis
    proof (cases "buf ! (e0 + 1) = 0x3a")
      case False
      then show thesis using that [OF e0(1) c0, of "buf ! (e0 + 1)" None s e0 buf] True c1 e0(2) assms by simp
    next
      case c: True
      then have "nul_ahead buf (e0 + 2)" using nul_ahead_Suc [OF n1] by simp
      then have n2: "nul_ahead (buf[e0 := 0]) (e0 + 2)" by (rule nul_ahead_update)
      then obtain e1 where e1: "eat_alpha_numeric (buf[e0 := 0]) (e0 + 2) = Some e1" "nul_ahead (buf[e0 := 0]) e1"
        using eat_alpha_numeric_safe by blast
      show thesis
        using that [OF e0(1) c0, of "buf ! (e0 + 1)" "Some s" "e0 + 2" e1 "buf[e0 := 0]"] True c c1 e1 n2 nul_ahead_update [OF assms] by simp
    qed
  qed
qed

lemma parse_assign_safe:
  assumes st: "load_ok st cur" and nf: "never_fails al" and nx: "conf_next (ld_conf st) + 2 < 2 ^ 57"
    and buf: "nul_ahead buf s" "length buf < int_max"
  shows "line_safe st (parse_assign al st buf s)"
proof -
  have inv: "conf_inv (ld_conf st)" using st by (simp add: load_ok_def)
  obtain e0 c0 c1 psection pname e buf1 where n: "eat_alpha_numeric buf s = Some e0" "char_at buf e0 = Some c0"
      "(if c0 = 0x3a then char_at buf (e0 + 1) else Some 0) = Some c1"
      "(if c0 = 0x3a \<and> c1 = 0x3a then
          (let buf1 = buf[e0 := 0] in
           do { e1 \<leftarrow> eat_alpha_numeric buf1 (e0 + 2); Some (Some s, e0 + 2, e1, buf1) })
        else Some (None, s, e0, buf)) = Some (psection, pname, e, buf1)"
      "case psection of None \<Rightarrow> True | Some p \<Rightarrow> nul_ahead buf1 p" "nul_ahead buf1 pname" "nul_ahead buf1 e" "length buf1 = length buf"
    by (rule assign_name_safe [OF buf(1)])
  obtain p where p: "eat_ws buf1 e = Some p" "e \<le> p" "nul_ahead buf1 p" using eat_ws_safe [OF n(7)] by blast
  have c: "char_at buf1 p = Some (buf1 ! p)" "p < length buf1" using nul_ahead_char [OF p(3)] by simp_all
  define buf2 where "buf2 = buf1[e := 0]"
  have pa: "parse_assign al st buf s =
      (if buf1 ! p \<noteq> 0x3d then Some (Load_error CONF_R_MISSING_EQUAL_SIGN, st, al)
       else do { start \<leftarrow> eat_ws buf2 (p + 1); q \<leftarrow> find_eof buf2 (p + 1); q1 \<leftarrow> back_ws buf2 start (q - 1);
                 store_value al st (buf2[q1 + 1 := 0]) psection pname start })"
    unfolding parse_assign_def n(1,2) bind.bind_lunit n(3,4) by (simp add: p(1) c(1) buf2_def Let_def)
  show ?thesis
  proof (cases "buf1 ! p = 0x3d")
    case False
    then show ?thesis unfolding pa using line_safe_error [OF inv nf] by simp
  next
    case True
    then have "nul_ahead buf1 (p + 1)" using nul_ahead_Suc [OF p(3)] by simp
    then have n1: "nul_ahead buf2 (p + 1)" unfolding buf2_def by (rule nul_ahead_update)
    obtain start where s: "eat_ws buf2 (p + 1) = Some start" "nul_ahead buf2 start" using eat_ws_safe [OF n1] by blast
    obtain q where q: "find_eof buf2 (p + 1) = Some q" "p + 1 \<le> q" "q < length buf2" using find_eof_safe [OF n1] by blast
    have "buf2 ! p = 0x3d \<or> buf2 ! p = 0" using True c(2) by (cases "e = p") (simp_all add: buf2_def)
    then have "\<not> IS_WS (buf2 ! p)" by (auto simp: class_WS)
    moreover have "p \<le> q - 1" "q - 1 < length buf2" using q(2,3) by simp_all
    ultimately obtain q1 where q1: "back_ws buf2 start (q - 1) = Some q1" using back_ws_safe by blast
    let ?buf3 = "buf2[q1 + 1 := 0]"
    have up: "nul_ahead buf1 i \<Longrightarrow> nul_ahead ?buf3 i" for i unfolding buf2_def by (intro nul_ahead_update)
    have "line_safe st (store_value al st ?buf3 psection pname start)"
    proof (rule store_value_safe [OF st nf nx])
      show "length ?buf3 < int_max" using buf(2) n(8) by (simp add: buf2_def)
      show "nul_ahead ?buf3 pname" by (rule up [OF n(6)])
      show "nul_ahead ?buf3 start" by (rule nul_ahead_update [OF s(2)])
      show "case psection of None \<Rightarrow> True | Some p \<Rightarrow> nul_ahead ?buf3 p" using n(5) up by (simp split: option.splits)
    qed
    then show ?thesis unfolding pa using True s(1) q(1) q1 by simp
  qed
qed

lemma line_safe_from:
  "line_safe st' res \<Longrightarrow> ld_conf st' = ld_conf st \<Longrightarrow> buf_max (ld_buff st') = buf_max (ld_buff st) \<Longrightarrow> line_safe st res"
  by (simp add: line_safe_def)

lemma parse_line_safe:
  assumes st: "load_ok (st\<lparr>ld_bufnum := 0\<rparr>) cur" and nf: "never_fails al" and nx: "conf_next (ld_conf st) + 2 < 2 ^ 57"
    and d: "buf_data (ld_buff st) = Some d" "nul_ahead d 0" "length d < int_max"
  shows "line_safe st (parse_line al st)"
proof -
  obtain q where q: "clear_comments d 0 = Some (d[q := 0])" using clear_comments_safe [OF d(2)] by blast
  let ?buf = "d[q := 0]" and ?st = "st\<lparr>ld_bufnum := 0, ld_buff := (ld_buff st)\<lparr>buf_data := Some (d[q := 0])\<rparr>\<rparr>"
  have st': "load_ok ?st cur" "conf_next (ld_conf ?st) + 2 < 2 ^ 57" using load_ok_buffer [OF st d(1), of ?buf] nx by simp_all
  have b: "nul_ahead ?buf 0" "length ?buf < int_max" using nul_ahead_update [OF d(2)] d(3) by simp_all
  obtain s where s: "eat_ws ?buf 0 = Some s" "nul_ahead ?buf s" using eat_ws_safe [OF b(1)] by blast
  have c: "char_at ?buf s = Some (?buf ! s)" using nul_ahead_char [OF s(2)] by simp
  have pl: "parse_line al st = (if ?buf ! s = 0 then Some (Load_next, ?st, al)
      else if ?buf ! s = 0x5b then parse_section al ?st ?buf s else parse_assign al ?st ?buf s)"
    using d(1) q s(1) c by (simp add: parse_line_def)
  have "line_safe ?st (parse_line al st)"
  proof -
    have "line_safe ?st (Some (Load_next, ?st, al))" using st' nf by (auto simp: line_safe_def load_ok_def)
    moreover have "line_safe ?st (parse_section al ?st ?buf s)" if "?buf ! s = 0x5b"
      using parse_section_safe [OF st'(1) nf st'(2) _ b(2)] nul_ahead_Suc [OF s(2)] that by simp
    moreover have "line_safe ?st (parse_assign al ?st ?buf s)" by (rule parse_assign_safe [OF st'(1) nf st'(2) s(2) b(2)])
    ultimately show ?thesis unfolding pl by simp
  qed
  then show ?thesis by (rule line_safe_from) simp_all
qed

section \<open>Reading stays in the buffer\<close>

lemma strip_eol_le: "strip_eol p i \<le> i"
  by (induction i) (simp_all add: le_SucI)

lemma grow_max: "BUF_MEM_grow al b n = (r, b', al') \<Longrightarrow> n < 2 ^ 31 \<Longrightarrow> buf_max b' \<le> max (buf_max b) (reserve_size n)"
proof -
  assume g: "BUF_MEM_grow al b n = (r, b', al')" and "n < 2 ^ 31"
  then have s: "size_add n 3 = n + 3" "size_mul ((n + 3) div 3) 4 = reserve_size n"
    by (simp_all add: size_add_noover size_mul_def size_max1_def reserve_size_def)
  obtain ok b1 al1 where r: "BUF_MEM_reserve al b n = (ok, b1, al1)" by (metis prod_cases3)
  have "buf_max b1 \<le> max (buf_max b) (reserve_size n)"
    using r by (auto simp: BUF_MEM_reserve_def Let_def s [unfolded One_nat_def] split: if_splits prod.splits option.splits)
  moreover have "buf_max b' = buf_max b1" using g r by (auto simp: BUF_MEM_grow_def Let_def split: bool.splits if_splits)
  ultimately show ?thesis by simp
qed

lemma c_strlen_le: "i < length p \<Longrightarrow> p ! i = 0 \<Longrightarrow> c_strlen p \<le> i"
  unfolding c_strlen_def by (rule leI) (metis (mono_tags, lifting) nth_mem set_takeWhileD takeWhile_nth)

text \<open>The writes of one round, with \<open>x\<close> the bytes that \<open>gets\<close> delivers.\<close>

lemma chunk_bytes:
  assumes "length x \<le> 510" and "B + CONFBUFSIZE \<le> length d"
  obtains d1 d2 d3 where "mem_store d B [0] = Some d1" and "mem_store d1 B (x @ [0]) = Some d2" and "mem_store d2 (B + CONFBUFSIZE - 1) [0] = Some d3"
    and "length d3 = length d" and "c_strlen (drop B d3) \<le> length x"
proof -
  have n: "B + 512 \<le> length d" using assms(2) by (simp add: CONFBUFSIZE_def)
  define d1 where "d1 = take B d @ [0] @ drop (B + 1) d"
  define d2 where "d2 = take B d1 @ (x @ [0]) @ drop (B + length (x @ [0])) d1"
  define d3 where "d3 = take (B + 511) d2 @ [0] @ drop (B + 512) d2"
  have l: "length d1 = length d" "length d2 = length d" "length d3 = length d" using n assms(1) by (simp_all add: d1_def d2_def d3_def)
  have 1: "mem_store d B [0] = Some d1" using n by (simp add: mem_store_def d1_def)
  have 2: "mem_store d1 B (x @ [0]) = Some d2" using n l(1) assms(1) by (simp add: mem_store_def d2_def)
  have 3: "mem_store d2 (B + CONFBUFSIZE - 1) [0] = Some d3" using n l(2) by (simp add: mem_store_def d3_def CONFBUFSIZE_def add.commute)
  have "drop B d3 ! length x = d3 ! (B + length x)" using n l(3) assms(1) by simp
  also have "\<dots> = d2 ! (B + length x)" using n l(2) assms(1) by (simp add: d3_def nth_append)
  also have "\<dots> = 0" using n l(1) by (simp add: d2_def nth_append)
  finally have "c_strlen (drop B d3) \<le> length x" by (intro c_strlen_le) (use n l(3) assms(1) in simp_all)
  then show thesis using that 1 2 3 l(3) by blast
qed

lemma nul_ahead_stored: "mem_store d i [0] = Some d' \<Longrightarrow> nul_ahead d' 0 \<and> length d' = length d"
  by (auto simp: mem_store_def nul_ahead_def split: if_splits)

text \<open>The state within a line; \<open>N\<close> bounds what is read altogether.\<close>

definition mid_ok :: "nat \<Rightarrow> load_state \<Rightarrow> byte list \<Rightarrow> byte list \<Rightarrow> bool" where
  "mid_ok N st rest cur \<longleftrightarrow> load_ok (st\<lparr>ld_bufnum := 0, ld_again := False\<rparr>) cur \<and> ld_bufnum st + length rest \<le> N \<and>
     buf_max (ld_buff st) \<le> reserve_size (N + CONFBUFSIZE)"

lemma reserve_size_mono: "m \<le> n \<Longrightarrow> reserve_size m \<le> reserve_size n"
  unfolding reserve_size_def by (intro mult_le_mono1 div_le_mono) simp

lemma reserve_small: "n < 2 ^ 30 + 512 \<Longrightarrow> reserve_size n < int_max"
proof -
  assume "n < 2 ^ 30 + 512"
  then have "reserve_size n \<le> reserve_size (2 ^ 30 + 512)" by (intro reserve_size_mono) simp
  then show ?thesis by (simp add: reserve_size_def int_max_def)
qed

lemma grow_mid:
  assumes st: "mid_ok N st rest cur" and N: "N < 2 ^ 30" and nf: "never_fails al"
  obtains b al' d where "BUF_MEM_grow al (ld_buff st) (ld_bufnum st + CONFBUFSIZE) = (ld_bufnum st + CONFBUFSIZE, b, al')" and "buf_ok b"
    and "buf_data b = Some d" and "ld_bufnum st + CONFBUFSIZE \<le> length d" and "length d < int_max" and "buf_max b \<le> reserve_size (N + CONFBUFSIZE)" and "never_fails al'"
proof -
  let ?n = "ld_bufnum st + CONFBUFSIZE"
  obtain r b al' where g: "BUF_MEM_grow al (ld_buff st) ?n = (r, b, al')" by (metis prod_cases3)
  have n: "?n \<le> N + CONFBUFSIZE" "N + CONFBUFSIZE < 2 ^ 30 + 512" using st N by (simp_all add: mid_ok_def CONFBUFSIZE_def)
  have s: "?n < size_max1" "reserve_size ?n + 8 < size_max1" "?n < 2 ^ 31"
    using n reserve_small [of ?n] by (simp_all add: size_max1_def int_max_def)
  have ok: "buf_ok (ld_buff st)" using st by (simp add: mid_ok_def load_ok_def)
  have r: "r = ?n" "buf_ok b" and c: "buf_contents b = take ?n (buf_contents (ld_buff st)) @ replicate (?n - length (buf_contents (ld_buff st))) 0"
    using BUF_MEM_grow_spec [OF ok s(1) g] s(2) nf by (auto simp: CONFBUFSIZE_def)
  have l: "length (buf_contents b) = ?n" unfolding c by simp
  then obtain d where d: "buf_data b = Some d" by (cases "buf_data b") (auto simp: buf_contents_def CONFBUFSIZE_def)
  have m: "buf_max b \<le> reserve_size (N + CONFBUFSIZE)"
    using grow_max [OF g s(3)] reserve_size_mono [OF n(1)] st unfolding mid_ok_def by linarith
  moreover have "length d < int_max" using m reserve_small [OF n(2)] r(2) d by (simp add: buf_ok_def)
  moreover have "?n \<le> length d" using l d by (simp add: buf_contents_def)
  ultimately show thesis using that g r d grow_keeps [OF g] nf by simp
qed

lemma esc_check_total:
  assumes "n \<le> length d" and "1 < length d"
  shows "\<exists>esc. (if n \<ge> 1 then
      do { c \<leftarrow> char_at d (n - 1); if IS_ESC c then (if n \<le> 1 then Some True else map_option (\<lambda>c. \<not> IS_ESC c) (char_at d (n - 2))) else Some False }
    else Some False) = Some esc \<and> (esc \<longrightarrow> 1 \<le> n)"
  using assms by (auto simp: char_at_def)

context line_source
begin

text \<open>What a round of reading leaves: either bytes were taken, or at the end of the input a pending line is finished.\<close>

lemma read_chunk_safe:
  assumes st: "mid_ok N st (pending s) cur" and N: "N < 2 ^ 30" and nf: "never_fails al" and s: "line_inv s"
  obtains (at_end) st' s' al' where "read_chunk gets al s st = Some (Load_done, st', s', al')" and "ld_conf st' = ld_conf st" and "\<not> ld_again st"
  | (chunk) st' s' al' d where "read_chunk gets al s st = Some (Load_next, st', s', al')" and "never_fails al'" and "line_inv s'" and "mid_ok N st' (pending s') cur"
      and "ld_conf st' = ld_conf st" and "buf_data (ld_buff st') = Some d" and "length d < int_max" and "\<not> ld_again st' \<Longrightarrow> nul_ahead d 0"
      and "length (pending s') < length (pending s) \<or> pending s' = [] \<and> pending s = [] \<and> ld_again st \<and> (ld_again st' \<longrightarrow> ld_bufnum st' < ld_bufnum st)"
proof -
  let ?B = "ld_bufnum st"
  obtain b al' d where g: "BUF_MEM_grow al (ld_buff st) (?B + CONFBUFSIZE) = (?B + CONFBUFSIZE, b, al')" "buf_ok b" "buf_data b = Some d"
      "?B + CONFBUFSIZE \<le> length d" "length d < int_max" "buf_max b \<le> reserve_size (N + CONFBUFSIZE)" "never_fails al'"
    by (rule grow_mid [OF st N nf])
  obtain k out s' where gt: "gets s (int CONFBUFSIZE - 1) = (k, out, s')" by (metis prod_cases3)
  have sz: "1 < int CONFBUFSIZE - 1" "int CONFBUFSIZE - 1 \<le> int int_max" by (simp_all add: CONFBUFSIZE_def int_max_def)
  note spec = gets_line [OF s sz gt]
  define x where "x = take 510 (first_line (pending s))"
  have "out = take (nat (int CONFBUFSIZE - 1) - 1) (first_line (pending s)) @ [0]" using spec by blast
  then have out: "out = x @ [0]" by (simp add: x_def CONFBUFSIZE_def)
  have s': "line_inv s'" using spec by blast
  have "pending s = butlast out @ pending s'" using spec by blast
  then have ps: "pending s = x @ pending s'" unfolding out by (simp only: butlast_snoc)
  have xl: "length x \<le> 510" by (simp add: x_def)
  have xn: "x \<noteq> []" if "pending s \<noteq> []" using that by (cases "pending s") (simp_all add: x_def first_line_Cons)
  obtain d1 d2 d3 where d: "mem_store d ?B [0] = Some d1" "mem_store d1 ?B (x @ [0]) = Some d2" "mem_store d2 (?B + CONFBUFSIZE - 1) [0] = Some d3"
      "length d3 = length d" "c_strlen (drop ?B d3) \<le> length x"
    by (rule chunk_bytes [OF xl g(4)])
  define ii where "ii = c_strlen (drop ?B d3)"
  define i where "i = strip_eol (drop ?B d3) ii"
  have i: "i \<le> ii" "ii \<le> length x" using strip_eol_le d(5) by (simp_all add: i_def ii_def)
  define long where "long \<longleftrightarrow> ii \<noteq> 0 \<and> i = ii"
  have "?B + i < length d3" using i xl g(4) d(4) by (simp add: CONFBUFSIZE_def)
  then obtain d' where "mem_store d3 (?B + i) [0] = Some d'" by (simp add: mem_store_def)
  then obtain d4 where d4: "(if long then Some d3 else mem_store d3 (?B + i) [0]) = Some d4" "length d4 = length d" "\<not> long \<Longrightarrow> nul_ahead d4 0"
    using nul_ahead_stored [of d3 "?B + i" d'] d(4) by (cases long) simp_all
  have "?B + i \<le> length d4" "1 < length d4" using \<open>?B + i < length d3\<close> d(4) d4(2) g(4) by (simp_all add: CONFBUFSIZE_def)
  from esc_check_total [OF this] obtain esc where esc: "(if ?B + i \<ge> 1 then
      do { c \<leftarrow> char_at d4 (?B + i - 1); if IS_ESC c then (if ?B + i \<le> 1 then Some True else map_option (\<lambda>c. \<not> IS_ESC c) (char_at d4 (?B + i - 2))) else Some False }
    else Some False) = Some esc" "esc \<longrightarrow> 1 \<le> ?B + i" by blast
  define st' where "st' = st\<lparr>ld_buff := b\<lparr>buf_data := Some d4\<rparr>, ld_bufnum := (if esc then ?B + i - 1 else ?B + i),
      ld_again := (long \<or> esc), ld_line := (if long then ld_line st else ld_line st + 1)\<rparr>"
  have rc: "read_chunk gets al s st =
      (if ii = 0 \<and> \<not> ld_again st then Some (Load_done, st\<lparr>ld_buff := b\<lparr>buf_data := Some d3\<rparr>\<rparr>, s', al') else Some (Load_next, st', s', al'))"
    unfolding read_chunk_def Let_def g(1) prod.case g(3) bind.bind_lunit d(1) gt out d(2,3) ii_def [symmetric] i_def [symmetric] long_def [symmetric]
    using esc(1) d4(1) by (simp add: st'_def CONFBUFSIZE_def)
  have "buf_ok (b\<lparr>buf_data := Some d4\<rparr>)" by (rule buf_ok_data [OF g(2,3) d4(2)])
  then have mid: "mid_ok N st' (pending s') cur"
    using st g(6) i ps by (auto simp: mid_ok_def load_ok_def st'_def)
  show thesis
  proof (cases "ii = 0 \<and> \<not> ld_again st")
    case True
    then show thesis using at_end rc by simp
  next
    case False
    have "length (pending s') < length (pending s) \<or> pending s' = [] \<and> pending s = [] \<and> ld_again st \<and> (ld_again st' \<longrightarrow> ld_bufnum st' < ?B)"
    proof (cases "pending s = []")
      case True
      then have "i = 0" "ii = 0" "pending s' = []" using ps i by simp_all
      then show ?thesis using True False esc(2) by (auto simp: st'_def long_def)
    next
      case ne: False
      then have "0 < length x" using xn by simp
      moreover have "length (pending s) = length x + length (pending s')" using arg_cong [OF ps, of length] by simp
      ultimately show ?thesis by linarith
    qed
    then show thesis
      using chunk [of st' s' al' d4] rc False g(5,7) s' mid d4 by (simp add: st'_def)
  qed
qed

lemma load_loop_safe:
  assumes "mid_ok N st (pending s) cur" and "N < 2 ^ 30" and "never_fails al" and "line_inv s"
    and "conf_next (ld_conf st) + 2 * (length (pending s) + (if ld_again st then 1 else 0)) < 2 ^ 57"
  shows "\<exists>r st' s' al'. load_loop gets al s st = Some (r, st', s', al') \<and> r \<noteq> Load_next \<and> conf_inv (ld_conf st')"
  using assms
proof (induction "length (pending s) * (N + 2) + (if ld_again st then Suc (ld_bufnum st) else 0)" arbitrary: st s al cur rule: less_induct)
  case less
  have inv: "conf_inv (ld_conf st)" using less.prems(1) by (simp add: mid_ok_def load_ok_def)
  from less.prems(1-4) show ?case
  proof (cases rule: read_chunk_safe)
    case (at_end st' s' al')
    then show ?thesis using inv by (subst load_loop.simps) simp
  next
    case (chunk st1 s1 al1 d)
    let ?m = "\<lambda>s st. length (pending s) * (N + 2) + (if ld_again st then Suc (ld_bufnum st) else 0)"
    have bn: "ld_bufnum st1 \<le> N" using chunk(4) by (simp add: mid_ok_def)
    have dec: "length (pending s1) * (N + 2) + Suc (ld_bufnum st1) < length (pending s) * (N + 2)" if "length (pending s1) < length (pending s)"
    proof -
      have "Suc (length (pending s1)) * (N + 2) \<le> length (pending s) * (N + 2)" using that by (intro mult_le_mono1) simp
      then show ?thesis using bn by simp
    qed
    show ?thesis
    proof (cases "ld_again st1")
      case True
      have "?m s1 st1 < ?m s st" using chunk(9) dec True by auto
      moreover have "conf_next (ld_conf st1) + 2 * (length (pending s1) + (if ld_again st1 then 1 else 0)) < 2 ^ 57"
        using chunk(5,9) less.prems(5) True by (auto split: if_splits)
      ultimately have "\<exists>r st' s' al'. load_loop gets al1 s1 st1 = Some (r, st', s', al') \<and> r \<noteq> Load_next \<and> conf_inv (ld_conf st')"
        using less.hyps [of s1 st1 cur al1] chunk(2,3,4) less.prems(2) by blast
      then show ?thesis using chunk(1) True by (subst load_loop.simps) simp
    next
      case False
      have again0: "ld_again st1 = False" using False by simp
      have st1: "load_ok (st1\<lparr>ld_bufnum := 0\<rparr>) cur" using chunk(4) again0 by (simp add: mid_ok_def load_ok_def)
      have cnt: "length (pending s1) + 1 \<le> length (pending s) + (if ld_again st then 1 else 0)" using chunk(9) by auto
      then have nx: "conf_next (ld_conf st1) + 2 < 2 ^ 57" using chunk(5) less.prems(5) by simp
      from parse_line_safe [OF st1 chunk(2) nx chunk(6) _ chunk(7)] chunk(8) False
      obtain r st2 al2 where p: "parse_line al1 st1 = Some (r, st2, al2)" "never_fails al2" "conf_inv (ld_conf st2)"
          "conf_next (ld_conf st2) \<le> conf_next (ld_conf st1) + 2" "buf_max (ld_buff st2) = buf_max (ld_buff st1)" "r = Load_next \<longrightarrow> (\<exists>cur. load_ok st2 cur)"
        by (auto simp: line_safe_def)
      have step: "load_loop gets al s st = (if r \<noteq> Load_next then Some (r, st2, s1, al2) else load_loop gets al2 s1 st2)"
        using chunk(1) False p(1) by (subst load_loop.simps) simp
      show ?thesis
      proof (cases "r = Load_next")
        case False
        then show ?thesis using step p(3) by simp
      next
        case True
        then obtain cur2 where c2: "load_ok st2 cur2" using p(6) by blast
        then have ag: "\<not> ld_again st2" "ld_bufnum st2 = 0" by (simp_all add: load_ok_def)
        have "load_ok (st2\<lparr>ld_bufnum := 0, ld_again := False\<rparr>) cur2" using c2 by (simp add: load_ok_def)
        then have mid: "mid_ok N st2 (pending s1) cur2" using chunk(4) p(5) ag by (simp add: mid_ok_def)
        have "?m s1 st2 < ?m s st" using chunk(9) dec ag by auto
        moreover have "conf_next (ld_conf st2) + 2 * (length (pending s1) + (if ld_again st2 then 1 else 0)) < 2 ^ 57"
          using p(4) chunk(5) cnt less.prems(5) ag by simp
        ultimately show ?thesis using less.hyps [of s1 st2 cur2 al2] mid p(2) chunk(3) less.prems(2) step True by simp
      qed
    qed
  qed
qed

end

section \<open>Properties\<close>

text \<open>C24: Whatever bytes a memory BIO holds, loading them as a configuration file returns: with success or with an error,
  after finitely many rounds, without a read or write outside of the line buffer, and with
  a configuration in which the table and the sections agree.\<close>

theorem conf_load_returns:
  assumes "conf_inv conf" and "get_section conf kDefaultSectionName = None" and "never_fails al" and "mem_inv bio"
    and "length (BIO_mem_contents bio) < 2 ^ 30" and "conf_next conf < 2 ^ 56"
  shows "\<exists>res conf' bio' al'. NCONF_load_bio mem_bio_gets al conf bio = Some (res, conf', bio', al') \<and> conf_inv conf'"
proof -
  let ?N = "length (BIO_mem_contents bio)"
  have "conf_shows conf (conf_text conf)" "conf_next conf < 2 ^ 58" using assms(6) by (simp_all add: conf_shows_def)
  from load_start [OF assms(1,2) this(1) assms(3) this(2), of mem_bio_gets bio]
  obtain st al1 where st: "NCONF_load_bio mem_bio_gets al conf bio = (case load_loop mem_bio_gets al1 bio st of None \<Rightarrow> None
      | Some (r, st', s', al4) \<Rightarrow> Some (case r of Load_error e \<Rightarrow> Some (e, ld_line st') | _ \<Rightarrow> None, ld_conf st', s', al4))"
      "load_ok st (c_str kDefaultSectionName)" "never_fails al1" "conf_next (ld_conf st) = conf_next conf + 1" "buf_max (ld_buff st) = 0"
    by blast
  have "mid_ok ?N st (BIO_mem_contents bio) (c_str kDefaultSectionName)" using st(2,5) by (simp add: mid_ok_def load_ok_def)
  moreover have "conf_next (ld_conf st) + 2 * (?N + (if ld_again st then 1 else 0)) < 2 ^ 57" using st(2,4) assms(5,6) by (simp add: load_ok_def)
  ultimately obtain r st' bio' al' where "load_loop mem_bio_gets al1 bio st = Some (r, st', bio', al')" "conf_inv (ld_conf st')"
    using mem_lines.load_loop_safe [OF _ assms(5) st(3) assms(4)] by blast
  then show ?thesis unfolding st(1) by auto
qed

theorem conf_load_returns_witness:
  "\<exists>res conf' bio' al'. NCONF_load_bio mem_bio_gets plentiful empty_conf (text_bio [0x5b, 0x00, 0x5c, 0x0a, 0x3d]) = Some (res, conf', bio', al') \<and> conf_inv conf'"
proof -
  let ?bio = "text_bio [0x5b, 0x00, 0x5c, 0x0a, 0x3d]"
  have "get_section empty_conf kDefaultSectionName = None"
    by (simp add: get_section_def empty_conf_def OPENSSL_lh_retrieve_def get_next_ptr_and_hash_def slot_item_def Let_def)
  moreover have "mem_inv ?bio" by (rule text_bio(1)) simp
  moreover have "length (BIO_mem_contents ?bio) < 2 ^ 30" "conf_next empty_conf < 2 ^ 56" by (simp_all add: text_bio(2) empty_conf_def)
  ultimately show ?thesis using conf_load_returns [OF empty_conf_inv _ plentiful_never_fails] by blast
qed

end
