(* ===== verification/Uv_Heap_Order.thy ===== *)
theory Uv_Heap_Order
  imports Uv_Heap
begin

text \<open>
  The linked heap as an array. The links of a complete binary tree are determined by the nodes in
  level order: the node at position \<open>p\<close> has the nodes at \<open>2 * p\<close> and \<open>2 * p + 1\<close> below it. So the heap
  of linked nodes refines a map from positions to nodes, on which the order of the heap is proved.
\<close>

section \<open>Reading after writing\<close>

lemma heap_fields [simp]:
  "hp_nodes (set_left a v h) = (hp_nodes h)(a := (hp_nodes h a)\<lparr>hn_left := v\<rparr>)" "hp_min (set_left a v h) = hp_min h" "hp_nelts (set_left a v h) = hp_nelts h"
  "hp_nodes (set_right a v h) = (hp_nodes h)(a := (hp_nodes h a)\<lparr>hn_right := v\<rparr>)" "hp_min (set_right a v h) = hp_min h" "hp_nelts (set_right a v h) = hp_nelts h"
  "hp_nodes (set_parent a v h) = (hp_nodes h)(a := (hp_nodes h a)\<lparr>hn_parent := v\<rparr>)" "hp_min (set_parent a v h) = hp_min h" "hp_nelts (set_parent a v h) = hp_nelts h"
  "hp_nodes (set_node a n h) = (hp_nodes h)(a := n)" "hp_min (set_node a n h) = hp_min h" "hp_nelts (set_node a n h) = hp_nelts h"
  by (simp_all add: set_left_def set_right_def set_parent_def set_node_def)

lemma link_parent_fields [simp]:
  "left_of (link_parent c p h) x = left_of h x" "right_of (link_parent c p h) x = right_of h x"
  "parent_of (link_parent c p h) x = (if c = Some x then Some p else parent_of h x)"
  "hp_min (link_parent c p h) = hp_min h" "hp_nelts (link_parent c p h) = hp_nelts h"
  by (simp_all add: link_parent_def split: option.split)

lemma replace_child_fields [simp]:
  "left_of (replace_child par old new h) x = (if par = Some x \<and> left_of h x = Some old then Some new else left_of h x)"
  "right_of (replace_child par old new h) x = (if par = Some x \<and> left_of h x \<noteq> Some old then Some new else right_of h x)"
  "parent_of (replace_child par old new h) x = parent_of h x"
  "hp_min (replace_child par old new h) = (if par = None then Some new else hp_min h)" "hp_nelts (replace_child par old new h) = hp_nelts h"
  by (simp_all add: replace_child_def split: option.split)

section \<open>Positions\<close>

definition heap_repr :: "heap \<Rightarrow> (nat \<Rightarrow> addr option) \<Rightarrow> nat \<Rightarrow> bool" where
  "heap_repr h f n \<longleftrightarrow> dom f = {1..n} \<and> inj_on f (dom f) \<and> n < 2 ^ 32 \<and> hp_nelts h = of_nat n \<and> hp_min h = f 1 \<and>
     (\<forall>p a. f p = Some a \<longrightarrow> left_of h a = f (2 * p) \<and> right_of h a = f (2 * p + 1) \<and> parent_of h a = f (p div 2))"

lemma heap_reprD:
  assumes "heap_repr h f n"
  shows "dom f = {1..n}" and "inj_on f (dom f)" and "n < 2 ^ 32" and "hp_nelts h = of_nat n" and "hp_min h = f 1"
    and "f p = Some a \<Longrightarrow> left_of h a = f (2 * p)" and "f p = Some a \<Longrightarrow> right_of h a = f (2 * p + 1)" and "f p = Some a \<Longrightarrow> parent_of h a = f (p div 2)"
    and "f 0 = None" and "f p = Some a \<Longrightarrow> 1 \<le> p \<and> p \<le> n"
  using assms by (auto simp: heap_repr_def dom_def set_eq_iff)

lemma repr_inj: "heap_repr h f n \<Longrightarrow> f p = Some a \<Longrightarrow> f q = Some a \<longleftrightarrow> q = p"
  by (auto simp: heap_repr_def inj_on_def dom_def)

section \<open>Swapping a node with its parent\<close>

text \<open>The links after \<open>heap_node_swap\<close>, with \<open>A\<close> and \<open>B\<close> what the parent and the child held.\<close>

lemma swap_fields:
  assumes "a \<noteq> b" and "left_of h b \<noteq> Some b" and "right_of h b \<noteq> Some b" and "left_of h b \<noteq> Some a" and "right_of h b \<noteq> Some a"
    and sib: "sib = (if left_of h a = Some b then right_of h a else left_of h a)" and "sib \<noteq> Some a" and "sib \<noteq> Some b"
    and "parent_of h a \<noteq> Some a" and "parent_of h a \<noteq> Some b"
  shows "left_of (heap_node_swap h a b) x =
      (if x = b then (if left_of h a = Some b then Some a else left_of h a) else if x = a then left_of h b
       else if parent_of h a = Some x \<and> left_of h x = Some a then Some b else left_of h x)"
    and "right_of (heap_node_swap h a b) x =
      (if x = b then (if left_of h a = Some b then right_of h a else Some a) else if x = a then right_of h b
       else if parent_of h a = Some x \<and> left_of h x \<noteq> Some a then Some b else right_of h x)"
    and "parent_of (heap_node_swap h a b) x =
      (if x = b then parent_of h a else if x = a then Some b else if right_of h b = Some x \<or> left_of h b = Some x then Some a
       else if sib = Some x then Some b else parent_of h x)"
    and "hp_min (heap_node_swap h a b) = (if parent_of h a = None then Some b else hp_min h)"
    and "hp_nelts (heap_node_swap h a b) = hp_nelts h"
  using assms by (auto simp: heap_node_swap_def Let_def)

lemma heap_swap_repr:
  assumes r: "heap_repr h f n" and b: "f q = Some b" and a: "f (q div 2) = Some a"
  shows "heap_repr (heap_node_swap h a b) (f(q div 2 := Some b, q := Some a)) n"
proof -
  define p where "p = q div 2"
  let ?f = "f(p := Some b, q := Some a)"
  have fp: "f p = Some a" using a by (simp add: p_def)
  have pos: "1 \<le> p" "q = 2 * p \<or> q = 2 * p + 1" using heap_reprD(10) [OF r fp] by (auto simp: p_def)
  note ia = repr_inj [OF r fp] and ib = repr_inj [OF r b]
  note na = heap_reprD(6-8) [OF r fp] and nb = heap_reprD(6-8) [OF r b]
  have ne: "p \<noteq> q" "2 * q \<noteq> q" "2 * q + 1 \<noteq> q" "2 * q \<noteq> p" "2 * q + 1 \<noteq> p" "p div 2 \<noteq> p" "p div 2 \<noteq> q" "2 * p \<noteq> p" "2 * p + 1 \<noteq> p" using pos by auto
  have ab: "a \<noteq> b" using ib ne(1) fp by auto
  have left: "f (2 * p) = Some b \<longleftrightarrow> q = 2 * p" using ib [of "2 * p"] by auto
  define sib where "sib = (if left_of h a = Some b then right_of h a else left_of h a)"
  define s where "s = (if q = 2 * p then 2 * p + 1 else 2 * p)"
  have sib: "sib = f s" using left by (simp add: sib_def s_def na)
  have s: "s \<noteq> p" "s \<noteq> q" "s div 2 = p" using pos by (auto simp: s_def)
  note sw = swap_fields [OF ab, of h sib, unfolded na nb, OF _ _ _ _ sib_def [unfolded na nb]]
  have pre: "f (2 * q) \<noteq> Some b" "f (2 * q + 1) \<noteq> Some b" "f (2 * q) \<noteq> Some a" "f (2 * q + 1) \<noteq> Some a" "sib \<noteq> Some a" "sib \<noteq> Some b"
      "f (p div 2) \<noteq> Some a" "f (p div 2) \<noteq> Some b"
    unfolding sib using ia ib ne s by auto
  note sw = sw [OF pre]
  have 0: "f 0 = None" by (rule heap_reprD(9) [OF r])
  have up: "f (p div 2) = None \<longleftrightarrow> p = 1"
  proof -
    have "p div 2 \<in> dom f" if "p \<noteq> 1" using heap_reprD(1) [OF r] heap_reprD(10) [OF r fp] that by auto
    then show ?thesis using 0 by auto
  qed
  have links: "left_of (heap_node_swap h a b) x = ?f (2 * i) \<and> right_of (heap_node_swap h a b) x = ?f (2 * i + 1) \<and> parent_of (heap_node_swap h a b) x = ?f (i div 2)"
    if x: "?f i = Some x" for i x
  proof -
    consider "i = q" | "i = p" | "i \<noteq> p" "i \<noteq> q" by blast
    then show ?thesis
    proof cases
      case 1
      then have "x = a" using x by simp
      then show ?thesis unfolding sw using ab ne 1 by (simp add: p_def [symmetric])
    next
      case 2
      then have "x = b" using x ne(1) by simp
      then show ?thesis unfolding sw left using 2 ne pos(2) by auto
    next
      case 3
      then have fi: "f i = Some x" using x by simp
      note ii = repr_inj [OF r fi] and ni = heap_reprD(6-8) [OF r fi]
      have xn: "x \<noteq> a" "x \<noteq> b" using 3 ii [of p] ii [of q] fp b by auto
      have i1: "1 \<le> i" using heap_reprD(10) [OF r fi] by simp
      have "(p div 2 = i \<and> 2 * i = p) \<longleftrightarrow> 2 * i = p" "(p div 2 = i \<and> 2 * i \<noteq> p) \<longleftrightarrow> 2 * i + 1 = p" "2 * i \<noteq> q" "2 * i + 1 \<noteq> q"
        using pos 3(1) by auto
      moreover have "(2 * q + 1 = i \<or> 2 * q = i) \<longleftrightarrow> i div 2 = q" "s = i \<longleftrightarrow> i div 2 = p" using pos(2) 3(2) by (auto simp: s_def)
      ultimately show ?thesis unfolding sw ni sib ii ia using xn 3 ne(1) by auto
    qed
  qed
  have "dom ?f = {1..n}" using heap_reprD(1) [OF r] fp b by auto
  moreover have "inj_on ?f (dom ?f)"
  proof (rule inj_onI)
    fix i j
    assume d: "i \<in> dom ?f" and e: "?f i = ?f j"
    obtain x where x1: "?f i = Some x" using d by blast
    note x = x1 x1 [unfolded e]
    have pos_of: "k = (if x = a then q else if x = b then p else (THE k. f k = Some x))" if k: "?f k = Some x" for k
    proof -
      consider "k = q" | "k = p" | "k \<noteq> p" "k \<noteq> q" by blast
      then show ?thesis
      proof cases
        case 3
        then have "f k = Some x" "x \<noteq> a" "x \<noteq> b" using k ia [of k] ib [of k] by auto
        then show ?thesis using repr_inj [OF r] by (simp add: the_equality)
      qed (use k ab ne(1) in auto)
    qed
    show "i = j" using pos_of [OF x(1)] pos_of [OF x(2)] by simp
  qed
  moreover have "hp_min (heap_node_swap h a b) = ?f 1"
  proof (cases "p = 1")
    case True
    then show ?thesis using sw(4) up ne(1) by simp
  next
    case False
    moreover have "q \<noteq> 1" using pos by presburger
    moreover have "f (p div 2) \<noteq> None" using up False by blast
    ultimately show ?thesis using sw(4) heap_reprD(5) [OF r] by (auto simp del: One_nat_def)
  qed
  moreover have "hp_nelts (heap_node_swap h a b) = of_nat n" using sw(5) heap_reprD(4) [OF r] by (rule trans)
  ultimately have "heap_repr (heap_node_swap h a b) ?f n"
    using links heap_reprD(3) [OF r] unfolding heap_repr_def by simp
  then show ?thesis by (simp add: p_def)
qed

section \<open>The path to a position\<close>

text \<open>The position reached from \<open>p\<close> by \<open>k\<close> steps of a path.\<close>

fun path_pos :: "nat \<Rightarrow> nat \<Rightarrow> nat \<Rightarrow> nat" where
  "path_pos path 0 p = p"
| "path_pos path (Suc k) p = path_pos (path div 2) k (2 * p + path mod 2)"

lemma path_pos_ge: "2 ^ k * p \<le> path_pos path k p"
proof (induction k arbitrary: path p)
  case (Suc k)
  have "2 ^ Suc k * p \<le> 2 ^ k * (2 * p + path mod 2)" by (simp add: algebra_simps)
  also have "\<dots> \<le> path_pos path (Suc k) p" using Suc by simp
  finally show ?case .
qed simp

lemma path_step_unat:
  fixes path n :: uint32
  assumes "unat path < 2 ^ k" and "k \<le> 30"
  shows "unat (push_bit 1 path OR (n AND 1)) = 2 * unat path + unat n mod 2"
proof -
  have "(2::nat) ^ k \<le> 2 ^ 30" using assms(2) by (rule power_increasing) simp
  then have p: "unat path < 2 ^ 30" using assms(1) by linarith
  have "push_bit 1 path AND (n AND 1) = 0"
    by (rule bit_word_eqI) (auto simp: bit_simps simp del: push_bit_of_1 push_bit_Suc push_bit_numeral push_bit_eq_mult One_nat_def)
  then have "push_bit 1 path OR (n AND 1) = push_bit 1 path + (n AND 1)"
    by (rule disjunctive_add_eq_or [symmetric])
  also have "\<dots> = 2 * path + n mod 2" by (simp add: push_bit_eq_mult and_one_eq mult.commute)
  finally have "unat (push_bit 1 path OR (n AND 1)) = unat (2 * path + n mod 2)" by simp
  moreover have "unat (2 * path) = 2 * unat path" using p by (simp add: unat_word_ariths)
  moreover have "unat (n mod 2) = unat n mod 2" by (simp add: unat_mod)
  ultimately show ?thesis using p by (subst (asm) unat_plus_simple [THEN iffD1]) (simp_all add: word_le_nat_alt unat_word_ariths)
qed

lemma heap_path_pos:
  assumes "unat path < 2 ^ k" and "1 \<le> unat n" and "unat n * 2 ^ k < 2 ^ 32" and "heap_path path k n = (path', k')"
  shows "path_pos (unat path') k' 1 = path_pos (unat path) k (unat n)"
  using assms
proof (induction path k n arbitrary: path' k' rule: heap_path.induct)
  case (1 path k n)
  show ?case
  proof (cases "n \<ge> 2")
    case True
    then have n2: "unat n \<ge> 2" by (simp add: word_le_nat_alt)
    have "2 * (2::nat) ^ k \<le> unat n * 2 ^ k" using n2 by simp
    then have "(2::nat) ^ Suc k < 2 ^ 32" using 1(4) unfolding power_Suc by (rule le_less_trans)
    then have "Suc k < 32" by (rule power_less_imp_less_exp [rotated]) simp
    then have k: "k \<le> 30" by simp
    note st = path_step_unat [OF 1(2) k, of n]
    have d: "unat (n div 2) = unat n div 2" by (simp add: unat_div)
    have "unat (push_bit 1 path OR (n AND 1)) < 2 ^ (k + 1)" unfolding st using 1(2) by simp
    moreover have "1 \<le> unat (n div 2)" unfolding d using n2 by simp
    moreover have "unat (n div 2) * 2 ^ (k + 1) < 2 ^ 32"
    proof -
      have "unat n div 2 * 2 ^ (k + 1) = unat n div 2 * 2 * 2 ^ k" by simp
      also have "\<dots> \<le> unat n * 2 ^ k" by (rule mult_right_mono) simp_all
      finally show ?thesis unfolding d using 1(4) by (rule le_less_trans)
    qed
    moreover have "heap_path (push_bit 1 path OR (n AND 1)) (k + 1) (n div 2) = (path', k')" using 1(5) True by (simp add: heap_path.simps [of path k n])
    ultimately have "path_pos (unat path') k' 1 = path_pos (2 * unat path + unat n mod 2) (k + 1) (unat n div 2)"
      using 1(1) [OF True] unfolding st d by blast
    then show ?thesis by simp
  next
    case False
    then have "unat n = 1" using 1(3) by (simp add: word_le_nat_alt not_le)
    then show ?thesis using 1(5) False by (simp add: heap_path.simps [of path k n])
  qed
qed

corollary heap_path_root:
  assumes "1 \<le> m" and "m < 2 ^ 32" and "heap_path 0 0 (of_nat m) = (path, k)"
  shows "path_pos (unat path) k 1 = m"
proof -
  have "unat (of_nat m :: uint32) = m" using assms(2) by (simp add: unat_of_nat)
  then show ?thesis using heap_path_pos [OF _ _ _ assms(3)] assms(1,2) by simp
qed

section \<open>The cell of a position\<close>

definition cell_pos :: "(nat \<Rightarrow> addr option) \<Rightarrow> nat \<Rightarrow> cell" where
  "cell_pos f p = (if p = 1 then Root_cell else if even p then Left_cell (the (f (p div 2))) else Right_cell (the (f (p div 2))))"

lemma repr_some: "heap_repr h f n \<Longrightarrow> 1 \<le> p \<Longrightarrow> p \<le> n \<Longrightarrow> \<exists>a. f p = Some a"
  using heap_reprD(1) [of h f n] by (auto simp: dom_def set_eq_iff)

lemma repr_none: "heap_repr h f n \<Longrightarrow> f p = None \<longleftrightarrow> p = 0 \<or> n < p"
  using heap_reprD(1) [of h f n] domIff [of p f] by auto

lemma get_cell_pos:
  assumes r: "heap_repr h f n" and p: "1 \<le> p" "p div 2 \<le> n"
  shows "get_cell h (cell_pos f p) = f p"
proof (cases "p = 1")
  case True
  then show ?thesis using heap_reprD(5) [OF r] by (simp add: get_cell_def cell_pos_def)
next
  case False
  then have "1 \<le> p div 2" using p(1) by presburger
  then obtain a where a: "f (p div 2) = Some a" using repr_some [OF r _ p(2)] by blast
  have "2 * (p div 2) = p" if "even p" using that by simp
  moreover have "2 * (p div 2) + 1 = p" if "odd p" using that by simp
  ultimately show ?thesis using False heap_reprD(6,7) [OF r a] a by (auto simp: get_cell_def cell_pos_def)
qed

lemma heap_walk_pos:
  assumes r: "heap_repr h f n" and "1 \<le> p" and "path_pos (unat path) k p div 2 \<le> n"
  shows "heap_walk h path k (cell_pos f (max 1 (p div 2))) (cell_pos f p) =
           Some (cell_pos f (max 1 (path_pos (unat path) k p div 2)), cell_pos f (path_pos (unat path) k p))"
  using assms(2,3)
proof (induction k arbitrary: p path)
  case (Suc k)
  let ?q = "2 * p + unat path mod 2"
  have d: "unat (drop_bit 1 path) = unat path div 2" by (simp add: drop_bit_eq_div unat_div)
  have "2 * p \<le> 2 ^ Suc k * p" by simp
  also have "\<dots> \<le> path_pos (unat path) (Suc k) p" by (rule path_pos_ge)
  finally have pn: "p \<le> n" using Suc.prems(2) by linarith
  obtain c where c: "f p = Some c" using repr_some [OF r Suc.prems(1) pn] by blast
  have b: "(path AND 1 \<noteq> 0) \<longleftrightarrow> unat path mod 2 = 1" by (simp add: and_one_eq unat_eq_0 [symmetric] unat_mod del: unat_eq_0)
  have cell: "(if path AND 1 \<noteq> 0 then Right_cell c else Left_cell c) = cell_pos f ?q"
    using Suc.prems(1) c unfolding b by (auto simp: cell_pos_def)
  have g: "get_cell h (cell_pos f p) = Some c" using get_cell_pos [OF r Suc.prems(1)] pn c by simp
  have "heap_walk h path (Suc k) (cell_pos f (max 1 (p div 2))) (cell_pos f p) = heap_walk h (drop_bit 1 path) k (cell_pos f p) (cell_pos f ?q)"
    by (simp only: heap_walk.simps g cell option.case)
  moreover have "max 1 (?q div 2) = p" using Suc.prems(1) by simp
  ultimately show ?case using Suc.IH [of ?q "drop_bit 1 path"] Suc.prems unfolding d by simp
qed simp

text \<open>The cells found by following the path to position \<open>m\<close>.\<close>

corollary heap_find_cell:
  assumes "heap_repr h f n" and "1 \<le> m" and "m < 2 ^ 32" and "m \<le> n + 1" and "heap_path 0 0 (of_nat m) = (path, k)"
  shows "heap_walk h path k Root_cell Root_cell = Some (cell_pos f (max 1 (m div 2)), cell_pos f m)"
  using heap_walk_pos [OF assms(1), of 1 path k] heap_path_root [OF assms(2,3,5)] assms(4) by (simp add: cell_pos_def)

section \<open>The order of the heap\<close>

definition heap_ordered :: "(addr \<Rightarrow> addr \<Rightarrow> bool) \<Rightarrow> (nat \<Rightarrow> addr option) \<Rightarrow> bool" where
  "heap_ordered lt f \<longleftrightarrow> (\<forall>p a b. f p = Some a \<longrightarrow> f (p div 2) = Some b \<longrightarrow> \<not> lt a b)"

text \<open>The order but for the node at \<open>q\<close> and its parent; what is below \<open>q\<close> is in order with what is above it.\<close>

definition up_ordered :: "(addr \<Rightarrow> addr \<Rightarrow> bool) \<Rightarrow> (nat \<Rightarrow> addr option) \<Rightarrow> nat \<Rightarrow> bool" where
  "up_ordered lt f q \<longleftrightarrow> (\<forall>p a b. p \<noteq> q \<longrightarrow> f p = Some a \<longrightarrow> f (p div 2) = Some b \<longrightarrow> \<not> lt a b) \<and>
     (\<forall>p a b. p div 2 = q \<longrightarrow> f p = Some a \<longrightarrow> f (q div 2) = Some b \<longrightarrow> \<not> lt a b)"

text \<open>The order but for the node at \<open>q\<close> with its parent and its children.\<close>

definition down_ordered :: "(addr \<Rightarrow> addr \<Rightarrow> bool) \<Rightarrow> (nat \<Rightarrow> addr option) \<Rightarrow> nat \<Rightarrow> bool" where
  "down_ordered lt f q \<longleftrightarrow> (\<forall>p a b. p \<noteq> q \<longrightarrow> p div 2 \<noteq> q \<longrightarrow> f p = Some a \<longrightarrow> f (p div 2) = Some b \<longrightarrow> \<not> lt a b) \<and>
     (\<forall>p a b. p div 2 = q \<longrightarrow> f p = Some a \<longrightarrow> f (q div 2) = Some b \<longrightarrow> \<not> lt a b)"

lemma heap_ordered_at: "heap_ordered lt f \<Longrightarrow> f p = Some a \<Longrightarrow> f (p div 2) = Some b \<Longrightarrow> \<not> lt a b"
  by (auto simp: heap_ordered_def)

lemma up_ordered_done: "up_ordered lt f q \<Longrightarrow> (\<And>a b. f q = Some a \<Longrightarrow> f (q div 2) = Some b \<Longrightarrow> \<not> lt a b) \<Longrightarrow> heap_ordered lt f"
  unfolding up_ordered_def heap_ordered_def by metis

lemma down_ordered_done: "down_ordered lt f q \<Longrightarrow> (\<And>p a b. p div 2 = q \<Longrightarrow> f p = Some a \<Longrightarrow> f q = Some b \<Longrightarrow> \<not> lt a b) \<Longrightarrow> up_ordered lt f q"
  unfolding up_ordered_def down_ordered_def by metis

text \<open>What the comparison callback has to be: a strict weak order.\<close>

locale node_order =
  fixes lt :: "addr \<Rightarrow> addr \<Rightarrow> bool"
  assumes lt_asym: "lt a b \<Longrightarrow> \<not> lt b a"
    and ge_trans: "\<not> lt a b \<Longrightarrow> \<not> lt b c \<Longrightarrow> \<not> lt a c"
begin

lemma lt_irrefl: "\<not> lt a a"
  using lt_asym by blast

lemma up_step:
  assumes o: "up_ordered lt f q" and q: "f q = Some x" and r: "f (q div 2) = Some y" and lt: "lt x y" and pos: "1 \<le> q div 2"
  shows "up_ordered lt (f(q div 2 := Some x, q := Some y)) (q div 2)"
proof -
  define r where "r = q div 2"
  let ?f = "f(r := Some x, q := Some y)"
  have fr: "f r = Some y" and r1: "1 \<le> r" and rq: "r \<noteq> q" "r div 2 \<noteq> q" "r div 2 \<noteq> r" using r pos by (auto simp: r_def)
  have o1: "\<not> lt a b" if "p \<noteq> q" "f p = Some a" "f (p div 2) = Some b" for p a b using o that unfolding up_ordered_def by blast
  have o2: "\<not> lt a y" if "p div 2 = q" "f p = Some a" for p a using o that r unfolding up_ordered_def by blast
  have yx: "\<not> lt y x" by (rule lt_asym [OF lt])
  have "\<not> lt a b" if p: "p \<noteq> r" and a: "?f p = Some a" and b: "?f (p div 2) = Some b" for p a b
  proof -
    consider "p = q" | "p \<noteq> q" "p div 2 = q" | "p \<noteq> q" "p div 2 = r" | "p \<noteq> q" "p div 2 \<noteq> q" "p div 2 \<noteq> r" by blast
    then show ?thesis
    proof cases
      case 1
      then show ?thesis using a b yx rq(1) by (simp add: r_def [symmetric])
    next
      case 2
      then show ?thesis using a b p o2 [of p] by simp
    next
      case 3
      then have "\<not> lt a y" using o1 [of p a y] a p fr by simp
      then show ?thesis using ge_trans [OF _ yx] 3 b rq(1) by simp
    next
      case 4
      then show ?thesis using o1 [of p a b] a b p by simp
    qed
  qed
  moreover have "\<not> lt a b" if p: "p div 2 = r" and a: "?f p = Some a" and b: "?f (r div 2) = Some b" for p a b
  proof -
    have fb: "f (r div 2) = Some b" using b rq by simp
    have yb: "\<not> lt y b" using o1 [OF rq(1) fr fb] .
    have pr: "p \<noteq> r" using p r1 by auto
    show ?thesis
    proof (cases "p = q")
      case False
      then have "\<not> lt a y" using o1 [of p a y] a p fr pr by simp
      then show ?thesis using yb by (rule ge_trans)
    qed (use a yb in simp)
  qed
  ultimately have "up_ordered lt ?f r" unfolding up_ordered_def by blast
  then show ?thesis by (simp add: r_def)
qed

lemma down_step:
  assumes o: "down_ordered lt f q" and s: "s div 2 = q" "f s = Some y" and q: "f q = Some x" and lt: "lt y x"
    and least: "\<And>p c. p div 2 = q \<Longrightarrow> f p = Some c \<Longrightarrow> \<not> lt c y" and pos: "1 \<le> q"
  shows "down_ordered lt (f(q := Some y, s := Some x)) s"
proof -
  let ?f = "f(q := Some y, s := Some x)"
  have sq: "s \<noteq> q" "q div 2 \<noteq> s" "q div 2 \<noteq> q" using s(1) pos by auto
  have o1: "\<not> lt a b" if "p \<noteq> q" "p div 2 \<noteq> q" "f p = Some a" "f (p div 2) = Some b" for p a b using o that unfolding down_ordered_def by blast
  have "\<not> lt a b" if p: "p \<noteq> s" "p div 2 \<noteq> s" and a: "?f p = Some a" and b: "?f (p div 2) = Some b" for p a b
  proof -
    consider "p = q" | "p \<noteq> q" "p div 2 = q" | "p \<noteq> q" "p div 2 \<noteq> q" by blast
    then show ?thesis
    proof cases
      case 1
      then have "a = y" "f (q div 2) = Some b" using a b sq p by simp_all
      then show ?thesis using o s unfolding down_ordered_def by blast
    next
      case 2
      then show ?thesis using a b p least [of p a] sq by simp
    next
      case 3
      then show ?thesis using o1 [of p a b] a b p by simp
    qed
  qed
  moreover have "\<not> lt a b" if p: "p div 2 = s" and a: "?f p = Some a" and b: "?f (s div 2) = Some b" for p a b
  proof -
    have "p \<noteq> s" "p \<noteq> q" using p s(1) pos by auto
    then show ?thesis using o1 [of p a y] a b p s sq by simp
  qed
  ultimately show ?thesis unfolding down_ordered_def by blast
qed

end

end
