(* ===== verification/Uv_Heap_Queue.thy ===== *)
theory Uv_Heap_Queue
  imports Uv_Heap_Order
begin

text \<open>
  The heap of \<open>src/heap-inl.h\<close> is a priority queue: insertion and removal return, keep the linked nodes a complete
  tree in heap order, and add and remove exactly the node given. The interface is the locale \<open>min_queue\<close>.
\<close>

lemma ran_swap: "f p = Some a \<Longrightarrow> f q = Some b \<Longrightarrow> ran (f(p := Some b, q := Some a)) = ran f"
  by (auto simp: ran_def) (metis option.sel)+

context node_order
begin

lemma sift_up_spec:
  assumes "heap_repr h f n" and "f q = Some a" and "up_ordered lt f q"
  shows "\<exists>h' f'. sift_up lt h a = Some h' \<and> heap_repr h' f' n \<and> heap_ordered lt f' \<and> ran f' = ran f"
  using assms
proof (induction q arbitrary: h f rule: less_induct)
  case (less q)
  note r = less.prems(1) and a = less.prems(2) and o = less.prems(3)
  note par = heap_reprD(8) [OF r a]
  show ?case
  proof (cases "\<exists>p. f (q div 2) = Some p \<and> lt a p")
    case True
    then obtain p where p: "f (q div 2) = Some p" "lt a p" by blast
    let ?f = "f(q div 2 := Some a, q := Some p)"
    have pos: "1 \<le> q div 2" using heap_reprD(10) [OF r p(1)] by blast
    have "heap_repr (heap_node_swap h p a) ?f n" by (rule heap_swap_repr [OF r a p(1)])
    moreover have "up_ordered lt ?f (q div 2)" by (rule up_step [OF o a p pos])
    moreover have lt: "q div 2 < q" using pos by simp
    moreover have "?f (q div 2) = Some a" using lt by simp
    ultimately have "\<exists>h' f'. sift_up lt (heap_node_swap h p a) a = Some h' \<and> heap_repr h' f' n \<and> heap_ordered lt f' \<and> ran f' = ran ?f"
      using less.IH by blast
    then show ?thesis using ran_swap [of f, OF p(1) a] by (simp add: sift_up.simps [of lt h a] par p)
  next
    case False
    then have "sift_up lt h a = Some h" by (simp add: sift_up.simps [of lt h a] par split: option.split)
    moreover have "heap_ordered lt f" using up_ordered_done [OF o] False a by auto
    ultimately show ?thesis using r by blast
  qed
qed

lemma smallest_child_spec:
  assumes r: "heap_repr h f n" and a: "f q = Some a"
  shows "\<exists>s. f s = Some (smallest_child lt h a) \<and> (s = q \<or> s div 2 = q \<and> lt (smallest_child lt h a) a)"
    and "p div 2 = q \<Longrightarrow> f p = Some c \<Longrightarrow> \<not> lt c (smallest_child lt h a)"
proof -
  note na = heap_reprD(6,7) [OF r a]
  define s1 where "s1 = (case f (2 * q) of None \<Rightarrow> a | Some l \<Rightarrow> if lt l a then l else a)"
  define s2 where "s2 = (case f (2 * q + 1) of None \<Rightarrow> s1 | Some x \<Rightarrow> if lt x s1 then x else s1)"
  have eq: "smallest_child lt h a = s2" unfolding smallest_child_def na Let_def s1_def [symmetric] s2_def ..
  have 1: "s1 = a \<or> f (2 * q) = Some s1 \<and> lt s1 a" by (simp add: s1_def split: option.split)
  have 2: "s2 = s1 \<or> f (2 * q + 1) = Some s2 \<and> lt s2 s1" by (simp add: s2_def split: option.split)
  have sa: "s1 = a \<or> lt s1 a" "\<not> lt a s1" using 1 lt_asym lt_irrefl by blast+
  have s12: "\<not> lt s1 s2" using 2 lt_asym lt_irrefl by blast
  have l: "\<not> lt l s1" if "f (2 * q) = Some l" for l using that 1 lt_irrefl by (auto simp: s1_def)
  have x: "\<not> lt x s2" if "f (2 * q + 1) = Some x" for x using that lt_irrefl by (auto simp: s2_def)
  have "lt s2 a" if "lt s2 s1"
    using ge_trans [OF _ sa(2)] that by blast
  then show "\<exists>s. f s = Some (smallest_child lt h a) \<and> (s = q \<or> s div 2 = q \<and> lt (smallest_child lt h a) a)"
    unfolding eq using 1 2 a by (metis div_mult_self1_is_m div_mult_self4 one_div_two_eq_zero add.commute add.right_neutral zero_less_numeral zero_neq_numeral)
  have "p = 2 * q \<or> p = 2 * q + 1" if "p div 2 = q" using that by auto
  then show "\<not> lt c (smallest_child lt h a)" if "p div 2 = q" "f p = Some c"
    unfolding eq using that l x ge_trans [OF _ s12] by blast
qed

end

context node_order
begin

lemma sift_down_spec:
  assumes "heap_repr h f n" and "f q = Some a" and "down_ordered lt f q"
  shows "\<exists>h' f' q'. sift_down lt h a = Some h' \<and> heap_repr h' f' n \<and> f' q' = Some a \<and> up_ordered lt f' q' \<and> ran f' = ran f"
  using assms
proof (induction "n - q" arbitrary: q h f rule: less_induct)
  case less
  note r = less.prems(1) and a = less.prems(2) and o = less.prems(3)
  let ?s = "smallest_child lt h a"
  obtain s where s: "f s = Some ?s" "s = q \<or> s div 2 = q \<and> lt ?s a" using smallest_child_spec(1) [OF r a] by blast
  note least = smallest_child_spec(2) [OF r a]
  note pq = heap_reprD(10) [OF r a] and ps = heap_reprD(10) [OF r s(1)]
  show ?case
  proof (cases "s = q")
    case True
    then have sa: "?s = a" using s a by simp
    then have "sift_down lt h a = Some h" by (simp add: sift_down.simps [of lt h a])
    moreover have "up_ordered lt f q" using down_ordered_done [OF o] least sa a by fastforce
    ultimately show ?thesis using r a by blast
  next
    case False
    then have sq: "s div 2 = q" "lt ?s a" using s(2) by blast+
    then have ne: "?s \<noteq> a" using lt_irrefl by metis
    let ?f = "f(q := Some ?s, s := Some a)"
    have "heap_repr (heap_node_swap h a ?s) ?f n" using heap_swap_repr [OF r s(1)] a sq(1) by simp
    moreover have "down_ordered lt ?f s" by (rule down_step [OF o sq(1) s(1) a sq(2) least]) (use pq in simp_all)
    moreover have "?f s = Some a" by simp
    moreover have "n - s < n - q" using sq(1) ps pq False by auto
    ultimately have "\<exists>h' f' q'. sift_down lt (heap_node_swap h a ?s) a = Some h' \<and> heap_repr h' f' n \<and> f' q' = Some a \<and> up_ordered lt f' q' \<and> ran f' = ran ?f"
      using less.hyps by blast
    moreover have "sift_down lt h a = sift_down lt (heap_node_swap h a ?s) a" using ne by (simp add: sift_down.simps [of lt h a] Let_def)
    ultimately show ?thesis using ran_swap [of f, OF a s(1)] by simp
  qed
qed

end

section \<open>Adding and removing the last position\<close>

lemma heap_reprI:
  assumes "dom f = {1..n}" and "inj_on f (dom f)" and "n < 2 ^ 32" and "hp_nelts h = of_nat n" and "hp_min h = f 1"
    and "\<And>p a. f p = Some a \<Longrightarrow> left_of h a = f (2 * p) \<and> right_of h a = f (2 * p + 1) \<and> parent_of h a = f (p div 2)"
  shows "heap_repr h f n"
  using assms unfolding heap_repr_def by blast

lemma set_cell_fields [simp]:
  "left_of (set_cell c v h) x = (if c = Left_cell x then v else left_of h x)" "right_of (set_cell c v h) x = (if c = Right_cell x then v else right_of h x)"
  "parent_of (set_cell c v h) x = parent_of h x" "hp_min (set_cell c v h) = (if c = Root_cell then v else hp_min h)" "hp_nelts (set_cell c v h) = hp_nelts h"
  by (simp_all add: set_cell_def split: cell.split)

lemma cell_pos_iff:
  assumes r: "heap_repr h f n" and m: "1 \<le> m" "m div 2 \<le> n"
  shows "cell_pos f m = Root_cell \<longleftrightarrow> m = 1" and "f p = Some b \<Longrightarrow> cell_pos f m = Left_cell b \<longleftrightarrow> m = 2 * p" and "f p = Some b \<Longrightarrow> cell_pos f m = Right_cell b \<longleftrightarrow> m = 2 * p + 1"
proof -
  show "cell_pos f m = Root_cell \<longleftrightarrow> m = 1" by (simp add: cell_pos_def)
  assume b: "f p = Some b"
  have p1: "1 \<le> p" using heap_reprD(10) [OF r b] by blast
  have "the (f (m div 2)) = b \<longleftrightarrow> m div 2 = p" if "m \<noteq> 1"
  proof -
    have "1 \<le> m div 2" using m(1) that by presburger
    then obtain c where "f (m div 2) = Some c" using repr_some [OF r _ m(2)] by blast
    then show ?thesis using repr_inj [OF r b, of "m div 2"] by simp
  qed
  then have "cell_pos f m = Left_cell b \<longleftrightarrow> m \<noteq> 1 \<and> even m \<and> m div 2 = p" "cell_pos f m = Right_cell b \<longleftrightarrow> m \<noteq> 1 \<and> odd m \<and> m div 2 = p"
    by (auto simp: cell_pos_def)
  moreover have "m \<noteq> 1 \<and> even m \<and> m div 2 = p \<longleftrightarrow> m = 2 * p" "m \<noteq> 1 \<and> odd m \<and> m div 2 = p \<longleftrightarrow> m = 2 * p + 1" using p1 by presburger+
  ultimately show "cell_pos f m = Left_cell b \<longleftrightarrow> m = 2 * p" "cell_pos f m = Right_cell b \<longleftrightarrow> m = 2 * p + 1" by blast+
qed

lemma repr_set_node: "heap_repr h f n \<Longrightarrow> a \<notin> ran f \<Longrightarrow> heap_repr (set_node a x h) f n"
  unfolding heap_repr_def by (auto simp: ran_def)

lemma inj_on_upd_new: "inj_on f (dom f) \<Longrightarrow> a \<notin> ran f \<Longrightarrow> inj_on (f(p := Some a)) (dom (f(p := Some a)))"
  unfolding inj_on_def dom_def ran_def by (auto split: if_splits)

lemma repr_append:
  assumes r: "heap_repr h f n" and new: "a \<notin> ran f" and n: "n + 1 < 2 ^ 32"
    and node: "left_of h a = None" "right_of h a = None" "parent_of h a = f ((n + 1) div 2)"
  shows "heap_repr (set_cell (cell_pos f (n + 1)) (Some a) h\<lparr>hp_nelts := hp_nelts h + 1\<rparr>) (f(n + 1 := Some a)) (n + 1)"
proof -
  let ?h = "set_cell (cell_pos f (n + 1)) (Some a) h\<lparr>hp_nelts := hp_nelts h + 1\<rparr>"
  let ?f = "f(n + 1 := Some a)"
  note cp = cell_pos_iff [OF r, of "n + 1"]
  have le: "(n + 1) div 2 \<le> n" by simp
  have none: "f p = None" if "n < p" for p using repr_none [OF r] that by blast
  have links: "left_of ?h b = ?f (2 * p) \<and> right_of ?h b = ?f (2 * p + 1) \<and> parent_of ?h b = ?f (p div 2)" if b: "?f p = Some b" for p b
  proof (cases "p = n + 1")
    case True
    then have ba: "b = a" using b by simp
    have "cell_pos f (n + 1) \<noteq> Left_cell a" "cell_pos f (n + 1) \<noteq> Right_cell a"
    proof -
      have "the (f ((n + 1) div 2)) \<noteq> a" if "n + 1 \<noteq> 1"
      proof -
        have "1 \<le> (n + 1) div 2" using that by presburger
        then obtain c where "f ((n + 1) div 2) = Some c" using repr_some [OF r _ le] by blast
        then show ?thesis using new by (auto simp: ran_def)
      qed
      then show "cell_pos f (n + 1) \<noteq> Left_cell a" "cell_pos f (n + 1) \<noteq> Right_cell a" by (auto simp: cell_pos_def)
    qed
    then show ?thesis using node none ba True by auto
  next
    case False
    then have fb: "f p = Some b" using b by simp
    have p: "1 \<le> p" "p \<le> n" using heap_reprD(10) [OF r fb] by blast+
    show ?thesis using cp(2,3) [OF _ le fb] heap_reprD(6-8) [OF r fb] p by auto
  qed
  have dom: "dom ?f = {1..n + 1}" using heap_reprD(1) [OF r] by auto
  have inj: "inj_on ?f (dom ?f)" by (rule inj_on_upd_new [OF heap_reprD(2) [OF r] new])
  have min: "hp_min ?h = ?f 1" using heap_reprD(5) [OF r] cp(1) [OF _ le] by simp
  have nelts: "hp_nelts ?h = of_nat (n + 1)" using heap_reprD(4) [OF r] by simp
  show ?thesis by (rule heap_reprI [OF dom inj n nelts min links])
qed

lemma repr_unlink:
  assumes r: "heap_repr h f n" and n: "1 \<le> n"
  shows "heap_repr (set_cell (cell_pos f n) None (h\<lparr>hp_nelts := hp_nelts h - 1\<rparr>)) (f(n := None)) (n - 1)"
proof -
  let ?h = "set_cell (cell_pos f n) None (h\<lparr>hp_nelts := hp_nelts h - 1\<rparr>)"
  let ?f = "f(n := None)"
  have le: "n div 2 \<le> n" by simp
  note cp = cell_pos_iff [OF r n le]
  have links: "left_of ?h b = ?f (2 * p) \<and> right_of ?h b = ?f (2 * p + 1) \<and> parent_of ?h b = ?f (p div 2)" if b: "?f p = Some b" for p b
  proof -
    have fb: "f p = Some b" using b by (simp split: if_splits)
    have p: "1 \<le> p" "p \<le> n" using heap_reprD(10) [OF r fb] by blast+
    show ?thesis using cp(2,3) [OF fb] heap_reprD(6-8) [OF r fb] p by auto
  qed
  have dom: "dom ?f = {1..n - 1}" using heap_reprD(1) [OF r] by auto
  have inj: "inj_on ?f (dom ?f)" using heap_reprD(2) [OF r] by (auto simp: inj_on_def dom_def)
  have min: "hp_min ?h = ?f 1" using heap_reprD(5) [OF r] cp(1) by auto
  have nelts: "hp_nelts ?h = of_nat (n - 1)" using heap_reprD(4) [OF r] n by (simp add: of_nat_diff)
  show ?thesis by (rule heap_reprI [OF dom inj _ nelts min links]) (use heap_reprD(3) [OF r] in simp)
qed

text \<open>The node at \<open>q\<close> gives its place and its links to a node that is not in the tree.\<close>

lemma repr_replace:
  assumes r: "heap_repr h f n" and a: "f q = Some a" and new: "c \<notin> ran f"
    and h1: "h1 = set_node c \<lparr>hn_left = left_of h a, hn_right = right_of h a, hn_parent = parent_of h a\<rparr> h"
    and h2: "h2 = link_parent (left_of h1 c) c h1" and h3: "h3 = link_parent (right_of h2 c) c h2"
  shows "heap_repr (replace_child (parent_of h3 a) a c h3) (f(q := Some c)) n"
proof -
  let ?h = "replace_child (parent_of h3 a) a c h3"
  let ?f = "f(q := Some c)"
  have q: "1 \<le> q" "q \<le> n" using heap_reprD(10) [OF r a] by blast+
  note na = heap_reprD(6-8) [OF r a] and ia = repr_inj [OF r a]
  have ca: "c \<noteq> a" and cf: "f p \<noteq> Some c" for p using new a by (auto simp: ran_def)
  have f3: "left_of h3 x = (if x = c then f (2 * q) else left_of h x)" "right_of h3 x = (if x = c then f (2 * q + 1) else right_of h x)"
      "parent_of h3 x = (if f (2 * q) = Some x \<or> f (2 * q + 1) = Some x then Some c else if x = c then f (q div 2) else parent_of h x)" for x
    by (auto simp: h1 h2 h3 na)
  have pa: "parent_of h3 a = f (q div 2)" using ia [of "2 * q"] ia [of "2 * q + 1"] ca q na unfolding f3 by auto
  have up: "f (q div 2) = None \<longleftrightarrow> q = 1" using repr_none [OF r, of "q div 2"] q by auto
  have links: "left_of ?h b = ?f (2 * p) \<and> right_of ?h b = ?f (2 * p + 1) \<and> parent_of ?h b = ?f (p div 2)" if b: "?f p = Some b" for p b
  proof (cases "p = q")
    case True
    then have bc: "b = c" using b by simp
    have "2 * q \<noteq> q" "2 * q + 1 \<noteq> q" "q div 2 \<noteq> q" using q(1) by auto
    then have "?f (2 * q) = f (2 * q)" "?f (2 * q + 1) = f (2 * q + 1)" "?f (q div 2) = f (q div 2)" by (simp_all only: fun_upd_apply if_False)
    moreover have "left_of ?h c = f (2 * q)" "right_of ?h c = f (2 * q + 1)" "parent_of ?h c = f (q div 2)"
      unfolding replace_child_fields pa unfolding f3 by (simp_all only: cf if_True if_False simp_thms)
    ultimately show ?thesis unfolding bc True by (simp only: simp_thms)
  next
    case False
    then have fb: "f p = Some b" using b by simp
    note ib = repr_inj [OF r fb] and nb = heap_reprD(6-8) [OF r fb]
    have bc: "b \<noteq> c" using cf fb by blast
    have p: "1 \<le> p" using heap_reprD(10) [OF r fb] by blast
    have pos: "(q div 2 = p \<and> 2 * p = q) \<longleftrightarrow> 2 * p = q" "(q div 2 = p \<and> 2 * p \<noteq> q) \<longleftrightarrow> 2 * p + 1 = q" "(2 * q = p \<or> 2 * q + 1 = p) \<longleftrightarrow> p div 2 = q"
      using q p False by auto
    show ?thesis unfolding replace_child_fields pa unfolding f3 by (simp only: bc if_False nb ib ia pos fun_upd_apply simp_thms)
  qed
  have dom: "dom ?f = {1..n}" using heap_reprD(1) [OF r] q by auto
  have inj: "inj_on ?f (dom ?f)" by (rule inj_on_upd_new [OF heap_reprD(2) [OF r] new])
  have nelts: "hp_nelts ?h = of_nat n" using heap_reprD(4) [OF r] by (simp add: h1 h2 h3)
  have min: "hp_min ?h = ?f 1" unfolding replace_child_fields pa up using heap_reprD(5) [OF r] by (simp add: h1 h2 h3)
  show ?thesis by (rule heap_reprI [OF dom inj heap_reprD(3) [OF r] nelts min links])
qed

section \<open>Insertion and removal\<close>

definition is_heap :: "(addr \<Rightarrow> addr \<Rightarrow> bool) \<Rightarrow> heap \<Rightarrow> addr set \<Rightarrow> bool" where
  "is_heap lt h S \<longleftrightarrow> (\<exists>f n. heap_repr h f n \<and> heap_ordered lt f \<and> ran f = S)"

lemma repr_card:
  assumes "heap_repr h f n"
  shows "card (ran f) = n" and "finite (ran f)"
proof -
  have "Some ` ran f = f ` dom f" by (auto simp: ran_def dom_def image_iff) metis+
  moreover have "card (f ` dom f) = n" using card_image [OF heap_reprD(2) [OF assms]] heap_reprD(1) [OF assms] by simp
  ultimately show "card (ran f) = n" using card_image [of Some "ran f"] by simp
  show "finite (ran f)" using heap_reprD(1) [OF assms] by (simp add: finite_ran)
qed

lemma ran_delete:
  assumes "heap_repr h f n" and "f p = Some a"
  shows "ran (f(p := None)) = ran f - {a}"
proof (intro set_eqI iffI)
  fix x
  assume "x \<in> ran f - {a}"
  then obtain q where "f q = Some x" "x \<noteq> a" by (auto simp: ran_def)
  then have "(f(p := None)) q = Some x" using assms(2) by auto
  then show "x \<in> ran (f(p := None))" by (rule ranI)
qed (use repr_inj [OF assms] in \<open>auto simp: ran_def split: if_splits\<close>)

lemma ran_replace:
  assumes "heap_repr h f n" and "f q = Some a"
  shows "ran (f(q := Some c)) = insert c (ran f - {a})"
  using ran_map_upd [of "f(q := None)" q c] ran_delete [OF assms] by simp

context node_order
begin

lemma heap_min_repr:
  assumes r: "heap_repr h f n" and o: "heap_ordered lt f" and m: "f 1 = Some m" and a: "f p = Some a"
  shows "\<not> lt a m"
  using a
proof (induction p arbitrary: a rule: less_induct)
  case (less p)
  have p: "1 \<le> p" "p \<le> n" using heap_reprD(10) [OF r less.prems] by blast+
  show ?case
  proof (cases "p = 1")
    case True
    then show ?thesis using less.prems m lt_irrefl by simp
  next
    case False
    then have "1 \<le> p div 2" "p div 2 < p" using p(1) by presburger+
    moreover obtain b where b: "f (p div 2) = Some b" using repr_some [OF r, of "p div 2"] calculation p(2) by fastforce
    ultimately have "\<not> lt b m" using less.IH by blast
    then show ?thesis using ge_trans [OF heap_ordered_at [OF o less.prems b]] by blast
  qed
qed

lemma heap_insert_spec:
  assumes "is_heap lt h S" and new: "a \<notin> S" and n: "card S + 1 < 2 ^ 32"
  shows "\<exists>h'. heap_insert lt h a = Some h' \<and> is_heap lt h' (insert a S)"
proof -
  obtain f n where r0: "heap_repr h f n" and o: "heap_ordered lt f" and S: "ran f = S" using assms(1) unfolding is_heap_def by blast
  have new': "a \<notin> ran f" and n': "n + 1 < 2 ^ 32" using new n S repr_card(1) [OF r0] by auto
  define h1 where "h1 = set_node a \<lparr>hn_left = None, hn_right = None, hn_parent = None\<rparr> h"
  have r1: "heap_repr h1 f n" unfolding h1_def by (rule repr_set_node [OF r0 new'])
  obtain path k where pk: "heap_path 0 0 (of_nat (n + 1)) = (path, k)" by fastforce
  have walk: "heap_walk h1 path k Root_cell Root_cell = Some (cell_pos f (max 1 ((n + 1) div 2)), cell_pos f (n + 1))"
    by (rule heap_find_cell [OF r1 _ n' _ pk]) simp_all
  have par: "get_cell h1 (cell_pos f (max 1 ((n + 1) div 2))) = f ((n + 1) div 2)"
    using get_cell_pos [OF r1, of "max 1 ((n + 1) div 2)"] heap_reprD(9) [OF r1] repr_none [OF r1, of 1] by (cases "n = 0") (auto simp: max_def)
  define h2 where "h2 = set_parent a (f ((n + 1) div 2)) h1"
  have h2: "h2 = set_node a \<lparr>hn_left = None, hn_right = None, hn_parent = f ((n + 1) div 2)\<rparr> h" by (simp add: h2_def h1_def set_parent_def set_node_def)
  let ?f = "f(n + 1 := Some a)"
  define h4 where "h4 = set_cell (cell_pos f (n + 1)) (Some a) h2\<lparr>hp_nelts := hp_nelts h2 + 1\<rparr>"
  have r4: "heap_repr h4 ?f (n + 1)"
    unfolding h4_def by (rule repr_append [OF _ new' n']) (use repr_set_node [OF r0 new'] in \<open>simp_all add: h2\<close>)
  have none: "f p = None" if "n < p" for p using repr_none [OF r0] that by blast
  have "up_ordered lt ?f (n + 1)"
    unfolding up_ordered_def using heap_ordered_at [OF o] none by (auto split: if_splits)
  from sift_up_spec [OF r4 _ this, of a] obtain h' f' where
    up: "sift_up lt h4 a = Some h'" "heap_repr h' f' (n + 1)" "heap_ordered lt f'" "ran f' = ran ?f" by auto
  have "ran ?f = insert a S" using ran_map_upd [of f "n + 1" a] none [of "n + 1"] S by simp
  then have "is_heap lt h' (insert a S)" unfolding is_heap_def using up(2-4) by metis
  moreover have "heap_insert lt h a = sift_up lt h4 a"
    unfolding heap_insert_def h1_def [symmetric] Let_def heap_reprD(4) [OF r1]
    using pk walk par by (simp add: h2_def h4_def)
  ultimately show ?thesis using up(1) by simp
qed

end

context node_order
begin

lemma down_ordered_replace:
  assumes r: "heap_repr h f n" and o: "heap_ordered lt f" and q: "f q = Some a"
  shows "down_ordered lt (f(q := Some c)) q"
proof -
  have "1 \<le> q" using heap_reprD(10) [OF r q] by blast
  then have q2: "q div 2 \<noteq> q" by auto
  have "\<not> lt x y" if "p div 2 = q" "(f(q := Some c)) p = Some x" "(f(q := Some c)) (q div 2) = Some y" for p x y
  proof -
    have "p \<noteq> q" "f p = Some x" "f (q div 2) = Some y" using that q2 by (auto split: if_splits)
    then show ?thesis using ge_trans [OF heap_ordered_at [OF o, of p x a] heap_ordered_at [OF o q]] that(1) q by blast
  qed
  moreover have "\<not> lt x y" if "p \<noteq> q" "p div 2 \<noteq> q" "(f(q := Some c)) p = Some x" "(f(q := Some c)) (p div 2) = Some y" for p x y
    using that heap_ordered_at [OF o, of p x y] by simp
  ultimately show ?thesis unfolding down_ordered_def by blast
qed

text \<open>The node at \<open>q\<close> replaced by one outside the tree, sifted to its place.\<close>

lemma replace_sift_spec:
  assumes r: "heap_repr h f n" and o: "heap_ordered lt f" and q: "f q = Some a" and new: "c \<notin> ran f"
    and h1: "h1 = set_node c \<lparr>hn_left = left_of h a, hn_right = right_of h a, hn_parent = parent_of h a\<rparr> h"
    and h2: "h2 = link_parent (left_of h1 c) c h1" and h3: "h3 = link_parent (right_of h2 c) c h2"
  shows "\<exists>h'. (case sift_down lt (replace_child (parent_of h3 a) a c h3) c of None \<Rightarrow> None | Some h' \<Rightarrow> sift_up lt h' c) = Some h' \<and>
           is_heap lt h' (insert c (ran f - {a}))"
proof -
  let ?g = "f(q := Some c)"
  have rg: "heap_repr (replace_child (parent_of h3 a) a c h3) ?g n" by (rule repr_replace [OF r q new h1 h2 h3])
  have og: "down_ordered lt ?g q" by (rule down_ordered_replace [OF r o q])
  obtain h7 f7 q7 where 7: "sift_down lt (replace_child (parent_of h3 a) a c h3) c = Some h7" "heap_repr h7 f7 n" "f7 q7 = Some c" "up_ordered lt f7 q7" "ran f7 = ran ?g"
    using sift_down_spec [OF rg _ og, of c] by auto
  obtain h8 f8 where 8: "sift_up lt h7 c = Some h8" "heap_repr h8 f8 n" "heap_ordered lt f8" "ran f8 = ran f7"
    using sift_up_spec [OF 7(2-4)] by blast
  have "is_heap lt h8 (insert c (ran f - {a}))" unfolding is_heap_def using 8 7(5) ran_replace [OF r q] by metis
  then show ?thesis using 7(1) 8(1) by simp
qed

lemma heap_remove_spec:
  assumes "is_heap lt h S" and "a \<in> S"
  shows "\<exists>h'. heap_remove lt h a = Some h' \<and> is_heap lt h' (S - {a})"
proof -
  obtain f n where r0: "heap_repr h f n" and o: "heap_ordered lt f" and S: "ran f = S" using assms(1) unfolding is_heap_def by blast
  obtain q where q: "f q = Some a" using assms(2) S by (auto simp: ran_def)
  have n1: "1 \<le> n" using heap_reprD(10) [OF r0 q] by simp
  note n32 = heap_reprD(3) [OF r0]
  have "unat (hp_nelts h) = n" using heap_reprD(4) [OF r0] n32 by (simp add: unat_of_nat)
  then have ne: "hp_nelts h \<noteq> 0" using n1 by auto
  obtain path k where pk: "heap_path 0 0 (hp_nelts h) = (path, k)" by fastforce
  obtain c where c: "f n = Some c" using repr_some [OF r0 n1] by blast
  have walk: "heap_walk h path k Root_cell Root_cell = Some (cell_pos f (max 1 (n div 2)), cell_pos f n)"
    by (rule heap_find_cell [OF r0 n1 n32 _ pk [unfolded heap_reprD(4) [OF r0]]]) simp
  have get: "get_cell (h\<lparr>hp_nelts := hp_nelts h - 1\<rparr>) (cell_pos f n) = Some c"
    using get_cell_pos [OF r0 n1] c by (simp add: get_cell_def split: cell.splits)
  let ?f = "f(n := None)"
  define h2 where "h2 = set_cell (cell_pos f n) None (h\<lparr>hp_nelts := hp_nelts h - 1\<rparr>)"
  have r2: "heap_repr h2 ?f (n - 1)" unfolding h2_def by (rule repr_unlink [OF r0 n1])
  have o2: "heap_ordered lt ?f" unfolding heap_ordered_def using heap_ordered_at [OF o] by auto
  have ran2: "ran ?f = S - {c}" using ran_delete [OF r0 c] S by simp
  note rem = heap_remove_def [of lt h a] ne pk walk get h2_def [symmetric]
  show ?thesis
  proof (cases "c = a")
    case True
    have "f 1 \<noteq> Some c \<or> n = 1" using repr_inj [OF r0 c] by auto
    then have "hp_min h2 \<noteq> Some c" using heap_reprD(5) [OF r2] by auto
    then have "heap_remove lt h a = Some h2" using True by (simp add: rem)
    then show ?thesis unfolding is_heap_def using r2 o2 ran2 True by blast
  next
    case False
    then have qn: "?f q = Some a" using q c by auto
    define h3 where "h3 = set_node c \<lparr>hn_left = left_of h2 a, hn_right = right_of h2 a, hn_parent = parent_of h2 a\<rparr> h2"
    define h4 where "h4 = link_parent (left_of h3 c) c h3"
    define h5 where "h5 = link_parent (right_of h4 c) c h4"
    have "heap_remove lt h a = (case sift_down lt (replace_child (parent_of h5 a) a c h5) c of None \<Rightarrow> None | Some h' \<Rightarrow> sift_up lt h' c)"
      using False by (simp add: rem Let_def h3_def h4_def h5_def)
    moreover have "insert c (ran ?f - {a}) = S - {a}" using ran2 False c S by (auto simp: ran_def)
    moreover have "c \<notin> ran ?f" using ran2 by blast
    ultimately show ?thesis using replace_sift_spec [OF r2 o2 qn _ h3_def h4_def h5_def] by (simp only: not_False_eq_True simp_thms)
  qed
qed

end

section \<open>The interface\<close>

text \<open>
  What a client relies on: a queue of nodes whose order is given by a comparison, that may be changed for nodes
  outside the queue.
\<close>

definition strict_order :: "(addr \<Rightarrow> addr \<Rightarrow> bool) \<Rightarrow> bool" where
  "strict_order lt \<longleftrightarrow> (\<forall>a b. lt a b \<longrightarrow> \<not> lt b a) \<and> (\<forall>a b c. \<not> lt a b \<longrightarrow> \<not> lt b c \<longrightarrow> \<not> lt a c)"

lemma strict_order_iff: "strict_order lt \<longleftrightarrow> node_order lt"
  unfolding strict_order_def node_order_def by blast

locale min_queue =
  fixes queue :: "(addr \<Rightarrow> addr \<Rightarrow> bool) \<Rightarrow> 'q \<Rightarrow> addr set \<Rightarrow> bool"
    and first :: "'q \<Rightarrow> addr option"
    and enq :: "(addr \<Rightarrow> addr \<Rightarrow> bool) \<Rightarrow> 'q \<Rightarrow> addr \<Rightarrow> 'q option"
    and del :: "(addr \<Rightarrow> addr \<Rightarrow> bool) \<Rightarrow> 'q \<Rightarrow> addr \<Rightarrow> 'q option"
  assumes queue_finite: "queue lt q S \<Longrightarrow> finite S"
    and first_none: "queue lt q S \<Longrightarrow> first q = None \<longleftrightarrow> S = {}"
    and first_least: "strict_order lt \<Longrightarrow> queue lt q S \<Longrightarrow> first q = Some m \<Longrightarrow> m \<in> S \<and> (\<forall>a \<in> S. \<not> lt a m)"
    and enq_queue: "strict_order lt \<Longrightarrow> queue lt q S \<Longrightarrow> a \<notin> S \<Longrightarrow> card S + 1 < 2 ^ 32 \<Longrightarrow> \<exists>q'. enq lt q a = Some q' \<and> queue lt q' (insert a S)"
    and del_queue: "strict_order lt \<Longrightarrow> queue lt q S \<Longrightarrow> a \<in> S \<Longrightarrow> \<exists>q'. del lt q a = Some q' \<and> queue lt q' (S - {a})"
    and queue_cong: "queue lt q S \<Longrightarrow> (\<And>a b. a \<in> S \<Longrightarrow> b \<in> S \<Longrightarrow> lt' a b = lt a b) \<Longrightarrow> queue lt' q S"
begin

lemma first_some: "queue lt q S \<Longrightarrow> S \<noteq> {} \<Longrightarrow> \<exists>m. first q = Some m"
  using first_none by blast

lemma del_first:
  assumes "strict_order lt" and "queue lt q S" and "S \<noteq> {}"
  obtains m q' where "first q = Some m" "m \<in> S" "\<And>a. a \<in> S \<Longrightarrow> \<not> lt a m" "del lt q m = Some q'" "queue lt q' (S - {m})"
proof -
  obtain m where m: "first q = Some m" using first_some [OF assms(2,3)] by blast
  note l = first_least [OF assms(1,2) m]
  obtain q' where "del lt q m = Some q'" "queue lt q' (S - {m})" using del_queue [OF assms(1,2)] l by blast
  then show ?thesis using that m l by blast
qed

text \<open>A node that is taken out and put back with a new key.\<close>

lemma requeue:
  assumes lt: "strict_order lt" and lt': "strict_order lt'" and q: "queue lt q S" and a: "a \<in> S" and S: "card S < 2 ^ 32"
    and same: "\<And>x y. x \<in> S - {a} \<Longrightarrow> y \<in> S - {a} \<Longrightarrow> lt' x y = lt x y"
  shows "\<exists>q1 q2. del lt q a = Some q1 \<and> enq lt' q1 a = Some q2 \<and> queue lt' q2 S"
proof -
  obtain q1 where q1: "del lt q a = Some q1" "queue lt q1 (S - {a})" using del_queue [OF lt q a] by blast
  have q1': "queue lt' q1 (S - {a})" by (rule queue_cong [OF q1(2) same])
  have "card (S - {a}) + 1 < 2 ^ 32" using S card.remove [OF queue_finite [OF q] a] by simp
  then obtain q2 where "enq lt' q1 a = Some q2" "queue lt' q2 (insert a (S - {a}))" using enq_queue [OF lt' q1'] by blast
  then show ?thesis using q1(1) a by (auto simp: insert_absorb)
qed

end

lemma repr_min_none: "heap_repr h f n \<Longrightarrow> hp_min h = None \<longleftrightarrow> ran f = {}"
  using repr_none [of h f n 1] heap_reprD(1,5) [of h f n] by (cases "n = 0") (auto simp: ran_def dom_def)

interpretation uv_heap: min_queue is_heap heap_min heap_insert heap_remove
proof unfold_locales
  fix lt q S
  assume h: "is_heap lt q S"
  show "finite S" using h repr_card(2) unfolding is_heap_def by blast
  show "heap_min q = None \<longleftrightarrow> S = {}" using h repr_min_none unfolding is_heap_def heap_min_def by blast
  show "is_heap lt' q S" if "\<And>a b. a \<in> S \<Longrightarrow> b \<in> S \<Longrightarrow> lt' a b = lt a b" for lt'
    using h that unfolding is_heap_def heap_ordered_def ran_def by blast
  assume "strict_order lt"
  then have lt: "node_order lt" by (simp add: strict_order_iff)
  show "m \<in> S \<and> (\<forall>a \<in> S. \<not> lt a m)" if "heap_min q = Some m" for m
  proof -
    obtain f n where r: "heap_repr q f n" "heap_ordered lt f" "ran f = S" using h unfolding is_heap_def by blast
    have m: "f 1 = Some m" using that heap_reprD(5) [OF r(1)] by (simp add: heap_min_def)
    show ?thesis using node_order.heap_min_repr [OF lt r(1,2) m] m r(3) by (auto simp: ran_def)
  qed
  show "\<exists>q'. heap_insert lt q a = Some q' \<and> is_heap lt q' (insert a S)" if "a \<notin> S" "card S + 1 < 2 ^ 32" for a
    by (rule node_order.heap_insert_spec [OF lt h that])
  show "\<exists>q'. heap_remove lt q a = Some q' \<and> is_heap lt q' (S - {a})" if "a \<in> S" for a
    by (rule node_order.heap_remove_spec [OF lt h that])
qed

lemma heap_init_empty: "is_heap lt (heap_init h) {}"
  unfolding is_heap_def heap_repr_def heap_ordered_def heap_init_def
  by (intro exI [of _ "\<lambda>p. None"] exI [of _ 0]) auto


text \<open>C26: The linked heap is a priority queue. For a strict weak order, on a heap of the nodes \<open>S\<close>: inserting a new node and removing a
  node return, keep the nodes a complete tree in heap order, and add and remove exactly that node; the minimum is NULL for the empty
  heap only, and otherwise a node of the heap before which no other comes.\<close>

theorem heap_refines_queue:
  assumes "strict_order lt" and "is_heap lt h S"
  shows "(a \<notin> S \<and> card S + 1 < 2 ^ 32 \<longrightarrow> (\<exists>h'. heap_insert lt h a = Some h' \<and> is_heap lt h' (insert a S))) \<and>
    (a \<in> S \<longrightarrow> (\<exists>h'. heap_remove lt h a = Some h' \<and> is_heap lt h' (S - {a}))) \<and>
    (case heap_min h of None \<Rightarrow> S = {} \<and> heap_dequeue lt h = Some h
     | Some m \<Rightarrow> m \<in> S \<and> (\<forall>b \<in> S. \<not> lt b m) \<and> (\<exists>h'. heap_dequeue lt h = Some h' \<and> is_heap lt h' (S - {m})))"
proof (intro conjI impI)
  show "\<exists>h'. heap_insert lt h a = Some h' \<and> is_heap lt h' (insert a S)" if "a \<notin> S \<and> card S + 1 < 2 ^ 32"
    using uv_heap.enq_queue [OF assms] that by blast
  show "\<exists>h'. heap_remove lt h a = Some h' \<and> is_heap lt h' (S - {a})" if "a \<in> S"
    by (rule uv_heap.del_queue [OF assms that])
  show "case heap_min h of None \<Rightarrow> S = {} \<and> heap_dequeue lt h = Some h
     | Some m \<Rightarrow> m \<in> S \<and> (\<forall>b \<in> S. \<not> lt b m) \<and> (\<exists>h'. heap_dequeue lt h = Some h' \<and> is_heap lt h' (S - {m}))"
  proof (cases "heap_min h")
    case None
    obtain f n where r: "heap_repr h f n" "ran f = S" using assms(2) unfolding is_heap_def by blast
    have S: "S = {}" using uv_heap.first_none [OF assms(2)] None by blast
    then have "n = 0" using repr_card(1) [OF r(1)] r(2) by simp
    then have "hp_nelts h = 0" using heap_reprD(4) [OF r(1)] by simp
    then show ?thesis using None S by (simp add: heap_dequeue_def heap_min_def)
  next
    case (Some m)
    note l = uv_heap.first_least [OF assms Some]
    then show ?thesis using uv_heap.del_queue [OF assms, of m] Some by (simp add: heap_dequeue_def heap_min_def)
  qed
qed

theorem heap_refines_queue_witness:
  "\<exists>h'. heap_insert (\<lambda>a b. a < b) (heap_init \<lparr>hp_min = Some 5, hp_nelts = 9, hp_nodes = \<lambda>a. \<lparr>hn_left = None, hn_right = None, hn_parent = None\<rparr>\<rparr>) 3 = Some h' \<and> is_heap (\<lambda>a b. a < b) h' {3}"
proof -
  have "strict_order (\<lambda>a b. a < b)" by (auto simp: strict_order_def)
  from heap_refines_queue [OF this heap_init_empty, of 3] show ?thesis by simp
qed

end
