(* ===== verification/Uv_Queue.thy ===== *)
theory Uv_Queue
  imports Prelude
begin

text \<open>
  \<open>src/queue.h\<close> of libuv: the circular doubly linked list. Every operation is a macro on the two links of the nodes;
  the store maps addresses to the links, and each definition makes the writes of its macro in their order. A ring
  with head \<open>h\<close> and members \<open>xs\<close> is related to the list \<open>xs\<close>, and every operation refines the operation on lists.
\<close>

record 'a qnode =
  q_next :: 'a
  q_prev :: 'a

type_synonym 'a qstore = "'a \<Rightarrow> 'a qnode"

abbreviation QUEUE_NEXT :: "'a qstore \<Rightarrow> 'a \<Rightarrow> 'a" where
  "QUEUE_NEXT s q \<equiv> q_next (s q)"

abbreviation QUEUE_PREV :: "'a qstore \<Rightarrow> 'a \<Rightarrow> 'a" where
  "QUEUE_PREV s q \<equiv> q_prev (s q)"

definition set_next :: "'a \<Rightarrow> 'a \<Rightarrow> 'a qstore \<Rightarrow> 'a qstore" where
  "set_next q v s = s(q := (s q)\<lparr>q_next := v\<rparr>)"

definition set_prev :: "'a \<Rightarrow> 'a \<Rightarrow> 'a qstore \<Rightarrow> 'a qstore" where
  "set_prev q v s = s(q := (s q)\<lparr>q_prev := v\<rparr>)"

definition set_prev_next :: "'a \<Rightarrow> 'a \<Rightarrow> 'a qstore \<Rightarrow> 'a qstore" where
  "set_prev_next q v s = set_next (QUEUE_PREV s q) v s"

definition set_next_prev :: "'a \<Rightarrow> 'a \<Rightarrow> 'a qstore \<Rightarrow> 'a qstore" where
  "set_next_prev q v s = set_prev (QUEUE_NEXT s q) v s"

definition QUEUE_EMPTY :: "'a qstore \<Rightarrow> 'a \<Rightarrow> bool" where
  "QUEUE_EMPTY s q \<longleftrightarrow> q = QUEUE_NEXT s q"

definition QUEUE_HEAD :: "'a qstore \<Rightarrow> 'a \<Rightarrow> 'a" where
  "QUEUE_HEAD s q = QUEUE_NEXT s q"

definition QUEUE_INIT :: "'a \<Rightarrow> 'a qstore \<Rightarrow> 'a qstore" where
  "QUEUE_INIT q s = (let s = set_next q q s in set_prev q q s)"

definition QUEUE_ADD :: "'a \<Rightarrow> 'a \<Rightarrow> 'a qstore \<Rightarrow> 'a qstore" where
  "QUEUE_ADD h n s =
     (let s = set_prev_next h (QUEUE_NEXT s n) s;
          s = set_next_prev n (QUEUE_PREV s h) s;
          s = set_prev h (QUEUE_PREV s n) s
      in set_prev_next h h s)"

definition QUEUE_SPLIT :: "'a \<Rightarrow> 'a \<Rightarrow> 'a \<Rightarrow> 'a qstore \<Rightarrow> 'a qstore" where
  "QUEUE_SPLIT h q n s =
     (let s = set_prev n (QUEUE_PREV s h) s;
          s = set_prev_next n n s;
          s = set_next n q s;
          s = set_prev h (QUEUE_PREV s q) s;
          s = set_prev_next h h s
      in set_prev q n s)"

definition QUEUE_MOVE :: "'a \<Rightarrow> 'a \<Rightarrow> 'a qstore \<Rightarrow> 'a qstore" where
  "QUEUE_MOVE h n s = (if QUEUE_EMPTY s h then QUEUE_INIT n s else QUEUE_SPLIT h (QUEUE_HEAD s h) n s)"

definition QUEUE_INSERT_HEAD :: "'a \<Rightarrow> 'a \<Rightarrow> 'a qstore \<Rightarrow> 'a qstore" where
  "QUEUE_INSERT_HEAD h q s =
     (let s = set_next q (QUEUE_NEXT s h) s;
          s = set_prev q h s;
          s = set_next_prev q q s
      in set_next h q s)"

definition QUEUE_INSERT_TAIL :: "'a \<Rightarrow> 'a \<Rightarrow> 'a qstore \<Rightarrow> 'a qstore" where
  "QUEUE_INSERT_TAIL h q s =
     (let s = set_next q h s;
          s = set_prev q (QUEUE_PREV s h) s;
          s = set_prev_next q q s
      in set_prev h q s)"

definition QUEUE_REMOVE :: "'a \<Rightarrow> 'a qstore \<Rightarrow> 'a qstore" where
  "QUEUE_REMOVE q s =
     (let s = set_prev_next q (QUEUE_NEXT s q) s
      in set_next_prev q (QUEUE_PREV s q) s)"

text \<open>The members visited by \<open>QUEUE_FOREACH\<close>, from a member \<open>q\<close> to the head \<open>h\<close>.\<close>

partial_function (option) QUEUE_FOREACH_from :: "'a qstore \<Rightarrow> 'a \<Rightarrow> 'a \<Rightarrow> 'a list option" where
  "QUEUE_FOREACH_from s h q =
     (if q = h then Some []
      else Option.bind (QUEUE_FOREACH_from s h (QUEUE_NEXT s q)) (\<lambda>qs. Some (q # qs)))"

definition QUEUE_FOREACH :: "'a qstore \<Rightarrow> 'a \<Rightarrow> 'a list option" where
  "QUEUE_FOREACH s h = QUEUE_FOREACH_from s h (QUEUE_NEXT s h)"

section \<open>Chains of links\<close>

fun linked :: "'a qstore \<Rightarrow> 'a list \<Rightarrow> bool" where
  "linked s (a # b # xs) \<longleftrightarrow> QUEUE_NEXT s a = b \<and> QUEUE_PREV s b = a \<and> linked s (b # xs)"
| "linked s _ \<longleftrightarrow> True"

definition ring :: "'a qstore \<Rightarrow> 'a \<Rightarrow> 'a list \<Rightarrow> bool" where
  "ring s h xs \<longleftrightarrow> distinct (h # xs) \<and> linked s (h # xs @ [h])"

lemma linked_append: "linked s (xs @ a # ys) \<longleftrightarrow> linked s (xs @ [a]) \<and> linked s (a # ys)"
proof (induction xs)
  case (Cons x xs)
  then show ?case by (cases xs) auto
qed simp

lemma linked_two: "linked s (xs @ [a, b]) \<longleftrightarrow> linked s (xs @ [a]) \<and> QUEUE_NEXT s a = b \<and> QUEUE_PREV s b = a"
  using linked_append [of s xs a "[b]"] by simp

lemma links_simps [simp]:
  "QUEUE_NEXT (set_next q v s) x = (if x = q then v else QUEUE_NEXT s x)" "QUEUE_PREV (set_next q v s) x = QUEUE_PREV s x"
  "QUEUE_PREV (set_prev q v s) x = (if x = q then v else QUEUE_PREV s x)" "QUEUE_NEXT (set_prev q v s) x = QUEUE_NEXT s x"
  by (simp_all add: set_next_def set_prev_def)

text \<open>A chain depends on the next links of all but its last member and on the previous links of all but its first.\<close>

lemma linked_cong:
  "linked s xs \<Longrightarrow> (\<And>x. x \<in> set (butlast xs) \<Longrightarrow> QUEUE_NEXT s' x = QUEUE_NEXT s x) \<Longrightarrow> (\<And>x. x \<in> set (tl xs) \<Longrightarrow> QUEUE_PREV s' x = QUEUE_PREV s x) \<Longrightarrow> linked s' xs"
proof (induction s xs rule: linked.induct)
  case (1 s a b xs)
  then show ?case by (cases xs) auto
qed auto

section \<open>The operations on rings\<close>

lemma ring_distinct: "ring s h xs \<Longrightarrow> distinct (h # xs)"
  by (simp add: ring_def)

lemma ring_next: "ring s h xs \<Longrightarrow> QUEUE_NEXT s h = hd (xs @ [h])"
  by (cases xs) (simp_all add: ring_def)

text \<open>The part of a ring up to a member \<open>l\<close>, and the part from it back to the head.\<close>

lemma ring_split: "ring s h xs \<Longrightarrow> h # xs = as @ l # bs \<Longrightarrow> linked s (as @ [l]) \<and> linked s (l # bs @ [h])"
  using linked_append [of s as l "bs @ [h]"] unfolding ring_def by (metis append_Cons append_assoc)

lemma ring_prev:
  assumes "ring s h xs"
  shows "QUEUE_PREV s h = last (h # xs)"
proof -
  obtain as l where al: "h # xs = as @ [l]" by (metis append_butlast_last_id list.distinct(1))
  then have "linked s ([l] @ [h])" using ring_split [OF assms, of as l "[]"] by simp
  then show ?thesis using al by (metis append_Cons append_Nil last_snoc linked.simps(1))
qed

lemma ringI: "distinct (h # xs) \<Longrightarrow> h # xs = as @ l # bs \<Longrightarrow> linked s (as @ [l]) \<Longrightarrow> linked s (l # bs @ [h]) \<Longrightarrow> ring s h xs"
  using linked_append [of s as l "bs @ [h]"] unfolding ring_def by (metis append_Cons append_assoc)

lemma QUEUE_INIT_ring: "ring (QUEUE_INIT h s) h []"
  by (simp add: ring_def QUEUE_INIT_def Let_def)

lemma QUEUE_EMPTY_ring: "ring s h xs \<Longrightarrow> QUEUE_EMPTY s h \<longleftrightarrow> xs = []"
  using ring_next [of s h xs] ring_distinct [of s h xs] by (cases xs) (auto simp: QUEUE_EMPTY_def)

lemma QUEUE_HEAD_ring: "ring s h (x # xs) \<Longrightarrow> QUEUE_HEAD s h = x"
  using ring_next [of s h "x # xs"] by (simp add: QUEUE_HEAD_def)

lemma QUEUE_INSERT_TAIL_ring:
  assumes r: "ring s h xs" and q: "q \<noteq> h" "q \<notin> set xs"
  shows "ring (QUEUE_INSERT_TAIL h q s) h (xs @ [q])"
proof -
  let ?s = "QUEUE_INSERT_TAIL h q s"
  obtain as l where al: "h # xs = as @ [l]" by (metis append_butlast_last_id list.distinct(1))
  have d: "distinct (as @ [l])" "q \<notin> set (as @ [l])" unfolding al [symmetric] using ring_distinct [OF r] q by auto
  have hl: "h = hd (as @ [l])" unfolding al [symmetric] by simp
  have p: "QUEUE_PREV s h = l" using ring_prev [OF r] al by simp
  have f: "QUEUE_NEXT ?s x = (if x = l then q else if x = q then h else QUEUE_NEXT s x)" "QUEUE_PREV ?s x = (if x = h then q else if x = q then l else QUEUE_PREV s x)" for x
    using p q(1) d by (auto simp: QUEUE_INSERT_TAIL_def Let_def set_prev_next_def)
  have "linked s (as @ [l])" using ring_split [OF r, of as l "[]"] al by blast
  then have 1: "linked ?s (as @ [l])" by (rule linked_cong) (use f d hl in \<open>cases as; auto\<close>)+
  have 2: "linked ?s (l # [q] @ [h])" using f d q by auto
  have 3: "distinct (h # xs @ [q])" using ring_distinct [OF r] q by simp
  have 4: "h # xs @ [q] = as @ l # [q]" using al by (metis append.assoc append_Cons append_Nil)
  show ?thesis by (rule ringI [OF 3 4 1 2])
qed

lemma QUEUE_INSERT_HEAD_ring:
  assumes r: "ring s h xs" and q: "q \<noteq> h" "q \<notin> set xs"
  shows "ring (QUEUE_INSERT_HEAD h q s) h (q # xs)"
proof -
  let ?s = "QUEUE_INSERT_HEAD h q s"
  obtain z zs where z: "xs @ [h] = z # zs" by (cases xs) auto
  have n: "QUEUE_NEXT s h = z" using ring_next [OF r] z by simp
  have dz: "z \<noteq> q" "q \<notin> set zs" "q \<notin> set (z # zs)" using z q by (cases xs; auto)+
  have dzs: "z \<notin> set zs" "h \<notin> set (butlast (z # zs))" using z ring_distinct [OF r] by (metis append_Cons distinct.simps(2) distinct1_rotate rotate1.simps(2), metis butlast_snoc distinct.simps(2))
  have f: "QUEUE_NEXT ?s x = (if x = h then q else if x = q then z else QUEUE_NEXT s x)" "QUEUE_PREV ?s x = (if x = z then q else if x = q then h else QUEUE_PREV s x)" for x
    using n q(1) dz by (auto simp: QUEUE_INSERT_HEAD_def Let_def set_next_prev_def)
  have "linked s (z # zs)" using r z unfolding ring_def by simp
  then have "linked ?s (z # zs)" by (rule linked_cong) (use f dz dzs in \<open>auto dest: in_set_butlastD split: if_splits\<close>)
  then show ?thesis using f q ring_distinct [OF r] dz unfolding ring_def by (auto simp: z)
qed

lemma QUEUE_REMOVE_ring:
  assumes r: "ring s h (as @ q # bs)"
  shows "ring (QUEUE_REMOVE q s) h (as @ bs)"
proof -
  let ?s = "QUEUE_REMOVE q s"
  obtain ys l where l: "h # as = ys @ [l]" by (metis append_butlast_last_id list.distinct(1))
  obtain z zs where z: "bs @ [h] = z # zs" by (cases bs) auto
  have L: "h # (as @ q # bs) @ [h] = ys @ l # q # z # zs" using l z by (metis append.assoc append_Cons append_Nil)
  have lk: "linked s (ys @ [l])" "linked s (z # zs)" "QUEUE_NEXT s q = z" "QUEUE_PREV s q = l"
    using r linked_append [of s ys l "q # z # zs"] unfolding ring_def L by auto
  have hl: "h = hd (ys @ [l])" unfolding l [symmetric] by simp
  have d1: "distinct (ys @ [l])" "q \<notin> set (ys @ [l])" unfolding l [symmetric] using ring_distinct [OF r] by auto
  have d2: "distinct (z # zs)" "q \<notin> set (z # zs)" unfolding z [symmetric] using ring_distinct [OF r] by auto
  have f: "QUEUE_NEXT ?s x = (if x = l then z else QUEUE_NEXT s x)" "QUEUE_PREV ?s x = (if x = z then l else QUEUE_PREV s x)" for x
    using lk d1 d2 by (auto simp: QUEUE_REMOVE_def Let_def set_prev_next_def set_next_prev_def)
  have zy: "z \<notin> set (tl (ys @ [l]))"
  proof -
    have "set (tl (ys @ [l])) = set as" unfolding l [symmetric] by simp
    moreover have "z \<in> set (bs @ [h])" using z by simp
    ultimately show ?thesis using ring_distinct [OF r] by auto
  qed
  have lz: "l \<notin> set (butlast (z # zs))"
  proof -
    have "set (butlast (z # zs)) = set bs" unfolding z [symmetric] by simp
    moreover have "l \<in> set (h # as)" using l by simp
    ultimately show ?thesis using ring_distinct [OF r] by auto
  qed
  have "linked ?s (ys @ [l])" by (rule linked_cong [OF lk(1)]) (use f d1 zy in auto)
  moreover have "linked ?s (z # zs)" by (rule linked_cong [OF lk(2)]) (use f d2 lz in auto)
  ultimately have "linked ?s (ys @ l # z # zs)" using f linked_append [of ?s ys l "z # zs"] by simp
  moreover have "ys @ l # z # zs = h # (as @ bs) @ [h]" using l z by (metis append.assoc append_Cons append_Nil)
  ultimately show ?thesis using ring_distinct [OF r] unfolding ring_def by simp
qed

lemma QUEUE_SPLIT_rings:
  assumes r: "ring s h (as @ q # bs)" and n: "n \<notin> set (h # as @ q # bs)"
  shows "ring (QUEUE_SPLIT h q n s) h as" and "ring (QUEUE_SPLIT h q n s) n (q # bs)"
proof -
  let ?s = "QUEUE_SPLIT h q n s"
  obtain ys l where l: "h # as = ys @ [l]" by (metis append_butlast_last_id list.distinct(1))
  obtain zs e where z: "q # bs = zs @ [e]" by (metis append_butlast_last_id list.distinct(1))
  have L: "h # (as @ q # bs) @ [h] = ys @ l # q # bs @ [h]" using l by (metis append.assoc append_Cons append_Nil)
  have lk1: "linked s (ys @ [l])" and "linked s (l # q # bs @ [h])" using r linked_append [of s ys l "q # bs @ [h]"] unfolding ring_def L by auto
  then have pq: "QUEUE_PREV s q = l" and "linked s ((q # bs) @ [h])" by simp_all
  then have lk2: "linked s (zs @ [e])" and ph: "QUEUE_PREV s h = e" unfolding z using linked_two [of s zs e h] by simp_all
  have hl: "h = hd (ys @ [l])" unfolding l [symmetric] by simp
  have qz: "q = hd (zs @ [e])" unfolding z [symmetric] by simp
  have d1: "distinct (ys @ [l])" "n \<notin> set (ys @ [l])" unfolding l [symmetric] using ring_distinct [OF r] n by auto
  have d2: "distinct (zs @ [e])" "n \<notin> set (zs @ [e])" unfolding z [symmetric] using ring_distinct [OF r] n by auto
  have "set (h # as) \<inter> set (q # bs) = {}" using ring_distinct [OF r] by auto
  then have d12: "set (ys @ [l]) \<inter> set (zs @ [e]) = {}" unfolding l [symmetric] z [symmetric] .
  have hq: "h \<in> set (ys @ [l])" "q \<in> set (zs @ [e])" by (metis hl hd_in_set snoc_eq_iff_butlast, metis qz hd_in_set snoc_eq_iff_butlast)
  have ne: "n \<noteq> h" "n \<noteq> q" "h \<noteq> q" "l \<noteq> e" "l \<noteq> n" "e \<noteq> n" "l \<noteq> q" "e \<noteq> h" using hq d1 d2 d12 by auto
  have f: "QUEUE_NEXT ?s x = (if x = l then h else if x = n then q else if x = e then n else QUEUE_NEXT s x)"
      "QUEUE_PREV ?s x = (if x = q then n else if x = h then l else if x = n then e else QUEUE_PREV s x)" for x
    using pq ph ne by (auto simp: QUEUE_SPLIT_def Let_def set_prev_next_def)
  have tl: "tl (ys @ [l]) = as" "tl (zs @ [e]) = bs" unfolding l [symmetric] z [symmetric] by simp_all
  have dt: "h \<notin> set as" "q \<notin> set as" "n \<notin> set as" "h \<notin> set bs" "q \<notin> set bs" "n \<notin> set bs" using ring_distinct [OF r] n by auto
  have bl: "e \<notin> set ys" "l \<notin> set zs" using d12 by auto
  have "linked ?s (ys @ [l])" by (rule linked_cong [OF lk1]) (use f d1 dt bl in \<open>auto simp: tl\<close>)
  then have "linked ?s (ys @ [l] @ [h])" using f linked_two [of ?s ys l h] ne by simp
  then show "ring ?s h as" using ring_distinct [OF r] unfolding ring_def by (simp add: l [symmetric] flip: append_Cons append.assoc)
  have "linked ?s (zs @ [e])" by (rule linked_cong [OF lk2]) (use f d2 dt bl in \<open>auto simp: tl\<close>)
  then have "linked ?s ((q # bs) @ [n])" unfolding z using f linked_two [of ?s zs e n] ne by simp
  then show "ring ?s n (q # bs)" using ring_distinct [OF r] n f ne unfolding ring_def by auto
qed

lemma QUEUE_MOVE_rings:
  assumes r: "ring s h xs" and n: "n \<notin> set (h # xs)"
  shows "ring (QUEUE_MOVE h n s) h []" and "ring (QUEUE_MOVE h n s) n xs"
proof -
  have "ring (QUEUE_MOVE h n s) h [] \<and> ring (QUEUE_MOVE h n s) n xs"
  proof (cases xs)
    case Nil
    then have "QUEUE_MOVE h n s = QUEUE_INIT n s" using QUEUE_EMPTY_ring [OF r] by (simp add: QUEUE_MOVE_def)
    moreover have "ring (QUEUE_INIT n s) h []" using r n Nil by (auto simp: ring_def QUEUE_INIT_def Let_def)
    ultimately show ?thesis using QUEUE_INIT_ring [of n s] Nil by simp
  next
    case (Cons q bs)
    then have "QUEUE_MOVE h n s = QUEUE_SPLIT h q n s" using QUEUE_EMPTY_ring [OF r] QUEUE_HEAD_ring [of s h q bs] r by (simp add: QUEUE_MOVE_def)
    then show ?thesis using QUEUE_SPLIT_rings [of s h "[]" q bs n] r n Cons by simp
  qed
  then show "ring (QUEUE_MOVE h n s) h []" "ring (QUEUE_MOVE h n s) n xs" by blast+
qed

lemma QUEUE_FOREACH_linked:
  "linked s (q # ys @ [h]) \<Longrightarrow> h \<notin> set (q # ys) \<Longrightarrow> QUEUE_FOREACH_from s h q = Some (q # ys)"
proof (induction ys arbitrary: q)
  case Nil
  then show ?case by (simp add: QUEUE_FOREACH_from.simps [of s h q] QUEUE_FOREACH_from.simps [of s h h])
next
  case (Cons y ys)
  then show ?case using Cons.IH [of y] by (auto simp: QUEUE_FOREACH_from.simps [of s h q])
qed

theorem QUEUE_FOREACH_ring: "ring s h xs \<Longrightarrow> QUEUE_FOREACH s h = Some xs"
  using ring_next [of s h xs] QUEUE_FOREACH_linked [of s "hd xs" "tl xs" h]
  by (cases xs) (auto simp: QUEUE_FOREACH_def QUEUE_FOREACH_from.simps [of s h h] ring_def)

lemma QUEUE_ADD_ring:
  assumes r: "ring s h xs" and t: "ring s n ys" and dj: "set (h # xs) \<inter> set (n # ys) = {}"
  shows "ring (QUEUE_ADD h n s) h (xs @ ys)"
proof -
  let ?s = "QUEUE_ADD h n s"
  obtain us l where l: "h # xs = us @ [l]" by (metis append_butlast_last_id list.distinct(1))
  have lin: "l \<in> set (h # xs)" unfolding l by simp
  have ph: "QUEUE_PREV s h = l" using ring_prev [OF r] l by simp
  have lk: "linked s (us @ [l])" using ring_split [OF r, of us l "[]"] l by blast
  have tl: "tl (us @ [l]) = xs" unfolding l [symmetric] by simp
  have d: "distinct (us @ [l])" unfolding l [symmetric] by (rule ring_distinct [OF r])
  have hx: "h \<notin> set xs" using ring_distinct [OF r] by simp
  have nn: "n \<noteq> h" "n \<noteq> l" "n \<notin> set xs" using dj lin by auto
  show ?thesis
  proof (cases ys)
    case Nil
    then have n: "QUEUE_NEXT s n = n" "QUEUE_PREV s n = n" using ring_next [OF t] ring_prev [OF t] by simp_all
    have f: "QUEUE_NEXT ?s x = (if x = l then h else QUEUE_NEXT s x)" "QUEUE_PREV ?s x = (if x = h \<or> x = n then l else QUEUE_PREV s x)" for x
      using n nn ph by (auto simp: QUEUE_ADD_def Let_def set_prev_next_def set_next_prev_def)
    have "linked ?s (us @ [l])" by (rule linked_cong [OF lk]) (use f d nn hx in \<open>auto simp: tl\<close>)
    then have "linked ?s (us @ [l] @ [h])" using f linked_two [of ?s us l h] nn by simp
    then show ?thesis using ring_distinct [OF r] Nil unfolding ring_def by (simp add: l [symmetric] flip: append_Cons append.assoc)
  next
    case (Cons z zs)
    obtain vs e where e: "z # zs = vs @ [e]" by (metis append_butlast_last_id list.distinct(1))
    have ein: "e \<in> set (z # zs)" unfolding e by simp
    have "last (n # ys) = e" unfolding Cons e by simp
    then have zn: "QUEUE_NEXT s n = z" "QUEUE_PREV s n = e" using ring_next [OF t] ring_prev [OF t] Cons by simp_all
    have "linked s ((z # zs) @ [n])" using t Cons unfolding ring_def by simp
    then have lk2: "linked s (vs @ [e])" unfolding e using linked_two [of s vs e n] by simp
    have tl2: "tl (vs @ [e]) = zs" unfolding e [symmetric] by simp
    have dt: "distinct (z # zs)" "n \<notin> set (z # zs)" using ring_distinct [OF t] Cons by auto
    have ne: "l \<noteq> e" "h \<noteq> z" "h \<noteq> e" "z \<noteq> n" "e \<noteq> n" "h \<notin> set zs" "l \<notin> set (z # zs)" "e \<notin> set (h # xs)" "z \<notin> set xs" using dj ein lin dt(2) Cons by auto
    have dv: "distinct (vs @ [e])" "l \<notin> set vs" "e \<notin> set us" using dt(1) ne(7,8) unfolding e l by simp_all
    have f: "QUEUE_NEXT ?s x = (if x = e then h else if x = l then z else QUEUE_NEXT s x)" "QUEUE_PREV ?s x = (if x = h then e else if x = z then l else QUEUE_PREV s x)" for x
      using zn nn ph ne by (auto simp: QUEUE_ADD_def Let_def set_prev_next_def set_next_prev_def)
    have "linked ?s (us @ [l])" by (rule linked_cong [OF lk]) (use f d ne hx dv in \<open>auto simp: tl\<close>)
    moreover have "linked ?s (vs @ [e])" by (rule linked_cong [OF lk2]) (use f dv ne dt(1) in \<open>auto simp: tl2\<close>)
    then have "linked ?s ((z # zs) @ [h])" unfolding e using f linked_two [of ?s vs e h] by simp
    ultimately have "linked ?s (us @ l # (z # zs) @ [h])" using f(1) [of l] f(2) [of z] ne linked_append [of ?s us l "(z # zs) @ [h]"] by simp
    moreover have "us @ l # (z # zs) @ [h] = h # (xs @ ys) @ [h]" using l Cons by (metis append.assoc append_Cons append_Nil)
    moreover have "distinct (h # xs @ ys)" using ring_distinct [OF r] ring_distinct [OF t] dj by auto
    ultimately show ?thesis unfolding ring_def by metis
  qed
qed

text \<open>What an operation on one ring leaves alone.\<close>

lemma ring_frame: "ring s h xs \<Longrightarrow> (\<And>x. x \<in> set (h # xs) \<Longrightarrow> s' x = s x) \<Longrightarrow> ring s' h xs"
  unfolding ring_def using linked_cong [of s "h # xs @ [h]" s'] by (auto dest: in_set_butlastD split: if_splits)

lemma QUEUE_INSERT_TAIL_frame: "ring s h xs \<Longrightarrow> x \<notin> set (h # q # xs) \<Longrightarrow> QUEUE_INSERT_TAIL h q s x = s x"
  using ring_prev [of s h xs] by (auto simp: QUEUE_INSERT_TAIL_def Let_def set_prev_next_def set_next_def set_prev_def split: if_splits)

lemma QUEUE_INSERT_HEAD_frame: "ring s h xs \<Longrightarrow> x \<notin> set (h # q # xs) \<Longrightarrow> QUEUE_INSERT_HEAD h q s x = s x"
  using ring_next [of s h xs] by (cases xs) (auto simp: QUEUE_INSERT_HEAD_def Let_def set_next_prev_def set_next_def set_prev_def)

lemma QUEUE_REMOVE_frame:
  assumes r: "ring s h (as @ q # bs)" and x: "x \<notin> set (h # as @ q # bs)"
  shows "QUEUE_REMOVE q s x = s x"
proof -
  have "linked s ((h # as) @ q # (bs @ [h]))" using r unfolding ring_def by simp
  then have l: "linked s ((h # as) @ [q])" "linked s (q # bs @ [h])" using linked_append [of s "h # as" q "bs @ [h]"] by blast+
  obtain ys e where e: "h # as = ys @ [e]" by (metis append_butlast_last_id list.distinct(1))
  have "QUEUE_NEXT s q = hd (bs @ [h])" using l(2) by (cases bs) simp_all
  moreover have "QUEUE_PREV s q = e" using l(1) linked_two [of s ys e q] unfolding e by simp
  moreover have "e \<in> set (h # as)" unfolding e by simp
  moreover have "hd (bs @ [h]) \<in> set (h # bs)" by (cases bs) simp_all
  ultimately have "x \<noteq> QUEUE_NEXT s q" "x \<noteq> QUEUE_PREV s q" "x \<noteq> q" using x by auto
  then show ?thesis by (simp add: QUEUE_REMOVE_def Let_def set_prev_next_def set_next_prev_def set_next_def set_prev_def)
qed

section \<open>Several rings in one store\<close>

definition rings :: "'a qstore \<Rightarrow> ('a \<Rightarrow> 'a list option) \<Rightarrow> bool" where
  "rings s F \<longleftrightarrow> (\<forall>h xs. F h = Some xs \<longrightarrow> ring s h xs) \<and>
     (\<forall>h h' xs xs'. F h = Some xs \<longrightarrow> F h' = Some xs' \<longrightarrow> h \<noteq> h' \<longrightarrow> set (h # xs) \<inter> set (h' # xs') = {})"

definition ring_nodes :: "('a \<Rightarrow> 'a list option) \<Rightarrow> 'a set" where
  "ring_nodes F = {x. \<exists>h xs. F h = Some xs \<and> x \<in> set (h # xs)}"

lemma ringsD: "rings s F \<Longrightarrow> F h = Some xs \<Longrightarrow> ring s h xs"
  by (simp add: rings_def)

lemma rings_disjoint: "rings s F \<Longrightarrow> F h = Some xs \<Longrightarrow> F h' = Some xs' \<Longrightarrow> h \<noteq> h' \<Longrightarrow> set (h # xs) \<inter> set (h' # xs') = {}"
  unfolding rings_def by blast

lemma ring_nodes_other: "q \<notin> ring_nodes F \<Longrightarrow> F h = Some xs \<Longrightarrow> q \<noteq> h \<and> q \<notin> set xs"
  unfolding ring_nodes_def by (metis (mono_tags, lifting) list.set_intros mem_Collect_eq)

text \<open>A ring of the family is replaced: what the operation changed is in the old ring or in no ring.\<close>

lemma rings_update:
  assumes F: "rings s F" and h: "F h = Some xs" and r: "ring s' h ys" and ys: "set ys \<subseteq> set xs \<union> N" and N: "N \<inter> ring_nodes F = {}"
    and frame: "\<And>x. x \<notin> set (h # xs) \<union> N \<Longrightarrow> s' x = s x"
  shows "rings s' (F(h := Some ys))"
proof -
  have off: "set (g # zs) \<inter> (set (h # xs) \<union> N) = {}" if g: "F g = Some zs" "g \<noteq> h" for g zs
  proof -
    have "set (g # zs) \<subseteq> ring_nodes F" using g(1) unfolding ring_nodes_def by blast
    then show ?thesis using rings_disjoint [OF F g(1) h g(2)] N by blast
  qed
  have "ring s' g zs" if g: "F g = Some zs" "g \<noteq> h" for g zs
    by (rule ring_frame [OF ringsD [OF F g(1)] frame]) (use off [OF g] in blast)
  moreover have "set (g # zs) \<inter> set (h # ys) = {}" if g: "F g = Some zs" "g \<noteq> h" for g zs
    using off [OF g] ys by auto
  moreover have "set (g # zs) \<inter> set (g' # zs') = {}" if "F g = Some zs" "F g' = Some zs'" "g \<noteq> g'" for g g' zs zs'
    by (rule rings_disjoint [OF F that])
  ultimately show ?thesis using r unfolding rings_def by (auto simp: Int_commute split: if_splits)
qed

lemma rings_insert_tail:
  assumes F: "rings s F" and h: "F h = Some xs" and q: "q \<notin> ring_nodes F"
  shows "rings (QUEUE_INSERT_TAIL h q s) (F(h := Some (xs @ [q])))"
proof -
  note r = ringsD [OF F h] and n = ring_nodes_other [OF q h]
  have t: "ring (QUEUE_INSERT_TAIL h q s) h (xs @ [q])" using QUEUE_INSERT_TAIL_ring [OF r] n by blast
  show ?thesis by (rule rings_update [OF F h t, of "{q}"]) (use q QUEUE_INSERT_TAIL_frame [OF r] in auto)
qed

lemma rings_insert_head:
  assumes F: "rings s F" and h: "F h = Some xs" and q: "q \<notin> ring_nodes F"
  shows "rings (QUEUE_INSERT_HEAD h q s) (F(h := Some (q # xs)))"
proof -
  note r = ringsD [OF F h] and n = ring_nodes_other [OF q h]
  have t: "ring (QUEUE_INSERT_HEAD h q s) h (q # xs)" using QUEUE_INSERT_HEAD_ring [OF r] n by blast
  show ?thesis by (rule rings_update [OF F h t, of "{q}"]) (use q QUEUE_INSERT_HEAD_frame [OF r] in auto)
qed

lemma rings_remove:
  assumes F: "rings s F" and h: "F h = Some (as @ q # bs)"
  shows "rings (QUEUE_REMOVE q s) (F(h := Some (as @ bs)))"
proof -
  note r = ringsD [OF F h]
  show ?thesis by (rule rings_update [OF F h QUEUE_REMOVE_ring [OF r], of "{}"]) (use QUEUE_REMOVE_frame [OF r] in auto)
qed

lemma rings_forget: "rings s F \<Longrightarrow> rings s (F(h := None))"
  unfolding rings_def by (auto split: if_splits)

lemma rings_init: "rings s F \<Longrightarrow> h \<notin> ring_nodes F \<Longrightarrow> rings (QUEUE_INIT h s) (F(h := Some []))"
proof -
  assume F: "rings s F" and h: "h \<notin> ring_nodes F"
  have "QUEUE_INIT h s x = s x" if "x \<noteq> h" for x using that by (simp add: QUEUE_INIT_def Let_def set_next_def set_prev_def)
  then have "ring (QUEUE_INIT h s) g zs" if "F g = Some zs" for g zs
    using ring_frame [OF ringsD [OF F that], of "QUEUE_INIT h s"] ring_nodes_other [OF h that] by (metis set_ConsD)
  then show ?thesis using QUEUE_INIT_ring [of h s] F ring_nodes_other [OF h] unfolding rings_def by (auto split: if_splits)
qed

lemma rings_add:
  assumes F: "rings s F" and r: "ring s n xs" and new: "set (n # xs) \<inter> ring_nodes F = {}"
  shows "rings s (F(n := Some xs))"
proof -
  have "set (g # zs) \<inter> set (n # xs) = {}" if "F g = Some zs" for g zs
  proof -
    have "set (g # zs) \<subseteq> ring_nodes F" using that unfolding ring_nodes_def by blast
    then show ?thesis using new by blast
  qed
  then show ?thesis using F r unfolding rings_def by (auto simp: Int_commute split: if_splits)
qed

lemma QUEUE_MOVE_frame:
  assumes r: "ring s h xs" and x: "x \<notin> set (n # h # xs)"
  shows "QUEUE_MOVE h n s x = s x"
proof (cases xs)
  case Nil
  then show ?thesis using x QUEUE_EMPTY_ring [OF r] by (simp add: QUEUE_MOVE_def QUEUE_INIT_def Let_def set_next_def set_prev_def)
next
  case (Cons q bs)
  have p: "QUEUE_PREV s h = last xs" using ring_prev [OF r] Cons by simp
  have pq: "QUEUE_PREV s q = h" using r Cons unfolding ring_def by simp
  have q: "QUEUE_HEAD s h = q" "\<not> QUEUE_EMPTY s h" using QUEUE_HEAD_ring [of s h q bs] QUEUE_EMPTY_ring [OF r] r Cons by simp_all
  have "last xs \<in> set xs" "q \<in> set xs" using Cons by simp_all
  then have "x \<noteq> last xs" "x \<noteq> q" "x \<noteq> h" "x \<noteq> n" using x by auto
  then show ?thesis using p pq q by (auto simp: QUEUE_MOVE_def QUEUE_SPLIT_def Let_def set_prev_next_def set_next_def set_prev_def)
qed

text \<open>The nodes of the family after an operation.\<close>

lemma ring_nodes_upd:
  assumes h: "F h = Some xs" and F: "rings s F"
  shows "ring_nodes (F(h := Some ys)) = (ring_nodes F - set xs) \<union> set ys"
proof (intro set_eqI iffI)
  fix x
  assume "x \<in> ring_nodes (F(h := Some ys))"
  then obtain g zs where g: "(F(h := Some ys)) g = Some zs" "x \<in> set (g # zs)" unfolding ring_nodes_def by blast
  show "x \<in> (ring_nodes F - set xs) \<union> set ys"
  proof (cases "g = h")
    case True
    then show ?thesis using g h ring_distinct [OF ringsD [OF F h]] unfolding ring_nodes_def by auto
  next
    case False
    then have "F g = Some zs" using g(1) by simp
    moreover have "x \<notin> set xs" using rings_disjoint [OF F calculation h False] g(2) by auto
    ultimately show ?thesis using g(2) unfolding ring_nodes_def by blast
  qed
next
  fix x
  assume x: "x \<in> (ring_nodes F - set xs) \<union> set ys"
  show "x \<in> ring_nodes (F(h := Some ys))"
  proof (cases "x \<in> set (h # ys)")
    case True
    then show ?thesis unfolding ring_nodes_def by (metis (mono_tags, lifting) fun_upd_same mem_Collect_eq)
  next
    case False
    then obtain g zs where g: "F g = Some zs" "x \<in> set (g # zs)" "x \<notin> set xs" using x unfolding ring_nodes_def by auto
    then have "g \<noteq> h" using False h by auto
    then have "(F(h := Some ys)) g = Some zs" using g(1) by simp
    then show ?thesis using g(2) unfolding ring_nodes_def by blast
  qed
qed

lemma rings_move:
  assumes F: "rings s F" and h: "F h = Some xs" and n: "n \<notin> ring_nodes F"
  shows "rings (QUEUE_MOVE h n s) (F(h := Some [], n := Some xs))"
proof -
  note r = ringsD [OF F h]
  have nh: "n \<notin> set (h # xs)" using ring_nodes_other [OF n h] by simp
  note m = QUEUE_MOVE_rings [OF r nh]
  have "rings (QUEUE_MOVE h n s) (F(h := Some []))"
    by (rule rings_update [OF F h m(1), of "{n}"]) (use n QUEUE_MOVE_frame [OF r] in auto)
  moreover have "set (n # xs) \<inter> ring_nodes (F(h := Some [])) = {}"
    using ring_nodes_upd [OF h F, of "[]"] n by auto
  ultimately show ?thesis by (rule rings_add [OF _ m(2)])
qed

section \<open>The interface\<close>

text \<open>What the users of the lists rely on: a family of lists of nodes, indexed by their heads.\<close>

locale list_family =
  fixes lists :: "'s \<Rightarrow> ('a \<Rightarrow> 'a list option) \<Rightarrow> bool"
    and empty :: "'s \<Rightarrow> 'a \<Rightarrow> bool"
    and first :: "'s \<Rightarrow> 'a \<Rightarrow> 'a"
    and put_head :: "'a \<Rightarrow> 'a \<Rightarrow> 's \<Rightarrow> 's"
    and put_tail :: "'a \<Rightarrow> 'a \<Rightarrow> 's \<Rightarrow> 's"
    and take :: "'a \<Rightarrow> 's \<Rightarrow> 's"
    and move :: "'a \<Rightarrow> 'a \<Rightarrow> 's \<Rightarrow> 's"
  assumes empty_iff: "lists s F \<Longrightarrow> F h = Some xs \<Longrightarrow> empty s h \<longleftrightarrow> xs = []"
    and first_eq: "lists s F \<Longrightarrow> F h = Some (x # xs) \<Longrightarrow> first s h = x"
    and put_head_lists: "lists s F \<Longrightarrow> F h = Some xs \<Longrightarrow> q \<notin> ring_nodes F \<Longrightarrow> lists (put_head h q s) (F(h := Some (q # xs)))"
    and put_tail_lists: "lists s F \<Longrightarrow> F h = Some xs \<Longrightarrow> q \<notin> ring_nodes F \<Longrightarrow> lists (put_tail h q s) (F(h := Some (xs @ [q])))"
    and take_lists: "lists s F \<Longrightarrow> F h = Some (as @ q # bs) \<Longrightarrow> lists (take q s) (F(h := Some (as @ bs)))"
    and move_lists: "lists s F \<Longrightarrow> F h = Some xs \<Longrightarrow> n \<notin> ring_nodes F \<Longrightarrow> lists (move h n s) (F(h := Some [], n := Some xs))"
    and nodes_upd: "F h = Some xs \<Longrightarrow> lists s F \<Longrightarrow> ring_nodes (F(h := Some ys)) = (ring_nodes F - set xs) \<union> set ys"
    and lists_distinct: "lists s F \<Longrightarrow> F h = Some xs \<Longrightarrow> distinct (h # xs)"
    and lists_apart: "lists s F \<Longrightarrow> F h = Some xs \<Longrightarrow> F g = Some ys \<Longrightarrow> h \<noteq> g \<Longrightarrow> set (h # xs) \<inter> set (g # ys) = {}"
begin

text \<open>The first node of one list goes to the end of another.\<close>

lemma first_to_tail:
  assumes F: "lists s F" and n: "F n = Some (q # bs)" and h: "F h = Some xs" and hn: "h \<noteq> n"
  shows "lists (put_tail h q (take q s)) (F(n := Some bs, h := Some (xs @ [q])))"
proof -
  let ?F = "F(n := Some bs)"
  have t: "lists (take q s) ?F" using take_lists [OF F, of n "[]" q bs] n by simp
  have nodes: "ring_nodes ?F = (ring_nodes F - set (q # bs)) \<union> set bs" by (rule nodes_upd [OF n F])
  have "q \<notin> set bs" using lists_distinct [OF F n] by simp
  then have "q \<notin> ring_nodes ?F" using nodes by auto
  then show ?thesis using put_tail_lists [OF t, of h xs q] h hn by simp
qed

end

interpretation uv_queue: list_family rings QUEUE_EMPTY QUEUE_HEAD QUEUE_INSERT_HEAD QUEUE_INSERT_TAIL QUEUE_REMOVE QUEUE_MOVE
proof unfold_locales
  fix s F h xs
  assume F: "rings s F"
  show "QUEUE_EMPTY s h \<longleftrightarrow> xs = []" if "F h = Some xs" by (rule QUEUE_EMPTY_ring [OF ringsD [OF F that]])
  show "QUEUE_HEAD s h = x" if "F h = Some (x # xs)" for x by (rule QUEUE_HEAD_ring [OF ringsD [OF F that]])
  show "distinct (h # xs)" if "F h = Some xs" by (rule ring_distinct [OF ringsD [OF F that]])
qed (fact rings_insert_head rings_insert_tail rings_remove rings_move ring_nodes_upd rings_disjoint)+

lemma QUEUE_ADD_frame:
  assumes r: "ring s h xs" and t: "ring s n ys" and x: "x \<notin> set (h # xs)" "x \<notin> set (n # ys)"
  shows "QUEUE_ADD h n s x = s x"
proof -
  have l: "QUEUE_PREV s h \<in> set (h # xs)" "QUEUE_PREV s n \<in> set (n # ys)" "QUEUE_NEXT s n \<in> set (n # ys)"
    unfolding ring_prev [OF r] ring_prev [OF t] ring_next [OF t] by (rule last_in_set, simp)+ (cases ys; simp)
  then have "x \<noteq> QUEUE_PREV s h" "x \<noteq> QUEUE_PREV s n" "x \<noteq> QUEUE_NEXT s n" "x \<noteq> h" "x \<noteq> n" using x by auto
  then show ?thesis by (auto simp: QUEUE_ADD_def Let_def set_prev_next_def set_next_prev_def set_next_def set_prev_def)
qed

lemma rings_append:
  assumes F: "rings s F" and h: "F h = Some xs" and n: "F n = Some ys" and hn: "h \<noteq> n"
  shows "rings (QUEUE_ADD h n s) (F(n := None, h := Some (xs @ ys)))"
proof -
  have h': "(F(n := None)) h = Some xs" using h hn by simp
  have r: "ring (QUEUE_ADD h n s) h (xs @ ys)" by (rule QUEUE_ADD_ring [OF ringsD [OF F h] ringsD [OF F n] rings_disjoint [OF F h n hn]])
  have new: "set (n # ys) \<inter> ring_nodes (F(n := None)) = {}"
  proof -
    have "x \<notin> set (n # ys)" if "(F(n := None)) g = Some zs" "x \<in> set (g # zs)" for x g zs
    proof -
      have "F g = Some zs" "g \<noteq> n" using that(1) by (simp_all split: if_splits)
      then show ?thesis using rings_disjoint [OF F _ n] that(2) by blast
    qed
    then show ?thesis unfolding ring_nodes_def by blast
  qed
  show ?thesis
    by (rule rings_update [OF rings_forget [OF F] h' r _ new]) (use QUEUE_ADD_frame [OF ringsD [OF F h] ringsD [OF F n]] in auto)
qed

text \<open>C27: The circular lists are lists. In a store that holds a family of disjoint lists: a loop over a list visits its members in order
  and ends; the insertions, the removal, the concatenation and the move of a list change the lists they are given as the operations on
  lists do, and no other list.\<close>

theorem queue_refines_lists:
  assumes "rings s F" and "F h = Some xs"
  shows "QUEUE_FOREACH s h = Some xs \<and> (QUEUE_EMPTY s h \<longleftrightarrow> xs = []) \<and> (xs \<noteq> [] \<longrightarrow> QUEUE_HEAD s h = hd xs) \<and>
    (q \<notin> ring_nodes F \<longrightarrow> rings (QUEUE_INSERT_HEAD h q s) (F(h := Some (q # xs))) \<and> rings (QUEUE_INSERT_TAIL h q s) (F(h := Some (xs @ [q]))) \<and>
       rings (QUEUE_MOVE h q s) (F(h := Some [], q := Some xs))) \<and>
    (xs = as @ q # bs \<longrightarrow> rings (QUEUE_REMOVE q s) (F(h := Some (as @ bs)))) \<and>
    (F n = Some ys \<and> h \<noteq> n \<longrightarrow> rings (QUEUE_ADD h n s) (F(n := None, h := Some (xs @ ys))))"
proof (intro conjI impI)
  show "QUEUE_FOREACH s h = Some xs" by (rule QUEUE_FOREACH_ring [OF ringsD [OF assms]])
  show "QUEUE_EMPTY s h \<longleftrightarrow> xs = []" by (rule uv_queue.empty_iff [OF assms])
  show "QUEUE_HEAD s h = hd xs" if "xs \<noteq> []" using uv_queue.first_eq [OF assms(1), of h "hd xs" "tl xs"] assms(2) that by simp
  show "rings (QUEUE_REMOVE q s) (F(h := Some (as @ bs)))" if "xs = as @ q # bs" using uv_queue.take_lists [OF assms(1)] assms(2) that by simp
  show "rings (QUEUE_ADD h n s) (F(n := None, h := Some (xs @ ys)))" if "F n = Some ys \<and> h \<noteq> n" using rings_append [OF assms] that by blast
qed (use uv_queue.put_head_lists [OF assms] uv_queue.put_tail_lists [OF assms] uv_queue.move_lists [OF assms] in blast)+

theorem queue_refines_lists_witness:
  "QUEUE_FOREACH (QUEUE_INSERT_HEAD (0 :: nat) 3 (QUEUE_INSERT_TAIL 0 2 (QUEUE_INIT 0 (\<lambda>q. \<lparr>q_next = 9, q_prev = 9\<rparr>)))) 0 = Some [3, 2]"
proof -
  define s0 :: "nat qstore" where "s0 = QUEUE_INIT 0 (\<lambda>q. \<lparr>q_next = 9, q_prev = 9\<rparr>)"
  have r0: "rings s0 [0 \<mapsto> []]" unfolding s0_def using QUEUE_INIT_ring [of 0] by (simp add: rings_def)
  have 1: "[0 \<mapsto> []] (0 :: nat) = Some ([] :: nat list)" by simp
  have "(2 :: nat) \<notin> ring_nodes [0 \<mapsto> []]" by (simp add: ring_nodes_def)
  then have "rings (QUEUE_INSERT_TAIL 0 2 s0) ([0 \<mapsto> []](0 := Some ([] @ [2])))" using queue_refines_lists [OF r0 1, of 2 "[]" "[]" 0 "[]"] by blast
  then have r1: "rings (QUEUE_INSERT_TAIL 0 2 s0) [0 \<mapsto> [2]]" by (simp only: append_Nil fun_upd_upd)
  have 2: "[0 \<mapsto> [2]] (0 :: nat) = Some [2 :: nat]" by simp
  have "(3 :: nat) \<notin> ring_nodes [0 \<mapsto> [2]]" by (simp add: ring_nodes_def)
  then have "rings (QUEUE_INSERT_HEAD 0 3 (QUEUE_INSERT_TAIL 0 2 s0)) ([0 \<mapsto> [2]](0 := Some (3 # [2])))" using queue_refines_lists [OF r1 2, of 3 "[]" "[]" 0 "[]"] by blast
  then have r2: "rings (QUEUE_INSERT_HEAD 0 3 (QUEUE_INSERT_TAIL 0 2 s0)) [0 \<mapsto> [3, 2]]" by (simp only: fun_upd_upd)
  then show ?thesis using queue_refines_lists [OF r2, of 0 "[3, 2]" 9 "[]" "[]" 0 "[]"] by (simp add: s0_def)
qed

end
