(* ===== verification/Uv_Loop.thy ===== *)
theory Uv_Loop
  imports Uv_Heap_Queue Uv_Queue
begin

text \<open>
  The event loop of libuv, its handles and the macros of \<open>src/uv-common.h\<close> that count the active ones.

  A handle is an address; the fields that all handles share, the fields of timers and the callback of a watcher are
  stores indexed by it. The circular lists of the loop and of its handles are rings in one store of links: a head of
  the loop, the list on the stack of a function that runs callbacks, and the two links in a handle. Callbacks are
  named by numbers, and NULL is \<open>None\<close>.
\<close>

type_synonym uv_cb = nat

datatype uv_handle_type = UV_TIMER | UV_IDLE | UV_PREPARE | UV_CHECK

datatype qaddr = Loop_handles | Loop_watchers uv_handle_type | Loop_pending | Local_queue | Local_pending | Handle_link addr | Watcher_link addr | Pending_link addr

record uv_handle =
  h_type :: uv_handle_type
  h_flags :: uint32
  h_close_cb :: "uv_cb option"
  h_next_closing :: "addr option"

record uv_timer =
  timer_cb :: "uv_cb option"
  timeout :: uint64
  repeat :: uint64
  start_id :: uint64

record uv_loop =
  lp_active_handles :: uint32
  lp_active_reqs :: uint32
  lp_stop_flag :: uint32
  lp_closing_handles :: "addr option"
  lp_timer_heap :: heap
  lp_timer_counter :: uint64
  lp_time :: uint64
  lp_queues :: "qaddr qstore"
  lp_handles :: "addr \<Rightarrow> uv_handle"
  lp_timers :: "addr \<Rightarrow> uv_timer"
  lp_watcher_cb :: "addr \<Rightarrow> uv_cb option"

definition UV_HANDLE_CLOSING :: uint32 where "UV_HANDLE_CLOSING = 1"
definition UV_HANDLE_CLOSED :: uint32 where "UV_HANDLE_CLOSED = 2"
definition UV_HANDLE_ACTIVE :: uint32 where "UV_HANDLE_ACTIVE = 4"
definition UV_HANDLE_REF :: uint32 where "UV_HANDLE_REF = 8"

definition UV_EINVAL :: int where "UV_EINVAL = - 22"

abbreviation flags_of :: "uv_loop \<Rightarrow> addr \<Rightarrow> uint32" where
  "flags_of l a \<equiv> h_flags (lp_handles l a)"

definition set_flags :: "addr \<Rightarrow> uint32 \<Rightarrow> uv_loop \<Rightarrow> uv_loop" where
  "set_flags a v l = l\<lparr>lp_handles := (lp_handles l)(a := (lp_handles l a)\<lparr>h_flags := v\<rparr>)\<rparr>"

definition uv__has_active_handles :: "uv_loop \<Rightarrow> bool" where
  "uv__has_active_handles l \<longleftrightarrow> lp_active_handles l > 0"

definition uv__has_active_reqs :: "uv_loop \<Rightarrow> bool" where
  "uv__has_active_reqs l \<longleftrightarrow> lp_active_reqs l > 0"

definition uv__active_handle_add :: "uv_loop \<Rightarrow> uv_loop" where
  "uv__active_handle_add l = l\<lparr>lp_active_handles := lp_active_handles l + 1\<rparr>"

definition uv__active_handle_rm :: "uv_loop \<Rightarrow> uv_loop" where
  "uv__active_handle_rm l = l\<lparr>lp_active_handles := lp_active_handles l - 1\<rparr>"

definition uv__is_active :: "uv_loop \<Rightarrow> addr \<Rightarrow> bool" where
  "uv__is_active l a \<longleftrightarrow> flags_of l a AND UV_HANDLE_ACTIVE \<noteq> 0"

definition uv__is_closing :: "uv_loop \<Rightarrow> addr \<Rightarrow> bool" where
  "uv__is_closing l a \<longleftrightarrow> flags_of l a AND (UV_HANDLE_CLOSING OR UV_HANDLE_CLOSED) \<noteq> 0"

definition handle_closed :: "uv_loop \<Rightarrow> addr \<Rightarrow> bool" where
  "handle_closed l a \<longleftrightarrow> flags_of l a AND UV_HANDLE_CLOSED \<noteq> 0"

definition uv__has_ref :: "uv_loop \<Rightarrow> addr \<Rightarrow> bool" where
  "uv__has_ref l a \<longleftrightarrow> flags_of l a AND UV_HANDLE_REF \<noteq> 0"

definition uv__handle_start :: "uv_loop \<Rightarrow> addr \<Rightarrow> uv_loop" where
  "uv__handle_start l a =
     (if flags_of l a AND UV_HANDLE_ACTIVE \<noteq> 0 then l
      else let l1 = set_flags a (flags_of l a OR UV_HANDLE_ACTIVE) l in
           if flags_of l1 a AND UV_HANDLE_REF \<noteq> 0 then uv__active_handle_add l1 else l1)"

definition uv__handle_stop :: "uv_loop \<Rightarrow> addr \<Rightarrow> uv_loop" where
  "uv__handle_stop l a =
     (if flags_of l a AND UV_HANDLE_ACTIVE = 0 then l
      else let l1 = set_flags a (flags_of l a AND NOT UV_HANDLE_ACTIVE) l in
           if flags_of l1 a AND UV_HANDLE_REF \<noteq> 0 then uv__active_handle_rm l1 else l1)"

definition uv__handle_ref :: "uv_loop \<Rightarrow> addr \<Rightarrow> uv_loop" where
  "uv__handle_ref l a =
     (if flags_of l a AND UV_HANDLE_REF \<noteq> 0 then l
      else let l1 = set_flags a (flags_of l a OR UV_HANDLE_REF) l in
           if flags_of l1 a AND UV_HANDLE_CLOSING \<noteq> 0 then l1
           else if flags_of l1 a AND UV_HANDLE_ACTIVE \<noteq> 0 then uv__active_handle_add l1 else l1)"

definition uv__handle_unref :: "uv_loop \<Rightarrow> addr \<Rightarrow> uv_loop" where
  "uv__handle_unref l a =
     (if flags_of l a AND UV_HANDLE_REF = 0 then l
      else let l1 = set_flags a (flags_of l a AND NOT UV_HANDLE_REF) l in
           if flags_of l1 a AND UV_HANDLE_CLOSING \<noteq> 0 then l1
           else if flags_of l1 a AND UV_HANDLE_ACTIVE \<noteq> 0 then uv__active_handle_rm l1 else l1)"

definition uv__handle_init :: "uv_loop \<Rightarrow> addr \<Rightarrow> uv_handle_type \<Rightarrow> uv_loop" where
  "uv__handle_init l a type =
     (let l1 = l\<lparr>lp_handles := (lp_handles l)(a := (lp_handles l a)\<lparr>h_type := type\<rparr>)\<rparr>;
          l2 = set_flags a UV_HANDLE_REF l1;
          l3 = l2\<lparr>lp_queues := QUEUE_INSERT_TAIL Loop_handles (Handle_link a) (lp_queues l2)\<rparr>
      in l3\<lparr>lp_handles := (lp_handles l3)(a := (lp_handles l3 a)\<lparr>h_next_closing := None\<rparr>)\<rparr>)"

definition uv__update_time :: "uint64 \<Rightarrow> uv_loop \<Rightarrow> uv_loop" where
  "uv__update_time hrtime l = l\<lparr>lp_time := hrtime div 1000000\<rparr>"

text \<open>The part of \<open>uv_loop_init\<close> that sets the fields modelled here.\<close>

definition loop_init_fields :: "uint64 \<Rightarrow> uv_loop \<Rightarrow> uv_loop" where
  "loop_init_fields hrtime l0 =
     (let l1 = l0\<lparr>lp_timer_heap := heap_init (lp_timer_heap l0)\<rparr>;
          q = lp_queues l1;
          q = QUEUE_INIT (Loop_watchers UV_IDLE) q;
          q = QUEUE_INIT (Loop_watchers UV_CHECK) q;
          q = QUEUE_INIT (Loop_watchers UV_PREPARE) q;
          q = QUEUE_INIT Loop_handles q;
          l2 = l1\<lparr>lp_active_handles := 0, lp_active_reqs := 0\<rparr>;
          q = QUEUE_INIT Loop_pending q;
          l3 = l2\<lparr>lp_queues := q, lp_closing_handles := None\<rparr>;
          l4 = uv__update_time hrtime l3
      in l4\<lparr>lp_timer_counter := 0, lp_stop_flag := 0\<rparr>)"

section \<open>Flags\<close>

lemmas flag_defs = UV_HANDLE_CLOSING_def UV_HANDLE_CLOSED_def UV_HANDLE_ACTIVE_def UV_HANDLE_REF_def

lemma flag_or: "(w OR f) AND g = (w AND g) OR (f AND g)" for w f g :: uint32
  by (rule bit.conj_disj_distrib2)

lemma set_flags_simps [simp]:
  "flags_of (set_flags a v l) x = (if x = a then v else flags_of l x)" "h_type (lp_handles (set_flags a v l) x) = h_type (lp_handles l x)"
  "h_close_cb (lp_handles (set_flags a v l) x) = h_close_cb (lp_handles l x)" "h_next_closing (lp_handles (set_flags a v l) x) = h_next_closing (lp_handles l x)"
  "lp_active_handles (set_flags a v l) = lp_active_handles l" "lp_active_reqs (set_flags a v l) = lp_active_reqs l" "lp_stop_flag (set_flags a v l) = lp_stop_flag l"
  "lp_closing_handles (set_flags a v l) = lp_closing_handles l" "lp_timer_heap (set_flags a v l) = lp_timer_heap l" "lp_timer_counter (set_flags a v l) = lp_timer_counter l"
  "lp_time (set_flags a v l) = lp_time l" "lp_queues (set_flags a v l) = lp_queues l" "lp_timers (set_flags a v l) = lp_timers l" "lp_watcher_cb (set_flags a v l) = lp_watcher_cb l"
  by (simp_all add: set_flags_def)

text \<open>What the macros do to the state of a handle.\<close>

lemmas handle_macros = uv__handle_start_def uv__handle_stop_def uv__handle_ref_def uv__handle_unref_def uv__active_handle_add_def uv__active_handle_rm_def

lemma handle_start_flags [simp]:
  "uv__is_active (uv__handle_start l a) x \<longleftrightarrow> x = a \<or> uv__is_active l x"
  "uv__is_closing (uv__handle_start l a) x \<longleftrightarrow> uv__is_closing l x" "uv__has_ref (uv__handle_start l a) x \<longleftrightarrow> uv__has_ref l x"
  by (auto simp: uv__is_active_def uv__is_closing_def uv__has_ref_def handle_macros Let_def flag_defs flag_or)

lemma handle_stop_flags [simp]:
  "uv__is_active (uv__handle_stop l a) x \<longleftrightarrow> x \<noteq> a \<and> uv__is_active l x"
  "uv__is_closing (uv__handle_stop l a) x \<longleftrightarrow> uv__is_closing l x" "uv__has_ref (uv__handle_stop l a) x \<longleftrightarrow> uv__has_ref l x"
  by (auto simp: uv__is_active_def uv__is_closing_def uv__has_ref_def handle_macros Let_def flag_defs and.assoc)

lemma handle_ref_flags [simp]:
  "uv__is_active (uv__handle_ref l a) x \<longleftrightarrow> uv__is_active l x"
  "uv__is_closing (uv__handle_ref l a) x \<longleftrightarrow> uv__is_closing l x" "uv__has_ref (uv__handle_ref l a) x \<longleftrightarrow> x = a \<or> uv__has_ref l x"
  by (auto simp: uv__is_active_def uv__is_closing_def uv__has_ref_def handle_macros Let_def flag_defs flag_or)

lemma handle_unref_flags [simp]:
  "uv__is_active (uv__handle_unref l a) x \<longleftrightarrow> uv__is_active l x"
  "uv__is_closing (uv__handle_unref l a) x \<longleftrightarrow> uv__is_closing l x" "uv__has_ref (uv__handle_unref l a) x \<longleftrightarrow> x \<noteq> a \<and> uv__has_ref l x"
  by (auto simp: uv__is_active_def uv__is_closing_def uv__has_ref_def handle_macros Let_def flag_defs and.assoc)

lemma handle_closed_flags [simp]:
  "handle_closed (uv__handle_start l a) x = handle_closed l x" "handle_closed (uv__handle_stop l a) x = handle_closed l x"
  "handle_closed (uv__handle_ref l a) x = handle_closed l x" "handle_closed (uv__handle_unref l a) x = handle_closed l x"
  by (simp_all add: handle_closed_def handle_macros Let_def flag_defs flag_or and.assoc)

text \<open>They leave the rest of the loop alone.\<close>

lemma handle_start_fields [simp]:
  "h_type (lp_handles (uv__handle_start l a) x) = h_type (lp_handles l x)" "h_next_closing (lp_handles (uv__handle_start l a) x) = h_next_closing (lp_handles l x)"
  "lp_closing_handles (uv__handle_start l a) = lp_closing_handles l" "lp_timer_heap (uv__handle_start l a) = lp_timer_heap l" "lp_timer_counter (uv__handle_start l a) = lp_timer_counter l"
  "lp_time (uv__handle_start l a) = lp_time l" "lp_queues (uv__handle_start l a) = lp_queues l" "lp_timers (uv__handle_start l a) = lp_timers l" "lp_watcher_cb (uv__handle_start l a) = lp_watcher_cb l"
  "h_close_cb (lp_handles (uv__handle_start l a) x) = h_close_cb (lp_handles l x)" "lp_active_reqs (uv__handle_start l a) = lp_active_reqs l" "lp_stop_flag (uv__handle_start l a) = lp_stop_flag l"
  by (simp_all add: handle_macros Let_def)

lemma handle_stop_fields [simp]:
  "h_type (lp_handles (uv__handle_stop l a) x) = h_type (lp_handles l x)" "h_next_closing (lp_handles (uv__handle_stop l a) x) = h_next_closing (lp_handles l x)"
  "lp_closing_handles (uv__handle_stop l a) = lp_closing_handles l" "lp_timer_heap (uv__handle_stop l a) = lp_timer_heap l" "lp_timer_counter (uv__handle_stop l a) = lp_timer_counter l"
  "lp_time (uv__handle_stop l a) = lp_time l" "lp_queues (uv__handle_stop l a) = lp_queues l" "lp_timers (uv__handle_stop l a) = lp_timers l" "lp_watcher_cb (uv__handle_stop l a) = lp_watcher_cb l"
  "h_close_cb (lp_handles (uv__handle_stop l a) x) = h_close_cb (lp_handles l x)" "lp_active_reqs (uv__handle_stop l a) = lp_active_reqs l" "lp_stop_flag (uv__handle_stop l a) = lp_stop_flag l"
  by (simp_all add: handle_macros Let_def)

lemma handle_ref_fields [simp]:
  "h_type (lp_handles (uv__handle_ref l a) x) = h_type (lp_handles l x)" "h_next_closing (lp_handles (uv__handle_ref l a) x) = h_next_closing (lp_handles l x)"
  "lp_closing_handles (uv__handle_ref l a) = lp_closing_handles l" "lp_timer_heap (uv__handle_ref l a) = lp_timer_heap l" "lp_timer_counter (uv__handle_ref l a) = lp_timer_counter l"
  "lp_time (uv__handle_ref l a) = lp_time l" "lp_queues (uv__handle_ref l a) = lp_queues l" "lp_timers (uv__handle_ref l a) = lp_timers l" "lp_watcher_cb (uv__handle_ref l a) = lp_watcher_cb l"
  "h_close_cb (lp_handles (uv__handle_ref l a) x) = h_close_cb (lp_handles l x)" "lp_active_reqs (uv__handle_ref l a) = lp_active_reqs l" "lp_stop_flag (uv__handle_ref l a) = lp_stop_flag l"
  by (simp_all add: handle_macros Let_def)

lemma handle_unref_fields [simp]:
  "h_type (lp_handles (uv__handle_unref l a) x) = h_type (lp_handles l x)" "h_next_closing (lp_handles (uv__handle_unref l a) x) = h_next_closing (lp_handles l x)"
  "lp_closing_handles (uv__handle_unref l a) = lp_closing_handles l" "lp_timer_heap (uv__handle_unref l a) = lp_timer_heap l" "lp_timer_counter (uv__handle_unref l a) = lp_timer_counter l"
  "lp_time (uv__handle_unref l a) = lp_time l" "lp_queues (uv__handle_unref l a) = lp_queues l" "lp_timers (uv__handle_unref l a) = lp_timers l" "lp_watcher_cb (uv__handle_unref l a) = lp_watcher_cb l"
  "h_close_cb (lp_handles (uv__handle_unref l a) x) = h_close_cb (lp_handles l x)" "lp_active_reqs (uv__handle_unref l a) = lp_active_reqs l" "lp_stop_flag (uv__handle_unref l a) = lp_stop_flag l"
  by (simp_all add: handle_macros Let_def)

section \<open>Counting the active handles\<close>

text \<open>The handles that keep the loop alive: active and referenced.\<close>

definition live_handles :: "uv_loop \<Rightarrow> addr set \<Rightarrow> addr set" where
  "live_handles l H = {a \<in> H. uv__is_active l a \<and> uv__has_ref l a}"

definition count_ok :: "uv_loop \<Rightarrow> addr set \<Rightarrow> bool" where
  "count_ok l H \<longleftrightarrow> finite H \<and> lp_active_handles l = of_nat (card (live_handles l H)) \<and> (\<forall>a \<in> H. uv__is_closing l a \<longrightarrow> \<not> uv__is_active l a)"

lemma count_insert: "finite H \<Longrightarrow> a \<notin> H \<Longrightarrow> of_nat (card (insert a H)) = (of_nat (card H) + 1 :: uint32)"
  by simp

lemma count_remove:
  assumes "finite H" and "a \<in> H"
  shows "of_nat (card (H - {a})) = (of_nat (card H) - 1 :: uint32)"
  using assms card.remove [of H a] by simp

lemma handle_start_count:
  assumes "count_ok l H" and "a \<in> H" and "\<not> uv__is_closing l a"
  shows "count_ok (uv__handle_start l a) H"
proof -
  let ?l = "uv__handle_start l a"
  have fin: "finite (live_handles l H)" using assms(1) by (auto simp: count_ok_def live_handles_def)
  show ?thesis
  proof (cases "uv__is_active l a \<or> \<not> uv__has_ref l a")
    case True
    then have "live_handles ?l H = live_handles l H" by (auto simp: live_handles_def)
    moreover have "lp_active_handles ?l = lp_active_handles l" using True by (auto simp: handle_macros Let_def uv__is_active_def uv__has_ref_def flag_defs flag_or)
    ultimately show ?thesis using assms by (auto simp: count_ok_def)
  next
    case False
    then have "live_handles ?l H = insert a (live_handles l H)" "a \<notin> live_handles l H" using assms(2) by (auto simp: live_handles_def)
    moreover have "lp_active_handles ?l = lp_active_handles l + 1" using False by (auto simp: handle_macros Let_def uv__is_active_def uv__has_ref_def flag_defs flag_or)
    ultimately show ?thesis using assms count_insert [OF fin, of a] by (auto simp: count_ok_def)
  qed
qed

lemma handle_stop_count:
  assumes "count_ok l H" and "a \<in> H"
  shows "count_ok (uv__handle_stop l a) H"
proof -
  let ?l = "uv__handle_stop l a"
  have fin: "finite (live_handles l H)" using assms(1) by (auto simp: count_ok_def live_handles_def)
  show ?thesis
  proof (cases "uv__is_active l a \<and> uv__has_ref l a")
    case False
    then have "live_handles ?l H = live_handles l H" by (auto simp: live_handles_def)
    moreover have "lp_active_handles ?l = lp_active_handles l" using False by (auto simp: handle_macros Let_def uv__is_active_def uv__has_ref_def flag_defs and.assoc)
    ultimately show ?thesis using assms by (auto simp: count_ok_def)
  next
    case True
    then have "live_handles ?l H = live_handles l H - {a}" "a \<in> live_handles l H" using assms(2) by (auto simp: live_handles_def)
    moreover have "lp_active_handles ?l = lp_active_handles l - 1" using True by (auto simp: handle_macros Let_def uv__is_active_def uv__has_ref_def flag_defs and.assoc)
    ultimately show ?thesis using assms count_remove [OF fin, of a] by (auto simp: count_ok_def)
  qed
qed

lemma not_closing: "\<not> uv__is_closing l a \<Longrightarrow> flags_of l a AND UV_HANDLE_CLOSING = 0"
proof -
  have "flags_of l a AND UV_HANDLE_CLOSING = (flags_of l a AND (UV_HANDLE_CLOSING OR UV_HANDLE_CLOSED)) AND UV_HANDLE_CLOSING"
    by (simp add: and.assoc flag_defs)
  then show "\<not> uv__is_closing l a \<Longrightarrow> flags_of l a AND UV_HANDLE_CLOSING = 0" by (simp add: uv__is_closing_def)
qed

lemma handle_ref_count:
  assumes "count_ok l H" and "a \<in> H"
  shows "count_ok (uv__handle_ref l a) H"
proof -
  let ?l = "uv__handle_ref l a"
  have fin: "finite (live_handles l H)" using assms(1) by (auto simp: count_ok_def live_handles_def)
  show ?thesis
  proof (cases "\<not> uv__is_active l a \<or> uv__has_ref l a")
    case True
    then have "live_handles ?l H = live_handles l H" by (auto simp: live_handles_def)
    moreover have "lp_active_handles ?l = lp_active_handles l" using True by (auto simp: handle_macros Let_def uv__is_active_def uv__has_ref_def flag_defs flag_or)
    ultimately show ?thesis using assms by (auto simp: count_ok_def)
  next
    case False
    then have "live_handles ?l H = insert a (live_handles l H)" "a \<notin> live_handles l H" using assms(2) by (auto simp: live_handles_def)
    moreover have "flags_of l a AND UV_HANDLE_CLOSING = 0" using assms False by (intro not_closing) (auto simp: count_ok_def)
    then have "lp_active_handles ?l = lp_active_handles l + 1" using False by (auto simp: handle_macros Let_def uv__is_active_def uv__has_ref_def flag_defs flag_or)
    ultimately show ?thesis using assms count_insert [OF fin, of a] by (auto simp: count_ok_def)
  qed
qed

lemma handle_unref_count:
  assumes "count_ok l H" and "a \<in> H"
  shows "count_ok (uv__handle_unref l a) H"
proof -
  let ?l = "uv__handle_unref l a"
  have fin: "finite (live_handles l H)" using assms(1) by (auto simp: count_ok_def live_handles_def)
  show ?thesis
  proof (cases "uv__is_active l a \<and> uv__has_ref l a")
    case False
    then have "live_handles ?l H = live_handles l H" by (auto simp: live_handles_def)
    moreover have "lp_active_handles ?l = lp_active_handles l" using False by (auto simp: handle_macros Let_def uv__is_active_def uv__has_ref_def flag_defs and.assoc)
    ultimately show ?thesis using assms by (auto simp: count_ok_def)
  next
    case True
    then have "live_handles ?l H = live_handles l H - {a}" "a \<in> live_handles l H" using assms(2) by (auto simp: live_handles_def)
    moreover have "flags_of l a AND UV_HANDLE_CLOSING = 0" using assms True by (intro not_closing) (auto simp: count_ok_def)
    then have "lp_active_handles ?l = lp_active_handles l - 1" using True by (auto simp: handle_macros Let_def uv__is_active_def uv__has_ref_def flag_defs and.assoc)
    ultimately show ?thesis using assms count_remove [OF fin, of a] by (auto simp: count_ok_def)
  qed
qed

text \<open>A new handle is inactive.\<close>

lemma handle_init_state:
  "uv__is_active (uv__handle_init l a ty) x \<longleftrightarrow> x \<noteq> a \<and> uv__is_active l x" "uv__is_closing (uv__handle_init l a ty) x \<longleftrightarrow> x \<noteq> a \<and> uv__is_closing l x"
  "uv__has_ref (uv__handle_init l a ty) x \<longleftrightarrow> x = a \<or> uv__has_ref l x" "h_type (lp_handles (uv__handle_init l a ty) x) = (if x = a then ty else h_type (lp_handles l x))"
  by (auto simp: uv__handle_init_def Let_def uv__is_active_def uv__is_closing_def uv__has_ref_def set_flags_def flag_defs)

lemma handle_init_fields [simp]:
  "lp_closing_handles (uv__handle_init l a ty) = lp_closing_handles l" "lp_timer_heap (uv__handle_init l a ty) = lp_timer_heap l" "lp_timer_counter (uv__handle_init l a ty) = lp_timer_counter l"
  "lp_time (uv__handle_init l a ty) = lp_time l" "lp_timers (uv__handle_init l a ty) = lp_timers l" "lp_watcher_cb (uv__handle_init l a ty) = lp_watcher_cb l"
  "lp_active_handles (uv__handle_init l a ty) = lp_active_handles l" "lp_queues (uv__handle_init l a ty) = QUEUE_INSERT_TAIL Loop_handles (Handle_link a) (lp_queues l)"
  by (simp_all add: uv__handle_init_def Let_def)

lemma handle_init_count:
  assumes "count_ok l H" and "a \<notin> H"
  shows "count_ok (uv__handle_init l a ty) (insert a H)"
proof -
  have "live_handles (uv__handle_init l a ty) (insert a H) = live_handles l H" using assms(2) by (auto simp: live_handles_def handle_init_state)
  then show ?thesis using assms by (auto simp: count_ok_def handle_init_state)
qed

end
