(* ===== verification/Uv_Timer.thy ===== *)
theory Uv_Timer
  imports Uv_Loop
begin

text \<open>
  \<open>src/timer.c\<close> of libuv. The result \<open>None\<close> of an operation is a crash or a loop of the heap; the integer is the
  return code. Running the timers calls user code, the argument \<open>call\<close>: it gets the callback, the handle, the state \<open>w\<close> of
  the user's program and the loop, and may change both.
\<close>

definition timer_less_than :: "(addr \<Rightarrow> uv_timer) \<Rightarrow> addr \<Rightarrow> addr \<Rightarrow> bool" where
  "timer_less_than ts ha hb =
     (let a = ts ha; b = ts hb in
      if timeout a < timeout b then True
      else if timeout b < timeout a then False
      else start_id a < start_id b)"

definition set_timer :: "addr \<Rightarrow> uv_timer \<Rightarrow> uv_loop \<Rightarrow> uv_loop" where
  "set_timer a t l = l\<lparr>lp_timers := (lp_timers l)(a := t)\<rparr>"

definition uv_timer_init :: "uv_loop \<Rightarrow> addr \<Rightarrow> int \<times> uv_loop" where
  "uv_timer_init l a =
     (let l1 = uv__handle_init l a UV_TIMER;
          l2 = set_timer a ((lp_timers l1 a)\<lparr>timer_cb := None\<rparr>) l1
      in (0, set_timer a ((lp_timers l2 a)\<lparr>repeat := 0\<rparr>) l2))"

definition uv_timer_stop :: "uv_loop \<Rightarrow> addr \<Rightarrow> (int \<times> uv_loop) option" where
  "uv_timer_stop l a =
     (if \<not> uv__is_active l a then Some (0, l)
      else case heap_remove (timer_less_than (lp_timers l)) (lp_timer_heap l) a of
             None \<Rightarrow> None
           | Some hp \<Rightarrow> Some (0, uv__handle_stop (l\<lparr>lp_timer_heap := hp\<rparr>) a))"

definition clamped_timeout :: "uint64 \<Rightarrow> uint64 \<Rightarrow> uint64" where
  "clamped_timeout now t = (let c = now + t in if c < t then - 1 else c)"

definition uv_timer_start :: "uv_loop \<Rightarrow> addr \<Rightarrow> uv_cb option \<Rightarrow> uint64 \<Rightarrow> uint64 \<Rightarrow> (int \<times> uv_loop) option" where
  "uv_timer_start l0 a cb t r =
     (if uv__is_closing l0 a \<or> cb = None then Some (UV_EINVAL, l0)
      else case (if uv__is_active l0 a then uv_timer_stop l0 a else Some (0, l0)) of
             None \<Rightarrow> None
           | Some (_, l1) \<Rightarrow>
               (let l2 = set_timer a \<lparr>timer_cb = cb, timeout = clamped_timeout (lp_time l1) t, repeat = r, start_id = lp_timer_counter l1\<rparr> l1;
                    l3 = l2\<lparr>lp_timer_counter := lp_timer_counter l2 + 1\<rparr>
                in case heap_insert (timer_less_than (lp_timers l3)) (lp_timer_heap l3) a of
                     None \<Rightarrow> None
                   | Some hp \<Rightarrow> Some (0, uv__handle_start (l3\<lparr>lp_timer_heap := hp\<rparr>) a)))"

definition uv_timer_again :: "uv_loop \<Rightarrow> addr \<Rightarrow> (int \<times> uv_loop) option" where
  "uv_timer_again l a =
     (if timer_cb (lp_timers l a) = None then Some (UV_EINVAL, l)
      else if repeat (lp_timers l a) \<noteq> 0
      then (case uv_timer_stop l a of
              None \<Rightarrow> None
            | Some (_, l1) \<Rightarrow>
                (case uv_timer_start l1 a (timer_cb (lp_timers l1 a)) (repeat (lp_timers l1 a)) (repeat (lp_timers l1 a)) of
                   None \<Rightarrow> None
                 | Some (_, l2) \<Rightarrow> Some (0, l2)))
      else Some (0, l))"

definition uv_timer_set_repeat :: "uv_loop \<Rightarrow> addr \<Rightarrow> uint64 \<Rightarrow> uv_loop" where
  "uv_timer_set_repeat l a r = set_timer a ((lp_timers l a)\<lparr>repeat := r\<rparr>) l"

definition uv_timer_get_repeat :: "uv_loop \<Rightarrow> addr \<Rightarrow> uint64" where
  "uv_timer_get_repeat l a = repeat (lp_timers l a)"

definition INT_MAX :: uint64 where "INT_MAX = 0x7fffffff"

definition uv__next_timeout :: "uv_loop \<Rightarrow> int" where
  "uv__next_timeout l =
     (case heap_min (lp_timer_heap l) of
        None \<Rightarrow> - 1
      | Some a \<Rightarrow>
          if timeout (lp_timers l a) \<le> lp_time l then 0
          else let diff = timeout (lp_timers l a) - lp_time l;
                   diff = (if diff > INT_MAX then INT_MAX else diff)
               in uint diff)"

partial_function (option) uv__run_timers :: "(uv_cb \<Rightarrow> addr \<Rightarrow> 'w \<Rightarrow> uv_loop \<Rightarrow> 'w \<times> uv_loop) \<Rightarrow> 'w \<Rightarrow> uv_loop \<Rightarrow> ('w \<times> uv_loop) option" where
  "uv__run_timers call w l =
     (case heap_min (lp_timer_heap l) of
        None \<Rightarrow> Some (w, l)
      | Some a \<Rightarrow>
          if timeout (lp_timers l a) > lp_time l then Some (w, l)
          else (case uv_timer_stop l a of
                  None \<Rightarrow> None
                | Some (_, l1) \<Rightarrow>
                    (case uv_timer_again l1 a of
                       None \<Rightarrow> None
                     | Some (_, l2) \<Rightarrow>
                         (case timer_cb (lp_timers l2 a) of
                            None \<Rightarrow> None
                          | Some cb \<Rightarrow> (case call cb a w l2 of (w', l3) \<Rightarrow> uv__run_timers call w' l3)))))"

definition uv__timer_close :: "uv_loop \<Rightarrow> addr \<Rightarrow> uv_loop option" where
  "uv__timer_close l a = map_option snd (uv_timer_stop l a)"

section \<open>The order of timers\<close>

lemma timer_less_than_iff:
  "timer_less_than ts a b \<longleftrightarrow> timeout (ts a) < timeout (ts b) \<or> timeout (ts a) = timeout (ts b) \<and> start_id (ts a) < start_id (ts b)"
  by (auto simp: timer_less_than_def Let_def)

interpretation timer_order: node_order "timer_less_than ts" for ts
proof unfold_locales
  show "\<not> timer_less_than ts b a" if "timer_less_than ts a b" for a b
    using that by (auto simp: timer_less_than_iff)
  show "\<not> timer_less_than ts a c" if "\<not> timer_less_than ts a b" "\<not> timer_less_than ts b c" for a b c
    using that by (auto simp: timer_less_than_iff not_less)
qed

lemma timer_strict [simp]: "strict_order (timer_less_than ts)"
  by (simp add: strict_order_iff timer_order.node_order_axioms)

lemma timer_less_than_other: "x \<noteq> a \<Longrightarrow> y \<noteq> a \<Longrightarrow> timer_less_than (ts(a := t)) x y = timer_less_than ts x y"
  by (simp add: timer_less_than_def)

section \<open>The active timers are the nodes of the heap\<close>

definition active_timers :: "uv_loop \<Rightarrow> addr set \<Rightarrow> addr set" where
  "active_timers l H = {a \<in> H. h_type (lp_handles l a) = UV_TIMER \<and> uv__is_active l a}"

definition timers_ok :: "uv_loop \<Rightarrow> addr set \<Rightarrow> bool" where
  "timers_ok l H \<longleftrightarrow> count_ok l H \<and> card H < 2 ^ 32 \<and>
     is_heap (timer_less_than (lp_timers l)) (lp_timer_heap l) (active_timers l H) \<and>
     (\<forall>a \<in> active_timers l H. timer_cb (lp_timers l a) \<noteq> None)"

lemma timers_okD:
  assumes "timers_ok l H"
  shows "count_ok l H" and "finite H" and "card H < 2 ^ 32" and "is_heap (timer_less_than (lp_timers l)) (lp_timer_heap l) (active_timers l H)"
    and "a \<in> active_timers l H \<Longrightarrow> timer_cb (lp_timers l a) \<noteq> None"
  using assms by (auto simp: timers_ok_def count_ok_def)

text \<open>What the timer operations keep of the loop.\<close>

definition timer_frame :: "uv_loop \<Rightarrow> uv_loop \<Rightarrow> bool" where
  "timer_frame l l' \<longleftrightarrow> lp_time l' = lp_time l \<and> lp_queues l' = lp_queues l \<and> lp_closing_handles l' = lp_closing_handles l \<and> lp_watcher_cb l' = lp_watcher_cb l \<and>
     lp_active_reqs l' = lp_active_reqs l \<and> lp_stop_flag l' = lp_stop_flag l \<and>
     (\<forall>x. h_type (lp_handles l' x) = h_type (lp_handles l x) \<and> h_next_closing (lp_handles l' x) = h_next_closing (lp_handles l x) \<and>
        h_close_cb (lp_handles l' x) = h_close_cb (lp_handles l x) \<and> uv__is_closing l' x = uv__is_closing l x \<and> handle_closed l' x = handle_closed l x \<and>
        uv__has_ref l' x = uv__has_ref l x \<and> (h_type (lp_handles l x) \<noteq> UV_TIMER \<longrightarrow> uv__is_active l' x = uv__is_active l x))"

lemma timer_frame_refl [simp]: "timer_frame l l"
  by (simp add: timer_frame_def)

lemma timer_frame_trans: "timer_frame l l1 \<Longrightarrow> timer_frame l1 l2 \<Longrightarrow> timer_frame l l2"
  by (simp add: timer_frame_def)

lemma set_timer_simps [simp]:
  "lp_timers (set_timer a t l) = (lp_timers l)(a := t)" "lp_handles (set_timer a t l) = lp_handles l" "lp_timer_heap (set_timer a t l) = lp_timer_heap l"
  "lp_time (set_timer a t l) = lp_time l" "lp_timer_counter (set_timer a t l) = lp_timer_counter l" "lp_active_handles (set_timer a t l) = lp_active_handles l"
  "lp_queues (set_timer a t l) = lp_queues l" "lp_closing_handles (set_timer a t l) = lp_closing_handles l" "lp_watcher_cb (set_timer a t l) = lp_watcher_cb l"
  "lp_active_reqs (set_timer a t l) = lp_active_reqs l" "lp_stop_flag (set_timer a t l) = lp_stop_flag l"
  by (simp_all add: set_timer_def)

lemma handles_cong:
  assumes "lp_handles l' = lp_handles l"
  shows "uv__is_active l' x = uv__is_active l x" and "uv__is_closing l' x = uv__is_closing l x" and "uv__has_ref l' x = uv__has_ref l x"
    and "handle_closed l' x = handle_closed l x"
    and "lp_active_handles l' = lp_active_handles l \<Longrightarrow> count_ok l' H = count_ok l H"
  using assms by (simp_all add: uv__is_active_def uv__is_closing_def uv__has_ref_def handle_closed_def count_ok_def live_handles_def)

lemma uv_timer_stop_spec:
  assumes ok: "timers_ok l H" and a: "a \<in> H" "h_type (lp_handles l a) = UV_TIMER"
  obtains l' where "uv_timer_stop l a = Some (0, l')" "timers_ok l' H" "active_timers l' H = active_timers l H - {a}" "lp_timers l' = lp_timers l"
    "lp_timer_counter l' = lp_timer_counter l" "timer_frame l l'" "\<And>x. uv__is_active l' x \<longleftrightarrow> x \<noteq> a \<and> uv__is_active l x"
proof (cases "uv__is_active l a")
  case False
  then have "uv_timer_stop l a = Some (0, l)" by (simp add: uv_timer_stop_def)
  moreover have "active_timers l H = active_timers l H - {a}" using False by (auto simp: active_timers_def)
  moreover have "uv__is_active l x \<longleftrightarrow> x \<noteq> a \<and> uv__is_active l x" for x using False by blast
  ultimately show ?thesis using that [OF _ ok _ refl refl timer_frame_refl] by blast
next
  case True
  let ?lt = "timer_less_than (lp_timers l)"
  have "a \<in> active_timers l H" using True a by (simp add: active_timers_def)
  then obtain hp where hp: "heap_remove ?lt (lp_timer_heap l) a = Some hp" "is_heap ?lt hp (active_timers l H - {a})"
    using uv_heap.del_queue [OF timer_strict timers_okD(4) [OF ok]] by blast
  define l1 where "l1 = l\<lparr>lp_timer_heap := hp\<rparr>"
  let ?l = "uv__handle_stop l1 a"
  have st: "uv__is_active ?l x \<longleftrightarrow> x \<noteq> a \<and> uv__is_active l x" for x using handles_cong(1) [of l1 l x] by (simp add: l1_def)
  have act: "active_timers ?l H = active_timers l H - {a}" unfolding active_timers_def st by (auto simp: l1_def)
  have "count_ok ?l H" using handle_stop_count [OF _ a(1), of l1] timers_okD(1) [OF ok] handles_cong(5) [of l1 l H] by (simp add: l1_def)
  then have "timers_ok ?l H" using timers_okD(3,5) [OF ok] hp(2) act by (auto simp: timers_ok_def l1_def)
  moreover have "timer_frame l ?l" using handles_cong(1-4) [of l1 l] a(2) by (auto simp: timer_frame_def l1_def)
  moreover have "uv_timer_stop l a = Some (0, ?l)" using True hp(1) by (simp add: uv_timer_stop_def l1_def)
  moreover have "lp_timers ?l = lp_timers l" "lp_timer_counter ?l = lp_timer_counter l" by (simp_all add: l1_def)
  ultimately show ?thesis using that act st by blast
qed

lemma clamped_timeout_le:
  "unat (clamped_timeout now t) = min (unat now + unat t) (2 ^ 64 - 1)"
proof -
  have b: "unat now < 2 ^ 64" "unat t < 2 ^ 64" using unsigned_less [of now] unsigned_less [of t] by simp_all
  have s: "unat (now + t) = (unat now + unat t) mod 2 ^ 64" by (simp add: unat_word_ariths)
  show ?thesis
  proof (cases "unat now + unat t < 2 ^ 64")
    case True
    then show ?thesis using s by (simp add: clamped_timeout_def Let_def word_less_nat_alt)
  next
    case False
    then have "unat (now + t) = unat now + unat t - 2 ^ 64" using s b by (simp add: mod_if)
    then have "now + t < t" using b False by (simp add: word_less_nat_alt)
    moreover have "unat (- 1 :: uint64) = 2 ^ 64 - 1" by (simp add: unsigned_minus_1_eq_mask mask_eq_exp_minus_1)
    ultimately show ?thesis using False by (simp add: clamped_timeout_def Let_def)
  qed
qed

text \<open>Starting a timer that is not active: its record is written, then it enters the heap.\<close>

lemma start_inactive:
  assumes ok: "timers_ok l H" and a: "a \<in> H" "h_type (lp_handles l a) = UV_TIMER" and nc: "\<not> uv__is_closing l a" and na: "\<not> uv__is_active l a"
    and cb: "timer_cb t \<noteq> None" and l1: "l1 = (set_timer a t l)\<lparr>lp_timer_counter := n\<rparr>"
  shows "\<exists>hp. heap_insert (timer_less_than (lp_timers l1)) (lp_timer_heap l1) a = Some hp \<and>
           timers_ok (uv__handle_start (l1\<lparr>lp_timer_heap := hp\<rparr>) a) H \<and>
           active_timers (uv__handle_start (l1\<lparr>lp_timer_heap := hp\<rparr>) a) H = insert a (active_timers l H) \<and>
           timer_frame l (uv__handle_start (l1\<lparr>lp_timer_heap := hp\<rparr>) a)"
proof -
  let ?S = "active_timers l H"
  have aS: "a \<notin> ?S" using na by (simp add: active_timers_def)
  have h1: "lp_handles l1 = lp_handles l" "lp_timer_heap l1 = lp_timer_heap l" "lp_timers l1 = (lp_timers l)(a := t)" by (simp_all add: l1)
  have "is_heap (timer_less_than (lp_timers l1)) (lp_timer_heap l1) ?S"
    unfolding h1 by (rule uv_heap.queue_cong [OF timers_okD(4) [OF ok]]) (use aS in \<open>metis timer_less_than_other\<close>)
  moreover have "card ?S + 1 < 2 ^ 32"
  proof -
    have "?S \<subseteq> H - {a}" using aS by (auto simp: active_timers_def)
    then have "card ?S \<le> card (H - {a})" using timers_okD(2) [OF ok] by (intro card_mono) simp_all
    also have "card (H - {a}) = card H - 1" using a(1) by simp
    finally show ?thesis using timers_okD(3) [OF ok] by simp
  qed
  ultimately obtain hp where hp: "heap_insert (timer_less_than (lp_timers l1)) (lp_timer_heap l1) a = Some hp" "is_heap (timer_less_than (lp_timers l1)) hp (insert a ?S)"
    using uv_heap.enq_queue [OF timer_strict _ aS] by blast
  define l2 where "l2 = l1\<lparr>lp_timer_heap := hp\<rparr>"
  let ?l = "uv__handle_start l2 a"
  have h2: "lp_handles l2 = lp_handles l" by (simp add: l2_def h1)
  have act: "active_timers ?l H = insert a ?S" using a handles_cong(1) [OF h2] h2 by (auto simp: active_timers_def)
  have "count_ok l2 H" using timers_okD(1) [OF ok] handles_cong(5) [OF h2] by (simp add: l2_def l1)
  then have "count_ok ?l H" using nc handles_cong(2) [OF h2] by (intro handle_start_count [OF _ a(1)]) simp_all
  then have "timers_ok ?l H" using timers_okD(3,5) [OF ok] hp(2) act cb aS by (auto simp: timers_ok_def l2_def h1)
  moreover have "timer_frame l ?l" using handles_cong(1-4) [OF h2] h2 a(2) by (auto simp: timer_frame_def l2_def l1)
  ultimately show ?thesis using hp(1) act by (auto simp: l2_def)
qed

lemma uv_timer_start_spec:
  assumes ok: "timers_ok l H" and a: "a \<in> H" "h_type (lp_handles l a) = UV_TIMER" and nc: "\<not> uv__is_closing l a"
  obtains l' where "uv_timer_start l a (Some cb) t r = Some (0, l')" "timers_ok l' H" "active_timers l' H = insert a (active_timers l H)" "timer_frame l l'"
    "lp_timers l' = (lp_timers l)(a := \<lparr>timer_cb = Some cb, timeout = clamped_timeout (lp_time l) t, repeat = r, start_id = lp_timer_counter l\<rparr>)"
    "lp_timer_counter l' = lp_timer_counter l + 1"
proof -
  let ?t = "\<lparr>timer_cb = Some cb, timeout = clamped_timeout (lp_time l) t, repeat = r, start_id = lp_timer_counter l\<rparr>"
  obtain l1 where l1: "uv_timer_stop l a = Some (0, l1)" "timers_ok l1 H" "active_timers l1 H = active_timers l H - {a}" "lp_timers l1 = lp_timers l"
      "lp_timer_counter l1 = lp_timer_counter l" "timer_frame l l1" "\<And>x. uv__is_active l1 x \<longleftrightarrow> x \<noteq> a \<and> uv__is_active l x"
    by (rule uv_timer_stop_spec [OF ok a]) blast
  have same: "(if uv__is_active l a then uv_timer_stop l a else Some (0, l)) = Some (0, l1)" using l1(1) by (auto simp: uv_timer_stop_def)
  have f: "lp_time l1 = lp_time l" "h_type (lp_handles l1 a) = UV_TIMER" "\<not> uv__is_closing l1 a" using l1(6) a nc by (simp_all add: timer_frame_def)
  define l3 where "l3 = (set_timer a ?t l1)\<lparr>lp_timer_counter := lp_timer_counter l + 1\<rparr>"
  have na: "\<not> uv__is_active l1 a" using l1(7) by blast
  have cb: "timer_cb ?t \<noteq> None" by simp
  obtain hp where hp: "heap_insert (timer_less_than (lp_timers l3)) (lp_timer_heap l3) a = Some hp" "timers_ok (uv__handle_start (l3\<lparr>lp_timer_heap := hp\<rparr>) a) H"
      "active_timers (uv__handle_start (l3\<lparr>lp_timer_heap := hp\<rparr>) a) H = insert a (active_timers l1 H)" "timer_frame l1 (uv__handle_start (l3\<lparr>lp_timer_heap := hp\<rparr>) a)"
    using start_inactive [OF l1(2) a(1) f(2,3) na cb l3_def] by blast
  have "uv_timer_start l a (Some cb) t r = Some (0, uv__handle_start (l3\<lparr>lp_timer_heap := hp\<rparr>) a)"
    unfolding uv_timer_start_def same using nc hp(1) by (simp add: f(1) l1(5) l3_def Let_def)
  moreover have "active_timers (uv__handle_start (l3\<lparr>lp_timer_heap := hp\<rparr>) a) H = insert a (active_timers l H)" using hp(3) l1(3) by simp
  moreover have "lp_timers (uv__handle_start (l3\<lparr>lp_timer_heap := hp\<rparr>) a) = (lp_timers l)(a := ?t)" "lp_timer_counter (uv__handle_start (l3\<lparr>lp_timer_heap := hp\<rparr>) a) = lp_timer_counter l + 1"
    using l1(4) by (simp_all add: l3_def)
  ultimately show ?thesis using that hp(2) timer_frame_trans [OF l1(6) hp(4)] by blast
qed

section \<open>Running the timers\<close>

lemma uv_timer_again_spec:
  assumes ok: "timers_ok l H" and a: "a \<in> H" "h_type (lp_handles l a) = UV_TIMER" and nc: "\<not> uv__is_closing l a" and cb: "timer_cb (lp_timers l a) = Some cb"
    and r: "repeat (lp_timers l a) \<noteq> 0"
  obtains l' where "uv_timer_again l a = Some (0, l')" "timers_ok l' H" "active_timers l' H = insert a (active_timers l H)" "timer_frame l l'"
    "lp_timers l' = (lp_timers l)(a := (lp_timers l a)\<lparr>timeout := clamped_timeout (lp_time l) (repeat (lp_timers l a)), start_id := lp_timer_counter l\<rparr>)"
proof -
  obtain l1 where l1: "uv_timer_stop l a = Some (0, l1)" "timers_ok l1 H" "active_timers l1 H = active_timers l H - {a}" "lp_timers l1 = lp_timers l"
      "lp_timer_counter l1 = lp_timer_counter l" "timer_frame l l1"
    by (rule uv_timer_stop_spec [OF ok a]) blast
  have f: "lp_time l1 = lp_time l" "h_type (lp_handles l1 a) = UV_TIMER" "\<not> uv__is_closing l1 a" using l1(6) a nc by (simp_all add: timer_frame_def)
  let ?r = "repeat (lp_timers l a)"
  obtain l2 where l2: "uv_timer_start l1 a (Some cb) ?r ?r = Some (0, l2)" "timers_ok l2 H" "active_timers l2 H = insert a (active_timers l1 H)" "timer_frame l1 l2"
      "lp_timers l2 = (lp_timers l1)(a := \<lparr>timer_cb = Some cb, timeout = clamped_timeout (lp_time l1) ?r, repeat = ?r, start_id = lp_timer_counter l1\<rparr>)"
    by (rule uv_timer_start_spec [OF l1(2) a(1) f(2,3)]) blast
  have "uv_timer_again l a = Some (0, l2)" using cb r l1(1,4) l2(1) by (simp add: uv_timer_again_def)
  moreover have "active_timers l2 H = insert a (active_timers l H)" using l2(3) l1(3) by simp
  moreover have "lp_timers l2 = (lp_timers l)(a := (lp_timers l a)\<lparr>timeout := clamped_timeout (lp_time l) ?r, start_id := lp_timer_counter l\<rparr>)"
    using l2(5) l1(4,5) f(1) cb by (cases "lp_timers l a") simp
  ultimately show ?thesis using that l2(2) timer_frame_trans [OF l1(6) l2(4)] by blast
qed

definition due_timers :: "uv_loop \<Rightarrow> addr set \<Rightarrow> addr set" where
  "due_timers l H = {a \<in> active_timers l H. timeout (lp_timers l a) \<le> lp_time l}"

text \<open>The step of the loop before the callback: the timer leaves the heap, and a repeating one goes back with a deadline in the future.\<close>

lemma fire_spec:
  assumes ok: "timers_ok l H" and a: "a \<in> active_timers l H" and now: "lp_time l < - 1"
  obtains l1 l2 cb where "uv_timer_stop l a = Some (0, l1)" "uv_timer_again l1 a = Some (0, l2)" "timers_ok l2 H" "timer_frame l l2"
    "timer_cb (lp_timers l a) = Some cb" "timer_cb (lp_timers l2 a) = Some cb" "due_timers l2 H = due_timers l H - {a}" "\<And>x. x \<noteq> a \<Longrightarrow> lp_timers l2 x = lp_timers l x"
    "active_timers l2 H = (if repeat (lp_timers l a) = 0 then active_timers l H - {a} else active_timers l H)"
proof -
  have aH: "a \<in> H" "h_type (lp_handles l a) = UV_TIMER" "\<not> uv__is_closing l a" using a timers_okD(1) [OF ok] by (auto simp: active_timers_def count_ok_def)
  obtain cb where cb: "timer_cb (lp_timers l a) = Some cb" using timers_okD(5) [OF ok a] by blast
  obtain l1 where l1: "uv_timer_stop l a = Some (0, l1)" "timers_ok l1 H" "active_timers l1 H = active_timers l H - {a}" "lp_timers l1 = lp_timers l"
      "timer_frame l l1"
    by (rule uv_timer_stop_spec [OF ok aH(1,2)]) blast
  have f: "lp_time l1 = lp_time l" "h_type (lp_handles l1 a) = UV_TIMER" "\<not> uv__is_closing l1 a" using l1(5) aH by (simp_all add: timer_frame_def)
  show ?thesis
  proof (cases "repeat (lp_timers l a) = 0")
    case True
    have "uv_timer_again l1 a = Some (0, l1)" using True cb l1(4) by (simp add: uv_timer_again_def)
    moreover have "due_timers l1 H = due_timers l H - {a}" by (auto simp: due_timers_def l1(3,4) f(1))
    ultimately show ?thesis using that [OF l1(1) _ l1(2,5) cb] cb l1(3,4) True by simp
  next
    case False
    have cb1: "timer_cb (lp_timers l1 a) = Some cb" "repeat (lp_timers l1 a) \<noteq> 0" using cb False l1(4) by simp_all
    obtain l2 where l2: "uv_timer_again l1 a = Some (0, l2)" "timers_ok l2 H" "active_timers l2 H = insert a (active_timers l1 H)" "timer_frame l1 l2"
        "lp_timers l2 = (lp_timers l1)(a := (lp_timers l1 a)\<lparr>timeout := clamped_timeout (lp_time l1) (repeat (lp_timers l1 a)), start_id := lp_timer_counter l1\<rparr>)"
      by (rule uv_timer_again_spec [OF l1(2) aH(1) f(2,3) cb1]) blast
    have fr: "timer_frame l l2" by (rule timer_frame_trans [OF l1(5) l2(4)])
    then have t: "lp_time l2 = lp_time l" by (simp add: timer_frame_def)
    have "unat (repeat (lp_timers l a)) > 0" using False by (simp add: unat_gt_0)
    moreover have "unat (lp_time l) < 2 ^ 64 - 1" using now by (simp add: word_less_nat_alt unsigned_minus_1_eq_mask mask_eq_exp_minus_1)
    ultimately have "lp_time l < clamped_timeout (lp_time l) (repeat (lp_timers l a))" by (simp add: word_less_nat_alt clamped_timeout_le)
    then have "due_timers l2 H = due_timers l H - {a}" using l2(3) l1(3,4) l2(5) f(1) t by (auto simp: due_timers_def)
    moreover have "active_timers l2 H = active_timers l H" using l2(3) l1(3) a by auto
    ultimately show ?thesis using that [OF l1(1) l2(1,2) fr cb] l2(5) l1(4) cb False by simp
  qed
qed

text \<open>
  What the callbacks may do: anything that keeps the invariant and the time, so long as no timer becomes due that was not due
  before the call.
\<close>

definition timely :: "(uv_cb \<Rightarrow> addr \<Rightarrow> 'w \<Rightarrow> uv_loop \<Rightarrow> 'w \<times> uv_loop) \<Rightarrow> addr set \<Rightarrow> bool" where
  "timely call H \<longleftrightarrow> (\<forall>cb a w l w' l'. timers_ok l H \<longrightarrow> call cb a w l = (w', l') \<longrightarrow>
     timers_ok l' H \<and> lp_time l' = lp_time l \<and> due_timers l' H \<subseteq> due_timers l H)"

lemma run_timers_stop:
  assumes ok: "timers_ok l H" and none: "due_timers l H = {}"
  shows "uv__run_timers call w l = Some (w, l)"
proof (cases "heap_min (lp_timer_heap l)")
  case None
  then show ?thesis by (simp add: uv__run_timers.simps [of call w l])
next
  case (Some m)
  then have "m \<in> active_timers l H" using uv_heap.first_least [OF timer_strict timers_okD(4) [OF ok]] by blast
  then have "lp_time l < timeout (lp_timers l m)" using none by (auto simp: due_timers_def not_le)
  then show ?thesis using Some by (simp add: uv__run_timers.simps [of call w l])
qed

text \<open>The timer that fires next: due, and no due timer comes before it.\<close>

lemma run_timers_step:
  assumes ok: "timers_ok l H" and some: "due_timers l H \<noteq> {}" and now: "lp_time l < - 1"
  obtains m cb l2 where "m \<in> due_timers l H" "\<And>a. a \<in> due_timers l H \<Longrightarrow> \<not> timer_less_than (lp_timers l) a m"
    "timer_cb (lp_timers l m) = Some cb" "timers_ok l2 H" "timer_frame l l2" "due_timers l2 H = due_timers l H - {m}" "\<And>x. x \<noteq> m \<Longrightarrow> lp_timers l2 x = lp_timers l x"
    "active_timers l2 H = (if repeat (lp_timers l m) = 0 then active_timers l H - {m} else active_timers l H)"
    "uv__run_timers call w l = (case call cb m w l2 of (w', l3) \<Rightarrow> uv__run_timers call w' l3)"
proof -
  obtain d where d: "d \<in> active_timers l H" "timeout (lp_timers l d) \<le> lp_time l" using some by (auto simp: due_timers_def)
  obtain m where m: "heap_min (lp_timer_heap l) = Some m" using uv_heap.first_some [OF timers_okD(4) [OF ok]] d(1) by blast
  have least: "m \<in> active_timers l H" "\<And>a. a \<in> active_timers l H \<Longrightarrow> \<not> timer_less_than (lp_timers l) a m"
    using uv_heap.first_least [OF timer_strict timers_okD(4) [OF ok] m] by blast+
  have "timeout (lp_timers l m) \<le> timeout (lp_timers l d)" using least(2) [OF d(1)] by (simp add: timer_less_than_iff not_less)
  then have t: "timeout (lp_timers l m) \<le> lp_time l" using d(2) by (rule order_trans)
  obtain l1 l2 cb where f: "uv_timer_stop l m = Some (0, l1)" "uv_timer_again l1 m = Some (0, l2)" "timers_ok l2 H" "timer_frame l l2"
    "timer_cb (lp_timers l m) = Some cb" "timer_cb (lp_timers l2 m) = Some cb" "due_timers l2 H = due_timers l H - {m}" "\<And>x. x \<noteq> m \<Longrightarrow> lp_timers l2 x = lp_timers l x"
    "active_timers l2 H = (if repeat (lp_timers l m) = 0 then active_timers l H - {m} else active_timers l H)"
    by (rule fire_spec [OF ok least(1) now]) blast
  have "uv__run_timers call w l = (case call cb m w l2 of (w', l3) \<Rightarrow> uv__run_timers call w' l3)"
    using m f(1,2,6) leD [OF t] by (simp add: uv__run_timers.simps [of call w l])
  moreover have "m \<in> due_timers l H" using least(1) t by (simp add: due_timers_def)
  moreover have "\<not> timer_less_than (lp_timers l) a m" if "a \<in> due_timers l H" for a using least(2) that by (simp add: due_timers_def)
  ultimately show ?thesis using that f(3-5,7-9) by blast
qed

lemma due_finite: "timers_ok l H \<Longrightarrow> finite (due_timers l H)"
  using timers_okD(2) [of l H] by (simp add: due_timers_def active_timers_def)

lemma run_timers_returns:
  assumes "timely call H" and "timers_ok l H" and "lp_time l < - 1"
  shows "\<exists>w' l'. uv__run_timers call w l = Some (w', l') \<and> timers_ok l' H \<and> lp_time l' = lp_time l \<and> due_timers l' H = {}"
  using assms(2,3)
proof (induction "card (due_timers l H)" arbitrary: l w rule: less_induct)
  case less
  note ok = less.prems(1) and now = less.prems(2)
  show ?case
  proof (cases "due_timers l H = {}")
    case True
    then show ?thesis using run_timers_stop [OF ok True, of call w] ok by simp
  next
    case False
    obtain m cb l2 where s: "m \<in> due_timers l H" "timers_ok l2 H" "timer_frame l l2" "due_timers l2 H = due_timers l H - {m}"
        "uv__run_timers call w l = (case call cb m w l2 of (w', l3) \<Rightarrow> uv__run_timers call w' l3)"
      by (rule run_timers_step [OF ok False now, where call = call and w = w]) blast
    obtain w' l3 where c: "call cb m w l2 = (w', l3)" by fastforce
    have l3: "timers_ok l3 H" "lp_time l3 = lp_time l" "due_timers l3 H \<subseteq> due_timers l H - {m}"
      using assms(1) s(2-4) c unfolding timely_def timer_frame_def by metis+
    have "due_timers l3 H \<subset> due_timers l H" using l3(3) s(1) by blast
    then have "card (due_timers l3 H) < card (due_timers l H)" by (rule psubset_card_mono [OF due_finite [OF ok]])
    then show ?thesis using less.hyps [of l3 w'] l3(1,2) now s(5) c by simp
  qed
qed

text \<open>Callbacks that leave the loop alone.\<close>

lemma run_timers_passive:
  assumes call: "\<And>cb a w l. call cb a w l = (g a (lp_time l) w, l)" and "timers_ok l H" and "lp_time l < - 1"
  shows "\<exists>ds l'. uv__run_timers call w l = Some (fold (\<lambda>a. g a (lp_time l)) ds w, l') \<and> distinct ds \<and> set ds = due_timers l H \<and>
           sorted_wrt (\<lambda>x y. \<not> timer_less_than (lp_timers l) y x) ds \<and> timers_ok l' H \<and> due_timers l' H = {} \<and> timer_frame l l' \<and>
           (\<forall>x. x \<notin> due_timers l H \<longrightarrow> lp_timers l' x = lp_timers l x) \<and>
           ((\<forall>a \<in> due_timers l H. repeat (lp_timers l a) = 0) \<longrightarrow> active_timers l' H = active_timers l H - due_timers l H)"
  using assms(2,3)
proof (induction "card (due_timers l H)" arbitrary: l w rule: less_induct)
  case less
  note ok = less.prems(1) and now = less.prems(2)
  show ?case
  proof (cases "due_timers l H = {}")
    case True
    then show ?thesis using run_timers_stop [OF ok True, of call w] ok by (intro exI [of _ "[]"] exI [of _ l]) simp
  next
    case False
    obtain m cb l2 where s: "m \<in> due_timers l H" "\<And>a. a \<in> due_timers l H \<Longrightarrow> \<not> timer_less_than (lp_timers l) a m" "timers_ok l2 H" "timer_frame l l2"
        "due_timers l2 H = due_timers l H - {m}" "\<And>x. x \<noteq> m \<Longrightarrow> lp_timers l2 x = lp_timers l x"
        "active_timers l2 H = (if repeat (lp_timers l m) = 0 then active_timers l H - {m} else active_timers l H)"
        "uv__run_timers call w l = (case call cb m w l2 of (w', l3) \<Rightarrow> uv__run_timers call w' l3)"
      by (rule run_timers_step [OF ok False now, where call = call and w = w]) blast
    have "card (due_timers l2 H) < card (due_timers l H)" unfolding s(5) by (rule card_Diff1_less [OF due_finite [OF ok] s(1)])
    moreover have t2: "lp_time l2 = lp_time l" using s(4) by (simp add: timer_frame_def)
    ultimately obtain ds l' where IH: "uv__run_timers call (g m (lp_time l) w) l2 = Some (fold (\<lambda>a. g a (lp_time l)) ds (g m (lp_time l) w), l')" "distinct ds" "set ds = due_timers l2 H"
        "sorted_wrt (\<lambda>x y. \<not> timer_less_than (lp_timers l2) y x) ds" "timers_ok l' H" "due_timers l' H = {}" "timer_frame l2 l'" "\<forall>x. x \<notin> due_timers l2 H \<longrightarrow> lp_timers l' x = lp_timers l2 x"
        "(\<forall>a \<in> due_timers l2 H. repeat (lp_timers l2 a) = 0) \<longrightarrow> active_timers l' H = active_timers l2 H - due_timers l2 H"
      using less.hyps [OF _ s(3), of "g m (lp_time l) w"] now by auto
    have same: "timer_less_than (lp_timers l2) y x = timer_less_than (lp_timers l) y x" if "x \<in> set ds" "y \<in> set ds" for x y
      using that s(6) unfolding IH(3) s(5) by (simp add: timer_less_than_def)
    have "sorted_wrt (\<lambda>x y. \<not> timer_less_than (lp_timers l) y x) ds" by (rule sorted_wrt_mono_rel [OF _ IH(4)]) (simp add: same)
    then have "sorted_wrt (\<lambda>x y. \<not> timer_less_than (lp_timers l) y x) (m # ds)" using s(2) IH(3) s(5) by simp
    moreover have "uv__run_timers call w l = Some (fold (\<lambda>a. g a (lp_time l)) (m # ds) w, l')" using s(8) IH(1) t2 by (simp add: call)
    moreover have "distinct (m # ds)" "set (m # ds) = due_timers l H" using IH(2,3) s(1,5) by auto
    moreover have "timer_frame l l'" by (rule timer_frame_trans [OF s(4) IH(7)])
    moreover have "\<forall>x. x \<notin> due_timers l H \<longrightarrow> lp_timers l' x = lp_timers l x" using IH(8) s(1,5,6) by (metis Diff_iff)
    moreover have "active_timers l' H = active_timers l H - due_timers l H" if "\<forall>a \<in> due_timers l H. repeat (lp_timers l a) = 0"
    proof -
      have "\<forall>a \<in> due_timers l2 H. repeat (lp_timers l2 a) = 0" using that s(5,6) by auto
      then have "active_timers l' H = active_timers l2 H - due_timers l2 H" using IH(9) by blast
      then show ?thesis using s(1,5,7) that by auto
    qed
    ultimately show ?thesis using IH(5,6) by blast
  qed
qed

text \<open>Callbacks that only record that they were called.\<close>

definition log_call :: "uv_cb \<Rightarrow> addr \<Rightarrow> addr list \<Rightarrow> uv_loop \<Rightarrow> addr list \<times> uv_loop" where
  "log_call cb a w l = (w @ [a], l)"

lemma fold_log: "fold (\<lambda>a w. w @ [a]) ds w = w @ ds"
  by (induction ds arbitrary: w) simp_all

section \<open>New loops and new timers\<close>

lemma loop_init_fields_simps [simp]:
  "lp_timer_heap (loop_init_fields t l) = heap_init (lp_timer_heap l)" "lp_active_handles (loop_init_fields t l) = 0" "lp_time (loop_init_fields t l) = t div 1000000"
  "lp_timers (loop_init_fields t l) = lp_timers l" "lp_handles (loop_init_fields t l) = lp_handles l"
  by (simp_all add: loop_init_fields_def uv__update_time_def Let_def)

lemma loop_init_timers: "timers_ok (loop_init_fields t l) {}"
  by (simp add: timers_ok_def count_ok_def live_handles_def active_timers_def heap_init_empty)

lemma uv_timer_init_spec:
  assumes ok: "timers_ok l H" and a: "a \<notin> H" and H: "card H + 1 < 2 ^ 32" and l': "uv_timer_init l a = (c, l')"
  shows "c = 0" and "timers_ok l' (insert a H)" and "active_timers l' (insert a H) = active_timers l H" and "h_type (lp_handles l' a) = UV_TIMER"
    and "\<not> uv__is_closing l' a" and "lp_time l' = lp_time l"
proof -
  let ?t = "(lp_timers l a)\<lparr>timer_cb := None, repeat := 0\<rparr>"
  have c: "c = 0" and e: "l' = set_timer a ?t (uv__handle_init l a UV_TIMER)" using l' by (simp_all add: uv_timer_init_def Let_def set_timer_def)
  have st: "uv__is_active l' x = uv__is_active (uv__handle_init l a UV_TIMER) x" "uv__is_closing l' x = uv__is_closing (uv__handle_init l a UV_TIMER) x" for x
    by (rule handles_cong(1), simp add: e) (rule handles_cong(2), simp add: e)
  have ty: "h_type (lp_handles l' x) = (if x = a then UV_TIMER else h_type (lp_handles l x))" for x by (simp add: e handle_init_state)
  show act: "active_timers l' (insert a H) = active_timers l H"
    using a unfolding active_timers_def st ty by (auto simp: handle_init_state)
  have aS: "a \<notin> active_timers l H" using a by (simp add: active_timers_def)
  have cnt: "count_ok l' (insert a H)" using handle_init_count [OF timers_okD(1) [OF ok] a, of UV_TIMER] handles_cong(5) [of l' "uv__handle_init l a UV_TIMER"] by (simp add: e)
  have lt: "timer_less_than (lp_timers l') x y = timer_less_than (lp_timers l) x y" if "x \<in> active_timers l H" "y \<in> active_timers l H" for x y
  proof -
    have "x \<noteq> a" "y \<noteq> a" using that aS by auto
    then show ?thesis by (simp add: e timer_less_than_other)
  qed
  have "is_heap (timer_less_than (lp_timers l')) (lp_timer_heap l) (active_timers l H)" by (rule uv_heap.queue_cong [OF timers_okD(4) [OF ok] lt])
  then have hp: "is_heap (timer_less_than (lp_timers l')) (lp_timer_heap l') (active_timers l' (insert a H))" unfolding act by (simp add: e)
  have "timer_cb (lp_timers l' x) \<noteq> None" if "x \<in> active_timers l H" for x using that aS timers_okD(5) [OF ok that] by (auto simp: e)
  then show "timers_ok l' (insert a H)" using cnt hp H a timers_okD(2) [OF ok] unfolding timers_ok_def act by simp
  show "c = 0" "h_type (lp_handles l' a) = UV_TIMER" "\<not> uv__is_closing l' a" "lp_time l' = lp_time l" using c ty st(2) by (simp_all add: handle_init_state e)
qed

lemma next_timeout_value:
  assumes "timers_ok l H"
  shows "uv__next_timeout l = (if active_timers l H = {} then - 1
           else min (2 ^ 31 - 1) (Min ((\<lambda>a. max 0 (uint (timeout (lp_timers l a)) - uint (lp_time l))) ` active_timers l H)))"
proof (cases "heap_min (lp_timer_heap l)")
  case None
  then show ?thesis using uv_heap.first_none [OF timers_okD(4) [OF assms]] by (simp add: uv__next_timeout_def)
next
  case (Some m)
  let ?g = "\<lambda>a. max 0 (uint (timeout (lp_timers l a)) - uint (lp_time l))"
  note least = uv_heap.first_least [OF timer_strict timers_okD(4) [OF assms] Some]
  have le: "uint (timeout (lp_timers l m)) \<le> uint (timeout (lp_timers l a))" if "a \<in> active_timers l H" for a
    using least that by (auto simp: timer_less_than_iff not_less word_le_def)
  have "?g m \<le> ?g a" if "a \<in> active_timers l H" for a by (intro max.mono diff_right_mono le that order_refl)
  then have "Min (?g ` active_timers l H) = ?g m"
    using least timers_okD(2) [OF assms] by (intro Min_eqI) (auto simp: active_timers_def)
  moreover have "uv__next_timeout l = min (2 ^ 31 - 1) (?g m)"
  proof (cases "timeout (lp_timers l m) \<le> lp_time l")
    case True
    then show ?thesis using Some by (simp add: uv__next_timeout_def word_le_def)
  next
    case False
    then have d: "uint (timeout (lp_timers l m) - lp_time l) = uint (timeout (lp_timers l m)) - uint (lp_time l)" by (simp add: uint_minus_simple_alt [THEN iffD1] word_le_def)
    show ?thesis using Some False d by (simp add: uv__next_timeout_def Let_def INT_MAX_def word_less_def word_le_def min_def)
  qed
  ultimately show ?thesis using least by auto
qed

section \<open>The properties of timers\<close>


text \<open>Whatever the callbacks do to the timers, \<open>uv__run_timers\<close> returns if no callback makes a timer due: the only way to keep
  it running is to start a timer with a deadline that has passed.\<close>

theorem run_timers_end:
  assumes "timely call H" and "timers_ok l H" and "lp_time l < - 1"
  shows "\<exists>w' l'. uv__run_timers call w l = Some (w', l') \<and> timers_ok l' H \<and> lp_time l' = lp_time l \<and> due_timers l' H = {}"
  using assms by (rule run_timers_returns)

text \<open>\<open>uv__next_timeout\<close> is the time in milliseconds until the earliest deadline of an active timer, 0 if it has passed and at most
  the largest int, and -1 when there is none.\<close>

theorem next_timeout_exact:
  assumes "timers_ok l H"
  shows "uv__next_timeout l = (if active_timers l H = {} then - 1
           else min (2 ^ 31 - 1) (Min ((\<lambda>a. max 0 (uint (timeout (lp_timers l a)) - uint (lp_time l))) ` active_timers l H)))"
  using assms by (rule next_timeout_value)

text \<open>The timer operations on a handle of the loop: stopping takes the timer out of the heap and starting puts it there with the
  deadline of now plus the timeout, which does not wrap but stays at the largest value, and the next start number. A handle that is being
  closed or has no callback is refused. The other timers keep their deadlines, and every call returns.\<close>

theorem timer_operations:
  assumes "timers_ok l H" and "a \<in> H" and "h_type (lp_handles l a) = UV_TIMER"
  shows "(\<exists>l'. uv_timer_stop l a = Some (0, l') \<and> timers_ok l' H \<and> active_timers l' H = active_timers l H - {a} \<and> lp_timers l' = lp_timers l) \<and>
    (if uv__is_closing l a \<or> cb = None then uv_timer_start l a cb t r = Some (UV_EINVAL, l)
     else \<exists>l'. uv_timer_start l a cb t r = Some (0, l') \<and> timers_ok l' H \<and> active_timers l' H = insert a (active_timers l H) \<and>
            unat (timeout (lp_timers l' a)) = min (unat (lp_time l) + unat t) (2 ^ 64 - 1) \<and> repeat (lp_timers l' a) = r \<and> timer_cb (lp_timers l' a) = cb \<and>
            start_id (lp_timers l' a) = lp_timer_counter l \<and> lp_timer_counter l' = lp_timer_counter l + 1 \<and> (\<forall>x. x \<noteq> a \<longrightarrow> lp_timers l' x = lp_timers l x))"
proof -
  have "\<exists>l'. uv_timer_stop l a = Some (0, l') \<and> timers_ok l' H \<and> active_timers l' H = active_timers l H - {a} \<and> lp_timers l' = lp_timers l"
    by (rule uv_timer_stop_spec [OF assms]) blast
  moreover have "\<exists>l'. uv_timer_start l a (Some c) t r = Some (0, l') \<and> timers_ok l' H \<and> active_timers l' H = insert a (active_timers l H) \<and>
            unat (timeout (lp_timers l' a)) = min (unat (lp_time l) + unat t) (2 ^ 64 - 1) \<and> repeat (lp_timers l' a) = r \<and> timer_cb (lp_timers l' a) = Some c \<and>
            start_id (lp_timers l' a) = lp_timer_counter l \<and> lp_timer_counter l' = lp_timer_counter l + 1 \<and> (\<forall>x. x \<noteq> a \<longrightarrow> lp_timers l' x = lp_timers l x)"
    if nc: "\<not> uv__is_closing l a" for c
    by (rule uv_timer_start_spec [OF assms nc, of c t r]) (auto simp: clamped_timeout_le)
  moreover have "uv_timer_start l a cb t r = Some (UV_EINVAL, l)" if "uv__is_closing l a \<or> cb = None"
    using that by (simp add: uv_timer_start_def)
  ultimately show ?thesis by (cases cb) auto
qed

section \<open>Examples\<close>

definition raw_loop :: uv_loop where
  "raw_loop =
     \<lparr>lp_active_handles = 0, lp_active_reqs = 0, lp_stop_flag = 0, lp_closing_handles = None,
      lp_timer_heap = \<lparr>hp_min = None, hp_nelts = 0, hp_nodes = \<lambda>a. \<lparr>hn_left = None, hn_right = None, hn_parent = None\<rparr>\<rparr>,
      lp_timer_counter = 0, lp_time = 0, lp_queues = \<lambda>q. \<lparr>q_next = q, q_prev = q\<rparr>,
      lp_handles = \<lambda>a. \<lparr>h_type = UV_TIMER, h_flags = 0, h_close_cb = None, h_next_closing = None\<rparr>,
      lp_timers = \<lambda>a. \<lparr>timer_cb = None, timeout = 0, repeat = 0, start_id = 0\<rparr>, lp_watcher_cb = \<lambda>a. None\<rparr>"

definition sample_loop :: uv_loop where
  "sample_loop = snd (uv_timer_init (loop_init_fields 9000000 raw_loop) 7)"

lemma sample_loop_ok: "timers_ok sample_loop {7}" "h_type (lp_handles sample_loop 7) = UV_TIMER" "\<not> uv__is_closing sample_loop 7" "lp_time sample_loop = 9"
proof -
  have "uv_timer_init (loop_init_fields 9000000 raw_loop) 7 = (0, sample_loop)" by (simp add: sample_loop_def uv_timer_init_def Let_def)
  from uv_timer_init_spec(2,4-6) [OF loop_init_timers _ _ this]
  show "timers_ok sample_loop {7}" "h_type (lp_handles sample_loop 7) = UV_TIMER" "\<not> uv__is_closing sample_loop 7" "lp_time sample_loop = 9" by simp_all
qed

text \<open>A timer started on the sample loop with a timeout of 0: it is due at once.\<close>

lemma sample_started:
  obtains l where "uv_timer_start sample_loop 7 (Some 1) 0 5 = Some (0, l)" "timers_ok l {7}" "lp_time l = 9" "due_timers l {7} = {7}" "active_timers l {7} = {7}"
proof -
  obtain l where l: "uv_timer_start sample_loop 7 (Some 1) 0 5 = Some (0, l)" "timers_ok l {7}" "active_timers l {7} = insert 7 (active_timers sample_loop {7})" "timer_frame sample_loop l"
      "lp_timers l = (lp_timers sample_loop)(7 := \<lparr>timer_cb = Some 1, timeout = clamped_timeout (lp_time sample_loop) 0, repeat = 5, start_id = lp_timer_counter sample_loop\<rparr>)"
    by (rule uv_timer_start_spec [OF sample_loop_ok(1) _ sample_loop_ok(2,3)]) auto
  have act: "active_timers l {7} = {7}" using l(3) by (auto simp: active_timers_def)
  have t: "lp_time l = 9" using l(4) sample_loop_ok(4) by (simp add: timer_frame_def)
  have "timeout (lp_timers l 7) \<le> lp_time l" using t sample_loop_ok(4) by (simp add: l(5) clamped_timeout_def)
  then have "due_timers l {7} = {7}" using act by (auto simp: due_timers_def)
  then show ?thesis using that l(1,2) t act by blast
qed


theorem run_timers_end_witness:
  "\<exists>l w' l'. uv_timer_start sample_loop 7 (Some 1) 0 5 = Some (0, l) \<and> due_timers l {7} = {7} \<and> uv__run_timers (\<lambda>cb a w l. (w + 1, l)) (0 :: nat) l = Some (w', l') \<and> due_timers l' {7} = {}"
proof -
  obtain l where l: "uv_timer_start sample_loop 7 (Some 1) 0 5 = Some (0, l)" "timers_ok l {7}" "lp_time l = 9" "due_timers l {7} = {7}"
    by (rule sample_started)
  have "timely (\<lambda>cb a w l. (w + 1 :: nat, l)) {7}" by (simp add: timely_def)
  then show ?thesis using run_timers_end [of "\<lambda>cb a w l. (w + 1 :: nat, l)" "{7}" l 0] l by auto
qed

theorem next_timeout_exact_witness:
  "\<exists>l. uv_timer_start sample_loop 7 (Some 1) 0 5 = Some (0, l) \<and> uv__next_timeout sample_loop = - 1 \<and> uv__next_timeout l = 0"
proof -
  obtain l where l: "uv_timer_start sample_loop 7 (Some 1) 0 5 = Some (0, l)" "timers_ok l {7}" "lp_time l = 9" "due_timers l {7} = {7}" "active_timers l {7} = {7}"
    by (rule sample_started)
  have "active_timers sample_loop {7} = {}"
    by (auto simp: active_timers_def sample_loop_def uv_timer_init_def Let_def uv__is_active_def set_timer_def uv__handle_init_def set_flags_def flag_defs)
  then have "uv__next_timeout sample_loop = - 1" using next_timeout_exact [OF sample_loop_ok(1)] by simp
  moreover have "timeout (lp_timers l 7) \<le> lp_time l" using l(4) by (auto simp: due_timers_def)
  then have "uv__next_timeout l = 0" using next_timeout_exact [OF l(2)] l(5) by (simp add: word_le_def)
  ultimately show ?thesis using l(1) by blast
qed

theorem timer_operations_witness:
  "\<exists>l. uv_timer_start sample_loop 7 (Some 1) (- 1) 0 = Some (0, l) \<and> unat (timeout (lp_timers l 7)) = 2 ^ 64 - 1 \<and> uv_timer_start sample_loop 7 None 5 0 = Some (UV_EINVAL, sample_loop)"
proof -
  have m: "unat (- 1 :: uint64) = 2 ^ 64 - 1" by (simp add: unsigned_minus_1_eq_mask mask_eq_exp_minus_1)
  have "uv_timer_start sample_loop 7 None 5 0 = Some (UV_EINVAL, sample_loop)"
    using timer_operations [OF sample_loop_ok(1) _ sample_loop_ok(2), of None 5 0] by simp
  moreover obtain l where "uv_timer_start sample_loop 7 (Some 1) (- 1) 0 = Some (0, l)" "unat (timeout (lp_timers l 7)) = min (unat (lp_time sample_loop) + unat (- 1 :: uint64)) (2 ^ 64 - 1)"
    using timer_operations [OF sample_loop_ok(1) _ sample_loop_ok(2), of "Some 1" "- 1" 0] sample_loop_ok(3) by auto
  ultimately show ?thesis unfolding m by auto
qed

end
