(* ===== verification/Uv_Watcher.thy ===== *)
theory Uv_Watcher
  imports Uv_Loop "HOL-Library.Sublist"
begin

text \<open>
  \<open>src/unix/loop-watcher.c\<close> of libuv: the idle, prepare and check watchers. One macro defines the operations of all three kinds;
  here the kind is an argument. Running the watchers of a kind moves their list to the stack and puts each watcher back before its
  callback is called, so that callbacks may start and stop watchers.
\<close>

definition uv_watcher_init :: "uv_handle_type \<Rightarrow> uv_loop \<Rightarrow> addr \<Rightarrow> int \<times> uv_loop" where
  "uv_watcher_init k l a =
     (let l1 = uv__handle_init l a k in (0, l1\<lparr>lp_watcher_cb := (lp_watcher_cb l1)(a := None)\<rparr>))"

definition uv_watcher_start :: "uv_handle_type \<Rightarrow> uv_loop \<Rightarrow> addr \<Rightarrow> uv_cb option \<Rightarrow> int \<times> uv_loop" where
  "uv_watcher_start k l a cb =
     (if uv__is_active l a then (0, l)
      else if cb = None then (UV_EINVAL, l)
      else let l1 = l\<lparr>lp_queues := QUEUE_INSERT_HEAD (Loop_watchers k) (Watcher_link a) (lp_queues l)\<rparr>;
               l2 = l1\<lparr>lp_watcher_cb := (lp_watcher_cb l1)(a := cb)\<rparr>
           in (0, uv__handle_start l2 a))"

definition uv_watcher_stop :: "uv_loop \<Rightarrow> addr \<Rightarrow> int \<times> uv_loop" where
  "uv_watcher_stop l a =
     (if \<not> uv__is_active l a then (0, l)
      else (0, uv__handle_stop (l\<lparr>lp_queues := QUEUE_REMOVE (Watcher_link a) (lp_queues l)\<rparr>) a))"

text \<open>The loop over the list on the stack; \<open>QUEUE_DATA\<close> gives the handle a link is in.\<close>

partial_function (option) run_local_watchers ::
  "uv_handle_type \<Rightarrow> (uv_cb \<Rightarrow> addr \<Rightarrow> 'w \<Rightarrow> uv_loop \<Rightarrow> 'w \<times> uv_loop) \<Rightarrow> 'w \<Rightarrow> uv_loop \<Rightarrow> ('w \<times> uv_loop) option" where
  "run_local_watchers k call w l =
     (if QUEUE_EMPTY (lp_queues l) Local_queue then Some (w, l)
      else case QUEUE_HEAD (lp_queues l) Local_queue of
             Watcher_link a \<Rightarrow>
               (let l1 = l\<lparr>lp_queues := QUEUE_REMOVE (Watcher_link a) (lp_queues l)\<rparr>;
                    l2 = l1\<lparr>lp_queues := QUEUE_INSERT_TAIL (Loop_watchers k) (Watcher_link a) (lp_queues l1)\<rparr>
                in case lp_watcher_cb l2 a of
                     None \<Rightarrow> None
                   | Some cb \<Rightarrow> (case call cb a w l2 of (w', l3) \<Rightarrow> run_local_watchers k call w' l3))
           | _ \<Rightarrow> None)"

definition uv__run_watchers ::
  "uv_handle_type \<Rightarrow> (uv_cb \<Rightarrow> addr \<Rightarrow> 'w \<Rightarrow> uv_loop \<Rightarrow> 'w \<times> uv_loop) \<Rightarrow> 'w \<Rightarrow> uv_loop \<Rightarrow> ('w \<times> uv_loop) option" where
  "uv__run_watchers k call w l = run_local_watchers k call w (l\<lparr>lp_queues := QUEUE_MOVE (Loop_watchers k) Local_queue (lp_queues l)\<rparr>)"

definition uv__watcher_close :: "uv_loop \<Rightarrow> addr \<Rightarrow> uv_loop" where
  "uv__watcher_close l a = snd (uv_watcher_stop l a)"

section \<open>The lists of watchers\<close>

text \<open>
  \<open>F\<close> gives the lists of the loop. The list of each kind, and the list on the stack while watchers of kind \<open>k\<close> are run, hold the
  active watchers of the kind.
\<close>

definition node_ok :: "uv_loop \<Rightarrow> addr set \<Rightarrow> uv_handle_type \<Rightarrow> qaddr \<Rightarrow> qaddr \<Rightarrow> bool" where
  "node_ok l H k0 h x =
     (case h of
        Loop_handles \<Rightarrow> (case x of Handle_link a \<Rightarrow> a \<in> H | _ \<Rightarrow> False)
      | Loop_watchers k \<Rightarrow> (case x of Watcher_link a \<Rightarrow> a \<in> H \<and> h_type (lp_handles l a) = k \<and> uv__is_active l a | _ \<Rightarrow> False)
      | Local_queue \<Rightarrow> (case x of Watcher_link a \<Rightarrow> a \<in> H \<and> h_type (lp_handles l a) = k0 \<and> uv__is_active l a | _ \<Rightarrow> False)
      | Loop_pending \<Rightarrow> (case x of Pending_link a \<Rightarrow> True | _ \<Rightarrow> False)
      | Local_pending \<Rightarrow> (case x of Pending_link a \<Rightarrow> True | _ \<Rightarrow> False)
      | _ \<Rightarrow> False)"

definition watchers_ok :: "uv_loop \<Rightarrow> addr set \<Rightarrow> uv_handle_type \<Rightarrow> (qaddr \<Rightarrow> qaddr list option) \<Rightarrow> bool" where
  "watchers_ok l H k0 F \<longleftrightarrow> count_ok l H \<and> rings (lp_queues l) F \<and>
     (\<forall>k. k \<noteq> UV_TIMER \<longrightarrow> F (Loop_watchers k) \<noteq> None) \<and> (\<forall>a. F (Handle_link a) = None \<and> F (Watcher_link a) = None \<and> F (Pending_link a) = None) \<and>
     (\<forall>h xs x. F h = Some xs \<longrightarrow> x \<in> set xs \<longrightarrow> node_ok l H k0 h x) \<and>
     (\<forall>a \<in> H. h_type (lp_handles l a) \<noteq> UV_TIMER \<longrightarrow> uv__is_active l a \<longrightarrow> Watcher_link a \<in> ring_nodes F \<and> lp_watcher_cb l a \<noteq> None)"

lemma watchers_okD:
  assumes "watchers_ok l H k0 F"
  shows "count_ok l H" and "rings (lp_queues l) F" and "k \<noteq> UV_TIMER \<Longrightarrow> \<exists>xs. F (Loop_watchers k) = Some xs" and "F (Watcher_link a) = None" and "F (Handle_link a) = None" and "F (Pending_link a) = None"
    and "F h = Some xs \<Longrightarrow> x \<in> set xs \<Longrightarrow> node_ok l H k0 h x"
    and "a \<in> H \<Longrightarrow> h_type (lp_handles l a) \<noteq> UV_TIMER \<Longrightarrow> uv__is_active l a \<Longrightarrow> Watcher_link a \<in> ring_nodes F"
    and "a \<in> H \<Longrightarrow> h_type (lp_handles l a) \<noteq> UV_TIMER \<Longrightarrow> uv__is_active l a \<Longrightarrow> lp_watcher_cb l a \<noteq> None"
  using assms unfolding watchers_ok_def by blast+

text \<open>A link of a watcher is in a list only while the watcher is active.\<close>

lemma watcher_in_list:
  assumes ok: "watchers_ok l H k0 F" and a: "Watcher_link a \<in> ring_nodes F"
  obtains h as bs where "F h = Some (as @ Watcher_link a # bs)" "h = Local_queue \<and> h_type (lp_handles l a) = k0 \<or> h = Loop_watchers (h_type (lp_handles l a))" "a \<in> H" "uv__is_active l a"
proof -
  obtain h xs where h: "F h = Some xs" "Watcher_link a \<in> set (h # xs)" using a unfolding ring_nodes_def by blast
  have "h \<noteq> Watcher_link a" using watchers_okD(4) [OF ok] h(1) by fastforce
  then have x: "Watcher_link a \<in> set xs" using h(2) by simp
  note n = watchers_okD(7) [OF ok h(1) x]
  obtain as bs where "xs = as @ Watcher_link a # bs" using split_list [OF x] by blast
  then show ?thesis using that h(1) n by (auto simp: node_ok_def split: qaddr.splits)
qed

lemma inactive_not_listed: "watchers_ok l H k0 F \<Longrightarrow> \<not> uv__is_active l a \<Longrightarrow> Watcher_link a \<notin> ring_nodes F"
  by (metis watcher_in_list)

section \<open>Starting and stopping\<close>

text \<open>A change of one list, and of the state of one handle.\<close>

lemma watchers_okI:
  assumes ok: "watchers_ok l H k0 F" and count: "count_ok l' H" and r: "rings (lp_queues l') (F(h := Some ys))" and h: "F h = Some xs"
    and type: "\<And>x. h_type (lp_handles l' x) = h_type (lp_handles l x)" and other: "\<And>x. x \<noteq> a \<Longrightarrow> uv__is_active l' x = uv__is_active l x \<and> lp_watcher_cb l' x = lp_watcher_cb l x"
    and ys: "\<And>x. x \<in> set ys \<Longrightarrow> node_ok l' H k0 h x"
    and drop: "\<And>x. x \<in> set xs \<Longrightarrow> x \<noteq> Watcher_link a \<Longrightarrow> x \<in> set ys"
    and gone: "\<And>g zs. F g = Some zs \<Longrightarrow> g \<noteq> h \<Longrightarrow> Watcher_link a \<notin> set zs"
    and here: "uv__is_active l' a \<Longrightarrow> Watcher_link a \<in> set ys \<and> lp_watcher_cb l' a \<noteq> None"
  shows "watchers_ok l' H k0 (F(h := Some ys))"
proof -
  have hn: "h \<noteq> Watcher_link x" "h \<noteq> Handle_link x" "h \<noteq> Pending_link x" for x using h watchers_okD(4-6) [OF ok] by auto
  have "node_ok l' H k0 g x" if g: "F g = Some zs" "g \<noteq> h" "x \<in> set zs" for g zs x
  proof -
    have "x \<noteq> Watcher_link a" using gone [OF g(1,2)] g(3) by blast
    then show ?thesis using watchers_okD(7) [OF ok g(1,3)] other type by (auto simp: node_ok_def split: qaddr.splits)
  qed
  moreover have "Watcher_link x \<in> ring_nodes (F(h := Some ys)) \<and> lp_watcher_cb l' x \<noteq> None"
    if x: "x \<in> H" "h_type (lp_handles l' x) \<noteq> UV_TIMER" "uv__is_active l' x" for x
  proof (cases "x = a")
    case True
    then have "Watcher_link x \<in> set ys" "lp_watcher_cb l' x \<noteq> None" using here x(3) by blast+
    then show ?thesis by (simp add: uv_queue.nodes_upd [OF h watchers_okD(2) [OF ok]])
  next
    case False
    have "h_type (lp_handles l x) \<noteq> UV_TIMER" "uv__is_active l x" using x type other [OF False] by simp_all
    then have "Watcher_link x \<in> ring_nodes F" "lp_watcher_cb l x \<noteq> None" using watchers_okD(8,9) [OF ok x(1)] by blast+
    then show ?thesis using drop [of "Watcher_link x"] False other [OF False] by (auto simp: uv_queue.nodes_upd [OF h watchers_okD(2) [OF ok]])
  qed
  moreover have "(F(h := Some ys)) (Handle_link x) = None \<and> (F(h := Some ys)) (Watcher_link x) = None \<and> (F(h := Some ys)) (Pending_link x) = None" for x
    by (simp add: hn [THEN not_sym] watchers_okD(4-6) [OF ok])
  moreover have "(F(h := Some ys)) (Loop_watchers k) \<noteq> None" if "k \<noteq> UV_TIMER" for k using watchers_okD(3) [OF ok that] by auto
  moreover have "node_ok l' H k0 g x" if "(F(h := Some ys)) g = Some zs" "x \<in> set zs" for g zs x
    using that calculation(1) [of g zs x] ys by (auto split: if_splits)
  ultimately show ?thesis using count r unfolding watchers_ok_def by blast
qed

lemma watcher_start_ok:
  assumes ok: "watchers_ok l H k0 F" and a: "a \<in> H" "h_type (lp_handles l a) = k" "k \<noteq> UV_TIMER" and nc: "\<not> uv__is_closing l a" and na: "\<not> uv__is_active l a"
    and xs: "F (Loop_watchers k) = Some xs" and l': "uv_watcher_start k l a (Some cb) = (c, l')"
  shows "c = 0" and "watchers_ok l' H k0 (F(Loop_watchers k := Some (Watcher_link a # xs)))" and "uv__is_active l' a" and "lp_watcher_cb l' a = Some cb"
proof -
  define l1 where "l1 = l\<lparr>lp_queues := QUEUE_INSERT_HEAD (Loop_watchers k) (Watcher_link a) (lp_queues l), lp_watcher_cb := (lp_watcher_cb l)(a := Some cb)\<rparr>"
  have c: "c = 0" and e: "l' = uv__handle_start l1 a" using l' na by (simp_all add: uv_watcher_start_def Let_def l1_def)
  have h1: "uv__is_active l1 x = uv__is_active l x" "uv__is_closing l1 x = uv__is_closing l x" "count_ok l1 H = count_ok l H" for x
    by (simp_all add: l1_def uv__is_active_def uv__is_closing_def uv__has_ref_def count_ok_def live_handles_def)
  have new: "Watcher_link a \<notin> ring_nodes F" by (rule inactive_not_listed [OF ok na])
  show "watchers_ok l' H k0 (F(Loop_watchers k := Some (Watcher_link a # xs)))"
  proof (rule watchers_okI [OF ok _ _ xs, where a = a])
    show "count_ok l' H" unfolding e using handle_start_count [of l1 H a] h1 nc a(1) watchers_okD(1) [OF ok] by simp
    show "rings (lp_queues l') (F(Loop_watchers k := Some (Watcher_link a # xs)))"
      using uv_queue.put_head_lists [OF watchers_okD(2) [OF ok] xs new] by (simp add: e l1_def)
    show "node_ok l' H k0 (Loop_watchers k) x" if "x \<in> set (Watcher_link a # xs)" for x
      using that watchers_okD(7) [OF ok xs, of x] a(1,2) h1(1) by (auto simp: node_ok_def e split: qaddr.splits) (simp_all add: l1_def)
    show "Watcher_link a \<notin> set zs" if "F g = Some zs" for g zs using ring_nodes_other [OF new that] by blast
  qed (use h1(1) in \<open>(auto simp: e; simp add: l1_def)\<close>)+
  show "c = 0" by (rule c)
  show "uv__is_active l' a" "lp_watcher_cb l' a = Some cb" by (simp_all add: e l1_def)
qed

lemma watcher_stop_ok:
  assumes ok: "watchers_ok l H k0 F" and a: "a \<in> H" "h_type (lp_handles l a) \<noteq> UV_TIMER" and act: "uv__is_active l a" and l': "uv_watcher_stop l a = (c, l')"
  obtains h as bs where "c = 0" "F h = Some (as @ Watcher_link a # bs)" "h = Local_queue \<and> h_type (lp_handles l a) = k0 \<or> h = Loop_watchers (h_type (lp_handles l a))"
    "watchers_ok l' H k0 (F(h := Some (as @ bs)))" "\<not> uv__is_active l' a"
proof -
  obtain h as bs where h: "F h = Some (as @ Watcher_link a # bs)" "h = Local_queue \<and> h_type (lp_handles l a) = k0 \<or> h = Loop_watchers (h_type (lp_handles l a))"
    by (rule watcher_in_list [OF ok watchers_okD(8) [OF ok a act]]) blast
  define l1 where "l1 = l\<lparr>lp_queues := QUEUE_REMOVE (Watcher_link a) (lp_queues l)\<rparr>"
  have c: "c = 0" and e: "l' = uv__handle_stop l1 a" using l' act by (simp_all add: uv_watcher_stop_def l1_def)
  have h1: "uv__is_active l1 x = uv__is_active l x" "count_ok l1 H = count_ok l H" for x
    by (simp_all add: l1_def uv__is_active_def uv__is_closing_def uv__has_ref_def count_ok_def live_handles_def)
  have d: "Watcher_link a \<notin> set (as @ bs)" using uv_queue.lists_distinct [OF watchers_okD(2) [OF ok] h(1)] by simp
  have "watchers_ok l' H k0 (F(h := Some (as @ bs)))"
  proof (rule watchers_okI [OF ok _ _ h(1), where a = a])
    show "count_ok l' H" unfolding e using handle_stop_count [of l1 H a] h1 a(1) watchers_okD(1) [OF ok] by simp
    show "rings (lp_queues l') (F(h := Some (as @ bs)))"
      using uv_queue.take_lists [OF watchers_okD(2) [OF ok] h(1)] by (simp add: e l1_def)
    show "node_ok l' H k0 h x" if x: "x \<in> set (as @ bs)" for x
    proof -
      have "x \<noteq> Watcher_link a" using d x by blast
      then show ?thesis using x watchers_okD(7) [OF ok h(1), of x] h1(1) by (auto simp: node_ok_def e split: qaddr.splits) (simp_all add: l1_def)
    qed
    show "Watcher_link a \<notin> set zs" if "F g = Some zs" "g \<noteq> h" for g zs using uv_queue.lists_apart [OF watchers_okD(2) [OF ok] that(1) h(1) that(2)] by auto
  qed (use h1(1) d in \<open>(auto simp: e; simp add: l1_def)\<close>)+
  moreover have "\<not> uv__is_active l' a" by (simp add: e)
  ultimately show ?thesis using that c h by blast
qed

section \<open>Running the watchers\<close>

text \<open>Callbacks that start and stop watchers: a callback is a list of actions, and the handles called are recorded.\<close>

datatype watcher_action = Start_watcher addr uv_cb | Stop_watcher addr

definition exec_action :: "uv_loop \<Rightarrow> watcher_action \<Rightarrow> uv_loop" where
  "exec_action l act =
     (case act of
        Start_watcher a cb \<Rightarrow> snd (uv_watcher_start (h_type (lp_handles l a)) l a (Some cb))
      | Stop_watcher a \<Rightarrow> snd (uv_watcher_stop l a))"

definition action_handle :: "watcher_action \<Rightarrow> addr" where
  "action_handle act = (case act of Start_watcher a _ \<Rightarrow> a | Stop_watcher a \<Rightarrow> a)"

definition prog_call :: "(uv_cb \<Rightarrow> addr \<Rightarrow> watcher_action list) \<Rightarrow> uv_cb \<Rightarrow> addr \<Rightarrow> addr list \<Rightarrow> uv_loop \<Rightarrow> addr list \<times> uv_loop" where
  "prog_call prog cb a w l = (w @ [a], foldl exec_action l (prog cb a))"

text \<open>The handles a callback may use: watchers of the loop that are not being closed.\<close>

definition open_watchers :: "uv_loop \<Rightarrow> addr set \<Rightarrow> addr set" where
  "open_watchers l H = {a \<in> H. h_type (lp_handles l a) \<noteq> UV_TIMER \<and> \<not> uv__is_closing l a}"

lemma start_state:
  "h_type (lp_handles (snd (uv_watcher_start k l a cb)) x) = h_type (lp_handles l x)" "uv__is_closing (snd (uv_watcher_start k l a cb)) x = uv__is_closing l x"
  by (auto simp: uv_watcher_start_def Let_def) (simp_all add: uv__is_closing_def)

lemma stop_state:
  "h_type (lp_handles (snd (uv_watcher_stop l a)) x) = h_type (lp_handles l x)" "uv__is_closing (snd (uv_watcher_stop l a)) x = uv__is_closing l x"
  by (auto simp: uv_watcher_stop_def) (simp_all add: uv__is_closing_def)

lemma exec_open: "open_watchers (exec_action l act) H = open_watchers l H"
  by (auto simp: open_watchers_def exec_action_def start_state stop_state split: watcher_action.splits)

lemma subseq_map_remove: "map Watcher_link ls = as @ Watcher_link a # bs \<Longrightarrow> \<exists>ls'. as @ bs = map Watcher_link ls' \<and> subseq ls' ls"
proof -
  assume "map Watcher_link ls = as @ Watcher_link a # bs"
  then obtain us vs where "ls = us @ a # vs" "as = map Watcher_link us" "bs = map Watcher_link vs"
    by (auto simp: map_eq_append_conv map_eq_Cons_conv)
  moreover have "subseq (us @ vs) (us @ a # vs)" by (rule list_emb_append_mono) (auto intro: list_emb_Cons)
  ultimately show ?thesis by (intro exI [of _ "us @ vs"]) simp
qed

text \<open>An action takes watchers off the list on the stack, and adds none to it.\<close>

lemma exec_action_ok:
  assumes ok: "watchers_ok l H k F" and loc: "F Local_queue = Some (map Watcher_link ls)" and act: "action_handle act \<in> open_watchers l H"
  shows "\<exists>F' ls'. watchers_ok (exec_action l act) H k F' \<and> F' Local_queue = Some (map Watcher_link ls') \<and> subseq ls' ls \<and> ((\<exists>a cb. act = Start_watcher a cb) \<longrightarrow> ls' = ls)"
proof (cases act)
  case (Start_watcher a cb)
  have a: "a \<in> H" "h_type (lp_handles l a) \<noteq> UV_TIMER" "\<not> uv__is_closing l a" using act by (simp_all add: Start_watcher action_handle_def open_watchers_def)
  show ?thesis
  proof (cases "uv__is_active l a")
    case True
    then have "exec_action l act = l" by (simp add: exec_action_def Start_watcher uv_watcher_start_def)
    then show ?thesis using ok loc by auto
  next
    case False
    obtain xs where xs: "F (Loop_watchers (h_type (lp_handles l a))) = Some xs" using watchers_okD(3) [OF ok a(2)] by blast
    obtain c l' where l': "uv_watcher_start (h_type (lp_handles l a)) l a (Some cb) = (c, l')" by fastforce
    have "exec_action l act = l'" by (simp add: exec_action_def Start_watcher l')
    then show ?thesis using watcher_start_ok(2) [OF ok a(1) refl a(2,3) False xs l'] loc
      by (intro exI [of _ "F(Loop_watchers (h_type (lp_handles l a)) := Some (Watcher_link a # xs))"] exI [of _ ls]) simp
  qed
next
  case (Stop_watcher a)
  have a: "a \<in> H" "h_type (lp_handles l a) \<noteq> UV_TIMER" using act by (simp_all add: Stop_watcher action_handle_def open_watchers_def)
  show ?thesis
  proof (cases "uv__is_active l a")
    case False
    then have "exec_action l act = l" by (simp add: exec_action_def Stop_watcher uv_watcher_stop_def)
    then show ?thesis using ok loc by auto
  next
    case True
    obtain c l' where l': "uv_watcher_stop l a = (c, l')" by fastforce
    have e: "exec_action l act = l'" by (simp add: exec_action_def Stop_watcher l')
    obtain h as bs where h: "F h = Some (as @ Watcher_link a # bs)" "watchers_ok l' H k (F(h := Some (as @ bs)))"
      by (rule watcher_stop_ok [OF ok a True l']) blast
    show ?thesis
    proof (cases "h = Local_queue")
      case True
      then obtain ls' where "as @ bs = map Watcher_link ls'" "subseq ls' ls" using subseq_map_remove [of ls as a bs] h(1) loc by auto
      then show ?thesis using h(2) True e by (intro exI [of _ "F(h := Some (as @ bs))"] exI [of _ ls']) (simp add: Stop_watcher)
    next
      case False
      then show ?thesis using h(2) e loc by (intro exI [of _ "F(h := Some (as @ bs))"] exI [of _ ls]) simp
    qed
  qed
qed

lemma exec_actions_ok:
  assumes "watchers_ok l H k F" and "F Local_queue = Some (map Watcher_link ls)" and "\<And>act. act \<in> set acts \<Longrightarrow> action_handle act \<in> open_watchers l H"
  shows "\<exists>F' ls'. watchers_ok (foldl exec_action l acts) H k F' \<and> F' Local_queue = Some (map Watcher_link ls') \<and> subseq ls' ls \<and>
           ((\<forall>act \<in> set acts. \<exists>a cb. act = Start_watcher a cb) \<longrightarrow> ls' = ls) \<and> open_watchers (foldl exec_action l acts) H = open_watchers l H"
  using assms
proof (induction acts arbitrary: l F ls)
  case (Cons act acts)
  obtain F1 ls1 where 1: "watchers_ok (exec_action l act) H k F1" "F1 Local_queue = Some (map Watcher_link ls1)" "subseq ls1 ls" "(\<exists>a cb. act = Start_watcher a cb) \<longrightarrow> ls1 = ls"
    using exec_action_ok [OF Cons.prems(1,2)] Cons.prems(3) by (metis list.set_intros(1))
  obtain F2 ls2 where 2: "watchers_ok (foldl exec_action (exec_action l act) acts) H k F2" "F2 Local_queue = Some (map Watcher_link ls2)" "subseq ls2 ls1"
      "(\<forall>act \<in> set acts. \<exists>a cb. act = Start_watcher a cb) \<longrightarrow> ls2 = ls1" "open_watchers (foldl exec_action (exec_action l act) acts) H = open_watchers (exec_action l act) H"
    using Cons.IH [OF 1(1,2)] Cons.prems(3) exec_open by (metis list.set_intros(2))
  have "subseq ls2 ls" using 2(3) 1(3) by (rule subseq_order.trans)
  then show ?case using 1(4) 2 exec_open [of l act H] by (intro exI [of _ F2] exI [of _ ls2]) simp
qed auto

text \<open>The first watcher on the stack goes back to the list of its kind.\<close>

lemma local_step_ok:
  assumes ok: "watchers_ok l H k F" and loc: "F Local_queue = Some (Watcher_link a # bs)" and xs: "F (Loop_watchers k) = Some xs"
    and l2: "l2 = l\<lparr>lp_queues := QUEUE_INSERT_TAIL (Loop_watchers k) (Watcher_link a) (QUEUE_REMOVE (Watcher_link a) (lp_queues l))\<rparr>"
  shows "watchers_ok l2 H k (F(Local_queue := Some bs, Loop_watchers k := Some (xs @ [Watcher_link a])))"
proof -
  let ?F = "F(Local_queue := Some bs, Loop_watchers k := Some (xs @ [Watcher_link a]))"
  have hl: "lp_handles l2 = lp_handles l" "lp_watcher_cb l2 = lp_watcher_cb l" by (simp_all add: l2)
  have act: "uv__is_active l2 b = uv__is_active l b" "count_ok l2 H = count_ok l H" for b
    by (simp_all add: l2 uv__is_active_def uv__is_closing_def uv__has_ref_def count_ok_def live_handles_def)
  have same: "node_ok l2 H k h x = node_ok l H k h x" for h x unfolding node_ok_def hl act ..
  have r2: "rings (lp_queues l2) ?F" using uv_queue.first_to_tail [OF watchers_okD(2) [OF ok] loc xs] by (simp add: l2)
  have nodes: "x \<in> ring_nodes ?F" if "x \<in> ring_nodes F" for x
  proof -
    obtain h zs where h: "F h = Some zs" "x \<in> set (h # zs)" using \<open>x \<in> ring_nodes F\<close> unfolding ring_nodes_def by blast
    have "\<exists>g ys. ?F g = Some ys \<and> x \<in> set (g # ys)"
    proof (cases "x \<in> set (Loop_watchers k # xs @ [Watcher_link a])")
      case True
      moreover have "?F (Loop_watchers k) = Some (xs @ [Watcher_link a])" by simp
      ultimately show ?thesis by blast
    next
      case False
      then have "h \<noteq> Loop_watchers k" using h xs by auto
      then have "?F h = Some (if h = Local_queue then bs else zs)" "x \<in> set (h # (if h = Local_queue then bs else zs))" using h loc False by auto
      then show ?thesis by blast
    qed
    then show ?thesis unfolding ring_nodes_def by blast
  qed
  have head: "node_ok l H k Local_queue (Watcher_link a)" using watchers_okD(7) [OF ok loc] by simp
  have "node_ok l2 H k h x" if h: "?F h = Some zs" and x: "x \<in> set zs" for h zs x
  proof -
    consider "h = Loop_watchers k" | "h = Local_queue" | "h \<noteq> Loop_watchers k" "h \<noteq> Local_queue" by blast
    then show ?thesis
    proof cases
      case 1
      then have "x \<in> set xs \<or> x = Watcher_link a" using h x by auto
      then show ?thesis using watchers_okD(7) [OF ok xs] head unfolding same 1 by (auto simp: node_ok_def)
    next
      case 2
      then show ?thesis using watchers_okD(7) [OF ok loc] h x unfolding same 2 by simp
    next
      case 3
      then show ?thesis using watchers_okD(7) [OF ok, of h zs x] h x unfolding same by simp
    qed
  qed
  moreover have "?F (Loop_watchers j) \<noteq> None" if "j \<noteq> UV_TIMER" for j using watchers_okD(3) [OF ok that] by auto
  moreover have "?F (Handle_link b) = None \<and> ?F (Watcher_link b) = None \<and> ?F (Pending_link b) = None" for b using watchers_okD(4-6) [OF ok] by simp
  ultimately show ?thesis using r2 nodes watchers_okD(1,8,9) [OF ok] unfolding watchers_ok_def hl act by blast
qed

lemma local_watchers_run:
  assumes "watchers_ok l H k F" and "F Local_queue = Some (map Watcher_link ls)" and "k \<noteq> UV_TIMER"
    and "\<And>cb a act. act \<in> set (prog cb a) \<Longrightarrow> action_handle act \<in> open_watchers l H"
  shows "\<exists>ran l' F'. run_local_watchers k (prog_call prog) w l = Some (w @ ran, l') \<and> watchers_ok l' H k F' \<and> F' Local_queue = Some [] \<and> subseq ran ls \<and>
           ((\<forall>cb a act. act \<in> set (prog cb a) \<longrightarrow> (\<exists>b c. act = Start_watcher b c)) \<longrightarrow> ran = ls) \<and> open_watchers l' H = open_watchers l H"
  using assms
proof (induction "length ls" arbitrary: l F ls w rule: less_induct)
  case less
  note ok = less.prems(1) and loc = less.prems(2) and acts = less.prems(4)
  show ?case
  proof (cases ls)
    case Nil
    then have "QUEUE_EMPTY (lp_queues l) Local_queue" using uv_queue.empty_iff [OF watchers_okD(2) [OF ok] loc] by simp
    then show ?thesis using ok loc Nil by (intro exI [of _ "[]"] exI [of _ l] exI [of _ F]) (simp add: run_local_watchers.simps [of k "prog_call prog" w l])
  next
    case (Cons a bs)
    have loc': "F Local_queue = Some (Watcher_link a # map Watcher_link bs)" using loc Cons by simp
    obtain xs where xs: "F (Loop_watchers k) = Some xs" using watchers_okD(3) [OF ok less.prems(3)] by blast
    define l2 where "l2 = l\<lparr>lp_queues := QUEUE_INSERT_TAIL (Loop_watchers k) (Watcher_link a) (QUEUE_REMOVE (Watcher_link a) (lp_queues l))\<rparr>"
    note ok2 = local_step_ok [OF ok loc' xs l2_def]
    have n: "node_ok l H k Local_queue (Watcher_link a)" using watchers_okD(7) [OF ok loc'] by simp
    have open2: "open_watchers l2 H = open_watchers l H" by (simp add: l2_def open_watchers_def uv__is_closing_def)
    obtain cb where cb: "lp_watcher_cb l2 a = Some cb" using watchers_okD(9) [OF ok, of a] n less.prems(3) by (auto simp: node_ok_def l2_def)
    have loc2: "(F(Local_queue := Some (map Watcher_link bs), Loop_watchers k := Some (xs @ [Watcher_link a]))) Local_queue = Some (map Watcher_link bs)" by simp
    have acts2: "action_handle act \<in> open_watchers l2 H" if "act \<in> set (prog cb a)" for act using acts [OF that] open2 by simp
    obtain F3 ls3 where 3: "watchers_ok (foldl exec_action l2 (prog cb a)) H k F3" "F3 Local_queue = Some (map Watcher_link ls3)" "subseq ls3 bs"
        "(\<forall>act \<in> set (prog cb a). \<exists>a cb. act = Start_watcher a cb) \<longrightarrow> ls3 = bs" "open_watchers (foldl exec_action l2 (prog cb a)) H = open_watchers l H"
      unfolding open2 [symmetric] using exec_actions_ok [OF ok2 loc2 acts2] by blast
    have len: "length ls3 < length ls" using list_emb_length [OF 3(3)] Cons by simp
    obtain ran l' F' where IH: "run_local_watchers k (prog_call prog) (w @ [a]) (foldl exec_action l2 (prog cb a)) = Some ((w @ [a]) @ ran, l')" "watchers_ok l' H k F'" "F' Local_queue = Some []"
        "subseq ran ls3" "(\<forall>cb a act. act \<in> set (prog cb a) \<longrightarrow> (\<exists>b c. act = Start_watcher b c)) \<longrightarrow> ran = ls3" "open_watchers l' H = open_watchers l H"
      using less.hyps [OF len 3(1,2) less.prems(3), of "w @ [a]"] acts unfolding 3(5) by blast
    have q: "\<not> QUEUE_EMPTY (lp_queues l) Local_queue" "QUEUE_HEAD (lp_queues l) Local_queue = Watcher_link a"
      using uv_queue.empty_iff [OF watchers_okD(2) [OF ok] loc'] uv_queue.first_eq [OF watchers_okD(2) [OF ok] loc'] by simp_all
    have "run_local_watchers k (prog_call prog) w l = Some (w @ (a # ran), l')"
      using q cb IH(1) by (simp add: run_local_watchers.simps [of k "prog_call prog" w l] Let_def l2_def prog_call_def)
    moreover have "subseq (a # ran) ls" using subseq_order.trans [OF IH(4) 3(3)] Cons by simp
    ultimately show ?thesis using IH(2,3,5,6) 3(4) Cons by (intro exI [of _ "a # ran"] exI [of _ l'] exI [of _ F']) auto
  qed
qed

text \<open>The list on the stack, before and after a run.\<close>

lemma node_ok_kind: "h \<noteq> Local_queue \<Longrightarrow> node_ok l H k0 h x = node_ok l H k h x"
  by (cases h) (simp_all add: node_ok_def)

lemma node_ok_no_head: "\<not> node_ok l H k h Local_queue"
  by (cases h) (simp_all add: node_ok_def)

lemma watchers_kind:
  assumes loc: "F Local_queue = None" and ok: "watchers_ok l H k0 F"
  shows "watchers_ok l H k F"
proof -
  have "node_ok l H k h x" if "F h = Some xs" "x \<in> set xs" for h xs x
  proof -
    have "h \<noteq> Local_queue" using loc that(1) by auto
    then show ?thesis using watchers_okD(7) [OF ok that] node_ok_kind by blast
  qed
  then show ?thesis using ok unfolding watchers_ok_def by blast
qed

lemma watchers_forget:
  assumes ok: "watchers_ok l H k F" and loc: "F Local_queue = Some []"
  shows "watchers_ok l H k (F(Local_queue := None))"
proof -
  have "x \<in> ring_nodes (F(Local_queue := None))" if "x \<in> ring_nodes F" "x \<noteq> Local_queue" for x
  proof -
    obtain h zs where h: "F h = Some zs" "x \<in> set (h # zs)" using \<open>x \<in> ring_nodes F\<close> unfolding ring_nodes_def by blast
    then have "(F(Local_queue := None)) h = Some zs" using loc \<open>x \<noteq> Local_queue\<close> by (cases "h = Local_queue") auto
    then show ?thesis using h(2) unfolding ring_nodes_def by blast
  qed
  then show ?thesis using ok rings_forget [OF watchers_okD(2) [OF ok], of Local_queue] unfolding watchers_ok_def by (auto split: if_splits)
qed

lemma watchers_move:
  assumes ok: "watchers_ok l H k F" and loc: "F Local_queue = None" and xs: "F (Loop_watchers k) = Some xs"
    and l1: "l1 = l\<lparr>lp_queues := QUEUE_MOVE (Loop_watchers k) Local_queue (lp_queues l)\<rparr>"
  shows "watchers_ok l1 H k (F(Loop_watchers k := Some [], Local_queue := Some xs))"
proof -
  let ?F = "F(Loop_watchers k := Some [], Local_queue := Some xs)"
  have hl: "lp_handles l1 = lp_handles l" "lp_watcher_cb l1 = lp_watcher_cb l" by (simp_all add: l1)
  have act: "uv__is_active l1 b = uv__is_active l b" "count_ok l1 H = count_ok l H" for b
    by (simp_all add: l1 uv__is_active_def uv__is_closing_def uv__has_ref_def count_ok_def live_handles_def)
  have same: "node_ok l1 H k h x = node_ok l H k h x" for h x unfolding node_ok_def hl act ..
  have new: "Local_queue \<notin> ring_nodes F"
  proof
    assume "Local_queue \<in> ring_nodes F"
    then obtain h zs where h: "F h = Some zs" "Local_queue \<in> set (h # zs)" unfolding ring_nodes_def by blast
    then have "Local_queue \<in> set zs" using loc by auto
    then show False using watchers_okD(7) [OF ok h(1)] node_ok_no_head by blast
  qed
  have r: "rings (lp_queues l1) ?F" using uv_queue.move_lists [OF watchers_okD(2) [OF ok] xs new] by (simp add: l1)
  have nodes: "x \<in> ring_nodes ?F" if "x \<in> ring_nodes F" for x
  proof -
    obtain h zs where h: "F h = Some zs" "x \<in> set (h # zs)" using \<open>x \<in> ring_nodes F\<close> unfolding ring_nodes_def by blast
    have "?F h = Some zs \<or> h = Loop_watchers k" using h loc by auto
    moreover have "?F (Loop_watchers k) = Some []" "?F Local_queue = Some xs" by simp_all
    ultimately show ?thesis using h xs unfolding ring_nodes_def by fastforce
  qed
  have "node_ok l1 H k h x" if h: "?F h = Some zs" and x: "x \<in> set zs" for h zs x
  proof (cases "h = Local_queue")
    case True
    then have "node_ok l H k (Loop_watchers k) x" using watchers_okD(7) [OF ok xs] h x by simp
    then show ?thesis unfolding same True by (simp add: node_ok_def)
  next
    case False
    then have "F h = Some zs" using h x by (auto split: if_splits)
    then show ?thesis using watchers_okD(7) [OF ok] x unfolding same by blast
  qed
  moreover have "?F (Loop_watchers j) \<noteq> None" if "j \<noteq> UV_TIMER" for j using watchers_okD(3) [OF ok that] by auto
  moreover have "?F (Handle_link b) = None \<and> ?F (Watcher_link b) = None \<and> ?F (Pending_link b) = None" for b using watchers_okD(4-6) [OF ok] by simp
  ultimately show ?thesis using r nodes watchers_okD(1,8,9) [OF ok] unfolding watchers_ok_def hl act by blast
qed

lemma run_watchers_prog:
  assumes ok: "watchers_ok l H k F" and loc: "F Local_queue = None" and ws: "F (Loop_watchers k) = Some (map Watcher_link ws)" and k: "k \<noteq> UV_TIMER"
    and acts: "\<And>cb a act. act \<in> set (prog cb a) \<Longrightarrow> action_handle act \<in> open_watchers l H"
  shows "\<exists>ran l' F'. uv__run_watchers k (prog_call prog) w l = Some (w @ ran, l') \<and> watchers_ok l' H k F' \<and> F' Local_queue = None \<and> subseq ran ws \<and>
           ((\<forall>cb a act. act \<in> set (prog cb a) \<longrightarrow> (\<exists>b c. act = Start_watcher b c)) \<longrightarrow> ran = ws)"
proof -
  define l1 where "l1 = l\<lparr>lp_queues := QUEUE_MOVE (Loop_watchers k) Local_queue (lp_queues l)\<rparr>"
  note ok1 = watchers_move [OF ok loc ws l1_def]
  have acts1: "action_handle act \<in> open_watchers l1 H" if "act \<in> set (prog cb a)" for cb a act
    using acts [OF that] by (simp add: open_watchers_def l1_def uv__is_closing_def)
  have loc1: "(F(Loop_watchers k := Some [], Local_queue := Some (map Watcher_link ws))) Local_queue = Some (map Watcher_link ws)" by simp
  have "\<exists>ran l' F'. run_local_watchers k (prog_call prog) w l1 = Some (w @ ran, l') \<and> watchers_ok l' H k F' \<and> F' Local_queue = Some [] \<and> subseq ran ws \<and>
      ((\<forall>cb a act. act \<in> set (prog cb a) \<longrightarrow> (\<exists>b c. act = Start_watcher b c)) \<longrightarrow> ran = ws) \<and> open_watchers l' H = open_watchers l1 H"
    by (rule local_watchers_run [OF ok1 loc1 k]) (rule acts1)
  then obtain ran l' F' where r: "run_local_watchers k (prog_call prog) w l1 = Some (w @ ran, l')" "watchers_ok l' H k F'" "F' Local_queue = Some []" "subseq ran ws"
      "(\<forall>cb a act. act \<in> set (prog cb a) \<longrightarrow> (\<exists>b c. act = Start_watcher b c)) \<longrightarrow> ran = ws"
    by (elim exE conjE) rule
  show ?thesis unfolding uv__run_watchers_def l1_def [symmetric]
    by (intro exI [of _ ran] exI [of _ l'] exI [of _ "F'(Local_queue := None)"] conjI r watchers_forget) simp
qed

section \<open>New loops and new watchers\<close>

definition init_lists :: "qaddr \<Rightarrow> qaddr list option" where
  "init_lists = [Loop_watchers UV_IDLE \<mapsto> [], Loop_watchers UV_CHECK \<mapsto> [], Loop_watchers UV_PREPARE \<mapsto> [], Loop_handles \<mapsto> [], Loop_pending \<mapsto> []]"

lemma ring_nodes_heads: "(\<And>h xs. F h = Some xs \<Longrightarrow> xs = []) \<Longrightarrow> ring_nodes F = dom F"
  unfolding ring_nodes_def by (fastforce simp: dom_def)

lemma loop_init_lists: "rings (lp_queues (loop_init_fields t l)) init_lists"
proof -
  have heads: "rings (QUEUE_INIT h s) (F(h := Some []))" if "rings s F" "\<And>g ys. F g = Some ys \<Longrightarrow> ys = []" "F h = None" for h s F
    using rings_init [OF that(1), of h] ring_nodes_heads [OF that(2)] that(3) by (auto simp: dom_def)
  have 0: "rings s (\<lambda>_. None)" for s :: "qaddr qstore" by (simp add: rings_def)
  show ?thesis unfolding loop_init_fields_def uv__update_time_def init_lists_def Let_def
    by (simp, intro heads 0) (auto split: if_splits)
qed

lemma loop_init_watchers: "watchers_ok (loop_init_fields t l) {} k init_lists"
proof -
  have n: "init_lists h = Some xs \<Longrightarrow> xs = []" for h xs by (auto simp: init_lists_def split: if_splits)
  have "lp_active_handles (loop_init_fields t l) = 0" by (simp add: loop_init_fields_def uv__update_time_def Let_def)
  then have "count_ok (loop_init_fields t l) {}" by (simp add: count_ok_def live_handles_def)
  moreover have "init_lists (Loop_watchers j) \<noteq> None" if "j \<noteq> UV_TIMER" for j using that by (cases j) (simp_all add: init_lists_def)
  ultimately show ?thesis unfolding watchers_ok_def using loop_init_lists n by (auto simp: init_lists_def)
qed

lemma handle_init_watchers:
  assumes ok: "watchers_ok l H k0 F" and a: "a \<notin> H" and hs: "F Loop_handles = Some hs"
    and l': "lp_handles l' = lp_handles (uv__handle_init l a k)" "lp_queues l' = lp_queues (uv__handle_init l a k)" "lp_active_handles l' = lp_active_handles (uv__handle_init l a k)"
      "\<And>x. x \<noteq> a \<Longrightarrow> lp_watcher_cb l' x = lp_watcher_cb l x"
  shows "watchers_ok l' (insert a H) k0 (F(Loop_handles := Some (hs @ [Handle_link a])))" and "h_type (lp_handles l' a) = k"
    and "\<not> uv__is_closing l' a" and "\<not> uv__is_active l' a"
proof -
  let ?F = "F(Loop_handles := Some (hs @ [Handle_link a]))"
  let ?i = "uv__handle_init l a k"
  have st: "uv__is_active l' x = uv__is_active ?i x" "uv__is_closing l' x = uv__is_closing ?i x" "count_ok l' G = count_ok ?i G" for x G
    by (simp_all add: l' uv__is_active_def uv__is_closing_def uv__has_ref_def count_ok_def live_handles_def)
  have ty: "h_type (lp_handles l' x) = (if x = a then k else h_type (lp_handles l x))" for x by (simp add: l'(1) handle_init_state)
  have new: "Handle_link a \<notin> ring_nodes F"
  proof
    assume "Handle_link a \<in> ring_nodes F"
    then obtain h zs where h: "F h = Some zs" "Handle_link a \<in> set (h # zs)" unfolding ring_nodes_def by blast
    then have "Handle_link a \<in> set zs" using watchers_okD(5) [OF ok, of a] by auto
    then have "node_ok l H k0 h (Handle_link a)" using watchers_okD(7) [OF ok h(1)] by blast
    then show False using a by (cases h) (simp_all add: node_ok_def)
  qed
  have r: "rings (lp_queues l') ?F" using uv_queue.put_tail_lists [OF watchers_okD(2) [OF ok] hs new] by (simp add: l'(2))
  have nodes: "ring_nodes ?F = ring_nodes F \<union> {Handle_link a}"
    using uv_queue.nodes_upd [OF hs watchers_okD(2) [OF ok]] hs unfolding ring_nodes_def by auto
  have up: "node_ok l' (insert a H) k0 h x" if "node_ok l H k0 h x" for h x
    using that a by (cases h; cases x) (auto simp: node_ok_def ty st handle_init_state)
  have "node_ok l' (insert a H) k0 h x" if h: "?F h = Some zs" and x: "x \<in> set zs" for h zs x
  proof (cases "h = Loop_handles \<and> x = Handle_link a")
    case True
    then show ?thesis by (simp add: node_ok_def)
  next
    case False
    then show ?thesis using h x hs watchers_okD(7) [OF ok, of h] by (intro up) (auto split: if_splits)
  qed
  moreover have "count_ok l' (insert a H)" unfolding st by (rule handle_init_count [OF watchers_okD(1) [OF ok] a])
  moreover have "Watcher_link x \<in> ring_nodes ?F \<and> lp_watcher_cb l' x \<noteq> None" if "x \<in> insert a H" "h_type (lp_handles l' x) \<noteq> UV_TIMER" "uv__is_active l' x" for x
  proof -
    have x: "x \<noteq> a" "uv__is_active l x" using that(3) by (simp_all add: st handle_init_state)
    then have "x \<in> H" "h_type (lp_handles l x) \<noteq> UV_TIMER" using that(1,2) by (simp_all add: ty)
    then show ?thesis using watchers_okD(8,9) [OF ok _ _ x(2)] x(1) by (simp add: nodes l'(4))
  qed
  moreover have "?F (Loop_watchers j) \<noteq> None" if "j \<noteq> UV_TIMER" for j using watchers_okD(3) [OF ok that] by auto
  moreover have "?F (Handle_link b) = None \<and> ?F (Watcher_link b) = None \<and> ?F (Pending_link b) = None" for b using watchers_okD(4-6) [OF ok] by simp
  ultimately show "watchers_ok l' (insert a H) k0 ?F" using r unfolding watchers_ok_def by blast
  show "h_type (lp_handles l' a) = k" "\<not> uv__is_closing l' a" "\<not> uv__is_active l' a" using ty st by (simp_all add: handle_init_state)
qed

lemma watcher_init_ok:
  assumes ok: "watchers_ok l H k0 F" and a: "a \<notin> H" and hs: "F Loop_handles = Some hs" and l': "uv_watcher_init k l a = (c, l')"
  shows "c = 0" and "watchers_ok l' (insert a H) k0 (F(Loop_handles := Some (hs @ [Handle_link a])))" and "h_type (lp_handles l' a) = k"
    and "\<not> uv__is_closing l' a" and "\<not> uv__is_active l' a"
proof -
  have e: "l' = (uv__handle_init l a k)\<lparr>lp_watcher_cb := (lp_watcher_cb l)(a := None)\<rparr>" and c: "c = 0" using l' by (simp_all add: uv_watcher_init_def Let_def)
  note i = handle_init_watchers [OF ok a hs, of l' k]
  show "c = 0" by (rule c)
  show "watchers_ok l' (insert a H) k0 (F(Loop_handles := Some (hs @ [Handle_link a])))" by (rule i(1)) (simp_all add: e)
  show "h_type (lp_handles l' a) = k" by (rule i(2)) (simp_all add: e)
  show "\<not> uv__is_closing l' a" by (rule i(3)) (simp_all add: e)
  show "\<not> uv__is_active l' a" by (rule i(4)) (simp_all add: e)
qed

section \<open>The property of watchers\<close>

text \<open>C28: \<open>uv__run_idle\<close>, \<open>uv__run_prepare\<close> and \<open>uv__run_check\<close> return whatever their callbacks start and stop. They call watchers of their
  list only, in its order and each at most once; a watcher that is started meanwhile waits for the next run, a watcher that is stopped
  meanwhile is not called, and when the callbacks stop none every watcher of the list is called. The lists stay consistent.\<close>

theorem watchers_run_once:
  assumes "watchers_ok l H k F" and "F Local_queue = None" and "F (Loop_watchers k) = Some (map Watcher_link ws)" and "k \<noteq> UV_TIMER"
    and "\<forall>cb a act. act \<in> set (prog cb a) \<longrightarrow> action_handle act \<in> open_watchers l H"
  shows "\<exists>ran l' F'. uv__run_watchers k (prog_call prog) [] l = Some (ran, l') \<and> watchers_ok l' H k F' \<and> F' Local_queue = None \<and> subseq ran ws \<and>
           ((\<forall>cb a act. act \<in> set (prog cb a) \<longrightarrow> (\<exists>b c. act = Start_watcher b c)) \<longrightarrow> ran = ws)"
  using run_watchers_prog [OF assms(1-4), of prog "[]"] assms(5) by simp

theorem watchers_run_once_witness:
  "\<exists>l l'. uv_watcher_start UV_IDLE (snd (uv_watcher_init UV_IDLE (loop_init_fields 0 l) 4)) 4 (Some 1) = (0, l') \<and>
     (\<exists>l''. uv__run_watchers UV_IDLE (prog_call (\<lambda>cb a. [Start_watcher 4 1])) [] l' = Some ([4], l''))"
proof -
  fix l
  obtain c l1 where i: "uv_watcher_init UV_IDLE (loop_init_fields 0 l) 4 = (c, l1)" by fastforce
  let ?F = "init_lists(Loop_handles := Some ([] @ [Handle_link 4]))"
  have "init_lists Loop_handles = Some []" by (simp add: init_lists_def)
  note w = watcher_init_ok [OF loop_init_watchers _ this i]
  have ok1: "watchers_ok l1 {4} UV_IDLE ?F" by (rule w(2)) simp
  obtain d l2 where s: "uv_watcher_start UV_IDLE l1 4 (Some 1) = (d, l2)" by fastforce
  have F1: "?F (Loop_watchers UV_IDLE) = Some []" by (simp add: init_lists_def)
  note st = watcher_start_ok [OF ok1 _ _ _ _ _ F1 s]
  let ?G = "?F(Loop_watchers UV_IDLE := Some (Watcher_link 4 # []))"
  have d: "d = 0" by (rule st(1)) (use w(3-5) in simp_all)
  have ok2: "watchers_ok l2 {4} UV_IDLE ?G" by (rule st(2)) (use w(3-5) in simp_all)
  have "4 \<in> open_watchers l2 {4}" using w(3-5) start_state [of UV_IDLE l1 4 "Some 1" 4] s by (simp add: open_watchers_def)
  then have "\<exists>ran l' F'. uv__run_watchers UV_IDLE (prog_call (\<lambda>cb a. [Start_watcher 4 1])) [] l2 = Some (ran, l') \<and> ran = [4]"
    using watchers_run_once [OF ok2, of "[4]" "\<lambda>cb a. [Start_watcher 4 1]"] by (auto simp: init_lists_def action_handle_def)
  then show ?thesis using i s d by (intro exI [of _ l] exI [of _ l2]) auto
qed

end
