(* ===== verification/Uv_Run.thy ===== *)
theory Uv_Run
  imports Uv_Timer Uv_Watcher "HOL-Library.Monad_Syntax"
begin

text \<open>
  The event loop of \<open>src/unix/core.c\<close> of libuv: closing handles, the timeout of the poll and \<open>uv_run\<close>. A failed assertion is \<open>None\<close>.

  What the loop calls and is not modelled is in the record \<open>uv_env\<close>: the user's callbacks, the callbacks of pending I/O watchers, the system call
  that waits for I/O for at most the given milliseconds, and the clock in nanoseconds.
\<close>

record 'w uv_env =
  ev_call :: "uv_cb \<Rightarrow> addr \<Rightarrow> 'w \<Rightarrow> uv_loop \<Rightarrow> 'w \<times> uv_loop"
  ev_close :: "uv_cb \<Rightarrow> addr \<Rightarrow> 'w \<Rightarrow> uv_loop \<Rightarrow> 'w \<times> uv_loop"
  ev_io :: "addr \<Rightarrow> 'w \<Rightarrow> uv_loop \<Rightarrow> 'w \<times> uv_loop"
  ev_poll :: "int \<Rightarrow> 'w \<Rightarrow> uv_loop \<Rightarrow> 'w \<times> uv_loop"
  ev_hrtime :: "'w \<Rightarrow> uint64"

section \<open>Closing handles\<close>

definition uv__make_close_pending :: "uv_loop \<Rightarrow> addr \<Rightarrow> uv_loop option" where
  "uv__make_close_pending l a =
     (if flags_of l a AND UV_HANDLE_CLOSING \<noteq> 0 \<and> flags_of l a AND UV_HANDLE_CLOSED = 0
      then Some (l\<lparr>lp_handles := (lp_handles l)(a := (lp_handles l a)\<lparr>h_next_closing := lp_closing_handles l\<rparr>), lp_closing_handles := Some a\<rparr>)
      else None)"

definition uv_close :: "uv_loop \<Rightarrow> addr \<Rightarrow> uv_cb option \<Rightarrow> uv_loop option" where
  "uv_close l0 a close_cb =
     (if uv__is_closing l0 a then None
      else do {
        let l1 = set_flags a (flags_of l0 a OR UV_HANDLE_CLOSING) l0;
        let l2 = l1\<lparr>lp_handles := (lp_handles l1)(a := (lp_handles l1 a)\<lparr>h_close_cb := close_cb\<rparr>)\<rparr>;
        l3 \<leftarrow> (case h_type (lp_handles l2 a) of UV_TIMER \<Rightarrow> uv__timer_close l2 a | _ \<Rightarrow> Some (uv__watcher_close l2 a));
        uv__make_close_pending l3 a
      })"

definition uv__finish_close :: "'w uv_env \<Rightarrow> 'w \<Rightarrow> uv_loop \<Rightarrow> addr \<Rightarrow> ('w \<times> uv_loop) option" where
  "uv__finish_close ev w l a =
     (if flags_of l a AND UV_HANDLE_CLOSING \<noteq> 0 \<and> flags_of l a AND UV_HANDLE_CLOSED = 0
      then (let l1 = set_flags a (flags_of l a OR UV_HANDLE_CLOSED) l;
                l2 = uv__handle_unref l1 a;
                l3 = l2\<lparr>lp_queues := QUEUE_REMOVE (Handle_link a) (lp_queues l2)\<rparr>
            in Some (case h_close_cb (lp_handles l3 a) of None \<Rightarrow> (w, l3) | Some cb \<Rightarrow> ev_close ev cb a w l3))
      else None)"

partial_function (option) finish_closing :: "'w uv_env \<Rightarrow> 'w \<Rightarrow> uv_loop \<Rightarrow> addr option \<Rightarrow> ('w \<times> uv_loop) option" where
  "finish_closing ev w l p =
     (case p of
        None \<Rightarrow> Some (w, l)
      | Some a \<Rightarrow>
          (let q = h_next_closing (lp_handles l a) in
           case uv__finish_close ev w l a of
             None \<Rightarrow> None
           | Some (w', l') \<Rightarrow> finish_closing ev w' l' q))"

definition uv__run_closing_handles :: "'w uv_env \<Rightarrow> 'w \<Rightarrow> uv_loop \<Rightarrow> ('w \<times> uv_loop) option" where
  "uv__run_closing_handles ev w l = finish_closing ev w (l\<lparr>lp_closing_handles := None\<rparr>) (lp_closing_handles l)"

section \<open>The loop\<close>

definition uv_backend_timeout :: "uv_loop \<Rightarrow> int" where
  "uv_backend_timeout l =
     (if lp_stop_flag l \<noteq> 0 then 0
      else if \<not> uv__has_active_handles l \<and> \<not> uv__has_active_reqs l then 0
      else if \<not> QUEUE_EMPTY (lp_queues l) (Loop_watchers UV_IDLE) then 0
      else if \<not> QUEUE_EMPTY (lp_queues l) Loop_pending then 0
      else if lp_closing_handles l \<noteq> None then 0
      else uv__next_timeout l)"

definition uv__loop_alive :: "uv_loop \<Rightarrow> bool" where
  "uv__loop_alive l \<longleftrightarrow> uv__has_active_handles l \<or> uv__has_active_reqs l \<or> lp_closing_handles l \<noteq> None"

partial_function (option) run_local_pending :: "'w uv_env \<Rightarrow> 'w \<Rightarrow> uv_loop \<Rightarrow> ('w \<times> uv_loop) option" where
  "run_local_pending ev w l =
     (if QUEUE_EMPTY (lp_queues l) Local_pending then Some (w, l)
      else case QUEUE_HEAD (lp_queues l) Local_pending of
             Pending_link a \<Rightarrow>
               (let l1 = l\<lparr>lp_queues := QUEUE_INIT (Pending_link a) (QUEUE_REMOVE (Pending_link a) (lp_queues l))\<rparr>
                in case ev_io ev a w l1 of (w', l2) \<Rightarrow> run_local_pending ev w' l2)
           | _ \<Rightarrow> None)"

definition uv__run_pending :: "'w uv_env \<Rightarrow> 'w \<Rightarrow> uv_loop \<Rightarrow> (bool \<times> 'w \<times> uv_loop) option" where
  "uv__run_pending ev w l =
     (if QUEUE_EMPTY (lp_queues l) Loop_pending then Some (False, w, l)
      else do {
        (w', l') \<leftarrow> run_local_pending ev w (l\<lparr>lp_queues := QUEUE_MOVE Loop_pending Local_pending (lp_queues l)\<rparr>);
        Some (True, w', l')
      })"

datatype uv_run_mode = UV_RUN_DEFAULT | UV_RUN_ONCE | UV_RUN_NOWAIT

text \<open>One round of the loop of \<open>uv_run\<close>.\<close>

definition run_round :: "'w uv_env \<Rightarrow> uv_run_mode \<Rightarrow> 'w \<Rightarrow> uv_loop \<Rightarrow> ('w \<times> uv_loop) option" where
  "run_round ev mode w l =
     do {
       (w, l) \<leftarrow> uv__run_timers (ev_call ev) w (uv__update_time (ev_hrtime ev w) l);
       (ran_pending, w, l) \<leftarrow> uv__run_pending ev w l;
       (w, l) \<leftarrow> uv__run_watchers UV_IDLE (ev_call ev) w l;
       (w, l) \<leftarrow> uv__run_watchers UV_PREPARE (ev_call ev) w l;
       let timeout = (if mode = UV_RUN_ONCE \<and> \<not> ran_pending \<or> mode = UV_RUN_DEFAULT then uv_backend_timeout l else 0);
       let (w, l) = ev_poll ev timeout w l;
       (w, l) \<leftarrow> uv__run_watchers UV_CHECK (ev_call ev) w l;
       (w, l) \<leftarrow> uv__run_closing_handles ev w l;
       (if mode = UV_RUN_ONCE then uv__run_timers (ev_call ev) w (uv__update_time (ev_hrtime ev w) l) else Some (w, l))
     }"

partial_function (option) run_rounds :: "'w uv_env \<Rightarrow> uv_run_mode \<Rightarrow> bool \<Rightarrow> 'w \<Rightarrow> uv_loop \<Rightarrow> (bool \<times> 'w \<times> uv_loop) option" where
  "run_rounds ev mode r w l =
     (if r \<and> lp_stop_flag l = 0
      then (case run_round ev mode w l of
              None \<Rightarrow> None
            | Some (w', l') \<Rightarrow>
                if mode = UV_RUN_ONCE \<or> mode = UV_RUN_NOWAIT then Some (uv__loop_alive l', w', l')
                else run_rounds ev mode (uv__loop_alive l') w' l')
      else Some (r, w, l))"

definition uv_run :: "'w uv_env \<Rightarrow> uv_run_mode \<Rightarrow> 'w \<Rightarrow> uv_loop \<Rightarrow> (bool \<times> 'w \<times> uv_loop) option" where
  "uv_run ev mode w l =
     (let r = uv__loop_alive l;
          l = (if \<not> r then uv__update_time (ev_hrtime ev w) l else l)
      in do {
           (r, w, l) \<leftarrow> run_rounds ev mode r w l;
           Some (r, w, if lp_stop_flag l \<noteq> 0 then l\<lparr>lp_stop_flag := 0\<rparr> else l)
         })"

definition uv_stop :: "uv_loop \<Rightarrow> uv_loop" where
  "uv_stop l = l\<lparr>lp_stop_flag := 1\<rparr>"

definition uv_ref :: "uv_loop \<Rightarrow> addr \<Rightarrow> uv_loop" where
  "uv_ref l a = uv__handle_ref l a"

definition uv_unref :: "uv_loop \<Rightarrow> addr \<Rightarrow> uv_loop" where
  "uv_unref l a = uv__handle_unref l a"

section \<open>A loop of timers\<close>

text \<open>
  A program whose callbacks record their timer and the time of the loop, and a system call that sleeps for exactly the time it is asked to:
  the clock is in nanoseconds, the timeout in milliseconds.
\<close>

record sleeper =
  sl_clock :: nat
  sl_log :: "(addr \<times> uint64) list"

definition sleep_env :: "sleeper uv_env" where
  "sleep_env =
     \<lparr>ev_call = \<lambda>cb a w l. (w\<lparr>sl_log := sl_log w @ [(a, lp_time l)]\<rparr>, l),
      ev_close = \<lambda>cb a w l. (w, l), ev_io = \<lambda>a w l. (w, l),
      ev_poll = \<lambda>t w l. (w\<lparr>sl_clock := sl_clock w + nat t * 1000000\<rparr>, l),
      ev_hrtime = \<lambda>w. of_nat (sl_clock w)\<rparr>"

text \<open>No watcher and no pending I/O.\<close>

definition idle_lists :: "qaddr qstore \<Rightarrow> (qaddr \<Rightarrow> qaddr list option) \<Rightarrow> bool" where
  "idle_lists q F \<longleftrightarrow> rings q F \<and> F Loop_pending = Some [] \<and> (\<forall>k. k \<noteq> UV_TIMER \<longrightarrow> F (Loop_watchers k) = Some []) \<and> Local_queue \<notin> ring_nodes F"

lemma ring_nodes_none: "h \<notin> ring_nodes F \<Longrightarrow> F h = None"
  unfolding ring_nodes_def by (cases "F h") auto

lemma run_no_watchers:
  assumes i: "idle_lists (lp_queues l) F" and k: "k \<noteq> UV_TIMER"
  shows "\<exists>q. uv__run_watchers k call w l = Some (w, l\<lparr>lp_queues := q\<rparr>) \<and> idle_lists q F"
proof -
  have r: "rings (lp_queues l) F" and h: "F (Loop_watchers k) = Some []" and n: "Local_queue \<notin> ring_nodes F" using i k by (auto simp: idle_lists_def)
  let ?q = "QUEUE_MOVE (Loop_watchers k) Local_queue (lp_queues l)"
  have "QUEUE_EMPTY (lp_queues l) (Loop_watchers k)" using uv_queue.empty_iff [OF r h] by simp
  then have q: "?q = QUEUE_INIT Local_queue (lp_queues l)" by (simp add: QUEUE_MOVE_def)
  have r1: "rings ?q (F(Local_queue := Some []))" unfolding q by (rule rings_init [OF r n])
  have "QUEUE_EMPTY ?q Local_queue" using uv_queue.empty_iff [OF r1, of Local_queue "[]"] by simp
  then have "uv__run_watchers k call w l = Some (w, l\<lparr>lp_queues := ?q\<rparr>)"
    by (simp add: uv__run_watchers_def run_local_watchers.simps [of k call w "l\<lparr>lp_queues := ?q\<rparr>"])
  moreover have "rings ?q F" using rings_forget [OF r1, of Local_queue] ring_nodes_none [OF n] by (simp add: fun_upd_idem)
  ultimately show ?thesis using i by (auto simp: idle_lists_def)
qed

text \<open>A loop that has only timers which fire once, none later than \<open>M\<close> milliseconds.\<close>

definition timers_only :: "uv_loop \<Rightarrow> addr set \<Rightarrow> nat \<Rightarrow> (qaddr \<Rightarrow> qaddr list option) \<Rightarrow> bool" where
  "timers_only l H M F \<longleftrightarrow> timers_ok l H \<and> idle_lists (lp_queues l) F \<and> lp_active_reqs l = 0 \<and> lp_closing_handles l = None \<and> lp_stop_flag l = 0 \<and>
     (\<forall>a \<in> H. h_type (lp_handles l a) = UV_TIMER \<and> uv__has_ref l a) \<and>
     (\<forall>a \<in> active_timers l H. repeat (lp_timers l a) = 0 \<and> unat (timeout (lp_timers l a)) \<le> M)"

lemma timers_onlyD:
  assumes "timers_only l H M F"
  shows "timers_ok l H" and "idle_lists (lp_queues l) F" and "lp_active_reqs l = 0" and "lp_closing_handles l = None" and "lp_stop_flag l = 0"
    and "a \<in> H \<Longrightarrow> h_type (lp_handles l a) = UV_TIMER \<and> uv__has_ref l a"
    and "a \<in> active_timers l H \<Longrightarrow> repeat (lp_timers l a) = 0 \<and> unat (timeout (lp_timers l a)) \<le> M"
  using assms by (auto simp: timers_only_def)

lemma timers_only_alive:
  assumes t: "timers_only l H M F"
  shows "uv__has_active_handles l \<longleftrightarrow> active_timers l H \<noteq> {}" and "uv__loop_alive l \<longleftrightarrow> active_timers l H \<noteq> {}"
proof -
  note ok = timers_onlyD(1) [OF t]
  have live: "live_handles l H = active_timers l H" using timers_onlyD(6) [OF t] by (auto simp: live_handles_def active_timers_def)
  have sub: "active_timers l H \<subseteq> H" by (auto simp: active_timers_def)
  have "card (active_timers l H) < 2 ^ 32" using card_mono [OF timers_okD(2) [OF ok] sub] timers_okD(3) [OF ok] by linarith
  then have "unat (of_nat (card (active_timers l H)) :: uint32) = card (active_timers l H)" by (simp add: unat_of_nat)
  moreover have "lp_active_handles l = of_nat (card (active_timers l H))" using timers_okD(1) [OF ok] by (simp add: count_ok_def live)
  ultimately have "unat (lp_active_handles l) = card (active_timers l H)" by simp
  then show "uv__has_active_handles l \<longleftrightarrow> active_timers l H \<noteq> {}"
    using finite_subset [OF sub timers_okD(2) [OF ok]] by (simp add: uv__has_active_handles_def word_less_nat_alt card_gt_0_iff)
  then show "uv__loop_alive l \<longleftrightarrow> active_timers l H \<noteq> {}"
    using timers_onlyD(3,4) [OF t] by (simp add: uv__loop_alive_def uv__has_active_reqs_def)
qed

lemma backend_timeout_only:
  assumes t: "timers_only l H M F"
  shows "uv_backend_timeout l = (if active_timers l H = {} then 0 else uv__next_timeout l)"
proof -
  have i: "rings (lp_queues l) F" "F (Loop_watchers UV_IDLE) = Some []" "F Loop_pending = Some []" using timers_onlyD(2) [OF t] by (auto simp: idle_lists_def)
  show ?thesis unfolding uv_backend_timeout_def timers_only_alive(1) [OF t]
    using timers_onlyD(3-5) [OF t] uv_queue.empty_iff [OF i(1,2)] uv_queue.empty_iff [OF i(1,3)] by (simp add: uv__has_active_reqs_def)
qed

lemma timers_cong:
  assumes "lp_handles l' = lp_handles l" "lp_timers l' = lp_timers l" "lp_timer_heap l' = lp_timer_heap l" "lp_active_handles l' = lp_active_handles l"
  shows "timers_ok l' H = timers_ok l H" and "active_timers l' H = active_timers l H" and "uv__has_ref l' a = uv__has_ref l a"
  using assms by (simp_all add: timers_ok_def active_timers_def count_ok_def live_handles_def uv__is_active_def uv__has_ref_def uv__is_closing_def)

lemma timers_only_queues: "timers_only l H M F \<Longrightarrow> idle_lists q F \<Longrightarrow> timers_only (l\<lparr>lp_queues := q\<rparr>) H M F"
  by (simp add: timers_only_def timers_cong [of "l\<lparr>lp_queues := q\<rparr>" l])

lemma timers_only_time: "timers_only l H M F \<Longrightarrow> timers_only (l\<lparr>lp_time := t\<rparr>) H M F"
  by (simp add: timers_only_def timers_cong [of "l\<lparr>lp_time := t\<rparr>" l])

lemma fold_sleep_log:
  "fold (\<lambda>a w. w\<lparr>sl_log := sl_log w @ [(a, t)]\<rparr>) ds w = w\<lparr>sl_log := sl_log w @ map (\<lambda>a. (a, t)) ds\<rparr>"
  by (induction ds arbitrary: w) simp_all

lemma run_closing_none: "lp_closing_handles l = None \<Longrightarrow> uv__run_closing_handles ev w l = Some (w, l)"
  by (simp add: uv__run_closing_handles_def finish_closing.simps [of ev w _ None])

text \<open>The timers of a round.\<close>

lemma sleep_timers:
  assumes t: "timers_only l H M F" and now: "lp_time l < - 1"
  obtains ds l' where "uv__run_timers (ev_call sleep_env) w l = Some (w\<lparr>sl_log := sl_log w @ map (\<lambda>a. (a, lp_time l)) ds\<rparr>, l')" "distinct ds" "set ds = due_timers l H"
    "sorted_wrt (\<lambda>x y. \<not> timer_less_than (lp_timers l) y x) ds" "timers_only l' H M F" "active_timers l' H = active_timers l H - set ds" "lp_time l' = lp_time l"
    "\<And>a. a \<in> active_timers l' H \<Longrightarrow> lp_timers l' a = lp_timers l a" "due_timers l' H = {}"
proof -
  let ?g = "\<lambda>a t (w :: sleeper). w\<lparr>sl_log := sl_log w @ [(a, t)]\<rparr>"
  note ok = timers_onlyD(1) [OF t]
  have g: "ev_call sleep_env cb a w l = (?g a (lp_time l) w, l)" for cb a w l by (simp add: sleep_env_def)
  obtain ds l' where d: "uv__run_timers (ev_call sleep_env) w l = Some (fold (\<lambda>a. ?g a (lp_time l)) ds w, l')" "distinct ds" "set ds = due_timers l H"
      "sorted_wrt (\<lambda>x y. \<not> timer_less_than (lp_timers l) y x) ds" "timers_ok l' H" "due_timers l' H = {}" "timer_frame l l'"
      "\<forall>x. x \<notin> due_timers l H \<longrightarrow> lp_timers l' x = lp_timers l x"
      "(\<forall>a \<in> due_timers l H. repeat (lp_timers l a) = 0) \<longrightarrow> active_timers l' H = active_timers l H - due_timers l H"
    using run_timers_passive [where call = "ev_call sleep_env" and g = ?g, OF g ok now, of w] by blast
  have act: "active_timers l' H = active_timers l H - set ds" using d(3,9) timers_onlyD(7) [OF t] by (auto simp: due_timers_def)
  have same: "lp_timers l' a = lp_timers l a" if "a \<in> active_timers l' H" for a using d(3,8) that unfolding act by blast
  have fr: "lp_queues l' = lp_queues l" "lp_active_reqs l' = lp_active_reqs l" "lp_closing_handles l' = lp_closing_handles l" "lp_stop_flag l' = lp_stop_flag l" "lp_time l' = lp_time l"
      "h_type (lp_handles l' a) = h_type (lp_handles l a)" "uv__has_ref l' a = uv__has_ref l a" for a
    using d(7) by (simp_all add: timer_frame_def)
  have "repeat (lp_timers l' a) = 0 \<and> unat (timeout (lp_timers l' a)) \<le> M" if "a \<in> active_timers l' H" for a
    using same [OF that] timers_onlyD(7) [OF t, of a] that act by simp
  then have "timers_only l' H M F" using t d(5) unfolding timers_only_def fr by blast
  then show ?thesis using that [of ds l'] d(1-4,6) act same fr(5) unfolding fold_sleep_log by blast
qed

lemma sleep_round:
  assumes t: "timers_only l H M F" and clock: "sl_clock w < 2 ^ 64"
    and now: "now = (of_nat (sl_clock w) div 1000000 :: uint64)"
  obtains ds l' where "run_round sleep_env UV_RUN_DEFAULT w l =
      Some (w\<lparr>sl_log := sl_log w @ map (\<lambda>a. (a, now)) ds, sl_clock := sl_clock w + nat (uv_backend_timeout l') * 1000000\<rparr>, l')"
    "distinct ds" "set ds = {a \<in> active_timers l H. timeout (lp_timers l a) \<le> now}" "sorted_wrt (\<lambda>x y. \<not> timer_less_than (lp_timers l) y x) ds"
    "timers_only l' H M F" "active_timers l' H = active_timers l H - set ds" "lp_time l' = now" "\<And>a. a \<in> active_timers l' H \<Longrightarrow> lp_timers l' a = lp_timers l a"
proof -
  let ?l1 = "l\<lparr>lp_time := now\<rparr>"
  have l1: "uv__update_time (ev_hrtime sleep_env w) l = ?l1" by (simp add: uv__update_time_def sleep_env_def now)
  have t1: "timers_only ?l1 H M F" by (rule timers_only_time [OF t])
  have "unat now = sl_clock w div 1000000" using clock by (simp add: now unat_div unat_of_nat)
  then have lt: "lp_time ?l1 < - 1" using clock by (simp add: word_less_nat_alt unsigned_minus_1_eq_mask mask_eq_exp_minus_1)
  have f1: "lp_time ?l1 = now" "lp_timers ?l1 = lp_timers l" by simp_all
  obtain ds l2 where d: "uv__run_timers (ev_call sleep_env) w ?l1 = Some (w\<lparr>sl_log := sl_log w @ map (\<lambda>a. (a, now)) ds\<rparr>, l2)" "distinct ds" "set ds = due_timers ?l1 H"
      "sorted_wrt (\<lambda>x y. \<not> timer_less_than (lp_timers l) y x) ds" "timers_only l2 H M F" "active_timers l2 H = active_timers ?l1 H - set ds" "lp_time l2 = now"
      "\<And>a. a \<in> active_timers l2 H \<Longrightarrow> lp_timers l2 a = lp_timers l a"
    by (rule sleep_timers [OF t1 lt, of w, unfolded f1]) blast
  have act1: "active_timers ?l1 H = active_timers l H" by (rule timers_cong(2)) simp_all
  have due: "due_timers ?l1 H = {a \<in> active_timers l H. timeout (lp_timers l a) \<le> now}" unfolding due_timers_def act1 by simp
  let ?w = "w\<lparr>sl_log := sl_log w @ map (\<lambda>a. (a, now)) ds\<rparr>"
  have p: "uv__run_pending sleep_env ?w l2 = Some (False, ?w, l2)"
    using timers_onlyD(2) [OF d(5)] uv_queue.empty_iff [of "lp_queues l2" F Loop_pending "[]"] by (simp add: idle_lists_def uv__run_pending_def)
  obtain q3 where q3: "uv__run_watchers UV_IDLE (ev_call sleep_env) ?w l2 = Some (?w, l2\<lparr>lp_queues := q3\<rparr>)" "idle_lists q3 F"
    using run_no_watchers [OF timers_onlyD(2) [OF d(5)], of UV_IDLE "ev_call sleep_env" ?w] by auto
  note t3 = timers_only_queues [OF d(5) q3(2)]
  obtain q4 where q4: "uv__run_watchers UV_PREPARE (ev_call sleep_env) ?w (l2\<lparr>lp_queues := q3\<rparr>) = Some (?w, l2\<lparr>lp_queues := q4\<rparr>)" "idle_lists q4 F"
    using run_no_watchers [OF timers_onlyD(2) [OF t3], of UV_PREPARE "ev_call sleep_env" ?w] by auto
  note t4 = timers_only_queues [OF d(5) q4(2)]
  let ?b = "uv_backend_timeout (l2\<lparr>lp_queues := q4\<rparr>)"
  let ?v = "?w\<lparr>sl_clock := sl_clock w + nat ?b * 1000000\<rparr>"
  obtain q5 where q5: "uv__run_watchers UV_CHECK (ev_call sleep_env) ?v (l2\<lparr>lp_queues := q4\<rparr>) = Some (?v, l2\<lparr>lp_queues := q5\<rparr>)" "idle_lists q5 F"
    using run_no_watchers [OF timers_onlyD(2) [OF t4], of UV_CHECK "ev_call sleep_env" ?v] by auto
  note t5 = timers_only_queues [OF d(5) q5(2)]
  have poll: "ev_poll sleep_env b ?w k = (?w\<lparr>sl_clock := sl_clock w + nat b * 1000000\<rparr>, k)" for b k by (simp add: sleep_env_def)
  have act: "active_timers (l2\<lparr>lp_queues := q\<rparr>) H = active_timers l2 H" for q by (rule timers_cong(2)) simp_all
  have b: "?b = uv_backend_timeout (l2\<lparr>lp_queues := q5\<rparr>)"
    unfolding backend_timeout_only [OF t4] backend_timeout_only [OF t5] act by (simp add: uv__next_timeout_def split: option.split)
  have c: "uv__run_closing_handles sleep_env ?v (l2\<lparr>lp_queues := q5\<rparr>) = Some (?v, l2\<lparr>lp_queues := q5\<rparr>)"
    by (rule run_closing_none) (use timers_onlyD(4) [OF t5] in simp)
  have "run_round sleep_env UV_RUN_DEFAULT w l = Some (?v, l2\<lparr>lp_queues := q5\<rparr>)"
    unfolding run_round_def l1 by (simp add: d(1) p q3(1) q4(1) poll q5(1) c)
  then have "run_round sleep_env UV_RUN_DEFAULT w l =
      Some (w\<lparr>sl_log := sl_log w @ map (\<lambda>a. (a, now)) ds, sl_clock := sl_clock w + nat (uv_backend_timeout (l2\<lparr>lp_queues := q5\<rparr>)) * 1000000\<rparr>, l2\<lparr>lp_queues := q5\<rparr>)"
    unfolding b .
  then show ?thesis using that d(2,4) t5 d(3)[unfolded due] d(6)[unfolded act1] d(7,8) act by simp
qed

text \<open>The sleep until the next timer: at least a millisecond, and not past the deadline.\<close>

lemma next_timeout_bounds:
  assumes t: "timers_only l H M F" and some: "active_timers l H \<noteq> {}" and none: "\<And>a. a \<in> active_timers l H \<Longrightarrow> lp_time l < timeout (lp_timers l a)"
  shows "1 \<le> uv__next_timeout l" and "unat (lp_time l) + nat (uv__next_timeout l) \<le> M"
proof -
  let ?g = "\<lambda>a. max 0 (uint (timeout (lp_timers l a)) - uint (lp_time l))"
  note ok = timers_onlyD(1) [OF t]
  have fin: "finite (?g ` active_timers l H)" using timers_okD(2) [OF ok] by (simp add: active_timers_def)
  have v: "uv__next_timeout l = min (2 ^ 31 - 1) (Min (?g ` active_timers l H))" using next_timeout_value [OF ok] some by simp
  obtain a where a: "a \<in> active_timers l H" "Min (?g ` active_timers l H) = ?g a" using Min_in [OF fin] some by auto
  have g: "1 \<le> ?g a" "?g a = uint (timeout (lp_timers l a)) - uint (lp_time l)" using none [OF a(1)] by (auto simp: word_less_def)
  show "1 \<le> uv__next_timeout l" unfolding v a(2) using g(1) by simp
  have "nat (uv__next_timeout l) \<le> nat (?g a)" unfolding v a(2) by simp
  also have "\<dots> = unat (timeout (lp_timers l a)) - unat (lp_time l)" unfolding g(2) nat_minus_as_int by simp
  finally have "nat (uv__next_timeout l) \<le> unat (timeout (lp_timers l a)) - unat (lp_time l)" .
  moreover have "unat (lp_time l) < unat (timeout (lp_timers l a))" using none [OF a(1)] by (simp add: word_less_nat_alt)
  ultimately show "unat (lp_time l) + nat (uv__next_timeout l) \<le> M" using timers_onlyD(7) [OF t a(1)] by linarith
qed

lemma sleep_run:
  assumes "timers_only l H M F" and "sl_clock w < 2 ^ 64" and M: "(M + 1) * 1000000 \<le> 2 ^ 64"
  shows "\<exists>es w' l'. run_rounds sleep_env UV_RUN_DEFAULT (active_timers l H \<noteq> {}) w l = Some (False, w', l') \<and> sl_log w' = sl_log w @ es \<and>
    distinct (map fst es) \<and> set (map fst es) = active_timers l H \<and> sorted_wrt (\<lambda>x y. \<not> timer_less_than (lp_timers l) (fst y) (fst x)) es \<and>
    (\<forall>e \<in> set es. timeout (lp_timers l (fst e)) \<le> snd e) \<and> active_timers l' H = {} \<and> lp_stop_flag l' = 0"
  using assms(1,2)
proof (induction "M - sl_clock w div 1000000" arbitrary: l w rule: less_induct)
  case less
  note t = less.prems(1) and clock = less.prems(2)
  show ?case
  proof (cases "active_timers l H = {}")
    case True
    then show ?thesis using timers_onlyD(5) [OF t] by (intro exI [of _ "[]"] exI [of _ w] exI [of _ l]) (simp add: run_rounds.simps [of _ _ False])
  next
    case False
    define now where "now = (of_nat (sl_clock w) div 1000000 :: uint64)"
    have unow: "unat now = sl_clock w div 1000000" using clock by (simp add: now_def unat_div unat_of_nat)
    obtain ds l1 where r: "run_round sleep_env UV_RUN_DEFAULT w l =
          Some (w\<lparr>sl_log := sl_log w @ map (\<lambda>a. (a, now)) ds, sl_clock := sl_clock w + nat (uv_backend_timeout l1) * 1000000\<rparr>, l1)"
        "distinct ds" "set ds = {a \<in> active_timers l H. timeout (lp_timers l a) \<le> now}" "sorted_wrt (\<lambda>x y. \<not> timer_less_than (lp_timers l) y x) ds"
        "timers_only l1 H M F" "active_timers l1 H = active_timers l H - set ds" "lp_time l1 = now" "\<And>a. a \<in> active_timers l1 H \<Longrightarrow> lp_timers l1 a = lp_timers l a"
      by (rule sleep_round [OF t clock now_def]) blast
    let ?w = "w\<lparr>sl_log := sl_log w @ map (\<lambda>a. (a, now)) ds, sl_clock := sl_clock w + nat (uv_backend_timeout l1) * 1000000\<rparr>"
    have later: "now < timeout (lp_timers l a)" if "a \<in> active_timers l1 H" for a using that r(3,6) by auto
    have step: "run_rounds sleep_env UV_RUN_DEFAULT (active_timers l H \<noteq> {}) w l = run_rounds sleep_env UV_RUN_DEFAULT (active_timers l1 H \<noteq> {}) ?w l1"
      using False timers_onlyD(5) [OF t] r(1) timers_only_alive(2) [OF r(5)] by (simp add: run_rounds.simps [of _ _ _ w l])
    have "\<exists>es w' l'. run_rounds sleep_env UV_RUN_DEFAULT (active_timers l1 H \<noteq> {}) ?w l1 = Some (False, w', l') \<and> sl_log w' = sl_log ?w @ es \<and>
        distinct (map fst es) \<and> set (map fst es) = active_timers l1 H \<and> sorted_wrt (\<lambda>x y. \<not> timer_less_than (lp_timers l1) (fst y) (fst x)) es \<and>
        (\<forall>e \<in> set es. timeout (lp_timers l1 (fst e)) \<le> snd e) \<and> active_timers l' H = {} \<and> lp_stop_flag l' = 0"
    proof (cases "active_timers l1 H = {}")
      case True
      then show ?thesis using timers_onlyD(5) [OF r(5)] by (intro exI [of _ "[]"] exI [of _ ?w] exI [of _ l1]) (simp add: run_rounds.simps [of _ _ False])
    next
      case False
      have d: "1 \<le> uv__next_timeout l1" "unat now + nat (uv__next_timeout l1) \<le> M"
        using next_timeout_bounds [OF r(5) False] later r(7,8) by simp_all
      have c: "sl_clock ?w div 1000000 = unat now + nat (uv__next_timeout l1)" using backend_timeout_only [OF r(5)] False unow by simp
      have "M - sl_clock ?w div 1000000 < M - sl_clock w div 1000000" unfolding c unow [symmetric] using d by linarith
      moreover have "sl_clock ?w div 1000000 < M + 1" unfolding c using d(2) by linarith
      then have "sl_clock ?w < (M + 1) * 1000000" by (subst (asm) div_less_iff_less_mult) simp_all
      then have "sl_clock ?w < 2 ^ 64" using M by linarith
      ultimately show ?thesis using less.hyps [of ?w l1] r(5) by blast
    qed
    then obtain es w' l' where IH: "run_rounds sleep_env UV_RUN_DEFAULT (active_timers l1 H \<noteq> {}) ?w l1 = Some (False, w', l')" "sl_log w' = sl_log ?w @ es"
        "distinct (map fst es)" "set (map fst es) = active_timers l1 H" "sorted_wrt (\<lambda>x y. \<not> timer_less_than (lp_timers l1) (fst y) (fst x)) es"
        "\<forall>e \<in> set es. timeout (lp_timers l1 (fst e)) \<le> snd e" "active_timers l' H = {}" "lp_stop_flag l' = 0" by blast
    have es: "fst e \<in> active_timers l1 H" if "e \<in> set es" for e using that IH(4) by auto
    have "sorted_wrt (\<lambda>x y. \<not> timer_less_than (lp_timers l) (fst y) (fst x)) es"
      by (rule sorted_wrt_mono_rel [OF _ IH(5)]) (use es r(8) in \<open>simp add: timer_less_than_def\<close>)
    moreover have "\<not> timer_less_than (lp_timers l) (fst y) x" if "x \<in> set ds" "y \<in> set es" for x y
      using later [OF es [OF that(2)]] that(1) r(3) by (auto simp: timer_less_than_iff)
    ultimately have "sorted_wrt (\<lambda>x y. \<not> timer_less_than (lp_timers l) (fst y) (fst x)) (map (\<lambda>a. (a, now)) ds @ es)"
      using r(4) by (simp add: sorted_wrt_append sorted_wrt_map)
    moreover have "\<forall>e \<in> set (map (\<lambda>a. (a, now)) ds @ es). timeout (lp_timers l (fst e)) \<le> snd e" using IH(6) es r(3,8) by auto
    moreover have "distinct (map fst (map (\<lambda>a. (a, now)) ds @ es))" "set (map fst (map (\<lambda>a. (a, now)) ds @ es)) = active_timers l H"
      using r(2,3,6) IH(3,4) by (auto simp: comp_def)
    ultimately show ?thesis using IH(1,2,7,8) step by (intro exI [of _ "map (\<lambda>a. (a, now)) ds @ es"] exI [of _ w'] exI [of _ l']) simp
  qed
qed


lemma sample_idle:
  "idle_lists (lp_queues sample_loop) (init_lists(Loop_handles := Some [Handle_link 7]))"
proof -
  have "lp_queues sample_loop = QUEUE_INSERT_TAIL Loop_handles (Handle_link 7) (lp_queues (loop_init_fields 9000000 raw_loop))"
    by (simp add: sample_loop_def uv_timer_init_def Let_def)
  moreover have h: "init_lists Loop_handles = Some []" and n: "Handle_link 7 \<notin> ring_nodes init_lists"
    by (simp_all add: init_lists_def ring_nodes_def)
  ultimately have r: "rings (lp_queues sample_loop) (init_lists(Loop_handles := Some [Handle_link 7]))"
    using uv_queue.put_tail_lists [OF loop_init_lists h n] by simp
  moreover have "init_lists (Loop_watchers k) = Some []" if "k \<noteq> UV_TIMER" for k using that by (cases k) (simp_all add: init_lists_def)
  moreover have "Local_queue \<notin> ring_nodes (init_lists(Loop_handles := Some [Handle_link 7]))"
    by (auto simp: ring_nodes_def init_lists_def split: if_splits)
  ultimately show ?thesis by (simp add: idle_lists_def init_lists_def)
qed


end
