(* ===== verification/Uv_Reach.thy ===== *)
theory Uv_Reach
  imports Uv_Run
begin

text \<open>
  The invariant of the whole event loop: its timers, its watchers, its list of handles, the list of handles to be closed
  and its count of active handles agree with the flags of the handles. Every state that the interface reaches has it.
\<close>

section \<open>The invariant\<close>

fun closing_list :: "uv_loop \<Rightarrow> addr option \<Rightarrow> addr list \<Rightarrow> bool" where
  "closing_list l p [] \<longleftrightarrow> p = None"
| "closing_list l p (a # as) \<longleftrightarrow> p = Some a \<and> closing_list l (h_next_closing (lp_handles l a)) as"

text \<open>\<open>H\<close> is the set of handles that are not closed, \<open>hs\<close> the list of handles, \<open>F\<close> the lists and \<open>ps\<close> the handles to be closed.\<close>

definition loop_ok :: "uv_loop \<Rightarrow> addr set \<Rightarrow> addr list \<Rightarrow> (qaddr \<Rightarrow> qaddr list option) \<Rightarrow> addr list \<Rightarrow> bool" where
  "loop_ok l H hs F ps \<longleftrightarrow> timers_ok l H \<and> watchers_ok l H UV_IDLE F \<and> F Local_queue = None \<and> F (Loop_watchers UV_TIMER) = None \<and> F Loop_handles = Some (map Handle_link hs) \<and> set hs = H \<and>
     closing_list l (lp_closing_handles l) ps \<and> distinct ps \<and> set ps = {a \<in> H. uv__is_closing l a} \<and> (\<forall>a \<in> H. \<not> handle_closed l a)"

lemma loop_okD:
  assumes "loop_ok l H hs F ps"
  shows "timers_ok l H" and "watchers_ok l H UV_IDLE F" and "F Local_queue = None" and "F Loop_handles = Some (map Handle_link hs)" and "set hs = H"
    and "closing_list l (lp_closing_handles l) ps" and "distinct ps" and "set ps = {a \<in> H. uv__is_closing l a}" and "a \<in> H \<Longrightarrow> \<not> handle_closed l a"
    and "count_ok l H" and "F (Loop_watchers UV_TIMER) = None"
  using assms timers_okD(1) by (auto simp: loop_ok_def)

lemma closing_list_cong: "closing_list l p as \<Longrightarrow> (\<And>x. x \<in> set as \<Longrightarrow> h_next_closing (lp_handles l' x) = h_next_closing (lp_handles l x)) \<Longrightarrow> closing_list l' p as"
  by (induction as arbitrary: p) auto

lemma timers_congI:
  assumes ok: "timers_ok l H" and "count_ok l' H" and "lp_timers l' = lp_timers l" and "lp_timer_heap l' = lp_timer_heap l"
    and "\<And>x. x \<in> H \<Longrightarrow> h_type (lp_handles l' x) = h_type (lp_handles l x)" and "\<And>x. x \<in> H \<Longrightarrow> h_type (lp_handles l x) = UV_TIMER \<Longrightarrow> uv__is_active l' x = uv__is_active l x"
  shows "timers_ok l' H"
proof -
  have "active_timers l' H = active_timers l H" using assms(5,6) by (auto simp: active_timers_def)
  then show ?thesis using assms(1-4) by (simp add: timers_ok_def)
qed

lemma watchers_congI:
  assumes ok: "watchers_ok l H k F" and count: "count_ok l' H" and q: "lp_queues l' = lp_queues l" and cb: "lp_watcher_cb l' = lp_watcher_cb l"
    and ty: "\<And>x. x \<in> H \<Longrightarrow> h_type (lp_handles l' x) = h_type (lp_handles l x)" and act: "\<And>x. x \<in> H \<Longrightarrow> h_type (lp_handles l x) \<noteq> UV_TIMER \<Longrightarrow> uv__is_active l' x = uv__is_active l x"
    and kinds: "F (Loop_watchers UV_TIMER) = None" "F Local_queue = None"
  shows "watchers_ok l' H k F"
proof -
  have "node_ok l' H k h x" if h: "F h = Some xs" "x \<in> set xs" for h xs x
  proof -
    have "h \<noteq> Loop_watchers UV_TIMER" "h \<noteq> Local_queue" using h(1) kinds by auto
    then show ?thesis using watchers_okD(7) [OF ok h] ty act by (cases h; cases x) (auto simp: node_ok_def)
  qed
  then show ?thesis using ok count ty act unfolding watchers_ok_def q cb by auto
qed

section \<open>Every operation keeps it\<close>

lemma loop_ok_init: "loop_ok (loop_init_fields t l) {} [] init_lists []"
proof -
  have "lp_closing_handles (loop_init_fields t l) = None" by (simp add: loop_init_fields_def uv__update_time_def Let_def)
  then show ?thesis using loop_init_timers loop_init_watchers by (simp add: loop_ok_def init_lists_def [symmetric]) (simp add: init_lists_def)
qed

lemma loop_ok_timer_op:
  assumes ok: "loop_ok l H hs F ps" and t: "timers_ok l' H" and fr: "timer_frame l l'"
  shows "loop_ok l' H hs F ps"
proof -
  have f: "lp_queues l' = lp_queues l" "lp_closing_handles l' = lp_closing_handles l" "lp_watcher_cb l' = lp_watcher_cb l"
      "\<And>x. h_type (lp_handles l' x) = h_type (lp_handles l x)" "\<And>x. h_next_closing (lp_handles l' x) = h_next_closing (lp_handles l x)"
      "\<And>x. uv__is_closing l' x = uv__is_closing l x" "\<And>x. handle_closed l' x = handle_closed l x"
      "\<And>x. h_type (lp_handles l x) \<noteq> UV_TIMER \<Longrightarrow> uv__is_active l' x = uv__is_active l x"
    using fr by (simp_all add: timer_frame_def)
  have "watchers_ok l' H UV_IDLE F"
    by (rule watchers_congI [OF loop_okD(2) [OF ok] timers_okD(1) [OF t] f(1,3)]) (use f(4,8) loop_okD(3,11) [OF ok] in auto)
  moreover have "closing_list l' (lp_closing_handles l') ps" unfolding f(2) by (rule closing_list_cong [OF loop_okD(6) [OF ok] f(5)])
  ultimately show ?thesis using ok t unfolding loop_ok_def f(6,7) by blast
qed

text \<open>Changes of a handle that leave the timers and the lists alone.\<close>

lemma loop_ok_congI:
  assumes ok: "loop_ok l H hs F ps" and count: "count_ok l' H" and same: "lp_timers l' = lp_timers l" "lp_timer_heap l' = lp_timer_heap l" "lp_queues l' = lp_queues l"
      "lp_watcher_cb l' = lp_watcher_cb l" "lp_closing_handles l' = lp_closing_handles l"
    and h: "\<And>x. h_type (lp_handles l' x) = h_type (lp_handles l x)" "\<And>x. h_next_closing (lp_handles l' x) = h_next_closing (lp_handles l x)"
      "\<And>x. uv__is_active l' x = uv__is_active l x" "\<And>x. uv__is_closing l' x = uv__is_closing l x" "\<And>x. handle_closed l' x = handle_closed l x"
  shows "loop_ok l' H hs F ps"
proof -
  have "timers_ok l' H" by (rule timers_congI [OF loop_okD(1) [OF ok] count same(1,2)]) (use h in auto)
  moreover have "watchers_ok l' H UV_IDLE F" by (rule watchers_congI [OF loop_okD(2) [OF ok] count same(3,4)]) (use h loop_okD(3,11) [OF ok] in auto)
  moreover have "closing_list l' (lp_closing_handles l') ps" unfolding same(5) by (rule closing_list_cong [OF loop_okD(6) [OF ok] h(2)])
  ultimately show ?thesis using ok unfolding loop_ok_def h(4,5) by blast
qed

lemma loop_ok_ref:
  assumes ok: "loop_ok l H hs F ps" and a: "a \<in> H"
  shows "loop_ok (uv__handle_ref l a) H hs F ps" and "loop_ok (uv__handle_unref l a) H hs F ps"
  by (rule loop_ok_congI [OF ok handle_ref_count [OF loop_okD(10) [OF ok] a]]; simp)
    (rule loop_ok_congI [OF ok handle_unref_count [OF loop_okD(10) [OF ok] a]]; simp)

lemma loop_ok_time: "loop_ok l H hs F ps \<Longrightarrow> loop_ok (uv__update_time t l) H hs F ps"
  by (rule loop_ok_congI) (auto dest!: loop_okD(10) simp: uv__update_time_def uv__is_active_def uv__is_closing_def handle_closed_def count_ok_def live_handles_def uv__has_ref_def)

lemma loop_ok_new:
  assumes ok: "loop_ok l H hs F ps" and a: "a \<notin> H" and t: "timers_ok l' (insert a H)"
    and l': "lp_handles l' = lp_handles (uv__handle_init l a k)" "lp_queues l' = lp_queues (uv__handle_init l a k)" "lp_active_handles l' = lp_active_handles (uv__handle_init l a k)"
      "\<And>x. x \<noteq> a \<Longrightarrow> lp_watcher_cb l' x = lp_watcher_cb l x" "lp_closing_handles l' = lp_closing_handles l"
  shows "loop_ok l' (insert a H) (hs @ [a]) (F(Loop_handles := Some (map Handle_link (hs @ [a])))) ps"
proof -
  have w: "watchers_ok l' (insert a H) UV_IDLE (F(Loop_handles := Some (map Handle_link hs @ [Handle_link a])))"
    by (rule handle_init_watchers(1) [OF loop_okD(2) [OF ok] a loop_okD(4) [OF ok] l'(1-4)])
  have st: "uv__is_closing l' x \<longleftrightarrow> x \<noteq> a \<and> uv__is_closing l x" "handle_closed l' x \<longleftrightarrow> x \<noteq> a \<and> handle_closed l x"
      "x \<noteq> a \<Longrightarrow> h_next_closing (lp_handles l' x) = h_next_closing (lp_handles l x)" for x
    by (auto simp: l'(1) uv__is_closing_def handle_closed_def uv__handle_init_def Let_def set_flags_def flag_defs)
  have ps: "set ps = {x \<in> insert a H. uv__is_closing l' x}" using loop_okD(8) [OF ok] a by (auto simp: st)
  have "closing_list l' (lp_closing_handles l') ps" unfolding l'(5)
    by (rule closing_list_cong [OF loop_okD(6) [OF ok] st(3)]) (use ps st(1) in auto)
  then show ?thesis using ok w t ps st(2) unfolding loop_ok_def by auto
qed

lemma loop_ok_timer_init:
  assumes ok: "loop_ok l H hs F ps" and a: "a \<notin> H" and H: "card H + 1 < 2 ^ 32" and l': "uv_timer_init l a = (c, l')"
  shows "loop_ok l' (insert a H) (hs @ [a]) (F(Loop_handles := Some (map Handle_link (hs @ [a])))) ps"
  by (rule loop_ok_new [OF ok a uv_timer_init_spec(2) [OF loop_okD(1) [OF ok] a H l'], where k = UV_TIMER]) (use l' in \<open>auto simp: uv_timer_init_def Let_def\<close>)

lemma loop_ok_watcher_init:
  assumes ok: "loop_ok l H hs F ps" and a: "a \<notin> H" and H: "card H + 1 < 2 ^ 32" and k: "k \<noteq> UV_TIMER" and l': "uv_watcher_init k l a = (c, l')"
  shows "loop_ok l' (insert a H) (hs @ [a]) (F(Loop_handles := Some (map Handle_link (hs @ [a])))) ps"
proof -
  note w = watcher_init_ok(2) [OF loop_okD(2) [OF ok] a loop_okD(4) [OF ok] l']
  have e: "l' = (uv__handle_init l a k)\<lparr>lp_watcher_cb := (lp_watcher_cb l)(a := None)\<rparr>" using l' by (simp add: uv_watcher_init_def Let_def)
  have st: "uv__is_active l' x \<longleftrightarrow> x \<noteq> a \<and> uv__is_active l x" "h_type (lp_handles l' x) = (if x = a then k else h_type (lp_handles l x))" for x
    using handle_init_state(1,4) [of l a k x] by (simp_all add: e uv__is_active_def)
  have "active_timers l' (insert a H) = active_timers l H" using a k by (auto simp: active_timers_def st)
  then have "timers_ok l' (insert a H)"
    using loop_okD(1) [OF ok] watchers_okD(1) [OF w] H a timers_okD(2) [OF loop_okD(1) [OF ok]] by (simp add: timers_ok_def e)
  then show ?thesis by (rule loop_ok_new [OF ok a, where k = k]) (simp_all add: e)
qed

lemma loop_ok_watcher_op:
  assumes ok: "loop_ok l H hs F ps" and w: "watchers_ok l' H UV_IDLE F'" and F': "F' Local_queue = None" "F' Loop_handles = F Loop_handles" "F' (Loop_watchers UV_TIMER) = None"
    and same: "lp_timers l' = lp_timers l" "lp_timer_heap l' = lp_timer_heap l" "lp_closing_handles l' = lp_closing_handles l"
    and h: "\<And>x. h_type (lp_handles l' x) = h_type (lp_handles l x)" "\<And>x. h_next_closing (lp_handles l' x) = h_next_closing (lp_handles l x)"
      "\<And>x. h_type (lp_handles l x) = UV_TIMER \<Longrightarrow> uv__is_active l' x = uv__is_active l x" "\<And>x. uv__is_closing l' x = uv__is_closing l x" "\<And>x. handle_closed l' x = handle_closed l x"
  shows "loop_ok l' H hs F' ps"
proof -
  have "timers_ok l' H" by (rule timers_congI [OF loop_okD(1) [OF ok] watchers_okD(1) [OF w] same(1,2)]) (use h in auto)
  moreover have "closing_list l' (lp_closing_handles l') ps" unfolding same(3) by (rule closing_list_cong [OF loop_okD(6) [OF ok] h(2)])
  ultimately show ?thesis using ok w F' unfolding loop_ok_def h(4,5) by metis
qed

lemma queue_cb_flags:
  "uv__is_active (l\<lparr>lp_queues := q\<rparr>) x = uv__is_active l x" "uv__is_closing (l\<lparr>lp_queues := q\<rparr>) x = uv__is_closing l x" "handle_closed (l\<lparr>lp_queues := q\<rparr>) x = handle_closed l x"
  "uv__is_active (l\<lparr>lp_watcher_cb := c\<rparr>) x = uv__is_active l x" "uv__is_closing (l\<lparr>lp_watcher_cb := c\<rparr>) x = uv__is_closing l x" "handle_closed (l\<lparr>lp_watcher_cb := c\<rparr>) x = handle_closed l x"
  by (simp_all add: uv__is_active_def uv__is_closing_def handle_closed_def)

lemma loop_ok_watcher_start:
  assumes ok: "loop_ok l H hs F ps" and a: "a \<in> H" "h_type (lp_handles l a) = k" "k \<noteq> UV_TIMER" "\<not> uv__is_closing l a" and l': "uv_watcher_start k l a cb = (c, l')"
  shows "\<exists>F'. loop_ok l' H hs F' ps"
proof (cases "uv__is_active l a \<or> cb = None")
  case True
  then have "l' = l" using l' by (auto simp: uv_watcher_start_def split: if_splits)
  then show ?thesis using ok by blast
next
  case False
  then obtain f where f: "cb = Some f" "\<not> uv__is_active l a" by blast
  obtain xs where xs: "F (Loop_watchers k) = Some xs" using watchers_okD(3) [OF loop_okD(2) [OF ok] a(3)] by blast
  have s: "uv_watcher_start k l a (Some f) = (c, l')" using l' f(1) by simp
  note w = watcher_start_ok(2) [OF loop_okD(2) [OF ok] a f(2) xs s]
  have e: "l' = uv__handle_start (l\<lparr>lp_queues := QUEUE_INSERT_HEAD (Loop_watchers k) (Watcher_link a) (lp_queues l), lp_watcher_cb := (lp_watcher_cb l)(a := Some f)\<rparr>) a"
    using s f(2) by (simp add: uv_watcher_start_def Let_def)
  have "loop_ok l' H hs (F(Loop_watchers k := Some (Watcher_link a # xs))) ps"
    by (rule loop_ok_watcher_op [OF ok w]) (use loop_okD(3,11) [OF ok] a in \<open>auto simp: e queue_cb_flags\<close>)
  then show ?thesis by blast
qed

lemma loop_ok_watcher_stop:
  assumes ok: "loop_ok l H hs F ps" and a: "a \<in> H" "h_type (lp_handles l a) \<noteq> UV_TIMER" and l': "uv_watcher_stop l a = (c, l')"
  shows "(\<exists>F'. loop_ok l' H hs F' ps) \<and> \<not> uv__is_active l' a"
proof (cases "uv__is_active l a")
  case False
  then have "l' = l" using l' by (simp add: uv_watcher_stop_def)
  then show ?thesis using ok False by blast
next
  case True
  obtain h as bs where h: "F h = Some (as @ Watcher_link a # bs)" "h = Local_queue \<and> h_type (lp_handles l a) = UV_IDLE \<or> h = Loop_watchers (h_type (lp_handles l a))"
      "watchers_ok l' H UV_IDLE (F(h := Some (as @ bs)))" "\<not> uv__is_active l' a"
    by (rule watcher_stop_ok [OF loop_okD(2) [OF ok] a True l']) blast
  have hk: "h = Loop_watchers (h_type (lp_handles l a))" using h(1,2) loop_okD(3) [OF ok] by auto
  have e: "l' = uv__handle_stop (l\<lparr>lp_queues := QUEUE_REMOVE (Watcher_link a) (lp_queues l)\<rparr>) a" using l' True by (simp add: uv_watcher_stop_def)
  have "loop_ok l' H hs (F(h := Some (as @ bs))) ps"
    by (rule loop_ok_watcher_op [OF ok h(3)]) (use loop_okD(3,11) [OF ok] a in \<open>auto simp: hk e queue_cb_flags\<close>)
  then show ?thesis using h(4) by blast
qed

section \<open>Closing a handle\<close>

text \<open>What \<open>uv_close\<close> writes before it stops the handle, and after.\<close>

definition mark_closing :: "addr \<Rightarrow> uv_cb option \<Rightarrow> uv_loop \<Rightarrow> uv_loop" where
  "mark_closing a cb l = (let l1 = set_flags a (flags_of l a OR UV_HANDLE_CLOSING) l in l1\<lparr>lp_handles := (lp_handles l1)(a := (lp_handles l1 a)\<lparr>h_close_cb := cb\<rparr>)\<rparr>)"

lemma mark_closing_fields [simp]:
  "flags_of (mark_closing a cb l) x = (if x = a then flags_of l a OR UV_HANDLE_CLOSING else flags_of l x)" "h_type (lp_handles (mark_closing a cb l) x) = h_type (lp_handles l x)"
  "h_next_closing (lp_handles (mark_closing a cb l) x) = h_next_closing (lp_handles l x)" "lp_timers (mark_closing a cb l) = lp_timers l" "lp_timer_heap (mark_closing a cb l) = lp_timer_heap l"
  "lp_queues (mark_closing a cb l) = lp_queues l" "lp_watcher_cb (mark_closing a cb l) = lp_watcher_cb l" "lp_closing_handles (mark_closing a cb l) = lp_closing_handles l"
  "lp_active_handles (mark_closing a cb l) = lp_active_handles l"
  by (simp_all add: mark_closing_def Let_def)

lemma mark_closing_state [simp]:
  "uv__is_active (mark_closing a cb l) x = uv__is_active l x" "uv__has_ref (mark_closing a cb l) x = uv__has_ref l x" "handle_closed (mark_closing a cb l) x = handle_closed l x"
  "uv__is_closing (mark_closing a cb l) x \<longleftrightarrow> x = a \<or> uv__is_closing l x"
  by (auto simp: uv__is_active_def uv__has_ref_def handle_closed_def uv__is_closing_def flag_defs flag_or or_eq_0_iff)

lemma handle_stop_mark: "uv__handle_stop (mark_closing a cb l) a = mark_closing a cb (uv__handle_stop l a)"
proof -
  let ?f = "flags_of l a"
  have f: "(?f OR UV_HANDLE_CLOSING) AND NOT UV_HANDLE_ACTIVE = (?f AND NOT UV_HANDLE_ACTIVE) OR UV_HANDLE_CLOSING" "(?f OR UV_HANDLE_CLOSING) AND UV_HANDLE_ACTIVE = ?f AND UV_HANDLE_ACTIVE"
      "((?f AND NOT UV_HANDLE_ACTIVE) OR UV_HANDLE_CLOSING) AND UV_HANDLE_REF = (?f AND NOT UV_HANDLE_ACTIVE) AND UV_HANDLE_REF"
    by (simp_all add: flag_or flag_defs and.assoc)
  show ?thesis
    by (cases "lp_handles l a") (use f in \<open>simp add: uv__handle_stop_def Let_def mark_closing_def set_flags_def uv__active_handle_rm_def\<close>)
qed

lemma loop_upd_mark: "(mark_closing a cb l)\<lparr>lp_timer_heap := hp\<rparr> = mark_closing a cb (l\<lparr>lp_timer_heap := hp\<rparr>)" "(mark_closing a cb l)\<lparr>lp_queues := q\<rparr> = mark_closing a cb (l\<lparr>lp_queues := q\<rparr>)"
  by (simp_all add: mark_closing_def Let_def set_flags_def)

lemma timer_stop_mark: "uv_timer_stop l a = Some (c, l1) \<Longrightarrow> uv_timer_stop (mark_closing a cb l) a = Some (c, mark_closing a cb l1)"
  by (auto simp: uv_timer_stop_def loop_upd_mark handle_stop_mark split: if_splits option.splits)

lemma watcher_stop_mark: "uv_watcher_stop l a = (c, l1) \<Longrightarrow> uv_watcher_stop (mark_closing a cb l) a = (c, mark_closing a cb l1)"
  by (auto simp: uv_watcher_stop_def loop_upd_mark handle_stop_mark split: if_splits)

lemma uv_close_eq:
  assumes "\<not> uv__is_closing l a"
  shows "uv_close l a cb =
    Option.bind (case h_type (lp_handles l a) of UV_TIMER \<Rightarrow> uv__timer_close (mark_closing a cb l) a | _ \<Rightarrow> Some (uv__watcher_close (mark_closing a cb l) a))
      (\<lambda>l. uv__make_close_pending l a)"
  using assms by (cases "h_type (lp_handles l a)") (simp_all add: uv_close_def mark_closing_def Let_def)

text \<open>An inactive handle is marked and goes to the front of the list of handles to be closed.\<close>

lemma loop_ok_pending:
  assumes ok: "loop_ok l H hs F ps" and a: "a \<in> H" "\<not> uv__is_active l a" "\<not> uv__is_closing l a"
  shows "\<exists>l'. uv__make_close_pending (mark_closing a cb l) a = Some l' \<and> loop_ok l' H hs F (a # ps)"
proof -
  let ?m = "mark_closing a cb l"
  define l' where "l' = ?m\<lparr>lp_handles := (lp_handles ?m)(a := (lp_handles ?m a)\<lparr>h_next_closing := lp_closing_handles l\<rparr>), lp_closing_handles := Some a\<rparr>"
  have "\<not> handle_closed ?m a" using loop_okD(9) [OF ok a(1)] by simp
  then have pend: "uv__make_close_pending ?m a = Some l'" by (simp add: uv__make_close_pending_def l'_def handle_closed_def flag_defs or_eq_0_iff flag_or)
  have st: "uv__is_active l' x = uv__is_active l x" "uv__has_ref l' x = uv__has_ref l x" "handle_closed l' x = handle_closed l x" "uv__is_closing l' x \<longleftrightarrow> x = a \<or> uv__is_closing l x"
      "h_type (lp_handles l' x) = h_type (lp_handles l x)" for x
  proof -
    have f: "flags_of l' x = flags_of ?m x" for x by (simp add: l'_def)
    have "uv__is_active l' x = uv__is_active ?m x" "uv__has_ref l' x = uv__has_ref ?m x" "handle_closed l' x = handle_closed ?m x" "uv__is_closing l' x = uv__is_closing ?m x"
      unfolding uv__is_active_def uv__has_ref_def handle_closed_def uv__is_closing_def f by simp_all
    then show "uv__is_active l' x = uv__is_active l x" "uv__has_ref l' x = uv__has_ref l x" "handle_closed l' x = handle_closed l x" "uv__is_closing l' x \<longleftrightarrow> x = a \<or> uv__is_closing l x" by simp_all
    show "h_type (lp_handles l' x) = h_type (lp_handles l x)" by (simp add: l'_def)
  qed
  have fields: "lp_timers l' = lp_timers l" "lp_timer_heap l' = lp_timer_heap l" "lp_queues l' = lp_queues l" "lp_watcher_cb l' = lp_watcher_cb l"
    "lp_closing_handles l' = Some a" "h_next_closing (lp_handles l' a) = lp_closing_handles l" "\<And>x. x \<noteq> a \<Longrightarrow> h_next_closing (lp_handles l' x) = h_next_closing (lp_handles l x)"
    by (simp_all add: l'_def)
  have "lp_active_handles l' = lp_active_handles l" by (simp add: l'_def)
  then have cnt: "count_ok l' H" using loop_okD(10) [OF ok] a(2) by (auto simp: count_ok_def live_handles_def st)
  have "timers_ok l' H" by (rule timers_congI [OF loop_okD(1) [OF ok] cnt fields(1,2)]) (simp_all add: st)
  moreover have "watchers_ok l' H UV_IDLE F" by (rule watchers_congI [OF loop_okD(2) [OF ok] cnt fields(3,4)]) (use loop_okD(3,11) [OF ok] in \<open>auto simp: st\<close>)
  moreover have new: "a \<notin> set ps" using loop_okD(8) [OF ok] a(3) by blast
  moreover have "closing_list l' (lp_closing_handles l) ps" by (rule closing_list_cong [OF loop_okD(6) [OF ok] fields(7)]) (use new in auto)
  ultimately have "loop_ok l' H hs F (a # ps)" using ok a(1) fields(5,6) unfolding loop_ok_def by (auto simp: st)
  then show ?thesis using pend by blast
qed

lemma loop_ok_close:
  assumes ok: "loop_ok l H hs F ps" and a: "a \<in> H" "\<not> uv__is_closing l a"
  shows "\<exists>l' F'. uv_close l a cb = Some l' \<and> loop_ok l' H hs F' (a # ps)"
proof -
  have "\<exists>l1 F1. (case h_type (lp_handles l a) of UV_TIMER \<Rightarrow> uv__timer_close (mark_closing a cb l) a | _ \<Rightarrow> Some (uv__watcher_close (mark_closing a cb l) a)) = Some (mark_closing a cb l1) \<and>
      loop_ok l1 H hs F1 ps \<and> \<not> uv__is_active l1 a \<and> \<not> uv__is_closing l1 a"
  proof (cases "h_type (lp_handles l a) = UV_TIMER")
    case True
    obtain l1 where l1: "uv_timer_stop l a = Some (0, l1)" "timers_ok l1 H" "timer_frame l l1" "\<And>x. uv__is_active l1 x \<longleftrightarrow> x \<noteq> a \<and> uv__is_active l x"
      by (rule uv_timer_stop_spec [OF loop_okD(1) [OF ok] a(1) True]) blast
    have "uv__timer_close (mark_closing a cb l) a = Some (mark_closing a cb l1)" using timer_stop_mark [OF l1(1), of cb] by (simp add: uv__timer_close_def)
    then show ?thesis using True loop_ok_timer_op [OF ok l1(2,3)] l1(3,4) a(2) by (auto simp: timer_frame_def)
  next
    case False
    obtain c l1 where l1: "uv_watcher_stop l a = (c, l1)" by fastforce
    have "uv__watcher_close (mark_closing a cb l) a = mark_closing a cb l1" using watcher_stop_mark [OF l1, of cb] by (simp add: uv__watcher_close_def)
    moreover have "\<not> uv__is_closing l1 a" using stop_state(2) [of l a a] l1 a(2) by simp
    ultimately show ?thesis using False loop_ok_watcher_stop [OF ok a(1) False l1] by (cases "h_type (lp_handles l a)") auto
  qed
  then obtain l1 F1 where 1: "(case h_type (lp_handles l a) of UV_TIMER \<Rightarrow> uv__timer_close (mark_closing a cb l) a | _ \<Rightarrow> Some (uv__watcher_close (mark_closing a cb l) a)) = Some (mark_closing a cb l1)"
      "loop_ok l1 H hs F1 ps" "\<not> uv__is_active l1 a" "\<not> uv__is_closing l1 a" by blast
  then show ?thesis unfolding uv_close_eq [OF a(2)] 1(1) using loop_ok_pending [OF 1(2) a(1) 1(3,4), of cb] by auto
qed

section \<open>Finishing the closing of handles\<close>

text \<open>While the list of handles to be closed is run through, the rest of it is at a pointer \<open>p\<close> of the function.\<close>

lemma loop_ok_at:
  "loop_ok (l\<lparr>lp_closing_handles := p\<rparr>) H hs F ps \<longleftrightarrow> timers_ok l H \<and> watchers_ok l H UV_IDLE F \<and> F Local_queue = None \<and> F (Loop_watchers UV_TIMER) = None \<and>
     F Loop_handles = Some (map Handle_link hs) \<and> set hs = H \<and> closing_list l p ps \<and> distinct ps \<and> set ps = {a \<in> H. uv__is_closing l a} \<and> (\<forall>a \<in> H. \<not> handle_closed l a)"
proof -
  let ?l = "l\<lparr>lp_closing_handles := p\<rparr>"
  have h: "uv__is_active ?l x = uv__is_active l x" "uv__is_closing ?l x = uv__is_closing l x" "handle_closed ?l x = handle_closed l x" "uv__has_ref ?l x = uv__has_ref l x" for x
    by (simp_all add: uv__is_active_def uv__is_closing_def handle_closed_def uv__has_ref_def)
  have c: "count_ok ?l H = count_ok l H" by (simp add: count_ok_def live_handles_def h)
  have t: "timers_ok ?l H = timers_ok l H" by (simp add: timers_ok_def c active_timers_def h)
  have n: "node_ok ?l H k g x = node_ok l H k g x" for k g x by (cases g; cases x) (simp_all add: node_ok_def h)
  have w: "watchers_ok ?l H UV_IDLE F = watchers_ok l H UV_IDLE F" by (simp add: watchers_ok_def c n h)
  have "closing_list ?l q ps = closing_list l q ps" for q by (rule iffI; erule closing_list_cong; simp)
  then show ?thesis by (simp add: loop_ok_def t w h)
qed

lemma finish_fields:
  assumes "flags_of l a AND UV_HANDLE_CLOSING \<noteq> 0"
    and l': "l' = (uv__handle_unref (set_flags a (flags_of l a OR UV_HANDLE_CLOSED) l) a)\<lparr>lp_queues := QUEUE_REMOVE (Handle_link a) (lp_queues l)\<rparr>"
  shows "lp_active_handles l' = lp_active_handles l" "lp_timers l' = lp_timers l" "lp_timer_heap l' = lp_timer_heap l" "lp_watcher_cb l' = lp_watcher_cb l" "lp_closing_handles l' = lp_closing_handles l"
    "h_type (lp_handles l' x) = h_type (lp_handles l x)" "h_next_closing (lp_handles l' x) = h_next_closing (lp_handles l x)" "h_close_cb (lp_handles l' x) = h_close_cb (lp_handles l x)"
    "uv__is_active l' x = uv__is_active l x" "uv__is_closing l' x \<longleftrightarrow> x = a \<or> uv__is_closing l x" "handle_closed l' x \<longleftrightarrow> x = a \<or> handle_closed l x" "x \<noteq> a \<Longrightarrow> uv__has_ref l' x = uv__has_ref l x"
proof -
  let ?s = "set_flags a (flags_of l a OR UV_HANDLE_CLOSED) l"
  have c: "flags_of (uv__handle_unref ?s a) a AND UV_HANDLE_CLOSING \<noteq> 0" using assms(1) by (simp add: handle_macros Let_def flag_defs flag_or and.assoc)
  show "lp_active_handles l' = lp_active_handles l" using assms(1) by (simp add: l' uv__handle_unref_def Let_def flag_defs flag_or and.assoc)
  have q: "uv__is_active l' x = uv__is_active (uv__handle_unref ?s a) x" "uv__is_closing l' x = uv__is_closing (uv__handle_unref ?s a) x" "handle_closed l' x = handle_closed (uv__handle_unref ?s a) x"
      "uv__has_ref l' x = uv__has_ref (uv__handle_unref ?s a) x"
    by (simp_all add: l' queue_cb_flags uv__has_ref_def)
  show "uv__is_active l' x = uv__is_active l x" unfolding q handle_unref_flags by (auto simp: uv__is_active_def flag_defs flag_or)
  show "uv__is_closing l' x \<longleftrightarrow> x = a \<or> uv__is_closing l x" unfolding q handle_unref_flags by (auto simp: uv__is_closing_def flag_defs flag_or or_eq_0_iff)
  show "handle_closed l' x \<longleftrightarrow> x = a \<or> handle_closed l x" unfolding q handle_closed_flags by (auto simp: handle_closed_def flag_defs flag_or or_eq_0_iff)
  show "uv__has_ref l' x = uv__has_ref l x" if "x \<noteq> a" using that unfolding q handle_unref_flags by (auto simp: uv__has_ref_def)
qed (simp_all add: l')

lemma finish_close_ok:
  assumes ok: "loop_ok (l\<lparr>lp_closing_handles := Some a\<rparr>) H hs F (a # ps)"
  obtains l' us vs where "uv__finish_close ev w l a = Some (case h_close_cb (lp_handles l a) of None \<Rightarrow> (w, l') | Some cb \<Rightarrow> ev_close ev cb a w l')" "hs = us @ a # vs"
    "loop_ok (l'\<lparr>lp_closing_handles := h_next_closing (lp_handles l a)\<rparr>) (H - {a}) (us @ vs) (F(Loop_handles := Some (map Handle_link (us @ vs)))) ps"
    "lp_closing_handles l' = lp_closing_handles l" "handle_closed l' a" "\<And>x. h_close_cb (lp_handles l' x) = h_close_cb (lp_handles l x)" "\<And>x. x \<noteq> a \<Longrightarrow> handle_closed l' x = handle_closed l x"
proof -
  note at = ok [unfolded loop_ok_at]
  have t: "timers_ok l H" and w: "watchers_ok l H UV_IDLE F" and hs: "F Loop_handles = Some (map Handle_link hs)" "set hs = H" and ps: "closing_list l (Some a) (a # ps)" "distinct (a # ps)" "set (a # ps) = {x \<in> H. uv__is_closing l x}"
    and nc: "\<And>x. x \<in> H \<Longrightarrow> \<not> handle_closed l x" using at by blast+
  have a: "a \<in> H" "uv__is_closing l a" using ps(3) by auto
  have na: "\<not> uv__is_active l a" using timers_okD(1) [OF t] a by (auto simp: count_ok_def)
  have cl: "flags_of l a AND UV_HANDLE_CLOSED = 0" using nc [OF a(1)] by (simp add: handle_closed_def)
  then have cg: "flags_of l a AND UV_HANDLE_CLOSING \<noteq> 0"
    using a(2) bit.conj_disj_distrib [of "flags_of l a" UV_HANDLE_CLOSING UV_HANDLE_CLOSED] by (auto simp: uv__is_closing_def)
  obtain us vs where uv: "hs = us @ a # vs" using split_list [of a hs] a(1) hs(2) by blast
  define l' where "l' = (uv__handle_unref (set_flags a (flags_of l a OR UV_HANDLE_CLOSED) l) a)\<lparr>lp_queues := QUEUE_REMOVE (Handle_link a) (lp_queues l)\<rparr>"
  note f = finish_fields [OF cg l'_def]
  let ?G = "F(Loop_handles := Some (map Handle_link (us @ vs)))"
  have "uv__finish_close ev w l a = Some (case h_close_cb (lp_handles l' a) of None \<Rightarrow> (w, l') | Some cb \<Rightarrow> ev_close ev cb a w l')"
    unfolding uv__finish_close_def using cg cl by (simp add: l'_def Let_def split: option.split)
  then have fin: "uv__finish_close ev w l a = Some (case h_close_cb (lp_handles l a) of None \<Rightarrow> (w, l') | Some cb \<Rightarrow> ev_close ev cb a w l')" unfolding f(8) .
  have ne: "x \<noteq> a" if "uv__is_active l x" for x using na that by blast
  have live: "live_handles l' (H - {a}) = live_handles l H" unfolding live_handles_def using f(9,12) ne by blast
  have cnt: "count_ok l' (H - {a})" using timers_okD(1) [OF t] f(10) unfolding count_ok_def live f(1,9) by auto
  have act: "active_timers l' (H - {a}) = active_timers l H" using na by (auto simp: active_timers_def f)
  have "card (H - {a}) < 2 ^ 32" using timers_okD(2,3) [OF t] a(1) by simp
  then have t': "timers_ok l' (H - {a})" using t cnt unfolding timers_ok_def act f(2,3) by simp
  have r: "rings (lp_queues l') ?G" using uv_queue.take_lists [OF watchers_okD(2) [OF w], of Loop_handles "map Handle_link us" "Handle_link a" "map Handle_link vs"] hs(1) uv by (simp add: l'_def)
  have nodes: "ring_nodes ?G = ring_nodes F - {Handle_link a}"
  proof -
    have "distinct (Loop_handles # map Handle_link hs)" by (rule uv_queue.lists_distinct [OF watchers_okD(2) [OF w] hs(1)])
    then have "Handle_link a \<notin> set (map Handle_link (us @ vs))" using uv by auto
    moreover have "set (map Handle_link hs) \<subseteq> ring_nodes F" using hs(1) unfolding ring_nodes_def by (auto intro!: exI [of _ Loop_handles])
    ultimately show ?thesis using uv_queue.nodes_upd [OF hs(1) watchers_okD(2) [OF w], of "map Handle_link (us @ vs)"] uv by auto
  qed
  have d: "distinct hs" using uv_queue.lists_distinct [OF watchers_okD(2) [OF w] hs(1)] by (simp add: distinct_map)
  have wl: "Watcher_link a \<notin> ring_nodes F" by (rule inactive_not_listed [OF w na])
  have "node_ok l' (H - {a}) UV_IDLE h x" if h: "?G h = Some xs" and x: "x \<in> set xs" for h xs x
  proof (cases "h = Loop_handles")
    case True
    then show ?thesis using h x uv d hs(2) by (auto simp: node_ok_def)
  next
    case False
    then have F: "F h = Some xs" using h by simp
    then have "x \<in> ring_nodes F" using x unfolding ring_nodes_def by auto
    then have "x \<noteq> Watcher_link a" using wl by blast
    then show ?thesis using watchers_okD(7) [OF w F x] False by (cases h; cases x) (auto simp: node_ok_def f)
  qed
  moreover have "?G (Loop_watchers j) \<noteq> None" if "j \<noteq> UV_TIMER" for j using watchers_okD(3) [OF w that] by auto
  moreover have "?G (Handle_link b) = None \<and> ?G (Watcher_link b) = None \<and> ?G (Pending_link b) = None" for b using watchers_okD(4-6) [OF w] by simp
  moreover have "Watcher_link x \<in> ring_nodes ?G \<and> lp_watcher_cb l' x \<noteq> None" if "x \<in> H - {a}" "h_type (lp_handles l' x) \<noteq> UV_TIMER" "uv__is_active l' x" for x
    using that watchers_okD(8,9) [OF w, of x] unfolding nodes f by auto
  ultimately have w': "watchers_ok l' (H - {a}) UV_IDLE ?G" using cnt r unfolding watchers_ok_def by blast
  have "closing_list l' (h_next_closing (lp_handles l a)) ps" by (rule closing_list_cong [of l]) (use ps(1) f(7) in auto)
  moreover have "set ps = {x \<in> H - {a}. uv__is_closing l' x}" using ps(2,3) by (auto simp: f(10))
  ultimately have "loop_ok (l'\<lparr>lp_closing_handles := h_next_closing (lp_handles l a)\<rparr>) (H - {a}) (us @ vs) ?G ps"
    unfolding loop_ok_at using t' w' at uv d nc ps(2) by (auto simp: f(11))
  then show ?thesis using that [OF fin uv _ f(5)] f(8,11) by blast
qed
text \<open>The loop over the list, when the close callbacks only change what is outside the loop.\<close>

lemma finish_closing_ok:
  assumes only: "\<And>cb a w l. ev_close ev cb a w l = (g a w, l)"
  shows "loop_ok (l\<lparr>lp_closing_handles := p\<rparr>) H hs F ps \<Longrightarrow> lp_closing_handles l = None \<Longrightarrow>
    \<exists>l' hs' F'. finish_closing ev w l p = Some (fold g (filter (\<lambda>a. h_close_cb (lp_handles l a) \<noteq> None) ps) w, l') \<and> loop_ok l' (H - set ps) hs' F' [] \<and> (\<forall>a \<in> set ps. handle_closed l' a)
      \<and> (\<forall>x. x \<notin> set ps \<longrightarrow> handle_closed l' x = handle_closed l x)"
proof (induction ps arbitrary: l p H hs F w)
  case Nil
  from Nil.prems(1) have "p = None" using loop_okD(6) by fastforce
  moreover have "l\<lparr>lp_closing_handles := None\<rparr> = l" using Nil.prems(2) by (cases l) simp
  ultimately have "finish_closing ev w l p = Some (w, l)" "loop_ok l H hs F []" using Nil.prems(1) by (simp_all add: finish_closing.simps [of ev w l None])
  then show ?case by auto
next
  case (Cons a ps)
  have p: "p = Some a" using loop_okD(6) [OF Cons.prems(1)] by simp
  have n: "a \<notin> set ps" using loop_okD(7) [OF Cons.prems(1)] by simp
  obtain l' us vs where f: "uv__finish_close ev w l a = Some (case h_close_cb (lp_handles l a) of None \<Rightarrow> (w, l') | Some cb \<Rightarrow> ev_close ev cb a w l')"
      "loop_ok (l'\<lparr>lp_closing_handles := h_next_closing (lp_handles l a)\<rparr>) (H - {a}) (us @ vs) (F(Loop_handles := Some (map Handle_link (us @ vs)))) ps"
      "lp_closing_handles l' = lp_closing_handles l" "handle_closed l' a" "\<And>x. h_close_cb (lp_handles l' x) = h_close_cb (lp_handles l x)" "\<And>x. x \<noteq> a \<Longrightarrow> handle_closed l' x = handle_closed l x"
    by (rule finish_close_ok [OF Cons.prems(1) [unfolded p], of ev w]) blast
  let ?w = "if h_close_cb (lp_handles l a) = None then w else g a w"
  have u: "uv__finish_close ev w l a = Some (?w, l')" unfolding f(1) only by (auto split: option.split)
  obtain l'' hs' F' where r: "finish_closing ev ?w l' (h_next_closing (lp_handles l a)) = Some (fold g (filter (\<lambda>a. h_close_cb (lp_handles l' a) \<noteq> None) ps) ?w, l'')"
      "loop_ok l'' (H - {a} - set ps) hs' F' []" "\<forall>x \<in> set ps. handle_closed l'' x" "\<forall>x. x \<notin> set ps \<longrightarrow> handle_closed l'' x = handle_closed l' x"
    using Cons.IH [OF f(2), of ?w] f(3) Cons.prems(2) by auto
  have e: "finish_closing ev w l p = Some (fold g (filter (\<lambda>a. h_close_cb (lp_handles l a) \<noteq> None) (a # ps)) w, l'')"
    using r(1) unfolding p finish_closing.simps [of ev w l] by (simp add: u Let_def f(5))
  have s: "H - {a} - set ps = H - set (a # ps)" by auto
  have c: "\<forall>x \<in> set (a # ps). handle_closed l'' x" using r(3,4) f(4) n by auto
  have d: "\<forall>x. x \<notin> set (a # ps) \<longrightarrow> handle_closed l'' x = handle_closed l x" using r(4) f(6) by auto
  show ?case using e r(2) c d unfolding s by blast
qed

lemma run_closing_ok:
  assumes ok: "loop_ok l H hs F ps" and only: "\<And>cb a w l. ev_close ev cb a w l = (g a w, l)"
  obtains l' hs' F' where "uv__run_closing_handles ev w l = Some (fold g (filter (\<lambda>a. h_close_cb (lp_handles l a) \<noteq> None) ps) w, l')" "loop_ok l' (H - set ps) hs' F' []"
    "\<forall>a \<in> set ps. handle_closed l' a" "\<forall>x. x \<notin> set ps \<longrightarrow> handle_closed l' x = handle_closed l x"
proof -
  let ?l = "l\<lparr>lp_closing_handles := None\<rparr>"
  have "loop_ok (?l\<lparr>lp_closing_handles := lp_closing_handles l\<rparr>) H hs F ps" using ok by simp
  from finish_closing_ok [OF only this, of w] obtain l' hs' F' where
      "finish_closing ev w ?l (lp_closing_handles l) = Some (fold g (filter (\<lambda>a. h_close_cb (lp_handles ?l a) \<noteq> None) ps) w, l')" "loop_ok l' (H - set ps) hs' F' []"
      "\<forall>a \<in> set ps. handle_closed l' a" "\<forall>x. x \<notin> set ps \<longrightarrow> handle_closed l' x = handle_closed ?l x" by auto
  moreover have "handle_closed ?l x = handle_closed l x" for x by (rule handles_cong(4)) simp
  ultimately show ?thesis using that [of l' hs' F'] unfolding uv__run_closing_handles_def by simp
qed
section \<open>The interface as a step relation\<close>

text \<open>The calls of the interface, and what the loop does between them with callbacks that only record their handle.\<close>

datatype uv_op =
    Timer_init addr
  | Watcher_init uv_handle_type addr
  | Timer_start addr "uv_cb option" uint64 uint64
  | Timer_stop addr
  | Timer_again addr
  | Timer_set_repeat addr uint64
  | Watcher_start addr "uv_cb option"
  | Watcher_stop addr
  | Ref addr
  | Unref addr
  | Close addr "uv_cb option"
  | Update_time uint64
  | Run_timers
  | Run_closing

definition log_env :: "addr list uv_env" where
  "log_env = \<lparr>ev_call = log_call, ev_close = \<lambda>cb a w l. (w @ [a], l), ev_io = \<lambda>a w l. (w, l), ev_poll = \<lambda>t w l. (w, l), ev_hrtime = \<lambda>w. 0\<rparr>"

fun exec_op :: "uv_loop \<Rightarrow> uv_op \<Rightarrow> uv_loop option" where
  "exec_op l (Timer_init a) = Some (snd (uv_timer_init l a))"
| "exec_op l (Watcher_init k a) = Some (snd (uv_watcher_init k l a))"
| "exec_op l (Timer_start a cb t r) = map_option snd (uv_timer_start l a cb t r)"
| "exec_op l (Timer_stop a) = map_option snd (uv_timer_stop l a)"
| "exec_op l (Timer_again a) = map_option snd (uv_timer_again l a)"
| "exec_op l (Timer_set_repeat a r) = Some (uv_timer_set_repeat l a r)"
| "exec_op l (Watcher_start a cb) = Some (snd (uv_watcher_start (h_type (lp_handles l a)) l a cb))"
| "exec_op l (Watcher_stop a) = Some (snd (uv_watcher_stop l a))"
| "exec_op l (Ref a) = Some (uv_ref l a)"
| "exec_op l (Unref a) = Some (uv_unref l a)"
| "exec_op l (Close a cb) = uv_close l a cb"
| "exec_op l (Update_time t) = Some (uv__update_time t l)"
| "exec_op l Run_timers = map_option snd (uv__run_timers log_call [] l)"
| "exec_op l Run_closing = map_option snd (uv__run_closing_handles log_env [] l)"

text \<open>
  What the documentation asks of the caller: a handle is initialised before it is used and once, an operation gets a handle of its
  type, a watcher that is being closed is not started and a handle is closed once.
\<close>

fun op_allowed :: "uv_loop \<Rightarrow> addr set \<Rightarrow> uv_op \<Rightarrow> bool" where
  "op_allowed l H (Timer_init a) \<longleftrightarrow> a \<notin> H \<and> card H + 1 < 2 ^ 32"
| "op_allowed l H (Watcher_init k a) \<longleftrightarrow> a \<notin> H \<and> card H + 1 < 2 ^ 32 \<and> k \<noteq> UV_TIMER"
| "op_allowed l H (Timer_start a cb t r) \<longleftrightarrow> a \<in> H \<and> h_type (lp_handles l a) = UV_TIMER"
| "op_allowed l H (Timer_stop a) \<longleftrightarrow> a \<in> H \<and> h_type (lp_handles l a) = UV_TIMER"
| "op_allowed l H (Timer_again a) \<longleftrightarrow> a \<in> H \<and> h_type (lp_handles l a) = UV_TIMER"
| "op_allowed l H (Timer_set_repeat a r) \<longleftrightarrow> a \<in> H \<and> h_type (lp_handles l a) = UV_TIMER"
| "op_allowed l H (Watcher_start a cb) \<longleftrightarrow> a \<in> H \<and> h_type (lp_handles l a) \<noteq> UV_TIMER \<and> \<not> uv__is_closing l a"
| "op_allowed l H (Watcher_stop a) \<longleftrightarrow> a \<in> H \<and> h_type (lp_handles l a) \<noteq> UV_TIMER"
| "op_allowed l H (Ref a) \<longleftrightarrow> a \<in> H"
| "op_allowed l H (Unref a) \<longleftrightarrow> a \<in> H"
| "op_allowed l H (Close a cb) \<longleftrightarrow> a \<in> H \<and> \<not> uv__is_closing l a"
| "op_allowed l H (Update_time t) \<longleftrightarrow> True"
| "op_allowed l H Run_timers \<longleftrightarrow> lp_time l < - 1"
| "op_allowed l H Run_closing \<longleftrightarrow> True"

text \<open>The handles that are not closed after a call.\<close>

fun op_handles :: "uv_loop \<Rightarrow> addr set \<Rightarrow> uv_op \<Rightarrow> addr set" where
  "op_handles l H (Timer_init a) = insert a H"
| "op_handles l H (Watcher_init k a) = insert a H"
| "op_handles l H Run_closing = {a \<in> H. \<not> uv__is_closing l a}"
| "op_handles l H op = H"

inductive uv_reach :: "uv_loop \<Rightarrow> addr set \<Rightarrow> bool" where
  reach_init: "uv_reach (loop_init_fields t l) {}"
| reach_step: "uv_reach l H \<Longrightarrow> op_allowed l H op \<Longrightarrow> exec_op l op = Some l' \<Longrightarrow> uv_reach l' (op_handles l H op)"

definition loop_inv :: "uv_loop \<Rightarrow> addr set \<Rightarrow> bool" where
  "loop_inv l H \<longleftrightarrow> (\<exists>hs F ps. loop_ok l H hs F ps)"

lemma loop_inv_timers: "loop_inv l H \<Longrightarrow> timers_ok l H"
  by (auto simp: loop_inv_def dest: loop_okD(1))

lemma loop_inv_timer_op: "loop_inv l H \<Longrightarrow> timers_ok l' H \<Longrightarrow> timer_frame l l' \<Longrightarrow> loop_inv l' H"
  unfolding loop_inv_def using loop_ok_timer_op by blast

lemma timer_start_inv:
  assumes i: "loop_inv l H" and a: "a \<in> H" "h_type (lp_handles l a) = UV_TIMER"
  shows "\<exists>c l'. uv_timer_start l a cb t r = Some (c, l') \<and> loop_inv l' H \<and> timer_frame l l'"
proof (cases "uv__is_closing l a \<or> cb = None")
  case True
  then show ?thesis using i by (simp add: uv_timer_start_def)
next
  case False
  then obtain f where f: "cb = Some f" "\<not> uv__is_closing l a" by auto
  show ?thesis unfolding f(1) by (rule uv_timer_start_spec [OF loop_inv_timers [OF i] a f(2), of f t r]) (use loop_inv_timer_op [OF i] in blast)
qed

lemma timer_stop_inv:
  assumes i: "loop_inv l H" and a: "a \<in> H" "h_type (lp_handles l a) = UV_TIMER"
  shows "\<exists>c l'. uv_timer_stop l a = Some (c, l') \<and> loop_inv l' H \<and> timer_frame l l'"
  by (rule uv_timer_stop_spec [OF loop_inv_timers [OF i] a]) (use loop_inv_timer_op [OF i] in blast)

lemma timer_again_inv:
  assumes i: "loop_inv l H" and a: "a \<in> H" "h_type (lp_handles l a) = UV_TIMER"
  shows "\<exists>c l'. uv_timer_again l a = Some (c, l') \<and> loop_inv l' H"
proof -
  obtain c l1 where s: "uv_timer_stop l a = Some (c, l1)" "loop_inv l1 H" "timer_frame l l1" using timer_stop_inv [OF i a] by blast
  have ty: "h_type (lp_handles l1 a) = UV_TIMER" using s(3) a(2) by (simp add: timer_frame_def)
  obtain d l2 where "uv_timer_start l1 a (timer_cb (lp_timers l1 a)) (repeat (lp_timers l1 a)) (repeat (lp_timers l1 a)) = Some (d, l2)" "loop_inv l2 H"
    using timer_start_inv [OF s(2) a(1) ty] by blast
  then show ?thesis using i s(1) by (simp add: uv_timer_again_def)
qed

lemma set_repeat_inv:
  assumes i: "loop_inv l H"
  shows "loop_inv (uv_timer_set_repeat l a r) H"
proof (rule loop_inv_timer_op [OF i])
  let ?l = "uv_timer_set_repeat l a r"
  have h: "lp_handles ?l = lp_handles l" "lp_active_handles ?l = lp_active_handles l" by (simp_all add: uv_timer_set_repeat_def)
  have "timer_less_than (lp_timers ?l) = timer_less_than (lp_timers l)" by (intro ext) (auto simp: timer_less_than_def uv_timer_set_repeat_def Let_def)
  moreover have "active_timers ?l H = active_timers l H" by (simp add: active_timers_def handles_cong(1) [OF h(1)] h(1))
  moreover have "timer_cb (lp_timers ?l x) = timer_cb (lp_timers l x)" for x by (simp add: uv_timer_set_repeat_def)
  ultimately show "timers_ok ?l H" using loop_inv_timers [OF i] unfolding timers_ok_def handles_cong(5) [OF h] by (simp add: uv_timer_set_repeat_def)
  show "timer_frame l ?l" by (simp add: timer_frame_def handles_cong(1-4) [OF h(1)] h(1)) (simp add: uv_timer_set_repeat_def)
qed
lemma run_timers_inv:
  assumes i: "loop_inv l H" and now: "lp_time l < - 1"
  shows "\<exists>w l'. uv__run_timers log_call [] l = Some (w, l') \<and> loop_inv l' H"
proof -
  have "log_call cb a w l = (w @ [a], l)" for cb a w l by (simp add: log_call_def)
  from run_timers_passive [where call = log_call and g = "\<lambda>a t w. w @ [a]", OF this loop_inv_timers [OF i] now, of "[]"]
  show ?thesis using loop_inv_timer_op [OF i] by blast
qed

lemma run_closing_inv:
  assumes i: "loop_inv l H"
  shows "\<exists>ws l'. uv__run_closing_handles log_env [] l = Some (ws, l') \<and> loop_inv l' {a \<in> H. \<not> uv__is_closing l a} \<and> lp_closing_handles l' = None \<and>
     distinct ws \<and> set ws = {a \<in> H. uv__is_closing l a \<and> h_close_cb (lp_handles l a) \<noteq> None} \<and> (\<forall>a \<in> H. handle_closed l' a \<longleftrightarrow> uv__is_closing l a)"
proof -
  obtain hs F ps where ok: "loop_ok l H hs F ps" using i by (auto simp: loop_inv_def)
  have log: "ev_close log_env cb a w l = (w @ [a], l)" for cb a w l by (simp add: log_env_def)
  let ?ws = "filter (\<lambda>a. h_close_cb (lp_handles l a) \<noteq> None) ps"
  obtain l' hs' F' where r: "uv__run_closing_handles log_env [] l = Some (fold (\<lambda>a w. w @ [a]) ?ws [], l')" "loop_ok l' (H - set ps) hs' F' []"
      "\<forall>a \<in> set ps. handle_closed l' a" "\<forall>x. x \<notin> set ps \<longrightarrow> handle_closed l' x = handle_closed l x"
    by (rule run_closing_ok [where ev = log_env and g = "\<lambda>a w. w @ [a]" and w = "[]", OF ok log]) blast
  have ps: "set ps = {a \<in> H. uv__is_closing l a}" "distinct ps" using loop_okD(7,8) [OF ok] by auto
  have H: "H - set ps = {a \<in> H. \<not> uv__is_closing l a}" using ps(1) by auto
  have "lp_closing_handles l' = None" using loop_okD(6) [OF r(2)] by simp
  moreover have "\<forall>a \<in> H. handle_closed l' a \<longleftrightarrow> uv__is_closing l a" using r(3,4) ps(1) loop_okD(9) [OF ok] by blast
  moreover have "distinct ?ws" "set ?ws = {a \<in> H. uv__is_closing l a \<and> h_close_cb (lp_handles l a) \<noteq> None}" using ps by auto
  moreover have "loop_inv l' {a \<in> H. \<not> uv__is_closing l a}" using r(2) unfolding loop_inv_def H by blast
  moreover have "uv__run_closing_handles log_env [] l = Some (?ws, l')" using r(1) unfolding fold_log by simp
  ultimately show ?thesis by blast
qed

lemma exec_op_inv:
  assumes i: "loop_inv l H" and a: "op_allowed l H op"
  shows "\<exists>l'. exec_op l op = Some l' \<and> loop_inv l' (op_handles l H op)"
proof -
  obtain hs F ps where ok: "loop_ok l H hs F ps" using i by (auto simp: loop_inv_def)
  show ?thesis
  proof (cases op)
    case (Timer_init x)
    then show ?thesis using loop_ok_timer_init [OF ok, of x "fst (uv_timer_init l x)" "snd (uv_timer_init l x)"] a by (auto simp: loop_inv_def)
  next
    case (Watcher_init k x)
    then show ?thesis using loop_ok_watcher_init [OF ok, of x k "fst (uv_watcher_init k l x)" "snd (uv_watcher_init k l x)"] a by (auto simp: loop_inv_def)
  next
    case (Timer_start x cb t r)
    then show ?thesis using timer_start_inv [OF i, of x cb t r] a by auto
  next
    case (Timer_stop x)
    then show ?thesis using timer_stop_inv [OF i, of x] a by auto
  next
    case (Timer_again x)
    then show ?thesis using timer_again_inv [OF i, of x] a by auto
  next
    case (Timer_set_repeat x r)
    then show ?thesis using set_repeat_inv [OF i] by simp
  next
    case (Watcher_start x cb)
    then show ?thesis using loop_ok_watcher_start [OF ok, of x "h_type (lp_handles l x)" cb] a by (cases "uv_watcher_start (h_type (lp_handles l x)) l x cb") (auto simp: loop_inv_def)
  next
    case (Watcher_stop x)
    then show ?thesis using loop_ok_watcher_stop [OF ok, of x] a by (cases "uv_watcher_stop l x") (auto simp: loop_inv_def)
  next
    case (Ref x)
    then show ?thesis using loop_ok_ref(1) [OF ok, of x] a by (auto simp: loop_inv_def uv_ref_def)
  next
    case (Unref x)
    then show ?thesis using loop_ok_ref(2) [OF ok, of x] a by (auto simp: loop_inv_def uv_unref_def)
  next
    case (Close x cb)
    then show ?thesis using loop_ok_close [OF ok, of x cb] a by (auto simp: loop_inv_def)
  next
    case (Update_time t)
    then show ?thesis using loop_ok_time [OF ok, of t] by (auto simp: loop_inv_def)
  next
    case Run_timers
    then show ?thesis using run_timers_inv [OF i] a by auto
  next
    case Run_closing
    then show ?thesis using run_closing_inv [OF i] by auto
  qed
qed

lemma reach_inv: "uv_reach l H \<Longrightarrow> loop_inv l H"
proof (induction rule: uv_reach.induct)
  case (reach_init t l)
  then show ?case unfolding loop_inv_def using loop_ok_init by blast
next
  case (reach_step l H op l')
  then show ?case using exec_op_inv [of l H op] by auto
qed

lemma loop_inv_alive:
  assumes i: "loop_inv l H"
  shows "uv__loop_alive l \<longleftrightarrow> (\<exists>a \<in> H. uv__is_active l a \<and> uv__has_ref l a \<or> uv__is_closing l a) \<or> uv__has_active_reqs l"
proof -
  obtain hs F ps where ok: "loop_ok l H hs F ps" using i by (auto simp: loop_inv_def)
  note t = loop_okD(1) [OF ok]
  have sub: "live_handles l H \<subseteq> H" by (auto simp: live_handles_def)
  have "card (live_handles l H) < 2 ^ 32" using card_mono [OF timers_okD(2) [OF t] sub] timers_okD(3) [OF t] by linarith
  then have "unat (of_nat (card (live_handles l H)) :: uint32) = card (live_handles l H)" by (simp add: unat_of_nat)
  moreover have "lp_active_handles l = of_nat (card (live_handles l H))" using timers_okD(1) [OF t] by (simp add: count_ok_def)
  ultimately have "unat (lp_active_handles l) = card (live_handles l H)" by simp
  then have "uv__has_active_handles l \<longleftrightarrow> live_handles l H \<noteq> {}"
    using finite_subset [OF sub timers_okD(2) [OF t]] by (simp add: uv__has_active_handles_def word_less_nat_alt card_gt_0_iff)
  moreover have "lp_closing_handles l \<noteq> None \<longleftrightarrow> ps \<noteq> []" using loop_okD(6) [OF ok] by (cases ps) auto
  moreover have "ps \<noteq> [] \<longleftrightarrow> (\<exists>a \<in> H. uv__is_closing l a)" using loop_okD(8) [OF ok] by (cases ps) auto
  ultimately show ?thesis unfolding uv__loop_alive_def by (auto simp: live_handles_def)
qed
section \<open>The properties of the loop\<close>

text \<open>A loop with a timer that is being closed.\<close>

definition closing_loop :: uv_loop where
  "closing_loop = (case uv_close sample_loop 7 (Some 3) of Some l \<Rightarrow> l | None \<Rightarrow> sample_loop)"

lemma sample_loop_reach: "uv_reach sample_loop {7}" and closing_reach: "uv_reach closing_loop {7}"
  and closing_state: "uv_close sample_loop 7 (Some 3) = Some closing_loop" "uv__is_closing closing_loop 7" "h_close_cb (lp_handles closing_loop 7) = Some 3"
proof -
  show s: "uv_reach sample_loop {7}" using reach_step [OF reach_init [of 9000000 raw_loop], of "Timer_init 7" sample_loop] by (simp add: sample_loop_def)
  have c: "\<not> uv__is_closing sample_loop 7" "\<not> uv__is_active sample_loop 7" "h_type (lp_handles sample_loop 7) = UV_TIMER"
    using sample_loop_ok by (simp_all add: sample_loop_def uv_timer_init_def Let_def uv__is_active_def uv__handle_init_def flag_defs)
  show e: "uv_close sample_loop 7 (Some 3) = Some closing_loop"
    using exec_op_inv [OF reach_inv [OF s], of "Close 7 (Some 3)"] c by (auto simp: closing_loop_def)
  show "uv_reach closing_loop {7}" using reach_step [OF s, of "Close 7 (Some 3)" closing_loop] e c by simp
  have "uv_timer_stop (mark_closing 7 (Some 3) sample_loop) 7 = Some (0, mark_closing 7 (Some 3) sample_loop)" using c(2) by (simp add: uv_timer_stop_def)
  then have "uv__make_close_pending (mark_closing 7 (Some 3) sample_loop) 7 = Some closing_loop" using e c(3) unfolding uv_close_eq [OF c(1)] by (simp add: uv__timer_close_def)
  then have h: "lp_handles closing_loop 7 = (lp_handles (mark_closing 7 (Some 3) sample_loop) 7)\<lparr>h_next_closing := lp_closing_handles sample_loop\<rparr>"
    by (auto simp: uv__make_close_pending_def split: if_splits dest!: arg_cong [where f = "\<lambda>l. lp_handles l 7"])
  show "uv__is_closing closing_loop 7" using mark_closing_state(4) [of 7 "Some 3" sample_loop 7] by (simp add: uv__is_closing_def h)
  show "h_close_cb (lp_handles closing_loop 7) = Some 3" by (simp add: h mark_closing_def Let_def)
qed

text \<open>C29: A program that keeps to the documented rules never makes the loop fail an assertion, crash in the heap or not return from an operation, in any order of calls:
  in every reachable state every allowed operation returns, to a state with the invariant. And in every reachable state \<open>uv__loop_alive\<close>, which reads a counter
  and a pointer, is true exactly if some handle is active and referenced or waits to be closed, or a request is active: \<open>uv_run\<close> neither returns while
  it has work nor runs without any.\<close>

theorem reachable_safe:
  assumes "uv_reach l H"
  shows "loop_inv l H \<and> (\<forall>op. op_allowed l H op \<longrightarrow> (\<exists>l'. exec_op l op = Some l' \<and> loop_inv l' (op_handles l H op))) \<and>
    (uv__loop_alive l \<longleftrightarrow> (\<exists>a \<in> H. uv__is_active l a \<and> uv__has_ref l a \<or> uv__is_closing l a) \<or> uv__has_active_reqs l)"
  using reach_inv [OF assms] exec_op_inv loop_inv_alive [OF reach_inv [OF assms]] by blast

theorem reachable_safe_witness: "(\<exists>l'. exec_op sample_loop (Close 7 (Some 3)) = Some l' \<and> loop_inv l' {7}) \<and> uv__loop_alive closing_loop"
  using reachable_safe [OF sample_loop_reach] reachable_safe [OF closing_reach] sample_loop_ok(3) closing_state(2) by (auto dest!: spec [of _ "Close 7 (Some 3)"])



end
