(* ===== verification/Uv_Inet.thy ===== *)
theory Uv_Inet
  imports Uv_Loop
begin

text \<open>
  \<open>src/inet.c\<close> of libuv: Internet addresses as text. A C string is the list of its bytes before the null byte; its end is the end of the list. A function that
  fails gives its error code on the left.
\<close>

section \<open>Texts\<close>

definition AF_INET :: int where "AF_INET = 2"
definition AF_INET6 :: int where "AF_INET6 = 30"
definition UV_EAFNOSUPPORT :: int where "UV_EAFNOSUPPORT = - 47"
definition UV_ENOSPC :: int where "UV_ENOSPC = - 28"
definition UV_E2BIG :: int where "UV_E2BIG = - 7"
definition UV__INET_ADDRSTRLEN :: nat where "UV__INET_ADDRSTRLEN = 16"
definition UV__INET6_ADDRSTRLEN :: nat where "UV__INET6_ADDRSTRLEN = 46"

definition dot :: byte where "dot = 0x2E"
definition colon :: byte where "colon = 0x3A"
definition percent :: byte where "percent = 0x25"

definition digit_char :: "nat \<Rightarrow> byte" where
  "digit_char d = (if d < 10 then of_nat (0x30 + d) else of_nat (0x57 + d))"

text \<open>The conversions \<open>%u\<close> (base 10) and \<open>%x\<close> (base 16) of \<open>printf\<close>.\<close>

fun print_num :: "nat \<Rightarrow> nat \<Rightarrow> byte list" where
  "print_num b n = (if b < 2 \<or> n < b then [digit_char n] else print_num b (n div b) @ [digit_char (n mod b)])"

declare print_num.simps [simp del]

text \<open>The index that \<open>strchr\<close> finds in the strings of digits.\<close>

definition dec_digit :: "byte \<Rightarrow> nat option" where
  "dec_digit c = (if 0x30 \<le> c \<and> c \<le> 0x39 then Some (unat c - 0x30) else None)"

definition hex_digit :: "byte \<Rightarrow> nat option" where
  "hex_digit c =
     (if 0x30 \<le> c \<and> c \<le> 0x39 then Some (unat c - 0x30)
      else if 0x61 \<le> c \<and> c \<le> 0x66 then Some (unat c - 0x57)
      else if 0x41 \<le> c \<and> c \<le> 0x46 then Some (unat c - 0x37)
      else None)"

text \<open>\<open>uv__strscpy\<close> copies with the null byte into a buffer of \<open>n\<close> bytes; a text that does not fit is cut.\<close>

definition uv__strscpy :: "byte list \<Rightarrow> byte list \<Rightarrow> nat \<Rightarrow> int \<times> byte list" where
  "uv__strscpy d s n =
     (if length s < n then (int (length s), s @ [0] @ drop (length s + 1) d)
      else if n = 0 then (0, d)
      else (UV_E2BIG, take (n - 1) s @ [0] @ drop n d))"

section \<open>IPv4\<close>

definition dotted :: "byte list \<Rightarrow> byte list" where
  "dotted src =
     print_num 10 (unat (src ! 0)) @ [dot] @ print_num 10 (unat (src ! 1)) @ [dot] @ print_num 10 (unat (src ! 2)) @ [dot] @ print_num 10 (unat (src ! 3))"

text \<open>The buffer after the call. \<open>snprintf\<close> cuts what does not fit in \<open>tmp\<close> but returns the whole length.\<close>

definition inet_ntop4 :: "byte list \<Rightarrow> byte list \<Rightarrow> nat \<Rightarrow> int \<times> byte list" where
  "inet_ntop4 src dst n =
     (let text = dotted src; tmp = take (UV__INET_ADDRSTRLEN - 1) text
      in if n \<le> length text then (UV_ENOSPC, dst) else (0, snd (uv__strscpy dst tmp n)))"

text \<open>\<open>tmp\<close> are the octets up to the one at \<open>tp\<close>.\<close>

fun pton4_loop :: "byte list \<Rightarrow> bool \<Rightarrow> nat \<Rightarrow> byte list \<Rightarrow> int + byte list" where
  "pton4_loop [] saw_digit octets tmp = (if octets < 4 then Inl UV_EINVAL else Inr (take 4 tmp))"
| "pton4_loop (ch # src) saw_digit octets tmp =
     (case dec_digit ch of
        Some d \<Rightarrow>
          (let nw = unat (last tmp) * 10 + d in
           if saw_digit \<and> last tmp = 0 then Inl UV_EINVAL
           else if 255 < nw then Inl UV_EINVAL
           else if \<not> saw_digit \<and> 4 < octets + 1 then Inl UV_EINVAL
           else pton4_loop src True (if saw_digit then octets else octets + 1) (butlast tmp @ [of_nat nw]))
      | None \<Rightarrow>
          if ch = dot \<and> saw_digit then if octets = 4 then Inl UV_EINVAL else pton4_loop src False octets (tmp @ [0])
          else Inl UV_EINVAL)"

definition inet_pton4 :: "byte list \<Rightarrow> int + byte list" where
  "inet_pton4 src = pton4_loop src False 0 [0]"

section \<open>IPv6\<close>

text \<open>The eight groups of 16 bits.\<close>

definition inet_words :: "byte list \<Rightarrow> nat list" where
  "inet_words src = map (\<lambda>i. unat (src ! (2 * i)) * 256 + unat (src ! (2 * i + 1))) [0..<8]"

text \<open>A run of zero groups: where it starts and how long it is.\<close>

type_synonym run = "(nat \<times> nat) option"

definition better :: "run \<Rightarrow> run \<Rightarrow> run" where
  "better best cur = (case cur of None \<Rightarrow> best | Some (b, n) \<Rightarrow> (case best of None \<Rightarrow> cur | Some (b', n') \<Rightarrow> if n' < n then cur else best))"

fun find_run :: "nat list \<Rightarrow> nat \<Rightarrow> run \<Rightarrow> run \<Rightarrow> run" where
  "find_run [] i best cur = (case better best cur of Some (b, n) \<Rightarrow> if n < 2 then None else Some (b, n) | None \<Rightarrow> None)"
| "find_run (w # ws) i best cur =
     (if w = 0 then find_run ws (i + 1) best (case cur of None \<Rightarrow> Some (i, 1) | Some (b, n) \<Rightarrow> Some (b, n + 1))
      else find_run ws (i + 1) (better best cur) None)"

text \<open>The text from group \<open>i\<close> on; \<open>tmp\<close> is the text before. The second argument are the groups from \<open>i\<close> on.\<close>

fun format6 :: "byte list \<Rightarrow> nat list \<Rightarrow> run \<Rightarrow> nat \<Rightarrow> byte list \<Rightarrow> int + byte list" where
  "format6 src [] best i tmp = Inr (tmp @ (case best of Some (b, n) \<Rightarrow> if b + n = 8 then [colon] else [] | None \<Rightarrow> []))"
| "format6 src (w # ws) best i tmp =
     (case best of
        Some (b, n) \<Rightarrow>
          if b \<le> i \<and> i < b + n then format6 src ws best (i + 1) (if i = b then tmp @ [colon] else tmp)
          else let tmp' = (if i \<noteq> 0 then tmp @ [colon] else tmp) in
               if i = 6 \<and> b = 0 \<and> (n = 6 \<or> n = 7 \<and> inet_words src ! 7 \<noteq> 1 \<or> n = 5 \<and> inet_words src ! 5 = 0xFFFF)
               then if UV__INET6_ADDRSTRLEN - length tmp' \<le> length (dotted (drop 12 src)) then Inl UV_ENOSPC
                    else format6 src [] best 8 (tmp' @ dotted (drop 12 src))
               else format6 src ws best (i + 1) (tmp' @ print_num 16 w)
      | None \<Rightarrow> format6 src ws best (i + 1) ((if i \<noteq> 0 then tmp @ [colon] else tmp) @ print_num 16 w))"

definition inet_ntop6 :: "byte list \<Rightarrow> byte list \<Rightarrow> nat \<Rightarrow> (int \<times> byte list) option" where
  "inet_ntop6 src dst n =
     (case format6 src (inet_words src) (find_run (inet_words src) 0 None None) 0 [] of
        Inl e \<Rightarrow> Some (e, dst)
      | Inr text \<Rightarrow>
          if UV__INET6_ADDRSTRLEN \<le> length text then None
          else case uv__strscpy dst text n of (r, dst') \<Rightarrow> Some (if r = UV_E2BIG then UV_ENOSPC else 0, dst'))"

text \<open>\<open>outs\<close> are the bytes that are written at the start of \<open>tmp\<close>, which is zero from there on; \<open>colonp\<close> is an index in it. The result has them at the end of the text.\<close>

fun pton6_loop :: "byte list \<Rightarrow> byte list \<Rightarrow> nat \<Rightarrow> nat \<Rightarrow> byte list \<Rightarrow> nat option \<Rightarrow> int + nat \<times> nat \<times> byte list \<times> nat option" where
  "pton6_loop [] curtok seen val outs colonp = Inr (seen, val, outs, colonp)"
| "pton6_loop (ch # src) curtok seen val outs colonp =
     (case hex_digit ch of
        Some d \<Rightarrow> if 4 < seen + 1 then Inl UV_EINVAL else pton6_loop src curtok (seen + 1) (val * 16 + d) outs colonp
      | None \<Rightarrow>
          if ch = colon
          then (if seen = 0
                then (if colonp \<noteq> None then Inl UV_EINVAL else pton6_loop src src seen val outs (Some (length outs)))
                else if src = [] then Inl UV_EINVAL
                else if 16 < length outs + 2 then Inl UV_EINVAL
                else pton6_loop src src 0 0 (outs @ [of_nat (val div 256), of_nat val]) colonp)
          else if ch = dot \<and> length outs + 4 \<le> 16
          then (case inet_pton4 curtok of
                  Inr bs \<Rightarrow> Inr (0, val, outs @ bs, colonp)
                | Inl _ \<Rightarrow> Inl UV_EINVAL)
          else Inl UV_EINVAL)"

text \<open>The loop that moves the \<open>n\<close> bytes from \<open>colonp\<close> on to the end of \<open>tmp\<close>.\<close>

definition shift_by_hand :: "byte list \<Rightarrow> nat \<Rightarrow> nat \<Rightarrow> byte list" where
  "shift_by_hand tmp colonp n = fold (\<lambda>i t. t[16 - i := t ! (colonp + n - i), colonp + n - i := 0]) [1..<n + 1] tmp"

text \<open>After the handling of a leading colon.\<close>

definition pton6_body :: "byte list \<Rightarrow> int + byte list" where
  "pton6_body src =
     (case pton6_loop src src 0 0 [] None of
        Inl e \<Rightarrow> Inl e
      | Inr (seen, val, outs, colonp) \<Rightarrow>
          (if seen \<noteq> 0 \<and> 16 < length outs + 2 then Inl UV_EINVAL
           else let outs' = (if seen \<noteq> 0 then outs @ [of_nat (val div 256), of_nat val] else outs);
                    tmp = outs' @ replicate (16 - length outs') 0
                in case colonp of
                     Some c \<Rightarrow> if length outs' = 16 then Inl UV_EINVAL else Inr (shift_by_hand tmp c (length outs' - c))
                   | None \<Rightarrow> if length outs' \<noteq> 16 then Inl UV_EINVAL else Inr tmp))"

definition inet_pton6 :: "byte list \<Rightarrow> int + byte list" where
  "inet_pton6 src =
     (if take 1 src = [colon] then if take 1 (drop 1 src) \<noteq> [colon] then Inl UV_EINVAL else pton6_body (drop 1 src) else pton6_body src)"

section \<open>The interface\<close>

definition uv_inet_ntop :: "int \<Rightarrow> byte list \<Rightarrow> byte list \<Rightarrow> nat \<Rightarrow> (int \<times> byte list) option" where
  "uv_inet_ntop af src dst n =
     (if af = AF_INET then Some (inet_ntop4 src dst n)
      else if af = AF_INET6 then inet_ntop6 src dst n
      else Some (UV_EAFNOSUPPORT, dst))"

text \<open>A null pointer is \<open>None\<close>. A zone after a percent sign is cut off.\<close>

definition uv_inet_pton :: "int \<Rightarrow> byte list option \<Rightarrow> byte list option \<Rightarrow> int \<times> byte list option" where
  "uv_inet_pton af src dst =
     (case (src, dst) of
        (Some s, Some d) \<Rightarrow>
          (let finish = (\<lambda>r. case r of Inl e \<Rightarrow> (e, dst) | Inr bs \<Rightarrow> (0, Some (bs @ drop (length bs) d)))
           in if af = AF_INET then finish (inet_pton4 s)
              else if af = AF_INET6
              then (if percent \<in> set s
                    then (let p = takeWhile (\<lambda>c. c \<noteq> percent) s
                          in if UV__INET6_ADDRSTRLEN - 1 < length p then (UV_EINVAL, dst) else finish (inet_pton6 p))
                    else finish (inet_pton6 s))
              else (UV_EAFNOSUPPORT, dst))
      | _ \<Rightarrow> (UV_EINVAL, dst))"

section \<open>Digits\<close>

lemma unat_digit: "d < 16 \<Longrightarrow> unat (digit_char d) = (if d < 10 then 0x30 + d else 0x57 + d)"
proof -
  assume "d < 16"
  then have "(0x30 + d) mod 256 = 0x30 + d" "(0x57 + d) mod 256 = 0x57 + d" by simp_all
  then show ?thesis unfolding digit_char_def by (auto simp only: unat_of_nat_byte split: if_split)
qed

lemma digit_char_dec: "d < 10 \<Longrightarrow> dec_digit (digit_char d) = Some d"
  by (simp add: dec_digit_def unat_digit word_le_nat_alt)

lemma digit_char_hex: "d < 16 \<Longrightarrow> hex_digit (digit_char d) = Some d"
  by (simp add: hex_digit_def unat_digit word_le_nat_alt)

lemma dec_digit_char: "dec_digit c = Some d \<Longrightarrow> c = digit_char d \<and> d < 10"
  by (auto simp: dec_digit_def unat_digit word_le_nat_alt word_unat_eq_iff split: if_splits)

lemma separators [simp]: "dec_digit dot = None" "hex_digit dot = None" "hex_digit colon = None" "dot \<noteq> colon" "colon \<noteq> dot"
  by (simp_all add: dec_digit_def hex_digit_def dot_def colon_def)

lemma digit_no_separator: "d < 16 \<Longrightarrow> digit_char d \<noteq> dot \<and> digit_char d \<noteq> colon \<and> digit_char d \<noteq> percent \<and> digit_char d \<noteq> 0"
  by (simp add: word_unat_eq_iff unat_digit dot_def colon_def percent_def)

lemma print_num_nonempty [simp]: "print_num b n \<noteq> []"
  by (simp add: print_num.simps [of b n])

lemma print_num_digits: "2 \<le> b \<Longrightarrow> b \<le> 16 \<Longrightarrow> c \<in> set (print_num b n) \<Longrightarrow> \<exists>d < b. c = digit_char d"
proof (induction b n rule: print_num.induct)
  case (1 b n)
  show ?case
  proof (cases "n < b")
    case True
    then show ?thesis using 1 by (auto simp: print_num.simps [of b n])
  next
    case False
    then have "print_num b n = print_num b (n div b) @ [digit_char (n mod b)]" using 1(2) by (simp add: print_num.simps [of b n])
    moreover have "n mod b < b" using 1(2) by simp
    then have "\<exists>d < b. digit_char (n mod b) = digit_char d" by blast
    ultimately show ?thesis using 1 False by auto
  qed
qed

lemma print_num_length: "2 \<le> b \<Longrightarrow> n < b ^ Suc k \<Longrightarrow> length (print_num b n) \<le> Suc k"
proof (induction k arbitrary: n)
  case 0
  then show ?case by (simp add: print_num.simps [of b n])
next
  case (Suc k)
  then have "n div b < b ^ Suc k" by (simp add: less_mult_imp_div_less mult.commute)
  then show ?case using Suc.IH [of "n div b"] Suc.prems by (simp add: print_num.simps [of b n])
qed

lemma print_num_snoc: "0 < n \<Longrightarrow> d < b \<Longrightarrow> 2 \<le> b \<Longrightarrow> print_num b (n * b + d) = print_num b n @ [digit_char d]"
proof -
  assume n: "0 < n" "d < b" "2 \<le> b"
  have "1 * b \<le> n * b" using n(1) by (intro mult_le_mono1) simp
  then have "\<not> n * b + d < b" by (simp only: mult_1 not_less)
  then show ?thesis using n by (simp add: print_num.simps [of b "n * b + d"])
qed

section \<open>IPv4\<close>

text \<open>The part of the text that is read when \<open>tmp\<close> are the octets so far.\<close>

definition octets_text :: "byte list \<Rightarrow> bool \<Rightarrow> byte list" where
  "octets_text tmp saw = concat (map (\<lambda>b. print_num 10 (unat b) @ [dot]) (butlast tmp)) @ (if saw then print_num 10 (unat (last tmp)) else [])"

lemma dotted_list: "length bs = 4 \<Longrightarrow> dotted bs = octets_text bs True"
  by (auto simp: dotted_def octets_text_def length_Suc_conv numeral_eq_Suc)

lemma pton4_sound:
  assumes "pton4_loop src saw k tmp = Inr bs" and "tmp \<noteq> []" and "k = length tmp - (if saw then 0 else 1)" and "k \<le> 4" and "\<not> saw \<longrightarrow> last tmp = 0 \<and> k < 4"
  shows "length bs = 4 \<and> octets_text tmp saw @ src = dotted bs"
  using assms
proof (induction src saw k tmp rule: pton4_loop.induct)
  case (1 saw k tmp)
  then have "k = 4" "saw" "length tmp = 4" "bs = tmp" by (auto split: if_splits)
  then show ?case by (simp add: dotted_list)
next
  case (2 ch src saw k tmp)
  show ?case
  proof (cases "dec_digit ch")
    case None
    then have ch: "ch = dot" "saw" "k \<noteq> 4" "pton4_loop src False k (tmp @ [0]) = Inr bs" using 2(3) by (auto split: if_splits)
    have "length bs = 4 \<and> octets_text (tmp @ [0]) False @ src = dotted bs" by (rule 2(1) [OF None]) (use ch 2 in auto)
    moreover have "octets_text (tmp @ [0]) False = octets_text tmp saw @ [ch]" using ch 2(4) by (cases tmp rule: rev_cases) (auto simp: octets_text_def butlast_append)
    ultimately show ?thesis by simp
  next
    case (Some d)
    define nw where "nw = unat (last tmp) * 10 + d"
    define k' where "k' = (if saw then k else k + 1)"
    have c: "\<not> (saw \<and> last tmp = 0)" "nw \<le> 255" "\<not> (\<not> saw \<and> 4 < k + 1)" "pton4_loop src True k' (butlast tmp @ [of_nat nw]) = Inr bs"
      using 2(3) Some by (auto simp: nw_def k'_def Let_def split: if_splits)
    have d: "ch = digit_char d" "d < 10" using dec_digit_char [OF Some] by auto
    have u: "unat (of_nat nw :: byte) = nw" using c(2) by simp
    have "print_num 10 nw = (if saw then print_num 10 (unat (last tmp)) else []) @ [ch]"
    proof (cases saw)
      case True
      then have "0 < unat (last tmp)" using c(1) by (simp add: unat_gt_0)
      then show ?thesis using True d print_num_snoc [of "unat (last tmp)" d 10] by (simp add: nw_def)
    next
      case False
      then have "nw = d" using 2(7) by (simp add: nw_def)
      then show ?thesis using False d by (simp add: print_num.simps [of 10 d])
    qed
    then have t: "octets_text (butlast tmp @ [of_nat nw]) True = octets_text tmp saw @ [ch]" by (simp add: octets_text_def u del: unat_of_nat_byte)
    have "length bs = 4 \<and> octets_text (butlast tmp @ [of_nat nw]) True @ src = dotted bs"
      by (rule 2(2) [of d nw]) (use Some nw_def c [unfolded k'_def] 2(4-7) in \<open>auto simp: k'_def Suc_le_eq\<close>)
    then show ?thesis using t by simp
  qed
qed

lemma pton4_number:
  "n \<le> 255 \<Longrightarrow> k < 4 \<Longrightarrow> pton4_loop (print_num 10 n @ rest) False k (tmp @ [0]) = pton4_loop rest True (k + 1) (tmp @ [of_nat n])"
proof (induction "10 :: nat" n arbitrary: rest rule: print_num.induct)
  case (1 n)
  show ?case
  proof (cases "n < 10")
    case True
    then show ?thesis using 1(3) by (simp add: print_num.simps [of 10 n] digit_char_dec)
  next
    case False
    let ?m = "n div 10"
    have m: "?m \<le> 255" "unat (of_nat ?m :: byte) = ?m" "0 < ?m" using 1(2) False by auto
    then have z: "(of_nat ?m :: byte) \<noteq> 0" by (metis less_numeral_extra(3) unat_0)
    have "pton4_loop (print_num 10 n @ rest) False k (tmp @ [0]) = pton4_loop (digit_char (n mod 10) # rest) True (k + 1) (tmp @ [of_nat ?m])"
      using 1(1) [of "digit_char (n mod 10) # rest"] False m(1) 1(3) by (simp add: print_num.simps [of 10 n])
    also have "\<dots> = pton4_loop rest True (k + 1) (tmp @ [of_nat n])" using z m(2) 1(2) by (simp add: digit_char_dec Let_def)
    finally show ?thesis .
  qed
qed

lemma pton4_error: "pton4_loop src saw k tmp = Inl e \<Longrightarrow> e = UV_EINVAL"
  by (induction src saw k tmp rule: pton4_loop.induct) (auto simp: Let_def split: option.splits if_splits)

lemma pton4_dotted:
  assumes "length bs = 4"
  shows "inet_pton4 (dotted bs) = Inr bs"
proof -
  obtain a b c d where bs: "bs = [a, b, c, d]" using assms by (auto simp: length_Suc_conv numeral_eq_Suc)
  have le: "unat (x :: byte) \<le> 255" for x using byte_lt [of x] by linarith
  have n: "pton4_loop (print_num 10 (unat x) @ rest) False k (tmp @ [0]) = pton4_loop rest True (k + 1) (tmp @ [x])" if "k < 4" for x rest k tmp
    using pton4_number [OF le that, of x rest tmp] by simp
  note step = n [of 0 _ _ "[]"] n [of "Suc 0" _ _ "[a]"] n [of "Suc (Suc 0)" _ _ "[a, b]"] n [of "Suc (Suc (Suc 0))" _ "[]" "[a, b, c]"]
  show ?thesis using step by (simp add: inet_pton4_def dotted_def bs)
qed

lemma pton4_iff: "inet_pton4 src = Inr bs \<longleftrightarrow> length bs = 4 \<and> src = dotted bs"
  using pton4_sound [of src False 0 "[0]" bs] pton4_dotted [of bs] by (auto simp: inet_pton4_def octets_text_def)

lemma dotted_length: "length bs = 4 \<Longrightarrow> length (dotted bs) \<le> 15"
proof -
  assume "length bs = 4"
  have "unat (x :: byte) < 1000" for x using byte_lt [of x] by linarith
  then have "length (print_num 10 (unat (x :: byte))) \<le> 3" for x using print_num_length [of 10 "unat x" 2] by (simp add: eval_nat_numeral)
  from this [of "bs ! 0"] this [of "bs ! 1"] this [of "bs ! 2"] this [of "bs ! 3"] show ?thesis by (simp add: dotted_def)
qed

lemma dotted_chars: "c \<in> set (dotted bs) \<Longrightarrow> c \<noteq> 0 \<and> c \<noteq> percent \<and> c \<noteq> colon"
proof -
  have "\<exists>d < 10. c = digit_char d" if "c \<in> set (print_num 10 n)" for c n by (rule print_num_digits [OF _ _ that]) simp_all
  then have "c \<noteq> 0 \<and> c \<noteq> percent \<and> c \<noteq> colon" if "c \<in> set (print_num 10 n)" for c n
    using that digit_no_separator by (metis less_trans numeral_less_iff semiring_norm(76) semiring_norm(78) semiring_norm(81))
  moreover have "dot \<noteq> 0" "dot \<noteq> percent" "dot \<noteq> colon" by (simp_all add: dot_def percent_def colon_def)
  moreover assume "c \<in> set (dotted bs)"
  ultimately show ?thesis by (auto simp: dotted_def)
qed

section \<open>IPv6\<close>

text \<open>Groups with colons between them.\<close>

fun groups_text :: "nat list \<Rightarrow> byte list" where
  "groups_text [] = []"
| "groups_text [w] = print_num 16 w"
| "groups_text (w # ws) = print_num 16 w @ [colon] @ groups_text ws"

definition word_bytes :: "nat \<Rightarrow> byte list" where
  "word_bytes w = [of_nat (w div 256), of_nat w]"

lemma pton6_number:
  "n < 16 ^ k \<Longrightarrow> k \<le> 4 \<Longrightarrow> 0 < k \<Longrightarrow>
   pton6_loop (print_num 16 n @ rest) cur 0 0 outs cp = pton6_loop rest cur (length (print_num 16 n)) n outs cp \<and> 0 < length (print_num 16 n) \<and> length (print_num 16 n) \<le> k"
proof (induction k arbitrary: n rest)
  case (Suc k)
  show ?case
  proof (cases "n < 16")
    case True
    then show ?thesis by (simp add: print_num.simps [of 16 n] digit_char_hex)
  next
    case False
    then have k: "0 < k" using Suc.prems by (cases k) auto
    have n: "n div 16 < 16 ^ k" using Suc.prems(1) by (simp add: less_mult_imp_div_less mult.commute)
    note IH = Suc.IH [OF n _ k, of "digit_char (n mod 16) # rest"]
    have e: "print_num 16 n = print_num 16 (n div 16) @ [digit_char (n mod 16)]" using False by (simp add: print_num.simps [of 16 n])
    have l: "length (print_num 16 (n div 16)) \<le> k" "k < 4" using IH Suc.prems(2) by auto
    have "pton6_loop (digit_char (n mod 16) # rest) cur (length (print_num 16 (n div 16))) (n div 16) outs cp =
        pton6_loop rest cur (Suc (length (print_num 16 (n div 16)))) n outs cp" using l by (simp add: digit_char_hex)
    then show ?thesis using IH Suc.prems(2) l by (simp add: e)
  qed
qed simp

lemma groups_text_Cons: "groups_text (w # ws) = print_num 16 w @ concat (map (\<lambda>w. colon # print_num 16 w) ws)"
  by (induction ws arbitrary: w) auto

lemma groups_text_nonempty: "ws \<noteq> [] \<Longrightarrow> groups_text ws \<noteq> []"
  by (cases ws) (auto simp: groups_text_Cons)

lemma length_word_bytes [simp]: "length (word_bytes w) = 2"
  by (simp add: word_bytes_def)

lemma length_words_bytes [simp]: "length (concat (map word_bytes ws)) = 2 * length ws"
  by (induction ws) auto

lemma pton6_groups:
  "list_all (\<lambda>w. w < 65536) ws \<Longrightarrow> ws \<noteq> [] \<Longrightarrow> length outs + 2 * length ws \<le> 16 \<Longrightarrow>
   \<exists>cur' n. pton6_loop (groups_text ws @ rest) cur 0 0 outs cp = pton6_loop rest cur' n (last ws) (outs @ concat (map word_bytes (butlast ws))) cp \<and> 0 < n"
proof (induction ws arbitrary: cur outs)
  case (Cons w ws)
  have w: "w < 16 ^ 4" using Cons.prems(1) by simp
  note num = pton6_number [OF w, of _ cur outs cp]
  show ?case
  proof (cases "ws = []")
    case True
    then show ?thesis using num [of rest] by (intro exI [of _ cur] exI [of _ "length (print_num 16 w)"]) simp
  next
    case False
    then obtain v vs where ws: "ws = v # vs" by (cases ws) auto
    have ne: "groups_text ws \<noteq> []" using groups_text_nonempty [OF False] .
    have "pton6_loop (groups_text (w # ws) @ rest) cur 0 0 outs cp = pton6_loop (colon # groups_text ws @ rest) cur (length (print_num 16 w)) w outs cp"
      using num [of "colon # groups_text ws @ rest"] by (simp add: ws)
    also have "\<dots> = pton6_loop (groups_text ws @ rest) (groups_text ws @ rest) 0 0 (outs @ word_bytes w) cp" using ne Cons.prems(3) by (simp add: word_bytes_def)
    finally have "pton6_loop (groups_text (w # ws) @ rest) cur 0 0 outs cp = pton6_loop (groups_text ws @ rest) (groups_text ws @ rest) 0 0 (outs @ word_bytes w) cp" .
    moreover obtain cur' n where "pton6_loop (groups_text ws @ rest) (groups_text ws @ rest) 0 0 (outs @ word_bytes w) cp =
        pton6_loop rest cur' n (last ws) ((outs @ word_bytes w) @ concat (map word_bytes (butlast ws))) cp" "0 < n"
      using Cons.IH [of "outs @ word_bytes w" "groups_text ws @ rest"] Cons.prems False by auto
    ultimately show ?thesis using False by auto
  qed
qed simp

text \<open>The part after a double colon.\<close>

definition finish6 :: "nat \<times> nat \<times> byte list \<times> nat option \<Rightarrow> byte list" where
  "finish6 r = (case r of (seen, val, outs, colonp) \<Rightarrow> if seen \<noteq> 0 then outs @ word_bytes val else outs)"

lemma pton6_tail:
  assumes "list_all (\<lambda>w. w < 65536) ws" and "length outs + 2 * length ws \<le> 16"
  shows "\<exists>n v o'. pton6_loop (groups_text ws) cur 0 0 outs cp = Inr (n, v, o', cp) \<and> finish6 (n, v, o', cp) = outs @ concat (map word_bytes ws) \<and> (n \<noteq> 0 \<longrightarrow> length o' + 2 \<le> 16)"
proof (cases "ws = []")
  case True
  then show ?thesis by (simp add: finish6_def)
next
  case False
  obtain cur' n where e: "pton6_loop (groups_text ws @ []) cur 0 0 outs cp = pton6_loop [] cur' n (last ws) (outs @ concat (map word_bytes (butlast ws))) cp" "0 < n"
    using pton6_groups [OF assms(1) False assms(2), of "[]" cur cp] by blast
  have "concat (map word_bytes ws) = concat (map word_bytes (butlast ws)) @ word_bytes (last ws)" 
    using arg_cong [OF append_butlast_last_id [OF False], of "\<lambda>l. concat (map word_bytes l)"] by simp
  moreover have "length outs + 2 * length (butlast ws) + 2 \<le> 16" using assms(2) False by (cases ws) auto
  ultimately show ?thesis using e by (auto simp: finish6_def simp del: length_butlast)
qed

lemma shift_step:
  assumes "0 < z"
  shows "(A @ y # replicate z 0 @ B)[length A + z := y, length A := 0] = A @ replicate z (0 :: byte) @ y # B"
proof -
  obtain m where z: "z = Suc m" using assms by (cases z) auto
  have "replicate z (0 :: byte) @ B = replicate m 0 @ 0 # B" by (simp add: z replicate_append_same [symmetric])
  then have "(A @ y # replicate z 0 @ B)[length A + z := y] = A @ y # replicate m 0 @ y # B" by (simp add: z list_update_append)
  then show ?thesis by (simp add: z)
qed

lemma shift_by_hand:
  assumes n: "length xs + length ys + z = 16" "0 < z"
  shows "shift_by_hand (xs @ ys @ replicate z 0) (length xs) (length ys) = xs @ replicate z 0 @ ys"
proof -
  let ?f = "\<lambda>i t. t[16 - i := t ! (length xs + length ys - i), length xs + length ys - i := 0]"
  have "fold ?f [1..<k + 1] (xs @ ys @ replicate z 0) = xs @ take (length ys - k) ys @ replicate z 0 @ drop (length ys - k) ys" if "k \<le> length ys" for k
    using that
  proof (induction k)
    case (Suc k)
    let ?m = "length ys - Suc k"
    have m: "?m < length ys" "length ys - k = Suc ?m" using Suc.prems by auto
    let ?A = "xs @ take ?m ys" and ?y = "ys ! ?m" and ?B = "drop (Suc ?m) ys"
    have t: "take (Suc ?m) ys = take ?m ys @ [?y]" "drop ?m ys = ?y # ?B" using m(1) by (simp_all add: take_Suc_conv_app_nth Cons_nth_drop_Suc)
    have IH: "fold ?f [1..<k + 1] (xs @ ys @ replicate z 0) = ?A @ ?y # replicate z 0 @ ?B" using Suc.IH Suc.prems unfolding m(2) by (simp add: t(1))
    have l: "length ?A = length xs + length ys - Suc k" "length ?A + z = 16 - Suc k" using n Suc.prems by auto
    have "fold ?f [1..<Suc k + 1] (xs @ ys @ replicate z 0) = ?f (Suc k) (?A @ ?y # replicate z 0 @ ?B)" using IH by simp
    also have "\<dots> = (?A @ ?y # replicate z 0 @ ?B)[length ?A + z := ?y, length ?A := 0]" by (simp only: l [symmetric] nth_append_length)
    also have "\<dots> = ?A @ replicate z 0 @ ?y # ?B" by (rule shift_step [OF n(2)])
    finally show ?case by (simp add: t(2))
  qed simp
  from this [of "length ys"] show ?thesis by (simp add: shift_by_hand_def)
qed

lemma body_no_run:
  assumes ws: "list_all (\<lambda>w. w < 65536) ws" "length ws = 8"
  shows "pton6_body (groups_text ws) = Inr (concat (map word_bytes ws))"
proof -
  obtain n v o' where t: "pton6_loop (groups_text ws) (groups_text ws) 0 0 [] None = Inr (n, v, o', None)" "finish6 (n, v, o', None) = concat (map word_bytes ws)" "n \<noteq> 0 \<longrightarrow> length o' + 2 \<le> 16"
    using pton6_tail [OF ws(1), of "[]" "groups_text ws" None] ws(2) by auto
  have "(if n \<noteq> 0 then o' @ [of_nat (v div 256), of_nat v] else o') = concat (map word_bytes ws)" using t(2) by (cases "n = 0") (simp_all add: finish6_def word_bytes_def)
  then show ?thesis using t(1,3) ws(2) by (auto simp: pton6_body_def Let_def)
qed

text \<open>The parser behind a double colon at \<open>c\<close>, when \<open>outs\<close> is what it reads in all.\<close>

lemma body_run:
  assumes l: "pton6_loop src src 0 0 [] None = Inr (n, v, o', Some c)" and f: "finish6 (n, v, o', Some c) = xs @ ys" and n: "n \<noteq> 0 \<longrightarrow> length o' + 2 \<le> 16"
    and c: "c = length xs" and len: "length xs + length ys + z = 16" "0 < z"
  shows "pton6_body src = Inr (xs @ replicate z 0 @ ys)"
proof -
  have o: "(if n \<noteq> 0 then o' @ [of_nat (v div 256), of_nat v] else o') = xs @ ys" using f by (cases "n = 0") (simp_all add: finish6_def word_bytes_def)
  have z: "16 - length (xs @ ys) = z" "length (xs @ ys) \<noteq> 16" "length (xs @ ys) - c = length ys" using len c by auto
  have "\<not> (n \<noteq> 0 \<and> 16 < length o' + 2)" using n by auto
  then have "pton6_body src = Inr (shift_by_hand ((xs @ ys) @ replicate z 0) c (length ys))" unfolding pton6_body_def l sum.case prod.case o Let_def z option.case using z(2) by (simp only: if_False)
  then show ?thesis using shift_by_hand [OF len] by (simp add: c)
qed

lemma run_starts:
  assumes bs: "list_all (\<lambda>w. w < 65536) bs" "2 * length bs \<le> 16"
  shows "\<exists>r. inet_pton6 (groups_text bs @ colon # colon # rest) = pton6_body r \<and> pton6_loop r r 0 0 [] None = pton6_loop rest rest 0 0 (concat (map word_bytes bs)) (Some (2 * length bs))"
proof (cases bs)
  case Nil
  then show ?thesis by (intro exI [of _ "colon # rest"]) (simp add: inet_pton6_def)
next
  case (Cons w ws)
  let ?r = "groups_text bs @ colon # colon # rest"
  have "groups_text bs \<noteq> []" using groups_text_nonempty Cons by simp
  then have "take 1 ?r = take 1 (groups_text bs)" by (cases "groups_text bs") auto
  moreover have "take 1 (groups_text bs) \<noteq> [colon]"
  proof -
    have "hd (print_num 16 w) \<in> set (print_num 16 w)" by simp
    then obtain d where "d < 16" "hd (print_num 16 w) = digit_char d" using print_num_digits [of 16 "hd (print_num 16 w)" w] by auto
    then have "hd (print_num 16 w) \<noteq> colon" using digit_no_separator by metis
    then show ?thesis by (cases "print_num 16 w") (auto simp: Cons groups_text_Cons)
  qed
  ultimately have "inet_pton6 ?r = pton6_body ?r" by (simp add: inet_pton6_def)
  moreover obtain cur' n where g: "pton6_loop ?r ?r 0 0 [] None = pton6_loop (colon # colon # rest) cur' n (last bs) (concat (map word_bytes (butlast bs))) None" "0 < n"
    using pton6_groups [OF bs(1), of "[]" "colon # colon # rest" ?r None] bs(2) Cons by auto
  have e: "concat (map word_bytes bs) = concat (map word_bytes (butlast bs)) @ word_bytes (last bs)"
    using arg_cong [OF append_butlast_last_id [of bs], of "\<lambda>l. concat (map word_bytes l)"] Cons by simp
  have len: "Suc (Suc (2 * (length bs - Suc 0))) = 2 * length bs" using Cons by simp
  have "length (concat (map word_bytes (butlast bs))) + 2 \<le> 16" using bs(2) Cons by simp
  then have "pton6_loop (colon # colon # rest) cur' n (last bs) (concat (map word_bytes (butlast bs))) None = pton6_loop rest rest 0 0 (concat (map word_bytes bs)) (Some (2 * length bs))"
    using g(2) by (simp add: e word_bytes_def len)
  ultimately show ?thesis using g(1) by (intro exI [of _ ?r]) simp
qed

lemma parse_run:
  assumes bs: "list_all (\<lambda>w. w < 65536) bs" and as: "list_all (\<lambda>w. w < 65536) as" and n: "length bs + n + length as = 8" "0 < n"
  shows "inet_pton6 (groups_text bs @ colon # colon # groups_text as) = Inr (concat (map word_bytes (bs @ replicate n 0 @ as)))"
proof -
  obtain r where r: "inet_pton6 (groups_text bs @ colon # colon # groups_text as) = pton6_body r"
      "pton6_loop r r 0 0 [] None = pton6_loop (groups_text as) (groups_text as) 0 0 (concat (map word_bytes bs)) (Some (2 * length bs))"
    using run_starts [OF bs, of "groups_text as"] n by auto
  obtain k v o' where t: "pton6_loop (groups_text as) (groups_text as) 0 0 (concat (map word_bytes bs)) (Some (2 * length bs)) = Inr (k, v, o', Some (2 * length bs))"
      "finish6 (k, v, o', Some (2 * length bs)) = concat (map word_bytes bs) @ concat (map word_bytes as)" "k \<noteq> 0 \<longrightarrow> length o' + 2 \<le> 16"
    using pton6_tail [OF as, of "concat (map word_bytes bs)" "groups_text as" "Some (2 * length bs)"] n by auto
  have "pton6_body r = Inr (concat (map word_bytes bs) @ replicate (2 * n) 0 @ concat (map word_bytes as))"
    by (rule body_run [OF trans [OF r(2) t(1)] t(2,3)]) (use n in auto)
  moreover have "concat (map word_bytes (replicate n 0)) = replicate (2 * n) 0" by (induction n) (auto simp: word_bytes_def)
  ultimately show ?thesis using r(1) by simp
qed

text \<open>A dotted address at the end.\<close>

lemma hex_digits_loop:
  "(\<forall>c \<in> set p. hex_digit c \<noteq> None) \<Longrightarrow> seen + length p \<le> 4 \<Longrightarrow> \<exists>v'. pton6_loop (p @ rest) cur seen v outs cp = pton6_loop rest cur (seen + length p) v' outs cp"
proof (induction p arbitrary: seen v)
  case (Cons c p)
  then obtain d where "hex_digit c = Some d" by auto
  then show ?case using Cons.IH [of "Suc seen" "v * 16 + d"] Cons.prems by auto
qed auto

lemma dotted_loop:
  assumes "length bs = 4" and "length outs + 4 \<le> 16"
  shows "\<exists>v. pton6_loop (dotted bs) (dotted bs) 0 0 outs cp = Inr (0, v, outs @ bs, cp)"
proof -
  let ?p = "print_num 10 (unat (bs ! 0))"
  obtain q where q: "dotted bs = ?p @ dot # q" by (simp add: dotted_def)
  have "unat (bs ! 0) < 1000" using byte_lt [of "bs ! 0"] by linarith
  then have l: "length ?p \<le> 3" using print_num_length [of 10 "unat (bs ! 0)" 2] by (simp add: eval_nat_numeral)
  have h: "hex_digit c \<noteq> None" if c: "c \<in> set ?p" for c
  proof -
    have "\<exists>d < 10. c = digit_char d" by (rule print_num_digits [OF _ _ c]) simp_all
    then obtain d where "d < 10" "c = digit_char d" by blast
    then show ?thesis using digit_char_hex [of d] by simp
  qed
  obtain v where "pton6_loop (?p @ dot # q) (dotted bs) 0 0 outs cp = pton6_loop (dot # q) (dotted bs) (length ?p) v outs cp"
    using hex_digits_loop [of ?p 0 "dot # q" "dotted bs" 0 outs cp] h l by auto
  then show ?thesis using pton4_dotted [OF assms(1)] assms(2) unfolding q [symmetric] by simp
qed

lemma parse_dotted:
  assumes bs: "length bs = 4" and ws: "list_all (\<lambda>w. w < 65536) ws" "length ws \<le> 5"
  shows "inet_pton6 ([colon, colon] @ concat (map (\<lambda>w. print_num 16 w @ [colon]) ws) @ dotted bs) =
    Inr (replicate (12 - 2 * length ws) 0 @ concat (map word_bytes ws) @ bs)"
proof -
  let ?rest = "concat (map (\<lambda>w. print_num 16 w @ [colon]) ws) @ dotted bs"
  have ne: "dotted bs \<noteq> []" by (simp add: dotted_def)
  have groups: "list_all (\<lambda>w. w < 65536) us \<Longrightarrow> length outs + 2 * length us + 4 \<le> 16 \<Longrightarrow> cur = concat (map (\<lambda>w. print_num 16 w @ [colon]) us) @ dotted bs \<Longrightarrow>
      \<exists>v. pton6_loop cur cur 0 0 outs cp = Inr (0, v, outs @ concat (map word_bytes us) @ bs, cp)" for us outs cp cur
  proof (induction us arbitrary: outs cur)
    case Nil
    then show ?case using dotted_loop [OF bs, of outs cp] by simp
  next
    case (Cons w us)
    have w: "w < 16 ^ 4" using Cons.prems(1) by simp
    let ?r = "concat (map (\<lambda>w. print_num 16 w @ [colon]) us) @ dotted bs"
    have "pton6_loop cur cur 0 0 outs cp = pton6_loop ?r ?r 0 0 (outs @ word_bytes w) cp"
      using pton6_number [OF w, of "colon # ?r" cur outs cp] ne Cons.prems(2) by (auto simp: Cons.prems(3) word_bytes_def)
    moreover obtain v where "pton6_loop ?r ?r 0 0 (outs @ word_bytes w) cp = Inr (0, v, (outs @ word_bytes w) @ concat (map word_bytes us) @ bs, cp)"
      using Cons.IH [of "outs @ word_bytes w" ?r] Cons.prems by auto
    ultimately show ?case by auto
  qed
  obtain r where r: "inet_pton6 ([colon, colon] @ ?rest) = pton6_body r" "pton6_loop r r 0 0 [] None = pton6_loop ?rest ?rest 0 0 [] (Some 0)"
    using run_starts [of "[]" ?rest] by auto
  obtain v where v: "pton6_loop ?rest ?rest 0 0 [] (Some 0) = Inr (0, v, concat (map word_bytes ws) @ bs, Some 0)" using groups [of ws "[]" ?rest "Some 0"] ws by auto
  have "pton6_body r = Inr ([] @ replicate (12 - 2 * length ws) 0 @ concat (map word_bytes ws) @ bs)"
    by (rule body_run [OF trans [OF r(2) v]]) (use bs ws(2) in \<open>auto simp: finish6_def\<close>)
  then show ?thesis using r(1) by simp
qed

section \<open>What is printed\<close>

text \<open>A run that is found is a run of zeros.\<close>

definition zero_run :: "nat list \<Rightarrow> run \<Rightarrow> bool" where
  "zero_run ws r \<longleftrightarrow> (\<forall>b n. r = Some (b, n) \<longrightarrow> 0 < n \<and> b + n \<le> length ws \<and> (\<forall>j. b \<le> j \<and> j < b + n \<longrightarrow> ws ! j = 0))"

lemma zero_run_better: "zero_run ws best \<Longrightarrow> zero_run ws cur \<Longrightarrow> zero_run ws (better best cur)"
  by (auto simp: better_def split: option.split)

lemma find_run_zero:
  assumes "zero_run all best" and "zero_run all cur" and "\<forall>b n. cur = Some (b, n) \<longrightarrow> b + n = i" and "ws = drop i all" and "i \<le> length all"
    and "find_run ws i best cur = Some (b, n)"
  shows "2 \<le> n \<and> zero_run all (Some (b, n))"
  using assms
proof (induction ws i best cur rule: find_run.induct)
  case (1 i best cur)
  then show ?case using zero_run_better [OF 1(1,2)] by (auto split: option.splits if_splits prod.splits)
next
  case (2 w ws i best cur)
  have d: "drop i all = w # ws" using 2(6) by simp
  have i1: "i < length all" using d by (cases "i < length all") auto
  have i: "i < length all" "all ! i = w" "ws = drop (Suc i) all" using i1 nth_via_drop [OF d] arg_cong [OF d, of tl] by (simp_all add: drop_Suc tl_drop)
  show ?case
  proof (cases "w = 0")
    case True
    let ?cur = "case cur of None \<Rightarrow> Some (i, 1) | Some (b, n) \<Rightarrow> Some (b, n + 1)"
    have "zero_run all ?cur" using 2(4,5) i True by (auto simp: zero_run_def less_Suc_eq split: option.splits)
    moreover have "\<forall>b n. ?cur = Some (b, n) \<longrightarrow> b + n = i + 1" using 2(5) by (auto split: option.splits)
    ultimately show ?thesis using 2(1) [OF True 2(3)] 2(8) True i by simp
  next
    case False
    then show ?thesis using 2(2) [OF False zero_run_better [OF 2(3,4)]] 2(8) i by (simp add: zero_run_def)
  qed
qed

lemma print_stretch:
  assumes "i + length bs \<le> b"
  shows "format6 src (bs @ rest) (Some (b, n)) i tmp = format6 src rest (Some (b, n)) (i + length bs) (tmp @ (if i = 0 then groups_text bs else concat (map (\<lambda>w. colon # print_num 16 w) bs)))"
  using assms
proof (induction bs arbitrary: i tmp)
  case (Cons w bs)
  then have "i < b" "b \<noteq> 0" by auto
  then show ?case using Cons.IH [of "Suc i"] Cons.prems by (simp add: groups_text_Cons)
qed simp

lemma print_inside:
  assumes "i + length zs = b + n" and "b \<le> i"
  shows "format6 src (zs @ rest) (Some (b, n)) i tmp = format6 src rest (Some (b, n)) (b + n) (tmp @ (if i = b \<and> zs \<noteq> [] then [colon] else []))"
  using assms
proof (induction zs arbitrary: i tmp)
  case (Cons z zs)
  then show ?case using Cons.IH [of "Suc i"] by (auto split: if_splits)
qed simp

lemma print_after:
  assumes "b + n \<le> i" and "0 < i" and "\<not> (b = 0 \<and> (n = 6 \<or> n = 7 \<and> inet_words src ! 7 \<noteq> 1 \<or> n = 5 \<and> inet_words src ! 5 = 0xFFFF))"
  shows "format6 src as (Some (b, n)) i tmp = format6 src [] (Some (b, n)) (i + length as) (tmp @ concat (map (\<lambda>w. colon # print_num 16 w) as))"
  using assms
proof (induction as arbitrary: i tmp)
  case (Cons w as)
  have e: "format6 src (w # as) (Some (b, n)) i tmp = format6 src as (Some (b, n)) (i + 1) ((tmp @ [colon]) @ print_num 16 w)" using Cons.prems by (auto simp: Let_def)
  show ?case unfolding e using Cons.IH [of "i + 1"] Cons.prems by simp
qed simp

lemma print_none: "format6 src as None i tmp = Inr (tmp @ (if i = 0 then groups_text as else concat (map (\<lambda>w. colon # print_num 16 w) as)))"
proof (induction as arbitrary: i tmp)
  case (Cons w as)
  then show ?case by (simp add: groups_text_Cons)
qed simp

definition plain_text :: "byte list \<Rightarrow> bool" where
  "plain_text t \<longleftrightarrow> 0 \<notin> set t \<and> percent \<notin> set t"

lemma plain_append [simp]: "plain_text (s @ t) \<longleftrightarrow> plain_text s \<and> plain_text t" "plain_text (colon # t) \<longleftrightarrow> plain_text t" "plain_text []"
  by (auto simp: plain_text_def colon_def percent_def)

lemma plain_number [simp]: "plain_text (print_num 16 n)"
proof -
  have "c \<noteq> 0 \<and> c \<noteq> percent" if c: "c \<in> set (print_num 16 n)" for c
  proof -
    have "\<exists>d < 16. c = digit_char d" by (rule print_num_digits [OF _ _ c]) simp_all
    then obtain d where "d < 16" "c = digit_char d" by blast
    then show ?thesis using digit_no_separator [of d] by simp
  qed
  then show ?thesis unfolding plain_text_def by blast
qed

lemma plain_dotted [simp]: "plain_text (dotted bs)"
  using dotted_chars by (auto simp: plain_text_def)

lemma groups_text_short: "list_all (\<lambda>w. w < 65536) ws \<Longrightarrow> length (groups_text ws) \<le> 5 * length ws \<and> plain_text (groups_text ws)"
proof (induction ws rule: groups_text.induct)
  case (2 w)
  then show ?case using print_num_length [of 16 w 3] by simp
next
  case (3 w v ws)
  then show ?case using print_num_length [of 16 w 3] by auto
qed simp

lemma words_facts:
  assumes "length src = 16"
  shows "length (inet_words src) = 8" "list_all (\<lambda>w. w < 65536) (inet_words src)" "concat (map word_bytes (inet_words src)) = src"
proof -
  show "length (inet_words src) = 8" by (simp add: inet_words_def)
  have "unat a * 256 + unat b < 65536" for a b :: byte using byte_lt [of a] byte_lt [of b] by linarith
  then show "list_all (\<lambda>w. w < 65536) (inet_words src)" by (simp add: inet_words_def list_all_iff)
  have wb: "word_bytes (unat a * 256 + unat b) = [a, b]" for a b :: byte
  proof -
    have "(unat a * 256 + unat b) div 256 = unat a" using byte_lt [of b] by linarith
    moreover have "unat (of_nat (unat a * 256 + unat b) :: byte) = unat b" unfolding unat_of_nat_byte using byte_lt [of b] by (simp only: mod_mult_self3 mod_less)
    then have "(of_nat (unat a * 256 + unat b) :: byte) = b" by (simp only: word_unat_eq_iff)
    ultimately show ?thesis by (simp add: word_bytes_def)
  qed
  have "concat (map word_bytes (inet_words src)) = concat (map (\<lambda>i. [src ! (2 * i), src ! (2 * i + 1)]) [0..<8])" by (simp add: inet_words_def wb comp_def)
  also have "\<dots> = map ((!) src) [0..<16]" by (simp add: upt_rec) (simp add: numeral_eq_Suc)
  also have "\<dots> = src" using assms map_nth [of src] by simp
  finally show "concat (map word_bytes (inet_words src)) = src" .
qed

lemma colon_groups: "as \<noteq> [] \<Longrightarrow> concat (map (\<lambda>w. colon # print_num 16 w) as) = colon # groups_text as"
  by (cases as) (simp_all add: groups_text_Cons)

lemma format_shapes:
  assumes src: "length src = 16" and run: "find_run (inet_words src) 0 None None = Some (b, n)"
  obtains (groups) bs as where "inet_words src = bs @ replicate n 0 @ as" "format6 src (inet_words src) (Some (b, n)) 0 [] = Inr (groups_text bs @ colon # colon # groups_text as)" "0 < n"
  | (dotted6) "inet_words src = replicate 6 0 @ drop 6 (inet_words src)" "format6 src (inet_words src) (Some (b, n)) 0 [] = Inr ([colon, colon] @ dotted (drop 12 src))"
  | (dotted5) "inet_words src = replicate 5 0 @ 0xFFFF # drop 6 (inet_words src)" "format6 src (inet_words src) (Some (b, n)) 0 [] = Inr ([colon, colon] @ (print_num 16 0xFFFF @ [colon]) @ dotted (drop 12 src))"
proof -
  define ws where "ws = inet_words src"
  have l: "length ws = 8" using words_facts(1) [OF src] by (simp add: ws_def)
  have "2 \<le> n \<and> zero_run ws (Some (b, n))" by (rule find_run_zero [of ws None None 0 ws]) (use run in \<open>auto simp: zero_run_def ws_def\<close>)
  then have n: "2 \<le> n" "b + n \<le> 8" "\<And>j. b \<le> j \<Longrightarrow> j < b + n \<Longrightarrow> ws ! j = 0" using l by (auto simp: zero_run_def)
  have zs: "take n (drop b ws) = replicate n 0" using n l by (intro nth_equalityI) auto
  have split: "ws = take b ws @ replicate n 0 @ drop (b + n) ws" using zs append_take_drop_id [of b ws] append_take_drop_id [of n "drop b ws"] by (simp add: add.commute)
  let ?bs = "take b ws" and ?as = "drop (b + n) ws" and ?f = "format6 src ws (Some (b, n)) 0 []"
  let ?cond = "b = 0 \<and> (n = 6 \<or> n = 7 \<and> inet_words src ! 7 \<noteq> 1 \<or> n = 5 \<and> inet_words src ! 5 = 0xFFFF)"
  have start: "?f = format6 src ?as (Some (b, n)) (b + n) (groups_text ?bs @ [colon])"
  proof -
    have "?f = format6 src (replicate n 0 @ ?as) (Some (b, n)) b (groups_text ?bs)" using print_stretch [of 0 ?bs b src "replicate n 0 @ ?as" n "[]"] n l split by simp
    also have "\<dots> = format6 src ?as (Some (b, n)) (b + n) (groups_text ?bs @ [colon])" using print_inside [of b "replicate n 0" b n src ?as] n(1) by simp
    finally show ?thesis .
  qed
  have cut: "length (dotted (drop 12 src)) \<le> 15" using dotted_length [of "drop 12 src"] src by simp
  have rest: "format6 src (w # us) (Some (b, n)) 6 tmp = Inr (tmp @ [colon] @ dotted (drop 12 src))" if "?cond" "n \<le> 6" "length tmp \<le> 20" for w us tmp
    using that cut by (auto simp: Let_def UV__INET6_ADDRSTRLEN_def)
  show ?thesis
  proof (cases "?cond \<and> n \<noteq> 7")
    case True
    then have b: "b = 0" by simp
    consider (six) "n = 6" | (five) "n = 5" "ws ! 5 = 0xFFFF" using True by (auto simp: ws_def)
    then show ?thesis
    proof cases
      case six
      have "drop 6 ws = ws ! 6 # drop 7 ws" using l Cons_nth_drop_Suc [of 6 ws] by simp
      then have "?f = Inr ([colon, colon] @ dotted (drop 12 src))" using start rest [of "[colon]" "ws ! 6" "drop 7 ws"] True six b by simp
      moreover have "ws = replicate 6 0 @ drop 6 ws" using split b six by simp
      ultimately show ?thesis using dotted6 unfolding ws_def by simp
    next
      case five
      have d: "drop 5 ws = 0xFFFF # ws ! 6 # drop 7 ws" using l five(2) Cons_nth_drop_Suc [of 5 ws] Cons_nth_drop_Suc [of 6 ws] by simp
      have "format6 src (drop 5 ws) (Some (b, n)) 5 [colon] = format6 src (ws ! 6 # drop 7 ws) (Some (b, n)) 6 ([colon, colon] @ print_num 16 0xFFFF)"
        using five b unfolding d by simp
      also have "\<dots> = Inr (([colon, colon] @ print_num 16 0xFFFF) @ [colon] @ dotted (drop 12 src))"
        by (rule rest) (use True five print_num_length [of 16 "0xFFFF" 3] in auto)
      finally have "?f = Inr ([colon, colon] @ (print_num 16 0xFFFF @ [colon]) @ dotted (drop 12 src))" using start five b by simp
      moreover have "drop 6 ws = ws ! 6 # drop 7 ws" using l Cons_nth_drop_Suc [of 6 ws] by simp
      then have "ws = replicate 5 0 @ 0xFFFF # drop 6 ws" using split b five d by simp
      ultimately show ?thesis using dotted5 unfolding ws_def by simp
    qed
  next
    case False
    have f: "?f = Inr (groups_text ?bs @ colon # colon # groups_text ?as)"
    proof (cases "?as = []")
      case True
      then have "b + n = 8" using l n(2) by simp
      then show ?thesis using start True by simp
    next
      case as: False
      then have n7: "b + n < 8" using l by simp
      show ?thesis
      proof (cases "n = 7")
        case True
        then have b: "b = 0" using n7 by simp
        have d: "?as = [ws ! 7]" using l True b Cons_nth_drop_Suc [of 7 ws] by simp
        show ?thesis using start b True unfolding d by simp
      next
        case n: False
        then have "\<not> ?cond" using False by blast
        then have "?f = format6 src [] (Some (b, n)) (b + n + length ?as) ((groups_text ?bs @ [colon]) @ concat (map (\<lambda>w. colon # print_num 16 w) ?as))"
          using start print_after [of b n "b + n" src ?as "groups_text ?bs @ [colon]"] n(1) \<open>2 \<le> n\<close> by simp
        then show ?thesis using colon_groups [OF as] n7 by simp
      qed
    qed
    have "0 < n" using n(1) by simp
    then show ?thesis using groups [of ?bs ?as] f split unfolding ws_def by simp
  qed
qed

lemma ntop6_text:
  assumes src: "length src = 16"
  obtains str where "format6 src (inet_words src) (find_run (inet_words src) 0 None None) 0 [] = Inr str" "inet_pton6 str = Inr src" "length str \<le> 45" "plain_text str"
proof -
  note w = words_facts [OF src]
  have tail: "drop 12 src = concat (map word_bytes (drop 6 (inet_words src)))"
  proof -
    have "concat (map word_bytes (take 6 (inet_words src))) @ concat (map word_bytes (drop 6 (inet_words src))) = src" using w(3) by (metis append_take_drop_id concat_append map_append)
    moreover have "length (concat (map word_bytes (take 6 (inet_words src)))) = 12" using w(1) by simp
    ultimately show ?thesis by (metis append_eq_conv_conj)
  qed
  have zeros: "concat (map word_bytes (replicate k 0)) = replicate (2 * k) 0" for k by (induction k) (auto simp: word_bytes_def)
  have len: "length (drop 12 src) = 4" using src by simp
  show ?thesis
  proof (cases "find_run (inet_words src) 0 None None")
    case None
    have ne: "inet_words src \<noteq> []" using w(1) by auto
    let ?t = "groups_text (inet_words src)"
    have "take 1 ?t \<noteq> [colon]"
    proof -
      obtain u us where u: "inet_words src = u # us" using ne by (cases "inet_words src") auto
      obtain d where d: "d < 16" "hd (print_num 16 u) = digit_char d" using print_num_digits [of 16 "hd (print_num 16 u)" u] by auto
      then have "hd (print_num 16 u) \<noteq> colon" using digit_no_separator [of d] by simp
      then show ?thesis unfolding u groups_text_Cons by (cases "print_num 16 u") auto
    qed
    then have "inet_pton6 ?t = Inr src" using body_no_run [OF w(2,1)] w(3) by (simp add: inet_pton6_def)
    then show ?thesis using that [of ?t] None print_none [of src "inet_words src" 0 "[]"] groups_text_short [OF w(2)] w(1) by simp
  next
    case (Some r)
    obtain b n where r: "r = (b, n)" by fastforce
    show ?thesis using src Some [unfolded r]
    proof (cases rule: format_shapes)
      case (groups bs as)
      have ok: "list_all (\<lambda>w. w < 65536) bs" "list_all (\<lambda>w. w < 65536) as" and l: "length bs + n + length as = 8" using w(1,2) unfolding groups(1) by auto
      have "inet_pton6 (groups_text bs @ colon # colon # groups_text as) = Inr src" using parse_run [OF ok l groups(3)] w(3) unfolding groups(1) by simp
      moreover have "length (groups_text bs @ colon # colon # groups_text as) \<le> 45" "plain_text (groups_text bs @ colon # colon # groups_text as)"
        using groups_text_short [OF ok(1)] groups_text_short [OF ok(2)] l groups(3) by auto
      ultimately show ?thesis using that Some groups(2) r by simp
    next
      case dotted6
      have "src = replicate 12 0 @ drop 12 src" using arg_cong [OF dotted6(1), of "\<lambda>l. concat (map word_bytes l)"] w(3) tail zeros [of 6] by simp
      then have "inet_pton6 ([colon, colon] @ dotted (drop 12 src)) = Inr src" using parse_dotted [OF len, of "[]"] by simp
      then show ?thesis using that [of "[colon, colon] @ dotted (drop 12 src)"] Some dotted6(2) r dotted_length [OF len] by simp
    next
      case dotted5
      have "src = replicate 10 0 @ word_bytes 0xFFFF @ drop 12 src" using arg_cong [OF dotted5(1), of "\<lambda>l. concat (map word_bytes l)"] w(3) tail zeros [of 5] by simp
      then have "inet_pton6 ([colon, colon] @ (print_num 16 0xFFFF @ [colon]) @ dotted (drop 12 src)) = Inr src" using parse_dotted [OF len, of "[0xFFFF]"] by simp
      then show ?thesis
        using that [of "[colon, colon] @ (print_num 16 0xFFFF @ [colon]) @ dotted (drop 12 src)"] Some dotted5(2) r dotted_length [OF len] print_num_length [of 16 "0xFFFF" 3] by simp
    qed
  qed
qed

section \<open>The properties of addresses\<close>

text \<open>C33: \<open>uv_inet_pton\<close> accepts as an IPv4 address exactly the texts that \<open>uv_inet_ntop\<close> prints, four decimal numbers up to 255 without leading zeros, and gives their bytes.\<close>

theorem inet4_exact:
  assumes "length d = 4" and "length dst = 16"
  shows "uv_inet_pton AF_INET (Some str) (Some d) = (0, Some bs) \<longleftrightarrow>
    length bs = 4 \<and> 0 \<notin> set str \<and> uv_inet_ntop AF_INET bs dst 16 = Some (0, str @ 0 # drop (length str + 1) dst)"
proof
  assume "uv_inet_pton AF_INET (Some str) (Some d) = (0, Some bs)"
  then have f: "(case inet_pton4 str of Inl e \<Rightarrow> (e, Some d) | Inr cs \<Rightarrow> (0, Some (cs @ drop (length cs) d))) = (0, Some bs)" by (simp add: uv_inet_pton_def Let_def)
  have "inet_pton4 str = Inr bs"
  proof (cases "inet_pton4 str")
    case (Inl e)
    then show ?thesis using pton4_error [of str False 0 "[0]" e] f by (simp add: inet_pton4_def UV_EINVAL_def)
  next
    case (Inr cs)
    then have "length cs = 4" using pton4_iff [of str cs] by simp
    then show ?thesis using Inr f assms(1) by simp
  qed
  then have b: "length bs = 4" "str = dotted bs" using pton4_iff by auto
  have "length (dotted bs) \<le> 15" "plain_text (dotted bs)" using dotted_length [OF b(1)] by auto
  then show "length bs = 4 \<and> 0 \<notin> set str \<and> uv_inet_ntop AF_INET bs dst 16 = Some (0, str @ 0 # drop (length str + 1) dst)"
    using b by (simp add: uv_inet_ntop_def inet_ntop4_def uv__strscpy_def UV__INET_ADDRSTRLEN_def plain_text_def Let_def)
next
  assume a: "length bs = 4 \<and> 0 \<notin> set str \<and> uv_inet_ntop AF_INET bs dst 16 = Some (0, str @ 0 # drop (length str + 1) dst)"
  have l: "length (dotted bs) \<le> 15" "plain_text (dotted bs)" using dotted_length a by auto
  then have "dotted bs @ 0 # drop (length (dotted bs) + 1) dst = str @ 0 # drop (length str + 1) dst"
    using a by (simp add: uv_inet_ntop_def inet_ntop4_def uv__strscpy_def UV__INET_ADDRSTRLEN_def Let_def)
  then have "takeWhile (\<lambda>c. c \<noteq> 0) (dotted bs @ 0 # drop (length (dotted bs) + 1) dst) = takeWhile (\<lambda>c. c \<noteq> 0) (str @ 0 # drop (length str + 1) dst)" by simp
  moreover have "\<forall>c \<in> set (dotted bs). c \<noteq> 0" "\<forall>c \<in> set str. c \<noteq> 0" using l(2) a by (auto simp: plain_text_def)
  ultimately have "dotted bs = str" by (simp add: takeWhile_append2)
  then show "uv_inet_pton AF_INET (Some str) (Some d) = (0, Some bs)" using pton4_dotted [of bs] a assms(1) by (simp add: uv_inet_pton_def AF_INET_def)
qed

theorem inet4_exact_witness: "uv_inet_pton AF_INET (Some (dotted [10, 0, 0, 1])) (Some [0, 0, 0, 0]) = (0, Some [10, 0, 0, 1])"
proof -
  have "length (dotted [10, 0, 0, 1]) \<le> 15" "0 \<notin> set (dotted [10, 0, 0, 1])" using dotted_length [of "[10, 0, 0, 1]"] plain_dotted [of "[10, 0, 0, 1]"] by (auto simp: plain_text_def simp del: plain_dotted)
  then show ?thesis using inet4_exact [of "[0, 0, 0, 0]" "replicate 16 0" "dotted [10, 0, 0, 1]" "[10, 0, 0, 1]"]
    by (simp add: uv_inet_ntop_def inet_ntop4_def uv__strscpy_def UV__INET_ADDRSTRLEN_def Let_def)
qed

text \<open>C32: Every IPv6 address is printed as a text of at most 45 characters, with its longest run of zeros shortened and an IPv4 address at its end in decimals, and the text is
  read back as the same address.\<close>

theorem inet6_roundtrip:
  assumes "length src = 16" and "length dst = n" and "46 \<le> n" and "length d = 16"
  shows "\<exists>str. uv_inet_ntop AF_INET6 src dst n = Some (0, str @ 0 # drop (length str + 1) dst) \<and> length str \<le> 45 \<and> 0 \<notin> set str \<and>
           uv_inet_pton AF_INET6 (Some str) (Some d) = (0, Some src)"
proof -
  obtain str where t: "format6 src (inet_words src) (find_run (inet_words src) 0 None None) 0 [] = Inr str" "inet_pton6 str = Inr src" "length str \<le> 45" "plain_text str"
    using ntop6_text [OF assms(1)] by blast
  have "uv_inet_ntop AF_INET6 src dst n = Some (0, str @ 0 # drop (length str + 1) dst)"
    using t(1,3) assms(2,3) by (simp add: uv_inet_ntop_def inet_ntop6_def uv__strscpy_def AF_INET_def AF_INET6_def UV__INET6_ADDRSTRLEN_def UV_E2BIG_def)
  moreover have "uv_inet_pton AF_INET6 (Some str) (Some d) = (0, Some src)"
    using t(2,4) assms(1,4) by (simp add: uv_inet_pton_def AF_INET_def AF_INET6_def plain_text_def)
  ultimately show ?thesis using t(3,4) by (auto simp: plain_text_def)
qed

theorem inet6_roundtrip_witness:
  "\<exists>str. uv_inet_ntop AF_INET6 (replicate 10 0 @ [0xFF, 0xFF, 127, 0, 0, 1]) (replicate 46 0) 46 = Some (0, str @ 0 # drop (length str + 1) (replicate 46 0)) \<and>
     uv_inet_pton AF_INET6 (Some str) (Some (replicate 16 0)) = (0, Some (replicate 10 0 @ [0xFF, 0xFF, 127, 0, 0, 1]))"
  using inet6_roundtrip [of "replicate 10 0 @ [0xFF, 0xFF, 127, 0, 0, 1]" "replicate 46 0" 46 "replicate 16 0"] by auto

end
