(* ===== verification/Pb_Decode.thy ===== *)
theory Pb_Decode
  imports Prelude
begin

text \<open>
  The input side of nanopb, \<open>pb_decode.c\<close>: streams and the wire format. A function that returns \<open>true\<close> and stores a
  value gives \<open>Some value\<close>, one that returns \<open>false\<close> gives \<open>None\<close>, with the stream in either case. The whole result is \<open>None\<close>
  if memory outside of a buffer is accessed or the function does not return.

  The callback of a stream is an argument. It gets the stream and the number of bytes, may change the stream, and gives its
  return value and the bytes it stores. \<open>io_is_buf\<close> tells whether it is \<open>buf_read\<close>.
\<close>

record 's pb_istream =
  is_state :: 's
  bytes_left :: nat
  is_errmsg :: "string option"

record 's pb_io =
  io_read :: "'s pb_istream \<Rightarrow> nat \<Rightarrow> (bool \<times> byte list \<times> 's pb_istream) option"
  io_is_buf :: bool

type_synonym ('s, 'a) pb_result = "('a option \<times> 's pb_istream) option"

section \<open>Streams\<close>

definition pb_error :: "string \<Rightarrow> 's pb_istream \<Rightarrow> ('s, 'a) pb_result" where
  "pb_error msg s = Some (None, s\<lparr>is_errmsg := Some (case is_errmsg s of None \<Rightarrow> msg | Some m \<Rightarrow> m)\<rparr>)"

text \<open>The idiom \<open>if (!call) return false;\<close>.\<close>

definition pb_then :: "('s, 'a) pb_result \<Rightarrow> ('a \<Rightarrow> 's pb_istream \<Rightarrow> ('s, 'b) pb_result) \<Rightarrow> ('s, 'b) pb_result" where
  "pb_then r f = (case r of None \<Rightarrow> None | Some (None, s) \<Rightarrow> Some (None, s) | Some (Some x, s) \<Rightarrow> f x s)"

definition size_sub :: "nat \<Rightarrow> nat \<Rightarrow> nat" where
  "size_sub a b = (a + size_max1 - b) mod size_max1"

text \<open>The state of a buffer stream is the memory from its pointer on.\<close>

definition buf_read :: "byte list pb_istream \<Rightarrow> nat \<Rightarrow> (bool \<times> byte list \<times> byte list pb_istream) option" where
  "buf_read s n =
     (if n \<le> length (is_state s) then Some (True, take n (is_state s), s\<lparr>is_state := drop n (is_state s)\<rparr>) else None)"

definition buf_io :: "byte list pb_io" where
  "buf_io = \<lparr>io_read = buf_read, io_is_buf = True\<rparr>"

definition pb_istream_from_buffer :: "byte list \<Rightarrow> nat \<Rightarrow> byte list pb_istream" where
  "pb_istream_from_buffer mem bufsize = \<lparr>is_state = mem, bytes_left = bufsize, is_errmsg = None\<rparr>"

definition pb_fetch :: "'s pb_io \<Rightarrow> 's pb_istream \<Rightarrow> nat \<Rightarrow> ('s, byte list) pb_result" where
  "pb_fetch io s n =
     (if bytes_left s < n then pb_error ''end-of-stream'' s
      else case io_read io s n of
             None \<Rightarrow> None
           | Some (ok, bs, s') \<Rightarrow>
               if \<not> ok then pb_error ''io error'' s'
               else Some (Some bs, s'\<lparr>bytes_left := size_sub (bytes_left s') n\<rparr>))"

definition pb_read :: "'s pb_io \<Rightarrow> 's pb_istream \<Rightarrow> nat \<Rightarrow> ('s, byte list) pb_result" where
  "pb_read io s n = (if n = 0 then Some (Some [], s) else pb_fetch io s n)"

text \<open>\<open>pb_read\<close> with a null pointer: the bytes are skipped, 16 at a time unless the stream is a buffer.\<close>

fun skip_chunks :: "'s pb_io \<Rightarrow> 's pb_istream \<Rightarrow> nat \<Rightarrow> ('s, unit) pb_result" where
  "skip_chunks io s n =
     (if 16 < n then pb_then (pb_read io s 16) (\<lambda>_ s'. skip_chunks io s' (n - 16))
      else pb_then (pb_read io s n) (\<lambda>_ s'. Some (Some (), s')))"

definition pb_read_null :: "'s pb_io \<Rightarrow> 's pb_istream \<Rightarrow> nat \<Rightarrow> ('s, unit) pb_result" where
  "pb_read_null io s n =
     (if n = 0 then Some (Some (), s)
      else if \<not> io_is_buf io then skip_chunks io s n
      else pb_then (pb_fetch io s n) (\<lambda>_ s'. Some (Some (), s')))"

definition pb_readbyte :: "'s pb_io \<Rightarrow> 's pb_istream \<Rightarrow> ('s, byte) pb_result" where
  "pb_readbyte io s =
     (if bytes_left s = 0 then pb_error ''end-of-stream'' s
      else case io_read io s 1 of
             None \<Rightarrow> None
           | Some (ok, bs, s') \<Rightarrow>
               if \<not> ok then pb_error ''io error'' s'
               else case bs of
                      [] \<Rightarrow> None
                    | b # _ \<Rightarrow> Some (Some b, s'\<lparr>bytes_left := size_sub (bytes_left s') 1\<rparr>))"

section \<open>Varints\<close>

text \<open>\<open>bitpos\<close> is a \<open>uint_fast8_t\<close>, which has 8 bits on the target.\<close>

partial_function (option) varint32_loop :: "'s pb_io \<Rightarrow> 's pb_istream \<Rightarrow> uint32 \<Rightarrow> byte \<Rightarrow> ('s, uint32) pb_result" where
  "varint32_loop io s result bitpos =
     (case pb_readbyte io s of
        None \<Rightarrow> None
      | Some (None, s') \<Rightarrow> Some (None, s')
      | Some (Some b, s') \<Rightarrow>
          (if 32 \<le> bitpos \<and> b AND 0x7F \<noteq> 0 \<and> (drop_bit 31 result = 0 \<or> b \<noteq> (if bitpos < 63 then 0xFF else 0x01))
           then pb_error ''varint overflow'' s'
           else let result' = (if 32 \<le> bitpos then result else result OR push_bit (unat bitpos) (ucast (b AND 0x7F)));
                    bitpos' = bitpos + 7
                in if b AND 0x80 \<noteq> 0 then varint32_loop io s' result' bitpos'
                   else if bitpos' = 35 \<and> b AND 0x70 \<noteq> 0 then pb_error ''varint overflow'' s'
                   else Some (Some result', s')))"

text \<open>The boolean tells whether \<open>eof\<close> is set to true.\<close>

definition pb_decode_varint32_eof :: "'s pb_io \<Rightarrow> 's pb_istream \<Rightarrow> ((uint32 option \<times> bool) \<times> 's pb_istream) option" where
  "pb_decode_varint32_eof io s =
     (case pb_readbyte io s of
        None \<Rightarrow> None
      | Some (None, s') \<Rightarrow> Some ((None, bytes_left s' = 0), s')
      | Some (Some b, s') \<Rightarrow>
          (if b AND 0x80 = 0 then Some ((Some (ucast b), False), s')
           else map_option (\<lambda>(r, s''). ((r, False), s'')) (varint32_loop io s' (ucast (b AND 0x7F)) 7)))"

definition pb_decode_varint32 :: "'s pb_io \<Rightarrow> 's pb_istream \<Rightarrow> ('s, uint32) pb_result" where
  "pb_decode_varint32 io s = map_option (\<lambda>((r, eof), s'). (r, s')) (pb_decode_varint32_eof io s)"

function varint_loop :: "'s pb_io \<Rightarrow> 's pb_istream \<Rightarrow> uint64 \<Rightarrow> byte \<Rightarrow> ('s, uint64) pb_result" where
  "varint_loop io s result bitpos =
     (if 64 \<le> bitpos then pb_error ''varint overflow'' s
      else pb_then (pb_readbyte io s) (\<lambda>b s'.
             let result' = result OR push_bit (unat bitpos) (ucast (b AND 0x7F)) in
             if b AND 0x80 \<noteq> 0 then varint_loop io s' result' (bitpos + 7) else Some (Some result', s')))"
  by pat_completeness auto

lemma bitpos_next: "(b :: byte) < 64 \<Longrightarrow> unat (b + 7) = unat b + 7"
  by (simp add: unat_word_ariths word_less_nat_alt)

termination varint_loop
  by (relation "measure (\<lambda>(io, s, r, b). 128 - unat b)") (auto simp: not_le bitpos_next word_less_nat_alt)

definition pb_decode_varint :: "'s pb_io \<Rightarrow> 's pb_istream \<Rightarrow> ('s, uint64) pb_result" where
  "pb_decode_varint io s = varint_loop io s 0 0"

partial_function (option) pb_skip_varint :: "'s pb_io \<Rightarrow> 's pb_istream \<Rightarrow> ('s, unit) pb_result" where
  "pb_skip_varint io s =
     (case pb_read io s 1 of
        None \<Rightarrow> None
      | Some (None, s') \<Rightarrow> Some (None, s')
      | Some (Some [], s') \<Rightarrow> None
      | Some (Some (b # _), s') \<Rightarrow> if b AND 0x80 \<noteq> 0 then pb_skip_varint io s' else Some (Some (), s'))"

definition pb_skip_string :: "'s pb_io \<Rightarrow> 's pb_istream \<Rightarrow> ('s, unit) pb_result" where
  "pb_skip_string io s = pb_then (pb_decode_varint32 io s) (\<lambda>n s'. pb_read_null io s' (unat n))"

definition pb_decode_svarint :: "'s pb_io \<Rightarrow> 's pb_istream \<Rightarrow> ('s, int64) pb_result" where
  "pb_decode_svarint io s =
     pb_then (pb_decode_varint io s) (\<lambda>v s'. Some (Some (if v AND 1 \<noteq> 0 then NOT (drop_bit 1 v) else drop_bit 1 v), s'))"

section \<open>Fields on the wire\<close>

definition PB_WT_VARINT :: uint32 where "PB_WT_VARINT = 0"
definition PB_WT_64BIT :: uint32 where "PB_WT_64BIT = 1"
definition PB_WT_STRING :: uint32 where "PB_WT_STRING = 2"
definition PB_WT_32BIT :: uint32 where "PB_WT_32BIT = 5"

text \<open>The result has the tag and the wire type, and apart from them the value of \<open>eof\<close>.\<close>

definition pb_decode_tag :: "'s pb_io \<Rightarrow> 's pb_istream \<Rightarrow> (((uint32 \<times> uint32) option \<times> bool) \<times> 's pb_istream) option" where
  "pb_decode_tag io s =
     (case pb_decode_varint32_eof io s of
        None \<Rightarrow> None
      | Some ((None, eof), s') \<Rightarrow> Some ((None, eof), s')
      | Some ((Some temp, _), s') \<Rightarrow>
          if temp = 0 then Some ((None, True), s') else Some ((Some (drop_bit 3 temp, temp AND 7), False), s'))"

definition pb_skip_field :: "'s pb_io \<Rightarrow> 's pb_istream \<Rightarrow> uint32 \<Rightarrow> ('s, unit) pb_result" where
  "pb_skip_field io s wire_type =
     (if wire_type = PB_WT_VARINT then pb_skip_varint io s
      else if wire_type = PB_WT_64BIT then pb_read_null io s 8
      else if wire_type = PB_WT_STRING then pb_skip_string io s
      else if wire_type = PB_WT_32BIT then pb_read_null io s 4
      else pb_error ''invalid wire_type'' s)"

text \<open>The bytes stored in \<open>buf\<close> are the result; their number is the final value of \<open>*size\<close>.\<close>

function raw_varint :: "'s pb_io \<Rightarrow> 's pb_istream \<Rightarrow> byte list \<Rightarrow> nat \<Rightarrow> ('s, byte list) pb_result" where
  "raw_varint io s acc max_size =
     (if max_size < length acc + 1 then Some (None, s)
      else pb_then (pb_read io s 1) (\<lambda>bs s'.
             case bs of
               [] \<Rightarrow> None
             | b # _ \<Rightarrow> if b AND 0x80 \<noteq> 0 then raw_varint io s' (acc @ [b]) max_size else Some (Some (acc @ [b]), s')))"
  by pat_completeness auto
termination raw_varint
  by (relation "measure (\<lambda>(io, s, acc, m). m - length acc)") auto

definition read_raw_value :: "'s pb_io \<Rightarrow> 's pb_istream \<Rightarrow> uint32 \<Rightarrow> nat \<Rightarrow> ('s, byte list) pb_result" where
  "read_raw_value io s wire_type max_size =
     (if wire_type = PB_WT_VARINT then raw_varint io s [] max_size
      else if wire_type = PB_WT_64BIT then pb_read io s 8
      else if wire_type = PB_WT_32BIT then pb_read io s 4
      else pb_error ''invalid wire_type'' s)"

text \<open>The result is the substream.\<close>

definition pb_make_string_substream :: "'s pb_io \<Rightarrow> 's pb_istream \<Rightarrow> ('s, 's pb_istream) pb_result" where
  "pb_make_string_substream io s =
     pb_then (pb_decode_varint32 io s) (\<lambda>n s'.
       if bytes_left s' < unat n then pb_error ''parent stream too short'' s'
       else Some (Some (s'\<lparr>bytes_left := unat n\<rparr>), s'\<lparr>bytes_left := bytes_left s' - unat n\<rparr>))"

definition pb_close_string_substream :: "'s pb_io \<Rightarrow> 's pb_istream \<Rightarrow> 's pb_istream \<Rightarrow> ('s, unit) pb_result" where
  "pb_close_string_substream io s substream =
     (if bytes_left substream \<noteq> 0
      then (case pb_read_null io substream (bytes_left substream) of
              None \<Rightarrow> None
            | Some (None, sub') \<Rightarrow> Some (None, s)
            | Some (Some _, sub') \<Rightarrow> Some (Some (), s\<lparr>is_state := is_state sub', is_errmsg := is_errmsg sub'\<rparr>))
      else Some (Some (), s\<lparr>is_state := is_state substream, is_errmsg := is_errmsg substream\<rparr>))"

definition pb_decode_fixed32 :: "'s pb_io \<Rightarrow> 's pb_istream \<Rightarrow> ('s, uint32) pb_result" where
  "pb_decode_fixed32 io s =
     pb_then (pb_read io s 4) (\<lambda>bs s'.
       case bs of
         [b0, b1, b2, b3] \<Rightarrow> Some (Some (ucast b0 OR push_bit 8 (ucast b1) OR push_bit 16 (ucast b2) OR push_bit 24 (ucast b3)), s')
       | _ \<Rightarrow> None)"

definition pb_decode_fixed64 :: "'s pb_io \<Rightarrow> 's pb_istream \<Rightarrow> ('s, uint64) pb_result" where
  "pb_decode_fixed64 io s =
     pb_then (pb_read io s 8) (\<lambda>bs s'.
       case bs of
         [b0, b1, b2, b3, b4, b5, b6, b7] \<Rightarrow>
           Some (Some (ucast b0 OR push_bit 8 (ucast b1) OR push_bit 16 (ucast b2) OR push_bit 24 (ucast b3) OR
                       push_bit 32 (ucast b4) OR push_bit 40 (ucast b5) OR push_bit 48 (ucast b6) OR push_bit 56 (ucast b7)), s')
       | _ \<Rightarrow> None)"

section \<open>A stream that delivers what it has\<close>

text \<open>
  The interface of a source of bytes: what is left in it is \<open>content\<close>, and a read within the limit and the content
  succeeds. The part of the content within the limit of a stream is its input.
\<close>

definition stream_input :: "('s \<Rightarrow> byte list) \<Rightarrow> 's pb_istream \<Rightarrow> byte list" where
  "stream_input content s = take (bytes_left s) (content (is_state s))"

text \<open>The stream after \<open>n\<close> bytes of it.\<close>

definition advanced :: "('s \<Rightarrow> byte list) \<Rightarrow> 's pb_istream \<Rightarrow> nat \<Rightarrow> 's pb_istream \<Rightarrow> bool" where
  "advanced content s n s' \<longleftrightarrow> content (is_state s') = drop n (content (is_state s)) \<and> bytes_left s' = bytes_left s - n \<and> n \<le> bytes_left s \<and> is_errmsg s' = is_errmsg s"

locale pb_source =
  fixes io :: "'s pb_io" and content :: "'s \<Rightarrow> byte list"
  assumes io_ok: "n \<le> bytes_left s \<Longrightarrow> bytes_left s \<le> length (content (is_state s)) \<Longrightarrow>
    \<exists>st. io_read io s n = Some (True, take n (content (is_state s)), s\<lparr>is_state := st\<rparr>) \<and> content st = drop n (content (is_state s))"

interpretation pb_buffer: pb_source buf_io "\<lambda>xs. xs"
  by unfold_locales (simp add: buf_io_def buf_read_def)

definition stream_ok :: "('s \<Rightarrow> byte list) \<Rightarrow> 's pb_istream \<Rightarrow> bool" where
  "stream_ok content s \<longleftrightarrow> bytes_left s \<le> length (content (is_state s)) \<and> bytes_left s < size_max1"

lemma pb_then_simps [simp]:
  "pb_then None f = None" "pb_then (Some (None, s)) f = Some (None, s)" "pb_then (Some (Some x, s)) f = f x s"
  by (simp_all add: pb_then_def)

lemma size_sub_le [simp]: "b \<le> a \<Longrightarrow> a < size_max1 \<Longrightarrow> size_sub a b = a - b"
proof -
  assume "b \<le> a" "a < size_max1"
  then have "a + size_max1 - b = (a - b) + size_max1" "a - b < size_max1" by auto
  then show ?thesis unfolding size_sub_def by (simp only: mod_add_self2 mod_less)
qed
lemma advanced_trans: "advanced c s n s1 \<Longrightarrow> advanced c s1 m s2 \<Longrightarrow> advanced c s (n + m) s2"
  by (auto simp: advanced_def add.commute)

lemma advanced_0 [simp]: "advanced c s 0 s"
  by (simp add: advanced_def)

lemma advanced_ok:
  assumes "stream_ok c s" and "advanced c s n s'"
  shows "stream_ok c s'" and "stream_input c s' = drop n (stream_input c s)"
  using assms by (auto simp: stream_ok_def advanced_def stream_input_def drop_take)

text \<open>A call that fails may have consumed input, within the limit, and leaves a message.\<close>

definition failed :: "('s \<Rightarrow> byte list) \<Rightarrow> 's pb_istream \<Rightarrow> 's pb_istream \<Rightarrow> bool" where
  "failed c s s' \<longleftrightarrow> (\<exists>n \<le> bytes_left s. c (is_state s') = drop n (c (is_state s)) \<and> bytes_left s' = bytes_left s - n)"

lemma failed_refl [simp]: "failed c s s" "failed c s (s\<lparr>is_errmsg := m\<rparr>)"
  by (auto simp: failed_def intro: exI [of _ 0])

lemma advanced_failed:
  assumes "advanced c s n s1" and "failed c s1 s2"
  shows "failed c s s2"
proof -
  obtain m where "m \<le> bytes_left s1" "c (is_state s2) = drop m (c (is_state s1))" "bytes_left s2 = bytes_left s1 - m" using assms(2) by (auto simp: failed_def)
  then show ?thesis using assms(1) unfolding failed_def by (intro exI [of _ "n + m"]) (auto simp: advanced_def add.commute)
qed

lemma failed_ok: "stream_ok c s \<Longrightarrow> failed c s s' \<Longrightarrow> stream_ok c s'"
  by (auto simp: stream_ok_def failed_def)

lemma advanced_is_failed: "advanced c s n s' \<Longrightarrow> failed c s s'"
  by (auto simp: advanced_def failed_def)

lemma stream_input_length: "stream_ok c s \<Longrightarrow> length (stream_input c s) = bytes_left s"
  by (simp add: stream_ok_def stream_input_def)

lemma pb_error_failed: "\<exists>s'. pb_error m s = Some (None, s') \<and> failed c s s' \<and> is_errmsg s' \<noteq> None"
  by (auto simp: pb_error_def)

text \<open>The end of a varint and its value: 7 bits of each byte, the lowest first.\<close>

fun varint_len :: "byte list \<Rightarrow> nat option" where
  "varint_len [] = None"
| "varint_len (b # bs) = (if b AND 0x80 = 0 then Some 1 else map_option Suc (varint_len bs))"

fun varint_val :: "byte list \<Rightarrow> nat" where
  "varint_val [] = 0"
| "varint_val (b # bs) = unat b mod 128 + 128 * varint_val bs"

fun varint_word :: "byte list \<Rightarrow> 'a::len word" where
  "varint_word [] = 0"
| "varint_word (b # bs) = ucast (b AND 0x7F) OR push_bit 7 (varint_word bs)"

lemma low7: "unat ((b :: byte) AND 0x7F) = unat b mod 128"
  using unat_and_low [of b 7] by (simp add: mask_lits)

lemma varint_word_eq: "varint_word bs = (of_nat (varint_val bs) :: 'a::len word)"
proof (induction bs)
  case (Cons b bs)
  have z: "ucast (b AND 0x7F) AND push_bit 7 (w :: 'a word) = 0" for w
  proof (rule bit_word_eqI)
    fix n
    have "bit (0x7F :: byte) n \<Longrightarrow> n < 7" by (simp add: mask_lits bit_mask_iff)
    then show "bit (ucast (b AND 0x7F) AND push_bit 7 w) n = bit (0 :: 'a word) n" by (auto simp: bit_simps)
  qed
  have "ucast (b AND 0x7F) OR push_bit 7 (w :: 'a word) = ucast (b AND 0x7F) + push_bit 7 w" for w
    by (rule disjunctive_add_eq_or [symmetric, OF z])
  moreover have "(ucast (b AND 0x7F) :: 'a word) = of_nat (unat b mod 128)" unfolding low7 [symmetric] by simp
  ultimately show ?case using Cons by (simp add: push_bit_eq_mult mult.commute)
qed simp

lemma varint_len_le: "varint_len xs = Some k \<Longrightarrow> 0 < k \<and> k \<le> length xs"
  by (induction xs arbitrary: k) (auto split: if_splits)

lemma varint_len_take: "varint_len xs = Some k \<Longrightarrow> varint_len (take k xs @ ys) = Some k"
  by (induction xs arbitrary: k) (auto split: if_splits)

context pb_source
begin

lemma fetch_ok:
  assumes ok: "stream_ok content s" and n: "n \<le> bytes_left s"
  shows "\<exists>s'. pb_fetch io s n = Some (Some (take n (stream_input content s)), s') \<and> advanced content s n s'"
proof -
  obtain st where st: "io_read io s n = Some (True, take n (content (is_state s)), s\<lparr>is_state := st\<rparr>)" "content st = drop n (content (is_state s))"
    using io_ok [of n s] ok n by (auto simp: stream_ok_def)
  then show ?thesis using ok n by (simp add: pb_fetch_def stream_ok_def advanced_def stream_input_def min_def)
qed

lemma read_ok:
  assumes ok: "stream_ok content s" and n: "n \<le> bytes_left s"
  shows "\<exists>s'. pb_read io s n = Some (Some (take n (stream_input content s)), s') \<and> advanced content s n s'"
  using fetch_ok [OF assms] by (cases "n = 0") (auto simp: pb_read_def)

lemma read_short:
  assumes "bytes_left s < n"
  shows "\<exists>s'. pb_read io s n = Some (None, s') \<and> failed content s s'" "\<exists>s'. pb_fetch io s n = Some (None, s') \<and> failed content s s'"
  using assms by (auto simp: pb_read_def pb_fetch_def pb_error_def)

lemma readbyte_ok:
  assumes ok: "stream_ok content s" and x: "stream_input content s = b # bs"
  shows "\<exists>s'. pb_readbyte io s = Some (Some b, s') \<and> advanced content s 1 s' \<and> stream_ok content s' \<and> stream_input content s' = bs"
proof -
  have l: "1 \<le> bytes_left s" using stream_input_length [OF ok] x by simp
  obtain st where st: "io_read io s 1 = Some (True, take 1 (content (is_state s)), s\<lparr>is_state := st\<rparr>)" "content st = drop 1 (content (is_state s))"
    using io_ok [of 1 s] ok l by (auto simp: stream_ok_def)
  obtain ys where ys: "content (is_state s) = b # ys" using x by (cases "content (is_state s)"; cases "bytes_left s") (auto simp: stream_input_def)
  have "pb_readbyte io s = Some (Some b, s\<lparr>is_state := st, bytes_left := bytes_left s - 1\<rparr>)" using st(1) l ok by (simp add: pb_readbyte_def ys stream_ok_def)
  moreover have a: "advanced content s 1 (s\<lparr>is_state := st, bytes_left := bytes_left s - 1\<rparr>)" using st(2) l by (simp add: advanced_def)
  ultimately show ?thesis using advanced_ok [OF ok a] x by auto
qed

lemma readbyte_end: "stream_input content s = [] \<Longrightarrow> stream_ok content s \<Longrightarrow> \<exists>s'. pb_readbyte io s = Some (None, s') \<and> failed content s s'"
  using stream_input_length [of content s] by (auto simp: pb_readbyte_def pb_error_def)

text \<open>Skipping gives the same stream as reading, in chunks too.\<close>

lemma skip_chunks_ok:
  "stream_ok content s \<Longrightarrow> n \<le> bytes_left s \<Longrightarrow> \<exists>s'. skip_chunks io s n = Some (Some (), s') \<and> advanced content s n s'"
proof (induction n arbitrary: s rule: less_induct)
  case (less n)
  show ?case
  proof (cases "16 < n")
    case True
    obtain s1 where s1: "pb_read io s 16 = Some (Some (take 16 (stream_input content s)), s1)" "advanced content s 16 s1" using read_ok [OF less.prems(1), of 16] less.prems(2) True by auto
    have "n - 16 \<le> bytes_left s1" using s1(2) less.prems(2) by (simp add: advanced_def)
    then obtain s2 where "skip_chunks io s1 (n - 16) = Some (Some (), s2)" "advanced content s1 (n - 16) s2" using less.IH [of "n - 16" s1] True advanced_ok(1) [OF less.prems(1) s1(2)] by auto
    then show ?thesis using True s1(1) advanced_trans [OF s1(2), of "n - 16"] by (auto simp del: skip_chunks.simps simp add: skip_chunks.simps [of io s n])
  next
    case False
    then show ?thesis using read_ok [OF less.prems] by auto
  qed
qed

lemma read_null_ok:
  assumes "stream_ok content s" and "n \<le> bytes_left s"
  shows "\<exists>s'. pb_read_null io s n = Some (Some (), s') \<and> advanced content s n s'"
  using skip_chunks_ok [OF assms] fetch_ok [OF assms] by (cases "n = 0") (auto simp: pb_read_null_def)

lemma skip_chunks_short: "stream_ok content s \<Longrightarrow> bytes_left s < n \<Longrightarrow> \<exists>s'. skip_chunks io s n = Some (None, s') \<and> failed content s s'"
proof (induction n arbitrary: s rule: less_induct)
  case (less n)
  consider "16 < n" "16 \<le> bytes_left s" | "16 < n" "bytes_left s < 16" | "n \<le> 16" by linarith
  then show ?case
  proof cases
    case 1
    obtain s1 where s1: "pb_read io s 16 = Some (Some (take 16 (stream_input content s)), s1)" "advanced content s 16 s1" using read_ok [OF less.prems(1) 1(2)] by auto
    have "bytes_left s1 < n - 16" using s1(2) less.prems(2) 1(2) by (simp add: advanced_def)
    then obtain s2 where "skip_chunks io s1 (n - 16) = Some (None, s2)" "failed content s1 s2" using less.IH [of "n - 16" s1] 1 advanced_ok(1) [OF less.prems(1) s1(2)] by auto
    then show ?thesis using 1 s1(1) advanced_failed [OF s1(2)] by (auto simp del: skip_chunks.simps simp add: skip_chunks.simps [of io s n])
  next
    case 2
    then show ?thesis using read_short(1) [of s 16] by auto
  next
    case 3
    then show ?thesis using read_short(1) [of s n] less.prems(2) by auto
  qed
qed

lemma read_null_short:
  assumes "stream_ok content s" and "bytes_left s < n"
  shows "\<exists>s'. pb_read_null io s n = Some (None, s') \<and> failed content s s'"
  using skip_chunks_short [OF assms] read_short(2) [OF assms(2)] assms(2) by (auto simp: pb_read_null_def)

end

section \<open>Varints of 64 bits\<close>

declare varint_loop.simps [simp del] raw_varint.simps [simp del]

context pb_source
begin

lemma varint_loop_reads:
  "stream_ok content s \<Longrightarrow> varint_len (stream_input content s) = Some k \<Longrightarrow> unat bitpos = 7 * j \<Longrightarrow> j + k \<le> 10 \<Longrightarrow>
   \<exists>s'. varint_loop io s result bitpos = Some (Some (result OR push_bit (7 * j) (varint_word (take k (stream_input content s)))), s') \<and> advanced content s k s'"
proof (induction k arbitrary: s result bitpos j)
  case 0
  then show ?case using varint_len_le by blast
next
  case (Suc k)
  obtain b bs where x: "stream_input content s = b # bs" using Suc.prems(2) by (cases "stream_input content s") auto
  obtain s1 where s1: "pb_readbyte io s = Some (Some b, s1)" "advanced content s 1 s1" "stream_ok content s1" "stream_input content s1 = bs" using readbyte_ok [OF Suc.prems(1) x] by auto
  have lt: "\<not> 64 \<le> bitpos" using Suc.prems(3,4) by (simp add: word_le_nat_alt)
  let ?r = "result OR push_bit (7 * j) (ucast (b AND 0x7F))"
  have e: "varint_loop io s result bitpos = (if b AND 0x80 \<noteq> 0 then varint_loop io s1 ?r (bitpos + 7) else Some (Some ?r, s1))"
    unfolding varint_loop.simps [of io s] using lt s1(1) Suc.prems(3) by (simp add: Let_def)
  show ?case
  proof (cases "b AND 0x80 = 0")
    case True
    then have "k = 0" using Suc.prems(2) x by simp
    then show ?thesis using True e x s1(2) by auto
  next
    case False
    then have k: "varint_len (stream_input content s1) = Some k" using Suc.prems(2) x s1(4) by simp
    have j: "unat (bitpos + 7) = 7 * Suc j" using bitpos_next [of bitpos] lt Suc.prems(3) by (simp add: not_le)
    have push: "push_bit (7 * Suc j) w = push_bit (7 * j) (push_bit 7 w)" for w :: uint64 by (simp add: push_bit_push_bit add.commute)
    obtain s2 where s2: "varint_loop io s1 ?r (bitpos + 7) = Some (Some (?r OR push_bit (7 * Suc j) (varint_word (take k bs))), s2)" "advanced content s1 k s2"
      using Suc.IH [OF s1(3) k j, of ?r] Suc.prems(4) s1(4) by auto
    have "?r OR push_bit (7 * Suc j) (varint_word (take k bs)) = result OR push_bit (7 * j) (varint_word (take (Suc k) (b # bs)))"
      unfolding push by (simp add: or.assoc push_bit_or)
    then show ?thesis using e s2 False advanced_trans [OF s1(2) s2(2)] x by (auto simp del: mult_Suc_right)
  qed
qed

lemma varint_loop_fails:
  "stream_ok content s \<Longrightarrow> (\<And>k. varint_len (stream_input content s) = Some k \<Longrightarrow> 10 < j + k) \<Longrightarrow> unat bitpos = 7 * j \<Longrightarrow> j \<le> 10 \<Longrightarrow>
   \<exists>s'. varint_loop io s result bitpos = Some (None, s') \<and> failed content s s'"
proof (induction "10 - j" arbitrary: s result bitpos j)
  case 0
  then have "64 \<le> bitpos" by (simp add: word_le_nat_alt)
  then show ?case unfolding varint_loop.simps [of io s] using pb_error_failed by fastforce
next
  case (Suc n)
  have lt: "\<not> 64 \<le> bitpos" using Suc.prems(3) Suc.hyps(2) by (simp add: word_le_nat_alt)
  show ?case
  proof (cases "stream_input content s")
    case Nil
    then show ?thesis unfolding varint_loop.simps [of io s] using lt readbyte_end [OF Nil Suc.prems(1)] by auto
  next
    case (Cons b bs)
    obtain s1 where s1: "pb_readbyte io s = Some (Some b, s1)" "advanced content s 1 s1" "stream_ok content s1" "stream_input content s1 = bs" using readbyte_ok [OF Suc.prems(1) Cons] by auto
    have b: "b AND 0x80 \<noteq> 0" using Suc.prems(2) [of 1] Suc.hyps(2) Cons by auto
    have j: "unat (bitpos + 7) = 7 * Suc j" using bitpos_next [of bitpos] lt Suc.prems(3) by (simp add: not_le)
    have "n = 10 - Suc j" "Suc j \<le> 10" using Suc.hyps(2) by auto
    moreover have "10 < Suc j + k" if "varint_len (stream_input content s1) = Some k" for k using Suc.prems(2) [of "Suc k"] that b Cons s1(4) by simp
    ultimately obtain s2 where "varint_loop io s1 (result OR push_bit (7 * j) (ucast (b AND 0x7F))) (bitpos + 7) = Some (None, s2)" "failed content s1 s2"
      using Suc.hyps(1) [OF _ s1(3) _ j] by blast
    then show ?thesis unfolding varint_loop.simps [of io s] using lt s1(1) b Suc.prems(3) advanced_failed [OF s1(2)] by (auto simp: Let_def)
  qed
qed

lemma decode_varint_exact:
  assumes ok: "stream_ok content s"
  shows "varint_len (stream_input content s) = Some k \<Longrightarrow> k \<le> 10 \<Longrightarrow>
      \<exists>s'. pb_decode_varint io s = Some (Some (of_nat (varint_val (take k (stream_input content s)))), s') \<and> advanced content s k s'"
    and "(\<And>k. varint_len (stream_input content s) = Some k \<Longrightarrow> 10 < k) \<Longrightarrow> \<exists>s'. pb_decode_varint io s = Some (None, s') \<and> failed content s s'"
  using varint_loop_reads [OF ok, of k 0 0 0] varint_loop_fails [OF ok, of 0 0 0] by (simp_all add: pb_decode_varint_def varint_word_eq)

text \<open>Skipping a varint has no limit but the end of the input.\<close>

lemma skip_varint_ok:
  "stream_ok content s \<Longrightarrow> varint_len (stream_input content s) = Some k \<Longrightarrow> \<exists>s'. pb_skip_varint io s = Some (Some (), s') \<and> advanced content s k s'"
proof (induction k arbitrary: s)
  case 0
  then show ?case using varint_len_le by blast
next
  case (Suc k)
  obtain b bs where x: "stream_input content s = b # bs" using Suc.prems(2) by (cases "stream_input content s") auto
  have "1 \<le> bytes_left s" using stream_input_length [OF Suc.prems(1)] x by simp
  then obtain s1 where s1: "pb_read io s 1 = Some (Some [b], s1)" "advanced content s 1 s1" using read_ok [OF Suc.prems(1), of 1] x by auto
  note ok1 = advanced_ok [OF Suc.prems(1) s1(2)]
  show ?case
  proof (cases "b AND 0x80 = 0")
    case True
    then show ?thesis using Suc.prems(2) x s1 by (auto simp: pb_skip_varint.simps [of io s])
  next
    case False
    then obtain s2 where "pb_skip_varint io s1 = Some (Some (), s2)" "advanced content s1 k s2" using Suc.IH [OF ok1(1)] Suc.prems(2) x ok1(2) by auto
    then show ?thesis using False s1(1) advanced_trans [OF s1(2)] by (fastforce simp: pb_skip_varint.simps [of io s])
  qed
qed

lemma skip_varint_end: "stream_ok content s \<Longrightarrow> varint_len (stream_input content s) = None \<Longrightarrow> \<exists>s'. pb_skip_varint io s = Some (None, s') \<and> failed content s s'"
proof (induction "bytes_left s" arbitrary: s)
  case 0
  then show ?case using read_short(1) [of s 1] by (auto simp: pb_skip_varint.simps [of io s])
next
  case (Suc n)
  obtain b bs where x: "stream_input content s = b # bs" using stream_input_length [OF Suc.prems(1)] Suc.hyps(2) by (cases "stream_input content s") auto
  obtain s1 where s1: "pb_read io s 1 = Some (Some [b], s1)" "advanced content s 1 s1" using read_ok [OF Suc.prems(1), of 1] x Suc.hyps(2) by auto
  note ok1 = advanced_ok [OF Suc.prems(1) s1(2)]
  have b: "b AND 0x80 \<noteq> 0" "varint_len (stream_input content s1) = None" using Suc.prems(2) x ok1(2) by (auto split: if_splits)
  have "n = bytes_left s1" using s1(2) Suc.hyps(2) by (simp add: advanced_def)
  then obtain s2 where "pb_skip_varint io s1 = Some (None, s2)" "failed content s1 s2" using Suc.hyps(1) [OF _ ok1(1) b(2)] by blast
  then show ?case using s1(1) b(1) advanced_failed [OF s1(2)] by (auto simp: pb_skip_varint.simps [of io s])
qed

end

section \<open>Varints of 32 bits\<close>

text \<open>What the loop accepts from the byte at index \<open>j\<close> on.\<close>

fun tail32 :: "uint32 \<Rightarrow> nat \<Rightarrow> byte list \<Rightarrow> uint32 option" where
  "tail32 r j [] = None"
| "tail32 r j (b # bs) =
     (if 5 \<le> j \<and> b AND 0x7F \<noteq> 0 \<and> (drop_bit 31 r = 0 \<or> b \<noteq> (if j < 9 then 0xFF else 0x01)) then None
      else let r' = (if 5 \<le> j then r else r OR push_bit (7 * j) (ucast (b AND 0x7F)))
           in if b AND 0x80 \<noteq> 0 then tail32 r' (Suc j) bs
              else if Suc j = 5 \<and> b AND 0x70 \<noteq> 0 then None else Some r')"

lemma bitpos_next8: "unat (bitpos :: byte) = 7 * j \<Longrightarrow> j < 36 \<Longrightarrow> unat (bitpos + 7) = 7 * Suc j"
  by (simp add: unat_word_ariths)

lemma bitpos_tests:
  assumes "unat (bitpos :: byte) = 7 * j" and "j < 36"
  shows "32 \<le> bitpos \<longleftrightarrow> 5 \<le> j" and "bitpos < 63 \<longleftrightarrow> j < 9" and "bitpos + 7 = 35 \<longleftrightarrow> Suc j = 5"
  using assms bitpos_next8 [OF assms] by (auto simp: word_le_nat_alt word_less_nat_alt word_unat_eq_iff)

lemma tail32_value:
  assumes "varint_len xs = Some k" and "tail32 r j (take k xs) = Some v"
  shows "v = r OR push_bit (7 * j) (varint_word (take k xs))"
  using assms
proof (induction k arbitrary: r j xs)
  case 0
  then show ?case using varint_len_le by blast
next
  case (Suc k)
  obtain b bs where x: "xs = b # bs" using Suc.prems(1) by (cases xs) auto
  have high: "push_bit (7 * j) w = 0" if "5 \<le> j" for w :: uint32 using that by (intro bit_word_eqI) (auto simp: bit_simps)
  have push: "push_bit (7 * Suc j) w = push_bit (7 * j) (push_bit 7 w)" for w :: uint32 by (simp add: push_bit_push_bit add.commute)
  let ?r = "r OR push_bit (7 * j) (ucast (b AND 0x7F))"
  have r: "(if 5 \<le> j then r else ?r) = ?r" using high by simp
  have t: "tail32 r j (b # take k bs) = Some v" using Suc.prems(2) x by simp
  then have e: "Some v = (if b AND 0x80 \<noteq> 0 then tail32 ?r (Suc j) (take k bs) else if Suc j = 5 \<and> b AND 0x70 \<noteq> 0 then None else Some ?r)"
    unfolding tail32.simps r Let_def by (auto split: if_splits)
  show ?case
  proof (cases "b AND 0x80 = 0")
    case True
    then have "k = 0" using Suc.prems(1) x by simp
    then show ?thesis using True e x by (auto split: if_splits)
  next
    case False
    then have "v = ?r OR push_bit (7 * Suc j) (varint_word (take k bs))" using Suc.IH [of bs ?r "Suc j"] Suc.prems(1) x e by simp
    then show ?thesis unfolding push x by (simp add: or.assoc push_bit_or)
  qed
qed

context pb_source
begin

lemma varint32_loop_exact:
  "stream_ok content s \<Longrightarrow> varint_len (stream_input content s) = Some k \<Longrightarrow> unat bitpos = 7 * j \<Longrightarrow> j + k \<le> 36 \<Longrightarrow>
   (case tail32 r j (take k (stream_input content s)) of
      Some v \<Rightarrow> \<exists>s'. varint32_loop io s r bitpos = Some (Some v, s') \<and> advanced content s k s'
    | None \<Rightarrow> \<exists>s'. varint32_loop io s r bitpos = Some (None, s') \<and> failed content s s')"
proof (induction k arbitrary: s r bitpos j)
  case 0
  then show ?case using varint_len_le by blast
next
  case (Suc k)
  obtain b bs where x: "stream_input content s = b # bs" using Suc.prems(2) by (cases "stream_input content s") auto
  obtain s1 where s1: "pb_readbyte io s = Some (Some b, s1)" "advanced content s 1 s1" "stream_ok content s1" "stream_input content s1 = bs" using readbyte_ok [OF Suc.prems(1) x] by auto
  have j: "j < 36" using Suc.prems(4) by simp
  note tests = bitpos_tests [OF Suc.prems(3) j]
  let ?bad = "5 \<le> j \<and> b AND 0x7F \<noteq> 0 \<and> (drop_bit 31 r = 0 \<or> b \<noteq> (if j < 9 then 0xFF else 0x01))"
  let ?r = "if 5 \<le> j then r else r OR push_bit (7 * j) (ucast (b AND 0x7F))"
  have e: "varint32_loop io s r bitpos =
      (if ?bad then pb_error ''varint overflow'' s1
       else if b AND 0x80 \<noteq> 0 then varint32_loop io s1 ?r (bitpos + 7)
       else if Suc j = 5 \<and> b AND 0x70 \<noteq> 0 then pb_error ''varint overflow'' s1 else Some (Some ?r, s1))"
    unfolding varint32_loop.simps [of io s] using s1(1) by (simp only: tests Suc.prems(3) Let_def option.case prod.case)
  have bad: "\<exists>s'. pb_error ''varint overflow'' s1 = Some (None, s') \<and> failed content s s'" for m
    using pb_error_failed [of "''varint overflow''" s1 content] advanced_failed [OF s1(2)] by blast
  have t: "tail32 r j (take (Suc k) (stream_input content s)) =
      (if ?bad then None else if b AND 0x80 \<noteq> 0 then tail32 ?r (Suc j) (take k bs) else if Suc j = 5 \<and> b AND 0x70 \<noteq> 0 then None else Some ?r)"
    unfolding x take_Suc_Cons tail32.simps Let_def ..
  consider (bad) ?bad | (more) "\<not> ?bad" "b AND 0x80 \<noteq> 0" | (stop) "\<not> ?bad" "b AND 0x80 = 0" by blast
  then show ?case
  proof cases
    case bad
    then show ?thesis unfolding t e using \<open>\<exists>s'. pb_error ''varint overflow'' s1 = Some (None, s') \<and> failed content s s'\<close> by simp
  next
    case more
    have l: "varint_len (stream_input content s1) = Some k" using Suc.prems(2) more(2) x s1(4) by simp
    have eq: "varint32_loop io s r bitpos = varint32_loop io s1 ?r (bitpos + 7)" unfolding e using more by (simp only: if_True if_False not_False_eq_True)
    have tq: "tail32 r j (take (Suc k) (stream_input content s)) = tail32 ?r (Suc j) (take k (stream_input content s1))"
      unfolding t s1(4) using more by (simp only: if_True if_False not_False_eq_True)
    have "case tail32 ?r (Suc j) (take k (stream_input content s1)) of
        Some v \<Rightarrow> \<exists>s'. varint32_loop io s1 ?r (bitpos + 7) = Some (Some v, s') \<and> advanced content s1 k s'
      | None \<Rightarrow> \<exists>s'. varint32_loop io s1 ?r (bitpos + 7) = Some (None, s') \<and> failed content s1 s'"
      by (rule Suc.IH [OF s1(3) l bitpos_next8 [OF Suc.prems(3) j]]) (use Suc.prems(4) in simp)
    then show ?thesis unfolding eq tq using advanced_trans [OF s1(2), of k] advanced_failed [OF s1(2)] by (fastforce split: option.splits)
  next
    case stop
    then have "k = 0" using Suc.prems(2) x by simp
    then show ?thesis unfolding t e using stop s1(2) bad by (cases "Suc j = 5 \<and> b AND 0x70 \<noteq> 0") (simp_all only: if_True if_False not_False_eq_True simp_thms option.case, auto)
  qed
qed

lemma varint32_loop_returns: "stream_ok content s \<Longrightarrow> \<exists>v s'. varint32_loop io s r bitpos = Some (v, s') \<and> failed content s s'"
proof (induction "bytes_left s" arbitrary: s r bitpos)
  case 0
  then have "stream_input content s = []" using stream_input_length [OF 0(2)] by simp
  then show ?case using readbyte_end [OF _ 0(2)] by (auto simp: varint32_loop.simps [of io s])
next
  case (Suc n)
  obtain b bs where x: "stream_input content s = b # bs" using stream_input_length [OF Suc.prems(1)] Suc.hyps(2) by (cases "stream_input content s") auto
  obtain s1 where s1: "pb_readbyte io s = Some (Some b, s1)" "advanced content s 1 s1" "stream_ok content s1" "stream_input content s1 = bs" using readbyte_ok [OF Suc.prems x] by auto
  have n: "n = bytes_left s1" using s1(2) Suc.hyps(2) by (simp add: advanced_def)
  have err: "\<exists>v s'. pb_error ''varint overflow'' s1 = Some (v, s') \<and> failed content s s'" using pb_error_failed [of "''varint overflow''" s1 content] advanced_failed [OF s1(2)] by blast
  have rec: "\<exists>v s'. varint32_loop io s1 r' p = Some (v, s') \<and> failed content s s'" for r' p using Suc.hyps(1) [OF n s1(3)] advanced_failed [OF s1(2)] by blast
  have fin: "\<exists>v s'. Some (Some w, s1) = Some (v, s') \<and> failed content s s'" for w :: uint32 using advanced_is_failed [OF s1(2)] by blast
  show ?case unfolding varint32_loop.simps [of io s] s1(1) Let_def option.case prod.case using err rec fin by (simp split: if_split) blast
qed

end

lemma varint_val_eq_0: "varint_len xs = Some k \<Longrightarrow> varint_val (take k xs) = 0 \<Longrightarrow> i < k \<Longrightarrow> unat (xs ! i) mod 128 = 0"
proof (induction xs arbitrary: k i)
  case (Cons b bs)
  then obtain m where "k = Suc m" using varint_len_le [OF Cons.prems(1)] by (cases k) auto
  then show ?case using Cons by (cases i) (auto split: if_splits)
qed simp

text \<open>A value of 32 bits is accepted in every encoding of at most 36 bytes.\<close>

lemma tail32_accepts:
  assumes "varint_len xs = Some k" and "2 ^ (7 * j) * varint_val (take k xs) < 2 ^ 32"
  shows "tail32 r j (take k xs) \<noteq> None"
  using assms
proof (induction k arbitrary: r j xs)
  case 0
  then show ?case using varint_len_le by blast
next
  case (Suc k)
  obtain b bs where x: "xs = b # bs" using Suc.prems(1) by (cases xs) auto
  have v: "2 ^ (7 * j) * (unat b mod 128) + 2 ^ (7 * Suc j) * varint_val (take k bs) < 2 ^ 32" using Suc.prems(2) by (simp add: x distrib_left power_add mult.assoc)
  have low: "b AND 0x7F = 0" if "5 \<le> j"
  proof -
    have "(2 :: nat) ^ 35 \<le> 2 ^ (7 * j)" using that by (intro power_increasing) auto
    then have "2 ^ 35 * (unat b mod 128) < 2 ^ 32" using v mult_le_mono1 [of "2 ^ 35" "2 ^ (7 * j)" "unat b mod 128"] by linarith
    then have "unat b mod 128 = 0" by simp
    then show ?thesis using low7 [of b] by (simp add: word_unat_eq_iff)
  qed
  show ?case
  proof (cases "b AND 0x80 = 0")
    case True
    have "b AND 0x70 = 0" if "j = 4"
    proof -
      have "2 ^ 28 * (unat b mod 128) < 2 ^ 32" using v that by simp
      then have "unat b mod 128 < 16" by simp
      moreover have "unat b < 128" using True byte_high_bit by blast
      ultimately have "unat b < 2 ^ 4" by simp
      then have z: "drop_bit 4 b = 0" by (simp add: drop_bit_eq_0_iff_unat)
      have nb: "\<not> bit b i" if "4 \<le> i" for i
      proof -
        have "bit (drop_bit 4 b) (i - 4) = bit b i" using that by (simp add: bit_drop_bit_eq)
        then show ?thesis unfolding z by simp
      qed
      have "(0x70 :: byte) = push_bit 4 7" by simp
      then have "4 \<le> i" if "bit (0x70 :: byte) i" for i using that by (simp only: bit_push_bit_iff)
      then show ?thesis using nb by (intro bit_word_eqI) (auto simp: bit_and_iff)
    qed
    then show ?thesis using True low by (auto simp: x Let_def)
  next
    case False
    have "2 ^ (7 * Suc j) * varint_val (take k bs) < 2 ^ 32" using v by linarith
    then have "tail32 r' (Suc j) (take k bs) \<noteq> None" for r' using Suc.IH [of bs "Suc j" r'] Suc.prems(1) False x by simp
    then show ?thesis using False low by (auto simp: x Let_def)
  qed
qed

context pb_source
begin

lemma varint32_exact:
  assumes ok: "stream_ok content s" and k: "varint_len (stream_input content s) = Some k" "k \<le> 36"
  shows "(\<exists>s'. pb_decode_varint32_eof io s = Some ((Some (of_nat (varint_val (take k (stream_input content s)))), False), s') \<and> advanced content s k s') \<or>
         (\<exists>s'. pb_decode_varint32_eof io s = Some ((None, False), s') \<and> failed content s s' \<and> 2 ^ 32 \<le> varint_val (take k (stream_input content s)))"
proof -
  obtain b bs where x: "stream_input content s = b # bs" using k(1) by (cases "stream_input content s") auto
  obtain s1 where s1: "pb_readbyte io s = Some (Some b, s1)" "advanced content s 1 s1" "stream_ok content s1" "stream_input content s1 = bs" using readbyte_ok [OF ok x] by auto
  show ?thesis
  proof (cases "b AND 0x80 = 0")
    case True
    then have u: "unat b < 128" "k = 1" using byte_high_bit [of b] k(1) x by auto
    then have "(ucast b :: uint32) = of_nat (varint_val (take k (stream_input content s)))" by (simp add: x)
    then show ?thesis using True s1(1,2) u(2) by (auto simp: pb_decode_varint32_eof_def)
  next
    case False
    obtain m where m: "k = Suc m" "varint_len bs = Some m" using k(1) x False by auto
    let ?t = "tail32 (ucast (b AND 0x7F)) 1 (take m bs)"
    have e: "pb_decode_varint32_eof io s = map_option (\<lambda>(r, s''). ((r, False), s'')) (varint32_loop io s1 (ucast (b AND 0x7F)) 7)" using False s1(1) by (simp add: pb_decode_varint32_eof_def)
    have l: "case ?t of Some v \<Rightarrow> \<exists>s'. varint32_loop io s1 (ucast (b AND 0x7F)) 7 = Some (Some v, s') \<and> advanced content s1 m s'
        | None \<Rightarrow> \<exists>s'. varint32_loop io s1 (ucast (b AND 0x7F)) 7 = Some (None, s') \<and> failed content s1 s'"
      using varint32_loop_exact [OF s1(3), of m 7 1] m(2) s1(4) k(2) m(1) by simp
    show ?thesis
    proof (cases ?t)
      case None
      then have "\<not> 2 ^ 7 * varint_val (take m bs) < 2 ^ 32" using tail32_accepts [OF m(2), of 1 "ucast (b AND 0x7F)"] by auto
      then have "2 ^ 32 \<le> varint_val (take k (stream_input content s))" by (simp add: x m(1))
      then show ?thesis using None l advanced_failed [OF s1(2)] unfolding e by auto
    next
      case (Some v)
      have "v = varint_word (b # take m bs)" using tail32_value [OF m(2) Some] by simp
      then have v: "v = of_nat (varint_val (take k (stream_input content s)))" unfolding varint_word_eq x m(1) take_Suc_Cons .
      obtain s2 where "varint32_loop io s1 (ucast (b AND 0x7F)) 7 = Some (Some v, s2)" "advanced content s1 m s2" using l Some by auto
      then show ?thesis using advanced_trans [OF s1(2), of m s2] unfolding e v m(1) by auto
    qed
  qed
qed

lemma varint32_returns:
  assumes ok: "stream_ok content s"
  shows "\<exists>v e s'. pb_decode_varint32_eof io s = Some ((v, e), s') \<and> failed content s s'"
proof (cases "stream_input content s")
  case Nil
  then show ?thesis using readbyte_end [OF Nil ok] by (auto simp: pb_decode_varint32_eof_def)
next
  case (Cons b bs)
  obtain s1 where s1: "pb_readbyte io s = Some (Some b, s1)" "advanced content s 1 s1" "stream_ok content s1" using readbyte_ok [OF ok Cons] by auto
  then show ?thesis using varint32_loop_returns [OF s1(3), of "ucast (b AND 0x7F)" 7] advanced_failed [OF s1(2)] advanced_is_failed [OF s1(2)]
    by (auto simp: pb_decode_varint32_eof_def)
qed

end

section \<open>Everything else on the wire\<close>

context pb_source
begin

lemma varint32_ok:
  assumes ok: "stream_ok content s" and k: "varint_len (stream_input content s) = Some k" "k \<le> 36" and v: "varint_val (take k (stream_input content s)) < 2 ^ 32"
  shows "\<exists>s'. pb_decode_varint32_eof io s = Some ((Some (of_nat (varint_val (take k (stream_input content s)))), False), s') \<and> advanced content s k s'"
    and "\<exists>s'. pb_decode_varint32 io s = Some (Some (of_nat (varint_val (take k (stream_input content s)))), s') \<and> advanced content s k s'"
  using varint32_exact [OF ok k] v by (auto simp: pb_decode_varint32_def)

lemma decode_tag_ok:
  assumes ok: "stream_ok content s" and k: "varint_len (stream_input content s) = Some k" "k \<le> 36"
    and v: "varint_val (take k (stream_input content s)) = unat w" and w: "(w :: uint32) \<noteq> 0"
  shows "\<exists>s'. pb_decode_tag io s = Some ((Some (drop_bit 3 w, w AND 7), False), s') \<and> advanced content s k s'"
proof -
  have lt: "varint_val (take k (stream_input content s)) < 2 ^ 32" using v unsigned_less [of w] by simp
  obtain s' where e: "pb_decode_varint32_eof io s = Some ((Some (of_nat (unat w)), False), s')" "advanced content s k s'"
    using varint32_ok(1) [OF ok k lt] unfolding v by blast
  have "(of_nat (unat w) :: uint32) = w" by simp
  then have "pb_decode_varint32_eof io s = Some ((Some w, False), s')" using e(1) by simp
  then show ?thesis using e(2) w by (simp add: pb_decode_tag_def)
qed

text \<open>The end of the input is not an error of the tag.\<close>

lemma decode_tag_end:
  assumes ok: "stream_ok content s" and x: "stream_input content s = []"
  shows "\<exists>s'. pb_decode_tag io s = Some ((None, True), s') \<and> bytes_left s' = 0"
proof -
  have z: "bytes_left s = 0" using stream_input_length [OF ok] x by simp
  obtain s' where "pb_readbyte io s = Some (None, s')" "failed content s s'" using readbyte_end [OF x ok] by blast
  moreover have "bytes_left s' = 0" using calculation(2) z by (auto simp: failed_def)
  ultimately show ?thesis by (auto simp: pb_decode_tag_def pb_decode_varint32_eof_def)
qed

lemma fixed32_ok:
  assumes ok: "stream_ok content s" and x: "stream_input content s = b0 # b1 # b2 # b3 # bs"
  shows "\<exists>s'. pb_decode_fixed32 io s = Some (Some (ucast b0 OR push_bit 8 (ucast b1) OR push_bit 16 (ucast b2) OR push_bit 24 (ucast b3)), s') \<and> advanced content s 4 s'"
proof -
  have "4 \<le> bytes_left s" using stream_input_length [OF ok] x by simp
  then obtain s' where "pb_read io s 4 = Some (Some [b0, b1, b2, b3], s')" "advanced content s 4 s'" using read_ok [OF ok, of 4] x by (auto simp: numeral_eq_Suc)
  then show ?thesis by (simp add: pb_decode_fixed32_def)
qed

lemma fixed64_ok:
  assumes ok: "stream_ok content s" and x: "stream_input content s = b0 # b1 # b2 # b3 # b4 # b5 # b6 # b7 # bs"
  shows "\<exists>s'. pb_decode_fixed64 io s = Some (Some (ucast b0 OR push_bit 8 (ucast b1) OR push_bit 16 (ucast b2) OR push_bit 24 (ucast b3) OR
                       push_bit 32 (ucast b4) OR push_bit 40 (ucast b5) OR push_bit 48 (ucast b6) OR push_bit 56 (ucast b7)), s') \<and> advanced content s 8 s'"
proof -
  have "8 \<le> bytes_left s" using stream_input_length [OF ok] x by simp
  then obtain s' where "pb_read io s 8 = Some (Some [b0, b1, b2, b3, b4, b5, b6, b7], s')" "advanced content s 8 s'" using read_ok [OF ok, of 8] x by (auto simp: numeral_eq_Suc)
  then show ?thesis by (simp add: pb_decode_fixed64_def)
qed

text \<open>A substream has the bytes that its length announces, and closing it leaves the parent after them, however much was read.\<close>

lemma substream_ok:
  assumes ok: "stream_ok content s" and k: "varint_len (stream_input content s) = Some k" "k \<le> 36"
    and n: "varint_val (take k (stream_input content s)) = n" "n < 2 ^ 32" "k + n \<le> length (stream_input content s)"
  obtains s1 sub where "pb_make_string_substream io s = Some (Some sub, s1)" "stream_ok content sub" "stream_input content sub = take n (drop k (stream_input content s))" "bytes_left sub = n"
    "is_state s1 = is_state sub" "bytes_left s1 = bytes_left s - k - n" "is_errmsg s1 = is_errmsg s" "is_errmsg sub = is_errmsg s"
    "content (is_state sub) = drop k (content (is_state s))"
proof -
  obtain s' where s': "pb_decode_varint32 io s = Some (Some (of_nat n), s')" "advanced content s k s'" using varint32_ok(2) [OF ok k] n(1,2) by auto
  have u: "unat (of_nat n :: uint32) = n" using n(2) by (simp add: unat_of_nat)
  note ok' = advanced_ok [OF ok s'(2)]
  have l: "n \<le> bytes_left s'" using n(3) stream_input_length [OF ok] s'(2) by (simp add: advanced_def)
  show ?thesis
    by (rule that [of "s'\<lparr>bytes_left := n\<rparr>" "s'\<lparr>bytes_left := bytes_left s' - n\<rparr>"])
      (use s' l ok'(1) ok'(2) [symmetric] u in \<open>auto simp: pb_make_string_substream_def stream_ok_def stream_input_def advanced_def min_def\<close>)
qed

lemma close_ok:
  assumes ok: "stream_ok content sub" and s: "stream_ok content s"
  shows "\<exists>s' sub'. pb_close_string_substream io s sub = Some (Some (), s') \<and> is_state s' = is_state sub' \<and> advanced content sub (bytes_left sub) sub' \<and> bytes_left s' = bytes_left s \<and> is_errmsg s' = is_errmsg sub"
proof (cases "bytes_left sub = 0")
  case True
  then show ?thesis by (auto simp: pb_close_string_substream_def intro!: exI [of _ sub])
next
  case False
  then show ?thesis using read_null_ok [OF ok, of "bytes_left sub"] by (auto simp: pb_close_string_substream_def advanced_def)
qed

lemma skip_string_ok:
  assumes ok: "stream_ok content s" and k: "varint_len (stream_input content s) = Some k" "k \<le> 36"
    and n: "varint_val (take k (stream_input content s)) = n" "n < 2 ^ 32" "k + n \<le> length (stream_input content s)"
  shows "\<exists>s'. pb_skip_string io s = Some (Some (), s') \<and> advanced content s (k + n) s'"
proof -
  obtain s' where s': "pb_decode_varint32 io s = Some (Some (of_nat n), s')" "advanced content s k s'" using varint32_ok(2) [OF ok k] n(1,2) by auto
  have u: "unat (of_nat n :: uint32) = n" using n(2) by (simp add: unat_of_nat)
  have l: "n \<le> bytes_left s'" using n(3) stream_input_length [OF ok] s'(2) by (simp add: advanced_def)
  obtain s2 where "pb_read_null io s' n = Some (Some (), s2)" "advanced content s' n s2" using read_null_ok [OF advanced_ok(1) [OF ok s'(2)] l] by blast
  then show ?thesis using s'(1) u advanced_trans [OF s'(2)] by (auto simp: pb_skip_string_def)
qed

end

section \<open>Any input\<close>

text \<open>A call returns, within the limit of the stream.\<close>

definition returns :: "('s \<Rightarrow> byte list) \<Rightarrow> 's pb_istream \<Rightarrow> ('s, 'a) pb_result \<Rightarrow> bool" where
  "returns c s r \<longleftrightarrow> (\<exists>v s'. r = Some (v, s') \<and> failed c s s')"

lemma failed_trans: "failed c s s1 \<Longrightarrow> failed c s1 s2 \<Longrightarrow> failed c s s2"
  unfolding failed_def by (elim exE conjE, rule_tac x = "n + na" in exI) (auto simp: add.commute)

lemma returns_then:
  assumes "returns c s r" and "\<And>v s'. r = Some (Some v, s') \<Longrightarrow> failed c s s' \<Longrightarrow> returns c s' (f v s')"
  shows "returns c s (pb_then r f)"
proof -
  obtain v s1 where r: "r = Some (v, s1)" "failed c s s1" using assms(1) by (auto simp: returns_def)
  show ?thesis
  proof (cases v)
    case (Some x)
    then obtain w s2 where "f x s1 = Some (w, s2)" "failed c s1 s2" using assms(2) [of x s1] r by (auto simp: returns_def)
    then show ?thesis using r Some failed_trans by (fastforce simp: returns_def)
  qed (use r in \<open>auto simp: returns_def\<close>)
qed

lemma returns_Some [simp]: "returns c s (Some (v, s)) = True" "returns c s (pb_error m s) = True"
  by (auto simp: returns_def pb_error_def)

context pb_source
begin

lemma returns_read: "stream_ok content s \<Longrightarrow> returns content s (pb_read io s n)"
  using read_ok [of s n] read_short(1) [of s n] by (cases "n \<le> bytes_left s") (auto simp: returns_def dest: advanced_is_failed)

lemma read_length: "stream_ok content s \<Longrightarrow> pb_read io s n = Some (Some bs, s') \<Longrightarrow> length bs = n"
  using read_ok [of s n] read_short(1) [of s n] stream_input_length [of content s] by (cases "n \<le> bytes_left s") auto

lemma returns_read_null: "stream_ok content s \<Longrightarrow> returns content s (pb_read_null io s n)"
  using read_null_ok [of s n] read_null_short [of s n] by (cases "n \<le> bytes_left s") (auto simp: returns_def dest: advanced_is_failed)

lemma returns_varint32: "stream_ok content s \<Longrightarrow> returns content s (pb_decode_varint32 io s)"
  using varint32_returns [of s] by (auto simp: returns_def pb_decode_varint32_def)

lemma returns_varint: "stream_ok content s \<Longrightarrow> returns content s (pb_decode_varint io s)"
  using decode_varint_exact [of s] advanced_is_failed by (cases "\<exists>k. varint_len (stream_input content s) = Some k \<and> k \<le> 10") (fastforce simp: returns_def not_le)+

lemma returns_skip_varint: "stream_ok content s \<Longrightarrow> returns content s (pb_skip_varint io s)"
  using skip_varint_ok [of s] skip_varint_end [of s] advanced_is_failed by (cases "varint_len (stream_input content s)") (fastforce simp: returns_def)+

lemma returns_skip_field:
  assumes ok: "stream_ok content s"
  shows "returns content s (pb_skip_field io s w)"
proof -
  have "returns content s (pb_skip_string io s)" unfolding pb_skip_string_def
    by (rule returns_then [OF returns_varint32 [OF ok]]) (use failed_ok [OF ok] returns_read_null in blast)
  then show ?thesis by (simp add: pb_skip_field_def returns_skip_varint [OF ok] returns_read_null [OF ok])
qed

lemma returns_raw: "stream_ok content s \<Longrightarrow> returns content s (raw_varint io s acc m)"
proof (induction "m - length acc" arbitrary: s acc)
  case 0
  then show ?case by (subst raw_varint.simps) simp
next
  case (Suc n)
  have "returns content s' (case bs of [] \<Rightarrow> None | b # _ \<Rightarrow> if b AND 0x80 \<noteq> 0 then raw_varint io s' (acc @ [b]) m else Some (Some (acc @ [b]), s'))"
    if r: "pb_read io s 1 = Some (Some bs, s')" "failed content s s'" for bs s'
  proof -
    obtain b where "bs = [b]" using read_length [OF Suc.prems r(1)] by (auto simp: length_Suc_conv)
    moreover have "returns content s' (raw_varint io s' (acc @ [b]) m)" using Suc.hyps(1) [of "acc @ [b]" s'] Suc.hyps(2) failed_ok [OF Suc.prems r(2)] by simp
    ultimately show ?thesis by simp
  qed
  then show ?case by (subst raw_varint.simps) (auto intro!: returns_then [OF returns_read [OF Suc.prems]])
qed

lemma returns_fixed:
  assumes ok: "stream_ok content s"
  shows "returns content s (pb_decode_fixed32 io s)" "returns content s (pb_decode_fixed64 io s)"
  unfolding pb_decode_fixed32_def pb_decode_fixed64_def
  by (rule returns_then [OF returns_read [OF ok]], drule read_length [OF ok], auto simp: length_Suc_conv numeral_eq_Suc)+

text \<open>The parent of a substream has its limit set past the substream but keeps its position.\<close>

lemma substream_returns:
  assumes ok: "stream_ok content s"
  shows "\<exists>v s'. pb_make_string_substream io s = Some (v, s') \<and> stream_ok content s' \<and> bytes_left s' \<le> bytes_left s \<and> (\<forall>sub. v = Some sub \<longrightarrow> stream_ok content sub \<and> bytes_left sub \<le> bytes_left s)"
proof -
  obtain v s1 where r: "pb_decode_varint32 io s = Some (v, s1)" "failed content s s1" using returns_varint32 [OF ok] by (auto simp: returns_def)
  have ok1: "stream_ok content s1" "bytes_left s1 \<le> bytes_left s" using failed_ok [OF ok r(2)] r(2) by (auto simp: failed_def)
  then show ?thesis using r(1) by (cases v) (auto simp: pb_make_string_substream_def pb_error_def stream_ok_def)
qed

end

end
