(* ===== verification/Pb_Encode.thy ===== *)
theory Pb_Encode
  imports Pb_Decode
begin

text \<open>
  The output side of nanopb, \<open>pb_encode.c\<close>: streams and the wire format. The result is the returned truth value and the stream, or \<open>None\<close> if
  memory outside of the buffer is written. The callback is \<open>None\<close> for a stream that only counts (\<open>PB_OSTREAM_SIZING\<close>).
\<close>

record 's pb_ostream =
  os_state :: 's
  max_size :: nat
  bytes_written :: nat
  os_errmsg :: "string option"

type_synonym 's pb_write_cb = "'s pb_ostream \<Rightarrow> byte list \<Rightarrow> (bool \<times> 's pb_ostream) option"

section \<open>Streams\<close>

definition os_error :: "string \<Rightarrow> 's pb_ostream \<Rightarrow> (bool \<times> 's pb_ostream) option" where
  "os_error msg s = Some (False, s\<lparr>os_errmsg := Some (case os_errmsg s of None \<Rightarrow> msg | Some m \<Rightarrow> m)\<rparr>)"

definition os_then :: "(bool \<times> 's pb_ostream) option \<Rightarrow> ('s pb_ostream \<Rightarrow> (bool \<times> 's pb_ostream) option) \<Rightarrow> (bool \<times> 's pb_ostream) option" where
  "os_then r f = (case r of None \<Rightarrow> None | Some (ok, s) \<Rightarrow> if ok then f s else Some (False, s))"

text \<open>The state of a buffer stream is the memory of the buffer and the offset of the pointer in it.\<close>

definition pb_buf_write :: "(byte list \<times> nat) pb_write_cb" where
  "pb_buf_write s bs =
     (case os_state s of
        (mem, p) \<Rightarrow>
          if p + length bs \<le> length mem
          then Some (True, s\<lparr>os_state := (take p mem @ bs @ drop (p + length bs) mem, p + length bs)\<rparr>)
          else None)"

definition pb_ostream_from_buffer :: "byte list \<Rightarrow> nat \<Rightarrow> (byte list \<times> nat) pb_ostream" where
  "pb_ostream_from_buffer mem bufsize = \<lparr>os_state = (mem, 0), max_size = bufsize, bytes_written = 0, os_errmsg = None\<rparr>"

definition PB_OSTREAM_SIZING :: "unit pb_ostream" where
  "PB_OSTREAM_SIZING = \<lparr>os_state = (), max_size = 0, bytes_written = 0, os_errmsg = None\<rparr>"

definition pb_write :: "'s pb_write_cb option \<Rightarrow> 's pb_ostream \<Rightarrow> byte list \<Rightarrow> (bool \<times> 's pb_ostream) option" where
  "pb_write cb s bs =
     (let count = length bs;
          finish = (\<lambda>s'. Some (True, s'\<lparr>bytes_written := size_add (bytes_written s') count\<rparr>))
      in case cb of
           None \<Rightarrow> finish s
         | Some w \<Rightarrow>
             if 0 < count
             then if size_add (bytes_written s) count < bytes_written s \<or> max_size s < size_add (bytes_written s) count
                  then os_error ''stream full'' s
                  else case w s bs of
                         None \<Rightarrow> None
                       | Some (ok, s') \<Rightarrow> if \<not> ok then os_error ''io error'' s' else finish s'
             else finish s)"

section \<open>Values\<close>

text \<open>The bytes that the loop of \<open>pb_encode_varint\<close> leaves in its buffer.\<close>

function varint_groups :: "uint64 \<Rightarrow> byte list" where
  "varint_groups v = (if v = 0 then [] else (ucast (v AND 0x7F) OR 0x80) # varint_groups (drop_bit 7 v))"
  by pat_completeness auto

lemma drop_bit_less: "(v :: uint64) \<noteq> 0 \<Longrightarrow> unat (drop_bit 7 v) < unat v"
  by (simp add: unat_drop_bit unat_gt_0)

termination varint_groups
  by (relation "measure unat") (simp_all add: drop_bit_less)

declare varint_groups.simps [simp del]

definition pb_encode_varint :: "'s pb_write_cb option \<Rightarrow> 's pb_ostream \<Rightarrow> uint64 \<Rightarrow> (bool \<times> 's pb_ostream) option" where
  "pb_encode_varint cb s v =
     (if v \<le> 0x7F then pb_write cb s [ucast v]
      else let buffer = varint_groups v;
               i = length buffer
           in if 10 < i then None
              else pb_write cb s (buffer[i - 1 := (buffer ! (i - 1)) AND 0x7F]))"

definition pb_encode_svarint :: "'s pb_write_cb option \<Rightarrow> 's pb_ostream \<Rightarrow> int64 \<Rightarrow> (bool \<times> 's pb_ostream) option" where
  "pb_encode_svarint cb s v = pb_encode_varint cb s (if v <s 0 then NOT (push_bit 1 v) else push_bit 1 v)"

definition pb_encode_fixed32 :: "'s pb_write_cb option \<Rightarrow> 's pb_ostream \<Rightarrow> uint32 \<Rightarrow> (bool \<times> 's pb_ostream) option" where
  "pb_encode_fixed32 cb s v =
     pb_write cb s [ucast (v AND 0xFF), ucast (drop_bit 8 v AND 0xFF), ucast (drop_bit 16 v AND 0xFF), ucast (drop_bit 24 v AND 0xFF)]"

definition pb_encode_fixed64 :: "'s pb_write_cb option \<Rightarrow> 's pb_ostream \<Rightarrow> uint64 \<Rightarrow> (bool \<times> 's pb_ostream) option" where
  "pb_encode_fixed64 cb s v =
     pb_write cb s
       [ucast (v AND 0xFF), ucast (drop_bit 8 v AND 0xFF), ucast (drop_bit 16 v AND 0xFF), ucast (drop_bit 24 v AND 0xFF),
        ucast (drop_bit 32 v AND 0xFF), ucast (drop_bit 40 v AND 0xFF), ucast (drop_bit 48 v AND 0xFF), ucast (drop_bit 56 v AND 0xFF)]"

definition pb_encode_tag :: "'s pb_write_cb option \<Rightarrow> 's pb_ostream \<Rightarrow> uint32 \<Rightarrow> uint32 \<Rightarrow> (bool \<times> 's pb_ostream) option" where
  "pb_encode_tag cb s wiretype field_number = pb_encode_varint cb s (push_bit 3 (ucast field_number) OR ucast wiretype)"

definition pb_encode_string :: "'s pb_write_cb option \<Rightarrow> 's pb_ostream \<Rightarrow> byte list \<Rightarrow> (bool \<times> 's pb_ostream) option" where
  "pb_encode_string cb s buffer = os_then (pb_encode_varint cb s (of_nat (length buffer))) (\<lambda>s'. pb_write cb s' buffer)"

section \<open>The bytes of a varint\<close>

definition varint_of :: "uint64 \<Rightarrow> byte list" where
  "varint_of v = (if v \<le> 0x7F then [ucast v] else (varint_groups v)[length (varint_groups v) - 1 := (varint_groups v ! (length (varint_groups v) - 1)) AND 0x7F])"

lemma low_group: "unat (ucast (v AND 0x7F) :: byte) = unat (v :: uint64) mod 128"
proof -
  have "unat (v AND 0x7F) = unat v mod 128" using unat_and_low [of v 7] by (simp add: mask_lits)
  then show ?thesis by (simp add: unsigned_ucast_eq take_bit_eq_mod)
qed

lemma group_high: "unat ((ucast (v AND 0x7F) OR 0x80) :: byte) = unat (v :: uint64) mod 128 + 128"
proof -
  have "unat (push_bit 7 (1 :: byte) OR ucast (v AND 0x7F)) = unat (1 :: byte) * 2 ^ 7 + unat (ucast (v AND 0x7F) :: byte)"
    by (rule unat_push_or) (simp_all add: low_group)
  then show ?thesis by (simp add: low_group or.commute)
qed

text \<open>The same bytes by division.\<close>

fun nat_groups :: "nat \<Rightarrow> byte list" where
  "nat_groups n = (if n < 128 then [of_nat n] else of_nat (n mod 128 + 128) # nat_groups (n div 128))"

declare nat_groups.simps [simp del]

lemma groups_nonempty [simp]: "nat_groups n \<noteq> []"
  by (simp add: nat_groups.simps [of n])

lemma groups_eq: "v \<noteq> 0 \<Longrightarrow> (varint_groups v)[length (varint_groups v) - 1 := (varint_groups v ! (length (varint_groups v) - 1)) AND 0x7F] = nat_groups (unat v)"
proof (induction v rule: varint_groups.induct)
  case (1 v)
  let ?b = "ucast (v AND 0x7F) OR 0x80 :: byte" and ?d = "drop_bit 7 v"
  have g: "varint_groups v = ?b # varint_groups ?d" using 1(2) by (simp add: varint_groups.simps [of v])
  have d: "unat ?d = unat v div 128" by (simp add: unat_drop_bit)
  show ?case
  proof (cases "unat v < 128")
    case True
    then have "unat ?d = 0" using d by simp
    then have "?d = 0" by (simp add: word_unat_eq_iff)
    then have e: "varint_groups ?d = []" by (simp add: varint_groups.simps [of 0])
    have "unat (?b AND 0x7F) = unat v" using low7 [of ?b] group_high [of v] True by simp
    then have "?b AND 0x7F = of_nat (unat v)" by (rule unat_eq_of_nat)
    then show ?thesis using True by (simp add: g e nat_groups.simps [of "unat v"])
  next
    case False
    then have "?d \<noteq> 0" using d by (auto simp: word_unat_eq_iff)
    moreover have "varint_groups ?d \<noteq> []" using calculation by (simp add: varint_groups.simps [of ?d])
    moreover have "?b = of_nat (unat v mod 128 + 128)" using group_high [of v] by (rule unat_eq_of_nat)
    ultimately show ?thesis using 1(1) [OF 1(2)] False d
      by (cases "varint_groups ?d") (simp_all add: g nat_groups.simps [of "unat v"] nth_Cons')
  qed
qed

lemma groups_length: "length (varint_groups v) = (if v = 0 then 0 else length (nat_groups (unat v)))"
proof (cases "v = 0")
  case False
  have "length (nat_groups (unat v)) = length (varint_groups v)" unfolding groups_eq [OF False, symmetric] by simp
  then show ?thesis using False by simp
qed (simp add: varint_groups.simps [of 0])

lemma nat_groups_length: "n < 128 ^ Suc k \<Longrightarrow> length (nat_groups n) \<le> Suc k"
proof (induction k arbitrary: n)
  case (Suc k)
  have "n div 128 < 128 ^ Suc k" using Suc.prems by (simp add: less_mult_imp_div_less mult.commute)
  then show ?case using Suc.IH [of "n div 128"] by (simp add: nat_groups.simps [of n])
next
  case 0
  then show ?case by (simp add: nat_groups.simps [of n])
qed

lemma nat_groups_value: "varint_len (nat_groups n @ bs) = Some (length (nat_groups n)) \<and> varint_val (nat_groups n) = n"
proof (induction n rule: nat_groups.induct)
  case (1 n)
  show ?case
  proof (cases "n < 128")
    case True
    then show ?thesis using byte_high_bit [of "of_nat n"] by (simp add: nat_groups.simps [of n])
  next
    case False
    then have "n mod 128 + 128 < 256" by simp
    then have u: "unat (of_nat (n mod 128 + 128) :: byte) = n mod 128 + 128" by (simp only: unat_of_nat_byte mod_less)
    have h: "(of_nat (n mod 128 + 128) :: byte) AND 0x80 \<noteq> 0" using byte_high_bit [of "of_nat (n mod 128 + 128)"] u by simp
    have m: "(n mod 128 + 128) mod 128 = n mod 128" by simp
    have e: "nat_groups n = of_nat (n mod 128 + 128) # nat_groups (n div 128)" using False by (simp add: nat_groups.simps [of n])
    have "varint_len (nat_groups n @ bs) = map_option Suc (varint_len (nat_groups (n div 128) @ bs))" unfolding e append_Cons varint_len.simps using h by (simp only: if_False)
    moreover have "varint_val (nat_groups n) = n mod 128 + 128 * varint_val (nat_groups (n div 128))" unfolding e varint_val.simps u m ..
    ultimately show ?thesis using 1 [OF False] by (simp add: e)
  qed
qed

lemma varint_of_eq: "varint_of v = nat_groups (unat v)"
proof (cases "v \<le> 0x7F")
  case True
  then have "unat v < 128" by (simp add: word_le_nat_alt)
  moreover have "(ucast v :: byte) = of_nat (unat v)" by simp
  ultimately show ?thesis using True by (simp add: varint_of_def nat_groups.simps [of "unat v"])
next
  case False
  then have "v \<noteq> 0" by auto
  then show ?thesis using groups_eq False by (simp add: varint_of_def)
qed

lemma varint_of_facts:
  "varint_len (varint_of v @ bs) = Some (length (varint_of v))" "varint_val (varint_of v) = unat v" "0 < length (varint_of v)" "length (varint_of v) \<le> 10"
proof -
  have "unat v < 2 ^ LENGTH(64)" by (rule unsigned_less)
  then have "unat v < 128 ^ Suc 9" by simp
  from nat_groups_length [OF this] show "length (varint_of v) \<le> 10" unfolding varint_of_eq by simp
qed (simp_all add: varint_of_eq nat_groups_value)

lemma encode_varint_eq: "pb_encode_varint cb s v = pb_write cb s (varint_of v)"
proof (cases "v \<le> 0x7F")
  case False
  then have "v \<noteq> 0" by auto
  then have "length (varint_groups v) \<le> 10" using groups_length [of v] varint_of_facts(4) [of v] by (simp add: varint_of_eq)
  then show ?thesis using False by (simp add: pb_encode_varint_def varint_of_def Let_def)
qed (simp add: pb_encode_varint_def varint_of_def)

section \<open>A sink that takes what it has room for\<close>

definition sink_ok :: "('s \<Rightarrow> byte list) \<Rightarrow> 's pb_ostream \<Rightarrow> bool" where
  "sink_ok rest s \<longleftrightarrow> bytes_written s \<le> max_size s \<and> max_size s < size_max1 \<and> max_size s - bytes_written s \<le> length (rest (os_state s))"

text \<open>The stream after \<open>bs\<close> is written.\<close>

definition appended :: "('s \<Rightarrow> byte list) \<Rightarrow> ('s \<Rightarrow> byte list) \<Rightarrow> 's pb_ostream \<Rightarrow> byte list \<Rightarrow> 's pb_ostream \<Rightarrow> bool" where
  "appended content rest s bs s' \<longleftrightarrow> sink_ok rest s' \<and> content (os_state s') = content (os_state s) @ bs \<and> rest (os_state s') = drop (length bs) (rest (os_state s)) \<and>
     bytes_written s' = bytes_written s + length bs \<and> max_size s' = max_size s \<and> os_errmsg s' = os_errmsg s"

lemma appended_trans: "appended c r s bs s1 \<Longrightarrow> appended c r s1 cs s2 \<Longrightarrow> appended c r s (bs @ cs) s2"
  by (simp add: appended_def add.commute)

lemma os_then_simps [simp]: "os_then None f = None" "os_then (Some (True, s)) f = f s" "os_then (Some (False, s)) f = Some (False, s)"
  by (simp_all add: os_then_def)

locale pb_sink =
  fixes put :: "'s pb_write_cb" and content :: "'s \<Rightarrow> byte list" and rest :: "'s \<Rightarrow> byte list"
  assumes write_law: "bs \<noteq> [] \<Longrightarrow> length bs \<le> length (rest (os_state s)) \<Longrightarrow>
    \<exists>st. put s bs = Some (True, s\<lparr>os_state := st\<rparr>) \<and> content st = content (os_state s) @ bs \<and> rest st = drop (length bs) (rest (os_state s))"
begin

lemma write_fits:
  assumes ok: "sink_ok rest s" and fits: "bytes_written s + length bs \<le> max_size s"
  shows "\<exists>s'. pb_write (Some put) s bs = Some (True, s') \<and> appended content rest s bs s'"
proof (cases "bs = []")
  case True
  then show ?thesis using ok by (simp add: pb_write_def appended_def sink_ok_def size_add_noover)
next
  case False
  have add: "size_add (bytes_written s) (length bs) = bytes_written s + length bs" using ok fits by (simp add: sink_ok_def size_add_noover)
  have "length bs \<le> length (rest (os_state s))" using ok fits by (auto simp: sink_ok_def)
  then obtain st where "put s bs = Some (True, s\<lparr>os_state := st\<rparr>)" "content st = content (os_state s) @ bs" "rest st = drop (length bs) (rest (os_state s))"
    using write_law [OF False] by blast
  then show ?thesis using False ok fits by (auto simp: pb_write_def Let_def add appended_def sink_ok_def)
qed

lemma write_full:
  assumes ok: "sink_ok rest s" and full: "max_size s < bytes_written s + length bs" and n: "length bs < size_max1"
  shows "pb_write (Some put) s bs = os_error ''stream full'' s"
proof (cases "bytes_written s + length bs < size_max1")
  case True
  then show ?thesis using full ok by (auto simp: pb_write_def Let_def size_add_noover sink_ok_def)
next
  case False
  have "bytes_written s < size_max1" using ok by (auto simp: sink_ok_def)
  then have "size_add (bytes_written s) (length bs) < bytes_written s" using False size_add_overflow_iff [OF _ n] by auto
  then show ?thesis using full ok by (auto simp: pb_write_def Let_def sink_ok_def)
qed

end

definition buf_content :: "byte list \<times> nat \<Rightarrow> byte list" where
  "buf_content st = take (snd st) (fst st)"

definition buf_rest :: "byte list \<times> nat \<Rightarrow> byte list" where
  "buf_rest st = drop (snd st) (fst st)"

interpretation pb_out: pb_sink pb_buf_write buf_content buf_rest
proof
  fix bs :: "byte list" and s :: "(byte list \<times> nat) pb_ostream"
  assume "bs \<noteq> []" "length bs \<le> length (buf_rest (os_state s))"
  moreover obtain mem p where st: "os_state s = (mem, p)" by fastforce
  ultimately have l: "p + length bs \<le> length mem" by (cases bs) (auto simp: buf_rest_def)
  let ?st = "(take p mem @ bs @ drop (p + length bs) mem, p + length bs)"
  have "pb_buf_write s bs = Some (True, s\<lparr>os_state := ?st\<rparr>)" using l st by (simp add: pb_buf_write_def)
  moreover have "buf_content ?st = buf_content (os_state s) @ bs" "buf_rest ?st = drop (length bs) (buf_rest (os_state s))" using l st by (auto simp: buf_content_def buf_rest_def add.commute)
  ultimately show "\<exists>st. pb_buf_write s bs = Some (True, s\<lparr>os_state := st\<rparr>) \<and> buf_content st = buf_content (os_state s) @ bs \<and> buf_rest st = drop (length bs) (buf_rest (os_state s))" by blast
qed

text \<open>A stream that only counts.\<close>

lemma write_counts: "pb_write None s bs = Some (True, s\<lparr>bytes_written := size_add (bytes_written s) (length bs)\<rparr>)"
  by (simp add: pb_write_def Let_def)

end
