(* ===== verification/Pb_Wire.thy ===== *)
theory Pb_Wire
  imports Pb_Encode
begin

text \<open>
  What nanopb writes it reads back: the fields of a message as tags and values on the wire.
  The functions here call the operations of \<open>Pb_Encode\<close> and \<open>Pb_Decode\<close> the way a user of the library does.
\<close>

section \<open>Words of 32 and 64 bits\<close>

lemma byte_of: "(ucast (ucast (w AND 0xFF) :: byte) :: 'a::len word) = take_bit 8 (w :: 'a word)"
  by (rule bit_word_eqI) (auto simp: mask_lits bit_simps)

lemma join_byte: "take_bit m v OR push_bit m (take_bit 8 (drop_bit m v)) = take_bit (m + 8) (v :: 'a::len word)"
  by (rule bit_word_eqI) (auto simp: bit_simps)

lemma bytes32:
  "ucast (ucast (v AND 0xFF) :: byte) OR push_bit 8 (ucast (ucast (drop_bit 8 v AND 0xFF) :: byte)) OR
    push_bit 16 (ucast (ucast (drop_bit 16 v AND 0xFF) :: byte)) OR push_bit 24 (ucast (ucast (drop_bit 24 v AND 0xFF) :: byte)) = (v :: uint32)"
  using join_byte [of 8 v] join_byte [of 16 v] join_byte [of 24 v] take_bit_word_eq_self [of 32 v] by (simp add: byte_of or.assoc [symmetric])

lemma bytes64:
  "ucast (ucast (v AND 0xFF) :: byte) OR push_bit 8 (ucast (ucast (drop_bit 8 v AND 0xFF) :: byte)) OR
    push_bit 16 (ucast (ucast (drop_bit 16 v AND 0xFF) :: byte)) OR push_bit 24 (ucast (ucast (drop_bit 24 v AND 0xFF) :: byte)) OR
    push_bit 32 (ucast (ucast (drop_bit 32 v AND 0xFF) :: byte)) OR push_bit 40 (ucast (ucast (drop_bit 40 v AND 0xFF) :: byte)) OR
    push_bit 48 (ucast (ucast (drop_bit 48 v AND 0xFF) :: byte)) OR push_bit 56 (ucast (ucast (drop_bit 56 v AND 0xFF) :: byte)) = (v :: uint64)"
  using join_byte [of 8 v] join_byte [of 16 v] join_byte [of 24 v] join_byte [of 32 v] join_byte [of 40 v] join_byte [of 48 v] join_byte [of 56 v] take_bit_word_eq_self [of 64 v]
  by (simp add: byte_of or.assoc [symmetric])

section \<open>Fields\<close>

datatype wire_value =
    Wire_varint uint64
  | Wire_64bit uint64
  | Wire_string "byte list"
  | Wire_32bit uint32

definition wire_type :: "wire_value \<Rightarrow> uint32" where
  "wire_type v = (case v of Wire_varint _ \<Rightarrow> PB_WT_VARINT | Wire_64bit _ \<Rightarrow> PB_WT_64BIT | Wire_string _ \<Rightarrow> PB_WT_STRING | Wire_32bit _ \<Rightarrow> PB_WT_32BIT)"

definition encode_value :: "'s pb_write_cb option \<Rightarrow> 's pb_ostream \<Rightarrow> wire_value \<Rightarrow> (bool \<times> 's pb_ostream) option" where
  "encode_value cb s v =
     (case v of
        Wire_varint w \<Rightarrow> pb_encode_varint cb s w
      | Wire_64bit w \<Rightarrow> pb_encode_fixed64 cb s w
      | Wire_string bs \<Rightarrow> pb_encode_string cb s bs
      | Wire_32bit w \<Rightarrow> pb_encode_fixed32 cb s w)"

fun encode_fields :: "'s pb_write_cb option \<Rightarrow> 's pb_ostream \<Rightarrow> (uint32 \<times> wire_value) list \<Rightarrow> (bool \<times> 's pb_ostream) option" where
  "encode_fields cb s [] = Some (True, s)"
| "encode_fields cb s ((tag, v) # fs) =
     os_then (pb_encode_tag cb s (wire_type v) tag) (\<lambda>s1. os_then (encode_value cb s1 v) (\<lambda>s2. encode_fields cb s2 fs))"

text \<open>A string is read through a substream, as a submessage is.\<close>

definition decode_value :: "'s pb_io \<Rightarrow> 's pb_istream \<Rightarrow> uint32 \<Rightarrow> ('s, wire_value) pb_result" where
  "decode_value io s t =
     (if t = PB_WT_VARINT then pb_then (pb_decode_varint io s) (\<lambda>w s'. Some (Some (Wire_varint w), s'))
      else if t = PB_WT_64BIT then pb_then (pb_decode_fixed64 io s) (\<lambda>w s'. Some (Some (Wire_64bit w), s'))
      else if t = PB_WT_STRING then
        pb_then (pb_make_string_substream io s) (\<lambda>sub s1.
          case pb_read io sub (bytes_left sub) of
            None \<Rightarrow> None
          | Some (None, sub') \<Rightarrow> Some (None, s1)
          | Some (Some bs, sub') \<Rightarrow> pb_then (pb_close_string_substream io s1 sub') (\<lambda>_ s2. Some (Some (Wire_string bs), s2)))
      else if t = PB_WT_32BIT then pb_then (pb_decode_fixed32 io s) (\<lambda>w s'. Some (Some (Wire_32bit w), s'))
      else Some (None, s))"

text \<open>The fields up to the end of the input; the number bounds them.\<close>

fun decode_fields :: "nat \<Rightarrow> 's pb_io \<Rightarrow> 's pb_istream \<Rightarrow> (uint32 \<times> wire_value) list option" where
  "decode_fields 0 io s = None"
| "decode_fields (Suc n) io s =
     (case pb_decode_tag io s of
        None \<Rightarrow> None
      | Some ((None, eof), s') \<Rightarrow> if eof then Some [] else None
      | Some ((Some (tag, t), _), s') \<Rightarrow>
          (case decode_value io s' t of
             Some (Some v, s'') \<Rightarrow> map_option (\<lambda>fs. (tag, v) # fs) (decode_fields n io s'')
           | _ \<Rightarrow> None))"

section \<open>What is written\<close>

definition le_bytes :: "nat \<Rightarrow> 'a::len word \<Rightarrow> byte list" where
  "le_bytes n v = map (\<lambda>i. ucast (drop_bit (8 * i) v AND 0xFF)) [0..<n]"

definition value_bytes :: "wire_value \<Rightarrow> byte list" where
  "value_bytes v =
     (case v of
        Wire_varint w \<Rightarrow> varint_of w
      | Wire_64bit w \<Rightarrow> le_bytes 8 w
      | Wire_string bs \<Rightarrow> varint_of (of_nat (length bs)) @ bs
      | Wire_32bit w \<Rightarrow> le_bytes 4 w)"

definition tag_word :: "uint32 \<Rightarrow> uint32 \<Rightarrow> uint64" where
  "tag_word tag t = push_bit 3 (ucast tag) OR ucast t"

definition field_bytes :: "uint32 \<times> wire_value \<Rightarrow> byte list" where
  "field_bytes f = varint_of (tag_word (fst f) (wire_type (snd f))) @ value_bytes (snd f)"

definition fields_bytes :: "(uint32 \<times> wire_value) list \<Rightarrow> byte list" where
  "fields_bytes fs = concat (map field_bytes fs)"

lemma encode_string_bytes: "pb_encode_string cb s bs = os_then (pb_write cb s (varint_of (of_nat (length bs)))) (\<lambda>s'. pb_write cb s' bs)"
  by (simp add: pb_encode_string_def encode_varint_eq)

lemma encode_fixed_bytes: "pb_encode_fixed32 cb s w = pb_write cb s (le_bytes 4 w)" "pb_encode_fixed64 cb s v = pb_write cb s (le_bytes 8 v)"
  by (simp_all add: pb_encode_fixed32_def pb_encode_fixed64_def le_bytes_def upt_rec)

definition wire_ok :: "uint32 \<times> wire_value \<Rightarrow> bool" where
  "wire_ok f \<longleftrightarrow> 0 < fst f \<and> fst f < 2 ^ 29 \<and> (case snd f of Wire_string bs \<Rightarrow> length bs < 2 ^ 32 | _ \<Rightarrow> True)"

text \<open>A call writes \<open>bs\<close> if they fit, and fails otherwise.\<close>

definition emits :: "('s \<Rightarrow> byte list) \<Rightarrow> ('s \<Rightarrow> byte list) \<Rightarrow> 's pb_ostream \<Rightarrow> byte list \<Rightarrow> (bool \<times> 's pb_ostream) option \<Rightarrow> bool" where
  "emits c rest s bs r \<longleftrightarrow> (if bytes_written s + length bs \<le> max_size s then \<exists>s'. r = Some (True, s') \<and> appended c rest s bs s' else \<exists>s'. r = Some (False, s') \<and> os_errmsg s' \<noteq> None)"

lemma emits_then:
  assumes "emits c rest s bs r" and "\<And>s'. appended c rest s bs s' \<Longrightarrow> emits c rest s' cs (f s')"
  shows "emits c rest s (bs @ cs) (os_then r f)"
proof (cases "bytes_written s + length bs \<le> max_size s")
  case True
  then obtain s1 where s1: "r = Some (True, s1)" "appended c rest s bs s1" using assms(1) by (auto simp: emits_def)
  have "bytes_written s1 + length cs \<le> max_size s1 \<longleftrightarrow> bytes_written s + length (bs @ cs) \<le> max_size s" using s1(2) by (simp add: appended_def add.assoc)
  then show ?thesis using assms(2) [OF s1(2)] s1 appended_trans [OF s1(2)] by (auto simp: emits_def split: if_splits)
next
  case False
  then show ?thesis using assms(1) by (auto simp: emits_def)
qed

context pb_sink
begin

lemma emits_write: "sink_ok rest s \<Longrightarrow> length bs < size_max1 \<Longrightarrow> emits content rest s bs (pb_write (Some put) s bs)"
  using write_fits [of s bs] write_full [of s bs] by (auto simp: emits_def os_error_def)

lemma emits_value:
  assumes ok: "sink_ok rest s" and v: "wire_ok (tag, v)"
  shows "emits content rest s (value_bytes v) (encode_value (Some put) s v)"
proof -
  have short: "length (varint_of w) < size_max1" for w using varint_of_facts(4) [of w] by (simp add: size_max1_def)
  have "length (le_bytes n w) < size_max1" if "n \<le> 8" for n and w :: "'b::len word" using that by (simp add: le_bytes_def size_max1_def)
  show ?thesis
  proof (cases v)
    case (Wire_string bs)
    then have n: "length bs < size_max1" using v by (simp add: wire_ok_def size_max1_def)
    have "emits content rest s (varint_of (of_nat (length bs)) @ bs) (pb_encode_string (Some put) s bs)" unfolding encode_string_bytes
      by (rule emits_then [OF emits_write [OF ok short]]) (rule emits_write [OF _ n], simp add: appended_def)
    then show ?thesis by (simp add: Wire_string value_bytes_def encode_value_def)
  qed (simp_all add: value_bytes_def encode_value_def encode_varint_eq encode_fixed_bytes emits_write [OF ok short] emits_write [OF ok] le_bytes_def size_max1_def)
qed

lemma emits_fields: "sink_ok rest s \<Longrightarrow> list_all wire_ok fs \<Longrightarrow> emits content rest s (fields_bytes fs) (encode_fields (Some put) s fs)"
proof (induction fs arbitrary: s)
  case Nil
  then show ?case by (simp add: emits_def fields_bytes_def appended_def) (simp add: sink_ok_def)
next
  case (Cons f fs)
  obtain tag v where f: "f = (tag, v)" by fastforce
  have short: "length (varint_of w) < size_max1" for w using varint_of_facts(4) [of w] by (simp add: size_max1_def)
  have v: "wire_ok (tag, v)" "list_all wire_ok fs" using Cons.prems(2) f by auto
  have "emits content rest s (varint_of (tag_word tag (wire_type v)) @ value_bytes v @ fields_bytes fs) (encode_fields (Some put) s (f # fs))"
    unfolding f encode_fields.simps pb_encode_tag_def encode_varint_eq tag_word_def [symmetric]
    by (intro emits_then emits_write Cons.prems(1) short emits_value [OF _ v(1)] Cons.IH v(2); simp add: appended_def)
  then show ?case by (simp add: fields_bytes_def field_bytes_def f)
qed

end

section \<open>What is read\<close>

lemma tag_word_facts:
  assumes "wire_ok (tag, v)"
  shows "unat (tag_word tag (wire_type v)) = 8 * unat tag + unat (wire_type v)" "unat (wire_type v) < 8" "unat (tag_word tag (wire_type v)) < 2 ^ 32"
proof -
  have t: "unat tag < 2 ^ 29" using assms by (simp add: wire_ok_def word_less_nat_alt)
  show w: "unat (wire_type v) < 8" by (simp add: wire_type_def PB_WT_VARINT_def PB_WT_64BIT_def PB_WT_STRING_def PB_WT_32BIT_def split: wire_value.split)
  have u: "unat (ucast tag :: uint64) = unat tag" "unat (ucast (wire_type v) :: uint64) = unat (wire_type v)" by (simp_all add: unat_ucast_up)
  have "unat (tag_word tag (wire_type v)) = unat (ucast tag :: uint64) * 2 ^ 3 + unat (ucast (wire_type v) :: uint64)"
    unfolding tag_word_def by (rule unat_push_or) (use t w u in simp_all)
  then show "unat (tag_word tag (wire_type v)) = 8 * unat tag + unat (wire_type v)" using u by simp
  then show "unat (tag_word tag (wire_type v)) < 2 ^ 32" using t w by simp
qed

context pb_source
begin

lemma input_varint:
  assumes "stream_input content s = varint_of w @ rest"
  shows "varint_len (stream_input content s) = Some (length (varint_of w))" "varint_val (take (length (varint_of w)) (stream_input content s)) = unat w"
    "length (varint_of w) \<le> 10" "drop (length (varint_of w)) (stream_input content s) = rest"
  using varint_of_facts [of w] by (simp_all add: assms)

lemma decode_tag_field:
  assumes ok: "stream_ok content s" and x: "stream_input content s = varint_of (tag_word tag (wire_type v)) @ rest" and v: "wire_ok (tag, v)"
  shows "\<exists>s'. pb_decode_tag io s = Some ((Some (tag, wire_type v), False), s') \<and> stream_ok content s' \<and> stream_input content s' = rest"
proof -
  note i = input_varint [OF x] and t = tag_word_facts [OF v]
  define w :: uint32 where "w = of_nat (unat (tag_word tag (wire_type v)))"
  have u: "unat w = unat (tag_word tag (wire_type v))" unfolding w_def unat_of_nat using t(3) by (intro mod_less) simp
  have "0 < unat tag" using v by (simp add: wire_ok_def word_less_nat_alt)
  then have w: "w \<noteq> 0" using u t(1) by (auto simp: word_unat_eq_iff)
  have "unat (drop_bit 3 w) = unat tag" "unat (w AND 7) = unat (wire_type v)"
    using u t(1,2) unat_and_low [of w 3] by (simp_all add: unat_drop_bit mask_lits)
  then have d: "drop_bit 3 w = tag" "w AND 7 = wire_type v" by (simp_all add: word_unat_eq_iff)
  obtain s' where "pb_decode_tag io s = Some ((Some (drop_bit 3 w, w AND 7), False), s')" "advanced content s (length (varint_of (tag_word tag (wire_type v)))) s'"
    using decode_tag_ok [OF ok i(1) _ _ w] i(2,3) u by auto
  then show ?thesis using d advanced_ok [OF ok] i(4) by metis
qed

lemma le_bytes_list:
  "le_bytes 4 w = [ucast (w AND 0xFF), ucast (drop_bit 8 w AND 0xFF), ucast (drop_bit 16 w AND 0xFF), ucast (drop_bit 24 w AND 0xFF)]"
  "le_bytes 8 v = [ucast (v AND 0xFF), ucast (drop_bit 8 v AND 0xFF), ucast (drop_bit 16 v AND 0xFF), ucast (drop_bit 24 v AND 0xFF),
    ucast (drop_bit 32 v AND 0xFF), ucast (drop_bit 40 v AND 0xFF), ucast (drop_bit 48 v AND 0xFF), ucast (drop_bit 56 v AND 0xFF)]"
  by (simp_all add: le_bytes_def upt_rec)

lemma decode_value_ok:
  assumes ok: "stream_ok content s" and x: "stream_input content s = value_bytes v @ rest" and v: "wire_ok (tag, v)"
  shows "\<exists>s'. decode_value io s (wire_type v) = Some (Some v, s') \<and> stream_ok content s' \<and> stream_input content s' = rest"
proof -
  note types = wire_type_def PB_WT_VARINT_def PB_WT_64BIT_def PB_WT_STRING_def PB_WT_32BIT_def
  show ?thesis
  proof (cases v)
    case (Wire_varint w)
    then have i: "stream_input content s = varint_of w @ rest" using x by (simp add: value_bytes_def)
    note i = input_varint [OF i]
    obtain s' where s': "pb_decode_varint io s = Some (Some w, s')" "advanced content s (length (varint_of w)) s'" using decode_varint_exact(1) [OF ok i(1,3)] i(2) by auto
    then show ?thesis using advanced_ok [OF ok s'(2)] i(4) Wire_varint by (simp add: decode_value_def types)
  next
    case (Wire_64bit w)
    then have i: "stream_input content s = le_bytes 8 w @ rest" using x by (simp add: value_bytes_def)
    obtain s' where s': "pb_decode_fixed64 io s = Some (Some w, s')" "advanced content s 8 s'" using fixed64_ok [OF ok i [unfolded le_bytes_list append_Cons append_Nil]] unfolding bytes64 by blast
    then show ?thesis using advanced_ok [OF ok s'(2)] i Wire_64bit by (simp add: decode_value_def types le_bytes_list)
  next
    case (Wire_32bit w)
    then have i: "stream_input content s = le_bytes 4 w @ rest" using x by (simp add: value_bytes_def)
    obtain s' where s': "pb_decode_fixed32 io s = Some (Some w, s')" "advanced content s 4 s'" using fixed32_ok [OF ok i [unfolded le_bytes_list append_Cons append_Nil]] unfolding bytes32 by blast
    then show ?thesis using advanced_ok [OF ok s'(2)] i Wire_32bit by (simp add: decode_value_def types le_bytes_list)
  next
    case (Wire_string bs)
    let ?n = "length bs" and ?k = "length (varint_of (of_nat (length bs)))"
    have n: "?n < 2 ^ 32" using v Wire_string by (simp add: wire_ok_def)
    have x': "stream_input content s = varint_of (of_nat ?n) @ bs @ rest" using x Wire_string by (simp add: value_bytes_def)
    note i = input_varint [OF x']
    have val: "varint_val (take ?k (stream_input content s)) = ?n" using i(2) n by (simp add: unat_of_nat)
    have len: "?k + ?n \<le> length (stream_input content s)" by (simp add: x')
    obtain s1 sub where s1: "pb_make_string_substream io s = Some (Some sub, s1)" "stream_ok content sub" "stream_input content sub = take ?n (drop ?k (stream_input content s))" "bytes_left sub = ?n"
        "is_state s1 = is_state sub" "bytes_left s1 = bytes_left s - ?k - ?n" "content (is_state sub) = drop ?k (content (is_state s))"
      by (rule substream_ok [OF ok i(1) _ val n len]) (use i(3) in auto)
    have sub: "stream_input content sub = bs" using s1(3) i(4) by simp
    obtain sub' where r: "pb_read io sub ?n = Some (Some bs, sub')" "advanced content sub ?n sub'" using read_ok [OF s1(2), of ?n] s1(4) sub by auto
    have c: "pb_close_string_substream io s1 sub' = Some (Some (), s1\<lparr>is_state := is_state sub', is_errmsg := is_errmsg sub'\<rparr>)" using r(2) s1(4) by (simp add: pb_close_string_substream_def advanced_def)
    let ?s = "s1\<lparr>is_state := is_state sub', is_errmsg := is_errmsg sub'\<rparr>"
    have "advanced content s (?k + ?n) (?s\<lparr>is_errmsg := is_errmsg s\<rparr>)" using r(2) s1(6,7) len stream_input_length [OF ok] by (simp add: advanced_def add.commute)
    from advanced_ok [OF ok this] have "stream_ok content ?s" "stream_input content ?s = rest" by (simp_all add: stream_ok_def stream_input_def [of content s1] stream_input_def [of content "?s\<lparr>is_errmsg := is_errmsg s\<rparr>"] x', simp_all add: stream_input_def)
    moreover have "decode_value io s (wire_type v) = Some (Some v, ?s)" using s1(1,4) r(1) c Wire_string by (simp add: decode_value_def types)
    ultimately show ?thesis by blast
  qed
qed

lemma decode_fields_ok:
  "stream_ok content s \<Longrightarrow> stream_input content s = fields_bytes fs \<Longrightarrow> list_all wire_ok fs \<Longrightarrow> length fs < n \<Longrightarrow> decode_fields n io s = Some fs"
proof (induction fs arbitrary: s n)
  case Nil
  then obtain m where n: "n = Suc m" by (cases n) auto
  have "stream_input content s = []" using Nil.prems(2) by (simp add: fields_bytes_def)
  from decode_tag_end [OF Nil.prems(1) this] show ?case by (auto simp: n)
next
  case (Cons f fs)
  obtain tag v where f: "f = (tag, v)" by fastforce
  obtain m where n: "n = Suc m" "length fs < m" using Cons.prems(4) by (cases n) auto
  have v: "wire_ok (tag, v)" "list_all wire_ok fs" using Cons.prems(3) f by auto
  have x: "stream_input content s = varint_of (tag_word tag (wire_type v)) @ value_bytes v @ fields_bytes fs" using Cons.prems(2) by (simp add: f fields_bytes_def field_bytes_def)
  obtain s1 where s1: "pb_decode_tag io s = Some ((Some (tag, wire_type v), False), s1)" "stream_ok content s1" "stream_input content s1 = value_bytes v @ fields_bytes fs"
    using decode_tag_field [OF Cons.prems(1) x v(1)] by blast
  obtain s2 where s2: "decode_value io s1 (wire_type v) = Some (Some v, s2)" "stream_ok content s2" "stream_input content s2 = fields_bytes fs" using decode_value_ok [OF s1(2,3) v(1)] by blast
  show ?case using s1(1) s2(1) Cons.IH [OF s2(2,3) v(2) n(2)] by (simp add: n(1) f)
qed

end

section \<open>Skipping\<close>

text \<open>Streams at the same position.\<close>

definition same_place :: "('s \<Rightarrow> byte list) \<Rightarrow> 's pb_istream \<Rightarrow> 's pb_istream \<Rightarrow> bool" where
  "same_place c s s' \<longleftrightarrow> c (is_state s) = c (is_state s') \<and> bytes_left s = bytes_left s'"

lemma advanced_same: "advanced c s n s1 \<Longrightarrow> advanced c s n s2 \<Longrightarrow> same_place c s1 s2"
  by (simp add: advanced_def same_place_def)

lemma pb_then_result: "pb_then r f = Some (Some y, s2) \<longleftrightarrow> (\<exists>x s1. r = Some (Some x, s1) \<and> f x s1 = Some (Some y, s2))"
  by (auto simp: pb_then_def split: option.splits)

context pb_source
begin

lemma read_advances:
  assumes ok: "stream_ok content s" and r: "pb_read io s n = Some (Some bs, s')"
  shows "advanced content s n s'" and "n \<le> bytes_left s"
  using read_ok [OF ok, of n] read_short(1) [of s n] r by (cases "n \<le> bytes_left s"; auto)+

lemma fixed_advances:
  assumes ok: "stream_ok content s"
  shows "pb_decode_fixed32 io s = Some (Some v, s') \<Longrightarrow> advanced content s 4 s' \<and> 4 \<le> bytes_left s"
    and "pb_decode_fixed64 io s = Some (Some w, s') \<Longrightarrow> advanced content s 8 s' \<and> 8 \<le> bytes_left s"
proof -
  assume "pb_decode_fixed32 io s = Some (Some v, s')"
  then obtain bs s1 where r: "pb_read io s 4 = Some (Some bs, s1)"
      "(case bs of [b0, b1, b2, b3] \<Rightarrow> Some (Some (ucast b0 OR push_bit 8 (ucast b1) OR push_bit 16 (ucast b2) OR push_bit 24 (ucast b3)), s1) | _ \<Rightarrow> None) = Some (Some v, s')"
    unfolding pb_decode_fixed32_def pb_then_result by blast
  have "s' = s1" using r(2) by (auto split: list.split_asm)
  then show "advanced content s 4 s' \<and> 4 \<le> bytes_left s" using read_advances [OF ok r(1)] by simp
next
  assume d: "pb_decode_fixed64 io s = Some (Some w, s')"
  then obtain bs s1 where r: "pb_read io s 8 = Some (Some bs, s1)" unfolding pb_decode_fixed64_def pb_then_result by blast
  have "length bs = 8" by (rule read_length [OF ok r])
  then have "s' = s1" using d r by (auto simp: pb_decode_fixed64_def numeral_eq_Suc length_Suc_conv)
  then show "advanced content s 8 s' \<and> 8 \<le> bytes_left s" using read_advances [OF ok r] by simp
qed

lemma skip_value:
  assumes ok: "stream_ok content s" and d: "decode_value io s t = Some (Some v, s1)"
  shows "\<exists>s2. pb_skip_field io s t = Some (Some (), s2) \<and> same_place content s2 s1"
proof -
  note types = PB_WT_VARINT_def PB_WT_64BIT_def PB_WT_STRING_def PB_WT_32BIT_def
  have "t = PB_WT_VARINT \<or> t = PB_WT_64BIT \<or> t = PB_WT_STRING \<or> t = PB_WT_32BIT" using d by (auto simp: decode_value_def split: if_splits)
  then consider "t = PB_WT_VARINT" | "t = PB_WT_64BIT" | "t = PB_WT_STRING" | "t = PB_WT_32BIT" by blast
  then show ?thesis
  proof cases
    case 1
    then obtain w where w: "pb_decode_varint io s = Some (Some w, s1)" using d by (auto simp: decode_value_def pb_then_result)
    have "\<exists>k. varint_len (stream_input content s) = Some k \<and> k \<le> 10" by (rule ccontr) (use decode_varint_exact(2) [OF ok] w in fastforce)
    then obtain k where k: "varint_len (stream_input content s) = Some k" "k \<le> 10" by blast
    then have "advanced content s k s1" using decode_varint_exact(1) [OF ok k] w by auto
    then show ?thesis using skip_varint_ok [OF ok k(1)] 1 advanced_same by (fastforce simp: pb_skip_field_def)
  next
    case 2
    then obtain w where "pb_decode_fixed64 io s = Some (Some w, s1)" using d by (auto simp: decode_value_def pb_then_result types)
    from fixed_advances(2) [OF ok this] show ?thesis using read_null_ok [OF ok, of 8] 2 advanced_same by (fastforce simp: pb_skip_field_def types)
  next
    case 4
    then obtain w where "pb_decode_fixed32 io s = Some (Some w, s1)" using d by (auto simp: decode_value_def pb_then_result types)
    from fixed_advances(1) [OF ok this] show ?thesis using read_null_ok [OF ok, of 4] 4 advanced_same by (fastforce simp: pb_skip_field_def types)
  next
    case 3
    have str: "decode_value io s t = pb_then (pb_make_string_substream io s) (\<lambda>sub s1.
          case pb_read io sub (bytes_left sub) of
            None \<Rightarrow> None
          | Some (None, sub') \<Rightarrow> Some (None, s1)
          | Some (Some bs, sub') \<Rightarrow> pb_then (pb_close_string_substream io s1 sub') (\<lambda>_ s2. Some (Some (Wire_string bs), s2)))"
      using 3 by (simp add: decode_value_def types)
    obtain sub s3 where m1: "pb_make_string_substream io s = Some (Some sub, s3)"
      and e: "(case pb_read io sub (bytes_left sub) of None \<Rightarrow> None | Some (None, sub') \<Rightarrow> Some (None, s3)
        | Some (Some bs, sub') \<Rightarrow> pb_then (pb_close_string_substream io s3 sub') (\<lambda>_ s2. Some (Some (Wire_string bs), s2))) = Some (Some v, s1)"
      using d unfolding str pb_then_result [of "pb_make_string_substream io s"] by blast
    then obtain bs sub' where m2: "pb_read io sub (bytes_left sub) = Some (Some bs, sub')"
      by (cases "pb_read io sub (bytes_left sub)"; cases "fst (the (pb_read io sub (bytes_left sub)))") (auto split: option.split_asm)
    then have m3: "pb_close_string_substream io s3 sub' = Some (Some (), s1)" using e by (auto simp: pb_then_result)
    note m = m1 m2 m3
    obtain n s4 where n: "pb_decode_varint32 io s = Some (Some n, s4)" "\<not> bytes_left s4 < unat n" "sub = s4\<lparr>bytes_left := unat n\<rparr>" "s3 = s4\<lparr>bytes_left := bytes_left s4 - unat n\<rparr>"
      using m(1) by (auto simp: pb_make_string_substream_def pb_then_result pb_error_def split: if_splits)
    have ok4: "stream_ok content s4" using failed_ok [OF ok] returns_varint32 [OF ok] n(1) by (auto simp: returns_def)
    then have oks: "stream_ok content sub" using n(2) by (simp add: n(3) stream_ok_def)
    note a = read_advances(1) [OF oks m(2)]
    have s1: "is_state s1 = is_state sub'" "bytes_left s1 = bytes_left s4 - unat n" using m(3) a by (auto simp: pb_close_string_substream_def advanced_def n(3,4))
    obtain s2 where s2: "pb_read_null io s4 (unat n) = Some (Some (), s2)" "advanced content s4 (unat n) s2" using read_null_ok [OF ok4, of "unat n"] n(2) by auto
    have "same_place content s2 s1" using s2(2) a s1 by (simp add: same_place_def advanced_def n(3))
    then show ?thesis using s2(1) n(1) 3 by (simp add: pb_skip_field_def types pb_skip_string_def)
  qed
qed

end

section \<open>Varints that are too long\<close>

context pb_source
begin

text \<open>A byte 0x80 changes nothing but the position, which wraps at 256.\<close>

lemma varint32_padding:
  "stream_ok content s \<Longrightarrow> stream_input content s = replicate n 0x80 @ bs \<Longrightarrow>
   \<exists>s'. varint32_loop io s r p = varint32_loop io s' r (p + of_nat (7 * n)) \<and> advanced content s n s'"
proof (induction n arbitrary: s p)
  case 0
  then show ?case by (auto intro!: exI [of _ s])
next
  case (Suc n)
  have x: "stream_input content s = 0x80 # replicate n 0x80 @ bs" using Suc.prems(2) by simp
  obtain s1 where s1: "pb_readbyte io s = Some (Some 0x80, s1)" "advanced content s 1 s1" "stream_ok content s1" "stream_input content s1 = replicate n 0x80 @ bs"
    using readbyte_ok [OF Suc.prems(1) x] by auto
  have "varint32_loop io s r p = varint32_loop io s1 r (p + 7)" unfolding varint32_loop.simps [of io s] s1(1) by simp
  moreover obtain s2 where "varint32_loop io s1 r (p + 7) = varint32_loop io s2 r (p + 7 + of_nat (7 * n))" "advanced content s1 n s2" using Suc.IH [OF s1(3,4)] by blast
  moreover have "p + 7 + of_nat (7 * n) = p + of_nat (7 * Suc n)" by (simp add: algebra_simps)
  ultimately show ?case using advanced_trans [OF s1(2)] by (metis plus_1_eq_Suc)
qed

lemma varint32_wrap:
  assumes ok: "stream_ok content s" and x: "stream_input content s = replicate 37 0x80 @ [b]" and b: "b AND 0x80 = 0"
  shows "\<exists>s'. pb_decode_varint32 io s = Some (Some (push_bit 3 (ucast b)), s')"
proof -
  have e: "replicate 37 0x80 @ [b] = 0x80 # replicate 36 0x80 @ [b]" by (simp add: numeral_eq_Suc)
  obtain s1 where s1: "pb_readbyte io s = Some (Some 0x80, s1)" "stream_ok content s1" "stream_input content s1 = replicate 36 0x80 @ [b]"
    using readbyte_ok [OF ok x [unfolded e]] by auto
  obtain s2 where s2: "varint32_loop io s1 0 7 = varint32_loop io s2 0 (7 + of_nat (7 * 36))" "advanced content s1 36 s2" using varint32_padding [OF s1(2,3)] by blast
  note i = advanced_ok [OF s1(2) s2(2)]
  have i2: "stream_input content s2 = [b]" using i(2) s1(3) by simp
  obtain s3 where s3: "pb_readbyte io s2 = Some (Some b, s3)" using readbyte_ok [OF i(1) i2] by blast
  have "b AND 0x7F = b" using low7 [of b] b byte_high_bit [of b] by (simp add: word_unat_eq_iff)
  then have l: "varint32_loop io s2 0 3 = Some (Some (push_bit 3 (ucast b)), s3)" unfolding varint32_loop.simps [of io s2] using s3 b by simp
  have three: "(7 + of_nat (7 * 36) :: byte) = 3" by simp
  have "varint32_loop io s1 0 7 = Some (Some (push_bit 3 (ucast b)), s3)" using s2(1) l unfolding three by (rule trans)
  then have "pb_decode_varint32_eof io s = Some ((Some (push_bit 3 (ucast b)), False), s3)" using s1(1) by (simp add: pb_decode_varint32_eof_def)
  then show ?thesis by (simp add: pb_decode_varint32_def)
qed

end

section \<open>Counting\<close>

lemma counts_value:
  assumes "bytes_written s + length (value_bytes v) < size_max1"
  shows "encode_value None s v = Some (True, s\<lparr>bytes_written := bytes_written s + length (value_bytes v)\<rparr>)"
  using assms by (cases v) (simp_all add: encode_value_def value_bytes_def encode_varint_eq encode_fixed_bytes encode_string_bytes write_counts size_add_noover add.assoc)

lemma counts_fields:
  "bytes_written s + length (fields_bytes fs) < size_max1 \<Longrightarrow>
   encode_fields None s fs = Some (True, s\<lparr>bytes_written := bytes_written s + length (fields_bytes fs)\<rparr>)"
proof (induction fs arbitrary: s)
  case Nil
  then show ?case by (simp add: fields_bytes_def)
next
  case (Cons f fs)
  obtain tag v where f: "f = (tag, v)" by fastforce
  let ?t = "varint_of (tag_word tag (wire_type v))"
  have l: "length (fields_bytes (f # fs)) = length ?t + (length (value_bytes v) + length (fields_bytes fs))" by (simp add: fields_bytes_def field_bytes_def f)
  have "pb_encode_tag None s (wire_type v) tag = Some (True, s\<lparr>bytes_written := bytes_written s + length ?t\<rparr>)"
    using Cons.prems unfolding l by (simp add: pb_encode_tag_def encode_varint_eq tag_word_def [symmetric] write_counts size_add_noover)
  then show ?case using Cons.prems unfolding l by (simp add: f counts_value Cons.IH add.assoc)
qed

section \<open>The properties of the wire format\<close>

lemma out_ok: "n \<le> length mem \<Longrightarrow> length mem < size_max1 \<Longrightarrow> sink_ok buf_rest (pb_ostream_from_buffer mem n)"
  by (simp add: sink_ok_def pb_ostream_from_buffer_def buf_rest_def)

text \<open>C34: Fields of every wire type that nanopb writes into a buffer are read back as they were: the tags, the values and the end.
  What the buffer has after them is not touched.\<close>

theorem wire_roundtrip:
  assumes "list_all wire_ok fs" and "n \<le> length mem" and "length mem < size_max1"
    and "encode_fields (Some pb_buf_write) (pb_ostream_from_buffer mem n) fs = Some (True, s)"
  shows "decode_fields (Suc (length fs)) buf_io (pb_istream_from_buffer (fst (os_state s)) (bytes_written s)) = Some fs \<and>
         bytes_written s \<le> n \<and> drop (bytes_written s) (fst (os_state s)) = drop (bytes_written s) mem"
proof -
  let ?s0 = "pb_ostream_from_buffer mem n" and ?bs = "fields_bytes fs"
  have w: "emits buf_content buf_rest ?s0 ?bs (Some (True, s))" using pb_out.emits_fields [OF out_ok [OF assms(2,3)] assms(1)] unfolding assms(4) .
  have a: "appended buf_content buf_rest ?s0 ?bs s" and fits: "length ?bs \<le> n" using w by (auto simp: emits_def pb_ostream_from_buffer_def split: if_splits)
  obtain m p where st: "os_state s = (m, p)" by fastforce
  have c: "take p m = ?bs" "drop p m = drop (length ?bs) mem" "bytes_written s = length ?bs" using a by (auto simp: appended_def pb_ostream_from_buffer_def buf_content_def buf_rest_def st)
  have "m = ?bs @ drop (length ?bs) mem" using append_take_drop_id [of p m] unfolding c(1,2) by (rule sym)
  then have m: "take (length ?bs) m = ?bs" "drop (length ?bs) m = drop (length ?bs) mem" "length ?bs \<le> length m" by auto
  let ?i = "pb_istream_from_buffer m (length ?bs)"
  have "stream_ok (\<lambda>xs. xs) ?i" "stream_input (\<lambda>xs. xs) ?i = ?bs" using m fits assms(2,3) by (auto simp: stream_ok_def stream_input_def pb_istream_from_buffer_def)
  from pb_buffer.decode_fields_ok [OF this assms(1), of "Suc (length fs)"] show ?thesis using c(3) m(2) fits by (simp add: st)
qed

definition sample_fields :: "(uint32 \<times> wire_value) list" where
  "sample_fields = [(1, Wire_varint 300), (2, Wire_string [0x61, 0x62]), (3, Wire_32bit 7)]"

lemma sample_written:
  obtains s where "encode_fields (Some pb_buf_write) (pb_ostream_from_buffer (replicate 100 0) 90) sample_fields = Some (True, s)" and "list_all wire_ok sample_fields"
proof -
  have ok: "list_all wire_ok sample_fields" by (simp add: sample_fields_def wire_ok_def)
  have n: "length (varint_of w) \<le> 10" for w by (rule varint_of_facts(4))
  have "length (fields_bytes sample_fields) \<le> 90"
    using n [of "tag_word 1 PB_WT_VARINT"] n [of "tag_word 2 PB_WT_STRING"] n [of "tag_word 3 PB_WT_32BIT"] n [of 300] n [of 2]
    by (simp add: sample_fields_def fields_bytes_def field_bytes_def value_bytes_def wire_type_def le_bytes_def)
  then show ?thesis using that ok pb_out.emits_fields [OF out_ok ok, of 90 "replicate 100 0"] by (auto simp: emits_def pb_ostream_from_buffer_def size_max1_def)
qed

theorem wire_roundtrip_witness:
  "\<exists>s. encode_fields (Some pb_buf_write) (pb_ostream_from_buffer (replicate 100 0) 90) sample_fields = Some (True, s) \<and>
     decode_fields (Suc (length sample_fields)) buf_io (pb_istream_from_buffer (fst (os_state s)) (bytes_written s)) = Some sample_fields"
  by (rule sample_written) (use wire_roundtrip [of sample_fields 90 "replicate 100 0"] in \<open>auto simp: size_max1_def simp del: decode_fields.simps\<close>)

text \<open>C40: A stream without a callback counts exactly the bytes that a buffer needs: with at least as many the fields are written, with fewer the writer
  fails with a message, and in no case emits outside of the buffer.\<close>

theorem encode_sizes:
  assumes "list_all wire_ok fs" and "encode_fields None PB_OSTREAM_SIZING fs = Some (True, c)" and "length (fields_bytes fs) < size_max1"
    and "n \<le> length mem" and "length mem < size_max1"
  shows "\<exists>ok s. encode_fields (Some pb_buf_write) (pb_ostream_from_buffer mem n) fs = Some (ok, s) \<and> (ok \<longleftrightarrow> bytes_written c \<le> n) \<and>
           (ok \<longrightarrow> bytes_written s = bytes_written c) \<and> (\<not> ok \<longrightarrow> os_errmsg s \<noteq> None)"
proof -
  have c: "bytes_written c = length (fields_bytes fs)" using counts_fields [of PB_OSTREAM_SIZING fs] assms(2,3) by (auto simp: PB_OSTREAM_SIZING_def)
  show ?thesis using pb_out.emits_fields [OF out_ok [OF assms(4,5)] assms(1)] unfolding c by (auto simp: emits_def appended_def pb_ostream_from_buffer_def split: if_splits)
qed

theorem encode_sizes_witness:
  "\<exists>c s. encode_fields None PB_OSTREAM_SIZING sample_fields = Some (True, c) \<and> encode_fields (Some pb_buf_write) (pb_ostream_from_buffer [0] 1) sample_fields = Some (False, s)"
proof -
  have ok: "list_all wire_ok sample_fields" by (simp add: sample_fields_def wire_ok_def)
  have n: "length (varint_of w) \<le> 10" "0 < length (varint_of w)" for w by (rule varint_of_facts)+
  have l: "length (fields_bytes sample_fields) < size_max1" "1 < length (fields_bytes sample_fields)"
    using n(1) [of "tag_word 1 PB_WT_VARINT"] n(1) [of "tag_word 2 PB_WT_STRING"] n(1) [of "tag_word 3 PB_WT_32BIT"] n(1) [of 300] n(1) [of 2]
    by (simp_all add: sample_fields_def fields_bytes_def field_bytes_def value_bytes_def wire_type_def le_bytes_def size_max1_def)
  let ?c = "PB_OSTREAM_SIZING\<lparr>bytes_written := length (fields_bytes sample_fields)\<rparr>"
  have c: "encode_fields None PB_OSTREAM_SIZING sample_fields = Some (True, ?c)" using counts_fields [of PB_OSTREAM_SIZING sample_fields] l(1) by (simp add: PB_OSTREAM_SIZING_def)
  show ?thesis using encode_sizes [OF ok c l(1), of 1 "[0]"] c l(2) by (auto simp: size_max1_def)
qed

text \<open>C36: Whatever the bytes, \<open>pb_skip_field\<close> leaves the stream where reading the value of the field would: a decoder that does not know a field
  stays in step.\<close>

theorem skip_exact:
  assumes "bytes_left s \<le> length (is_state s)" and "bytes_left s < size_max1" and "decode_value buf_io s t = Some (Some v, s1)"
  shows "\<exists>s2. pb_skip_field buf_io s t = Some (Some (), s2) \<and> is_state s2 = is_state s1 \<and> bytes_left s2 = bytes_left s1"
  using pb_buffer.skip_value [OF _ assms(3)] assms(1,2) by (simp add: stream_ok_def same_place_def)

theorem skip_exact_witness:
  "\<exists>s1. decode_value buf_io (pb_istream_from_buffer [2, 0x61, 0x62, 9] 4) PB_WT_STRING = Some (Some (Wire_string [0x61, 0x62]), s1) \<and>
     (\<exists>s2. pb_skip_field buf_io (pb_istream_from_buffer [2, 0x61, 0x62, 9] 4) PB_WT_STRING = Some (Some (), s2) \<and> is_state s2 = [9])"
proof -
  have "decode_value buf_io (pb_istream_from_buffer [2, 0x61, 0x62, 9] 4) PB_WT_STRING = Some (Some (Wire_string [0x61, 0x62]), \<lparr>is_state = [9], bytes_left = 1, is_errmsg = None\<rparr>)"
    by (simp add: decode_value_def PB_WT_VARINT_def PB_WT_64BIT_def PB_WT_STRING_def pb_make_string_substream_def pb_decode_varint32_def pb_decode_varint32_eof_def
        pb_readbyte_def pb_read_def pb_fetch_def buf_io_def buf_read_def pb_istream_from_buffer_def pb_close_string_substream_def size_max1_def)
  with skip_exact [OF _ _ this] show ?thesis by (fastforce simp: pb_istream_from_buffer_def size_max1_def)
qed

text \<open>C35: Whatever the bytes of a message, decoding does not read outside of its buffer, returns, and leaves a stream within the limits.\<close>

theorem decode_safe:
  assumes "bytes_left s \<le> length (is_state s)" and "bytes_left s < size_max1"
  shows "returns (\<lambda>xs. xs) s (pb_decode_varint buf_io s) \<and> returns (\<lambda>xs. xs) s (pb_decode_svarint buf_io s) \<and> returns (\<lambda>xs. xs) s (pb_decode_varint32 buf_io s) \<and>
    returns (\<lambda>xs. xs) s (pb_skip_field buf_io s t) \<and> returns (\<lambda>xs. xs) s (read_raw_value buf_io s t m) \<and>
    returns (\<lambda>xs. xs) s (pb_decode_fixed32 buf_io s) \<and> returns (\<lambda>xs. xs) s (pb_decode_fixed64 buf_io s) \<and> (\<exists>r s'. pb_decode_tag buf_io s = Some (r, s') \<and> failed (\<lambda>xs. xs) s s')"
proof -
  have ok: "stream_ok (\<lambda>xs. xs) s" using assms by (simp add: stream_ok_def)
  have "returns (\<lambda>xs. xs) s (pb_decode_svarint buf_io s)" unfolding pb_decode_svarint_def by (rule returns_then [OF pb_buffer.returns_varint [OF ok]]) simp
  moreover have "returns (\<lambda>xs. xs) s (read_raw_value buf_io s t m)" by (simp add: read_raw_value_def pb_buffer.returns_raw [OF ok] pb_buffer.returns_read [OF ok])
  moreover have "\<exists>r s'. pb_decode_tag buf_io s = Some (r, s') \<and> failed (\<lambda>xs. xs) s s'"
    using pb_buffer.varint32_returns [OF ok] by (auto simp: pb_decode_tag_def split: option.split)
  ultimately show ?thesis
    using pb_buffer.returns_varint [OF ok] pb_buffer.returns_varint32 [OF ok] pb_buffer.returns_skip_field [OF ok] pb_buffer.returns_fixed [OF ok] by blast
qed

theorem decode_safe_witness: "returns (\<lambda>xs. xs) (pb_istream_from_buffer [0x80, 0xFF] 2) (pb_decode_varint32 buf_io (pb_istream_from_buffer [0x80, 0xFF] 2))"
  using decode_safe [of "pb_istream_from_buffer [0x80, 0xFF] 2"] by (simp add: pb_istream_from_buffer_def size_max1_def)



text \<open>C38: \<open>pb_decode_varint32\<close> keeps the position of the bits in 8 bits, which wrap after 36 bytes: an encoding of 38 bytes that \<open>pb_decode_varint\<close> rejects is accepted,
  and its last byte is taken for low bits of the value.\<close>

theorem varint32_wraps:
  assumes "s = pb_istream_from_buffer (replicate 37 0x80 @ [b]) 38" and "b AND 0x80 = 0"
  shows "(\<exists>s'. pb_decode_varint32 buf_io s = Some (Some (push_bit 3 (ucast b)), s')) \<and> (\<exists>s'. pb_decode_varint buf_io s = Some (None, s'))"
proof -
  have ok: "stream_ok (\<lambda>xs. xs) s" and x: "stream_input (\<lambda>xs. xs) s = replicate 37 0x80 @ [b]"
    by (simp_all add: assms(1) stream_ok_def stream_input_def pb_istream_from_buffer_def size_max1_def)
  have "varint_len (replicate n 0x80 @ [b]) = Some (Suc n)" for n using assms(2) by (induction n) auto
  from this [of 37] have "\<exists>s'. pb_decode_varint buf_io s = Some (None, s')" using pb_buffer.decode_varint_exact(2) [OF ok] unfolding x by fastforce
  then show ?thesis using pb_buffer.varint32_wrap [OF ok x assms(2)] by blast
qed

theorem varint32_wraps_witness: "\<exists>s'. pb_decode_varint32 buf_io (pb_istream_from_buffer (replicate 37 0x80 @ [1]) 38) = Some (Some 8, s')"
  using varint32_wraps [OF refl, of 1] by simp

end
