(* ===== verification/Pb_Field.thy ===== *)
theory Pb_Field
  imports Pb_Wire
begin

text \<open>
  The codecs of nanopb for numbers in the members of a structure: \<open>pb_enc_...\<close> and \<open>pb_dec_...\<close>. A member is its bytes in memory, lowest first
  as on the target. A decoder gives its return value, the member and the stream: it stores before it checks.
\<close>

record pb_field =
  f_tag :: uint32
  f_type :: byte
  f_data_size :: nat

section \<open>Members\<close>

fun load_le :: "byte list \<Rightarrow> uint64" where
  "load_le [] = 0"
| "load_le (b # bs) = ucast b OR push_bit 8 (load_le bs)"

text \<open>The conversion of a number to a signed type of \<open>n\<close> bytes, and its value in \<open>int64_t\<close>.\<close>

definition to_signed :: "nat \<Rightarrow> uint64 \<Rightarrow> uint64" where
  "to_signed n v = signed_take_bit (8 * n - 1) v"

definition to_unsigned :: "nat \<Rightarrow> uint64 \<Rightarrow> uint64" where
  "to_unsigned n v = take_bit (8 * n) v"

definition int_sizes :: "nat set" where
  "int_sizes = {1, 2, 4, 8}"

section \<open>Encoders\<close>

definition safe_read_bool :: "byte list \<Rightarrow> bool" where
  "safe_read_bool src \<longleftrightarrow> (\<exists>b \<in> set src. b \<noteq> 0)"

definition pb_enc_bool :: "'s pb_write_cb option \<Rightarrow> 's pb_ostream \<Rightarrow> byte list \<Rightarrow> (bool \<times> 's pb_ostream) option" where
  "pb_enc_bool cb s src = pb_encode_varint cb s (if safe_read_bool src then 1 else 0)"

definition pb_enc_varint :: "'s pb_write_cb option \<Rightarrow> 's pb_ostream \<Rightarrow> pb_field \<Rightarrow> byte list \<Rightarrow> (bool \<times> 's pb_ostream) option" where
  "pb_enc_varint cb s f src =
     (if f_data_size f \<in> int_sizes then pb_encode_varint cb s (to_signed (f_data_size f) (load_le (take (f_data_size f) src)))
      else os_error ''invalid data_size'' s)"

definition pb_enc_uvarint :: "'s pb_write_cb option \<Rightarrow> 's pb_ostream \<Rightarrow> pb_field \<Rightarrow> byte list \<Rightarrow> (bool \<times> 's pb_ostream) option" where
  "pb_enc_uvarint cb s f src =
     (if f_data_size f \<in> int_sizes then pb_encode_varint cb s (load_le (take (f_data_size f) src))
      else os_error ''invalid data_size'' s)"

definition pb_enc_svarint :: "'s pb_write_cb option \<Rightarrow> 's pb_ostream \<Rightarrow> pb_field \<Rightarrow> byte list \<Rightarrow> (bool \<times> 's pb_ostream) option" where
  "pb_enc_svarint cb s f src =
     (if f_data_size f \<in> int_sizes then pb_encode_svarint cb s (to_signed (f_data_size f) (load_le (take (f_data_size f) src)))
      else os_error ''invalid data_size'' s)"

text \<open>
  A string ends at its null byte. A member of the structure also ends with its size, while a string behind a pointer has no limit: without a null byte the
  code reads outside of it. A null pointer is an empty string.
\<close>

definition PB_ATYPE_MASK :: byte where "PB_ATYPE_MASK = 0xC0"
definition PB_ATYPE_POINTER :: byte where "PB_ATYPE_POINTER = 0x80"

definition pb_enc_string :: "'s pb_write_cb option \<Rightarrow> 's pb_ostream \<Rightarrow> pb_field \<Rightarrow> byte list option \<Rightarrow> (bool \<times> 's pb_ostream) option" where
  "pb_enc_string cb s f src =
     (case src of
        None \<Rightarrow> pb_encode_string cb s []
      | Some p \<Rightarrow>
          if f_type f AND PB_ATYPE_MASK = PB_ATYPE_POINTER
          then if 0 \<in> set p then pb_encode_string cb s (takeWhile (\<lambda>b. b \<noteq> 0) p) else None
          else pb_encode_string cb s (takeWhile (\<lambda>b. b \<noteq> 0) (take (f_data_size f) p)))"

definition pb_enc_fixed_length_bytes :: "'s pb_write_cb option \<Rightarrow> 's pb_ostream \<Rightarrow> pb_field \<Rightarrow> byte list \<Rightarrow> (bool \<times> 's pb_ostream) option" where
  "pb_enc_fixed_length_bytes cb s f src = pb_encode_string cb s (take (f_data_size f) src)"

definition pb_enc_fixed32 :: "'s pb_write_cb option \<Rightarrow> 's pb_ostream \<Rightarrow> byte list \<Rightarrow> (bool \<times> 's pb_ostream) option" where
  "pb_enc_fixed32 cb s src = pb_encode_fixed32 cb s (ucast (load_le (take 4 src)))"

definition pb_enc_fixed64 :: "'s pb_write_cb option \<Rightarrow> 's pb_ostream \<Rightarrow> byte list \<Rightarrow> (bool \<times> 's pb_ostream) option" where
  "pb_enc_fixed64 cb s src = pb_encode_fixed64 cb s (load_le (take 8 src))"

text \<open>The types of fields are numbers in the low bits of the type.\<close>

definition PB_LTYPE :: "byte \<Rightarrow> byte" where "PB_LTYPE x = x AND 0x0F"
definition PB_LTYPE_BOOL :: byte where "PB_LTYPE_BOOL = 0"
definition PB_LTYPE_VARINT :: byte where "PB_LTYPE_VARINT = 1"
definition PB_LTYPE_UVARINT :: byte where "PB_LTYPE_UVARINT = 2"
definition PB_LTYPE_SVARINT :: byte where "PB_LTYPE_SVARINT = 3"
definition PB_LTYPE_FIXED32 :: byte where "PB_LTYPE_FIXED32 = 4"
definition PB_LTYPE_FIXED64 :: byte where "PB_LTYPE_FIXED64 = 5"
definition PB_LTYPE_BYTES :: byte where "PB_LTYPE_BYTES = 6"
definition PB_LTYPE_STRING :: byte where "PB_LTYPE_STRING = 7"
definition PB_LTYPE_SUBMESSAGE :: byte where "PB_LTYPE_SUBMESSAGE = 8"
definition PB_LTYPE_FIXED_LENGTH_BYTES :: byte where "PB_LTYPE_FIXED_LENGTH_BYTES = 10"

definition pb_encode_tag_for_field :: "'s pb_write_cb option \<Rightarrow> 's pb_ostream \<Rightarrow> pb_field \<Rightarrow> (bool \<times> 's pb_ostream) option" where
  "pb_encode_tag_for_field cb s f =
     (let t = PB_LTYPE (f_type f) in
      if t \<in> {PB_LTYPE_BOOL, PB_LTYPE_VARINT, PB_LTYPE_UVARINT, PB_LTYPE_SVARINT} then pb_encode_tag cb s PB_WT_VARINT (f_tag f)
      else if t = PB_LTYPE_FIXED32 then pb_encode_tag cb s PB_WT_32BIT (f_tag f)
      else if t = PB_LTYPE_FIXED64 then pb_encode_tag cb s PB_WT_64BIT (f_tag f)
      else if t \<in> {PB_LTYPE_BYTES, PB_LTYPE_STRING, PB_LTYPE_SUBMESSAGE, PB_LTYPE_FIXED_LENGTH_BYTES} then pb_encode_tag cb s PB_WT_STRING (f_tag f)
      else os_error ''invalid field type'' s)"

section \<open>Decoders\<close>

type_synonym 's pb_dec_result = "(bool \<times> byte list \<times> 's pb_istream) option"

definition dec_error :: "string \<Rightarrow> 's pb_istream \<Rightarrow> byte list \<Rightarrow> 's pb_dec_result" where
  "dec_error msg s dest = map_option (\<lambda>(r :: unit option, s'). (False, dest, s')) (pb_error msg s)"

definition dec_then :: "('s, 'a) pb_result \<Rightarrow> byte list \<Rightarrow> ('a \<Rightarrow> 's pb_istream \<Rightarrow> 's pb_dec_result) \<Rightarrow> 's pb_dec_result" where
  "dec_then r dest k = (case r of None \<Rightarrow> None | Some (None, s) \<Rightarrow> Some (False, dest, s) | Some (Some x, s) \<Rightarrow> k x s)"

text \<open>Storing the low \<open>n\<close> bytes of a number in a member.\<close>

definition store :: "nat \<Rightarrow> uint64 \<Rightarrow> byte list \<Rightarrow> byte list" where
  "store n v dest = le_bytes n v @ drop n dest"

definition pb_dec_bool :: "'s pb_io \<Rightarrow> 's pb_istream \<Rightarrow> byte list \<Rightarrow> 's pb_dec_result" where
  "pb_dec_bool io s dest = dec_then (pb_decode_varint32 io s) dest (\<lambda>v s'. Some (True, store 1 (if v \<noteq> 0 then 1 else 0) dest, s'))"

definition pb_dec_varint :: "'s pb_io \<Rightarrow> 's pb_istream \<Rightarrow> pb_field \<Rightarrow> byte list \<Rightarrow> 's pb_dec_result" where
  "pb_dec_varint io s f dest =
     dec_then (pb_decode_varint io s) dest (\<lambda>v s'.
       let n = f_data_size f;
           svalue = (if n = 8 then v else to_signed 4 v)
       in if n \<notin> int_sizes then dec_error ''invalid data_size'' s' dest
          else if to_signed n svalue \<noteq> svalue then dec_error ''integer too large'' s' (store n svalue dest)
          else Some (True, store n svalue dest, s'))"

definition pb_dec_uvarint :: "'s pb_io \<Rightarrow> 's pb_istream \<Rightarrow> pb_field \<Rightarrow> byte list \<Rightarrow> 's pb_dec_result" where
  "pb_dec_uvarint io s f dest =
     dec_then (pb_decode_varint io s) dest (\<lambda>v s'.
       let n = f_data_size f
       in if n \<notin> int_sizes then dec_error ''invalid data_size'' s' dest
          else if to_unsigned n v \<noteq> v then dec_error ''integer too large'' s' (store n v dest)
          else Some (True, store n v dest, s'))"

definition pb_dec_svarint :: "'s pb_io \<Rightarrow> 's pb_istream \<Rightarrow> pb_field \<Rightarrow> byte list \<Rightarrow> 's pb_dec_result" where
  "pb_dec_svarint io s f dest =
     dec_then (pb_decode_svarint io s) dest (\<lambda>v s'.
       let n = f_data_size f
       in if n \<notin> int_sizes then dec_error ''invalid data_size'' s' dest
          else if to_signed n v \<noteq> v then dec_error ''integer too large'' s' (store n v dest)
          else Some (True, store n v dest, s'))"

definition pb_dec_fixed32 :: "'s pb_io \<Rightarrow> 's pb_istream \<Rightarrow> byte list \<Rightarrow> 's pb_dec_result" where
  "pb_dec_fixed32 io s dest = dec_then (pb_decode_fixed32 io s) dest (\<lambda>v s'. Some (True, store 4 (ucast v) dest, s'))"

definition pb_dec_fixed64 :: "'s pb_io \<Rightarrow> 's pb_istream \<Rightarrow> byte list \<Rightarrow> 's pb_dec_result" where
  "pb_dec_fixed64 io s dest = dec_then (pb_decode_fixed64 io s) dest (\<lambda>v s'. Some (True, store 8 v dest, s'))"

text \<open>With no bytes the member is set to zeros. A read that fails may leave anything in the member; the model leaves it.\<close>

definition pb_dec_fixed_length_bytes :: "'s pb_io \<Rightarrow> 's pb_istream \<Rightarrow> pb_field \<Rightarrow> byte list \<Rightarrow> 's pb_dec_result" where
  "pb_dec_fixed_length_bytes io s f dest =
     dec_then (pb_decode_varint32 io s) dest (\<lambda>v s'.
       if v = 0 then Some (True, replicate (f_data_size f) 0 @ drop (f_data_size f) dest, s')
       else if unat v \<noteq> f_data_size f then dec_error ''incorrect fixed length bytes size'' s' dest
       else dec_then (pb_read io s' (f_data_size f)) dest (\<lambda>bs s''. Some (True, bs @ drop (f_data_size f) dest, s'')))"

section \<open>Numbers in members\<close>

lemma le_bytes_Suc: "le_bytes (Suc n) (v :: uint64) = ucast (v AND 0xFF) # le_bytes n (drop_bit 8 v)"
proof -
  have "[0..<Suc n] = 0 # map Suc [0..<n]" by (simp only: upt_conv_Cons map_Suc_upt zero_less_Suc)
  then show ?thesis unfolding le_bytes_def by (simp add: add.commute del: upt_Suc)
qed

lemma le_bytes_cong:
  fixes v w :: uint64
  assumes "\<And>i. i < 8 * n \<Longrightarrow> bit v i = bit w i"
  shows "le_bytes n v = le_bytes n w"
  unfolding le_bytes_def
proof (rule map_cong [OF refl])
  fix x
  assume "x \<in> set [0..<n]"
  then have "bit v (8 * x + i) = bit w (8 * x + i)" if "i < 8" for i using assms that by simp
  then show "(ucast (drop_bit (8 * x) v AND 0xFF) :: byte) = ucast (drop_bit (8 * x) w AND 0xFF)" by (intro bit_word_eqI) (auto simp: bit_simps mask_lits)
qed

lemma load_le_bit: "bit (load_le bs) n \<Longrightarrow> n < 8 * length bs"
proof (induction bs arbitrary: n)
  case (Cons b bs)
  then show ?case by (cases "n < 8") (auto simp: bit_simps dest: bit_imp_le_length Cons.IH)
qed simp

lemma le_bytes_load: "length bs \<le> 8 \<Longrightarrow> le_bytes (length bs) (load_le bs) = bs"
proof (induction bs)
  case Nil
  then show ?case by (simp add: le_bytes_def)
next
  case (Cons b bs)
  have "n < 56" if "bit (load_le bs) n" for n using load_le_bit [OF that] Cons.prems by simp
  then have "drop_bit 8 (load_le (b # bs)) = load_le bs" by (intro bit_word_eqI) (auto simp: bit_simps dest: bit_imp_le_length)
  moreover have "ucast (load_le (b # bs) AND 0xFF) = b" by (rule bit_word_eqI) (auto simp: bit_simps mask_lits)
  ultimately show ?case using Cons by (simp add: le_bytes_Suc del: load_le.simps)
qed

lemma negative_bit: "v <s 0 \<longleftrightarrow> bit (v :: int64) 63"
proof -
  have "v <s 0 \<longleftrightarrow> sint v < 0" by (simp add: word_sless_alt)
  also have "\<dots> \<longleftrightarrow> bit v 63" using bit_last_iff [of v] by simp
  finally show ?thesis .
qed

lemma zigzag:
  assumes "z = (if v <s 0 then NOT (push_bit 1 v) else push_bit 1 (v :: int64))"
  shows "(if z AND 1 \<noteq> 0 then NOT (drop_bit 1 z) else drop_bit 1 z) = v"
proof -
  have low: "z AND 1 \<noteq> 0 \<longleftrightarrow> bit z 0" using and_exp_eq_0_iff_not_bit [of z 0] by simp
  show ?thesis
  proof (cases "bit v 63")
    case True
    then have z: "bit z n \<longleftrightarrow> n < 64 \<and> \<not> (1 \<le> n \<and> bit v (n - 1))" for n using assms negative_bit by (simp add: bit_not_iff bit_push_bit_iff del: push_bit_Suc push_bit_0_id) (auto simp: bit_simps)
    have "NOT (drop_bit 1 z) = v" using True by (intro bit_word_eqI) (auto simp: z bit_simps less_Suc_eq numeral_eq_Suc)
    moreover have "bit z 0" by (simp add: z)
    ultimately show ?thesis unfolding low by simp
  next
    case False
    then have z: "bit z n \<longleftrightarrow> n < 64 \<and> 1 \<le> n \<and> bit v (n - 1)" for n using assms negative_bit bit_push_bit_iff [of 1 v n] by auto
    have "drop_bit 1 z = v" using False by (intro bit_word_eqI) (auto simp: z bit_simps less_Suc_eq numeral_eq_Suc)
    moreover have "\<not> bit z 0" by (simp add: z)
    ultimately show ?thesis unfolding low by simp
  qed
qed

section \<open>The properties of members\<close>

lemma written_varint:
  assumes e: "pb_encode_varint (Some pb_buf_write) (pb_ostream_from_buffer mem n) v = Some (True, s)" and n: "n \<le> length mem" "length mem < size_max1"
  shows "\<exists>s'. pb_decode_varint buf_io (pb_istream_from_buffer (fst (os_state s)) (bytes_written s)) = Some (Some v, s') \<and> bytes_left s' = 0"
proof -
  let ?s0 = "pb_ostream_from_buffer mem n" and ?bs = "varint_of v"
  have short: "length ?bs < size_max1" using varint_of_facts(4) [of v] by (simp add: size_max1_def)
  have "emits buf_content buf_rest ?s0 ?bs (Some (True, s))" using pb_out.emits_write [OF out_ok [OF n] short] e by (simp add: encode_varint_eq)
  then have a: "appended buf_content buf_rest ?s0 ?bs s" "length ?bs \<le> n" by (auto simp: emits_def pb_ostream_from_buffer_def split: if_splits)
  obtain m p where st: "os_state s = (m, p)" by fastforce
  have c: "take p m = ?bs" "bytes_written s = length ?bs" using a(1) by (auto simp: appended_def pb_ostream_from_buffer_def buf_content_def st)
  let ?i = "pb_istream_from_buffer m (length ?bs)"
  have l: "take (length ?bs) m = ?bs" "length ?bs \<le> length m" using c(1) by (metis append_eq_conv_conj append_take_drop_id) (metis c(1) length_take min.cobounded1)
  then have ok: "stream_ok (\<lambda>xs. xs) ?i" and x: "stream_input (\<lambda>xs. xs) ?i = ?bs" using short by (simp_all add: stream_ok_def stream_input_def pb_istream_from_buffer_def)
  have len: "varint_len ?bs = Some (length ?bs)" using varint_of_facts(1) [of v "[]"] by simp
  have "\<exists>s'. pb_decode_varint buf_io ?i = Some (Some (of_nat (varint_val ?bs)), s') \<and> advanced (\<lambda>xs. xs) ?i (length ?bs) s'"
    using pb_buffer.decode_varint_exact(1) [OF ok, of "length ?bs"] varint_of_facts(4) [of v] len unfolding x by simp
  then show ?thesis using varint_of_facts(2) [of v] by (auto simp: st c(2) advanced_def pb_istream_from_buffer_def)
qed

lemma size_cases: "n \<in> int_sizes \<Longrightarrow> n = 1 \<or> n = 2 \<or> n = 4 \<or> n = 8"
  by (auto simp: int_sizes_def)

lemma store_signed: "length src = n \<Longrightarrow> n \<in> int_sizes \<Longrightarrow> store n (to_signed n (load_le src)) dest = src @ drop n dest"
proof -
  assume n: "length src = n" "n \<in> int_sizes"
  have "bit (to_signed n (load_le src)) i = bit (load_le src) i" if "i < 8 * n" for i
  proof -
    have "min (8 * n - 1) i = i" using that by simp
    then show ?thesis by (auto simp: to_signed_def bit_signed_take_bit_iff dest: bit_imp_le_length)
  qed
  then have "le_bytes n (to_signed n (load_le src)) = le_bytes n (load_le src)" by (rule le_bytes_cong)
  then show ?thesis using le_bytes_load [of src] size_cases [OF n(2)] n(1) by (auto simp: store_def)
qed

lemma to_signed_twice: "m \<le> n \<Longrightarrow> to_signed n (to_signed m v) = to_signed m v" "m \<le> n \<Longrightarrow> to_signed m (to_signed n v) = to_signed m v"
  by (cases "m = n"; auto simp: to_signed_def signed_take_bit_signed_take_bit min_def)+

text \<open>C39: An integer of 8, 16, 32 or 64 bits in a member of a structure is read back as it was, as \<open>int\<close>, \<open>uint\<close> and \<open>sint\<close>: negative numbers too,
  although \<open>pb_dec_varint\<close> cuts what it reads to 32 bits first.\<close>

theorem int_field_roundtrip:
  assumes "f_data_size f \<in> int_sizes" and "length src = f_data_size f" and "length dest = f_data_size f" and "n \<le> length mem" and "length mem < size_max1"
    and "(enc, dec) \<in> {(pb_enc_varint, pb_dec_varint), (pb_enc_uvarint, pb_dec_uvarint), (pb_enc_svarint, pb_dec_svarint)}"
    and "enc (Some pb_buf_write) (pb_ostream_from_buffer mem n) f src = Some (True, s)"
  shows "\<exists>s'. dec buf_io (pb_istream_from_buffer (fst (os_state s)) (bytes_written s)) f dest = Some (True, src, s') \<and> bytes_left s' = 0"
proof -
  let ?n = "f_data_size f" and ?v = "load_le src" and ?i = "pb_istream_from_buffer (fst (os_state s)) (bytes_written s)"
  have n8: "length src \<le> 8" using size_cases [OF assms(1)] assms(2) by auto
  have take: "take ?n src = src" using assms(2) by simp
  note w = written_varint [OF _ assms(4,5)] and st = store_signed [OF assms(2,1), of dest]
  consider (int) "enc = pb_enc_varint" "dec = pb_dec_varint" | (uint) "enc = pb_enc_uvarint" "dec = pb_dec_uvarint" | (sint) "enc = pb_enc_svarint" "dec = pb_dec_svarint" using assms(6) by auto
  then show ?thesis
  proof cases
    case int
    have "pb_encode_varint (Some pb_buf_write) (pb_ostream_from_buffer mem n) (to_signed ?n ?v) = Some (True, s)" using assms(1,7) int(1) take by (simp add: pb_enc_varint_def)
    from w [OF this] obtain s' where s': "pb_decode_varint buf_io ?i = Some (Some (to_signed ?n ?v), s')" "bytes_left s' = 0" by blast
    have sv: "(if ?n = 8 then to_signed ?n ?v else to_signed 4 (to_signed ?n ?v)) = to_signed ?n ?v" using size_cases [OF assms(1)] to_signed_twice(1) [of ?n 4 ?v] by auto
    then show ?thesis using s' assms(1,3) st to_signed_twice(1) [of ?n ?n ?v] by (simp add: int(2) pb_dec_varint_def dec_then_def Let_def)
  next
    case uint
    have "pb_encode_varint (Some pb_buf_write) (pb_ostream_from_buffer mem n) ?v = Some (True, s)" using assms(1,7) uint(1) take by (simp add: pb_enc_uvarint_def)
    from w [OF this] obtain s' where s': "pb_decode_varint buf_io ?i = Some (Some ?v, s')" "bytes_left s' = 0" by blast
    have "to_unsigned ?n ?v = ?v" using load_le_bit [of src] assms(2) by (intro bit_word_eqI) (auto simp: to_unsigned_def bit_simps)
    moreover have "store ?n ?v dest = src" using le_bytes_load [OF n8] assms(2,3) by (simp add: store_def)
    ultimately show ?thesis using s' assms(1) by (simp add: uint(2) pb_dec_uvarint_def dec_then_def Let_def)
  next
    case sint
    define z where "z = (if to_signed ?n ?v <s 0 then NOT (push_bit 1 (to_signed ?n ?v)) else push_bit 1 (to_signed ?n ?v))"
    have "pb_encode_varint (Some pb_buf_write) (pb_ostream_from_buffer mem n) z = Some (True, s)" using assms(1,7) sint(1) take by (simp add: pb_enc_svarint_def pb_encode_svarint_def z_def)
    from w [OF this] obtain s' where s': "pb_decode_varint buf_io ?i = Some (Some z, s')" "bytes_left s' = 0" by blast
    have "pb_decode_svarint buf_io ?i = Some (Some (to_signed ?n ?v), s')" using s'(1) zigzag [OF z_def] by (simp add: pb_decode_svarint_def)
    then show ?thesis using s'(2) assms(1,3) st to_signed_twice(1) [of ?n ?n ?v] by (simp add: sint(2) pb_dec_svarint_def dec_then_def Let_def)
  qed
qed

definition sample_member :: pb_field where
  "sample_member = \<lparr>f_tag = 1, f_type = 3, f_data_size = 2\<rparr>"

theorem int_field_roundtrip_witness:
  "\<exists>s s'. pb_enc_svarint (Some pb_buf_write) (pb_ostream_from_buffer (replicate 20 0) 20) sample_member [0xFE, 0xFF] = Some (True, s) \<and>
     pb_dec_svarint buf_io (pb_istream_from_buffer (fst (os_state s)) (bytes_written s)) sample_member [0, 0] = Some (True, [0xFE, 0xFF], s')"
proof -
  have n: "length (varint_of w) < size_max1" "length (varint_of w) \<le> 20" for w using varint_of_facts(4) [of w] by (simp_all add: size_max1_def)
  have "sink_ok buf_rest (pb_ostream_from_buffer (replicate 20 0) 20)" by (rule out_ok) (simp_all add: size_max1_def)
  then have "\<exists>s. pb_write (Some pb_buf_write) (pb_ostream_from_buffer (replicate 20 0) 20) (varint_of w) = Some (True, s)" for w
    using pb_out.emits_write [OF _ n(1), of _ w] n(2) [of w] by (fastforce simp: emits_def pb_ostream_from_buffer_def)
  then obtain s where s: "pb_enc_svarint (Some pb_buf_write) (pb_ostream_from_buffer (replicate 20 0) 20) sample_member [0xFE, 0xFF] = Some (True, s)"
    by (auto simp: pb_enc_svarint_def pb_encode_svarint_def encode_varint_eq sample_member_def int_sizes_def)
  show ?thesis using s int_field_roundtrip [where enc = pb_enc_svarint and dec = pb_dec_svarint and f = sample_member and src = "[0xFE, 0xFF]" and dest = "[0, 0]" and mem = "replicate 20 0" and n = 20 and s = s]
    by (auto simp: sample_member_def int_sizes_def size_max1_def)
qed

end
